(* ===== verification/Go_Prelude.thy ===== *)
theory Go_Prelude
  imports Main "HOL-Library.Monad_Syntax"
begin

section \<open>Shared vocabulary: the fragment of Go the components use\<close>

text \<open>
  Go code fails by panicking: an out-of-range index or slice expression, or an explicit call of
  \<^verbatim>\<open>panic\<close> or \<^verbatim>\<open>log.Fatalf\<close>, ends the process.  A computation that can panic has an option type
  here and \<^const>\<open>None\<close> is the panic, so the order of the source's statements is kept by \<open>do\<close>
  blocks and a theorem that a handler returns \<^const>\<open>Some\<close> says that it does not crash.

  Go's \<^verbatim>\<open>int\<close> and \<^verbatim>\<open>int64\<close> values (terms, indices, identifiers, sequence numbers) are modelled
  by \<^typ>\<open>int\<close>: they are only incremented by one, copied and compared, and \<open>2^63\<close> increments are
  out of reach.  Negative values do occur (\<^verbatim>\<open>-1\<close> for \<^verbatim>\<open>noVote\<close>), hence no \<^typ>\<open>nat\<close>.

  A slice is a list.  The theory holds the slice operations, the loop combinator \<open>for_loop\<close> with
  its invariant rule, and a few facts on lists, options and maps that several components share.
\<close>

named_theorems go_simps \<open>rewrite rules that evaluate Go's slice operations\<close>
named_theorems panic_free \<open>facts that an operation returns rather than panics\<close>

subsection \<open>Slices\<close>

text \<open>\<open>xs[i]\<close>, \<open>xs[i] = v\<close>, \<open>xs[i:]\<close> and \<open>xs[:i]\<close>, each with Go's bounds check.\<close>

definition idx :: "'a list \<Rightarrow> int \<Rightarrow> 'a option" where
  "idx xs i = (if 0 \<le> i \<and> i < int (length xs) then Some (xs ! nat i) else None)"

definition set_idx :: "'a list \<Rightarrow> int \<Rightarrow> 'a \<Rightarrow> 'a list option" where
  "set_idx xs i v = (if 0 \<le> i \<and> i < int (length xs) then Some (xs[nat i := v]) else None)"

definition slice_from :: "'a list \<Rightarrow> int \<Rightarrow> 'a list option" where
  "slice_from xs i = (if 0 \<le> i \<and> i \<le> int (length xs) then Some (drop (nat i) xs) else None)"

definition slice_to :: "'a list \<Rightarrow> int \<Rightarrow> 'a list option" where
  "slice_to xs i = (if 0 \<le> i \<and> i \<le> int (length xs) then Some (take (nat i) xs) else None)"

lemma idx_Some_iff [go_simps]:
  "idx xs i = Some x \<longleftrightarrow> 0 \<le> i \<and> i < int (length xs) \<and> x = xs ! nat i"
  by (auto simp: idx_def)

lemma idx_None_iff [go_simps]: "idx xs i = None \<longleftrightarrow> i < 0 \<or> int (length xs) \<le> i"
  by (auto simp: idx_def)

lemma idx_in_range [simp, panic_free]:
  "0 \<le> i \<Longrightarrow> i < int (length xs) \<Longrightarrow> idx xs i = Some (xs ! nat i)"
  by (simp add: idx_def)

lemma idx_0_Cons [simp]: "idx (x # xs) 0 = Some x"
  by simp

lemma idx_0: "xs \<noteq> [] \<Longrightarrow> idx xs 0 = Some (hd xs)"
  by (cases xs) simp_all

lemma idx_append_left:
  "i < int (length xs) \<Longrightarrow> idx (xs @ ys) i = idx xs i"
  by (auto simp: idx_def nth_append nat_less_iff)

lemma idx_take: "i < int n \<Longrightarrow> idx (take n xs) i = idx xs i"
  by (auto simp: idx_def)

lemma set_idx_Some_iff [go_simps]:
  "set_idx xs i v = Some ys \<longleftrightarrow> 0 \<le> i \<and> i < int (length xs) \<and> ys = xs[nat i := v]"
  by (auto simp: set_idx_def)

lemma set_idx_in_range [simp, panic_free]:
  "0 \<le> i \<Longrightarrow> i < int (length xs) \<Longrightarrow> set_idx xs i v = Some (xs[nat i := v])"
  by (simp add: set_idx_def)

lemma length_set_idx: "set_idx xs i v = Some ys \<Longrightarrow> length ys = length xs"
  by (auto simp: set_idx_def split: if_splits)

lemma slice_from_in_range [simp, panic_free]:
  "0 \<le> i \<Longrightarrow> i \<le> int (length xs) \<Longrightarrow> slice_from xs i = Some (drop (nat i) xs)"
  by (simp add: slice_from_def)

lemma slice_from_Some_iff [go_simps]:
  "slice_from xs i = Some ys \<longleftrightarrow> 0 \<le> i \<and> i \<le> int (length xs) \<and> ys = drop (nat i) xs"
  by (auto simp: slice_from_def)

lemma nat_int_plus_1 [simp]: "nat (int k + 1) = Suc k" "nat (1 + int k) = Suc k"
  by simp_all

lemma slice_to_in_range [simp, panic_free]:
  "0 \<le> i \<Longrightarrow> i \<le> int (length xs) \<Longrightarrow> slice_to xs i = Some (take (nat i) xs)"
  by (simp add: slice_to_def)

lemma slice_to_Some_iff [go_simps]:
  "slice_to xs i = Some ys \<longleftrightarrow> 0 \<le> i \<and> i \<le> int (length xs) \<and> ys = take (nat i) xs"
  by (auto simp: slice_to_def)

subsection \<open>Loops\<close>

text \<open>
  \<open>for_loop is body s\<close> runs the body for every element of \<open>is\<close>, in order, threading the state
  \<open>s\<close>: a \<^verbatim>\<open>for .. range\<close> or counting loop whose body may panic.
\<close>

fun for_loop :: "'i list \<Rightarrow> ('i \<Rightarrow> 's \<Rightarrow> 's option) \<Rightarrow> 's \<Rightarrow> 's option" where
  "for_loop [] body s = Some s"
| "for_loop (i # is) body s = (case body i s of None \<Rightarrow> None | Some s' \<Rightarrow> for_loop is body s')"

lemma for_loop_append:
  "for_loop (is @ js) body s = Option.bind (for_loop is body s) (for_loop js body)"
  by (induction "is" arbitrary: s) (auto split: option.splits)

lemma for_loop_inv:
  assumes "for_loop is body s = Some t" and "P s"
    and "\<And>i u v. i \<in> set is \<Longrightarrow> P u \<Longrightarrow> body i u = Some v \<Longrightarrow> P v"
  shows "P t"
  using assms
proof (induction "is" arbitrary: s)
  case Nil
  then show ?case by simp
next
  case (Cons i "is")
  from Cons.prems(1) obtain u where u: "body i s = Some u" "for_loop is body u = Some t"
    by (auto split: option.splits)
  show ?case
  proof (rule Cons.IH [OF u(2)])
    show "P u" using Cons.prems(2,3) u(1) by auto
    show "\<And>j v w. j \<in> set is \<Longrightarrow> P v \<Longrightarrow> body j v = Some w \<Longrightarrow> P w"
      using Cons.prems(3) by auto
  qed
qed

lemma for_loop_total:
  assumes "P s"
    and "\<And>i u. i \<in> set is \<Longrightarrow> P u \<Longrightarrow> \<exists>v. body i u = Some v \<and> P v"
  shows "\<exists>t. for_loop is body s = Some t \<and> P t"
  using assms
proof (induction "is" arbitrary: s)
  case Nil
  then show ?case by simp
next
  case (Cons i "is")
  from Cons.prems(2) [of i s] Cons.prems(1) obtain u where u: "body i s = Some u" "P u" by auto
  from Cons.IH [OF u(2)] Cons.prems(2) have "\<exists>t. for_loop is body u = Some t \<and> P t"
    by auto
  with u show ?case by simp
qed

text \<open>A loop whose body never panics is a fold.\<close>

lemma for_loop_fold:
  "(\<And>i u. i \<in> set is \<Longrightarrow> body i u = Some (f i u)) \<Longrightarrow> for_loop is body s = Some (fold f is s)"
  by (induction "is" arbitrary: s) auto

subsection \<open>Sorting\<close>

text \<open>
  \<^verbatim>\<open>sort.SliceStable\<close> runs an insertion sort on slices of up to twenty elements, and \<^verbatim>\<open>sort.Sort\<close> on slices
  of up to twelve: each element moves to the left as long as it is less than its neighbour.  The
  sorted part is kept reversed.
\<close>

fun moveLeft :: "('a \<Rightarrow> 'a \<Rightarrow> bool) \<Rightarrow> 'a \<Rightarrow> 'a list \<Rightarrow> 'a list" where
  "moveLeft lt x [] = [x]"
| "moveLeft lt x (y # ys) = (if lt x y then y # moveLeft lt x ys else x # y # ys)"

definition sliceStable :: "('a \<Rightarrow> 'a \<Rightarrow> bool) \<Rightarrow> 'a list \<Rightarrow> 'a list" where
  "sliceStable lt xs = rev (fold (moveLeft lt) xs [])"

text \<open>An order matters only on the elements of the list.\<close>

lemma sorted_wrt_eqI:
  "(\<And>x y. x \<in> set xs \<Longrightarrow> y \<in> set xs \<Longrightarrow> P x y = Q x y) \<Longrightarrow> sorted_wrt P xs = sorted_wrt Q xs"
  by (induction xs) auto

subsection \<open>Options and maps\<close>

lemmas bind_convs = Option.bind_eq_Some_conv Option.bind_eq_None_conv

lemma ex_bind_Some: "(\<exists>y. Option.bind m f = Some y) \<longleftrightarrow> (\<exists>x y. m = Some x \<and> f x = Some y)"
  by (cases m) auto

text \<open>A Go map read \<open>m[k]\<close> yields the zero value \<open>z\<close> for a missing key.\<close>

definition map_get :: "('k \<rightharpoonup> 'v) \<Rightarrow> 'v \<Rightarrow> 'k \<Rightarrow> 'v" where
  "map_get m z k = (case m k of None \<Rightarrow> z | Some v \<Rightarrow> v)"

lemma map_get_upd [simp]: "map_get (m(k \<mapsto> v)) z k' = (if k' = k then v else map_get m z k')"
  by (simp add: map_get_def)

lemma map_get_empty [simp]: "map_get Map.empty z k = z"
  by (simp add: map_get_def)

end
