(* ===== verification/Systems.thy ===== *)
theory Systems
  imports Go_Prelude
begin

section \<open>Transition systems and quorums\<close>

text \<open>
  The two arguments that the protocol proofs share, each stated once as a locale: an inductive
  invariant holds in every reachable state, and two quorums that agree on something agree on the
  same thing.  \<open>majority\<close> is the quorum of the code, which compares a count with \<^verbatim>\<open>n/2\<close>.
\<close>

inductive reach :: "('s \<Rightarrow> bool) \<Rightarrow> ('s \<Rightarrow> 's \<Rightarrow> bool) \<Rightarrow> 's \<Rightarrow> bool"
  for init :: "'s \<Rightarrow> bool" and step :: "'s \<Rightarrow> 's \<Rightarrow> bool" where
  reach_init: "init s \<Longrightarrow> reach init step s"
| reach_step: "reach init step s \<Longrightarrow> step s s' \<Longrightarrow> reach init step s'"

lemma reach_steps: "step\<^sup>*\<^sup>* s s' \<Longrightarrow> reach init step s \<Longrightarrow> reach init step s'"
  by (induction rule: rtranclp_induct) (auto intro: reach_step)

locale inductive_invariant =
  fixes init :: "'s \<Rightarrow> bool"
    and step :: "'s \<Rightarrow> 's \<Rightarrow> bool"
    and inv :: "'s \<Rightarrow> bool"
  assumes inv_init: "init s \<Longrightarrow> inv s"
    and inv_step: "inv s \<Longrightarrow> step s s' \<Longrightarrow> inv s'"
begin

lemma inv_reach: "reach init step s \<Longrightarrow> inv s"
  by (induction rule: reach.induct) (auto intro: inv_init inv_step)

lemma inv_steps: "step\<^sup>*\<^sup>* s s' \<Longrightarrow> inv s \<Longrightarrow> inv s'"
  by (induction rule: rtranclp_induct) (auto intro: inv_step)

lemma no_bad_state: "reach init step s \<Longrightarrow> (\<And>t. inv t \<Longrightarrow> \<not> bad t) \<Longrightarrow> \<not> bad s"
  using inv_reach by blast

end

locale quorum_system =
  fixes quorum :: "'p set \<Rightarrow> bool"
  assumes quorums_meet: "quorum Q \<Longrightarrow> quorum R \<Longrightarrow> Q \<inter> R \<noteq> {}"
begin

text \<open>If every member of two quorums has made a choice, and no member makes two, they agree.\<close>

lemma choices_agree:
  assumes "quorum Q" and "quorum R"
    and "\<And>p. p \<in> Q \<Longrightarrow> chose p v" and "\<And>p. p \<in> R \<Longrightarrow> chose p w"
    and "\<And>p a b. chose p a \<Longrightarrow> chose p b \<Longrightarrow> a = b"
  shows "v = w"
proof -
  from quorums_meet [OF assms(1,2)] obtain p where "p \<in> Q" "p \<in> R" by blast
  with assms(3-5) show ?thesis by blast
qed

lemma quorum_nonempty: "quorum Q \<Longrightarrow> Q \<noteq> {}"
  using quorums_meet [of Q Q] by blast

end

definition majority :: "nat \<Rightarrow> nat set \<Rightarrow> bool" where
  "majority n Q \<longleftrightarrow> Q \<subseteq> {..<n} \<and> card Q > n div 2"

lemma majorities_meet:
  assumes "majority n Q" and "majority n R"
  shows "Q \<inter> R \<noteq> {}"
proof
  assume "Q \<inter> R = {}"
  moreover have "finite Q" "finite R" "Q \<union> R \<subseteq> {..<n}"
    using assms by (auto simp: majority_def intro: finite_subset [of _ "{..<n}"])
  ultimately have "card Q + card R \<le> n"
    using card_Un_disjoint [of Q R] card_mono [of "{..<n}" "Q \<union> R"] by simp
  moreover have "n div 2 < card Q" "n div 2 < card R"
    using assms by (simp_all add: majority_def)
  ultimately show False by linarith
qed

interpretation maj: quorum_system "majority n" for n
  by unfold_locales (rule majorities_meet)

end
