(* ===== verification/Labrpc.thy ===== *)
theory Labrpc
  imports Systems "HOL-Library.Word"
begin

section \<open>The simulated network (\<^verbatim>\<open>labrpc/labrpc.go\<close>)\<close>

text \<open>
  Client ends, servers and the network between them.  Type variables: \<open>'n\<close> names (\<^verbatim>\<open>interface{}\<close>) of ends and servers, \<open>'y\<close>
  bytes, \<open>'w\<close> the state of the objects whose methods are called.  A \<^verbatim>\<open>*Server\<close> is an address of type \<^typ>\<open>nat\<close>
  in the store \<open>heap\<close>; \<^verbatim>\<open>nil\<close> is \<^const>\<open>None\<close>.  What reflection tells about a method is a record, and
  its call, with the decoding of the arguments and the encoding of the reply, a function on bytes.  Random
  numbers are arguments.  A goroutine that waits, sleeps or is spawned is split into the pieces between.
\<close>

subsection \<open>Data\<close>

record ('n, 'y) reqMsg =
  rq_endname :: 'n
  rq_svcMeth :: string
  rq_args :: "'y list"

record 'y replyMsg =
  rp_ok :: bool
  rp_reply :: "'y list"

definition failed :: "'y replyMsg" where
  "failed = \<lparr>rp_ok = False, rp_reply = []\<rparr>"

record ('w, 'y) Method =
  me_Name :: string
  me_PkgPath :: string
  me_NumIn :: nat
  me_In2Ptr :: bool
  me_NumOut :: nat
  me_Func :: "'y list \<Rightarrow> 'w \<Rightarrow> 'w \<times> 'y list"

record ('w, 'y) Service =
  svc_name :: string
  svc_methods :: "string \<rightharpoonup> ('w, 'y) Method"

record ('w, 'y) Server =
  srv_services :: "string \<rightharpoonup> ('w, 'y) Service"
  srv_count :: int

record 'n ClientEnd =
  ce_endname :: 'n

record 'n Network =
  reliable :: bool
  longDelays :: bool
  longReordering :: bool
  ends :: "'n \<rightharpoonup> 'n ClientEnd"
  enabled :: "'n \<Rightarrow> bool"
  servers :: "'n \<Rightarrow> nat option"
  connections :: "'n \<Rightarrow> 'n option"
  net_done :: bool \<comment> \<open>\<^verbatim>\<open>done\<close> is closed\<close>
  serving :: bool \<comment> \<open>the goroutine that takes the requests is running\<close>
  net_count :: "32 word"
  net_bytes :: "64 word"

subsection \<open>Configuring the network\<close>

definition MakeNetwork :: "'n Network" where
  "MakeNetwork = \<lparr>reliable = True, longDelays = False, longReordering = False, ends = Map.empty,
     enabled = (\<lambda>e. False), servers = (\<lambda>s. None), connections = (\<lambda>e. None), net_done = False, serving = True,
     net_count = 0, net_bytes = 0\<rparr>"

text \<open>Closing a closed channel panics.\<close>

definition Cleanup :: "'n Network \<Rightarrow> 'n Network option" where
  "Cleanup rn = (if net_done rn then None else Some (rn\<lparr>net_done := True\<rparr>))"

definition Reliable :: "'n Network \<Rightarrow> bool \<Rightarrow> 'n Network" where
  "Reliable rn yes = rn\<lparr>reliable := yes\<rparr>"

definition LongReordering :: "'n Network \<Rightarrow> bool \<Rightarrow> 'n Network" where
  "LongReordering rn yes = rn\<lparr>longReordering := yes\<rparr>"

definition LongDelays :: "'n Network \<Rightarrow> bool \<Rightarrow> 'n Network" where
  "LongDelays rn yes = rn\<lparr>longDelays := yes\<rparr>"

definition MakeEnd :: "'n Network \<Rightarrow> 'n \<Rightarrow> ('n Network \<times> 'n ClientEnd) option" where
  "MakeEnd rn endname = (case ends rn endname of
     Some _ \<Rightarrow> None
   | None \<Rightarrow> let e = \<lparr>ce_endname = endname\<rparr> in
       Some (rn\<lparr>ends := (ends rn)(endname \<mapsto> e), enabled := (enabled rn)(endname := False),
         connections := (connections rn)(endname := None)\<rparr>, e))"

definition AddServer :: "'n Network \<Rightarrow> 'n \<Rightarrow> nat \<Rightarrow> 'n Network" where
  "AddServer rn name rs = rn\<lparr>servers := (servers rn)(name := Some rs)\<rparr>"

definition DeleteServer :: "'n Network \<Rightarrow> 'n \<Rightarrow> 'n Network" where
  "DeleteServer rn name = rn\<lparr>servers := (servers rn)(name := None)\<rparr>"

definition Connect :: "'n Network \<Rightarrow> 'n \<Rightarrow> 'n \<Rightarrow> 'n Network" where
  "Connect rn e name = rn\<lparr>connections := (connections rn)(e := Some name)\<rparr>"

definition Enable :: "'n Network \<Rightarrow> 'n \<Rightarrow> bool \<Rightarrow> 'n Network" where
  "Enable rn e yes = rn\<lparr>enabled := (enabled rn)(e := yes)\<rparr>"

definition GetTotalCount :: "'n Network \<Rightarrow> int" where
  "GetTotalCount rn = sint (net_count rn)"

definition GetTotalBytes :: "'n Network \<Rightarrow> int" where
  "GetTotalBytes rn = sint (net_bytes rn)"

subsection \<open>Servers and services\<close>

definition MakeServer :: "('w, 'y) Server" where
  "MakeServer = \<lparr>srv_services = Map.empty, srv_count = 0\<rparr>"

definition AddService :: "('w, 'y) Server \<Rightarrow> ('w, 'y) Service \<Rightarrow> ('w, 'y) Server" where
  "AddService rs svc = rs\<lparr>srv_services := (srv_services rs)(svc_name svc \<mapsto> svc)\<rparr>"

definition Server_GetCount :: "('w, 'y) Server \<Rightarrow> int" where
  "Server_GetCount rs = srv_count rs"

definition GetCount :: "'n Network \<Rightarrow> (nat \<Rightarrow> ('w, 'y) Server) \<Rightarrow> 'n \<Rightarrow> int option" where
  "GetCount rn heap name = do {
     rs \<leftarrow> servers rn name; \<comment> \<open>the method of a nil server panics\<close>
     Some (Server_GetCount (heap rs))
   }"

text \<open>The methods of the receiver that look like handlers.\<close>

definition suitable :: "('w, 'y) Method \<Rightarrow> bool" where
  "suitable m \<longleftrightarrow> \<not> (me_PkgPath m \<noteq> '''' \<or> me_NumIn m \<noteq> 3 \<or> \<not> me_In2Ptr m \<or> me_NumOut m \<noteq> 0)"

definition MakeService :: "string \<Rightarrow> ('w, 'y) Method list \<Rightarrow> ('w, 'y) Service" where
  "MakeService name ms = \<lparr>svc_name = name,
     svc_methods = fold (\<lambda>m f. if suitable m then f(me_Name m \<mapsto> m) else f) ms Map.empty\<rparr>"

text \<open>\<^verbatim>\<open>strings.LastIndex\<close> for a single character.\<close>

fun LastIndex :: "string \<Rightarrow> char \<Rightarrow> int" where
  "LastIndex [] c = -1"
| "LastIndex (x # xs) c = (let i = LastIndex xs c in if i \<ge> 0 then i + 1 else if x = c then 0 else -1)"

definition Service_dispatch ::
  "('w, 'y) Service \<Rightarrow> string \<Rightarrow> ('n, 'y) reqMsg \<Rightarrow> 'w \<Rightarrow> ('w \<times> 'y replyMsg) option" where
  "Service_dispatch svc meth req w = do {
     m \<leftarrow> svc_methods svc meth;
     let (w', rb) = me_Func m (rq_args req) w;
     Some (w', \<lparr>rp_ok = True, rp_reply = rb\<rparr>)
   }"

definition Server_dispatch ::
  "('w, 'y) Server \<Rightarrow> ('n, 'y) reqMsg \<Rightarrow> 'w \<Rightarrow> (('w, 'y) Server \<times> 'w \<times> 'y replyMsg) option" where
  "Server_dispatch rs req w = do {
     let rs' = rs\<lparr>srv_count := srv_count rs + 1\<rparr>;
     let dot = LastIndex (rq_svcMeth req) (CHR ''.'');
     serviceName \<leftarrow> slice_to (rq_svcMeth req) dot;
     methodName \<leftarrow> slice_from (rq_svcMeth req) (dot + 1);
     service \<leftarrow> srv_services rs' serviceName;
     (w', r) \<leftarrow> Service_dispatch service methodName req w;
     Some (rs', w', r)
   }"

subsection \<open>The life of a call\<close>

text \<open>
  What the goroutine \<^verbatim>\<open>processReq\<close> of a call has found out: the server's name and address and the two flags, as they
  were when it looked.
\<close>

record 'n found =
  fo_servername :: 'n
  fo_server :: nat
  fo_reliable :: bool
  fo_longreordering :: bool

definition readEndnameInfo :: "'n Network \<Rightarrow> 'n \<Rightarrow> bool \<times> 'n option \<times> nat option \<times> bool \<times> bool" where
  "readEndnameInfo rn e = (enabled rn e, connections rn e,
     (case connections rn e of None \<Rightarrow> None | Some name \<Rightarrow> servers rn name), reliable rn, longReordering rn)"

definition isServerDead :: "'n Network \<Rightarrow> 'n \<Rightarrow> 'n \<Rightarrow> nat \<Rightarrow> bool" where
  "isServerDead rn e name rs \<longleftrightarrow> \<not> enabled rn e \<or> servers rn name \<noteq> Some rs"

text \<open>
  The phases of the goroutine: \<open>Queued\<close> (just started), \<open>Sleeping\<close> before the request is dropped or handled, \<open>Waiting\<close>
  for the handler, \<open>Returned\<close> (the handler's reply has come), \<open>Replying\<close> (a reply is put on the channel of the call after
  the given number of milliseconds), \<open>Closed\<close> (the caller has it).  The handler runs in a goroutine of its own, and may
  still run when nobody waits.
\<close>

datatype ('n, 'y) phase =
    Queued
  | Sleeping "'n found" nat
  | Waiting "'n found"
  | Returned "'n found" "'y replyMsg"
  | Replying nat "'y replyMsg"
  | Closed "'y replyMsg"

datatype 'y handler = Idle | Running nat | Finished nat "'y replyMsg"

record ('n, 'y) call =
  ca_req :: "('n, 'y) reqMsg"
  ca_phase :: "('n, 'y) phase"
  ca_handler :: "'y handler"

text \<open>
  \<^verbatim>\<open>ClientEnd.Call\<close> up to the channel, where the network's goroutine takes the request and starts \<^verbatim>\<open>processReq\<close>.  Once \<^verbatim>\<open>done\<close>
  is closed that goroutine may take a few more requests, and then stops; a call may give up.
\<close>

definition Call_send :: "'n Network \<Rightarrow> 'n ClientEnd \<Rightarrow> string \<Rightarrow> 'y list \<Rightarrow> ('n Network \<times> ('n, 'y) call) option" where
  "Call_send rn e meth args =
     (if serving rn
      then Some (rn\<lparr>net_count := net_count rn + 1, net_bytes := net_bytes rn + of_nat (length args)\<rparr>,
        \<lparr>ca_req = \<lparr>rq_endname = ce_endname e, rq_svcMeth = meth, rq_args = args\<rparr>, ca_phase = Queued, ca_handler = Idle\<rparr>)
      else None)"

definition Call_destroyed :: "'n Network \<Rightarrow> bool option" where
  "Call_destroyed rn = (if net_done rn then Some False else None)"

definition stopServing :: "'n Network \<Rightarrow> 'n Network option" where
  "stopServing rn = (if net_done rn then Some (rn\<lparr>serving := False\<rparr>) else None)"

text \<open>
  The start of \<^verbatim>\<open>processReq\<close>: look up the server, and sleep when the network is unreliable; a call to nobody fails after a
  delay.
\<close>

definition noServerDelay :: "'n Network \<Rightarrow> nat \<Rightarrow> nat" where
  "noServerDelay rn r = (if longDelays rn then r mod 7000 else r mod 100)"

definition processStart :: "'n Network \<Rightarrow> nat \<Rightarrow> ('n, 'y) call \<Rightarrow> ('n, 'y) call" where
  "processStart rn r c = (case readEndnameInfo rn (rq_endname (ca_req c)) of
     (True, Some name, Some rs, rel, longre) \<Rightarrow>
       c\<lparr>ca_phase := Sleeping
           \<lparr>fo_servername = name, fo_server = rs, fo_reliable = rel, fo_longreordering = longre\<rparr>
           (if \<not> rel then r mod 27 else 0)\<rparr>
   | _ \<Rightarrow> c\<lparr>ca_phase := Replying (noServerDelay rn r) failed\<rparr>)"

text \<open>Perhaps drop the request, else start the handler.\<close>

definition drops :: "bool \<Rightarrow> nat \<Rightarrow> bool" where
  "drops rel r \<longleftrightarrow> \<not> rel \<and> r mod 1000 < 100"

definition processExec :: "nat \<Rightarrow> ('n, 'y) call \<Rightarrow> ('n, 'y) call" where
  "processExec r c = (case ca_phase c of
     Sleeping f _ \<Rightarrow>
       if drops (fo_reliable f) r then c\<lparr>ca_phase := Replying 0 failed\<rparr>
       else c\<lparr>ca_phase := Waiting f, ca_handler := Running (fo_server f)\<rparr>
   | _ \<Rightarrow> c)"

text \<open>The handler's goroutine; \<^const>\<open>None\<close> is the end of the program by \<^verbatim>\<open>log.Fatalf\<close>.\<close>

definition runHandler ::
  "(nat \<Rightarrow> ('w, 'y) Server) \<Rightarrow> ('n, 'y) call \<Rightarrow> 'w \<Rightarrow> ((nat \<Rightarrow> ('w, 'y) Server) \<times> ('n, 'y) call \<times> 'w) option" where
  "runHandler heap c w = (case ca_handler c of
     Running rs \<Rightarrow> do {
       (srv, w', r) \<leftarrow> Server_dispatch (heap rs) (ca_req c) w;
       Some (heap(rs := srv), c\<lparr>ca_handler := Finished rs r\<rparr>, w')
     }
   | _ \<Rightarrow> Some (heap, c, w))"

text \<open>One round of the waiting loop: the handler's reply, or a look at the server after 100 ms.\<close>

definition waitReply :: "('n, 'y) call \<Rightarrow> ('n, 'y) call" where
  "waitReply c = (case (ca_phase c, ca_handler c) of
     (Waiting f, Finished rs r) \<Rightarrow> c\<lparr>ca_phase := Returned f r\<rparr>
   | _ \<Rightarrow> c)"

definition waitTimeout :: "'n Network \<Rightarrow> ('n, 'y) call \<Rightarrow> ('n, 'y) call" where
  "waitTimeout rn c = (case ca_phase c of
     Waiting f \<Rightarrow> if isServerDead rn (rq_endname (ca_req c)) (fo_servername f) (fo_server f)
       then c\<lparr>ca_phase := Replying 0 failed\<rparr> else c
   | _ \<Rightarrow> c)"

text \<open>The end of \<^verbatim>\<open>processReq\<close>: the last look at the server, drop or delay the reply.\<close>

definition replyDelay :: "bool \<Rightarrow> nat \<Rightarrow> nat \<Rightarrow> nat \<Rightarrow> nat" where
  "replyDelay longre r1 r2 r3 = (if longre \<and> r1 mod 900 < 600 then 200 + r3 mod (1 + r2 mod 2000) else 0)"

definition processEnd :: "'n Network \<Rightarrow> nat \<Rightarrow> nat \<Rightarrow> nat \<Rightarrow> nat \<Rightarrow> ('n, 'y) call \<Rightarrow> ('n, 'y) call" where
  "processEnd rn r r1 r2 r3 c = (case ca_phase c of
     Returned f rep \<Rightarrow>
       if isServerDead rn (rq_endname (ca_req c)) (fo_servername f) (fo_server f)
       then c\<lparr>ca_phase := Replying 0 failed\<rparr>
       else if drops (fo_reliable f) r then c\<lparr>ca_phase := Replying 0 failed\<rparr>
       else c\<lparr>ca_phase := Replying (replyDelay (fo_longreordering f) r1 r2 r3) rep\<rparr>
   | _ \<Rightarrow> c)"

text \<open>The reply goes over the channel (its bytes are counted; a failure has none) and \<^verbatim>\<open>Call\<close> returns it.\<close>

definition Call_finish :: "'n Network \<Rightarrow> ('n, 'y) call \<Rightarrow> 'n Network \<times> ('n, 'y) call" where
  "Call_finish rn c = (case ca_phase c of
     Replying _ rep \<Rightarrow> (rn\<lparr>net_bytes := net_bytes rn + of_nat (length (rp_reply rep))\<rparr>, c\<lparr>ca_phase := Closed rep\<rparr>)
   | _ \<Rightarrow> (rn, c))"

subsection \<open>All calls together\<close>

record ('n, 'w, 'y) system =
  sy_net :: "'n Network"
  sy_heap :: "nat \<Rightarrow> ('w, 'y) Server"
  sy_calls :: "nat \<Rightarrow> ('n, 'y) call option" \<comment> \<open>by the number of the call\<close>
  sy_world :: 'w

abbreviation set_call :: "nat \<Rightarrow> ('n, 'y) call \<Rightarrow> ('n, 'w, 'y) system \<Rightarrow> ('n, 'w, 'y) system" where
  "set_call k c s \<equiv> s\<lparr>sy_calls := (sy_calls s)(k := Some c)\<rparr>"

text \<open>
  What the program that uses the network may do to it, at any time: each end is connected to one server only
  (\<open>dest\<close>, as the comment on \<^verbatim>\<open>Connect\<close> asks) and each server object is added under one name (\<open>host\<close>).
\<close>

inductive configure :: "('n \<Rightarrow> 'n) \<Rightarrow> (nat \<Rightarrow> 'n) \<Rightarrow> 'n Network \<Rightarrow> 'n Network \<Rightarrow> bool" for dest host where
  gMakeEnd: "MakeEnd rn endname = Some (rn', e) \<Longrightarrow> configure dest host rn rn'"
| gConnect: "configure dest host rn (Connect rn e (dest e))"
| gEnable: "configure dest host rn (Enable rn e yes)"
| gAddServer: "configure dest host rn (AddServer rn (host rs) rs)"
| gDeleteServer: "configure dest host rn (DeleteServer rn name)"
| gReliable: "configure dest host rn (Reliable rn yes)"
| gLongReordering: "configure dest host rn (LongReordering rn yes)"
| gLongDelays: "configure dest host rn (LongDelays rn yes)"
| gCleanup: "Cleanup rn = Some rn' \<Longrightarrow> configure dest host rn rn'"
| gStop: "stopServing rn = Some rn' \<Longrightarrow> configure dest host rn rn'"

text \<open>The steps of the calls, in any order, between them those of the configuration.\<close>

inductive rpc_step :: "('n \<Rightarrow> 'n) \<Rightarrow> (nat \<Rightarrow> 'n) \<Rightarrow> ('n, 'w, 'y) system \<Rightarrow> ('n, 'w, 'y) system \<Rightarrow> bool" for dest host where
  rSend: "sy_calls s k = None \<Longrightarrow> Call_send (sy_net s) e meth args = Some (rn, c) \<Longrightarrow>
    rpc_step dest host s (set_call k c (s\<lparr>sy_net := rn\<rparr>))"
| rStart: "sy_calls s k = Some c \<Longrightarrow> ca_phase c = Queued \<Longrightarrow>
    rpc_step dest host s (set_call k (processStart (sy_net s) r c) s)"
| rExec: "sy_calls s k = Some c \<Longrightarrow> rpc_step dest host s (set_call k (processExec r c) s)"
| rHandle: "sy_calls s k = Some c \<Longrightarrow> runHandler (sy_heap s) c (sy_world s) = Some (h', c', w') \<Longrightarrow>
    rpc_step dest host s (set_call k c' (s\<lparr>sy_heap := h', sy_world := w'\<rparr>))"
| rReply: "sy_calls s k = Some c \<Longrightarrow> rpc_step dest host s (set_call k (waitReply c) s)"
| rTimeout: "sy_calls s k = Some c \<Longrightarrow> rpc_step dest host s (set_call k (waitTimeout (sy_net s) c) s)"
| rEnd: "sy_calls s k = Some c \<Longrightarrow> rpc_step dest host s (set_call k (processEnd (sy_net s) r r1 r2 r3 c) s)"
| rFinish: "sy_calls s k = Some c \<Longrightarrow> Call_finish (sy_net s) c = (rn, c') \<Longrightarrow>
    rpc_step dest host s (set_call k c' (s\<lparr>sy_net := rn\<rparr>))"
| rConfigure: "configure dest host (sy_net s) rn \<Longrightarrow> rpc_step dest host s (s\<lparr>sy_net := rn\<rparr>)"

text \<open>At first there is a new network, and no call.\<close>

definition rpc_init :: "('n, 'w, 'y) system \<Rightarrow> bool" where
  "rpc_init s \<longleftrightarrow> sy_net s = MakeNetwork \<and> sy_calls s = (\<lambda>k. None) \<and> (\<forall>a. srv_count (sy_heap s a) = 0)"

end
