(* ===== verification/Persister.thy ===== *)
theory Persister
  imports Go_Prelude
begin

section \<open>Stable storage (\<^verbatim>\<open>raft/persister.go\<close>)\<close>

text \<open>
  A \<open>Persister\<close> holds the bytes of the Raft state and of the service snapshot.  The bytes are
  produced and read back by \<^verbatim>\<open>labgob\<close>, a wrapper of the standard library's \<^verbatim>\<open>encoding/gob\<close>; the
  model keeps the encoded values themselves, and \<^const>\<open>None\<close> for a nil or empty byte slice (every
  reader of the two fields treats those two alike).  The operations copy the bytes under a lock,
  so each is one atomic step on values.  The size of the encoding, which the services compare
  with their limit, is a parameter \<open>size_of\<close> of the functions that read it.
\<close>

record ('r, 'b) Persister =
  raftstate :: "'r option"
  psnapshot :: "'b option"

definition MakePersister :: "('r, 'b) Persister" where
  "MakePersister = \<lparr>raftstate = None, psnapshot = None\<rparr>"

definition Copy :: "('r, 'b) Persister \<Rightarrow> ('r, 'b) Persister" where
  "Copy ps = MakePersister\<lparr>raftstate := raftstate ps, psnapshot := psnapshot ps\<rparr>"

definition ReadRaftState :: "('r, 'b) Persister \<Rightarrow> 'r option" where
  "ReadRaftState ps = raftstate ps"

definition RaftStateSize :: "('r \<Rightarrow> nat) \<Rightarrow> ('r, 'b) Persister \<Rightarrow> nat" where
  "RaftStateSize size_of ps = (case raftstate ps of None \<Rightarrow> 0 | Some r \<Rightarrow> size_of r)"

definition Save :: "('r, 'b) Persister \<Rightarrow> 'r option \<Rightarrow> 'b option \<Rightarrow> ('r, 'b) Persister" where
  "Save ps r b = ps\<lparr>raftstate := r, psnapshot := b\<rparr>"

definition SaveRaftState :: "('r, 'b) Persister \<Rightarrow> 'r option \<Rightarrow> ('r, 'b) Persister" where
  "SaveRaftState ps r = ps\<lparr>raftstate := r\<rparr>"

definition ReadSnapshot :: "('r, 'b) Persister \<Rightarrow> 'b option" where
  "ReadSnapshot ps = psnapshot ps"

definition SnapshotSize :: "('b \<Rightarrow> nat) \<Rightarrow> ('r, 'b) Persister \<Rightarrow> nat" where
  "SnapshotSize size_of ps = (case psnapshot ps of None \<Rightarrow> 0 | Some b \<Rightarrow> size_of b)"

lemma Save_read [simp]:
  "ReadRaftState (Save ps r b) = r" "ReadSnapshot (Save ps r b) = b"
  by (simp_all add: Save_def ReadRaftState_def ReadSnapshot_def)

lemma SaveRaftState_read [simp]:
  "ReadRaftState (SaveRaftState ps r) = r" "ReadSnapshot (SaveRaftState ps r) = ReadSnapshot ps"
  by (simp_all add: SaveRaftState_def ReadRaftState_def ReadSnapshot_def)

end
