(* ===== verification/Raft_Node.thy ===== *)
theory Raft_Node
  imports Persister
begin

section \<open>One Raft peer (\<^verbatim>\<open>raft/raft.go\<close>)\<close>

text \<open>
  The state of a peer and every operation that reads or writes it, in the order of the source.
  Each operation runs under \<^verbatim>\<open>rf.mu\<close> in the code, so it is one atomic function on the record
  \<open>Raft\<close>; the goroutine that sends an RPC is split at the call, into the function that builds the
  arguments and the function that handles the reply.  A result \<^const>\<open>None\<close> is a panic.

  Type variables: \<open>'c\<close> is the type of commands (\<^verbatim>\<open>interface{}\<close>; \<^const>\<open>None\<close> is nil) and \<open>'b\<close> that of
  snapshot bytes.  Not part of the state: the mutex, the timers and tickers (an election timeout
  or a heartbeat may happen at any time, see \<open>Raft_Cluster\<close>), the condition variable and the
  replicate signal (they only decide when a goroutine runs), and the debug output.
\<close>

subsection \<open>Data\<close>

datatype role = Leader | Follower | Candidate

fun role_String :: "role \<Rightarrow> string" where
  "role_String Follower = ''follower''"
| "role_String Candidate = ''candidate''"
| "role_String Leader = ''leader''"

definition noVote :: int where "noVote = -1"
definition NoLeader :: int where "NoLeader = -1"

record 'c Logt =
  Command :: "'c option"
  Term :: int

record ('c, 'b) ApplyMsg =
  CommandValid :: bool
  am_Command :: "'c option"
  CommandIndex :: int
  CommandTerm :: int
  SnapshotValid :: bool
  am_Snapshot :: "'b option"
  SnapshotTerm :: int
  SnapshotIndex :: int

record 'c PersistentStatus =
  ps_Log :: "'c Logt list"
  ps_CurrentTerm :: int
  ps_VotedFor :: int
  ps_LastIncludedIndex :: int
  ps_LastIncludedTerm :: int

record ('c, 'b) Raft =
  peers :: nat \<comment> \<open>\<^verbatim>\<open>len(rf.peers)\<close>\<close>
  persister :: "('c PersistentStatus, 'b) Persister"
  me :: int
  dead :: int
  role :: role
  leader :: int
  currentTerm :: int
  votedFor :: int
  log :: "'c Logt list"
  lastIncludedIndex :: int
  snapshot :: "'b option"
  commitIndex :: int
  lastApplied :: int
  nextIndex :: "int list"
  matchIndex :: "int list"
  replicatePreSnapshot :: bool

record RequestVoteArgs =
  rva_Term :: int
  rva_CandidateId :: int
  rva_LastLogIndex :: int
  rva_LastLogTerm :: int

record RequestVoteReply =
  rvr_Term :: int
  rvr_VoteGranted :: bool

record 'c AppendEntriesArgs =
  aea_Term :: int
  aea_LeaderId :: int
  aea_PrevLogIndex :: int
  aea_PrevLogTerm :: int
  aea_Entries :: "'c Logt list"
  aea_LeaderCommit :: int

record AppendEntriesReply =
  aer_Term :: int
  aer_Success :: bool
  aer_XTerm :: int
  aer_XIndex :: int
  aer_XLen :: int

record 'b InstallSnapshotArgs =
  isa_Term :: int
  isa_LeaderId :: int
  isa_LastIncludedIndex :: int
  isa_LastIncludedTerm :: int
  isa_Data :: "'b option"

record InstallSnapshotReply =
  isr_Term :: int

text \<open>The requests a peer sends: the arguments of the three RPCs.\<close>

datatype ('c, 'b) rpc =
    RequestVoteRPC RequestVoteArgs
  | AppendEntriesRPC "'c AppendEntriesArgs"
  | InstallSnapshotRPC "'b InstallSnapshotArgs"

subsection \<open>Index arithmetic\<close>

text \<open>
  Slot 0 of the log is a placeholder: it stands for the last entry the snapshot includes and
  carries its term.  Slot \<open>i\<close> holds the entry of real index \<open>lastIncludedIndex + i\<close>.
\<close>

definition firstLogIndex :: "('c, 'b) Raft \<Rightarrow> int" where
  "firstLogIndex rf =
     (if lastIncludedIndex rf < 1 then lastIncludedIndex rf else lastIncludedIndex rf + 1)"

definition lastLogIndex :: "('c, 'b) Raft \<Rightarrow> int" where
  "lastLogIndex rf = lastIncludedIndex rf + int (length (log rf)) - 1"

definition lastLogTerm :: "('c, 'b) Raft \<Rightarrow> int option" where
  "lastLogTerm rf =
     (if length (log rf) < 2 then map_option Term (idx (log rf) 0)
      else map_option Term (idx (log rf) (int (length (log rf)) - 1)))"

definition logIndex :: "('c, 'b) Raft \<Rightarrow> int \<Rightarrow> int" where
  "logIndex rf ri = ri - lastIncludedIndex rf"

definition realIndex :: "('c, 'b) Raft \<Rightarrow> int \<Rightarrow> int" where
  "realIndex rf li = lastIncludedIndex rf + li"

definition realLogLen :: "('c, 'b) Raft \<Rightarrow> int" where
  "realLogLen rf = lastIncludedIndex rf + int (length (log rf))"

definition isLogUpToDate :: "('c, 'b) Raft \<Rightarrow> int \<Rightarrow> int \<Rightarrow> bool option" where
  "isLogUpToDate rf lastTerm lastIndex = do {
     t \<leftarrow> lastLogTerm rf;
     Some (lastTerm > t \<or> (lastTerm = t \<and> lastIndex \<ge> lastLogIndex rf))
   }"

subsection \<open>Roles and accessors\<close>

definition Role :: "('c, 'b) Raft \<Rightarrow> string" where
  "Role rf = role_String (role rf)"

definition initializeLeaderEasilyLostState :: "('c, 'b) Raft \<Rightarrow> ('c, 'b) Raft option" where
  "initializeLeaderEasilyLostState rf = do {
     rf1 \<leftarrow> for_loop [0..<peers rf] (\<lambda>i r. do {
         nx \<leftarrow> set_idx (nextIndex r) (int i) (realLogLen r);
         mx \<leftarrow> set_idx (matchIndex r) (int i) (lastIncludedIndex r);
         Some (r\<lparr>nextIndex := nx, matchIndex := mx\<rparr>)
       }) rf;
     mx \<leftarrow> set_idx (matchIndex rf1) (me rf1) (lastLogIndex rf1);
     nx \<leftarrow> set_idx (nextIndex rf1) (me rf1) (lastLogIndex rf1 + 1);
     Some (rf1\<lparr>matchIndex := mx, nextIndex := nx\<rparr>)
   }"

definition changeRole :: "('c, 'b) Raft \<Rightarrow> role \<Rightarrow> ('c, 'b) Raft" where
  "changeRole rf r = rf\<lparr>role := r\<rparr>"

definition Leader_of :: "('c, 'b) Raft \<Rightarrow> int" where
  "Leader_of rf = leader rf"

definition GetState :: "('c, 'b) Raft \<Rightarrow> int \<times> bool" where
  "GetState rf = (currentTerm rf, role rf = Leader)"

definition RaftStateSize_of ::
  "('c PersistentStatus \<Rightarrow> nat) \<Rightarrow> ('c, 'b) Raft \<Rightarrow> nat" where
  "RaftStateSize_of size_of rf = RaftStateSize size_of (persister rf)"

subsection \<open>Persistence\<close>

definition PersistStatusBytes :: "('c, 'b) Raft \<Rightarrow> 'c PersistentStatus option" where
  "PersistStatusBytes rf = do {
     l0 \<leftarrow> idx (log rf) 0;
     Some \<lparr>ps_Log = log rf, ps_CurrentTerm = currentTerm rf, ps_VotedFor = votedFor rf,
           ps_LastIncludedIndex = lastIncludedIndex rf, ps_LastIncludedTerm = Term l0\<rparr>
   }"

definition persist :: "('c, 'b) Raft \<Rightarrow> ('c, 'b) Raft option" where
  "persist rf = do {
     st \<leftarrow> PersistStatusBytes rf;
     Some (rf\<lparr>persister := Save (persister rf) (Some st) (snapshot rf)\<rparr>)
   }"

definition readPersist ::
  "('c, 'b) Raft \<Rightarrow> 'c PersistentStatus option \<Rightarrow> ('c, 'b) Raft option" where
  "readPersist rf data = (case data of
     None \<Rightarrow> Some rf
   | Some st \<Rightarrow> do {
       l0 \<leftarrow> idx (ps_Log st) 0;
       lg \<leftarrow> set_idx (ps_Log st) 0 (l0\<lparr>Term := ps_LastIncludedTerm st\<rparr>);
       Some (rf\<lparr>log := lg, currentTerm := ps_CurrentTerm st, votedFor := ps_VotedFor st,
               lastIncludedIndex := ps_LastIncludedIndex st,
               commitIndex := ps_LastIncludedIndex st,
               lastApplied := ps_LastIncludedIndex st,
               snapshot := ReadSnapshot (persister rf)\<rparr>)
     })"

definition Snapshot :: "('c, 'b) Raft \<Rightarrow> int \<Rightarrow> 'b option \<Rightarrow> ('c, 'b) Raft option" where
  "Snapshot rf index snap =
     (if commitIndex rf < index \<or> lastIncludedIndex rf \<ge> index then Some rf
      else do {
        let split = logIndex rf index;
        e \<leftarrow> idx (log rf) split;
        rest \<leftarrow> slice_from (log rf) (split + 1);
        persist (rf\<lparr>lastIncludedIndex := index, log := \<lparr>Command = None, Term = Term e\<rparr> # rest,
                    snapshot := snap\<rparr>)
      })"

subsection \<open>RequestVote\<close>

definition RequestVote ::
  "('c, 'b) Raft \<Rightarrow> RequestVoteArgs \<Rightarrow> (('c, 'b) Raft \<times> RequestVoteReply) option" where
  "RequestVote rf args =
     (if rva_Term args < currentTerm rf
      then Some (rf, \<lparr>rvr_Term = currentTerm rf, rvr_VoteGranted = False\<rparr>)
      else do {
        let rf1 = (if rva_Term args > currentTerm rf
                   then (changeRole rf Follower)\<lparr>currentTerm := rva_Term args, votedFor := noVote\<rparr>
                   else rf);
        ok \<leftarrow> (if votedFor rf1 = noVote \<or> votedFor rf1 = rva_CandidateId args
               then isLogUpToDate rf1 (rva_LastLogTerm args) (rva_LastLogIndex args)
               else Some False);
        let rf2 = (if ok then rf1\<lparr>votedFor := rva_CandidateId args\<rparr> else rf1);
        rf3 \<leftarrow> persist rf2;
        Some (rf3, \<lparr>rvr_Term = currentTerm rf2, rvr_VoteGranted = ok\<rparr>)
      })"

subsection \<open>AppendEntries\<close>

text \<open>
  The backward search for the first entry of the conflicting term,
  \<^verbatim>\<open>for i := args.PrevLogIndex; i > rf.commitIndex; i--\<close>.
\<close>

function conflictScan :: "('c, 'b) Raft \<Rightarrow> int \<Rightarrow> int \<Rightarrow> int \<Rightarrow> int option" where
  "conflictScan rf conflictTerm i conflictIndex =
     (if i > commitIndex rf
      then (case idx (log rf) (logIndex rf i) of
              None \<Rightarrow> None
            | Some e \<Rightarrow> if Term e \<noteq> conflictTerm then Some conflictIndex
                        else conflictScan rf conflictTerm (i - 1) i)
      else Some conflictIndex)"
  by pat_completeness auto
termination
  by (relation "measure (\<lambda>(rf, t, i, c). nat (i - commitIndex rf))") auto

declare conflictScan.simps [simp del]

text \<open>
  One round of \<^verbatim>\<open>for i, entry := range args.Entries\<close>: \<open>index\<close> is the slot of the entry.
\<close>

definition appendEntry :: "'c Logt list \<Rightarrow> int \<Rightarrow> 'c Logt \<Rightarrow> 'c Logt list option" where
  "appendEntry lg index entry =
     (if index < int (length lg) then do {
        e \<leftarrow> idx lg index;
        if Term e \<noteq> Term entry
        then do { pre \<leftarrow> slice_to lg index; Some (pre @ [entry]) }
        else Some lg
      }
      else if index = int (length lg) then Some (lg @ [entry])
      else Some lg)"

definition appendLoop :: "('c, 'b) Raft \<Rightarrow> 'c AppendEntriesArgs \<Rightarrow> 'c Logt list option" where
  "appendLoop rf args =
     for_loop (enumerate 0 (aea_Entries args))
       (\<lambda>(i, entry) lg. appendEntry lg (logIndex rf (aea_PrevLogIndex args + 1 + int i)) entry)
       (log rf)"

text \<open>The consistency check and the update of the log, after the sender has been accepted as leader.\<close>

definition appendChecked ::
  "('c, 'b) Raft \<Rightarrow> 'c AppendEntriesArgs \<Rightarrow> (('c, 'b) Raft \<times> AppendEntriesReply) option" where
  "appendChecked rf args =
     (if lastIncludedIndex rf > aea_PrevLogIndex args
      then Some (rf, \<lparr>aer_Term = currentTerm rf, aer_Success = False,
                      aer_XTerm = 0, aer_XIndex = 0, aer_XLen = 0\<rparr>)
      else if lastLogIndex rf < aea_PrevLogIndex args
      then Some (rf, \<lparr>aer_Term = currentTerm rf, aer_Success = False,
                      aer_XTerm = -1, aer_XIndex = -1, aer_XLen = realLogLen rf\<rparr>)
      else do {
        e \<leftarrow> idx (log rf) (logIndex rf (aea_PrevLogIndex args));
        if Term e \<noteq> aea_PrevLogTerm args then do {
          ci \<leftarrow> conflictScan rf (Term e) (aea_PrevLogIndex args) (-1);
          Some (rf, \<lparr>aer_Term = currentTerm rf, aer_Success = False,
                     aer_XTerm = Term e, aer_XIndex = ci, aer_XLen = realLogLen rf\<rparr>)
        }
        else do {
          lg \<leftarrow> appendLoop rf args;
          let rf1 = rf\<lparr>log := lg\<rparr>;
          let rf2 = (if aea_LeaderCommit args > commitIndex rf1
                     then rf1\<lparr>commitIndex := min (aea_LeaderCommit args) (lastLogIndex rf1)\<rparr>
                     else rf1);
          Some (rf2, \<lparr>aer_Term = currentTerm rf2, aer_Success = True,
                      aer_XTerm = 0, aer_XIndex = 0, aer_XLen = 0\<rparr>)
        }
      })"

definition AppendEntries ::
  "('c, 'b) Raft \<Rightarrow> 'c AppendEntriesArgs \<Rightarrow> (('c, 'b) Raft \<times> AppendEntriesReply) option" where
  "AppendEntries rf args =
     (if aea_Term args < currentTerm rf
      then Some (rf, \<lparr>aer_Term = currentTerm rf, aer_Success = False,
                      aer_XTerm = 0, aer_XIndex = 0, aer_XLen = 0\<rparr>)
      else do {
        let rf0 = changeRole rf Follower;
        let rf1 = (if aea_Term args > currentTerm rf0
                   then rf0\<lparr>currentTerm := aea_Term args, votedFor := noVote\<rparr> else rf0);
        (rf2, reply) \<leftarrow> appendChecked (rf1\<lparr>leader := aea_LeaderId args\<rparr>) args;
        rf' \<leftarrow> persist rf2; \<comment> \<open>deferred, so it runs on every return below the term check\<close>
        Some (rf', reply)
      })"

subsection \<open>InstallSnapshot\<close>

text \<open>
  The third component of the result is the message that the spawned goroutine will put on the
  apply channel, if one is spawned.
\<close>

definition snapshotMsg :: "'b InstallSnapshotArgs \<Rightarrow> ('c, 'b) ApplyMsg" where
  "snapshotMsg args =
     \<lparr>CommandValid = False, am_Command = None, CommandIndex = 0, CommandTerm = 0,
      SnapshotValid = True, am_Snapshot = isa_Data args,
      SnapshotTerm = isa_LastIncludedTerm args, SnapshotIndex = isa_LastIncludedIndex args\<rparr>"

text \<open>
  The installation proper: the loop looks for the snapshot's last entry in the log; the entries
  behind it are kept, otherwise the whole log is discarded.
\<close>

definition installData :: "('c, 'b) Raft \<Rightarrow> 'b InstallSnapshotArgs \<Rightarrow> ('c, 'b) Raft option" where
  "installData rf args = do {
     let found = find (\<lambda>i. realIndex rf (int i) = isa_LastIncludedIndex args \<and>
                           Term (log rf ! i) = isa_LastIncludedTerm args)
                      [1..<length (log rf)];
     rest \<leftarrow> (case found of
               Some i \<Rightarrow> slice_from (log rf) (int i + 1)
             | None \<Rightarrow> Some []);
     persist (rf\<lparr>
       log := \<lparr>Command = None, Term = isa_LastIncludedTerm args\<rparr> # rest,
       lastIncludedIndex := isa_LastIncludedIndex args,
       commitIndex := isa_LastIncludedIndex args,
       lastApplied := isa_LastIncludedIndex args,
       snapshot := isa_Data args\<rparr>)
   }"

definition InstallSnapshot ::
  "('c, 'b) Raft \<Rightarrow> 'b InstallSnapshotArgs \<Rightarrow>
   (('c, 'b) Raft \<times> InstallSnapshotReply \<times> ('c, 'b) ApplyMsg option) option" where
  "InstallSnapshot rf args =
     (if isa_Term args < currentTerm rf
      then Some (rf, \<lparr>isr_Term = currentTerm rf\<rparr>, None)
      else do {
        let rf1 = (if isa_Term args > currentTerm rf
                   then rf\<lparr>currentTerm := isa_Term args, votedFor := noVote\<rparr> else rf);
        let rf2 = changeRole (rf1\<lparr>leader := isa_LeaderId args\<rparr>) Follower;
        let reply = \<lparr>isr_Term = currentTerm rf2\<rparr>;
        if isa_LastIncludedIndex args \<le> lastIncludedIndex rf2 then Some (rf2, reply, None)
        else if isa_LastIncludedIndex args \<le> commitIndex rf2 then Some (rf2, reply, None)
        else do {
          rf3 \<leftarrow> installData rf2 args;
          Some (rf3, reply, Some (snapshotMsg args))
        }
      })"

subsection \<open>Start, Kill\<close>

definition Start :: "('c, 'b) Raft \<Rightarrow> 'c \<Rightarrow> (('c, 'b) Raft \<times> int \<times> int \<times> bool) option" where
  "Start rf command =
     (if role rf \<noteq> Leader then Some (rf, -1, -1, False)
      else do {
        rf1 \<leftarrow> persist (rf\<lparr>log := log rf @ [\<lparr>Command = Some command, Term = currentTerm rf\<rparr>]\<rparr>);
        mx \<leftarrow> set_idx (matchIndex rf1) (me rf1) (lastLogIndex rf1);
        nx \<leftarrow> set_idx (nextIndex rf1) (me rf1) (realLogLen rf1);
        let rf2 = rf1\<lparr>matchIndex := mx, nextIndex := nx\<rparr>;
        Some (rf2, lastLogIndex rf2, currentTerm rf2, True)
      })"

definition Kill :: "('c, 'b) Raft \<Rightarrow> ('c, 'b) Raft" where
  "Kill rf = rf\<lparr>dead := 1\<rparr>"

definition killed :: "('c, 'b) Raft \<Rightarrow> bool" where
  "killed rf \<longleftrightarrow> dead rf = 1"

subsection \<open>Replication\<close>

text \<open>The request \<^verbatim>\<open>heartbeatBroadcast\<close> builds for one peer.\<close>

definition broadcastTo :: "('c, 'b) Raft \<Rightarrow> nat \<Rightarrow> ('c, 'b) rpc option" where
  "broadcastTo rf peer = do {
     nxt \<leftarrow> idx (nextIndex rf) (int peer);
     if nxt \<le> lastIncludedIndex rf then do {
       l0 \<leftarrow> idx (log rf) 0;
       Some (InstallSnapshotRPC \<lparr>isa_Term = currentTerm rf, isa_LeaderId = me rf,
               isa_LastIncludedIndex = lastIncludedIndex rf, isa_LastIncludedTerm = Term l0,
               isa_Data = snapshot rf\<rparr>)
     }
     else do {
       let prev = nxt - 1;
       prevTerm \<leftarrow>
         (if prev > lastIncludedIndex rf \<and> prev < lastIncludedIndex rf + int (length (log rf))
          then map_option Term (idx (log rf) (logIndex rf prev))
          else if prev = lastIncludedIndex rf then map_option Term (idx (log rf) 0)
          else None); \<comment> \<open>the explicit panic\<close>
       es \<leftarrow> slice_from (log rf) (logIndex rf nxt);
       Some (AppendEntriesRPC \<lparr>aea_Term = currentTerm rf, aea_LeaderId = me rf,
               aea_PrevLogIndex = prev, aea_PrevLogTerm = prevTerm,
               aea_Entries = es, aea_LeaderCommit = commitIndex rf\<rparr>)
     }
   }"

definition heartbeatBroadcast :: "('c, 'b) Raft \<Rightarrow> (int \<times> ('c, 'b) rpc) list option" where
  "heartbeatBroadcast rf =
     for_loop [0..<peers rf]
       (\<lambda>peer outs. if int peer = me rf then Some outs
                    else do { m \<leftarrow> broadcastTo rf peer; Some (outs @ [(int peer, m)]) })
       []"

text \<open>A tick of the heartbeat ticker, or a replicate signal.\<close>

definition heartbeatEvent :: "('c, 'b) Raft \<Rightarrow> (int \<times> ('c, 'b) rpc) list option" where
  "heartbeatEvent rf = (if role rf = Leader then heartbeatBroadcast rf else Some [])"

definition succeedNum :: "('c, 'b) Raft \<Rightarrow> int \<Rightarrow> nat option" where
  "succeedNum rf N =
     for_loop [0..<peers rf]
       (\<lambda>peer k. do {
          m \<leftarrow> idx (matchIndex rf) (int peer);
          if N \<le> m then do {
            e \<leftarrow> idx (log rf) (logIndex rf N);
            Some (if Term e = currentTerm rf then k + 1 else k)
          }
          else Some k
        }) 0"

definition checkAndCommitLogs :: "('c, 'b) Raft \<Rightarrow> ('c, 'b) Raft option" where
  "checkAndCommitLogs rf = do {
     N \<leftarrow> for_loop [commitIndex rf + 1 .. realLogLen rf - 1]
            (\<lambda>n N. do { k \<leftarrow> succeedNum rf n; Some (if k > peers rf div 2 then n else N) })
            (commitIndex rf);
     Some (if N > commitIndex rf then rf\<lparr>commitIndex := N\<rparr> else rf)
   }"

definition findNextIndex ::
  "('c, 'b) Raft \<Rightarrow> int \<Rightarrow> AppendEntriesReply \<Rightarrow> ('c, 'b) Raft option" where
  "findNextIndex rf peer reply =
     (if aer_XTerm reply = -1 \<and> aer_XIndex reply = -1 then do {
        nx \<leftarrow> set_idx (nextIndex rf) peer (aer_XLen reply);
        Some (rf\<lparr>nextIndex := nx\<rparr>)
      }
      else do {
        (ok, rf1) \<leftarrow> for_loop (enumerate 0 (log rf))
          (\<lambda>(i, entry) (ok, r).
             if Term entry = aer_XTerm reply then do {
               nx \<leftarrow> set_idx (nextIndex r) peer (realIndex r (int i));
               Some (True, r\<lparr>nextIndex := nx\<rparr>)
             }
             else Some (ok, r))
          (False, rf);
        if \<not> ok then do {
          nx \<leftarrow> set_idx (nextIndex rf1) peer (aer_XIndex reply);
          Some (rf1\<lparr>nextIndex := nx\<rparr>)
        }
        else Some rf1
      })"

text \<open>The two reply handlers, from the point where \<^verbatim>\<open>Call\<close> has returned true.\<close>

definition handleSendAppendEntries ::
  "('c, 'b) Raft \<Rightarrow> int \<Rightarrow> 'c AppendEntriesArgs \<Rightarrow> AppendEntriesReply \<Rightarrow>
   ('c, 'b) Raft option" where
  "handleSendAppendEntries rf peer args reply =
     (if currentTerm rf \<noteq> aea_Term args \<or> role rf \<noteq> Leader then Some rf
      else if aer_Term reply > currentTerm rf
      then persist ((changeRole rf Follower)\<lparr>leader := NoLeader, currentTerm := aer_Term reply\<rparr>)
      else if aer_Success reply then do {
        let acked = aea_PrevLogIndex args + int (length (aea_Entries args));
        m \<leftarrow> idx (matchIndex rf) peer;
        mx \<leftarrow> set_idx (matchIndex rf) peer (max m acked);
        n \<leftarrow> idx (nextIndex rf) peer;
        nx \<leftarrow> set_idx (nextIndex rf) peer (max n (acked + 1));
        checkAndCommitLogs (rf\<lparr>matchIndex := mx, nextIndex := nx\<rparr>)
      }
      else findNextIndex rf peer reply)"

definition handleSendInstallSnapshot ::
  "('c, 'b) Raft \<Rightarrow> int \<Rightarrow> 'b InstallSnapshotArgs \<Rightarrow> InstallSnapshotReply \<Rightarrow>
   ('c, 'b) Raft option" where
  "handleSendInstallSnapshot rf peer args reply =
     (if currentTerm rf \<noteq> isa_Term args \<or> role rf \<noteq> Leader then Some rf
      else if isr_Term reply > currentTerm rf
      then persist ((changeRole rf Follower)\<lparr>leader := NoLeader, currentTerm := isr_Term reply\<rparr>)
      else do {
        m \<leftarrow> idx (matchIndex rf) peer;
        mx \<leftarrow> set_idx (matchIndex rf) peer (max m (isa_LastIncludedIndex args));
        n \<leftarrow> idx (nextIndex rf) peer;
        nx \<leftarrow> set_idx (nextIndex rf) peer (max n (isa_LastIncludedIndex args + 1));
        Some (rf\<lparr>matchIndex := mx, nextIndex := nx\<rparr>)
      })"

subsection \<open>Elections\<close>

text \<open>
  \<open>startElection\<close> returns the new state, the initial value of the counter \<^verbatim>\<open>approvedNum\<close> that the
  reply goroutines of this election share, and the vote requests.
\<close>

definition startElection ::
  "('c, 'b) Raft \<Rightarrow> (('c, 'b) Raft \<times> nat \<times> (int \<times> RequestVoteArgs) list) option" where
  "startElection rf = do {
     rf1 \<leftarrow> persist (rf\<lparr>currentTerm := currentTerm rf + 1, votedFor := me rf, leader := NoLeader\<rparr>);
     reqs \<leftarrow> for_loop [0..<peers rf1]
       (\<lambda>i outs. if int i = me rf1 then Some outs
                 else do {
                   t \<leftarrow> lastLogTerm rf1;
                   Some (outs @ [(int i,
                     \<lparr>rva_Term = currentTerm rf1, rva_CandidateId = me rf1,
                      rva_LastLogIndex = lastLogIndex rf1, rva_LastLogTerm = t\<rparr>)])
                 })
       [];
     Some (rf1, 1, reqs)
   }"

text \<open>The election timer fires.\<close>

definition electionEvent ::
  "('c, 'b) Raft \<Rightarrow> (('c, 'b) Raft \<times> nat \<times> (int \<times> RequestVoteArgs) list) option" where
  "electionEvent rf = startElection (changeRole rf Candidate)"

text \<open>The rest of the goroutine of \<^verbatim>\<open>startElection\<close> once a reply has arrived.\<close>

definition requestVoteReply ::
  "('c, 'b) Raft \<Rightarrow> nat \<Rightarrow> RequestVoteArgs \<Rightarrow> RequestVoteReply \<Rightarrow>
   (('c, 'b) Raft \<times> nat \<times> (int \<times> ('c, 'b) rpc) list) option" where
  "requestVoteReply rf approvedNum args reply =
     (if currentTerm rf \<noteq> rva_Term args \<or> role rf \<noteq> Candidate then Some (rf, approvedNum, [])
      else if rvr_Term reply > currentTerm rf then do {
        rf1 \<leftarrow> persist (rf\<lparr>currentTerm := rvr_Term reply, votedFor := noVote\<rparr>);
        Some (changeRole rf1 Follower, approvedNum, [])
      }
      else if rvr_Term reply = currentTerm rf \<and> role rf = Candidate then do {
        let k = (if rvr_VoteGranted reply then approvedNum + 1 else approvedNum);
        if k > peers rf div 2 then do {
          rf1 \<leftarrow> initializeLeaderEasilyLostState ((changeRole rf Leader)\<lparr>leader := me rf\<rparr>);
          outs \<leftarrow> heartbeatBroadcast rf1;
          Some (rf1, k, outs)
        }
        else Some (rf, k, [])
      }
      else Some (rf, approvedNum, []))"

subsection \<open>Applying committed entries\<close>

text \<open>
  \<^verbatim>\<open>applierEvent\<close> holds the lock in three places: it collects the messages of the entries
  \<open>lastApplied + 1 .. commitIndex\<close> (when there are any), it checks before each send that the
  message is still the next one and raises \<^verbatim>\<open>replicatePreSnapshot\<close>, and, after it has lowered the
  flag again, it records the send.
\<close>

definition applierCollect :: "('c, 'b) Raft \<Rightarrow> ('c, 'b) ApplyMsg list option" where
  "applierCollect rf =
     for_loop [lastApplied rf + 1 .. commitIndex rf]
       (\<lambda>i msgs. do {
          e \<leftarrow> idx (log rf) (logIndex rf i);
          Some (msgs @ [\<lparr>CommandValid = True, am_Command = Command e, CommandIndex = i,
                         CommandTerm = Term e, SnapshotValid = False, am_Snapshot = None,
                         SnapshotTerm = 0, SnapshotIndex = 0\<rparr>])
        }) []"

definition applierBegin :: "('c, 'b) Raft \<Rightarrow> ('c, 'b) ApplyMsg \<Rightarrow> ('c, 'b) Raft option" where
  "applierBegin rf msg =
     (if CommandIndex msg \<noteq> lastApplied rf + 1 then None
      else Some (rf\<lparr>replicatePreSnapshot := True\<rparr>))" \<comment> \<open>\<^const>\<open>None\<close>: skip the message\<close>

definition applierSent :: "('c, 'b) Raft \<Rightarrow> ('c, 'b) Raft" where
  "applierSent rf = rf\<lparr>replicatePreSnapshot := False\<rparr>"

definition applierEnd :: "('c, 'b) Raft \<Rightarrow> ('c, 'b) ApplyMsg \<Rightarrow> ('c, 'b) Raft" where
  "applierEnd rf msg = rf\<lparr>lastApplied := max (CommandIndex msg) (lastApplied rf)\<rparr>"

subsection \<open>Construction\<close>

definition Make ::
  "nat \<Rightarrow> int \<Rightarrow> ('c PersistentStatus, 'b) Persister \<Rightarrow> ('c, 'b) Raft option" where
  "Make n self ps =
     readPersist
       \<lparr>peers = n, persister = ps, me = self, dead = 0, role = Follower, leader = NoLeader,
        currentTerm = 0, votedFor = noVote, log = [\<lparr>Command = None, Term = 0\<rparr>],
        lastIncludedIndex = 0, snapshot = None, commitIndex = 0, lastApplied = 0,
        nextIndex = replicate n 0, matchIndex = replicate n 0, replicatePreSnapshot = False\<rparr>
       (ReadRaftState ps)"

end
