(* ===== verification/Raft_Config.thy ===== *)
theory Raft_Config
  imports Labrpc Raft_Node "HOL-Library.AList"
begin

section \<open>The test harness of Raft (\<^verbatim>\<open>raft/config.go\<close>)\<close>

text \<open>
  The harness starts, crashes and connects the peers of a cluster and checks what they deliver.  The slices of the
  configuration have one element per server and are functions on server numbers; an operation with a number
  outside the slice panics.  \<^verbatim>\<open>log.Fatalf\<close>, \<^verbatim>\<open>t.Fatalf\<close> and panics are errors.  The
  encoding of a snapshot is a parameter, random names and addresses of new objects are arguments, and so is what the harness
  reads from peers that run at the same time.
\<close>

datatype netName = Str string | Num nat \<comment> \<open>names of ends and of servers\<close>

datatype cfg_error =
    IndexPanic nat
  | NilPanic
  | EndExists string
  | CommitDiffers int nat nat
  | OutOfOrder nat int
  | NilSnapshot
  | DecodeError
  | SnapshotMismatch nat
  | MakePanic nat
  | TwoLeaders int nat
  | NoLeaderFound
  | TermsDiffer
  | UnexpectedLeader nat
  | CommittedDiffers int
  | OnlyDecided nat int nat
  | NoAgreement
  | DoubleClose
  | TooLong

type_synonym 'a checked = "cfg_error + 'a"

fun andThen :: "'a checked \<Rightarrow> ('a \<Rightarrow> 'b checked) \<Rightarrow> 'b checked" where
  "andThen (Inl e) f = Inl e"
| "andThen (Inr x) f = f x"

fun for_checked :: "'a list \<Rightarrow> ('a \<Rightarrow> 's \<Rightarrow> 's checked) \<Rightarrow> 's \<Rightarrow> 's checked" where
  "for_checked [] f s = Inr s"
| "for_checked (x # xs) f s = andThen (f x s) (for_checked xs f)"

record ('c, 'b) config =
  cf_finished :: int
  cf_net :: "netName Network"
  cf_n :: nat
  cf_rafts :: "nat \<Rightarrow> ('c, 'b) Raft option"
  cf_applyErr :: "nat \<Rightarrow> cfg_error option"
  cf_connected :: "nat \<Rightarrow> bool"
  cf_saved :: "nat \<Rightarrow> ('c PersistentStatus, 'b) Persister option"
  cf_endnames :: "nat \<Rightarrow> (nat \<Rightarrow> string) option"
  cf_logs :: "nat \<Rightarrow> int \<rightharpoonup> 'c option"
  cf_lastApplied :: "nat \<Rightarrow> int"
  cf_rpcs0 :: int
  cf_cmds0 :: int
  cf_bytes0 :: int
  cf_maxIndex :: int
  cf_maxIndex0 :: int

text \<open>
  \<^verbatim>\<open>saved[i]\<close> and the peer \<^verbatim>\<open>rafts[i]\<close> share one \<^verbatim>\<open>Persister\<close> as long as the peer is there, so that its content is what the
  peer has stored; \<open>cf_saved\<close> has the content when there is no peer.
\<close>

definition saved :: "('c, 'b) config \<Rightarrow> nat \<Rightarrow> ('c PersistentStatus, 'b) Persister option" where
  "saved cfg i = (case cf_rafts cfg i of Some rf \<Rightarrow> Some (persister rf) | None \<Rightarrow> cf_saved cfg i)"

subsection \<open>Connecting\<close>

definition enableEnd :: "string \<Rightarrow> bool \<Rightarrow> ('c, 'b) config \<Rightarrow> ('c, 'b) config" where
  "enableEnd endname yes cfg = cfg\<lparr>cf_net := Enable (cf_net cfg) (Str endname) yes\<rparr>"

definition endname_of :: "('c, 'b) config \<Rightarrow> nat \<Rightarrow> nat \<Rightarrow> string checked" where
  "endname_of cfg i j = (case cf_endnames cfg i of
     None \<Rightarrow> Inl (IndexPanic j)
   | Some names \<Rightarrow> if j < cf_n cfg then Inr (names j) else Inl (IndexPanic j))"

definition connect :: "('c, 'b) config \<Rightarrow> nat \<Rightarrow> ('c, 'b) config checked" where
  "connect cfg i =
     (if \<not> i < cf_n cfg then Inl (IndexPanic i)
      else
        let cfg1 = cfg\<lparr>cf_connected := (cf_connected cfg)(i := True)\<rparr> in
        andThen (for_checked [0..<cf_n cfg] (\<lambda>j c. if cf_connected c j
            then andThen (endname_of c i j) (\<lambda>e. Inr (enableEnd e True c)) else Inr c) cfg1)
          (for_checked [0..<cf_n cfg] (\<lambda>j c. if cf_connected c j
            then andThen (endname_of c j i) (\<lambda>e. Inr (enableEnd e True c)) else Inr c)))"

definition disconnect :: "('c, 'b) config \<Rightarrow> nat \<Rightarrow> ('c, 'b) config checked" where
  "disconnect cfg i =
     (if \<not> i < cf_n cfg then Inl (IndexPanic i)
      else
        let cfg1 = cfg\<lparr>cf_connected := (cf_connected cfg)(i := False)\<rparr> in
        andThen (for_checked [0..<cf_n cfg] (\<lambda>j c. if \<not> Option.is_none (cf_endnames c i)
            then andThen (endname_of c i j) (\<lambda>e. Inr (enableEnd e False c)) else Inr c) cfg1)
          (for_checked [0..<cf_n cfg] (\<lambda>j c. if \<not> Option.is_none (cf_endnames c j)
            then andThen (endname_of c j i) (\<lambda>e. Inr (enableEnd e False c)) else Inr c)))"

subsection \<open>Crash and start\<close>

definition crash1 :: "('c, 'b) config \<Rightarrow> nat \<Rightarrow> ('c, 'b) config checked" where
  "crash1 cfg i = andThen (disconnect cfg i) (\<lambda>c.
     let c1 = c\<lparr>cf_net := DeleteServer (cf_net c) (Num i)\<rparr>;
         sv = map_option Copy (saved c1 i);
         \<comment> \<open>the peer is killed, and its later writes go to a Persister that nobody reads\<close>
         c2 = c1\<lparr>cf_rafts := (cf_rafts c1)(i := None)\<rparr>;
         sv2 = map_option (\<lambda>ps. Save \<lparr>raftstate = None, psnapshot = None\<rparr> (ReadRaftState ps) (ReadSnapshot ps)) sv
     in Inr (c2\<lparr>cf_saved := (cf_saved c2)(i := sv2)\<rparr>))"

text \<open>\<^verbatim>\<open>dec\<close> is the decoding of a snapshot: an index and the commands from index 0 on.\<close>

definition ingestSnap ::
  "('b \<Rightarrow> (int \<times> 'c option list) option) \<Rightarrow> ('c, 'b) config \<Rightarrow> nat \<Rightarrow> 'b option \<Rightarrow> int \<Rightarrow> ('c, 'b) config checked" where
  "ingestSnap dec cfg i snap index = (case snap of
     None \<Rightarrow> Inl NilSnapshot
   | Some b \<Rightarrow> (case dec b of
       None \<Rightarrow> Inl DecodeError
     | Some (lastIncluded, xlog) \<Rightarrow>
         if index \<noteq> -1 \<and> index \<noteq> lastIncluded then Inl (SnapshotMismatch i)
         else Inr (cfg\<lparr>
           cf_logs := (cf_logs cfg)(i := fold (\<lambda>j l. l(int j \<mapsto> xlog ! j)) [0..<length xlog] Map.empty),
           cf_lastApplied := (cf_lastApplied cfg)(i := lastIncluded)\<rparr>)))"

definition makeEnds :: "('c, 'b) config \<Rightarrow> (nat \<Rightarrow> string) \<Rightarrow> ('c, 'b) config checked" where
  "makeEnds cfg names = for_checked [0..<cf_n cfg] (\<lambda>j c. (case MakeEnd (cf_net c) (Str (names j)) of
     None \<Rightarrow> Inl (EndExists (names j))
   | Some (rn, e) \<Rightarrow> Inr (c\<lparr>cf_net := Connect rn (Str (names j)) (Num j)\<rparr>))) cfg"

definition start1 ::
  "('b \<Rightarrow> (int \<times> 'c option list) option) \<Rightarrow> (nat \<Rightarrow> string) \<Rightarrow> nat \<Rightarrow> ('c, 'b) config \<Rightarrow> nat \<Rightarrow>
   ('c, 'b) config checked" where
  "start1 dec names srv cfg i =
     andThen (crash1 cfg i) (\<lambda>c.
     andThen (makeEnds (c\<lparr>cf_endnames := (cf_endnames c)(i := Some names)\<rparr>) names) (\<lambda>c1.
     let c2 = c1\<lparr>cf_lastApplied := (cf_lastApplied c1)(i := 0)\<rparr> in
     andThen (case cf_saved c2 i of
         Some ps \<Rightarrow>
           let c3 = c2\<lparr>cf_saved := (cf_saved c2)(i := Some (Copy ps))\<rparr> in
           (case ReadSnapshot (Copy ps) of
              None \<Rightarrow> Inr c3
            | Some b \<Rightarrow> ingestSnap dec c3 i (Some b) (-1))
       | None \<Rightarrow> Inr (c2\<lparr>cf_saved := (cf_saved c2)(i := Some MakePersister)\<rparr>)) (\<lambda>c3.
     case Make (cf_n c3) (int i) (the (cf_saved c3 i)) of
       None \<Rightarrow> Inl (MakePanic i)
     | Some rf \<Rightarrow> Inr (c3\<lparr>cf_rafts := (cf_rafts c3)(i := Some rf), cf_net := AddServer (cf_net c3) (Num i) srv\<rparr>))))"

definition make_config ::
  "('b \<Rightarrow> (int \<times> 'c option list) option) \<Rightarrow> (nat \<Rightarrow> nat \<Rightarrow> string) \<Rightarrow> (nat \<Rightarrow> nat) \<Rightarrow> nat \<Rightarrow> bool \<Rightarrow>
   ('c, 'b) config checked" where
  "make_config dec names srvs n unreliable =
     (let cfg = \<lparr>cf_finished = 0, cf_net = LongDelays (Reliable MakeNetwork (\<not> unreliable)) True, cf_n = n,
        cf_rafts = (\<lambda>i. None), cf_applyErr = (\<lambda>i. None), cf_connected = (\<lambda>i. False), cf_saved = (\<lambda>i. None),
        cf_endnames = (\<lambda>i. None), cf_logs = (\<lambda>i. Map.empty), cf_lastApplied = (\<lambda>i. 0), cf_rpcs0 = 0, cf_cmds0 = 0,
        cf_bytes0 = 0, cf_maxIndex = 0, cf_maxIndex0 = 0\<rparr>
      in andThen (for_checked [0..<n] (\<lambda>i c. start1 dec (names i) (srvs i) c i) cfg)
           (for_checked [0..<n] (\<lambda>i c. connect c i)))"

subsection \<open>What the peers deliver\<close>

definition checkLogs ::
  "('c, 'b) config \<Rightarrow> nat \<Rightarrow> ('c, 'b) ApplyMsg \<Rightarrow> ('c, 'b) config \<times> cfg_error option \<times> bool" where
  "checkLogs cfg i m =
     (let v = am_Command m;
          err = fold (\<lambda>j e. case cf_logs cfg j (CommandIndex m) of
              Some old \<Rightarrow> if old \<noteq> v then Some (CommitDiffers (CommandIndex m) i j) else e
            | None \<Rightarrow> e) [0..<cf_n cfg] None;
          prevok = (\<not> Option.is_none (cf_logs cfg i (CommandIndex m - 1)));
          cfg1 = cfg\<lparr>cf_logs := (cf_logs cfg)(i := (cf_logs cfg i)(CommandIndex m \<mapsto> v))\<rparr>
      in (if CommandIndex m > cf_maxIndex cfg1 then cfg1\<lparr>cf_maxIndex := CommandIndex m\<rparr> else cfg1, err, prevok))"

text \<open>One message in the loops of \<^verbatim>\<open>applier\<close> and \<^verbatim>\<open>applierSnap\<close>; an error ends the test with \<^verbatim>\<open>log.Fatalf\<close>.\<close>

definition applier :: "('c, 'b) config \<Rightarrow> nat \<Rightarrow> ('c, 'b) ApplyMsg \<Rightarrow> ('c, 'b) config checked" where
  "applier cfg i m =
     (if \<not> CommandValid m then Inr cfg
      else if \<not> i < cf_n cfg then Inl (IndexPanic i)
      else
        let (cfg1, err, prevok) = checkLogs cfg i m;
            err1 = (if CommandIndex m > 1 \<and> \<not> prevok then Some (OutOfOrder i (CommandIndex m)) else err)
        in case err1 of Some e \<Rightarrow> Inl e | None \<Rightarrow> Inr cfg1)"

definition SnapShotInterval :: int where
  "SnapShotInterval = 10"

text \<open>
  \<^verbatim>\<open>applierSnap\<close> also takes in snapshots and asks the peer for one after every tenth command: the second result is the
  call of \<^verbatim>\<open>rf.Snapshot\<close>.
\<close>

definition xlog_of :: "('c, 'b) config \<Rightarrow> nat \<Rightarrow> int \<Rightarrow> 'c option list" where
  "xlog_of cfg i index = map (\<lambda>j. case cf_logs cfg i (int j) of Some v \<Rightarrow> v | None \<Rightarrow> None) [0..<nat (index + 1)]"

definition applierSnap ::
  "('b \<Rightarrow> (int \<times> 'c option list) option) \<Rightarrow> (int \<times> 'c option list \<Rightarrow> 'b) \<Rightarrow> ('c, 'b) config \<Rightarrow> nat \<Rightarrow>
   ('c, 'b) ApplyMsg \<Rightarrow> (('c, 'b) config \<times> (int \<times> 'b) option) checked" where
  "applierSnap dec enc cfg i m =
     (if \<not> i < cf_n cfg then Inl (IndexPanic i)
      else if SnapshotValid m then
        andThen (ingestSnap dec cfg i (am_Snapshot m) (SnapshotIndex m)) (\<lambda>c. Inr (c, None))
      else if CommandValid m then
        if CommandIndex m \<noteq> cf_lastApplied cfg i + 1 then Inl (OutOfOrder i (CommandIndex m))
        else
          let (cfg1, err, prevok) = checkLogs cfg i m;
              err1 = (if CommandIndex m > 1 \<and> \<not> prevok then Some (OutOfOrder i (CommandIndex m)) else err);
              cfg2 = cfg1\<lparr>cf_lastApplied := (cf_lastApplied cfg1)(i := CommandIndex m)\<rparr>
          in case err1 of
               Some e \<Rightarrow> Inl e
             | None \<Rightarrow> Inr (cfg2,
                 if (CommandIndex m + 1) mod SnapShotInterval = 0
                 then Some (CommandIndex m, enc (CommandIndex m, xlog_of cfg2 i (CommandIndex m))) else None)
      else Inr (cfg, None))"

subsection \<open>Asking the peers\<close>

text \<open>
  One round of \<^verbatim>\<open>checkOneLeader\<close>: \<open>obs i\<close> is what \<^verbatim>\<open>GetState\<close> of peer \<open>i\<close> returns when the loop comes to it, \<open>ord\<close> the
  order in which the map of leaders is iterated.
\<close>

definition collectLeaders ::
  "('c, 'b) config \<Rightarrow> (nat \<Rightarrow> int \<times> bool) \<Rightarrow> (int \<times> nat list) list checked" where
  "collectLeaders cfg obs = for_checked [0..<cf_n cfg] (\<lambda>i l.
     if cf_connected cfg i then
       if Option.is_none (cf_rafts cfg i) then Inl NilPanic
       else if snd (obs i) then
         Inr (AList.update (fst (obs i)) ((case map_of l (fst (obs i)) of None \<Rightarrow> [] | Some is \<Rightarrow> is) @ [i]) l)
       else Inr l
     else Inr l) []"

definition lastTerm :: "(int \<times> nat list) list \<Rightarrow> int list \<Rightarrow> int checked" where
  "lastTerm leaders ord = for_checked ord (\<lambda>t last.
     case map_of leaders t of
       None \<Rightarrow> Inr last
     | Some is \<Rightarrow> if length is > 1 then Inl (TwoLeaders t (length is)) else Inr (if t > last then t else last)) (-1)"

fun leaderRounds ::
  "('c, 'b) config \<Rightarrow> ((nat \<Rightarrow> int \<times> bool) \<times> ((int \<times> nat list) list \<Rightarrow> int list)) list \<Rightarrow> nat checked" where
  "leaderRounds cfg [] = Inl NoLeaderFound"
| "leaderRounds cfg ((obs, ord) # rs) =
     andThen (collectLeaders cfg obs) (\<lambda>leaders.
     andThen (lastTerm leaders (ord leaders)) (\<lambda>last.
     if length leaders \<noteq> 0
     then (case map_of leaders last of Some (i # is) \<Rightarrow> Inr i | _ \<Rightarrow> Inl (IndexPanic 0))
     else leaderRounds cfg rs))"

definition checkOneLeader ::
  "('c, 'b) config \<Rightarrow> (nat \<Rightarrow> nat \<Rightarrow> int \<times> bool) \<Rightarrow> (nat \<Rightarrow> (int \<times> nat list) list \<Rightarrow> int list) \<Rightarrow> nat checked" where
  "checkOneLeader cfg obs ord = leaderRounds cfg (map (\<lambda>iters. (obs iters, ord iters)) [0..<10])"

definition checkTerms :: "('c, 'b) config \<Rightarrow> (nat \<Rightarrow> int \<times> bool) \<Rightarrow> int checked" where
  "checkTerms cfg obs = for_checked [0..<cf_n cfg] (\<lambda>i term.
     if cf_connected cfg i then
       if Option.is_none (cf_rafts cfg i) then Inl NilPanic
       else if term = -1 then Inr (fst (obs i))
       else if term \<noteq> fst (obs i) then Inl TermsDiffer
       else Inr term
     else Inr term) (-1)"

definition checkNoLeader :: "('c, 'b) config \<Rightarrow> (nat \<Rightarrow> int \<times> bool) \<Rightarrow> unit checked" where
  "checkNoLeader cfg obs = for_checked [0..<cf_n cfg] (\<lambda>i _.
     if cf_connected cfg i then
       if Option.is_none (cf_rafts cfg i) then Inl NilPanic
       else if snd (obs i) then Inl (UnexpectedLeader i)
       else Inr ()
     else Inr ()) ()"

text \<open>\<open>lg i\<close> is \<^verbatim>\<open>cfg.logs[i]\<close> when the loop of \<^verbatim>\<open>nCommitted\<close> comes to it.\<close>

definition nCommitted ::
  "('c, 'b) config \<Rightarrow> (nat \<Rightarrow> int \<rightharpoonup> 'c option) \<Rightarrow> int \<Rightarrow> (nat \<times> 'c option) checked" where
  "nCommitted cfg lg index = for_checked [0..<cf_n cfg] (\<lambda>i (count, cmd).
     case cf_applyErr cfg i of
       Some e \<Rightarrow> Inl e
     | None \<Rightarrow> (case lg i index of
         None \<Rightarrow> Inr (count, cmd)
       | Some cmd1 \<Rightarrow>
           if count > 0 \<and> cmd \<noteq> cmd1 then Inl (CommittedDiffers index) else Inr (count + 1, cmd1))) (0, None)"

text \<open>
  \<^verbatim>\<open>wait\<close>: thirty rounds at most.  \<open>lgs\<close> are the logs that a round reads, \<open>terms\<close> the terms of the peers.  The result \<open>Inl ()\<close> is
  the \<^verbatim>\<open>-1\<close> of a caller who has lost the race.
\<close>

definition movedOn :: "('c, 'b) config \<Rightarrow> int \<Rightarrow> (nat \<Rightarrow> int) \<Rightarrow> bool checked" where
  "movedOn cfg startTerm terms =
     (if startTerm > -1 then
        for_checked [0..<cf_n cfg] (\<lambda>i b. if b then Inr b
          else if Option.is_none (cf_rafts cfg i) then Inl NilPanic else Inr (terms i > startTerm)) False
      else Inr False)"

fun waitRounds ::
  "('c, 'b) config \<Rightarrow> int \<Rightarrow> nat \<Rightarrow> int \<Rightarrow> ((nat \<Rightarrow> int \<rightharpoonup> 'c option) \<times> (nat \<Rightarrow> int)) list \<Rightarrow> bool checked" where
  "waitRounds cfg index n startTerm [] = Inr False"
| "waitRounds cfg index n startTerm ((lg, terms) # rs) =
     andThen (nCommitted cfg lg index) (\<lambda>(nd, _).
     if nd \<ge> n then Inr False
     else andThen (movedOn cfg startTerm terms) (\<lambda>b.
       if b then Inr True else waitRounds cfg index n startTerm rs))"

definition wait ::
  "('c, 'b) config \<Rightarrow> int \<Rightarrow> nat \<Rightarrow> int \<Rightarrow> (nat \<Rightarrow> (nat \<Rightarrow> int \<rightharpoonup> 'c option) \<times> (nat \<Rightarrow> int)) \<Rightarrow>
   (nat \<Rightarrow> int \<rightharpoonup> 'c option) \<Rightarrow> (unit + 'c option) checked" where
  "wait cfg index n startTerm rounds lg =
     andThen (waitRounds cfg index n startTerm (map rounds [0..<30])) (\<lambda>lost.
     if lost then Inr (Inl ())
     else andThen (nCommitted cfg lg index) (\<lambda>(nd, cmd).
       if nd < n then Inl (OnlyDecided nd index n) else Inr (Inr cmd)))"

subsection \<open>Agreement on a command\<close>

text \<open>
  \<^verbatim>\<open>one\<close> tries the servers in turn; \<open>ans i\<close> is what \<^verbatim>\<open>Start\<close> of peer \<open>i\<close> answers (index and whether it leads).  Then it looks at
  the logs for two seconds.  \<open>attempts\<close> are the attempts of ten seconds, each with the logs it sees.
\<close>

fun trySubmit :: "('c, 'b) config \<Rightarrow> (nat \<Rightarrow> int \<times> bool) \<Rightarrow> nat \<Rightarrow> nat \<Rightarrow> nat \<times> int" where
  "trySubmit cfg ans 0 starts = (starts, -1)"
| "trySubmit cfg ans (Suc k) starts =
     (let starts1 = (starts + 1) mod cf_n cfg in
      if cf_connected cfg starts1 \<and> \<not> Option.is_none (cf_rafts cfg starts1) \<and> snd (ans starts1)
      then (starts1, fst (ans starts1))
      else trySubmit cfg ans k starts1)"

fun pollAgreement ::
  "('c, 'b) config \<Rightarrow> 'c option \<Rightarrow> nat \<Rightarrow> int \<Rightarrow> (nat \<Rightarrow> int \<rightharpoonup> 'c option) list \<Rightarrow> bool checked" where
  "pollAgreement cfg cmd expected index [] = Inr False"
| "pollAgreement cfg cmd expected index (lg # lgs) =
     andThen (nCommitted cfg lg index) (\<lambda>(nd, cmd1).
     if nd > 0 \<and> nd \<ge> expected \<and> cmd1 = cmd then Inr True
     else pollAgreement cfg cmd expected index lgs)"

fun one ::
  "('c, 'b) config \<Rightarrow> 'c option \<Rightarrow> nat \<Rightarrow> bool \<Rightarrow> nat \<Rightarrow>
   ((nat \<Rightarrow> int \<times> bool) \<times> (nat \<Rightarrow> int \<rightharpoonup> 'c option) list) list \<Rightarrow> int checked" where
  "one cfg cmd expected retry starts [] = (if cf_finished cfg = 0 then Inl NoAgreement else Inr (-1))"
| "one cfg cmd expected retry starts ((ans, lgs) # attempts) =
     (if cf_finished cfg \<noteq> 0 then Inr (-1)
      else case trySubmit cfg ans (cf_n cfg) starts of (starts1, index) \<Rightarrow>
        if index \<noteq> -1 then
          andThen (pollAgreement cfg cmd expected index lgs) (\<lambda>done.
            if done then Inr index
            else if \<not> retry then Inl NoAgreement
            else one cfg cmd expected retry starts1 attempts)
        else one cfg cmd expected retry starts1 attempts)"

subsection \<open>Beginning and end of a test\<close>

definition rpcCount :: "(nat \<Rightarrow> ('w, 'y) Server) \<Rightarrow> ('c, 'b) config \<Rightarrow> nat \<Rightarrow> int checked" where
  "rpcCount heap cfg server = (case GetCount (cf_net cfg) heap (Num server) of None \<Rightarrow> Inl NilPanic | Some x \<Rightarrow> Inr x)"

definition rpcTotal :: "('c, 'b) config \<Rightarrow> int" where
  "rpcTotal cfg = GetTotalCount (cf_net cfg)"

definition bytesTotal :: "('c, 'b) config \<Rightarrow> int" where
  "bytesTotal cfg = GetTotalBytes (cf_net cfg)"

definition setunreliable :: "('c, 'b) config \<Rightarrow> bool \<Rightarrow> ('c, 'b) config" where
  "setunreliable cfg unrel = cfg\<lparr>cf_net := Reliable (cf_net cfg) (\<not> unrel)\<rparr>"

definition setlongreordering :: "('c, 'b) config \<Rightarrow> bool \<Rightarrow> ('c, 'b) config" where
  "setlongreordering cfg longrel = cfg\<lparr>cf_net := LongReordering (cf_net cfg) longrel\<rparr>"

text \<open>\<open>elapsed\<close>: milliseconds since the configuration was made; \<open>bad\<close>: the test has failed already.\<close>

definition checkTimeout :: "bool \<Rightarrow> nat \<Rightarrow> unit checked" where
  "checkTimeout bad elapsed = (if \<not> bad \<and> elapsed > 120000 then Inl TooLong else Inr ())"

definition checkFinished :: "('c, 'b) config \<Rightarrow> bool" where
  "checkFinished cfg \<longleftrightarrow> cf_finished cfg \<noteq> 0"

definition cleanup :: "bool \<Rightarrow> nat \<Rightarrow> ('c, 'b) config \<Rightarrow> ('c, 'b) config checked" where
  "cleanup bad elapsed cfg =
     (let cfg1 = cfg\<lparr>cf_finished := 1,
            cf_rafts := (\<lambda>i. if i < cf_n cfg then map_option Kill (cf_rafts cfg i) else cf_rafts cfg i)\<rparr>
      in case Cleanup (cf_net cfg1) of
           None \<Rightarrow> Inl DoubleClose
         | Some rn \<Rightarrow> andThen (checkTimeout bad elapsed) (\<lambda>_. Inr (cfg1\<lparr>cf_net := rn\<rparr>)))"

definition begin_test :: "('c, 'b) config \<Rightarrow> ('c, 'b) config" where
  "begin_test cfg = cfg\<lparr>cf_rpcs0 := rpcTotal cfg, cf_bytes0 := bytesTotal cfg, cf_cmds0 := 0,
     cf_maxIndex0 := cf_maxIndex cfg\<rparr>"

text \<open>The numbers that \<^verbatim>\<open>end\<close> prints: peers, calls, bytes and agreements.\<close>

definition end_test :: "bool \<Rightarrow> nat \<Rightarrow> ('c, 'b) config \<Rightarrow> (nat \<times> int \<times> int \<times> int) option checked" where
  "end_test bad elapsed cfg = andThen (checkTimeout bad elapsed) (\<lambda>_. Inr (
     if bad then None
     else Some (cf_n cfg, rpcTotal cfg - cf_rpcs0 cfg, bytesTotal cfg - cf_bytes0 cfg, cf_maxIndex cfg - cf_maxIndex0 cfg)))"

definition LogSize :: "('c PersistentStatus \<Rightarrow> nat) \<Rightarrow> ('c, 'b) config \<Rightarrow> nat checked" where
  "LogSize size_of cfg = for_checked [0..<cf_n cfg] (\<lambda>i logsize. case saved cfg i of
     None \<Rightarrow> Inl NilPanic
   | Some ps \<Rightarrow> Inr (if RaftStateSize size_of ps > logsize then RaftStateSize size_of ps else logsize)) 0"

end
