(* ===== verification/Raft_Inv.thy ===== *)
theory Raft_Inv
  imports Raft_Node
begin

section \<open>Correctness of one Raft peer\<close>

text \<open>
  Closed forms of the operations of \<open>Raft_Node\<close> on well-formed states, the invariants of one peer
  and what every operation keeps of them: no handler panics, terms and commit indices never
  decrease, the persistent state is on stable storage before a reply leaves the peer, and the
  log operations agree with simple reference functions.
\<close>

subsection \<open>Well-formed states\<close>

text \<open>
  \<open>wf_raft\<close> needs no assumption on the messages a peer receives.  \<open>commit_ok\<close> (the committed entries
  are in the log) is kept by an \<open>AppendEntries\<close> call only if the leader's entries do not
  contradict committed ones, which is the Raft protocol's job.
\<close>

definition wf_raft :: "('c, 'b) Raft \<Rightarrow> bool" where
  "wf_raft rf \<longleftrightarrow> log rf \<noteq> [] \<and> 0 \<le> lastIncludedIndex rf \<and> lastIncludedIndex rf \<le> commitIndex rf \<and>
     length (nextIndex rf) = peers rf \<and> length (matchIndex rf) = peers rf \<and>
     0 \<le> me rf \<and> me rf < int (peers rf)"

definition commit_ok :: "('c, 'b) Raft \<Rightarrow> bool" where
  "commit_ok rf \<longleftrightarrow> commitIndex rf \<le> lastLogIndex rf"

definition status :: "('c, 'b) Raft \<Rightarrow> 'c PersistentStatus" where
  "status rf = \<lparr>ps_Log = log rf, ps_CurrentTerm = currentTerm rf, ps_VotedFor = votedFor rf,
     ps_LastIncludedIndex = lastIncludedIndex rf, ps_LastIncludedTerm = Term (hd (log rf))\<rparr>"

lemma wf_raft_log [dest, simp]: "wf_raft rf \<Longrightarrow> log rf \<noteq> []"
  by (simp add: wf_raft_def)

lemma lastLogIndex_ge: "log rf \<noteq> [] \<Longrightarrow> lastIncludedIndex rf \<le> lastLogIndex rf"
  by (cases "log rf") (simp_all add: lastLogIndex_def)

lemma realLogLen_eq: "realLogLen rf = lastLogIndex rf + 1"
  by (simp add: realLogLen_def lastLogIndex_def)

lemmas index_defs = lastLogIndex_def realLogLen_def logIndex_def realIndex_def

lemma logIndex_realIndex [simp]: "logIndex rf (realIndex rf i) = i"
  by (simp add: index_defs)

lemma realIndex_logIndex [simp]: "realIndex rf (logIndex rf i) = i"
  by (simp add: index_defs)

lemma lastLogTerm_eq: "log rf \<noteq> [] \<Longrightarrow> lastLogTerm rf = Some (Term (last (log rf)))"
proof (cases "length (log rf) < 2")
  case True
  assume "log rf \<noteq> []"
  with True obtain e where "log rf = [e]" by (cases "log rf") auto
  then show ?thesis by (simp add: lastLogTerm_def)
next
  case False
  assume "log rf \<noteq> []"
  with False show ?thesis
    by (simp add: lastLogTerm_def last_conv_nth nat_diff_distrib')
qed

lemma isLogUpToDate_eq:
  "log rf \<noteq> [] \<Longrightarrow> isLogUpToDate rf t i =
     Some (t > Term (last (log rf)) \<or> (t = Term (last (log rf)) \<and> i \<ge> lastLogIndex rf))"
  by (simp add: isLogUpToDate_def lastLogTerm_eq)

lemma PersistStatusBytes_eq: "log rf \<noteq> [] \<Longrightarrow> PersistStatusBytes rf = Some (status rf)"
  by (simp add: PersistStatusBytes_def status_def hd_conv_nth)

definition persisted :: "('c, 'b) Raft \<Rightarrow> ('c, 'b) Raft" where
  "persisted rf = rf\<lparr>persister := Save (persister rf) (Some (status rf)) (snapshot rf)\<rparr>"

lemma persist_eq: "log rf \<noteq> [] \<Longrightarrow> persist rf = Some (persisted rf)"
  by (simp add: persist_def PersistStatusBytes_eq persisted_def)

lemma persist_Some_iff: "persist rf = Some rf' \<longleftrightarrow> log rf \<noteq> [] \<and> rf' = persisted rf"
  by (cases "log rf = []") (auto simp: persist_eq, simp add: persist_def PersistStatusBytes_def idx_def)

lemma persisted_sel [simp]:
  "peers (persisted rf) = peers rf" "me (persisted rf) = me rf" "dead (persisted rf) = dead rf"
  "role (persisted rf) = role rf" "leader (persisted rf) = leader rf"
  "currentTerm (persisted rf) = currentTerm rf" "votedFor (persisted rf) = votedFor rf"
  "log (persisted rf) = log rf" "lastIncludedIndex (persisted rf) = lastIncludedIndex rf"
  "snapshot (persisted rf) = snapshot rf" "commitIndex (persisted rf) = commitIndex rf"
  "lastApplied (persisted rf) = lastApplied rf" "nextIndex (persisted rf) = nextIndex rf"
  "matchIndex (persisted rf) = matchIndex rf"
  "replicatePreSnapshot (persisted rf) = replicatePreSnapshot rf"
  "persister (persisted rf) = Save (persister rf) (Some (status rf)) (snapshot rf)"
  by (simp_all add: persisted_def)

lemma index_persisted [simp]:
  "lastLogIndex (persisted rf) = lastLogIndex rf" "realLogLen (persisted rf) = realLogLen rf"
  "logIndex (persisted rf) i = logIndex rf i" "realIndex (persisted rf) i = realIndex rf i"
  by (simp_all add: index_defs)

lemma wf_raft_persisted [simp]: "wf_raft (persisted rf) = wf_raft rf"
  by (simp add: wf_raft_def)

lemma commit_ok_persisted [simp]: "commit_ok (persisted rf) = commit_ok rf"
  by (simp add: commit_ok_def)

subsection \<open>The entry loop of AppendEntries is a merge\<close>

text \<open>
  Reference: keep the entries that agree in term, and from the first disagreement on replace the
  follower's tail by the leader's entries.
\<close>

fun mergeEntries :: "'c Logt list \<Rightarrow> 'c Logt list \<Rightarrow> 'c Logt list" where
  "mergeEntries xs [] = xs"
| "mergeEntries [] (e # es) = e # es"
| "mergeEntries (x # xs) (e # es) =
     (if Term x = Term e then x # mergeEntries xs es else e # es)"

lemma mergeEntries_Nil [simp]: "mergeEntries [] es = es"
  by (cases es) simp_all

lemma appendEntry_loop:
  assumes "b + int k = int (length pre)"
  shows "for_loop (enumerate k es) (\<lambda>(i, e) lg. appendEntry lg (b + int i) e) (pre @ xs) =
         Some (pre @ mergeEntries xs es)"
  using assms
proof (induction es arbitrary: k pre xs)
  case Nil
  then show ?case by simp
next
  case (Cons e es)
  show ?case
  proof (cases xs)
    case Nil
    have "appendEntry (pre @ xs) (b + int k) e = Some ((pre @ [e]) @ [])"
      using Cons.prems Nil by (simp add: appendEntry_def)
    with Cons.IH [of "Suc k" "pre @ [e]" "[]"] Cons.prems Nil show ?thesis by simp
  next
    case (Cons x xs')
    have step: "appendEntry (pre @ xs) (b + int k) e =
        Some (if Term x = Term e then (pre @ [x]) @ xs' else (pre @ [e]) @ [])"
      using Cons.prems Cons by (simp add: appendEntry_def nth_append)
    show ?thesis
    proof (cases "Term x = Term e")
      case True
      with step Cons.IH [of "Suc k" "pre @ [x]" xs'] Cons.prems Cons show ?thesis by simp
    next
      case False
      with step Cons.IH [of "Suc k" "pre @ [e]" "[]"] Cons.prems Cons show ?thesis by simp
    qed
  qed
qed

lemma appendLoop_eq:
  assumes "lastIncludedIndex rf \<le> aea_PrevLogIndex args"
    and "aea_PrevLogIndex args \<le> lastLogIndex rf"
    and p: "p = nat (logIndex rf (aea_PrevLogIndex args))"
  shows "appendLoop rf args =
    Some (take (Suc p) (log rf) @ mergeEntries (drop (Suc p) (log rf)) (aea_Entries args))"
proof -
  have len: "logIndex rf (aea_PrevLogIndex args + 1) + int 0 = int (length (take (Suc p) (log rf)))"
    using assms by (auto simp: index_defs)
  have shift: "logIndex rf (aea_PrevLogIndex args + 1 + int i) =
      logIndex rf (aea_PrevLogIndex args + 1) + int i" for i
    by (simp add: index_defs)
  show ?thesis
    using appendEntry_loop [OF len, of "aea_Entries args" "drop (Suc p) (log rf)"]
    by (simp add: appendLoop_def shift)
qed

subsection \<open>The conflict search\<close>

lemma conflictScan_total:
  assumes "lastIncludedIndex rf \<le> commitIndex rf" and "i \<le> lastLogIndex rf"
  shows "\<exists>c. conflictScan rf t i ci = Some c \<and> (c = ci \<or> commitIndex rf < c \<and> c \<le> i)"
  using assms
proof (induction rf t i ci rule: conflictScan.induct)
  case (1 rf t i ci)
  show ?case
  proof (cases "commitIndex rf < i")
    case True
    then have e: "idx (log rf) (logIndex rf i) = Some (log rf ! nat (logIndex rf i))"
      using "1.prems" by (simp add: index_defs)
    show ?thesis
    proof (cases "Term (log rf ! nat (logIndex rf i)) = t")
      case same: True
      from "1.IH" [OF True e] same "1.prems"
      obtain c where "conflictScan rf t (i - 1) i = Some c"
        and "c = i \<or> commitIndex rf < c \<and> c \<le> i - 1"
        by auto
      with True e same show ?thesis by (auto simp: conflictScan.simps [of rf t i ci])
    next
      case False
      with True e show ?thesis by (auto simp: conflictScan.simps [of rf t i ci])
    qed
  next
    case False
    then show ?thesis by (simp add: conflictScan.simps [of rf t i ci])
  qed
qed

subsection \<open>Closed forms of the handlers\<close>

lemma changeRole_sel [simp]:
  "peers (changeRole rf r) = peers rf" "me (changeRole rf r) = me rf"
  "role (changeRole rf r) = r" "currentTerm (changeRole rf r) = currentTerm rf"
  "votedFor (changeRole rf r) = votedFor rf" "log (changeRole rf r) = log rf"
  "lastIncludedIndex (changeRole rf r) = lastIncludedIndex rf"
  "snapshot (changeRole rf r) = snapshot rf" "commitIndex (changeRole rf r) = commitIndex rf"
  "nextIndex (changeRole rf r) = nextIndex rf" "matchIndex (changeRole rf r) = matchIndex rf"
  "lastApplied (changeRole rf r) = lastApplied rf" "persister (changeRole rf r) = persister rf"
  "leader (changeRole rf r) = leader rf" "dead (changeRole rf r) = dead rf"
  by (simp_all add: changeRole_def)

text \<open>What \<open>RequestVote\<close> decides, and the state it leaves, when the term is not stale.\<close>

definition voteOk :: "('c, 'b) Raft \<Rightarrow> RequestVoteArgs \<Rightarrow> bool" where
  "voteOk rf args \<longleftrightarrow>
     (rva_Term args > currentTerm rf \<or> votedFor rf = noVote \<or> votedFor rf = rva_CandidateId args) \<and>
     (rva_LastLogTerm args > Term (last (log rf)) \<or>
      (rva_LastLogTerm args = Term (last (log rf)) \<and> rva_LastLogIndex args \<ge> lastLogIndex rf))"

definition voteState :: "('c, 'b) Raft \<Rightarrow> RequestVoteArgs \<Rightarrow> ('c, 'b) Raft" where
  "voteState rf args = rf\<lparr>
     role := (if rva_Term args > currentTerm rf then Follower else role rf),
     currentTerm := rva_Term args,
     votedFor := (if voteOk rf args then rva_CandidateId args
                  else if rva_Term args > currentTerm rf then noVote else votedFor rf)\<rparr>"

lemma RequestVote_eq:
  assumes "log rf \<noteq> []"
  shows "RequestVote rf args = Some
    (if rva_Term args < currentTerm rf
     then (rf, \<lparr>rvr_Term = currentTerm rf, rvr_VoteGranted = False\<rparr>)
     else (persisted (voteState rf args),
           \<lparr>rvr_Term = rva_Term args, rvr_VoteGranted = voteOk rf args\<rparr>))"
proof -
  have upd: "rf = rf\<lparr>role := role rf, currentTerm := t, votedFor := votedFor rf\<rparr>"
    if "t = currentTerm rf" for t
    using that by simp
  show ?thesis
    using assms
    by (auto simp: RequestVote_def Let_def isLogUpToDate_eq persist_eq voteOk_def voteState_def
        changeRole_def lastLogIndex_def noVote_def intro!: arg_cong [of _ _ persisted])
qed

text \<open>The state after the first updates of \<open>AppendEntries\<close>, and the one after it has accepted.\<close>

definition ae_base :: "('c, 'b) Raft \<Rightarrow> 'c AppendEntriesArgs \<Rightarrow> ('c, 'b) Raft" where
  "ae_base rf args = rf\<lparr>role := Follower, leader := aea_LeaderId args,
     currentTerm := aea_Term args,
     votedFor := (if aea_Term args > currentTerm rf then noVote else votedFor rf)\<rparr>"

definition ae_log :: "('c, 'b) Raft \<Rightarrow> 'c AppendEntriesArgs \<Rightarrow> 'c Logt list" where
  "ae_log rf args = (let p = Suc (nat (logIndex rf (aea_PrevLogIndex args))) in
     take p (log rf) @ mergeEntries (drop p (log rf)) (aea_Entries args))"

definition ae_accept :: "('c, 'b) Raft \<Rightarrow> 'c AppendEntriesArgs \<Rightarrow> ('c, 'b) Raft" where
  "ae_accept rf args = (ae_base rf args)\<lparr>log := ae_log rf args,
     commitIndex := (if aea_LeaderCommit args > commitIndex rf
        then min (aea_LeaderCommit args) (lastIncludedIndex rf + int (length (ae_log rf args)) - 1)
        else commitIndex rf)\<rparr>"

lemma ae_base_sel [simp]:
  "peers (ae_base rf args) = peers rf" "me (ae_base rf args) = me rf"
  "role (ae_base rf args) = Follower" "currentTerm (ae_base rf args) = aea_Term args"
  "log (ae_base rf args) = log rf" "commitIndex (ae_base rf args) = commitIndex rf"
  "lastIncludedIndex (ae_base rf args) = lastIncludedIndex rf"
  "snapshot (ae_base rf args) = snapshot rf" "persister (ae_base rf args) = persister rf"
  "nextIndex (ae_base rf args) = nextIndex rf" "matchIndex (ae_base rf args) = matchIndex rf"
  "lastApplied (ae_base rf args) = lastApplied rf"
  by (simp_all add: ae_base_def)

lemma ae_base_eq:
  "aea_Term args \<ge> currentTerm rf \<Longrightarrow>
   (if aea_Term args > currentTerm (changeRole rf Follower)
    then (changeRole rf Follower)\<lparr>currentTerm := aea_Term args, votedFor := noVote\<rparr>
    else changeRole rf Follower)\<lparr>leader := aea_LeaderId args\<rparr> = ae_base rf args"
  by (auto simp: ae_base_def changeRole_def)

lemma index_ae_base [simp]:
  "lastLogIndex (ae_base rf args) = lastLogIndex rf" "realLogLen (ae_base rf args) = realLogLen rf"
  "logIndex (ae_base rf args) i = logIndex rf i" "realIndex (ae_base rf args) i = realIndex rf i"
  by (simp_all add: index_defs)

lemma ae_base_same_commit [simp]:
  "(ae_base rf args)\<lparr>log := l, commitIndex := commitIndex rf\<rparr> = (ae_base rf args)\<lparr>log := l\<rparr>"
  by (simp add: ae_base_def)

lemma ae_log_nonempty: "log rf \<noteq> [] \<Longrightarrow> ae_log rf args \<noteq> []"
  by (simp add: ae_log_def Let_def)

lemma AppendEntries_eq:
  assumes "wf_raft rf"
  shows "AppendEntries rf args = Some
    (if aea_Term args < currentTerm rf
     then (rf, \<lparr>aer_Term = currentTerm rf, aer_Success = False,
                aer_XTerm = 0, aer_XIndex = 0, aer_XLen = 0\<rparr>)
     else if lastIncludedIndex rf > aea_PrevLogIndex args
     then (persisted (ae_base rf args), \<lparr>aer_Term = aea_Term args, aer_Success = False,
                aer_XTerm = 0, aer_XIndex = 0, aer_XLen = 0\<rparr>)
     else if lastLogIndex rf < aea_PrevLogIndex args
     then (persisted (ae_base rf args), \<lparr>aer_Term = aea_Term args, aer_Success = False,
                aer_XTerm = -1, aer_XIndex = -1, aer_XLen = realLogLen rf\<rparr>)
     else let t = Term (log rf ! nat (logIndex rf (aea_PrevLogIndex args))) in
       if t \<noteq> aea_PrevLogTerm args
       then (persisted (ae_base rf args), \<lparr>aer_Term = aea_Term args, aer_Success = False,
                aer_XTerm = t,
                aer_XIndex = the (conflictScan (ae_base rf args) t (aea_PrevLogIndex args) (-1)),
                aer_XLen = realLogLen rf\<rparr>)
       else (persisted (ae_accept rf args), \<lparr>aer_Term = aea_Term args, aer_Success = True,
                aer_XTerm = 0, aer_XIndex = 0, aer_XLen = 0\<rparr>))"
proof (cases "aea_Term args < currentTerm rf")
  case True
  then show ?thesis by (simp add: AppendEntries_def)
next
  case fresh: False
  let ?b = "ae_base rf args" and ?i = "logIndex rf (aea_PrevLogIndex args)"
  have base: "AppendEntries rf args = do {
      (r, reply) \<leftarrow> appendChecked ?b args; rf' \<leftarrow> persist r; Some (rf', reply) }"
    using fresh ae_base_eq [of rf args] by (simp add: AppendEntries_def Let_def)
  show ?thesis
  proof (cases "lastIncludedIndex rf \<le> aea_PrevLogIndex args \<and> aea_PrevLogIndex args \<le> lastLogIndex rf")
    case inside: True
    have e: "idx (log rf) ?i = Some (log rf ! nat ?i)"
      using inside by (simp add: index_defs)
    from assms inside obtain c where
      c: "conflictScan ?b (Term (log rf ! nat ?i)) (aea_PrevLogIndex args) (-1) = Some c"
      using conflictScan_total [of ?b "aea_PrevLogIndex args"] by (fastforce simp: wf_raft_def)
    have lg: "appendLoop ?b args = Some (ae_log rf args)"
      using inside by (simp add: appendLoop_eq [OF _ _ refl] ae_log_def Let_def)
    show ?thesis
      using fresh inside e c lg assms ae_log_nonempty [of rf args]
      by (simp add: base appendChecked_def Let_def persist_eq ae_accept_def lastLogIndex_def)
  next
    case outside: False
    then show ?thesis
      using fresh assms by (auto simp: base appendChecked_def persist_eq)
  qed
qed

lemma Snapshot_eq:
  assumes "wf_raft rf" and "commit_ok rf" and k: "k = nat (index - lastIncludedIndex rf)"
  shows "Snapshot rf index snap = Some
    (if commitIndex rf < index \<or> lastIncludedIndex rf \<ge> index then rf
     else persisted (rf\<lparr>lastIncludedIndex := index,
            log := \<lparr>Command = None, Term = Term (log rf ! k)\<rparr> # drop (Suc k) (log rf),
            snapshot := snap\<rparr>))"
proof (cases "commitIndex rf < index \<or> lastIncludedIndex rf \<ge> index")
  case True
  then show ?thesis by (simp add: Snapshot_def)
next
  case False
  then have "0 \<le> logIndex rf index" and "logIndex rf index < int (length (log rf))"
    using assms by (auto simp: commit_ok_def index_defs)
  moreover have "nat (logIndex rf index + 1) = Suc k"
    using False k by (simp add: index_defs nat_add_distrib)
  ultimately show ?thesis
    using False k by (simp add: Snapshot_def persist_eq) (simp add: logIndex_def)
qed

text \<open>The parts of \<open>InstallSnapshot\<close>.\<close>

definition is_base :: "('c, 'b) Raft \<Rightarrow> 'b InstallSnapshotArgs \<Rightarrow> ('c, 'b) Raft" where
  "is_base rf args = rf\<lparr>role := Follower, leader := isa_LeaderId args,
     currentTerm := isa_Term args,
     votedFor := (if isa_Term args > currentTerm rf then noVote else votedFor rf)\<rparr>"

text \<open>The suffix of the log that survives: what follows the snapshot's last entry, if it is there.\<close>

definition is_rest :: "('c, 'b) Raft \<Rightarrow> 'b InstallSnapshotArgs \<Rightarrow> 'c Logt list" where
  "is_rest rf args = (let k = nat (isa_LastIncludedIndex args - lastIncludedIndex rf) in
     if k < length (log rf) \<and> Term (log rf ! k) = isa_LastIncludedTerm args
     then drop (Suc k) (log rf) else [])"

definition is_installed :: "('c, 'b) Raft \<Rightarrow> 'b InstallSnapshotArgs \<Rightarrow> ('c, 'b) Raft" where
  "is_installed rf args = (is_base rf args)\<lparr>
     log := \<lparr>Command = None, Term = isa_LastIncludedTerm args\<rparr> # is_rest rf args,
     lastIncludedIndex := isa_LastIncludedIndex args,
     commitIndex := isa_LastIncludedIndex args, lastApplied := isa_LastIncludedIndex args,
     snapshot := isa_Data args\<rparr>"

lemma is_base_sel [simp]:
  "peers (is_base rf args) = peers rf" "me (is_base rf args) = me rf"
  "role (is_base rf args) = Follower" "currentTerm (is_base rf args) = isa_Term args"
  "log (is_base rf args) = log rf" "commitIndex (is_base rf args) = commitIndex rf"
  "lastIncludedIndex (is_base rf args) = lastIncludedIndex rf"
  "snapshot (is_base rf args) = snapshot rf" "persister (is_base rf args) = persister rf"
  "nextIndex (is_base rf args) = nextIndex rf" "matchIndex (is_base rf args) = matchIndex rf"
  "lastApplied (is_base rf args) = lastApplied rf"
  by (simp_all add: is_base_def)

lemma index_is_base [simp]:
  "lastLogIndex (is_base rf args) = lastLogIndex rf" "realLogLen (is_base rf args) = realLogLen rf"
  "logIndex (is_base rf args) i = logIndex rf i" "realIndex (is_base rf args) i = realIndex rf i"
  by (simp_all add: index_defs)

lemma is_base_eq:
  "isa_Term args \<ge> currentTerm rf \<Longrightarrow>
   changeRole ((if isa_Term args > currentTerm rf
      then rf\<lparr>currentTerm := isa_Term args, votedFor := noVote\<rparr> else rf)
     \<lparr>leader := isa_LeaderId args\<rparr>) Follower = is_base rf args"
  by (auto simp: is_base_def changeRole_def)

lemma find_slot:
  "find (\<lambda>i. b + int i = t \<and> P i) [Suc 0..<n] =
     (if b < t \<and> nat (t - b) < n \<and> P (nat (t - b)) then Some (nat (t - b)) else None)"
proof (cases "b < t \<and> nat (t - b) < n \<and> P (nat (t - b))")
  case True
  let ?k = "nat (t - b)"
  have split: "[Suc 0..<n] = [Suc 0..<?k] @ ?k # [Suc ?k..<n]"
    using True upt_add_eq_append [of "Suc 0" ?k "n - ?k"] upt_conv_Cons [of ?k n] by fastforce
  have "find (\<lambda>i. b + int i = t \<and> P i) [Suc 0..<?k] = None"
    by (auto simp: find_None_iff)
  moreover have "find Q (xs @ x # ys) = (if Q x then Some x else find Q ys)"
    if "find Q xs = None" for Q and xs ys :: "nat list" and x
    using that by (induction xs) (auto split: if_splits)
  ultimately show ?thesis using True by (subst split) simp
next
  case False
  then have "find (\<lambda>i. b + int i = t \<and> P i) [Suc 0..<n] = None"
    by (auto simp: find_None_iff)
  with False show ?thesis by auto
qed

lemma installData_eq:
  assumes "lastIncludedIndex rf < isa_LastIncludedIndex args"
  shows "installData (is_base rf args) args = Some (persisted (is_installed rf args))"
proof -
  define k where "k = nat (isa_LastIncludedIndex args - lastIncludedIndex rf)"
  have "find (\<lambda>i. lastIncludedIndex rf + int i = isa_LastIncludedIndex args \<and>
        Term (log rf ! i) = isa_LastIncludedTerm args) [Suc 0..<length (log rf)] =
      (if k < length (log rf) \<and> Term (log rf ! k) = isa_LastIncludedTerm args
       then Some k else None)"
    using assms by (simp add: find_slot k_def)
  then show ?thesis
    by (simp add: installData_def realIndex_def is_installed_def is_rest_def persist_eq
        flip: k_def)
qed

lemma InstallSnapshot_eq:
  "InstallSnapshot rf args = Some
    (if isa_Term args < currentTerm rf then (rf, \<lparr>isr_Term = currentTerm rf\<rparr>, None)
     else if isa_LastIncludedIndex args \<le> lastIncludedIndex rf \<or>
             isa_LastIncludedIndex args \<le> commitIndex rf
     then (is_base rf args, \<lparr>isr_Term = isa_Term args\<rparr>, None)
     else (persisted (is_installed rf args), \<lparr>isr_Term = isa_Term args\<rparr>, Some (snapshotMsg args)))"
proof (cases "isa_Term args < currentTerm rf")
  case True
  then show ?thesis by (simp add: InstallSnapshot_def)
next
  case False
  have "InstallSnapshot rf args = do {
      let rf2 = is_base rf args;
      if isa_LastIncludedIndex args \<le> lastIncludedIndex rf2
      then Some (rf2, \<lparr>isr_Term = currentTerm rf2\<rparr>, None)
      else if isa_LastIncludedIndex args \<le> commitIndex rf2
      then Some (rf2, \<lparr>isr_Term = currentTerm rf2\<rparr>, None)
      else do { rf3 \<leftarrow> installData rf2 args;
                Some (rf3, \<lparr>isr_Term = currentTerm rf2\<rparr>, Some (snapshotMsg args)) } }"
    using False is_base_eq [of rf args] by (simp add: InstallSnapshot_def Let_def)
  then show ?thesis
    using False installData_eq [of rf args] by (simp add: Let_def)
qed

lemma Start_eq:
  assumes "wf_raft rf" and "role rf = Leader"
    and lg: "lg = log rf @ [\<lparr>Command = Some cmd, Term = currentTerm rf\<rparr>]"
  shows "Start rf cmd = Some
    ((persisted (rf\<lparr>log := lg\<rparr>))\<lparr>matchIndex := (matchIndex rf)[nat (me rf) := realLogLen rf],
       nextIndex := (nextIndex rf)[nat (me rf) := realLogLen rf + 1]\<rparr>,
     realLogLen rf, currentTerm rf, True)"
  using assms by (simp add: Start_def persist_eq wf_raft_def lastLogIndex_def realLogLen_def algebra_simps)

lemma Start_not_leader: "role rf \<noteq> Leader \<Longrightarrow> Start rf cmd = Some (rf, -1, -1, False)"
  by (simp add: Start_def)

subsection \<open>Closed forms of the leader's operations\<close>

lemma initLoop_eq:
  assumes "k \<le> length (nextIndex rf)" and "k \<le> length (matchIndex rf)"
  shows "for_loop [0..<k] (\<lambda>i r. do {
         nx \<leftarrow> set_idx (nextIndex r) (int i) (realLogLen r);
         mx \<leftarrow> set_idx (matchIndex r) (int i) (lastIncludedIndex r);
         Some (r\<lparr>nextIndex := nx, matchIndex := mx\<rparr>)
       }) rf =
     Some (rf\<lparr>nextIndex := replicate k (realLogLen rf) @ drop k (nextIndex rf),
              matchIndex := replicate k (lastIncludedIndex rf) @ drop k (matchIndex rf)\<rparr>)"
  using assms
proof (induction k)
  case 0
  then show ?case by simp
next
  case (Suc k)
  have upd: "(replicate k a @ drop k xs)[k := a] = replicate (Suc k) a @ drop (Suc k) xs"
    if "Suc k \<le> length xs" for a and xs :: "int list"
    using that by (simp add: list_update_append replicate_append_same Cons_nth_drop_Suc [symmetric])
  have rl: "realLogLen (rf\<lparr>nextIndex := a, matchIndex := b\<rparr>) = realLogLen rf" for a b
    by (simp add: realLogLen_def)
  from Suc show ?case by (simp add: for_loop_append rl upd del: replicate_Suc)
qed

lemma initializeLeader_eq:
  assumes "wf_raft rf"
  shows "initializeLeaderEasilyLostState rf = Some
    (rf\<lparr>nextIndex := replicate (peers rf) (realLogLen rf),
        matchIndex := (replicate (peers rf) (lastIncludedIndex rf))[nat (me rf) := lastLogIndex rf]\<rparr>)"
proof -
  have upd: "(replicate n (x :: int))[i := x] = replicate n x" for n i x
    by (induction n arbitrary: i) (auto split: nat.splits)
  have li: "lastLogIndex (rf\<lparr>nextIndex := a, matchIndex := b\<rparr>) = lastLogIndex rf" for a b
    by (simp add: lastLogIndex_def)
  have len: "lastLogIndex rf + 1 = realLogLen rf" by (simp add: realLogLen_eq)
  show ?thesis
    using assms by (simp add: initializeLeaderEasilyLostState_def initLoop_eq wf_raft_def li len upd)
qed

text \<open>What a leader sends to a peer whose \<open>nextIndex\<close> is \<open>nxt\<close>.\<close>

definition broadcastMsg :: "('c, 'b) Raft \<Rightarrow> int \<Rightarrow> ('c, 'b) rpc" where
  "broadcastMsg rf nxt =
     (if nxt \<le> lastIncludedIndex rf
      then InstallSnapshotRPC \<lparr>isa_Term = currentTerm rf, isa_LeaderId = me rf,
             isa_LastIncludedIndex = lastIncludedIndex rf,
             isa_LastIncludedTerm = Term (hd (log rf)), isa_Data = snapshot rf\<rparr>
      else AppendEntriesRPC \<lparr>aea_Term = currentTerm rf, aea_LeaderId = me rf,
             aea_PrevLogIndex = nxt - 1,
             aea_PrevLogTerm = Term (log rf ! nat (logIndex rf (nxt - 1))),
             aea_Entries = drop (nat (logIndex rf nxt)) (log rf),
             aea_LeaderCommit = commitIndex rf\<rparr>)"

lemma broadcastTo_eq:
  assumes "wf_raft rf" and "p < peers rf" and "nextIndex rf ! p \<le> realLogLen rf"
  shows "broadcastTo rf p = Some (broadcastMsg rf (nextIndex rf ! p))"
proof (cases "nextIndex rf ! p \<le> lastIncludedIndex rf")
  case True
  with assms show ?thesis
    by (simp add: broadcastTo_def broadcastMsg_def wf_raft_def hd_conv_nth)
next
  case False
  let ?n = "nextIndex rf ! p"
  have "idx (log rf) (logIndex rf (?n - 1)) = Some (log rf ! nat (logIndex rf (?n - 1)))"
    using False assms by (simp add: index_defs)
  moreover have "slice_from (log rf) (logIndex rf ?n) = Some (drop (nat (logIndex rf ?n)) (log rf))"
    using False assms by (simp add: index_defs)
  moreover have "(if ?n - 1 > lastIncludedIndex rf \<and>
        ?n - 1 < lastIncludedIndex rf + int (length (log rf))
      then map_option Term (idx (log rf) (logIndex rf (?n - 1)))
      else if ?n - 1 = lastIncludedIndex rf then map_option Term (idx (log rf) 0)
      else None) = Some (Term (log rf ! nat (logIndex rf (?n - 1))))"
    using False assms calculation(1) by (auto simp: realLogLen_def logIndex_def)
  moreover have "idx (nextIndex rf) (int p) = Some ?n"
    using assms by (simp add: wf_raft_def)
  ultimately show ?thesis
    using False by (simp add: broadcastTo_def broadcastMsg_def Let_def)
qed

definition otherPeers :: "('c, 'b) Raft \<Rightarrow> nat list" where
  "otherPeers rf = filter (\<lambda>p. int p \<noteq> me rf) [0..<peers rf]"

lemma for_loop_collect:
  "(\<And>p. p \<in> set ps \<Longrightarrow> int p \<noteq> m \<Longrightarrow> f p = Some (g p)) \<Longrightarrow>
   for_loop ps (\<lambda>p outs. if int p = m then Some outs
       else Option.bind (f p) (\<lambda>x. Some (outs @ [(int p, x)]))) acc =
   Some (acc @ map (\<lambda>p. (int p, g p)) (filter (\<lambda>p. int p \<noteq> m) ps))"
  by (induction ps arbitrary: acc) auto

lemma for_loop_collect_total:
  "for_loop ps (\<lambda>p outs. if int p = m then Some outs else Some (outs @ [(int p, g p)])) acc =
   Some (acc @ map (\<lambda>p. (int p, g p)) (filter (\<lambda>p. int p \<noteq> m) ps))"
  by (induction ps arbitrary: acc) auto

lemma heartbeatBroadcast_eq:
  assumes "wf_raft rf" and "\<forall>p < peers rf. nextIndex rf ! p \<le> realLogLen rf"
  shows "heartbeatBroadcast rf =
    Some (map (\<lambda>p. (int p, broadcastMsg rf (nextIndex rf ! p))) (otherPeers rf))"
  using assms unfolding heartbeatBroadcast_def otherPeers_def
  by (subst for_loop_collect) (auto simp: broadcastTo_eq)

lemma startElection_eq:
  assumes "log rf \<noteq> []"
    and r: "r = rf\<lparr>currentTerm := currentTerm rf + 1, votedFor := me rf, leader := NoLeader\<rparr>"
  shows "startElection rf = Some (persisted r, 1,
    map (\<lambda>p. (int p, \<lparr>rva_Term = currentTerm rf + 1, rva_CandidateId = me rf,
        rva_LastLogIndex = lastLogIndex rf, rva_LastLogTerm = Term (last (log rf))\<rparr>))
      (otherPeers rf))"
proof -
  have p: "persist r = Some (persisted r)" using assms(1) by (simp add: r persist_eq)
  have t: "lastLogTerm (persisted r) = Some (Term (last (log rf)))"
    using assms(1) by (simp add: r lastLogTerm_eq)
  have li: "lastLogIndex r = lastLogIndex rf" by (simp add: r lastLogIndex_def)
  have rs: "me r = me rf" "peers r = peers rf" "currentTerm r = currentTerm rf + 1"
    by (simp_all add: r)
  show ?thesis
    unfolding startElection_def r [symmetric] p otherPeers_def
    by (simp add: t li rs for_loop_collect_total cong: if_cong)
qed

subsection \<open>Committing\<close>

definition termAt :: "('c, 'b) Raft \<Rightarrow> int \<Rightarrow> int" where
  "termAt rf i = Term (log rf ! nat (logIndex rf i))"

definition replicas :: "('c, 'b) Raft \<Rightarrow> int \<Rightarrow> nat set" where
  "replicas rf N = {p. p < peers rf \<and> N \<le> matchIndex rf ! p}"

definition committable :: "('c, 'b) Raft \<Rightarrow> int \<Rightarrow> bool" where
  "committable rf N \<longleftrightarrow> commitIndex rf < N \<and> N \<le> lastLogIndex rf \<and>
     termAt rf N = currentTerm rf \<and> card (replicas rf N) > peers rf div 2"

lemma count_loop:
  "for_loop ps (\<lambda>p k. Some (if P p then Suc k else k)) k = Some (length (filter P ps) + k)"
  by (induction ps arbitrary: k) auto

lemma succeedNum_eq:
  assumes "wf_raft rf" and "lastIncludedIndex rf \<le> N" and "N \<le> lastLogIndex rf"
  shows "succeedNum rf N =
    Some (if termAt rf N = currentTerm rf then card (replicas rf N) else 0)"
proof -
  have e: "idx (log rf) (logIndex rf N) = Some (log rf ! nat (logIndex rf N))"
    using assms by (simp add: index_defs)
  have body: "for_loop ps (\<lambda>peer k. do {
          m \<leftarrow> idx (matchIndex rf) (int peer);
          if N \<le> m then do {
            e \<leftarrow> idx (log rf) (logIndex rf N);
            Some (if Term e = currentTerm rf then k + 1 else k)
          }
          else Some k
        }) k = for_loop ps
          (\<lambda>p k. Some (if N \<le> matchIndex rf ! p \<and> termAt rf N = currentTerm rf then Suc k else k)) k"
    if "set ps \<subseteq> {0..<peers rf}" for ps k
    using that assms(1) e by (induction ps arbitrary: k) (auto simp: termAt_def wf_raft_def)
  have "card (replicas rf N) = length (filter (\<lambda>p. N \<le> matchIndex rf ! p) [0..<peers rf])"
    by (subst distinct_card [symmetric]) (auto simp: replicas_def intro!: arg_cong [of _ _ card])
  then show ?thesis
    by (simp add: succeedNum_def body count_loop cong: conj_cong)
qed

lemma last_hit_loop:
  "fold (\<lambda>n N. if P n then n else N) ns N0 = (if filter P ns = [] then N0 else last (filter P ns))"
  by (induction ns arbitrary: N0) auto

lemma sorted_le_last: "sorted xs \<Longrightarrow> x \<in> set xs \<Longrightarrow> x \<le> last xs"
  by (induction xs) auto

lemma checkAndCommitLogs_spec:
  assumes "wf_raft rf"
  obtains N where "checkAndCommitLogs rf = Some (rf\<lparr>commitIndex := N\<rparr>)"
    and "N = commitIndex rf \<or> committable rf N"
    and "\<And>M. committable rf M \<Longrightarrow> M \<le> N"
proof -
  let ?ns = "[commitIndex rf + 1 .. realLogLen rf - 1]"
  let ?P = "committable rf"
  let ?N = "if filter ?P ?ns = [] then commitIndex rf else last (filter ?P ?ns)"
  have inns: "n \<in> set ?ns \<longleftrightarrow> commitIndex rf < n \<and> n \<le> lastLogIndex rf" for n
    by (auto simp: realLogLen_eq)
  have body: "(do { k \<leftarrow> succeedNum rf n; Some (if k > peers rf div 2 then n else N) }) =
      Some (if ?P n then n else N)" if "n \<in> set ?ns" for n N
    using that assms inns [of n] succeedNum_eq [of rf n]
    by (auto simp: committable_def wf_raft_def)
  have loop: "for_loop ?ns
      (\<lambda>n N. do { k \<leftarrow> succeedNum rf n; Some (if k > peers rf div 2 then n else N) })
      (commitIndex rf) = Some ?N"
    by (subst for_loop_fold [where f = "\<lambda>n N. if ?P n then n else N"])
      (simp_all only: body last_hit_loop)
  have hit: "?N = commitIndex rf \<or> ?P ?N \<and> commitIndex rf < ?N"
    using last_in_set [of "filter ?P ?ns"] by (auto simp: committable_def)
  have max: "M \<le> ?N" if "?P M" for M
  proof -
    have M: "M \<in> set (filter ?P ?ns)"
      using that inns [of M] by (auto simp: committable_def)
    then have "filter ?P ?ns \<noteq> []" by force
    moreover have "M \<le> last (filter ?P ?ns)"
      by (rule sorted_le_last [OF _ M]) (simp add: sorted_wrt_filter)
    ultimately show ?thesis by simp
  qed
  have "checkAndCommitLogs rf = Some (rf\<lparr>commitIndex := ?N\<rparr>)"
    using hit by (auto simp: checkAndCommitLogs_def loop)
  with hit max that show ?thesis by blast
qed

end
