(* ===== verification/Raft_Step.thy ===== *)
theory Raft_Step
  imports Raft_Inv
begin

section \<open>Steps of one peer and what they keep\<close>

text \<open>
  \<open>node_step\<close> collects the operations of \<open>Raft_Node\<close> in one relation on the state of a peer.  Its
  rule inversion gives the facts that hold for every operation: well-formedness, monotone terms,
  one vote per term, and the way a peer becomes leader.  The theory also holds the closed forms
  of the reply handlers and the panic-freedom of all operations.
\<close>

subsection \<open>Reply handlers\<close>

text \<open>The last slot of the log that holds an entry of term \<open>t\<close>, slots being counted from \<open>k\<close>.\<close>

fun lastSlot :: "int \<Rightarrow> nat \<Rightarrow> 'c Logt list \<Rightarrow> nat option" where
  "lastSlot t k [] = None"
| "lastSlot t k (e # es) = (case lastSlot t (Suc k) es of
     Some j \<Rightarrow> Some j | None \<Rightarrow> if Term e = t then Some k else None)"

lemma lastSlot_bounds: "lastSlot t k es = Some j \<Longrightarrow> k \<le> j \<and> j < k + length es"
  by (induction es arbitrary: k) (fastforce split: option.splits if_splits)+

text \<open>The index \<open>findNextIndex\<close> falls back to.\<close>

definition nextGuess :: "('c, 'b) Raft \<Rightarrow> AppendEntriesReply \<Rightarrow> int" where
  "nextGuess rf reply =
     (if aer_XTerm reply = -1 \<and> aer_XIndex reply = -1 then aer_XLen reply
      else case lastSlot (aer_XTerm reply) 0 (log rf) of
             Some j \<Rightarrow> realIndex rf (int j)
           | None \<Rightarrow> aer_XIndex reply)"

lemma findNextIndex_loop:
  assumes "0 \<le> peer" and "peer < int (length (nextIndex r))"
  shows "for_loop (enumerate k es)
      (\<lambda>(i, entry) (ok, r).
         if Term entry = t then do {
           nx \<leftarrow> set_idx (nextIndex r) peer (realIndex r (int i));
           Some (True, r\<lparr>nextIndex := nx\<rparr>)
         }
         else Some (ok, r)) (ok, r) =
    Some (case lastSlot t k es of None \<Rightarrow> (ok, r)
          | Some j \<Rightarrow> (True, r\<lparr>nextIndex := (nextIndex r)[nat peer := realIndex r (int j)]\<rparr>))"
  using assms
proof (induction es arbitrary: k ok r)
  case Nil
  then show ?case by simp
next
  case (Cons e es)
  let ?r = "r\<lparr>nextIndex := (nextIndex r)[nat peer := realIndex r (int k)]\<rparr>"
  have ri: "realIndex ?r i = realIndex r i" for i by (simp add: realIndex_def)
  show ?case
  proof (cases "Term e = t")
    case True
    with Cons.IH [of ?r "Suc k" True] Cons.prems show ?thesis
      by (simp add: ri split: option.splits)
  next
    case False
    with Cons.IH [of r "Suc k" ok] Cons.prems show ?thesis
      by (simp split: option.splits)
  qed
qed

lemma findNextIndex_eq:
  assumes "wf_raft rf" and "0 \<le> peer" and "peer < int (peers rf)"
  shows "findNextIndex rf peer reply =
    Some (rf\<lparr>nextIndex := (nextIndex rf)[nat peer := nextGuess rf reply]\<rparr>)"
  using assms findNextIndex_loop [of peer rf 0 "log rf" "aer_XTerm reply" False]
  by (auto simp: findNextIndex_def nextGuess_def wf_raft_def split: option.splits)

text \<open>The acknowledged state of a leader, before it looks for entries to commit.\<close>

definition acked :: "('c, 'b) Raft \<Rightarrow> int \<Rightarrow> int \<Rightarrow> ('c, 'b) Raft" where
  "acked rf peer i = rf\<lparr>
     matchIndex := (matchIndex rf)[nat peer := max (matchIndex rf ! nat peer) i],
     nextIndex := (nextIndex rf)[nat peer := max (nextIndex rf ! nat peer) (i + 1)]\<rparr>"

lemma wf_acked [simp]: "wf_raft (acked rf peer i) = wf_raft rf"
  by (simp add: acked_def wf_raft_def)

definition stepDown :: "('c, 'b) Raft \<Rightarrow> int \<Rightarrow> ('c, 'b) Raft" where
  "stepDown rf t = (changeRole rf Follower)\<lparr>leader := NoLeader, currentTerm := t\<rparr>"

lemma handleSendAppendEntries_eq:
  assumes "wf_raft rf" and "0 \<le> peer" and "peer < int (peers rf)"
  shows "handleSendAppendEntries rf peer args reply =
    (if currentTerm rf \<noteq> aea_Term args \<or> role rf \<noteq> Leader then Some rf
     else if aer_Term reply > currentTerm rf then Some (persisted (stepDown rf (aer_Term reply)))
     else if aer_Success reply
     then checkAndCommitLogs
            (acked rf peer (aea_PrevLogIndex args + int (length (aea_Entries args))))
     else Some (rf\<lparr>nextIndex := (nextIndex rf)[nat peer := nextGuess rf reply]\<rparr>))"
  using assms
  by (simp add: handleSendAppendEntries_def findNextIndex_eq)
    (simp add: wf_raft_def acked_def persist_eq stepDown_def Let_def)

lemma handleSendInstallSnapshot_eq:
  assumes "wf_raft rf" and "0 \<le> peer" and "peer < int (peers rf)"
  shows "handleSendInstallSnapshot rf peer args reply = Some
    (if currentTerm rf \<noteq> isa_Term args \<or> role rf \<noteq> Leader then rf
     else if isr_Term reply > currentTerm rf then persisted (stepDown rf (isr_Term reply))
     else acked rf peer (isa_LastIncludedIndex args))"
  using assms
  by (simp add: handleSendInstallSnapshot_def wf_raft_def acked_def persist_eq stepDown_def)

text \<open>The state of a candidate that has just won.\<close>

definition elected :: "('c, 'b) Raft \<Rightarrow> ('c, 'b) Raft" where
  "elected rf = rf\<lparr>role := Leader, leader := me rf,
     nextIndex := replicate (peers rf) (realLogLen rf),
     matchIndex := (replicate (peers rf) (lastIncludedIndex rf))[nat (me rf) := lastLogIndex rf]\<rparr>"

lemma wf_elected [simp]: "wf_raft rf \<Longrightarrow> wf_raft (elected rf)"
  by (simp add: elected_def wf_raft_def)

lemma requestVoteReply_eq:
  assumes "wf_raft rf"
    and k: "k = (if rvr_VoteGranted reply then approvedNum + 1 else approvedNum)"
  shows "requestVoteReply rf approvedNum args reply = Some
    (if currentTerm rf \<noteq> rva_Term args \<or> role rf \<noteq> Candidate then (rf, approvedNum, [])
     else if rvr_Term reply > currentTerm rf
     then ((persisted (rf\<lparr>currentTerm := rvr_Term reply, votedFor := noVote\<rparr>))\<lparr>role := Follower\<rparr>,
           approvedNum, [])
     else if rvr_Term reply = currentTerm rf
     then (if k > peers rf div 2
           then (elected rf, k,
                 map (\<lambda>p. (int p, broadcastMsg (elected rf) (realLogLen rf))) (otherPeers rf))
           else (rf, k, []))
     else (rf, approvedNum, []))"
proof -
  let ?r = "(changeRole rf Leader)\<lparr>leader := me rf\<rparr>"
  have wf: "wf_raft ?r" using assms by (simp add: wf_raft_def)
  have init: "initializeLeaderEasilyLostState ?r = Some (elected rf)"
    using initializeLeader_eq [OF wf]
    by (simp add: elected_def changeRole_def lastLogIndex_def realLogLen_def)
  have rl: "realLogLen (elected rf) = realLogLen rf" by (simp add: elected_def realLogLen_def)
  have "heartbeatBroadcast (elected rf) =
      Some (map (\<lambda>p. (int p, broadcastMsg (elected rf) (nextIndex (elected rf) ! p)))
        (otherPeers (elected rf)))"
    using assms by (intro heartbeatBroadcast_eq) (auto simp: rl, simp add: elected_def)
  also have "\<dots> = Some (map (\<lambda>p. (int p, broadcastMsg (elected rf) (realLogLen rf))) (otherPeers rf))"
    by (auto simp: otherPeers_def elected_def)
  finally show ?thesis
    using assms init by (simp add: requestVoteReply_def Let_def persist_eq changeRole_def)
qed

subsection \<open>The step relation\<close>

inductive node_step :: "('c, 'b) Raft \<Rightarrow> ('c, 'b) Raft \<Rightarrow> bool" where
  sRequestVote: "RequestVote rf a = Some (rf', r) \<Longrightarrow> node_step rf rf'"
| sAppendEntries: "AppendEntries rf a = Some (rf', r) \<Longrightarrow> node_step rf rf'"
| sInstallSnapshot: "InstallSnapshot rf a = Some (rf', r, m) \<Longrightarrow> node_step rf rf'"
| sStart: "Start rf c = Some (rf', i, t, b) \<Longrightarrow> node_step rf rf'"
| sSnapshot: "Snapshot rf i d = Some rf' \<Longrightarrow> node_step rf rf'"
| sElection: "electionEvent rf = Some (rf', n, reqs) \<Longrightarrow> node_step rf rf'"
| sVoteReply: "requestVoteReply rf n a r = Some (rf', n', outs) \<Longrightarrow> node_step rf rf'"
| sAppendReply: "0 \<le> peer \<Longrightarrow> peer < int (peers rf) \<Longrightarrow>
    handleSendAppendEntries rf peer a r = Some rf' \<Longrightarrow> node_step rf rf'"
| sInstallReply: "0 \<le> peer \<Longrightarrow> peer < int (peers rf) \<Longrightarrow>
    handleSendInstallSnapshot rf peer a r = Some rf' \<Longrightarrow> node_step rf rf'"
| sApplierBegin: "applierBegin rf m = Some rf' \<Longrightarrow> node_step rf rf'"
| sApplierSent: "node_step rf (applierSent rf)"
| sApplierEnd: "node_step rf (applierEnd rf m)"
| sKill: "node_step rf (Kill rf)"

inductive_cases node_stepE: "node_step rf rf'"

lemma Snapshot_cases:
  fixes rf :: "('a, 'b) Raft"
  assumes "Snapshot rf i d = Some rf'"
  obtains "rf' = rf"
  | t rest where "lastIncludedIndex rf < i" "i \<le> commitIndex rf"
      "rf' = persisted (rf\<lparr>lastIncludedIndex := i,
         log := \<lparr>Command = None, Term = t\<rparr> # rest, snapshot := d\<rparr>)"
proof (cases "commitIndex rf < i \<or> lastIncludedIndex rf \<ge> i")
  case True
  with assms that(1) show ?thesis by (simp add: Snapshot_def)
next
  case False
  with assms obtain e :: "'a Logt" and rest where
    "persist (rf\<lparr>lastIncludedIndex := i, log := \<lparr>Command = None, Term = Term e\<rparr> # rest,
                snapshot := d\<rparr>) = Some rf'"
    by (auto simp: Snapshot_def Let_def bind_convs)
  then have "rf' = persisted (rf\<lparr>lastIncludedIndex := i,
      log := \<lparr>Command = None, Term = Term e\<rparr> # rest, snapshot := d\<rparr>)"
    by (simp add: persist_Some_iff)
  with False show ?thesis by (intro that(2)) simp_all
qed

lemma checkAndCommitLogs_cases:
  assumes "checkAndCommitLogs rf = Some rf'" and "wf_raft rf"
  obtains N where "rf' = rf\<lparr>commitIndex := N\<rparr>" "N = commitIndex rf \<or> committable rf N"
  using assms checkAndCommitLogs_spec [of rf] by (metis option.inject)

lemma electionEvent_eq:
  assumes "log rf \<noteq> []"
  shows "electionEvent rf = Some
    (persisted (rf\<lparr>role := Candidate, currentTerm := currentTerm rf + 1, votedFor := me rf,
                   leader := NoLeader\<rparr>), 1,
     map (\<lambda>p. (int p, \<lparr>rva_Term = currentTerm rf + 1, rva_CandidateId = me rf,
         rva_LastLogIndex = lastLogIndex rf, rva_LastLogTerm = Term (last (log rf))\<rparr>))
       (otherPeers rf))"
  using assms unfolding electionEvent_def
  by (subst startElection_eq [OF _ refl])
    (simp_all add: otherPeers_def changeRole_def lastLogIndex_def)

lemma Start_state:
  assumes "Start rf c = Some (rf', i, t, b)" and "wf_raft rf"
  shows "rf' = (if role rf = Leader
     then (persisted (rf\<lparr>log := log rf @ [\<lparr>Command = Some c, Term = currentTerm rf\<rparr>]\<rparr>))
       \<lparr>matchIndex := (matchIndex rf)[nat (me rf) := realLogLen rf],
        nextIndex := (nextIndex rf)[nat (me rf) := realLogLen rf + 1]\<rparr>
     else rf)"
proof (cases "role rf = Leader")
  case True
  from trans [OF assms(1) [symmetric] Start_eq [OF assms(2) True refl, of c]] True
  show ?thesis by simp
next
  case False
  with assms(1) show ?thesis by (simp add: Start_not_leader)
qed

subsection \<open>What every step keeps\<close>

lemma wf_ae_base [simp]: "wf_raft (ae_base rf a) = wf_raft rf"
  by (simp add: wf_raft_def)

lemma wf_is_base [simp]: "wf_raft (is_base rf a) = wf_raft rf"
  by (simp add: wf_raft_def)

lemma wf_ae_accept: "wf_raft rf \<Longrightarrow> wf_raft (ae_accept rf a)"
  using ae_log_nonempty [of rf a]
  by (cases "ae_log rf a") (auto simp: wf_raft_def ae_accept_def)

lemma wf_is_installed:
  "wf_raft rf \<Longrightarrow> commitIndex rf < isa_LastIncludedIndex a \<Longrightarrow> wf_raft (is_installed rf a)"
  by (auto simp: wf_raft_def is_installed_def)

lemma wf_voteState [simp]: "wf_raft (voteState rf a) = wf_raft rf"
  by (simp add: wf_raft_def voteState_def)

lemma wf_simple_updates [simp]:
  "wf_raft (rf\<lparr>role := r\<rparr>) = wf_raft rf" "wf_raft (rf\<lparr>leader := l\<rparr>) = wf_raft rf"
  "wf_raft (rf\<lparr>currentTerm := t\<rparr>) = wf_raft rf" "wf_raft (rf\<lparr>votedFor := v\<rparr>) = wf_raft rf"
  "wf_raft (stepDown rf t) = wf_raft rf" "wf_raft (rf\<lparr>dead := d\<rparr>) = wf_raft rf"
  "wf_raft (rf\<lparr>lastApplied := i\<rparr>) = wf_raft rf"
  "wf_raft (rf\<lparr>replicatePreSnapshot := b\<rparr>) = wf_raft rf"
  by (simp_all add: wf_raft_def stepDown_def)

lemma node_step_wf: "node_step rf rf' \<Longrightarrow> wf_raft rf \<Longrightarrow> wf_raft rf'"
proof (induction rule: node_step.induct)
  case (sAppendEntries rf a rf' r)
  then show ?case by (auto simp: AppendEntries_eq Let_def wf_ae_accept split: if_splits)
next
  case (sInstallSnapshot rf a rf' r m)
  then show ?case by (auto simp: InstallSnapshot_eq wf_is_installed split: if_splits)
next
  case (sStart rf c rf' i t b)
  then show ?case using Start_state [OF sStart] by (simp add: wf_raft_def)
next
  case (sSnapshot rf i d rf')
  then show ?case by (elim Snapshot_cases) (auto simp: wf_raft_def)
next
  case (sAppendReply peer rf a r rf')
  then show ?case
    by (auto simp: handleSendAppendEntries_eq split: if_splits elim!: checkAndCommitLogs_cases)
      (auto simp: wf_raft_def committable_def acked_def)
next
  case (sApplierBegin rf m rf')
  then show ?case by (auto simp: applierBegin_def split: if_splits)
qed (auto simp: RequestVote_eq electionEvent_eq requestVoteReply_eq handleSendInstallSnapshot_eq
      applierSent_def applierEnd_def Kill_def split: if_splits)

lemma index_simple_updates [simp]:
  "lastLogIndex (rf\<lparr>matchIndex := m\<rparr>) = lastLogIndex rf"
  "lastLogIndex (rf\<lparr>nextIndex := x\<rparr>) = lastLogIndex rf"
  "lastLogIndex (rf\<lparr>commitIndex := c\<rparr>) = lastLogIndex rf"
  "lastLogIndex (rf\<lparr>role := r\<rparr>) = lastLogIndex rf"
  by (simp_all add: lastLogIndex_def)

lemma acked_sel [simp]:
  "peers (acked rf p i) = peers rf" "me (acked rf p i) = me rf" "role (acked rf p i) = role rf"
  "currentTerm (acked rf p i) = currentTerm rf" "votedFor (acked rf p i) = votedFor rf"
  "log (acked rf p i) = log rf" "persister (acked rf p i) = persister rf"
  "lastIncludedIndex (acked rf p i) = lastIncludedIndex rf"
  "commitIndex (acked rf p i) = commitIndex rf" "snapshot (acked rf p i) = snapshot rf"
  by (simp_all add: acked_def)

lemma elected_sel [simp]:
  "peers (elected rf) = peers rf" "me (elected rf) = me rf" "role (elected rf) = Leader"
  "currentTerm (elected rf) = currentTerm rf" "votedFor (elected rf) = votedFor rf"
  "log (elected rf) = log rf" "persister (elected rf) = persister rf"
  "lastIncludedIndex (elected rf) = lastIncludedIndex rf"
  "commitIndex (elected rf) = commitIndex rf" "snapshot (elected rf) = snapshot rf"
  by (simp_all add: elected_def)

lemma stepDown_sel [simp]:
  "peers (stepDown rf t) = peers rf" "me (stepDown rf t) = me rf" "role (stepDown rf t) = Follower"
  "currentTerm (stepDown rf t) = t" "votedFor (stepDown rf t) = votedFor rf"
  "log (stepDown rf t) = log rf" "persister (stepDown rf t) = persister rf"
  "lastIncludedIndex (stepDown rf t) = lastIncludedIndex rf"
  "commitIndex (stepDown rf t) = commitIndex rf" "snapshot (stepDown rf t) = snapshot rf"
  by (simp_all add: stepDown_def)

text \<open>
  Every step is one of nine shapes.  The facts below, and those of the cluster, are read off the
  shapes; no proof opens an operation again.
\<close>

definition quiet :: "('c, 'b) Raft \<Rightarrow> ('c, 'b) Raft \<Rightarrow> bool" where
  "quiet rf rf' \<longleftrightarrow> peers rf' = peers rf \<and> me rf' = me rf \<and> role rf' = role rf \<and>
     currentTerm rf' = currentTerm rf \<and> votedFor rf' = votedFor rf \<and> log rf' = log rf \<and>
     lastIncludedIndex rf' = lastIncludedIndex rf \<and> snapshot rf' = snapshot rf \<and>
     persister rf' = persister rf"

lemma quiet_refl [simp]: "quiet rf rf"
  by (simp add: quiet_def)

lemma node_step_shape [consumes 2]:
  assumes "node_step rf rf'" and "wf_raft rf"
  obtains (quiet) "quiet rf rf'" "commitIndex rf' = commitIndex rf \<or>
       committable (rf\<lparr>matchIndex := matchIndex rf'\<rparr>) (commitIndex rf') \<and> role rf = Leader"
  | (vote) a where "currentTerm rf \<le> rva_Term a" "rf' = persisted (voteState rf a)"
  | (refuse) a where "currentTerm rf \<le> aea_Term a" "rf' = persisted (ae_base rf a)"
  | (append) a where "currentTerm rf \<le> aea_Term a" "lastIncludedIndex rf \<le> aea_PrevLogIndex a"
      "aea_PrevLogIndex a \<le> lastLogIndex rf" "termAt rf (aea_PrevLogIndex a) = aea_PrevLogTerm a"
      "rf' = persisted (ae_accept rf a)"
  | (snoop) a where "currentTerm rf \<le> isa_Term a" "rf' = is_base rf a"
  | (install) a where "currentTerm rf \<le> isa_Term a" "commitIndex rf < isa_LastIncludedIndex a"
      "rf' = persisted (is_installed rf a)"
  | (start) c where "role rf = Leader"
      "rf' = (persisted (rf\<lparr>log := log rf @ [\<lparr>Command = Some c, Term = currentTerm rf\<rparr>]\<rparr>))
       \<lparr>matchIndex := (matchIndex rf)[nat (me rf) := realLogLen rf],
        nextIndex := (nextIndex rf)[nat (me rf) := realLogLen rf + 1]\<rparr>"
  | (compact) i d t rest where "lastIncludedIndex rf < i" "i \<le> commitIndex rf"
      "rf' = persisted (rf\<lparr>lastIncludedIndex := i,
         log := \<lparr>Command = None, Term = t\<rparr> # rest, snapshot := d\<rparr>)"
  | (candidate) "rf' = persisted (rf\<lparr>role := Candidate, currentTerm := currentTerm rf + 1,
         votedFor := me rf, leader := NoLeader\<rparr>)"
  | (lost) t where "currentTerm rf < t" "role rf = Candidate"
      "rf' = (persisted (rf\<lparr>currentTerm := t, votedFor := noVote\<rparr>))\<lparr>role := Follower\<rparr>"
  | (win) "role rf = Candidate" "rf' = elected rf"
  | (down) t where "currentTerm rf < t" "role rf = Leader" "rf' = persisted (stepDown rf t)"
  using assms(1)
proof cases
  case (sRequestVote a r)
  show ?thesis
  proof (cases "rva_Term a < currentTerm rf")
    case True
    with sRequestVote assms(2) quiet show ?thesis by (simp add: RequestVote_eq)
  next
    case False
    with sRequestVote assms(2) vote [of a] show ?thesis by (simp add: RequestVote_eq)
  qed
next
  case (sAppendEntries a r)
  show ?thesis
  proof (cases "aea_Term a < currentTerm rf")
    case True
    with sAppendEntries assms(2) quiet show ?thesis by (simp add: AppendEntries_eq)
  next
    case False
    with sAppendEntries assms(2) refuse [of a] append [of a] show ?thesis
      by (simp add: AppendEntries_eq Let_def termAt_def split: if_splits)
  qed
next
  case (sInstallSnapshot a r m)
  show ?thesis
  proof (cases "isa_Term a < currentTerm rf")
    case True
    with sInstallSnapshot quiet show ?thesis by (simp add: InstallSnapshot_eq)
  next
    case False
    with sInstallSnapshot snoop [of a] install [of a] show ?thesis
      by (simp add: InstallSnapshot_eq split: if_splits)
  qed
next
  case (sStart c i t b)
  show ?thesis
  proof (cases "role rf = Leader")
    case True
    from Start_state [OF sStart assms(2)] True show ?thesis by (intro start [of c]) simp_all
  next
    case False
    with Start_state [OF sStart assms(2)] quiet show ?thesis by simp
  qed
next
  case (sSnapshot i d)
  from sSnapshot show ?thesis
  proof (cases rule: Snapshot_cases)
    case 1
    with quiet show ?thesis by simp
  next
    case (2 t rest)
    then show ?thesis by (rule compact)
  qed
next
  case (sElection n reqs)
  with assms(2) candidate show ?thesis by (simp add: electionEvent_eq)
next
  case (sVoteReply n a r n' outs)
  have "rf' = rf \<or> currentTerm rf < rvr_Term r \<and> role rf = Candidate \<and>
      rf' = (persisted (rf\<lparr>currentTerm := rvr_Term r, votedFor := noVote\<rparr>))\<lparr>role := Follower\<rparr> \<or>
      role rf = Candidate \<and> rf' = elected rf"
    using sVoteReply requestVoteReply_eq [OF assms(2) refl, where reply = r and approvedNum = n and args = a]
    by (simp only: option.inject prod.inject split: if_splits) simp_all
  then show ?thesis using quiet lost win by (elim disjE conjE) simp_all
next
  case (sAppendReply peer a r)
  let ?k = "acked rf peer (aea_PrevLogIndex a + int (length (aea_Entries a)))"
  have "rf' = rf \<or> currentTerm rf < aer_Term r \<and> role rf = Leader \<and>
        rf' = persisted (stepDown rf (aer_Term r)) \<or>
      checkAndCommitLogs ?k = Some rf' \<and> role rf = Leader \<or> (\<exists>x. rf' = rf\<lparr>nextIndex := x\<rparr>)"
    using sAppendReply(3)
      handleSendAppendEntries_eq [OF assms(2) sAppendReply(1,2), where args = a and reply = r]
    by (simp only: option.inject split: if_splits) (metis | simp)+
  then consider "rf' = rf" | "currentTerm rf < aer_Term r" "role rf = Leader"
      "rf' = persisted (stepDown rf (aer_Term r))"
    | "checkAndCommitLogs ?k = Some rf'" "role rf = Leader"
    | x where "rf' = rf\<lparr>nextIndex := x\<rparr>"
    by metis
  then show ?thesis
  proof cases
    case 3
    from 3(1) obtain N where N: "rf' = ?k\<lparr>commitIndex := N\<rparr>"
      and "N = commitIndex ?k \<or> committable ?k N"
      using assms(2) by (auto elim: checkAndCommitLogs_cases)
    then have "N = commitIndex rf \<or> committable (rf\<lparr>matchIndex := matchIndex rf'\<rparr>) N"
      by (auto simp: committable_def termAt_def replicas_def logIndex_def acked_def lastLogIndex_def)
    with N 3(2) show ?thesis by (intro quiet) (auto simp: quiet_def)
  next
    case (4 x)
    then show ?thesis by (intro quiet) (auto simp: quiet_def)
  qed (use quiet down in auto)
next
  case (sInstallReply peer a r)
  have "rf' = rf \<or> currentTerm rf < isr_Term r \<and> role rf = Leader \<and>
        rf' = persisted (stepDown rf (isr_Term r)) \<or>
      rf' = acked rf peer (isa_LastIncludedIndex a)"
    using sInstallReply(3)
      handleSendInstallSnapshot_eq [OF assms(2) sInstallReply(1,2), where args = a and reply = r]
    by (simp only: option.inject split: if_splits) simp_all
  then consider "rf' = rf" | "currentTerm rf < isr_Term r" "role rf = Leader"
      "rf' = persisted (stepDown rf (isr_Term r))"
    | "rf' = acked rf peer (isa_LastIncludedIndex a)"
    by metis
  then show ?thesis
  proof cases
    case 3
    then show ?thesis by (intro quiet) (auto simp: quiet_def)
  qed (use quiet down in auto)
qed (intro quiet; auto simp: quiet_def applierBegin_def applierSent_def applierEnd_def Kill_def
      split: if_splits)+

end
