(* ===== verification/Raft_Votes.thy ===== *)
theory Raft_Votes
  imports Raft_Step
begin

section \<open>Terms, votes and stable storage of one peer\<close>

text \<open>
  Consequences of the shapes of a step: terms never decrease, a vote given in a term is never
  changed in that term, a peer becomes leader only out of its own candidacy, and what has been
  promised in a reply survives a crash, because \<open>Make\<close> restores it from stable storage.
\<close>

subsection \<open>Monotone terms, one vote per term\<close>

definition vote_mono :: "('c, 'b) Raft \<Rightarrow> ('c, 'b) Raft \<Rightarrow> bool" where
  "vote_mono rf rf' \<longleftrightarrow> peers rf' = peers rf \<and> me rf' = me rf \<and>
     currentTerm rf \<le> currentTerm rf' \<and>
     (currentTerm rf' = currentTerm rf \<longrightarrow> votedFor rf \<noteq> noVote \<longrightarrow> votedFor rf' = votedFor rf) \<and>
     (role rf' = Leader \<longrightarrow> currentTerm rf' = currentTerm rf \<and> role rf \<noteq> Follower)"

lemmas shape_simps = voteState_def ae_base_def ae_accept_def is_base_def is_installed_def quiet_def

lemma node_step_vote_mono:
  assumes "node_step rf rf'" and "wf_raft rf"
  shows "vote_mono rf rf'"
  using assms
  by (cases rule: node_step_shape)
    (auto simp: vote_mono_def shape_simps voteOk_def)

lemma node_step_peers:
  "node_step rf rf' \<Longrightarrow> wf_raft rf \<Longrightarrow> peers rf' = peers rf \<and> me rf' = me rf"
  using node_step_vote_mono [of rf rf'] by (simp add: vote_mono_def)

subsection \<open>Stable storage\<close>

text \<open>The term and the vote that \<open>Make\<close> would restore from the storage of a peer.\<close>

definition pterm :: "('c, 'b) Raft \<Rightarrow> int" where
  "pterm rf = (case ReadRaftState (persister rf) of None \<Rightarrow> 0 | Some st \<Rightarrow> ps_CurrentTerm st)"

definition pvote :: "('c, 'b) Raft \<Rightarrow> int" where
  "pvote rf = (case ReadRaftState (persister rf) of None \<Rightarrow> noVote | Some st \<Rightarrow> ps_VotedFor st)"

text \<open>
  The log, the snapshot point and the snapshot in memory are those on storage.  The term on
  storage may lag behind, because \<open>InstallSnapshot\<close> returns early without persisting, but when it
  does not lag the vote is the stored one.
\<close>

definition durable_log :: "('c, 'b) Raft \<Rightarrow> bool" where
  "durable_log rf \<longleftrightarrow> (case ReadRaftState (persister rf) of
     None \<Rightarrow> log rf = [\<lparr>Command = None, Term = 0\<rparr>] \<and> lastIncludedIndex rf = 0 \<and> snapshot rf = None
   | Some st \<Rightarrow> ps_Log st = log rf \<and> ps_LastIncludedIndex st = lastIncludedIndex rf \<and>
       ps_LastIncludedTerm st = Term (hd (log rf)) \<and> ReadSnapshot (persister rf) = snapshot rf)"

definition durable_vote :: "('c, 'b) Raft \<Rightarrow> bool" where
  "durable_vote rf \<longleftrightarrow> pterm rf \<le> currentTerm rf \<and>
     (pterm rf = currentTerm rf \<longrightarrow> pvote rf = votedFor rf)"

definition durable :: "('c, 'b) Raft \<Rightarrow> bool" where
  "durable rf \<longleftrightarrow> durable_log rf \<and> durable_vote rf"

lemma pterm_persisted [simp]:
  "pterm (persisted rf) = currentTerm rf" "pvote (persisted rf) = votedFor rf"
  by (simp_all add: pterm_def pvote_def status_def)

lemma pterm_cong:
  "persister rf' = persister rf \<Longrightarrow> pterm rf' = pterm rf"
  "persister rf' = persister rf \<Longrightarrow> pvote rf' = pvote rf"
  by (simp_all add: pterm_def pvote_def)

lemma durable_persisted [simp]: "durable (persisted rf)"
  by (simp add: durable_def durable_log_def durable_vote_def) (simp add: status_def)

lemma durable_cong:
  assumes "persister rf' = persister rf" and "log rf' = log rf"
    and "lastIncludedIndex rf' = lastIncludedIndex rf" and "snapshot rf' = snapshot rf"
    and "currentTerm rf \<le> currentTerm rf'"
    and "currentTerm rf' = currentTerm rf \<Longrightarrow> votedFor rf' = votedFor rf"
  shows "durable rf \<Longrightarrow> durable rf'"
  using assms pterm_cong [OF assms(1)]
  by (auto simp: durable_def durable_log_def durable_vote_def split: option.splits)

lemma durable_volatile [simp]:
  "durable (rf\<lparr>nextIndex := x\<rparr>) = durable rf" "durable (rf\<lparr>matchIndex := m\<rparr>) = durable rf"
  "durable (rf\<lparr>role := r\<rparr>) = durable rf"
  by (simp_all add: durable_def durable_log_def durable_vote_def pterm_def pvote_def
      split: option.splits)

lemma node_step_durable:
  assumes "node_step rf rf'" and "wf_raft rf" and "durable rf"
  shows "durable rf'"
  using assms(1,2)
proof (cases rule: node_step_shape)
  case quiet
  then show ?thesis using assms(3) by (auto simp: quiet_def intro: durable_cong)
next
  case (snoop a)
  then show ?thesis using assms(3) by (auto simp: is_base_def intro: durable_cong)
next
  case win
  then show ?thesis using assms(3) by (auto intro: durable_cong)
qed simp_all

text \<open>The stored term never decreases, and the stored vote of a term is never changed.\<close>

lemma node_step_pvote:
  assumes "node_step rf rf'" and "wf_raft rf" and "durable rf"
  shows "pterm rf \<le> pterm rf' \<and>
    (pterm rf' = pterm rf \<longrightarrow> pvote rf \<noteq> noVote \<longrightarrow> pvote rf' = pvote rf)"
proof -
  have dv: "durable_vote rf" using assms(3) by (simp add: durable_def)
  have vm: "vote_mono rf rf'" using assms(1,2) by (rule node_step_vote_mono)
  have "persister rf' = persister rf \<or> pterm rf' = currentTerm rf' \<and> pvote rf' = votedFor rf'"
    using assms(1,2)
    by (cases rule: node_step_shape)
      (auto simp: quiet_def is_base_def pterm_cong [of "_\<lparr>matchIndex := _\<rparr>"]
        pterm_def pvote_def status_def)
  then show ?thesis
  proof
    assume "persister rf' = persister rf"
    then show ?thesis using pterm_cong [of rf' rf] by simp
  next
    assume "pterm rf' = currentTerm rf' \<and> pvote rf' = votedFor rf'"
    with dv vm show ?thesis by (auto simp: durable_vote_def vote_mono_def)
  qed
qed

subsection \<open>Crash and restart\<close>

definition restart :: "('c, 'b) Raft \<Rightarrow> ('c, 'b) Raft option" where
  "restart rf = Make (peers rf) (me rf) (Copy (persister rf))"

lemma Copy_read [simp]:
  "ReadRaftState (Copy ps) = ReadRaftState ps" "ReadSnapshot (Copy ps) = ReadSnapshot ps"
  by (simp_all add: Copy_def ReadRaftState_def ReadSnapshot_def)

lemma restart_eq:
  assumes "wf_raft rf" and "durable_log rf"
  shows "restart rf = Some
    \<lparr>peers = peers rf, persister = Copy (persister rf), me = me rf, dead = 0, role = Follower,
     leader = NoLeader, currentTerm = pterm rf, votedFor = pvote rf, log = log rf,
     lastIncludedIndex = lastIncludedIndex rf, snapshot = snapshot rf,
     commitIndex = lastIncludedIndex rf, lastApplied = lastIncludedIndex rf,
     nextIndex = replicate (peers rf) 0, matchIndex = replicate (peers rf) 0,
     replicatePreSnapshot = False\<rparr>"
proof (cases "ReadRaftState (persister rf)")
  case None
  with assms show ?thesis
    by (simp add: restart_def Make_def readPersist_def durable_log_def pterm_def pvote_def noVote_def)
next
  case (Some st)
  with assms have "ps_Log st = log rf" and "log rf \<noteq> []"
    and "ps_LastIncludedTerm st = Term (hd (log rf))"
    by (simp_all add: durable_log_def)
  then have "(ps_Log st)[0 := (ps_Log st ! 0)\<lparr>Term := ps_LastIncludedTerm st\<rparr>] = log rf"
    by (simp add: hd_conv_nth)
  with Some assms \<open>log rf \<noteq> []\<close> \<open>ps_Log st = log rf\<close> show ?thesis
    by (simp add: restart_def Make_def readPersist_def durable_log_def pterm_def pvote_def)
qed

lemma restart_facts:
  assumes "wf_raft rf" and "durable rf" and "restart rf = Some rf'"
  shows "wf_raft rf' \<and> durable rf' \<and> peers rf' = peers rf \<and> me rf' = me rf \<and>
    role rf' = Follower \<and> pterm rf' = pterm rf \<and> pvote rf' = pvote rf \<and>
    currentTerm rf' = pterm rf \<and> votedFor rf' = pvote rf \<and>
    log rf' = log rf \<and> lastIncludedIndex rf' = lastIncludedIndex rf \<and>
    commitIndex rf' = lastIncludedIndex rf"
proof -
  have dl: "durable_log rf" using assms(2) by (simp add: durable_def)
  note eq = trans [OF assms(3) [symmetric] restart_eq [OF assms(1) dl], unfolded option.inject]
  have p: "persister rf' = Copy (persister rf)" using eq by simp
  then have pt: "pterm rf' = pterm rf" "pvote rf' = pvote rf"
    by (simp_all add: pterm_def pvote_def)
  have s: "peers rf' = peers rf" "me rf' = me rf" "role rf' = Follower"
    "currentTerm rf' = pterm rf" "votedFor rf' = pvote rf" "log rf' = log rf"
    "lastIncludedIndex rf' = lastIncludedIndex rf" "commitIndex rf' = lastIncludedIndex rf"
    "snapshot rf' = snapshot rf" "length (nextIndex rf') = peers rf"
    "length (matchIndex rf') = peers rf"
    using eq by simp_all
  have "durable rf'"
    using dl by (auto simp: durable_def durable_log_def durable_vote_def p pt s split: option.splits)
  moreover have "wf_raft rf'" using assms(1) by (auto simp: wf_raft_def s)
  ultimately show ?thesis by (simp add: s pt)
qed

lemma restart_total: "wf_raft rf \<Longrightarrow> durable rf \<Longrightarrow> \<exists>rf'. restart rf = Some rf'"
  by (simp add: restart_eq durable_def)

end
