(* ===== verification/Raft_Cluster.thy ===== *)
theory Raft_Cluster
  imports Raft_Votes Systems "HOL-Library.Multiset"
begin

section \<open>A cluster of Raft peers\<close>

text \<open>
  \<open>n\<close> peers and the calls in flight between them.  A call of \<^verbatim>\<open>labrpc\<close> is delivered at most once;
  the network may lose the request or the reply and may delay either for any time, so calls
  overtake each other.  A peer may crash and come back with what its \<open>Persister\<close> holds; calls it
  had made may still arrive, but nobody waits for their replies.  Timeouts are not timed: an
  election or a heartbeat may start in every state.

  The counter \<^verbatim>\<open>approvedNum\<close> lives in the closure of \<^verbatim>\<open>startElection\<close>; an election is identified by
  its peer and its term.
\<close>

datatype ('c, 'b) packet =
    Request "nat option" nat "('c, 'b) rpc" \<comment> \<open>caller (\<^const>\<open>None\<close> when it has crashed), callee\<close>
  | VoteReply nat nat RequestVoteArgs RequestVoteReply \<comment> \<open>caller, callee\<close>
  | AppendReply nat nat "'c AppendEntriesArgs" AppendEntriesReply
  | InstallReply nat nat "'b InstallSnapshotArgs" InstallSnapshotReply

record ('c, 'b) cluster =
  nodes :: "nat \<Rightarrow> ('c, 'b) Raft"
  approved :: "nat \<Rightarrow> int \<Rightarrow> nat"
  net :: "('c, 'b) packet multiset"

definition sends :: "nat \<Rightarrow> (int \<times> ('c, 'b) rpc) list \<Rightarrow> ('c, 'b) packet multiset" where
  "sends i outs = mset (map (\<lambda>(p, m). Request (Some i) (nat p) m) outs)"

fun reply_to :: "nat option \<Rightarrow> (nat \<Rightarrow> ('c, 'b) packet) \<Rightarrow> ('c, 'b) packet multiset" where
  "reply_to None f = {#}"
| "reply_to (Some i) f = {#f i#}"

text \<open>What a crash of peer \<open>i\<close> does to the packets.\<close>

fun awaited_by :: "nat \<Rightarrow> ('c, 'b) packet \<Rightarrow> bool" where
  "awaited_by i (Request c j m) = False"
| "awaited_by i (VoteReply c j a r) = (c = i)"
| "awaited_by i (AppendReply c j a r) = (c = i)"
| "awaited_by i (InstallReply c j a r) = (c = i)"

fun orphan :: "nat \<Rightarrow> ('c, 'b) packet \<Rightarrow> ('c, 'b) packet" where
  "orphan i (Request c j m) = Request (if c = Some i then None else c) j m"
| "orphan i p = p"

definition crash_net :: "nat \<Rightarrow> ('c, 'b) packet multiset \<Rightarrow> ('c, 'b) packet multiset" where
  "crash_net i ps = image_mset (orphan i) (filter_mset (\<lambda>p. \<not> awaited_by i p) ps)"

inductive cluster_step :: "nat \<Rightarrow> ('c, 'b) cluster \<Rightarrow> ('c, 'b) cluster \<Rightarrow> bool" for n where
  cElection: "i < n \<Longrightarrow> electionEvent (nodes s i) = Some (rf', k, reqs) \<Longrightarrow>
    cluster_step n s (s\<lparr>nodes := (nodes s)(i := rf'),
      approved := (approved s)(i := (approved s i)(currentTerm rf' := k)),
      net := net s + sends i (map (\<lambda>(p, a). (p, RequestVoteRPC a)) reqs)\<rparr>)"
| cHeartbeat: "i < n \<Longrightarrow> heartbeatEvent (nodes s i) = Some outs \<Longrightarrow>
    cluster_step n s (s\<lparr>net := net s + sends i outs\<rparr>)"
| cRequestVote: "Request c j (RequestVoteRPC a) \<in># net s \<Longrightarrow>
    RequestVote (nodes s j) a = Some (rf', r) \<Longrightarrow>
    cluster_step n s (s\<lparr>nodes := (nodes s)(j := rf'),
      net := net s - {#Request c j (RequestVoteRPC a)#} + reply_to c (\<lambda>i. VoteReply i j a r)\<rparr>)"
| cAppendEntries: "Request c j (AppendEntriesRPC a) \<in># net s \<Longrightarrow>
    AppendEntries (nodes s j) a = Some (rf', ar) \<Longrightarrow>
    cluster_step n s (s\<lparr>nodes := (nodes s)(j := rf'),
      net := net s - {#Request c j (AppendEntriesRPC a)#} + reply_to c (\<lambda>i. AppendReply i j a ar)\<rparr>)"
| cInstallSnapshot: "Request c j (InstallSnapshotRPC a) \<in># net s \<Longrightarrow>
    InstallSnapshot (nodes s j) a = Some (rf', ir, m) \<Longrightarrow>
    cluster_step n s (s\<lparr>nodes := (nodes s)(j := rf'),
      net := net s - {#Request c j (InstallSnapshotRPC a)#} + reply_to c (\<lambda>i. InstallReply i j a ir)\<rparr>)"
| cVoteReply: "VoteReply i j a r \<in># net s \<Longrightarrow>
    requestVoteReply (nodes s i) (approved s i (rva_Term a)) a r = Some (rf', k, outs) \<Longrightarrow>
    cluster_step n s (s\<lparr>nodes := (nodes s)(i := rf'),
      approved := (approved s)(i := (approved s i)(rva_Term a := k)),
      net := net s - {#VoteReply i j a r#} + sends i outs\<rparr>)"
| cAppendReply: "AppendReply i j a ar \<in># net s \<Longrightarrow>
    handleSendAppendEntries (nodes s i) (int j) a ar = Some rf' \<Longrightarrow>
    cluster_step n s (s\<lparr>nodes := (nodes s)(i := rf'), net := net s - {#AppendReply i j a ar#}\<rparr>)"
| cInstallReply: "InstallReply i j a ir \<in># net s \<Longrightarrow>
    handleSendInstallSnapshot (nodes s i) (int j) a ir = Some rf' \<Longrightarrow>
    cluster_step n s (s\<lparr>nodes := (nodes s)(i := rf'), net := net s - {#InstallReply i j a ir#}\<rparr>)"
| cStart: "i < n \<Longrightarrow> Start (nodes s i) c = Some (rf', index, term, ok) \<Longrightarrow>
    cluster_step n s (s\<lparr>nodes := (nodes s)(i := rf')\<rparr>)"
| cSnapshot: "i < n \<Longrightarrow> Snapshot (nodes s i) index d = Some rf' \<Longrightarrow>
    cluster_step n s (s\<lparr>nodes := (nodes s)(i := rf')\<rparr>)"
| cApplierBegin: "i < n \<Longrightarrow> applierBegin (nodes s i) msg = Some rf' \<Longrightarrow>
    cluster_step n s (s\<lparr>nodes := (nodes s)(i := rf')\<rparr>)"
| cApplierSent: "i < n \<Longrightarrow>
    cluster_step n s (s\<lparr>nodes := (nodes s)(i := applierSent (nodes s i))\<rparr>)"
| cApplierEnd: "i < n \<Longrightarrow>
    cluster_step n s (s\<lparr>nodes := (nodes s)(i := applierEnd (nodes s i) msg)\<rparr>)"
| cKill: "i < n \<Longrightarrow> cluster_step n s (s\<lparr>nodes := (nodes s)(i := Kill (nodes s i))\<rparr>)"
| cLose: "p \<in># net s \<Longrightarrow> cluster_step n s (s\<lparr>net := net s - {#p#}\<rparr>)"
| cCrash: "i < n \<Longrightarrow> restart (nodes s i) = Some rf' \<Longrightarrow>
    cluster_step n s (s\<lparr>nodes := (nodes s)(i := rf'), net := crash_net i (net s)\<rparr>)"

text \<open>The steps of peers and network that have nothing to do with the apply channel.\<close>

inductive raft_work :: "nat \<Rightarrow> ('c, 'b) cluster \<Rightarrow> ('c, 'b) cluster \<Rightarrow> bool" for n where
  wElection: "i < n \<Longrightarrow> electionEvent (nodes s i) = Some (rf', k, reqs) \<Longrightarrow>
    raft_work n s (s\<lparr>nodes := (nodes s)(i := rf'), approved := (approved s)(i := (approved s i)(currentTerm rf' := k)),
      net := net s + sends i (map (\<lambda>(p, a). (p, RequestVoteRPC a)) reqs)\<rparr>)"
| wHeartbeat: "i < n \<Longrightarrow> heartbeatEvent (nodes s i) = Some outs \<Longrightarrow> raft_work n s (s\<lparr>net := net s + sends i outs\<rparr>)"
| wRequestVote: "Request c j (RequestVoteRPC a) \<in># net s \<Longrightarrow> RequestVote (nodes s j) a = Some (rf', r) \<Longrightarrow>
    raft_work n s (s\<lparr>nodes := (nodes s)(j := rf'),
      net := net s - {#Request c j (RequestVoteRPC a)#} + reply_to c (\<lambda>i. VoteReply i j a r)\<rparr>)"
| wAppendEntries: "Request c j (AppendEntriesRPC aa) \<in># net s \<Longrightarrow> AppendEntries (nodes s j) aa = Some (rf', ar) \<Longrightarrow>
    raft_work n s (s\<lparr>nodes := (nodes s)(j := rf'),
      net := net s - {#Request c j (AppendEntriesRPC aa)#} + reply_to c (\<lambda>i. AppendReply i j aa ar)\<rparr>)"
| wVoteReply: "VoteReply i j a r \<in># net s \<Longrightarrow>
    requestVoteReply (nodes s i) (approved s i (rva_Term a)) a r = Some (rf', k, outs) \<Longrightarrow>
    raft_work n s (s\<lparr>nodes := (nodes s)(i := rf'), approved := (approved s)(i := (approved s i)(rva_Term a := k)),
      net := net s - {#VoteReply i j a r#} + sends i outs\<rparr>)"
| wAppendReply: "AppendReply i j aa ar \<in># net s \<Longrightarrow> handleSendAppendEntries (nodes s i) (int j) aa ar = Some rf' \<Longrightarrow>
    raft_work n s (s\<lparr>nodes := (nodes s)(i := rf'), net := net s - {#AppendReply i j aa ar#}\<rparr>)"
| wInstallReply: "InstallReply i j ia ir \<in># net s \<Longrightarrow> handleSendInstallSnapshot (nodes s i) (int j) ia ir = Some rf' \<Longrightarrow>
    raft_work n s (s\<lparr>nodes := (nodes s)(i := rf'), net := net s - {#InstallReply i j ia ir#}\<rparr>)"
| wStart: "i < n \<Longrightarrow> Start (nodes s i) cmd = Some (rf', index, term, ok) \<Longrightarrow> raft_work n s (s\<lparr>nodes := (nodes s)(i := rf')\<rparr>)"
| wKill: "i < n \<Longrightarrow> raft_work n s (s\<lparr>nodes := (nodes s)(i := Kill (nodes s i))\<rparr>)"
| wLose: "p \<in># net s \<Longrightarrow> raft_work n s (s\<lparr>net := net s - {#p#}\<rparr>)"

lemma work_cluster: "raft_work n s s' \<Longrightarrow> cluster_step n s s'"
  by (induction rule: raft_work.induct) (blast intro: cluster_step.intros)+

lemma work_steps: "(raft_work n)\<^sup>*\<^sup>* s s' \<Longrightarrow> (cluster_step n)\<^sup>*\<^sup>* s s'"
  by (induction rule: rtranclp_induct) (auto intro: rtranclp.rtrancl_into_rtrancl work_cluster)

text \<open>Initially every peer has been made from an empty \<open>Persister\<close> and the network is empty.\<close>

definition cluster_init :: "nat \<Rightarrow> ('c, 'b) cluster \<Rightarrow> bool" where
  "cluster_init n s \<longleftrightarrow> (\<forall>i < n. Make n (int i) MakePersister = Some (nodes s i)) \<and>
     (\<forall>i t. approved s i t = 0) \<and> net s = {#}"

abbreviation cluster_reach :: "nat \<Rightarrow> ('c, 'b) cluster \<Rightarrow> bool" where
  "cluster_reach n \<equiv> reach (cluster_init n) (cluster_step n)"

end
