(* ===== verification/Raft_Election.thy ===== *)
theory Raft_Election
  imports Raft_Cluster
begin

section \<open>Election safety\<close>

text \<open>
  At most one peer is ever leader of a term.  The invariant speaks of two sets that the state does
  not hold: the votes \<open>V\<close> that have been given (voter, term, candidate) and, for each election,
  the voters \<open>C i t\<close> whose votes candidate \<open>i\<close> has counted in term \<open>t\<close>.  A set \<open>L\<close> of elections won in
  the past is carried along, so that the theorem covers leaders of different moments.
\<close>

subsection \<open>The invariant\<close>

definition nodes_ok :: "nat \<Rightarrow> ('c, 'b) cluster \<Rightarrow> bool" where
  "nodes_ok n s \<longleftrightarrow> (\<forall>i < n. wf_raft (nodes s i) \<and> durable (nodes s i) \<and>
     peers (nodes s i) = n \<and> me (nodes s i) = int i)"

text \<open>The packets of the vote call from \<open>i\<close> to \<open>j\<close> in term \<open>t\<close>.\<close>

fun pend :: "nat \<Rightarrow> nat \<Rightarrow> int \<Rightarrow> ('c, 'b) packet \<Rightarrow> bool" where
  "pend i j t (Request c k (RequestVoteRPC a)) = (c = Some i \<and> k = j \<and> rva_Term a = t)"
| "pend i j t (VoteReply c k a r) = (c = i \<and> k = j \<and> rva_Term a = t)"
| "pend i j t p = False"

abbreviation pending :: "('c, 'b) packet multiset \<Rightarrow> nat \<Rightarrow> nat \<Rightarrow> int \<Rightarrow> nat" where
  "pending ps i j t \<equiv> size (filter_mset (pend i j t) ps)"

fun packet_ok :: "nat \<Rightarrow> (nat \<times> int \<times> nat) set \<Rightarrow> ('c, 'b) packet \<Rightarrow> bool" where
  "packet_ok n V (Request c j (RequestVoteRPC a)) = (j < n \<and> (\<forall>i. c = Some i \<longrightarrow> i < n) \<and>
     (\<exists>k < n. rva_CandidateId a = int k \<and> (\<forall>i. c = Some i \<longrightarrow> i = k)))"
| "packet_ok n V (Request c j m) = (j < n \<and> (\<forall>i. c = Some i \<longrightarrow> i < n))"
| "packet_ok n V (VoteReply i j a r) =
     (i < n \<and> j < n \<and> (rvr_VoteGranted r \<longrightarrow> (j, rva_Term a, i) \<in> V))"
| "packet_ok n V (AppendReply i j a ar) = (i < n \<and> j < n)"
| "packet_ok n V (InstallReply i j b ir) = (i < n \<and> j < n)"

definition ballots :: "nat \<Rightarrow> (nat \<times> int \<times> nat) set \<Rightarrow> ('c, 'b) cluster \<Rightarrow> bool" where
  "ballots n V s \<longleftrightarrow>
     (\<forall>j t i. (j, t, i) \<in> V \<longrightarrow> j < n \<and> i < n \<and> t \<le> pterm (nodes s j) \<and>
        (t = pterm (nodes s j) \<longrightarrow> pvote (nodes s j) = int i)) \<and>
     (\<forall>j t i i'. (j, t, i) \<in> V \<longrightarrow> (j, t, i') \<in> V \<longrightarrow> i = i')"

lemma ballotsD:
  assumes "ballots n V s" and "(j, t, i) \<in> V"
  shows "t \<le> pterm (nodes s j)" and "t = pterm (nodes s j) \<Longrightarrow> pvote (nodes s j) = int i"
    and "(j, t, i') \<in> V \<Longrightarrow> i' = i"
  using assms unfolding ballots_def by blast+

definition tally ::
  "nat \<Rightarrow> (nat \<times> int \<times> nat) set \<Rightarrow> (nat \<Rightarrow> int \<Rightarrow> nat set) \<Rightarrow> ('c, 'b) cluster \<Rightarrow> bool" where
  "tally n V C s \<longleftrightarrow> (\<forall>i t. C i t \<subseteq> {..<n} \<and> approved s i t = card (C i t) \<and>
     (\<forall>j \<in> C i t. (j, t, i) \<in> V))"

lemma tally_finite: "tally n V C s \<Longrightarrow> finite (C i t)"
  using finite_subset [of "C i t" "{..<n}"] by (simp add: tally_def)

definition calls :: "(nat \<Rightarrow> int \<Rightarrow> nat set) \<Rightarrow> ('c, 'b) cluster \<Rightarrow> bool" where
  "calls C s \<longleftrightarrow> (\<forall>i j t. pending (net s) i j t + (if j \<in> C i t then 1 else 0) \<le> 1 \<and>
     (pending (net s) i j t > 0 \<or> j \<in> C i t \<longrightarrow> t \<le> pterm (nodes s i)))"

lemma callsD:
  assumes "calls C s"
  shows "pending (net s) i j t + (if j \<in> C i t then 1 else 0) \<le> 1"
    and "pending (net s) i j t > 0 \<or> j \<in> C i t \<Longrightarrow> t \<le> pterm (nodes s i)"
  using assms unfolding calls_def by blast+

definition leaders :: "nat \<Rightarrow> (nat \<Rightarrow> int \<Rightarrow> nat set) \<Rightarrow> ('c, 'b) cluster \<Rightarrow> bool" where
  "leaders n C s \<longleftrightarrow> (\<forall>i < n. role (nodes s i) = Leader \<longrightarrow>
     majority n (C i (currentTerm (nodes s i))))"

definition election_inv ::
  "nat \<Rightarrow> (int \<times> nat) set \<Rightarrow> (nat \<times> int \<times> nat) set \<Rightarrow> (nat \<Rightarrow> int \<Rightarrow> nat set) \<Rightarrow>
   ('c, 'b) cluster \<Rightarrow> bool" where
  "election_inv n L V C s \<longleftrightarrow> nodes_ok n s \<and> (\<forall>p \<in># net s. packet_ok n V p) \<and>
     ballots n V s \<and> tally n V C s \<and> calls C s \<and> leaders n C s \<and>
     (\<forall>(t, i) \<in> L. majority n (C i t))"

lemma election_invD:
  assumes "election_inv n L V C s"
  shows "nodes_ok n s" "\<And>p. p \<in># net s \<Longrightarrow> packet_ok n V p" "ballots n V s" "tally n V C s"
    "calls C s" "leaders n C s" "\<And>t i. (t, i) \<in> L \<Longrightarrow> majority n (C i t)"
  using assms by (auto simp: election_inv_def)

lemma nodes_okD:
  assumes "nodes_ok n s" and "i < n"
  shows "wf_raft (nodes s i)" "durable (nodes s i)" "peers (nodes s i) = n" "me (nodes s i) = int i"
    "log (nodes s i) \<noteq> []"
  using assms by (auto simp: nodes_ok_def)

subsection \<open>Steps of one peer\<close>

text \<open>What a new state \<open>rf'\<close> of peer \<open>i\<close> has to keep.\<close>

definition evolves :: "nat \<Rightarrow> nat \<Rightarrow> ('c, 'b) Raft \<Rightarrow> ('c, 'b) Raft \<Rightarrow> bool" where
  "evolves n i rf rf' \<longleftrightarrow> wf_raft rf' \<and> durable rf' \<and> peers rf' = n \<and> me rf' = int i \<and>
     pterm rf \<le> pterm rf' \<and> (pterm rf' = pterm rf \<longrightarrow> pvote rf \<noteq> noVote \<longrightarrow> pvote rf' = pvote rf)"

lemma evolves_node_step:
  "nodes_ok n s \<Longrightarrow> i < n \<Longrightarrow> node_step (nodes s i) rf' \<Longrightarrow> evolves n i (nodes s i) rf'"
  using node_step_pvote [of "nodes s i" rf'] node_step_wf [of "nodes s i" rf']
    node_step_durable [of "nodes s i" rf'] node_step_peers [of "nodes s i" rf']
  by (simp add: evolves_def nodes_ok_def)

lemma evolves_restart:
  "nodes_ok n s \<Longrightarrow> i < n \<Longrightarrow> restart (nodes s i) = Some rf' \<Longrightarrow> evolves n i (nodes s i) rf'"
  using restart_facts [of "nodes s i" rf'] by (simp add: evolves_def nodes_ok_def)

lemma nodes_ok_upd:
  "nodes_ok n s \<Longrightarrow> evolves n i (nodes s i) rf' \<Longrightarrow> nodes s' = (nodes s)(i := rf') \<Longrightarrow> nodes_ok n s'"
  by (simp add: nodes_ok_def evolves_def)

lemma ballots_upd:
  assumes "ballots n V s" and "evolves n i (nodes s i) rf'" and "nodes s' = (nodes s)(i := rf')"
  shows "ballots n V s'"
  using assms by (fastforce simp: ballots_def evolves_def noVote_def)

lemma calls_upd:
  assumes "calls C s" and "evolves n i (nodes s i) rf'" and "nodes s' = (nodes s)(i := rf')"
    and "\<And>c j t. pending (net s') c j t \<le> pending (net s) c j t"
  shows "calls C s'"
proof -
  have "pterm (nodes s k) \<le> pterm (nodes s' k)" for k
    using assms(2,3) by (simp add: evolves_def)
  then show ?thesis
    using assms(1,4) unfolding calls_def by (meson add_right_mono order_trans order_less_le_trans)
qed

lemma calls_net:
  assumes "calls C s" and "nodes s' = nodes s"
    and "\<And>c j t. pending (net s') c j t \<le> pending (net s) c j t"
  shows "calls C s'"
  using assms unfolding calls_def by (metis (no_types) add_right_mono order_trans order_less_le_trans)

text \<open>A step of one peer that gives no vote, counts no vote and wins no election.\<close>

lemma inv_local:
  assumes "election_inv n L V C s" and "i < n" and "evolves n i (nodes s i) rf'"
    and "nodes s' = (nodes s)(i := rf')" and "approved s' = approved s"
    and "role rf' = Leader \<Longrightarrow> role (nodes s i) = Leader \<and> currentTerm rf' = currentTerm (nodes s i)"
    and "\<And>p. p \<in># net s' \<Longrightarrow> packet_ok n V p"
    and "\<And>c j t. pending (net s') c j t \<le> pending (net s) c j t"
  shows "election_inv n L V C s'"
  unfolding election_inv_def
proof (intro conjI ballI)
  note inv = election_invD [OF assms(1)]
  show "nodes_ok n s'" using nodes_ok_upd [OF inv(1) assms(3,4)] .
  show "packet_ok n V p" if "p \<in># net s'" for p using assms(7) that .
  show "ballots n V s'" using ballots_upd [OF inv(3) assms(3,4)] .
  show "tally n V C s'" using inv(4) assms(5) by (simp add: tally_def)
  show "calls C s'" using calls_upd [OF inv(5) assms(3,4,8)] .
  show "leaders n C s'" using inv(6) assms(4,6) by (auto simp: leaders_def)
  show "case x of (t, i) \<Rightarrow> majority n (C i t)" if "x \<in> L" for x
    using inv(7) that by auto
qed

subsection \<open>Packets\<close>

lemma pending_sub: "q \<subseteq># p \<Longrightarrow> pending q i j t \<le> pending p i j t"
  by (simp add: multiset_filter_mono size_mset_mono)

lemma pending_remove [simp]: "pending (p - q) i j t \<le> pending p i j t"
  by (rule pending_sub) simp

lemma heartbeatBroadcast_dest:
  assumes "heartbeatBroadcast rf = Some outs" and "(p, m) \<in> set outs"
  shows "0 \<le> p \<and> p < int (peers rf) \<and> p \<noteq> me rf \<and> (\<forall>a. m \<noteq> RequestVoteRPC a)"
proof -
  let ?P = "\<lambda>outs. \<forall>(p, m) \<in> set outs. 0 \<le> p \<and> p < int (peers rf) \<and> p \<noteq> me rf \<and> (\<forall>a. m \<noteq> RequestVoteRPC a)"
  have "broadcastTo rf q \<noteq> Some (RequestVoteRPC a)" for q a
    by (auto simp: broadcastTo_def Let_def bind_convs split: if_splits)
  then have "?P outs"
    using assms(1) unfolding heartbeatBroadcast_def
    by (elim for_loop_inv [where P = ?P]) (fastforce simp: bind_convs split: if_splits)+
  with assms(2) show ?thesis by auto
qed

lemma pending_sends:
  assumes "\<forall>(p, m) \<in> set outs. \<forall>a. m \<noteq> RequestVoteRPC a"
  shows "pending (sends i outs) c j t = 0"
proof -
  have "\<not> pend c j t (Request (Some i) (nat p) m)" if "(p, m) \<in> set outs" for p m
    using assms that by (cases m) auto
  then have "\<forall>x \<in># sends i outs. \<not> pend c j t x" by (auto simp: sends_def)
  then have "filter_mset (pend c j t) (sends i outs) = {#}" by (auto simp: multiset_eq_iff not_in_iff)
  then show ?thesis by simp
qed

lemma sends_ok:
  assumes "i < n" and "\<forall>(p, m) \<in> set outs. p < int n \<and> 0 \<le> p \<and> (\<forall>a. m \<noteq> RequestVoteRPC a)"
    and "x \<in># sends i outs"
  shows "packet_ok n V x"
proof -
  from assms(3) obtain p m where pm: "(p, m) \<in> set outs" and x: "x = Request (Some i) (nat p) m"
    by (auto simp: sends_def)
  with assms(2) have "p < int n" "0 \<le> p" "\<forall>a. m \<noteq> RequestVoteRPC a" by auto
  with x assms(1) show ?thesis by (cases m) auto
qed

lemma reply_to_pending:
  assumes "p \<in># ps" and "\<And>i. o' = Some i \<Longrightarrow> pend c j t (f i) \<Longrightarrow> pend c j t p"
  shows "pending (ps - {#p#} + reply_to o' f) c j t \<le> pending ps c j t"
proof -
  from assms(1) obtain qs where "ps = add_mset p qs" by (auto dest: multi_member_split)
  with assms(2) show ?thesis by (cases o') auto
qed

subsection \<open>Giving a vote\<close>

lemma packet_ok_mono: "packet_ok n V p \<Longrightarrow> V \<subseteq> W \<Longrightarrow> packet_ok n W p"
  by (induction n V p rule: packet_ok.induct) auto

lemma tally_mono: "tally n V C s \<Longrightarrow> V \<subseteq> W \<Longrightarrow> tally n W C s"
  by (auto simp: tally_def)

lemma ballots_insert:
  assumes "ballots n V s" and "evolves n j (nodes s j) rf'" and "nodes s' = (nodes s)(j := rf')"
    and "j < n" and "k < n" and "pterm rf' = t" and "pvote rf' = int k"
    and "\<And>i. (j, t, i) \<in> V \<Longrightarrow> i = k"
  shows "ballots n (insert (j, t, k) V) s'"
  using ballots_upd [OF assms(1-3)] assms(3-8) by (auto simp: ballots_def)

lemma inv_RequestVote:
  assumes inv: "election_inv n L V C s" and req: "Request c j (RequestVoteRPC a) \<in># net s"
    and rv: "RequestVote (nodes s j) a = Some (rf', r)"
    and s': "s' = s\<lparr>nodes := (nodes s)(j := rf'),
      net := net s - {#Request c j (RequestVoteRPC a)#} + reply_to c (\<lambda>i. VoteReply i j a r)\<rparr>"
  shows "election_inv n L (if rvr_VoteGranted r then insert (j, rva_Term a, nat (rva_CandidateId a)) V else V) C s'"
proof -
  note D = election_invD [OF inv]
  from D(2) [OF req] obtain k where j: "j < n" and k: "k < n" "rva_CandidateId a = int k"
    and c: "\<And>i. c = Some i \<Longrightarrow> i = k" by auto
  let ?rf = "nodes s j"
  let ?V = "if rvr_VoteGranted r then insert (j, rva_Term a, k) V else V"
  have ev: "evolves n j ?rf rf'"
    using evolves_node_step [OF D(1) j sRequestVote [OF rv]] .
  have nds: "nodes s' = (nodes s)(j := rf')" by (simp add: s')
  note eq = trans [OF rv [symmetric] RequestVote_eq [OF nodes_okD(5) [OF D(1) j]], unfolded option.inject]
  have lead: "role rf' = Leader \<Longrightarrow> role ?rf = Leader \<and> currentTerm rf' = currentTerm ?rf"
    using eq by (auto simp: voteState_def split: if_splits)
  have pend: "pending (net s') i l t \<le> pending (net s) i l t" for i l t
    using reply_to_pending [OF req, of c i l t "\<lambda>i. VoteReply i j a r"] c by (simp add: s')
  have pok: "packet_ok n ?V p" if "p \<in># net s'" for p
  proof -
    have "p \<in># net s \<or> (\<exists>i. c = Some i \<and> p = VoteReply i j a r)"
      using that by (cases c) (auto simp: s' dest: in_diffD)
    moreover have "V \<subseteq> ?V" by auto
    ultimately show ?thesis using packet_ok_mono [OF D(2) \<open>V \<subseteq> ?V\<close>] c j k by auto
  qed
  show ?thesis
  proof (cases "rvr_VoteGranted r")
    case False
    then show ?thesis using inv_local [OF inv j ev nds _ lead] pok pend by (simp add: s')
  next
    case True
    with eq have ok: "voteOk ?rf a" and ge: "currentTerm ?rf \<le> rva_Term a"
      and rf': "rf' = persisted (voteState ?rf a)"
      by (auto split: if_splits)
    have old: "i = k" if "(j, rva_Term a, i) \<in> V" for i
    proof -
      have "rva_Term a \<le> pterm ?rf" "rva_Term a = pterm ?rf \<longrightarrow> pvote ?rf = int i"
        using D(3) that by (auto simp: ballots_def)
      moreover have "durable_vote ?rf" using nodes_okD(2) [OF D(1) j] by (simp add: durable_def)
      ultimately have "rva_Term a = currentTerm ?rf" "votedFor ?rf = int i"
        using ge by (auto simp: durable_vote_def)
      with ok k(2) show ?thesis by (auto simp: voteOk_def noVote_def)
    qed
    have pt: "pterm rf' = rva_Term a" "pvote rf' = int k"
      using ok k(2) by (simp_all add: rf' voteState_def)
    have "election_inv n L (insert (j, rva_Term a, k) V) C s'"
      unfolding election_inv_def
    proof (intro conjI ballI)
      show "nodes_ok n s'" using nodes_ok_upd [OF D(1) ev nds] .
      show "packet_ok n (insert (j, rva_Term a, k) V) p" if "p \<in># net s'" for p
        using pok [OF that] True by simp
      show "ballots n (insert (j, rva_Term a, k) V) s'"
        using ballots_insert [OF D(3) ev nds j k(1) pt old] .
      show "tally n (insert (j, rva_Term a, k) V) C s'"
        using D(4) by (auto simp: tally_def s')
      show "calls C s'" using calls_upd [OF D(5) ev nds pend] .
      show "leaders n C s'" using D(6) lead by (auto simp: leaders_def nds)
      show "case x of (t, i) \<Rightarrow> majority n (C i t)" if "x \<in> L" for x
        using D(7) that by auto
    qed
    then show ?thesis using True k(2) by simp
  qed
qed

subsection \<open>Starting an election\<close>

text \<open>The vote requests of an election: one pending call for every other peer.\<close>

lemma pending_requests:
  "pending (mset (map (\<lambda>p. Request (Some i) p (RequestVoteRPC (f p))) ps)) c j t =
     (if c = i then length (filter (\<lambda>p. p = j \<and> rva_Term (f p) = t) ps) else 0)"
  by (induction ps) auto

lemma length_filter_le_1: "distinct xs \<Longrightarrow> length (filter (\<lambda>x. x = a \<and> P x) xs) \<le> 1"
  by (induction xs) (auto simp: filter_empty_conv)

lemma inv_election:
  assumes inv: "election_inv n L V C s" and i: "i < n"
    and el: "electionEvent (nodes s i) = Some (rf', k, reqs)"
    and s': "s' = s\<lparr>nodes := (nodes s)(i := rf'),
      approved := (approved s)(i := (approved s i)(currentTerm rf' := k)),
      net := net s + sends i (map (\<lambda>(p, a). (p, RequestVoteRPC a)) reqs)\<rparr>"
  shows "election_inv n L (insert (i, currentTerm (nodes s i) + 1, i) V)
    (C(i := (C i)(currentTerm (nodes s i) + 1 := {i}))) s'"
proof -
  note D = election_invD [OF inv]
  let ?rf = "nodes s i" and ?T = "currentTerm (nodes s i) + 1"
  define f where "f p = \<lparr>rva_Term = ?T, rva_CandidateId = me ?rf,
    rva_LastLogIndex = lastLogIndex ?rf, rva_LastLogTerm = Term (last (log ?rf))\<rparr>" for p :: nat
  let ?V = "insert (i, ?T, i) V" and ?C = "C(i := (C i)(?T := {i}))"
  have ev: "evolves n i ?rf rf'" using evolves_node_step [OF D(1) i sElection [OF el]] .
  note eq = trans [OF el [symmetric] electionEvent_eq [OF nodes_okD(5) [OF D(1) i]],
      unfolded option.inject prod.inject]
  have rf': "currentTerm rf' = ?T" "pterm rf' = ?T" "pvote rf' = int i" "role rf' = Candidate"
    and k: "k = 1" and reqs: "reqs = map (\<lambda>p. (int p, f p)) (otherPeers ?rf)"
    using eq nodes_okD(4) [OF D(1) i] by (simp_all add: f_def)
  have lt: "pterm ?rf < ?T"
    using nodes_okD(2) [OF D(1) i] by (simp add: durable_def durable_vote_def)
  have nds: "nodes s' = (nodes s)(i := rf')" by (simp add: s')
  have ps: "set (otherPeers ?rf) = {..<n} - {i}" "distinct (otherPeers ?rf)"
    using nodes_okD(3,4) [OF D(1) i] by (auto simp: otherPeers_def)
  have net: "net s' = net s + mset (map (\<lambda>p. Request (Some i) p (RequestVoteRPC (f p))) (otherPeers ?rf))"
    by (simp add: s' sends_def reqs comp_def)
  have newp: "pending (net s') c j t = pending (net s) c j t +
      (if c = i then length (filter (\<lambda>p. p = j \<and> rva_Term (f p) = t) (otherPeers ?rf)) else 0)" for c j t
    unfolding net by (simp only: filter_union_mset size_union pending_requests)
  have fresh: "pending (net s) i j ?T = 0" "j \<notin> C i ?T" for j
    using D(5) lt unfolding calls_def by (meson not_le neq0_conv)+
  have "i = j" if "(i, ?T, j) \<in> V" for j
    using ballotsD(1) [OF D(3) that] lt by simp
  then have bal: "ballots n ?V s'"
    using ballots_insert [OF D(3) ev nds i i rf'(2,3)] by blast
  have "pending (net s') c j t + (if j \<in> ?C c t then 1 else 0) \<le> 1 \<and>
      (pending (net s') c j t > 0 \<or> j \<in> ?C c t \<longrightarrow> t \<le> pterm (nodes s' c))" for c j t
  proof (cases "c = i \<and> t = ?T")
    case True
    have "length (filter (\<lambda>p. p = j \<and> rva_Term (f p) = ?T) (otherPeers ?rf)) \<le> 1"
      and "j = i \<Longrightarrow> filter (\<lambda>p. p = j \<and> rva_Term (f p) = ?T) (otherPeers ?rf) = []"
      using length_filter_le_1 [OF ps(2)] ps(1) by (auto simp: filter_empty_conv)
    moreover have "pending (net s') c j t =
        length (filter (\<lambda>p. p = j \<and> rva_Term (f p) = ?T) (otherPeers ?rf))"
      using True newp [of c j t] fresh(1) [of j] by simp
    moreover have "?C c t = {i}" "pterm (nodes s' c) = t" using True rf' nds by auto
    ultimately show ?thesis by simp
  next
    case False
    then have "pending (net s') c j t = pending (net s) c j t"
      by (auto simp: newp f_def filter_empty_conv)
    moreover have "?C c t = C c t" using False by auto
    moreover have "pterm (nodes s c) \<le> pterm (nodes s' c)" using lt by (simp add: nds rf')
    ultimately show ?thesis using D(5) unfolding calls_def by (metis order_trans)
  qed
  then have cal: "calls ?C s'" by (simp add: calls_def)
  have noT: "majority n (C i t) \<Longrightarrow> t \<noteq> ?T" for t
    using fresh(2) maj.quorum_nonempty [of n "C i t"] by auto
  show ?thesis
    unfolding election_inv_def
  proof (intro conjI ballI)
    show "nodes_ok n s'" using nodes_ok_upd [OF D(1) ev nds] .
    show "packet_ok n ?V p" if "p \<in># net s'" for p
    proof -
      have "p \<in># net s \<or> (\<exists>q \<in> {..<n} - {i}. p = Request (Some i) q (RequestVoteRPC (f q)))"
        using that ps(1) by (auto simp: net)
      then show ?thesis
        using packet_ok_mono [OF D(2), of p ?V] i nodes_okD(4) [OF D(1) i] by (auto simp: f_def)
    qed
    show "tally n ?V ?C s'" using D(4) i by (auto simp: tally_def s' rf' k)
    show "leaders n ?C s'" using D(6) rf' by (auto simp: leaders_def nds)
    show "case x of (t, l) \<Rightarrow> majority n (?C l t)" if "x \<in> L" for x
      using D(7) that noT by auto
  qed (fact bal cal)+
qed

subsection \<open>Counting a vote\<close>

lemma inv_VoteReply:
  assumes inv: "election_inv n L V C s" and rep: "VoteReply i j a r \<in># net s"
    and vr: "requestVoteReply (nodes s i) (approved s i (rva_Term a)) a r = Some (rf', k, outs)"
    and s': "s' = s\<lparr>nodes := (nodes s)(i := rf'),
      approved := (approved s)(i := (approved s i)(rva_Term a := k)),
      net := net s - {#VoteReply i j a r#} + sends i outs\<rparr>"
  shows "\<exists>C. election_inv n L V C s'"
proof -
  note D = election_invD [OF inv]
  let ?rf = "nodes s i" and ?t = "rva_Term a"
  from D(2) [OF rep] have i: "i < n" and j: "j < n"
    and gr: "rvr_VoteGranted r \<Longrightarrow> (j, ?t, i) \<in> V" by auto
  have ev: "evolves n i ?rf rf'" using evolves_node_step [OF D(1) i sVoteReply [OF vr]] .
  have nds: "nodes s' = (nodes s)(i := rf')" by (simp add: s')
  note eq = trans [OF vr [symmetric] requestVoteReply_eq [OF nodes_okD(1) [OF D(1) i] refl],
      unfolded option.inject]
  define cnt where "cnt \<longleftrightarrow> currentTerm ?rf = ?t \<and> role ?rf = Candidate \<and>
    rvr_Term r = currentTerm ?rf \<and> rvr_VoteGranted r"
  define C' where "C' = (if cnt then C(i := (C i)(?t := insert j (C i ?t))) else C)"
  have out: "\<forall>(p, m) \<in> set outs. p < int n \<and> 0 \<le> p \<and> (\<forall>a. m \<noteq> RequestVoteRPC a)"
    using eq nodes_okD(3) [OF D(1) i]
    by (auto simp: broadcastMsg_def otherPeers_def split: if_splits)
  from rep obtain qs where qs: "net s = add_mset (VoteReply i j a r) qs"
    by (auto dest: multi_member_split)
  then have net: "net s' = qs + sends i outs" by (simp add: s')
  have pend: "pending (net s') c l t = pending qs c l t" for c l t
    using pending_sends [where outs = outs and i = i and c = c and j = l and t = t] out
    by (fastforce simp: net)
  have one: "pending qs i j ?t = 0" "j \<notin> C i ?t"
    using callsD [OF D(5), where i = i and j = j and t = ?t] by (auto simp: qs split: if_splits)
  have fin: "finite (C c t)" for c t
    by (rule tally_finite [OF D(4)])
  have k: "k = card (C' i ?t)"
  proof -
    have ap: "approved s i ?t = card (C i ?t)" using D(4) by (simp add: tally_def)
    show ?thesis using eq one(2) fin by (auto simp: C'_def cnt_def ap split: if_splits)
  qed
  have tal: "tally n V C' s'"
    using D(4) gr j k by (auto simp: tally_def C'_def s' cnt_def)
  have "pending (net s') c l t + (if l \<in> C' c t then 1 else 0) \<le> 1 \<and>
      (pending (net s') c l t > 0 \<or> l \<in> C' c t \<longrightarrow> t \<le> pterm (nodes s' c))" for c l t
  proof -
    have "pterm (nodes s c) \<le> pterm (nodes s' c)" using ev by (simp add: nds evolves_def)
    moreover have "pending qs c l t \<le> pending (net s) c l t" by (simp add: qs)
    moreover have "?t \<le> pterm (nodes s i)"
      using callsD [OF D(5), where i = i and j = j and t = ?t] by (simp add: qs)
    moreover note callsD [OF D(5), where i = c and j = l and t = t]
    ultimately have old: "pending qs c l t + (if l \<in> C c t then 1 else 0) \<le> 1"
      "pending qs c l t > 0 \<or> l \<in> C c t \<Longrightarrow> t \<le> pterm (nodes s' c)"
      and new: "c = i \<Longrightarrow> ?t \<le> pterm (nodes s' c)"
      by (linarith, meson order_trans order_less_le_trans, simp)
    show ?thesis
    proof (cases "cnt \<and> c = i \<and> t = ?t \<and> l = j")
      case True
      then show ?thesis using one new by (simp add: pend C'_def)
    next
      case False
      then have "l \<in> C' c t \<longleftrightarrow> l \<in> C c t" by (auto simp: C'_def)
      then show ?thesis using old unfolding pend by presburger
    qed
  qed
  then have cal: "calls C' s'" by (simp add: calls_def)
  have sub: "C c t \<subseteq> C' c t" for c t by (auto simp: C'_def)
  have up: "majority n (C c t) \<Longrightarrow> majority n (C' c t)" for c t
    using tal card_mono [OF tally_finite [OF tal] sub, of c t]
    by (fastforce simp: majority_def tally_def)
  have lead: "majority n (C' i (currentTerm rf'))" if "role rf' = Leader"
  proof (cases "role ?rf = Leader")
    case True
    with eq have "rf' = ?rf" by (auto split: if_splits)
    then show ?thesis using up D(6) i True by (simp add: leaders_def)
  next
    case False
    with that eq have "currentTerm rf' = ?t" "k > n div 2"
      using nodes_okD(3) [OF D(1) i] by (auto split: if_splits)
    then show ?thesis using k tal by (simp add: majority_def tally_def)
  qed
  have "election_inv n L V C' s'"
    unfolding election_inv_def
  proof (intro conjI ballI)
    show "nodes_ok n s'" using nodes_ok_upd [OF D(1) ev nds] .
    show "packet_ok n V p" if "p \<in># net s'" for p
      using that D(2) sends_ok [OF i out] by (auto simp: net qs)
    show "ballots n V s'" using ballots_upd [OF D(3) ev nds] .
    show "leaders n C' s'" using D(6) up lead by (auto simp: leaders_def nds)
    show "case x of (t, l) \<Rightarrow> majority n (C' l t)" if "x \<in> L" for x
      using D(7) that up by blast
  qed (fact tal cal)+
  then show ?thesis by blast
qed

subsection \<open>Every step keeps the invariant\<close>

lemma pending_crash: "pending (crash_net i ps) c j t \<le> pending ps c j t"
proof -
  have sub: "pend c j t (orphan i p) \<Longrightarrow> pend c j t p" for p :: "('c, 'b) packet"
    by (induction c j t p rule: pend.induct) (auto split: if_splits)
  show ?thesis
    by (induction ps) (auto simp: crash_net_def dest: sub intro: le_SucI)
qed

lemma crash_net_ok:
  assumes "\<And>p. p \<in># ps \<Longrightarrow> packet_ok n V p" and "q \<in># crash_net i ps"
  shows "packet_ok n V q"
proof -
  have keep: "packet_ok n V (orphan i p)" if "packet_ok n V p" for p :: "('a, 'b) packet"
    using that by (induction n V p rule: packet_ok.induct) (auto split: if_splits)
  from assms(2) obtain p where "p \<in># ps" "q = orphan i p" by (auto simp: crash_net_def)
  with assms(1) keep show ?thesis by blast
qed

lemma inv_node_step:
  assumes inv: "election_inv n L V C s" and i: "i < n" and step: "node_step (nodes s i) rf'"
    and nds: "nodes s' = (nodes s)(i := rf')" and ap: "approved s' = approved s"
    and lead: "role rf' = Leader \<Longrightarrow> role (nodes s i) = Leader"
    and net: "\<And>p. p \<in># net s' \<Longrightarrow> packet_ok n V p"
      "\<And>c j t. pending (net s') c j t \<le> pending (net s) c j t"
  shows "election_inv n L V C s'"
proof -
  note ok = election_invD(1) [OF inv]
  have "vote_mono (nodes s i) rf'" using node_step_vote_mono [OF step nodes_okD(1) [OF ok i]] .
  then have "role rf' = Leader \<Longrightarrow> role (nodes s i) = Leader \<and> currentTerm rf' = currentTerm (nodes s i)"
    using lead by (simp add: vote_mono_def)
  from inv_local [OF inv i evolves_node_step [OF ok i step] nds ap this net] show ?thesis .
qed

lemma inv_net:
  assumes inv: "election_inv n L V C s" and "nodes s' = nodes s" and "approved s' = approved s"
    and "\<And>p. p \<in># net s' \<Longrightarrow> packet_ok n V p"
    and "\<And>c j t. pending (net s') c j t \<le> pending (net s) c j t"
  shows "election_inv n L V C s'"
  using inv assms(2-4) calls_net [OF election_invD(5) [OF inv] assms(2,5)]
  unfolding election_inv_def nodes_ok_def ballots_def tally_def leaders_def
  by simp

lemma inv_heartbeat:
  assumes inv: "election_inv n L V C s" and i: "i < n"
    and hb: "heartbeatEvent (nodes s i) = Some outs"
  shows "election_inv n L V C (s\<lparr>net := net s + sends i outs\<rparr>)"
proof (rule inv_net [OF inv])
  note D = election_invD [OF inv]
  have out: "\<forall>(p, m) \<in> set outs. p < int n \<and> 0 \<le> p \<and> (\<forall>a. m \<noteq> RequestVoteRPC a)"
    using hb heartbeatBroadcast_dest [of "nodes s i" outs] nodes_okD(3) [OF D(1) i]
    by (fastforce simp: heartbeatEvent_def split: if_splits)
  show "packet_ok n V p" if "p \<in># net (s\<lparr>net := net s + sends i outs\<rparr>)" for p
    using that D(2) sends_ok [OF i out] by auto
  show "pending (net (s\<lparr>net := net s + sends i outs\<rparr>)) c j t \<le> pending (net s) c j t" for c j t
    using pending_sends [of outs] out by fastforce
qed simp_all

text \<open>The delivery of a request that is not a vote request, and of its reply.\<close>

lemma inv_deliver:
  assumes inv: "election_inv n L V C s" and req: "Request c j m \<in># net s"
    and m: "\<And>a. m \<noteq> RequestVoteRPC a"
    and step: "node_step (nodes s j) rf'" "role rf' = Leader \<Longrightarrow> role (nodes s j) = Leader"
    and rep: "\<And>i. i < n \<Longrightarrow> j < n \<Longrightarrow> packet_ok n V (f i)" "\<And>i c k t. \<not> pend c k t (f i)"
  shows "election_inv n L V C
    (s\<lparr>nodes := (nodes s)(j := rf'), net := net s - {#Request c j m#} + reply_to c f\<rparr>)"
proof -
  note D = election_invD [OF inv]
  have j: "j < n" and c: "\<And>i. c = Some i \<Longrightarrow> i < n"
    using D(2) [OF req] m by (cases m; auto)+
  let ?s = "s\<lparr>nodes := (nodes s)(j := rf'), net := net s - {#Request c j m#} + reply_to c f\<rparr>"
  have "packet_ok n V p" if "p \<in># net ?s" for p
    using that D(2) rep(1) j c by (cases c) (auto dest: in_diffD)
  moreover have "pending (net ?s) i l t \<le> pending (net s) i l t" for i l t
    using reply_to_pending [OF req, of c i l t f] rep(2) by simp
  ultimately show ?thesis
    using inv_node_step [OF inv j step(1), of ?s] step(2) by simp
qed

text \<open>The delivery of a reply to one of the other two calls.\<close>

lemma inv_reply:
  assumes inv: "election_inv n L V C s" and rep: "p \<in># net s" and i: "i < n"
    and step: "node_step (nodes s i) rf'" "role rf' = Leader \<Longrightarrow> role (nodes s i) = Leader"
  shows "election_inv n L V C (s\<lparr>nodes := (nodes s)(i := rf'), net := net s - {#p#}\<rparr>)"
  by (rule inv_node_step [OF inv i step(1)])
    (use election_invD(2) [OF inv] step(2) in
      \<open>auto dest: in_diffD simp del: filter_diff_mset\<close>)

lemma inv_crash:
  assumes inv: "election_inv n L V C s" and i: "i < n" and rs: "restart (nodes s i) = Some rf'"
  shows "election_inv n L V C (s\<lparr>nodes := (nodes s)(i := rf'), net := crash_net i (net s)\<rparr>)"
proof -
  note D = election_invD [OF inv]
  have "role rf' = Follower"
    using restart_facts [OF nodes_okD(1,2) [OF D(1) i] rs] by simp
  then show ?thesis
    by (intro inv_local [OF inv i evolves_restart [OF D(1) i rs]])
      (use crash_net_ok [OF D(2)] pending_crash in auto)
qed

text \<open>The calls that carry no vote, their replies, and the local operations keep the votes as they are.\<close>

lemma inv_AppendEntries:
  assumes inv: "election_inv n L V C s" and req: "Request c j (AppendEntriesRPC a) \<in># net s"
    and ae: "AppendEntries (nodes s j) a = Some (rf', ar)"
  shows "election_inv n L V C (s\<lparr>nodes := (nodes s)(j := rf'),
    net := net s - {#Request c j (AppendEntriesRPC a)#} + reply_to c (\<lambda>i. AppendReply i j a ar)\<rparr>)"
proof -
  have j: "j < n" using election_invD(2) [OF inv req] by simp
  have "role rf' = Leader \<Longrightarrow> role (nodes s j) = Leader"
    using ae nodes_okD(1) [OF election_invD(1) [OF inv] j]
    by (auto simp: AppendEntries_eq Let_def ae_accept_def split: if_splits)
  then show ?thesis by (intro inv_deliver [OF inv req _ sAppendEntries [OF ae]]) simp_all
qed

lemma inv_InstallSnapshot:
  assumes inv: "election_inv n L V C s" and req: "Request c j (InstallSnapshotRPC a) \<in># net s"
    and ie: "InstallSnapshot (nodes s j) a = Some (rf', ir, m)"
  shows "election_inv n L V C (s\<lparr>nodes := (nodes s)(j := rf'),
    net := net s - {#Request c j (InstallSnapshotRPC a)#} + reply_to c (\<lambda>i. InstallReply i j a ir)\<rparr>)"
proof -
  have "role rf' = Leader \<Longrightarrow> role (nodes s j) = Leader"
    using ie by (auto simp: InstallSnapshot_eq is_installed_def split: if_splits)
  then show ?thesis by (intro inv_deliver [OF inv req _ sInstallSnapshot [OF ie]]) simp_all
qed

lemma inv_AppendReply:
  assumes inv: "election_inv n L V C s" and rep: "AppendReply i j a ar \<in># net s"
    and h: "handleSendAppendEntries (nodes s i) (int j) a ar = Some rf'"
  shows "election_inv n L V C (s\<lparr>nodes := (nodes s)(i := rf'), net := net s - {#AppendReply i j a ar#}\<rparr>)"
proof -
  have i: "i < n" "int j < int (peers (nodes s i))"
    using election_invD(2) [OF inv rep] nodes_okD(3) [OF election_invD(1) [OF inv]] by auto
  have "role rf' = Leader \<Longrightarrow> role (nodes s i) = Leader"
    using h by (auto simp: handleSendAppendEntries_def split: if_splits)
  then show ?thesis by (intro inv_reply [OF inv rep i(1) sAppendReply [OF _ i(2) h]]) simp_all
qed

lemma inv_InstallReply:
  assumes inv: "election_inv n L V C s" and rep: "InstallReply i j a ir \<in># net s"
    and h: "handleSendInstallSnapshot (nodes s i) (int j) a ir = Some rf'"
  shows "election_inv n L V C (s\<lparr>nodes := (nodes s)(i := rf'), net := net s - {#InstallReply i j a ir#}\<rparr>)"
proof -
  have i: "i < n" "int j < int (peers (nodes s i))"
    using election_invD(2) [OF inv rep] nodes_okD(3) [OF election_invD(1) [OF inv]] by auto
  have "role rf' = Leader \<Longrightarrow> role (nodes s i) = Leader"
    using h by (auto simp: handleSendInstallSnapshot_def split: if_splits)
  then show ?thesis by (intro inv_reply [OF inv rep i(1) sInstallReply [OF _ i(2) h]]) simp_all
qed

text \<open>An operation of a peer that involves no call.\<close>

lemma inv_own:
  assumes inv: "election_inv n L V C s" and i: "i < n"
    and step: "node_step (nodes s i) rf'" "role rf' = Leader \<Longrightarrow> role (nodes s i) = Leader"
  shows "election_inv n L V C (s\<lparr>nodes := (nodes s)(i := rf')\<rparr>)"
  by (rule inv_node_step [OF inv i step(1)]) (use election_invD(2) [OF inv] step(2) in simp_all)

inductive own_step :: "('c, 'b) Raft \<Rightarrow> ('c, 'b) Raft \<Rightarrow> bool" where
  oStart: "Start rf c = Some (rf', index, term, ok) \<Longrightarrow> own_step rf rf'"
| oSnapshot: "Snapshot rf index d = Some rf' \<Longrightarrow> own_step rf rf'"
| oApplierBegin: "applierBegin rf msg = Some rf' \<Longrightarrow> own_step rf rf'"
| oApplierSent: "own_step rf (applierSent rf)"
| oApplierEnd: "own_step rf (applierEnd rf msg)"
| oKill: "own_step rf (Kill rf)"

lemma own_step_node_step: "own_step rf rf' \<Longrightarrow> node_step rf rf'"
  by (induction rule: own_step.induct) (auto intro: node_step.intros)

lemma own_step_role:
  assumes "own_step rf rf'" and "wf_raft rf"
  shows "role rf' = role rf"
  using assms
proof (induction rule: own_step.induct)
  case (oStart rf c rf' index t ok)
  then show ?case using Start_state [of rf c rf' index t ok] by (simp split: if_splits)
next
  case (oSnapshot rf index d rf')
  then show ?case by (elim Snapshot_cases) simp_all
qed (auto simp: applierBegin_def applierSent_def applierEnd_def Kill_def split: if_splits)

lemma inv_own_step:
  assumes inv: "election_inv n L V C s" and i: "i < n" and step: "own_step (nodes s i) rf'"
  shows "election_inv n L V C (s\<lparr>nodes := (nodes s)(i := rf')\<rparr>)"
  using inv_own [OF inv i own_step_node_step [OF step]]
    own_step_role [OF step nodes_okD(1) [OF election_invD(1) [OF inv] i]] by simp

lemma inv_lose:
  assumes inv: "election_inv n L V C s"
  shows "election_inv n L V C (s\<lparr>net := net s - {#p#}\<rparr>)"
  by (rule inv_net [OF inv])
    (use election_invD(2) [OF inv] in \<open>auto dest: in_diffD simp del: filter_diff_mset\<close>)

text \<open>The steps of the cluster, with the operations that involve no call taken together.\<close>

lemma cluster_step_cases [consumes 1, case_names election heartbeat vote append install counted
    appended installed own lose crash]:
  assumes "cluster_step n s s'"
  obtains (election) i rf' k reqs where "i < n" "electionEvent (nodes s i) = Some (rf', k, reqs)"
      "s' = s\<lparr>nodes := (nodes s)(i := rf'),
        approved := (approved s)(i := (approved s i)(currentTerm rf' := k)),
        net := net s + sends i (map (\<lambda>(p, a). (p, RequestVoteRPC a)) reqs)\<rparr>"
  | (heartbeat) i outs where "i < n" "heartbeatEvent (nodes s i) = Some outs"
      "s' = s\<lparr>net := net s + sends i outs\<rparr>"
  | (vote) c j a rf' r where "Request c j (RequestVoteRPC a) \<in># net s"
      "RequestVote (nodes s j) a = Some (rf', r)"
      "s' = s\<lparr>nodes := (nodes s)(j := rf'),
        net := net s - {#Request c j (RequestVoteRPC a)#} + reply_to c (\<lambda>i. VoteReply i j a r)\<rparr>"
  | (append) c j a rf' ar where "Request c j (AppendEntriesRPC a) \<in># net s"
      "AppendEntries (nodes s j) a = Some (rf', ar)"
      "s' = s\<lparr>nodes := (nodes s)(j := rf'),
        net := net s - {#Request c j (AppendEntriesRPC a)#} + reply_to c (\<lambda>i. AppendReply i j a ar)\<rparr>"
  | (install) c j a rf' ir m where "Request c j (InstallSnapshotRPC a) \<in># net s"
      "InstallSnapshot (nodes s j) a = Some (rf', ir, m)"
      "s' = s\<lparr>nodes := (nodes s)(j := rf'),
        net := net s - {#Request c j (InstallSnapshotRPC a)#} + reply_to c (\<lambda>i. InstallReply i j a ir)\<rparr>"
  | (counted) i j a r rf' k outs where "VoteReply i j a r \<in># net s"
      "requestVoteReply (nodes s i) (approved s i (rva_Term a)) a r = Some (rf', k, outs)"
      "s' = s\<lparr>nodes := (nodes s)(i := rf'),
        approved := (approved s)(i := (approved s i)(rva_Term a := k)),
        net := net s - {#VoteReply i j a r#} + sends i outs\<rparr>"
  | (appended) i j a ar rf' where "AppendReply i j a ar \<in># net s"
      "handleSendAppendEntries (nodes s i) (int j) a ar = Some rf'"
      "s' = s\<lparr>nodes := (nodes s)(i := rf'), net := net s - {#AppendReply i j a ar#}\<rparr>"
  | (installed) i j a ir rf' where "InstallReply i j a ir \<in># net s"
      "handleSendInstallSnapshot (nodes s i) (int j) a ir = Some rf'"
      "s' = s\<lparr>nodes := (nodes s)(i := rf'), net := net s - {#InstallReply i j a ir#}\<rparr>"
  | (own) i rf' where "i < n" "own_step (nodes s i) rf'" "s' = s\<lparr>nodes := (nodes s)(i := rf')\<rparr>"
  | (lose) p where "p \<in># net s" "s' = s\<lparr>net := net s - {#p#}\<rparr>"
  | (crash) i rf' where "i < n" "restart (nodes s i) = Some rf'"
      "s' = s\<lparr>nodes := (nodes s)(i := rf'), net := crash_net i (net s)\<rparr>"
  using assms
proof cases
  case (cElection i rf' k reqs)
  from cElection(2,3,1) show ?thesis by (rule election)
next
  case (cHeartbeat i outs)
  from cHeartbeat(2,3,1) show ?thesis by (rule heartbeat)
next
  case (cRequestVote c j a rf' r)
  from cRequestVote(2,3,1) show ?thesis by (rule vote)
next
  case (cAppendEntries c j a rf' ar)
  from cAppendEntries(2,3,1) show ?thesis by (rule append)
next
  case (cInstallSnapshot c j a rf' ir m)
  from cInstallSnapshot(2,3,1) show ?thesis by (rule install)
next
  case (cVoteReply i j a r rf' k outs)
  from cVoteReply(2,3,1) show ?thesis by (rule counted)
next
  case (cAppendReply i j a ar rf')
  from cAppendReply(2,3,1) show ?thesis by (rule appended)
next
  case (cInstallReply i j a ir rf')
  from cInstallReply(2,3,1) show ?thesis by (rule installed)
next
  case (cCrash i rf')
  from cCrash(2,3,1) show ?thesis by (rule crash)
next
  case (cLose p)
  from cLose(2,1) show ?thesis by (rule lose)
next
  case (cStart i c rf' index t ok)
  from cStart(2) oStart [OF cStart(3)] cStart(1) show ?thesis by (rule own)
next
  case (cSnapshot i index d rf')
  from cSnapshot(2) oSnapshot [OF cSnapshot(3)] cSnapshot(1) show ?thesis by (rule own)
next
  case (cApplierBegin i msg rf')
  from cApplierBegin(2) oApplierBegin [OF cApplierBegin(3)] cApplierBegin(1) show ?thesis by (rule own)
next
  case (cApplierSent i)
  from cApplierSent(2) oApplierSent cApplierSent(1) show ?thesis by (rule own)
next
  case (cApplierEnd i msg)
  from cApplierEnd(2) oApplierEnd cApplierEnd(1) show ?thesis by (rule own)
next
  case (cKill i)
  from cKill(2) oKill cKill(1) show ?thesis by (rule own)
qed

lemma election_inv_step:
  assumes inv: "election_inv n L V C s" and step: "cluster_step n s s'"
  shows "\<exists>V C. election_inv n L V C s'"
  using step
proof (cases rule: cluster_step_cases)
  case election
  then show ?thesis using inv_election [OF inv] by blast
next
  case heartbeat
  then show ?thesis using inv_heartbeat [OF inv] by blast
next
  case vote
  then show ?thesis using inv_RequestVote [OF inv] by blast
next
  case append
  then show ?thesis using inv_AppendEntries [OF inv] by blast
next
  case install
  then show ?thesis using inv_InstallSnapshot [OF inv] by blast
next
  case counted
  then show ?thesis using inv_VoteReply [OF inv] by blast
next
  case appended
  then show ?thesis using inv_AppendReply [OF inv] by blast
next
  case installed
  then show ?thesis using inv_InstallReply [OF inv] by blast
next
  case own
  then show ?thesis using inv_own_step [OF inv] by blast
next
  case lose
  then show ?thesis using inv_lose [OF inv] by blast
next
  case crash
  then show ?thesis using inv_crash [OF inv] by blast
qed

subsection \<open>Reachable clusters\<close>

lemma Make_fresh:
  "Make n self MakePersister = Some
     \<lparr>peers = n, persister = MakePersister, me = self, dead = 0, role = Follower, leader = NoLeader,
      currentTerm = 0, votedFor = noVote, log = [\<lparr>Command = None, Term = 0\<rparr>],
      lastIncludedIndex = 0, snapshot = None, commitIndex = 0, lastApplied = 0,
      nextIndex = replicate n 0, matchIndex = replicate n 0, replicatePreSnapshot = False\<rparr>"
  by (simp add: Make_def readPersist_def MakePersister_def ReadRaftState_def)

lemma fresh_node:
  assumes "Make n (int i) MakePersister = Some rf" and "i < n"
  shows "wf_raft rf" "durable rf" "peers rf = n" "me rf = int i" "role rf = Follower"
proof -
  have p: "ReadRaftState (persister rf) = None"
    using assms by (auto simp: Make_fresh) (simp add: MakePersister_def ReadRaftState_def)
  show "wf_raft rf" "peers rf = n" "me rf = int i" "role rf = Follower"
    using assms by (auto simp: Make_fresh wf_raft_def)
  show "durable rf"
    using assms p by (auto simp: Make_fresh durable_def durable_log_def durable_vote_def pterm_def pvote_def)
qed

lemma election_inv_init:
  assumes "cluster_init n s"
  shows "election_inv n {} {} (\<lambda>i t. {}) s"
proof -
  have "wf_raft (nodes s i) \<and> durable (nodes s i) \<and> peers (nodes s i) = n \<and>
      me (nodes s i) = int i \<and> role (nodes s i) = Follower" if "i < n" for i
    using assms that fresh_node [of n i "nodes s i"] by (simp add: cluster_init_def)
  then show ?thesis
    using assms
    by (simp add: election_inv_def cluster_init_def nodes_ok_def ballots_def tally_def calls_def
        leaders_def)
qed

interpretation election: inductive_invariant "cluster_init n" "cluster_step n"
  "\<lambda>s. \<exists>V C. election_inv n {} V C s" for n
  by unfold_locales (use election_inv_init election_inv_step in blast)+

text \<open>The same with an election that has been won once.\<close>

interpretation won: inductive_invariant "\<lambda>s. \<exists>V C. election_inv n L V C s" "cluster_step n"
  "\<lambda>s. \<exists>V C. election_inv n L V C s" for n L
  by unfold_locales (use election_inv_step in blast)+

lemma one_winner:
  assumes "election_inv n L V C s" and "majority n (C i t)" and "majority n (C j t)"
  shows "i = j"
proof (rule maj.choices_agree [OF assms(2,3)])
  note D = election_invD [OF assms(1)]
  show "(p, t, i) \<in> V" if "p \<in> C i t" for p using D(4) that by (auto simp: tally_def)
  show "(p, t, j) \<in> V" if "p \<in> C j t" for p using D(4) that by (auto simp: tally_def)
  show "a = b" if "(p, t, a) \<in> V" "(p, t, b) \<in> V" for p a b
    using ballotsD(3) [OF D(3) that(2) that(1)] .
qed

lemma leaders_agree:
  assumes "cluster_reach n s" and "(cluster_step n)\<^sup>*\<^sup>* s s'" and "i < n" and "j < n"
    and "role (nodes s i) = Leader" and "role (nodes s' j) = Leader"
    and "currentTerm (nodes s i) = currentTerm (nodes s' j)"
  shows "i = j"
proof -
  let ?t = "currentTerm (nodes s i)"
  from election.inv_reach [OF assms(1)] obtain V C where "election_inv n {} V C s" by blast
  then have "election_inv n {(?t, i)} V C s"
    using assms(3,5) by (auto simp: election_inv_def leaders_def)
  with won.inv_steps [OF assms(2)] obtain V' C' where inv: "election_inv n {(?t, i)} V' C' s'"
    by blast
  then have "majority n (C' i ?t)" and "majority n (C' j ?t)"
    using assms(4,6,7) by (auto simp: election_inv_def leaders_def)
  with inv show ?thesis by (rule one_winner)
qed

text \<open>C1: election safety.  In every execution of the cluster, with lost and delayed calls and with
  crashed and restarted peers, if peer \<open>i\<close> is leader in a reachable state and peer \<open>j\<close> is leader of the
  same term in the same or in any later state, then \<open>i\<close> and \<open>j\<close> are the same peer.\<close>

theorem election_safety:
  assumes "cluster_reach n s" and "(cluster_step n)\<^sup>*\<^sup>* s s'" and "i < n" and "j < n"
    and "role (nodes s i) = Leader" and "role (nodes s' j) = Leader"
    and "currentTerm (nodes s i) = currentTerm (nodes s' j)"
  shows "i = j"
  using assms by (rule leaders_agree)

subsection \<open>An execution with a leader\<close>

text \<open>
  Executable successors of a cluster state, and the shortest execution of three peers that elects
  a leader: peer 0 times out, peer 1 gives its vote, peer 0 counts it.
\<close>

definition boot :: "nat \<Rightarrow> ('c, 'b) cluster" where
  "boot n = \<lparr>nodes = (\<lambda>i. the (Make n (int i) MakePersister)), approved = (\<lambda>i t. 0), net = {#}\<rparr>"

definition do_election :: "nat \<Rightarrow> ('c, 'b) cluster \<Rightarrow> ('c, 'b) cluster" where
  "do_election i s = (case electionEvent (nodes s i) of None \<Rightarrow> s | Some (rf', k, reqs) \<Rightarrow>
     s\<lparr>nodes := (nodes s)(i := rf'),
       approved := (approved s)(i := (approved s i)(currentTerm rf' := k)),
       net := net s + sends i (map (\<lambda>(p, a). (p, RequestVoteRPC a)) reqs)\<rparr>)"

definition do_vote :: "nat \<Rightarrow> nat \<Rightarrow> RequestVoteArgs \<Rightarrow> ('c, 'b) cluster \<Rightarrow> ('c, 'b) cluster" where
  "do_vote i j a s = (case RequestVote (nodes s j) a of None \<Rightarrow> s | Some (rf', r) \<Rightarrow>
     s\<lparr>nodes := (nodes s)(j := rf'),
       net := net s - {#Request (Some i) j (RequestVoteRPC a)#} + {#VoteReply i j a r#}\<rparr>)"

definition do_count :: "nat \<Rightarrow> nat \<Rightarrow> RequestVoteArgs \<Rightarrow> RequestVoteReply \<Rightarrow> ('c, 'b) cluster \<Rightarrow> ('c, 'b) cluster" where
  "do_count i j a r s = (case requestVoteReply (nodes s i) (approved s i (rva_Term a)) a r of
     None \<Rightarrow> s | Some (rf', k, outs) \<Rightarrow>
     s\<lparr>nodes := (nodes s)(i := rf'),
       approved := (approved s)(i := (approved s i)(rva_Term a := k)),
       net := net s - {#VoteReply i j a r#} + sends i outs\<rparr>)"

lemma do_election_work: "i < n \<Longrightarrow> (raft_work n)\<^sup>*\<^sup>* s (do_election i s)"
  by (auto simp: do_election_def intro!: wElection split: option.splits)

lemma do_vote_work:
  "Request (Some i) j (RequestVoteRPC a) \<in># net s \<Longrightarrow> (raft_work n)\<^sup>*\<^sup>* s (do_vote i j a s)"
  using wRequestVote [of "Some i" j a s] by (auto simp: do_vote_def split: option.splits)

lemma do_count_work:
  "VoteReply i j a r \<in># net s \<Longrightarrow> (raft_work n)\<^sup>*\<^sup>* s (do_count i j a r s)"
  using wVoteReply [of i j a r s] by (auto simp: do_count_def split: option.splits)

lemma boot_reach: "cluster_reach n (boot n)"
  by (rule reach_init) (simp add: cluster_init_def boot_def Make_fresh)

definition ex_args :: RequestVoteArgs where
  "ex_args = \<lparr>rva_Term = 1, rva_CandidateId = 0, rva_LastLogIndex = 0, rva_LastLogTerm = 0\<rparr>"

definition ex_reply :: RequestVoteReply where
  "ex_reply = \<lparr>rvr_Term = 1, rvr_VoteGranted = True\<rparr>"

definition ex_elected :: "('c, 'b) cluster" where
  "ex_elected = do_count 0 1 ex_args ex_reply (do_vote 0 1 ex_args (do_election 0 (boot 3)))"

lemma ex_elected_work:
  fixes s :: "('c, 'b) cluster"
  assumes "s = do_election 0 (boot 3)" and "Request (Some 0) 1 (RequestVoteRPC ex_args) \<in># net s"
    and "VoteReply 0 1 ex_args ex_reply \<in># net (do_vote 0 1 ex_args s)"
  shows "(raft_work 3)\<^sup>*\<^sup>* (boot 3) (ex_elected :: ('c, 'b) cluster)"
  unfolding ex_elected_def
  using do_election_work [of 0 3 "boot 3"] do_vote_work [OF assms(2)] do_count_work [OF assms(3)] unfolding assms(1)
  by (meson rtranclp_trans zero_less_numeral)

lemmas ex_elected_steps = ex_elected_work [THEN work_steps]

lemma ex_elected_reach: "cluster_reach 3 (ex_elected :: (nat, nat) cluster)"
  by (rule reach_steps [OF ex_elected_steps [OF refl] boot_reach]) code_simp+

theorem election_safety_witness:
  "\<exists>s :: (nat, nat) cluster. s = ex_elected \<and> cluster_reach 3 s \<and> role (nodes s 0) = Leader \<and>
     \<not> (role (nodes s 1) = Leader \<and> currentTerm (nodes s 0) = currentTerm (nodes s 1))"
proof -
  let ?s = "ex_elected :: (nat, nat) cluster"
  have "role (nodes ?s 0) = Leader" by code_simp
  then show ?thesis
    using ex_elected_reach election_safety [of 3 ?s ?s 0 1] by auto
qed

end
