(* ===== verification/Raft_Props.thy ===== *)
theory Raft_Props
  imports Raft_Election
begin

section \<open>Properties of a Raft peer\<close>

text \<open>
  The log of a peer seen as a partial function from real indices to entries, and the operations
  stated on that view: they do not mention the snapshot offset.  Then the leader's commit rule,
  what a peer promises in a vote, restart after a crash, and the absence of panics.
\<close>

subsection \<open>The log as a partial function of real indices\<close>

definition entryAt :: "('c, 'b) Raft \<Rightarrow> int \<Rightarrow> 'c Logt option" where
  "entryAt rf i =
     (if lastIncludedIndex rf < i \<and> i \<le> lastLogIndex rf then Some (log rf ! nat (logIndex rf i))
      else None)"

lemma entryAt_persisted [simp]: "entryAt (persisted rf) i = entryAt rf i"
  by (simp add: entryAt_def)

lemma entryAt_log:
  "entryAt rf i =
     (if 0 < logIndex rf i \<and> logIndex rf i < int (length (log rf))
      then Some (log rf ! nat (logIndex rf i)) else None)"
  by (auto simp: entryAt_def logIndex_def lastLogIndex_def)

lemma mergeEntries_length: "length es \<le> length (mergeEntries xs es)"
  by (induction xs es rule: mergeEntries.induct) auto

lemma mergeEntries_terms: "k < length es \<Longrightarrow> Term (mergeEntries xs es ! k) = Term (es ! k)"
  by (induction xs es arbitrary: k rule: mergeEntries.induct) (auto simp: nth_Cons split: nat.splits)

lemma mergeEntries_agree:
  "length es \<le> length xs \<Longrightarrow> (\<And>k. k < length es \<Longrightarrow> Term (xs ! k) = Term (es ! k)) \<Longrightarrow>
   mergeEntries xs es = xs"
proof (induction xs es rule: mergeEntries.induct)
  case (3 x xs e es)
  have "Term x = Term e" using "3.prems"(2) [of 0] by simp
  moreover have "Term (xs ! k) = Term (es ! k)" if "k < length es" for k
    using "3.prems"(2) [of "Suc k"] that by simp
  ultimately show ?case using "3.IH" "3.prems"(1) by simp
qed simp_all

lemma mergeEntries_conflict:
  "k < length es \<Longrightarrow> k \<le> length xs \<Longrightarrow> (\<And>j. j < k \<Longrightarrow> Term (xs ! j) = Term (es ! j)) \<Longrightarrow>
   (k < length xs \<Longrightarrow> Term (xs ! k) \<noteq> Term (es ! k)) \<Longrightarrow> mergeEntries xs es = take k xs @ drop k es"
proof (induction xs es arbitrary: k rule: mergeEntries.induct)
  case (3 x xs e es)
  show ?case
  proof (cases k)
    case 0
    then show ?thesis using "3.prems"(4) by simp
  next
    case (Suc l)
    have e: "Term x = Term e" using "3.prems"(3) [of 0] Suc by simp
    have "mergeEntries xs es = take l xs @ drop l es"
    proof (rule "3.IH" [OF e])
      show "Term (xs ! j) = Term (es ! j)" if "j < l" for j using "3.prems"(3) [of "Suc j"] that Suc by simp
    qed (use "3.prems"(1,2,4) Suc in simp_all)
    then show ?thesis using e Suc by simp
  qed
qed simp_all

lemma mergeEntries_idem: "mergeEntries (mergeEntries xs es) es = mergeEntries xs es"
  by (rule mergeEntries_agree) (simp_all add: mergeEntries_length mergeEntries_terms)

definition ae_match :: "('c, 'b) Raft \<Rightarrow> 'c AppendEntriesArgs \<Rightarrow> bool" where
  "ae_match rf a \<longleftrightarrow> currentTerm rf \<le> aea_Term a \<and> lastIncludedIndex rf \<le> aea_PrevLogIndex a \<and>
     aea_PrevLogIndex a \<le> lastLogIndex rf \<and> termAt rf (aea_PrevLogIndex a) = aea_PrevLogTerm a"

lemma AppendEntries_success:
  assumes "wf_raft rf" and "AppendEntries rf a = Some (rf', r)"
  shows "aer_Success r \<longleftrightarrow> ae_match rf a"
    and "aer_Success r \<Longrightarrow> rf' = persisted (ae_accept rf a)"
    and "\<not> aer_Success r \<Longrightarrow> rf' = rf \<or> rf' = persisted (ae_base rf a)"
  using assms by (auto simp: AppendEntries_eq ae_match_def termAt_def Let_def split: if_splits)

lemma ae_log_slot:
  assumes "wf_raft rf" and "ae_match rf a"
    and p: "p = nat (logIndex rf (aea_PrevLogIndex a))"
  shows "Suc p \<le> length (log rf)"
    and "i \<le> p \<Longrightarrow> ae_log rf a ! i = log rf ! i"
    and "ae_log rf a ! (Suc p + k) = mergeEntries (drop (Suc p) (log rf)) (aea_Entries a) ! k"
    and "length (ae_log rf a) = Suc p + length (mergeEntries (drop (Suc p) (log rf)) (aea_Entries a))"
proof -
  show len: "Suc p \<le> length (log rf)"
    using assms(2,3) by (auto simp: ae_match_def lastLogIndex_def logIndex_def)
  then have tk: "length (take (Suc p) (log rf)) = Suc p" by simp
  have al: "ae_log rf a = take (Suc p) (log rf) @ mergeEntries (drop (Suc p) (log rf)) (aea_Entries a)"
    by (simp add: ae_log_def p)
  show "i \<le> p \<Longrightarrow> ae_log rf a ! i = log rf ! i"
    using len by (simp add: al nth_append)
  show "ae_log rf a ! (Suc p + k) = mergeEntries (drop (Suc p) (log rf)) (aea_Entries a) ! k"
    unfolding al using nth_append_length_plus [of "take (Suc p) (log rf)"] by (simp only: tk)
  show "length (ae_log rf a) = Suc p + length (mergeEntries (drop (Suc p) (log rf)) (aea_Entries a))"
    using len by (simp add: al)
qed

lemma AppendEntries_view:
  assumes "wf_raft rf" and "AppendEntries rf a = Some (rf', r)"
  shows "aer_Success r \<longleftrightarrow> ae_match rf a"
    and "\<not> aer_Success r \<Longrightarrow> log rf' = log rf \<and> commitIndex rf' = commitIndex rf"
    and "aer_Success r \<Longrightarrow> i \<le> aea_PrevLogIndex a \<Longrightarrow> entryAt rf' i = entryAt rf i"
    and "aer_Success r \<Longrightarrow> k < length (aea_Entries a) \<Longrightarrow>
      map_option Term (entryAt rf' (aea_PrevLogIndex a + 1 + int k)) = Some (Term (aea_Entries a ! k))"
    and "aer_Success r \<Longrightarrow>
      (\<And>k. k < length (aea_Entries a) \<Longrightarrow>
         map_option Term (entryAt rf (aea_PrevLogIndex a + 1 + int k)) = Some (Term (aea_Entries a ! k))) \<Longrightarrow>
      log rf' = log rf"
proof -
  note S = AppendEntries_success [OF assms]
  show "aer_Success r \<longleftrightarrow> ae_match rf a" by (rule S(1))
  show "\<not> aer_Success r \<Longrightarrow> log rf' = log rf \<and> commitIndex rf' = commitIndex rf"
    using S(3) by auto
  assume ok: "aer_Success r"
  then have m: "ae_match rf a" and rf': "rf' = persisted (ae_accept rf a)" using S(1,2) by auto
  define p where "p = nat (logIndex rf (aea_PrevLogIndex a))"
  have pp: "logIndex rf (aea_PrevLogIndex a) = int p"
    using m by (simp add: p_def ae_match_def logIndex_def)
  note sl = ae_log_slot [OF assms(1) m p_def]
  have li: "logIndex rf' x = logIndex rf x" and lg: "log rf' = ae_log rf a" for x
    by (simp_all add: rf' ae_accept_def logIndex_def)
  have prev: "logIndex rf (aea_PrevLogIndex a + 1 + int k) = int (Suc p + k)" for k
    using pp by (simp add: logIndex_def)
  show "entryAt rf' i = entryAt rf i" if "i \<le> aea_PrevLogIndex a"
  proof -
    have "logIndex rf i \<le> int p" using that pp by (simp add: logIndex_def)
    then show ?thesis using sl(1,2) sl(4) by (auto simp: entryAt_log li lg)
  qed
  show "map_option Term (entryAt rf' (aea_PrevLogIndex a + 1 + int k)) = Some (Term (aea_Entries a ! k))"
    if k: "k < length (aea_Entries a)"
    using k mergeEntries_length [of "aea_Entries a" "drop (Suc p) (log rf)"]
    unfolding entryAt_log li lg prev nat_int
    by (simp only: sl(3,4)) (simp add: mergeEntries_terms)
  assume all: "\<And>k. k < length (aea_Entries a) \<Longrightarrow>
    map_option Term (entryAt rf (aea_PrevLogIndex a + 1 + int k)) = Some (Term (aea_Entries a ! k))"
  have old: "Suc p + k < length (log rf) \<and> Term (log rf ! (Suc p + k)) = Term (aea_Entries a ! k)"
    if "k < length (aea_Entries a)" for k
    using all [OF that] unfolding entryAt_log prev nat_int by (simp split: if_splits)
  have "mergeEntries (drop (Suc p) (log rf)) (aea_Entries a) = drop (Suc p) (log rf)"
  proof (rule mergeEntries_agree)
    show "length (aea_Entries a) \<le> length (drop (Suc p) (log rf))"
      using old [of "length (aea_Entries a) - 1"] by (cases "aea_Entries a") auto
    show "Term (drop (Suc p) (log rf) ! k) = Term (aea_Entries a ! k)"
      if "k < length (aea_Entries a)" for k
      using old [OF that] sl(1) by simp
  qed
  then show "log rf' = log rf" by (simp add: lg ae_log_def Let_def p_def)
qed

text \<open>The log after a success, exactly: \<open>k\<close> is the first of the new entries that the log does not have.\<close>

lemma AppendEntries_exact:
  assumes "wf_raft rf" and "AppendEntries rf a = Some (rf', r)" and "aer_Success r"
  shows "\<exists>k \<le> length (aea_Entries a).
    (\<forall>j < k. map_option Term (entryAt rf (aea_PrevLogIndex a + 1 + int j)) = Some (Term (aea_Entries a ! j))) \<and>
    (if k = length (aea_Entries a) then log rf' = log rf
     else map_option Term (entryAt rf (aea_PrevLogIndex a + 1 + int k)) \<noteq> Some (Term (aea_Entries a ! k)) \<and>
       log rf' = take (nat (logIndex rf (aea_PrevLogIndex a + 1 + int k))) (log rf) @ drop k (aea_Entries a))"
proof -
  let ?es = "aea_Entries a" and ?agree = "\<lambda>k. map_option Term (entryAt rf (aea_PrevLogIndex a + 1 + int k)) = Some (Term (aea_Entries a ! k))"
  note S = AppendEntries_success [OF assms(1,2)]
  have m: "ae_match rf a" and rf': "rf' = persisted (ae_accept rf a)" using S(1,2) assms(3) by auto
  define p where "p = nat (logIndex rf (aea_PrevLogIndex a))"
  define k where "k = (LEAST k. k = length ?es \<or> \<not> ?agree k)"
  have k: "k = length ?es \<or> \<not> ?agree k" unfolding k_def by (rule LeastI_ex) blast
  have le: "k \<le> length ?es" unfolding k_def by (rule Least_le) simp
  have before: "?agree j" if "j < k" for j using not_less_Least [of j] that unfolding k_def by blast
  have pp: "logIndex rf (aea_PrevLogIndex a) = int p" using m by (simp add: p_def ae_match_def logIndex_def)
  have prev: "logIndex rf (aea_PrevLogIndex a + 1 + int j) = int (Suc p + j)" for j using pp by (simp add: logIndex_def)
  have agree: "?agree j \<longleftrightarrow> Suc p + j < length (log rf) \<and> Term (log rf ! (Suc p + j)) = Term (?es ! j)" for j
    unfolding entryAt_log prev nat_int by simp
  have len: "Suc p \<le> length (log rf)" by (rule ae_log_slot(1) [OF assms(1) m p_def])
  have "log rf' = take (Suc p + k) (log rf) @ drop k ?es" if "k < length ?es"
  proof -
    have kl: "k \<le> length (drop (Suc p) (log rf))" using before [of "k - 1"] len unfolding agree by (cases k) auto
    have "mergeEntries (drop (Suc p) (log rf)) ?es = take k (drop (Suc p) (log rf)) @ drop k ?es"
    proof (rule mergeEntries_conflict [OF that kl])
      show "Term (drop (Suc p) (log rf) ! j) = Term (?es ! j)" if "j < k" for j
        using before [OF that] len unfolding agree by simp
      show "Term (drop (Suc p) (log rf) ! k) \<noteq> Term (?es ! k)" if "k < length (drop (Suc p) (log rf))"
        using k that \<open>k < length ?es\<close> unfolding agree by auto
    qed
    then have "log rf' = take (Suc p) (log rf) @ take k (drop (Suc p) (log rf)) @ drop k ?es"
      by (simp add: rf' ae_accept_def ae_log_def p_def)
    then show ?thesis by (simp only: take_add append_assoc)
  qed
  moreover have "log rf' = log rf" if "k = length ?es"
    using AppendEntries_view(5) [OF assms] before that by blast
  ultimately show ?thesis using k le before unfolding prev nat_int by (intro exI [of _ k]) auto
qed

text \<open>C6: the log after \<^verbatim>\<open>AppendEntries\<close>.  The call succeeds exactly when the sender's term is not stale and
  the peer's log holds the entry before the new ones with the leader's term; otherwise the log and
  the commit index are left alone.  After a success the log is known exactly.  If it had all new entries already (judged by
  their terms), as for a request that was delayed, it is unchanged.  Otherwise it is cut off before the first new entry that it does
  not have, whatever followed there, and continued with that entry and the ones after it.  The commit index rises to the leader's,
  as far as the new log goes.\<close>

theorem AppendEntries_log:
  assumes "wf_raft rf" and "AppendEntries rf a = Some (rf', r)"
  shows "(aer_Success r \<longleftrightarrow> ae_match rf a) \<and>
    (\<not> aer_Success r \<longrightarrow> log rf' = log rf \<and> commitIndex rf' = commitIndex rf) \<and>
    (aer_Success r \<longrightarrow>
       (\<exists>k \<le> length (aea_Entries a).
          (\<forall>j < k. map_option Term (entryAt rf (aea_PrevLogIndex a + 1 + int j)) = Some (Term (aea_Entries a ! j))) \<and>
          (if k = length (aea_Entries a) then log rf' = log rf
           else map_option Term (entryAt rf (aea_PrevLogIndex a + 1 + int k)) \<noteq> Some (Term (aea_Entries a ! k)) \<and>
             log rf' = take (nat (logIndex rf (aea_PrevLogIndex a + 1 + int k))) (log rf) @ drop k (aea_Entries a))) \<and>
       commitIndex rf' = (if aea_LeaderCommit a > commitIndex rf then min (aea_LeaderCommit a) (lastLogIndex rf') else commitIndex rf)) \<and>
    lastIncludedIndex rf' = lastIncludedIndex rf"
proof -
  note S = AppendEntries_success [OF assms]
  have "lastIncludedIndex rf' = lastIncludedIndex rf"
    using S(2,3) by (cases "aer_Success r") (auto simp: ae_accept_def ae_base_def)
  moreover have "commitIndex rf' = (if aea_LeaderCommit a > commitIndex rf then min (aea_LeaderCommit a) (lastLogIndex rf') else commitIndex rf)"
    if "aer_Success r" using S(2) [OF that] by (simp add: ae_accept_def ae_base_def lastLogIndex_def)
  ultimately show ?thesis using AppendEntries_view(1,2) [OF assms] AppendEntries_exact [OF assms] by blast
qed

text \<open>A follower whose log ends in an entry that the leader of term 2 replaces.\<close>

definition ex_follower :: "(nat, nat) Raft" where
  "ex_follower = (the (Make 3 1 MakePersister))\<lparr>currentTerm := 1, commitIndex := 1,
     log := [\<lparr>Command = None, Term = 0\<rparr>, \<lparr>Command = Some 10, Term = 1\<rparr>,
             \<lparr>Command = Some 20, Term = 1\<rparr>]\<rparr>"

definition ex_append :: "nat AppendEntriesArgs" where
  "ex_append = \<lparr>aea_Term = 2, aea_LeaderId = 0, aea_PrevLogIndex = 1, aea_PrevLogTerm = 1,
     aea_Entries = [\<lparr>Command = Some 30, Term = 2\<rparr>, \<lparr>Command = Some 40, Term = 2\<rparr>],
     aea_LeaderCommit = 3\<rparr>"

definition ex_appended :: "(nat, nat) Raft \<times> AppendEntriesReply" where
  "ex_appended = the (AppendEntries ex_follower ex_append)"

lemma ex_follower_wf: "wf_raft ex_follower"
  by (simp add: wf_raft_def ex_follower_def Make_fresh)

lemma ex_appended_eq: "AppendEntries ex_follower ex_append = Some (fst ex_appended, snd ex_appended)"
  by (simp add: ex_appended_def AppendEntries_eq [OF ex_follower_wf])

theorem AppendEntries_log_witness:
  "wf_raft ex_follower \<and> aer_Success (snd ex_appended) \<and> commitIndex (fst ex_appended) = 3 \<and>
   log (fst ex_appended) = take 2 (log ex_follower) @ aea_Entries ex_append"
proof -
  have ok: "aer_Success (snd ex_appended)" by code_simp
  note T = AppendEntries_log [OF ex_follower_wf ex_appended_eq]
  have agree: "map_option Term (entryAt ex_follower (aea_PrevLogIndex ex_append + 1 + int 0)) \<noteq> Some (Term (aea_Entries ex_append ! 0))"
    by code_simp
  obtain k where k: "\<forall>j < k. map_option Term (entryAt ex_follower (aea_PrevLogIndex ex_append + 1 + int j)) = Some (Term (aea_Entries ex_append ! j))"
    "if k = length (aea_Entries ex_append) then log (fst ex_appended) = log ex_follower
     else log (fst ex_appended) = take (nat (logIndex ex_follower (aea_PrevLogIndex ex_append + 1 + int k))) (log ex_follower) @ drop k (aea_Entries ex_append)"
    using T ok by (auto split: if_splits)
  have "k = 0" using k(1) agree by (metis gr0I)
  moreover have "aea_Entries ex_append \<noteq> []" "nat (logIndex ex_follower (aea_PrevLogIndex ex_append + 1 + int 0)) = 2" by code_simp+
  ultimately have "log (fst ex_appended) = take 2 (log ex_follower) @ aea_Entries ex_append" using k(2) by simp
  moreover have "commitIndex (fst ex_appended) = 3" by code_simp
  ultimately show ?thesis using ok ex_follower_wf by simp
qed

subsection \<open>Committing\<close>

text \<open>C7: the leader's commit rule.  After a successful reply the leader's commit index is the greatest index
  that a majority of the peers has replicated and whose entry is of the leader's own term, if there
  is one above the old commit index; no other field changes.\<close>

theorem commit_rule:
  assumes "wf_raft rf"
  shows "\<exists>N. checkAndCommitLogs rf = Some (rf\<lparr>commitIndex := N\<rparr>) \<and>
    (if \<exists>M. committable rf M then committable rf N \<and> (\<forall>M. committable rf M \<longrightarrow> M \<le> N)
     else N = commitIndex rf)"
proof -
  from checkAndCommitLogs_spec [OF assms] obtain N
    where "checkAndCommitLogs rf = Some (rf\<lparr>commitIndex := N\<rparr>)"
      and "N = commitIndex rf \<or> committable rf N" and "\<And>M. committable rf M \<Longrightarrow> M \<le> N"
    by blast
  moreover have "committable rf M \<Longrightarrow> commitIndex rf < M" for M by (simp add: committable_def)
  ultimately show ?thesis by (intro exI [of _ N]) force
qed

definition ex_leader :: "(nat, nat) Raft" where
  "ex_leader = (the (Make 3 0 MakePersister))\<lparr>role := Leader, currentTerm := 2,
     log := [\<lparr>Command = None, Term = 0\<rparr>, \<lparr>Command = Some 10, Term = 1\<rparr>,
             \<lparr>Command = Some 30, Term = 2\<rparr>, \<lparr>Command = Some 40, Term = 2\<rparr>],
     matchIndex := [3, 2, 0], nextIndex := [4, 3, 1]\<rparr>"

lemma ex_leader_wf: "wf_raft ex_leader"
  by (simp add: wf_raft_def ex_leader_def Make_fresh)

theorem commit_rule_witness:
  "wf_raft ex_leader \<and> (\<exists>N. checkAndCommitLogs ex_leader = Some (ex_leader\<lparr>commitIndex := N\<rparr>) \<and>
     map_option commitIndex (checkAndCommitLogs ex_leader) = Some 2)"
proof -
  have "map_option commitIndex (checkAndCommitLogs ex_leader) = Some 2" by code_simp
  then show ?thesis using commit_rule [OF ex_leader_wf] ex_leader_wf by blast
qed

text \<open>
  \<^verbatim>\<open>AppendEntries\<close> advances the commit index to the minimum of \<^verbatim>\<open>LeaderCommit\<close> and the follower's last
  index, where the Raft paper has the index of the last new entry.  The follower's log may be
  longer than the leader's, so the two differ on arbitrary requests; on the requests a leader
  builds they agree, because these carry the whole rest of the leader's log.
\<close>

lemma broadcast_carries_rest:
  assumes "wf_raft rf" and "commit_ok rf" and "nxt \<le> realLogLen rf"
    and "broadcastMsg rf nxt = AppendEntriesRPC a"
  shows "aea_PrevLogIndex a + int (length (aea_Entries a)) = lastLogIndex rf"
    and "aea_LeaderCommit a \<le> lastLogIndex rf"
  using assms by (auto simp: broadcastMsg_def commit_ok_def index_defs split: if_splits)

text \<open>The commit index a follower takes over.  When a request was built by a leader, for a peer whose
  \<^verbatim>\<open>nextIndex\<close> is at most one past the leader's log, a follower that accepts it raises its commit
  index to exactly the leader's, never past the entries the request vouches for.\<close>

lemma follower_commit:
  assumes "wf_raft rf" and "wf_raft ld" and "commit_ok ld" and "nxt \<le> realLogLen ld"
    and "broadcastMsg ld nxt = AppendEntriesRPC a"
    and "AppendEntries rf a = Some (rf', r)" and "aer_Success r"
  shows "commitIndex rf' = max (commitIndex rf) (commitIndex ld) \<and>
    aea_LeaderCommit a \<le> aea_PrevLogIndex a + int (length (aea_Entries a))"
proof -
  note S = AppendEntries_success [OF assms(1,6)]
  have m: "ae_match rf a" and rf': "rf' = persisted (ae_accept rf a)" using S assms(7) by auto
  define p where "p = nat (logIndex rf (aea_PrevLogIndex a))"
  have pp: "aea_PrevLogIndex a = lastIncludedIndex rf + int p"
    using m by (simp add: p_def ae_match_def logIndex_def)
  have "int (length (ae_log rf a)) \<ge> int (Suc p) + int (length (aea_Entries a))"
    using ae_log_slot(4) [OF assms(1) m p_def]
      mergeEntries_length [of "aea_Entries a" "drop (Suc p) (log rf)"] by simp
  moreover note broadcast_carries_rest [OF assms(2-5)]
  moreover have "aea_LeaderCommit a = commitIndex ld"
    using assms(5) by (auto simp: broadcastMsg_def split: if_splits)
  ultimately show ?thesis using pp by (auto simp: rf' ae_accept_def max_def min_def)
qed

definition ex_broadcast :: "nat AppendEntriesArgs" where
  "ex_broadcast = \<lparr>aea_Term = 2, aea_LeaderId = 0, aea_PrevLogIndex = 1, aea_PrevLogTerm = 1,
     aea_Entries = [\<lparr>Command = Some 30, Term = 2\<rparr>, \<lparr>Command = Some 40, Term = 2\<rparr>],
     aea_LeaderCommit = 2\<rparr>"

subsection \<open>Snapshots\<close>

text \<open>C10: \<^verbatim>\<open>Snapshot\<close>.  Trimming the log at a committed index does not panic, keeps the entries above the index,
  the last index and the term at every remaining index (the placeholder keeps the term of the last
  trimmed entry), and stores the snapshot together with the trimmed log.\<close>

lemma Snapshot_keeps_log:
  assumes "wf_raft rf" and "commit_ok rf" and "lastIncludedIndex rf < index"
    and "index \<le> commitIndex rf"
  shows "\<exists>rf'. Snapshot rf index d = Some rf' \<and> lastIncludedIndex rf' = index \<and>
    lastLogIndex rf' = lastLogIndex rf \<and> commitIndex rf' = commitIndex rf \<and>
    (\<forall>i > index. entryAt rf' i = entryAt rf i) \<and>
    (\<forall>i \<ge> index. i \<le> lastLogIndex rf \<longrightarrow> termAt rf' i = termAt rf i) \<and>
    wf_raft rf' \<and> commit_ok rf' \<and> durable_log rf' \<and> ReadSnapshot (persister rf') = d"
proof -
  define k where "k = nat (index - lastIncludedIndex rf)"
  have k: "index = lastIncludedIndex rf + int k" "0 < k" using assms(3) by (simp_all add: k_def)
  have len: "k < length (log rf)"
    using assms(2,4) k by (simp add: commit_ok_def lastLogIndex_def)
  let ?l = "\<lparr>Command = None, Term = Term (log rf ! k)\<rparr> # drop (Suc k) (log rf)"
  let ?r = "rf\<lparr>lastIncludedIndex := index, log := ?l, snapshot := d\<rparr>"
  have eq: "Snapshot rf index d = Some (persisted ?r)"
    using assms(3,4) k len
    by (simp add: Snapshot_def logIndex_def Let_def persist_eq)
  have last: "lastLogIndex ?r = lastLogIndex rf"
    using len k by (simp add: lastLogIndex_def)
  have tm: "termAt (persisted ?r) i = termAt rf i" if "index \<le> i" "i \<le> lastLogIndex rf" for i
  proof -
    obtain j where j: "i = index + int j" using \<open>index \<le> i\<close> zle_iff_zadd by blast
    have "k + j < length (log rf)" using that j k by (simp add: lastLogIndex_def)
    moreover have "nat (int k + int j) = k + j" by simp
    ultimately show ?thesis
      using k len by (cases j) (simp_all add: termAt_def logIndex_def j del: nat_int_add)
  qed
  have entry: "entryAt (persisted ?r) i = entryAt rf i" if i: "index < i" for i
  proof -
    obtain j where j: "i = index + 1 + int j" using i zless_imp_add1_zle zle_iff_zadd by blast
    show ?thesis using k len last
      by (auto simp: entryAt_def logIndex_def j nat_add_distrib add_ac)
  qed
  have "wf_raft (persisted ?r)" "commit_ok (persisted ?r)"
    using assms last by (auto simp: wf_raft_def commit_ok_def)
  moreover have "durable_log (persisted ?r)"
    using durable_persisted [of ?r] by (simp add: durable_def)
  ultimately show ?thesis
    using eq last tm entry by (intro exI [of _ "persisted ?r"]) simp
qed

text \<open>C10: \<^verbatim>\<open>InstallSnapshot\<close>.  A snapshot newer than the commit index is installed and stored: it becomes the new
  base of the log, the entries behind it survive exactly when the log holds the snapshot's last
  entry with the same term, the service is sent the snapshot, and the commit index does not go back.
  An older snapshot changes neither the log nor the commit index and sends nothing.\<close>

theorem InstallSnapshot_log:
  assumes "wf_raft rf" and "InstallSnapshot rf a = Some (rf', r, m)"
  shows "wf_raft rf' \<and> commitIndex rf \<le> commitIndex rf' \<and>
    (if currentTerm rf \<le> isa_Term a \<and> commitIndex rf < isa_LastIncludedIndex a
     then m = Some (snapshotMsg a) \<and> lastIncludedIndex rf' = isa_LastIncludedIndex a \<and>
       commitIndex rf' = isa_LastIncludedIndex a \<and> commit_ok rf' \<and>
       termAt rf' (isa_LastIncludedIndex a) = isa_LastIncludedTerm a \<and>
       ReadSnapshot (persister rf') = isa_Data a \<and> durable_log rf' \<and>
       (\<forall>i > isa_LastIncludedIndex a. entryAt rf' i =
          (if map_option Term (entryAt rf (isa_LastIncludedIndex a)) = Some (isa_LastIncludedTerm a)
           then entryAt rf i else None))
     else m = None \<and> log rf' = log rf \<and> lastIncludedIndex rf' = lastIncludedIndex rf \<and>
       commitIndex rf' = commitIndex rf)"
proof (cases "currentTerm rf \<le> isa_Term a \<and> commitIndex rf < isa_LastIncludedIndex a")
  case True
  let ?I = "isa_LastIncludedIndex a"
  have le: "lastIncludedIndex rf \<le> commitIndex rf" using assms(1) by (simp add: wf_raft_def)
  then have eq: "rf' = persisted (is_installed rf a)" "m = Some (snapshotMsg a)"
    using True assms(2) by (auto simp: InstallSnapshot_eq split: if_splits)
  define k where "k = nat (?I - lastIncludedIndex rf)"
  have k: "?I = lastIncludedIndex rf + int k" "0 < k" using True le by (simp_all add: k_def)
  have here: "map_option Term (entryAt rf ?I) = Some (isa_LastIncludedTerm a) \<longleftrightarrow>
      k < length (log rf) \<and> Term (log rf ! k) = isa_LastIncludedTerm a"
    using k by (auto simp: entryAt_def logIndex_def lastLogIndex_def)
  have entry: "entryAt rf' i = (if map_option Term (entryAt rf ?I) = Some (isa_LastIncludedTerm a)
      then entryAt rf i else None)" if i: "?I < i" for i
  proof -
    obtain j where j: "i = ?I + 1 + int j" using i zless_imp_add1_zle zle_iff_zadd by blast
    have "nat (int k + (1 + int j)) = Suc (k + j)" by simp
    then show ?thesis
      unfolding here using k
      by (auto simp: eq entryAt_log logIndex_def is_installed_def is_rest_def j simp flip: k_def)
  qed
  have "wf_raft rf'" using wf_is_installed [of rf a] assms(1) True by (simp add: eq)
  moreover have "durable_log rf'"
    using durable_persisted [of "is_installed rf a"] by (simp add: durable_def eq)
  moreover have "commit_ok rf'" by (simp add: eq commit_ok_def is_installed_def lastLogIndex_def)
  moreover have "termAt rf' ?I = isa_LastIncludedTerm a"
    by (simp add: eq termAt_def is_installed_def logIndex_def)
  ultimately show ?thesis using True entry by (simp add: eq) (simp add: is_installed_def)
next
  case False
  then have "m = None \<and> (rf' = rf \<or> rf' = is_base rf a)"
    using assms by (auto simp: InstallSnapshot_eq split: if_splits)
  then show ?thesis using False assms(1) by auto
qed

definition ex_install :: "nat InstallSnapshotArgs" where
  "ex_install = \<lparr>isa_Term = 2, isa_LeaderId = 0, isa_LastIncludedIndex = 2,
     isa_LastIncludedTerm = 1, isa_Data = Some 99\<rparr>"

theorem InstallSnapshot_log_witness:
  "commitIndex (fst (the (InstallSnapshot ex_follower ex_install))) = 2 \<and>
   commit_ok (fst (the (InstallSnapshot ex_follower ex_install)))"
proof -
  let ?x = "the (InstallSnapshot ex_follower ex_install)"
  have eq: "InstallSnapshot ex_follower ex_install = Some (fst ?x, fst (snd ?x), snd (snd ?x))"
    by (simp add: InstallSnapshot_eq)
  have g: "currentTerm ex_follower \<le> isa_Term ex_install"
    "commitIndex ex_follower < isa_LastIncludedIndex ex_install" by code_simp+
  have "isa_LastIncludedIndex ex_install = 2" by code_simp
  then show ?thesis using InstallSnapshot_log [OF ex_follower_wf eq] g by simp
qed

subsection \<open>Votes and restarts\<close>

lemma boot_node:
  "wf_raft (nodes (boot 3) 0)" "durable (nodes (boot 3) 0)"
  using fresh_node [of 3 0 "nodes (boot 3) 0"] by (simp_all add: boot_def Make_fresh)

text \<open>C8: a granted vote survives a crash.  When \<^verbatim>\<open>RequestVote\<close> grants a vote, the term and the candidate are on
  stable storage before the reply is sent, the request was not stale, the peer had not voted for
  another candidate in that term, and the candidate's log was at least as up to date.  A restart at
  any later point of that term finds the vote.\<close>

theorem granted_vote_is_stored:
  assumes "wf_raft rf" and "durable rf" and "RequestVote rf a = Some (rf', r)" and "rvr_VoteGranted r"
  shows "pterm rf' = rva_Term a \<and> pvote rf' = rva_CandidateId a \<and> currentTerm rf \<le> rva_Term a \<and>
    (currentTerm rf = rva_Term a \<longrightarrow> votedFor rf \<in> {noVote, rva_CandidateId a}) \<and>
    (Term (last (log rf)) < rva_LastLogTerm a \<or>
     Term (last (log rf)) = rva_LastLogTerm a \<and> lastLogIndex rf \<le> rva_LastLogIndex a) \<and>
    (\<exists>rf''. restart rf' = Some rf'' \<and> currentTerm rf'' = rva_Term a \<and>
       votedFor rf'' = rva_CandidateId a)"
proof -
  have eq: "rf' = persisted (voteState rf a)" "voteOk rf a" "currentTerm rf \<le> rva_Term a"
    using assms by (auto simp: RequestVote_eq split: if_splits)
  have st: "pterm rf' = rva_Term a" "pvote rf' = rva_CandidateId a"
    using eq by (simp_all add: voteState_def)
  have step: "node_step rf rf'" using assms(3) by (rule sRequestVote)
  have wd: "wf_raft rf'" "durable rf'"
    using node_step_wf [OF step assms(1)] node_step_durable [OF step assms(1,2)] by auto
  then obtain rf'' where rs: "restart rf' = Some rf''" using restart_total by blast
  with restart_facts [OF wd rs] st have "currentTerm rf'' = rva_Term a \<and> votedFor rf'' = rva_CandidateId a"
    by simp
  with rs eq st show ?thesis by (auto simp: voteOk_def)
qed

definition ex_granted :: "(nat, nat) Raft \<times> RequestVoteReply" where
  "ex_granted = the (RequestVote (nodes (boot 3) 0) ex_args)"

theorem granted_vote_is_stored_witness:
  "rvr_VoteGranted (snd ex_granted) \<and> pterm (fst ex_granted) = 1 \<and> pvote (fst ex_granted) = 0"
proof -
  have eq: "RequestVote (nodes (boot 3) 0) ex_args = Some (fst ex_granted, snd ex_granted)"
    by (simp add: ex_granted_def RequestVote_eq [OF wf_raft_log [OF boot_node(1)]])
  have ok: "rvr_VoteGranted (snd ex_granted)" by code_simp
  from granted_vote_is_stored [OF boot_node eq ok] ok show ?thesis by (simp add: ex_args_def)
qed

text \<open>C9: restart.  \<^verbatim>\<open>Make\<close> on a copy of the storage of a peer that has crashed in any reachable state returns a
  well-formed follower with the same log, snapshot point and snapshot, with the stored term and
  vote, and with everything up to the snapshot point counted as committed and applied.\<close>

theorem restart_restores:
  assumes "wf_raft rf" and "durable rf"
  shows "\<exists>rf'. Make (peers rf) (me rf) (Copy (persister rf)) = Some rf' \<and> wf_raft rf' \<and> durable rf' \<and>
    commit_ok rf' \<and> role rf' = Follower \<and> log rf' = log rf \<and> lastIncludedIndex rf' = lastIncludedIndex rf \<and>
    snapshot rf' = snapshot rf \<and> currentTerm rf' = pterm rf \<and> votedFor rf' = pvote rf \<and>
    commitIndex rf' = lastIncludedIndex rf \<and> lastApplied rf' = lastIncludedIndex rf"
proof -
  have dl: "durable_log rf" using assms(2) by (simp add: durable_def)
  note eq = restart_eq [OF assms(1) dl]
  then obtain rf' where r: "restart rf = Some rf'" by blast
  have "snapshot rf' = snapshot rf" "lastApplied rf' = lastIncludedIndex rf"
    using trans [OF r [symmetric] eq] by simp_all
  moreover note restart_facts [OF assms r]
  moreover have "commit_ok rf'"
    using calculation lastLogIndex_ge [of rf'] wf_raft_log [of rf'] by (simp add: commit_ok_def)
  ultimately show ?thesis using r by (auto simp: restart_def)
qed

theorem restart_restores_witness:
  "\<exists>rf'. Make 3 0 (Copy (persister (fst ex_granted))) = Some rf' \<and> currentTerm rf' = 1 \<and> votedFor rf' = 0"
proof -
  have eq: "RequestVote (nodes (boot 3) 0) ex_args = Some (fst ex_granted, snd ex_granted)"
    by (simp add: ex_granted_def RequestVote_eq [OF wf_raft_log [OF boot_node(1)]])
  note step = sRequestVote [OF eq]
  have wd: "wf_raft (fst ex_granted)" "durable (fst ex_granted)"
    using node_step_wf [OF step boot_node(1)] node_step_durable [OF step boot_node] by auto
  have "peers (fst ex_granted) = 3" "me (fst ex_granted) = 0" "pterm (fst ex_granted) = 1"
    "pvote (fst ex_granted) = 0" by code_simp+
  with restart_restores [OF wd] show ?thesis by auto
qed

subsection \<open>Applying\<close>

text \<open>The message the applier sends for index \<open>i\<close>.\<close>

definition applyOf :: "('c, 'b) Raft \<Rightarrow> int \<Rightarrow> ('c, 'b) ApplyMsg" where
  "applyOf rf i = (let e = log rf ! nat (logIndex rf i) in
     \<lparr>CommandValid = True, am_Command = Command e, CommandIndex = i, CommandTerm = Term e,
      SnapshotValid = False, am_Snapshot = None, SnapshotTerm = 0, SnapshotIndex = 0\<rparr>)"

lemma for_loop_snoc:
  "(\<And>i. i \<in> set is \<Longrightarrow> f i = Some (g i)) \<Longrightarrow>
   for_loop is (\<lambda>i acc. Option.bind (f i) (\<lambda>x. Some (acc @ [h i x]))) acc =
   Some (acc @ map (\<lambda>i. h i (g i)) is)"
  by (induction "is" arbitrary: acc) auto

lemma applierCollect_eq:
  assumes "lastIncludedIndex rf \<le> lastApplied rf" and "commit_ok rf"
  shows "applierCollect rf = Some (map (applyOf rf) [lastApplied rf + 1 .. commitIndex rf])"
  unfolding applierCollect_def
  by (subst for_loop_snoc [where g = "\<lambda>i. log rf ! nat (logIndex rf i)"])
    (use assms in \<open>auto simp: applyOf_def Let_def commit_ok_def index_defs\<close>)

text \<open>What the applier delivers.  With the committed entries in the log, the applier collects without a panic
  one message for every index from \<^verbatim>\<open>lastApplied+1\<close> to \<^verbatim>\<open>commitIndex\<close>, in ascending order, with the
  command and the term of the entry at that index; a message is put on the channel only if it is
  the next one, and then \<^verbatim>\<open>lastApplied\<close> becomes its index.\<close>

lemma applier_in_order:
  assumes "lastIncludedIndex rf \<le> lastApplied rf" and "commit_ok rf"
  shows "\<exists>msgs. applierCollect rf = Some msgs \<and>
    length msgs = nat (commitIndex rf - lastApplied rf) \<and>
    (\<forall>k < length msgs. CommandValid (msgs ! k) \<and> CommandIndex (msgs ! k) = lastApplied rf + 1 + int k \<and>
       (\<exists>e. entryAt rf (CommandIndex (msgs ! k)) = Some e \<and> am_Command (msgs ! k) = Command e \<and>
            CommandTerm (msgs ! k) = Term e)) \<and>
    (\<forall>m rf'. applierBegin rf m = Some rf' \<longrightarrow> CommandIndex m = lastApplied rf + 1 \<and>
       lastApplied (applierEnd (applierSent rf') m) = lastApplied rf + 1)"
proof -
  let ?msgs = "map (applyOf rf) [lastApplied rf + 1 .. commitIndex rf]"
  have "entryAt rf (lastApplied rf + 1 + int k) =
      Some (log rf ! nat (logIndex rf (lastApplied rf + 1 + int k)))" if "k < length ?msgs" for k
    using that assms by (auto simp: entryAt_def commit_ok_def)
  then have "CommandValid (?msgs ! k) \<and> CommandIndex (?msgs ! k) = lastApplied rf + 1 + int k \<and>
       (\<exists>e. entryAt rf (CommandIndex (?msgs ! k)) = Some e \<and> am_Command (?msgs ! k) = Command e \<and>
            CommandTerm (?msgs ! k) = Term e)" if "k < length ?msgs" for k
    using that by (simp add: applyOf_def Let_def)
  moreover have "CommandIndex m = lastApplied rf + 1 \<and>
      lastApplied (applierEnd (applierSent rf') m) = lastApplied rf + 1"
    if "applierBegin rf m = Some rf'" for m rf'
    using that by (auto simp: applierBegin_def applierEnd_def applierSent_def split: if_splits)
  moreover have "length ?msgs = nat (commitIndex rf - lastApplied rf)" by simp
  moreover note applierCollect_eq [OF assms]
  ultimately show ?thesis by (intro exI [of _ ?msgs] conjI) blast+
qed

subsection \<open>No panics\<close>

text \<open>No operation panics.  On a well-formed peer the three RPC handlers, \<^verbatim>\<open>Start\<close>, an election and the
  handling of every reply return whatever the arguments are (slices are never indexed out of
  range); \<^verbatim>\<open>Snapshot\<close> and the applier return when the committed entries are in the log; and a
  broadcast returns when no \<^verbatim>\<open>nextIndex\<close> lies beyond the end of the leader's log.\<close>

lemma operations_return:
  assumes "wf_raft rf"
  shows "RequestVote rf va \<noteq> None \<and> AppendEntries rf aa \<noteq> None \<and> InstallSnapshot rf ia \<noteq> None \<and>
    Start rf c \<noteq> None \<and> electionEvent rf \<noteq> None \<and> requestVoteReply rf k va vr \<noteq> None \<and>
    (0 \<le> p \<and> p < int (peers rf) \<longrightarrow>
       handleSendAppendEntries rf p aa ar \<noteq> None \<and> handleSendInstallSnapshot rf p ia ir \<noteq> None) \<and>
    (commit_ok rf \<longrightarrow> Snapshot rf i d \<noteq> None \<and>
       (lastIncludedIndex rf \<le> lastApplied rf \<longrightarrow> applierCollect rf \<noteq> None)) \<and>
    ((\<forall>q < peers rf. nextIndex rf ! q \<le> realLogLen rf) \<longrightarrow> heartbeatEvent rf \<noteq> None)"
proof (intro conjI impI)
  show "Start rf c \<noteq> None"
    using Start_eq [OF assms _ refl, of c] Start_not_leader [of rf c] by (cases "role rf = Leader") auto
  show "handleSendAppendEntries rf p aa ar \<noteq> None" if "0 \<le> p \<and> p < int (peers rf)"
  proof -
    let ?k = "acked rf p (aea_PrevLogIndex aa + int (length (aea_Entries aa)))"
    have "wf_raft ?k" using assms by simp
    then have "checkAndCommitLogs ?k \<noteq> None" by (rule checkAndCommitLogs_spec) simp
    then show ?thesis using assms that by (simp add: handleSendAppendEntries_eq)
  qed
  show "applierCollect rf \<noteq> None" if "commit_ok rf" "lastIncludedIndex rf \<le> lastApplied rf"
    using applierCollect_eq [OF that(2,1)] by simp
  show "heartbeatEvent rf \<noteq> None" if "\<forall>q < peers rf. nextIndex rf ! q \<le> realLogLen rf"
    using heartbeatBroadcast_eq [OF assms that] by (simp add: heartbeatEvent_def)
qed (use assms in \<open>simp_all add: RequestVote_eq AppendEntries_eq InstallSnapshot_eq electionEvent_eq
      requestVoteReply_eq handleSendInstallSnapshot_eq Snapshot_eq\<close>)

subsection \<open>Where the code departs from the protocol\<close>

text \<open>Stepping down keeps the old vote.  When a leader learns of a higher term from the reply to one of its own
  requests it adopts the term but, unlike on the other paths, does not clear \<^verbatim>\<open>votedFor\<close>, which still
  names itself.  In the new term it refuses every other candidate although it has not voted.\<close>

lemma stepdown_keeps_vote:
  assumes "wf_raft rf" and "role rf = Leader" and "votedFor rf = me rf" and "aea_Term a = currentTerm rf"
    and "aer_Term r > currentTerm rf" and "0 \<le> p" and "p < int (peers rf)"
    and "rva_Term v = aer_Term r" and "rva_CandidateId v \<noteq> me rf"
  shows "\<exists>rf' rf'' vr. handleSendAppendEntries rf p a r = Some rf' \<and>
    currentTerm rf' = aer_Term r \<and> votedFor rf' = me rf \<and>
    RequestVote rf' v = Some (rf'', vr) \<and> \<not> rvr_VoteGranted vr"
proof -
  let ?r = "persisted (stepDown rf (aer_Term r))"
  have eq: "handleSendAppendEntries rf p a r = Some ?r"
    using assms by (simp add: handleSendAppendEntries_eq)
  have "me rf \<noteq> noVote" using assms(1) by (auto simp: wf_raft_def noVote_def)
  then have "\<not> voteOk ?r v" using assms by (simp add: voteOk_def)
  then show ?thesis using eq assms by (simp add: RequestVote_eq)
qed

text \<open>A term that is not stored.  \<^verbatim>\<open>InstallSnapshot\<close> returns before its deferred \<^verbatim>\<open>persist\<close> is registered when
  the snapshot is old: the peer has adopted the sender's term, and told it so, but a restart goes
  back to the stored term.  The other two handlers store the term before they reply.\<close>

lemma InstallSnapshot_forgets_term:
  assumes "wf_raft rf" and "durable rf" and "isa_Term a > currentTerm rf"
    and "isa_LastIncludedIndex a \<le> commitIndex rf"
  shows "\<exists>rf' rf''. InstallSnapshot rf a = Some (rf', \<lparr>isr_Term = isa_Term a\<rparr>, None) \<and>
    currentTerm rf' = isa_Term a \<and> restart rf' = Some rf'' \<and> currentTerm rf'' < isa_Term a"
proof -
  let ?r = "is_base rf a"
  have eq: "InstallSnapshot rf a = Some (?r, \<lparr>isr_Term = isa_Term a\<rparr>, None)"
    using assms by (auto simp: InstallSnapshot_eq)
  have wd: "wf_raft ?r" "durable ?r"
    using node_step_durable [OF sInstallSnapshot [OF eq] assms(1,2)] assms(1) by simp_all
  then obtain rf'' where rs: "restart ?r = Some rf''" using restart_total by blast
  have "pterm ?r = pterm rf" by (rule pterm_cong) simp
  moreover have "pterm rf \<le> currentTerm rf" using assms(2) by (simp add: durable_def durable_vote_def)
  ultimately have "currentTerm rf'' < isa_Term a"
    using restart_facts [OF wd rs] assms(3) by simp
  with eq rs show ?thesis by auto
qed

text \<open>A cluster of one peer: nobody is asked for a vote, so no reply ever makes it leader.\<close>

definition lonely :: "('c, 'b) cluster \<Rightarrow> bool" where
  "lonely s \<longleftrightarrow> nodes_ok 1 s \<and> net s = {#} \<and> role (nodes s 0) \<noteq> Leader"

lemma lonely_node_step:
  assumes "lonely s" and "node_step (nodes s 0) rf'" and "role rf' \<noteq> Leader"
    and "nodes s' = (nodes s)(0 := rf')" and "net s' = {#}"
  shows "lonely s'"
  using assms nodes_ok_upd [OF _ evolves_node_step] by (fastforce simp: lonely_def)

lemma lonely_step:
  assumes "lonely s" and "cluster_step 1 s s'"
  shows "lonely s'"
proof -
  have ok: "nodes_ok 1 s" "net s = {#}" "role (nodes s 0) \<noteq> Leader" and one: "0 < (1::nat)"
    using assms(1) by (simp_all add: lonely_def)
  note D = nodes_okD [OF ok(1) one]
  from assms(2) show ?thesis
  proof cases
    case (cElection i rf' k reqs)
    then have i: "i = 0" by simp
    note el = cElection(3) [unfolded i]
    note eq = trans [OF el [symmetric] electionEvent_eq [OF D(5)], unfolded option.inject prod.inject]
    have "otherPeers (nodes s 0) = []" using D(3,4) by (simp add: otherPeers_def)
    with eq have "reqs = []" and "role rf' = Candidate" by simp_all
    then show ?thesis
      using lonely_node_step [OF assms(1) sElection [OF el]] ok(2) by (simp add: cElection(1) i sends_def)
  next
    case (cHeartbeat i outs)
    with ok show ?thesis
      by (simp add: lonely_def heartbeatEvent_def sends_def nodes_ok_def)
  next
    case (cStart i c rf' index t b)
    then have i: "i = 0" by simp
    have "rf' = nodes s 0" using cStart(3) ok(3) by (simp add: i Start_not_leader)
    with ok show ?thesis by (simp add: cStart(1) i lonely_def)
  next
    case (cSnapshot i index d rf')
    then have i: "i = 0" by simp
    have "role rf' = role (nodes s 0)" using cSnapshot(3) by (cases rule: Snapshot_cases) (simp_all add: i)
    with lonely_node_step [OF assms(1) sSnapshot] cSnapshot ok show ?thesis by (simp add: i)
  next
    case (cApplierBegin i msg rf')
    then have i: "i = 0" by simp
    have "role rf' = role (nodes s 0)"
      using cApplierBegin(3) by (auto simp: applierBegin_def i split: if_splits)
    with lonely_node_step [OF assms(1) sApplierBegin] cApplierBegin ok show ?thesis by (simp add: i)
  next
    case (cApplierSent i)
    with lonely_node_step [OF assms(1) sApplierSent] ok show ?thesis by (simp add: applierSent_def)
  next
    case (cApplierEnd i msg)
    with lonely_node_step [OF assms(1) sApplierEnd] ok show ?thesis by (simp add: applierEnd_def)
  next
    case (cKill i)
    with lonely_node_step [OF assms(1) sKill] ok show ?thesis by (simp add: Kill_def)
  next
    case (cCrash i rf')
    then have i: "i = 0" by simp
    have "role rf' = Follower" using restart_facts [OF D(1,2)] cCrash(3) by (simp add: i)
    then show ?thesis
      using nodes_ok_upd [OF ok(1) evolves_restart [OF ok(1) one]] cCrash ok
      by (simp add: lonely_def crash_net_def i)
  qed (use ok in simp_all)
qed

lemma lonely_init: "cluster_init 1 s \<Longrightarrow> lonely s"
  using fresh_node [of 1 0 "nodes s 0"] by (simp add: cluster_init_def lonely_def nodes_ok_def)

interpretation lonely: inductive_invariant "cluster_init 1" "cluster_step 1" lonely
  by unfold_locales (auto intro: lonely_init lonely_step)

text \<open>C11: a single server never elects itself.  \<^verbatim>\<open>startElection\<close> compares \<^verbatim>\<open>approvedNum\<close> with the majority only
  when a reply arrives, and a peer that is alone asks nobody: in no reachable state of a cluster of
  one is there a leader, although its own vote is a majority.\<close>

theorem single_server_never_leads:
  assumes "cluster_reach 1 s"
  shows "role (nodes s 0) \<noteq> Leader"
  using lonely.inv_reach [OF assms] by (simp add: lonely_def)

theorem single_server_never_leads_witness:
  "cluster_reach 1 (do_election 0 (boot 1 :: (nat, nat) cluster)) \<and>
   role (nodes (do_election 0 (boot 1 :: (nat, nat) cluster)) 0) \<noteq> Leader"
proof -
  have "cluster_reach 1 (do_election 0 (boot 1 :: (nat, nat) cluster))"
    by (rule reach_steps [OF do_election_work [THEN work_steps] boot_reach]) simp
  with single_server_never_leads show ?thesis by blast
qed

end
