(* ===== verification/Raft_Logs.thy ===== *)
theory Raft_Logs
  imports Raft_Votes "HOL-Library.Sublist"
begin

section \<open>Logs and the tree they form\<close>

text \<open>
  The argument for the safety of the replicated log speaks of complete logs, from index 0 on, with the
  entries that a snapshot has replaced.  \<open>H t\<close> is the log of the leader of term \<open>t\<close>, as far as it has
  grown, \<open>[]\<close> if the term has no leader.  The logs form a tree: an entry of term \<open>t\<close> at an index stands
  only behind the entries that it has in \<open>H t\<close>.
\<close>

subsection \<open>The tree\<close>

abbreviation root_entry :: "'c Logt" where
  "root_entry \<equiv> \<lparr>Command = None, Term = 0\<rparr>"

definition has :: "'c Logt list \<Rightarrow> int \<Rightarrow> nat \<Rightarrow> bool" where
  "has X t k \<longleftrightarrow> k < length X \<and> Term (X ! k) = t"

definition branch :: "(int \<Rightarrow> 'c Logt list) \<Rightarrow> 'c Logt list \<Rightarrow> bool" where
  "branch H X \<longleftrightarrow> X \<noteq> [] \<and> prefix X (H (Term (last X)))"

definition tree :: "(int \<Rightarrow> 'c Logt list) \<Rightarrow> bool" where
  "tree H \<longleftrightarrow> H 0 = [root_entry] \<and>
     (\<forall>t k. k < length (H t) \<longrightarrow> branch H (take (Suc k) (H t)) \<and> Term (H t ! k) \<le> t) \<and>
     (\<forall>t. sorted (map Term (H t))) \<and>
     (\<forall>t k. 0 < k \<longrightarrow> k < length (H t) \<longrightarrow> Command (H t ! k) \<noteq> None)"

lemma treeD:
  assumes "tree H"
  shows "H 0 = [root_entry]" and "k < length (H t) \<Longrightarrow> branch H (take (Suc k) (H t))"
    and "k < length (H t) \<Longrightarrow> Term (H t ! k) \<le> t" and "sorted (map Term (H t))"
    and "0 < k \<Longrightarrow> k < length (H t) \<Longrightarrow> Command (H t ! k) \<noteq> None"
  using assms by (simp_all add: tree_def)

lemma take_prefix: "prefix X Y \<Longrightarrow> k \<le> length X \<Longrightarrow> take k X = take k Y"
  by (auto simp: prefix_def)

lemma prefix_nth: "prefix X Y \<Longrightarrow> k < length X \<Longrightarrow> k < length Y \<and> X ! k = Y ! k"
  by (auto simp: prefix_def nth_append)

lemma branch_command:
  assumes "tree H" and "branch H X" and "0 < k" and "k < length X"
  shows "Command (X ! k) \<noteq> None"
  using prefix_nth [of X "H (Term (last X))" k] treeD(5) [OF assms(1,3)] assms(2,4) by (simp add: branch_def)

lemma branch_take:
  assumes "tree H" and "branch H X" and "k < length X"
  shows "branch H (take (Suc k) X)"
proof -
  have p: "prefix X (H (Term (last X)))" using assms(2) by (simp add: branch_def)
  have "take (Suc k) X = take (Suc k) (H (Term (last X)))" by (rule take_prefix [OF p]) (use assms(3) in simp)
  moreover have "k < length (H (Term (last X)))" using prefix_nth [OF p assms(3)] by simp
  ultimately show ?thesis using treeD(2) [OF assms(1)] by simp
qed

text \<open>An entry determines everything in front of it.\<close>

lemma has_take:
  assumes "tree H" and "branch H X" and "has X t k"
  shows "take (Suc k) X = take (Suc k) (H t)" and "has (H t) t k"
proof -
  have k: "k < length X" and t: "Term (X ! k) = t" using assms(3) by (simp_all add: has_def)
  have b: "branch H (take (Suc k) X)" by (rule branch_take [OF assms(1,2) k])
  have "last (take (Suc k) X) = X ! k" using k by (simp add: take_Suc_conv_app_nth)
  then have p: "prefix (take (Suc k) X) (H t)" using b t by (simp add: branch_def)
  then show eq: "take (Suc k) X = take (Suc k) (H t)" using take_prefix [OF p, of "Suc k"] k by simp
  have len: "k < length (H t)" using prefix_nth [OF p, of k] k by simp
  moreover have "H t ! k = X ! k" using arg_cong [OF eq, of "\<lambda>l. l ! k"] k len by simp
  ultimately show "has (H t) t k" using t by (simp add: has_def)
qed

lemma has_same:
  assumes "tree H" and "branch H X" and "branch H Y" and "has X t k" and "has Y t k"
  shows "take (Suc k) X = take (Suc k) Y"
  using has_take(1) [OF assms(1,2,4)] has_take(1) [OF assms(1,3,5)] by simp

lemma has_prefix: "prefix X Y \<Longrightarrow> has X t k \<Longrightarrow> has Y t k"
  using prefix_nth by (fastforce simp: has_def)

lemma has_take_iff [simp]: "has (take n X) t k \<longleftrightarrow> k < n \<and> has X t k"
  by (auto simp: has_def)

lemma take_less:
  assumes "take (Suc k) X = take (Suc k) Y" and "i \<le> k"
  shows "take (Suc i) X = take (Suc i) Y"
  using arg_cong [OF assms(1), of "take (Suc i)"] assms(2) by (simp add: min_def)

lemma take_has:
  assumes "take (Suc k) X = take (Suc k) Y" and "has X t i" and "i \<le> k"
  shows "has Y t i"
proof -
  have "has (take (Suc k) X) t i" using assms(2,3) by simp
  then show ?thesis unfolding assms(1) by simp
qed

lemma branch_H: "tree H \<Longrightarrow> H t \<noteq> [] \<Longrightarrow> branch H (H t)"
  using treeD(2) [of H "length (H t) - 1" t] by (cases "H t") simp_all

lemma branch_prefix_H: "tree H \<Longrightarrow> k < length (H t) \<Longrightarrow> branch H (take (Suc k) (H t))"
  by (rule treeD(2))

lemma branch_sorted:
  assumes "tree H" and "branch H X"
  shows "sorted (map Term X)"
proof -
  obtain Z where "H (Term (last X)) = X @ Z" using assms(2) by (auto simp: branch_def prefix_def)
  then show ?thesis using treeD(4) [OF assms(1), of "Term (last X)"] by (simp add: sorted_append)
qed

subsection \<open>Growth of the tree\<close>

text \<open>The tree grows when a term gets a leader, and when a leader appends an entry.\<close>

lemma branch_mono:
  assumes "branch H X" and "\<And>t. prefix (H t) (H' t)"
  shows "branch H' X"
  using assms prefix_order.trans by (fastforce simp: branch_def)

definition grows :: "(int \<Rightarrow> 'c Logt list) \<Rightarrow> (int \<Rightarrow> 'c Logt list) \<Rightarrow> bool" where
  "grows H H' \<longleftrightarrow> tree H' \<and> (\<forall>t. prefix (H t) (H' t)) \<and>
     (\<forall>t t' k. H t' \<noteq> [] \<longrightarrow> has (H' t') t k \<longrightarrow> t < t' \<longrightarrow> has (H t') t k)"

lemma growsD:
  assumes "grows H H'"
  shows "tree H'" and "prefix (H t) (H' t)" and "branch H X \<Longrightarrow> branch H' X"
    and "has (H t') t k \<Longrightarrow> has (H' t') t k"
    and "H t' \<noteq> [] \<Longrightarrow> \<not> has (H t') t k \<Longrightarrow> t < t' \<Longrightarrow> \<not> has (H' t') t k"
  using assms branch_mono [of H X H'] has_prefix [of "H t'" "H' t'"] by (auto simp: grows_def)

lemma grows_refl: "tree H \<Longrightarrow> grows H H"
  by (simp add: grows_def)

lemma grows_leader:
  assumes "tree H" and "H t = []" and "branch H X" and "Term (last X) < t"
  shows "grows H (H(t := X))"
proof -
  let ?H = "H(t := X)"
  have ne: "Term (last X) \<noteq> t" using assms(4) by simp
  have pre: "prefix (H u) (?H u)" for u using assms(2) by simp
  have le: "Term (X ! k) \<le> Term (last X)" if "k < length X" for k
  proof -
    have "sorted (map Term X)" by (rule branch_sorted [OF assms(1,3)])
    then have "map Term X ! k \<le> map Term X ! (length X - 1)" using that by (intro sorted_nth_mono) auto
    moreover have "X \<noteq> []" using that by auto
    ultimately show ?thesis using that by (simp add: last_conv_nth)
  qed
  have "branch ?H (take (Suc k) (?H u)) \<and> Term (?H u ! k) \<le> u" if "k < length (?H u)" for u k
  proof (cases "u = t")
    case True
    have "branch ?H (take (Suc k) X)"
      by (rule branch_mono [OF branch_take [OF assms(1,3)] pre]) (use that True in simp)
    moreover have "Term (X ! k) \<le> t" using le [of k] that True assms(4) by simp
    ultimately show ?thesis using True by simp
  next
    case False
    then have "branch H (take (Suc k) (H u))" "Term (H u ! k) \<le> u" using treeD(2,3) [OF assms(1), of k u] that by simp_all
    moreover from branch_mono [OF this(1) pre] have "branch ?H (take (Suc k) (H u))" .
    ultimately show ?thesis using False by simp
  qed
  moreover have "t \<noteq> 0" using treeD(1) [OF assms(1)] assms(2) by auto
  moreover have "Command (?H u ! k) \<noteq> None" if "0 < k" "k < length (?H u)" for u k
    using that treeD(5) [OF assms(1), of k u] branch_command [OF assms(1,3) that(1)] by (cases "u = t") simp_all
  ultimately have "tree ?H"
    using treeD(1,4) [OF assms(1)] branch_sorted [OF assms(1,3)] by (simp add: tree_def)
  then show ?thesis using pre assms(2) by (auto simp: grows_def split: if_splits)
qed

lemma grows_append:
  assumes "tree H" and "H t \<noteq> []" and "Term e = t" and "t \<noteq> 0" and "Command e \<noteq> None"
  shows "grows H (H(t := H t @ [e]))"
proof -
  let ?H = "H(t := H t @ [e])"
  have pre: "prefix (H u) (?H u)" for u by simp
  have "branch ?H (take (Suc k) (?H u)) \<and> Term (?H u ! k) \<le> u" if "k < length (?H u)" for u k
  proof (cases "k < length (H u)")
    case True
    then have "branch H (take (Suc k) (H u))" "Term (H u ! k) \<le> u" using treeD(2,3) [OF assms(1)] by simp_all
    moreover have "take (Suc k) (?H u) = take (Suc k) (H u)" "?H u ! k = H u ! k"
      using True by (cases "u = t"; simp add: nth_append)+
    moreover from branch_mono [OF calculation(1) pre] have "branch ?H (take (Suc k) (H u))" .
    ultimately show ?thesis by simp
  next
    case False
    then have "u = t" "k = length (H t)" using that by (auto split: if_splits)
    then show ?thesis using assms(3) by (simp add: branch_def)
  qed
  moreover have "sorted (map Term (?H u))" for u
    using treeD(3,4) [OF assms(1)] assms(3) by (auto simp: sorted_append in_set_conv_nth)
  moreover have "Command (?H u ! k) \<noteq> None" if "0 < k" "k < length (?H u)" for u k
    using that treeD(5) [OF assms(1), of k] assms(5) by (cases "u = t") (auto simp: nth_append)
  ultimately have "tree ?H" using treeD(1) [OF assms(1)] assms(4) by (simp add: tree_def)
  moreover have "has (H t') u k" if "H t' \<noteq> []" "has (?H t') u k" "u < t'" for t' u k
    using that assms(3) by (auto simp: has_def nth_append split: if_splits)
  ultimately show ?thesis using pre by (simp add: grows_def)
qed

subsection \<open>Merging\<close>

text \<open>
  A follower that has the leader's entry in front of the new ones ends up with its own log, if that
  contains them already, or with the leader's log up to them.
\<close>

lemma mergeEntries_same:
  assumes "\<And>k. k < length xs \<Longrightarrow> k < length es \<Longrightarrow> Term (xs ! k) = Term (es ! k) \<Longrightarrow> xs ! k = es ! k"
  shows "mergeEntries xs es = (if take (length es) xs = es then xs else es)"
  using assms
proof (induction xs es rule: mergeEntries.induct)
  case (3 x xs e es)
  show ?case
  proof (cases "Term x = Term e")
    case True
    have "x = e" using 3(2) [of 0] True by simp
    moreover have "mergeEntries xs es = (if take (length es) xs = es then xs else es)"
      using 3(1) [OF True] 3(2) [of "Suc k" for k] by fastforce
    ultimately show ?thesis by auto
  next
    case False
    then show ?thesis by auto
  qed
qed auto

lemma merge_logs:
  assumes "tree H" and "branch H X" and "branch H Y" and "Suc p + m \<le> length Y" and "p < length X"
    and "Term (X ! p) = Term (Y ! p)"
  shows "take (Suc p) X @ mergeEntries (drop (Suc p) X) (take m (drop (Suc p) Y)) =
    (if take (Suc p + m) X = take (Suc p + m) Y then X else take (Suc p + m) Y)"
proof -
  let ?q = "Suc p"
  have pre: "take ?q X = take ?q Y"
    using has_same [OF assms(1-3), of "Term (X ! p)" p] assms(4-6) by (simp add: has_def)
  have "drop ?q X ! k = take m (drop ?q Y) ! k"
    if "k < length (drop ?q X)" "k < length (take m (drop ?q Y))"
      "Term (drop ?q X ! k) = Term (take m (drop ?q Y) ! k)" for k
  proof -
    have k: "?q + k < length X" "?q + k < length Y" "k < m" using that(1,2) by auto
    then have "Term (X ! (?q + k)) = Term (Y ! (?q + k))" using that(3) by simp
    then have "take (Suc (?q + k)) X = take (Suc (?q + k)) Y"
      using has_same [OF assms(1-3), of "Term (X ! (?q + k))" "?q + k"] k by (simp add: has_def)
    from arg_cong [OF this, of "\<lambda>l. l ! (?q + k)"] show ?thesis using k by simp
  qed
  from mergeEntries_same [OF this]
  have "mergeEntries (drop ?q X) (take m (drop ?q Y)) =
      (if take m (drop ?q X) = take m (drop ?q Y) then drop ?q X else take m (drop ?q Y))"
    using assms(4) by simp
  moreover have "take (?q + m) Z = take ?q Z @ take m (drop ?q Z)" for Z :: "'a Logt list"
    by (rule take_add)
  moreover have "take ?q Y @ drop ?q X = X" using append_take_drop_id [of ?q X] pre by simp
  ultimately show ?thesis using pre by simp
qed

end
