(* ===== verification/Raft_Full.thy ===== *)
theory Raft_Full
  imports Raft_Logs
begin

section \<open>The complete log behind the log of a peer\<close>

text \<open>
  A peer keeps the part of its log behind the snapshot, and a placeholder with the term of the last entry
  that the snapshot includes.  \<open>full rf X\<close> says that \<open>X\<close> is a complete log, from index 0 on, of which \<open>rf\<close> holds
  that part.  Every operation is an operation on the complete log.
\<close>

definition full :: "('c, 'b) Raft \<Rightarrow> 'c Logt list \<Rightarrow> bool" where
  "full rf X \<longleftrightarrow> 0 \<le> lastIncludedIndex rf \<and> nat (lastIncludedIndex rf) < length X \<and>
     log rf = \<lparr>Command = None, Term = Term (X ! nat (lastIncludedIndex rf))\<rparr> #
       drop (Suc (nat (lastIncludedIndex rf))) X"

lemma full_cong:
  "full rf X \<Longrightarrow> log rf' = log rf \<Longrightarrow> lastIncludedIndex rf' = lastIncludedIndex rf \<Longrightarrow> full rf' X"
  by (simp add: full_def)

lemma full_persisted [simp]: "full (persisted rf) X = full rf X"
  by (simp add: full_def)

lemma full_length:
  assumes "full rf X"
  shows "lastLogIndex rf = int (length X) - 1" and "realLogLen rf = int (length X)" and "X \<noteq> []"
  using assms by (auto simp: full_def lastLogIndex_def realLogLen_def)

lemma full_nth:
  assumes "full rf X" and "lastIncludedIndex rf < i" and "i \<le> lastLogIndex rf"
  shows "log rf ! nat (logIndex rf i) = X ! nat i"
proof -
  let ?k = "nat (lastIncludedIndex rf)"
  have "nat (logIndex rf i) = Suc (nat i - Suc ?k)" "Suc ?k + (nat i - Suc ?k) = nat i"
    using assms(1,2) by (auto simp: full_def logIndex_def)
  then show ?thesis using assms(1) by (simp add: full_def)
qed

lemma full_term:
  assumes "full rf X" and "lastIncludedIndex rf \<le> i" and "i \<le> lastLogIndex rf"
  shows "Term (log rf ! nat (logIndex rf i)) = Term (X ! nat i)"
proof (cases "i = lastIncludedIndex rf")
  case True
  then show ?thesis using assms(1) by (simp add: full_def logIndex_def)
next
  case False
  then show ?thesis using full_nth [OF assms(1) _ assms(3)] assms(2) by simp
qed

lemma full_last:
  assumes "full rf X"
  shows "Term (last (log rf)) = Term (last X)"
proof (cases "drop (Suc (nat (lastIncludedIndex rf))) X = []")
  case True
  then have "length X - 1 = nat (lastIncludedIndex rf)" using assms by (auto simp: full_def)
  then show ?thesis using assms True full_length(3) [OF assms] by (simp add: full_def last_conv_nth)
next
  case False
  then show ?thesis using assms by (simp add: full_def)
qed

lemma full_accept:
  fixes rf :: "('c, 'b) Raft"
  assumes "full rf X" and "lastIncludedIndex rf \<le> aea_PrevLogIndex a"
    and "aea_PrevLogIndex a \<le> lastLogIndex rf"
  shows "full (ae_accept rf a) (take (Suc (nat (aea_PrevLogIndex a))) X @
    mergeEntries (drop (Suc (nat (aea_PrevLogIndex a))) X) (aea_Entries a))"
proof -
  define k where "k = nat (lastIncludedIndex rf)"
  define p where "p = nat (aea_PrevLogIndex a)"
  define e :: "'c Logt" where "e = \<lparr>Command = None, Term = Term (X ! k)\<rparr>"
  have kp: "k \<le> p" "p < length X" "k < length X" "nat (logIndex rf (aea_PrevLogIndex a)) = p - k"
    using assms full_length(1) [OF assms(1)] by (auto simp: full_def k_def p_def logIndex_def)
  have lg: "log rf = e # drop (Suc k) X" using assms(1) by (simp add: full_def e_def k_def)
  have "drop (p - k) (drop (Suc k) X) = drop (Suc p) X" using kp by simp
  moreover have "take (p - k) (drop (Suc k) X) @ Z = drop (Suc k) (take (Suc p) X @ Z)" for Z
    using kp by (simp add: drop_take)
  ultimately have "ae_log rf a = e # drop (Suc k) (take (Suc p) X @ mergeEntries (drop (Suc p) X) (aea_Entries a))"
    by (simp only: ae_log_def Let_def kp(4) lg drop_Suc_Cons take_Suc_Cons append_Cons)
  moreover have "(take (Suc p) X @ mergeEntries (drop (Suc p) X) (aea_Entries a)) ! k = X ! k"
    using kp by (simp add: nth_append)
  ultimately show ?thesis
    using kp assms(1) unfolding full_def by (simp add: ae_accept_def e_def flip: k_def p_def)
qed

lemma full_installed:
  assumes "full rf X" and "lastIncludedIndex rf < isa_LastIncludedIndex a"
    and k: "k = nat (isa_LastIncludedIndex a)"
  shows "k < length X \<Longrightarrow> Term (X ! k) = isa_LastIncludedTerm a \<Longrightarrow> full (is_installed rf a) X"
    and "\<not> (k < length X \<and> Term (X ! k) = isa_LastIncludedTerm a) \<Longrightarrow> k < length Y \<Longrightarrow>
      Term (Y ! k) = isa_LastIncludedTerm a \<Longrightarrow> full (is_installed rf a) (take (Suc k) Y)"
proof -
  let ?b = "nat (lastIncludedIndex rf)" and ?d = "nat (isa_LastIncludedIndex a - lastIncludedIndex rf)"
  have d: "?d = Suc (k - Suc ?b)" "Suc ?b \<le> k" and b: "0 \<le> lastIncludedIndex rf" "?b < length X"
    using assms(1,2) by (auto simp: full_def k)
  have lg: "log rf = \<lparr>Command = None, Term = Term (X ! ?b)\<rparr> # drop (Suc ?b) X"
    using assms(1) by (simp add: full_def)
  have in_log: "?d < length (log rf) \<longleftrightarrow> k < length X" using d b unfolding lg by auto
  have at: "log rf ! ?d = X ! k" if "k < length X" using that d b unfolding lg by simp
  have dr: "drop (Suc ?d) (log rf) = drop (Suc k) X" using d unfolding lg by simp
  show "full (is_installed rf a) X" if "k < length X" "Term (X ! k) = isa_LastIncludedTerm a"
    using that in_log at dr assms(2) b by (simp add: full_def is_installed_def is_rest_def Let_def flip: k)
  show "full (is_installed rf a) (take (Suc k) Y)"
    if "\<not> (k < length X \<and> Term (X ! k) = isa_LastIncludedTerm a)" "k < length Y"
      "Term (Y ! k) = isa_LastIncludedTerm a"
    using that in_log at assms(2) b by (auto simp: full_def is_installed_def is_rest_def Let_def simp flip: k)
qed

lemma full_append:
  assumes "full rf X" and "log rf' = log rf @ [e]" and "lastIncludedIndex rf' = lastIncludedIndex rf"
  shows "full rf' (X @ [e])"
  using assms by (simp add: full_def nth_append)

lemma full_Snapshot:
  assumes "full rf X" and "wf_raft rf" and "commit_ok rf" and "Snapshot rf index d = Some rf'"
  shows "full rf' X"
proof (cases "commitIndex rf < index \<or> lastIncludedIndex rf \<ge> index")
  case True
  then show ?thesis using assms by (simp add: Snapshot_def)
next
  case False
  let ?b = "nat (lastIncludedIndex rf)" and ?d = "nat (index - lastIncludedIndex rf)"
  have d: "?d = Suc (nat index - Suc ?b)" "Suc ?b \<le> nat index" "0 \<le> index" "nat index < length X"
    using False assms(1,3) full_length(1) [OF assms(1)] by (auto simp: full_def commit_ok_def)
  have lg: "log rf = \<lparr>Command = None, Term = Term (X ! ?b)\<rparr> # drop (Suc ?b) X"
    using assms(1) by (simp add: full_def)
  have "log rf ! ?d = X ! nat index" "drop (Suc ?d) (log rf) = drop (Suc (nat index)) X"
    using d unfolding lg by simp_all
  then show ?thesis
    using Snapshot_eq [OF assms(2,3) refl, of index d] assms(4) False d by (simp add: full_def)
qed

text \<open>What a leader sends, in terms of its complete log.\<close>

definition entries_of :: "'c Logt list \<Rightarrow> 'c AppendEntriesArgs \<Rightarrow> bool" where
  "entries_of X a \<longleftrightarrow> 0 \<le> aea_PrevLogIndex a \<and>
     nat (aea_PrevLogIndex a) + length (aea_Entries a) < length X \<and>
     aea_PrevLogTerm a = Term (X ! nat (aea_PrevLogIndex a)) \<and>
     aea_Entries a = take (length (aea_Entries a)) (drop (Suc (nat (aea_PrevLogIndex a))) X) \<and>
     aea_LeaderCommit a \<le> aea_PrevLogIndex a + int (length (aea_Entries a))"

definition snapshot_of :: "'c Logt list \<Rightarrow> 'b InstallSnapshotArgs \<Rightarrow> bool" where
  "snapshot_of X a \<longleftrightarrow> 0 \<le> isa_LastIncludedIndex a \<and> nat (isa_LastIncludedIndex a) < length X \<and>
     isa_LastIncludedTerm a = Term (X ! nat (isa_LastIncludedIndex a))"

lemma entries_of_prefix:
  assumes "entries_of X a" and "prefix X Y"
  shows "entries_of Y a"
proof -
  let ?p = "nat (aea_PrevLogIndex a)" and ?m = "length (aea_Entries a)"
  have le: "Suc (?p + ?m) \<le> length X" using assms(1) by (simp add: entries_of_def)
  have "take ?m (drop (Suc ?p) Z) = drop (Suc ?p) (take (Suc (?p + ?m)) Z)" for Z :: "'a Logt list"
    by (simp add: drop_take)
  then have "take ?m (drop (Suc ?p) X) = take ?m (drop (Suc ?p) Y)"
    using take_prefix [OF assms(2) le] by simp
  then show ?thesis
    using assms(1) prefix_length_le [OF assms(2)] prefix_nth [OF assms(2), of ?p] le
    unfolding entries_of_def by simp
qed

lemma snapshot_of_prefix: "snapshot_of X a \<Longrightarrow> prefix X Y \<Longrightarrow> snapshot_of Y a"
  using prefix_nth [of X Y "nat (isa_LastIncludedIndex a)"] by (simp add: snapshot_of_def)

fun sent_by :: "('c, 'b) Raft \<Rightarrow> 'c Logt list \<Rightarrow> ('c, 'b) rpc \<Rightarrow> bool" where
  "sent_by rf X (AppendEntriesRPC a) = (aea_Term a = currentTerm rf \<and> entries_of X a \<and>
     aea_LeaderCommit a = commitIndex rf)"
| "sent_by rf X (InstallSnapshotRPC b) = (isa_Term b = currentTerm rf \<and> snapshot_of X b \<and>
     isa_LastIncludedIndex b = lastIncludedIndex rf)"
| "sent_by rf X (RequestVoteRPC r) = False"

lemma broadcastMsg_sent:
  assumes "full rf X" and "commit_ok rf" and "nxt \<le> realLogLen rf"
  shows "sent_by rf X (broadcastMsg rf nxt)"
proof (cases "nxt \<le> lastIncludedIndex rf")
  case True
  then show ?thesis using assms(1) by (simp add: broadcastMsg_def snapshot_of_def full_def)
next
  case False
  let ?b = "nat (lastIncludedIndex rf)" and ?p = "nat (nxt - 1)"
  have p: "lastIncludedIndex rf \<le> nxt - 1" "nxt - 1 \<le> lastLogIndex rf" "nat nxt = Suc ?p"
    "?p < length X" "0 < nxt" "lastLogIndex rf = int (length X) - 1"
    using False assms(1,3) full_length [OF assms(1)] by (auto simp: full_def)
  have "nat (logIndex rf nxt) = Suc (?p - ?b)" "?b \<le> ?p"
    using False assms(1) p by (auto simp: full_def logIndex_def)
  then have es: "drop (nat (logIndex rf nxt)) (log rf) = drop (Suc ?p) X"
    using assms(1) by (simp add: full_def)
  then show ?thesis
    using False full_term [OF assms(1) p(1,2)] p assms(2)
    by (simp add: broadcastMsg_def entries_of_def commit_ok_def)
qed

lemma broadcastTo_sent:
  assumes "full rf X" and "commit_ok rf" and "wf_raft rf" and "p < peers rf" and "broadcastTo rf p = Some m"
  shows "sent_by rf X m"
proof -
  have n: "idx (nextIndex rf) (int p) = Some (nextIndex rf ! p)" using assms(3,4) by (simp add: wf_raft_def)
  have "nextIndex rf ! p \<le> realLogLen rf"
  proof (rule ccontr)
    assume big: "\<not> nextIndex rf ! p \<le> realLogLen rf"
    have "log rf \<noteq> []" using assms(3) by simp
    then have "0 < int (length (log rf))" by simp
    then have "nextIndex rf ! p - 1 \<noteq> lastIncludedIndex rf" "\<not> nextIndex rf ! p \<le> lastIncludedIndex rf"
      "\<not> nextIndex rf ! p - 1 < lastIncludedIndex rf + int (length (log rf))"
      using big unfolding realLogLen_def by linarith+
    then have "broadcastTo rf p = None"
      using n by (auto simp: broadcastTo_def realLogLen_def Let_def)
    then show False using assms(5) by simp
  qed
  then show ?thesis
    using broadcastTo_eq [OF assms(3,4)] assms(5) broadcastMsg_sent [OF assms(1,2)] by simp
qed

lemma heartbeatBroadcast_sent:
  assumes "full rf X" and "commit_ok rf" and "wf_raft rf" and "heartbeatBroadcast rf = Some outs"
    and "(p, m) \<in> set outs"
  shows "sent_by rf X m"
proof -
  let ?P = "\<lambda>outs. \<forall>(p, m) \<in> set outs. sent_by rf X m"
  have "?P outs"
    using assms(4) broadcastTo_sent [OF assms(1-3)] unfolding heartbeatBroadcast_def
    by (elim for_loop_inv [where P = ?P]) (fastforce simp: bind_convs split: if_splits)+
  with assms(5) show ?thesis by auto
qed

end
