(* ===== verification/Raft_Complete.thy ===== *)
theory Raft_Complete
  imports Raft_Logs Systems
begin

section \<open>Leader completeness as a fact about histories\<close>

text \<open>
  What has happened so far, as far as the argument needs it: the leaders' logs \<open>H\<close>, the votes \<open>V\<close> (voter,
  term, candidate), the log that the candidate had (\<open>CL\<close>) and the one that the voter had (\<open>VL\<close>), and
  the acknowledgements \<open>A\<close> (peer, term, index).  If a majority has acknowledged an entry of its leader's
  term, then every later leader has the entry.  This theory does not know the cluster.
\<close>

definition upToDate :: "'c Logt list \<Rightarrow> 'c Logt list \<Rightarrow> bool" where
  "upToDate X Y \<longleftrightarrow> Term (last X) > Term (last Y) \<or> (Term (last X) = Term (last Y) \<and> length X \<ge> length Y)"

text \<open>The log \<open>X\<close> of a peer still has the entry, or a leader of a term up to \<open>T\<close> had lost it.\<close>

definition keeps :: "(int \<Rightarrow> 'c Logt list) \<Rightarrow> 'c Logt list \<Rightarrow> int \<Rightarrow> nat \<Rightarrow> int \<Rightarrow> bool" where
  "keeps H X t k T \<longleftrightarrow> has X t k \<or> (\<exists>u. t < u \<and> u \<le> T \<and> H u \<noteq> [] \<and> \<not> has (H u) t k)"

lemma keeps_mono:
  assumes "keeps H X t k T" and "grows H H'" and "T \<le> T'"
  shows "keeps H' X t k T'"
proof -
  consider "has X t k" | u where "t < u" "u \<le> T" "H u \<noteq> []" "\<not> has (H u) t k"
    using assms(1) by (auto simp: keeps_def)
  then show ?thesis
  proof cases
    case (2 u)
    then have "H' u \<noteq> []" "\<not> has (H' u) t k"
      using growsD(2) [OF assms(2), of u] growsD(5) [OF assms(2), of u t k] by auto
    then show ?thesis using 2 assms(3) by (auto simp: keeps_def)
  qed (simp add: keeps_def)
qed

definition votes_ok ::
  "(int \<Rightarrow> 'c Logt list) \<Rightarrow> (nat \<times> int \<times> nat) set \<Rightarrow> (nat \<Rightarrow> int \<Rightarrow> 'c Logt list) \<Rightarrow> (nat \<Rightarrow> int \<Rightarrow> 'c Logt list) \<Rightarrow>
   (nat \<times> int \<times> nat) set \<Rightarrow> bool" where
  "votes_ok H V CL VL A \<longleftrightarrow> (\<forall>j u i. (j, u, i) \<in> V \<longrightarrow> branch H (VL j u) \<and> branch H (CL i u) \<and>
     upToDate (CL i u) (VL j u) \<and> Term (last (CL i u)) < u \<and>
     (\<forall>t k. (j, t, k) \<in> A \<longrightarrow> t < u \<longrightarrow> keeps H (VL j u) t k (u - 1)))"

definition elections_ok ::
  "nat \<Rightarrow> (int \<Rightarrow> 'c Logt list) \<Rightarrow> (nat \<times> int \<times> nat) set \<Rightarrow> (nat \<Rightarrow> int \<Rightarrow> 'c Logt list) \<Rightarrow> bool" where
  "elections_ok n H V CL \<longleftrightarrow> (\<forall>u. H u \<noteq> [] \<longrightarrow> u \<noteq> 0 \<longrightarrow>
     0 < u \<and> (\<exists>i Q. majority n Q \<and> (\<forall>j\<in>Q. (j, u, i) \<in> V) \<and> prefix (CL i u) (H u)))"

definition replicated :: "nat \<Rightarrow> (nat \<times> int \<times> nat) set \<Rightarrow> int \<Rightarrow> nat \<Rightarrow> bool" where
  "replicated n A t k \<longleftrightarrow> (\<exists>Q. majority n Q \<and> (\<forall>j\<in>Q. (j, t, k) \<in> A))"

lemma replicated_mono: "replicated n A t k \<Longrightarrow> A \<subseteq> A' \<Longrightarrow> replicated n A' t k"
  unfolding replicated_def by blast

text \<open>A log that is at least as up to date as one with the entry has it too, if the leaders in between have it.\<close>

lemma upToDate_has:
  assumes "tree H" and "branch H X" and "branch H Y" and "upToDate X Y" and "has Y t k"
    and "Term (last X) > t \<Longrightarrow> has (H (Term (last X))) t k"
  shows "has X t k"
proof -
  have X: "X \<noteq> []" "prefix X (H (Term (last X)))" and Y: "Y \<noteq> []" "prefix Y (H (Term (last Y)))"
    using assms(2,3) by (simp_all add: branch_def)
  have "map Term Y ! k \<le> map Term Y ! (length Y - 1)"
    using branch_sorted [OF assms(1,3)] assms(5) by (intro sorted_nth_mono) (auto simp: has_def)
  then have le: "t \<le> Term (last Y)" using assms(5) Y(1) by (simp add: has_def last_conv_nth)
  show ?thesis
  proof (cases "Term (last X) = Term (last Y)")
    case True
    then have "length Y \<le> length X" using assms(4) by (simp add: upToDate_def)
    then have "prefix Y X" using X(2) Y(2) True by (auto intro: prefix_length_prefix)
    then show ?thesis using assms(5) by (rule has_prefix)
  next
    case False
    then have gt: "t < Term (last X)" using assms(4) le by (auto simp: upToDate_def)
    let ?H = "H (Term (last X))"
    have h: "has ?H t k" using assms(6) [OF gt] .
    have "k < length X"
    proof (rule ccontr)
      assume "\<not> k < length X"
      then have "map Term ?H ! (length X - 1) \<le> map Term ?H ! k"
        using treeD(4) [OF assms(1)] h by (intro sorted_nth_mono) (auto simp: has_def)
      moreover have "?H ! (length X - 1) = last X" "length X - 1 < length ?H"
        using prefix_nth [OF X(2), of "length X - 1"] X(1) by (simp_all add: last_conv_nth)
      ultimately show False using h gt by (simp add: has_def)
    qed
    then show ?thesis using h prefix_nth [OF X(2), of k] by (simp add: has_def)
  qed
qed

lemma complete:
  assumes "tree H" and "votes_ok H V CL VL A" and "elections_ok n H V CL" and "replicated n A t k"
    and "0 \<le> t" and "t < u" and "H u \<noteq> []"
  shows "has (H u) t k"
  using assms(6,7)
proof (induction "nat (u - t)" arbitrary: u rule: less_induct)
  case less
  have IH: "has (H w) t k" if "t < w" "w < u" "H w \<noteq> []" for w
    using less(1) [of w] that by simp
  obtain Q where Q: "majority n Q" "\<And>j. j \<in> Q \<Longrightarrow> (j, t, k) \<in> A" using assms(4) by (auto simp: replicated_def)
  obtain i P where P: "majority n P" "\<And>j. j \<in> P \<Longrightarrow> (j, u, i) \<in> V" "prefix (CL i u) (H u)"
    using assms(3) less.prems assms(5) unfolding elections_ok_def by (metis less_trans not_less_iff_gr_or_eq order_le_less)
  obtain j where j: "j \<in> Q" "j \<in> P" using majorities_meet [OF Q(1) P(1)] by blast
  have v: "branch H (VL j u)" "branch H (CL i u)" "upToDate (CL i u) (VL j u)" "Term (last (CL i u)) < u"
    "keeps H (VL j u) t k (u - 1)"
    using assms(2) P(2) [OF j(2)] Q(2) [OF j(1)] less.prems(1) unfolding votes_ok_def by blast+
  have "has (VL j u) t k" using v(5) IH by (fastforce simp: keeps_def)
  then have "has (CL i u) t k"
  proof (rule upToDate_has [OF assms(1) v(2,1,3)])
    assume "t < Term (last (CL i u))"
    moreover have "H (Term (last (CL i u))) \<noteq> []" using v(2) by (auto simp: branch_def)
    ultimately show "has (H (Term (last (CL i u)))) t k" using IH v(4) by blast
  qed
  then show ?case using has_prefix [OF P(3)] by blast
qed

subsection \<open>Committed prefixes\<close>

text \<open>The entries of \<open>X\<close> up to index \<open>c\<close> are committed by a leader of a term up to \<open>T\<close>.\<close>

definition safe ::
  "nat \<Rightarrow> (int \<Rightarrow> 'c Logt list) \<Rightarrow> (nat \<times> int \<times> nat) set \<Rightarrow> 'c Logt list \<Rightarrow> nat \<Rightarrow> int \<Rightarrow> bool" where
  "safe n H A X c T \<longleftrightarrow> c < length X \<and> (c = 0 \<or> (\<exists>t k. 0 < t \<and> t \<le> T \<and> replicated n A t k \<and> has (H t) t k \<and>
     c \<le> k \<and> take (Suc c) X = take (Suc c) (H t)))"

lemma safe_mono:
  assumes "safe n H A X c T" and "grows H H'" and "A \<subseteq> A'" and "T \<le> T'"
  shows "safe n H' A' X c T'"
proof -
  have c: "c < length X" using assms(1) by (simp add: safe_def)
  show ?thesis
  proof (cases "c = 0")
    case False
    then obtain t k where t: "0 < t" "t \<le> T" "replicated n A t k" "has (H t) t k" "c \<le> k"
      "take (Suc c) X = take (Suc c) (H t)" using assms(1) by (auto simp: safe_def)
    have "take (Suc c) (H t) = take (Suc c) (H' t)"
      using take_prefix [OF growsD(2) [OF assms(2)], of "Suc c" t] t(4,5) by (simp add: has_def)
    then show ?thesis unfolding safe_def
      using c t growsD(4) [OF assms(2) t(4)] replicated_mono [OF t(3) assms(3)] assms(4) by auto
  qed (use c in \<open>simp add: safe_def\<close>)
qed

lemma safe_less:
  assumes "safe n H A X c T" and "c' \<le> c"
  shows "safe n H A X c' T"
proof (cases "c' = 0")
  case True
  then show ?thesis using assms by (auto simp: safe_def)
next
  case False
  then obtain t k where t: "0 < t" "t \<le> T" "replicated n A t k" "has (H t) t k" "c \<le> k"
    "take (Suc c) X = take (Suc c) (H t)" using assms by (auto simp: safe_def)
  moreover have "c' < length X" using assms by (simp add: safe_def)
  moreover have "take (Suc c') X = take (Suc c') (H t)" by (rule take_less [OF t(6) assms(2)])
  ultimately show ?thesis using assms(2) order_trans [OF assms(2) t(5)] unfolding safe_def by blast
qed

lemma safe_take:
  assumes "safe n H A X c T" and "take (Suc c) X = take (Suc c) Y"
  shows "safe n H A Y c T"
proof -
  have "c < length X" using assms(1) by (simp add: safe_def)
  then have "c < length Y" using arg_cong [OF assms(2), of length] by (auto simp: min_def split: if_splits)
  then show ?thesis using assms by (simp add: safe_def)
qed

text \<open>Later leaders have every committed prefix, and committed prefixes agree.\<close>

lemma safe_leader:
  assumes "tree H" and "votes_ok H V CL VL A" and "elections_ok n H V CL"
    and "safe n H A X c T" and "branch H X" and "T \<le> u" and "H u \<noteq> []" and "0 < c"
  shows "take (Suc c) X = take (Suc c) (H u)"
proof -
  obtain t k where t: "0 < t" "t \<le> T" "replicated n A t k" "has (H t) t k" "c \<le> k"
    "take (Suc c) X = take (Suc c) (H t)" using assms(4,8) by (auto simp: safe_def)
  show ?thesis
  proof (cases "u = t")
    case False
    then have "has (H u) t k" using t assms(6,7) by (intro complete [OF assms(1-3) t(3)]) simp_all
    then have "take (Suc k) (H u) = take (Suc k) (H t)"
      by (rule has_take(1) [OF assms(1) branch_H [OF assms(1,7)]])
    then show ?thesis using t(5,6) take_less [of k "H u" "H t" c] by simp
  qed (use t in simp)
qed

lemma safe_agree:
  assumes "tree H" and "votes_ok H V CL VL A" and "elections_ok n H V CL"
    and "safe n H A X c T" and "safe n H A Y d S" and "0 < i" and "i \<le> c" and "i \<le> d"
  shows "X ! i = Y ! i"
proof -
  obtain t k where t: "0 < t" "replicated n A t k" "has (H t) t k" "c \<le> k"
    "take (Suc c) X = take (Suc c) (H t)" using assms(4,6,7) by (auto simp: safe_def)
  obtain u l where u: "0 < u" "replicated n A u l" "has (H u) u l" "d \<le> l"
    "take (Suc d) Y = take (Suc d) (H u)" using assms(5,6,8) by (auto simp: safe_def)
  have same: "H t ! i = H u ! i"
  proof -
    have ne: "H t \<noteq> []" "H u \<noteq> []" using t(3) u(3) by (auto simp: has_def)
    have b: "branch H (H t)" "branch H (H u)" using branch_H [OF assms(1)] ne by blast+
    have tk: "take (Suc k) (H t) = take (Suc k) (H u)" if "t < u"
      using has_same [OF assms(1) b t(3)] complete [OF assms(1-3) t(2) _ that ne(2)] t(1) by simp
    have ul: "take (Suc l) (H u) = take (Suc l) (H t)" if "u < t"
      using has_same [OF assms(1) b(2,1) u(3)] complete [OF assms(1-3) u(2) _ that ne(1)] u(1) by simp
    show ?thesis
    proof (cases t u rule: linorder_cases)
      case less
      from arg_cong [OF tk [OF this], of "\<lambda>l. l ! i"] show ?thesis using assms(7) t(4) by simp
    next
      case greater
      from arg_cong [OF ul [OF this], of "\<lambda>l. l ! i"] show ?thesis using assms(8) u(4) by simp
    qed simp
  qed
  have "X ! i = H t ! i" "Y ! i = H u ! i"
    using arg_cong [OF t(5), of "\<lambda>l. l ! i"] arg_cong [OF u(5), of "\<lambda>l. l ! i"] assms(7,8) by simp_all
  with same show ?thesis by simp
qed

subsection \<open>Taking over a leader's log\<close>

text \<open>
  A follower that takes the first \<open>m\<close> entries of the leader's log keeps its own log if it contains them, and
  otherwise has just them.  It loses neither a committed entry nor, unless the leader has lost it, an entry
  that it has acknowledged.
\<close>

definition absorb :: "'c Logt list \<Rightarrow> 'c Logt list \<Rightarrow> nat \<Rightarrow> 'c Logt list" where
  "absorb X Y m = (if take m X = take m Y then X else take m Y)"

lemma absorb_take: "m \<le> length Y \<Longrightarrow> take m (absorb X Y m) = take m Y"
  by (simp add: absorb_def)

lemma absorb_same:
  assumes "take (Suc c) X = take (Suc c) Y" and "c < length X"
  shows "take (Suc c) (absorb X Y m) = take (Suc c) X"
proof (cases "take m X = take m Y")
  case False
  have "Suc c \<le> m"
  proof (rule ccontr)
    assume "\<not> Suc c \<le> m"
    then have "take m X = take m Y" using arg_cong [OF assms(1), of "take m"] by (simp add: min_def)
    then show False using False by simp
  qed
  then show ?thesis using False assms(1) by (simp add: absorb_def min_def)
qed (simp add: absorb_def)

lemma absorb_branch:
  assumes "tree H" and "branch H X" and "0 < m" and "m \<le> length (H t)"
  shows "branch H (absorb X (H t) m)"
  using assms branch_prefix_H [OF assms(1), of "m - 1" t] by (simp add: absorb_def)

lemma absorb_last:
  assumes "tree H" and "Term (last X) \<le> t" and "0 < m" and "m \<le> length (H t)"
  shows "Term (last (absorb X (H t) m)) \<le> t"
proof -
  have "take m (H t) \<noteq> []" using assms(3,4) by auto
  then have "last (take m (H t)) = H t ! (m - 1)" using assms(3,4) by (simp add: last_conv_nth)
  moreover have "Term (H t ! (m - 1)) \<le> t" using treeD(3) [OF assms(1), of "m - 1" t] assms(3,4) by simp
  ultimately show ?thesis using assms(2) by (simp add: absorb_def)
qed

lemma absorb_safe:
  assumes "tree H" and "votes_ok H V CL VL A" and "elections_ok n H V CL"
    and "safe n H A X c T" and "branch H X" and "T \<le> t" and "0 < m" and "m \<le> length (H t)"
  shows "safe n H A (absorb X (H t) m) c T"
proof (cases "c = 0")
  case True
  have "absorb X (H t) m \<noteq> []"
    using absorb_branch [OF assms(1,5,7,8)] by (simp add: branch_def)
  then show ?thesis using True by (simp add: safe_def)
next
  case False
  have "H t \<noteq> []" using assms(7,8) by auto
  then have "take (Suc c) X = take (Suc c) (H t)"
    using safe_leader [OF assms(1-6)] False by simp
  moreover have "c < length X" using assms(4) by (simp add: safe_def)
  ultimately show ?thesis using safe_take [OF assms(4)] absorb_same [of c X "H t" m] by simp
qed

lemma absorb_keeps:
  assumes "tree H" and "branch H X" and "keeps H X u k T" and "T \<le> t" and "u \<le> T"
    and "u = t \<Longrightarrow> has (H t) t k" and "H t \<noteq> []"
  shows "keeps H (absorb X (H t) m) u k t"
proof -
  consider (lost) w where "u < w" "w \<le> t" "H w \<noteq> []" "\<not> has (H w) u k"
    | (both) "has X u k" "has (H t) u k"
    using assms(3-7) unfolding keeps_def by (metis order_trans order_le_less order_refl)
  then show ?thesis
  proof cases
    case both
    have "take (Suc k) X = take (Suc k) (H t)"
      using has_same [OF assms(1,2) branch_H [OF assms(1,7)] both] .
    then have "take (Suc k) (absorb X (H t) m) = take (Suc k) X"
      by (rule absorb_same) (use both(1) in \<open>simp add: has_def\<close>)
    then have "has (absorb X (H t) m) u k" using take_has [OF sym both(1)] by blast
    then show ?thesis by (simp add: keeps_def)
  qed (auto simp: keeps_def)
qed

end
