(* ===== verification/Raft_History.thy ===== *)
theory Raft_History
  imports Raft_Election Raft_Full Raft_Complete
begin

section \<open>The history of a cluster\<close>

text \<open>
  What the safety argument has to remember of an execution, and what it knows of a state in terms of it.
  The history holds the leaders' logs, the complete logs of the peers, the elections won, the votes, those
  of them that were given before the term had a leader, the logs of the candidate and of the voter at the
  time of a vote, and the entries that the peers have acknowledged.
\<close>

record 'c history =
  lead_log :: "int \<Rightarrow> 'c Logt list"
  whole :: "nat \<Rightarrow> 'c Logt list"
  won :: "(int \<times> nat) set"
  votes :: "(nat \<times> int \<times> nat) set"
  timely :: "(nat \<times> int \<times> nat) set"
  cand_log :: "nat \<Rightarrow> int \<Rightarrow> 'c Logt list"
  voter_log :: "nat \<Rightarrow> int \<Rightarrow> 'c Logt list"
  acks :: "(nat \<times> int \<times> nat) set"

abbreviation hsafe :: "nat \<Rightarrow> 'c history \<Rightarrow> 'c Logt list \<Rightarrow> nat \<Rightarrow> int \<Rightarrow> bool" where
  "hsafe n h \<equiv> safe n (lead_log h) (acks h)"

subsection \<open>The invariant\<close>

definition hist_ok :: "nat \<Rightarrow> 'c history \<Rightarrow> bool" where
  "hist_ok n h \<longleftrightarrow> tree (lead_log h) \<and>
     votes_ok (lead_log h) (timely h) (cand_log h) (voter_log h) (acks h) \<and>
     elections_ok n (lead_log h) (timely h) (cand_log h) \<and>
     (\<forall>t i. (t, i) \<in> won h \<longrightarrow> 0 < t \<and> lead_log h t \<noteq> []) \<and>
     (\<forall>t. lead_log h t \<noteq> [] \<longrightarrow> t \<noteq> 0 \<longrightarrow> (\<exists>i. (t, i) \<in> won h)) \<and>
     timely h \<subseteq> votes h \<and>
     (\<forall>j u i. (j, u, i) \<in> votes h \<longrightarrow> lead_log h u = [] \<longrightarrow> (j, u, i) \<in> timely h)"

lemma hist_okD:
  assumes "hist_ok n h"
  shows "tree (lead_log h)"
    and "votes_ok (lead_log h) (timely h) (cand_log h) (voter_log h) (acks h)"
    and "elections_ok n (lead_log h) (timely h) (cand_log h)"
    and "(t, i) \<in> won h \<Longrightarrow> 0 < t \<and> lead_log h t \<noteq> []"
    and "lead_log h t \<noteq> [] \<Longrightarrow> t \<noteq> 0 \<Longrightarrow> \<exists>i. (t, i) \<in> won h"
    and "timely h \<subseteq> votes h"
    and "(j, u, i) \<in> votes h \<Longrightarrow> lead_log h u = [] \<Longrightarrow> (j, u, i) \<in> timely h"
  using assms unfolding hist_ok_def by (elim conjE; metis)+

text \<open>The log of peer \<open>i\<close>, and its role.\<close>

definition acks_ok :: "'c history \<Rightarrow> nat \<Rightarrow> int \<Rightarrow> bool" where
  "acks_ok h i T \<longleftrightarrow> (\<forall>t k. (i, t, k) \<in> acks h \<longrightarrow>
     0 < t \<and> t \<le> T \<and> has (lead_log h t) t k \<and> keeps (lead_log h) (whole h i) t k T)"

definition log_ok :: "nat \<Rightarrow> 'c history \<Rightarrow> nat \<Rightarrow> ('c, 'b) Raft \<Rightarrow> bool" where
  "log_ok n h i rf \<longleftrightarrow> full rf (whole h i) \<and> branch (lead_log h) (whole h i) \<and>
     Term (last (whole h i)) \<le> pterm rf \<and>
     hsafe n h (whole h i) (nat (commitIndex rf)) (currentTerm rf) \<and>
     hsafe n h (whole h i) (nat (lastIncludedIndex rf)) (pterm rf) \<and> acks_ok h i (pterm rf) \<and>
     (\<forall>j u. (j, u, i) \<in> votes h \<longrightarrow> u \<le> pterm rf)"

definition matched :: "nat \<Rightarrow> 'c history \<Rightarrow> ('c, 'b) Raft \<Rightarrow> bool" where
  "matched n h rf \<longleftrightarrow>
     (\<forall>p < n. matchIndex rf ! p < int (length (lead_log h (currentTerm rf))) \<and>
        nextIndex rf ! p \<le> int (length (lead_log h (currentTerm rf)))) \<and> (\<forall>p k. p < n \<longrightarrow> commitIndex rf < int k \<longrightarrow> int k \<le> matchIndex rf ! p \<longrightarrow>
     has (lead_log h (currentTerm rf)) (currentTerm rf) k \<longrightarrow> (p, currentTerm rf, k) \<in> acks h)"

definition role_ok :: "nat \<Rightarrow> 'c history \<Rightarrow> nat \<Rightarrow> ('c, 'b) Raft \<Rightarrow> bool" where
  "role_ok n h i rf \<longleftrightarrow> (role rf \<noteq> Follower \<longrightarrow> pterm rf = currentTerm rf) \<and>
     (role rf = Leader \<longrightarrow> (currentTerm rf, i) \<in> won h \<and> lead_log h (currentTerm rf) = whole h i \<and>
        matched n h rf \<and> (\<forall>k. has (whole h i) (currentTerm rf) k \<longrightarrow> (i, currentTerm rf, k) \<in> acks h)) \<and>
     (role rf = Candidate \<longrightarrow> (currentTerm rf, i) \<notin> won h \<and> whole h i = cand_log h i (currentTerm rf) \<and>
        Term (last (whole h i)) < currentTerm rf)"

text \<open>The arguments of a call, and the packets.\<close>

definition append_ok :: "nat \<Rightarrow> 'c history \<Rightarrow> 'c AppendEntriesArgs \<Rightarrow> bool" where
  "append_ok n h a \<longleftrightarrow> 0 < aea_Term a \<and> entries_of (lead_log h (aea_Term a)) a \<and>
     hsafe n h (lead_log h (aea_Term a)) (nat (aea_LeaderCommit a)) (aea_Term a)"

definition install_ok :: "nat \<Rightarrow> 'c history \<Rightarrow> 'b InstallSnapshotArgs \<Rightarrow> bool" where
  "install_ok n h a \<longleftrightarrow> 0 < isa_Term a \<and> snapshot_of (lead_log h (isa_Term a)) a \<and>
     hsafe n h (lead_log h (isa_Term a)) (nat (isa_LastIncludedIndex a)) (isa_Term a)"

definition behind :: "'c history \<Rightarrow> (nat \<Rightarrow> ('c, 'b) Raft) \<Rightarrow> nat \<Rightarrow> 'b InstallSnapshotArgs \<Rightarrow> bool" where
  "behind h nd i a \<longleftrightarrow> (isa_Term a, i) \<in> won h \<and>
     (role (nd i) = Leader \<longrightarrow> currentTerm (nd i) = isa_Term a \<longrightarrow> isa_LastIncludedIndex a \<le> commitIndex (nd i))"

definition request_ok :: "'c history \<Rightarrow> (nat \<Rightarrow> ('c, 'b) Raft) \<Rightarrow> RequestVoteArgs \<Rightarrow> bool" where
  "request_ok h nd a \<longleftrightarrow> (let i = nat (rva_CandidateId a); X = cand_log h i (rva_Term a) in
     branch (lead_log h) X \<and> rva_LastLogIndex a = int (length X) - 1 \<and> rva_LastLogTerm a = Term (last X) \<and>
     Term (last X) < rva_Term a \<and> rva_Term a \<le> pterm (nd i))"

fun sent_ok :: "nat \<Rightarrow> 'c history \<Rightarrow> (nat \<Rightarrow> ('c, 'b) Raft) \<Rightarrow> ('c, 'b) packet \<Rightarrow> bool" where
  "sent_ok n h nd (Request c j (RequestVoteRPC a)) = request_ok h nd a"
| "sent_ok n h nd (Request c j (AppendEntriesRPC a)) = append_ok n h a"
| "sent_ok n h nd (Request c j (InstallSnapshotRPC a)) =
     (install_ok n h a \<and> (\<forall>i. c = Some i \<longrightarrow> behind h nd i a))"
| "sent_ok n h nd (VoteReply i j a r) = True"
| "sent_ok n h nd (AppendReply i j a ar) = (entries_of (lead_log h (aea_Term a)) a \<and>
     aer_XIndex ar \<le> int (length (lead_log h (aea_Term a))) \<and>
     (aer_XTerm ar = -1 \<longrightarrow> aer_XIndex ar = -1 \<longrightarrow> aer_XLen ar \<le> int (length (lead_log h (aea_Term a)))) \<and>
     (aer_Success ar \<longrightarrow> (\<forall>k \<le> nat (aea_PrevLogIndex a) + length (aea_Entries a).
        has (lead_log h (aea_Term a)) (aea_Term a) k \<longrightarrow> (j, aea_Term a, k) \<in> acks h)))"
| "sent_ok n h nd (InstallReply i j a ir) = behind h nd i a"

text \<open>
  \<open>P\<close> holds logs that peers have had, each with a commit index that it had then and a term: it is carried
  along, so that the theorems compare peers at different moments.
\<close>

definition log_inv ::
  "nat \<Rightarrow> ('c Logt list \<times> nat \<times> int) set \<Rightarrow> 'c history \<Rightarrow> (nat \<Rightarrow> int \<Rightarrow> nat set) \<Rightarrow> ('c, 'b) cluster \<Rightarrow> bool" where
  "log_inv n P h C s \<longleftrightarrow> election_inv n (won h) (votes h) C s \<and> hist_ok n h \<and>
     (\<forall>i < n. log_ok n h i (nodes s i) \<and> role_ok n h i (nodes s i)) \<and>
     (\<forall>p \<in># net s. sent_ok n h (nodes s) p) \<and>
     (\<forall>(X, c, T) \<in> P. branch (lead_log h) X \<and> hsafe n h X c T)"

lemma log_invD:
  assumes "log_inv n P h C s"
  shows "election_inv n (won h) (votes h) C s" and "hist_ok n h"
    and "i < n \<Longrightarrow> log_ok n h i (nodes s i)" and "i < n \<Longrightarrow> role_ok n h i (nodes s i)"
    and "p \<in># net s \<Longrightarrow> sent_ok n h (nodes s) p"
    and "(X, c, T) \<in> P \<Longrightarrow> branch (lead_log h) X \<and> hsafe n h X c T"
  using assms by (auto simp: log_inv_def)

lemma log_okD:
  assumes "log_ok n h i rf"
  shows "full rf (whole h i)" and "branch (lead_log h) (whole h i)" and "Term (last (whole h i)) \<le> pterm rf"
    and "hsafe n h (whole h i) (nat (commitIndex rf)) (currentTerm rf)"
    and "hsafe n h (whole h i) (nat (lastIncludedIndex rf)) (pterm rf)" and "acks_ok h i (pterm rf)"
    and "(j, u, i) \<in> votes h \<Longrightarrow> u \<le> pterm rf"
  using assms unfolding log_ok_def by blast+

lemma log_ok_commit:
  assumes "log_ok n h i rf"
  shows "commit_ok rf"
proof -
  have "nat (commitIndex rf) < length (whole h i)" using log_okD(4) [OF assms] by (simp add: safe_def)
  then show ?thesis using full_length(1) [OF log_okD(1) [OF assms]] by (simp add: commit_ok_def)
qed

lemma role_okD:
  assumes "role_ok n h i rf"
  shows "role rf \<noteq> Follower \<Longrightarrow> pterm rf = currentTerm rf"
    and "role rf = Leader \<Longrightarrow> (currentTerm rf, i) \<in> won h"
    and "role rf = Leader \<Longrightarrow> lead_log h (currentTerm rf) = whole h i"
    and "role rf = Leader \<Longrightarrow> matched n h rf"
    and "role rf = Candidate \<Longrightarrow> (currentTerm rf, i) \<notin> won h"
    and "role rf = Candidate \<Longrightarrow> whole h i = cand_log h i (currentTerm rf)"
    and "role rf = Candidate \<Longrightarrow> Term (last (whole h i)) < currentTerm rf"
    and "role rf = Leader \<Longrightarrow> has (whole h i) (currentTerm rf) k \<Longrightarrow> (i, currentTerm rf, k) \<in> acks h"
  using assms unfolding role_ok_def by blast+

lemma leader_term_pos:
  assumes "hist_ok n h" and "lead_log h t \<noteq> []"
  shows "0 \<le> t"
  using hist_okD(3) [OF assms(1)] assms(2) unfolding elections_ok_def by (cases "t = 0") auto

lemma branch_term_pos:
  assumes "hist_ok n h" and "branch (lead_log h) X"
  shows "0 \<le> Term (last X)"
proof (rule leader_term_pos [OF assms(1)])
  show "lead_log h (Term (last X)) \<noteq> []" using assms(2) unfolding branch_def by (metis prefix_Nil)
qed

subsection \<open>Extending a history\<close>

text \<open>A step of peer \<open>i\<close> extends the history: only what concerns \<open>i\<close> changes, and only by growing.\<close>

definition extends :: "nat \<Rightarrow> (nat \<Rightarrow> ('c, 'b) Raft) \<Rightarrow> 'c history \<Rightarrow> 'c history \<Rightarrow> bool" where
  "extends i nd h h' \<longleftrightarrow> grows (lead_log h) (lead_log h') \<and> acks h \<subseteq> acks h' \<and> won h \<subseteq> won h' \<and>
     (\<forall>t. lead_log h' t = lead_log h t \<or> (t, i) \<in> won h') \<and>
     (\<forall>j. j \<noteq> i \<longrightarrow> whole h' j = whole h j) \<and>
     (\<forall>j t k. j \<noteq> i \<longrightarrow> (j, t, k) \<in> acks h' \<longrightarrow> (j, t, k) \<in> acks h) \<and>
     (\<forall>j t. j \<noteq> i \<longrightarrow> (t, j) \<in> won h' \<longrightarrow> (t, j) \<in> won h) \<and>
     (\<forall>j u. u \<le> pterm (nd j) \<longrightarrow> cand_log h' j u = cand_log h j u) \<and>
     (\<forall>k u j. j \<noteq> i \<longrightarrow> (k, u, j) \<in> votes h' \<longrightarrow> (k, u, j) \<in> votes h \<or> u \<le> pterm (nd j))"

lemma extendsD:
  assumes "extends i nd h h'"
  shows "grows (lead_log h) (lead_log h')" and "acks h \<subseteq> acks h'" and "won h \<subseteq> won h'"
    and "lead_log h' t = lead_log h t \<or> (t, i) \<in> won h'"
    and "j \<noteq> i \<Longrightarrow> whole h' j = whole h j"
    and "j \<noteq> i \<Longrightarrow> (j, t, k) \<in> acks h' \<Longrightarrow> (j, t, k) \<in> acks h"
    and "j \<noteq> i \<Longrightarrow> (t, j) \<in> won h' \<Longrightarrow> (t, j) \<in> won h"
    and "u \<le> pterm (nd j) \<Longrightarrow> cand_log h' j u = cand_log h j u"
    and "j \<noteq> i \<Longrightarrow> (l, u, j) \<in> votes h' \<Longrightarrow> (l, u, j) \<in> votes h \<or> u \<le> pterm (nd j)"
  using assms unfolding extends_def by blast+

lemma hsafe_mono:
  assumes "extends i nd h h'" and "hsafe n h X c T" and "T \<le> T'"
  shows "hsafe n h' X c T'"
  using safe_mono [OF assms(2) extendsD(1,2) [OF assms(1)] assms(3)] .

lemma hsafe_lead:
  assumes "extends i nd h h'" and "hsafe n h (lead_log h t) c T"
  shows "hsafe n h' (lead_log h' t) c T"
proof (rule safe_take)
  show "hsafe n h' (lead_log h t) c T" using hsafe_mono [OF assms] by simp
  show "take (Suc c) (lead_log h t) = take (Suc c) (lead_log h' t)"
    using assms(2) take_prefix [OF growsD(2) [OF extendsD(1) [OF assms(1)]], of "Suc c" t]
    by (simp add: safe_def)
qed

lemma append_ok_mono:
  "extends i nd h h' \<Longrightarrow> append_ok n h a \<Longrightarrow> append_ok n h' a"
  using hsafe_lead [of i nd h h'] entries_of_prefix [OF _ growsD(2) [OF extendsD(1)]]
  by (fastforce simp: append_ok_def)

lemma install_ok_mono:
  "extends i nd h h' \<Longrightarrow> install_ok n h a \<Longrightarrow> install_ok n h' a"
  using hsafe_lead [of i nd h h'] snapshot_of_prefix [OF _ growsD(2) [OF extendsD(1)]]
  by (fastforce simp: install_ok_def)

lemma log_ok_grows:
  assumes "log_ok n h j rf" and "grows (lead_log h) (lead_log h')" and "acks h \<subseteq> acks h'"
    and "whole h' j = whole h j" and "\<And>t k. (j, t, k) \<in> acks h' \<Longrightarrow> (j, t, k) \<in> acks h"
    and "\<And>k u. (k, u, j) \<in> votes h' \<Longrightarrow> (k, u, j) \<in> votes h \<or> u \<le> pterm rf"
  shows "log_ok n h' j rf"
proof -
  have "acks_ok h' j (pterm rf)"
    using log_okD(6) [OF assms(1)] assms(5) growsD(4) [OF assms(2)] keeps_mono [OF _ assms(2) order_refl]
    unfolding acks_ok_def assms(4) by metis
  then show ?thesis
    unfolding log_ok_def assms(4)
    using log_okD [OF assms(1)] safe_mono [OF _ assms(2,3) order_refl] assms(6) growsD(3) [OF assms(2)]
    by blast
qed

lemma log_ok_other:
  assumes "extends i nd h h'" and "log_ok n h j (nd j)" and "j \<noteq> i"
  shows "log_ok n h' j (nd j)"
  using log_ok_grows [OF assms(2) extendsD(1,2) [OF assms(1)]] extendsD(5,6,9) [OF assms(1,3)] by blast

lemma role_ok_other:
  assumes "extends i nd h h'" and "role_ok n h j (nd j)" and "j \<noteq> i"
    and uniq: "\<And>t. (t, i) \<in> won h' \<Longrightarrow> (t, j) \<in> won h' \<Longrightarrow> i = j"
  shows "role_ok n h' j (nd j)"
proof -
  let ?t = "currentTerm (nd j)"
  note R = role_okD [OF assms(2)] and E = extendsD [OF assms(1)]
  have lead: "lead_log h' ?t = lead_log h ?t" if "role (nd j) = Leader"
    using E(4) [of ?t] E(3) R(2) [OF that] uniq [of ?t] assms(3) by blast
  have "matched n h' (nd j)" if "role (nd j) = Leader"
    using R(4) [OF that] E(2) unfolding matched_def lead [OF that] by blast
  moreover have "cand_log h' j ?t = cand_log h j ?t" if "role (nd j) = Candidate"
    using E(8) [of ?t j] R(1) that by simp
  ultimately show ?thesis
    using R lead E(2,3) E(5,7) [OF assms(3)] unfolding role_ok_def by auto
qed

subsection \<open>A step of one peer\<close>

text \<open>What the new state of peer \<open>i\<close> must keep for the packets: the term, and the commit index of a leader.\<close>

definition carries_on :: "'c history \<Rightarrow> nat \<Rightarrow> ('c, 'b) Raft \<Rightarrow> ('c, 'b) Raft \<Rightarrow> bool" where
  "carries_on h i rf rf' \<longleftrightarrow> pterm rf \<le> pterm rf' \<and>
     (role rf' = Leader \<longrightarrow> (currentTerm rf', i) \<in> won h \<longrightarrow>
        role rf = Leader \<and> currentTerm rf = currentTerm rf' \<and> commitIndex rf \<le> commitIndex rf')"

lemma behind_mono:
  assumes "extends i nd h h'" and "carries_on h i (nd i) rf'" and "behind h nd j a"
  shows "behind h' (nd(i := rf')) j a"
proof -
  have "(isa_Term a, j) \<in> won h'" using assms(3) extendsD(3) [OF assms(1)] by (auto simp: behind_def)
  moreover have "isa_LastIncludedIndex a \<le> commitIndex rf'"
    if "j = i" "role rf' = Leader" "currentTerm rf' = isa_Term a"
    using assms(2,3) that unfolding carries_on_def behind_def by auto
  ultimately show ?thesis using assms(3) by (auto simp: behind_def)
qed

lemma request_ok_mono:
  assumes "extends i nd h h'" and "carries_on h i (nd i) rf'" and "request_ok h nd a"
  shows "request_ok h' (nd(i := rf')) a"
proof -
  let ?c = "nat (rva_CandidateId a)"
  have le: "rva_Term a \<le> pterm (nd ?c)" using assms(3) by (simp add: request_ok_def Let_def)
  moreover have "pterm (nd ?c) \<le> pterm ((nd(i := rf')) ?c)" using assms(2) by (simp add: carries_on_def)
  ultimately show ?thesis
    using assms(3) extendsD(8) [OF assms(1) le] growsD(3) [OF extendsD(1) [OF assms(1)]]
    unfolding request_ok_def Let_def by auto
qed

lemma append_reply_mono:
  assumes "extends i nd h h'" and "sent_ok n h nd (AppendReply l j a ar)"
  shows "sent_ok n h' nd' (AppendReply l j a ar)"
proof -
  let ?t = "aea_Term a" and ?m = "nat (aea_PrevLogIndex a) + length (aea_Entries a)"
  have e: "entries_of (lead_log h ?t) a" using assms(2) by simp
  have p: "prefix (lead_log h ?t) (lead_log h' ?t)" by (rule growsD(2) [OF extendsD(1) [OF assms(1)]])
  have "has (lead_log h ?t) ?t k" if "has (lead_log h' ?t) ?t k" "k \<le> ?m" for k
    using that e prefix_nth [OF p, of k] by (simp add: has_def entries_of_def)
  then show ?thesis
    using assms(2) entries_of_prefix [OF e p] prefix_length_le [OF p] extendsD(2) [OF assms(1)] by auto
qed

lemma sent_ok_mono:
  assumes "extends i nd h h'" and "carries_on h i (nd i) rf'" and "sent_ok n h nd p"
  shows "sent_ok n h' (nd(i := rf')) p"
proof (cases p)
  case (Request c j m)
  then show ?thesis
    using assms(3) append_ok_mono [OF assms(1)] install_ok_mono [OF assms(1)] behind_mono [OF assms(1,2)]
      request_ok_mono [OF assms(1,2)] by (cases m) auto
next
  case (AppendReply l j a ar)
  then show ?thesis using append_reply_mono [OF assms(1)] assms(3) by blast
next
  case (InstallReply l j a ir)
  then show ?thesis using behind_mono [OF assms(1,2)] assms(3) by simp
qed simp

text \<open>The frame of every step: only the parts that concern peer \<open>i\<close> and the new packets are left to show.\<close>

lemma log_inv_step:
  assumes inv: "log_inv n P h C s" and ext: "extends i (nodes s) h h'"
    and el: "election_inv n (won h') (votes h') C' s'" and hist: "hist_ok n h'"
    and nds: "nodes s' = (nodes s)(i := rf')" and on: "carries_on h i (nodes s i) rf'"
    and log: "log_ok n h' i rf'" and role: "role_ok n h' i rf'"
    and net: "\<And>p. p \<in># net s' \<Longrightarrow> p \<in># net s \<or> sent_ok n h' (nodes s') p"
  shows "log_inv n P h' C' s'"
proof -
  note I = log_invD [OF inv]
  have uniq: "j = k" if "(t, j) \<in> won h'" "(t, k) \<in> won h'" for t j k
    using one_winner [OF el] election_invD(7) [OF el] that by blast
  have "log_ok n h' j (nodes s' j) \<and> role_ok n h' j (nodes s' j)" if "j < n" for j
  proof (cases "j = i")
    case False
    then show ?thesis
      using log_ok_other [OF ext I(3) [OF that] False] role_ok_other [OF ext I(4) [OF that] False uniq]
      by (simp add: nds)
  qed (use log role nds in simp)
  moreover have "sent_ok n h' (nodes s') p" if "p \<in># net s'" for p
    using net [OF that] I(5) sent_ok_mono [OF ext on] nds by auto
  moreover have "branch (lead_log h') X \<and> hsafe n h' X c T" if "(X, c, T) \<in> P" for X c T
    using I(6) [OF that] hsafe_mono [OF ext, of n X c T] growsD(3) [OF extendsD(1) [OF ext]] by blast
  ultimately show ?thesis using el hist unfolding log_inv_def by blast
qed

end
