(* ===== verification/Raft_Log_Steps.thy ===== *)
theory Raft_Log_Steps
  imports Raft_History
begin

section \<open>The steps of the cluster keep the invariant of the logs\<close>

subsection \<open>Steps that leave the history alone\<close>

lemma extends_refl: "hist_ok n h \<Longrightarrow> extends i nd h h"
  by (simp add: extends_def grows_refl hist_okD(1))

text \<open>
  Peer \<open>i\<close> keeps its complete log: it becomes a follower, or it stays in its role and its term.
\<close>

definition stays :: "nat \<Rightarrow> 'c history \<Rightarrow> nat \<Rightarrow> ('c, 'b) Raft \<Rightarrow> ('c, 'b) Raft \<Rightarrow> bool" where
  "stays n h i rf rf' \<longleftrightarrow> full rf' (whole h i) \<and> pterm rf \<le> pterm rf' \<and>
     hsafe n h (whole h i) (nat (commitIndex rf')) (currentTerm rf') \<and>
     hsafe n h (whole h i) (nat (lastIncludedIndex rf')) (pterm rf') \<and>
     (role rf' = Follower \<or> role rf' = role rf \<and> currentTerm rf' = currentTerm rf \<and>
        pterm rf' \<le> currentTerm rf \<and> commitIndex rf \<le> commitIndex rf' \<and>
        (role rf = Leader \<longrightarrow> matched n h rf'))"

lemma stays_ok:
  assumes "stays n h i rf rf'" and "log_ok n h i rf" and "role_ok n h i rf"
  shows "log_ok n h i rf'" and "role_ok n h i rf'" and "carries_on h i rf rf'"
proof -
  have "acks_ok h i (pterm rf')"
    using log_okD(6) [OF assms(2)] assms(1) unfolding acks_ok_def stays_def keeps_def by (meson order_trans)
  then show "log_ok n h i rf'"
    using assms(1) log_okD [OF assms(2)] unfolding log_ok_def stays_def by (meson order_trans)
  show "role_ok n h i rf'"
    using assms(1) role_okD [OF assms(3)] unfolding role_ok_def stays_def by auto
  show "carries_on h i rf rf'"
    using assms(1) unfolding carries_on_def stays_def by auto
qed

lemma inv_stays:
  assumes inv: "log_inv n P h C s" and el: "election_inv n (won h) (votes h) C' s'" and i: "i < n"
    and nds: "nodes s' = (nodes s)(i := rf')" and st: "stays n h i (nodes s i) rf'"
    and net: "\<And>p. p \<in># net s' \<Longrightarrow> p \<in># net s \<or> sent_ok n h (nodes s') p"
  shows "log_inv n P h C' s'"
proof -
  note I = log_invD [OF inv] and S = stays_ok [OF st log_invD(3) [OF inv i] log_invD(4) [OF inv i]]
  show ?thesis by (rule log_inv_step [OF inv extends_refl [OF I(2)] el I(2) nds S(3,1,2) net])
qed

text \<open>The same when the log and the commit index do not change at all.\<close>

lemma stays_simple:
  assumes "log_ok n h i rf" and "role_ok n h i rf" and "log rf' = log rf"
    and "lastIncludedIndex rf' = lastIncludedIndex rf" and "commitIndex rf' = commitIndex rf"
    and "pterm rf \<le> pterm rf'" and "currentTerm rf \<le> currentTerm rf'"
    and "role rf' = Follower \<or> role rf' = role rf \<and> currentTerm rf' = currentTerm rf \<and>
      pterm rf' \<le> currentTerm rf \<and> matchIndex rf' = matchIndex rf \<and> nextIndex rf' = nextIndex rf"
    and "tree (lead_log h)"
  shows "stays n h i rf rf'"
proof -
  have mono: "hsafe n h X c T \<Longrightarrow> T \<le> T' \<Longrightarrow> hsafe n h X c T'" for X c T T'
    using safe_mono [OF _ grows_refl [OF assms(9)] subset_refl] .
  have "matched n h rf'" if "role rf = Leader" "matchIndex rf' = matchIndex rf"
    "nextIndex rf' = nextIndex rf" "currentTerm rf' = currentTerm rf"
    using role_okD(4) [OF assms(2) that(1)] that(2-4) assms(5) by (simp add: matched_def)
  then show ?thesis
    using full_cong [OF log_okD(1) [OF assms(1)] assms(3,4)] mono [OF log_okD(4) [OF assms(1)] assms(7)]
      mono [OF log_okD(5) [OF assms(1)] assms(6)] assms(4-8)
    unfolding stays_def by auto
qed

text \<open>The network: a lost packet, a heartbeat, a crash.\<close>

lemma inv_log_lose:
  assumes "log_inv n P h C s"
  shows "log_inv n P h C (s\<lparr>net := net s - {#p#}\<rparr>)"
  using assms inv_lose [OF log_invD(1) [OF assms]] by (auto simp: log_inv_def dest: in_diffD)

lemma sent_by_ok:
  assumes "sent_by rf (whole h i) m" and "role rf = Leader" and "log_ok n h i rf" and "role_ok n h i rf"
    and "nd i = rf" and "hist_ok n h" and "wf_raft rf"
  shows "sent_ok n h nd (Request (Some i) p m)"
proof -
  let ?t = "currentTerm rf"
  note R = role_okD [OF assms(4)] and L = log_okD [OF assms(3)]
  have t: "0 < ?t" "lead_log h ?t = whole h i" "pterm rf = ?t" "(?t, i) \<in> won h"
    using hist_okD(4) [OF assms(6) R(2)] R(1-3) assms(2) by auto
  show ?thesis
  proof (cases m)
    case (AppendEntriesRPC a)
    then show ?thesis using assms(1) t L(4) by (auto simp: append_ok_def)
  next
    case (InstallSnapshotRPC a)
    then show ?thesis
      using assms(1,5,7) t L(5) by (auto simp: install_ok_def behind_def wf_raft_def)
  qed (use assms(1) in simp)
qed

lemma inv_log_heartbeat:
  assumes inv: "log_inv n P h C s" and i: "i < n" and hb: "heartbeatEvent (nodes s i) = Some outs"
  shows "log_inv n P h C (s\<lparr>net := net s + sends i outs\<rparr>)"
proof -
  note I = log_invD [OF inv]
  let ?rf = "nodes s i"
  have wf: "wf_raft ?rf" by (rule nodes_okD(1) [OF election_invD(1) [OF I(1)] i])
  have "sent_ok n h (nodes s) p" if "p \<in># sends i outs" for p
  proof -
    from that obtain q m where qm: "(q, m) \<in> set outs" "p = Request (Some i) (nat q) m"
      by (auto simp: sends_def)
    have lead: "role ?rf = Leader" "heartbeatBroadcast ?rf = Some outs"
      using hb qm(1) by (auto simp: heartbeatEvent_def split: if_splits)
    have "sent_by ?rf (whole h i) m"
      using heartbeatBroadcast_sent [OF log_okD(1) [OF I(3) [OF i]] log_ok_commit [OF I(3) [OF i]] wf lead(2) qm(1)] .
    then show ?thesis using sent_by_ok [OF _ lead(1) I(3,4) [OF i] _ I(2) wf, where nd = "nodes s"] qm(2) by simp
  qed
  then show ?thesis
    using inv inv_heartbeat [OF I(1) i hb] by (auto simp: log_inv_def)
qed

lemma sent_ok_orphan: "sent_ok n h nd p \<Longrightarrow> sent_ok n h nd (orphan i p)"
  by (induction n h nd p rule: sent_ok.induct) auto

lemma inv_log_crash:
  assumes inv: "log_inv n P h C s" and i: "i < n" and rs: "restart (nodes s i) = Some rf'"
  shows "log_inv n P h C (s\<lparr>nodes := (nodes s)(i := rf'), net := crash_net i (net s)\<rparr>)"
proof -
  note I = log_invD [OF inv]
  note F = restart_facts [OF nodes_okD(1,2) [OF election_invD(1) [OF I(1)] i] rs]
  have st: "stays n h i (nodes s i) rf'"
    using F log_okD(1,5) [OF I(3) [OF i]] full_cong [of "nodes s i" _ rf'] by (simp add: stays_def)
  have "sent_ok n h ((nodes s)(i := rf')) p" if "p \<in># crash_net i (net s)" for p
  proof -
    from that obtain q where q: "q \<in># net s" "p = orphan i q" by (auto simp: crash_net_def)
    have "sent_ok n h ((nodes s)(i := rf')) q"
      using sent_ok_mono [OF extends_refl [OF I(2)] stays_ok(3) [OF st I(3,4) [OF i]] I(5) [OF q(1)]] .
    then show ?thesis using sent_ok_orphan q(2) by blast
  qed
  then show ?thesis by (intro inv_stays [OF inv inv_crash [OF I(1) i rs] i _ st]) simp_all
qed

text \<open>The operations of a peer that involve no call, \<open>Start\<close> excepted.\<close>

lemma inv_pterm:
  assumes "election_inv n L V C s" and "i < n"
  shows "pterm (nodes s i) \<le> currentTerm (nodes s i)"
  using nodes_okD(2) [OF election_invD(1) [OF assms(1)] assms(2)] by (simp add: durable_def durable_vote_def)

lemma stays_Snapshot:
  assumes "Snapshot rf index d = Some rf'" and "log_ok n h i rf" and "role_ok n h i rf" and "wf_raft rf"
    and "pterm rf \<le> currentTerm rf" and "tree (lead_log h)"
  shows "stays n h i rf rf'"
  using assms(1)
proof (cases rule: Snapshot_cases)
  case 1
  then show ?thesis using stays_simple [OF assms(2,3), of rf'] assms(5,6) by simp
next
  case (2 t rest)
  let ?r = "rf\<lparr>lastIncludedIndex := index, log := \<lparr>Command = None, Term = t\<rparr> # rest, snapshot := d\<rparr>"
  have full: "full rf' (whole h i)"
    by (rule full_Snapshot [OF log_okD(1) [OF assms(2)] assms(4) log_ok_commit [OF assms(2)] assms(1)])
  have c: "hsafe n h (whole h i) (nat index) (currentTerm rf)"
    using safe_less [OF log_okD(4) [OF assms(2)], of "nat index"] 2(2) by simp
  have "matched n h rf'" if "role rf = Leader"
    using role_okD(4) [OF assms(3) that] by (simp add: 2(3) matched_def)
  then show ?thesis
    using full c log_okD(4) [OF assms(2)] assms(5) by (simp add: stays_def 2(3))
qed

lemma stays_own:
  assumes "own_step rf rf'" and "\<not> (\<exists>c index t ok. Start rf c = Some (rf', index, t, ok) \<and> role rf = Leader)"
    and "log_ok n h i rf" and "role_ok n h i rf" and "wf_raft rf" and "pterm rf \<le> currentTerm rf"
    and "tree (lead_log h)"
  shows "stays n h i rf rf'"
  using assms(1)
proof cases
  case (oStart c index t ok)
  then have "rf' = rf" using Start_state [OF oStart assms(5)] assms(2) by auto
  then show ?thesis using stays_simple [OF assms(3,4), of rf'] assms(6,7) by simp
next
  case (oSnapshot index d)
  then show ?thesis using stays_Snapshot assms(3-7) by blast
qed (use assms(3-7) in \<open>auto intro!: stays_simple simp: applierBegin_def applierSent_def applierEnd_def Kill_def
    pterm_def split: if_splits\<close>)

subsection \<open>Replies\<close>

lemma handleSendAppendEntries_cases:
  assumes "handleSendAppendEntries rf peer a ar = Some rf'" and "wf_raft rf" and "0 \<le> peer" and "peer < int (peers rf)"
  obtains (keep) "rf' = rf"
    | (guess) "rf' = rf\<lparr>nextIndex := (nextIndex rf)[nat peer := nextGuess rf ar]\<rparr>"
        "role rf = Leader" "currentTerm rf = aea_Term a"
    | (down) "currentTerm rf < aer_Term ar" "rf' = persisted (stepDown rf (aer_Term ar))"
    | (ack) "checkAndCommitLogs (acked rf peer (aea_PrevLogIndex a + int (length (aea_Entries a)))) = Some rf'"
        "role rf = Leader" "aer_Success ar" "currentTerm rf = aea_Term a"
proof -
  note eq = trans [OF assms(1) [symmetric] handleSendAppendEntries_eq [OF assms(2-4)]]
  show thesis
  proof (cases "currentTerm rf \<noteq> aea_Term a \<or> role rf \<noteq> Leader")
    case True
    with eq show thesis by (intro keep) simp
  next
    case False
    show thesis
    proof (cases "aer_Term ar > currentTerm rf")
      case True
      with False eq show thesis by (intro down) simp_all
    next
      case low: False
      show thesis
      proof (cases "aer_Success ar")
        case True
        with False low eq show thesis by (intro ack) simp_all
      next
        case fail: False
        with False low eq show thesis by (intro guess) simp_all
      qed
    qed
  qed
qed

lemma handleSendInstallSnapshot_cases:
  assumes "handleSendInstallSnapshot rf peer a ir = Some rf'" and "wf_raft rf" and "0 \<le> peer" and "peer < int (peers rf)"
  obtains (keep) "rf' = rf"
    | (down) "currentTerm rf < isr_Term ir" "rf' = persisted (stepDown rf (isr_Term ir))"
    | (ack) "rf' = acked rf peer (isa_LastIncludedIndex a)" "role rf = Leader" "currentTerm rf = isa_Term a"
proof -
  note eq = trans [OF assms(1) [symmetric] handleSendInstallSnapshot_eq [OF assms(2-4)], unfolded option.inject]
  show thesis
  proof (cases "currentTerm rf \<noteq> isa_Term a \<or> role rf \<noteq> Leader")
    case True
    with eq show thesis by (intro keep) simp
  next
    case False
    show thesis
    proof (cases "isr_Term ir > currentTerm rf")
      case True
      with False eq show thesis by (intro down) simp_all
    next
      case low: False
      with False eq show thesis by (intro ack) simp_all
    qed
  qed
qed

lemma nextGuess_le:
  assumes "full rf X"
  shows "nextGuess rf ar \<le> int (length X) \<or> nextGuess rf ar \<le> aer_XIndex ar \<or>
    aer_XTerm ar = -1 \<and> aer_XIndex ar = -1 \<and> nextGuess rf ar = aer_XLen ar"
proof (cases "lastSlot (aer_XTerm ar) 0 (log rf)")
  case None
  then show ?thesis by (simp add: nextGuess_def)
next
  case (Some j)
  then have "realIndex rf (int j) \<le> int (length X)"
    using lastSlot_bounds [OF Some] full_length(2) [OF assms] by (simp add: realIndex_def realLogLen_def)
  then show ?thesis using Some by (simp add: nextGuess_def)
qed

text \<open>A leader that counts acknowledgements commits only what a majority has acknowledged in its term.\<close>

lemma committable_safe:
  assumes "committable rf N" and "role rf = Leader" and "role_ok n h i rf" and "full rf (whole h i)"
    and "matched n h rf" and "wf_raft rf" and "peers rf = n" and "hist_ok n h"
  shows "hsafe n h (whole h i) (nat N) (currentTerm rf)"
proof -
  let ?t = "currentTerm rf"
  note R = role_okD [OF assms(3)]
  have N: "commitIndex rf < N" "N \<le> lastLogIndex rf" "termAt rf N = ?t" "card (replicas rf N) > n div 2"
    using assms(1,7) by (simp_all add: committable_def)
  have lo: "lastIncludedIndex rf \<le> N" "0 \<le> N" using assms(6) N(1) by (simp_all add: wf_raft_def)
  have len: "nat N < length (whole h i)" using N(2) lo(2) full_length(1) [OF assms(4)] by simp
  have "Term (whole h i ! nat N) = ?t"
    using full_term [OF assms(4) lo(1) N(2)] N(3) by (simp add: termAt_def)
  then have has: "has (lead_log h ?t) ?t (nat N)" using len R(3) [OF assms(2)] by (simp add: has_def)
  have "majority n (replicas rf N)" using N(4) assms(7) by (auto simp: majority_def replicas_def)
  moreover have "(p, ?t, nat N) \<in> acks h" if "p \<in> replicas rf N" for p
    using that assms(5,7) has N(1) lo(2) by (auto simp: matched_def replicas_def)
  ultimately have "replicated n (acks h) ?t (nat N)" unfolding replicated_def by blast
  moreover have "0 < ?t" using hist_okD(4) [OF assms(8) R(2) [OF assms(2)]] by simp
  ultimately show ?thesis
    using len has R(3) [OF assms(2)] unfolding safe_def by (metis order_refl)
qed

lemma stays_commit:
  assumes "checkAndCommitLogs r = Some rf'" and "log_ok n h i rf" and "role_ok n h i rf" and "role rf = Leader"
    and "matched n h r" and "r = rf\<lparr>matchIndex := m, nextIndex := x\<rparr>" and "wf_raft r" and "peers rf = n"
    and "hist_ok n h"
  shows "stays n h i rf rf'"
proof -
  have pt: "pterm (r\<lparr>commitIndex := N\<rparr>) = pterm rf" "pterm r = pterm rf" for N
    by (simp_all add: assms(6) pterm_def)
  obtain N where N: "rf' = r\<lparr>commitIndex := N\<rparr>" "N = commitIndex r \<or> committable r N"
    using assms(1,7) by (rule checkAndCommitLogs_cases)
  have r: "role_ok n h i r" "full r (whole h i)" "role r = Leader"
    using role_okD [OF assms(3)] log_okD(1) [OF assms(2)] assms(4,5) pt
    by (auto simp: role_ok_def assms(6) full_def pterm_def)
  have "hsafe n h (whole h i) (nat N) (currentTerm r)"
    using N(2) committable_safe [OF _ r(3,1,2) assms(5,7) _ assms(9)] log_okD(4) [OF assms(2)] assms(6,8) by auto
  moreover have "commitIndex rf \<le> N" using N(2) by (auto simp: assms(6) committable_def)
  moreover have "matched n h rf'"
    using assms(5) \<open>commitIndex rf \<le> N\<close> by (auto simp: matched_def N(1) assms(6))
  moreover have "full rf' (whole h i)" using r(2) by (simp add: N(1) full_def)
  ultimately show ?thesis
    using log_okD(5) [OF assms(2)] role_okD(1) [OF assms(3)] assms(4) pt
    unfolding stays_def by (simp add: N(1) assms(6))
qed

lemma inv_log_AppendReply:
  assumes inv: "log_inv n P h C s" and rep: "AppendReply i j a ar \<in># net s"
    and hd: "handleSendAppendEntries (nodes s i) (int j) a ar = Some rf'"
  shows "log_inv n P h C (s\<lparr>nodes := (nodes s)(i := rf'), net := net s - {#AppendReply i j a ar#}\<rparr>)"
proof -
  note I = log_invD [OF inv] and E = election_invD [OF log_invD(1) [OF inv]]
  let ?rf = "nodes s i" and ?m = "aea_PrevLogIndex a + int (length (aea_Entries a))"
  have ij: "i < n" "j < n" using E(2) [OF rep] by simp_all
  note nd = nodes_okD [OF E(1) ij(1)] and L = I(3) [OF ij(1)] and R = I(4) [OF ij(1)]
  have le: "pterm ?rf \<le> currentTerm ?rf" by (rule inv_pterm [OF I(1) ij(1)])
  have bounds: "0 \<le> int j" "int j < int (peers ?rf)" using ij(2) nd(3) by simp_all
  have "stays n h i ?rf rf'"
    using hd nd(1) bounds
  proof (cases rule: handleSendAppendEntries_cases)
    case keep
    then show ?thesis using stays_simple [OF L R, of rf'] le hist_okD(1) [OF I(2)] by simp
  next
    case guess
    have "nextGuess ?rf ar \<le> int (length (lead_log h (currentTerm ?rf)))"
      using nextGuess_le [OF log_okD(1) [OF L], of ar] I(5) [OF rep] guess(3) role_okD(3) [OF R guess(2)] by auto
    then have "matched n h rf'"
      using role_okD(4) [OF R guess(2)] ij(2) nd(1,3)
      by (auto simp: matched_def guess(1) wf_raft_def nth_list_update)
    moreover have "pterm rf' = pterm ?rf" by (simp add: guess(1) pterm_def)
    ultimately show ?thesis
      using log_okD(1,4,5) [OF L] le full_cong [of ?rf _ rf'] by (simp add: stays_def guess(1))
  next
    case down
    then show ?thesis using stays_simple [OF L R, of rf'] le hist_okD(1) [OF I(2)] by simp
  next
    case ack
    let ?t = "currentTerm ?rf"
    have e: "entries_of (lead_log h ?t) a"
      "\<And>k. k \<le> nat (aea_PrevLogIndex a) + length (aea_Entries a) \<Longrightarrow> has (lead_log h ?t) ?t k \<Longrightarrow> (j, ?t, k) \<in> acks h"
      using I(5) [OF rep] ack(3,4) by auto
    have "matched n h (acked ?rf (int j) ?m)"
      using role_okD(4) [OF R ack(2)] e ij(2) nd(1,3)
      by (auto simp: matched_def acked_def entries_of_def wf_raft_def nth_list_update max_def split: if_splits)
    then show ?thesis
      using stays_commit [OF ack(1) L R ack(2) _ acked_def] nd(1,3) I(2) by simp
  qed
  from inv_stays [OF inv inv_AppendReply [OF I(1) rep hd] ij(1) _ this] show ?thesis
    by (auto dest: in_diffD)
qed

lemma inv_log_InstallReply:
  assumes inv: "log_inv n P h C s" and rep: "InstallReply i j a ir \<in># net s"
    and hd: "handleSendInstallSnapshot (nodes s i) (int j) a ir = Some rf'"
  shows "log_inv n P h C (s\<lparr>nodes := (nodes s)(i := rf'), net := net s - {#InstallReply i j a ir#}\<rparr>)"
proof -
  note I = log_invD [OF inv] and E = election_invD [OF log_invD(1) [OF inv]]
  let ?rf = "nodes s i" and ?m = "isa_LastIncludedIndex a"
  have ij: "i < n" "j < n" using E(2) [OF rep] by simp_all
  note nd = nodes_okD [OF E(1) ij(1)] and L = I(3) [OF ij(1)] and R = I(4) [OF ij(1)]
  have le: "pterm ?rf \<le> currentTerm ?rf" by (rule inv_pterm [OF I(1) ij(1)])
  have bounds: "0 \<le> int j" "int j < int (peers ?rf)" using ij(2) nd(3) by simp_all
  have "stays n h i ?rf rf'"
    using hd nd(1) bounds
  proof (cases rule: handleSendInstallSnapshot_cases)
    case keep
    then show ?thesis using stays_simple [OF L R, of rf'] le hist_okD(1) [OF I(2)] by simp
  next
    case down
    then show ?thesis using stays_simple [OF L R, of rf'] le hist_okD(1) [OF I(2)] by simp
  next
    case ack
    have m: "?m \<le> commitIndex ?rf" using I(5) [OF rep] ack(2,3) by (simp add: behind_def)
    moreover have "commitIndex ?rf < int (length (lead_log h (currentTerm ?rf)))"
      using log_ok_commit [OF L] full_length(1) [OF log_okD(1) [OF L]] role_okD(3) [OF R ack(2)]
      by (simp add: commit_ok_def)
    ultimately have "matched n h (acked ?rf (int j) ?m)"
      using role_okD(4) [OF R ack(2)] ij(2) nd(1,3)
      by (auto simp: matched_def acked_def wf_raft_def nth_list_update max_def split: if_splits)
    moreover have "pterm rf' = pterm ?rf" by (simp add: ack(1) pterm_def)
    ultimately show ?thesis
      using log_okD(1,4,5) [OF L] le full_cong [of ?rf _ rf'] by (simp add: stays_def ack(1))
  qed
  from inv_stays [OF inv inv_InstallReply [OF I(1) rep hd] ij(1) _ this] show ?thesis
    by (auto dest: in_diffD)
qed

end
