(* ===== verification/Raft_Log_Calls.thy ===== *)
theory Raft_Log_Calls
  imports Raft_Log_Steps
begin

section \<open>Steps that extend the history\<close>

subsection \<open>Taking over entries\<close>

text \<open>Peer \<open>i\<close> has the complete log \<open>X\<close> now and has acknowledged the entries \<open>K\<close> of term \<open>t\<close>.\<close>

definition take_over :: "'c history \<Rightarrow> nat \<Rightarrow> 'c Logt list \<Rightarrow> int \<Rightarrow> nat set \<Rightarrow> 'c history" where
  "take_over h i X t K = h\<lparr>whole := (whole h)(i := X), acks := acks h \<union> {(i, t, k) | k. k \<in> K}\<rparr>"

lemma take_over_sel [simp]:
  "lead_log (take_over h i X t K) = lead_log h" "won (take_over h i X t K) = won h"
  "votes (take_over h i X t K) = votes h" "timely (take_over h i X t K) = timely h"
  "cand_log (take_over h i X t K) = cand_log h" "voter_log (take_over h i X t K) = voter_log h"
  "whole (take_over h i X t K) = (whole h)(i := X)"
  "acks (take_over h i X t K) = acks h \<union> {(i, t, k) | k. k \<in> K}"
  by (simp_all add: take_over_def)

lemma votes_ok_acks:
  assumes "votes_ok H V CL VL A" and "\<And>u c. (i, u, c) \<in> V \<Longrightarrow> u \<le> t"
  shows "votes_ok H V CL VL (A \<union> {(i, t, k) | k. k \<in> K})"
  using assms unfolding votes_ok_def by fastforce

lemma take_over_hist:
  assumes "hist_ok n h" and "\<And>u c. (i, u, c) \<in> votes h \<Longrightarrow> u \<le> t"
  shows "hist_ok n (take_over h i X t K)"
proof -
  have "votes_ok (lead_log h) (timely h) (cand_log h) (voter_log h) (acks h \<union> {(i, t, k) | k. k \<in> K})"
    using votes_ok_acks [OF hist_okD(2) [OF assms(1)]] assms(2) hist_okD(6) [OF assms(1)] by blast
  then show ?thesis using assms(1) by (simp add: hist_ok_def)
qed

lemma take_over_extends: "hist_ok n h \<Longrightarrow> extends i nd h (take_over h i X t K)"
  by (auto simp: extends_def grows_refl hist_okD(1))

text \<open>
  Peer \<open>i\<close>, whose term is at most \<open>t\<close>, takes the first \<open>m\<close> entries of the leader of term \<open>t\<close>, and puts its new
  term and log on stable storage.
\<close>

lemma log_ok_take_over:
  assumes h: "hist_ok n h" and old: "log_ok n h i rf" and t: "pterm rf \<le> t" "currentTerm rf \<le> t"
    and m: "0 < m" "m \<le> length (lead_log h t)" and X: "X = absorb (whole h i) (lead_log h t) m"
    and rf': "full rf' X" "pterm rf' = t" "currentTerm rf' = t"
    and c: "commitIndex rf' = commitIndex rf \<or> nat (commitIndex rf') < m \<and>
      hsafe n h (lead_log h t) (nat (commitIndex rf')) t"
    and lii: "lastIncludedIndex rf' \<le> commitIndex rf'"
    and K: "\<And>k. k \<in> K \<Longrightarrow> k < m \<and> has (lead_log h t) t k" and pos: "0 < t"
  shows "log_ok n (take_over h i X t K) i rf'"
proof -
  let ?H = "lead_log h" and ?h = "take_over h i X t K"
  note L = log_okD [OF old] and T = hist_okD(1) [OF h]
  have ne: "?H t \<noteq> []" using m by auto
  have up: "hsafe n h Y d u \<Longrightarrow> u \<le> t \<Longrightarrow> hsafe n ?h Y d t" for Y d u
    using safe_mono [OF _ grows_refl [OF T]] by fastforce
  have tk: "take m X = take m (?H t)" using absorb_take [OF m(2)] by (simp add: X)
  have com: "hsafe n ?h X (nat (commitIndex rf')) t"
    using c
  proof
    assume same: "commitIndex rf' = commitIndex rf"
    have "hsafe n h X (nat (commitIndex rf)) (currentTerm rf)"
      using absorb_safe [OF T hist_okD(2,3) [OF h] L(4,2) t(2) m] by (simp add: X)
    then show ?thesis using up t(2) same by simp
  next
    assume new: "nat (commitIndex rf') < m \<and> hsafe n h (?H t) (nat (commitIndex rf')) t"
    have "take (Suc (nat (commitIndex rf'))) (?H t) = take (Suc (nat (commitIndex rf'))) X"
      using take_less [of "m - 1" X "?H t" "nat (commitIndex rf')"] tk new by (cases m) auto
    then have "hsafe n h X (nat (commitIndex rf')) t" using safe_take new by blast
    then show ?thesis using up by blast
  qed
  moreover have "hsafe n ?h X (nat (lastIncludedIndex rf')) t"
    using safe_less [OF com] lii by simp
  moreover have "branch ?H X" using absorb_branch [OF T L(2) m] by (simp add: X)
  moreover have "Term (last X) \<le> t" using absorb_last [OF T _ m] L(3) t(1) by (simp add: X)
  moreover have "acks_ok ?h i t"
  proof -
    have "0 < u \<and> u \<le> t \<and> has (?H u) u k \<and> keeps ?H X u k t" if "(i, u, k) \<in> acks h" for u k
    proof -
      have a: "0 < u" "u \<le> pterm rf" "has (?H u) u k" "keeps ?H (whole h i) u k (pterm rf)"
        using L(6) that by (simp_all add: acks_ok_def)
      then have "keeps ?H X u k t"
        unfolding X by (intro absorb_keeps [OF T L(2) a(4) t(1) a(2) _ ne]) simp
      then show ?thesis using a t(1) by simp
    qed
    moreover have "keeps ?H X t k t" if "k \<in> K" for k
      using take_has [of "m - 1" "?H t" X t k] tk K [OF that] by (cases m) (auto simp: keeps_def)
    ultimately show ?thesis using K pos by (auto simp: acks_ok_def)
  qed
  moreover have "u \<le> t" if "(j, u, i) \<in> votes h" for j u using L(7) [OF that] t(1) by simp
  ultimately show ?thesis using rf' by (simp add: log_ok_def)
qed

lemma inv_take_over:
  assumes inv: "log_inv n P h C s" and el: "election_inv n (won h) (votes h) C' s'" and i: "i < n"
    and nds: "nodes s' = (nodes s)(i := rf')" and role: "role rf' = Follower"
    and log: "log_ok n (take_over h i X t K) i rf'" and t: "pterm (nodes s i) \<le> t" "pterm rf' = t"
    and net: "\<And>p. p \<in># net s' \<Longrightarrow> p \<in># net s \<or> sent_ok n (take_over h i X t K) (nodes s') p"
  shows "log_inv n P (take_over h i X t K) C' s'"
proof (rule log_inv_step [OF inv take_over_extends _ _ nds _ log _ net])
  note I = log_invD [OF inv]
  show "hist_ok n h" by (rule I(2))
  have "u \<le> t" if "(i, u, c) \<in> votes h" for u c
    using ballotsD(1) [OF election_invD(3) [OF I(1)] that] t by simp
  then show "hist_ok n (take_over h i X t K)" by (rule take_over_hist [OF I(2)])
  show "election_inv n (won (take_over h i X t K)) (votes (take_over h i X t K)) C' s'" using el by simp
  show "carries_on h i (nodes s i) rf'" using role t by (simp add: carries_on_def)
  show "role_ok n (take_over h i X t K) i rf'" using role by (simp add: role_ok_def)
qed

subsection \<open>AppendEntries\<close>

lemma AppendEntries_cases:
  assumes "AppendEntries rf a = Some (rf', ar)" and "wf_raft rf"
  obtains (stale) "rf' = rf" "\<not> aer_Success ar"
    | (refuse) "currentTerm rf \<le> aea_Term a" "rf' = persisted (ae_base rf a)" "\<not> aer_Success ar"
    | (accept) "currentTerm rf \<le> aea_Term a" "lastIncludedIndex rf \<le> aea_PrevLogIndex a"
        "aea_PrevLogIndex a \<le> lastLogIndex rf" "termAt rf (aea_PrevLogIndex a) = aea_PrevLogTerm a"
        "rf' = persisted (ae_accept rf a)"
proof -
  note eq = trans [OF assms(1) [symmetric] AppendEntries_eq [OF assms(2)], unfolded option.inject Let_def]
  show thesis
  proof (cases "aea_Term a < currentTerm rf")
    case True
    with eq show thesis by (intro stale) simp_all
  next
    case fresh: False
    show thesis
    proof (cases "lastIncludedIndex rf \<le> aea_PrevLogIndex a \<and> aea_PrevLogIndex a \<le> lastLogIndex rf \<and>
        termAt rf (aea_PrevLogIndex a) = aea_PrevLogTerm a")
      case True
      with fresh eq show thesis by (intro accept) (simp_all add: termAt_def)
    next
      case False
      with fresh eq show thesis by (intro refuse) (auto simp: termAt_def split: if_splits)
    qed
  qed
qed

text \<open>Where a refusal sends the leader: never beyond the index that it had tried.\<close>

lemma AppendEntries_hint:
  assumes "AppendEntries rf a = Some (rf', ar)" and "wf_raft rf" and "\<And>e. e \<in> set (log rf) \<Longrightarrow> 0 \<le> Term e"
    and "0 \<le> aea_PrevLogIndex a"
  shows "aer_XIndex ar \<le> aea_PrevLogIndex a"
    and "aer_XTerm ar = -1 \<Longrightarrow> aer_XIndex ar = -1 \<Longrightarrow> aer_XLen ar \<le> aea_PrevLogIndex a"
proof -
  let ?i = "aea_PrevLogIndex a" and ?t = "termAt rf (aea_PrevLogIndex a)"
  note eq = trans [OF assms(1) [symmetric] AppendEntries_eq [OF assms(2)], unfolded option.inject Let_def, folded termAt_def]
  have scan: "the (conflictScan (ae_base rf a) t ?i (-1)) \<le> ?i" if "?i \<le> lastLogIndex rf" for t
    using conflictScan_total [of "ae_base rf a" ?i t "-1"] that assms(2,4) by (auto simp: wf_raft_def)
  have pos: "0 \<le> ?t" if "lastIncludedIndex rf \<le> ?i" "?i \<le> lastLogIndex rf"
    using that assms(3) nth_mem [of "nat (logIndex rf ?i)" "log rf"] by (simp add: termAt_def index_defs)
  show "aer_XIndex ar \<le> ?i" using eq scan assms(4) by (auto split: if_splits)
  show "aer_XTerm ar = -1 \<Longrightarrow> aer_XIndex ar = -1 \<Longrightarrow> aer_XLen ar \<le> ?i"
    using eq pos assms(4) realLogLen_eq [of rf] by (auto split: if_splits)
qed

lemma log_term_pos:
  assumes "hist_ok n h" and "log_ok n h i rf" and "e \<in> set (log rf)"
  shows "0 \<le> Term e"
proof -
  let ?X = "whole h i"
  note L = log_okD [OF assms(2)]
  have pos: "0 \<le> Term (?X ! k)" if "k < length ?X" for k
    using branch_term_pos [OF assms(1) branch_take [OF hist_okD(1) [OF assms(1)] L(2) that]] that
    by (simp add: take_Suc_conv_app_nth)
  have "Term e = Term (?X ! nat (lastIncludedIndex rf)) \<or> e \<in> set ?X"
    using assms(3) L(1) in_set_dropD by (fastforce simp: full_def)
  then show ?thesis using pos L(1) by (auto simp: full_def in_set_conv_nth)
qed

text \<open>The log that an accepting follower ends up with, and its commit index.\<close>

lemma accept_log:
  assumes "hist_ok n h" and "log_ok n h i rf" and "entries_of (lead_log h t) a"
    and "lastIncludedIndex rf \<le> aea_PrevLogIndex a" and "aea_PrevLogIndex a \<le> lastLogIndex rf"
    and "termAt rf (aea_PrevLogIndex a) = aea_PrevLogTerm a"
    and m: "m = Suc (nat (aea_PrevLogIndex a)) + length (aea_Entries a)"
  shows "full (ae_accept rf a) (absorb (whole h i) (lead_log h t) m)"
    and "commitIndex (ae_accept rf a) = max (commitIndex rf) (aea_LeaderCommit a)"
proof -
  let ?p = "nat (aea_PrevLogIndex a)" and ?X = "whole h i" and ?Y = "lead_log h t"
  note T = hist_okD(1) [OF assms(1)] and L = log_okD [OF assms(2)]
  have e: "0 \<le> aea_PrevLogIndex a" "m \<le> length ?Y" "aea_PrevLogTerm a = Term (?Y ! ?p)"
    "aea_Entries a = take (length (aea_Entries a)) (drop (Suc ?p) ?Y)" "aea_LeaderCommit a < int m"
    using assms(3) by (auto simp: entries_of_def m)
  have p: "?p < length ?X" using assms(5) e(1) full_length(1) [OF L(1)] by simp
  have "Term (?X ! ?p) = Term (?Y ! ?p)"
    using full_term [OF L(1) assms(4,5)] assms(6) e(3) by (simp add: termAt_def)
  then have "take (Suc ?p) ?X @ mergeEntries (drop (Suc ?p) ?X) (take (length (aea_Entries a)) (drop (Suc ?p) ?Y)) =
      absorb ?X ?Y m"
    unfolding absorb_def m using e(2) m p
    by (intro merge_logs [OF T L(2) branch_H [OF T]]) auto
  then show full: "full (ae_accept rf a) (absorb ?X ?Y m)"
    using full_accept [OF L(1) assms(4,5)] e(4) by simp
  have "m \<le> length (absorb ?X ?Y m)"
    using arg_cong [OF absorb_take [OF e(2), of ?X], of length] e(2) by simp
  then have "aea_LeaderCommit a \<le> lastLogIndex (ae_accept rf a)"
    using full_length(1) [OF full] e(5) by simp
  moreover have "lastLogIndex (ae_accept rf a) = lastIncludedIndex rf + int (length (ae_log rf a)) - 1"
    by (simp add: ae_accept_def lastLogIndex_def)
  ultimately show "commitIndex (ae_accept rf a) = max (commitIndex rf) (aea_LeaderCommit a)"
    by (simp add: ae_accept_def)
qed

lemma ae_accept_sel [simp]:
  "role (ae_accept rf a) = Follower" "currentTerm (ae_accept rf a) = aea_Term a"
  "lastIncludedIndex (ae_accept rf a) = lastIncludedIndex rf"
  by (simp_all add: ae_accept_def)

lemma inv_log_AppendEntries:
  assumes inv: "log_inv n P h C s" and req: "Request c j (AppendEntriesRPC a) \<in># net s"
    and ae: "AppendEntries (nodes s j) a = Some (rf', ar)"
  shows "\<exists>h. log_inv n P h C (s\<lparr>nodes := (nodes s)(j := rf'),
    net := net s - {#Request c j (AppendEntriesRPC a)#} + reply_to c (\<lambda>i. AppendReply i j a ar)\<rparr>)"
proof -
  note I = log_invD [OF inv] and E = election_invD [OF log_invD(1) [OF inv]]
  let ?rf = "nodes s j" and ?t = "aea_Term a"
  let ?s = "s\<lparr>nodes := (nodes s)(j := rf'),
    net := net s - {#Request c j (AppendEntriesRPC a)#} + reply_to c (\<lambda>i. AppendReply i j a ar)\<rparr>"
  have j: "j < n" using E(2) [OF req] by simp
  note nd = nodes_okD [OF E(1) j] and L = I(3) [OF j] and R = I(4) [OF j]
  have le: "pterm ?rf \<le> currentTerm ?rf" by (rule inv_pterm [OF I(1) j])
  have ok: "0 < ?t" "entries_of (lead_log h ?t) a" "hsafe n h (lead_log h ?t) (nat (aea_LeaderCommit a)) ?t"
    using I(5) [OF req] by (simp_all add: append_ok_def)
  have el: "election_inv n (won h) (votes h) C ?s" by (rule inv_AppendEntries [OF I(1) req ae])
  have net: "p \<in># net s \<or> (\<exists>i. p = AppendReply i j a ar)" if "p \<in># net ?s" for p
    using that by (cases c) (auto dest: in_diffD)
  have hint: "aer_XIndex ar \<le> int (length (lead_log h ?t))"
    "aer_XTerm ar = -1 \<Longrightarrow> aer_XIndex ar = -1 \<Longrightarrow> aer_XLen ar \<le> int (length (lead_log h ?t))"
    using AppendEntries_hint [OF ae nd(1) log_term_pos [OF I(2) L]] ok(2) by (auto simp: entries_of_def)
  have stay: "log_inv n P h C ?s" if "stays n h j ?rf rf'" "\<not> aer_Success ar"
    by (rule inv_stays [OF inv el j _ that(1)]) (use net that(2) ok(2) hint in fastforce)+
  from ae nd(1) show ?thesis
  proof (cases rule: AppendEntries_cases)
    case stale
    have "stays n h j ?rf rf'" using stays_simple [OF L R, of rf'] stale(1) le hist_okD(1) [OF I(2)] by simp
    then show ?thesis using stay stale(2) by blast
  next
    case refuse
    have "stays n h j ?rf rf'" using stays_simple [OF L R, of rf'] refuse(1,2) le hist_okD(1) [OF I(2)] by simp
    then show ?thesis using stay refuse(3) by blast
  next
    case accept
    define m where "m = Suc (nat (aea_PrevLogIndex a)) + length (aea_Entries a)"
    define K where "K = {k. k < m \<and> has (lead_log h ?t) ?t k}"
    define X where "X = absorb (whole h j) (lead_log h ?t) m"
    note A = accept_log [OF I(2) L ok(2) accept(2-4) m_def]
    have m: "0 < m" "m \<le> length (lead_log h ?t)" "nat (aea_LeaderCommit a) < m"
      using ok(2) by (auto simp: m_def entries_of_def)
    have wf': "wf_raft rf'" by (rule node_step_wf [OF sAppendEntries [OF ae] nd(1)])
    have "log_ok n (take_over h j X ?t K) j rf'"
    proof (rule log_ok_take_over [OF I(2) L _ accept(1) m(1,2) X_def])
      show "pterm ?rf \<le> ?t" using le accept(1) by simp
      show "full rf' X" using A(1) by (simp add: accept(5) X_def)
      show "commitIndex rf' = commitIndex ?rf \<or> nat (commitIndex rf') < m \<and>
          hsafe n h (lead_log h ?t) (nat (commitIndex rf')) ?t"
        using A(2) m(3) ok(3) by (auto simp: accept(5) max_def)
      show "lastIncludedIndex rf' \<le> commitIndex rf'" using wf' by (simp add: wf_raft_def)
    qed (use ok(1) in \<open>simp_all add: accept(5) K_def\<close>)
    moreover have "sent_ok n (take_over h j X ?t K) (nodes ?s) (AppendReply i j a ar)" for i
      using ok(2) hint by (simp add: K_def m_def)
    ultimately have "log_inv n P (take_over h j X ?t K) C ?s"
      by (intro inv_take_over [OF inv el j]) (use le accept(1) net in \<open>fastforce simp: accept(5)\<close>)+
    then show ?thesis by blast
  qed
qed

subsection \<open>InstallSnapshot\<close>

lemma InstallSnapshot_cases:
  assumes "InstallSnapshot rf a = Some (rf', ir, msg)"
  obtains (stale) "rf' = rf"
    | (snoop) "currentTerm rf \<le> isa_Term a" "rf' = is_base rf a"
    | (install) "currentTerm rf \<le> isa_Term a" "commitIndex rf < isa_LastIncludedIndex a"
        "lastIncludedIndex rf < isa_LastIncludedIndex a" "rf' = persisted (is_installed rf a)"
proof -
  note eq = trans [OF assms [symmetric] InstallSnapshot_eq, unfolded option.inject]
  show thesis
  proof (cases "isa_Term a < currentTerm rf")
    case True
    with eq show thesis by (intro stale) simp
  next
    case fresh: False
    show thesis
    proof (cases "isa_LastIncludedIndex a \<le> lastIncludedIndex rf \<or> isa_LastIncludedIndex a \<le> commitIndex rf")
      case True
      with fresh eq show thesis by (intro snoop) simp_all
    next
      case False
      with fresh eq show thesis by (intro install) simp_all
    qed
  qed
qed

lemma install_log:
  assumes "hist_ok n h" and "log_ok n h i rf" and "snapshot_of (lead_log h t) a"
    and "lastIncludedIndex rf < isa_LastIncludedIndex a" and m: "m = Suc (nat (isa_LastIncludedIndex a))"
  shows "full (is_installed rf a) (absorb (whole h i) (lead_log h t) m)"
proof -
  let ?k = "nat (isa_LastIncludedIndex a)" and ?X = "whole h i" and ?Y = "lead_log h t"
  note T = hist_okD(1) [OF assms(1)] and L = log_okD [OF assms(2)]
  have k: "?k < length ?Y" "Term (?Y ! ?k) = isa_LastIncludedTerm a"
    using assms(3) by (simp_all add: snapshot_of_def)
  show ?thesis
  proof (cases "?k < length ?X \<and> Term (?X ! ?k) = isa_LastIncludedTerm a")
    case True
    have "?Y \<noteq> []" using k(1) by auto
    then have "take (Suc ?k) ?X = take (Suc ?k) ?Y"
      using has_same [OF T L(2) branch_H [OF T], of t "isa_LastIncludedTerm a" ?k] True k by (simp add: has_def)
    then have "absorb ?X ?Y m = ?X" by (simp add: absorb_def m)
    then show ?thesis using full_installed(1) [OF L(1) assms(4) refl] True by simp
  next
    case False
    have "take (Suc ?k) ?X \<noteq> take (Suc ?k) ?Y"
    proof
      assume "take (Suc ?k) ?X = take (Suc ?k) ?Y"
      then have "has ?X (isa_LastIncludedTerm a) ?k"
        using take_has [of ?k ?Y ?X "isa_LastIncludedTerm a" ?k] k by (simp add: has_def)
      then show False using False by (simp add: has_def)
    qed
    then have "absorb ?X ?Y m = take (Suc ?k) ?Y" by (simp add: absorb_def m)
    then show ?thesis using full_installed(2) [OF L(1) assms(4) refl False k] by simp
  qed
qed

lemma inv_log_InstallSnapshot:
  assumes inv: "log_inv n P h C s" and req: "Request c j (InstallSnapshotRPC a) \<in># net s"
    and ie: "InstallSnapshot (nodes s j) a = Some (rf', ir, msg)"
  shows "\<exists>h. log_inv n P h C (s\<lparr>nodes := (nodes s)(j := rf'),
    net := net s - {#Request c j (InstallSnapshotRPC a)#} + reply_to c (\<lambda>i. InstallReply i j a ir)\<rparr>)"
proof -
  note I = log_invD [OF inv] and E = election_invD [OF log_invD(1) [OF inv]]
  let ?rf = "nodes s j" and ?t = "isa_Term a"
  let ?s = "s\<lparr>nodes := (nodes s)(j := rf'),
    net := net s - {#Request c j (InstallSnapshotRPC a)#} + reply_to c (\<lambda>i. InstallReply i j a ir)\<rparr>"
  have j: "j < n" using E(2) [OF req] by simp
  note nd = nodes_okD [OF E(1) j] and L = I(3) [OF j] and R = I(4) [OF j]
  have le: "pterm ?rf \<le> currentTerm ?rf" by (rule inv_pterm [OF I(1) j])
  have ok: "0 < ?t" "snapshot_of (lead_log h ?t) a" "hsafe n h (lead_log h ?t) (nat (isa_LastIncludedIndex a)) ?t"
    and beh: "\<And>i. c = Some i \<Longrightarrow> behind h (nodes s) i a"
    using I(5) [OF req] by (simp_all add: install_ok_def)
  have el: "election_inv n (won h) (votes h) C ?s" by (rule inv_InstallSnapshot [OF I(1) req ie])
  have net: "p \<in># net s \<or> (\<exists>i. c = Some i \<and> p = InstallReply i j a ir)" if "p \<in># net ?s" for p
    using that by (cases c) (auto dest: in_diffD)
  have stay: "log_inv n P h C ?s" if st: "stays n h j ?rf rf'"
  proof (rule inv_stays [OF inv el j _ st])
    have on: "carries_on h j ?rf rf'" by (rule stays_ok(3) [OF st L R])
    show "p \<in># net s \<or> sent_ok n h (nodes ?s) p" if "p \<in># net ?s" for p
      using net [OF that] behind_mono [OF extends_refl [OF I(2)] on beh] by auto
  qed simp
  from ie show ?thesis
  proof (cases rule: InstallSnapshot_cases)
    case stale
    have "stays n h j ?rf rf'" using stays_simple [OF L R, of rf'] stale le hist_okD(1) [OF I(2)] by simp
    then show ?thesis using stay by blast
  next
    case snoop
    have "pterm rf' = pterm ?rf" by (simp add: snoop(2) pterm_def)
    then have "stays n h j ?rf rf'" using stays_simple [OF L R, of rf'] snoop le hist_okD(1) [OF I(2)] by simp
    then show ?thesis using stay by blast
  next
    case install
    define m where "m = Suc (nat (isa_LastIncludedIndex a))"
    define X where "X = absorb (whole h j) (lead_log h ?t) m"
    have m: "0 < m" "m \<le> length (lead_log h ?t)" using ok(2) by (auto simp: m_def snapshot_of_def)
    have sel: "commitIndex rf' = isa_LastIncludedIndex a" "lastIncludedIndex rf' = isa_LastIncludedIndex a"
      "role rf' = Follower" "currentTerm rf' = ?t" "pterm rf' = ?t"
      by (simp_all add: install(4) is_installed_def)
    have t: "pterm ?rf \<le> ?t" using le install(1) by simp
    have log: "log_ok n (take_over h j X ?t {}) j rf'"
    proof (rule log_ok_take_over [OF I(2) L t install(1) m X_def])
      show "full rf' X" using install_log [OF I(2) L ok(2) install(3) m_def] by (simp add: install(4) X_def)
    qed (use ok sel in \<open>simp_all add: m_def\<close>)
    have on: "carries_on h j ?rf rf'" using sel t by (simp add: carries_on_def)
    have "log_inv n P (take_over h j X ?t {}) C ?s"
    proof (rule inv_take_over [OF inv el j _ sel(3) log t sel(5)])
      show "p \<in># net s \<or> sent_ok n (take_over h j X ?t {}) (nodes ?s) p" if "p \<in># net ?s" for p
        using net [OF that] behind_mono [OF take_over_extends [OF I(2)] on beh] by auto
    qed simp
    then show ?thesis by blast
  qed
qed

end
