(* ===== verification/Raft_Log_Votes.thy ===== *)
theory Raft_Log_Votes
  imports Raft_Log_Calls
begin

section \<open>Elections and new entries extend the history\<close>

subsection \<open>A vote\<close>

text \<open>
  Peer \<open>j\<close> votes in term \<open>u\<close> for candidate \<open>c\<close>.  The candidates' logs become \<open>CL\<close>: they change only if \<open>c\<close> has just
  started its election.
\<close>

definition ballot :: "'c history \<Rightarrow> nat \<Rightarrow> int \<Rightarrow> nat \<Rightarrow> (nat \<Rightarrow> int \<Rightarrow> 'c Logt list) \<Rightarrow> 'c history" where
  "ballot h j u c CL = h\<lparr>votes := insert (j, u, c) (votes h),
     timely := (if lead_log h u = [] then insert (j, u, c) (timely h) else timely h),
     cand_log := CL, voter_log := (voter_log h)(j := (voter_log h j)(u := whole h j))\<rparr>"

lemma ballot_sel [simp]:
  "lead_log (ballot h j u c CL) = lead_log h" "won (ballot h j u c CL) = won h"
  "whole (ballot h j u c CL) = whole h" "acks (ballot h j u c CL) = acks h"
  "votes (ballot h j u c CL) = insert (j, u, c) (votes h)" "cand_log (ballot h j u c CL) = CL"
  "timely (ballot h j u c CL) = (if lead_log h u = [] then insert (j, u, c) (timely h) else timely h)"
  "voter_log (ballot h j u c CL) = (voter_log h)(j := (voter_log h j)(u := whole h j))"
  by (simp_all add: ballot_def)

lemma votes_ok_cong:
  assumes "votes_ok H V CL VL A" and "\<And>j u c. (j, u, c) \<in> V \<Longrightarrow> CL' c u = CL c u \<and> VL' j u = VL j u"
  shows "votes_ok H V CL' VL' A"
  using assms unfolding votes_ok_def by fastforce

lemma votes_ok_insert:
  "votes_ok H (insert (j, u, c) V) CL VL A \<longleftrightarrow> votes_ok H V CL VL A \<and>
     branch H (VL j u) \<and> branch H (CL c u) \<and> upToDate (CL c u) (VL j u) \<and> Term (last (CL c u)) < u \<and>
     (\<forall>t k. (j, t, k) \<in> A \<longrightarrow> t < u \<longrightarrow> keeps H (VL j u) t k (u - 1))"
  unfolding votes_ok_def by auto

lemma elections_ok_mono:
  assumes "elections_ok n H V CL" and "V \<subseteq> W" and "\<And>j u c. (j, u, c) \<in> V \<Longrightarrow> CL' c u = CL c u"
  shows "elections_ok n H W CL'"
proof -
  have "0 < u \<and> (\<exists>i Q. majority n Q \<and> (\<forall>j\<in>Q. (j, u, i) \<in> W) \<and> prefix (CL' i u) (H u))"
    if u: "H u \<noteq> []" "u \<noteq> 0" for u
  proof -
    obtain i Q where Q: "0 < u" "majority n Q" "\<forall>j\<in>Q. (j, u, i) \<in> V" "prefix (CL i u) (H u)"
      using assms(1) u unfolding elections_ok_def by blast
    obtain j where "j \<in> Q" using maj.quorum_nonempty [OF Q(2)] by blast
    then have "CL' i u = CL i u" using assms(3) Q(3) by blast
    then show ?thesis using Q assms(2) by (metis subsetD)
  qed
  then show ?thesis unfolding elections_ok_def by blast
qed

lemma ballot_hist:
  assumes h: "hist_ok n h" and new: "\<And>c'. (j, u, c') \<notin> votes h"
    and CL: "\<And>j' u' c'. (j', u', c') \<in> votes h \<Longrightarrow> CL c' u' = cand_log h c' u'"
    and log: "log_ok n h j rf" "pterm rf \<le> u"
    and c: "branch (lead_log h) (CL c u)" "upToDate (CL c u) (whole h j)" "Term (last (CL c u)) < u"
  shows "hist_ok n (ballot h j u c CL)"
proof -
  let ?VL = "(voter_log h)(j := (voter_log h j)(u := whole h j))"
  let ?W = "if lead_log h u = [] then insert (j, u, c) (timely h) else timely h"
  note D = hist_okD [OF h]
  have old: "CL c' u' = cand_log h c' u' \<and> ?VL j' u' = voter_log h j' u'" if "(j', u', c') \<in> timely h" for j' u' c'
    using that D(6) CL new by auto
  have v: "votes_ok (lead_log h) (timely h) CL ?VL (acks h)"
    by (rule votes_ok_cong [OF D(2) old])
  have "keeps (lead_log h) (whole h j) t k (u - 1)"
    if "lead_log h u = []" "(j, t, k) \<in> acks h" "t < u" for t k
  proof -
    have "keeps (lead_log h) (whole h j) t k (pterm rf)"
      using log_okD(6) [OF log(1)] that(2) by (simp add: acks_ok_def)
    moreover have "w \<le> u - 1" if "w \<le> pterm rf" "lead_log h w \<noteq> []" for w
      using that \<open>lead_log h u = []\<close> log(2) by (cases "w = u") auto
    ultimately show ?thesis unfolding keeps_def by blast
  qed
  then have "votes_ok (lead_log h) ?W CL ?VL (acks h)"
    using v c log_okD(2) [OF log(1)] by (simp add: votes_ok_insert)
  moreover have "elections_ok n (lead_log h) ?W CL"
    by (rule elections_ok_mono [OF D(3)]) (use old in auto)
  ultimately show ?thesis using D(1,4-7) unfolding hist_ok_def by auto
qed

lemma ballot_extends:
  assumes "hist_ok n h" and "\<And>j' u'. u' \<le> pterm (nd j') \<Longrightarrow> CL j' u' = cand_log h j' u'"
    and "c = i \<or> u \<le> pterm (nd c)"
  shows "extends i nd h (ballot h j u c CL)"
  using assms by (auto simp: extends_def grows_refl hist_okD(1))

lemma ballot_log:
  assumes "log_ok n h i rf" and "hist_ok n h" and "c = i \<Longrightarrow> u \<le> pterm rf"
  shows "log_ok n (ballot h j u c CL) i rf"
  by (rule log_ok_grows [OF assms(1)]) (use assms(3) grows_refl [OF hist_okD(1) [OF assms(2)]] in auto)

lemma RequestVote_cases:
  assumes "RequestVote rf a = Some (rf', r)" and "log rf \<noteq> []"
  obtains (stale) "rf' = rf" "\<not> rvr_VoteGranted r"
    | (fresh) "currentTerm rf \<le> rva_Term a" "rf' = persisted (voteState rf a)" "rvr_VoteGranted r = voteOk rf a"
proof -
  note eq = trans [OF assms(1) [symmetric] RequestVote_eq [OF assms(2)], unfolded option.inject]
  show thesis
  proof (cases "rva_Term a < currentTerm rf")
    case True
    with eq show thesis by (intro stale) simp_all
  next
    case False
    with eq show thesis by (intro fresh) simp_all
  qed
qed

lemma inv_log_RequestVote:
  assumes inv: "log_inv n P h C s" and req: "Request c j (RequestVoteRPC a) \<in># net s"
    and rv: "RequestVote (nodes s j) a = Some (rf', r)"
    and s': "s' = s\<lparr>nodes := (nodes s)(j := rf'),
      net := net s - {#Request c j (RequestVoteRPC a)#} + reply_to c (\<lambda>i. VoteReply i j a r)\<rparr>"
  shows "\<exists>h. log_inv n P h C s'"
proof -
  note I = log_invD [OF inv] and E = election_invD [OF log_invD(1) [OF inv]]
  let ?rf = "nodes s j" and ?u = "rva_Term a" and ?c = "nat (rva_CandidateId a)"
  let ?h = "ballot h j ?u ?c (cand_log h)"
  have j: "j < n" using E(2) [OF req] by auto
  note nd = nodes_okD [OF E(1) j] and L = I(3) [OF j] and R = I(4) [OF j]
  have le: "pterm ?rf \<le> currentTerm ?rf" by (rule inv_pterm [OF I(1) j])
  have st: "stays n h j ?rf rf'"
    using rv nd(5)
  proof (cases rule: RequestVote_cases)
    case stale
    then show ?thesis using stays_simple [OF L R, of rf'] le hist_okD(1) [OF I(2)] by simp
  next
    case fresh
    then show ?thesis
      using stays_simple [OF L R, of rf'] le hist_okD(1) [OF I(2)] by (simp add: voteState_def)
  qed
  have el: "election_inv n (won h) (if rvr_VoteGranted r then insert (j, ?u, ?c) (votes h) else votes h) C s'"
    by (rule inv_RequestVote [OF I(1) req rv s'])
  have nds: "nodes s' = (nodes s)(j := rf')" by (simp add: s')
  have net: "p \<in># net s \<or> sent_ok n h' (nodes s') p" if "p \<in># net s'" for p h'
    using that by (cases c) (auto simp: s' dest: in_diffD)
  show ?thesis
  proof (cases "rvr_VoteGranted r \<and> (j, ?u, ?c) \<notin> votes h")
    case False
    then have "election_inv n (won h) (votes h) C s'" using el by (auto simp: insert_absorb split: if_splits)
    then show ?thesis using inv_stays [OF inv _ j nds st net] by blast
  next
    case True
    then have el': "election_inv n (won h) (insert (j, ?u, ?c) (votes h)) C s'" using el by simp
    from rv nd(5) have fresh: "currentTerm ?rf \<le> ?u" "rf' = persisted (voteState ?rf a)" "voteOk ?rf a"
      by (cases rule: RequestVote_cases; use True in simp)+
    have q: "branch (lead_log h) (cand_log h ?c ?u)" "rva_LastLogIndex a = int (length (cand_log h ?c ?u)) - 1"
      "rva_LastLogTerm a = Term (last (cand_log h ?c ?u))" "Term (last (cand_log h ?c ?u)) < ?u"
      "?u \<le> pterm (nodes s ?c)"
      using I(5) [OF req] by (simp_all add: request_ok_def Let_def)
    have up: "upToDate (cand_log h ?c ?u) (whole h j)"
      using fresh(3) q(2,3) full_length(1) [OF log_okD(1) [OF L]] full_last [OF log_okD(1) [OF L]]
      by (auto simp: voteOk_def upToDate_def)
    have new: "(j, ?u, c') \<notin> votes h" for c'
      using ballotsD(3) [OF election_invD(3) [OF el'], of j ?u ?c c'] True by auto
    note S = stays_ok [OF st L R]
    have pt: "pterm rf' = ?u" by (simp add: fresh(2) voteState_def)
    have hist: "hist_ok n ?h"
      by (rule ballot_hist [OF I(2) new refl L _ q(1) up q(4)]) (use le fresh(1) in simp)
    have ext: "extends j (nodes s) h ?h" by (rule ballot_extends [OF I(2)]) (use q(5) in simp_all)
    have log: "log_ok n ?h j rf'" by (rule ballot_log [OF S(1) I(2)]) (simp add: pt)
    have role: "role_ok n ?h j rf'" using S(2) unfolding role_ok_def matched_def ballot_sel .
    have "log_inv n P ?h C s'"
      by (rule log_inv_step [OF inv ext _ hist nds S(3) log role net]) (use el' in simp)
    then show ?thesis by blast
  qed
qed

subsection \<open>An election\<close>

lemma not_won_later:
  assumes "election_inv n L V C s" and "pterm (nodes s i) < u"
  shows "(u, i) \<notin> L"
proof
  assume "(u, i) \<in> L"
  then have "C i u \<noteq> {}" using election_invD(7) [OF assms(1)] maj.quorum_nonempty by blast
  then show False using callsD(2) [OF election_invD(5) [OF assms(1)]] assms(2) by fastforce
qed

lemma inv_log_election:
  assumes inv: "log_inv n P h C s" and i: "i < n"
    and el: "electionEvent (nodes s i) = Some (rf', k, reqs)"
    and s': "s' = s\<lparr>nodes := (nodes s)(i := rf'),
      approved := (approved s)(i := (approved s i)(currentTerm rf' := k)),
      net := net s + sends i (map (\<lambda>(p, a). (p, RequestVoteRPC a)) reqs)\<rparr>"
  shows "\<exists>h C. log_inv n P h C s'"
proof -
  note I = log_invD [OF inv] and E = election_invD [OF log_invD(1) [OF inv]]
  let ?rf = "nodes s i" and ?u = "currentTerm (nodes s i) + 1"
  let ?CL = "(cand_log h)(i := (cand_log h i)(?u := whole h i))"
  let ?h = "ballot h i ?u i ?CL"
  note nd = nodes_okD [OF E(1) i] and L = I(3) [OF i]
  have lt: "pterm ?rf < ?u" using inv_pterm [OF I(1) i] by simp
  note eq = trans [OF el [symmetric] electionEvent_eq [OF nd(5)], unfolded option.inject prod.inject]
  have rf': "currentTerm rf' = ?u" "pterm rf' = ?u" "role rf' = Candidate" "log rf' = log ?rf"
    "lastIncludedIndex rf' = lastIncludedIndex ?rf" "commitIndex rf' = commitIndex ?rf"
    and reqs: "\<And>p a. (p, a) \<in> set reqs \<Longrightarrow> a = \<lparr>rva_Term = ?u, rva_CandidateId = int i,
      rva_LastLogIndex = lastLogIndex ?rf, rva_LastLogTerm = Term (last (log ?rf))\<rparr>"
    using eq nd(4) by auto
  have nds: "nodes s' = (nodes s)(i := rf')" by (simp add: s')
  have last: "Term (last (whole h i)) < ?u" using log_okD(3) [OF L] lt by simp
  have old: "?CL c' u' = cand_log h c' u'" if "u' \<le> pterm (nodes s c')" for c' u' using that lt by auto
  have CL: "?CL c' u' = cand_log h c' u'" if "(j', u', c') \<in> votes h" for j' u' c'
  proof -
    have "c' < n" using E(3) that by (auto simp: ballots_def)
    then show ?thesis using old log_okD(7) [OF I(3) that] by blast
  qed
  have new: "(i, ?u, c') \<notin> votes h" for c'
    using ballotsD(1) [OF E(3), of i ?u c'] lt by auto
  have hist: "hist_ok n ?h"
    by (rule ballot_hist [OF I(2) new CL L]) (use lt last log_okD(2) [OF L] in \<open>simp_all add: upToDate_def\<close>)
  have ext: "extends i (nodes s) h ?h" by (rule ballot_extends [OF I(2) old]) simp_all
  have mono: "hsafe n h X d T \<Longrightarrow> T \<le> T' \<Longrightarrow> hsafe n h X d T'" for X d T T'
    using safe_mono [OF _ grows_refl [OF hist_okD(1) [OF I(2)]] subset_refl] .
  have "acks_ok h i ?u"
    using log_okD(6) [OF L] lt unfolding acks_ok_def keeps_def by (meson less_imp_le order_trans)
  moreover have "hsafe n h (whole h i) (nat (commitIndex ?rf)) ?u" using mono [OF log_okD(4) [OF L]] by simp
  moreover have "hsafe n h (whole h i) (nat (lastIncludedIndex ?rf)) ?u" using mono [OF log_okD(5) [OF L]] lt by simp
  moreover have "v \<le> ?u" if "(j, v, i) \<in> votes h" for j v using log_okD(7) [OF L that] lt by simp
  ultimately have "log_ok n h i rf'"
    using full_cong [OF log_okD(1) [OF L] rf'(4,5)] log_okD(2) [OF L] last rf' by (simp add: log_ok_def)
  then have log: "log_ok n ?h i rf'" by (rule ballot_log [OF _ I(2)]) (simp add: rf')
  have role: "role_ok n ?h i rf'"
    using rf' last not_won_later [OF I(1) lt] by (simp add: role_ok_def)
  have on: "carries_on h i ?rf rf'" using rf' lt by (simp add: carries_on_def)
  have "sent_ok n ?h (nodes s') p" if "p \<in># sends i (map (\<lambda>(p, a). (p, RequestVoteRPC a)) reqs)" for p
  proof -
    from that obtain q a where "(q, a) \<in> set reqs" "p = Request (Some i) (nat q) (RequestVoteRPC a)"
      by (auto simp: sends_def)
    then show ?thesis
      using reqs [of q a] rf' last full_length(1) [OF log_okD(1) [OF L]] full_last [OF log_okD(1) [OF L]]
        log_okD(2) [OF L] by (simp add: request_ok_def nds)
  qed
  then have net: "p \<in># net s \<or> sent_ok n ?h (nodes s') p" if "p \<in># net s'" for p using that by (auto simp: s')
  have "log_inv n P ?h (C(i := (C i)(?u := {i}))) s'"
    by (rule log_inv_step [OF inv ext _ hist nds on log role net]) (use inv_election [OF I(1) i el s'] in simp)
  then show ?thesis by blast
qed

subsection \<open>A win\<close>

text \<open>The candidate's log becomes the leader's log of the term.\<close>

definition crown :: "'c history \<Rightarrow> int \<Rightarrow> nat \<Rightarrow> 'c history" where
  "crown h t i = h\<lparr>lead_log := (lead_log h)(t := whole h i), won := insert (t, i) (won h)\<rparr>"

lemma crown_sel [simp]:
  "lead_log (crown h t i) = (lead_log h)(t := whole h i)" "won (crown h t i) = insert (t, i) (won h)"
  "whole (crown h t i) = whole h" "acks (crown h t i) = acks h" "votes (crown h t i) = votes h"
  "timely (crown h t i) = timely h" "cand_log (crown h t i) = cand_log h" "voter_log (crown h t i) = voter_log h"
  by (simp_all add: crown_def)

lemma votes_ok_grows:
  assumes "votes_ok H V CL VL A" and "grows H H'"
  shows "votes_ok H' V CL VL A"
  using assms(1) growsD(3) [OF assms(2)] keeps_mono [OF _ assms(2) order_refl]
  unfolding votes_ok_def by meson

lemma crown_hist:
  assumes h: "hist_ok n h" and none: "lead_log h t = []" and X: "branch (lead_log h) (whole h i)"
    and last: "Term (last (whole h i)) < t" and own: "whole h i = cand_log h i t"
    and Q: "majority n Q" "\<And>j. j \<in> Q \<Longrightarrow> (j, t, i) \<in> votes h"
  shows "hist_ok n (crown h t i)" and "grows (lead_log h) (lead_log (crown h t i))"
proof -
  let ?H = "(lead_log h)(t := whole h i)"
  note D = hist_okD [OF h]
  have g: "grows (lead_log h) ?H" by (rule grows_leader [OF D(1) none X last])
  then show "grows (lead_log h) (lead_log (crown h t i))" by simp
  have pos: "0 < t" using branch_term_pos [OF h X] last by simp
  have "\<exists>Q. majority n Q \<and> (\<forall>j\<in>Q. (j, t, i) \<in> timely h) \<and> prefix (cand_log h i t) (?H t)"
    using Q D(7) none own by auto
  then have "elections_ok n ?H (timely h) (cand_log h)"
    using D(3) pos unfolding elections_ok_def by (metis fun_upd_apply)
  moreover have "whole h i \<noteq> []" using X by (simp add: branch_def)
  ultimately show "hist_ok n (crown h t i)"
    using growsD(1) [OF g] votes_ok_grows [OF D(2) g] D(4-7) pos unfolding hist_ok_def by auto
qed

lemma requestVoteReply_cases:
  assumes "requestVoteReply rf k a r = Some (rf', k', outs)" and "wf_raft rf"
  obtains (keep) "rf' = rf" "outs = []"
    | (lost) "currentTerm rf < rvr_Term r" "outs = []"
        "rf' = (persisted (rf\<lparr>currentTerm := rvr_Term r, votedFor := noVote\<rparr>))\<lparr>role := Follower\<rparr>"
    | (win) "role rf = Candidate" "rf' = elected rf"
        "outs = map (\<lambda>p. (int p, broadcastMsg (elected rf) (realLogLen rf))) (otherPeers rf)"
proof -
  note eq = trans [OF assms(1) [symmetric] requestVoteReply_eq [OF assms(2) refl], unfolded option.inject]
  show thesis
  proof (cases "currentTerm rf \<noteq> rva_Term a \<or> role rf \<noteq> Candidate")
    case True
    with eq show thesis by (intro keep) simp_all
  next
    case cand: False
    show thesis
    proof (cases "rvr_Term r > currentTerm rf")
      case True
      with cand eq show thesis by (intro lost) simp_all
    next
      case low: False
      show thesis
      proof (cases "rvr_Term r = currentTerm rf \<and> (if rvr_VoteGranted r then k + 1 else k) > peers rf div 2")
        case True
        with cand low eq show thesis by (intro win) (simp_all split: if_splits)
      next
        case False
        with cand low eq show thesis by (intro keep) (auto split: if_splits)
      qed
    qed
  qed
qed

text \<open>A leader that has just been elected has no entry of its term.\<close>

lemma no_own_entry:
  assumes "tree H" and "branch H X" and "Term (last X) < t"
  shows "\<not> has X t k"
proof
  assume k: "has X t k"
  then have "map Term X ! k \<le> map Term X ! (length X - 1)"
    using branch_sorted [OF assms(1,2)] by (intro sorted_nth_mono) (auto simp: has_def)
  moreover have "X \<noteq> []" using assms(2) by (simp add: branch_def)
  ultimately show False using k assms(3) by (simp add: has_def last_conv_nth)
qed

lemma elected_index [simp]:
  "lastLogIndex (elected rf) = lastLogIndex rf" "realLogLen (elected rf) = realLogLen rf"
  "pterm (elected rf) = pterm rf"
  by (simp_all add: elected_def lastLogIndex_def realLogLen_def pterm_def)

lemma inv_log_VoteReply:
  assumes inv: "log_inv n P h C s" and rep: "VoteReply i j a r \<in># net s"
    and vr: "requestVoteReply (nodes s i) (approved s i (rva_Term a)) a r = Some (rf', k, outs)"
    and s': "s' = s\<lparr>nodes := (nodes s)(i := rf'),
      approved := (approved s)(i := (approved s i)(rva_Term a := k)),
      net := net s - {#VoteReply i j a r#} + sends i outs\<rparr>"
  shows "\<exists>h C. log_inv n P h C s'"
proof -
  note I = log_invD [OF inv] and E = election_invD [OF log_invD(1) [OF inv]]
  let ?rf = "nodes s i" and ?t = "currentTerm (nodes s i)"
  have i: "i < n" using E(2) [OF rep] by simp
  note nd = nodes_okD [OF E(1) i] and L = I(3) [OF i] and R = I(4) [OF i]
  have le: "pterm ?rf \<le> ?t" by (rule inv_pterm [OF I(1) i])
  obtain C' where el: "election_inv n (won h) (votes h) C' s'" using inv_VoteReply [OF I(1) rep vr s'] by blast
  have nds: "nodes s' = (nodes s)(i := rf')" by (simp add: s')
  have stay: "\<exists>h C. log_inv n P h C s'" if "stays n h i ?rf rf'" "outs = []"
  proof -
    have "p \<in># net s \<or> sent_ok n h (nodes s') p" if "p \<in># net s'" for p
      using that \<open>outs = []\<close> by (auto simp: s' sends_def dest: in_diffD)
    then show ?thesis using inv_stays [OF inv el i nds that(1)] by blast
  qed
  from vr nd(1) show ?thesis
  proof (cases rule: requestVoteReply_cases)
    case keep
    then show ?thesis using stay stays_simple [OF L R, of rf'] le hist_okD(1) [OF I(2)] by simp
  next
    case lost
    have "pterm rf' = rvr_Term r" by (simp add: lost(3) pterm_def status_def)
    then have "stays n h i ?rf rf'" using stays_simple [OF L R, of rf'] lost le hist_okD(1) [OF I(2)] by simp
    then show ?thesis using stay lost(2) by blast
  next
    case win
    let ?h = "crown h ?t i"
    note C = role_okD(1,5-7) [OF R]
    have pt: "pterm ?rf = ?t" using C(1) win(1) by simp
    have maj: "majority n (C' i ?t)"
      using election_invD(6) [OF el, unfolded leaders_def, rule_format, OF i] by (simp add: nds win(2))
    have votes: "(j, ?t, i) \<in> votes h" if "j \<in> C' i ?t" for j
      using election_invD(4) [OF el] that by (auto simp: tally_def)
    have pos: "0 < ?t" using branch_term_pos [OF I(2) log_okD(2) [OF L]] C(4) [OF win(1)] by simp
    have none: "lead_log h ?t = []"
    proof (rule ccontr)
      assume "lead_log h ?t \<noteq> []"
      then obtain l where l: "(?t, l) \<in> won h" using hist_okD(5) [OF I(2), of ?t] pos by auto
      then have "l = i" using one_winner [OF el] election_invD(7) [OF el] maj by blast
      then show False using l C(2) [OF win(1)] by simp
    qed
    note hist = crown_hist [OF I(2) none log_okD(2) [OF L] C(4,3) [OF win(1)] maj votes]
    have ext: "extends i (nodes s) h ?h" using hist(2) by (auto simp: extends_def)
    have "election_inv n (insert (?t, i) (won h)) (votes h) C' s'"
      using el maj by (simp add: election_inv_def)
    then have el': "election_inv n (won ?h) (votes ?h) C' s'" by simp
    have st: "log_ok n h i (elected ?rf)"
      using L unfolding log_ok_def by (simp add: full_def)
    have log: "log_ok n ?h i (elected ?rf)"
      by (rule log_ok_grows [OF st]) (use hist(2) in auto)
    have noent: "\<not> has (whole h i) ?t k" for k
      by (rule no_own_entry [OF hist_okD(1) [OF I(2)] log_okD(2) [OF L] C(4) [OF win(1)]])
    have match: "matchIndex (elected ?rf) ! p < int (length (whole h i))" if "p < n" for p
      using that full_length(1,3) [OF log_okD(1) [OF L]] lastLogIndex_ge [OF nd(5)] nd(3,4)
      by (cases "p = i") (simp_all add: elected_def)
    have "nextIndex (elected ?rf) ! p = int (length (whole h i))" if "p < n" for p
      using that full_length(2) [OF log_okD(1) [OF L]] nd(3) by (simp add: elected_def)
    then have role: "role_ok n ?h i (elected ?rf)"
      using noent match pt by (simp add: role_ok_def matched_def)
    have on: "carries_on h i ?rf rf'" using C(2) [OF win(1)] by (simp add: carries_on_def win(2))
    have "sent_ok n ?h (nodes s') p" if "p \<in># sends i outs" for p
    proof -
      from that obtain q where p: "p = Request (Some i) q (broadcastMsg (elected ?rf) (realLogLen ?rf))"
        by (auto simp: sends_def win(3))
      have "sent_by (elected ?rf) (whole ?h i) (broadcastMsg (elected ?rf) (realLogLen ?rf))"
        using broadcastMsg_sent [OF log_okD(1) [OF log] log_ok_commit [OF log]] by simp
      from sent_by_ok [OF this _ log role, where nd = "nodes s'"] show ?thesis
        using hist(1) nd(1) by (simp add: p nds win(2))
    qed
    then have net: "p \<in># net s \<or> sent_ok n ?h (nodes s') p" if "p \<in># net s'" for p
      using that by (auto simp: s' dest: in_diffD)
    have "log_inv n P ?h C' s'"
      by (rule log_inv_step [OF inv ext el' hist(1) nds on _ _ net]) (use log role win(2) in simp_all)
    then show ?thesis by blast
  qed
qed

subsection \<open>A new entry\<close>

text \<open>The leader of term \<open>t\<close> appends \<open>e\<close> and counts as the first peer that has it.\<close>

definition grow :: "'c history \<Rightarrow> int \<Rightarrow> nat \<Rightarrow> 'c Logt \<Rightarrow> 'c history" where
  "grow h t i e = h\<lparr>lead_log := (lead_log h)(t := lead_log h t @ [e]),
     whole := (whole h)(i := whole h i @ [e]), acks := acks h \<union> {(i, t, k) | k. k \<in> {length (whole h i)}}\<rparr>"

lemma grow_sel [simp]:
  "lead_log (grow h t i e) = (lead_log h)(t := lead_log h t @ [e])"
  "whole (grow h t i e) = (whole h)(i := whole h i @ [e])"
  "acks (grow h t i e) = acks h \<union> {(i, t, k) | k. k \<in> {length (whole h i)}}"
  "won (grow h t i e) = won h" "votes (grow h t i e) = votes h" "timely (grow h t i e) = timely h"
  "cand_log (grow h t i e) = cand_log h" "voter_log (grow h t i e) = voter_log h"
  by (simp_all add: grow_def)

lemma elections_ok_grows:
  assumes "elections_ok n H V CL" and "\<And>t. prefix (H t) (H' t)" and "\<And>t. H t = [] \<Longrightarrow> H' t = []"
  shows "elections_ok n H' V CL"
  using assms unfolding elections_ok_def by (meson prefix_order.trans)

lemma grow_hist:
  assumes h: "hist_ok n h" and t: "(t, i) \<in> won h" and e: "Term e = t" "Command e \<noteq> None"
    and v: "\<And>u c. (i, u, c) \<in> votes h \<Longrightarrow> u \<le> t"
  shows "hist_ok n (grow h t i e)" and "grows (lead_log h) (lead_log (grow h t i e))"
proof -
  let ?H = "(lead_log h)(t := lead_log h t @ [e])"
  note D = hist_okD [OF h]
  have ne: "lead_log h t \<noteq> []" "0 < t" using D(4) [OF t] by simp_all
  have g: "grows (lead_log h) ?H" by (rule grows_append [OF D(1) ne(1) e(1) _ e(2)]) (use ne(2) in simp)
  then show "grows (lead_log h) (lead_log (grow h t i e))" by simp
  have "votes_ok ?H (timely h) (cand_log h) (voter_log h) (acks h \<union> {(i, t, k) | k. k \<in> {length (whole h i)}})"
    by (rule votes_ok_acks [OF votes_ok_grows [OF D(2) g]]) (use v D(6) in blast)
  moreover have "elections_ok n ?H (timely h) (cand_log h)"
    by (rule elections_ok_grows [OF D(3)]) (use ne in auto)
  ultimately show "hist_ok n (grow h t i e)"
    using growsD(1) [OF g] D(4-7) ne unfolding hist_ok_def by auto
qed

lemma keeps_prefix: "keeps H X t k T \<Longrightarrow> prefix X Y \<Longrightarrow> keeps H Y t k T"
  using has_prefix [of X Y] unfolding keeps_def by blast

lemma inv_log_Start:
  assumes inv: "log_inv n P h C s" and i: "i < n" and st: "Start (nodes s i) c = Some (rf', index, tm, ok)"
    and lead: "role (nodes s i) = Leader"
  shows "\<exists>h. log_inv n P h C (s\<lparr>nodes := (nodes s)(i := rf')\<rparr>)"
proof -
  note I = log_invD [OF inv] and E = election_invD [OF log_invD(1) [OF inv]]
  let ?rf = "nodes s i" and ?t = "currentTerm (nodes s i)" and ?s = "s\<lparr>nodes := (nodes s)(i := rf')\<rparr>"
  define e where "e = \<lparr>Command = Some c, Term = ?t\<rparr>"
  let ?X = "whole h i" and ?h = "grow h ?t i e"
  note nd = nodes_okD [OF E(1) i] and L = I(3) [OF i] and R = role_okD [OF I(4) [OF i]]
  have rf': "rf' = (persisted (?rf\<lparr>log := log ?rf @ [e]\<rparr>))
      \<lparr>matchIndex := (matchIndex ?rf)[i := realLogLen ?rf], nextIndex := (nextIndex ?rf)[i := realLogLen ?rf + 1]\<rparr>"
    using Start_state [OF st nd(1)] lead nd(4) by (simp add: e_def)
  have sel: "role rf' = Leader" "currentTerm rf' = ?t" "pterm rf' = ?t" "commitIndex rf' = commitIndex ?rf"
    "lastIncludedIndex rf' = lastIncludedIndex ?rf" "log rf' = log ?rf @ [e]"
    "matchIndex rf' = (matchIndex ?rf)[i := int (length ?X)]"
    "nextIndex rf' = (nextIndex ?rf)[i := int (length ?X) + 1]"
    using full_length(2) [OF log_okD(1) [OF L]] lead by (simp_all add: rf' pterm_def status_def)
  have pt: "pterm ?rf = ?t" using R(1) lead by simp
  have won: "(?t, i) \<in> won h" and H: "lead_log h ?t = ?X" using R(2,3) lead by simp_all
  have pos: "0 < ?t" using hist_okD(4) [OF I(2) won] by simp
  have v: "u \<le> ?t" if "(i, u, c') \<in> votes h" for u c'
    using ballotsD(1) [OF E(3) that] pt by simp
  have te: "Term e = ?t" "Command e \<noteq> None" by (simp_all add: e_def)
  note hist = grow_hist [OF I(2) won te v]
  have g: "grows (lead_log h) (lead_log ?h)" by (rule hist(2))
  have ext: "extends i (nodes s) h ?h" using g won by (auto simp: extends_def)
  have safe: "hsafe n ?h (?X @ [e]) d ?t" if "hsafe n h ?X d ?t" for d
  proof (rule safe_take)
    show "hsafe n ?h ?X d ?t" using hsafe_mono [OF ext that order_refl] .
    show "take (Suc d) ?X = take (Suc d) (?X @ [e])" using that by (simp add: safe_def)
  qed
  have acks: "acks_ok ?h i ?t"
  proof -
    have "0 < u \<and> u \<le> ?t \<and> has (lead_log ?h u) u k \<and> keeps (lead_log ?h) (?X @ [e]) u k ?t"
      if "(i, u, k) \<in> acks h" for u k
    proof -
      have a: "0 < u" "u \<le> ?t" "has (lead_log h u) u k" "keeps (lead_log h) ?X u k ?t"
        using log_okD(6) [OF L] that pt by (simp_all add: acks_ok_def)
      have "keeps (lead_log ?h) (?X @ [e]) u k ?t"
        using keeps_prefix [OF keeps_mono [OF a(4) g order_refl]] by simp
      then show ?thesis using a growsD(4) [OF g a(3)] by blast
    qed
    moreover have "has (?X @ [e]) ?t (length ?X)" by (simp add: has_def te)
    ultimately show ?thesis using pos H by (auto simp: acks_ok_def keeps_def)
  qed
  have br: "branch (lead_log ?h) (?X @ [e])"
    using branch_H [OF growsD(1) [OF g], of ?t] H by simp
  have log: "log_ok n ?h i rf'"
    using full_append [OF log_okD(1) [OF L] sel(6,5)] br safe log_okD(4,5) [OF L] acks pt te log_okD(7) [OF L]
    by (simp add: log_ok_def sel)
  have has: "k = length ?X \<or> has ?X ?t k" if "has (?X @ [e]) ?t k" for k
    using that by (auto simp: has_def nth_append split: if_splits)
  have old: "matchIndex ?rf ! p < int (length ?X)" "nextIndex ?rf ! p \<le> int (length ?X)"
    "\<And>k. commitIndex ?rf < int k \<Longrightarrow> int k \<le> matchIndex ?rf ! p \<Longrightarrow> has ?X ?t k \<Longrightarrow> (p, ?t, k) \<in> acks h"
    if "p < n" for p
    using R(4) [OF lead] that H by (simp_all add: matched_def)
  have own: "(i, ?t, k) \<in> acks ?h" if "has (?X @ [e]) ?t k" for k
    using has [OF that] R(8) [OF lead] by auto
  have "matched n ?h rf'"
    unfolding matched_def
  proof (intro conjI allI impI)
    show "matchIndex rf' ! p < int (length (lead_log ?h (currentTerm rf')))"
      "nextIndex rf' ! p \<le> int (length (lead_log ?h (currentTerm rf')))" if "p < n" for p
      using old(1,2) [OF that] that nd(1,3) H by (cases "p = i"; simp add: sel wf_raft_def)+
    show "(p, currentTerm rf', k) \<in> acks ?h"
      if "p < n" "commitIndex rf' < int k" "int k \<le> matchIndex rf' ! p"
        "has (lead_log ?h (currentTerm rf')) (currentTerm rf') k" for p k
    proof (cases "p = i")
      case True
      then show ?thesis using own that(4) H by (simp add: sel)
    next
      case False
      then have "int k \<le> matchIndex ?rf ! p" using that(3) by (simp add: sel)
      moreover from this have "k \<noteq> length ?X" using old(1) [OF that(1)] by simp
      ultimately show ?thesis using old(3) [OF that(1), of k] that(2,4) has [of k] H by (auto simp: sel)
    qed
  qed
  then have role: "role_ok n ?h i rf'" using own won H by (simp add: role_ok_def sel)
  have on: "carries_on h i ?rf rf'" using lead pt by (simp add: carries_on_def sel)
  have "election_inv n (won h) (votes h) C ?s" by (rule inv_own_step [OF I(1) i oStart [OF st]])
  then have el: "election_inv n (won ?h) (votes ?h) C ?s" by simp
  have "log_inv n P ?h C ?s"
    by (rule log_inv_step [OF inv ext el hist(1) _ on log role]) simp_all
  then show ?thesis by blast
qed

end
