(* ===== verification/Raft_Safety.thy ===== *)
theory Raft_Safety
  imports Raft_Props Raft_Log_Votes
begin

section \<open>Safety of the replicated log\<close>

text \<open>
  The invariant of the logs holds in every reachable state of the cluster.  It gives the log matching
  property, leader completeness, state machine safety and the absence of panics.
\<close>

subsection \<open>Reachable clusters\<close>

lemma log_inv_cluster_step:
  assumes inv: "log_inv n P h C s" and step: "cluster_step n s s'"
  shows "\<exists>h C. log_inv n P h C s'"
  using step
proof (cases rule: cluster_step_cases)
  case election
  then show ?thesis using inv_log_election [OF inv] by blast
next
  case heartbeat
  then show ?thesis using inv_log_heartbeat [OF inv] by blast
next
  case vote
  then show ?thesis using inv_log_RequestVote [OF inv] by blast
next
  case append
  then show ?thesis using inv_log_AppendEntries [OF inv] by blast
next
  case install
  then show ?thesis using inv_log_InstallSnapshot [OF inv] by blast
next
  case counted
  then show ?thesis using inv_log_VoteReply [OF inv] by blast
next
  case appended
  then show ?thesis using inv_log_AppendReply [OF inv] by blast
next
  case installed
  then show ?thesis using inv_log_InstallReply [OF inv] by blast
next
  case (own i rf')
  note I = log_invD [OF inv] and nd = nodes_okD [OF election_invD(1) [OF log_invD(1) [OF inv]] own(1)]
  show ?thesis
  proof (cases "\<exists>c index t ok. Start (nodes s i) c = Some (rf', index, t, ok) \<and> role (nodes s i) = Leader")
    case True
    then show ?thesis using inv_log_Start [OF inv own(1)] own(3) by blast
  next
    case False
    have "stays n h i (nodes s i) rf'"
      using stays_own [OF own(2) False I(3,4) [OF own(1)] nd(1) inv_pterm [OF I(1) own(1)] hist_okD(1) [OF I(2)]] .
    from inv_stays [OF inv inv_own_step [OF I(1) own(1,2)] own(1) _ this] show ?thesis
      by (auto simp: own(3))
  qed
next
  case lose
  then show ?thesis using inv_log_lose [OF inv] by blast
next
  case crash
  then show ?thesis using inv_log_crash [OF inv] by blast
qed

definition no_history :: "'c history" where
  "no_history = \<lparr>lead_log = (\<lambda>t. if t = 0 then [root_entry] else []), whole = (\<lambda>i. [root_entry]), won = {},
     votes = {}, timely = {}, cand_log = (\<lambda>i t. []), voter_log = (\<lambda>i t. []), acks = {}\<rparr>"

lemma log_inv_init:
  assumes "cluster_init n s"
  shows "log_inv n {} no_history (\<lambda>i t. {}) s"
proof -
  have t: "tree (lead_log no_history)"
    by (simp add: tree_def no_history_def branch_def)
  then have h: "hist_ok n no_history"
    by (simp add: hist_ok_def votes_ok_def elections_ok_def) (simp add: no_history_def)
  have "log_ok n no_history i (nodes s i) \<and> role_ok n no_history i (nodes s i)" if "i < n" for i
  proof -
    have m: "Make n (int i) MakePersister = Some (nodes s i)" using assms that by (simp add: cluster_init_def)
    note new = trans [OF m [symmetric] Make_fresh, unfolded option.inject]
    have rf: "log (nodes s i) = [root_entry]" "lastIncludedIndex (nodes s i) = 0" "commitIndex (nodes s i) = 0"
      "role (nodes s i) = Follower" "pterm (nodes s i) = 0"
      by (simp_all add: new pterm_def) (simp add: MakePersister_def ReadRaftState_def)
    have "branch (lead_log no_history) [root_entry]" by (simp add: branch_def no_history_def)
    then show ?thesis
      using rf by (simp add: log_ok_def role_ok_def full_def safe_def acks_ok_def) (simp add: no_history_def)
  qed
  then show ?thesis
    using assms h election_inv_init [OF assms] by (simp add: log_inv_def cluster_init_def) (simp add: no_history_def)
qed

interpretation logs: inductive_invariant "cluster_init n" "cluster_step n"
  "\<lambda>s. \<exists>h C. log_inv n {} h C s" for n
  by unfold_locales (use log_inv_init log_inv_cluster_step in blast)+

text \<open>The same with logs and commit indices that have been seen once.\<close>

interpretation seen: inductive_invariant "\<lambda>s. \<exists>h C. log_inv n P h C s" "cluster_step n"
  "\<lambda>s. \<exists>h C. log_inv n P h C s" for n P
  by unfold_locales (use log_inv_cluster_step in blast)+

lemma log_inv_later:
  assumes "cluster_reach n s" and "(cluster_step n)\<^sup>*\<^sup>* s s'" and "i < n"
  obtains X h C where "full (nodes s i) X" "log_inv n {} h C s'" "branch (lead_log h) X"
    "hsafe n h X (nat (commitIndex (nodes s i))) (currentTerm (nodes s i))"
proof -
  obtain h C where inv: "log_inv n {} h C s" using logs.inv_reach [OF assms(1)] by blast
  let ?X = "whole h i" and ?c = "nat (commitIndex (nodes s i))" and ?T = "currentTerm (nodes s i)"
  note L = log_okD [OF log_invD(3) [OF inv assms(3)]]
  have "log_inv n {(?X, ?c, ?T)} h C s" using inv L(2,4) by (simp add: log_inv_def)
  then obtain h' C' where inv': "log_inv n {(?X, ?c, ?T)} h' C' s'" using seen.inv_steps [OF assms(2)] by blast
  have "log_inv n {} h' C' s'" using inv' by (simp add: log_inv_def)
  then show thesis using that [OF L(1)] log_invD(6) [OF inv', of ?X ?c ?T] by blast
qed

lemma full_entryAt:
  assumes "full rf X" and "lastIncludedIndex rf < x" and "x \<le> lastLogIndex rf"
  shows "entryAt rf x = Some (X ! nat x)"
  using full_nth [OF assms] assms(2,3) by (simp add: entryAt_def)

subsection \<open>An execution with a committed entry\<close>

text \<open>
  The execution of \<open>ex_elected\<close> goes on: the leader gets a command, sends it to peer 1, peer 1 acknowledges it, the
  leader commits it and tells peer 1.
\<close>

definition do_start :: "nat \<Rightarrow> 'c \<Rightarrow> ('c, 'b) cluster \<Rightarrow> ('c, 'b) cluster" where
  "do_start i c s = (case Start (nodes s i) c of None \<Rightarrow> s | Some (rf', _) \<Rightarrow> s\<lparr>nodes := (nodes s)(i := rf')\<rparr>)"

definition do_heartbeat :: "nat \<Rightarrow> ('c, 'b) cluster \<Rightarrow> ('c, 'b) cluster" where
  "do_heartbeat i s = (case heartbeatEvent (nodes s i) of None \<Rightarrow> s | Some outs \<Rightarrow> s\<lparr>net := net s + sends i outs\<rparr>)"

definition do_append :: "nat \<Rightarrow> nat \<Rightarrow> 'c AppendEntriesArgs \<Rightarrow> ('c, 'b) cluster \<Rightarrow> ('c, 'b) cluster" where
  "do_append i j a s = (case AppendEntries (nodes s j) a of None \<Rightarrow> s | Some (rf', ar) \<Rightarrow>
     s\<lparr>nodes := (nodes s)(j := rf'),
       net := net s - {#Request (Some i) j (AppendEntriesRPC a)#} + {#AppendReply i j a ar#}\<rparr>)"

definition do_appended ::
  "nat \<Rightarrow> nat \<Rightarrow> 'c AppendEntriesArgs \<Rightarrow> AppendEntriesReply \<Rightarrow> ('c, 'b) cluster \<Rightarrow> ('c, 'b) cluster" where
  "do_appended i j a ar s = (case handleSendAppendEntries (nodes s i) (int j) a ar of None \<Rightarrow> s | Some rf' \<Rightarrow>
     s\<lparr>nodes := (nodes s)(i := rf'), net := net s - {#AppendReply i j a ar#}\<rparr>)"

lemma do_start_work: "i < n \<Longrightarrow> (raft_work n)\<^sup>*\<^sup>* s (do_start i c s)"
  by (auto simp: do_start_def intro!: wStart split: option.splits)

lemma do_heartbeat_work: "i < n \<Longrightarrow> (raft_work n)\<^sup>*\<^sup>* s (do_heartbeat i s)"
  by (auto simp: do_heartbeat_def intro!: wHeartbeat split: option.splits)

lemma do_append_work:
  "Request (Some i) j (AppendEntriesRPC a) \<in># net s \<Longrightarrow> (raft_work n)\<^sup>*\<^sup>* s (do_append i j a s)"
  using wAppendEntries [of "Some i" j a s] by (auto simp: do_append_def split: option.splits)

lemma do_appended_work:
  "AppendReply i j a ar \<in># net s \<Longrightarrow> (raft_work n)\<^sup>*\<^sup>* s (do_appended i j a ar s)"
  using wAppendReply [of i j a ar s] by (auto simp: do_appended_def split: option.splits)

definition ex_entry :: "'c \<Rightarrow> 'c Logt" where
  "ex_entry c = \<lparr>Command = Some c, Term = 1\<rparr>"

definition ex_appendArgs :: "'c \<Rightarrow> 'c AppendEntriesArgs" where
  "ex_appendArgs c = \<lparr>aea_Term = 1, aea_LeaderId = 0, aea_PrevLogIndex = 0, aea_PrevLogTerm = 0,
     aea_Entries = [ex_entry c], aea_LeaderCommit = 0\<rparr>"

definition ex_commitArgs :: "'c AppendEntriesArgs" where
  "ex_commitArgs = \<lparr>aea_Term = 1, aea_LeaderId = 0, aea_PrevLogIndex = 1, aea_PrevLogTerm = 1,
     aea_Entries = [], aea_LeaderCommit = 1\<rparr>"

definition ex_acked :: AppendEntriesReply where
  "ex_acked = \<lparr>aer_Term = 1, aer_Success = True, aer_XTerm = 0, aer_XIndex = 0, aer_XLen = 0\<rparr>"

definition ex_sent :: "'c \<Rightarrow> ('c, 'b) cluster" where
  "ex_sent c = do_heartbeat 0 (do_start 0 c ex_elected)"

definition ex_replicated :: "'c \<Rightarrow> ('c, 'b) cluster" where
  "ex_replicated c = do_append 0 1 (ex_appendArgs c) (ex_sent c)"

definition ex_announced :: "'c \<Rightarrow> ('c, 'b) cluster" where
  "ex_announced c = do_heartbeat 0 (do_appended 0 1 (ex_appendArgs c) ex_acked (ex_replicated c))"

definition ex_committed :: "'c \<Rightarrow> ('c, 'b) cluster" where
  "ex_committed c = do_append 0 1 ex_commitArgs (ex_announced c)"

lemma ex_replicated_work:
  assumes "Request (Some 0) 1 (AppendEntriesRPC (ex_appendArgs c)) \<in># net (ex_sent c :: ('c, 'b) cluster)"
  shows "(raft_work 3)\<^sup>*\<^sup>* ex_elected (ex_replicated c :: ('c, 'b) cluster)"
  using do_start_work [of 0 3 ex_elected c] do_heartbeat_work [of 0 3 "do_start 0 c ex_elected"]
    do_append_work [OF assms, of 3]
  unfolding ex_replicated_def ex_sent_def by (meson rtranclp_trans zero_less_numeral)

lemmas ex_replicated_steps = ex_replicated_work [THEN work_steps]

lemma ex_committed_work:
  assumes "AppendReply 0 1 (ex_appendArgs c) ex_acked \<in># net (ex_replicated c :: ('c, 'b) cluster)"
    and "Request (Some 0) 1 (AppendEntriesRPC ex_commitArgs) \<in># net (ex_announced c :: ('c, 'b) cluster)"
  shows "(raft_work 3)\<^sup>*\<^sup>* (ex_replicated c) (ex_committed c :: ('c, 'b) cluster)"
  using do_appended_work [OF assms(1), of 3] do_append_work [OF assms(2), of 3]
    do_heartbeat_work [of 0 3 "do_appended 0 1 (ex_appendArgs c) ex_acked (ex_replicated c)"]
  unfolding ex_committed_def ex_announced_def by (meson rtranclp_trans zero_less_numeral)

lemmas ex_committed_steps = ex_committed_work [THEN work_steps]

definition ex_mid :: "(nat, nat) cluster" where "ex_mid = ex_replicated 7"
definition ex_end :: "(nat, nat) cluster" where "ex_end = ex_committed 7"

lemma ex_mid_reach: "cluster_reach 3 ex_mid"
  unfolding ex_mid_def by (rule reach_steps [OF ex_replicated_steps ex_elected_reach]) code_simp

lemma ex_end_steps: "(cluster_step 3)\<^sup>*\<^sup>* ex_mid ex_end"
  unfolding ex_mid_def ex_end_def by (rule ex_committed_steps) code_simp+

lemma ex_end_reach: "cluster_reach 3 ex_end"
  by (rule reach_steps [OF ex_end_steps ex_mid_reach])

subsection \<open>Log matching\<close>

lemma entryAt_full:
  assumes "full rf X" and "entryAt rf x = Some e"
  shows "lastIncludedIndex rf < x" and "x \<le> lastLogIndex rf" and "e = X ! nat x" and "nat x < length X" and "0 < x"
proof -
  show x: "lastIncludedIndex rf < x" "x \<le> lastLogIndex rf"
    using assms(2) by (auto simp: entryAt_def split: if_splits)
  show "e = X ! nat x" using full_entryAt [OF assms(1) x] assms(2) by simp
  show pos: "0 < x" using x(1) assms(1) by (simp add: full_def)
  show "nat x < length X" using x(2) pos full_length(1) [OF assms(1)] by simp
qed

text \<open>C2: log matching.  If two peers, at the same or at different moments, hold entries of the same term at the
  same index, then they hold the same entry, the command included, at every smaller index that both hold.\<close>

theorem log_matching:
  assumes "cluster_reach n s" and "(cluster_step n)\<^sup>*\<^sup>* s s'" and "i < n" and "j < n"
    and "entryAt (nodes s i) x = Some e" and "entryAt (nodes s' j) x = Some e'" and "Term e = Term e'"
    and "entryAt (nodes s i) y = Some d" and "entryAt (nodes s' j) y = Some d'" and "y \<le> x"
  shows "d = d'"
proof -
  obtain X h C where X: "full (nodes s i) X" "log_inv n {} h C s'" "branch (lead_log h) X"
    using log_inv_later [OF assms(1-3)] by blast
  note L = log_okD [OF log_invD(3) [OF X(2) assms(4)]]
  let ?Y = "whole h j"
  note ex = entryAt_full [OF X(1) assms(5)] and ey = entryAt_full [OF L(1) assms(6)]
  have "take (Suc (nat x)) X = take (Suc (nat x)) ?Y"
    using has_same [OF hist_okD(1) [OF log_invD(2) [OF X(2)]] X(3) L(2), of "Term e" "nat x"] ex(3,4) ey(3,4) assms(7)
    by (simp add: has_def)
  from arg_cong [OF this, of "\<lambda>l. l ! nat y"] have "X ! nat y = ?Y ! nat y" using assms(10) by simp
  then show ?thesis
    using entryAt_full(3) [OF X(1) assms(8)] entryAt_full(3) [OF L(1) assms(9)] by simp
qed

theorem log_matching_witness:
  "cluster_reach 3 ex_mid \<and> (cluster_step 3)\<^sup>*\<^sup>* ex_mid ex_end \<and>
   the (entryAt (nodes ex_mid 0) 1) = the (entryAt (nodes ex_end 1) 1)"
proof -
  let ?e = "entryAt (nodes ex_mid 0) 1" and ?d = "entryAt (nodes ex_end 1) 1"
  have "?e \<noteq> None" "?d \<noteq> None" "Term (the ?e) = Term (the ?d)" by code_simp+
  then show ?thesis
    using log_matching [OF ex_mid_reach ex_end_steps, of 0 1 1 "the ?e" "the ?d" 1 "the ?e" "the ?d"]
      ex_mid_reach ex_end_steps by simp
qed

subsection \<open>Leader completeness\<close>

text \<open>C3: leader completeness.  An index that a peer has counted as committed lies within the log of every peer that
  leads, then or later, in a term that is not smaller, and unless the leader has compacted its log past that index
  it holds the very entry that was committed.\<close>

theorem leader_completeness:
  assumes "cluster_reach n s" and "(cluster_step n)\<^sup>*\<^sup>* s s'" and "i < n" and "j < n"
    and "entryAt (nodes s i) x = Some e" and "x \<le> commitIndex (nodes s i)"
    and "role (nodes s' j) = Leader" and "currentTerm (nodes s i) \<le> currentTerm (nodes s' j)"
  shows "x \<le> lastLogIndex (nodes s' j) \<and>
    (lastIncludedIndex (nodes s' j) < x \<longrightarrow> entryAt (nodes s' j) x = Some e)"
proof -
  let ?c = "nat (commitIndex (nodes s i))" and ?t = "currentTerm (nodes s' j)"
  obtain X h C where X: "full (nodes s i) X" "log_inv n {} h C s'" "branch (lead_log h) X"
    "hsafe n h X ?c (currentTerm (nodes s i))"
    using log_inv_later [OF assms(1-3)] by blast
  note I = log_invD [OF X(2)] and L = log_okD [OF log_invD(3) [OF X(2) assms(4)]]
    and R = role_okD [OF log_invD(4) [OF X(2) assms(4)]]
  note ex = entryAt_full [OF X(1) assms(5)]
  have ne: "lead_log h ?t \<noteq> []" using hist_okD(4) [OF I(2) R(2)] assms(7) by simp
  have "take (Suc ?c) X = take (Suc ?c) (lead_log h ?t)"
    using safe_leader [OF hist_okD(1-3) [OF I(2)] X(4,3) assms(8) ne] ex(5) assms(6) by simp
  then have tk: "take (Suc (nat x)) X = take (Suc (nat x)) (whole h j)"
    using take_less [of ?c X "whole h j" "nat x"] assms(6) R(3) [OF assms(7)] by simp
  from arg_cong [OF tk, of length] have len: "nat x < length (whole h j)" using ex(4) by simp
  from arg_cong [OF tk, of "\<lambda>l. l ! nat x"] have "whole h j ! nat x = e" using ex(3) by simp
  then show ?thesis
    using len ex(5) full_length(1) [OF L(1)] full_entryAt [OF L(1)] by simp
qed

theorem leader_completeness_witness:
  "commitIndex (nodes ex_end 1) = 1 \<and> role (nodes ex_end 0) = Leader \<and>
   entryAt (nodes ex_end 0) 1 = entryAt (nodes ex_end 1) 1"
proof -
  have "entryAt (nodes ex_end 1) 1 = Some (ex_entry 7)" by code_simp
  moreover have "commitIndex (nodes ex_end 1) = 1" "role (nodes ex_end 0) = Leader"
    "currentTerm (nodes ex_end 1) \<le> currentTerm (nodes ex_end 0)"
    "lastIncludedIndex (nodes ex_end 0) < 1" by code_simp+
  ultimately show ?thesis
    using leader_completeness [OF ex_end_reach rtranclp.rtrancl_refl,
        of 1 0 1 "ex_entry 7"] by simp
qed

subsection \<open>State machine safety\<close>

text \<open>Only the placeholder of a log has no command.\<close>

lemma entryAt_command:
  assumes "cluster_reach n s" and "i < n" and "entryAt (nodes s i) x = Some e"
  shows "Command e \<noteq> None"
proof -
  obtain h C where inv: "log_inv n {} h C s" using logs.inv_reach [OF assms(1)] by blast
  note L = log_okD [OF log_invD(3) [OF inv assms(2)]] and e = entryAt_full [OF log_okD(1) [OF log_invD(3) [OF inv assms(2)]] assms(3)]
  show ?thesis
    using branch_command [OF hist_okD(1) [OF log_invD(2) [OF inv]] L(2), of "nat x"] e(3-5) by simp
qed

lemma committed_agree:
  assumes "cluster_reach n s" and "(cluster_step n)\<^sup>*\<^sup>* s s'" and "i < n" and "j < n"
    and "entryAt (nodes s i) x = Some e" and "x \<le> commitIndex (nodes s i)"
    and "entryAt (nodes s' j) x = Some e'" and "x \<le> commitIndex (nodes s' j)"
  shows "e = e'"
proof -
  obtain X h C where X: "full (nodes s i) X" "log_inv n {} h C s'"
    "hsafe n h X (nat (commitIndex (nodes s i))) (currentTerm (nodes s i))"
    using log_inv_later [OF assms(1-3)] by blast
  note I = log_invD [OF X(2)] and L = log_okD [OF log_invD(3) [OF X(2) assms(4)]]
  note ex = entryAt_full [OF X(1) assms(5)] and ey = entryAt_full [OF L(1) assms(7)]
  have "X ! nat x = whole h j ! nat x"
    using safe_agree [OF hist_okD(1-3) [OF I(2)] X(3) L(4), of "nat x"] ex(5) assms(6,8) by simp
  then show ?thesis using ex(3) ey(3) by simp
qed

lemma applierCollect_member:
  assumes "applierCollect rf = Some ms" and "m \<in> set ms"
  shows "m = applyOf rf (CommandIndex m)" and "CommandIndex m \<le> commitIndex rf"
    and "lastIncludedIndex rf < CommandIndex m \<Longrightarrow>
      entryAt rf (CommandIndex m) = Some (log rf ! nat (logIndex rf (CommandIndex m)))"
proof -
  let ?P = "\<lambda>ms. \<forall>m \<in> set ms. m = applyOf rf (CommandIndex m) \<and> CommandIndex m \<le> commitIndex rf \<and>
    CommandIndex m \<le> lastLogIndex rf"
  have "?P ms"
    using assms(1) unfolding applierCollect_def
    by (elim for_loop_inv [where P = ?P]) (auto simp: bind_convs go_simps applyOf_def Let_def index_defs)
  with assms(2) have m: "m = applyOf rf (CommandIndex m)" "CommandIndex m \<le> commitIndex rf"
    "CommandIndex m \<le> lastLogIndex rf" by blast+
  then show "m = applyOf rf (CommandIndex m)" "CommandIndex m \<le> commitIndex rf" by blast+
  show "entryAt rf (CommandIndex m) = Some (log rf ! nat (logIndex rf (CommandIndex m)))"
    if "lastIncludedIndex rf < CommandIndex m"
    using that m(3) by (simp add: entryAt_def)
qed

lemma applied_agree:
  assumes "cluster_reach n s" and "(cluster_step n)\<^sup>*\<^sup>* s s'" and "i < n" and "j < n"
    and "applierCollect (nodes s i) = Some ms" and "m \<in> set ms"
    and "applierCollect (nodes s' j) = Some ms'" and "m' \<in> set ms'"
    and "CommandIndex m = CommandIndex m'"
    and "lastIncludedIndex (nodes s i) < CommandIndex m" and "lastIncludedIndex (nodes s' j) < CommandIndex m'"
  shows "m = m'"
proof -
  note A = applierCollect_member [OF assms(5,6)] and B = applierCollect_member [OF assms(7,8)]
  have "log (nodes s i) ! nat (logIndex (nodes s i) (CommandIndex m)) =
      log (nodes s' j) ! nat (logIndex (nodes s' j) (CommandIndex m))"
    using committed_agree [OF assms(1-4) A(3) [OF assms(10)] A(2)] B(2) B(3) [OF assms(11)] assms(9) by simp
  then have "applyOf (nodes s i) (CommandIndex m) = applyOf (nodes s' j) (CommandIndex m')"
    using assms(9) by (simp add: applyOf_def)
  then show ?thesis using A(1) B(1) by simp
qed

text \<open>C4: state machine safety.  Whatever calls are lost or delayed and whichever peers crash, the appliers of two
  peers, at the same or at different moments, never deliver different commands for the same index (indices behind
  the snapshots of the two peers).\<close>

theorem state_machine_safety:
  assumes "cluster_reach n s" and "(cluster_step n)\<^sup>*\<^sup>* s s'" and "i < n" and "j < n"
    and "applierCollect (nodes s i) = Some ms" and "m \<in> set ms"
    and "applierCollect (nodes s' j) = Some ms'" and "m' \<in> set ms'"
    and "CommandIndex m = CommandIndex m'"
    and "lastIncludedIndex (nodes s i) < CommandIndex m" and "lastIncludedIndex (nodes s' j) < CommandIndex m'"
  shows "m = m'"
  using assms by (rule applied_agree)

theorem state_machine_safety_witness:
  "hd (the (applierCollect (nodes ex_end 0))) = hd (the (applierCollect (nodes ex_end 1)))"
proof -
  let ?a = "applierCollect (nodes ex_end 0)" and ?b = "applierCollect (nodes ex_end 1)"
  have "?a \<noteq> None" "?b \<noteq> None" "the ?a \<noteq> []" "the ?b \<noteq> []"
    "CommandIndex (hd (the ?a)) = CommandIndex (hd (the ?b))"
    "lastIncludedIndex (nodes ex_end 0) < CommandIndex (hd (the ?a))"
    "lastIncludedIndex (nodes ex_end 1) < CommandIndex (hd (the ?b))" by code_simp+
  then show ?thesis
    using state_machine_safety [OF ex_end_reach rtranclp.rtrancl_refl,
        of 0 1 "the ?a" "hd (the ?a)" "the ?b" "hd (the ?b)"] by simp
qed

subsection \<open>No panics\<close>

text \<open>No operation of a peer panics in a cluster.  In every reachable state, on every peer, elections,
  heartbeats, all handlers, \<^verbatim>\<open>Start\<close>, \<^verbatim>\<open>Snapshot\<close>, the handling of every reply of a peer and a restart
  return, whatever their arguments are; so does the applier if the log has not been cut off beyond what it has
  recorded, which is the concern of \<open>Raft_Apply\<close>.\<close>

lemma peer_operations_return:
  assumes "cluster_reach n s" and "i < n"
  shows "electionEvent (nodes s i) \<noteq> None \<and> heartbeatEvent (nodes s i) \<noteq> None \<and>
    RequestVote (nodes s i) va \<noteq> None \<and> AppendEntries (nodes s i) aa \<noteq> None \<and>
    InstallSnapshot (nodes s i) ia \<noteq> None \<and> Start (nodes s i) c \<noteq> None \<and> Snapshot (nodes s i) x d \<noteq> None \<and>
    requestVoteReply (nodes s i) k va vr \<noteq> None \<and> restart (nodes s i) \<noteq> None \<and>
    (j < n \<longrightarrow> handleSendAppendEntries (nodes s i) (int j) aa ar \<noteq> None \<and>
       handleSendInstallSnapshot (nodes s i) (int j) ia ir \<noteq> None) \<and>
    (lastIncludedIndex (nodes s i) \<le> lastApplied (nodes s i) \<longrightarrow> applierCollect (nodes s i) \<noteq> None)"
proof -
  obtain h C where inv: "log_inv n {} h C s" using logs.inv_reach [OF assms(1)] by blast
  note I = log_invD [OF inv] and L = log_invD(3) [OF inv assms(2)] and R = role_okD [OF log_invD(4) [OF inv assms(2)]]
  note nd = nodes_okD [OF election_invD(1) [OF I(1)] assms(2)]
  have co: "commit_ok (nodes s i)" by (rule log_ok_commit [OF L])
  have hb: "heartbeatEvent (nodes s i) \<noteq> None"
  proof (cases "role (nodes s i) = Leader")
    case True
    have "\<forall>q < peers (nodes s i). nextIndex (nodes s i) ! q \<le> realLogLen (nodes s i)"
      using R(4) [OF True] R(3) [OF True] full_length(2) [OF log_okD(1) [OF L]] nd(3) by (simp add: matched_def)
    then show ?thesis using operations_return [OF nd(1)] by blast
  qed (simp add: heartbeatEvent_def)
  have rs: "restart (nodes s i) \<noteq> None" using restart_total [OF nd(1,2)] by auto
  show ?thesis
    using operations_return [OF nd(1), of va aa ia c k vr "int j" ar ir x d] co hb rs nd(3) by simp
qed

end
