(* ===== verification/Service.thy ===== *)
theory Service
  imports Go_Prelude "HOL-Library.Sublist"
begin

section \<open>Interfaces of the replicated services\<close>

text \<open>
  Two contracts that the services built on Raft share.  \<open>replicated_service\<close>: the state is a fold of
  the log, and a snapshot stands for a prefix of it, so that a server that jumps to a snapshot and
  goes on with the log is where a server is that has applied the whole log.  \<open>dedup_service\<close>: the
  table of the last sequence number of each client makes repeated commands harmless.  The theory of
  each service interprets both on its own definitions.
\<close>

subsection \<open>Log, snapshots, replay\<close>

text \<open>What Raft puts on the apply channel, without the unused fields.\<close>

datatype ('c, 'b) delivery = Cmd int 'c | Snap int 'b

text \<open>The state after the first \<open>i\<close> commands of a log.\<close>

definition state_at :: "('c \<Rightarrow> 's \<Rightarrow> 's) \<Rightarrow> 's \<Rightarrow> 'c list \<Rightarrow> int \<Rightarrow> 's" where
  "state_at ap s0 lg i = fold ap (take (nat i) lg) s0"

text \<open>
  \<open>deliverable\<close>: the message is one that Raft may send to a server that has applied the log up to index
  \<open>i\<close>: the next command, a snapshot of some prefix or, if \<open>old\<close> is set, a command that the server
  already has.  \<open>orderly\<close>: a sequence of messages, each of them deliverable when it comes.
\<close>

fun deliverable ::
  "bool \<Rightarrow> ('c \<Rightarrow> 's \<Rightarrow> 's) \<Rightarrow> 's \<Rightarrow> ('s \<Rightarrow> 'b) \<Rightarrow> 'c list \<Rightarrow> int \<Rightarrow> ('c, 'b) delivery \<Rightarrow> bool" where
  "deliverable old ap s0 sn lg i (Cmd k c) =
     (0 < k \<and> (k = i + 1 \<or> old \<and> k \<le> i) \<and> nat k \<le> length lg \<and> c = lg ! (nat k - 1))"
| "deliverable old ap s0 sn lg i (Snap k b) =
     (0 \<le> k \<and> nat k \<le> length lg \<and> b = sn (state_at ap s0 lg k))"

fun reached :: "int \<Rightarrow> ('c, 'b) delivery \<Rightarrow> int" where
  "reached i (Cmd k c) = max i k"
| "reached i (Snap k b) = k"

fun orderly ::
  "bool \<Rightarrow> ('c \<Rightarrow> 's \<Rightarrow> 's) \<Rightarrow> 's \<Rightarrow> ('s \<Rightarrow> 'b) \<Rightarrow> 'c list \<Rightarrow> int \<Rightarrow> ('c, 'b) delivery list \<Rightarrow> bool" where
  "orderly old ap s0 sn lg i [] = True"
| "orderly old ap s0 sn lg i (m # ms) =
     (deliverable old ap s0 sn lg i m \<and> orderly old ap s0 sn lg (reached i m) ms)"

lemma state_at_0 [simp]: "state_at ap s0 lg 0 = s0"
  by (simp add: state_at_def)

lemma state_at_next:
  assumes "0 \<le> i" and "nat i < length lg"
  shows "state_at ap s0 lg (i + 1) = ap (lg ! nat i) (state_at ap s0 lg i)"
  using assms by (simp add: state_at_def nat_add_distrib take_Suc_conv_app_nth)

text \<open>
  The contract of a service that relies on Raft to deliver every command once, and the one of a
  service that also recognises a command it already has.
\<close>

locale replicated_service =
  fixes ap :: "'c \<Rightarrow> 's \<Rightarrow> 's"
    and s0 :: 's
    and sn :: "'s \<Rightarrow> 'b"
    and deliver :: "('c, 'b) delivery \<Rightarrow> int \<times> 's \<Rightarrow> int \<times> 's"
  assumes deliver_next: "k = i + 1 \<Longrightarrow> deliver (Cmd k c) (i, s) = (k, ap c s)"
    and deliver_snap: "deliver (Snap k (sn t)) (i, s) = (k, t)"
begin

lemma deliver_state:
  assumes "deliverable False ap s0 sn lg i m" and "0 \<le> i"
  shows "deliver m (i, state_at ap s0 lg i) = (reached i m, state_at ap s0 lg (reached i m)) \<and> 0 \<le> reached i m"
proof (cases m)
  case (Cmd k c)
  with assms(1) have k1: "k = i + 1" "nat k \<le> length lg" "c = lg ! (nat k - 1)" by auto
  moreover have "nat k = Suc (nat i)" using k1(1) assms(2) by simp
  ultimately have k: "k = i + 1" "nat i < length lg" "c = lg ! nat i" by simp_all
  with assms Cmd show ?thesis
    using state_at_next [OF assms(2) k(2), of ap s0] by (simp add: deliver_next)
next
  case (Snap k b)
  with assms show ?thesis by (auto simp: deliver_snap)
qed

lemma replay_eq:
  assumes "orderly False ap s0 sn lg i ms" and "0 \<le> i"
  shows "\<exists>j \<ge> 0. fold deliver ms (i, state_at ap s0 lg i) = (j, state_at ap s0 lg j)"
  using assms
proof (induction ms arbitrary: i)
  case (Cons m ms)
  with deliver_state [of lg i m] Cons.IH [of "reached i m"] show ?case by simp
qed auto

text \<open>Servers that have come to the same index by different messages are in the same state.\<close>

lemma replicas_agree:
  assumes "orderly False ap s0 sn lg 0 ms" and "orderly False ap s0 sn lg 0 ns"
    and "fst (fold deliver ms (0, s0)) = fst (fold deliver ns (0, s0))"
  shows "fold deliver ms (0, s0) = fold deliver ns (0, s0)"
  using replay_eq [OF assms(1)] replay_eq [OF assms(2)] assms(3) by auto

end

locale skipping_service = replicated_service ap s0 sn deliver
  for ap :: "'c \<Rightarrow> 's \<Rightarrow> 's" and s0 :: 's and sn :: "'s \<Rightarrow> 'b"
    and deliver :: "('c, 'b) delivery \<Rightarrow> int \<times> 's \<Rightarrow> int \<times> 's" +
  assumes deliver_old: "k \<le> i \<Longrightarrow> deliver (Cmd k c) (i, s) = (i, s)"
begin

lemma deliver_state_old:
  assumes "deliverable True ap s0 sn lg i m" and "0 \<le> i"
  shows "deliver m (i, state_at ap s0 lg i) = (reached i m, state_at ap s0 lg (reached i m)) \<and> 0 \<le> reached i m"
proof (cases "deliverable False ap s0 sn lg i m")
  case True
  then show ?thesis using assms(2) by (rule deliver_state)
next
  case False
  with assms(1) obtain k c where "m = Cmd k c" "k \<le> i" by (cases m) auto
  then show ?thesis using assms(2) by (simp add: deliver_old max_absorb1)
qed

lemma replay_eq_old:
  assumes "orderly True ap s0 sn lg i ms" and "0 \<le> i"
  shows "\<exists>j \<ge> 0. fold deliver ms (i, state_at ap s0 lg i) = (j, state_at ap s0 lg j)"
  using assms
proof (induction ms arbitrary: i)
  case (Cons m ms)
  with deliver_state_old [of lg i m] Cons.IH [of "reached i m"] show ?case by simp
qed auto

lemma replicas_agree_old:
  assumes "orderly True ap s0 sn lg 0 ms" and "orderly True ap s0 sn lg 0 ns"
    and "fst (fold deliver ms (0, s0)) = fst (fold deliver ns (0, s0))"
  shows "fold deliver ms (0, s0) = fold deliver ns (0, s0)"
  using replay_eq_old [OF assms(1)] replay_eq_old [OF assms(2)] assms(3) by auto

end

subsection \<open>Duplicate suppression\<close>

text \<open>
  A command is identified by its client and its number.  \<open>in_order\<close>: in each client's commands the
  numbers do not go down (repeats are allowed).  \<open>firsts\<close>: the commands without the repeats.
  \<open>newer\<close>: the commands with a greater number than all earlier ones of their client.
\<close>

definition in_order :: "('op \<Rightarrow> int) \<Rightarrow> ('op \<Rightarrow> int) \<Rightarrow> 'op list \<Rightarrow> bool" where
  "in_order cid sid ops \<longleftrightarrow> sorted_wrt (\<lambda>a b. cid a = cid b \<longrightarrow> sid a \<le> sid b) ops"

fun firsts :: "('op \<Rightarrow> int) \<Rightarrow> ('op \<Rightarrow> int) \<Rightarrow> (int \<times> int) list \<Rightarrow> 'op list \<Rightarrow> 'op list" where
  "firsts cid sid seen [] = []"
| "firsts cid sid seen (op # ops) =
     (if (cid op, sid op) \<in> set seen then firsts cid sid seen ops
      else op # firsts cid sid ((cid op, sid op) # seen) ops)"

fun newer :: "('op \<Rightarrow> int) \<Rightarrow> ('op \<Rightarrow> int) \<Rightarrow> (int \<rightharpoonup> int) \<Rightarrow> 'op list \<Rightarrow> 'op list" where
  "newer cid sid dup [] = []"
| "newer cid sid dup (op # ops) =
     (if case dup (cid op) of None \<Rightarrow> False | Some p \<Rightarrow> sid op \<le> p then newer cid sid dup ops
      else op # newer cid sid (dup(cid op \<mapsto> sid op)) ops)"

abbreviation key_of :: "('op \<Rightarrow> int) \<Rightarrow> ('op \<Rightarrow> int) \<Rightarrow> 'op \<Rightarrow> int \<times> int" where
  "key_of cid sid \<equiv> \<lambda>op. (cid op, sid op)"

lemma firsts_unseen: "op \<in> set (firsts cid sid seen ops) \<Longrightarrow> (cid op, sid op) \<notin> set seen"
proof (induction ops arbitrary: seen)
  case (Cons x ops)
  show ?case
  proof (cases "(cid x, sid x) \<in> set seen \<or> op = x")
    case True
    with Cons show ?thesis by (auto split: if_splits)
  next
    case False
    with Cons.prems Cons.IH [of "(cid x, sid x) # seen"] show ?thesis by simp
  qed
qed simp

lemma firsts_distinct: "distinct (map (key_of cid sid) (firsts cid sid seen ops))"
proof (induction ops arbitrary: seen)
  case (Cons op ops)
  have "(cid op, sid op) \<notin> key_of cid sid ` set (firsts cid sid ((cid op, sid op) # seen) ops)"
    using firsts_unseen [of _ cid sid "(cid op, sid op) # seen" ops] by fastforce
  with Cons.IH show ?case by simp
qed simp

lemma firsts_keys:
  "key_of cid sid ` set (firsts cid sid seen ops) = key_of cid sid ` set ops - set seen"
proof (induction ops arbitrary: seen)
  case (Cons op ops)
  show ?case
  proof (cases "(cid op, sid op) \<in> set seen")
    case True
    with Cons.IH [of seen] show ?thesis by auto
  next
    case False
    with Cons.IH [of "(cid op, sid op) # seen"] show ?thesis by auto
  qed
qed simp

lemma newer_above:
  "op \<in> set (newer cid sid dup ops) \<Longrightarrow> dup (cid op) = Some p \<Longrightarrow> p < sid op"
proof (induction ops arbitrary: dup p)
  case (Cons x ops)
  show ?case
  proof (cases "case dup (cid x) of None \<Rightarrow> False | Some p \<Rightarrow> sid x \<le> p")
    case True
    with Cons show ?thesis by simp
  next
    case False
    with Cons.prems consider "op = x" | "op \<in> set (newer cid sid (dup(cid x \<mapsto> sid x)) ops)" by auto
    then show ?thesis
    proof cases
      case 1
      with False Cons.prems(2) show ?thesis by simp
    next
      case 2
      show ?thesis
      proof (cases "cid op = cid x")
        case True
        with Cons.IH [OF 2, of "sid x"] Cons.prems(2) False show ?thesis by simp
      next
        case other: False
        with Cons.IH [OF 2, of p] Cons.prems(2) show ?thesis by simp
      qed
    qed
  qed
qed simp

lemma newer_distinct: "distinct (map (key_of cid sid) (newer cid sid dup ops))"
proof (induction ops arbitrary: dup)
  case (Cons op ops)
  have "(cid op, sid op) \<notin> key_of cid sid ` set (newer cid sid (dup(cid op \<mapsto> sid op)) ops)"
    using newer_above [of _ cid sid "dup(cid op \<mapsto> sid op)" ops "sid op"] by fastforce
  with Cons.IH show ?case by simp
qed simp

lemma newer_subseq: "subseq (newer cid sid dup ops) ops"
  by (induction ops arbitrary: dup) auto

text \<open>
  The contract: \<open>step\<close> runs a command on the table and the data.  A command whose number is the last
  one of its client is skipped, a command with a greater number (or the first one) takes effect;
  nothing is said about smaller numbers.
\<close>

locale dedup_service =
  fixes step :: "'op \<Rightarrow> (int \<rightharpoonup> int) \<times> 'd \<Rightarrow> (int \<rightharpoonup> int) \<times> 'd"
    and cid :: "'op \<Rightarrow> int"
    and sid :: "'op \<Rightarrow> int"
    and eff :: "'op \<Rightarrow> 'd \<Rightarrow> 'd"
  assumes step_same: "dup (cid op) = Some (sid op) \<Longrightarrow> step op (dup, d) = (dup, d)"
    and step_first: "dup (cid op) = None \<Longrightarrow> step op (dup, d) = (dup(cid op \<mapsto> sid op), eff op d)"
    and step_newer: "dup (cid op) = Some p \<Longrightarrow> p < sid op \<Longrightarrow>
      step op (dup, d) = (dup(cid op \<mapsto> sid op), eff op d)"
begin

definition table_ok :: "(int \<times> int) list \<Rightarrow> 'op list \<Rightarrow> (int \<rightharpoonup> int) \<Rightarrow> bool" where
  "table_ok seen ops dup \<longleftrightarrow>
     (\<forall>op p. op \<in> set ops \<longrightarrow> dup (cid op) = Some p \<longrightarrow> p \<le> sid op) \<and>
     (\<forall>c p. dup c = Some p \<longrightarrow> (c, p) \<in> set seen) \<and>
     (\<forall>c s. (c, s) \<in> set seen \<longrightarrow> (\<exists>p. dup c = Some p \<and> s \<le> p))"

lemma table_ok_step:
  assumes "table_ok seen (op # ops) dup"
    and "\<And>b. b \<in> set ops \<Longrightarrow> cid b = cid op \<Longrightarrow> sid op \<le> sid b"
  shows "table_ok ((cid op, sid op) # seen) ops (dup(cid op \<mapsto> sid op))"
  unfolding table_ok_def
proof (intro conjI allI impI)
  show "p \<le> sid b" if "b \<in> set ops" "(dup(cid op \<mapsto> sid op)) (cid b) = Some p" for b p
    using assms that by (auto simp: table_ok_def split: if_splits)
  show "(c, p) \<in> set ((cid op, sid op) # seen)" if "(dup(cid op \<mapsto> sid op)) c = Some p" for c p
    using assms(1) that by (auto simp: table_ok_def split: if_splits)
  show "\<exists>p. (dup(cid op \<mapsto> sid op)) c = Some p \<and> s \<le> p"
    if "(c, s) \<in> set ((cid op, sid op) # seen)" for c s
  proof (cases "c = cid op")
    case True
    have "p \<le> sid op" if "dup (cid op) = Some p" for p
      using assms(1) that by (simp add: table_ok_def)
    moreover have "(cid op, s) \<in> set seen \<Longrightarrow> \<exists>p. dup (cid op) = Some p \<and> s \<le> p"
      using assms(1) by (simp add: table_ok_def)
    ultimately show ?thesis using True that by force
  next
    case False
    then show ?thesis using assms(1) that by (simp add: table_ok_def)
  qed
qed

lemma once_general:
  assumes "in_order cid sid ops" and "table_ok seen ops dup"
  shows "snd (fold step ops (dup, d)) = fold eff (firsts cid sid seen ops) d"
  using assms
proof (induction ops arbitrary: seen dup d)
  case (Cons op ops)
  have io: "in_order cid sid ops" "\<And>b. b \<in> set ops \<Longrightarrow> cid b = cid op \<Longrightarrow> sid op \<le> sid b"
    using Cons.prems(1) by (auto simp: in_order_def)
  note ok = Cons.prems(2) [unfolded table_ok_def]
  show ?case
  proof (cases "(cid op, sid op) \<in> set seen")
    case True
    with ok obtain p where p: "dup (cid op) = Some p" "sid op \<le> p" by blast
    with ok have "p = sid op" by force
    moreover have "table_ok seen ops dup" using ok by (simp add: table_ok_def)
    ultimately show ?thesis using True p(1) Cons.IH [OF io(1)] by (simp add: step_same)
  next
    case False
    have new: "step op (dup, d) = (dup(cid op \<mapsto> sid op), eff op d)"
    proof (cases "dup (cid op)")
      case (Some p)
      with ok have "p \<le> sid op" "(cid op, p) \<in> set seen" by simp_all
      with False have "p < sid op" by (cases "p = sid op") auto
      with Some show ?thesis by (rule step_newer)
    qed (rule step_first)
    note ih = Cons.IH [OF io(1) table_ok_step [OF Cons.prems(2) io(2)]]
    show ?thesis using False by (simp add: new ih)
  qed
qed simp

lemma once_in_order:
  "in_order cid sid ops \<Longrightarrow>
   snd (fold step ops (Map.empty, d)) = fold eff (firsts cid sid [] ops) d"
  by (rule once_general) (simp_all add: table_ok_def)

end

text \<open>With the comparison \<open>\<ge>\<close> a smaller number is skipped too, and the order does not matter.\<close>

locale strict_dedup_service = dedup_service step cid sid eff
  for step :: "'op \<Rightarrow> (int \<rightharpoonup> int) \<times> 'd \<Rightarrow> (int \<rightharpoonup> int) \<times> 'd"
    and cid :: "'op \<Rightarrow> int" and sid :: "'op \<Rightarrow> int" and eff :: "'op \<Rightarrow> 'd \<Rightarrow> 'd" +
  assumes step_older: "dup (cid op) = Some p \<Longrightarrow> sid op < p \<Longrightarrow> step op (dup, d) = (dup, d)"
begin

lemma step_cases:
  "step op (dup, d) = (if case dup (cid op) of None \<Rightarrow> False | Some p \<Rightarrow> sid op \<le> p then (dup, d)
     else (dup(cid op \<mapsto> sid op), eff op d))"
proof (cases "dup (cid op)")
  case (Some p)
  then show ?thesis
    using step_same [of dup op d] step_newer [of dup op p d] step_older [of dup op p d]
    by (cases "sid op" p rule: linorder_cases) auto
qed (simp add: step_first)

lemma run_newer: "snd (fold step ops (dup, d)) = fold eff (newer cid sid dup ops) d"
  by (induction ops arbitrary: dup d) (simp_all add: step_cases)

end

end
