(* ===== verification/Raft_Service.thy ===== *)
theory Raft_Service
  imports Raft_Safety Service
begin

section \<open>What a cluster promises to the services on top of it\<close>

text \<open>
  A service assumes of Raft that all its servers receive the commands of one log.  Here the promise is derived: in
  every run of a cluster the messages that the appliers of two peers deliver, each peer in the order that
  the applier enforces, are messages of one log.
\<close>

definition run :: "nat \<Rightarrow> (nat \<Rightarrow> ('c, 'b) cluster) \<Rightarrow> bool" where
  "run n \<sigma> \<longleftrightarrow> cluster_init n (\<sigma> 0) \<and> (\<forall>t. (cluster_step n)\<^sup>*\<^sup>* (\<sigma> t) (\<sigma> (Suc t)))"

lemma run_steps: "run n \<sigma> \<Longrightarrow> t \<le> t' \<Longrightarrow> (cluster_step n)\<^sup>*\<^sup>* (\<sigma> t) (\<sigma> t')"
proof (induction t' rule: nat_induct)
  case (Suc t')
  then show ?case
    by (cases "t = Suc t'") (auto simp: run_def le_Suc_eq intro: rtranclp_trans)
qed simp

lemma run_reach: "run n \<sigma> \<Longrightarrow> cluster_reach n (\<sigma> t)"
  using reach_steps [OF run_steps [of n \<sigma> 0 t]] by (auto simp: run_def intro: reach_init)

text \<open>
  The applier of peer \<open>i\<close> delivers \<open>m\<close> at some moment of the run.  \<open>steady\<close>: the order of the messages of one peer;
  \<^verbatim>\<open>applierEvent\<close> sends a message only if it is the next one, but after a restart it starts again from the
  snapshot, so that, if \<open>old\<close> is set, a message may come again.
\<close>

definition delivers :: "(nat \<Rightarrow> ('c, 'b) cluster) \<Rightarrow> nat \<Rightarrow> ('c, 'b) ApplyMsg \<Rightarrow> bool" where
  "delivers \<sigma> i m \<longleftrightarrow> (\<exists>t ms. applierCollect (nodes (\<sigma> t) i) = Some ms \<and> m \<in> set ms \<and>
     lastIncludedIndex (nodes (\<sigma> t) i) < CommandIndex m)"

fun steady :: "bool \<Rightarrow> int \<Rightarrow> ('c, 'b) ApplyMsg list \<Rightarrow> bool" where
  "steady old i [] = True"
| "steady old i (m # ms) \<longleftrightarrow> (CommandIndex m = i + 1 \<or> old \<and> CommandIndex m \<le> i) \<and>
     steady old (max i (CommandIndex m)) ms"

lemma delivers_unique:
  assumes "run n \<sigma>" and "i < n" and "j < n" and "delivers \<sigma> i m" and "delivers \<sigma> j m'"
    and "CommandIndex m = CommandIndex m'"
  shows "m = m'"
proof -
  obtain t ms where t: "applierCollect (nodes (\<sigma> t) i) = Some ms" "m \<in> set ms"
    "lastIncludedIndex (nodes (\<sigma> t) i) < CommandIndex m" using assms(4) by (auto simp: delivers_def)
  obtain t' ms' where t': "applierCollect (nodes (\<sigma> t') j) = Some ms'" "m' \<in> set ms'"
    "lastIncludedIndex (nodes (\<sigma> t') j) < CommandIndex m'" using assms(5) by (auto simp: delivers_def)
  note R = run_reach [OF assms(1)] and S = run_steps [OF assms(1)]
  show ?thesis
    using applied_agree [OF R S assms(2,3) t(1,2) t'(1,2) assms(6) t(3) t'(3)]
      applied_agree [OF R S assms(3,2) t'(1,2) t(1,2) assms(6) [symmetric] t'(3) t(3)]
    by (cases "t \<le> t'") auto
qed

lemma delivers_command:
  assumes "run n \<sigma>" and "i < n" and "delivers \<sigma> i m"
  shows "CommandValid m \<and> 0 < CommandIndex m \<and> (\<exists>c. am_Command m = Some c)"
proof -
  obtain t ms where t: "applierCollect (nodes (\<sigma> t) i) = Some ms" "m \<in> set ms"
    "lastIncludedIndex (nodes (\<sigma> t) i) < CommandIndex m" using assms(3) by (auto simp: delivers_def)
  let ?rf = "nodes (\<sigma> t) i"
  note m = applierCollect_member [OF t(1,2)]
  have "Command (log ?rf ! nat (logIndex ?rf (CommandIndex m))) \<noteq> None"
    using entryAt_command [OF run_reach [OF assms(1)] assms(2) m(3) [OF t(3)]] .
  moreover have "am_Command m = Command (log ?rf ! nat (logIndex ?rf (CommandIndex m)))" "CommandValid m"
    using arg_cong [OF m(1), of am_Command] arg_cong [OF m(1), of CommandValid] by (simp_all add: applyOf_def Let_def)
  moreover obtain V C where "election_inv n {} V C (\<sigma> t)"
    using election.inv_reach [OF run_reach [OF assms(1)]] by blast
  then have "0 \<le> lastIncludedIndex ?rf"
    using nodes_okD(1) [OF election_invD(1) assms(2)] wf_raft_def by blast
  ultimately show ?thesis using t(3) by auto
qed

definition cmd_of :: "('c, 'b) ApplyMsg \<Rightarrow> ('c, 'd) delivery" where
  "cmd_of m = Cmd (CommandIndex m) (the (am_Command m))"

text \<open>The services read the bytes of a snapshot with \<open>dec\<close>.\<close>

definition decoded :: "('b \<Rightarrow> 'd) \<Rightarrow> ('c, 'b) ApplyMsg \<Rightarrow> ('c, 'd) ApplyMsg" where
  "decoded dec m = \<lparr>CommandValid = CommandValid m, am_Command = am_Command m, CommandIndex = CommandIndex m,
     CommandTerm = CommandTerm m, SnapshotValid = SnapshotValid m, am_Snapshot = map_option dec (am_Snapshot m),
     SnapshotTerm = SnapshotTerm m, SnapshotIndex = SnapshotIndex m\<rparr>"

text \<open>Messages that carry the commands of the log \<open>lg\<close>, in the order of the applier, are orderly.\<close>

lemma steady_orderly:
  assumes "steady old i ms"
    and "\<And>m. m \<in> set ms \<Longrightarrow> 0 < CommandIndex m \<and> nat (CommandIndex m) \<le> length lg \<and>
      the (am_Command m) = lg ! (nat (CommandIndex m) - 1)"
  shows "orderly old ap s0 sn lg i (map cmd_of ms)"
  using assms by (induction ms arbitrary: i) (auto simp: cmd_of_def)

lemma one_log:
  assumes "run n \<sigma>" and "i < n" and "j < n"
    and "\<forall>m \<in> set ma. delivers \<sigma> i m" and "\<forall>m \<in> set mb. delivers \<sigma> j m"
    and "steady old 0 ma" and "steady old 0 mb"
  shows "\<exists>lg. orderly old ap s0 sn lg 0 (map cmd_of ma) \<and> orderly old ap s0 sn lg 0 (map cmd_of mb)"
proof -
  define U where "U = set ma \<union> set mb"
  define f where "f k = (SOME c. \<exists>m \<in> U. CommandIndex m = k \<and> c = the (am_Command m))" for k
  define N where "N = nat (fold (\<lambda>m. max (CommandIndex m)) (ma @ mb) 0)"
  define lg where "lg = map (\<lambda>k. f (int k + 1)) [0..<N]"
  have uniq: "m = m'" if "m \<in> U" "m' \<in> U" "CommandIndex m = CommandIndex m'" for m m'
    using that assms(2-5) delivers_unique [OF assms(1)] unfolding U_def by (metis Un_iff)
  have f: "f (CommandIndex m) = the (am_Command m)" if "m \<in> U" for m
    unfolding f_def by (rule some_equality) (use that uniq in blast)+
  have pos: "0 < CommandIndex m" if "m \<in> U" for m
    using that assms(2-5) delivers_command [OF assms(1)] unfolding U_def by (metis Un_iff)
  have le: "x \<le> fold (\<lambda>m. max (CommandIndex m)) ms x" and
    up: "m \<in> set ms \<Longrightarrow> CommandIndex m \<le> fold (\<lambda>m. max (CommandIndex m)) ms x" for m ms x
    by (induction ms arbitrary: x) (simp_all, (metis max.bounded_iff max.cobounded1 order_trans)+)
  have "nat (CommandIndex m) \<le> length lg \<and> the (am_Command m) = lg ! (nat (CommandIndex m) - 1)" if "m \<in> U" for m
  proof -
    have "CommandIndex m \<le> int N" using up [of m "ma @ mb" 0] that pos [OF that] by (auto simp: U_def N_def)
    moreover have "\<exists>k. CommandIndex m = int k + 1"
      using pos [OF that] by (intro exI [of _ "nat (CommandIndex m) - 1"]) simp
    then obtain k where k: "CommandIndex m = int k + 1" by blast
    ultimately have "k < N" by simp
    then show ?thesis using f [OF that] by (simp add: lg_def k)
  qed
  then have "m \<in> U \<Longrightarrow> 0 < CommandIndex m \<and> nat (CommandIndex m) \<le> length lg \<and>
      the (am_Command m) = lg ! (nat (CommandIndex m) - 1)" for m using pos by blast
  then show ?thesis
    using steady_orderly [OF assms(6), of lg ap s0 sn] steady_orderly [OF assms(7), of lg ap s0 sn] by (auto simp: U_def)
qed

end
