(* ===== verification/Raft_Apply.thy ===== *)
theory Raft_Apply
  imports Raft_Service
begin

section \<open>The apply channel\<close>

text \<open>
  A cluster together with the goroutines that write to the apply channels and the services that read from them: the
  applier of each peer with its batch of messages, the goroutines that \<^verbatim>\<open>InstallSnapshot\<close> starts, and what the service has
  received.  The steps are those of \<open>Raft_Cluster\<close>, but the applier runs the loop of \<^verbatim>\<open>applierEvent\<close>, and a service
  calls \<^verbatim>\<open>Snapshot\<close> only for the index of a command or of a snapshot that it has received, as all services of the repository do.  From the code of the
  applier follow the order of the deliveries, which the services rely on, and that the applier never looks for an entry
  that has been cut off.
\<close>

subsection \<open>The system\<close>

text \<open>Where the applier is: looking for work, about to send, after the send, after it has lowered \<^verbatim>\<open>replicatePreSnapshot\<close>.\<close>

datatype ('c, 'b) applierPhase =
    ApIdle
  | ApSending "('c, 'b) ApplyMsg"
  | ApReceived "('c, 'b) ApplyMsg"
  | ApLowered "('c, 'b) ApplyMsg"

record ('c, 'b) apply_sys =
  cl :: "('c, 'b) cluster"
  batch :: "nat \<Rightarrow> ('c, 'b) ApplyMsg list" \<comment> \<open>the messages that the applier has collected\<close>
  phase_of :: "nat \<Rightarrow> ('c, 'b) applierPhase"
  snapWait :: "nat \<Rightarrow> ('c, 'b) ApplyMsg list" \<comment> \<open>goroutines that wait for \<^verbatim>\<open>replicatePreSnapshot\<close>\<close>
  snapReady :: "nat \<Rightarrow> ('c, 'b) ApplyMsg list" \<comment> \<open>and those that have found it false\<close>
  received :: "nat \<Rightarrow> ('c, 'b) ApplyMsg list" \<comment> \<open>by the service, since the server has been started\<close>
  deliveries :: "(nat \<times> ('c, 'b) ApplyMsg) list" \<comment> \<open>to all services, also before restarts\<close>
  base :: "nat \<Rightarrow> int" \<comment> \<open>\<open>lastIncludedIndex\<close> when the server was started\<close>

definition apply_init :: "nat \<Rightarrow> ('c, 'b) apply_sys \<Rightarrow> bool" where
  "apply_init n d \<longleftrightarrow> cluster_init n (cl d) \<and> (\<forall>i. batch d i = [] \<and> phase_of d i = ApIdle \<and> snapWait d i = [] \<and>
     snapReady d i = [] \<and> received d i = [] \<and> base d i = 0) \<and> deliveries d = []"

definition set_node :: "nat \<Rightarrow> ('c, 'b) Raft \<Rightarrow> ('c, 'b) apply_sys \<Rightarrow> ('c, 'b) apply_sys" where
  "set_node i rf d = d\<lparr>cl := (cl d)\<lparr>nodes := (nodes (cl d))(i := rf)\<rparr>\<rparr>"

definition receive :: "nat \<Rightarrow> ('c, 'b) ApplyMsg \<Rightarrow> ('c, 'b) apply_sys \<Rightarrow> ('c, 'b) apply_sys" where
  "receive i m d = d\<lparr>received := (received d)(i := received d i @ [m]), deliveries := deliveries d @ [(i, m)]\<rparr>"

definition index_of :: "('c, 'b) ApplyMsg \<Rightarrow> int" where
  "index_of m = (if CommandValid m then CommandIndex m else SnapshotIndex m)"

inductive apply_step :: "nat \<Rightarrow> ('c, 'b) apply_sys \<Rightarrow> ('c, 'b) apply_sys \<Rightarrow> bool" for n where
  aWork: "raft_work n (cl d) s' \<Longrightarrow> apply_step n d (d\<lparr>cl := s'\<rparr>)"
| aInstall: "Request c j (InstallSnapshotRPC a) \<in># net (cl d) \<Longrightarrow> InstallSnapshot (nodes (cl d) j) a = Some (rf', ir, msg) \<Longrightarrow>
    apply_step n d (d\<lparr>cl := (cl d)\<lparr>nodes := (nodes (cl d))(j := rf'),
        net := net (cl d) - {#Request c j (InstallSnapshotRPC a)#} + reply_to c (\<lambda>i. InstallReply i j a ir)\<rparr>,
      snapWait := (snapWait d)(j := snapWait d j @ (case msg of None \<Rightarrow> [] | Some m \<Rightarrow> [m]))\<rparr>)"
| aSnapshot: "i < n \<Longrightarrow> m \<in> set (received d i) \<Longrightarrow> Snapshot (nodes (cl d) i) (index_of m) x = Some rf' \<Longrightarrow> apply_step n d (set_node i rf' d)"
| aCollect: "i < n \<Longrightarrow> phase_of d i = ApIdle \<Longrightarrow> batch d i = [] \<Longrightarrow> lastApplied (nodes (cl d) i) < commitIndex (nodes (cl d) i) \<Longrightarrow>
    applierCollect (nodes (cl d) i) = Some ms \<Longrightarrow> apply_step n d (d\<lparr>batch := (batch d)(i := ms)\<rparr>)"
| aSkip: "i < n \<Longrightarrow> phase_of d i = ApIdle \<Longrightarrow> batch d i = m # ms \<Longrightarrow> applierBegin (nodes (cl d) i) m = None \<Longrightarrow>
    apply_step n d (d\<lparr>batch := (batch d)(i := ms)\<rparr>)"
| aBegin: "i < n \<Longrightarrow> phase_of d i = ApIdle \<Longrightarrow> batch d i = m # ms \<Longrightarrow> applierBegin (nodes (cl d) i) m = Some rf' \<Longrightarrow>
    apply_step n d ((set_node i rf' d)\<lparr>batch := (batch d)(i := ms), phase_of := (phase_of d)(i := ApSending m)\<rparr>)"
| aSend: "i < n \<Longrightarrow> phase_of d i = ApSending m \<Longrightarrow>
    apply_step n d ((receive i m d)\<lparr>phase_of := (phase_of d)(i := ApReceived m)\<rparr>)"
| aLower: "i < n \<Longrightarrow> phase_of d i = ApReceived m \<Longrightarrow>
    apply_step n d ((set_node i (applierSent (nodes (cl d) i)) d)\<lparr>phase_of := (phase_of d)(i := ApLowered m)\<rparr>)"
| aEnd: "i < n \<Longrightarrow> phase_of d i = ApLowered m \<Longrightarrow>
    apply_step n d ((set_node i (applierEnd (nodes (cl d) i) m) d)\<lparr>phase_of := (phase_of d)(i := ApIdle)\<rparr>)"
| aSnapCheck: "i < n \<Longrightarrow> m \<in> set (snapWait d i) \<Longrightarrow> \<not> replicatePreSnapshot (nodes (cl d) i) \<Longrightarrow>
    apply_step n d (d\<lparr>snapWait := (snapWait d)(i := remove1 m (snapWait d i)), snapReady := (snapReady d)(i := snapReady d i @ [m])\<rparr>)"
| aSnapSend: "i < n \<Longrightarrow> m \<in> set (snapReady d i) \<Longrightarrow>
    apply_step n d ((receive i m d)\<lparr>snapReady := (snapReady d)(i := remove1 m (snapReady d i))\<rparr>)"
| aCrash: "i < n \<Longrightarrow> restart (nodes (cl d) i) = Some rf' \<Longrightarrow>
    apply_step n d (d\<lparr>cl := (cl d)\<lparr>nodes := (nodes (cl d))(i := rf'), net := crash_net i (net (cl d))\<rparr>,
      batch := (batch d)(i := []), phase_of := (phase_of d)(i := ApIdle), snapWait := (snapWait d)(i := []),
      snapReady := (snapReady d)(i := []), received := (received d)(i := []), base := (base d)(i := lastIncludedIndex rf')\<rparr>)"

text \<open>The cluster inside takes a step of the cluster, or none.\<close>

lemma apply_cluster: "apply_step n d d' \<Longrightarrow> cl d' = cl d \<or> cluster_step n (cl d) (cl d')"
proof (induction rule: apply_step.induct)
  case (aWork d s')
  then show ?case using work_cluster [OF aWork] by simp
next
  case (aInstall c j a d rf' ir msg)
  then show ?case using cInstallSnapshot by fastforce
next
  case (aSnapshot i m d x rf')
  then show ?case using cSnapshot [of i n "cl d" "index_of m" x rf'] by (simp add: set_node_def)
next
  case (aBegin i d m ms rf')
  then show ?case using cApplierBegin [of i n "cl d" m rf'] by (simp add: set_node_def)
next
  case (aLower i d m)
  then show ?case using cApplierSent [of i n "cl d"] by (simp add: set_node_def)
next
  case (aEnd i d m)
  then show ?case using cApplierEnd [of i n "cl d" m] by (simp add: set_node_def)
next
  case (aCrash i d rf')
  then show ?case using cCrash [of i n "cl d" rf'] by simp
qed (simp_all add: receive_def)

subsection \<open>What a peer keeps\<close>

definition keepsUp :: "('c, 'b) Raft \<Rightarrow> ('c, 'b) Raft \<Rightarrow> bool" where
  "keepsUp rf rf' \<longleftrightarrow> commitIndex rf \<le> commitIndex rf' \<and> lastApplied rf' = lastApplied rf \<and> lastIncludedIndex rf' = lastIncludedIndex rf"

lemma keepsUp_refl [simp]: "keepsUp rf rf"
  by (simp add: keepsUp_def)

lemma AppendEntries_keepsUp:
  assumes "log_inv n P h C s" and "Request c j (AppendEntriesRPC a) \<in># net s" and "AppendEntries (nodes s j) a = Some (rf', ar)"
  shows "keepsUp (nodes s j) rf'"
proof -
  note I = log_invD [OF assms(1)] and E = election_invD [OF log_invD(1) [OF assms(1)]]
  have j: "j < n" using E(2) [OF assms(2)] by simp
  note nd = nodes_okD [OF E(1) j]
  have ok: "entries_of (lead_log h (aea_Term a)) a" using I(5) [OF assms(2)] by (simp add: append_ok_def)
  from assms(3) nd(1) show ?thesis
  proof (cases rule: AppendEntries_cases)
    case accept
    have "commitIndex (nodes s j) \<le> commitIndex (ae_accept (nodes s j) a)"
      using accept_log(2) [OF I(2) I(3) [OF j] ok accept(2-4) refl] by simp
    then show ?thesis by (simp add: accept(5) keepsUp_def) (simp add: ae_accept_def ae_base_def)
  qed (simp_all add: keepsUp_def ae_base_def)
qed

lemma requestVoteReply_keepsUp:
  assumes "wf_raft rf" and "requestVoteReply rf k a r = Some (rf', k', outs)"
  shows "keepsUp rf rf'"
  using assms by (auto simp: requestVoteReply_eq [OF assms(1) refl] keepsUp_def elected_def split: if_splits)

lemma acked_commit [simp]: "commitIndex (acked rf p x) = commitIndex rf"
  by (simp add: acked_def)

lemma handleSendAppendEntries_keepsUp:
  assumes "wf_raft rf" and "0 \<le> p" "p < int (peers rf)" and "handleSendAppendEntries rf p a r = Some rf'"
  shows "keepsUp rf rf'"
proof (cases "\<exists>x. checkAndCommitLogs (acked rf p x) = Some rf'")
  case True
  then obtain x where "checkAndCommitLogs (acked rf p x) = Some rf'" by blast
  then obtain N where "rf' = (acked rf p x)\<lparr>commitIndex := N\<rparr>" "N = commitIndex rf \<or> committable (acked rf p x) N"
    using checkAndCommitLogs_cases [of "acked rf p x" rf'] assms(1) by (metis acked_commit wf_acked)
  then show ?thesis by (auto simp: keepsUp_def acked_def committable_def)
next
  case False
  then show ?thesis
    using assms(4) unfolding handleSendAppendEntries_eq [OF assms(1-3)]
    by (auto simp: keepsUp_def stepDown_def changeRole_def split: if_splits)
qed

lemma work_keepsUp:
  assumes "raft_work n s s'" and "log_inv n P h C s" and "i < n"
  shows "keepsUp (nodes s i) (nodes s' i)"
proof -
  note I = log_invD [OF assms(2)] and E = election_invD [OF log_invD(1) [OF assms(2)]]
  have wf: "wf_raft (nodes s k)" "peers (nodes s k) = n" if "k < n" for k using nodes_okD [OF E(1) that] by simp_all
  from assms(1) show ?thesis
  proof cases
    case (wElection k rf' x reqs)
    then show ?thesis using electionEvent_eq [of "nodes s k"] wf(1) [of k] by (auto simp: keepsUp_def wf_raft_def)
  next
    case (wRequestVote c j a rf' r)
    have "j < n" using E(2) [OF wRequestVote(2)] by simp
    then show ?thesis
      using wRequestVote RequestVote_eq [of "nodes s j" a] wf(1) [of j] by (auto simp: keepsUp_def wf_raft_def voteState_def split: if_splits)
  next
    case (wAppendEntries c j a rf' ar)
    then show ?thesis using AppendEntries_keepsUp [OF assms(2)] by auto
  next
    case (wVoteReply k j a r rf' x outs)
    have "k < n" using E(2) [OF wVoteReply(2)] by simp
    then show ?thesis using wVoteReply requestVoteReply_keepsUp [OF wf(1)] by auto
  next
    case (wAppendReply k j a ar rf')
    have "k < n" "j < n" using E(2) [OF wAppendReply(2)] by simp_all
    then show ?thesis using wAppendReply handleSendAppendEntries_keepsUp [of "nodes s k" "int j" a ar rf'] wf [of k] by auto
  next
    case (wInstallReply k j a ir rf')
    have "k < n" "j < n" using E(2) [OF wInstallReply(2)] by simp_all
    then show ?thesis
      using wInstallReply handleSendInstallSnapshot_eq [of "nodes s k" "int j" a ir] wf [of k]
      by (auto simp: keepsUp_def stepDown_def changeRole_def acked_def split: if_splits)
  next
    case (wStart k cmd rf' index tm ok)
    then show ?thesis using Start_state [OF wStart(3) wf(1)] by (auto simp: keepsUp_def)
  next
    case (wKill k)
    then show ?thesis by (simp add: keepsUp_def Kill_def)
  qed simp_all
qed


subsection \<open>The order of the deliveries\<close>

text \<open>
  The message in the hands of the applier, and the highest index that the service may have seen: the applier records
  an index only after the service has received the message.
\<close>

fun carried :: "('c, 'b) applierPhase \<Rightarrow> ('c, 'b) ApplyMsg option" where
  "carried ApIdle = None"
| "carried (ApSending m) = Some m"
| "carried (ApReceived m) = Some m"
| "carried (ApLowered m) = Some m"

fun seenUpTo :: "int \<Rightarrow> ('c, 'b) applierPhase \<Rightarrow> int" where
  "seenUpTo la (ApReceived m) = max (CommandIndex m) la"
| "seenUpTo la (ApLowered m) = max (CommandIndex m) la"
| "seenUpTo la _ = la"

lemma seen_mono: "la \<le> la' \<Longrightarrow> seenUpTo la ph \<le> seenUpTo la' ph" and seen_le: "la \<le> seenUpTo la ph"
  by (cases ph; simp)+

text \<open>No snapshot has been received since the server was started, and none is on its way.\<close>

definition undisturbed :: "('c, 'b) ApplyMsg list \<Rightarrow> ('c, 'b) ApplyMsg list \<Rightarrow> ('c, 'b) ApplyMsg list \<Rightarrow> bool" where
  "undisturbed w r rc \<longleftrightarrow> w = [] \<and> r = [] \<and> (\<forall>m \<in> set rc. CommandValid m)"

text \<open>
  One server: its peer, the batch and the phase of the applier, waiting and ready snapshots, what has been received, and the
  snapshot index it was started with.
\<close>

definition server_ok :: "('c, 'b) Raft \<Rightarrow> ('c, 'b) ApplyMsg list \<Rightarrow> ('c, 'b) applierPhase \<Rightarrow> ('c, 'b) ApplyMsg list \<Rightarrow>
    ('c, 'b) ApplyMsg list \<Rightarrow> ('c, 'b) ApplyMsg list \<Rightarrow> int \<Rightarrow> bool" where
  "server_ok rf b ph w r rc ba \<longleftrightarrow> lastApplied rf \<le> commitIndex rf \<and> lastIncludedIndex rf \<le> seenUpTo (lastApplied rf) ph \<and>
     (\<forall>m \<in> set b. CommandValid m \<and> CommandIndex m \<le> commitIndex rf) \<and>
     (\<forall>m. carried ph = Some m \<longrightarrow> CommandValid m \<and> CommandIndex m \<le> commitIndex rf \<and> CommandIndex m \<le> lastApplied rf + 1) \<and>
     (\<forall>m \<in> set w \<union> set r. \<not> CommandValid m) \<and>
     (\<forall>m \<in> set w \<union> set r \<union> set rc. \<not> CommandValid m \<longrightarrow> SnapshotIndex m \<le> lastApplied rf) \<and>
     (\<forall>m \<in> set rc. CommandValid m \<longrightarrow> CommandIndex m \<le> seenUpTo (lastApplied rf) ph) \<and>
     (undisturbed w r rc \<longrightarrow> ba \<le> lastApplied rf \<and> map CommandIndex rc = [ba + 1 .. seenUpTo (lastApplied rf) ph] \<and>
        (\<forall>m. carried ph = Some m \<longrightarrow> CommandIndex m = lastApplied rf + 1))"

lemma server_ok_keepsUp:
  assumes "server_ok rf b ph w r rc ba" and "keepsUp rf rf'"
  shows "server_ok rf' b ph w r rc ba"
  using assms by (fastforce simp: server_ok_def keepsUp_def)

lemma server_ok_Snapshot:
  assumes "server_ok rf b ph w r rc ba" and "m \<in> set rc" and "Snapshot rf (index_of m) x = Some rf'"
  shows "server_ok rf' b ph w r rc ba"
  using assms(3)
proof (cases rule: Snapshot_cases)
  case (2 t rest)
  have "index_of m \<le> seenUpTo (lastApplied rf) ph"
    using assms(1,2) seen_le [of "lastApplied rf" ph] by (fastforce simp: server_ok_def index_of_def)
  then show ?thesis using assms(1) by (simp add: server_ok_def 2)
qed (use assms(1) in simp)

lemma snapshotMsg_sel [simp]:
  "\<not> CommandValid (snapshotMsg a)" "SnapshotIndex (snapshotMsg a) = isa_LastIncludedIndex a"
  by (simp_all add: snapshotMsg_def)

lemma server_ok_InstallSnapshot:
  assumes "server_ok rf b ph w r rc ba" and "InstallSnapshot rf a = Some (rf', ir, msg)"
  shows "server_ok rf' b ph (w @ (case msg of None \<Rightarrow> [] | Some m \<Rightarrow> [m])) r rc ba"
proof (cases "msg = None")
  case True
  then have "keepsUp rf rf'" using assms(2) by (auto simp: InstallSnapshot_eq keepsUp_def is_base_def split: if_splits)
  then show ?thesis using server_ok_keepsUp [OF assms(1)] True by simp
next
  case False
  then have a: "commitIndex rf < isa_LastIncludedIndex a" "rf' = persisted (is_installed rf a)" "msg = Some (snapshotMsg a)"
    using assms(2) by (auto simp: InstallSnapshot_eq split: if_splits)
  have "commitIndex rf' = isa_LastIncludedIndex a" "lastApplied rf' = isa_LastIncludedIndex a"
    "lastIncludedIndex rf' = isa_LastIncludedIndex a" by (simp_all add: a(2) is_installed_def)
  moreover have "lastApplied rf \<le> isa_LastIncludedIndex a" using a(1) assms(1) by (simp add: server_ok_def)
  moreover have "seenUpTo (lastApplied rf) ph \<le> seenUpTo (isa_LastIncludedIndex a) ph"
    "isa_LastIncludedIndex a \<le> seenUpTo (isa_LastIncludedIndex a) ph"
    using seen_mono [of "lastApplied rf" "isa_LastIncludedIndex a" ph] seen_le calculation(4) by simp_all
  moreover have "\<not> undisturbed (w @ [snapshotMsg a]) r rc" by (simp add: undisturbed_def)
  ultimately show ?thesis
    using assms(1) a(1) unfolding server_ok_def a(3) by (auto intro: order_trans less_imp_le)
qed

lemma server_ok_collect:
  assumes "server_ok rf [] ApIdle w r rc ba" and "applierCollect rf = Some ms"
  shows "server_ok rf ms ApIdle w r rc ba"
proof -
  have "CommandValid m" if "m \<in> set ms" for m
    using arg_cong [OF applierCollect_member(1) [OF assms(2) that], of CommandValid] by (simp add: applyOf_def Let_def)
  then show ?thesis using assms(1) applierCollect_member(2) [OF assms(2)] by (simp add: server_ok_def)
qed

lemma server_ok_begin:
  assumes "server_ok rf (m # ms) ApIdle w r rc ba" and "applierBegin rf m = Some rf'"
  shows "server_ok rf' ms (ApSending m) w r rc ba"
  using assms by (auto simp: server_ok_def applierBegin_def split: if_splits)

lemma server_ok_send:
  assumes "server_ok rf b (ApSending m) w r rc ba"
  shows "server_ok rf b (ApReceived m) w r (rc @ [m]) ba"
proof -
  have "map CommandIndex rc @ [CommandIndex m] = [ba + 1 .. max (CommandIndex m) (lastApplied rf)]" if "undisturbed w r rc"
  proof -
    have "CommandIndex m = lastApplied rf + 1" "ba \<le> lastApplied rf" "map CommandIndex rc = [ba + 1 .. lastApplied rf]"
      using assms that by (simp_all add: server_ok_def)
    then show ?thesis using upto_rec2 [of "ba + 1" "lastApplied rf + 1"] by (simp add: max_def)
  qed
  moreover have "CommandValid m" using assms by (simp add: server_ok_def)
  then have "undisturbed w r (rc @ [m]) \<longleftrightarrow> undisturbed w r rc" by (auto simp: undisturbed_def)
  ultimately show ?thesis using assms by (auto simp: server_ok_def)
qed

lemma server_ok_lower: "server_ok rf b (ApReceived m) w r rc ba \<Longrightarrow> server_ok (applierSent rf) b (ApLowered m) w r rc ba"
  by (simp add: server_ok_def applierSent_def)

lemma server_ok_end: "server_ok rf b (ApLowered m) w r rc ba \<Longrightarrow> server_ok (applierEnd rf m) b ApIdle w r rc ba"
  by (auto simp: server_ok_def applierEnd_def)

lemma server_ok_snap_check:
  "server_ok rf b ph w r rc ba \<Longrightarrow> m \<in> set w \<Longrightarrow> server_ok rf b ph (remove1 m w) (r @ [m]) rc ba"
  using set_remove1_subset [of m w] by (auto simp: server_ok_def undisturbed_def)

lemma server_ok_snap_send:
  "server_ok rf b ph w r rc ba \<Longrightarrow> m \<in> set r \<Longrightarrow> server_ok rf b ph w (remove1 m r) (rc @ [m]) ba"
  using set_remove1_subset [of m r] by (auto simp: server_ok_def undisturbed_def)

definition at_rest :: "('c, 'b) Raft \<Rightarrow> bool" where
  "at_rest rf \<longleftrightarrow> lastApplied rf = lastIncludedIndex rf \<and> commitIndex rf = lastIncludedIndex rf"

lemma server_ok_at_rest: "at_rest rf \<Longrightarrow> server_ok rf [] ApIdle [] [] [] (lastIncludedIndex rf)"
  by (simp add: server_ok_def at_rest_def)


abbreviation served :: "('c, 'b) apply_sys \<Rightarrow> nat \<Rightarrow> bool" where
  "served d i \<equiv> server_ok (nodes (cl d) i) (batch d i) (phase_of d i) (snapWait d i) (snapReady d i) (received d i) (base d i)"

definition apply_inv :: "nat \<Rightarrow> ('c, 'b) apply_sys \<Rightarrow> bool" where
  "apply_inv n d \<longleftrightarrow> cluster_reach n (cl d) \<and> (\<forall>i < n. served d i)"

abbreviation apply_reach :: "nat \<Rightarrow> ('c, 'b) apply_sys \<Rightarrow> bool" where
  "apply_reach n \<equiv> reach (apply_init n) (apply_step n)"

lemma restart_at_rest:
  assumes "cluster_reach n s" and "i < n" and "restart (nodes s i) = Some rf'"
  shows "at_rest rf'"
proof -
  obtain h C where inv: "log_inv n {} h C s" using logs.inv_reach [OF assms(1)] by blast
  note nd = nodes_okD [OF election_invD(1) [OF log_invD(1) [OF inv]] assms(2)]
  show ?thesis using restart_eq [OF nd(1)] nd(2) assms(3) by (auto simp: at_rest_def durable_def)
qed

lemma served_step:
  assumes "apply_step n d d'" and "apply_inv n d" and "k < n"
  shows "served d' k"
proof -
  have sv: "served d i" if "i < n" for i using assms(2) that by (simp add: apply_inv_def)
  obtain h C where inv: "log_inv n {} h C (cl d)" using logs.inv_reach assms(2) unfolding apply_inv_def by blast
  from assms(1) show ?thesis
  proof cases
    case (aWork s')
    then show ?thesis using server_ok_keepsUp [OF sv [OF assms(3)] work_keepsUp [OF aWork(2) inv assms(3)]] by simp
  next
    case (aInstall c j a rf' ir msg)
    then show ?thesis using server_ok_InstallSnapshot [OF sv aInstall(3)] sv [OF assms(3)] assms(3) by auto
  next
    case (aSnapshot i m x rf')
    then show ?thesis using server_ok_Snapshot [OF sv aSnapshot(3,4)] sv [OF assms(3)] by (auto simp: set_node_def)
  next
    case (aCollect i ms)
    then show ?thesis using server_ok_collect [OF _ aCollect(6)] sv [OF aCollect(2)] sv [OF assms(3)] by auto
  next
    case (aSkip i m ms)
    then show ?thesis using sv [OF aSkip(2)] sv [OF assms(3)] by (auto simp: server_ok_def)
  next
    case (aBegin i m ms rf')
    then show ?thesis using server_ok_begin [OF _ aBegin(5)] sv [OF aBegin(2)] sv [OF assms(3)] by (auto simp: set_node_def)
  next
    case (aSend i m)
    then show ?thesis using server_ok_send sv [OF aSend(2)] sv [OF assms(3)] by (auto simp: receive_def)
  next
    case (aLower i m)
    then show ?thesis using server_ok_lower sv [OF aLower(2)] sv [OF assms(3)] by (auto simp: set_node_def)
  next
    case (aEnd i m)
    then show ?thesis using server_ok_end sv [OF aEnd(2)] sv [OF assms(3)] by (auto simp: set_node_def)
  next
    case (aSnapCheck i m)
    then show ?thesis using server_ok_snap_check [OF sv aSnapCheck(3)] sv [OF assms(3)] by auto
  next
    case (aSnapSend i m)
    then show ?thesis using server_ok_snap_send [OF sv aSnapSend(3)] sv [OF assms(3)] by (auto simp: receive_def)
  next
    case (aCrash i rf')
    have "at_rest rf'" using restart_at_rest aCrash(2,3) assms(2) by (auto simp: apply_inv_def)
    then show ?thesis using aCrash sv [OF assms(3)] by (auto intro: server_ok_at_rest)
  qed
qed

interpretation applying: inductive_invariant "apply_init n" "apply_step n" "apply_inv n" for n
proof
  show "apply_inv n d" if "apply_init n d" for d :: "('a, 'b) apply_sys"
  proof -
    have "at_rest (nodes (cl d) i)" "lastIncludedIndex (nodes (cl d) i) = 0" if "i < n" for i
      using \<open>apply_init n d\<close> that Make_fresh [of n "int i"] unfolding apply_init_def cluster_init_def at_rest_def
      by (metis Raft.select_convs(10,12,13) option.inject)+
    then show ?thesis using that server_ok_at_rest by (fastforce simp: apply_inv_def apply_init_def intro: reach_init)
  qed
  show "apply_inv n d'" if "apply_inv n d" "apply_step n d d'" for d d' :: "('a, 'b) apply_sys"
    using that apply_cluster [OF that(2)] served_step [OF that(2,1)] by (auto simp: apply_inv_def intro: reach_step)
qed


lemma apply_reachD:
  assumes "apply_reach n d"
  shows "cluster_reach n (cl d)" and "i < n \<Longrightarrow> served d i"
  using applying.inv_reach [OF assms] by (simp_all add: apply_inv_def)

subsection \<open>What the services have received\<close>

text \<open>
  The commands in the hands of the applier or of the service have been collected at some moment by the applier
  of this peer.
\<close>

definition apply_run :: "nat \<Rightarrow> (nat \<Rightarrow> ('c, 'b) apply_sys) \<Rightarrow> bool" where
  "apply_run n \<rho> \<longleftrightarrow> apply_init n (\<rho> 0) \<and> (\<forall>t. \<rho> (Suc t) = \<rho> t \<or> apply_step n (\<rho> t) (\<rho> (Suc t)))"

lemma apply_run_reach: "apply_run n \<rho> \<Longrightarrow> apply_reach n (\<rho> t)"
  by (induction t) (auto simp: apply_run_def intro: reach_init reach_step, metis reach_step)

lemma apply_run_cluster: "apply_run n \<rho> \<Longrightarrow> run n (\<lambda>t. cl (\<rho> t))"
  unfolding apply_run_def run_def apply_init_def by (metis apply_cluster r_into_rtranclp rtranclp.rtrancl_refl)

lemma apply_run_extend:
  assumes "apply_run n \<rho>" and "(apply_step n)\<^sup>*\<^sup>* (\<rho> t) d'"
  shows "\<exists>\<rho>' u. apply_run n \<rho>' \<and> (\<forall>v \<le> t. \<rho>' v = \<rho> v) \<and> t \<le> u \<and> \<rho>' u = d'"
  using assms(2)
proof (induction rule: rtranclp_induct)
  case base
  then show ?case using assms(1) by blast
next
  case (step d d')
  then obtain \<rho>' u where u: "apply_run n \<rho>'" "\<forall>v \<le> t. \<rho>' v = \<rho> v" "t \<le> u" "\<rho>' u = d" by blast
  define \<rho>2 where "\<rho>2 v = (if v \<le> u then \<rho>' v else d')" for v
  have "apply_run n \<rho>2" using u(1,4) step.hyps(2) by (auto simp: apply_run_def \<rho>2_def not_le) (metis le_antisym less_Suc_eq_le)
  moreover have "\<forall>v \<le> t. \<rho>2 v = \<rho> v" "t \<le> Suc u" "\<rho>2 (Suc u) = d'" using u(2,3) by (simp_all add: \<rho>2_def)
  ultimately show ?case by blast
qed

lemma apply_reach_run:
  assumes "apply_reach n d"
  shows "\<exists>\<rho> t. apply_run n \<rho> \<and> \<rho> t = d"
  using assms
proof (induction rule: reach.induct)
  case (reach_init d)
  then show ?case by (intro exI [of _ "\<lambda>t. d"]) (simp add: apply_run_def)
next
  case (reach_step d d')
  then show ?case using apply_run_extend by (metis r_into_rtranclp)
qed

definition in_hand :: "('c, 'b) apply_sys \<Rightarrow> nat \<Rightarrow> ('c, 'b) ApplyMsg set" where
  "in_hand d i = set (batch d i) \<union> set_option (carried (phase_of d i)) \<union> set (received d i) \<union> {m. (i, m) \<in> set (deliveries d)}"

lemma collect_delivers:
  assumes "apply_reach n d" and "i < n" and "phase_of d i = ApIdle" and "applierCollect (nodes (cl d) i) = Some ms" and "m \<in> set ms"
  shows "lastIncludedIndex (nodes (cl d) i) < CommandIndex m"
proof -
  note R = apply_reachD [OF assms(1)]
  obtain h C where inv: "log_inv n {} h C (cl d)" using logs.inv_reach [OF R(1)] by blast
  have co: "commit_ok (nodes (cl d) i)" by (rule log_ok_commit [OF log_invD(3) [OF inv assms(2)]])
  have le: "lastIncludedIndex (nodes (cl d) i) \<le> lastApplied (nodes (cl d) i)"
    using R(2) [OF assms(2)] assms(3) by (simp add: server_ok_def)
  then have "m \<in> applyOf (nodes (cl d) i) ` {lastApplied (nodes (cl d) i) + 1 .. commitIndex (nodes (cl d) i)}"
    using applierCollect_eq [OF le co] assms(4,5) by auto
  then show ?thesis using le by (auto simp: applyOf_def Let_def)
qed

lemma snaps_not_commands:
  assumes "apply_reach n d" and "i < n" and "m \<in> set (snapWait d i) \<union> set (snapReady d i)"
  shows "\<not> CommandValid m"
  using apply_reachD(2) [OF assms(1,2)] assms(3) by (simp add: server_ok_def)

lemma in_hand_step:
  assumes "apply_step n d d'" and "apply_reach n d" and "m \<in> in_hand d' i" and "CommandValid m"
  shows "m \<in> in_hand d i \<or> (\<exists>ms. applierCollect (nodes (cl d) i) = Some ms \<and> m \<in> set ms \<and>
    lastIncludedIndex (nodes (cl d) i) < CommandIndex m)"
  using assms(1)
proof cases
  case (aCollect k ms)
  show ?thesis
  proof (cases "k = i \<and> m \<in> set ms")
    case True
    then show ?thesis using aCollect(6) collect_delivers [OF assms(2) aCollect(2,3,6)] by blast
  next
    case False
    then show ?thesis using assms(3) aCollect(1) by (auto simp: in_hand_def split: if_splits)
  qed
next
  case (aSnapSend k m')
  then have "m' \<noteq> m" using snaps_not_commands [OF assms(2) aSnapSend(2), of m'] assms(4) by auto
  then show ?thesis using assms(3) aSnapSend(1) by (auto simp: in_hand_def receive_def split: if_splits)
next
  case (aSkip k m' ms)
  then show ?thesis using assms(3) by (auto simp: in_hand_def split: if_splits)
next
  case (aBegin k m' ms rf')
  then show ?thesis using assms(3) by (auto simp: in_hand_def set_node_def split: if_splits)
next
  case (aSend k m')
  then show ?thesis using assms(3) by (auto simp: in_hand_def receive_def split: if_splits)
qed (use assms(3) in \<open>auto simp: in_hand_def set_node_def split: if_splits\<close>)

lemma in_hand_delivers:
  assumes "apply_run n \<rho>" and "m \<in> in_hand (\<rho> t) i" and "CommandValid m"
  shows "delivers (\<lambda>t. cl (\<rho> t)) i m"
  using assms(2)
proof (induction t)
  case 0
  then show ?case using assms(1) by (simp add: apply_run_def apply_init_def in_hand_def)
next
  case (Suc t)
  show ?case
  proof (cases "\<rho> (Suc t) = \<rho> t")
    case True
    then show ?thesis using Suc by simp
  next
    case False
    then have "apply_step n (\<rho> t) (\<rho> (Suc t))" using assms(1) unfolding apply_run_def by blast
    from in_hand_step [OF this apply_run_reach [OF assms(1)] Suc.prems assms(3)] show ?thesis
      using Suc.IH unfolding delivers_def by blast
  qed
qed


lemma received_delivers:
  assumes "apply_reach n d" and "(apply_step n)\<^sup>*\<^sup>* d d'"
    and "undisturbed (snapWait d i) (snapReady d i) (received d i)" and "undisturbed (snapWait d' j) (snapReady d' j) (received d' j)"
  shows "\<exists>\<sigma>. run n \<sigma> \<and> (\<forall>m \<in> set (received d i). delivers \<sigma> i m) \<and> (\<forall>m \<in> set (received d' j). delivers \<sigma> j m)"
proof -
  obtain \<rho>' t where t: "apply_run n \<rho>'" "\<rho>' t = d" using apply_reach_run [OF assms(1)] by blast
  then obtain \<rho> u where u: "apply_run n \<rho>" "\<rho> t = d" "\<rho> u = d'"
    using apply_run_extend [OF t(1), of t d'] assms(2) by (metis order_refl)
  have "\<forall>m \<in> set (received d i). delivers (\<lambda>t. cl (\<rho> t)) i m"
    using in_hand_delivers [OF u(1), of _ t i] assms(3) by (auto simp: u(2) in_hand_def undisturbed_def)
  moreover have "\<forall>m \<in> set (received d' j). delivers (\<lambda>t. cl (\<rho> t)) j m"
    using in_hand_delivers [OF u(1), of _ u j] assms(4) by (auto simp: u(3) in_hand_def undisturbed_def)
  ultimately show ?thesis using apply_run_cluster [OF u(1)] by blast
qed

text \<open>What two services have received since their servers were started is a piece of one log, without gaps, as long as no snapshot has come.\<close>

lemma received_commands:
  assumes "apply_reach n d" and "i < n" and "base d i = 0" and "undisturbed (snapWait d i) (snapReady d i) (received d i)"
  shows "map CommandIndex (received d i) = [1 .. seenUpTo (lastApplied (nodes (cl d) i)) (phase_of d i)]"
  using apply_reachD(2) [OF assms(1,2)] assms(3,4) by (simp add: server_ok_def)

lemma steady_upto: "map CommandIndex ms = [i + 1 .. k] \<Longrightarrow> steady old i ms"
proof (induction ms arbitrary: i)
  case (Cons m ms)
  then have "i + 1 \<le> k" by (metis list.simps(9) neq_Nil_conv upto_empty not_le)
  then have "CommandIndex m = i + 1" "map CommandIndex ms = [i + 1 + 1 .. k]" using Cons.prems by (simp_all add: upto_rec1)
  then show ?case using Cons.IH [of "i + 1"] by simp
qed simp

lemma received_steady:
  assumes "apply_reach n d" and "i < n" and "base d i = 0" and "undisturbed (snapWait d i) (snapReady d i) (received d i)"
  shows "steady old 0 (received d i)"
  using steady_upto [of "received d i" 0] received_commands [OF assms] by simp

text \<open>The messages of server \<open>i\<close> in a sequence of messages of all servers.\<close>

definition of_server :: "nat \<Rightarrow> (nat \<times> 'm) list \<Rightarrow> 'm list" where
  "of_server i es = map snd (filter (\<lambda>(j, m). j = i) es)"

lemma of_server_Cons [simp]:
  "of_server i ((j, m) # es) = (if j = i then m # of_server i es else of_server i es)" "of_server i [] = []"
  by (simp_all add: of_server_def)

lemma of_server_snoc [simp]: "of_server i (es @ [(j, m)]) = of_server i es @ (if j = i then [m] else [])"
  by (simp add: of_server_def)

lemma set_of_server [simp]: "set (of_server i es) = {m. (i, m) \<in> set es}"
  by (force simp: of_server_def)

lemma steady_snoc:
  assumes "steady True i ms" and "CommandIndex m \<le> i + 1 \<or> (\<exists>m' \<in> set ms. CommandIndex m \<le> CommandIndex m' + 1)"
  shows "steady True i (ms @ [m])"
  using assms
proof (induction ms arbitrary: i)
  case (Cons x ms)
  have "CommandIndex m \<le> max i (CommandIndex x) + 1 \<or> (\<exists>m' \<in> set ms. CommandIndex m \<le> CommandIndex m' + 1)"
    using Cons.prems(2) by auto
  then show ?case using Cons.IH Cons.prems(1) by simp
qed auto

text \<open>
  Without snapshots the deliveries to each service, also those before restarts, have no gaps.  A peer that has no
  snapshot never had one.
\<close>

definition no_snapshots :: "nat \<Rightarrow> ('c, 'b) apply_sys \<Rightarrow> bool" where
  "no_snapshots n d \<longleftrightarrow> (\<forall>i < n. lastIncludedIndex (nodes (cl d) i) = 0)"

definition plain :: "nat \<Rightarrow> ('c, 'b) apply_sys \<Rightarrow> bool" where
  "plain n d \<longleftrightarrow> (\<forall>i < n. base d i = 0 \<and> undisturbed (snapWait d i) (snapReady d i) (received d i) \<and>
     set (received d i) \<subseteq> {m. (i, m) \<in> set (deliveries d)} \<and> steady True 0 (of_server i (deliveries d))) \<and>
     (\<forall>(i, m) \<in> set (deliveries d). i < n \<and> CommandValid m)"

lemma Snapshot_lastIncluded: "Snapshot rf i x = Some rf' \<Longrightarrow> lastIncludedIndex rf \<le> lastIncludedIndex rf'"
  by (elim Snapshot_cases) simp_all

lemma InstallSnapshot_lastIncluded:
  "InstallSnapshot rf a = Some (rf', ir, msg) \<Longrightarrow> lastIncludedIndex rf \<le> lastIncludedIndex rf' \<and>
     (msg \<noteq> None \<longrightarrow> lastIncludedIndex rf < lastIncludedIndex rf')"
  by (auto simp: InstallSnapshot_eq is_base_def is_installed_def split: if_splits)

lemma restart_lastIncluded:
  assumes "cluster_reach n s" and "i < n" and "restart (nodes s i) = Some rf'"
  shows "lastIncludedIndex rf' = lastIncludedIndex (nodes s i)"
proof -
  obtain h C where inv: "log_inv n {} h C s" using logs.inv_reach [OF assms(1)] by blast
  note nd = nodes_okD [OF election_invD(1) [OF log_invD(1) [OF inv]] assms(2)]
  show ?thesis using restart_eq [OF nd(1)] nd(2) assms(3) by (auto simp: durable_def)
qed

lemma lastIncluded_grows:
  assumes "apply_step n d d'" and "apply_reach n d" and "i < n"
  shows "lastIncludedIndex (nodes (cl d) i) \<le> lastIncludedIndex (nodes (cl d') i)"
proof -
  obtain h C where inv: "log_inv n {} h C (cl d)" using logs.inv_reach apply_reachD(1) [OF assms(2)] by blast
  from assms(1) show ?thesis
  proof cases
    case (aWork s')
    then show ?thesis using work_keepsUp [OF aWork(2) inv assms(3)] by (simp add: keepsUp_def)
  next
    case (aInstall c j a rf' ir msg)
    then show ?thesis using InstallSnapshot_lastIncluded [OF aInstall(3)] by auto
  next
    case (aSnapshot k m x rf')
    then show ?thesis using Snapshot_lastIncluded [OF aSnapshot(4)] by (auto simp: set_node_def)
  next
    case (aBegin k m ms rf')
    then show ?thesis by (auto simp: set_node_def applierBegin_def split: if_splits)
  next
    case (aCrash k rf')
    then show ?thesis using restart_lastIncluded [OF apply_reachD(1) [OF assms(2)] aCrash(2,3)] by auto
  qed (simp_all add: set_node_def receive_def applierSent_def applierEnd_def)
qed


lemma plain_send:
  assumes "apply_reach n d" and "i < n" and "phase_of d i = ApSending m" and "plain n d"
  shows "steady True 0 (of_server i (deliveries d) @ [m])"
proof -
  note sv = apply_reachD(2) [OF assms(1,2), unfolded server_ok_def]
  have q: "base d i = 0" "undisturbed (snapWait d i) (snapReady d i) (received d i)"
    "set (received d i) \<subseteq> {m. (i, m) \<in> set (deliveries d)}" "steady True 0 (of_server i (deliveries d))"
    using assms(2,4) by (simp_all add: plain_def)
  let ?la = "lastApplied (nodes (cl d) i)"
  have m: "CommandIndex m = ?la + 1" and rc: "map CommandIndex (received d i) = [1 .. ?la]"
    using sv q(1,2) assms(3) by simp_all
  show ?thesis
  proof (cases "1 \<le> ?la")
    case True
    then have "?la \<in> set (map CommandIndex (received d i))" by (simp add: rc)
    then obtain x where "x \<in> set (received d i)" "CommandIndex m = CommandIndex x + 1" using m by auto
    then have "\<exists>m' \<in> set (of_server i (deliveries d)). CommandIndex m \<le> CommandIndex m' + 1" using q(3) by auto
    then show ?thesis using steady_snoc [OF q(4)] by blast
  next
    case False
    then show ?thesis using steady_snoc [OF q(4)] m by simp
  qed
qed

lemma plain_step:
  assumes "apply_step n d d'" and "apply_reach n d" and "plain n d" and "no_snapshots n d" and "no_snapshots n d'"
  shows "plain n d'"
  using assms(1)
proof cases
  case (aInstall c j a rf' ir msg)
  obtain h C where inv: "log_inv n {} h C (cl d)" using logs.inv_reach apply_reachD(1) [OF assms(2)] by blast
  have "j < n" using election_invD(2) [OF log_invD(1) [OF inv] aInstall(2)] by simp
  then have "msg = None"
    using InstallSnapshot_lastIncluded [OF aInstall(3)] assms(4,5) aInstall(1) by (auto simp: no_snapshots_def)
  then show ?thesis using assms(3) by (simp add: plain_def aInstall(1))
next
  case (aSend i m)
  have "CommandValid m" using apply_reachD(2) [OF assms(2) aSend(2)] aSend(3) by (simp add: server_ok_def)
  then show ?thesis
    using assms(3) plain_send [OF assms(2) aSend(2,3) assms(3)] aSend(1,2) by (auto simp: plain_def receive_def undisturbed_def)
next
  case (aSnapCheck i m)
  then show ?thesis using assms(3) by (auto simp: plain_def undisturbed_def)
next
  case (aSnapSend i m)
  then show ?thesis using assms(3) by (auto simp: plain_def undisturbed_def)
next
  case (aCrash i rf')
  then show ?thesis using assms(3,5) by (auto simp: plain_def no_snapshots_def undisturbed_def)
qed (use assms(3) in \<open>simp_all add: plain_def set_node_def\<close>)

lemma reach_plain: "apply_reach n d \<Longrightarrow> no_snapshots n d \<Longrightarrow> plain n d"
proof (induction rule: reach.induct)
  case (reach_init d)
  then show ?case by (simp add: plain_def apply_init_def undisturbed_def)
next
  case (reach_step d d')
  obtain h C where inv: "log_inv n {} h C (cl d)" using logs.inv_reach apply_reachD(1) [OF reach_step.hyps(1)] by blast
  have "0 \<le> lastIncludedIndex (nodes (cl d) i)" if "i < n" for i
    using nodes_okD(1) [OF election_invD(1) [OF log_invD(1) [OF inv]] that] wf_raft_def by blast
  then have "no_snapshots n d"
    using lastIncluded_grows [OF reach_step.hyps(2,1)] reach_step.prems unfolding no_snapshots_def by (metis order_antisym)
  then show ?case using plain_step [OF reach_step.hyps(2,1)] reach_step.IH reach_step.prems by blast
qed

subsection \<open>No panics\<close>

text \<open>C5: no operation of a peer panics in a cluster whose services call \<^verbatim>\<open>Snapshot\<close> for commands and snapshots they have received.  In
  every reachable state, on every peer, elections, heartbeats, all handlers, \<^verbatim>\<open>Start\<close>, \<^verbatim>\<open>Snapshot\<close>, the handling of every
  reply of a peer and a restart return, whatever their arguments are; and the applier, whenever it looks for work, finds all entries
  that it has to deliver in the log.\<close>

theorem cluster_never_panics:
  assumes "apply_reach n d" and "i < n" and "rf = nodes (cl d) i"
  shows "electionEvent rf \<noteq> None \<and> heartbeatEvent rf \<noteq> None \<and> RequestVote rf va \<noteq> None \<and> AppendEntries rf aa \<noteq> None \<and>
    InstallSnapshot rf ia \<noteq> None \<and> Start rf c \<noteq> None \<and> Snapshot rf x b \<noteq> None \<and> requestVoteReply rf k va vr \<noteq> None \<and>
    restart rf \<noteq> None \<and> (j < n \<longrightarrow> handleSendAppendEntries rf (int j) aa ar \<noteq> None \<and>
       handleSendInstallSnapshot rf (int j) ia ir \<noteq> None) \<and>
    (phase_of d i = ApIdle \<longrightarrow> applierCollect rf \<noteq> None)"
proof -
  note R = apply_reachD [OF assms(1)]
  have "lastIncludedIndex rf \<le> lastApplied rf" if "phase_of d i = ApIdle"
    using R(2) [OF assms(2)] that by (simp add: server_ok_def assms(3))
  then show ?thesis
    using peer_operations_return [OF R(1) assms(2), of va aa ia c x b k vr j ar ir] unfolding assms(3) by blast
qed

text \<open>Without the condition on the services it would: \<^verbatim>\<open>Snapshot\<close> only asks that the index has been committed, and then cuts off
  entries that the applier is going to read.\<close>

lemma early_snapshot_panics:
  assumes "lastIncludedIndex rf < i" and "i \<le> commitIndex rf" and "lastApplied rf + 1 < i" and "Snapshot rf i x = Some rf'"
  shows "applierCollect rf' = None"
proof -
  have "lastIncludedIndex rf' = i" "lastApplied rf' = lastApplied rf" "commitIndex rf' = commitIndex rf"
    using assms(4,1,2) by (auto simp: Snapshot_def bind_convs persist_eq Let_def split: if_splits elim!: Snapshot_cases)
  then show ?thesis using assms(2,3) by (simp add: applierCollect_def upto_rec1 logIndex_def idx_def)
qed


subsection \<open>An execution\<close>

text \<open>The execution of \<open>Raft_Safety\<close>; then the two peers that have committed the command hand it to their services.\<close>

definition bare :: "('c, 'b) cluster \<Rightarrow> ('c, 'b) apply_sys" where
  "bare s = \<lparr>cl = s, batch = (\<lambda>i. []), phase_of = (\<lambda>i. ApIdle), snapWait = (\<lambda>i. []), snapReady = (\<lambda>i. []),
     received = (\<lambda>i. []), deliveries = [], base = (\<lambda>i. 0)\<rparr>"

definition hand_over :: "nat \<Rightarrow> ('c, 'b) ApplyMsg \<Rightarrow> ('c, 'b) apply_sys \<Rightarrow> ('c, 'b) apply_sys" where
  "hand_over i m d = set_node i (applierEnd (applierSent ((nodes (cl d) i)\<lparr>replicatePreSnapshot := True\<rparr>)) m) (receive i m d)"

lemma work_apply: "(raft_work n)\<^sup>*\<^sup>* s s' \<Longrightarrow> apply_reach n (bare s) \<Longrightarrow> apply_reach n (bare s')"
proof (induction rule: rtranclp_induct)
  case (step s' s'')
  have "bare s'' = (bare s')\<lparr>cl := s''\<rparr>" by (simp add: bare_def)
  then show ?case using step aWork [of n "bare s'" s''] by (auto simp: bare_def intro: reach_step)
qed simp

lemma boot_apply: "apply_reach n (bare (boot n))"
  by (rule reach_init) (simp add: apply_init_def bare_def cluster_init_def boot_def Make_fresh)

lemma hand_over_apply:
  assumes "apply_reach n d" and "i < n" and "phase_of d i = ApIdle" and "batch d i = []"
    and "lastApplied (nodes (cl d) i) < commitIndex (nodes (cl d) i)" and "applierCollect (nodes (cl d) i) = Some [m]"
    and "CommandIndex m = lastApplied (nodes (cl d) i) + 1"
  shows "apply_reach n (hand_over i m d)"
proof -
  let ?rf = "(nodes (cl d) i)\<lparr>replicatePreSnapshot := True\<rparr>"
  define d1 where "d1 = d\<lparr>batch := (batch d)(i := [m])\<rparr>"
  define d2 where "d2 = (set_node i ?rf d1)\<lparr>batch := (batch d1)(i := []), phase_of := (phase_of d1)(i := ApSending m)\<rparr>"
  define d3 where "d3 = (receive i m d2)\<lparr>phase_of := (phase_of d2)(i := ApReceived m)\<rparr>"
  define d4 where "d4 = (set_node i (applierSent (nodes (cl d3) i)) d3)\<lparr>phase_of := (phase_of d3)(i := ApLowered m)\<rparr>"
  define d5 where "d5 = (set_node i (applierEnd (nodes (cl d4) i) m) d4)\<lparr>phase_of := (phase_of d4)(i := ApIdle)\<rparr>"
  note ds = d1_def d2_def d3_def d4_def d5_def set_node_def receive_def
  have "apply_step n d d1" unfolding d1_def by (rule aCollect) (use assms in simp_all)
  moreover have "apply_step n d1 d2" unfolding d2_def by (rule aBegin) (use assms in \<open>simp_all add: d1_def applierBegin_def\<close>)
  moreover have "apply_step n d2 d3" unfolding d3_def by (rule aSend) (use assms in \<open>simp_all add: d2_def\<close>)
  moreover have "apply_step n d3 d4" unfolding d4_def by (rule aLower) (use assms in \<open>simp_all add: d3_def\<close>)
  moreover have "apply_step n d4 d5" unfolding d5_def by (rule aEnd) (use assms in \<open>simp_all add: d4_def\<close>)
  ultimately have "apply_reach n d5" using assms(1) by (meson reach_step)
  moreover have "(batch d)(i := []) = batch d" "(phase_of d)(i := ApIdle) = phase_of d" using assms(3,4) by auto
  then have "d5 = hand_over i m d" by (simp add: ds hand_over_def)
  ultimately show ?thesis by simp
qed

definition ex_msg :: "'c \<Rightarrow> ('c, 'b) ApplyMsg" where
  "ex_msg c = \<lparr>CommandValid = True, am_Command = Some c, CommandIndex = 1, CommandTerm = 1, SnapshotValid = False,
     am_Snapshot = None, SnapshotTerm = 0, SnapshotIndex = 0\<rparr>"

definition ex_served1 :: "'c \<Rightarrow> ('c, 'b) apply_sys" where
  "ex_served1 c = hand_over 0 (ex_msg c) (bare (ex_committed c))"

definition ex_served :: "'c \<Rightarrow> ('c, 'b) apply_sys" where
  "ex_served c = hand_over 1 (ex_msg c) (ex_served1 c)"

lemma ex_nat_reach: "apply_reach 3 (ex_served 5 :: (nat, nat) apply_sys)"
proof -
  have "(raft_work 3)\<^sup>*\<^sup>* (boot 3) (ex_elected :: (nat, nat) cluster)" by (rule ex_elected_work [OF refl]) code_simp+
  also have "(raft_work 3)\<^sup>*\<^sup>* (ex_elected :: (nat, nat) cluster) (ex_replicated 5)" by (rule ex_replicated_work) code_simp
  also have "(raft_work 3)\<^sup>*\<^sup>* (ex_replicated 5 :: (nat, nat) cluster) (ex_committed 5)" by (rule ex_committed_work) code_simp+
  finally have "apply_reach 3 (bare (ex_committed 5 :: (nat, nat) cluster))" using work_apply boot_apply by blast
  then have "apply_reach 3 (ex_served1 5 :: (nat, nat) apply_sys)"
    unfolding ex_served1_def by (rule hand_over_apply) code_simp+
  then show ?thesis unfolding ex_served_def by (rule hand_over_apply) code_simp+
qed

theorem cluster_never_panics_witness:
  "\<exists>d :: (nat, nat) apply_sys. apply_reach 3 d \<and> received d 0 \<noteq> [] \<and>
     (\<exists>rf. Snapshot (nodes (cl d) 0) 1 None = Some rf) \<and> applierCollect (nodes (cl d) 1) \<noteq> None"
proof -
  let ?d = "ex_served 5 :: (nat, nat) apply_sys"
  have "received ?d 0 \<noteq> []" "phase_of ?d 1 = ApIdle" by code_simp+
  moreover have "Snapshot (nodes (cl ?d) 0) 1 None \<noteq> None" using cluster_never_panics [OF ex_nat_reach _ refl, of 0] by simp
  moreover have "applierCollect (nodes (cl ?d) 1) \<noteq> None"
    using cluster_never_panics [OF ex_nat_reach _ refl, of 1] calculation(2) by simp
  ultimately show ?thesis using ex_nat_reach by blast
qed

end
