(* ===== verification/Raft_Config_Props.thy ===== *)
theory Raft_Config_Props
  imports Raft_Config Raft_Apply
begin

section \<open>The harness and the cluster\<close>

text \<open>
  The harness keeps the network in step with its list of connected servers and cuts off crashed peers; its restart is the
  restart of the cluster model; and none of its checks fails on what a Raft cluster does.
\<close>

subsection \<open>Loops that may fail\<close>

lemma andThen_Inr: "andThen x f = Inr y \<longleftrightarrow> (\<exists>z. x = Inr z \<and> f z = Inr y)"
  by (cases x) auto

lemma for_checked_invariant:
  assumes "for_checked xs f s = Inr s'" and "P s"
    and "\<And>x s s'. x \<in> set xs \<Longrightarrow> P s \<Longrightarrow> f x s = Inr s' \<Longrightarrow> P s'"
  shows "P s'"
  using assms by (induction xs arbitrary: s) (auto simp: andThen_Inr)

lemma for_checked_append:
  "for_checked (xs @ ys) f s = andThen (for_checked xs f s) (for_checked ys f)"
proof (induction xs arbitrary: s)
  case (Cons x xs)
  then show ?case by (cases "f x s") simp_all
qed simp

subsection \<open>Enabling and disabling ends\<close>

definition setEnabled :: "netName set \<Rightarrow> bool \<Rightarrow> ('c, 'b) config \<Rightarrow> ('c, 'b) config" where
  "setEnabled S yes cfg = cfg\<lparr>cf_net := (cf_net cfg)\<lparr>enabled := (\<lambda>e. if e \<in> S then yes else enabled (cf_net cfg) e)\<rparr>\<rparr>"

lemma setEnabled_sel [simp]:
  "cf_n (setEnabled S yes c) = cf_n c" "cf_connected (setEnabled S yes c) = cf_connected c"
  "cf_endnames (setEnabled S yes c) = cf_endnames c" "cf_rafts (setEnabled S yes c) = cf_rafts c"
  "cf_saved (setEnabled S yes c) = cf_saved c" "cf_logs (setEnabled S yes c) = cf_logs c"
  "cf_applyErr (setEnabled S yes c) = cf_applyErr c"
  "endname_of (setEnabled S yes c) = endname_of c"
  "enabled (cf_net (setEnabled S yes c)) e = (if e \<in> S then yes else enabled (cf_net c) e)"
  "ends (cf_net (setEnabled S yes c)) = ends (cf_net c)"
  "connections (cf_net (setEnabled S yes c)) = connections (cf_net c)"
  "servers (cf_net (setEnabled S yes c)) = servers (cf_net c)"
  by (simp_all add: setEnabled_def endname_of_def fun_eq_iff split: option.split)

lemma setEnabled_empty [simp]: "setEnabled {} yes c = c"
  by (simp add: setEnabled_def)

lemma enableEnd_set: "enableEnd e yes c = setEnabled {Str e} yes c"
  by (auto simp: enableEnd_def setEnabled_def Enable_def fun_eq_iff)

lemma setEnabled_twice [simp]: "setEnabled T yes (setEnabled S yes c) = setEnabled (S \<union> T) yes c"
  by (auto simp: setEnabled_def fun_eq_iff)

lemma enabling_loop:
  assumes "for_checked xs (\<lambda>j c. if P c j then andThen (g c j) (\<lambda>e. Inr (enableEnd e yes c)) else Inr c) cfg = Inr cfg'"
    and "\<And>c j S. P (setEnabled S yes c) j = P c j" and "\<And>c j S. g (setEnabled S yes c) j = g c j"
  shows "cfg' = setEnabled {Str nm | nm j. j \<in> set xs \<and> P cfg j \<and> g cfg j = Inr nm} yes cfg"
  using assms(1)
proof (induction xs arbitrary: cfg)
  case (Cons x xs)
  show ?case
  proof (cases "P cfg x")
    case False
    with Cons.prems have "cfg' = setEnabled {Str nm | nm j. j \<in> set xs \<and> P cfg j \<and> g cfg j = Inr nm} yes cfg"
      by (intro Cons.IH) simp
    moreover have "{Str nm | nm j. j \<in> set (x # xs) \<and> P cfg j \<and> g cfg j = Inr nm} =
        {Str nm | nm j. j \<in> set xs \<and> P cfg j \<and> g cfg j = Inr nm}" using False by auto
    ultimately show ?thesis by simp
  next
    case True
    with Cons.prems obtain nm where nm: "g cfg x = Inr nm" by (auto simp: andThen_Inr)
    let ?c = "setEnabled {Str nm} yes cfg"
    have "cfg' = setEnabled {Str nm | nm j. j \<in> set xs \<and> P ?c j \<and> g ?c j = Inr nm} yes ?c"
      using Cons.prems True nm by (intro Cons.IH) (simp add: enableEnd_set)
    moreover have "{Str nm} \<union> {Str nm | nm j. j \<in> set xs \<and> P cfg j \<and> g cfg j = Inr nm} =
        {Str nm | nm j. j \<in> set (x # xs) \<and> P cfg j \<and> g cfg j = Inr nm}" using True nm by auto
    ultimately show ?thesis by (simp add: assms(2,3))
  qed
qed simp

text \<open>The ends between \<open>i\<close> and the servers of \<open>J\<close>.\<close>

definition endsOf :: "('c, 'b) config \<Rightarrow> nat \<Rightarrow> nat set \<Rightarrow> netName set" where
  "endsOf cfg i J = {Str nm | nm j. j \<in> J \<and> (endname_of cfg i j = Inr nm \<or> endname_of cfg j i = Inr nm)}"

lemma connect_eq:
  assumes "connect cfg i = Inr cfg'"
  shows "i < cf_n cfg \<and> cfg' = setEnabled (endsOf cfg i {j. j < cf_n cfg \<and> (j = i \<or> cf_connected cfg j)}) True
    (cfg\<lparr>cf_connected := (cf_connected cfg)(i := True)\<rparr>)"
proof -
  let ?c = "cfg\<lparr>cf_connected := (cf_connected cfg)(i := True)\<rparr>"
  have i: "i < cf_n cfg" using assms by (auto simp: connect_def split: if_splits)
  with assms obtain c1 where
    1: "for_checked [0..<cf_n cfg] (\<lambda>j c. if cf_connected c j
        then andThen (endname_of c i j) (\<lambda>e. Inr (enableEnd e True c)) else Inr c) ?c = Inr c1" and
    2: "for_checked [0..<cf_n cfg] (\<lambda>j c. if cf_connected c j
        then andThen (endname_of c j i) (\<lambda>e. Inr (enableEnd e True c)) else Inr c) c1 = Inr cfg'"
    by (auto simp: connect_def Let_def andThen_Inr)
  have "c1 = setEnabled {Str nm | nm j. j \<in> set [0..<cf_n cfg] \<and> cf_connected ?c j \<and> endname_of ?c i j = Inr nm} True ?c"
    by (rule enabling_loop [OF 1]) simp_all
  moreover have "cfg' = setEnabled {Str nm | nm j. j \<in> set [0..<cf_n cfg] \<and> cf_connected c1 j \<and> endname_of c1 j i = Inr nm}
      True c1"
    by (rule enabling_loop [OF 2]) simp_all
  moreover have "endname_of ?c = endname_of cfg" by (simp add: endname_of_def fun_eq_iff split: option.split)
  ultimately show ?thesis
    using i by (auto simp: endsOf_def intro!: arg_cong [where f = "\<lambda>S. setEnabled S True ?c"])
qed

lemma disconnect_eq:
  assumes "disconnect cfg i = Inr cfg'"
  shows "i < cf_n cfg \<and> cfg' = setEnabled (endsOf cfg i {..<cf_n cfg}) False
    (cfg\<lparr>cf_connected := (cf_connected cfg)(i := False)\<rparr>)"
proof -
  let ?c = "cfg\<lparr>cf_connected := (cf_connected cfg)(i := False)\<rparr>"
  have i: "i < cf_n cfg" using assms by (auto simp: disconnect_def split: if_splits)
  with assms obtain c1 where
    1: "for_checked [0..<cf_n cfg] (\<lambda>j c. if \<not> Option.is_none (cf_endnames c i)
        then andThen (endname_of c i j) (\<lambda>e. Inr (enableEnd e False c)) else Inr c) ?c = Inr c1" and
    2: "for_checked [0..<cf_n cfg] (\<lambda>j c. if \<not> Option.is_none (cf_endnames c j)
        then andThen (endname_of c j i) (\<lambda>e. Inr (enableEnd e False c)) else Inr c) c1 = Inr cfg'"
    by (auto simp: disconnect_def Let_def andThen_Inr)
  have "c1 = setEnabled {Str nm | nm j. j \<in> set [0..<cf_n cfg] \<and> \<not> Option.is_none (cf_endnames ?c i) \<and> endname_of ?c i j = Inr nm}
      False ?c"
    by (rule enabling_loop [OF 1]) simp_all
  moreover have "cfg' = setEnabled {Str nm | nm j. j \<in> set [0..<cf_n cfg] \<and> \<not> Option.is_none (cf_endnames c1 j) \<and>
      endname_of c1 j i = Inr nm} False c1"
    by (rule enabling_loop [OF 2]) simp_all
  moreover have "endname_of ?c = endname_of cfg" by (simp add: endname_of_def fun_eq_iff split: option.split)
  moreover have "(\<not> Option.is_none (cf_endnames cfg a) \<and> endname_of cfg a b = Inr nm) = (endname_of cfg a b = Inr nm)" for a b nm
    by (auto simp: endname_of_def split: option.splits)
  ultimately show ?thesis
    using i by simp (auto simp: endsOf_def intro!: arg_cong [where f = "\<lambda>S. setEnabled S False ?c"])
qed

subsection \<open>New ends\<close>

text \<open>What \<^verbatim>\<open>start1\<close> does to the network: the names are new and different, and the new ends are connected and disabled.\<close>

lemma makeEnds_loop:
  assumes "for_checked xs (\<lambda>j c. (case MakeEnd (cf_net c) (Str (names j)) of
       None \<Rightarrow> Inl (EndExists (names j))
     | Some (rn, e) \<Rightarrow> Inr (c\<lparr>cf_net := Connect rn (Str (names j)) (Num j)\<rparr>))) c = Inr c'"
    and "distinct xs"
  shows "inj_on names (set xs) \<and> (\<forall>j \<in> set xs. Str (names j) \<notin> dom (ends (cf_net c))) \<and>
    c' = c\<lparr>cf_net := cf_net c'\<rparr> \<and> servers (cf_net c') = servers (cf_net c) \<and>
    dom (ends (cf_net c')) = dom (ends (cf_net c)) \<union> (\<lambda>j. Str (names j)) ` set xs \<and>
    (\<forall>e. enabled (cf_net c') e \<longleftrightarrow> enabled (cf_net c) e \<and> e \<notin> (\<lambda>j. Str (names j)) ` set xs) \<and>
    (\<forall>e. e \<notin> (\<lambda>j. Str (names j)) ` set xs \<longrightarrow> connections (cf_net c') e = connections (cf_net c) e) \<and>
    (\<forall>j \<in> set xs. connections (cf_net c') (Str (names j)) = Some (Num j))"
  using assms
proof (induction xs arbitrary: c)
  case (Cons x xs)
  then obtain rn e where m: "MakeEnd (cf_net c) (Str (names x)) = Some (rn, e)"
    by (cases "MakeEnd (cf_net c) (Str (names x))") auto
  let ?c = "c\<lparr>cf_net := Connect rn (Str (names x)) (Num x)\<rparr>"
  have new: "Str (names x) \<notin> dom (ends (cf_net c))" "servers rn = servers (cf_net c)"
    "dom (ends rn) = insert (Str (names x)) (dom (ends (cf_net c)))"
    "enabled rn = (enabled (cf_net c))(Str (names x) := False)"
    "connections rn = (connections (cf_net c))(Str (names x) := None)"
    using m by (auto simp: MakeEnd_def Let_def split: option.splits)
  have "inj_on names (set xs) \<and> (\<forall>j \<in> set xs. Str (names j) \<notin> dom (ends (cf_net ?c))) \<and>
    c' = ?c\<lparr>cf_net := cf_net c'\<rparr> \<and> servers (cf_net c') = servers (cf_net ?c) \<and>
    dom (ends (cf_net c')) = dom (ends (cf_net ?c)) \<union> (\<lambda>j. Str (names j)) ` set xs \<and>
    (\<forall>e. enabled (cf_net c') e \<longleftrightarrow> enabled (cf_net ?c) e \<and> e \<notin> (\<lambda>j. Str (names j)) ` set xs) \<and>
    (\<forall>e. e \<notin> (\<lambda>j. Str (names j)) ` set xs \<longrightarrow> connections (cf_net c') e = connections (cf_net ?c) e) \<and>
    (\<forall>j \<in> set xs. connections (cf_net c') (Str (names j)) = Some (Num j))"
    using Cons.prems m by (intro Cons.IH) simp_all
  note IH = this
  have x: "Str (names x) \<notin> (\<lambda>j. Str (names j)) ` set xs" using IH new(3) by (auto simp: Connect_def)
  have "connections (cf_net c') (Str (names x)) = Some (Num x)" using IH x by (simp add: Connect_def)
  with IH x show ?case using new Cons.prems(2) by (auto simp: Connect_def)
qed simp

definition makesEnds :: "(nat \<Rightarrow> string) \<Rightarrow> ('c, 'b) config \<Rightarrow> ('c, 'b) config \<Rightarrow> bool" where
  "makesEnds names c c' \<longleftrightarrow> inj_on names {..<cf_n c} \<and> (\<forall>j < cf_n c. Str (names j) \<notin> dom (ends (cf_net c))) \<and>
    servers (cf_net c') = servers (cf_net c) \<and>
    dom (ends (cf_net c')) = dom (ends (cf_net c)) \<union> {Str (names j) | j. j < cf_n c} \<and>
    (\<forall>e. enabled (cf_net c') e \<longleftrightarrow> enabled (cf_net c) e \<and> e \<notin> {Str (names j) | j. j < cf_n c}) \<and>
    (\<forall>e. e \<notin> {Str (names j) | j. j < cf_n c} \<longrightarrow> connections (cf_net c') e = connections (cf_net c) e) \<and>
    (\<forall>j < cf_n c. connections (cf_net c') (Str (names j)) = Some (Num j))"

lemma makeEnds_eq:
  assumes "makeEnds c names = Inr c'"
  shows "makesEnds names c c'" and "c' = c\<lparr>cf_net := cf_net c'\<rparr>"
proof -
  note makeEnds_loop [OF assms [unfolded makeEnds_def]]
  moreover have "(\<lambda>j. Str (names j)) ` set [0..<cf_n c] = {Str (names j) | j. j < cf_n c}" by auto
  ultimately show "makesEnds names c c'" by (simp add: makesEnds_def lessThan_def atLeast0LessThan)
  show "c' = c\<lparr>cf_net := cf_net c'\<rparr>" using makeEnds_loop [OF assms [unfolded makeEnds_def]] by simp
qed

subsection \<open>The network and the list of connected servers\<close>

definition names_ok :: "('c, 'b) config \<Rightarrow> bool" where
  "names_ok cfg \<longleftrightarrow>
     (\<forall>i names j. cf_endnames cfg i = Some names \<longrightarrow> j < cf_n cfg \<longrightarrow> i < cf_n cfg \<and>
       Str (names j) \<in> dom (ends (cf_net cfg)) \<and> connections (cf_net cfg) (Str (names j)) = Some (Num j)) \<and>
     (\<forall>i names j i' names' j'. cf_endnames cfg i = Some names \<longrightarrow> cf_endnames cfg i' = Some names' \<longrightarrow>
       j < cf_n cfg \<longrightarrow> j' < cf_n cfg \<longrightarrow> names j = names' j' \<longrightarrow> i = i' \<and> j = j')"

definition talk :: "('c, 'b) config \<Rightarrow> netName \<Rightarrow> bool" where
  "talk cfg e \<longleftrightarrow> (\<exists>i names j. cf_endnames cfg i = Some names \<and> j < cf_n cfg \<and> e = Str (names j) \<and>
     cf_connected cfg i \<and> cf_connected cfg j)"

definition cfg_ok :: "('c, 'b) config \<Rightarrow> bool" where
  "cfg_ok cfg \<longleftrightarrow> names_ok cfg \<and> (\<forall>e. enabled (cf_net cfg) e = talk cfg e)"

lemma endname_of_iff:
  "endname_of cfg i j = Inr nm \<longleftrightarrow> (\<exists>names. cf_endnames cfg i = Some names \<and> j < cf_n cfg \<and> nm = names j)"
  by (auto simp: endname_of_def split: option.splits)

lemma names_okD:
  assumes "names_ok cfg" and "cf_endnames cfg i = Some names" and "j < cf_n cfg"
  shows "i < cf_n cfg" "Str (names j) \<in> dom (ends (cf_net cfg))" "connections (cf_net cfg) (Str (names j)) = Some (Num j)"
    "cf_endnames cfg i' = Some names' \<Longrightarrow> j' < cf_n cfg \<Longrightarrow> names j = names' j' \<Longrightarrow> i = i' \<and> j = j'"
  using assms unfolding names_ok_def by blast+

text \<open>What the invariant looks at.\<close>

definition same_wires :: "('c, 'b) config \<Rightarrow> ('c, 'b) config \<Rightarrow> bool" where
  "same_wires c c' \<longleftrightarrow> cf_n c' = cf_n c \<and> cf_endnames c' = cf_endnames c \<and> ends (cf_net c') = ends (cf_net c) \<and>
     connections (cf_net c') = connections (cf_net c)"

lemma same_wires_names: "same_wires c c' \<Longrightarrow> names_ok c' = names_ok c"
  by (simp add: same_wires_def names_ok_def)

lemma same_wires_ok:
  "same_wires c c' \<Longrightarrow> cf_connected c' = cf_connected c \<Longrightarrow> enabled (cf_net c') = enabled (cf_net c) \<Longrightarrow> cfg_ok c' = cfg_ok c"
  by (simp add: cfg_ok_def same_wires_names talk_def) (simp add: same_wires_def)

lemma talkI:
  "cf_endnames cfg i = Some names \<Longrightarrow> j < cf_n cfg \<Longrightarrow> cf_connected cfg i \<Longrightarrow> cf_connected cfg j \<Longrightarrow> talk cfg (Str (names j))"
  unfolding talk_def by blast

lemma connect_ok:
  assumes "cfg_ok cfg" and "connect cfg i = Inr cfg'"
  shows "cfg_ok cfg'"
proof -
  let ?E = "endsOf cfg i {j. j < cf_n cfg \<and> (j = i \<or> cf_connected cfg j)}"
  have c: "i < cf_n cfg" "cfg' = setEnabled ?E True (cfg\<lparr>cf_connected := (cf_connected cfg)(i := True)\<rparr>)"
    using connect_eq [OF assms(2)] by simp_all
  have ok: "names_ok cfg" and en: "enabled (cf_net cfg) e = talk cfg e" for e using assms(1) by (auto simp: cfg_ok_def)
  have "(e \<in> ?E \<or> talk cfg e) = talk cfg' e" for e
  proof
    assume "e \<in> ?E \<or> talk cfg e"
    then obtain a names b where t: "cf_endnames cfg a = Some names" "b < cf_n cfg" "e = Str (names b)"
      "a = i \<or> cf_connected cfg a" "b = i \<or> cf_connected cfg b"
      using c(1) unfolding talk_def endsOf_def endname_of_iff by blast
    show "talk cfg' e" unfolding t(3) by (rule talkI) (use t in \<open>auto simp: c(2)\<close>)
  next
    assume "talk cfg' e"
    then obtain a names b where t: "cf_endnames cfg a = Some names" "b < cf_n cfg" "e = Str (names b)"
      "a = i \<or> cf_connected cfg a" "b = i \<or> cf_connected cfg b" unfolding c(2) talk_def by (auto split: if_splits)
    have "a < cf_n cfg" by (rule names_okD(1) [OF ok t(1,2)])
    with t show "e \<in> ?E \<or> talk cfg e"
      unfolding talk_def endsOf_def endname_of_iff by auto
  qed
  moreover have "enabled (cf_net cfg') e = (e \<in> ?E \<or> talk cfg e)" for e by (simp add: c(2) en)
  moreover have "names_ok cfg'" using ok by (simp add: names_ok_def c(2))
  ultimately show ?thesis by (simp add: cfg_ok_def)
qed

lemma disconnect_ok:
  assumes "cfg_ok cfg" and "disconnect cfg i = Inr cfg'"
  shows "cfg_ok cfg'"
proof -
  let ?E = "endsOf cfg i {..<cf_n cfg}"
  have c: "i < cf_n cfg" "cfg' = setEnabled ?E False (cfg\<lparr>cf_connected := (cf_connected cfg)(i := False)\<rparr>)"
    using disconnect_eq [OF assms(2)] by simp_all
  have ok: "names_ok cfg" and en: "enabled (cf_net cfg) e = talk cfg e" for e using assms(1) by (auto simp: cfg_ok_def)
  have "(e \<notin> ?E \<and> talk cfg e) = talk cfg' e" for e
  proof
    assume e: "e \<notin> ?E \<and> talk cfg e"
    then obtain a names b where t: "cf_endnames cfg a = Some names" "b < cf_n cfg" "e = Str (names b)"
      "cf_connected cfg a" "cf_connected cfg b" unfolding talk_def by blast
    have "a < cf_n cfg" by (rule names_okD(1) [OF ok t(1,2)])
    with t e have "a \<noteq> i" "b \<noteq> i" unfolding endsOf_def endname_of_iff by auto
    with t show "talk cfg' e" unfolding t(3) by (intro talkI) (auto simp: c(2))
  next
    assume "talk cfg' e"
    then obtain a names b where t: "cf_endnames cfg a = Some names" "b < cf_n cfg" "e = Str (names b)"
      "a \<noteq> i" "cf_connected cfg a" "b \<noteq> i" "cf_connected cfg b" unfolding c(2) talk_def by (auto split: if_splits)
    have "e \<notin> ?E"
      using names_okD(4) [OF ok t(1,2)] t(3,4,6) c(1) unfolding endsOf_def endname_of_iff by blast
    with t show "e \<notin> ?E \<and> talk cfg e" unfolding talk_def by blast
  qed
  moreover have "enabled (cf_net cfg') e = (e \<notin> ?E \<and> talk cfg e)" for e by (simp add: c(2) en)
  moreover have "names_ok cfg'" using ok by (simp add: names_ok_def c(2))
  ultimately show ?thesis by (simp add: cfg_ok_def)
qed

text \<open>A crashed server is disconnected, and nothing is left of its peer but what it has stored.\<close>

lemma crash1_eq:
  assumes "crash1 cfg i = Inr c"
  shows "\<exists>c0. disconnect cfg i = Inr c0 \<and> same_wires c0 c \<and> cf_connected c = cf_connected c0 \<and>
    enabled (cf_net c) = enabled (cf_net c0) \<and> cf_rafts c = (cf_rafts cfg)(i := None) \<and>
    cf_saved c = (cf_saved cfg)(i := saved cfg i) \<and> cf_logs c = cf_logs cfg \<and> cf_applyErr c = cf_applyErr cfg"
proof -
  from assms obtain c0 where d: "disconnect cfg i = Inr c0" by (auto simp: crash1_def andThen_Inr)
  have same: "cf_rafts c0 = cf_rafts cfg" "cf_saved c0 = cf_saved cfg" "cf_logs c0 = cf_logs cfg"
    "cf_applyErr c0 = cf_applyErr cfg" using disconnect_eq [OF d] by auto
  have "map_option (\<lambda>ps. Save \<lparr>raftstate = None, psnapshot = None\<rparr> (ReadRaftState ps) (ReadSnapshot ps))
      (map_option Copy x) = x" for x :: "('a PersistentStatus, 'b) Persister option"
    by (cases x) (simp_all add: Save_def ReadRaftState_def ReadSnapshot_def Copy_def MakePersister_def)
  moreover have "saved (c0\<lparr>cf_net := rn\<rparr>) i = saved cfg i" for rn by (simp add: saved_def same split: option.split)
  ultimately show ?thesis using assms d same
    by (auto simp: crash1_def Let_def same_wires_def DeleteServer_def)
qed

lemma crash1_ok: "cfg_ok cfg \<Longrightarrow> crash1 cfg i = Inr c \<Longrightarrow> cfg_ok c"
  using crash1_eq [of cfg i c] disconnect_ok [of cfg i] same_wires_ok by blast

lemma start1_eq:
  assumes "start1 dec names srv cfg i = Inr cfg'"
  shows "\<exists>c c1 rf. crash1 cfg i = Inr c \<and>
    makeEnds (c\<lparr>cf_endnames := (cf_endnames c)(i := Some names)\<rparr>) names = Inr c1 \<and>
    cf_n cfg' = cf_n cfg \<and> cf_endnames cfg' = cf_endnames c1 \<and> cf_connected cfg' = cf_connected c1 \<and>
    cf_endnames c1 = (cf_endnames cfg)(i := Some names) \<and>
    dom (ends (cf_net c1)) = dom (ends (cf_net cfg)) \<union> {Str (names j) | j. j < cf_n cfg} \<and>
    cf_net cfg' = AddServer (cf_net c1) (Num i) srv \<and> cf_applyErr cfg' = cf_applyErr cfg \<and>
    Make (cf_n cfg) (int i) (case saved cfg i of None \<Rightarrow> MakePersister | Some ps \<Rightarrow> Copy ps) = Some rf \<and>
    cf_rafts cfg' = (cf_rafts cfg)(i := Some rf) \<and>
    (\<forall>j. j \<noteq> i \<longrightarrow> cf_saved cfg' j = cf_saved cfg j) \<and> (saved cfg i = None \<longrightarrow> cf_logs cfg' = cf_logs cfg)"
proof -
  from assms obtain c c1 where c: "crash1 cfg i = Inr c"
    and c1: "makeEnds (c\<lparr>cf_endnames := (cf_endnames c)(i := Some names)\<rparr>) names = Inr c1"
    by (auto simp: start1_def andThen_Inr)
  obtain c0 where d: "disconnect cfg i = Inr c0" and e: "same_wires c0 c" "cf_rafts c = (cf_rafts cfg)(i := None)"
    "cf_saved c = (cf_saved cfg)(i := saved cfg i)" "cf_logs c = cf_logs cfg" "cf_applyErr c = cf_applyErr cfg"
    using crash1_eq [OF c] by blast
  have n: "cf_n c = cf_n cfg" and w: "cf_endnames c = cf_endnames cfg" "ends (cf_net c) = ends (cf_net cfg)"
    using disconnect_eq [OF d] e(1) by (auto simp: same_wires_def)
  have dm: "dom (ends (cf_net c1)) = dom (ends (cf_net cfg)) \<union> {Str (names j) | j. j < cf_n cfg}"
    using makeEnds_eq(1) [OF c1] by (simp add: makesEnds_def n w)
  have en: "cf_endnames c1 = (cf_endnames cfg)(i := Some names)" by (subst makeEnds_eq(2) [OF c1], simp add: w)
  have sel: "cf_n c1 = cf_n cfg" "cf_rafts c1 = (cf_rafts cfg)(i := None)" "cf_saved c1 = (cf_saved cfg)(i := saved cfg i)"
    "cf_logs c1 = cf_logs cfg" "cf_applyErr c1 = cf_applyErr cfg"
    by (subst makeEnds_eq(2) [OF c1], simp add: e n)+
  from assms c c1 sel dm en show ?thesis
    by (intro exI [of _ c] exI [of _ c1])
      (auto simp: start1_def Let_def ingestSnap_def split: option.splits if_splits)
qed

lemma start1_ok:
  assumes "cfg_ok cfg" and "start1 dec names srv cfg i = Inr cfg'"
  shows "cfg_ok cfg'"
proof -
  obtain c c1 where c: "crash1 cfg i = Inr c" and
    m: "makeEnds (c\<lparr>cf_endnames := (cf_endnames c)(i := Some names)\<rparr>) names = Inr c1" and
    w: "cf_n cfg' = cf_n cfg" "cf_endnames cfg' = cf_endnames c1" "cf_connected cfg' = cf_connected c1"
      "cf_net cfg' = AddServer (cf_net c1) (Num i) srv"
    using start1_eq [OF assms(2)] by blast
  obtain c0 where d: "disconnect cfg i = Inr c0" "same_wires c0 c" "cf_connected c = cf_connected c0"
    using crash1_eq [OF c] by blast
  have off: "\<not> cf_connected c i" and n: "cf_n c = cf_n cfg" and i: "i < cf_n c"
    using disconnect_eq [OF d(1)] d(2,3) by (auto simp: same_wires_def)
  have ok: "names_ok c" and en: "enabled (cf_net c) e = talk c e" for e
    using crash1_ok [OF assms(1) c] by (auto simp: cfg_ok_def)
  have sel: "cf_n c1 = cf_n c" "cf_endnames c1 = (cf_endnames c)(i := Some names)" "cf_connected c1 = cf_connected c"
    by (subst makeEnds_eq(2) [OF m], simp)+
  define N where "N = {Str (names j) | j. j < cf_n c}"
  have inj: "inj_on names {..<cf_n c}" and new: "j < cf_n c \<Longrightarrow> Str (names j) \<notin> dom (ends (cf_net c))"
    and dom: "dom (ends (cf_net c1)) = dom (ends (cf_net c)) \<union> N"
    and con: "j < cf_n c \<Longrightarrow> connections (cf_net c1) (Str (names j)) = Some (Num j)"
      "e \<notin> N \<Longrightarrow> connections (cf_net c1) e = connections (cf_net c) e"
    and enb: "enabled (cf_net c1) e \<longleftrightarrow> enabled (cf_net c) e \<and> e \<notin> N" for j e
    using makeEnds_eq(1) [OF m] by (auto simp: makesEnds_def N_def)
  have old: "Str (names' j) \<notin> N" if "cf_endnames c a = Some names'" "j < cf_n c" for a names' j
    using names_okD(2) [OF ok that] new by (fastforce simp: N_def)
  have other: "names j \<noteq> names' j'" if "cf_endnames c a = Some names'" "j < cf_n c" "j' < cf_n c" for a names' j j'
    using old [OF that(1,3)] that(2) by (auto simp: N_def)
  have wired: "a < cf_n c \<and> Str (nm b) \<in> dom (ends (cf_net c1)) \<and> connections (cf_net c1) (Str (nm b)) = Some (Num b)"
    if "cf_endnames c1 a = Some nm" "b < cf_n c" for a nm b
  proof (cases "a = i")
    case True
    then show ?thesis using that i con(1) dom by (auto simp: sel N_def)
  next
    case False
    with that have "cf_endnames c a = Some nm" by (simp add: sel)
    from names_okD(1-3) [OF ok this that(2)] old [OF this that(2)] show ?thesis by (simp add: dom con(2))
  qed
  have uniq: "a = a' \<and> b = b'" if "cf_endnames c1 a = Some nm" "cf_endnames c1 a' = Some nm'" "b < cf_n c" "b' < cf_n c"
    "nm b = nm' b'" for a a' b b' nm nm'
    using that inj other [OF _ that(3)] other [OF _ that(4)] other names_okD(4) [OF ok _ that(3) _ that(4)]
    by (cases "a = i"; cases "a' = i") (auto simp: sel inj_on_def dest: sym)
  have "names_ok c1" unfolding names_ok_def sel(1) using wired uniq by blast
  moreover have "talk c1 e = enabled (cf_net c1) e" for e
  proof
    assume "talk c1 e"
    then show "enabled (cf_net c1) e"
      unfolding enb en using off old by (auto simp: talk_def sel split: if_splits)
  next
    assume "enabled (cf_net c1) e"
    then obtain a nm b where t: "cf_endnames c a = Some nm" "b < cf_n c" "e = Str (nm b)" "cf_connected c a" "cf_connected c b"
      unfolding enb en talk_def by blast
    moreover from t(4) off have "a \<noteq> i" by blast
    ultimately show "talk c1 e" unfolding t(3) by (intro talkI) (simp_all add: sel)
  qed
  ultimately have "cfg_ok c1" by (simp add: cfg_ok_def)
  moreover have "cfg_ok cfg' = cfg_ok c1"
    by (rule same_wires_ok) (simp_all add: same_wires_def w sel n AddServer_def)
  ultimately show ?thesis by simp
qed

text \<open>A test: operations of the harness, peers at work, calls on the network.\<close>

inductive cfg_step ::
  "('b \<Rightarrow> (int \<times> 'c option list) option) \<Rightarrow> (int \<times> 'c option list \<Rightarrow> 'b) \<Rightarrow> ('c, 'b) config \<Rightarrow> ('c, 'b) config \<Rightarrow> bool"
  for dec enc where
  sConnect: "connect c i = Inr c' \<Longrightarrow> cfg_step dec enc c c'"
| sDisconnect: "disconnect c i = Inr c' \<Longrightarrow> cfg_step dec enc c c'"
| sCrash: "crash1 c i = Inr c' \<Longrightarrow> cfg_step dec enc c c'"
| sStart: "start1 dec names srv c i = Inr c' \<Longrightarrow> cfg_step dec enc c c'"
| sApplier: "applier c i m = Inr c' \<Longrightarrow> cfg_step dec enc c c'"
| sApplierSnap: "applierSnap dec enc c i m = Inr (c', call) \<Longrightarrow> cfg_step dec enc c c'"
| sUnreliable: "cfg_step dec enc c (setunreliable c unrel)"
| sReordering: "cfg_step dec enc c (setlongreordering c longrel)"
| sBegin: "cfg_step dec enc c (begin_test c)"
| sPeer: "cf_rafts c i = Some rf \<Longrightarrow> cfg_step dec enc c (c\<lparr>cf_rafts := (cf_rafts c)(i := Some rf')\<rparr>)"
| sCalls: "cfg_step dec enc c (c\<lparr>cf_net := (cf_net c)\<lparr>net_count := x, net_bytes := y\<rparr>\<rparr>)"

definition same_net :: "('c, 'b) config \<Rightarrow> ('c, 'b) config \<Rightarrow> bool" where
  "same_net c c' \<longleftrightarrow> cf_n c' = cf_n c \<and> cf_endnames c' = cf_endnames c \<and> cf_net c' = cf_net c \<and> cf_connected c' = cf_connected c"

lemma same_net_ok: "same_net c c' \<Longrightarrow> cfg_ok c' = cfg_ok c"
  by (rule same_wires_ok) (simp_all add: same_net_def same_wires_def)

lemma checkLogs_net: "same_net c (fst (checkLogs c i m))"
  by (simp add: checkLogs_def Let_def same_net_def)

lemma applier_net: "applier c i m = Inr c' \<Longrightarrow> same_net c c'"
  using checkLogs_net [of c i m]
  by (auto simp: applier_def Let_def same_net_def split: if_splits option.splits prod.splits)

lemma ingestSnap_net: "ingestSnap dec c i b k = Inr c' \<Longrightarrow> same_net c c'"
  by (auto simp: ingestSnap_def same_net_def split: if_splits option.splits)

lemma applierSnap_net: "applierSnap dec enc c i m = Inr (c', r) \<Longrightarrow> same_net c c'"
  using checkLogs_net [of c i m]
  by (auto simp: applierSnap_def Let_def same_net_def andThen_Inr dest!: ingestSnap_net
      split: if_splits option.splits prod.splits)

lemma cfg_step_ok: "cfg_step dec enc c c' \<Longrightarrow> cfg_ok c \<Longrightarrow> cfg_ok c'"
proof (induction rule: cfg_step.induct)
  case (sUnreliable c unrel)
  then show ?case by (subst same_wires_ok [of c]) (auto simp: same_wires_def setunreliable_def Reliable_def)
next
  case (sReordering c longrel)
  then show ?case by (subst same_wires_ok [of c]) (auto simp: same_wires_def setlongreordering_def LongReordering_def)
next
  case (sBegin c)
  then show ?case by (subst same_net_ok [of c]) (auto simp: same_net_def begin_test_def)
next
  case (sPeer c i rf rf')
  then show ?case by (subst same_net_ok [of c]) (auto simp: same_net_def)
next
  case (sCalls c x y)
  then show ?case by (subst same_wires_ok [of c]) (auto simp: same_wires_def)
next
  case (sApplier c i m c')
  then show ?case using same_net_ok [OF applier_net [OF sApplier(1)]] by simp
next
  case (sApplierSnap c i m c' r)
  then show ?case using same_net_ok [OF applierSnap_net [OF sApplierSnap(1)]] by simp
qed (erule (1) connect_ok [rotated] disconnect_ok [rotated] crash1_ok [rotated] start1_ok [rotated])+

text \<open>A configuration that has just been made.\<close>

lemma starting_loop:
  assumes "for_checked [0..<k] (\<lambda>i c. start1 dec (names i) (srvs i) c i) cfg = Inr cfg'" and "cfg_ok cfg"
    and "\<And>j. cf_rafts cfg j = None \<and> cf_saved cfg j = None"
  shows "cfg_ok cfg' \<and> cf_n cfg' = cf_n cfg \<and> cf_applyErr cfg' = cf_applyErr cfg \<and> cf_logs cfg' = cf_logs cfg \<and>
    (\<forall>j \<ge> k. cf_rafts cfg' j = None \<and> cf_saved cfg' j = None) \<and>
    (\<forall>j < k. cf_rafts cfg' j = Make (cf_n cfg) (int j) MakePersister \<and> cf_endnames cfg' j = Some (names j)) \<and>
    dom (ends (cf_net cfg')) = dom (ends (cf_net cfg)) \<union> {Str (names i j) | i j. i < k \<and> j < cf_n cfg}"
  using assms
proof (induction k arbitrary: cfg')
  case (Suc k)
  then obtain c where c: "for_checked [0..<k] (\<lambda>i c. start1 dec (names i) (srvs i) c i) cfg = Inr c"
    "start1 dec (names k) (srvs k) c k = Inr cfg'"
    by (auto simp: for_checked_append andThen_Inr simp del: upt_Suc simp add: upt_Suc_append)
  note IH = Suc.IH [OF c(1) Suc.prems(2,3)]
  then have new: "saved c k = None" by (simp add: saved_def)
  obtain ca c2 rf where m: "crash1 c k = Inr ca"
    "makeEnds (ca\<lparr>cf_endnames := (cf_endnames ca)(k := Some (names k))\<rparr>) (names k) = Inr c2"
    and e: "cf_n cfg' = cf_n c" "cf_endnames cfg' = cf_endnames c2"
    "cf_endnames c2 = (cf_endnames c)(k := Some (names k))"
    "dom (ends (cf_net c2)) = dom (ends (cf_net c)) \<union> {Str (names k j) | j. j < cf_n c}"
    "cf_net cfg' = AddServer (cf_net c2) (Num k) (srvs k)" "cf_applyErr cfg' = cf_applyErr c"
    "Make (cf_n c) (int k) MakePersister = Some rf" "cf_rafts cfg' = (cf_rafts c)(k := Some rf)"
    "\<forall>j. j \<noteq> k \<longrightarrow> cf_saved cfg' j = cf_saved c j" "cf_logs cfg' = cf_logs c"
    using start1_eq [OF c(2)] unfolding new option.case simp_thms by blast
  have "cf_n cfg' = cf_n cfg" "cf_applyErr cfg' = cf_applyErr cfg" "cf_logs cfg' = cf_logs cfg"
    "\<forall>j \<ge> Suc k. cf_rafts cfg' j = None \<and> cf_saved cfg' j = None"
    "\<forall>j < Suc k. cf_rafts cfg' j = Make (cf_n cfg) (int j) MakePersister \<and> cf_endnames cfg' j = Some (names j)"
    using IH e by (simp_all add: less_Suc_eq)
  moreover have "dom (ends (cf_net cfg')) = dom (ends (cf_net c)) \<union> {Str (names k j) | j. j < cf_n cfg}"
    using e(4,5) IH by (simp add: AddServer_def)
  moreover have "{Str (names i j) | i j. i < Suc k \<and> j < cf_n cfg} =
      {Str (names i j) | i j. i < k \<and> j < cf_n cfg} \<union> {Str (names k j) | j. j < cf_n cfg}"
    by (auto simp: less_Suc_eq)
  moreover have "cfg_ok cfg'" using start1_ok [OF _ c(2)] IH by blast
  ultimately show ?case using IH by (simp add: Un_assoc)
qed simp

lemma connecting_loop:
  assumes "for_checked xs (\<lambda>i c. connect c i) cfg = Inr cfg'"
  shows "(cfg_ok cfg \<longrightarrow> cfg_ok cfg') \<and> cf_n cfg' = cf_n cfg \<and> cf_applyErr cfg' = cf_applyErr cfg \<and>
    cf_logs cfg' = cf_logs cfg \<and> cf_rafts cfg' = cf_rafts cfg \<and> cf_endnames cfg' = cf_endnames cfg \<and>
    ends (cf_net cfg') = ends (cf_net cfg) \<and> (\<forall>i. cf_connected cfg' i = (cf_connected cfg i \<or> i \<in> set xs))"
  using assms
proof (induction xs arbitrary: cfg)
  case (Cons x xs)
  then obtain c where c: "connect cfg x = Inr c" "for_checked xs (\<lambda>i c. connect c i) c = Inr cfg'"
    by (auto simp: andThen_Inr)
  show ?case using connect_ok [OF _ c(1)] connect_eq [OF c(1)] Cons.IH [OF c(2)] by auto
qed simp

lemma make_config_ok:
  assumes "make_config dec names srvs n unreliable = Inr cfg"
  shows "cfg_ok cfg \<and> cf_n cfg = n \<and> cf_logs cfg = (\<lambda>i. Map.empty) \<and> cf_applyErr cfg = (\<lambda>i. None) \<and>
    (\<forall>i < n. cf_rafts cfg i = Make n (int i) MakePersister \<and> cf_connected cfg i \<and>
      cf_endnames cfg i = Some (names i)) \<and>
    dom (ends (cf_net cfg)) = {Str (names i j) | i j. i < n \<and> j < n}"
proof -
  define c0 :: "('a, 'b) config" where "c0 = \<lparr>cf_finished = 0,
    cf_net = LongDelays (Reliable MakeNetwork (\<not> unreliable)) True, cf_n = n,
    cf_rafts = (\<lambda>i. None), cf_applyErr = (\<lambda>i. None), cf_connected = (\<lambda>i. False), cf_saved = (\<lambda>i. None),
    cf_endnames = (\<lambda>i. None), cf_logs = (\<lambda>i. Map.empty), cf_lastApplied = (\<lambda>i. 0), cf_rpcs0 = 0, cf_cmds0 = 0,
    cf_bytes0 = 0, cf_maxIndex = 0, cf_maxIndex0 = 0\<rparr>"
  obtain c where c: "for_checked [0..<n] (\<lambda>i c. start1 dec (names i) (srvs i) c i) c0 = Inr c"
    "for_checked [0..<n] (\<lambda>i c. connect c i) c = Inr cfg"
    using assms by (auto simp: make_config_def Let_def andThen_Inr c0_def)
  have "cfg_ok c0"
    by (simp add: cfg_ok_def names_ok_def talk_def c0_def LongDelays_def Reliable_def MakeNetwork_def)
  then show ?thesis
    using starting_loop [OF c(1)] connecting_loop [OF c(2)]
    by (simp add: c0_def LongDelays_def Reliable_def MakeNetwork_def)
qed

subsection \<open>Commands that agree are accepted\<close>

lemma checkLogs_agree:
  assumes "\<And>j v. j < cf_n c \<Longrightarrow> cf_logs c j (CommandIndex m) = Some v \<Longrightarrow> v = am_Command m"
  shows "fst (snd (checkLogs c i m)) = None"
proof -
  let ?f = "\<lambda>j e. case cf_logs c j (CommandIndex m) of
      Some old \<Rightarrow> if old \<noteq> am_Command m then Some (CommitDiffers (CommandIndex m) i j) else e | None \<Rightarrow> e"
  have "fold ?f xs None = None" if "set xs \<subseteq> {..<cf_n c}" for xs
    using that assms by (induction xs) (auto split: option.splits)
  from this [of "[0..<cf_n c]"] have "fold ?f [0..<cf_n c] None = None" by (simp add: atLeast0LessThan)
  then show ?thesis by (simp add: checkLogs_def Let_def)
qed

lemma applier_agree:
  assumes "CommandValid m" and "i < cf_n c"
    and "\<And>j v. j < cf_n c \<Longrightarrow> cf_logs c j (CommandIndex m) = Some v \<Longrightarrow> v = am_Command m"
    and "1 < CommandIndex m \<Longrightarrow> cf_logs c i (CommandIndex m - 1) \<noteq> None"
  shows "\<exists>c'. applier c i m = Inr c' \<and> cf_n c' = cf_n c \<and> cf_applyErr c' = cf_applyErr c \<and>
    cf_logs c' = (cf_logs c)(i := (cf_logs c i)(CommandIndex m \<mapsto> am_Command m))"
proof -
  obtain c1 err ok where k: "checkLogs c i m = (c1, err, ok)" by (cases "checkLogs c i m") auto
  have "err = None" using checkLogs_agree [of c m i] assms(3) k by simp
  moreover have "cf_n c1 = cf_n c \<and> cf_applyErr c1 = cf_applyErr c \<and> ok = (\<not> Option.is_none (cf_logs c i (CommandIndex m - 1))) \<and>
      cf_logs c1 = (cf_logs c)(i := (cf_logs c i)(CommandIndex m \<mapsto> am_Command m))"
    using k by (auto simp: checkLogs_def Let_def)
  ultimately show ?thesis using assms(1,2,4) by (auto simp: applier_def k Option.is_none_def)
qed

lemma accepts_loop:
  assumes "\<And>i m. (i, m) \<in> set es \<Longrightarrow> i < cf_n c \<and> CommandValid m \<and> 0 < CommandIndex m \<and> lg (CommandIndex m) = am_Command m"
    and "\<And>i. i < cf_n c \<Longrightarrow> steady True (hi i) (of_server i es)"
    and "\<And>i k v. cf_logs c i k = Some v \<Longrightarrow> v = lg k"
    and "\<And>i k. 1 \<le> k \<Longrightarrow> k \<le> hi i \<Longrightarrow> cf_logs c i k \<noteq> None"
  shows "\<exists>c'. for_checked es (\<lambda>(i, m) c. applier c i m) c = Inr c' \<and> cf_n c' = cf_n c \<and> cf_applyErr c' = cf_applyErr c \<and>
    (\<forall>i k v. cf_logs c' i k = Some v \<longrightarrow> v = lg k) \<and>
    (\<forall>i k. cf_logs c' i k \<noteq> None \<longleftrightarrow> cf_logs c i k \<noteq> None \<or> (\<exists>m. (i, m) \<in> set es \<and> CommandIndex m = k))"
  using assms
proof (induction es arbitrary: c hi)
  case (Cons x es)
  obtain i m where x: "x = (i, m)" by (cases x)
  have m: "i < cf_n c" "CommandValid m" "0 < CommandIndex m" "lg (CommandIndex m) = am_Command m"
    using Cons.prems(1) [of i m] x by simp_all
  have st: "CommandIndex m = hi i + 1 \<or> CommandIndex m \<le> hi i"
    using Cons.prems(2) [OF m(1)] x by auto
  obtain c1 where c1: "applier c i m = Inr c1" "cf_n c1 = cf_n c" "cf_applyErr c1 = cf_applyErr c"
    "cf_logs c1 = (cf_logs c)(i := (cf_logs c i)(CommandIndex m \<mapsto> am_Command m))"
    using applier_agree [OF m(2,1)] Cons.prems(3,4) m(4) st by (smt (verit, best))
  have "\<exists>c'. for_checked es (\<lambda>(i, m) c. applier c i m) c1 = Inr c' \<and> cf_n c' = cf_n c1 \<and> cf_applyErr c' = cf_applyErr c1 \<and>
    (\<forall>i k v. cf_logs c' i k = Some v \<longrightarrow> v = lg k) \<and>
    (\<forall>i k. cf_logs c' i k \<noteq> None \<longleftrightarrow> cf_logs c1 i k \<noteq> None \<or> (\<exists>m. (i, m) \<in> set es \<and> CommandIndex m = k))"
  proof (rule Cons.IH [of c1 "hi(i := max (hi i) (CommandIndex m))"])
    show "steady True ((hi(i := max (hi i) (CommandIndex m))) j) (of_server j es)" if "j < cf_n c1" for j
      using Cons.prems(2) [of j] that x by (auto simp: c1(2) split: if_splits)
    show "v = lg k" if "cf_logs c1 j k = Some v" for j k v
      using that Cons.prems(3) m(4) by (auto simp: c1(4) split: if_splits)
    show "cf_logs c1 j k \<noteq> None" if "1 \<le> k" "k \<le> (hi(i := max (hi i) (CommandIndex m))) j" for j k
      using that Cons.prems(4) [of k j] st by (auto simp: c1(4) split: if_splits)
  qed (use Cons.prems(1) c1(2) in auto)
  then show ?case using x c1 by fastforce
qed simp

lemma nCommitted_agree:
  assumes "cf_applyErr c = (\<lambda>i. None)" and "\<And>i v. lg i index = Some v \<Longrightarrow> v = w"
  shows "nCommitted c lg index = Inr (card {i. i < cf_n c \<and> lg i index \<noteq> None},
    if \<exists>i < cf_n c. lg i index \<noteq> None then w else None)"
proof -
  let ?f = "\<lambda>i (count, cmd). case cf_applyErr c i of
      Some e \<Rightarrow> Inl e
    | None \<Rightarrow> (case lg i index of
        None \<Rightarrow> Inr (count, cmd)
      | Some cmd1 \<Rightarrow> if count > (0 :: nat) \<and> cmd \<noteq> cmd1 then Inl (CommittedDiffers index) else Inr (count + 1, cmd1))"
  have "for_checked [0..<k] ?f (0, None) = Inr (card {i. i < k \<and> lg i index \<noteq> None},
      if \<exists>i < k. lg i index \<noteq> None then w else None)" for k
  proof (induction k)
    case (Suc k)
    have new: "{i. i < Suc k \<and> lg i index \<noteq> None} =
        (if lg k index = None then {i. i < k \<and> lg i index \<noteq> None} else insert k {i. i < k \<and> lg i index \<noteq> None})"
      by (auto simp: less_Suc_eq)
    have "0 < card {i. i < k \<and> lg i index \<noteq> None} \<longleftrightarrow> (\<exists>i < k. lg i index \<noteq> None)" by (auto simp: card_gt_0_iff)
    with Suc assms(2) [of k] show ?case
      unfolding new by (auto simp: for_checked_append assms(1) upt_Suc_append less_Suc_eq simp del: upt_Suc split: option.splits)
  qed simp
  then show ?thesis by (simp add: nCommitted_def)
qed

subsection \<open>Leaders\<close>

definition leadersOf :: "('c, 'b) config \<Rightarrow> (nat \<Rightarrow> int \<times> bool) \<Rightarrow> int \<Rightarrow> nat list" where
  "leadersOf cfg obs t = filter (\<lambda>i. cf_connected cfg i \<and> snd (obs i) \<and> fst (obs i) = t) [0..<cf_n cfg]"

lemma collectLeaders_eq:
  assumes "\<And>i. i < cf_n cfg \<Longrightarrow> cf_connected cfg i \<Longrightarrow> cf_rafts cfg i \<noteq> None"
  shows "\<exists>l. collectLeaders cfg obs = Inr l \<and>
    map_of l = (\<lambda>t. if leadersOf cfg obs t = [] then None else Some (leadersOf cfg obs t))"
proof -
  let ?f = "\<lambda>i l. if cf_connected cfg i then
       if Option.is_none (cf_rafts cfg i) then Inl NilPanic
       else if snd (obs i) then
         Inr (AList.update (fst (obs i)) ((case map_of l (fst (obs i)) of None \<Rightarrow> [] | Some is \<Rightarrow> is) @ [i]) l)
       else Inr l
     else Inr l"
  let ?g = "\<lambda>k t. filter (\<lambda>i. cf_connected cfg i \<and> snd (obs i) \<and> fst (obs i) = t) [0..<k]"
  have "\<exists>l. for_checked [0..<k] ?f [] = Inr l \<and> map_of l = (\<lambda>t. if ?g k t = [] then None else Some (?g k t))"
    if "k \<le> cf_n cfg" for k
    using that
  proof (induction k)
    case (Suc k)
    then obtain l where "for_checked [0..<k] ?f [] = Inr l" "map_of l = (\<lambda>t. if ?g k t = [] then None else Some (?g k t))"
      by auto
    with Suc.prems assms [of k] show ?case
      by (auto simp: for_checked_append upt_Suc_append fun_eq_iff update_conv' Option.is_none_def simp del: upt_Suc)
  qed simp
  from this [of "cf_n cfg"] show ?thesis unfolding collectLeaders_def leadersOf_def by simp
qed

lemma lastTerm_eq:
  assumes "\<And>t is. t \<in> set ord \<Longrightarrow> map_of l t = Some is \<Longrightarrow> length is \<le> 1"
  shows "\<exists>last. lastTerm l ord = Inr last \<and> (\<forall>t \<in> set ord \<inter> dom (map_of l). t \<le> last) \<and> (last = -1 \<or> last \<in> set ord \<inter> dom (map_of l))"
proof -
  let ?f = "\<lambda>t last. case map_of l t of
       None \<Rightarrow> Inr last
     | Some is \<Rightarrow> if length is > 1 then Inl (TwoLeaders t (length is)) else Inr (if t > last then t else last)"
  have "\<exists>last. for_checked ord ?f b = Inr last \<and> b \<le> last \<and> (\<forall>t \<in> set ord \<inter> dom (map_of l). t \<le> last) \<and>
      (last = b \<or> last \<in> set ord \<inter> dom (map_of l))" for b :: int
    using assms
  proof (induction ord arbitrary: b)
    case (Cons t ord)
    have IH: "\<exists>last. for_checked ord ?f b = Inr last \<and> b \<le> last \<and> (\<forall>t \<in> set ord \<inter> dom (map_of l). t \<le> last) \<and>
      (last = b \<or> last \<in> set ord \<inter> dom (map_of l))" for b by (rule Cons.IH) (use Cons.prems in auto)
    show ?case
    proof (cases "map_of l t")
      case None
      then show ?thesis using IH [of b] by auto
    next
      case (Some ids)
      then have "length ids \<le> 1" using Cons.prems [of t] by simp
      then have "for_checked (t # ord) ?f b = for_checked ord ?f (max b t)" by (simp add: Some max_def)
      moreover obtain last where "for_checked ord ?f (max b t) = Inr last" "max b t \<le> last" "\<forall>u \<in> set ord \<inter> dom (map_of l). u \<le> last"
        "last = max b t \<or> last \<in> set ord \<inter> dom (map_of l)" using IH [of "max b t"] by blast
      moreover have "max b t = b \<or> max b t = t" by linarith
      ultimately show ?thesis using Some by (intro exI [of _ last]) auto
    qed
  qed auto
  then show ?thesis unfolding lastTerm_def by blast
qed

text \<open>One round, if no two connected leaders have the same term and terms are not negative.\<close>

lemma leader_round:
  assumes conn: "\<And>i. i < cf_n cfg \<Longrightarrow> cf_connected cfg i \<Longrightarrow> cf_rafts cfg i \<noteq> None"
    and uniq: "\<And>i j. i < cf_n cfg \<Longrightarrow> j < cf_n cfg \<Longrightarrow> snd (obs i) \<Longrightarrow> snd (obs j) \<Longrightarrow> fst (obs i) = fst (obs j) \<Longrightarrow> i = j"
    and pos: "\<And>i. i < cf_n cfg \<Longrightarrow> snd (obs i) \<Longrightarrow> 0 \<le> fst (obs i)"
    and ord: "\<And>l. set (ord l) = dom (map_of l)"
  shows "(\<forall>i < cf_n cfg. cf_connected cfg i \<longrightarrow> \<not> snd (obs i)) \<and>
      leaderRounds cfg ((obs, ord) # rs) = leaderRounds cfg rs \<or>
    (\<exists>i < cf_n cfg. cf_connected cfg i \<and> snd (obs i) \<and>
      (\<forall>j < cf_n cfg. cf_connected cfg j \<longrightarrow> snd (obs j) \<longrightarrow> fst (obs j) \<le> fst (obs i)) \<and>
      leaderRounds cfg ((obs, ord) # rs) = Inr i)"
proof -
  obtain l where col: "collectLeaders cfg obs = Inr l" and
    l_def: "map_of l = (\<lambda>t. if leadersOf cfg obs t = [] then None else Some (leadersOf cfg obs t))"
    using collectLeaders_eq [of cfg obs] conn by blast
  have mem: "i \<in> set (leadersOf cfg obs t) \<longleftrightarrow> i < cf_n cfg \<and> cf_connected cfg i \<and> snd (obs i) \<and> fst (obs i) = t" for i t
    by (auto simp: leadersOf_def)
  have dom: "t \<in> dom (map_of l) \<longleftrightarrow> (\<exists>i. i \<in> set (leadersOf cfg obs t))" for t
    by (cases "leadersOf cfg obs t") (auto simp: l_def)
  note ord' = ord [of l]
  have single: "\<exists>i. ids = [i]" if "map_of l t = Some ids" for t ids
  proof -
    have eq: "ids = leadersOf cfg obs t" "ids \<noteq> []" using that by (auto simp: l_def split: if_splits)
    have one: "i = j" if "i \<in> set ids" "j \<in> set ids" for i j
    proof (rule uniq)
      show "i < cf_n cfg" "snd (obs i)" using that(1) unfolding eq(1) mem by blast+
      show "j < cf_n cfg" "snd (obs j)" using that(2) unfolding eq(1) mem by blast+
      show "fst (obs i) = fst (obs j)" using that unfolding eq(1) mem by simp
    qed
    have "distinct ids" unfolding eq by (simp add: leadersOf_def)
    moreover obtain a rest where ids: "ids = a # rest" using eq(2) by (cases ids) auto
    moreover have "b = a" if "b \<in> set rest" for b by (rule one) (use that ids in simp_all)
    ultimately show ?thesis by (cases rest) auto
  qed
  obtain last where last: "lastTerm l (ord l) = Inr last" "\<forall>t \<in> dom (map_of l). t \<le> last" "last = -1 \<or> last \<in> dom (map_of l)"
  proof -
    have "length ids \<le> 1" if "map_of l t = Some ids" for t ids using single [OF that] by auto
    then show thesis using lastTerm_eq [of "ord l" l] that unfolding ord' by auto
  qed
  show ?thesis
  proof (cases "map_of l = Map.empty")
    case True
    then have "\<not> snd (obs i)" if "i < cf_n cfg" "cf_connected cfg i" for i
      using that mem [of i "fst (obs i)"] dom [of "fst (obs i)"] by auto
    then show ?thesis using col last(1) True by simp
  next
    case False
    then obtain t where "t \<in> dom (map_of l)" by fastforce
    moreover from this have "0 \<le> t" using dom mem pos by auto
    moreover have "t \<le> last" using \<open>t \<in> dom (map_of l)\<close> last(2) by blast
    ultimately have "last \<in> dom (map_of l)" using last(3) by (metis neg_0_le_iff_le order_trans not_one_le_zero)
    then obtain i where i: "map_of l last = Some [i]" using single by blast
    then have "leadersOf cfg obs last = [i]" by (auto simp: l_def split: if_splits)
    then have i': "i < cf_n cfg" "cf_connected cfg i" "snd (obs i)" "fst (obs i) = last" using mem [of i last] by auto
    have "fst (obs j) \<le> last" if "j < cf_n cfg" "cf_connected cfg j" "snd (obs j)" for j
      using that last(2) dom [of "fst (obs j)"] mem [of j "fst (obs j)"] by auto
    moreover have "leaderRounds cfg ((obs, ord) # rs) = Inr i" using col last(1) False i by simp
    ultimately show ?thesis using i' by auto
  qed
qed

lemma leaderRounds_sound:
  assumes "\<And>i. i < cf_n cfg \<Longrightarrow> cf_connected cfg i \<Longrightarrow> cf_rafts cfg i \<noteq> None"
    and "\<And>r i j. i < cf_n cfg \<Longrightarrow> j < cf_n cfg \<Longrightarrow> snd (obs r i) \<Longrightarrow> snd (obs r j) \<Longrightarrow> fst (obs r i) = fst (obs r j) \<Longrightarrow> i = j"
    and "\<And>r i. i < cf_n cfg \<Longrightarrow> snd (obs r i) \<Longrightarrow> 0 \<le> fst (obs r i)"
    and "\<And>r l. set (ord r l) = dom (map_of l)"
  shows "case leaderRounds cfg (map (\<lambda>r. (obs r, ord r)) rs) of
      Inl e \<Rightarrow> e = NoLeaderFound \<and> (\<forall>r \<in> set rs. \<forall>i < cf_n cfg. cf_connected cfg i \<longrightarrow> \<not> snd (obs r i))
    | Inr i \<Rightarrow> i < cf_n cfg \<and> cf_connected cfg i \<and> (\<exists>r \<in> set rs. snd (obs r i) \<and>
        (\<forall>j < cf_n cfg. cf_connected cfg j \<longrightarrow> snd (obs r j) \<longrightarrow> fst (obs r j) \<le> fst (obs r i)))"
proof (induction rs)
  case (Cons r rs)
  have "(\<forall>i < cf_n cfg. cf_connected cfg i \<longrightarrow> \<not> snd (obs r i)) \<and>
      leaderRounds cfg (map (\<lambda>r. (obs r, ord r)) (r # rs)) = leaderRounds cfg (map (\<lambda>r. (obs r, ord r)) rs) \<or>
    (\<exists>i < cf_n cfg. cf_connected cfg i \<and> snd (obs r i) \<and>
      (\<forall>j < cf_n cfg. cf_connected cfg j \<longrightarrow> snd (obs r j) \<longrightarrow> fst (obs r j) \<le> fst (obs r i)) \<and>
      leaderRounds cfg (map (\<lambda>r. (obs r, ord r)) (r # rs)) = Inr i)"
    using leader_round [of cfg "obs r" "ord r", OF assms] by simp
  then show ?case using Cons.IH by (elim disjE exE conjE) (auto split: sum.splits)
qed simp

text \<open>Leaders have positive terms, and two leaders of the same term, at any two moments of a run, are the same peer.\<close>

lemma run_leader_pos: "run n \<sigma> \<Longrightarrow> i < n \<Longrightarrow> role (nodes (\<sigma> t) i) = Leader \<Longrightarrow> 0 < currentTerm (nodes (\<sigma> t) i)"
proof -
  assume "run n \<sigma>" "i < n" "role (nodes (\<sigma> t) i) = Leader"
  moreover from \<open>run n \<sigma>\<close> obtain h C where "log_inv n {} h C (\<sigma> t)" using logs.inv_reach [OF run_reach] by blast
  ultimately show ?thesis using log_invD(2,4) hist_okD(4) unfolding role_ok_def by blast
qed

lemma run_leaders_agree:
  assumes "run n \<sigma>" and "i < n" and "j < n" and "role (nodes (\<sigma> t) i) = Leader" and "role (nodes (\<sigma> u) j) = Leader"
    and "currentTerm (nodes (\<sigma> t) i) = currentTerm (nodes (\<sigma> u) j)"
  shows "i = j"
  using leaders_agree [OF run_reach run_steps, OF assms(1,1) _ assms(2-6)]
    leaders_agree [OF run_reach run_steps, OF assms(1,1) _ assms(3,2,5,4) assms(6) [symmetric]]
  by (cases "t \<le> u") auto

section \<open>The theorems\<close>

text \<open>The network follows the harness.  After any sequence of operations of the harness, peers at work and calls, an end
  of the network is enabled exactly if it is an end of the present peer of a connected server to a connected server; in
  particular all ends of crashed and replaced peers are disabled.  Different pairs of servers have different ends, and each is
  connected to its server.\<close>

lemma network_follows_harness:
  assumes "make_config dec names srvs n unreliable = Inr cfg0" and "(cfg_step dec enc)\<^sup>*\<^sup>* cfg0 cfg"
  shows "(enabled (cf_net cfg) e \<longleftrightarrow> (\<exists>i nms j. cf_endnames cfg i = Some nms \<and> j < cf_n cfg \<and> e = Str (nms j) \<and>
      cf_connected cfg i \<and> cf_connected cfg j)) \<and> names_ok cfg"
proof -
  have "cfg_ok cfg0" using make_config_ok [OF assms(1)] by simp
  with assms(2) have "cfg_ok cfg" by (induction rule: rtranclp_induct) (auto intro: cfg_step_ok)
  then show ?thesis by (simp add: cfg_ok_def talk_def)
qed

text \<open>Restarting a server with the harness is the restart of the cluster model: the new peer is made from a copy of
  what the old one has stored.\<close>

lemma start1_restarts:
  assumes "start1 dec names srv cfg i = Inr cfg'" and "cf_rafts cfg i = Some rf" and "peers rf = cf_n cfg" and "me rf = int i"
  shows "\<exists>rf'. restart rf = Some rf' \<and> cf_rafts cfg' = (cf_rafts cfg)(i := Some rf')"
  using start1_eq [OF assms(1)] assms(2-4) by (auto simp: restart_def saved_def)

text \<open>Messages that the appliers of a run deliver, those of each server in the order of its applier, with repetitions.\<close>

lemma accepts_delivered:
  assumes "run n \<sigma>" and "make_config dec names srvs n unreliable = Inr cfg"
    and "\<forall>(i, m) \<in> set es. i < n \<and> delivers \<sigma> i m" and "\<forall>i < n. steady True 0 (of_server i es)"
  shows "\<exists>cfg'. for_checked es (\<lambda>(i, m) c. applier c i m) cfg = Inr cfg' \<and>
    (\<forall>index. \<exists>cmd. nCommitted cfg' (cf_logs cfg') index =
      Inr (card {i. i < n \<and> (\<exists>m. (i, m) \<in> set es \<and> CommandIndex m = index)}, cmd))"
proof -
  define lg where "lg k = (SOME c. \<exists>i m. (i, m) \<in> set es \<and> CommandIndex m = k \<and> c = am_Command m)" for k
  note cfg = make_config_ok [OF assms(2)]
  have lg: "lg (CommandIndex m) = am_Command m" if "(i, m) \<in> set es" for i m
    unfolding lg_def by (rule some_equality) (use that assms(3) delivers_unique [OF assms(1)] in blast)+
  have "\<exists>c'. for_checked es (\<lambda>(i, m) c. applier c i m) cfg = Inr c' \<and> cf_n c' = cf_n cfg \<and>
    cf_applyErr c' = cf_applyErr cfg \<and> (\<forall>i k v. cf_logs c' i k = Some v \<longrightarrow> v = lg k) \<and>
    (\<forall>i k. cf_logs c' i k \<noteq> None \<longleftrightarrow> cf_logs cfg i k \<noteq> None \<or> (\<exists>m. (i, m) \<in> set es \<and> CommandIndex m = k))"
  proof (rule accepts_loop [where hi = "\<lambda>i. 0"])
    show "i < cf_n cfg \<and> CommandValid m \<and> 0 < CommandIndex m \<and> lg (CommandIndex m) = am_Command m"
      if "(i, m) \<in> set es" for i m
      using that assms(3) delivers_command [OF assms(1)] lg cfg by blast
  qed (use assms(4) cfg in \<open>auto\<close>)
  then obtain c' where c': "for_checked es (\<lambda>(i, m) c. applier c i m) cfg = Inr c'" "cf_n c' = n"
    "cf_applyErr c' = (\<lambda>i. None)" "\<And>i k v. cf_logs c' i k = Some v \<Longrightarrow> v = lg k"
    "\<And>i k. cf_logs c' i k \<noteq> None \<longleftrightarrow> (\<exists>m. (i, m) \<in> set es \<and> CommandIndex m = k)" using cfg by auto
  have "\<exists>cmd. nCommitted c' (cf_logs c') index =
      Inr (card {i. i < n \<and> (\<exists>m. (i, m) \<in> set es \<and> CommandIndex m = index)}, cmd)" for index
    using nCommitted_agree [OF c'(3), of "cf_logs c'" index "lg index"] c'(4) unfolding c'(2,5) by blast
  then show ?thesis using c'(1) by blast
qed


text \<open>C13: the harness accepts what Raft delivers without snapshots.  Take any execution of a Raft cluster with its appliers, with lost and
  delayed calls, crashes and restarts, in which no peer has a snapshot (the tests that start their servers with \<^verbatim>\<open>applier\<close> take
  none), and all messages that the services have received, those before restarts too, in the order in which they came.  The
  checks of \<^verbatim>\<open>applier\<close> and \<^verbatim>\<open>checkLogs\<close> find no error on them, and \<^verbatim>\<open>nCommitted\<close> then returns for each index the number of servers
  that have delivered it.\<close>

theorem harness_accepts:
  assumes "apply_reach n d" and "no_snapshots n d" and "make_config dec names srvs n unreliable = Inr cfg"
  shows "\<exists>cfg'. for_checked (deliveries d) (\<lambda>(i, m) c. applier c i m) cfg = Inr cfg' \<and>
    (\<forall>index. \<exists>cmd. nCommitted cfg' (cf_logs cfg') index =
      Inr (card {i. i < n \<and> (\<exists>m. (i, m) \<in> set (deliveries d) \<and> CommandIndex m = index)}, cmd))"
proof -
  obtain \<rho> t where r: "apply_run n \<rho>" "\<rho> t = d" using apply_reach_run [OF assms(1)] by blast
  note pl = reach_plain [OF assms(1,2), unfolded plain_def]
  have "\<forall>(i, m) \<in> set (deliveries d). i < n \<and> delivers (\<lambda>t. cl (\<rho> t)) i m"
    using pl in_hand_delivers [OF r(1), of _ t] by (auto simp: r(2) in_hand_def)
  moreover have "\<forall>i < n. steady True 0 (of_server i (deliveries d))" using pl by blast
  ultimately show ?thesis by (rule accepts_delivered [OF apply_run_cluster [OF r(1)] assms(3)])
qed

text \<open>\<^verbatim>\<open>checkOneLeader\<close> on a Raft cluster.  Whenever the states of the peers are read, and in whatever order the map of
  leaders is iterated, the check never finds two leaders of a term and never panics.  It returns a connected server that was
  leader when it was asked, with the highest term of the leaders of that round; or none of the connected servers was leader when it was
  asked, in all ten rounds.\<close>

lemma checkOneLeader_sound:
  assumes "run n \<sigma>" and "cf_n cfg = n" and "\<forall>i < n. cf_connected cfg i \<longrightarrow> cf_rafts cfg i \<noteq> None"
    and "\<forall>r l. set (ord r l) = fst ` set l"
  shows "case checkOneLeader cfg (\<lambda>r i. GetState (nodes (\<sigma> (tm r i)) i)) ord of
      Inl e \<Rightarrow> e = NoLeaderFound \<and> (\<forall>r < 10. \<forall>i < n. cf_connected cfg i \<longrightarrow> role (nodes (\<sigma> (tm r i)) i) \<noteq> Leader)
    | Inr i \<Rightarrow> i < n \<and> cf_connected cfg i \<and> (\<exists>r < 10. role (nodes (\<sigma> (tm r i)) i) = Leader \<and>
        (\<forall>j < n. cf_connected cfg j \<longrightarrow> role (nodes (\<sigma> (tm r j)) j) = Leader \<longrightarrow>
          currentTerm (nodes (\<sigma> (tm r j)) j) \<le> currentTerm (nodes (\<sigma> (tm r i)) i)))"
proof -
  let ?obs = "\<lambda>r i. GetState (nodes (\<sigma> (tm r i)) i)"
  have "case leaderRounds cfg (map (\<lambda>r. (?obs r, ord r)) [0..<10]) of
      Inl e \<Rightarrow> e = NoLeaderFound \<and> (\<forall>r \<in> set [0..<10]. \<forall>i < cf_n cfg. cf_connected cfg i \<longrightarrow> \<not> snd (?obs r i))
    | Inr i \<Rightarrow> i < cf_n cfg \<and> cf_connected cfg i \<and> (\<exists>r \<in> set [0..<10]. snd (?obs r i) \<and>
        (\<forall>j < cf_n cfg. cf_connected cfg j \<longrightarrow> snd (?obs r j) \<longrightarrow> fst (?obs r j) \<le> fst (?obs r i)))"
  proof (rule leaderRounds_sound)
    show "i = j" if "i < cf_n cfg" "j < cf_n cfg" "snd (?obs r i)" "snd (?obs r j)" "fst (?obs r i) = fst (?obs r j)" for r i j
      using run_leaders_agree [OF assms(1)] that assms(2) by (simp add: GetState_def)
    show "0 \<le> fst (?obs r i)" if "i < cf_n cfg" "snd (?obs r i)" for r i
      using run_leader_pos [OF assms(1)] that assms(2) by (fastforce simp: GetState_def)
  qed (use assms in \<open>auto simp: dom_map_of_conv_image_fst\<close>)
  then show ?thesis
    unfolding checkOneLeader_def assms(2) by (auto simp: GetState_def split: sum.splits)
qed

section \<open>Operations that succeed\<close>

lemma for_checked_total:
  assumes "\<And>x s. x \<in> set xs \<Longrightarrow> I s \<Longrightarrow> \<exists>s'. f x s = Inr s' \<and> I s'" and "I s"
  shows "\<exists>s'. for_checked xs f s = Inr s' \<and> I s'"
  using assms
proof (induction xs arbitrary: s)
  case (Cons x xs)
  then obtain s' where "f x s = Inr s'" "I s'" by (meson list.set_intros(1))
  with Cons.IH [of s'] Cons.prems(1) show ?case by simp
qed simp

lemma connect_total:
  assumes "i < cf_n cfg" and "\<And>j. j < cf_n cfg \<Longrightarrow> cf_endnames cfg j \<noteq> None"
  shows "\<exists>cfg'. connect cfg i = Inr cfg'"
proof -
  let ?c = "cfg\<lparr>cf_connected := (cf_connected cfg)(i := True)\<rparr>"
  let ?I = "\<lambda>c. cf_n c = cf_n cfg \<and> cf_endnames c = cf_endnames cfg"
  have step: "\<exists>c'. (if cf_connected c j then andThen (endname_of c a b) (\<lambda>e. Inr (enableEnd e True c)) else Inr c) = Inr c' \<and> ?I c'"
    if "?I c" "a < cf_n cfg" "b < cf_n cfg" for c :: "('a, 'b) config" and j a b
    using that assms(2) [of a] by (auto simp: endname_of_def enableEnd_def split: option.splits)
  have "\<exists>c1. for_checked [0..<cf_n cfg] (\<lambda>j c. if cf_connected c j
      then andThen (endname_of c i j) (\<lambda>e. Inr (enableEnd e True c)) else Inr c) ?c = Inr c1 \<and> ?I c1"
    by (rule for_checked_total) (use step assms(1) in auto)
  then obtain c1 where 1: "for_checked [0..<cf_n cfg] (\<lambda>j c. if cf_connected c j
      then andThen (endname_of c i j) (\<lambda>e. Inr (enableEnd e True c)) else Inr c) ?c = Inr c1" "?I c1" by blast
  have "\<exists>c2. for_checked [0..<cf_n cfg] (\<lambda>j c. if cf_connected c j
      then andThen (endname_of c j i) (\<lambda>e. Inr (enableEnd e True c)) else Inr c) c1 = Inr c2 \<and> ?I c2"
    by (rule for_checked_total) (use step assms(1) 1(2) in auto)
  with 1(1) show ?thesis using assms(1) by (auto simp: connect_def Let_def)
qed

lemma disconnect_total: "i < cf_n cfg \<Longrightarrow> \<exists>cfg'. disconnect cfg i = Inr cfg'"
proof -
  assume i: "i < cf_n cfg"
  let ?c = "cfg\<lparr>cf_connected := (cf_connected cfg)(i := False)\<rparr>"
  let ?I = "\<lambda>c. cf_n c = cf_n cfg"
  have step: "\<exists>c'. (if \<not> Option.is_none (cf_endnames c a) then andThen (endname_of c a b) (\<lambda>e. Inr (enableEnd e False c))
      else Inr c) = Inr c' \<and> ?I c'" if "?I c" "b < cf_n cfg" for c :: "('a, 'b) config" and a b
    using that by (cases "cf_endnames c a") (auto simp: endname_of_def enableEnd_def)
  have "\<exists>c1. for_checked [0..<cf_n cfg] (\<lambda>j c. if \<not> Option.is_none (cf_endnames c i)
      then andThen (endname_of c i j) (\<lambda>e. Inr (enableEnd e False c)) else Inr c) ?c = Inr c1 \<and> ?I c1"
    by (rule for_checked_total) (use step in auto)
  then obtain c1 where 1: "for_checked [0..<cf_n cfg] (\<lambda>j c. if \<not> Option.is_none (cf_endnames c i)
      then andThen (endname_of c i j) (\<lambda>e. Inr (enableEnd e False c)) else Inr c) ?c = Inr c1" "?I c1" by blast
  have "\<exists>c2. for_checked [0..<cf_n cfg] (\<lambda>j c. if \<not> Option.is_none (cf_endnames c j)
      then andThen (endname_of c j i) (\<lambda>e. Inr (enableEnd e False c)) else Inr c) c1 = Inr c2 \<and> ?I c2"
    by (rule for_checked_total) (use step i 1(2) in auto)
  with 1(1) show ?thesis using i by (auto simp: disconnect_def Let_def)
qed

lemma makeEnds_total:
  assumes "inj_on names (set xs)" and "distinct xs" and "\<And>j. j \<in> set xs \<Longrightarrow> Str (names j) \<notin> dom (ends (cf_net c))"
  shows "\<exists>c'. for_checked xs (\<lambda>j c. (case MakeEnd (cf_net c) (Str (names j)) of
       None \<Rightarrow> Inl (EndExists (names j))
     | Some (rn, e) \<Rightarrow> Inr (c\<lparr>cf_net := Connect rn (Str (names j)) (Num j)\<rparr>))) c = Inr c'"
  using assms
proof (induction xs arbitrary: c)
  case (Cons x xs)
  have "ends (cf_net c) (Str (names x)) = None" using Cons.prems(3) by auto
  then obtain rn e where m: "MakeEnd (cf_net c) (Str (names x)) = Some (rn, e)"
    "dom (ends rn) = insert (Str (names x)) (dom (ends (cf_net c)))" by (auto simp: MakeEnd_def Let_def)
  have "Str (names j) \<notin> dom (ends (cf_net (c\<lparr>cf_net := Connect rn (Str (names x)) (Num x)\<rparr>)))" if "j \<in> set xs" for j
  proof -
    have "names j \<noteq> names x" using Cons.prems(1,2) that by (auto simp: inj_on_def)
    moreover have "Str (names j) \<notin> dom (ends (cf_net c))" using Cons.prems(3) that by (metis list.set_intros(2))
    ultimately show ?thesis by (simp add: Connect_def m(2) del: domIff)
  qed
  then show ?case using Cons.IH Cons.prems(1,2) m(1) by simp
qed simp

lemma MakePersister_empty [simp]: "Copy MakePersister = MakePersister" "ReadSnapshot MakePersister = None"
  by (simp_all add: Copy_def MakePersister_def ReadSnapshot_def)

lemma start1_total:
  assumes "i < cf_n cfg" and "saved cfg i = None \<or> saved cfg i = Some MakePersister" and "inj_on names {..<cf_n cfg}"
    and "\<And>j. j < cf_n cfg \<Longrightarrow> Str (names j) \<notin> dom (ends (cf_net cfg))"
  shows "\<exists>cfg'. start1 dec names srv cfg i = Inr cfg'"
proof -
  obtain c0 where d: "disconnect cfg i = Inr c0" using disconnect_total [OF assms(1)] by blast
  then obtain c where c: "crash1 cfg i = Inr c" by (simp add: crash1_def Let_def)
  have w: "cf_n c = cf_n cfg" "ends (cf_net c) = ends (cf_net cfg)" "cf_saved c i = saved cfg i"
    using crash1_eq [OF c] disconnect_eq [OF d] d by (auto simp: same_wires_def)
  have "inj_on names (set [0..<cf_n c])" using assms(3) w(1) by (simp add: atLeast0LessThan)
  then obtain c1 where c1: "makeEnds (c\<lparr>cf_endnames := (cf_endnames c)(i := Some names)\<rparr>) names = Inr c1"
    using makeEnds_total [of names "[0..<cf_n c]" "c\<lparr>cf_endnames := (cf_endnames c)(i := Some names)\<rparr>"] assms(4) w
    unfolding makeEnds_def by auto
  have "cf_saved c1 i = saved cfg i" by (subst makeEnds_eq(2) [OF c1], simp add: w)
  then show ?thesis using assms(2) by (elim disjE) (simp_all add: start1_def c c1 Let_def Make_fresh)
qed

text \<open>With different names for all ends, the harness comes up.\<close>

lemma make_config_returns:
  assumes "\<And>i j i' j'. i < n \<Longrightarrow> j < n \<Longrightarrow> i' < n \<Longrightarrow> j' < n \<Longrightarrow> names i j = names i' j' \<Longrightarrow> i = i' \<and> j = j'"
  shows "\<exists>cfg. make_config dec names srvs n unreliable = Inr cfg"
proof -
  define c0 :: "('a, 'b) config" where "c0 = \<lparr>cf_finished = 0,
    cf_net = LongDelays (Reliable MakeNetwork (\<not> unreliable)) True, cf_n = n,
    cf_rafts = (\<lambda>i. None), cf_applyErr = (\<lambda>i. None), cf_connected = (\<lambda>i. False), cf_saved = (\<lambda>i. None),
    cf_endnames = (\<lambda>i. None), cf_logs = (\<lambda>i. Map.empty), cf_lastApplied = (\<lambda>i. 0), cf_rpcs0 = 0, cf_cmds0 = 0,
    cf_bytes0 = 0, cf_maxIndex = 0, cf_maxIndex0 = 0\<rparr>"
  have c0: "cfg_ok c0" "\<And>j. cf_rafts c0 j = None \<and> cf_saved c0 j = None" "cf_n c0 = n" "dom (ends (cf_net c0)) = {}"
    by (simp_all add: cfg_ok_def names_ok_def talk_def c0_def LongDelays_def Reliable_def MakeNetwork_def)
  let ?st = "\<lambda>i c. start1 dec (names i) (srvs i) c i"
  have "\<exists>c. for_checked [0..<k] ?st c0 = Inr c" if "k \<le> n" for k
    using that
  proof (induction k)
    case (Suc k)
    then obtain c where c: "for_checked [0..<k] ?st c0 = Inr c" by auto
    note S = starting_loop [OF c c0(1,2)]
    have "\<exists>c'. start1 dec (names k) (srvs k) c k = Inr c'"
    proof (rule start1_total)
      show "saved c k = None \<or> saved c k = Some MakePersister" using S by (simp add: saved_def)
      show "inj_on (names k) {..<cf_n c}" using S assms [of k _ k] Suc.prems c0(3) by (auto simp: inj_on_def)
      show "Str (names k j) \<notin> dom (ends (cf_net c))" if "j < cf_n c" for j
      proof
        assume "Str (names k j) \<in> dom (ends (cf_net c))"
        then obtain i j' where "i < k" "j' < n" "names k j = names i j'" using S c0(3,4) by auto
        moreover have "j < n" using that S c0(3) by simp
        ultimately show False using assms [of k j i j'] Suc.prems by simp
      qed
    qed (use S Suc.prems c0(3) in simp)
    then show ?case using c by (auto simp: for_checked_append upt_Suc_append simp del: upt_Suc)
  qed simp
  then obtain c where c: "for_checked [0..<n] ?st c0 = Inr c" by blast
  note S = starting_loop [OF c c0(1,2)]
  let ?I = "\<lambda>c. cf_n c = n \<and> (\<forall>j < n. cf_endnames c j \<noteq> None)"
  have "\<exists>c'. for_checked [0..<n] (\<lambda>i c. connect c i) c = Inr c' \<and> ?I c'"
  proof (rule for_checked_total)
    show "\<exists>c'. connect a i = Inr c' \<and> ?I c'" if "i \<in> set [0..<n]" "?I a" for i a
      using connect_total [of i a] connect_eq [of a i] that by fastforce
  qed (use S c0(3) in simp)
  then show ?thesis using c by (auto simp: make_config_def Let_def c0_def)
qed

section \<open>An example\<close>

text \<open>Three servers and the run of \<open>Raft_Safety\<close>, in which server 0 is elected and a command is committed.\<close>

definition ex_names :: "nat \<Rightarrow> nat \<Rightarrow> string" where
  "ex_names i j = replicate (3 * i + j) CHR ''x''"

abbreviation ex_dec :: "nat \<Rightarrow> (int \<times> nat option list) option" where
  "ex_dec \<equiv> (\<lambda>b. None)"

lemma ex_names_different: "j < 3 \<Longrightarrow> j' < 3 \<Longrightarrow> ex_names i j = ex_names i' j' \<Longrightarrow> i = i' \<and> j = j'"
proof -
  assume "j < 3" "j' < 3" "ex_names i j = ex_names i' j'"
  moreover from this(3) have "3 * i + j = 3 * i' + j'" by (metis ex_names_def length_replicate)
  ultimately show ?thesis by presburger
qed

definition ex_cfg :: "(nat, nat) config" where
  "ex_cfg = projr (make_config ex_dec ex_names (\<lambda>i. i) 3 False)"

lemma ex_cfg_made: "make_config ex_dec ex_names (\<lambda>i. i) 3 False = Inr ex_cfg"
  using make_config_returns [of 3 ex_names ex_dec "\<lambda>i. i" False] ex_names_different by (auto simp: ex_cfg_def)

lemmas ex_cfg_ok = make_config_ok [OF ex_cfg_made]

theorem harness_accepts_witness:
  "\<exists>cfg' cmd. for_checked (deliveries (ex_served 5)) (\<lambda>(i, m) c. applier c i m) ex_cfg = Inr cfg' \<and>
     nCommitted cfg' (cf_logs cfg') 1 = Inr (2, cmd)"
proof -
  let ?d = "ex_served 5 :: (nat, nat) apply_sys"
  have "list_all (\<lambda>i. lastIncludedIndex (nodes (cl ?d) i) = 0) [0..<3]" by code_simp
  then have no: "no_snapshots 3 ?d" by (auto simp: no_snapshots_def list_all_iff)
  have dl: "deliveries ?d = [(0, ex_msg 5), (1, ex_msg 5)]"
    by (simp add: ex_served_def ex_served1_def hand_over_def receive_def set_node_def bare_def)
  have "CommandIndex (ex_msg 5 :: (nat, nat) ApplyMsg) = 1" by (simp add: ex_msg_def)
  then have "{i. i < 3 \<and> (\<exists>m. (i, m) \<in> set (deliveries ?d) \<and> CommandIndex m = 1)} = {0, 1 :: nat}"
    unfolding dl by auto
  then have "card {i. i < 3 \<and> (\<exists>m. (i, m) \<in> set (deliveries ?d) \<and> CommandIndex m = 1)} = 2" by simp
  moreover obtain cfg' where "for_checked (deliveries ?d) (\<lambda>(i, m) c. applier c i m) ex_cfg = Inr cfg'"
    "\<exists>cmd. nCommitted cfg' (cf_logs cfg') 1 =
      Inr (card {i. i < 3 \<and> (\<exists>m. (i, m) \<in> set (deliveries ?d) \<and> CommandIndex m = 1)}, cmd)"
    using harness_accepts [OF ex_nat_reach no ex_cfg_made] by blast
  ultimately show ?thesis by (simp only:) blast
qed

end
