(* ===== verification/Labrpc_Props.thy ===== *)
theory Labrpc_Props
  imports Labrpc
begin

section \<open>What callers may rely on\<close>

text \<open>
  The abstract network: calls that have been made, requests and replies under way, results of finished calls.  A request is
  executed at most once, by a server of the right name; a request or a reply may be lost at any time; a call returns the
  reply of its own request or fails, perhaps while its request is still under way.
\<close>

record ('n, 'w, 'y) lossy =
  lo_calls :: "nat \<rightharpoonup> ('n, 'y) reqMsg"
  lo_pending :: "nat \<rightharpoonup> ('n, 'y) reqMsg"
  lo_replies :: "nat \<rightharpoonup> 'y list"
  lo_results :: "nat \<rightharpoonup> 'y replyMsg"
  lo_world :: 'w

definition answer ::
  "(string \<rightharpoonup> ('w, 'y) Service) \<Rightarrow> ('n, 'y) reqMsg \<Rightarrow> 'w \<Rightarrow> ('w \<times> 'y list) option" where
  "answer svcs q w =
     map_option (\<lambda>(_, w', r). (w', rp_reply r)) (Server_dispatch \<lparr>srv_services = svcs, srv_count = 0\<rparr> q w)"

inductive lossy_step ::
  "('n \<Rightarrow> 'n) \<Rightarrow> (nat \<Rightarrow> 'n) \<Rightarrow> (nat \<Rightarrow> string \<rightharpoonup> ('w, 'y) Service) \<Rightarrow> ('n, 'w, 'y) lossy \<Rightarrow> ('n, 'w, 'y) lossy \<Rightarrow> bool"
  for dest host svcs where
  lSend: "lo_calls t k = None \<Longrightarrow>
    lossy_step dest host svcs t (t\<lparr>lo_calls := (lo_calls t)(k \<mapsto> q), lo_pending := (lo_pending t)(k \<mapsto> q)\<rparr>)"
| lExec: "lo_pending t k = Some q \<Longrightarrow> host rs = dest (rq_endname q) \<Longrightarrow> answer (svcs rs) q (lo_world t) = Some (w', rb) \<Longrightarrow>
    lossy_step dest host svcs t
      (t\<lparr>lo_pending := (lo_pending t)(k := None), lo_replies := (lo_replies t)(k \<mapsto> rb), lo_world := w'\<rparr>)"
| lLoseRequest: "lossy_step dest host svcs t (t\<lparr>lo_pending := (lo_pending t)(k := None)\<rparr>)"
| lLoseReply: "lossy_step dest host svcs t (t\<lparr>lo_replies := (lo_replies t)(k := None)\<rparr>)"
| lReturn: "lo_replies t k = Some rb \<Longrightarrow> lo_results t k = None \<Longrightarrow>
    lossy_step dest host svcs t (t\<lparr>lo_replies := (lo_replies t)(k := None),
      lo_results := (lo_results t)(k \<mapsto> \<lparr>rp_ok = True, rp_reply = rb\<rparr>)\<rparr>)"
| lFail: "lo_calls t k = Some q \<Longrightarrow> lo_results t k = None \<Longrightarrow>
    lossy_step dest host svcs t (t\<lparr>lo_replies := (lo_replies t)(k := None), lo_results := (lo_results t)(k \<mapsto> failed)\<rparr>)"

subsection \<open>The abstract view of a call\<close>

definition pend_of :: "('n, 'y) call \<Rightarrow> ('n, 'y) reqMsg option" where
  "pend_of c = (case ca_handler c of
     Running _ \<Rightarrow> Some (ca_req c)
   | Finished _ _ \<Rightarrow> None
   | Idle \<Rightarrow> (case ca_phase c of Queued \<Rightarrow> Some (ca_req c) | Sleeping _ _ \<Rightarrow> Some (ca_req c) | _ \<Rightarrow> None))"

definition repl_of :: "('n, 'y) call \<Rightarrow> 'y list option" where
  "repl_of c = (case ca_handler c of
     Finished _ r \<Rightarrow> (case ca_phase c of
         Waiting _ \<Rightarrow> Some (rp_reply r)
       | Returned _ _ \<Rightarrow> Some (rp_reply r)
       | Replying _ rep \<Rightarrow> if rp_ok rep then Some (rp_reply r) else None
       | _ \<Rightarrow> None)
   | _ \<Rightarrow> None)"

definition res_of :: "('n, 'y) call \<Rightarrow> 'y replyMsg option" where
  "res_of c = (case ca_phase c of Closed rep \<Rightarrow> Some rep | _ \<Rightarrow> None)"

definition rpc_abs :: "('n, 'w, 'y) system \<Rightarrow> ('n, 'w, 'y) lossy" where
  "rpc_abs s = \<lparr>lo_calls = (\<lambda>k. map_option ca_req (sy_calls s k)),
     lo_pending = (\<lambda>k. Option.bind (sy_calls s k) pend_of),
     lo_replies = (\<lambda>k. Option.bind (sy_calls s k) repl_of),
     lo_results = (\<lambda>k. Option.bind (sy_calls s k) res_of), lo_world = sy_world s\<rparr>"

named_theorems rpc_view \<open>the abstract view of a call\<close>

lemmas [rpc_view] = pend_of_def repl_of_def res_of_def

lemma rpc_abs_sel [simp]:
  "lo_calls (rpc_abs s) k = map_option ca_req (sy_calls s k)"
  "lo_pending (rpc_abs s) k = Option.bind (sy_calls s k) pend_of"
  "lo_replies (rpc_abs s) k = Option.bind (sy_calls s k) repl_of"
  "lo_results (rpc_abs s) k = Option.bind (sy_calls s k) res_of"
  "lo_world (rpc_abs s) = sy_world s"
  by (simp_all add: rpc_abs_def)

lemma rpc_abs_same [simp]:
  "rpc_abs (s\<lparr>sy_net := rn\<rparr>) = rpc_abs s" "rpc_abs (s\<lparr>sy_heap := h\<rparr>) = rpc_abs s"
  by (simp_all add: rpc_abs_def)

text \<open>A step of call \<open>k\<close> changes the view of that call.\<close>

lemma rpc_abs_set_call:
  assumes "sy_calls s k = Some c" and "ca_req c' = ca_req c"
  shows "rpc_abs (set_call k c' s) = (rpc_abs s)\<lparr>lo_pending := (lo_pending (rpc_abs s))(k := pend_of c'),
    lo_replies := (lo_replies (rpc_abs s))(k := repl_of c'), lo_results := (lo_results (rpc_abs s))(k := res_of c')\<rparr>"
  using assms by (auto simp: rpc_abs_def fun_eq_iff)

lemma upd_same [simp]:
  "sy_calls s k = Some c \<Longrightarrow> v = pend_of c \<Longrightarrow> (lo_pending (rpc_abs s))(k := v) = lo_pending (rpc_abs s)"
  "sy_calls s k = Some c \<Longrightarrow> v' = repl_of c \<Longrightarrow> (lo_replies (rpc_abs s))(k := v') = lo_replies (rpc_abs s)"
  "sy_calls s k = Some c \<Longrightarrow> v'' = res_of c \<Longrightarrow> (lo_results (rpc_abs s))(k := v'') = lo_results (rpc_abs s)"
  by (auto simp: fun_eq_iff)

subsection \<open>The invariant\<close>

fun placed :: "('n \<Rightarrow> 'n) \<Rightarrow> (nat \<Rightarrow> 'n) \<Rightarrow> 'n \<Rightarrow> 'y handler \<Rightarrow> bool" where
  "placed dest host e Idle = True"
| "placed dest host e (Running rs) = (host rs = dest e)"
| "placed dest host e (Finished rs r) = (host rs = dest e \<and> rp_ok r)"

fun phase_ok :: "('n \<Rightarrow> 'n) \<Rightarrow> (nat \<Rightarrow> 'n) \<Rightarrow> 'n \<Rightarrow> 'y handler \<Rightarrow> ('n, 'y) phase \<Rightarrow> bool" where
  "phase_ok dest host e h Queued = (h = Idle)"
| "phase_ok dest host e h (Sleeping f ms) = (h = Idle \<and> host (fo_server f) = dest e)"
| "phase_ok dest host e h (Waiting f) = (h = Running (fo_server f) \<or> (\<exists>r. h = Finished (fo_server f) r))"
| "phase_ok dest host e h (Returned f r) = (h = Finished (fo_server f) r)"
| "phase_ok dest host e h (Replying ms rep) = (rep = failed \<or> (\<exists>rs. h = Finished rs rep))"
| "phase_ok dest host e h (Closed rep) = (rep = failed \<or> (\<exists>rs. h = Finished rs rep))"

definition call_ok :: "('n \<Rightarrow> 'n) \<Rightarrow> (nat \<Rightarrow> 'n) \<Rightarrow> ('n, 'y) call \<Rightarrow> bool" where
  "call_ok dest host c \<longleftrightarrow> placed dest host (rq_endname (ca_req c)) (ca_handler c) \<and>
     phase_ok dest host (rq_endname (ca_req c)) (ca_handler c) (ca_phase c)"

definition net_ok :: "('n \<Rightarrow> 'n) \<Rightarrow> (nat \<Rightarrow> 'n) \<Rightarrow> 'n Network \<Rightarrow> bool" where
  "net_ok dest host rn \<longleftrightarrow> (\<forall>e name. connections rn e = Some name \<longrightarrow> name = dest e) \<and>
     (\<forall>name rs. servers rn name = Some rs \<longrightarrow> host rs = name)"

definition rpc_inv :: "('n \<Rightarrow> 'n) \<Rightarrow> (nat \<Rightarrow> 'n) \<Rightarrow> ('n, 'w, 'y) system \<Rightarrow> bool" where
  "rpc_inv dest host s \<longleftrightarrow> net_ok dest host (sy_net s) \<and> (\<forall>k c. sy_calls s k = Some c \<longrightarrow> call_ok dest host c)"

lemma failed_sel [simp]: "rp_ok failed = False" "rp_reply failed = []"
  by (simp_all add: failed_def)

lemma dispatch_ok: "Server_dispatch rs q w = Some (rs', w', r) \<Longrightarrow> rp_ok r \<and> srv_services rs' = srv_services rs"
  by (auto simp: Server_dispatch_def Service_dispatch_def Let_def split: bind_splits prod.splits)

lemma dispatch_answer:
  "Server_dispatch rs q w = Some (rs', w', r) \<Longrightarrow> answer (srv_services rs) q w = Some (w', rp_reply r)"
  by (auto simp: answer_def Server_dispatch_def Service_dispatch_def Let_def split: bind_splits prod.splits)

lemma processStart_cases:
  obtains (fails) "processStart rn r c = c\<lparr>ca_phase := Replying (noServerDelay rn r) failed\<rparr>"
  | (finds) f ms where "processStart rn r c = c\<lparr>ca_phase := Sleeping f ms\<rparr>" "enabled rn (rq_endname (ca_req c))"
      "connections rn (rq_endname (ca_req c)) = Some (fo_servername f)" "servers rn (fo_servername f) = Some (fo_server f)"
proof (cases "enabled rn (rq_endname (ca_req c)) \<and> (\<exists>name rs. connections rn (rq_endname (ca_req c)) = Some name \<and>
    servers rn name = Some rs)")
  case True
  then obtain name rs where "enabled rn (rq_endname (ca_req c))" "connections rn (rq_endname (ca_req c)) = Some name"
    "servers rn name = Some rs" by blast
  then show thesis
    by (intro finds [where f = "\<lparr>fo_servername = name, fo_server = rs, fo_reliable = reliable rn,
      fo_longreordering = longReordering rn\<rparr>"]) (auto simp: processStart_def readEndnameInfo_def)
next
  case False
  then show thesis
    by (intro fails) (auto simp: processStart_def readEndnameInfo_def split: bool.splits option.splits)
qed

lemma runHandler_cases:
  assumes "runHandler h c w = Some (h', c', w')"
  obtains (idle) "h' = h" "c' = c" "w' = w"
  | (runs) rs srv r where "ca_handler c = Running rs" "Server_dispatch (h rs) (ca_req c) w = Some (srv, w', r)"
      "h' = h(rs := srv)" "c' = c\<lparr>ca_handler := Finished rs r\<rparr>"
  using assms by (auto simp: runHandler_def split: handler.splits bind_splits prod.splits)

subsection \<open>Every step keeps the invariant\<close>

lemma configure_net_ok: "configure dest host rn rn' \<Longrightarrow> net_ok dest host rn \<Longrightarrow> net_ok dest host rn'"
  by (induction rule: configure.induct)
    (auto simp: net_ok_def MakeEnd_def Connect_def Enable_def AddServer_def DeleteServer_def Reliable_def
      LongReordering_def LongDelays_def Cleanup_def stopServing_def Let_def split: option.splits if_splits)

lemma call_ok_start:
  assumes "call_ok dest host c" and "ca_phase c = Queued" and "net_ok dest host rn"
  shows "call_ok dest host (processStart rn r c)"
  by (rule processStart_cases [of rn r c]) (use assms in \<open>auto simp: call_ok_def net_ok_def\<close>)

lemma call_ok_exec: "call_ok dest host c \<Longrightarrow> call_ok dest host (processExec r c)"
  by (auto simp: call_ok_def processExec_def split: phase.splits)

lemma call_ok_handle:
  assumes "runHandler h c w = Some (h', c', w')" and "call_ok dest host c"
  shows "call_ok dest host c'"
  using assms(1)
proof (cases rule: runHandler_cases)
  case (runs rs srv r)
  with assms(2) dispatch_ok [OF runs(2)] show ?thesis by (cases "ca_phase c") (auto simp: call_ok_def)
qed (use assms in simp)

lemma call_ok_reply: "call_ok dest host c \<Longrightarrow> call_ok dest host (waitReply c)"
  by (auto simp: call_ok_def waitReply_def split: phase.splits handler.splits)

lemma call_ok_timeout: "call_ok dest host c \<Longrightarrow> call_ok dest host (waitTimeout rn c)"
  by (auto simp: call_ok_def waitTimeout_def split: phase.splits)

lemma call_ok_end: "call_ok dest host c \<Longrightarrow> call_ok dest host (processEnd rn r r1 r2 r3 c)"
  by (auto simp: call_ok_def processEnd_def split: phase.splits)

lemma call_ok_finish: "Call_finish rn c = (rn', c') \<Longrightarrow> call_ok dest host c \<Longrightarrow> call_ok dest host c'"
  by (auto simp: call_ok_def Call_finish_def split: phase.splits)

lemmas call_ok_steps = call_ok_start call_ok_exec call_ok_handle call_ok_reply call_ok_timeout call_ok_end call_ok_finish

lemma rpc_inv_step:
  assumes "rpc_inv dest host s" and "rpc_step dest host s s'"
  shows "rpc_inv dest host s'"
  using assms(2,1)
proof (induction rule: rpc_step.induct)
  case (rSend s k e meth args rn c)
  then show ?case by (auto simp: rpc_inv_def net_ok_def Call_send_def call_ok_def split: if_splits)
next
  case (rFinish s k c rn c')
  then show ?case using call_ok_finish [OF rFinish(2)]
    by (auto simp: rpc_inv_def net_ok_def Call_finish_def split: phase.splits)
next
  case (rConfigure s rn)
  then show ?case using configure_net_ok by (auto simp: rpc_inv_def)
qed (auto simp: rpc_inv_def intro: call_ok_steps)

interpretation rpc: inductive_invariant rpc_init "rpc_step dest host" "rpc_inv dest host" for dest host
proof
  show "rpc_inv dest host s" if "rpc_init s" for s
    using that by (simp add: rpc_init_def rpc_inv_def net_ok_def MakeNetwork_def)
qed (rule rpc_inv_step)

subsection \<open>Every step is one of the abstract network\<close>

abbreviation services_of :: "('n, 'w, 'y) system \<Rightarrow> nat \<Rightarrow> string \<rightharpoonup> ('w, 'y) Service" where
  "services_of s \<equiv> (\<lambda>a. srv_services (sy_heap s a))"

text \<open>Steps that lose a request or a reply, and steps that change nothing for the callers.\<close>

lemma lose_steps:
  assumes "sy_calls s k = Some c" and "ca_req c' = ca_req c" and "res_of c' = res_of c"
    and "pend_of c' = pend_of c \<or> pend_of c' = None" and "repl_of c' = repl_of c \<or> repl_of c' = None"
  shows "(lossy_step dest host svcs)\<^sup>*\<^sup>* (rpc_abs s) (rpc_abs (set_call k c' s))"
proof -
  let ?t = "rpc_abs s"
  let ?u = "?t\<lparr>lo_pending := (lo_pending ?t)(k := pend_of c')\<rparr>"
  have 1: "(lossy_step dest host svcs)\<^sup>*\<^sup>* ?t ?u"
    using assms(1,4) lLoseRequest [of dest host svcs ?t k] by (elim disjE) auto
  have 2: "(lossy_step dest host svcs)\<^sup>*\<^sup>* ?u (?u\<lparr>lo_replies := (lo_replies ?u)(k := repl_of c')\<rparr>)"
    using assms(1,5) lLoseReply [of dest host svcs ?u k] by (elim disjE) auto
  show ?thesis
    using rtranclp_trans [OF 1 2] assms(1-3) by (simp add: rpc_abs_set_call [OF assms(1,2)])
qed

lemma exec_steps:
  assumes "sy_calls s k = Some c" and "call_ok dest host c" and "ca_handler c = Running rs"
    and "Server_dispatch (sy_heap s rs) (ca_req c) (sy_world s) = Some (srv, w', r)"
  shows "(lossy_step dest host (services_of s))\<^sup>*\<^sup>* (rpc_abs s)
    (rpc_abs (set_call k (c\<lparr>ca_handler := Finished rs r\<rparr>) (s\<lparr>sy_world := w'\<rparr>)))"
proof -
  let ?t = "rpc_abs s" and ?c = "c\<lparr>ca_handler := Finished rs r\<rparr>"
  let ?u = "?t\<lparr>lo_pending := (lo_pending ?t)(k := None), lo_replies := (lo_replies ?t)(k \<mapsto> rp_reply r), lo_world := w'\<rparr>"
  have 1: "lossy_step dest host (services_of s) ?t ?u"
    by (rule lExec) (use assms dispatch_answer [OF assms(4)] in \<open>auto simp: rpc_view call_ok_def\<close>)
  have "repl_of ?c = None \<or> repl_of ?c = Some (rp_reply r)"
    by (auto simp: rpc_view split: phase.splits)
  then have "(lossy_step dest host (services_of s))\<^sup>*\<^sup>* ?u (rpc_abs (set_call k ?c (s\<lparr>sy_world := w'\<rparr>)))"
  proof
    assume n: "repl_of ?c = None"
    then have "?u\<lparr>lo_replies := (lo_replies ?u)(k := None)\<rparr> = rpc_abs (set_call k ?c (s\<lparr>sy_world := w'\<rparr>))"
      using assms(1,3) by (auto simp: rpc_abs_def pend_of_def res_of_def fun_eq_iff)
    then show ?thesis using lLoseReply [of dest host "services_of s" ?u k] by (metis r_into_rtranclp)
  next
    assume "repl_of ?c = Some (rp_reply r)"
    then have "?u = rpc_abs (set_call k ?c (s\<lparr>sy_world := w'\<rparr>))"
      using assms(1,3) by (auto simp: rpc_abs_def pend_of_def res_of_def fun_eq_iff)
    then show ?thesis by (metis rtranclp.rtrancl_refl)
  qed
  with 1 show ?thesis by (rule converse_rtranclp_into_rtranclp)
qed

lemma finish_steps:
  assumes "sy_calls s k = Some c" and "call_ok dest host c" and "Call_finish rn c = (rn', c')"
  shows "(lossy_step dest host svcs)\<^sup>*\<^sup>* (rpc_abs s) (rpc_abs (set_call k c' s))"
proof (cases "\<exists>ms rep. ca_phase c = Replying ms rep")
  case True
  then obtain ms rep where rep: "ca_phase c = Replying ms rep" by blast
  then have c': "c' = c\<lparr>ca_phase := Closed rep\<rparr>" using assms(3) by (simp add: Call_finish_def)
  have rq: "ca_req c' = ca_req c" by (simp add: c')
  let ?t = "rpc_abs s"
  have "rep = failed \<or> (\<exists>rs. ca_handler c = Finished rs rep \<and> rp_ok rep)"
    using assms(2) rep by (auto simp: call_ok_def)
  then have "lossy_step dest host svcs ?t (?t\<lparr>lo_replies := (lo_replies ?t)(k := None),
      lo_results := (lo_results ?t)(k \<mapsto> rep)\<rparr>)"
  proof
    assume "rep = failed"
    then show ?thesis using lFail [of ?t k] assms(1) rep by (simp add: rpc_view)
  next
    assume "\<exists>rs. ca_handler c = Finished rs rep \<and> rp_ok rep"
    moreover from this obtain rb where "rep = \<lparr>rp_ok = True, rp_reply = rb\<rparr>" by (cases rep) auto
    ultimately show ?thesis using lReturn [of ?t k "rp_reply rep" dest host svcs] assms(1) rep by (auto simp: rpc_view)
  qed
  moreover have "pend_of c' = pend_of c" "repl_of c' = None" "res_of c' = Some rep"
    using rep by (auto simp: c' rpc_view split: handler.splits)
  ultimately show ?thesis
    using assms(1) by (simp add: rpc_abs_set_call [OF assms(1) rq] r_into_rtranclp)
next
  case False
  then have "c' = c" using assms(3) by (auto simp: Call_finish_def split: phase.splits)
  then show ?thesis using lose_steps [OF assms(1)] by simp
qed

lemma send_steps:
  assumes "sy_calls s k = None" and "Call_send rn e meth args = Some (rn', c)"
  shows "lossy_step dest host svcs (rpc_abs s) (rpc_abs (set_call k c s))"
proof -
  let ?t = "rpc_abs s"
  have "rpc_abs (set_call k c s) =
      ?t\<lparr>lo_calls := (lo_calls ?t)(k \<mapsto> ca_req c), lo_pending := (lo_pending ?t)(k \<mapsto> ca_req c)\<rparr>"
    using assms by (auto simp: rpc_abs_def Call_send_def rpc_view fun_eq_iff split: if_splits)
  then show ?thesis using lSend [of ?t k] assms(1) by simp
qed

lemma step_heap_services: "rpc_step dest host s s' \<Longrightarrow> services_of s' = services_of s"
  by (induction rule: rpc_step.induct)
    (auto simp: fun_eq_iff elim!: runHandler_cases dest: dispatch_ok)

lemma rpc_step_lossy:
  assumes "rpc_step dest host s s'" and "rpc_inv dest host s"
  shows "(lossy_step dest host (services_of s))\<^sup>*\<^sup>* (rpc_abs s) (rpc_abs s')"
  using assms
proof (induction rule: rpc_step.induct)
  case (rSend s k e meth args rn c)
  then show ?case using send_steps [OF rSend(1,2)] by (auto simp: rpc_abs_def)
next
  case (rStart s k c r)
  then have "call_ok dest host c" by (auto simp: rpc_inv_def)
  with rStart(2) have "ca_handler c = Idle" by (simp add: call_ok_def)
  with rStart(2) show ?case
    by (intro lose_steps [OF rStart(1)]; cases rule: processStart_cases [of "sy_net s" r c]) (auto simp: rpc_view)
next
  case (rExec s k c r)
  then have "call_ok dest host c" by (auto simp: rpc_inv_def)
  then show ?case
    by (intro lose_steps [OF rExec(1)]) (auto simp: processExec_def rpc_view call_ok_def split: phase.splits)
next
  case (rHandle s k c h' c' w')
  from rHandle(2) show ?case
  proof (cases rule: runHandler_cases)
    case idle
    then show ?thesis using lose_steps [OF rHandle(1), of c] by simp
  next
    case (runs rs srv r)
    then show ?thesis using exec_steps [OF rHandle(1) _ runs(1,2)] rHandle(1,3) by (auto simp: rpc_inv_def rpc_abs_def)
  qed
next
  case (rReply s k c)
  then show ?case
    by (intro lose_steps [OF rReply(1)]) (auto simp: waitReply_def rpc_view split: phase.splits handler.splits)
next
  case (rTimeout s k c)
  then have "call_ok dest host c" by (auto simp: rpc_inv_def)
  then show ?case
    by (intro lose_steps [OF rTimeout(1)]) (auto simp: waitTimeout_def rpc_view call_ok_def split: phase.splits)
next
  case (rEnd s k c r r1 r2 r3)
  then have "call_ok dest host c" by (auto simp: rpc_inv_def)
  then show ?case
    by (intro lose_steps [OF rEnd(1)]) (auto simp: processEnd_def rpc_view call_ok_def split: phase.splits)
next
  case (rFinish s k c rn c')
  then have "call_ok dest host c" by (auto simp: rpc_inv_def)
  from finish_steps [OF rFinish(1) this rFinish(2)] show ?case by (simp add: rpc_abs_def)
qed simp

subsection \<open>A server that has been deleted\<close>

text \<open>The call has no answer yet, or has failed.\<close>

fun unanswered :: "'n found \<Rightarrow> ('n, 'y) phase \<Rightarrow> bool" where
  "unanswered f (Waiting g) = (g = f)"
| "unanswered f (Returned g r) = (g = f)"
| "unanswered f (Replying ms rep) = (rep = failed)"
| "unanswered f (Closed rep) = (rep = failed)"
| "unanswered f _ = False"

definition gone :: "'n found \<Rightarrow> ('n, 'w, 'y) system \<Rightarrow> bool" where
  "gone f s \<longleftrightarrow> servers (sy_net s) (fo_servername f) \<noteq> Some (fo_server f)"

lemma unanswered_step:
  assumes "rpc_step dest host s s'" and "gone f s" and "sy_calls s k = Some c" and "unanswered f (ca_phase c)"
  shows "\<exists>c'. sy_calls s' k = Some c' \<and> unanswered f (ca_phase c')"
  using assms
proof (induction rule: rpc_step.induct)
  case (rHandle s j d h' d' w')
  from rHandle(2) have "ca_phase d' = ca_phase d" by (cases rule: runHandler_cases) auto
  with rHandle(1,4,5) show ?case by auto
qed (auto simp: processExec_def waitReply_def waitTimeout_def processEnd_def Call_finish_def gone_def isServerDead_def
      split: phase.splits handler.splits)

lemma unanswered_steps:
  assumes "(\<lambda>a b. rpc_step dest host a b \<and> gone f a)\<^sup>*\<^sup>* s s'" and "sy_calls s k = Some c" and "unanswered f (ca_phase c)"
  shows "\<exists>c'. sy_calls s' k = Some c' \<and> unanswered f (ca_phase c')"
  using assms by (induction rule: rtranclp_induct) (auto dest: unanswered_step)

subsection \<open>Statistics\<close>

definition handled :: "('n, 'w, 'y) system \<Rightarrow> nat \<Rightarrow> nat set" where
  "handled s a = {k. \<exists>c r. sy_calls s k = Some c \<and> ca_handler c = Finished a r}"

definition stats_ok :: "('n, 'w, 'y) system \<Rightarrow> bool" where
  "stats_ok s \<longleftrightarrow> finite (dom (sy_calls s)) \<and> net_count (sy_net s) = of_nat (card (dom (sy_calls s))) \<and>
     (\<forall>a. srv_count (sy_heap s a) = int (card (handled s a)))"

lemma stats_same:
  assumes "stats_ok s" and "sy_calls s k = Some c"
    and "ca_handler c' = ca_handler c \<or> (\<forall>a r. ca_handler c' \<noteq> Finished a r \<and> ca_handler c \<noteq> Finished a r)"
    and "net_count rn = net_count (sy_net s)"
  shows "stats_ok (set_call k c' (s\<lparr>sy_net := rn\<rparr>))"
proof -
  have "handled (set_call k c' (s\<lparr>sy_net := rn\<rparr>)) a = handled s a" for a
  proof (rule set_eqI)
    show "j \<in> handled (set_call k c' (s\<lparr>sy_net := rn\<rparr>)) a \<longleftrightarrow> j \<in> handled s a" for j
      using assms(2,3) by (cases "j = k"; simp add: handled_def; metis)
  qed
  then show ?thesis using assms by (auto simp: stats_ok_def insert_absorb domI)
qed

lemma stats_send:
  assumes "stats_ok s" and "sy_calls s k = None" and "Call_send (sy_net s) e meth args = Some (rn, c)"
  shows "stats_ok (set_call k c (s\<lparr>sy_net := rn\<rparr>))"
proof -
  have c: "ca_handler c = Idle" "net_count rn = net_count (sy_net s) + 1"
    using assms(3) by (auto simp: Call_send_def split: if_splits)
  then have "handled (set_call k c (s\<lparr>sy_net := rn\<rparr>)) a = handled s a" for a
    using assms(2) by (auto simp: handled_def)
  with assms c show ?thesis by (auto simp: stats_ok_def card_insert_if domIff)
qed

lemma stats_handle:
  assumes "stats_ok s" and "sy_calls s k = Some c" and "ca_handler c = Running rs" and "srv_count srv = srv_count (sy_heap s rs) + 1"
  shows "stats_ok (set_call k (c\<lparr>ca_handler := Finished rs r\<rparr>) (s\<lparr>sy_heap := (sy_heap s)(rs := srv), sy_world := w\<rparr>))"
    (is "stats_ok ?s")
proof -
  have new: "handled ?s a = (if a = rs then insert k (handled s a) else handled s a)" for a
    using assms(2,3) by (auto simp: handled_def)
  have fresh: "k \<notin> handled s rs" using assms(2,3) by (simp add: handled_def)
  have "finite (handled s rs)"
    using assms(1) by (auto simp: stats_ok_def handled_def intro: finite_subset [of _ "dom (sy_calls s)"])
  then have "card (handled ?s rs) = Suc (card (handled s rs))" unfolding new using fresh by simp
  moreover have "handled ?s a = handled s a" if "a \<noteq> rs" for a unfolding new using that by simp
  moreover have "dom (sy_calls ?s) = dom (sy_calls s)" using assms(2) by (auto simp: dom_def)
  ultimately show ?thesis using assms(1,4) unfolding stats_ok_def by (auto simp del: dom_fun_upd)
qed

lemma stats_step:
  assumes "rpc_step dest host s s'" and "rpc_inv dest host s" and "stats_ok s"
  shows "stats_ok s'"
  using assms
proof (induction rule: rpc_step.induct)
  case (rSend s k e meth args rn c)
  then show ?case using stats_send by blast
next
  case (rStart s k c r)
  then show ?case using stats_same [OF rStart(4,1), of "processStart (sy_net s) r c" "sy_net s"]
    by (cases rule: processStart_cases [of "sy_net s" r c]) simp_all
next
  case (rExec s k c r)
  then have "call_ok dest host c" by (auto simp: rpc_inv_def)
  with rExec show ?case using stats_same [OF rExec(3,1), of "processExec r c" "sy_net s"]
    by (auto simp: processExec_def call_ok_def split: phase.splits)
next
  case (rHandle s k c h' c' w')
  from rHandle(2) show ?case
  proof (cases rule: runHandler_cases)
    case idle
    then show ?thesis using stats_same [OF rHandle(4,1), of c "sy_net s"] by simp
  next
    case (runs rs srv r)
    have "srv_count srv = srv_count (sy_heap s rs) + 1"
      using runs(2) by (auto simp: Server_dispatch_def Let_def split: bind_splits)
    with runs show ?thesis using stats_handle [OF rHandle(4,1)] by simp
  qed
next
  case (rReply s k c)
  then show ?case using stats_same [OF rReply(3,1), of "waitReply c" "sy_net s"]
    by (simp add: waitReply_def split: phase.splits handler.splits)
next
  case (rTimeout s k c)
  then show ?case using stats_same [OF rTimeout(3,1), of "waitTimeout (sy_net s) c" "sy_net s"]
    by (simp add: waitTimeout_def split: phase.splits)
next
  case (rEnd s k c r r1 r2 r3)
  then show ?case using stats_same [OF rEnd(3,1), of "processEnd (sy_net s) r r1 r2 r3 c" "sy_net s"]
    by (simp add: processEnd_def split: phase.splits)
next
  case (rFinish s k c rn c')
  then show ?case using stats_same [OF rFinish(4,1), of c' rn]
    by (auto simp: Call_finish_def split: phase.splits)
next
  case (rConfigure s rn)
  from rConfigure(1) have "net_count rn = net_count (sy_net s)"
    by (induction rule: configure.induct)
      (auto simp: MakeEnd_def Connect_def Enable_def AddServer_def DeleteServer_def Reliable_def
        LongReordering_def LongDelays_def Cleanup_def stopServing_def Let_def split: option.splits if_splits)
  with rConfigure(3) show ?case by (simp add: stats_ok_def handled_def)
qed

interpretation rpc_stats: inductive_invariant rpc_init "rpc_step dest host" "\<lambda>s. rpc_inv dest host s \<and> stats_ok s"
  for dest host
proof
  show "rpc_inv dest host s \<and> stats_ok s" if "rpc_init s" for s
    using that rpc.inv_init [OF that] by (auto simp: rpc_init_def stats_ok_def handled_def MakeNetwork_def)
qed (auto intro: rpc_inv_step stats_step)

subsection \<open>Dispatch\<close>

lemma LastIndex_absent [simp]: "c \<notin> set ys \<Longrightarrow> LastIndex ys c = -1"
  by (induction ys) auto

lemma LastIndex_last [simp]: "c \<notin> set ys \<Longrightarrow> LastIndex (xs @ c # ys) c = int (length xs)"
  by (induction xs) (auto simp: Let_def)

lemma fold_methods:
  "distinct (map me_Name ms) \<Longrightarrow> me_Name ` set ms \<inter> dom f = {} \<Longrightarrow>
   fold (\<lambda>m f. if suitable m then f(me_Name m \<mapsto> m) else f) ms f meth =
     (case find (\<lambda>m. suitable m \<and> me_Name m = meth) ms of None \<Rightarrow> f meth | Some m \<Rightarrow> Some m)"
proof (induction ms arbitrary: f)
  case (Cons m ms)
  have "find (\<lambda>x. suitable x \<and> me_Name x = me_Name m) ms = None"
    using Cons.prems(1) by (auto simp: find_None_iff) (metis image_eqI)
  with Cons show ?case by (auto simp: image_iff split: option.splits)
qed simp

lemma MakeService_methods:
  "distinct (map me_Name ms) \<Longrightarrow>
   svc_methods (MakeService name ms) meth = find (\<lambda>m. suitable m \<and> me_Name m = meth) ms"
  by (simp add: MakeService_def fold_methods split: option.splits)

section \<open>The theorems\<close>

text \<open>C12: the network is a lossy network.  In every execution of the simulated network, with any change of its configuration in
  between, the calls behave as the abstract network: a request is executed at most once, by a server object of the name that the
  end is connected to; the caller gets the reply of that execution or a failure; requests and replies may be lost, delayed
  and overtake each other, but are never made up, altered or given to another call.\<close>

theorem rpc_refines_lossy:
  assumes "rpc_init s0" and "(rpc_step dest host)\<^sup>*\<^sup>* s0 s"
  shows "(lossy_step dest host (\<lambda>a. srv_services (sy_heap s0 a)))\<^sup>*\<^sup>* (rpc_abs s0) (rpc_abs s)"
proof -
  have "rpc_inv dest host s \<and> services_of s = services_of s0 \<and>
      (lossy_step dest host (services_of s0))\<^sup>*\<^sup>* (rpc_abs s0) (rpc_abs s)"
    using assms(2)
  proof (induction rule: rtranclp_induct)
    case base
    then show ?case using rpc.inv_init [OF assms(1)] by simp
  next
    case (step s s')
    then show ?case
      using rpc_inv_step rpc_step_lossy [OF step(2)] step_heap_services [OF step(2)] by (metis rtranclp_trans)
  qed
  then show ?thesis by simp
qed

text \<open>No answer from a deleted server.  A call whose server has been deleted or replaced before the last look of
  \<^verbatim>\<open>processReq\<close> fails, or does not return, as long as that server object is not added again: what a server has done
  after it was superseded is never acknowledged.\<close>

lemma deleted_server_never_answers:
  assumes "sy_calls s k = Some c" and "ca_phase c = Waiting f \<or> ca_phase c = Returned f r"
    and "(\<lambda>a b. rpc_step dest host a b \<and> servers (sy_net a) (fo_servername f) \<noteq> Some (fo_server f))\<^sup>*\<^sup>* s s'"
  shows "\<exists>c'. sy_calls s' k = Some c' \<and> res_of c' \<in> {None, Some failed}"
proof -
  have "unanswered f (ca_phase c)" using assms(2) by auto
  with unanswered_steps [OF _ assms(1)] assms(3) obtain c' where "sy_calls s' k = Some c'" "unanswered f (ca_phase c')"
    unfolding gone_def by blast
  then show ?thesis by (cases "ca_phase c'") (auto simp: res_of_def)
qed

text \<open>The statistics that the tests check.  \<^verbatim>\<open>GetTotalCount\<close> is the number of calls made, as a signed 32-bit number,
  and the count of a server the number of calls that it has handled.\<close>

lemma rpc_statistics:
  assumes "reach rpc_init (rpc_step dest host) s"
  shows "finite (dom (sy_calls s)) \<and> GetTotalCount (sy_net s) = sint (of_nat (card (dom (sy_calls s))) :: 32 word) \<and>
    GetCount (sy_net s) (sy_heap s) name = map_option (\<lambda>a. int (card (handled s a))) (servers (sy_net s) name)"
  using rpc_stats.inv_reach [OF assms]
  by (auto simp: stats_ok_def GetTotalCount_def GetCount_def Server_GetCount_def split: bind_splits)

text \<open>Dispatch.  A call of \<^verbatim>\<open>Name.Meth\<close> runs the exported method \<^verbatim>\<open>Meth\<close> with a pointer as its second argument and no
  result, of the service \<^verbatim>\<open>Name\<close> that was added last, and counts it; it ends the program when there is no such method, or no
  dot.\<close>

lemma dispatch_correct:
  assumes "distinct (map me_Name ms)" and "CHR ''.'' \<notin> set meth"
  shows "Server_dispatch (AddService rs (MakeService name ms))
      \<lparr>rq_endname = e, rq_svcMeth = name @ ''.'' @ meth, rq_args = a\<rparr> w =
      (case find (\<lambda>m. suitable m \<and> me_Name m = meth) ms of
         None \<Rightarrow> None
       | Some m \<Rightarrow> Some ((AddService rs (MakeService name ms))\<lparr>srv_count := srv_count rs + 1\<rparr>,
           fst (me_Func m a w), \<lparr>rp_ok = True, rp_reply = snd (me_Func m a w)\<rparr>)) \<and>
    Server_dispatch rs \<lparr>rq_endname = e, rq_svcMeth = meth, rq_args = a\<rparr> w = None"
proof
  have "srv_services (AddService rs (MakeService name ms)) name = Some (MakeService name ms)"
    "srv_count (AddService rs (MakeService name ms)) = srv_count rs"
    by (simp_all add: AddService_def MakeService_def)
  then show "Server_dispatch (AddService rs (MakeService name ms))
      \<lparr>rq_endname = e, rq_svcMeth = name @ ''.'' @ meth, rq_args = a\<rparr> w =
      (case find (\<lambda>m. suitable m \<and> me_Name m = meth) ms of
         None \<Rightarrow> None
       | Some m \<Rightarrow> Some ((AddService rs (MakeService name ms))\<lparr>srv_count := srv_count rs + 1\<rparr>,
           fst (me_Func m a w), \<lparr>rp_ok = True, rp_reply = snd (me_Func m a w)\<rparr>))"
    using assms(2) MakeService_methods [OF assms(1), of name meth]
    by (auto simp: Server_dispatch_def Service_dispatch_def nat_add_distrib slice_to_def slice_from_def
        split: option.splits prod.splits)
qed (use assms(2) in \<open>simp add: Server_dispatch_def slice_to_def\<close>)

section \<open>An example\<close>

text \<open>One end, one server with a method that counts its calls, one call from the request to the reply.\<close>

abbreviation ex_dest :: "nat \<Rightarrow> nat" where
  "ex_dest \<equiv> (\<lambda>e. 7)"

abbreviation ex_host :: "nat \<Rightarrow> nat" where
  "ex_host \<equiv> (\<lambda>a. 7)"

definition ex_method :: "(nat, nat) Method" where
  "ex_method = \<lparr>me_Name = ''Get'', me_PkgPath = [], me_NumIn = 3, me_In2Ptr = True, me_NumOut = 0,
     me_Func = (\<lambda>a n. (n + 1, n # a))\<rparr>"

definition ex_service :: "(nat, nat) Service" where
  "ex_service = MakeService ''KV'' [ex_method]"

definition ex_rpc0 :: "(nat, nat, nat) system" where
  "ex_rpc0 = \<lparr>sy_net = MakeNetwork, sy_heap = (\<lambda>a. AddService MakeServer ex_service), sy_calls = (\<lambda>k. None), sy_world = 5\<rparr>"

definition ex_net :: "nat Network" where
  "ex_net = Enable (Connect (AddServer (fst (the (MakeEnd MakeNetwork 1))) 7 0) 1 7) 1 True"

definition ex_call :: "(nat, nat) phase \<Rightarrow> nat handler \<Rightarrow> (nat, nat) call" where
  "ex_call p h = \<lparr>ca_req = \<lparr>rq_endname = 1, rq_svcMeth = ''KV.Get'', rq_args = [3]\<rparr>, ca_phase = p, ca_handler = h\<rparr>"

definition ex_found :: "nat found" where
  "ex_found = \<lparr>fo_servername = 7, fo_server = 0, fo_reliable = True, fo_longreordering = False\<rparr>"

definition ex_rpc :: "nat \<Rightarrow> nat \<Rightarrow> nat Network \<Rightarrow> (nat, nat) phase \<Rightarrow> nat handler \<Rightarrow> (nat, nat, nat) system" where
  "ex_rpc n w rn p h = \<lparr>sy_net = rn,
     sy_heap = (\<lambda>a. AddService MakeServer ex_service)(0 := (AddService MakeServer ex_service)\<lparr>srv_count := int n\<rparr>),
     sy_calls = (\<lambda>k. None)(0 := Some (ex_call p h)), sy_world = w\<rparr>"

abbreviation ex_step :: "(nat, nat, nat) system \<Rightarrow> (nat, nat, nat) system \<Rightarrow> bool" where
  "ex_step \<equiv> rpc_step ex_dest ex_host"

abbreviation ex_reply :: "nat replyMsg" where
  "ex_reply \<equiv> \<lparr>rp_ok = True, rp_reply = [5, 3]\<rparr>"

definition ex_counted :: "nat \<Rightarrow> nat Network \<Rightarrow> nat Network" where
  "ex_counted n rn = rn\<lparr>net_count := 1, net_bytes := of_nat n\<rparr>"

lemma ex_into: "ex_step a b \<Longrightarrow> ex_step\<^sup>*\<^sup>* a b"
  by (rule r_into_rtranclp)

lemma ex_configured: "ex_step\<^sup>*\<^sup>* ex_rpc0 (ex_rpc0\<lparr>sy_net := ex_net\<rparr>)"
proof -
  let ?a = "fst (the (MakeEnd MakeNetwork 1))" and ?s = "\<lambda>rn. ex_rpc0\<lparr>sy_net := rn\<rparr>"
  have "ex_step\<^sup>*\<^sup>* ex_rpc0 (?s ?a)"
    by (rule r_into_rtranclp, rule rConfigure, rule gMakeEnd [where endname = 1 and e = "\<lparr>ce_endname = 1\<rparr>"])
      (simp add: ex_rpc0_def MakeEnd_def Let_def MakeNetwork_def)
  also have "ex_step\<^sup>*\<^sup>* (?s ?a) (?s (AddServer ?a 7 0))"
    using ex_into [OF rConfigure [OF gAddServer [of ex_dest ex_host "sy_net (?s ?a)" 0]]] by simp
  also have "ex_step\<^sup>*\<^sup>* (?s (AddServer ?a 7 0)) (?s (Connect (AddServer ?a 7 0) 1 7))"
    using ex_into [OF rConfigure [OF gConnect [of ex_dest ex_host "sy_net (?s (AddServer ?a 7 0))" 1]]] by simp
  also have "ex_step\<^sup>*\<^sup>* (?s (Connect (AddServer ?a 7 0) 1 7)) (?s ex_net)"
    using ex_into [OF rConfigure [OF gEnable [of ex_dest ex_host "sy_net (?s (Connect (AddServer ?a 7 0) 1 7))" 1 True]]]
    by (simp add: ex_net_def)
  finally show ?thesis .
qed

lemma ex_sends: "ex_step (ex_rpc0\<lparr>sy_net := ex_net\<rparr>) (ex_rpc 0 5 (ex_counted 1 ex_net) Queued Idle)"
proof -
  have "Call_send ex_net \<lparr>ce_endname = 1\<rparr> ''KV.Get'' [3] = Some (ex_counted 1 ex_net, ex_call Queued Idle)"
    by (simp add: Call_send_def ex_net_def MakeEnd_def Let_def MakeNetwork_def AddServer_def Connect_def Enable_def
        ex_counted_def ex_call_def)
  then show ?thesis
    using rSend [of "ex_rpc0\<lparr>sy_net := ex_net\<rparr>" 0 "\<lparr>ce_endname = 1\<rparr>" "''KV.Get''" "[3]"]
    by (simp add: ex_rpc0_def ex_rpc_def AddService_def MakeServer_def fun_upd_idem)
qed

lemma ex_calls [simp]: "sy_calls (ex_rpc n w rn p h) 0 = Some (ex_call p h)" "sy_net (ex_rpc n w rn p h) = rn"
  "set_call 0 (ex_call p' h') (ex_rpc n w rn p h) = ex_rpc n w rn p' h'"
  by (simp_all add: ex_rpc_def)

lemma ex_starts:
  "ex_step (ex_rpc 0 5 (ex_counted 1 ex_net) Queued Idle) (ex_rpc 0 5 (ex_counted 1 ex_net) (Sleeping ex_found 0) Idle)"
proof -
  have "processStart (ex_counted 1 ex_net) 0 (ex_call Queued Idle) = ex_call (Sleeping ex_found 0) Idle"
    by (simp add: processStart_def readEndnameInfo_def ex_counted_def ex_net_def MakeEnd_def Let_def MakeNetwork_def AddServer_def
        Connect_def Enable_def ex_call_def ex_found_def)
  then show ?thesis
    using rStart [of "ex_rpc 0 5 (ex_counted 1 ex_net) Queued Idle" 0 "ex_call Queued Idle" ex_dest ex_host 0]
    by (simp add: ex_call_def ex_rpc_def)
qed

lemma ex_execs: "ex_step (ex_rpc n w rn (Sleeping ex_found 0) Idle) (ex_rpc n w rn (Waiting ex_found) (Running 0))"
  using rExec [of "ex_rpc n w rn (Sleeping ex_found 0) Idle" 0 "ex_call (Sleeping ex_found 0) Idle" ex_dest ex_host 0]
  by (simp add: processExec_def drops_def ex_found_def ex_call_def ex_rpc_def)

lemma ex_handles: "ex_step (ex_rpc 0 5 rn p (Running 0)) (ex_rpc 1 6 rn p (Finished 0 ex_reply))"
proof -
  have "runHandler (sy_heap (ex_rpc 0 5 rn p (Running 0))) (ex_call p (Running 0)) 5 =
      Some (sy_heap (ex_rpc 1 6 rn p (Finished 0 ex_reply)), ex_call p (Finished 0 ex_reply), 6)"
    by (auto simp: runHandler_def Server_dispatch_def Service_dispatch_def ex_rpc_def ex_call_def ex_service_def
        ex_method_def MakeService_def suitable_def AddService_def MakeServer_def slice_to_def slice_from_def)
  then show ?thesis
    using rHandle [of "ex_rpc 0 5 rn p (Running 0)" 0 "ex_call p (Running 0)"] by (simp add: ex_rpc_def)
qed

lemma ex_replies: "ex_step (ex_rpc n w rn (Waiting f) (Finished a r)) (ex_rpc n w rn (Returned f r) (Finished a r))"
  using rReply [of "ex_rpc n w rn (Waiting f) (Finished a r)" 0 "ex_call (Waiting f) (Finished a r)" ex_dest ex_host]
  by (simp add: waitReply_def ex_call_def ex_rpc_def)

lemma ex_ends:
  "ex_step (ex_rpc n w rn (Returned ex_found r) h)
     (ex_rpc n w rn (Replying 0 (if enabled rn 1 \<and> servers rn 7 = Some 0 then r else failed)) h)"
  using rEnd [of "ex_rpc n w rn (Returned ex_found r) h" 0 "ex_call (Returned ex_found r) h" ex_dest ex_host 0 0 0 0]
  by (auto simp: processEnd_def ex_call_def ex_rpc_def ex_found_def isServerDead_def drops_def replyDelay_def)

lemma ex_finishes:
  "ex_step (ex_rpc n w rn (Replying 0 rep) h)
     (ex_rpc n w (rn\<lparr>net_bytes := net_bytes rn + of_nat (length (rp_reply rep))\<rparr>) (Closed rep) h)"
  using rFinish [of "ex_rpc n w rn (Replying 0 rep) h" 0 "ex_call (Replying 0 rep) h"]
  by (simp add: Call_finish_def ex_call_def ex_rpc_def)

definition ex_last :: "(nat, nat, nat) system" where
  "ex_last = ex_rpc 1 6 (ex_counted 3 ex_net) (Closed ex_reply) (Finished 0 ex_reply)"

lemma ex_run_steps: "ex_step\<^sup>*\<^sup>* ex_rpc0 ex_last"
proof -
  have alive: "enabled (ex_counted 1 ex_net) 1" "servers (ex_counted 1 ex_net) 7 = Some 0"
    by (simp_all add: ex_counted_def ex_net_def AddServer_def Connect_def Enable_def)
  note ex_configured
  also note ex_sends [THEN ex_into]
  also note ex_starts [THEN ex_into]
  also note ex_execs [THEN ex_into]
  also note ex_handles [THEN ex_into]
  also note ex_replies [THEN ex_into]
  also note ex_ends [THEN ex_into]
  also note ex_finishes [THEN ex_into]
  finally show ?thesis using alive by (simp add: ex_last_def ex_counted_def)
qed

lemma ex_rpc0_init: "rpc_init ex_rpc0"
  by (simp add: rpc_init_def ex_rpc0_def AddService_def MakeServer_def)

theorem rpc_refines_lossy_witness:
  "(lossy_step ex_dest ex_host (\<lambda>a. srv_services (sy_heap ex_rpc0 a)))\<^sup>*\<^sup>* (rpc_abs ex_rpc0) (rpc_abs ex_last) \<and>
   lo_results (rpc_abs ex_last) 0 = Some ex_reply \<and> lo_world (rpc_abs ex_last) = 6"
  using rpc_refines_lossy [OF ex_rpc0_init ex_run_steps]
  by (simp add: ex_last_def ex_rpc_def ex_call_def res_of_def)

text \<open>The server is deleted while the handler runs: the handler completes, and the call fails.\<close>

definition ex_late :: "(nat, nat) phase \<Rightarrow> nat handler \<Rightarrow> nat \<Rightarrow> nat \<Rightarrow> (nat, nat, nat) system" where
  "ex_late p h n w = ex_rpc n w (DeleteServer (ex_counted 1 ex_net) 7) p h"

end
