(* ===== verification/Go_Chan.thy ===== *)
theory Go_Chan
  imports Go_Prelude
begin

section \<open>Channels with one receiver\<close>

text \<open>
  The services wake a waiting RPC handler through a channel that the handler has made for itself
  and that is found under a log index in a map.  A channel is an object: the apply loop may hold it
  after the handler has removed it from the map.  So channels live in a store and are referred to by
  an address.  A channel has at most one receiver, the handler that made it; the receiver is in a
  \<^verbatim>\<open>select\<close> with a timeout.  A send hands the value to a waiting receiver or puts it in the buffer;
  when neither is possible it blocks, which is the result \<^const>\<open>None\<close>.
\<close>

datatype 'a receiver = NoReceiver | Waiting | Got 'a

record 'a chan =
  chan_cap :: nat
  chan_buf :: "'a list"
  chan_recv :: "'a receiver"

record 'a chans =
  chan_at :: "nat \<rightharpoonup> 'a chan"
  chan_next :: nat

definition no_chans :: "'a chans" where
  "no_chans = \<lparr>chan_at = Map.empty, chan_next = 0\<rparr>"

definition make_chan :: "nat \<Rightarrow> 'a receiver \<Rightarrow> 'a chans \<Rightarrow> nat \<times> 'a chans" where
  "make_chan cap r h = (chan_next h,
     h\<lparr>chan_at := (chan_at h)(chan_next h \<mapsto> \<lparr>chan_cap = cap, chan_buf = [], chan_recv = r\<rparr>),
       chan_next := Suc (chan_next h)\<rparr>)"

definition chan_send :: "nat \<Rightarrow> 'a \<Rightarrow> 'a chans \<Rightarrow> 'a chans option" where
  "chan_send c v h = (case chan_at h c of
     None \<Rightarrow> None
   | Some ch \<Rightarrow>
       if chan_recv ch = Waiting then Some (h\<lparr>chan_at := (chan_at h)(c \<mapsto> ch\<lparr>chan_recv := Got v\<rparr>)\<rparr>)
       else if length (chan_buf ch) < chan_cap ch
       then Some (h\<lparr>chan_at := (chan_at h)(c \<mapsto> ch\<lparr>chan_buf := chan_buf ch @ [v]\<rparr>)\<rparr>)
       else None)"

text \<open>The receiver leaves its \<^verbatim>\<open>select\<close>: with the value it was handed, or with \<^const>\<open>None\<close> on a timeout.\<close>

definition chan_leave :: "nat \<Rightarrow> 'a chans \<Rightarrow> 'a option \<times> 'a chans" where
  "chan_leave c h = (case chan_at h c of
     None \<Rightarrow> (None, h)
   | Some ch \<Rightarrow>
       (case chan_recv ch of Got v \<Rightarrow> Some v | _ \<Rightarrow> None,
        h\<lparr>chan_at := (chan_at h)(c \<mapsto> ch\<lparr>chan_recv := NoReceiver\<rparr>)\<rparr>))"

definition wf_chans :: "'a chans \<Rightarrow> bool" where
  "wf_chans h \<longleftrightarrow> (\<forall>c. chan_at h c \<noteq> None \<longrightarrow> c < chan_next h)"

lemma wf_no_chans [simp]: "wf_chans no_chans"
  by (simp add: wf_chans_def no_chans_def)

lemma wf_make_chan: "wf_chans h \<Longrightarrow> wf_chans (snd (make_chan n r h))"
  by (auto simp: wf_chans_def make_chan_def less_Suc_eq)

lemma wf_chan_leave: "wf_chans h \<Longrightarrow> wf_chans (snd (chan_leave c h))"
  by (auto simp: wf_chans_def chan_leave_def split: option.splits)

lemma wf_chan_send: "chan_send c v h = Some h' \<Longrightarrow> wf_chans h \<Longrightarrow> wf_chans h'"
  by (auto simp: wf_chans_def chan_send_def split: option.splits if_splits)

text \<open>An unbuffered channel that its receiver has left.\<close>

definition abandoned :: "nat \<Rightarrow> 'a chans \<Rightarrow> bool" where
  "abandoned c h \<longleftrightarrow> (\<exists>ch. chan_at h c = Some ch \<and> chan_cap ch = 0 \<and> chan_recv ch = NoReceiver)"

lemma abandoned_blocks: "abandoned c h \<Longrightarrow> chan_send c v h = None"
  by (auto simp: abandoned_def chan_send_def)

lemma abandoned_make: "wf_chans h \<Longrightarrow> abandoned c h \<Longrightarrow> abandoned c (snd (make_chan n r h))"
  by (auto simp: wf_chans_def abandoned_def make_chan_def)

lemma abandoned_leave: "abandoned c h \<Longrightarrow> abandoned c (snd (chan_leave d h))"
  by (auto simp: abandoned_def chan_leave_def split: option.splits)

lemma leave_abandons:
  "chan_at h c = Some ch \<Longrightarrow> chan_cap ch = 0 \<Longrightarrow> abandoned c (snd (chan_leave c h))"
  by (simp add: abandoned_def chan_leave_def)

text \<open>A channel with a free place in its buffer never blocks its sender.\<close>

lemma buffered_send:
  "chan_at h c = Some ch \<Longrightarrow> length (chan_buf ch) < chan_cap ch \<Longrightarrow> \<exists>h'. chan_send c v h = Some h'"
  by (simp add: chan_send_def)

end
