(* ===== verification/KvRaft.thy ===== *)
theory KvRaft
  imports Raft_Props Go_Chan Service
begin

section \<open>The key/value service (\<^verbatim>\<open>kvraft\<close>)\<close>

text \<open>
  The server of \<^verbatim>\<open>kvraft/server.go\<close>, the messages of \<^verbatim>\<open>kvraft/common.go\<close> and the clerk of
  \<^verbatim>\<open>kvraft/client.go\<close>.  An RPC handler holds \<^verbatim>\<open>kv.mu\<close> in several short sections with a call of
  \<^verbatim>\<open>rf.Start\<close> and a wait in between; each section is one function, and the value that the next
  section needs is returned.  The apply loop is split in the same way at its channel send.

  The server and its Raft peer share one \<^verbatim>\<open>Persister\<close> object, so \<^verbatim>\<open>kv.persister\<close> is the one of \<open>rf\<close>.
  The encoded size of the Raft state is a parameter \<open>size_of\<close>.
\<close>

subsection \<open>Data\<close>

type_synonym Err = string
type_synonym OpType = string

definition OK :: Err where "OK = ''OK''"
definition ErrNoKey :: Err where "ErrNoKey = ''ErrNoKey''"

definition GET :: OpType where "GET = ''Get''"
definition PUT :: OpType where "PUT = ''Put''"
definition APPEND :: OpType where "APPEND = ''Append''"

record Op =
  op_Type :: OpType
  op_Key :: string
  op_Value :: string
  op_ClientId :: int
  op_SequenceId :: int

record PutAppendArgs =
  pa_Key :: string
  pa_Value :: string
  pa_Op :: string
  pa_ClientId :: int
  pa_SequenceId :: int

record PutAppendReply =
  par_Leader :: bool
  par_Err :: Err

record GetArgs =
  ga_Key :: string
  ga_ClientId :: int
  ga_SequenceId :: int

record GetReply =
  gr_Leader :: bool
  gr_Err :: Err
  gr_Value :: string

record SnapshotStatus =
  ss_Data :: "string \<rightharpoonup> string"
  ss_Duptable :: "int \<rightharpoonup> int"

record reqIdentification =
  ri_ClientId :: int
  ri_SequenceId :: int
  ri_Err :: Err

record KVServer =
  kv_me :: int
  kv_rf :: "(Op, SnapshotStatus) Raft"
  kv_dead :: int
  kv_maxraftstate :: int
  kv_lastApplied :: int
  kv_duptable :: "int \<rightharpoonup> int"
  kv_data :: "string \<rightharpoonup> string"
  kv_wakeClient :: "int \<rightharpoonup> nat"
  kv_chans :: "reqIdentification chans"

subsection \<open>RPC handlers\<close>

text \<open>
  The first section calls \<^verbatim>\<open>rf.Start\<close>: \<^const>\<open>Inl\<close> is the reply when the peer is not the leader, \<^const>\<open>Inr\<close> the log index to wait for.
\<close>

definition GetStart :: "KVServer \<Rightarrow> GetArgs \<Rightarrow> (KVServer \<times> (GetReply + int)) option" where
  "GetStart kv args = do {
     (rf', index, t, isLeader) \<leftarrow> Start (kv_rf kv)
       \<lparr>op_Type = GET, op_Key = ga_Key args, op_Value = [], op_ClientId = ga_ClientId args,
        op_SequenceId = ga_SequenceId args\<rparr>;
     let kv' = kv\<lparr>kv_rf := rf'\<rparr>;
     Some (kv', if \<not> isLeader then Inl \<lparr>gr_Leader = False, gr_Err = ErrNoKey, gr_Value = []\<rparr>
                else Inr index)
   }"

text \<open>\<^verbatim>\<open>PutAppend\<close> first looks into the duplicate table, under the lock, and then, without it, calls \<^verbatim>\<open>Start\<close>.\<close>

definition PutAppendCheck :: "KVServer \<Rightarrow> PutAppendArgs \<Rightarrow> PutAppendReply option" where
  "PutAppendCheck kv args =
     (if case kv_duptable kv (pa_ClientId args) of
           None \<Rightarrow> False | Some ind \<Rightarrow> ind \<ge> pa_SequenceId args
      then Some \<lparr>par_Leader = True, par_Err = OK\<rparr> else None)"

definition PutAppendStart ::
  "KVServer \<Rightarrow> PutAppendArgs \<Rightarrow> (KVServer \<times> (PutAppendReply + int)) option" where
  "PutAppendStart kv args = do {
     (rf', index, t, isLeader) \<leftarrow> Start (kv_rf kv)
       \<lparr>op_Type = pa_Op args, op_Key = pa_Key args, op_Value = pa_Value args,
        op_ClientId = pa_ClientId args, op_SequenceId = pa_SequenceId args\<rparr>;
     let kv' = kv\<lparr>kv_rf := rf'\<rparr>;
     Some (kv', if \<not> isLeader then Inl \<lparr>par_Leader = False, par_Err = OK\<rparr> else Inr index)
   }"

text \<open>The second section of both handlers makes the channel the handler waits on.\<close>

definition kvRegister :: "KVServer \<Rightarrow> int \<Rightarrow> KVServer \<times> nat" where
  "kvRegister kv index = (let (c, h) = make_chan 0 Waiting (kv_chans kv) in
     (kv\<lparr>kv_wakeClient := (kv_wakeClient kv)(index \<mapsto> c), kv_chans := h\<rparr>, c))"

definition kvClean :: "KVServer \<Rightarrow> int \<Rightarrow> KVServer" where
  "kvClean kv i = kv\<lparr>kv_wakeClient := (kv_wakeClient kv)(i := None)\<rparr>"

text \<open>Then the \<^verbatim>\<open>select\<close> ends with a value or with the timeout; \<^verbatim>\<open>Get\<close> reads the data, under the lock; the deferred call cleans up.\<close>

definition kvLeave :: "KVServer \<Rightarrow> nat \<Rightarrow> KVServer \<times> reqIdentification option" where
  "kvLeave kv c = (let (r, h) = chan_leave c (kv_chans kv) in (kv\<lparr>kv_chans := h\<rparr>, r))"

definition GetAnswer :: "KVServer \<Rightarrow> GetArgs \<Rightarrow> reqIdentification option \<Rightarrow> GetReply" where
  "GetAnswer kv args r = (case r of
     Some r' \<Rightarrow>
       if ri_ClientId r' = ga_ClientId args \<and> ri_SequenceId r' = ga_SequenceId args
       then case kv_data kv (ga_Key args) of
              Some val \<Rightarrow> \<lparr>gr_Leader = True, gr_Err = OK, gr_Value = val\<rparr>
            | None \<Rightarrow> \<lparr>gr_Leader = True, gr_Err = ErrNoKey, gr_Value = []\<rparr>
       else \<lparr>gr_Leader = False, gr_Err = ErrNoKey, gr_Value = []\<rparr>
   | None \<Rightarrow> \<lparr>gr_Leader = False, gr_Err = ErrNoKey, gr_Value = []\<rparr>)"

definition PutAppendAnswer :: "PutAppendArgs \<Rightarrow> reqIdentification option \<Rightarrow> PutAppendReply" where
  "PutAppendAnswer args r = (case r of
     Some r' \<Rightarrow> \<lparr>par_Leader = (ri_ClientId r' = pa_ClientId args \<and>
                              ri_SequenceId r' = pa_SequenceId args), par_Err = OK\<rparr>
   | None \<Rightarrow> \<lparr>par_Leader = False, par_Err = OK\<rparr>)"

definition kvKill :: "KVServer \<Rightarrow> KVServer" where
  "kvKill kv = kv\<lparr>kv_dead := 1, kv_rf := Kill (kv_rf kv)\<rparr>"

definition kvKilled :: "KVServer \<Rightarrow> bool" where
  "kvKilled kv \<longleftrightarrow> kv_dead kv = 1"

subsection \<open>Snapshots\<close>

text \<open>
  \<^verbatim>\<open>float64(size)/float64(max) >= 0.9\<close>.  For a positive limit the test is \<open>10 * size \<ge> 9 * max\<close>; with
  limit 0 the quotient is infinite, or not a number when the size is 0 too; a negative quotient
  fails the test.
\<close>

definition overLimit :: "nat \<Rightarrow> int \<Rightarrow> bool" where
  "overLimit sz limit \<longleftrightarrow>
     (if limit > 0 then 10 * int sz \<ge> 9 * limit else limit = 0 \<and> sz > 0)"

definition kvSnapshot ::
  "(Op PersistentStatus \<Rightarrow> nat) \<Rightarrow> KVServer \<Rightarrow> int \<Rightarrow> KVServer option" where
  "kvSnapshot size_of kv applied =
     (if kv_maxraftstate kv = -1 then Some kv
      else if overLimit (RaftStateSize size_of (persister (kv_rf kv))) (kv_maxraftstate kv) then do {
        rf' \<leftarrow> Snapshot (kv_rf kv) applied
          (Some \<lparr>ss_Data = kv_data kv, ss_Duptable = kv_duptable kv\<rparr>);
        Some (kv\<lparr>kv_rf := rf'\<rparr>)
      }
      else Some kv)"

definition kvReplay :: "KVServer \<Rightarrow> KVServer" where
  "kvReplay kv = (case ReadSnapshot (persister (kv_rf kv)) of
     None \<Rightarrow> kv
   | Some st \<Rightarrow> kv\<lparr>kv_data := ss_Data st, kv_duptable := ss_Duptable st\<rparr>)"

definition StartKVServer ::
  "nat \<Rightarrow> int \<Rightarrow> (Op PersistentStatus, SnapshotStatus) Persister \<Rightarrow> int \<Rightarrow> KVServer option" where
  "StartKVServer n self ps limit = do {
     rf0 \<leftarrow> Make n self ps;
     Some (kvReplay
       \<lparr>kv_me = self, kv_rf = rf0, kv_dead = 0, kv_maxraftstate = limit, kv_lastApplied = 0,
        kv_duptable = Map.empty, kv_data = Map.empty, kv_wakeClient = Map.empty,
        kv_chans = no_chans\<rparr>)
   }"

subsection \<open>The apply loop\<close>

text \<open>The switch on the operation type.\<close>

definition effectOp :: "Op \<Rightarrow> (string \<rightharpoonup> string) \<Rightarrow> (string \<rightharpoonup> string)" where
  "effectOp op d =
     (if op_Type op = PUT then d(op_Key op \<mapsto> op_Value op)
      else if op_Type op = APPEND
      then (case d (op_Key op) of
              Some v \<Rightarrow> d(op_Key op \<mapsto> v @ op_Value op)
            | None \<Rightarrow> d(op_Key op \<mapsto> op_Value op))
      else d)"

text \<open>The duplicate check and the switch.\<close>

definition applyOp ::
  "Op \<Rightarrow> (int \<rightharpoonup> int) \<times> (string \<rightharpoonup> string) \<Rightarrow> (int \<rightharpoonup> int) \<times> (string \<rightharpoonup> string)" where
  "applyOp op = (\<lambda>(dup, d).
     if case dup (op_ClientId op) of
          None \<Rightarrow> False | Some preSequenceId \<Rightarrow> preSequenceId = op_SequenceId op
     then (dup, d)
     else (dup(op_ClientId op \<mapsto> op_SequenceId op), effectOp op d))"

definition waitCh :: "KVServer \<Rightarrow> int \<Rightarrow> KVServer \<times> nat" where
  "waitCh kv index = (case kv_wakeClient kv index of
     Some c \<Rightarrow> (kv, c)
   | None \<Rightarrow> let (c, h) = make_chan 1 NoReceiver (kv_chans kv) in
       (kv\<lparr>kv_wakeClient := (kv_wakeClient kv)(index \<mapsto> c), kv_chans := h\<rparr>, c))"

text \<open>
  What one message leads to: the loop goes on, it sends a value on a channel (without the lock) and
  then finishes the message of that index, or it returns because a snapshot cannot be decoded.
\<close>

datatype applyNext = ApContinue | ApSend nat reqIdentification int | ApReturn

definition applyBegin ::
  "KVServer \<Rightarrow> (Op, SnapshotStatus) ApplyMsg \<Rightarrow> (KVServer \<times> applyNext) option" where
  "applyBegin kv msg =
     (if CommandValid msg then
        if CommandIndex msg \<le> kv_lastApplied kv then Some (kv, ApContinue)
        else do {
          op \<leftarrow> am_Command msg;
          let (dup, d) = applyOp op (kv_duptable kv, kv_data kv);
          let (kv1, c) = waitCh (kv\<lparr>kv_duptable := dup, kv_data := d\<rparr>) (CommandIndex msg);
          Some (kv1, ApSend c \<lparr>ri_ClientId = op_ClientId op, ri_SequenceId = op_SequenceId op,
                               ri_Err = OK\<rparr> (CommandIndex msg))
        }
      else if SnapshotValid msg then
        (case am_Snapshot msg of
           None \<Rightarrow> Some (kv, ApReturn)
         | Some st \<Rightarrow> Some (kv\<lparr>kv_lastApplied := SnapshotIndex msg, kv_data := ss_Data st,
                               kv_duptable := ss_Duptable st\<rparr>, ApContinue))
      else Some (kv, ApContinue))"

definition applySend :: "KVServer \<Rightarrow> nat \<Rightarrow> reqIdentification \<Rightarrow> KVServer option" where
  "applySend kv c r = do {
     h \<leftarrow> chan_send c r (kv_chans kv); \<comment> \<open>\<^const>\<open>None\<close>: blocked\<close>
     Some (kv\<lparr>kv_chans := h\<rparr>)
   }"

definition applyEnd ::
  "(Op PersistentStatus \<Rightarrow> nat) \<Rightarrow> KVServer \<Rightarrow> int \<Rightarrow> KVServer option" where
  "applyEnd size_of kv index = kvSnapshot size_of (kv\<lparr>kv_lastApplied := index\<rparr>) index"

text \<open>
  One round of the loop when no handler runs in between; \<^const>\<open>None\<close> when it panics or blocks.
\<close>

definition kvApply ::
  "(Op PersistentStatus \<Rightarrow> nat) \<Rightarrow> KVServer \<Rightarrow> (Op, SnapshotStatus) ApplyMsg \<Rightarrow> KVServer option" where
  "kvApply size_of kv msg = do {
     (kv1, nx) \<leftarrow> applyBegin kv msg;
     (case nx of
        ApSend c r index \<Rightarrow> do { kv2 \<leftarrow> applySend kv1 c r; applyEnd size_of kv2 index }
      | _ \<Rightarrow> Some kv1)
   }"

subsection \<open>The clerk\<close>

record Clerk =
  ck_servers :: nat \<comment> \<open>\<^verbatim>\<open>len(ck.servers)\<close>\<close>
  ck_leader :: nat
  ck_clientId :: int
  ck_sequenceId :: int

definition MakeClerk :: "nat \<Rightarrow> int \<Rightarrow> Clerk" where
  "MakeClerk n rnd = \<lparr>ck_servers = n, ck_leader = 0, ck_clientId = rnd, ck_sequenceId = 0\<rparr>"

text \<open>
  The retry loop.  The results of the successive calls are a list, \<^const>\<open>None\<close> for a call that failed;
  the loop returns the server that answered as leader and its reply, or is still trying at the end
  of the list.
\<close>

fun retry :: "nat \<Rightarrow> ('r \<Rightarrow> bool) \<Rightarrow> nat \<Rightarrow> 'r option list \<Rightarrow> (nat \<times> 'r) option" where
  "retry n isLeader server [] = None"
| "retry n isLeader server (res # rest) = (case res of
     Some reply \<Rightarrow> if isLeader reply then Some (server, reply)
                   else retry n isLeader ((server + 1) mod n) rest
   | None \<Rightarrow> retry n isLeader ((server + 1) mod n) rest)"

definition ClerkGet :: "Clerk \<Rightarrow> string \<Rightarrow> GetReply option list \<Rightarrow> GetArgs \<times> (Clerk \<times> string) option" where
  "ClerkGet ck key results =
     (let args = \<lparr>ga_Key = key, ga_ClientId = ck_clientId ck, ga_SequenceId = ck_sequenceId ck\<rparr>;
          ck1 = ck\<lparr>ck_sequenceId := ck_sequenceId ck + 1\<rparr> in
      (args, map_option (\<lambda>(server, reply). (ck1\<lparr>ck_leader := server\<rparr>, gr_Value reply))
         (retry (ck_servers ck) gr_Leader (ck_leader ck) results)))"

definition ClerkPutAppend ::
  "Clerk \<Rightarrow> string \<Rightarrow> string \<Rightarrow> string \<Rightarrow> PutAppendReply option list \<Rightarrow>
   PutAppendArgs \<times> Clerk option" where
  "ClerkPutAppend ck key value op results =
     (let args = \<lparr>pa_Key = key, pa_Value = value, pa_Op = op, pa_ClientId = ck_clientId ck,
                  pa_SequenceId = ck_sequenceId ck\<rparr>;
          ck1 = ck\<lparr>ck_sequenceId := ck_sequenceId ck + 1\<rparr> in
      (args, map_option (\<lambda>(server, reply). ck1\<lparr>ck_leader := server\<rparr>)
         (retry (ck_servers ck) par_Leader (ck_leader ck) results)))"

definition ClerkPut where
  "ClerkPut ck key value results = ClerkPutAppend ck key value ''Put'' results"

definition ClerkAppend where
  "ClerkAppend ck key value results = ClerkPutAppend ck key value ''Append'' results"

end
