(* ===== verification/KvRaft_Props.thy ===== *)
theory KvRaft_Props
  imports KvRaft
begin

section \<open>Correctness of the key/value service\<close>

text \<open>
  The apply loop refines the delivery function of \<open>skipping_service\<close> and the command function of
  \<open>dedup_service\<close>; both locales are interpreted here.  Then the properties of the replicas, of
  repeated commands and of the clerk, and three departures from what the service means to do.
\<close>

subsection \<open>The abstract service\<close>

type_synonym kv_state = "(int \<rightharpoonup> int) \<times> (string \<rightharpoonup> string)"

definition kv_init :: kv_state where
  "kv_init = (Map.empty, Map.empty)"

definition kv_snap :: "kv_state \<Rightarrow> SnapshotStatus" where
  "kv_snap s = \<lparr>ss_Data = snd s, ss_Duptable = fst s\<rparr>"

fun kv_deliver :: "(Op, SnapshotStatus) delivery \<Rightarrow> int \<times> kv_state \<Rightarrow> int \<times> kv_state" where
  "kv_deliver (Cmd k op) (i, s) = (if k \<le> i then (i, s) else (k, applyOp op s))"
| "kv_deliver (Snap k st) (i, s) = (k, (ss_Duptable st, ss_Data st))"

definition kv_abs :: "KVServer \<Rightarrow> int \<times> kv_state" where
  "kv_abs kv = (kv_lastApplied kv, (kv_duptable kv, kv_data kv))"

text \<open>The messages Raft builds: those of \<open>applierCollect\<close> and \<open>snapshotMsg\<close>.\<close>

definition raft_msg :: "(Op, SnapshotStatus) delivery \<Rightarrow> (Op, SnapshotStatus) ApplyMsg \<Rightarrow> bool" where
  "raft_msg d msg \<longleftrightarrow> (case d of
     Cmd k op \<Rightarrow> CommandValid msg \<and> CommandIndex msg = k \<and> am_Command msg = Some op
   | Snap k st \<Rightarrow> \<not> CommandValid msg \<and> SnapshotValid msg \<and> SnapshotIndex msg = k \<and>
       am_Snapshot msg = Some st)"

interpretation kv_log: skipping_service applyOp kv_init kv_snap kv_deliver
  by unfold_locales (simp_all add: kv_snap_def)

interpretation kv_once: dedup_service applyOp op_ClientId op_SequenceId effectOp
  by unfold_locales (simp_all add: applyOp_def)

subsection \<open>The loop refines the abstract service\<close>

lemma waitCh_abs: "kv_abs (fst (waitCh kv i)) = kv_abs kv"
  by (simp add: waitCh_def kv_abs_def Let_def split: option.splits prod.splits)

lemma applySend_abs: "applySend kv c r = Some kv' \<Longrightarrow> kv_abs kv' = kv_abs kv"
  by (auto simp: applySend_def kv_abs_def bind_convs)

lemma kvSnapshot_abs: "kvSnapshot sz kv i = Some kv' \<Longrightarrow> kv_abs kv' = kv_abs kv"
  by (auto simp: kvSnapshot_def kv_abs_def bind_convs split: if_splits)

lemma kvApply_refines:
  assumes "kvApply sz kv msg = Some kv'" and "raft_msg d msg"
  shows "kv_abs kv' = kv_deliver d (kv_abs kv)"
proof (cases d)
  case (Cmd k op)
  then have msg: "CommandValid msg" "CommandIndex msg = k" "am_Command msg = Some op"
    using assms(2) by (simp_all add: raft_msg_def)
  show ?thesis
  proof (cases "k \<le> kv_lastApplied kv")
    case True
    with assms(1) msg Cmd show ?thesis by (simp add: kvApply_def applyBegin_def kv_abs_def)
  next
    case False
    obtain dup dt where ap: "applyOp op (kv_duptable kv, kv_data kv) = (dup, dt)" by fastforce
    obtain kv1 c where w: "waitCh (kv\<lparr>kv_duptable := dup, kv_data := dt\<rparr>) k = (kv1, c)" by fastforce
    have a1: "kv_abs kv1 = (kv_lastApplied kv, (dup, dt))"
      using waitCh_abs [of "kv\<lparr>kv_duptable := dup, kv_data := dt\<rparr>" k] w by (simp add: kv_abs_def)
    from assms(1) msg False ap w obtain kv2 where s2: "applySend kv1 c
        \<lparr>ri_ClientId = op_ClientId op, ri_SequenceId = op_SequenceId op, ri_Err = OK\<rparr> = Some kv2"
      and e: "applyEnd sz kv2 k = Some kv'"
      by (auto simp: kvApply_def applyBegin_def bind_convs)
    have "kv_abs kv' = kv_abs (kv2\<lparr>kv_lastApplied := k\<rparr>)"
      using e by (simp add: applyEnd_def kvSnapshot_abs)
    with a1 applySend_abs [OF s2] have "kv_abs kv' = (k, (dup, dt))" by (simp add: kv_abs_def)
    then show ?thesis using False Cmd ap by (simp add: kv_abs_def)
  qed
next
  case (Snap k st)
  with assms show ?thesis
    by (auto simp: raft_msg_def kvApply_def applyBegin_def kv_abs_def)
qed

lemma kvApply_run:
  assumes "for_loop msgs (\<lambda>m kv. kvApply sz kv m) kv = Some kv'" and "list_all2 raft_msg ds msgs"
  shows "kv_abs kv' = fold kv_deliver ds (kv_abs kv)"
  using assms(2,1)
proof (induction ds msgs arbitrary: kv rule: list_all2_induct)
  case (Cons d ds m msgs)
  then obtain kv1 where "kvApply sz kv m = Some kv1" by (auto split: option.splits)
  with Cons kvApply_refines [of sz kv m kv1 d] show ?case by simp
qed simp

lemma StartKVServer_abs:
  assumes "StartKVServer n self MakePersister limit = Some kv"
  shows "kv_abs kv = (0, kv_init)"
  using assms
  by (auto simp: StartKVServer_def Make_fresh kvReplay_def ReadSnapshot_def kv_abs_def kv_init_def)
    (simp_all add: MakePersister_def)

subsection \<open>Replicas\<close>

text \<open>C19: replicas agree, if Raft delivers in order.  Two servers that start empty and receive messages of one Raft log in order
  (each message is the next command after those that the server has, a command that it already has, or a snapshot of a prefix of
  the log), possibly different ones and with their own snapshot limits, hold the same data and the same duplicate table whenever they
  have come to the same index: the state that results from applying the log up to that index.  (The peers do deliver in order until
  one of them installs a snapshot; \<open>snapshot_overtaken\<close> below shows how they may fail to do so then.)\<close>

theorem kv_replicas_agree:
  assumes "StartKVServer n a MakePersister la = Some kva" and "StartKVServer m b MakePersister lb = Some kvb"
    and "list_all2 raft_msg da msa" and "orderly True applyOp kv_init kv_snap lg 0 da"
    and "list_all2 raft_msg db msb" and "orderly True applyOp kv_init kv_snap lg 0 db"
    and "for_loop msa (\<lambda>x kv. kvApply sz kv x) kva = Some kva'"
    and "for_loop msb (\<lambda>x kv. kvApply sz kv x) kvb = Some kvb'"
    and "kv_lastApplied kva' = kv_lastApplied kvb'"
  shows "kv_data kva' = kv_data kvb' \<and> kv_duptable kva' = kv_duptable kvb' \<and>
    (kv_duptable kva', kv_data kva') = state_at applyOp kv_init lg (kv_lastApplied kva')"
proof -
  have A: "kv_abs kva' = fold kv_deliver da (0, kv_init)"
    using kvApply_run [OF assms(7,3)] StartKVServer_abs [OF assms(1)] by simp
  have B: "kv_abs kvb' = fold kv_deliver db (0, kv_init)"
    using kvApply_run [OF assms(8,5)] StartKVServer_abs [OF assms(2)] by simp
  have "fst (kv_abs kva') = fst (kv_abs kvb')" using assms(9) by (simp add: kv_abs_def)
  then have "kv_abs kva' = kv_abs kvb'"
    using kv_log.replicas_agree_old [OF assms(4,6)] A B by simp
  moreover have "\<exists>j\<ge>0. kv_abs kva' = (j, state_at applyOp kv_init lg j)"
    using kv_log.replay_eq_old [OF assms(4)] A by simp
  ultimately show ?thesis by (auto simp: kv_abs_def)
qed

definition cmd_msg :: "int \<Rightarrow> Op \<Rightarrow> (Op, SnapshotStatus) ApplyMsg" where
  "cmd_msg k op = \<lparr>CommandValid = True, am_Command = Some op, CommandIndex = k, CommandTerm = 1,
     SnapshotValid = False, am_Snapshot = None, SnapshotTerm = 0, SnapshotIndex = 0\<rparr>"

definition snap_msg :: "int \<Rightarrow> SnapshotStatus \<Rightarrow> (Op, SnapshotStatus) ApplyMsg" where
  "snap_msg k st = \<lparr>CommandValid = False, am_Command = None, CommandIndex = 0, CommandTerm = 0,
     SnapshotValid = True, am_Snapshot = Some st, SnapshotTerm = 1, SnapshotIndex = k\<rparr>"

definition ex_op :: "string \<Rightarrow> int \<Rightarrow> Op" where
  "ex_op v k = \<lparr>op_Type = APPEND, op_Key = ''k'', op_Value = v, op_ClientId = 7, op_SequenceId = k\<rparr>"

definition ex_log :: "Op list" where
  "ex_log = [ex_op ''a'' 0, ex_op ''b'' 1]"

definition ex_kv :: KVServer where
  "ex_kv = the (StartKVServer 3 0 MakePersister (-1))"

lemma ex_kv_start: "StartKVServer 3 0 MakePersister (-1) = Some ex_kv"
  by (simp add: ex_kv_def StartKVServer_def Make_fresh)

lemma returned: "\<not> Option.is_none x \<Longrightarrow> x = Some (the x)"
  by (cases x) simp_all

theorem kv_replicas_agree_witness:
  "\<exists>kv kv'. for_loop [cmd_msg 1 (ex_op ''a'' 0), cmd_msg 2 (ex_op ''b'' 1)]
      (\<lambda>x kv. kvApply (\<lambda>_. 0) kv x) ex_kv = Some kv \<and>
    for_loop [snap_msg 2 (kv_snap (state_at applyOp kv_init ex_log 2))]
      (\<lambda>x kv. kvApply (\<lambda>_. 0) kv x) ex_kv = Some kv' \<and>
    kv_data kv = kv_data kv' \<and> kv_data kv ''k'' = Some ''ab''"
proof -
  let ?da = "[Cmd 1 (ex_op ''a'' 0), Cmd 2 (ex_op ''b'' 1)]"
  let ?st = "kv_snap (state_at applyOp kv_init ex_log 2)"
  let ?ma = "[cmd_msg 1 (ex_op ''a'' 0), cmd_msg 2 (ex_op ''b'' 1)]" and ?mb = "[snap_msg 2 ?st]"
  let ?x = "for_loop ?ma (\<lambda>x kv. kvApply (\<lambda>_. 0) kv x) ex_kv"
  let ?y = "for_loop ?mb (\<lambda>x kv. kvApply (\<lambda>_. 0) kv x) ex_kv"
  have x: "?x = Some (the ?x)" and y: "?y = Some (the ?y)" by (rule returned, code_simp)+
  have eq: "kv_lastApplied (the ?x) = kv_lastApplied (the ?y)" by code_simp
  have ok: "list_all2 raft_msg ?da ?ma" "list_all2 raft_msg [Snap 2 ?st] ?mb"
    by (simp_all add: raft_msg_def cmd_msg_def snap_msg_def)
  have "orderly True applyOp kv_init kv_snap ex_log 0 ?da" "orderly True applyOp kv_init kv_snap ex_log 0 [Snap 2 ?st]"
    by (simp_all add: ex_log_def)
  from kv_replicas_agree [OF ex_kv_start ex_kv_start ok(1) this(1) ok(2) this(2) x y eq]
  have "kv_data (the ?x) = kv_data (the ?y)" by simp
  moreover have "kv_data (the ?x) ''k'' = Some ''ab''" by code_simp
  ultimately show ?thesis using x y by blast
qed

subsection \<open>Restart\<close>

lemma Make_persister: "Make n i ps = Some rf \<Longrightarrow> persister rf = ps"
  by (auto simp: Make_def readPersist_def bind_convs split: option.splits)

text \<open>C21: restart from a snapshot.  A server started on a persister that holds the snapshot of the first \<open>k\<close>
  commands, and that then receives the commands after the snapshot one by one, ends in the state of
  the whole log, although \<^verbatim>\<open>lastApplied\<close> itself starts again at zero.\<close>

theorem kv_restart:
  assumes "StartKVServer n a ps limit = Some kv" and "0 \<le> k" and "k + int (length cmds) = int (length lg)"
    and "cmds = drop (nat k) lg" and "cmds \<noteq> []"
    and "ReadSnapshot ps = Some (kv_snap (state_at applyOp kv_init lg k))"
    and "list_all2 raft_msg (map (\<lambda>i. Cmd (k + 1 + int i) (cmds ! i)) [0..<length cmds]) msgs"
    and "for_loop msgs (\<lambda>x kv. kvApply sz kv x) kv = Some kv'"
  shows "kv_lastApplied kv' = int (length lg) \<and>
    (kv_duptable kv', kv_data kv') = state_at applyOp kv_init lg (int (length lg))"
proof -
  let ?S = "state_at applyOp kv_init lg"
  have start: "kv_abs kv = (0, ?S k)"
    using assms(1,6)
    by (auto simp: StartKVServer_def bind_convs kvReplay_def kv_abs_def kv_snap_def dest!: Make_persister)
  have run: "fold kv_deliver (map (\<lambda>i. Cmd (k + 1 + int i) (cmds ! i)) [0..<j]) (0, ?S k) =
      (if j = 0 then 0 else k + int j, ?S (k + int j))" if "j \<le> length cmds" for j
    using that
  proof (induction j)
    case (Suc j)
    have "nat k + j < length lg" "cmds ! j = lg ! nat (k + int j)"
      using Suc.prems assms(2-4) by (auto simp: nat_add_distrib)
    then have "?S (k + int j + 1) = applyOp (cmds ! j) (?S (k + int j))"
      using state_at_next [of "k + int j" lg applyOp kv_init] assms(2) by (simp add: nat_add_distrib)
    with Suc assms(2) show ?case by (simp add: algebra_simps)
  qed simp
  have "kv_abs kv' = (k + int (length cmds), ?S (k + int (length cmds)))"
    using kvApply_run [OF assms(8,7)] start run [of "length cmds"] assms(5) by simp
  then show ?thesis using assms(3) by (simp add: kv_abs_def)
qed

definition ex_persister :: "(Op PersistentStatus, SnapshotStatus) Persister" where
  "ex_persister =
     \<lparr>raftstate = Some \<lparr>ps_Log = [\<lparr>Command = None, Term = 1\<rparr>, \<lparr>Command = Some (ex_op ''b'' 1), Term = 1\<rparr>],
        ps_CurrentTerm = 1, ps_VotedFor = 0, ps_LastIncludedIndex = 1, ps_LastIncludedTerm = 1\<rparr>,
      psnapshot = Some (kv_snap (state_at applyOp kv_init ex_log 1))\<rparr>"

theorem kv_restart_witness:
  "\<exists>kv kv'. StartKVServer 3 0 ex_persister (-1) = Some kv \<and>
     for_loop [cmd_msg 2 (ex_op ''b'' 1)] (\<lambda>x kv. kvApply (\<lambda>_. 0) kv x) kv = Some kv' \<and>
     (kv_duptable kv', kv_data kv') = state_at applyOp kv_init ex_log 2"
proof -
  let ?x = "StartKVServer 3 0 ex_persister (-1)" and ?c = "[ex_op ''b'' 1]"
  let ?y = "for_loop [cmd_msg 2 (ex_op ''b'' 1)] (\<lambda>x kv. kvApply (\<lambda>_. 0) kv x) (the ?x)"
  have x: "?x = Some (the ?x)" and y: "?y = Some (the ?y)" by (rule returned, code_simp)+
  have len: "1 + int (length ?c) = int (length ex_log)" and c: "?c = drop (nat 1) ex_log"
    by (simp_all add: ex_log_def)
  have sn: "ReadSnapshot ex_persister = Some (kv_snap (state_at applyOp kv_init ex_log 1))"
    by (simp add: ex_persister_def ReadSnapshot_def)
  have ms: "list_all2 raft_msg (map (\<lambda>i. Cmd (1 + 1 + int i) (?c ! i)) [0..<length ?c])
      [cmd_msg 2 (ex_op ''b'' 1)]"
    by (simp add: raft_msg_def cmd_msg_def)
  have "(kv_duptable (the ?y), kv_data (the ?y)) = state_at applyOp kv_init ex_log (int (length ex_log))"
    using kv_restart [OF x zero_le_one len c _ sn ms y] by blast
  moreover have "int (length ex_log) = 2" by (simp add: ex_log_def)
  ultimately show ?thesis using x y by metis
qed

subsection \<open>Repeated commands\<close>

text \<open>C20: exactly once.  When the commands of each client appear in the log with non-decreasing sequence numbers,
  however often they are repeated, the data after the whole log is what the distinct commands produce
  when each takes effect once, in the order of their first occurrence.\<close>

theorem kv_exactly_once:
  assumes "in_order op_ClientId op_SequenceId lg"
  shows "snd (fold applyOp lg kv_init) = fold effectOp (firsts op_ClientId op_SequenceId [] lg) Map.empty \<and>
    distinct (map (\<lambda>op. (op_ClientId op, op_SequenceId op)) (firsts op_ClientId op_SequenceId [] lg)) \<and>
    (\<lambda>op. (op_ClientId op, op_SequenceId op)) ` set (firsts op_ClientId op_SequenceId [] lg) =
    (\<lambda>op. (op_ClientId op, op_SequenceId op)) ` set lg"
  using kv_once.once_in_order [OF assms] firsts_distinct [of op_ClientId op_SequenceId "[]" lg]
    firsts_keys [of op_ClientId op_SequenceId "[]" lg]
  by (simp add: kv_init_def)

theorem kv_exactly_once_witness:
  "snd (fold applyOp [ex_op ''a'' 0, ex_op ''a'' 0, ex_op ''b'' 1] kv_init) ''k'' = Some ''ab''"
proof -
  let ?lg = "[ex_op ''a'' 0, ex_op ''a'' 0, ex_op ''b'' 1]"
  have "in_order op_ClientId op_SequenceId ?lg" by (simp add: in_order_def ex_op_def)
  from kv_exactly_once [OF this]
  have "snd (fold applyOp ?lg kv_init) =
      fold effectOp (firsts op_ClientId op_SequenceId [] ?lg) Map.empty" by blast
  moreover have "fold effectOp (firsts op_ClientId op_SequenceId [] ?lg) Map.empty ''k'' = Some ''ab''"
    by code_simp
  ultimately show ?thesis by simp
qed

text \<open>A late repeat takes effect again.  The check before a command is applied asks whether its number is equal to
  the client's last one, where \<^verbatim>\<open>PutAppend\<close> asks whether it is at most the last one.  A second copy of a
  command that reaches the log after a newer command of the same client is therefore executed a
  second time, and puts the table back to the older number.\<close>

lemma kv_late_repeat:
  assumes "op_ClientId b = op_ClientId a" and "op_SequenceId a < op_SequenceId b"
  shows "fold applyOp [a, b, a] (dup, d) =
    (if dup (op_ClientId a) = Some (op_SequenceId a)
     then (dup(op_ClientId a \<mapsto> op_SequenceId a), effectOp a (effectOp b d))
     else (dup(op_ClientId a \<mapsto> op_SequenceId a), effectOp a (effectOp b (effectOp a d))))"
  using assms by (auto simp: applyOp_def split: option.splits)

subsection \<open>A command that overtakes a snapshot\<close>

text \<open>C22: a command can overtake a snapshot.  \<^verbatim>\<open>InstallSnapshot\<close> sets \<^verbatim>\<open>lastApplied\<close> at once but leaves the sending of
  the snapshot to a goroutine.  When the next \<^verbatim>\<open>AppendEntries\<close> commits the entry after the snapshot, the
  applier accepts that entry as the next one and sends it, while \<^verbatim>\<open>replicatePreSnapshot\<close> makes the
  snapshot wait.  The server then applies the command to its old state, and the snapshot that
  follows undoes it: the server is back at the snapshot, and Raft will not send the command again.\<close>

theorem snapshot_overtaken:
  assumes "wf_raft rf" and "InstallSnapshot rf a = Some (rf1, ir, Some m)" and "isa_Data a = Some st"
    and "AppendEntries rf1 b = Some (rf2, ar)" and "aer_Success ar"
    and "isa_LastIncludedIndex a < commitIndex rf2" and "kv_lastApplied kv \<le> isa_LastIncludedIndex a"
    and "for_loop [applyOf rf2 (isa_LastIncludedIndex a + 1), m] (\<lambda>x kv. kvApply sz kv x) kv = Some kv'"
  shows "(\<exists>ms rf3. applierCollect rf2 = Some (applyOf rf2 (isa_LastIncludedIndex a + 1) # ms) \<and>
      applierBegin rf2 (applyOf rf2 (isa_LastIncludedIndex a + 1)) = Some rf3 \<and>
      replicatePreSnapshot rf3 \<and> lastApplied (applierEnd (applierSent rf3) (applyOf rf2 (isa_LastIncludedIndex a + 1))) =
        isa_LastIncludedIndex a + 1) \<and>
    kv_lastApplied kv' = isa_LastIncludedIndex a \<and>
    kv_data kv' = ss_Data st \<and> kv_duptable kv' = ss_Duptable st"
proof -
  let ?k = "isa_LastIncludedIndex a"
  have le: "lastIncludedIndex rf \<le> commitIndex rf" using assms(1) by (simp add: wf_raft_def)
  have inst: "rf1 = persisted (is_installed rf a)" "m = snapshotMsg a"
    and gt: "commitIndex rf < ?k"
    using assms(2) le by (auto simp: InstallSnapshot_eq split: if_splits)
  have wf1: "wf_raft rf1" using wf_is_installed [OF assms(1) gt] by (simp add: inst)
  have rf2: "rf2 = persisted (ae_accept rf1 b)"
    using AppendEntries_success [OF wf1 assms(4)] assms(5) by simp
  have la: "lastApplied rf2 = ?k" "lastIncludedIndex rf2 = ?k"
    by (simp_all add: rf2 ae_accept_def inst) (simp_all add: is_installed_def)
  have co: "commit_ok rf2"
    using assms(6) by (auto simp: rf2 ae_accept_def commit_ok_def lastLogIndex_def inst split: if_splits)
      (simp_all add: is_installed_def)
  have up: "[?k + 1 .. commitIndex rf2] = (?k + 1) # [?k + 1 + 1 .. commitIndex rf2]"
    using assms(6) by (simp add: upto.simps)
  have col: "applierCollect rf2 = Some (applyOf rf2 (?k + 1) # map (applyOf rf2) [?k + 1 + 1 .. commitIndex rf2])"
    using applierCollect_eq [of rf2] la co up by simp
  have beg: "applierBegin rf2 (applyOf rf2 (?k + 1)) = Some (rf2\<lparr>replicatePreSnapshot := True\<rparr>)"
    by (simp add: applierBegin_def applyOf_def Let_def la)
  from assms(8) obtain kv1 where k1: "kvApply sz kv (applyOf rf2 (?k + 1)) = Some kv1"
    and k2: "kvApply sz kv1 m = Some kv'" by (auto split: option.splits)
  have "raft_msg (Snap ?k st) m" by (simp add: raft_msg_def inst snapshotMsg_def assms(3))
  from kvApply_refines [OF k2 this] have "kv_abs kv' = (?k, (ss_Duptable st, ss_Data st))"
    by (simp add: kv_abs_def)
  then show ?thesis
    using col beg by (auto simp: kv_abs_def applierEnd_def applierSent_def applyOf_def Let_def la)
qed

definition ex_raft :: "(Op, SnapshotStatus) Raft" where
  "ex_raft = the (Make 3 1 MakePersister)"

definition ex_snapshot :: SnapshotStatus where
  "ex_snapshot = \<lparr>ss_Data = [''k'' \<mapsto> ''a''], ss_Duptable = [7 \<mapsto> 0]\<rparr>"

definition ex_isa :: "SnapshotStatus InstallSnapshotArgs" where
  "ex_isa = \<lparr>isa_Term = 1, isa_LeaderId = 0, isa_LastIncludedIndex = 1, isa_LastIncludedTerm = 1,
     isa_Data = Some ex_snapshot\<rparr>"

definition ex_aea :: "Op AppendEntriesArgs" where
  "ex_aea = \<lparr>aea_Term = 1, aea_LeaderId = 0, aea_PrevLogIndex = 1, aea_PrevLogTerm = 1,
     aea_Entries = [\<lparr>Command = Some (ex_op ''b'' 1), Term = 1\<rparr>], aea_LeaderCommit = 2\<rparr>"

theorem snapshot_overtaken_witness:
  "\<exists>rf2 kv'. for_loop [applyOf rf2 2, snapshotMsg ex_isa] (\<lambda>x kv. kvApply (\<lambda>_. 0) kv x) ex_kv = Some kv' \<and>
     commitIndex rf2 = 2 \<and> kv_lastApplied kv' = 1 \<and> kv_data kv' = ss_Data ex_snapshot"
proof -
  let ?x = "InstallSnapshot ex_raft ex_isa"
  let ?y = "AppendEntries (fst (the ?x)) ex_aea"
  let ?z = "for_loop [applyOf (fst (the ?y)) (isa_LastIncludedIndex ex_isa + 1), snapshotMsg ex_isa]
    (\<lambda>x kv. kvApply (\<lambda>_. 0) kv x) ex_kv"
  have wf: "wf_raft ex_raft" by (simp add: ex_raft_def wf_raft_def Make_fresh)
  have gt: "\<not> isa_LastIncludedIndex ex_isa \<le> lastIncludedIndex ex_raft"
    "\<not> isa_LastIncludedIndex ex_isa \<le> commitIndex ex_raft" "\<not> isa_Term ex_isa < currentTerm ex_raft" by code_simp+
  then have x: "?x = Some (fst (the ?x), fst (snd (the ?x)), Some (snapshotMsg ex_isa))"
    by (simp add: InstallSnapshot_eq)
  have y: "?y = Some (fst (the ?y), snd (the ?y))" unfolding prod.collapse by (rule returned, code_simp)
  have z: "?z = Some (the ?z)" by (rule returned, code_simp)
  have g: "aer_Success (snd (the ?y))" "isa_LastIncludedIndex ex_isa < commitIndex (fst (the ?y))"
    "kv_lastApplied ex_kv \<le> isa_LastIncludedIndex ex_isa" "isa_LastIncludedIndex ex_isa = 1"
    "commitIndex (fst (the ?y)) = 2" by code_simp+
  have st: "isa_Data ex_isa = Some ex_snapshot" by (simp add: ex_isa_def)
  from snapshot_overtaken [OF wf x st y g(1-3) z]
  have "kv_lastApplied (the ?z) = 1" "kv_data (the ?z) = ss_Data ex_snapshot" using g(4) by simp_all
  with z g(4,5) show ?thesis by (metis one_add_one)
qed

subsection \<open>Waking the handlers\<close>

text \<open>The steps of the RPC handlers and of Raft, while the apply loop is at its send.\<close>

inductive handler_step :: "KVServer \<Rightarrow> KVServer \<Rightarrow> bool" where
  hGetStart: "GetStart kv ga = Some (kv', res) \<Longrightarrow> handler_step kv kv'"
| hPutAppendStart: "PutAppendStart kv pa = Some (kv', pres) \<Longrightarrow> handler_step kv kv'"
| hRegister: "kvRegister kv index = (kv', c) \<Longrightarrow> handler_step kv kv'"
| hLeave: "kvLeave kv c = (kv', r) \<Longrightarrow> handler_step kv kv'"
| hClean: "handler_step kv (kvClean kv index)"
| hRaft: "handler_step kv (kv\<lparr>kv_rf := rf'\<rparr>)"
| hKill: "handler_step kv (kvKill kv)"

lemma handler_step_chans:
  assumes "handler_step kv kv'"
  shows "kv_chans kv' = kv_chans kv \<or> kv_chans kv' = snd (make_chan 0 Waiting (kv_chans kv)) \<or>
    (\<exists>c. kv_chans kv' = snd (chan_leave c (kv_chans kv)))"
  using assms
proof cases
  case (hRegister index c)
  then show ?thesis by (auto simp: kvRegister_def split: prod.splits)
next
  case (hLeave c r)
  then have "kv_chans kv' = snd (chan_leave c (kv_chans kv))" by (auto simp: kvLeave_def split: prod.splits)
  then show ?thesis by blast
qed (auto simp: GetStart_def PutAppendStart_def kvClean_def kvKill_def bind_convs Let_def split: if_splits)

lemma handler_step_abandoned:
  assumes "handler_step kv kv'" and "wf_chans (kv_chans kv) \<and> abandoned c (kv_chans kv)"
  shows "wf_chans (kv_chans kv') \<and> abandoned c (kv_chans kv')"
  using handler_step_chans [OF assms(1)] assms(2)
  by (auto simp: wf_make_chan abandoned_make wf_chan_leave abandoned_leave)

interpretation stuck: inductive_invariant "\<lambda>kv. wf_chans (kv_chans kv) \<and> abandoned c (kv_chans kv)"
  handler_step "\<lambda>kv. wf_chans (kv_chans kv) \<and> abandoned c (kv_chans kv)" for c
  by unfold_locales (auto dest: handler_step_abandoned)

text \<open>C23: the apply loop can block for ever.  A handler waits on an unbuffered channel.  If it times out after the
  apply loop has looked the channel up and before the loop sends on it, the handler leaves and no
  step of any handler ever receives from that channel again: the send, and with it the apply loop of
  this server, blocks for good.\<close>

theorem apply_loop_blocks:
  assumes "wf_chans (kv_chans kv)" and "kvRegister kv index = (kv1, c)"
    and "applyBegin kv1 msg = Some (kv2, ApSend c' r i)" and "CommandIndex msg = index"
    and "kvLeave kv2 c = (kv3, got)" and "handler_step\<^sup>*\<^sup>* kv3 kv4"
  shows "c' = c \<and> \<not> par_Leader (PutAppendAnswer args got) \<and> \<not> gr_Leader (GetAnswer kv4 gargs got) \<and>
    applySend kv4 c' r = None"
proof -
  have reg: "kv_wakeClient kv1 index = Some c" "kv_chans kv1 = snd (make_chan 0 Waiting (kv_chans kv))"
    "c = chan_next (kv_chans kv)"
    using assms(2) by (auto simp: kvRegister_def make_chan_def)
  have ap: "kv_chans kv2 = kv_chans kv1" "c' = c"
    using assms(3,4) reg(1)
    by (auto simp: applyBegin_def waitCh_def bind_convs Let_def case_prod_unfold split: if_splits option.splits)
  have ch: "chan_at (kv_chans kv2) c = Some \<lparr>chan_cap = 0, chan_buf = [], chan_recv = Waiting\<rparr>"
    by (simp add: ap reg make_chan_def)
  have fin: "kv_chans kv3 = snd (chan_leave c (kv_chans kv2))" "got = None"
    using assms(5) ch by (auto simp: kvLeave_def chan_leave_def)
  have wf2: "wf_chans (kv_chans kv2)" using wf_make_chan [OF assms(1)] by (simp add: ap reg)
  have "wf_chans (kv_chans kv3) \<and> abandoned c (kv_chans kv3)"
    using wf_chan_leave [OF wf2] leave_abandons [OF ch] by (simp add: fin(1))
  from stuck.inv_steps [OF assms(6) this] have "abandoned c (kv_chans kv4)" by simp
  then show ?thesis using ap(2) fin(2) by (simp add: applySend_def abandoned_blocks PutAppendAnswer_def GetAnswer_def)
qed

theorem apply_loop_blocks_witness:
  "\<exists>kv1 c kv2 r kv3. kvRegister ex_kv 1 = (kv1, c) \<and>
     applyBegin kv1 (cmd_msg 1 (ex_op ''a'' 0)) = Some (kv2, ApSend c r 1) \<and>
     applySend kv3 c r = None"
proof -
  obtain kv1 c where r: "kvRegister ex_kv 1 = (kv1, c)" by fastforce
  have wf: "wf_chans (kv_chans ex_kv)"
    by (simp add: ex_kv_def StartKVServer_def Make_fresh kvReplay_def split: option.splits)
  have la: "kv_lastApplied ex_kv = 0" by code_simp
  have "kv_lastApplied kv1 = 0" "kv_wakeClient kv1 1 = Some c"
    using r la by (auto simp: kvRegister_def make_chan_def)
  then obtain kv2 ri where b: "applyBegin kv1 (cmd_msg 1 (ex_op ''a'' 0)) = Some (kv2, ApSend c ri 1)"
    by (simp add: applyBegin_def cmd_msg_def waitCh_def case_prod_unfold Let_def)
  obtain kv3 got where f: "kvLeave kv2 c = (kv3, got)" by fastforce
  have "CommandIndex (cmd_msg 1 (ex_op ''a'' 0)) = 1" by (simp add: cmd_msg_def)
  from apply_loop_blocks [OF wf r b this f rtranclp.rtrancl_refl] r b show ?thesis by blast
qed

subsection \<open>The clerk\<close>

definition positive :: "('r \<Rightarrow> bool) \<Rightarrow> 'r option \<Rightarrow> bool" where
  "positive P x \<longleftrightarrow> (case x of None \<Rightarrow> False | Some r \<Rightarrow> P r)"

lemma retry_None: "retry n P s results = None \<longleftrightarrow> (\<forall>x \<in> set results. \<not> positive P x)"
  by (induction n P s results rule: retry.induct) (auto simp: positive_def split: option.splits)

lemma retry_Some:
  assumes "retry n P s results = Some (t, r)" and "s < n"
  shows "\<exists>i < length results. results ! i = Some r \<and> P r \<and>
    (\<forall>j < i. \<not> positive P (results ! j)) \<and> t = (s + i) mod n"
  using assms
proof (induction n P s results rule: retry.induct)
  case (2 n P s res rest)
  show ?case
  proof (cases "positive P res")
    case True
    with "2.prems" show ?thesis by (intro exI [of _ 0]) (auto simp: positive_def split: option.splits)
  next
    case False
    have "(s + 1) mod n < n" using "2.prems"(2) by simp
    with False 2 obtain i where i: "i < length rest" "rest ! i = Some r" "P r"
      "\<forall>j < i. \<not> positive P (rest ! j)" "t = ((s + 1) mod n + i) mod n"
      by (fastforce simp: positive_def split: option.splits)
    have "\<forall>j < Suc i. \<not> positive P ((res # rest) ! j)"
      using False i(4) by (auto simp: nth_Cons split: nat.splits)
    moreover have "t = (s + Suc i) mod n" using i(5) by (simp add: mod_add_left_eq)
    ultimately show ?thesis using i(1-3) by (intro exI [of _ "Suc i"]) simp
  qed
qed simp

text \<open>The clerk.  A \<^verbatim>\<open>Put\<close> or \<^verbatim>\<open>Append\<close> returns exactly when some call is answered by a server that says it is
  the leader, after the first such answer; the calls go round the servers from the cached leader on
  and all carry the same client and sequence number; afterwards the answering server is the cached
  leader and the next operation has the next number.\<close>

lemma clerk_retries:
  assumes "ck_leader ck < ck_servers ck"
  shows "pa_ClientId (fst (ClerkPutAppend ck k v op results)) = ck_clientId ck \<and>
    pa_SequenceId (fst (ClerkPutAppend ck k v op results)) = ck_sequenceId ck \<and>
    (case snd (ClerkPutAppend ck k v op results) of
       None \<Rightarrow> \<forall>x \<in> set results. \<not> positive par_Leader x
     | Some ck' \<Rightarrow> ck_sequenceId ck' = ck_sequenceId ck + 1 \<and> ck_clientId ck' = ck_clientId ck \<and>
         ck_leader ck' < ck_servers ck' \<and>
         (\<exists>i < length results. positive par_Leader (results ! i) \<and>
            (\<forall>j < i. \<not> positive par_Leader (results ! j)) \<and>
            ck_leader ck' = (ck_leader ck + i) mod ck_servers ck))"
proof (cases "retry (ck_servers ck) par_Leader (ck_leader ck) results")
  case None
  then have "\<forall>x \<in> set results. \<not> positive par_Leader x" by (simp only: retry_None)
  with None show ?thesis by (simp add: ClerkPutAppend_def Let_def)
next
  case (Some x)
  obtain t r where x: "x = (t, r)" by fastforce
  from retry_Some [OF Some [unfolded x] assms] obtain i where "i < length results" "results ! i = Some r"
    "par_Leader r" "\<forall>j < i. \<not> positive par_Leader (results ! j)" "t = (ck_leader ck + i) mod ck_servers ck"
    by blast
  with assms Some x show ?thesis
    by (auto simp: ClerkPutAppend_def Let_def positive_def intro!: exI [of _ i])
qed

end
