(* ===== verification/ShardCtrler.thy ===== *)
theory ShardCtrler
  imports Raft_Node Go_Chan "HOL-Library.Finite_Map"
begin

section \<open>The shard controller (\<^verbatim>\<open>shardctrler\<close>)\<close>

text \<open>
  The replicated sequence of configurations of \<^verbatim>\<open>shardctrler/server.go\<close>, the messages of
  \<^verbatim>\<open>shardctrler/common.go\<close> and the clerk of \<^verbatim>\<open>shardctrler/client.go\<close>.

  A Go map is a finite map.  The order in which \<^verbatim>\<open>range\<close> visits the keys of a map is not specified by
  the language; where it could matter, in \<^verbatim>\<open>g2ShardCntSortSlice\<close>, it is the parameter \<open>ord\<close>, which turns
  the set of keys into some list of them.  An array of \<^verbatim>\<open>NShards\<close> group ids is a list.
\<close>

subsection \<open>Data\<close>

definition NShards :: nat where "NShards = 10"

record Config =
  Num :: int
  Shards :: "int list"
  Groups :: "(int, string list) fmap"

definition clone :: "Config \<Rightarrow> Config" where
  "clone cfg = \<lparr>Num = Num cfg, Shards = Shards cfg, Groups = fmmap (\<lambda>servers. [] @ servers) (Groups cfg)\<rparr>"

definition emptyConfig :: Config where
  "emptyConfig = \<lparr>Num = 0, Shards = replicate NShards 0, Groups = fmempty\<rparr>"

definition scOK :: string where "scOK = ''OK''"
definition JOIN :: string where "JOIN = ''Join''"
definition LEAVE :: string where "LEAVE = ''Leave''"
definition MOVE :: string where "MOVE = ''Move''"
definition QUERY :: string where "QUERY = ''Query''"

record JoinArgs =
  ja_Servers :: "(int, string list) fmap"
  ja_ClientId :: int
  ja_SequenceId :: int

record LeaveArgs =
  la_GIDs :: "int list"
  la_ClientId :: int
  la_SequenceId :: int

record MoveArgs =
  ma_Shard :: int
  ma_GID :: int
  ma_ClientId :: int
  ma_SequenceId :: int

record QueryArgs =
  qa_Num :: int
  qa_ClientId :: int
  qa_SequenceId :: int

text \<open>The replies of \<^verbatim>\<open>Join\<close>, \<^verbatim>\<open>Leave\<close> and \<^verbatim>\<open>Move\<close> are three types with the same two fields.\<close>

record scReply =
  scr_WrongLeader :: bool
  scr_Err :: string

record QueryReply = scReply +
  qr_Config :: Config

datatype OpArgs = JoinA JoinArgs | LeaveA LeaveArgs | MoveA MoveArgs | QueryA QueryArgs

record ScOp =
  sc_Type :: string
  sc_Args :: OpArgs
  sc_ClientId :: int
  sc_SequenceId :: int

record scReqId =
  sri_ClientId :: int
  sri_SequenceId :: int
  sri_Err :: string

record ShardCtrler =
  sc_me :: int
  sc_rf :: "(ScOp, unit) Raft"
  sc_duptable :: "int \<rightharpoonup> int"
  sc_wakeClient :: "int \<rightharpoonup> nat"
  sc_chans :: "scReqId chans"
  configs :: "Config list"

subsection \<open>Balancing\<close>

text \<open>A map read with the zero value for a missing key, and \<^verbatim>\<open>m[k]++\<close>.\<close>

definition cnt :: "(int, int) fmap \<Rightarrow> int \<Rightarrow> int" where
  "cnt m k = (case fmlookup m k of None \<Rightarrow> 0 | Some v \<Rightarrow> v)"

definition incr :: "int \<Rightarrow> (int, int) fmap \<Rightarrow> (int, int) fmap" where
  "incr k m = fmupd k (cnt m k + 1) m"

definition g2ShardCntLess :: "(int, int) fmap \<Rightarrow> int \<Rightarrow> int \<Rightarrow> bool" where
  "g2ShardCntLess m a b \<longleftrightarrow> cnt m a > cnt m b \<or> (cnt m a = cnt m b \<and> a > b)"

definition g2ShardCntSortSlice :: "(int fset \<Rightarrow> int list) \<Rightarrow> (int, int) fmap \<Rightarrow> int list" where
  "g2ShardCntSortSlice ord m = sliceStable (g2ShardCntLess m) (ord (fmdom m))"

text \<open>
  The inner loops: the first \<open>k\<close> shards of group \<open>g\<close> go to group \<open>h\<close> (group 0 holds the free shards).
\<close>

fun reassign :: "int \<Rightarrow> int \<Rightarrow> int \<Rightarrow> int list \<Rightarrow> int list" where
  "reassign g h k [] = []"
| "reassign g h k (x # xs) =
     (if k \<le> 0 then x # xs
      else if x = g then h # reassign g h (k - 1) xs
      else x # reassign g h k xs)"

definition target :: "nat \<Rightarrow> nat \<Rightarrow> int" where
  "target n gidx = (if int gidx \<ge> int n - int NShards mod int n then int NShards div int n + 1
                    else int NShards div int n)"

definition releaseStep ::
  "int list \<Rightarrow> nat \<Rightarrow> nat \<Rightarrow> (int, int) fmap \<times> int list \<Rightarrow> (int, int) fmap \<times> int list" where
  "releaseStep sortedGids n gidx = (\<lambda>(m, shards).
     let g = sortedGids ! gidx in
     if cnt m g > target n gidx
     then (fmupd g (target n gidx) m, reassign g 0 (cnt m g - target n gidx) shards)
     else (m, shards))"

definition assignStep ::
  "int list \<Rightarrow> nat \<Rightarrow> nat \<Rightarrow> (int, int) fmap \<times> int list \<Rightarrow> (int, int) fmap \<times> int list" where
  "assignStep sortedGids n gidx = (\<lambda>(m, shards).
     let g = sortedGids ! gidx in
     if cnt m g < target n gidx
     then (fmupd g (target n gidx) m, reassign 0 g (target n gidx - cnt m g) shards)
     else (m, shards))"

text \<open>\<^verbatim>\<open>balance\<close>; \<^const>\<open>None\<close> is the division by zero for an empty map.\<close>

definition balance ::
  "(int fset \<Rightarrow> int list) \<Rightarrow> (int, int) fmap \<Rightarrow> int list \<Rightarrow> int list option" where
  "balance ord g2ShardCnt oldShards =
     (let sortedGids = g2ShardCntSortSlice ord g2ShardCnt; n = length sortedGids in
      if n = 0 then None
      else let s1 = fold (releaseStep sortedGids n) [0..<n] (g2ShardCnt, oldShards);
               s2 = fold (assignStep sortedGids n) [0..<n] s1 in
           Some (snd s2))"

subsection \<open>The commands\<close>

definition countShards :: "int list \<Rightarrow> (int, int) fmap \<Rightarrow> (int, int) fmap" where
  "countShards shards m0 = fold (\<lambda>gid m. if gid \<noteq> 0 then incr gid m else m) shards m0"

text \<open>The tail of \<^verbatim>\<open>handleJoin\<close> and \<^verbatim>\<open>handleLeave\<close>: the next configuration.\<close>

definition rebalanced ::
  "(int fset \<Rightarrow> int list) \<Rightarrow> int \<Rightarrow> (int, string list) fmap \<Rightarrow> (int, int) fmap \<Rightarrow> int list \<Rightarrow>
   Config option" where
  "rebalanced ord num groups g2ShardCnt shards = do {
     sh \<leftarrow> (if fmdom g2ShardCnt \<noteq> {||} then balance ord g2ShardCnt shards
           else Some (replicate NShards 0));
     Some \<lparr>Num = num, Shards = sh, Groups = groups\<rparr>
   }"

definition handleJoin ::
  "(int fset \<Rightarrow> int list) \<Rightarrow> JoinArgs \<Rightarrow> Config list \<Rightarrow> Config list option" where
  "handleJoin ord args cfgs = do {
     last \<leftarrow> idx cfgs (int (length cfgs) - 1);
     let oldCfg = clone last;
     let groups = Groups oldCfg ++\<^sub>f ja_Servers args;
     let g2ShardCnt = countShards (Shards oldCfg) (fmmap (\<lambda>_. 0) groups);
     newConfig \<leftarrow> rebalanced ord (int (length cfgs)) groups g2ShardCnt (Shards oldCfg);
     Some (cfgs @ [newConfig])
   }"

definition handleLeave ::
  "(int fset \<Rightarrow> int list) \<Rightarrow> LeaveArgs \<Rightarrow> Config list \<Rightarrow> Config list option" where
  "handleLeave ord args cfgs = do {
     last \<leftarrow> idx cfgs (int (length cfgs) - 1);
     let oldCfg = clone last;
     let isDelete = (\<lambda>gid. gid \<in> set (la_GIDs args));
     let groups = fold fmdrop (la_GIDs args) (Groups oldCfg);
     let newShard = map (\<lambda>gid. if gid \<noteq> 0 \<and> isDelete gid then 0 else gid) (Shards oldCfg);
     let g2ShardCnt = countShards (filter (\<lambda>gid. \<not> isDelete gid) (Shards oldCfg))
           (fmmap (\<lambda>_. 0) (fmfilter (\<lambda>gid. \<not> isDelete gid) groups));
     newConfig \<leftarrow> rebalanced ord (int (length cfgs)) groups g2ShardCnt newShard;
     Some (cfgs @ [newConfig])
   }"

definition handleMove :: "MoveArgs \<Rightarrow> Config list \<Rightarrow> Config list option" where
  "handleMove args cfgs = do {
     last \<leftarrow> idx cfgs (int (length cfgs) - 1);
     let newConfig = (clone last)\<lparr>Num := Num last + 1\<rparr>;
     if ma_Shard args \<ge> int NShards \<and> ma_Shard args < 0 then Some cfgs
     else do {
       sh \<leftarrow> set_idx (Shards newConfig) (ma_Shard args) (ma_GID args);
       Some (cfgs @ [newConfig\<lparr>Shards := sh\<rparr>])
     }
   }"

text \<open>The switch of the apply loop; \<^const>\<open>None\<close> is a panic in a handler or a failed type assertion.\<close>

definition effectSc ::
  "(int fset \<Rightarrow> int list) \<Rightarrow> ScOp \<Rightarrow> Config list \<Rightarrow> Config list option" where
  "effectSc ord op cfgs =
     (if sc_Type op = JOIN then (case sc_Args op of JoinA a \<Rightarrow> handleJoin ord a cfgs | _ \<Rightarrow> None)
      else if sc_Type op = LEAVE then (case sc_Args op of LeaveA a \<Rightarrow> handleLeave ord a cfgs | _ \<Rightarrow> None)
      else if sc_Type op = MOVE then (case sc_Args op of MoveA a \<Rightarrow> handleMove a cfgs | _ \<Rightarrow> None)
      else Some cfgs)"

definition applySc ::
  "(int fset \<Rightarrow> int list) \<Rightarrow> ScOp \<Rightarrow> (int \<rightharpoonup> int) \<times> Config list \<Rightarrow>
   ((int \<rightharpoonup> int) \<times> Config list) option" where
  "applySc ord op = (\<lambda>(dup, cfgs).
     if case dup (sc_ClientId op) of
          None \<Rightarrow> False | Some preSequenceId \<Rightarrow> preSequenceId = sc_SequenceId op
     then Some (dup, cfgs)
     else do {
       cfgs' \<leftarrow> effectSc ord op cfgs;
       Some (dup(sc_ClientId op \<mapsto> sc_SequenceId op), cfgs')
     })"

subsection \<open>RPC handlers and the apply loop\<close>

text \<open>
  The three updating handlers are the same up to the operation: a duplicate check, \<^verbatim>\<open>rf.Start\<close>, a
  wait.  \<^verbatim>\<open>Query\<close> has no duplicate check.
\<close>

definition scSubmit ::
  "ShardCtrler \<Rightarrow> ScOp \<Rightarrow> (ShardCtrler \<times> (scReply + int)) option" where
  "scSubmit sc op = do {
     (rf', index, t, isLeader) \<leftarrow> Start (sc_rf sc) op;
     let sc' = sc\<lparr>sc_rf := rf'\<rparr>;
     Some (sc', if \<not> isLeader then Inl \<lparr>scr_WrongLeader = True, scr_Err = scOK\<rparr> else Inr index)
   }"

definition scCheckedSubmit ::
  "ShardCtrler \<Rightarrow> ScOp \<Rightarrow> (ShardCtrler \<times> (scReply + int)) option" where
  "scCheckedSubmit sc op =
     (if case sc_duptable sc (sc_ClientId op) of
           None \<Rightarrow> False | Some preSeq \<Rightarrow> preSeq \<ge> sc_SequenceId op
      then Some (sc, Inl \<lparr>scr_WrongLeader = False, scr_Err = scOK\<rparr>)
      else scSubmit sc op)"

definition JoinStart where
  "JoinStart sc args = scCheckedSubmit sc
     \<lparr>sc_Type = JOIN, sc_Args = JoinA args, sc_ClientId = ja_ClientId args,
      sc_SequenceId = ja_SequenceId args\<rparr>"

definition LeaveStart where
  "LeaveStart sc args = scCheckedSubmit sc
     \<lparr>sc_Type = LEAVE, sc_Args = LeaveA args, sc_ClientId = la_ClientId args,
      sc_SequenceId = la_SequenceId args\<rparr>"

definition MoveStart where
  "MoveStart sc args = scCheckedSubmit sc
     \<lparr>sc_Type = MOVE, sc_Args = MoveA args, sc_ClientId = ma_ClientId args,
      sc_SequenceId = ma_SequenceId args\<rparr>"

definition QueryStart where
  "QueryStart sc args = scSubmit sc
     \<lparr>sc_Type = QUERY, sc_Args = QueryA args, sc_ClientId = qa_ClientId args,
      sc_SequenceId = qa_SequenceId args\<rparr>"

definition scRegister :: "ShardCtrler \<Rightarrow> int \<Rightarrow> ShardCtrler \<times> nat" where
  "scRegister sc index = (let (c, h) = make_chan 0 Waiting (sc_chans sc) in
     (sc\<lparr>sc_wakeClient := (sc_wakeClient sc)(index \<mapsto> c), sc_chans := h\<rparr>, c))"

definition scClean :: "ShardCtrler \<Rightarrow> int \<Rightarrow> ShardCtrler" where
  "scClean sc index = sc\<lparr>sc_wakeClient := (sc_wakeClient sc)(index := None)\<rparr>"

definition scFinish :: "ShardCtrler \<Rightarrow> int \<Rightarrow> int \<Rightarrow> int \<Rightarrow> nat \<Rightarrow> ShardCtrler \<times> scReply" where
  "scFinish sc client seq index c = (let (r, h) = chan_leave c (sc_chans sc) in
     (scClean (sc\<lparr>sc_chans := h\<rparr>) index,
      case r of
        Some r' \<Rightarrow> \<lparr>scr_WrongLeader = \<not> (sri_ClientId r' = client \<and> sri_SequenceId r' = seq), scr_Err = scOK\<rparr>
      | None \<Rightarrow> \<lparr>scr_WrongLeader = True, scr_Err = scOK\<rparr>))"

definition JoinFinish where
  "JoinFinish sc args index c = scFinish sc (ja_ClientId args) (ja_SequenceId args) index c"

definition LeaveFinish where
  "LeaveFinish sc args index c = scFinish sc (la_ClientId args) (la_SequenceId args) index c"

definition MoveFinish where
  "MoveFinish sc args index c = scFinish sc (ma_ClientId args) (ma_SequenceId args) index c"

text \<open>The answer of \<^verbatim>\<open>Query\<close> once its operation has been applied; \<^const>\<open>None\<close> when there are no configurations.\<close>

definition queryConfig :: "Config list \<Rightarrow> int \<Rightarrow> QueryReply option" where
  "queryConfig cfgs num = do {
     last \<leftarrow> idx cfgs (int (length cfgs) - 1);
     if num = -1 \<or> num > Num last
     then Some \<lparr>scr_WrongLeader = False, scr_Err = scOK, qr_Config = clone last\<rparr>
     else case find (\<lambda>cfg. Num cfg = num) cfgs of
            Some cfg \<Rightarrow> Some \<lparr>scr_WrongLeader = False, scr_Err = scOK, qr_Config = clone cfg\<rparr>
          | None \<Rightarrow> Some \<lparr>scr_WrongLeader = True, scr_Err = scOK, qr_Config = emptyConfig\<rparr>
   }"

definition QueryFinish ::
  "ShardCtrler \<Rightarrow> QueryArgs \<Rightarrow> int \<Rightarrow> nat \<Rightarrow> (ShardCtrler \<times> QueryReply) option" where
  "QueryFinish sc args index c = (let (r, h) = chan_leave c (sc_chans sc);
       sc' = scClean (sc\<lparr>sc_chans := h\<rparr>) index;
       failed = \<lparr>scr_WrongLeader = True, scr_Err = scOK, qr_Config = emptyConfig\<rparr> in
     case r of
       Some r' \<Rightarrow>
         if sri_ClientId r' = qa_ClientId args \<and> sri_SequenceId r' = qa_SequenceId args
         then map_option (\<lambda>reply. (sc', reply)) (queryConfig (configs sc) (qa_Num args))
         else Some (sc', failed)
     | None \<Rightarrow> Some (sc', failed))"

definition scKill :: "ShardCtrler \<Rightarrow> ShardCtrler" where
  "scKill sc = sc\<lparr>sc_rf := Kill (sc_rf sc)\<rparr>"

definition StartServer ::
  "nat \<Rightarrow> int \<Rightarrow> (ScOp PersistentStatus, unit) Persister \<Rightarrow> ShardCtrler option" where
  "StartServer n self ps = do {
     rf0 \<leftarrow> Make n self ps;
     Some \<lparr>sc_me = self, sc_rf = rf0, sc_duptable = Map.empty, sc_wakeClient = Map.empty,
           sc_chans = no_chans, configs = [emptyConfig]\<rparr>
   }"

definition scWaitCh :: "ShardCtrler \<Rightarrow> int \<Rightarrow> ShardCtrler \<times> nat" where
  "scWaitCh sc index = (case sc_wakeClient sc index of
     Some c \<Rightarrow> (sc, c)
   | None \<Rightarrow> let (c, h) = make_chan 1 NoReceiver (sc_chans sc) in
       (sc\<lparr>sc_wakeClient := (sc_wakeClient sc)(index \<mapsto> c), sc_chans := h\<rparr>, c))"

text \<open>One round of the apply loop up to the send, and the send.\<close>

definition scApplyBegin ::
  "(int fset \<Rightarrow> int list) \<Rightarrow> ShardCtrler \<Rightarrow> (ScOp, unit) ApplyMsg \<Rightarrow>
   (ShardCtrler \<times> (nat \<times> scReqId) option) option" where
  "scApplyBegin ord sc msg =
     (if CommandValid msg then do {
        op \<leftarrow> am_Command msg;
        (dup, cfgs) \<leftarrow> applySc ord op (sc_duptable sc, configs sc);
        let (sc1, c) = scWaitCh (sc\<lparr>sc_duptable := dup, configs := cfgs\<rparr>) (CommandIndex msg);
        Some (sc1, Some (c, \<lparr>sri_ClientId = sc_ClientId op, sri_SequenceId = sc_SequenceId op,
                             sri_Err = scOK\<rparr>))
      }
      else Some (sc, None))"

definition scApplySend :: "ShardCtrler \<Rightarrow> nat \<Rightarrow> scReqId \<Rightarrow> ShardCtrler option" where
  "scApplySend sc c r = do { h \<leftarrow> chan_send c r (sc_chans sc); Some (sc\<lparr>sc_chans := h\<rparr>) }"

subsection \<open>The clerk\<close>

record ScClerk =
  sck_servers :: nat
  sck_clientId :: int
  sck_sequenceId :: int

definition ScMakeClerk :: "nat \<Rightarrow> int \<Rightarrow> ScClerk" where
  "ScMakeClerk n rnd = \<lparr>sck_servers = n, sck_clientId = rnd, sck_sequenceId = 0\<rparr>"

text \<open>
  The loops of the clerk go over the servers again and again until one answers; the results of the
  calls are a list, \<^const>\<open>None\<close> for a failed call.
\<close>

definition firstAnswer :: "('r \<Rightarrow> bool) \<Rightarrow> 'r option list \<Rightarrow> 'r option" where
  "firstAnswer wrongLeader results =
     (case find (\<lambda>x. case x of None \<Rightarrow> False | Some r \<Rightarrow> \<not> wrongLeader r) results of
        Some (Some r) \<Rightarrow> Some r | _ \<Rightarrow> None)"

definition nextSeq :: "ScClerk \<Rightarrow> ScClerk" where
  "nextSeq ck = ck\<lparr>sck_sequenceId := sck_sequenceId ck + 1\<rparr>"

definition ClerkQuery where
  "ClerkQuery ck num results =
     (\<lparr>qa_Num = num, qa_ClientId = sck_clientId ck, qa_SequenceId = sck_sequenceId ck\<rparr>, nextSeq ck,
      map_option qr_Config (firstAnswer scr_WrongLeader results))"

definition ClerkJoin where
  "ClerkJoin ck servers results =
     (\<lparr>ja_Servers = servers, ja_ClientId = sck_clientId ck, ja_SequenceId = sck_sequenceId ck\<rparr>,
      nextSeq ck, map_option (\<lambda>r. ()) (firstAnswer scr_WrongLeader results))"

definition ClerkLeave where
  "ClerkLeave ck gids results =
     (\<lparr>la_GIDs = gids, la_ClientId = sck_clientId ck, la_SequenceId = sck_sequenceId ck\<rparr>,
      nextSeq ck, map_option (\<lambda>r. ()) (firstAnswer scr_WrongLeader results))"

definition ClerkMove where
  "ClerkMove ck shard gid results =
     (\<lparr>ma_Shard = shard, ma_GID = gid, ma_ClientId = sck_clientId ck,
       ma_SequenceId = sck_sequenceId ck\<rparr>,
      nextSeq ck, map_option (\<lambda>r. ()) (firstAnswer scr_WrongLeader results))"

end
