(* ===== verification/Go_Sort.thy ===== *)
theory Go_Sort
  imports Go_Prelude "HOL-Library.Multiset"
begin

section \<open>Sorting with a strict weak order\<close>

text \<open>
  What \<^const>\<open>sliceStable\<close> does to a slice: it permutes the elements, and for a strict weak order, the contract of
  Go's \<^verbatim>\<open>Less\<close> functions, no element stands behind a greater one.  The \<^verbatim>\<open>Less\<close> functions of the shard controller,
  of MapReduce and of the linearizability checker are instances of the locale.
\<close>

lemma mset_moveLeft [simp]: "mset (moveLeft lt x ys) = add_mset x (mset ys)"
  by (induction ys) auto

lemma set_moveLeft [simp]: "set (moveLeft lt x ys) = insert x (set ys)"
  using mset_moveLeft [of lt x ys] by (metis set_mset_add_mset_insert set_mset_mset)

lemma mset_sliceStable [simp]: "mset (sliceStable lt xs) = mset xs"
proof -
  have "mset (fold (moveLeft lt) xs ys) = mset xs + mset ys" for ys
    by (induction xs arbitrary: ys) simp_all
  then show ?thesis by (simp add: sliceStable_def)
qed

lemma set_sliceStable [simp]: "set (sliceStable lt xs) = set xs"
  by (metis mset_sliceStable set_mset_mset)

lemma distinct_sliceStable: "distinct xs \<Longrightarrow> distinct (sliceStable lt xs)"
  using mset_eq_imp_distinct_iff [OF mset_sliceStable [of lt xs]] by simp

locale less_function =
  fixes lt :: "'a \<Rightarrow> 'a \<Rightarrow> bool"
  assumes asym: "lt a b \<Longrightarrow> \<not> lt b a"
    and neg_trans: "lt a c \<Longrightarrow> lt a b \<or> lt b c"
begin

lemma sorted_moveLeft:
  "sorted_wrt (\<lambda>a b. \<not> lt a b) ys \<Longrightarrow> sorted_wrt (\<lambda>a b. \<not> lt a b) (moveLeft lt x ys)"
proof (induction ys)
  case (Cons y ys)
  show ?case
  proof (cases "lt x y")
    case True
    then show ?thesis using Cons asym by auto
  next
    case False
    then have "\<not> lt x z" if "z \<in> set ys" for z using neg_trans [of x z y] Cons.prems that by auto
    then show ?thesis using Cons.prems False by auto
  qed
qed simp

lemma sorted_sliceStable: "sorted_wrt (\<lambda>a b. \<not> lt b a) (sliceStable lt xs)"
proof -
  have "sorted_wrt (\<lambda>a b. \<not> lt a b) (fold (moveLeft lt) xs ys)" if "sorted_wrt (\<lambda>a b. \<not> lt a b) ys" for ys
    using that by (induction xs arbitrary: ys) (simp_all add: sorted_moveLeft)
  then show ?thesis by (simp add: sliceStable_def sorted_wrt_rev)
qed

text \<open>With an order that is total, different elements come out in strictly ascending order.\<close>

lemma strictly_sorted_sliceStable:
  assumes "\<And>a b. a \<noteq> b \<Longrightarrow> lt a b \<or> lt b a" and "distinct xs"
  shows "sorted_wrt lt (sliceStable lt xs)"
proof -
  have "sorted_wrt (\<lambda>a b. \<not> lt b a \<and> a \<noteq> b) (sliceStable lt xs)"
    using sorted_sliceStable [of xs] distinct_sliceStable [OF assms(2), of lt]
    by (simp add: distinct_conv_nth sorted_wrt_iff_nth_less)
  then show ?thesis by (rule sorted_wrt_mono_rel [rotated]) (use assms(1) in blast)
qed

end

end
