(* ===== verification/Shard_Balance.thy ===== *)
theory Shard_Balance
  imports ShardCtrler Go_Sort
begin

section \<open>Correctness of the shard assignment\<close>

text \<open>
  \<^verbatim>\<open>balance\<close> gives every shard to one of the groups, the loads of two groups differ by at most one, a
  group that is not above its target keeps its shards, and the result does not depend on the order
  in which Go iterates over a map.
\<close>

subsection \<open>Sorting\<close>

text \<open>What the language promises of an iteration over a map: every key once.\<close>

definition enumerates :: "(int fset \<Rightarrow> int list) \<Rightarrow> bool" where
  "enumerates ord \<longleftrightarrow> (\<forall>A. distinct (ord A) \<and> set (ord A) = fset A)"

lemma enumerates_sorted: "enumerates sorted_list_of_fset"
  by (simp add: enumerates_def sorted_list_of_fset.rep_eq)

lemma sorted_wrt_unique:
  assumes "asymp lt" and "sorted_wrt lt xs" and "sorted_wrt lt ys" and "set xs = set ys"
  shows "xs = ys"
  using assms(2-)
proof (induction xs arbitrary: ys)
  case (Cons x xs)
  then obtain y ys' where ys: "ys = y # ys'" by (cases ys) auto
  have "x = y"
  proof (rule ccontr)
    assume "x \<noteq> y"
    then have "lt x y" "lt y x" using Cons.prems ys by auto
    then show False using assms(1) by (auto dest: asympD)
  qed
  moreover have "x \<notin> set xs" "y \<notin> set ys'"
    using Cons.prems ys assms(1) by (auto dest: asympD)
  ultimately have "set xs = set ys'" using Cons.prems(3) ys by (auto simp: insert_eq_iff)
  with Cons \<open>x = y\<close> ys show ?case by simp
qed simp

lemma g2ShardCntLess_order:
  "transp (g2ShardCntLess m)" "asymp (g2ShardCntLess m)"
  "a \<noteq> b \<Longrightarrow> g2ShardCntLess m a b \<or> g2ShardCntLess m b a"
  by (auto simp: g2ShardCntLess_def intro!: transpI asympI)

interpretation load_order: less_function "g2ShardCntLess m" for m
  by unfold_locales (auto simp: g2ShardCntLess_def)

lemma sortSlice_facts:
  assumes "enumerates ord"
  shows "distinct (g2ShardCntSortSlice ord m)" "set (g2ShardCntSortSlice ord m) = fset (fmdom m)"
    "sorted_wrt (g2ShardCntLess m) (g2ShardCntSortSlice ord m)"
  using assms load_order.strictly_sorted_sliceStable [OF g2ShardCntLess_order(3)]
  by (simp_all add: enumerates_def g2ShardCntSortSlice_def distinct_sliceStable)

lemma sortSlice_unique:
  assumes "enumerates ord" and "enumerates ord'"
  shows "g2ShardCntSortSlice ord m = g2ShardCntSortSlice ord' m"
  using sorted_wrt_unique [OF g2ShardCntLess_order(2)] sortSlice_facts [OF assms(1)]
    sortSlice_facts [OF assms(2)] by metis

subsection \<open>Moving shards\<close>

lemma length_reassign [simp]: "length (reassign g h k xs) = length xs"
  by (induction g h k xs rule: reassign.induct) auto

lemma count_reassign:
  assumes "g \<noteq> h"
  shows "count_list (reassign g h k xs) x =
    (if x = g then count_list xs g - min (nat k) (count_list xs g)
     else if x = h then count_list xs h + min (nat k) (count_list xs g)
     else count_list xs x)"
  using assms
proof (induction g h k xs rule: reassign.induct)
  case (2 g h k y ys)
  show ?case
  proof (cases "k \<le> 0")
    case False
    then have "nat k = Suc (nat (k - 1))" by simp
    with False 2 show ?thesis by (auto simp: count_le_length)
  qed simp
qed simp

lemma reassign_only:
  "i < length xs \<Longrightarrow> reassign g h k xs ! i \<noteq> xs ! i \<Longrightarrow> xs ! i = g \<and> 0 < k \<and> reassign g h k xs ! i = h"
proof (induction g h k xs arbitrary: i rule: reassign.induct)
  case (2 g h k x xs)
  then show ?case by (cases i) (auto split: if_splits)
qed simp

lemma cnt_fmupd [simp]: "cnt (fmupd k v m) x = (if x = k then v else cnt m x)"
  by (simp add: cnt_def)

subsection \<open>Targets\<close>

lemma sum_target:
  assumes "0 < n"
  shows "(\<Sum>i<n. target n i) = int NShards"
proof -
  let ?r = "NShards mod n" and ?a = "int NShards div int n"
  have r: "?r < n" using assms by simp
  have t: "target n i = ?a + (if n - ?r \<le> i then 1 else 0)" for i
    using r by (auto simp: target_def zmod_int [symmetric])
  have "{i. i < n \<and> n - ?r \<le> i} = {n - ?r..<n}" by auto
  then have "(\<Sum>i<n. (if n - ?r \<le> i then 1 else 0) :: int) = int ?r"
    using r by (simp add: sum.If_cases lessThan_def Int_def)
  then have "(\<Sum>i<n. target n i) = int n * ?a + int ?r" by (simp add: t sum.distrib)
  also have "\<dots> = int NShards" by (simp add: zmod_int)
  finally show ?thesis .
qed

lemma target_bounds: "target n i \<in> {int NShards div int n, int NShards div int n + 1}"
  by (simp add: target_def)

lemma target_nonneg: "0 \<le> target n i"
proof -
  have "0 \<le> int NShards div int n" by (simp flip: zdiv_int)
  then show ?thesis using target_bounds [of n i] by auto
qed

subsection \<open>The two loops\<close>

text \<open>The map holds the true loads, and every shard is free or belongs to one of the groups.\<close>

definition loads_ok :: "int list \<Rightarrow> (int, int) fmap \<times> int list \<Rightarrow> bool" where
  "loads_ok gs = (\<lambda>(m, shards). (\<forall>g \<in> set gs. cnt m g = int (count_list shards g)) \<and>
     set shards \<subseteq> insert 0 (set gs) \<and> length shards = NShards)"

text \<open>A shard has moved only if it was free or its group was above its target.\<close>

definition kept :: "int list \<Rightarrow> int list \<Rightarrow> int list \<Rightarrow> bool" where
  "kept gs old shards \<longleftrightarrow> (\<forall>p < NShards. shards ! p = old ! p \<or> old ! p = 0 \<or>
     (\<exists>i < length gs. old ! p = gs ! i \<and> target (length gs) i < int (count_list old (gs ! i))))"

lemma set_reassign: "set (reassign g h k xs) \<subseteq> insert h (set xs)"
  by (induction g h k xs rule: reassign.induct) auto

lemma loads_release:
  assumes "loads_ok gs (m, shards)" and "distinct gs" and "0 \<notin> set gs" and "g \<in> set gs"
    and "0 \<le> t" and "t \<le> cnt m g"
  shows "loads_ok gs (fmupd g t m, reassign g 0 (cnt m g - t) shards)"
proof -
  have "g \<noteq> 0" using assms(3,4) by auto
  have "cnt m g = int (count_list shards g)" using assms(1,4) by (simp add: loads_ok_def)
  then have "count_list (reassign g 0 (cnt m g - t) shards) g = nat t"
    using assms(5,6) by (simp add: count_reassign [OF \<open>g \<noteq> 0\<close>])
  moreover have "count_list (reassign g 0 (cnt m g - t) shards) x = count_list shards x"
    if "x \<in> set gs" "x \<noteq> g" for x
    using that assms(3) by (auto simp: count_reassign [OF \<open>g \<noteq> 0\<close>])
  ultimately show ?thesis
    using assms(1,5) set_reassign [of g 0 "cnt m g - t" shards] by (auto simp: loads_ok_def)
qed

lemma loads_assign:
  assumes "loads_ok gs (m, shards)" and "distinct gs" and "0 \<notin> set gs" and "g \<in> set gs"
    and "cnt m g \<le> t" and "t - cnt m g \<le> int (count_list shards 0)"
  shows "loads_ok gs (fmupd g t m, reassign 0 g (t - cnt m g) shards)"
proof -
  have "0 \<noteq> g" using assms(3,4) by auto
  have c: "cnt m g = int (count_list shards g)" using assms(1,4) by (simp add: loads_ok_def)
  then have "count_list (reassign 0 g (t - cnt m g) shards) g = nat t"
    using assms(5,6) \<open>0 \<noteq> g\<close> by (simp add: count_reassign [OF \<open>0 \<noteq> g\<close>])
  moreover have "count_list (reassign 0 g (t - cnt m g) shards) x = count_list shards x"
    if "x \<in> set gs" "x \<noteq> g" for x
    using that assms(3) by (auto simp: count_reassign [OF \<open>0 \<noteq> g\<close>])
  ultimately show ?thesis
    using assms(1,4,5) c set_reassign [of 0 g "t - cnt m g" shards] by (auto simp: loads_ok_def)
qed

lemma kept_reassign:
  assumes "kept gs old shards" and "length shards = NShards"
    and "0 < k \<Longrightarrow> g = 0 \<or> (\<exists>i < length gs. g = gs ! i \<and> target (length gs) i < int (count_list old g))"
  shows "kept gs old (reassign g h k shards)"
  unfolding kept_def
proof (intro allI impI)
  fix p assume p: "p < NShards"
  show "reassign g h k shards ! p = old ! p \<or> old ! p = 0 \<or>
     (\<exists>i < length gs. old ! p = gs ! i \<and> target (length gs) i < int (count_list old (gs ! i)))"
  proof (cases "reassign g h k shards ! p = shards ! p")
    case True
    with assms(1) p show ?thesis by (auto simp: kept_def)
  next
    case False
    with reassign_only [of p shards g h k] assms(2) p have "shards ! p = g" "0 < k" by auto
    with assms(1,3) p show ?thesis by (fastforce simp: kept_def)
  qed
qed

text \<open>The first loop brings every group down to its target.\<close>

lemma release_loop:
  assumes "loads_ok gs (m0, old)" and "distinct gs" and "0 \<notin> set gs" and "j \<le> length gs"
    and "fold (releaseStep gs (length gs)) [0..<j] (m0, old) = (m, shards)"
  shows "loads_ok gs (m, shards) \<and> kept gs old shards \<and>
    (\<forall>i < length gs. cnt m (gs ! i) \<le> int (count_list old (gs ! i))) \<and>
    (\<forall>i < j. cnt m (gs ! i) \<le> target (length gs) i)"
  using assms(4,5)
proof (induction j arbitrary: m shards)
  case 0
  have "cnt m0 (gs ! i) = int (count_list old (gs ! i))" if "i < length gs" for i
    using assms(1) that by (auto simp: loads_ok_def)
  with 0 assms(1) show ?case by (auto simp: kept_def)
next
  case (Suc j)
  let ?n = "length gs" and ?g = "gs ! j"
  obtain m1 sh1 where f: "fold (releaseStep gs ?n) [0..<j] (m0, old) = (m1, sh1)" by fastforce
  with Suc have ih: "loads_ok gs (m1, sh1)" "kept gs old sh1"
    "\<And>i. i < ?n \<Longrightarrow> cnt m1 (gs ! i) \<le> int (count_list old (gs ! i))"
    "\<And>i. i < j \<Longrightarrow> cnt m1 (gs ! i) \<le> target ?n i" and st: "releaseStep gs ?n j (m1, sh1) = (m, shards)"
    by auto
  have j: "?g \<in> set gs" "j < ?n" using Suc.prems by auto
  have inj: "i < ?n \<Longrightarrow> gs ! i = ?g \<longleftrightarrow> i = j" for i using assms(2) j by (simp add: nth_eq_iff_index_eq)
  show ?case
  proof (cases "cnt m1 ?g > target ?n j")
    case False
    with st have "m = m1" "shards = sh1" by (simp_all add: releaseStep_def)
    with ih False show ?thesis by (auto simp: less_Suc_eq)
  next
    case True
    with st have eq: "m = fmupd ?g (target ?n j) m1"
      "shards = reassign ?g 0 (cnt m1 ?g - target ?n j) sh1"
      by (auto simp: releaseStep_def Let_def)
    have "loads_ok gs (m, shards)"
      unfolding eq using True by (intro loads_release [OF ih(1) assms(2,3) j(1) target_nonneg]) simp
    moreover have "kept gs old shards"
      unfolding eq
    proof (rule kept_reassign [OF ih(2)])
      show "length sh1 = NShards" using ih(1) by (simp add: loads_ok_def)
      show "?g = 0 \<or> (\<exists>i < ?n. ?g = gs ! i \<and> target ?n i < int (count_list old ?g))"
        using True ih(3) [OF j(2)] j(2) by auto
    qed
    moreover have "cnt m (gs ! i) \<le> int (count_list old (gs ! i))" if "i < ?n" for i
      using ih(3) [OF that] True inj [OF that] by (auto simp: eq)
    moreover have "cnt m (gs ! i) \<le> target ?n i" if "i < Suc j" for i
      using ih(4) [of i] that inj [of i] j(2) by (auto simp: eq less_Suc_eq)
    ultimately show ?thesis by blast
  qed
qed

text \<open>There are always enough free shards for the second loop.\<close>

lemma loads_sum:
  assumes "loads_ok gs (m, shards)" and "distinct gs" and "0 \<notin> set gs"
  shows "int (count_list shards 0) + (\<Sum>i<length gs. cnt m (gs ! i)) = int NShards"
proof -
  have "(\<Sum>i<length gs. cnt m (gs ! i)) = (\<Sum>g\<leftarrow>gs. cnt m g)"
    by (simp add: sum_list_sum_nth lessThan_atLeast0)
  also have "\<dots> = (\<Sum>g \<in> set gs. cnt m g)"
    using assms(2) by (simp add: sum_list_distinct_conv_sum_set)
  also have "\<dots> = (\<Sum>g \<in> set gs. int (count_list shards g))"
    using assms(1) by (intro sum.cong) (auto simp: loads_ok_def)
  finally have "int (count_list shards 0) + (\<Sum>i<length gs. cnt m (gs ! i)) =
      int (\<Sum>g \<in> insert 0 (set gs). count_list shards g)"
    using assms(3) by simp
  also have "(\<Sum>g \<in> insert 0 (set gs). count_list shards g) = length shards"
    using assms(1) by (intro sum_count_set) (auto simp: loads_ok_def)
  finally show ?thesis using assms(1) by (simp add: loads_ok_def)
qed

lemma enough_free:
  assumes "loads_ok gs (m, shards)" and "distinct gs" and "0 \<notin> set gs" and "j < length gs"
    and "\<And>i. i < length gs \<Longrightarrow> cnt m (gs ! i) \<le> target (length gs) i"
  shows "target (length gs) j - cnt m (gs ! j) \<le> int (count_list shards 0)"
proof -
  let ?n = "length gs" and ?d = "\<lambda>i. target (length gs) i - cnt m (gs ! i)"
  have "?d j \<le> (\<Sum>i<?n. ?d i)"
    using assms(4,5) by (intro member_le_sum) auto
  also have "\<dots> = int NShards - (\<Sum>i<?n. cnt m (gs ! i))"
    using sum_target [of ?n] assms(4) by (cases gs) (simp_all add: sum_subtractf)
  finally show ?thesis using loads_sum [OF assms(1-3)] by simp
qed

text \<open>The second loop brings every group up to its target.\<close>

lemma assign_loop:
  assumes "loads_ok gs (m0, sh0)" and "distinct gs" and "0 \<notin> set gs" and "j \<le> length gs"
    and "\<And>i. i < length gs \<Longrightarrow> cnt m0 (gs ! i) \<le> target (length gs) i" and "kept gs old sh0"
    and "fold (assignStep gs (length gs)) [0..<j] (m0, sh0) = (m, shards)"
  shows "loads_ok gs (m, shards) \<and> kept gs old shards \<and>
    (\<forall>i < length gs. cnt m (gs ! i) \<le> target (length gs) i) \<and>
    (\<forall>i < j. cnt m (gs ! i) = target (length gs) i)"
  using assms(4,7)
proof (induction j arbitrary: m shards)
  case 0
  with assms(1,5,6) show ?case by auto
next
  case (Suc j)
  let ?n = "length gs" and ?g = "gs ! j"
  obtain m1 sh1 where f: "fold (assignStep gs ?n) [0..<j] (m0, sh0) = (m1, sh1)" by fastforce
  with Suc have ih: "loads_ok gs (m1, sh1)" "kept gs old sh1"
    "\<And>i. i < ?n \<Longrightarrow> cnt m1 (gs ! i) \<le> target ?n i"
    "\<And>i. i < j \<Longrightarrow> cnt m1 (gs ! i) = target ?n i" and st: "assignStep gs ?n j (m1, sh1) = (m, shards)"
    by auto
  have j: "?g \<in> set gs" "j < ?n" using Suc.prems by auto
  have inj: "i < ?n \<Longrightarrow> gs ! i = ?g \<longleftrightarrow> i = j" for i using assms(2) j by (simp add: nth_eq_iff_index_eq)
  show ?case
  proof (cases "cnt m1 ?g < target ?n j")
    case False
    with st have "m = m1" "shards = sh1" by (simp_all add: assignStep_def)
    with ih False j(2) show ?thesis by (auto simp: less_Suc_eq order.antisym)
  next
    case True
    with st have eq: "m = fmupd ?g (target ?n j) m1"
      "shards = reassign 0 ?g (target ?n j - cnt m1 ?g) sh1"
      by (auto simp: assignStep_def Let_def)
    have "loads_ok gs (m, shards)"
      unfolding eq using True
      by (intro loads_assign [OF ih(1) assms(2,3) j(1) _ enough_free [OF ih(1) assms(2,3) j(2) ih(3)]]) simp
    moreover have "kept gs old shards"
      unfolding eq using ih(1) by (intro kept_reassign [OF ih(2)]) (simp_all add: loads_ok_def)
    moreover have "cnt m (gs ! i) \<le> target ?n i" if "i < ?n" for i
      using ih(3) [OF that] inj [OF that] by (auto simp: eq)
    moreover have "cnt m (gs ! i) = target ?n i" if "i < Suc j" for i
      using ih(4) [of i] that inj [of i] j(2) by (auto simp: eq less_Suc_eq)
    ultimately show ?thesis by blast
  qed
qed

subsection \<open>What stays\<close>

text \<open>The first loop only frees shards and leaves each group the smaller of its load and its target; the second loop only
  gives away free shards.\<close>

lemma reassign_release: "p < length xs \<Longrightarrow> reassign g h k xs ! p = xs ! p \<or> reassign g h k xs ! p = h"
  using reassign_only [of p xs g h k] by auto

lemma release_exact:
  assumes "distinct gs" and "\<And>i. i < length gs \<Longrightarrow> cnt m0 (gs ! i) = int (count_list old (gs ! i))"
    and "j \<le> length gs" and "fold (releaseStep gs (length gs)) [0..<j] (m0, old) = (m, shards)"
  shows "length shards = length old \<and> (\<forall>p < length old. shards ! p = old ! p \<or> shards ! p = 0) \<and>
    (\<forall>i < length gs. cnt m (gs ! i) = (if i < j then min (target (length gs) i) (int (count_list old (gs ! i)))
       else int (count_list old (gs ! i))))"
  using assms(3,4)
proof (induction j arbitrary: m shards)
  case (Suc j)
  obtain m1 sh1 where f: "fold (releaseStep gs (length gs)) [0..<j] (m0, old) = (m1, sh1)" by fastforce
  have st: "releaseStep gs (length gs) j (m1, sh1) = (m, shards)" using Suc.prems(2) f by simp
  have ih: "length sh1 = length old" "\<And>p. p < length old \<Longrightarrow> sh1 ! p = old ! p \<or> sh1 ! p = 0"
    "\<And>i. i < length gs \<Longrightarrow> cnt m1 (gs ! i) = (if i < j then min (target (length gs) i) (int (count_list old (gs ! i)))
       else int (count_list old (gs ! i)))" using Suc.IH [OF _ f] Suc.prems(1) by simp_all
  have inj: "i < length gs \<Longrightarrow> gs ! i = gs ! j \<longleftrightarrow> i = j" for i using assms(1) Suc.prems(1) by (simp add: nth_eq_iff_index_eq)
  show ?case
  proof (cases "cnt m1 (gs ! j) > target (length gs) j")
    case False
    with st ih Suc.prems(1) show ?thesis by (auto simp: releaseStep_def less_Suc_eq)
  next
    case True
    with st have eq: "m = fmupd (gs ! j) (target (length gs) j) m1"
      "shards = reassign (gs ! j) 0 (cnt m1 (gs ! j) - target (length gs) j) sh1" by (auto simp: releaseStep_def Let_def)
    have "shards ! p = old ! p \<or> shards ! p = 0" if "p < length old" for p
      using ih(2) [OF that] reassign_release [of p sh1 "gs ! j" 0] that ih(1) unfolding eq(2) by fastforce
    moreover have "cnt m (gs ! i) = (if i < Suc j then min (target (length gs) i) (int (count_list old (gs ! i)))
       else int (count_list old (gs ! i)))" if "i < length gs" for i
      using ih(3) [OF that] ih(3) [of j] Suc.prems(1) inj [OF that] True by (auto simp: eq(1) less_Suc_eq)
    ultimately show ?thesis using ih(1) by (simp add: eq(2))
  qed
qed (use assms(2) in simp)

lemma assign_keeps:
  assumes "0 \<notin> set gs" and "j \<le> length gs" and "fold (assignStep gs (length gs)) [0..<j] (m0, sh0) = (m, shards)"
  shows "length shards = length sh0 \<and> (\<forall>p < length sh0. sh0 ! p \<noteq> 0 \<longrightarrow> shards ! p = sh0 ! p)"
  using assms(2,3)
proof (induction j arbitrary: m shards)
  case (Suc j)
  obtain m1 sh1 where f: "fold (assignStep gs (length gs)) [0..<j] (m0, sh0) = (m1, sh1)" by fastforce
  have st: "assignStep gs (length gs) j (m1, sh1) = (m, shards)" using Suc.prems(2) f by simp
  have ih: "length sh1 = length sh0" "\<And>p. p < length sh0 \<Longrightarrow> sh0 ! p \<noteq> 0 \<Longrightarrow> sh1 ! p = sh0 ! p"
    using Suc.IH [OF _ f] Suc.prems(1) by simp_all
  have "reassign 0 h k sh1 ! p = sh0 ! p" if "p < length sh0" "sh0 ! p \<noteq> 0" for h k p
    using reassign_only [of p sh1 0 h k] ih(1) ih(2) [OF that] that by auto
  with st ih show ?case by (auto simp: assignStep_def Let_def split: if_splits)
qed simp

lemma count_list_card: "count_list xs x = card {p. p < length xs \<and> xs ! p = x}"
proof -
  have "count_list xs x = length (filter (\<lambda>y. y = x) xs)" by (induction xs) auto
  then show ?thesis by (simp add: length_filter_conv_card)
qed

lemma stay_count:
  assumes "length sh = length old" and "length mid = length old" and "g \<noteq> 0"
    and "\<And>p. p < length old \<Longrightarrow> mid ! p = old ! p \<or> mid ! p = 0"
    and "\<And>p. p < length old \<Longrightarrow> mid ! p \<noteq> 0 \<Longrightarrow> sh ! p = mid ! p"
    and "count_list mid g = min (count_list sh g) (count_list old g)"
  shows "card {p. p < length old \<and> old ! p = g \<and> sh ! p = g} = min (count_list old g) (count_list sh g)"
proof (rule antisym)
  let ?S = "{p. p < length old \<and> old ! p = g \<and> sh ! p = g}"
  have "card ?S \<le> count_list old g" "card ?S \<le> count_list sh g"
    unfolding count_list_card assms(1) by (auto intro: card_mono)
  then show "card ?S \<le> min (count_list old g) (count_list sh g)" by simp
  have "{p. p < length mid \<and> mid ! p = g} \<subseteq> ?S" using assms(2-5) by (auto dest: assms(4))
  then have "count_list mid g \<le> card ?S" unfolding count_list_card by (intro card_mono) auto
  then show "min (count_list old g) (count_list sh g) \<le> card ?S" using assms(6) by (simp add: min.commute)
qed

subsection \<open>The result\<close>

text \<open>What the callers of \<^verbatim>\<open>balance\<close> establish.\<close>

definition balance_pre :: "(int, int) fmap \<Rightarrow> int list \<Rightarrow> bool" where
  "balance_pre m shards \<longleftrightarrow> fmdom m \<noteq> {||} \<and> 0 |\<notin>| fmdom m \<and> length shards = NShards \<and>
     set shards \<subseteq> insert 0 (fset (fmdom m)) \<and>
     (\<forall>g |\<in>| fmdom m. cnt m g = int (count_list shards g))"

lemma balance_result:
  assumes "enumerates ord" and "balance_pre m old" and gs: "gs = g2ShardCntSortSlice ord m"
  shows "\<exists>sh. balance ord m old = Some sh \<and> length sh = NShards \<and> set sh \<subseteq> fset (fmdom m) \<and>
    kept gs old sh \<and> (\<forall>i < length gs. int (count_list sh (gs ! i)) = target (length gs) i) \<and>
    (\<forall>g \<in> set gs. card {s. s < NShards \<and> old ! s = g \<and> sh ! s = g} = min (count_list old g) (count_list sh g))"
proof -
  have g: "distinct gs" "set gs = fset (fmdom m)" using sortSlice_facts [OF assms(1), of m] gs by auto
  have ne: "gs \<noteq> []" "0 \<notin> set gs" using assms(2) g(2) by (auto simp: balance_pre_def)
  let ?n = "length gs"
  have ok: "loads_ok gs (m, old)" using assms(2) g(2) by (auto simp: balance_pre_def loads_ok_def)
  obtain m1 s1 where f1: "fold (releaseStep gs ?n) [0..<?n] (m, old) = (m1, s1)" by fastforce
  obtain m2 s2 where f2: "fold (assignStep gs ?n) [0..<?n] (m1, s1) = (m2, s2)" by fastforce
  note R = release_loop [OF ok g(1) ne(2) order.refl f1]
  have A: "loads_ok gs (m2, s2)" "kept gs old s2" "\<And>i. i < ?n \<Longrightarrow> cnt m2 (gs ! i) = target ?n i"
    using assign_loop [OF _ g(1) ne(2) order.refl _ _ f2] R by auto
  have "(\<Sum>i<?n. cnt m2 (gs ! i)) = int NShards"
    using A(3) sum_target [of ?n] ne(1) by simp
  then have "count_list s2 0 = 0" using loads_sum [OF A(1) g(1) ne(2)] by simp
  then have "0 \<notin> set s2" by (simp add: count_list_0_iff)
  with A(1) g(2) have "set s2 \<subseteq> fset (fmdom m)" by (auto simp: loads_ok_def)
  moreover have "int (count_list s2 (gs ! i)) = target ?n i" if "i < ?n" for i
    using A(1) A(3) [OF that] that by (simp add: loads_ok_def)
  moreover have "card {s. s < NShards \<and> old ! s = g \<and> s2 ! s = g} = min (count_list old g) (count_list s2 g)"
    if "g \<in> set gs" for g
  proof -
    from that obtain i where i: "i < ?n" "g = gs ! i" by (auto simp: in_set_conv_nth)
    have len: "length old = NShards" "length s1 = NShards" "length s2 = NShards"
      using ok R A(1) by (simp_all add: loads_ok_def)
    have l: "cnt m (gs ! k) = int (count_list old (gs ! k))" if "k < ?n" for k using ok that by (simp add: loads_ok_def)
    note X = release_exact [OF g(1) l order.refl f1]
    have "int (count_list s1 g) = min (target ?n i) (int (count_list old g))"
      using X R i that by (simp add: loads_ok_def)
    also have "target ?n i = int (count_list s2 g)" using A(1) A(3) [OF i(1)] that i(2) by (simp add: loads_ok_def)
    finally have "count_list s1 g = min (count_list s2 g) (count_list old g)" by linarith
    moreover have "g \<noteq> 0" using that ne(2) by auto
    ultimately show ?thesis
      using stay_count [of s2 old s1 g] X assign_keeps [OF ne(2) order.refl f2] len by simp
  qed
  moreover have "balance ord m old = Some s2"
    using ne(1) f1 f2 by (simp add: balance_def Let_def flip: gs)
  ultimately show ?thesis using A(1,2) by (auto simp: loads_ok_def)
qed

text \<open>C24: balancing.  For a non-empty set of groups and a table with their true loads, \<^verbatim>\<open>balance\<close> returns an
  assignment in which every shard belongs to one of the groups and every group has the rounded-down or
  rounded-up share of the shards (so two loads differ by at most one); the rounded-up shares go to the groups at the end of the
  sorted order, those with the fewest shards.  For these loads it moves as little as possible: a group that has to
  give shards away loses only the excess, and a group that gets shards keeps all that it had.  (Which groups get the rounded-up
  shares is not chosen so as to move little, see \<open>balance_needless_move\<close>.)\<close>

theorem balance_correct:
  assumes "enumerates ord" and "balance_pre m old"
  shows "\<exists>sh. balance ord m old = Some sh \<and> length sh = NShards \<and>
    (\<forall>s < NShards. sh ! s |\<in>| fmdom m) \<and>
    (\<forall>g h. g |\<in>| fmdom m \<longrightarrow> h |\<in>| fmdom m \<longrightarrow> count_list sh g \<le> count_list sh h + 1) \<and>
    (\<forall>g. g |\<in>| fmdom m \<longrightarrow> count_list sh g \<in> {NShards div fcard (fmdom m), NShards div fcard (fmdom m) + 1}) \<and>
    (\<forall>g h. g |\<in>| fmdom m \<longrightarrow> h |\<in>| fmdom m \<longrightarrow> g2ShardCntLess m g h \<longrightarrow> count_list sh g \<le> count_list sh h) \<and>
    (\<forall>g. g |\<in>| fmdom m \<longrightarrow>
       card {s. s < NShards \<and> old ! s = g \<and> sh ! s = g} = min (count_list old g) (count_list sh g)) \<and>
    (\<forall>s < NShards. sh ! s \<noteq> old ! s \<longrightarrow>
       old ! s = 0 \<or> NShards div fcard (fmdom m) < count_list old (old ! s))"
proof -
  define gs where "gs = g2ShardCntSortSlice ord m"
  from balance_result [OF assms gs_def] obtain sh where sh: "balance ord m old = Some sh"
    "length sh = NShards" "set sh \<subseteq> fset (fmdom m)" "kept gs old sh"
    "\<And>i. i < length gs \<Longrightarrow> int (count_list sh (gs ! i)) = target (length gs) i"
    "\<And>g. g \<in> set gs \<Longrightarrow> card {s. s < NShards \<and> old ! s = g \<and> sh ! s = g} = min (count_list old g) (count_list sh g)"
    by blast
  have g: "distinct gs" "set gs = fset (fmdom m)"
    using sortSlice_facts [OF assms(1), of m] by (auto simp: gs_def)
  have len: "length gs = fcard (fmdom m)"
    using g distinct_card [of gs] by (simp add: fcard.rep_eq)
  have share: "int (count_list sh x) \<in> {int (NShards div length gs), int (NShards div length gs) + 1}"
    if "x |\<in>| fmdom m" for x
  proof -
    have "x \<in> set gs" using that g(2) by simp
    then obtain i where "i < length gs" "x = gs ! i" by (auto simp: in_set_conv_nth)
    with sh(5) target_bounds [of "length gs" i] show ?thesis by (simp add: zdiv_int)
  qed
  have low: "NShards div length gs < count_list old (old ! s)"
    if "s < NShards" "sh ! s \<noteq> old ! s" "old ! s \<noteq> 0" for s
  proof -
    from sh(4) that obtain i where "i < length gs" "old ! s = gs ! i"
      "target (length gs) i < int (count_list old (gs ! i))" by (auto simp: kept_def)
    with target_bounds [of "length gs" i] show ?thesis by (auto simp flip: zdiv_int)
  qed
  have ordered: "count_list sh x \<le> count_list sh y"
    if "x |\<in>| fmdom m" "y |\<in>| fmdom m" "g2ShardCntLess m x y" for x y
  proof -
    have "x \<in> set gs" "y \<in> set gs" using that(1,2) g(2) by simp_all
    then obtain i k where i: "i < length gs" "x = gs ! i" and k: "k < length gs" "y = gs ! k" by (auto simp: in_set_conv_nth)
    have "sorted_wrt (g2ShardCntLess m) gs" using sortSlice_facts(3) [OF assms(1)] by (simp add: gs_def)
    then have "g2ShardCntLess m y x" if "k < i" using that i k by (simp add: sorted_wrt_iff_nth_less)
    then have "\<not> k < i" using that(3) by (auto simp: g2ShardCntLess_def)
    then have "target (length gs) i \<le> target (length gs) k" by (simp add: target_def)
    then show ?thesis using sh(5) [OF i(1)] sh(5) [OF k(1)] i(2) k(2) by simp
  qed
  show ?thesis
  proof (intro exI [of _ sh] conjI allI impI)
    show "count_list sh x \<le> count_list sh y" if "x |\<in>| fmdom m" "y |\<in>| fmdom m" "g2ShardCntLess m x y" for x y
      by (rule ordered [OF that])
    show "card {s. s < NShards \<and> old ! s = x \<and> sh ! s = x} = min (count_list old x) (count_list sh x)" if "x |\<in>| fmdom m" for x
      using sh(6) that g(2) by simp
    show "sh ! s |\<in>| fmdom m" if "s < NShards" for s using sh(2,3) that nth_mem [of s sh] by auto
    show "count_list sh x \<le> count_list sh y + 1" if "x |\<in>| fmdom m" "y |\<in>| fmdom m" for x y
      using share [OF that(1)] share [OF that(2)] by auto
    show "count_list sh x \<in> {NShards div fcard (fmdom m), NShards div fcard (fmdom m) + 1}"
      if "x |\<in>| fmdom m" for x
      using share [OF that] by (auto simp: len)
    show "old ! s = 0 \<or> NShards div fcard (fmdom m) < count_list old (old ! s)"
      if "s < NShards" "sh ! s \<noteq> old ! s" for s
      using low [OF that] by (auto simp: len)
  qed (fact sh(1) sh(2))+
qed

definition ex_loads :: "(int, int) fmap" where
  "ex_loads = fmap_of_list [(1, 7), (2, 3), (3, 0)]"

definition ex_shards :: "int list" where
  "ex_shards = [1, 1, 1, 1, 1, 1, 1, 2, 2, 2]"

lemma ex_balance_pre: "balance_pre ex_loads ex_shards"
  by (simp add: balance_pre_def ex_loads_def ex_shards_def NShards_def cnt_def fmlookup_of_list)

theorem balance_correct_witness:
  "\<exists>sh. balance sorted_list_of_fset ex_loads ex_shards = Some sh \<and> length sh = 10 \<and>
     count_list sh 1 \<le> count_list sh 3 + 1"
proof -
  have "1 |\<in>| fmdom ex_loads" "3 |\<in>| fmdom ex_loads" by (simp_all add: ex_loads_def)
  then show ?thesis
    using balance_correct [OF enumerates_sorted ex_balance_pre] by (auto simp: NShards_def)
qed

text \<open>The assignment is deterministic.  The servers of the controller iterate over their maps in different orders,
  since Go randomises map iteration; the sort on load and group id makes them compute the same
  assignment all the same.\<close>

lemma balance_order_independent:
  assumes "enumerates ord" and "enumerates ord'"
  shows "balance ord m shards = balance ord' m shards"
  by (simp add: balance_def sortSlice_unique [OF assms])

definition even_loads :: "(int, int) fmap" where
  "even_loads = fmap_of_list [(1, 4), (2, 3), (3, 3)]"

definition even_shards :: "int list" where
  "even_shards = [1, 1, 1, 1, 2, 2, 2, 3, 3, 3]"

text \<open>Balancing moves shards needlessly.  A comment on \<^verbatim>\<open>balance\<close> says that the groups at the front of the order,
  those with the most shards, are given the extra shards so that little moves; the code gives them to
  the groups at the end.  So an assignment that is balanced already, with loads 4, 3 and 3, is changed:
  the group with four shards loses one to a group with three.\<close>

lemma balance_needless_move:
  "balance_pre even_loads even_shards \<and>
   [count_list even_shards 1, count_list even_shards 2, count_list even_shards 3] = [4, 3, 3] \<and>
   balance sorted_list_of_fset even_loads even_shards = Some [2, 1, 1, 1, 2, 2, 2, 3, 3, 3]"
proof -
  have "balance_pre even_loads even_shards"
    by (simp add: balance_pre_def even_loads_def even_shards_def NShards_def cnt_def fmlookup_of_list)
  moreover have "[count_list even_shards 1, count_list even_shards 2, count_list even_shards 3] = [4, 3, 3]"
    by code_simp
  moreover have "balance sorted_list_of_fset even_loads even_shards = Some [2, 1, 1, 1, 2, 2, 2, 3, 3, 3]"
    by code_simp
  ultimately show ?thesis by blast
qed

end
