(* ===== verification/ShardCtrler_Props.thy ===== *)
theory ShardCtrler_Props
  imports Shard_Balance Service
begin

section \<open>Correctness of the shard controller\<close>

text \<open>
  The sequence of configurations is append-only and numbered from 0, every configuration is well
  formed, and \<^verbatim>\<open>Join\<close> and \<^verbatim>\<open>Leave\<close> leave the shards balanced over the groups.  The command function is
  interpreted as a \<open>dedup_service\<close>.
\<close>

subsection \<open>Configurations\<close>

definition wf_config :: "Config \<Rightarrow> bool" where
  "wf_config cfg \<longleftrightarrow> length (Shards cfg) = NShards \<and> 0 |\<notin>| fmdom (Groups cfg) \<and>
     (if fmdom (Groups cfg) = {||} then set (Shards cfg) = {0}
      else set (Shards cfg) \<subseteq> fset (fmdom (Groups cfg)))"

definition balanced :: "Config \<Rightarrow> bool" where
  "balanced cfg \<longleftrightarrow> (\<forall>g |\<in>| fmdom (Groups cfg). \<forall>h |\<in>| fmdom (Groups cfg).
     count_list (Shards cfg) g \<le> count_list (Shards cfg) h + 1)"

definition configs_ok :: "Config list \<Rightarrow> bool" where
  "configs_ok cfgs \<longleftrightarrow> cfgs \<noteq> [] \<and> (\<forall>i < length cfgs. Num (cfgs ! i) = int i \<and> wf_config (cfgs ! i))"

lemma clone_id [simp]: "clone cfg = cfg"
  by (cases cfg) (simp add: clone_def fmap.map_ident)

lemma last_config: "cfgs \<noteq> [] \<Longrightarrow> idx cfgs (int (length cfgs) - 1) = Some (last cfgs)"
  by (cases cfgs rule: rev_cases) (simp_all add: nth_append)

lemma cnt_countShards: "cnt (countShards shards m) g = (if g = 0 then cnt m 0 else cnt m g + int (count_list shards g))"
proof (induction shards arbitrary: m)
  case (Cons x xs)
  then show ?case by (simp add: countShards_def incr_def)
qed (simp add: countShards_def)

lemma fmdom_countShards:
  "fset (fmdom (countShards shards m)) = fset (fmdom m) \<union> (set shards - {0})"
proof (induction shards arbitrary: m)
  case (Cons x xs)
  then show ?case by (auto simp: countShards_def incr_def)
qed (simp add: countShards_def)

lemma cnt_zeros [simp]: "cnt (fmmap (\<lambda>_. 0) groups) g = 0"
  by (simp add: cnt_def split: option.splits)

lemma fmdom_zeros: "fmdom (fmmap f groups) = fmdom groups"
  by simp

text \<open>The common tail: from true loads to a well-formed, balanced configuration.\<close>

lemma rebalanced_ok:
  assumes "enumerates ord" and "fmdom m = fmdom groups" and "0 |\<notin>| fmdom groups"
    and "length shards = NShards" and "set shards \<subseteq> insert 0 (fset (fmdom groups))"
    and "\<And>g. g |\<in>| fmdom groups \<Longrightarrow> cnt m g = int (count_list shards g)"
  shows "\<exists>cfg. rebalanced ord num groups m shards = Some cfg \<and> Num cfg = num \<and> Groups cfg = groups \<and>
    wf_config cfg \<and> balanced cfg"
proof (cases "fmdom groups = {||}")
  case True
  then show ?thesis
    using assms(2) by (simp add: rebalanced_def wf_config_def balanced_def NShards_def)
next
  case False
  have pre: "balance_pre m shards" using assms(2-6) False by (simp add: balance_pre_def)
  from balance_result [OF assms(1) pre refl] obtain sh where sh: "balance ord m shards = Some sh"
    "length sh = NShards" "set sh \<subseteq> fset (fmdom m)"
    "\<forall>i < length (g2ShardCntSortSlice ord m). int (count_list sh (g2ShardCntSortSlice ord m ! i)) =
      target (length (g2ShardCntSortSlice ord m)) i" by blast
  let ?gs = "g2ShardCntSortSlice ord m"
  have "int (count_list sh x) \<in> {int NShards div int (length ?gs), int NShards div int (length ?gs) + 1}"
    if "x |\<in>| fmdom groups" for x
  proof -
    have "x \<in> set ?gs" using that assms(2) sortSlice_facts(2) [OF assms(1), of m] by simp
    then obtain i where "i < length ?gs" "x = ?gs ! i" by (auto simp: in_set_conv_nth)
    with sh(4) target_bounds [of "length ?gs" i] show ?thesis by simp
  qed
  note share = this
  have "count_list sh x \<le> count_list sh y + 1" if "x |\<in>| fmdom groups" "y |\<in>| fmdom groups" for x y
    using share [OF that(1)] share [OF that(2)] by auto
  then show ?thesis
    using sh assms(2,3) False by (simp add: rebalanced_def wf_config_def balanced_def)
qed

lemma configs_ok_snoc:
  assumes "configs_ok cfgs" and "Num cfg = int (length cfgs)" and "wf_config cfg"
  shows "configs_ok (cfgs @ [cfg])"
  using assms by (auto simp: configs_ok_def nth_append less_Suc_eq)

lemma configs_ok_last:
  assumes "configs_ok cfgs"
  shows "wf_config (last cfgs)" "Num (last cfgs) = int (length cfgs) - 1" "cfgs \<noteq> []"
  using assms by (auto simp: configs_ok_def last_conv_nth of_nat_diff Suc_le_eq)

subsection \<open>Join, Leave and Move\<close>

lemma handleJoin_ok:
  assumes "enumerates ord" and "configs_ok cfgs" and "0 |\<notin>| fmdom (ja_Servers args)"
  shows "\<exists>cfg. handleJoin ord args cfgs = Some (cfgs @ [cfg]) \<and> Num cfg = int (length cfgs) \<and>
    Groups cfg = Groups (last cfgs) ++\<^sub>f ja_Servers args \<and> wf_config cfg \<and> balanced cfg"
proof -
  let ?old = "last cfgs" and ?gr = "Groups (last cfgs) ++\<^sub>f ja_Servers args"
  let ?m = "countShards (Shards ?old) (fmmap (\<lambda>_. 0) ?gr)"
  note L = configs_ok_last [OF assms(2)]
  have sub: "set (Shards ?old) \<subseteq> insert 0 (fset (fmdom ?gr))"
    using L(1) by (auto simp: wf_config_def split: if_splits)
  have dom: "fmdom ?m = fmdom ?gr"
    using sub by (auto simp: fset_eq_iff fmdom_countShards simp flip: fset_inject)
  have zero: "0 |\<notin>| fmdom ?gr" using L(1) assms(3) by (simp add: wf_config_def)
  have cnts: "cnt ?m g = int (count_list (Shards ?old) g)" if "g |\<in>| fmdom ?gr" for g
    using that zero by (simp only: cnt_countShards cnt_zeros) auto
  have "length (Shards ?old) = NShards" using L(1) by (simp add: wf_config_def)
  from rebalanced_ok [OF assms(1) dom zero this sub cnts, of "int (length cfgs)"]
  obtain cfg where "rebalanced ord (int (length cfgs)) ?gr ?m (Shards ?old) = Some cfg"
    "Num cfg = int (length cfgs)" "Groups cfg = ?gr" "wf_config cfg" "balanced cfg" by blast
  then show ?thesis using last_config [OF L(3)] by (simp add: handleJoin_def)
qed

lemma fmlookup_fold_fmdrop: "fmlookup (fold fmdrop gids m) g = (if g \<in> set gids then None else fmlookup m g)"
  by (induction gids arbitrary: m) auto

lemma fmdom_fold_fmdrop: "fset (fmdom (fold fmdrop gids m)) = fset (fmdom m) - set gids"
  by (auto simp: fmlookup_fold_fmdrop fmlookup_dom_iff split: if_splits)

lemma count_list_deleted:
  "g \<noteq> 0 \<Longrightarrow> count_list (map (\<lambda>x. if x \<noteq> 0 \<and> P x then 0 else x) xs) g =
     (if P g then 0 else count_list xs g)"
  by (induction xs) auto

lemma count_list_filter_not: "\<not> P g \<Longrightarrow> count_list (filter (\<lambda>x. \<not> P x) xs) g = count_list xs g"
  by (induction xs) auto

lemma handleLeave_ok:
  assumes "enumerates ord" and "configs_ok cfgs"
  shows "\<exists>cfg. handleLeave ord args cfgs = Some (cfgs @ [cfg]) \<and> Num cfg = int (length cfgs) \<and>
    Groups cfg = fold fmdrop (la_GIDs args) (Groups (last cfgs)) \<and> wf_config cfg \<and> balanced cfg"
proof -
  let ?old = "last cfgs" and ?D = "set (la_GIDs args)"
  let ?gr = "fold fmdrop (la_GIDs args) (Groups ?old)"
  let ?sh = "map (\<lambda>gid. if gid \<noteq> 0 \<and> gid \<in> ?D then 0 else gid) (Shards ?old)"
  let ?m = "countShards (filter (\<lambda>gid. gid \<notin> ?D) (Shards ?old))
    (fmmap (\<lambda>_. 0) (fmfilter (\<lambda>gid. gid \<notin> ?D) ?gr))"
  note L = configs_ok_last [OF assms(2)]
  have sub: "set (Shards ?old) \<subseteq> insert 0 (fset (fmdom (Groups ?old)))"
    using L(1) by (auto simp: wf_config_def split: if_splits)
  then have sub': "set ?sh \<subseteq> insert 0 (fset (fmdom ?gr))"
    by (auto simp: fmdom_fold_fmdrop)
  have "fset (fmdom (fmfilter (\<lambda>gid. gid \<notin> ?D) ?gr)) = fset (fmdom ?gr)"
    by (auto simp: fmdom_fold_fmdrop)
  then have dom: "fmdom ?m = fmdom ?gr"
    using sub by (auto simp: fset_eq_iff fmdom_countShards fmdom_fold_fmdrop simp flip: fset_inject)
  have zero: "0 |\<notin>| fmdom ?gr" using L(1) by (simp add: wf_config_def fmdom_fold_fmdrop)
  have cnts: "cnt ?m g = int (count_list ?sh g)" if "g |\<in>| fmdom ?gr" for g
  proof -
    have "g \<notin> ?D" "g \<noteq> 0" using that zero by (auto simp: fmdom_fold_fmdrop)
    then show ?thesis
      using count_list_deleted [of g "\<lambda>x. x \<in> ?D"] count_list_filter_not [of "\<lambda>x. x \<in> ?D" g]
      by (simp add: cnt_countShards)
  qed
  have "length ?sh = NShards" using L(1) by (simp add: wf_config_def)
  from rebalanced_ok [OF assms(1) dom zero this sub' cnts, of "int (length cfgs)"]
  obtain cfg where "rebalanced ord (int (length cfgs)) ?gr ?m ?sh = Some cfg"
    "Num cfg = int (length cfgs)" "Groups cfg = ?gr" "wf_config cfg" "balanced cfg" by blast
  then show ?thesis using last_config [OF L(3)] by (simp add: handleLeave_def Let_def)
qed

lemma handleMove_ok:
  assumes "configs_ok cfgs" and "0 \<le> ma_Shard args" and "ma_Shard args < int NShards"
    and "ma_GID args |\<in>| fmdom (Groups (last cfgs))"
  shows "\<exists>cfg. handleMove args cfgs = Some (cfgs @ [cfg]) \<and> Num cfg = int (length cfgs) \<and>
    Groups cfg = Groups (last cfgs) \<and> wf_config cfg \<and>
    Shards cfg = (Shards (last cfgs))[nat (ma_Shard args) := ma_GID args]"
proof -
  note L = configs_ok_last [OF assms(1)]
  let ?sh = "(Shards (last cfgs))[nat (ma_Shard args) := ma_GID args]"
  have len: "length (Shards (last cfgs)) = NShards" using L(1) by (simp add: wf_config_def)
  have "fmdom (Groups (last cfgs)) \<noteq> {||}" using assms(4) by auto
  then have "wf_config ((last cfgs)\<lparr>Num := Num (last cfgs) + 1, Shards := ?sh\<rparr>)"
    using L(1) assms(4) set_update_subset_insert [of "Shards (last cfgs)" "nat (ma_Shard args)" "ma_GID args"]
    by (auto simp: wf_config_def)
  then show ?thesis
    using assms(2,3) len L last_config [OF L(3)] by (simp add: handleMove_def)
qed

text \<open>The operations the handlers build, with a group id that is not 0 and a shard and group that exist.\<close>

definition legal_op :: "Config list \<Rightarrow> ScOp \<Rightarrow> bool" where
  "legal_op cfgs op \<longleftrightarrow> (case sc_Args op of
     JoinA a \<Rightarrow> sc_Type op = JOIN \<and> 0 |\<notin>| fmdom (ja_Servers a)
   | LeaveA a \<Rightarrow> sc_Type op = LEAVE
   | MoveA a \<Rightarrow> sc_Type op = MOVE \<and> 0 \<le> ma_Shard a \<and> ma_Shard a < int NShards \<and>
       ma_GID a |\<in>| fmdom (Groups (last cfgs))
   | QueryA a \<Rightarrow> sc_Type op = QUERY)"

lemmas op_types = JOIN_def LEAVE_def MOVE_def QUERY_def

text \<open>C25: the configurations.  Every legal command is executed without a panic; it appends at most one
  configuration and changes no earlier one; the configurations are numbered 0, 1, 2 and so on, each
  assigns all the shards to its groups (or to group 0 when there are none); a \<^verbatim>\<open>Join\<close> adds the given
  groups, a \<^verbatim>\<open>Leave\<close> removes the given groups, and after both the loads of the groups differ by at most one.\<close>

theorem controller_commands:
  assumes "enumerates ord" and "configs_ok cfgs" and "legal_op cfgs op"
  shows "\<exists>cfgs'. effectSc ord op cfgs = Some cfgs' \<and> configs_ok cfgs' \<and> prefix cfgs cfgs' \<and>
    (case sc_Args op of
       JoinA a \<Rightarrow> length cfgs' = length cfgs + 1 \<and> balanced (last cfgs') \<and>
         Groups (last cfgs') = Groups (last cfgs) ++\<^sub>f ja_Servers a
     | LeaveA a \<Rightarrow> length cfgs' = length cfgs + 1 \<and> balanced (last cfgs') \<and>
         fset (fmdom (Groups (last cfgs'))) = fset (fmdom (Groups (last cfgs))) - set (la_GIDs a)
     | MoveA a \<Rightarrow> length cfgs' = length cfgs + 1 \<and> Groups (last cfgs') = Groups (last cfgs) \<and>
         Shards (last cfgs') = (Shards (last cfgs))[nat (ma_Shard a) := ma_GID a]
     | QueryA a \<Rightarrow> cfgs' = cfgs)"
proof (cases "sc_Args op")
  case (JoinA a)
  with assms(3) handleJoin_ok [OF assms(1,2), of a] configs_ok_snoc [OF assms(2)] show ?thesis
    by (auto simp: legal_op_def effectSc_def op_types)
next
  case (LeaveA a)
  with assms(3) handleLeave_ok [OF assms(1,2), of a] configs_ok_snoc [OF assms(2)] show ?thesis
    by (auto simp: legal_op_def effectSc_def op_types fmdom_fold_fmdrop)
next
  case (MoveA a)
  with assms(3) handleMove_ok [OF assms(2), of a] configs_ok_snoc [OF assms(2)] show ?thesis
    by (auto simp: legal_op_def effectSc_def op_types)
next
  case (QueryA a)
  with assms show ?thesis by (simp add: legal_op_def effectSc_def op_types)
qed

lemma configs_ok_initial: "configs_ok [emptyConfig]"
  by (simp add: configs_ok_def emptyConfig_def wf_config_def NShards_def)

definition ex_join :: ScOp where
  "ex_join = \<lparr>sc_Type = JOIN, sc_Args = JoinA \<lparr>ja_Servers = fmap_of_list [(1, [''a'']), (2, [''b''])],
     ja_ClientId = 5, ja_SequenceId = 0\<rparr>, sc_ClientId = 5, sc_SequenceId = 0\<rparr>"

theorem controller_commands_witness:
  "\<exists>cfgs. effectSc sorted_list_of_fset ex_join [emptyConfig] = Some cfgs \<and> length cfgs = 2 \<and>
     balanced (last cfgs)"
proof -
  have "legal_op [emptyConfig] ex_join" by (simp add: legal_op_def ex_join_def)
  from controller_commands [OF enumerates_sorted configs_ok_initial this] show ?thesis
    by (auto simp: ex_join_def)
qed

subsection \<open>Query\<close>

lemma find_num:
  assumes "configs_ok cfgs" and "0 \<le> num" and "num < int (length cfgs)"
  shows "find (\<lambda>cfg. Num cfg = num) cfgs = Some (cfgs ! nat num)"
  unfolding find_Some_iff
  using assms by (intro exI [of _ "nat num"]) (auto simp: configs_ok_def)

lemma find_num_none: "configs_ok cfgs \<Longrightarrow> num < 0 \<Longrightarrow> find (\<lambda>cfg. Num cfg = num) cfgs = None"
  by (auto simp: find_None_iff configs_ok_def in_set_conv_nth)

text \<open>What \<^verbatim>\<open>Query\<close> answers.  For -1, or a number beyond the latest, the latest configuration; for the number
  of an existing configuration, that configuration; the call never panics.  A number below -1 is
  answered as if the server were not the leader, so a clerk that asks for it repeats its call for ever.\<close>

lemma query_answers:
  assumes "configs_ok cfgs"
  shows "\<exists>r. queryConfig cfgs num = Some r \<and> scr_WrongLeader r = (num < -1) \<and>
    (num = -1 \<or> num \<ge> int (length cfgs) - 1 \<longrightarrow> qr_Config r = last cfgs) \<and>
    (0 \<le> num \<and> num < int (length cfgs) \<longrightarrow> qr_Config r = cfgs ! nat num \<and> Num (qr_Config r) = num)"
proof -
  note L = configs_ok_last [OF assms]
  have nth: "cfgs ! nat num = last cfgs" if "int (length cfgs) - 1 \<le> num" "num < int (length cfgs)"
  proof -
    have "nat num = length cfgs - 1" using that by linarith
    then show ?thesis using L(3) by (simp add: last_conv_nth)
  qed
  have nums: "Num (cfgs ! nat num) = num" if "0 \<le> num" "num < int (length cfgs)"
    using assms that by (auto simp: configs_ok_def)
  consider "num = -1 \<or> num > int (length cfgs) - 1" | "0 \<le> num" "num < int (length cfgs)" | "num < -1"
    by linarith
  then show ?thesis
  proof cases
    case 1
    then show ?thesis using last_config [OF L(3)] L(2,3) by (auto simp: queryConfig_def)
  next
    case 2
    then show ?thesis
      using last_config [OF L(3)] L(2) find_num [OF assms 2] nth nums by (auto simp: queryConfig_def)
  next
    case 3
    then show ?thesis
      using last_config [OF L(3)] L(2,3) find_num_none [OF assms, of num]
      by (cases cfgs) (auto simp: queryConfig_def)
  qed
qed

text \<open>A \<^verbatim>\<open>Move\<close> of a shard that does not exist stops the controller.  The guard of \<^verbatim>\<open>handleMove\<close> asks whether the
  shard is at least \<^verbatim>\<open>NShards\<close> and negative, which no number is; the assignment after it then indexes the
  array out of range on every server that applies the command.\<close>

lemma move_out_of_range_panics:
  assumes "configs_ok cfgs" and "ma_Shard a < 0 \<or> int NShards \<le> ma_Shard a"
    and "sc_Type op = MOVE" and "sc_Args op = MoveA a"
  shows "effectSc ord op cfgs = None"
proof -
  note L = configs_ok_last [OF assms(1)]
  have "set_idx (Shards (last cfgs)) (ma_Shard a) (ma_GID a) = None"
    using assms(2) L(1) by (auto simp: set_idx_def wf_config_def)
  then have "handleMove a cfgs = None"
    using last_config [OF L(3)] by (simp add: handleMove_def NShards_def Let_def)
  then show ?thesis using assms(3,4) by (simp add: effectSc_def op_types)
qed

subsection \<open>Replicas and repeated commands\<close>

text \<open>The command function with a panic as an absorbing state.\<close>

definition stepSc ::
  "(int fset \<Rightarrow> int list) \<Rightarrow> ScOp \<Rightarrow> (int \<rightharpoonup> int) \<times> Config list option \<Rightarrow>
   (int \<rightharpoonup> int) \<times> Config list option" where
  "stepSc ord op = (\<lambda>(dup, d).
     if case dup (sc_ClientId op) of
          None \<Rightarrow> False | Some preSequenceId \<Rightarrow> preSequenceId = sc_SequenceId op
     then (dup, d)
     else (dup(sc_ClientId op \<mapsto> sc_SequenceId op), Option.bind d (effectSc ord op)))"

interpretation sc_once: dedup_service "stepSc ord" sc_ClientId sc_SequenceId
  "\<lambda>op d. Option.bind d (effectSc ord op)" for ord
  by unfold_locales (simp_all add: stepSc_def)

lemma applySc_step:
  "applySc ord op (dup, cfgs) = Some (dup', cfgs') \<Longrightarrow> stepSc ord op (dup, Some cfgs) = (dup', Some cfgs')"
  by (auto simp: applySc_def stepSc_def bind_convs split: if_splits)

lemma applySc_run:
  "for_loop ops (applySc ord) (dup, cfgs) = Some (dup', cfgs') \<Longrightarrow>
   fold (stepSc ord) ops (dup, Some cfgs) = (dup', Some cfgs')"
proof (induction ops arbitrary: dup cfgs)
  case (Cons op ops)
  then obtain d c where "applySc ord op (dup, cfgs) = Some (d, c)" by (auto split: option.splits)
  with Cons show ?case using applySc_step [of ord op dup cfgs d c] by simp
qed simp

text \<open>C26: exactly once, and the same on every server.  Two servers that apply the same log, each with its own order of
  map iteration, hold the same configurations.  If the sequence numbers of each client do not go down in the log, these are the
  configurations that the distinct commands produce, each executed once, however often it is repeated in the log.  (A repetition
  that comes after a later command of its client is executed again: the code only compares with the last number.)\<close>

theorem controller_replicas:
  assumes "enumerates ord" and "enumerates ord'"
    and "for_loop ops (applySc ord) (Map.empty, [emptyConfig]) = Some (dup, cfgs)"
  shows "for_loop ops (applySc ord') (Map.empty, [emptyConfig]) = Some (dup, cfgs) \<and>
    (in_order sc_ClientId sc_SequenceId ops \<longrightarrow>
      fold (\<lambda>op d. Option.bind d (effectSc ord' op)) (firsts sc_ClientId sc_SequenceId [] ops) (Some [emptyConfig]) =
      Some cfgs)"
proof -
  have "balance ord = balance ord'"
    by (intro ext balance_order_independent [OF assms(1,2)])
  then have "rebalanced ord = rebalanced ord'" by (intro ext) (simp add: rebalanced_def)
  then have "handleJoin ord = handleJoin ord'" "handleLeave ord = handleLeave ord'"
    by (intro ext, simp add: handleJoin_def handleLeave_def)+
  then have eff: "effectSc ord = effectSc ord'"
    by (intro ext) (simp add: effectSc_def split: OpArgs.splits)
  then have ap: "applySc ord = applySc ord'" by (simp only: applySc_def [abs_def])
  have "snd (fold (stepSc ord) ops (Map.empty, Some [emptyConfig])) = Some cfgs"
    using applySc_run [OF assms(3)] by simp
  then show ?thesis
    using sc_once.once_in_order [of ops ord "Some [emptyConfig]"] assms(3) by (simp add: ap eff)
qed

theorem controller_replicas_witness:
  "\<exists>dup cfgs. for_loop [ex_join, ex_join] (applySc (rev \<circ> sorted_list_of_fset)) (Map.empty, [emptyConfig]) =
     Some (dup, cfgs) \<and> length cfgs = 2 \<and>
     fold (\<lambda>op d. Option.bind d (effectSc (rev \<circ> sorted_list_of_fset) op))
       (firsts sc_ClientId sc_SequenceId [] [ex_join, ex_join]) (Some [emptyConfig]) = Some cfgs"
proof -
  let ?r = "for_loop [ex_join, ex_join] (applySc sorted_list_of_fset) (Map.empty, [emptyConfig])"
  have some: "\<not> Option.is_none ?r" by code_simp
  then obtain dup cfgs where r: "?r = Some (dup, cfgs)" by (cases ?r) auto
  have e: "enumerates (rev \<circ> sorted_list_of_fset)"
    using enumerates_sorted by (simp add: enumerates_def)
  have io: "in_order sc_ClientId sc_SequenceId [ex_join, ex_join]"
    by (simp add: in_order_def)
  have "length (snd (the ?r)) = 2" by code_simp
  then have "length cfgs = 2" using r by simp
  with controller_replicas [OF enumerates_sorted e r] io show ?thesis by blast
qed

end
