(* ===== verification/ShardKV.thy ===== *)
theory ShardKV
  imports ShardCtrler
begin

section \<open>The sharded key/value service (\<^verbatim>\<open>shardkv\<close>)\<close>

text \<open>
  The server of \<^verbatim>\<open>shardkv/server.go\<close>, the messages of \<^verbatim>\<open>shardkv/common.go\<close> and the clerk of
  \<^verbatim>\<open>shardkv/client.go\<close>.  A server belongs to a replica group \<^verbatim>\<open>gid\<close>, follows the configurations of the
  shard controller one by one, holds the shards that the current configuration gives to its group,
  and hands shards over to other groups.  As in \<^verbatim>\<open>kvraft\<close>, each critical section is one function.

  A shard's data is an option: \<^const>\<open>None\<close> is the nil map, which says that the shard is not here.
\<close>

subsection \<open>Data\<close>

definition skOK :: string where "skOK = ''OK''"
definition skErrNoKey :: string where "skErrNoKey = ''ErrNoKey''"
definition ErrWrongGroup :: string where "ErrWrongGroup = ''ErrWrongGroup''"
definition ErrWrongLeader :: string where "ErrWrongLeader = ''ErrWrongLeader''"
definition ShardNotArrived :: string where "ShardNotArrived = ''ShardNotArrived''"
definition ConfigNotArrived :: string where "ConfigNotArrived = ''ConfigNotArrived''"
definition ErrInconsistentData :: string where "ErrInconsistentData = ''ErrInconsistentData''"
definition ErrOverTime :: string where "ErrOverTime = ''ErrOverTime''"

definition skPut :: string where "skPut = ''Put''"
definition skAppend :: string where "skAppend = ''Append''"
definition skGet :: string where "skGet = ''Get''"
definition UpgradeConfig :: string where "UpgradeConfig = ''UpgradeConfig''"
definition AddShardOp :: string where "AddShardOp = ''AddShard''"
definition RemoveShardOp :: string where "RemoveShardOp = ''RemoveShard''"

record Shard =
  sh_Data :: "(string \<rightharpoonup> string) option"
  sh_ConfigNum :: int

record SkOp =
  so_ClientId :: int
  so_SequenceId :: int
  so_OpType :: string
  so_Key :: string
  so_Value :: string
  so_UpgradeCfg :: Config
  so_ShardId :: int
  so_Shard :: Shard
  so_Duptable :: "int \<rightharpoonup> int"

record OpReply =
  or_ClientId :: int
  or_SequenceId :: int
  or_Err :: string

record SkSnapshot =
  sks_Shards :: "Shard list"
  sks_Duptable :: "int \<rightharpoonup> int"
  sks_MaxRaftState :: int
  sks_Cfg :: Config
  sks_LastCfg :: Config

record SendShardArg =
  ssa_Duptable :: "int \<rightharpoonup> int"
  ssa_ShardId :: int
  ssa_Shard :: Shard
  ssa_ClientId :: int
  ssa_CfgNum :: int

record SkPutAppendArgs =
  spa_Key :: string
  spa_Value :: string
  spa_Op :: string
  spa_ClientId :: int
  spa_SequenceId :: int

record SkGetArgs =
  sga_Key :: string
  sga_ClientId :: int
  sga_SequenceId :: int

record SkGetReply =
  sgr_Err :: string
  sgr_Value :: string

record ShardKV =
  sk_me :: int
  sk_rf :: "(SkOp, SkSnapshot) Raft"
  sk_gid :: int
  sk_maxRaftState :: int
  sk_dead :: int
  sk_cfg :: Config
  sk_lastCfg :: Config
  sk_shards :: "Shard list"
  sk_wakeClient :: "int \<rightharpoonup> nat"
  sk_duptable :: "int \<rightharpoonup> int"
  sk_chans :: "OpReply chans"

text \<open>An operation with only the fields of every kind set; the others have their zero values.\<close>

definition blankOp :: SkOp where
  "blankOp = \<lparr>so_ClientId = 0, so_SequenceId = 0, so_OpType = [], so_Key = [], so_Value = [],
     so_UpgradeCfg = emptyConfig, so_ShardId = 0, so_Shard = \<lparr>sh_Data = None, sh_ConfigNum = 0\<rparr>,
     so_Duptable = Map.empty\<rparr>"

subsection \<open>Keys, shards, duplicates\<close>

definition key2shard :: "string \<Rightarrow> int" where
  "key2shard key = (case key of [] \<Rightarrow> 0 | c # cs \<Rightarrow> int (of_char c)) mod int NShards"

definition isDuplicated :: "(int \<rightharpoonup> int) \<Rightarrow> int \<Rightarrow> int \<Rightarrow> bool" where
  "isDuplicated dup clientId seqId =
     (case dup clientId of None \<Rightarrow> False | Some lastSeqId \<Rightarrow> seqId \<le> lastSeqId)"

definition cloneShard :: "int \<Rightarrow> (string \<rightharpoonup> string) option \<Rightarrow> Shard" where
  "cloneShard configNum data = \<lparr>sh_Data = Some (case data of None \<Rightarrow> Map.empty | Some d \<Rightarrow> d),
     sh_ConfigNum = configNum\<rparr>"

subsection \<open>Executing an operation\<close>

text \<open>The switch on Put, Append and Get.\<close>

definition dataEffect :: "SkOp \<Rightarrow> (string \<rightharpoonup> string) \<Rightarrow> (string \<rightharpoonup> string)" where
  "dataEffect op d =
     (if so_OpType op = skPut then d(so_Key op \<mapsto> so_Value op)
      else if so_OpType op = skAppend then d(so_Key op \<mapsto> map_get d [] (so_Key op) @ so_Value op)
      else d)"

text \<open>The branch for a shard that is here: the duplicate check and the switch.\<close>

definition dataStep ::
  "SkOp \<Rightarrow> (int \<rightharpoonup> int) \<times> (string \<rightharpoonup> string) \<Rightarrow> (int \<rightharpoonup> int) \<times> (string \<rightharpoonup> string)" where
  "dataStep op = (\<lambda>(dup, d).
     if isDuplicated dup (so_ClientId op) (so_SequenceId op) then (dup, d)
     else (dup(so_ClientId op \<mapsto> so_SequenceId op), dataEffect op d))"

definition applyData :: "ShardKV \<Rightarrow> SkOp \<Rightarrow> (ShardKV \<times> string) option" where
  "applyData kv op = do {
     let shardId = key2shard (so_Key op);
     owner \<leftarrow> idx (Shards (sk_cfg kv)) shardId;
     if owner \<noteq> sk_gid kv then Some (kv, ErrWrongGroup)
     else do {
       sh \<leftarrow> idx (sk_shards kv) shardId;
       (case sh_Data sh of
          None \<Rightarrow> Some (kv, ShardNotArrived)
        | Some d \<Rightarrow> do {
            let (dup, d') = dataStep op (sk_duptable kv, d);
            shards \<leftarrow> set_idx (sk_shards kv) shardId (sh\<lparr>sh_Data := Some d'\<rparr>);
            Some (kv\<lparr>sk_duptable := dup, sk_shards := shards\<rparr>, skOK)
          })
     }
   }"

text \<open>The loop of \<^verbatim>\<open>upgradeConfig\<close>: shards that were assigned to nobody start empty.\<close>

definition upgradeConfig :: "ShardKV \<Rightarrow> SkOp \<Rightarrow> ShardKV option" where
  "upgradeConfig kv op =
     (if Num (sk_cfg kv) \<ge> Num (so_UpgradeCfg op) then Some kv
      else do {
        shards \<leftarrow> for_loop (enumerate 0 (Shards (so_UpgradeCfg op)))
          (\<lambda>(shard, gid) shs. do {
             old \<leftarrow> (if gid = sk_gid kv then idx (Shards (sk_cfg kv)) (int shard) else Some 1);
             if gid = sk_gid kv \<and> old = 0
             then set_idx shs (int shard) \<lparr>sh_Data = Some Map.empty, sh_ConfigNum = Num (so_UpgradeCfg op)\<rparr>
             else Some shs
           }) (sk_shards kv);
        Some (kv\<lparr>sk_shards := shards, sk_lastCfg := sk_cfg kv, sk_cfg := so_UpgradeCfg op\<rparr>)
      })"

text \<open>The merge of the duplicate tables keeps the greater number of each client.\<close>

definition mergeDup :: "(int \<rightharpoonup> int) \<Rightarrow> (int \<rightharpoonup> int) \<Rightarrow> (int \<rightharpoonup> int)" where
  "mergeDup mine theirs = (\<lambda>c. case theirs c of
     None \<Rightarrow> mine c
   | Some s \<Rightarrow> (case mine c of None \<Rightarrow> Some s | Some r \<Rightarrow> if r < s then Some s else Some r))"

definition addShard :: "ShardKV \<Rightarrow> SkOp \<Rightarrow> ShardKV option" where
  "addShard kv op = do {
     sh \<leftarrow> idx (sk_shards kv) (so_ShardId op);
     if sh_Data sh \<noteq> None \<or> sh_ConfigNum (so_Shard op) < Num (sk_cfg kv) then Some kv
     else do {
       shards \<leftarrow> set_idx (sk_shards kv) (so_ShardId op)
         (cloneShard (sh_ConfigNum (so_Shard op)) (sh_Data (so_Shard op)));
       Some (kv\<lparr>sk_shards := shards, sk_duptable := mergeDup (sk_duptable kv) (so_Duptable op)\<rparr>)
     }
   }"

definition removeShard :: "ShardKV \<Rightarrow> SkOp \<Rightarrow> ShardKV option" where
  "removeShard kv op =
     (if so_SequenceId op < Num (sk_cfg kv) then Some kv
      else do {
        shards \<leftarrow> set_idx (sk_shards kv) (so_ShardId op)
          \<lparr>sh_Data = None, sh_ConfigNum = so_SequenceId op\<rparr>;
        Some (kv\<lparr>sk_shards := shards\<rparr>)
      })"

text \<open>The command branch of the apply loop; \<^const>\<open>None\<close> is a panic or \<^verbatim>\<open>log.Fatalf\<close>.\<close>

definition applyCmd :: "ShardKV \<Rightarrow> SkOp \<Rightarrow> (ShardKV \<times> string) option" where
  "applyCmd kv op =
     (if so_OpType op = skPut \<or> so_OpType op = skGet \<or> so_OpType op = skAppend then applyData kv op
      else if so_OpType op = UpgradeConfig then map_option (\<lambda>kv'. (kv', skOK)) (upgradeConfig kv op)
      else if so_OpType op = AddShardOp then
        (if Num (sk_cfg kv) < so_SequenceId op then Some (kv, ConfigNotArrived)
         else map_option (\<lambda>kv'. (kv', skOK)) (addShard kv op))
      else if so_OpType op = RemoveShardOp then map_option (\<lambda>kv'. (kv', skOK)) (removeShard kv op)
      else None)"

subsection \<open>Snapshots and the apply loop\<close>

definition encodeSnapShot :: "ShardKV \<Rightarrow> SkSnapshot" where
  "encodeSnapShot kv = \<lparr>sks_Shards = sk_shards kv, sks_Duptable = sk_duptable kv,
     sks_MaxRaftState = sk_maxRaftState kv, sks_Cfg = sk_cfg kv, sks_LastCfg = sk_lastCfg kv\<rparr>"

definition decodeSnapShot :: "ShardKV \<Rightarrow> SkSnapshot option \<Rightarrow> ShardKV" where
  "decodeSnapShot kv snap = (case snap of
     None \<Rightarrow> kv
   | Some st \<Rightarrow> kv\<lparr>sk_shards := sks_Shards st, sk_duptable := sks_Duptable st,
       sk_maxRaftState := sks_MaxRaftState st, sk_cfg := sks_Cfg st, sk_lastCfg := sks_LastCfg st\<rparr>)"

definition skWaitCh :: "ShardKV \<Rightarrow> int \<Rightarrow> ShardKV \<times> nat" where
  "skWaitCh kv index = (case sk_wakeClient kv index of
     Some c \<Rightarrow> (kv, c)
   | None \<Rightarrow> let (c, h) = make_chan 1 NoReceiver (sk_chans kv) in
       (kv\<lparr>sk_wakeClient := (sk_wakeClient kv)(index \<mapsto> c), sk_chans := h\<rparr>, c))"

definition skClean :: "ShardKV \<Rightarrow> int \<Rightarrow> ShardKV" where
  "skClean kv index = kv\<lparr>sk_wakeClient := (sk_wakeClient kv)(index := None)\<rparr>"

definition skApplyBegin ::
  "(SkOp PersistentStatus \<Rightarrow> nat) \<Rightarrow> ShardKV \<Rightarrow> (SkOp, SkSnapshot) ApplyMsg \<Rightarrow>
   (ShardKV \<times> (nat \<times> OpReply) option) option" where
  "skApplyBegin size_of kv msg =
     (if CommandValid msg then do {
        op \<leftarrow> am_Command msg;
        (kv1, err) \<leftarrow> applyCmd kv op;
        kv2 \<leftarrow> (if sk_maxRaftState kv1 \<noteq> -1 \<and>
                   int (RaftStateSize_of size_of (sk_rf kv1)) > sk_maxRaftState kv1
                then map_option (\<lambda>rf'. kv1\<lparr>sk_rf := rf'\<rparr>)
                       (Snapshot (sk_rf kv1) (CommandIndex msg) (Some (encodeSnapShot kv1)))
                else Some kv1);
        let (kv3, c) = skWaitCh kv2 (CommandIndex msg);
        Some (kv3, Some (c, \<lparr>or_ClientId = so_ClientId op, or_SequenceId = so_SequenceId op, or_Err = err\<rparr>))
      }
      else if SnapshotValid msg then do {
        rf' \<leftarrow> Snapshot (sk_rf kv) (SnapshotIndex msg) (am_Snapshot msg);
        Some (decodeSnapShot (kv\<lparr>sk_rf := rf'\<rparr>) (am_Snapshot msg), None)
      }
      else Some (kv, None))"

definition skApplySend :: "ShardKV \<Rightarrow> nat \<Rightarrow> OpReply \<Rightarrow> ShardKV option" where
  "skApplySend kv c r = do { h \<leftarrow> chan_send c r (sk_chans kv); Some (kv\<lparr>sk_chans := h\<rparr>) }"

definition skApply ::
  "(SkOp PersistentStatus \<Rightarrow> nat) \<Rightarrow> ShardKV \<Rightarrow> (SkOp, SkSnapshot) ApplyMsg \<Rightarrow> ShardKV option" where
  "skApply size_of kv msg = do {
     (kv1, out) \<leftarrow> skApplyBegin size_of kv msg;
     (case out of None \<Rightarrow> Some kv1 | Some (c, r) \<Rightarrow> skApplySend kv1 c r)
   }"

subsection \<open>RPC handlers\<close>

text \<open>
  \<^verbatim>\<open>startCmd\<close>: hand the operation to Raft and make or find the channel in one section; then wait.  The
  channel is buffered, so the receiver takes the value from the buffer.
\<close>

definition startCmdBegin :: "ShardKV \<Rightarrow> SkOp \<Rightarrow> (ShardKV \<times> (string + int \<times> nat)) option" where
  "startCmdBegin kv cmd = do {
     (rf', index, t, isLeader) \<leftarrow> Start (sk_rf kv) cmd;
     let kv1 = kv\<lparr>sk_rf := rf'\<rparr>;
     if \<not> isLeader then Some (kv1, Inl ErrWrongLeader)
     else let (kv2, c) = skWaitCh kv1 index in Some (kv2, Inr (index, c))
   }"

definition startCmdEnd ::
  "ShardKV \<Rightarrow> SkOp \<Rightarrow> int \<Rightarrow> OpReply option \<Rightarrow> ShardKV \<times> string" where
  "startCmdEnd kv cmd index received = (skClean kv index,
     case received of
       Some re \<Rightarrow> if or_SequenceId re \<noteq> so_SequenceId cmd \<or> or_ClientId re \<noteq> so_ClientId cmd
                  then ErrInconsistentData else or_Err re
     | None \<Rightarrow> ErrOverTime)"

text \<open>The check that \<^verbatim>\<open>Get\<close> and \<^verbatim>\<open>PutAppend\<close> start with, and the last section of \<^verbatim>\<open>Get\<close>.\<close>

definition shardCheck :: "ShardKV \<Rightarrow> string \<Rightarrow> string option" where
  "shardCheck kv key = do {
     owner \<leftarrow> idx (Shards (sk_cfg kv)) (key2shard key);
     if owner \<noteq> sk_gid kv then Some ErrWrongGroup
     else do {
       sh \<leftarrow> idx (sk_shards kv) (key2shard key);
       Some (if sh_Data sh = None then ShardNotArrived else [])
     }
   }"

definition getOp :: "SkGetArgs \<Rightarrow> SkOp" where
  "getOp args = blankOp\<lparr>so_OpType := skGet, so_ClientId := sga_ClientId args,
     so_SequenceId := sga_SequenceId args, so_Key := sga_Key args\<rparr>"

definition putAppendOp :: "SkPutAppendArgs \<Rightarrow> SkOp" where
  "putAppendOp args = blankOp\<lparr>so_OpType := spa_Op args, so_ClientId := spa_ClientId args,
     so_SequenceId := spa_SequenceId args, so_Key := spa_Key args, so_Value := spa_Value args\<rparr>"

definition addShardOp :: "SendShardArg \<Rightarrow> SkOp" where
  "addShardOp args = blankOp\<lparr>so_OpType := AddShardOp, so_ClientId := ssa_ClientId args,
     so_SequenceId := ssa_CfgNum args, so_ShardId := ssa_ShardId args, so_Shard := ssa_Shard args,
     so_Duptable := ssa_Duptable args\<rparr>"

definition skGetBegin :: "ShardKV \<Rightarrow> SkGetArgs \<Rightarrow> (ShardKV \<times> (string + int \<times> nat)) option" where
  "skGetBegin kv args = do {
     err \<leftarrow> shardCheck kv (sga_Key args);
     if err = ErrWrongGroup \<or> err = ShardNotArrived then Some (kv, Inl err)
     else startCmdBegin kv (getOp args)
   }"

definition skGetEnd :: "ShardKV \<Rightarrow> SkGetArgs \<Rightarrow> string \<Rightarrow> SkGetReply option" where
  "skGetEnd kv args err =
     (if err \<noteq> skOK then Some \<lparr>sgr_Err = err, sgr_Value = []\<rparr>
      else do {
        owner \<leftarrow> idx (Shards (sk_cfg kv)) (key2shard (sga_Key args));
        if owner \<noteq> sk_gid kv then Some \<lparr>sgr_Err = ErrWrongGroup, sgr_Value = []\<rparr>
        else do {
          sh \<leftarrow> idx (sk_shards kv) (key2shard (sga_Key args));
          Some (case sh_Data sh of
                  None \<Rightarrow> \<lparr>sgr_Err = ShardNotArrived, sgr_Value = []\<rparr>
                | Some d \<Rightarrow> \<lparr>sgr_Err = skOK, sgr_Value = map_get d [] (sga_Key args)\<rparr>)
        }
      })"

definition skPutAppendBegin ::
  "ShardKV \<Rightarrow> SkPutAppendArgs \<Rightarrow> (ShardKV \<times> (string + int \<times> nat)) option" where
  "skPutAppendBegin kv args = do {
     err \<leftarrow> shardCheck kv (spa_Key args);
     if err = ErrWrongGroup \<or> err = ShardNotArrived then Some (kv, Inl err)
     else startCmdBegin kv (putAppendOp args)
   }"

definition AddShardBegin :: "ShardKV \<Rightarrow> SendShardArg \<Rightarrow> (ShardKV \<times> (string + int \<times> nat)) option" where
  "AddShardBegin kv args = startCmdBegin kv (addShardOp args)"

subsection \<open>Watching the configuration\<close>

definition leaving :: "ShardKV \<Rightarrow> nat \<Rightarrow> bool" where
  "leaving kv shard \<longleftrightarrow> Shards (sk_lastCfg kv) ! shard = sk_gid kv \<and>
     Shards (sk_cfg kv) ! shard \<noteq> sk_gid kv \<and>
     sh_ConfigNum (sk_shards kv ! shard) < Num (sk_cfg kv)"

definition arriving :: "ShardKV \<Rightarrow> nat \<Rightarrow> bool" where
  "arriving kv shard \<longleftrightarrow> Shards (sk_lastCfg kv) ! shard \<noteq> sk_gid kv \<and>
     Shards (sk_cfg kv) ! shard = sk_gid kv \<and>
     sh_ConfigNum (sk_shards kv ! shard) < Num (sk_cfg kv)"

definition isAllSent :: "ShardKV \<Rightarrow> bool" where
  "isAllSent kv \<longleftrightarrow> (\<forall>shard \<in> set [0..<length (Shards (sk_lastCfg kv))]. \<not> leaving kv shard)"

definition isAllReceived :: "ShardKV \<Rightarrow> bool" where
  "isAllReceived kv \<longleftrightarrow> (\<forall>shard \<in> set [0..<length (Shards (sk_lastCfg kv))]. \<not> arriving kv shard)"

text \<open>The request and the servers for one shard that has to be handed over.\<close>

definition sendShard :: "ShardKV \<Rightarrow> nat \<Rightarrow> SendShardArg \<times> string list" where
  "sendShard kv shard =
     (\<lparr>ssa_Duptable = sk_duptable kv, ssa_ShardId = int shard,
       ssa_Shard = cloneShard (Num (sk_cfg kv)) (sh_Data (sk_shards kv ! shard)),
       ssa_ClientId = Shards (sk_lastCfg kv) ! shard, ssa_CfgNum = Num (sk_cfg kv)\<rparr>,
      case fmlookup (Groups (sk_cfg kv)) (Shards (sk_cfg kv) ! shard) of None \<Rightarrow> [] | Some ss \<Rightarrow> ss)"

text \<open>
  The sending goroutine calls the servers in turn, starting with the first.  The server of round \<open>k\<close>;
  \<^const>\<open>None\<close> is the panic of the index expression (or of the remainder) when there is no server.
\<close>

definition sendTarget :: "string list \<Rightarrow> nat \<Rightarrow> string option" where
  "sendTarget servers k = idx servers (int (k mod length servers))"

text \<open>
  What the goroutine submits once a call has succeeded, or three seconds have passed: it
  reads the configuration number at that moment.
\<close>

definition sendDone :: "bool \<Rightarrow> string \<Rightarrow> bool \<Rightarrow> bool" where
  "sendDone ok err over3s \<longleftrightarrow> ok \<and> err = skOK \<or> over3s"

definition removeOp :: "ShardKV \<Rightarrow> SendShardArg \<Rightarrow> SkOp" where
  "removeOp kv args = blankOp\<lparr>so_OpType := RemoveShardOp, so_ClientId := sk_gid kv,
     so_SequenceId := Num (sk_cfg kv), so_ShardId := ssa_ShardId args\<rparr>"

text \<open>One round of the watch loop on the leader: what it does next.\<close>

datatype watchAction = Send "(SendShardArg \<times> string list) list" | Wait | QueryNext int

definition watchRound :: "ShardKV \<Rightarrow> watchAction" where
  "watchRound kv =
     (if \<not> isAllSent kv
      then Send (map (sendShard kv) (filter (leaving kv) [0..<length (Shards (sk_lastCfg kv))]))
      else if \<not> isAllReceived kv then Wait
      else QueryNext (Num (sk_cfg kv) + 1))"

text \<open>The whole round: a server that is not the leader only waits.\<close>

definition watchStep :: "ShardKV \<Rightarrow> watchAction" where
  "watchStep kv = (if \<not> snd (GetState (sk_rf kv)) then Wait else watchRound kv)"

text \<open>What the loop submits when the controller has answered.\<close>

definition upgradeOp :: "ShardKV \<Rightarrow> int \<Rightarrow> Config \<Rightarrow> SkOp option" where
  "upgradeOp kv curNum newConfig =
     (if Num newConfig \<noteq> curNum + 1 then None
      else Some (blankOp\<lparr>so_OpType := UpgradeConfig, so_ClientId := sk_gid kv,
        so_SequenceId := Num newConfig, so_UpgradeCfg := newConfig\<rparr>))"

subsection \<open>Construction\<close>

definition skKill :: "ShardKV \<Rightarrow> ShardKV" where
  "skKill kv = kv\<lparr>sk_dead := 1, sk_rf := Kill (sk_rf kv)\<rparr>"

definition skKilled :: "ShardKV \<Rightarrow> bool" where
  "skKilled kv \<longleftrightarrow> sk_dead kv = 1"

definition skStartServer ::
  "nat \<Rightarrow> int \<Rightarrow> (SkOp PersistentStatus, SkSnapshot) Persister \<Rightarrow> int \<Rightarrow> int \<Rightarrow> ShardKV option" where
  "skStartServer n self ps limit gid = do {
     rf0 \<leftarrow> Make n self ps;
     Some (decodeSnapShot
       \<lparr>sk_me = self, sk_rf = rf0, sk_gid = gid, sk_maxRaftState = limit, sk_dead = 0,
        sk_cfg = emptyConfig, sk_lastCfg = emptyConfig,
        sk_shards = replicate NShards \<lparr>sh_Data = None, sh_ConfigNum = 0\<rparr>,
        sk_wakeClient = Map.empty, sk_duptable = Map.empty, sk_chans = no_chans\<rparr>
       (ReadSnapshot ps))
   }"

subsection \<open>The clerk\<close>

record SkClerk =
  skc_config :: Config
  skc_clientId :: int
  skc_sequenceId :: int

definition skMakeClerk :: "int \<Rightarrow> Config \<Rightarrow> SkClerk" where
  "skMakeClerk rnd newest = \<lparr>skc_config = newest, skc_clientId = rnd, skc_sequenceId = 0\<rparr>"

text \<open>The servers one round of the clerk's loop tries, in this order.\<close>

definition clerkServers :: "Config \<Rightarrow> string \<Rightarrow> string list" where
  "clerkServers cfg key =
     (case fmlookup (Groups cfg) (Shards cfg ! nat (key2shard key)) of
        None \<Rightarrow> [] | Some servers \<Rightarrow> servers)"

text \<open>
  The inner loop over the servers, with the results of the calls: the first answer that is final is
  returned, an \<^verbatim>\<open>ErrWrongGroup\<close> ends the round.
\<close>

fun clerkRound :: "(string \<Rightarrow> bool) \<Rightarrow> ('r \<Rightarrow> string) \<Rightarrow> 'r option list \<Rightarrow> 'r option" where
  "clerkRound final err [] = None"
| "clerkRound final err (res # rest) = (case res of
     None \<Rightarrow> clerkRound final err rest
   | Some r \<Rightarrow> if final (err r) then Some r
               else if err r = ErrWrongGroup then None
               else clerkRound final err rest)"

text \<open>
  The outer loop.  A round is given by what a call of each server would return and by the
  configuration the controller then answers; the loop ends with a final answer, or is still trying
  when the list of rounds ends.
\<close>

fun clerkLoop ::
  "(string \<Rightarrow> bool) \<Rightarrow> ('r \<Rightarrow> string) \<Rightarrow> string \<Rightarrow> Config \<Rightarrow> ((string \<Rightarrow> 'r option) \<times> Config) list \<Rightarrow>
   Config \<times> 'r option" where
  "clerkLoop final err key cfg [] = (cfg, None)"
| "clerkLoop final err key cfg ((call, newest) # rounds) =
     (case clerkRound final err (map call (clerkServers cfg key)) of
        Some r \<Rightarrow> (cfg, Some r)
      | None \<Rightarrow> clerkLoop final err key newest rounds)"

definition skClerkGet ::
  "SkClerk \<Rightarrow> string \<Rightarrow> (SkGetArgs \<Rightarrow> ((string \<Rightarrow> SkGetReply option) \<times> Config) list) \<Rightarrow>
   SkClerk \<times> string option" where
  "skClerkGet ck key rounds =
     (let ck1 = ck\<lparr>skc_sequenceId := skc_sequenceId ck + 1\<rparr>;
          args = \<lparr>sga_Key = key, sga_ClientId = skc_clientId ck1, sga_SequenceId = skc_sequenceId ck1\<rparr>;
          (cfg, r) = clerkLoop (\<lambda>e. e = skOK \<or> e = skErrNoKey) sgr_Err key (skc_config ck1) (rounds args) in
      (ck1\<lparr>skc_config := cfg\<rparr>, map_option sgr_Value r))"

definition skClerkPutAppend ::
  "SkClerk \<Rightarrow> string \<Rightarrow> string \<Rightarrow> string \<Rightarrow>
   (SkPutAppendArgs \<Rightarrow> ((string \<Rightarrow> string option) \<times> Config) list) \<Rightarrow> SkClerk \<times> bool" where
  "skClerkPutAppend ck key value op rounds =
     (let ck1 = ck\<lparr>skc_sequenceId := skc_sequenceId ck + 1\<rparr>;
          args = \<lparr>spa_Key = key, spa_Value = value, spa_Op = op, spa_ClientId = skc_clientId ck1,
                  spa_SequenceId = skc_sequenceId ck1\<rparr>;
          (cfg, r) = clerkLoop (\<lambda>e. e = skOK) id key (skc_config ck1) (rounds args) in
      (ck1\<lparr>skc_config := cfg\<rparr>, r \<noteq> None))"

definition skClerkPut where
  "skClerkPut ck key value rounds = skClerkPutAppend ck key value ''Put'' rounds"

definition skClerkAppend where
  "skClerkAppend ck key value rounds = skClerkPutAppend ck key value ''Append'' rounds"

end
