(* ===== verification/ShardKV_Props.thy ===== *)
theory ShardKV_Props
  imports ShardKV ShardCtrler_Props KvRaft_Props
begin

section \<open>Correctness of the sharded service\<close>

text \<open>
  Well-formed servers execute every operation without a panic and follow the configurations upwards;
  an operation takes effect at most once, also across the hand-over of a shard; a server that asks
  for the next configuration holds all the shards it owns; the replicas of a group agree.  The command
  function is interpreted as a \<open>strict_dedup_service\<close> and as a \<open>replicated_service\<close>.
\<close>

subsection \<open>Well-formed servers\<close>

definition wf_sk :: "ShardKV \<Rightarrow> bool" where
  "wf_sk kv \<longleftrightarrow> length (Shards (sk_cfg kv)) = NShards \<and> length (Shards (sk_lastCfg kv)) = NShards \<and>
     length (sk_shards kv) = NShards"

definition wf_op :: "SkOp \<Rightarrow> bool" where
  "wf_op op \<longleftrightarrow> so_OpType op \<in> {skPut, skAppend, skGet, UpgradeConfig, AddShardOp, RemoveShardOp} \<and>
     length (Shards (so_UpgradeCfg op)) = NShards \<and> 0 \<le> so_ShardId op \<and> so_ShardId op < int NShards"

lemmas sk_types = skPut_def skAppend_def skGet_def UpgradeConfig_def AddShardOp_def RemoveShardOp_def

lemma key2shard_bounds: "0 \<le> key2shard key" "key2shard key < int NShards"
  by (simp_all add: key2shard_def NShards_def)

lemma key2shard_idx [simp]:
  "length xs = NShards \<Longrightarrow> idx xs (key2shard key) = Some (xs ! nat (key2shard key))"
  using key2shard_bounds [of key] by simp

lemma key2shard_set_idx [simp]:
  "length xs = NShards \<Longrightarrow> set_idx xs (key2shard key) v = Some (xs[nat (key2shard key) := v])"
  using key2shard_bounds [of key] by simp

lemma nat_key2shard: "nat (key2shard key) < NShards"
  using key2shard_bounds [of key] by (simp add: NShards_def)

text \<open>Closed forms.\<close>

lemma applyData_eq:
  assumes "wf_sk kv" and s: "s = nat (key2shard (so_Key op))"
  shows "applyData kv op = Some
    (if Shards (sk_cfg kv) ! s \<noteq> sk_gid kv then (kv, ErrWrongGroup)
     else case sh_Data (sk_shards kv ! s) of
       None \<Rightarrow> (kv, ShardNotArrived)
     | Some d \<Rightarrow> (kv\<lparr>sk_duptable := fst (dataStep op (sk_duptable kv, d)),
          sk_shards := (sk_shards kv)[s := (sk_shards kv ! s)
            \<lparr>sh_Data := Some (snd (dataStep op (sk_duptable kv, d)))\<rparr>]\<rparr>, skOK))"
  using assms by (simp add: applyData_def wf_sk_def Let_def case_prod_unfold split: option.splits)

lemma upgrade_loop:
  assumes "k + length gs \<le> length shs"
  shows "for_loop (enumerate k gs) (\<lambda>(i, g) s. if P i g then set_idx s (int i) v else Some s) shs =
    Some (map (\<lambda>i. if k \<le> i \<and> i < k + length gs \<and> P i (gs ! (i - k)) then v else shs ! i) [0..<length shs])"
  using assms
proof (induction gs arbitrary: k shs)
  case Nil
  have "map (\<lambda>i. if k \<le> i \<and> i < k + length [] \<and> P i ([] ! (i - k)) then v else shs ! i) [0..<length shs] =
      map ((!) shs) [0..<length shs]" by (rule map_cong) auto
  then show ?case by (simp add: map_nth)
next
  case (Cons g gs)
  let ?s = "if P k g then shs[k := v] else shs"
  have step: "(if P k g then set_idx shs (int k) v else Some shs) = Some ?s"
    using Cons.prems by simp
  have len: "length ?s = length shs" by simp
  have "for_loop (enumerate (Suc k) gs) (\<lambda>(i, g) s. if P i g then set_idx s (int i) v else Some s) ?s =
      Some (map (\<lambda>i. if Suc k \<le> i \<and> i < Suc k + length gs \<and> P i (gs ! (i - Suc k)) then v else ?s ! i)
        [0..<length shs])"
    using Cons.IH [of "Suc k" ?s] Cons.prems by (simp only: len) simp
  moreover have "(if Suc k \<le> i \<and> i < Suc k + length gs \<and> P i (gs ! (i - Suc k)) then v else ?s ! i) =
      (if k \<le> i \<and> i < k + length (g # gs) \<and> P i ((g # gs) ! (i - k)) then v else shs ! i)"
    if "i < length shs" for i
    using that by (cases "i = k") (auto simp: nth_Cons' Suc_le_eq)
  ultimately show ?case using step by (simp cong: map_cong del: upt_Suc)
qed

lemma upgradeConfig_eq:
  assumes "wf_sk kv" and "length (Shards (so_UpgradeCfg op)) = NShards"
  shows "upgradeConfig kv op = Some
    (if Num (sk_cfg kv) \<ge> Num (so_UpgradeCfg op) then kv
     else kv\<lparr>sk_shards := map (\<lambda>i. if Shards (so_UpgradeCfg op) ! i = sk_gid kv \<and> Shards (sk_cfg kv) ! i = 0
            then \<lparr>sh_Data = Some Map.empty, sh_ConfigNum = Num (so_UpgradeCfg op)\<rparr> else sk_shards kv ! i)
            [0..<NShards],
          sk_lastCfg := sk_cfg kv, sk_cfg := so_UpgradeCfg op\<rparr>)"
proof -
  let ?v = "\<lparr>sh_Data = Some Map.empty, sh_ConfigNum = Num (so_UpgradeCfg op)\<rparr>"
  let ?P = "\<lambda>i g. g = sk_gid kv \<and> Shards (sk_cfg kv) ! i = 0"
  have body: "for_loop (enumerate k gs) (\<lambda>(shard, gid) shs. do {
             old \<leftarrow> (if gid = sk_gid kv then idx (Shards (sk_cfg kv)) (int shard) else Some 1);
             if gid = sk_gid kv \<and> old = 0 then set_idx shs (int shard) ?v else Some shs }) shs =
      for_loop (enumerate k gs) (\<lambda>(i, g) s. if ?P i g then set_idx s (int i) ?v else Some s) shs"
    if "k + length gs \<le> NShards" for k gs shs
    using that
  proof (induction gs arbitrary: k shs)
    case (Cons g gs)
    have "int k < int (length (Shards (sk_cfg kv)))" using Cons.prems assms(1) by (simp add: wf_sk_def)
    with Cons show ?case by (auto split: option.splits)
  qed simp
  have len: "length (sk_shards kv) = NShards" using assms(1) by (simp add: wf_sk_def)
  show ?thesis
    using body [of 0 "Shards (so_UpgradeCfg op)" "sk_shards kv"]
      upgrade_loop [of 0 "Shards (so_UpgradeCfg op)" "sk_shards kv" ?P ?v] assms(2) len
    by (simp add: upgradeConfig_def cong: map_cong)
qed

lemma addShard_eq:
  assumes "wf_sk kv" and "0 \<le> so_ShardId op" and "so_ShardId op < int NShards"
  shows "addShard kv op = Some
    (if sh_Data (sk_shards kv ! nat (so_ShardId op)) \<noteq> None \<or> sh_ConfigNum (so_Shard op) < Num (sk_cfg kv)
     then kv
     else kv\<lparr>sk_shards := (sk_shards kv)[nat (so_ShardId op) :=
               cloneShard (sh_ConfigNum (so_Shard op)) (sh_Data (so_Shard op))],
             sk_duptable := mergeDup (sk_duptable kv) (so_Duptable op)\<rparr>)"
  using assms by (simp add: addShard_def wf_sk_def)

lemma removeShard_eq:
  assumes "wf_sk kv" and "0 \<le> so_ShardId op" and "so_ShardId op < int NShards"
  shows "removeShard kv op = Some
    (if so_SequenceId op < Num (sk_cfg kv) then kv
     else kv\<lparr>sk_shards := (sk_shards kv)[nat (so_ShardId op) :=
               \<lparr>sh_Data = None, sh_ConfigNum = so_SequenceId op\<rparr>]\<rparr>)"
  using assms by (simp add: removeShard_def wf_sk_def)

subsection \<open>Every command returns\<close>

lemma isDuplicated_mono:
  assumes "dup c = Some p" and "\<not> isDuplicated dup c k"
  shows "p \<le> k"
  using assms by (simp add: isDuplicated_def)

definition table_le :: "(int \<rightharpoonup> int) \<Rightarrow> (int \<rightharpoonup> int) \<Rightarrow> bool" where
  "table_le dup dup' \<longleftrightarrow> (\<forall>c p. dup c = Some p \<longrightarrow> (\<exists>p'. dup' c = Some p' \<and> p \<le> p'))"

lemma table_le_refl [simp, intro]: "table_le dup dup"
  by (simp add: table_le_def)

lemma table_le_dataStep: "table_le dup (fst (dataStep op (dup, d)))"
  using isDuplicated_mono [of dup "so_ClientId op" _ "so_SequenceId op"]
  by (auto simp: dataStep_def table_le_def)

lemma table_le_mergeDup: "table_le mine (mergeDup mine theirs)" "table_le theirs (mergeDup mine theirs)"
  by (auto simp: table_le_def mergeDup_def split: option.splits)

lemma isDuplicated_le: "isDuplicated dup c k \<Longrightarrow> table_le dup dup' \<Longrightarrow> isDuplicated dup' c k"
  by (fastforce simp: isDuplicated_def table_le_def split: option.splits)

lemma applyCmd_eq:
  assumes "wf_sk kv" and "wf_op op"
  shows "applyCmd kv op =
    (if so_OpType op \<in> {skPut, skAppend, skGet} then applyData kv op
     else if so_OpType op = AddShardOp \<and> Num (sk_cfg kv) < so_SequenceId op then Some (kv, ConfigNotArrived)
     else map_option (\<lambda>kv'. (kv', skOK))
       (if so_OpType op = UpgradeConfig then upgradeConfig kv op
        else if so_OpType op = AddShardOp then addShard kv op else removeShard kv op))"
  using assms(2) by (auto simp: applyCmd_def wf_op_def sk_types)

text \<open>C31: every command returns.  On a well-formed server every operation that the handlers and the watch loop can
  submit is executed without a panic, leaves the server well-formed and in its group, never takes it
  back to an older configuration and never lowers an entry of the duplicate table; a command that is
  answered with an error has changed nothing.\<close>

theorem sk_commands_return:
  assumes "wf_sk kv" and "wf_op op"
  shows "\<exists>kv' err. applyCmd kv op = Some (kv', err) \<and> wf_sk kv' \<and> sk_gid kv' = sk_gid kv \<and>
    Num (sk_cfg kv) \<le> Num (sk_cfg kv') \<and> table_le (sk_duptable kv) (sk_duptable kv') \<and>
    (err = skOK \<or> kv' = kv)"
proof -
  note range = assms(2) [unfolded wf_op_def]
  note add = addShard_eq [OF assms(1), of op] and rem = removeShard_eq [OF assms(1), of op]
  note upg = upgradeConfig_eq [OF assms(1), of op] and dat = applyData_eq [OF assms(1) refl, of op]
  have wf: "length (sk_shards kv) = NShards" using assms(1) by (simp add: wf_sk_def)
  consider "so_OpType op \<in> {skPut, skAppend, skGet}"
    | "so_OpType op = AddShardOp" "Num (sk_cfg kv) < so_SequenceId op"
    | "so_OpType op = AddShardOp" "\<not> Num (sk_cfg kv) < so_SequenceId op"
    | "so_OpType op = UpgradeConfig" | "so_OpType op = RemoveShardOp"
    using range by auto
  then show ?thesis
  proof cases
    case 1
    with assms wf show ?thesis
      by (simp add: applyCmd_eq dat wf_sk_def table_le_dataStep split: option.splits)
  next
    case 2
    with assms show ?thesis by (simp add: applyCmd_eq sk_types)
  next
    case 3
    with assms wf range show ?thesis
      by (simp add: applyCmd_eq add wf_sk_def sk_types table_le_mergeDup)
  next
    case 4
    with assms range show ?thesis by (simp add: applyCmd_eq upg wf_sk_def sk_types)
  next
    case 5
    with assms wf range show ?thesis by (simp add: applyCmd_eq rem wf_sk_def sk_types)
  qed
qed

definition ex_cfg :: "int \<Rightarrow> int \<Rightarrow> Config" where
  "ex_cfg n g = \<lparr>Num = n, Shards = replicate NShards g, Groups = fmap_of_list [(g, [''s''])]\<rparr>"

definition ex_sk :: "int \<Rightarrow> ShardKV" where
  "ex_sk gid = the (skStartServer 3 0 MakePersister (-1) gid)"

lemma skStartServer_fresh:
  "skStartServer n self MakePersister limit gid = Some
    \<lparr>sk_me = self, sk_rf = the (Make n self MakePersister), sk_gid = gid, sk_maxRaftState = limit, sk_dead = 0,
     sk_cfg = emptyConfig, sk_lastCfg = emptyConfig,
     sk_shards = replicate NShards \<lparr>sh_Data = None, sh_ConfigNum = 0\<rparr>,
     sk_wakeClient = Map.empty, sk_duptable = Map.empty, sk_chans = no_chans\<rparr>"
  by (simp add: skStartServer_def Make_fresh decodeSnapShot_def ReadSnapshot_def) (simp add: MakePersister_def)

lemma skStartServer_wf: "skStartServer n self MakePersister limit gid = Some kv \<Longrightarrow> wf_sk kv"
  by (auto simp: skStartServer_fresh wf_sk_def emptyConfig_def NShards_def)

definition ex_upgrade :: SkOp where
  "ex_upgrade = blankOp\<lparr>so_OpType := UpgradeConfig, so_SequenceId := 1, so_UpgradeCfg := ex_cfg 1 7\<rparr>"

lemma ex_sk_wf: "wf_sk (ex_sk gid)"
  by (simp add: ex_sk_def skStartServer_fresh wf_sk_def emptyConfig_def NShards_def)

theorem sk_commands_return_witness:
  "\<exists>kv' err. applyCmd (ex_sk 7) ex_upgrade = Some (kv', err) \<and> wf_sk kv'"
proof -
  have "wf_op ex_upgrade" by code_simp
  with sk_commands_return [OF ex_sk_wf [of 7] this] show ?thesis by blast
qed

subsection \<open>Client operations take effect at most once\<close>

text \<open>
  The abstract state of a server: the duplicate table and one map over all keys, each key read in its
  own shard.  \<open>serves\<close>: the server owns the key's shard and the shard is here.
\<close>

definition sk_lookup :: "ShardKV \<Rightarrow> string \<Rightarrow> string option" where
  "sk_lookup kv key = (case sh_Data (sk_shards kv ! nat (key2shard key)) of None \<Rightarrow> None | Some d \<Rightarrow> d key)"

definition sk_abs :: "ShardKV \<Rightarrow> (int \<rightharpoonup> int) \<times> (string \<rightharpoonup> string)" where
  "sk_abs kv = (sk_duptable kv, sk_lookup kv)"

definition serves :: "ShardKV \<Rightarrow> string \<Rightarrow> bool" where
  "serves kv key \<longleftrightarrow> Shards (sk_cfg kv) ! nat (key2shard key) = sk_gid kv \<and>
     sh_Data (sk_shards kv ! nat (key2shard key)) \<noteq> None"

definition data_op :: "SkOp \<Rightarrow> bool" where
  "data_op op \<longleftrightarrow> so_OpType op \<in> {skPut, skAppend, skGet}"

interpretation sk_once: strict_dedup_service dataStep so_ClientId so_SequenceId dataEffect
  by unfold_locales (simp_all add: dataStep_def isDuplicated_def)

lemma applyCmd_data: "data_op op \<Longrightarrow> applyCmd kv op = applyData kv op"
  by (auto simp: applyCmd_def data_op_def)

lemma dataEffect_cong:
  assumes "d (so_Key op) = d' (so_Key op)" and "k = so_Key op \<or> d k = d' k"
  shows "dataEffect op d k = dataEffect op d' k"
  using assms by (auto simp: dataEffect_def map_get_def)

lemma dataEffect_other: "k \<noteq> so_Key op \<Longrightarrow> dataEffect op d k = d k"
  by (simp add: dataEffect_def)

lemma applyData_refines:
  assumes "wf_sk kv" and "serves kv (so_Key op)" and "applyData kv op = Some (kv', err)"
  shows "sk_abs kv' = dataStep op (sk_abs kv) \<and> err = skOK"
proof -
  let ?s = "nat (key2shard (so_Key op))"
  obtain d where d: "sh_Data (sk_shards kv ! ?s) = Some d" using assms(2) by (auto simp: serves_def)
  let ?r = "dataStep op (sk_duptable kv, d)"
  have kv': "kv' = kv\<lparr>sk_duptable := fst ?r,
      sk_shards := (sk_shards kv)[?s := (sk_shards kv ! ?s)\<lparr>sh_Data := Some (snd ?r)\<rparr>]\<rparr>" "err = skOK"
    using assms d by (simp_all add: applyData_eq [OF assms(1) refl] serves_def)
  have len: "?s < length (sk_shards kv)" using assms(1) nat_key2shard by (simp add: wf_sk_def)
  have "sk_lookup kv' k = snd (dataStep op (sk_abs kv)) k" for k
  proof (cases "nat (key2shard k) = ?s")
    case True
    then have "sk_lookup kv' k = snd ?r k" "sk_lookup kv k = d k" "sk_lookup kv (so_Key op) = d (so_Key op)"
      using len d by (simp_all add: sk_lookup_def kv'(1))
    then show ?thesis
      using dataEffect_cong [of d op "sk_lookup kv" k] by (simp add: dataStep_def sk_abs_def)
  next
    case False
    then have "k \<noteq> so_Key op" "sk_lookup kv' k = sk_lookup kv k" by (auto simp: sk_lookup_def kv'(1))
    then show ?thesis by (simp add: dataStep_def sk_abs_def dataEffect_other)
  qed
  then have "sk_lookup kv' = snd (dataStep op (sk_abs kv))" by (rule ext)
  moreover have "sk_duptable kv' = fst (dataStep op (sk_abs kv))"
    by (simp add: kv'(1) dataStep_def sk_abs_def)
  ultimately show ?thesis using kv'(2) by (simp add: sk_abs_def)
qed

text \<open>What a client operation leaves as it is.\<close>

lemma applyData_frame:
  assumes "wf_sk kv" and "applyData kv op = Some (kv', err)"
  shows "wf_sk kv' \<and> sk_gid kv' = sk_gid kv \<and> sk_cfg kv' = sk_cfg kv \<and> sk_lastCfg kv' = sk_lastCfg kv \<and>
    (\<forall>s. sh_ConfigNum (sk_shards kv' ! s) = sh_ConfigNum (sk_shards kv ! s) \<and>
         (sh_Data (sk_shards kv' ! s) = None \<longleftrightarrow> sh_Data (sk_shards kv ! s) = None)) \<and>
    serves kv' = serves kv \<and> (serves kv (so_Key op) \<or> kv' = kv)"
proof -
  let ?s = "nat (key2shard (so_Key op))"
  have len: "?s < length (sk_shards kv)" using assms(1) nat_key2shard by (simp add: wf_sk_def)
  have sh: "sh_ConfigNum (sk_shards kv' ! s) = sh_ConfigNum (sk_shards kv ! s) \<and>
      (sh_Data (sk_shards kv' ! s) = None \<longleftrightarrow> sh_Data (sk_shards kv ! s) = None)" for s
    using assms(2) len
    by (cases "s = ?s") (auto simp: applyData_eq [OF assms(1) refl] split: if_splits option.splits)
  have rest: "wf_sk kv'" "sk_gid kv' = sk_gid kv" "sk_cfg kv' = sk_cfg kv" "sk_lastCfg kv' = sk_lastCfg kv"
    "serves kv (so_Key op) \<or> kv' = kv"
    using assms by (auto simp: applyData_eq [OF assms(1) refl] wf_sk_def serves_def split: if_splits option.splits)
  have "serves kv' = serves kv" using sh rest(2,3) by (intro ext) (simp add: serves_def)
  with sh rest show ?thesis by blast
qed

lemma data_run_refines:
  assumes "for_loop ops (\<lambda>op kv. map_option fst (applyCmd kv op)) kv = Some kv'" and "wf_sk kv"
    and "list_all data_op ops"
  shows "sk_abs kv' = fold dataStep (filter (\<lambda>op. serves kv (so_Key op)) ops) (sk_abs kv)"
  using assms
proof (induction ops arbitrary: kv)
  case (Cons op ops)
  then obtain kv1 err where one: "applyData kv op = Some (kv1, err)"
    and rest: "for_loop ops (\<lambda>op kv. map_option fst (applyCmd kv op)) kv1 = Some kv'"
    by (auto simp: applyCmd_data split: option.splits)
  note frame = applyData_frame [OF Cons.prems(2) one]
  from Cons.IH [OF rest] frame Cons.prems(3)
  have "sk_abs kv' = fold dataStep (filter (\<lambda>op. serves kv (so_Key op)) ops) (sk_abs kv1)" by simp
  then show ?case using applyData_refines [OF Cons.prems(2) _ one] frame by auto
qed simp

text \<open>C29: at most once.  A run of client operations on a server, whatever their keys, order and repetitions,
  changes the data exactly as the following operations do, each once: those for keys the server
  serves, with a greater sequence number than every earlier one of the same client.  In particular
  an older copy of an operation that comes late has no effect.\<close>

theorem sk_at_most_once:
  assumes "for_loop ops (\<lambda>op kv. map_option fst (applyCmd kv op)) kv = Some kv'" and "wf_sk kv"
    and "list_all data_op ops"
    and "todo = newer so_ClientId so_SequenceId (sk_duptable kv) (filter (\<lambda>op. serves kv (so_Key op)) ops)"
  shows "sk_lookup kv' = fold dataEffect todo (sk_lookup kv) \<and>
    distinct (map (\<lambda>op. (so_ClientId op, so_SequenceId op)) todo) \<and> subseq todo ops"
proof -
  let ?f = "filter (\<lambda>op. serves kv (so_Key op)) ops"
  have "sk_lookup kv' = snd (fold dataStep ?f (sk_duptable kv, sk_lookup kv))"
    using data_run_refines [OF assms(1-3)] by (simp add: sk_abs_def) (metis snd_conv)
  moreover have "subseq todo ?f" unfolding assms(4) by (rule newer_subseq)
  then have "subseq todo ops" using subseq_filter_left [of "\<lambda>op. serves kv (so_Key op)" ops] subseq_order.trans by blast
  ultimately show ?thesis by (simp add: sk_once.run_newer assms(4) newer_distinct)
qed

definition ex_append :: "string \<Rightarrow> int \<Rightarrow> SkOp" where
  "ex_append v k = blankOp\<lparr>so_OpType := skAppend, so_ClientId := 5, so_SequenceId := k,
     so_Key := ''k'', so_Value := v\<rparr>"

definition ex_owner :: ShardKV where
  "ex_owner = fst (the (applyCmd (ex_sk 7) ex_upgrade))"

lemma ex_owner_wf: "wf_sk ex_owner"
  by code_simp

theorem sk_at_most_once_witness:
  "\<exists>kv'. for_loop [ex_append ''a'' 1, ex_append ''b'' 2, ex_append ''a'' 1]
      (\<lambda>op kv. map_option fst (applyCmd kv op)) ex_owner = Some kv' \<and> sk_lookup kv' ''k'' = Some ''ab''"
proof -
  let ?ops = "[ex_append ''a'' 1, ex_append ''b'' 2, ex_append ''a'' 1]"
  let ?r = "for_loop ?ops (\<lambda>op kv. map_option fst (applyCmd kv op)) ex_owner"
  let ?t = "newer so_ClientId so_SequenceId (sk_duptable ex_owner) (filter (\<lambda>op. serves ex_owner (so_Key op)) ?ops)"
  have r: "?r = Some (the ?r)" by (rule returned, code_simp)
  have d: "list_all data_op ?ops" by code_simp
  have "sk_lookup (the ?r) = fold dataEffect ?t (sk_lookup ex_owner)"
    using sk_at_most_once [OF r ex_owner_wf d refl] by blast
  moreover have "fold dataEffect ?t (sk_lookup ex_owner) ''k'' = Some ''ab''" by code_simp
  ultimately have "sk_lookup (the ?r) ''k'' = Some ''ab''" by simp
  with r show ?thesis by blast
qed

subsection \<open>Handing a shard over\<close>

text \<open>C28: hand-over.  When a group that has to give a shard away sends it, and the receiving group, at the same
  configuration and without the shard, executes the request, then the receiver holds the sender's
  data of that shard; every operation the sender has already executed is recognised as a duplicate by the
  receiver, which answers it without changing anything; what the receiver itself has executed stays
  recognised; and a second copy of the request changes nothing.\<close>

theorem sk_handover:
  assumes "wf_sk a" and "wf_sk b" and "s < NShards" and "leaving a s"
    and "args = fst (sendShard a s)" and "Num (sk_cfg b) = Num (sk_cfg a)"
    and "Shards (sk_cfg b) ! s = sk_gid b" and "sh_Data (sk_shards b ! s) = None"
    and "sh_Data (sk_shards a ! s) = Some d"
  shows "\<exists>b'. applyCmd b (addShardOp args) = Some (b', skOK) \<and> sh_Data (sk_shards b' ! s) = Some d \<and>
    \<not> arriving b' s \<and>
    (\<forall>op. data_op op \<and> nat (key2shard (so_Key op)) = s \<and>
       (isDuplicated (sk_duptable a) (so_ClientId op) (so_SequenceId op) \<or>
        isDuplicated (sk_duptable b) (so_ClientId op) (so_SequenceId op)) \<longrightarrow>
       applyCmd b' op = Some (b', skOK)) \<and>
    applyCmd b' (addShardOp args) = Some (b', skOK)"
proof -
  let ?op = "addShardOp args"
  let ?b = "b\<lparr>sk_shards := (sk_shards b)[s := \<lparr>sh_Data = Some d, sh_ConfigNum = Num (sk_cfg a)\<rparr>],
    sk_duptable := mergeDup (sk_duptable b) (sk_duptable a)\<rparr>"
  have op: "so_OpType ?op = AddShardOp" "so_SequenceId ?op = Num (sk_cfg a)" "so_ShardId ?op = int s"
    "so_Shard ?op = \<lparr>sh_Data = Some d, sh_ConfigNum = Num (sk_cfg a)\<rparr>" "so_Duptable ?op = sk_duptable a"
    using assms(9) by (simp_all add: assms(5) addShardOp_def sendShard_def cloneShard_def)
  have len: "length (sk_shards b) = NShards" using assms(2) by (simp add: wf_sk_def)
  have cmd: "applyCmd kv ?op = map_option (\<lambda>kv'. (kv', skOK)) (addShard kv ?op)"
    if "Num (sk_cfg kv) = Num (sk_cfg a)" for kv
    using that op by (simp add: applyCmd_def sk_types)
  have one: "addShard b ?op = Some ?b"
    using assms(3,6,8) op by (simp add: addShard_eq [OF assms(2)] cloneShard_def)
  have wf: "wf_sk ?b" using assms(2) by (simp add: wf_sk_def)
  have two: "addShard ?b ?op = Some ?b"
    using assms(3) op len by (simp add: addShard_eq [OF wf])
  have known: "applyCmd ?b op = Some (?b, skOK)"
    if "data_op op" "nat (key2shard (so_Key op)) = s"
      "isDuplicated (sk_duptable a) (so_ClientId op) (so_SequenceId op) \<or>
       isDuplicated (sk_duptable b) (so_ClientId op) (so_SequenceId op)" for op
  proof -
    have "isDuplicated (mergeDup (sk_duptable b) (sk_duptable a)) (so_ClientId op) (so_SequenceId op)"
      using that(3) isDuplicated_le table_le_mergeDup by blast
    then have "applyData ?b op = Some (?b, skOK)"
      using that(2) assms(3,7) len by (simp add: applyData_eq [OF wf refl] dataStep_def)
    then show ?thesis using that(1) by (simp add: applyCmd_data)
  qed
  show ?thesis
    using one two known cmd [of b] cmd [of ?b] assms(3,6) len
    by (intro exI [of _ ?b]) (simp add: arriving_def)
qed

text \<open>Group 7 owns every shard in configuration 1, has executed an append and moves on to
  configuration 2, which gives all shards to group 8.\<close>

definition ex_run :: "ShardKV \<Rightarrow> SkOp list \<Rightarrow> ShardKV" where
  "ex_run kv ops = the (for_loop ops (\<lambda>op kv. map_option fst (applyCmd kv op)) kv)"

definition ex_upgradeTo :: "int \<Rightarrow> int \<Rightarrow> SkOp" where
  "ex_upgradeTo n g = blankOp\<lparr>so_OpType := UpgradeConfig, so_ClientId := 7, so_SequenceId := n,
     so_UpgradeCfg := ex_cfg n g\<rparr>"

definition ex_from :: ShardKV where
  "ex_from = ex_run (ex_sk 7) [ex_upgradeTo 1 7, ex_append ''a'' 1, ex_upgradeTo 2 8]"

definition ex_to :: ShardKV where
  "ex_to = ex_run (ex_sk 8) [ex_upgradeTo 1 7, ex_upgradeTo 2 8]"

theorem sk_handover_witness:
  "\<exists>b'. applyCmd ex_to (addShardOp (fst (sendShard ex_from 7))) = Some (b', skOK) \<and>
     sh_Data (sk_shards b' ! 7) = sh_Data (sk_shards ex_from ! 7) \<and>
     applyCmd b' (ex_append ''a'' 1) = Some (b', skOK)"
proof -
  let ?op = "ex_append ''a'' 1"
  have wf: "wf_sk ex_from" "wf_sk ex_to" by code_simp+
  have s: "7 < NShards" and lv: "leaving ex_from 7" by code_simp+
  have num: "Num (sk_cfg ex_to) = Num (sk_cfg ex_from)" and own: "Shards (sk_cfg ex_to) ! 7 = sk_gid ex_to"
    by code_simp+
  have "Option.is_none (sh_Data (sk_shards ex_to ! 7))" "\<not> Option.is_none (sh_Data (sk_shards ex_from ! 7))"
    by code_simp+
  then obtain d where d: "sh_Data (sk_shards ex_to ! 7) = None" "sh_Data (sk_shards ex_from ! 7) = Some d"
    by (auto simp: Option.is_none_def)
  have op: "data_op ?op" "nat (key2shard (so_Key ?op)) = 7"
    "isDuplicated (sk_duptable ex_from) (so_ClientId ?op) (so_SequenceId ?op)" by code_simp+
  from sk_handover [OF wf s lv refl num own d] op d(2) show ?thesis by metis
qed

subsection \<open>Which shards a group holds\<close>

text \<open>
  The commands a group's log can contain, for a history \<open>cfgs\<close> of the controller.  The second component
  of the state remembers the configuration numbers that a leader of the group has asked for: the
  watch loop submits the upgrade to a configuration only after it has found, in a state of the log
  before the upgrade, that everything has been sent and received.  An \<^verbatim>\<open>AddShard\<close> comes from a group at
  configuration \<open>n\<close>, which sends the shard to its owner in configuration \<open>n\<close>.  A
  \<^verbatim>\<open>RemoveShard\<close> carries the number \<open>n\<close> of the configuration that the leader had when the sending goroutine submitted
  it, which may be later than the one that took the shard away, so that it may hit a shard that the group owns (again).  The third
  component remembers the shards that have been hit in this way.
\<close>

definition history :: "(int \<Rightarrow> Config) \<Rightarrow> bool" where
  "history cfgs \<longleftrightarrow> cfgs 0 = emptyConfig \<and> (\<forall>n \<ge> 0. Num (cfgs n) = n \<and> length (Shards (cfgs n)) = NShards)"

inductive group_step :: "(int \<Rightarrow> Config) \<Rightarrow> ShardKV \<times> int set \<times> nat set \<Rightarrow> ShardKV \<times> int set \<times> nat set \<Rightarrow> bool"
  for cfgs :: "int \<Rightarrow> Config" where
  client: "data_op op \<Longrightarrow> applyCmd kv op = Some (kv', err) \<Longrightarrow> group_step cfgs (kv, Q, L) (kv', Q, L)"
| ask: "watchRound kv = QueryNext n \<Longrightarrow> group_step cfgs (kv, Q, L) (kv, insert n Q, L)"
| upgrade: "n \<in> Q \<Longrightarrow> upgradeOp kv0 (n - 1) (cfgs n) = Some op \<Longrightarrow> applyCmd kv op = Some (kv', err) \<Longrightarrow>
    group_step cfgs (kv, Q, L) (kv', Q, L)"
| receive: "0 \<le> n \<Longrightarrow> sk_cfg sender = cfgs n \<Longrightarrow> s < NShards \<Longrightarrow> Shards (cfgs n) ! s = sk_gid kv \<Longrightarrow>
    applyCmd kv (addShardOp (fst (sendShard sender s))) = Some (kv', err) \<Longrightarrow>
    group_step cfgs (kv, Q, L) (kv', Q, L)"
| remove: "0 \<le> n \<Longrightarrow> n \<le> Num (sk_cfg kv) \<Longrightarrow> sk_cfg kv0 = cfgs n \<Longrightarrow> ssa_ShardId args = int s \<Longrightarrow>
    s < NShards \<Longrightarrow> applyCmd kv (removeOp kv0 args) = Some (kv', err) \<Longrightarrow>
    group_step cfgs (kv, Q, L)
      (kv', Q, if n = Num (sk_cfg kv) \<and> Shards (sk_cfg kv) ! s = sk_gid kv then insert s L else L)"

definition group_init :: "ShardKV \<times> int set \<times> nat set \<Rightarrow> bool" where
  "group_init st \<longleftrightarrow> snd st = ({}, {}) \<and> sk_gid (fst st) \<noteq> 0 \<and>
     (\<exists>n self limit. skStartServer n self MakePersister limit (sk_gid (fst st)) = Some (fst st))"

definition owns :: "(int \<Rightarrow> Config) \<Rightarrow> ShardKV \<Rightarrow> int \<Rightarrow> nat \<Rightarrow> bool" where
  "owns cfgs kv n s \<longleftrightarrow> 0 \<le> n \<and> Shards (cfgs n) ! s = sk_gid kv"

text \<open>The state of one shard at configuration \<open>n\<close>, and the invariant.\<close>

definition shard_ok :: "(int \<Rightarrow> Config) \<Rightarrow> nat set \<Rightarrow> ShardKV \<Rightarrow> int \<Rightarrow> nat \<Rightarrow> bool" where
  "shard_ok cfgs L kv n s \<longleftrightarrow> sh_ConfigNum (sk_shards kv ! s) \<le> n \<and>
     (owns cfgs kv n s \<and> s \<notin> L \<longrightarrow> sh_Data (sk_shards kv ! s) \<noteq> None \<or>
        sh_ConfigNum (sk_shards kv ! s) < n \<and> \<not> owns cfgs kv (n - 1) s) \<and>
     (\<not> owns cfgs kv n s \<longrightarrow> sh_Data (sk_shards kv ! s) = None \<or>
        sh_ConfigNum (sk_shards kv ! s) < n \<and> owns cfgs kv (n - 1) s)"

definition settled :: "(int \<Rightarrow> Config) \<Rightarrow> ShardKV \<Rightarrow> int \<Rightarrow> bool" where
  "settled cfgs kv n \<longleftrightarrow> (\<forall>s<NShards. owns cfgs kv n s \<noteq> owns cfgs kv (n - 1) s \<longrightarrow>
     n \<le> sh_ConfigNum (sk_shards kv ! s))"

definition group_inv :: "(int \<Rightarrow> Config) \<Rightarrow> ShardKV \<times> int set \<times> nat set \<Rightarrow> bool" where
  "group_inv cfgs st = (case st of (kv, Q, L) \<Rightarrow> wf_sk kv \<and> sk_gid kv \<noteq> 0 \<and>
     (\<exists>n \<ge> 0. sk_cfg kv = cfgs n \<and> sk_lastCfg kv = cfgs (max 0 (n - 1)) \<and>
        (\<forall>s<NShards. shard_ok cfgs L kv n s) \<and>
        (\<forall>m \<in> Q. 0 \<le> m \<and> m \<le> n + 1 \<and> (m = n + 1 \<longrightarrow> settled cfgs kv n))))"

lemma group_inv_keep:
  assumes "group_inv cfgs (kv, Q, L)" and "wf_sk kv'" and "sk_gid kv' = sk_gid kv"
    and "sk_cfg kv' = sk_cfg kv" and "sk_lastCfg kv' = sk_lastCfg kv"
    and "\<And>n s. s < NShards \<Longrightarrow> sk_cfg kv = cfgs n \<Longrightarrow> 0 \<le> n \<Longrightarrow> shard_ok cfgs L kv n s \<Longrightarrow>
      shard_ok cfgs L' kv' n s \<and> sh_ConfigNum (sk_shards kv ! s) \<le> sh_ConfigNum (sk_shards kv' ! s)"
  shows "group_inv cfgs (kv', Q, L')"
proof -
  from assms(1) obtain n where n: "0 \<le> n" "sk_cfg kv = cfgs n" "sk_lastCfg kv = cfgs (max 0 (n - 1))"
    "\<And>s. s < NShards \<Longrightarrow> shard_ok cfgs L kv n s"
    "\<And>m. m \<in> Q \<Longrightarrow> 0 \<le> m \<and> m \<le> n + 1 \<and> (m = n + 1 \<longrightarrow> settled cfgs kv n)"
    by (auto simp: group_inv_def)
  note new = assms(6) [OF _ n(2,1) n(4)]
  have "settled cfgs kv' n" if "settled cfgs kv n"
    unfolding settled_def
  proof (intro allI impI)
    fix s assume s: "s < NShards" "owns cfgs kv' n s \<noteq> owns cfgs kv' (n - 1) s"
    then have "owns cfgs kv n s \<noteq> owns cfgs kv (n - 1) s" by (simp add: owns_def assms(3))
    with that s(1) have "n \<le> sh_ConfigNum (sk_shards kv ! s)" by (simp add: settled_def)
    with new [OF s(1) s(1)] show "n \<le> sh_ConfigNum (sk_shards kv' ! s)" by simp
  qed
  moreover have "sk_gid kv \<noteq> 0" using assms(1) by (simp add: group_inv_def)
  ultimately show ?thesis
    using n(1,2,3,5) new assms(2-5) unfolding group_inv_def by (intro case_prodI conjI exI [of _ n]) auto
qed

lemma historyD:
  assumes "history cfgs"
  shows "cfgs 0 = emptyConfig" and "0 \<le> n \<Longrightarrow> Num (cfgs n) = n" and "0 \<le> n \<Longrightarrow> length (Shards (cfgs n)) = NShards"
  using assms by (simp_all add: history_def)

lemma ready_settled:
  assumes "wf_sk kv" and "history cfgs" and "sk_gid kv \<noteq> 0" and "0 \<le> n" and "sk_cfg kv = cfgs n"
    and "sk_lastCfg kv = cfgs (max 0 (n - 1))" and "watchRound kv = QueryNext m"
  shows "m = n + 1 \<and> settled cfgs kv n"
proof -
  have rd: "isAllSent kv" "isAllReceived kv" "m = n + 1"
    using assms(4,5,7) historyD(2) [OF assms(2)] by (simp_all add: watchRound_def split: if_splits)
  have last: "Shards (sk_lastCfg kv) ! s = sk_gid kv \<longleftrightarrow> owns cfgs kv (n - 1) s" if "s < NShards" for s
    using assms(3,4,6) that historyD(1) [OF assms(2)]
    by (cases "n = 0") (simp_all add: owns_def emptyConfig_def max_def)
  have "n \<le> sh_ConfigNum (sk_shards kv ! s)" if "s < NShards" "owns cfgs kv n s \<noteq> owns cfgs kv (n - 1) s" for s
  proof -
    have "\<not> leaving kv s" "\<not> arriving kv s"
      using rd(1,2) that(1) assms(1) by (auto simp: isAllSent_def isAllReceived_def wf_sk_def)
    then show ?thesis
      using that(2) last [OF that(1)] assms(4,5) historyD(2) [OF assms(2), of n]
      by (auto simp: leaving_def arriving_def owns_def [of _ _ n])
  qed
  then show ?thesis using rd(3) by (simp add: settled_def)
qed

lemma settled_exact:
  "settled cfgs kv n \<Longrightarrow> shard_ok cfgs L kv n s \<Longrightarrow> s < NShards \<Longrightarrow>
   (sh_Data (sk_shards kv ! s) \<noteq> None \<longrightarrow> owns cfgs kv n s) \<and>
   (owns cfgs kv n s \<and> s \<notin> L \<longrightarrow> sh_Data (sk_shards kv ! s) \<noteq> None)"
  by (fastforce simp: settled_def shard_ok_def)

lemma group_inv_upgrade:
  assumes "group_inv cfgs (kv, Q, L)" and "history cfgs" and "m \<in> Q"
    and "so_UpgradeCfg op = cfgs m" and "upgradeConfig kv op = Some kv'"
  shows "group_inv cfgs (kv', Q, L)"
proof -
  from assms(1) obtain n where n: "0 \<le> n" "sk_cfg kv = cfgs n" "wf_sk kv" "sk_gid kv \<noteq> 0"
    and ok: "\<And>s. s < NShards \<Longrightarrow> shard_ok cfgs L kv n s"
    and q: "\<And>m. m \<in> Q \<Longrightarrow> 0 \<le> m \<and> m \<le> n + 1 \<and> (m = n + 1 \<longrightarrow> settled cfgs kv n)"
    by (auto simp: group_inv_def)
  note h = historyD [OF assms(2)]
  have len: "length (Shards (so_UpgradeCfg op)) = NShards" using h(3) [of m] q [OF assms(3)] assms(4) by simp
  show ?thesis
  proof (cases "m \<le> n")
    case True
    then have "kv' = kv" using assms(5) n q [OF assms(3)] h(2) [of n] h(2) [of m]
      by (simp add: upgradeConfig_eq [OF n(3) len] assms(4))
    then show ?thesis using assms(1) by simp
  next
    case False
    with q [OF assms(3)] have m: "m = n + 1" and st: "settled cfgs kv n" by auto
    have kv': "kv' = kv\<lparr>sk_shards := map (\<lambda>i. if Shards (cfgs m) ! i = sk_gid kv \<and> Shards (cfgs n) ! i = 0
            then \<lparr>sh_Data = Some Map.empty, sh_ConfigNum = m\<rparr> else sk_shards kv ! i) [0..<NShards],
          sk_lastCfg := cfgs n, sk_cfg := cfgs m\<rparr>"
      using assms(5) n m h(2) [of n] h(2) [of m]
      by (simp add: upgradeConfig_eq [OF n(3) len] assms(4) cong: if_cong)
    have "shard_ok cfgs L kv' m s" if s: "s < NShards" for s
    proof -
      note exact = settled_exact [OF st ok [OF s] s]
      have "sh_ConfigNum (sk_shards kv ! s) \<le> n" using ok [OF s] by (simp add: shard_ok_def)
      then show ?thesis using exact s m n(1,4) by (auto simp: shard_ok_def kv' owns_def)
    qed
    moreover have "wf_sk kv'" using n(2,3) h(3) [of m] m n(1) by (simp add: kv' wf_sk_def)
    moreover have "k \<le> m + 1 \<and> k \<noteq> m + 1 \<and> 0 \<le> k" if "k \<in> Q" for k using q [OF that] m by simp
    moreover have "sk_gid kv' \<noteq> 0" "sk_cfg kv' = cfgs m" "sk_lastCfg kv' = cfgs (max 0 (m - 1))" "0 \<le> m"
      using n m by (simp_all add: kv')
    ultimately show ?thesis unfolding group_inv_def by auto
  qed
qed

lemma group_inv_client:
  assumes "group_inv cfgs (kv, Q, L)" and "data_op op" and "applyCmd kv op = Some (kv', err)"
  shows "group_inv cfgs (kv', Q, L)"
proof -
  have wf: "wf_sk kv" using assms(1) by (simp add: group_inv_def)
  have ap: "applyData kv op = Some (kv', err)" using assms(2,3) by (simp add: applyCmd_data)
  note frame = applyData_frame [OF wf ap]
  show ?thesis
    by (rule group_inv_keep [OF assms(1)]) (use frame in \<open>simp_all add: shard_ok_def owns_def\<close>)
qed

lemma group_inv_receive:
  assumes "group_inv cfgs (kv, Q, L)" and "history cfgs" and "0 \<le> m" and "sk_cfg sender = cfgs m" and "s < NShards"
    and "Shards (cfgs m) ! s = sk_gid kv" and "applyCmd kv (addShardOp (fst (sendShard sender s))) = Some (kv', err)"
  shows "group_inv cfgs (kv', Q, L)"
proof -
  let ?op = "addShardOp (fst (sendShard sender s))"
  have wf: "wf_sk kv" using assms(1) by (simp add: group_inv_def)
  then have len: "length (sk_shards kv) = NShards" by (simp add: wf_sk_def)
  note h = historyD [OF assms(2)]
  have op: "so_OpType ?op = AddShardOp" "so_SequenceId ?op = m" "so_ShardId ?op = int s"
    "sh_ConfigNum (so_Shard ?op) = m" "sh_Data (so_Shard ?op) \<noteq> None"
    using assms(3,4) h(2) [of m] by (simp_all add: addShardOp_def sendShard_def cloneShard_def)
  show ?thesis
  proof (cases "m = Num (sk_cfg kv) \<and> sh_Data (sk_shards kv ! s) = None")
    case False
    then have "kv' = kv"
      using assms(5,7) op by (auto simp: applyCmd_def addShard_eq [OF wf] sk_types split: if_splits)
    then show ?thesis using assms(1) by simp
  next
    case True
    then have kv': "kv' = kv\<lparr>sk_shards := (sk_shards kv)[s := cloneShard m (sh_Data (so_Shard ?op))],
        sk_duptable := mergeDup (sk_duptable kv) (so_Duptable ?op)\<rparr>"
      using assms(5,7) op by (simp add: applyCmd_def addShard_eq [OF wf] sk_types)
    show ?thesis
    proof (rule group_inv_keep [OF assms(1)])
      show "wf_sk kv'" using wf by (simp add: kv' wf_sk_def)
      fix n t assume t: "t < NShards" "sk_cfg kv = cfgs n" "0 \<le> n" "shard_ok cfgs L kv n t"
      then have "m = n" using True h(2) [of n] by simp
      then show "shard_ok cfgs L kv' n t \<and> sh_ConfigNum (sk_shards kv ! t) \<le> sh_ConfigNum (sk_shards kv' ! t)"
        using t assms(6) len by (cases "t = s") (simp_all add: kv' shard_ok_def owns_def cloneShard_def)
    qed (simp_all add: kv')
  qed
qed

lemma group_inv_remove:
  assumes "group_inv cfgs (kv, Q, L)" and "history cfgs" and "0 \<le> m" and "m \<le> Num (sk_cfg kv)" and "sk_cfg kv0 = cfgs m"
    and "ssa_ShardId args = int s" and "s < NShards" and "applyCmd kv (removeOp kv0 args) = Some (kv', err)"
    and "L' = (if m = Num (sk_cfg kv) \<and> Shards (sk_cfg kv) ! s = sk_gid kv then insert s L else L)"
  shows "group_inv cfgs (kv', Q, L')"
proof -
  let ?op = "removeOp kv0 args"
  have wf: "wf_sk kv" using assms(1) by (simp add: group_inv_def)
  then have len: "length (sk_shards kv) = NShards" by (simp add: wf_sk_def)
  note h = historyD [OF assms(2)]
  have op: "so_OpType ?op = RemoveShardOp" "so_SequenceId ?op = m" "so_ShardId ?op = int s"
    using assms(3,5,6) h(2) [of m] by (simp_all add: removeOp_def)
  show ?thesis
  proof (cases "m = Num (sk_cfg kv)")
    case False
    then have "kv' = kv"
      using assms(4,7,8) op by (simp add: applyCmd_def removeShard_eq [OF wf] sk_types)
    then show ?thesis using assms(1,9) False by simp
  next
    case True
    then have kv': "kv' = kv\<lparr>sk_shards := (sk_shards kv)[s := \<lparr>sh_Data = None, sh_ConfigNum = m\<rparr>]\<rparr>"
      using assms(7,8) op by (simp add: applyCmd_def removeShard_eq [OF wf] sk_types)
    show ?thesis
    proof (rule group_inv_keep [OF assms(1)])
      show "wf_sk kv'" using wf by (simp add: kv' wf_sk_def)
      fix n t assume t: "t < NShards" "sk_cfg kv = cfgs n" "0 \<le> n" "shard_ok cfgs L kv n t"
      then have "m = n" using True h(2) [of n] by simp
      then show "shard_ok cfgs L' kv' n t \<and> sh_ConfigNum (sk_shards kv ! t) \<le> sh_ConfigNum (sk_shards kv' ! t)"
        using t assms(9) True len by (cases "t = s") (simp_all add: kv' shard_ok_def owns_def)
    qed (simp_all add: kv')
  qed
qed

lemma group_inv_step:
  assumes "group_step cfgs st st'" and "history cfgs" and "group_inv cfgs st"
  shows "group_inv cfgs st'"
  using assms(1,3)
proof cases
  case (ask kv n Q L)
  from assms(3) ask(1) obtain k where k: "0 \<le> k" "sk_cfg kv = cfgs k" "sk_lastCfg kv = cfgs (max 0 (k - 1))"
    "wf_sk kv" "sk_gid kv \<noteq> 0" "\<forall>s<NShards. shard_ok cfgs L kv k s"
    "\<forall>m \<in> Q. 0 \<le> m \<and> m \<le> k + 1 \<and> (m = k + 1 \<longrightarrow> settled cfgs kv k)"
    by (auto simp: group_inv_def)
  with ready_settled [OF k(4) assms(2) k(5) k(1-3) ask(3)] ask(2) show ?thesis
    unfolding group_inv_def by auto
next
  case (upgrade n Q kv0 op kv kv' err L)
  have op: "so_UpgradeCfg op = cfgs n" "so_OpType op = UpgradeConfig"
    using upgrade(4) by (auto simp: upgradeOp_def split: if_splits)
  then have "upgradeConfig kv op = Some kv'" using upgrade(5) by (auto simp: applyCmd_def sk_types)
  with group_inv_upgrade [OF _ assms(2) upgrade(3) op(1)] assms(3) upgrade(1,2) show ?thesis by simp
next
  case (client op kv kv' err Q L)
  with assms(3) show ?thesis using group_inv_client by blast
next
  case (receive n sender s kv kv' err Q L)
  with assms(3) show ?thesis using group_inv_receive [OF _ assms(2)] by blast
next
  case (remove n kv kv0 args s kv' err Q L)
  with assms(3) show ?thesis using group_inv_remove [OF _ assms(2), of kv Q L n kv0 args s kv' err] by simp
qed

lemma group_inv_init:
  assumes "group_init st" and "history cfgs"
  shows "group_inv cfgs st"
proof -
  obtain kv where st: "st = (kv, {}, {})" using assms(1) by (cases st) (simp add: group_init_def)
  with assms(1) obtain n self limit where "sk_gid kv \<noteq> 0"
    and kv: "skStartServer n self MakePersister limit (sk_gid kv) = Some kv" by (auto simp: group_init_def)
  moreover have "sk_cfg kv = emptyConfig" "sk_lastCfg kv = emptyConfig"
    "sk_shards kv = replicate NShards \<lparr>sh_Data = None, sh_ConfigNum = 0\<rparr>"
    using arg_cong [OF kv, of "\<lambda>x. sk_cfg (the x)"] arg_cong [OF kv, of "\<lambda>x. sk_lastCfg (the x)"]
      arg_cong [OF kv, of "\<lambda>x. sk_shards (the x)"] by (simp_all add: skStartServer_fresh)
  moreover have "\<not> owns cfgs kv 0 s" if "s < NShards" for s
    using that calculation(1) historyD(1) [OF assms(2)] by (simp add: owns_def emptyConfig_def)
  ultimately show ?thesis
    using skStartServer_wf [OF kv] historyD(1) [OF assms(2)]
    unfolding group_inv_def st by (auto simp: shard_ok_def intro!: exI [of _ 0])
qed

interpretation group: inductive_invariant "\<lambda>st. group_init st \<and> history cfgs" "group_step cfgs"
  "\<lambda>st. group_inv cfgs st \<and> history cfgs" for cfgs
  by unfold_locales (auto intro: group_inv_init group_inv_step)

text \<open>C27: shards and configurations.  In every reachable state of a group, also if removals are submitted late, a server
  holds data only of shards that its group owns in the current or owned in the previous
  configuration.  When the watch loop asks for the next configuration, the server holds only shards that the current
  configuration assigns to its group, and all of them but those that have been hit by a removal, submitted too late, while the group owned
  them (for those see \<open>late_removal_loses_shard\<close>).\<close>

theorem group_holds_its_shards:
  assumes "history cfgs" and "reach (\<lambda>st. group_init st \<and> history cfgs) (group_step cfgs) (kv, Q, L)"
  shows "(\<forall>s<NShards. sh_Data (sk_shards kv ! s) \<noteq> None \<longrightarrow>
      Shards (sk_cfg kv) ! s = sk_gid kv \<or> Shards (sk_lastCfg kv) ! s = sk_gid kv) \<and>
    (\<forall>m. watchRound kv = QueryNext m \<longrightarrow>
      (\<forall>s<NShards. (sh_Data (sk_shards kv ! s) \<noteq> None \<longrightarrow> Shards (sk_cfg kv) ! s = sk_gid kv) \<and>
         (Shards (sk_cfg kv) ! s = sk_gid kv \<and> s \<notin> L \<longrightarrow> sh_Data (sk_shards kv ! s) \<noteq> None)))"
proof -
  from group.inv_reach [OF assms(2)] obtain n where n: "0 \<le> n" "sk_cfg kv = cfgs n"
    "sk_lastCfg kv = cfgs (max 0 (n - 1))" "wf_sk kv" "sk_gid kv \<noteq> 0" "\<forall>s<NShards. shard_ok cfgs L kv n s"
    by (auto simp: group_inv_def)
  have "Shards (sk_cfg kv) ! s = sk_gid kv \<or> Shards (sk_lastCfg kv) ! s = sk_gid kv"
    if "s < NShards" "sh_Data (sk_shards kv ! s) \<noteq> None" for s
    using n(1-3,6) that by (force simp: shard_ok_def owns_def max_def)
  moreover have "(sh_Data (sk_shards kv ! s) \<noteq> None \<longrightarrow> Shards (sk_cfg kv) ! s = sk_gid kv) \<and>
      (Shards (sk_cfg kv) ! s = sk_gid kv \<and> s \<notin> L \<longrightarrow> sh_Data (sk_shards kv ! s) \<noteq> None)"
    if "watchRound kv = QueryNext m" "s < NShards" for m s
    using ready_settled [OF n(4) assms(1) n(5,1-3) that(1)] settled_exact [of cfgs kv n L s] n(1,2,6) that(2)
    by (simp add: owns_def)
  ultimately show ?thesis by blast
qed

definition ex_history :: "int \<Rightarrow> Config" where
  "ex_history n = (if n = 0 then emptyConfig else ex_cfg n 7)"

lemma ex_history: "history ex_history"
  by (simp add: history_def ex_history_def ex_cfg_def emptyConfig_def)

lemma watchRound_ready:
  "isAllSent kv \<Longrightarrow> isAllReceived kv \<Longrightarrow> n = Num (sk_cfg kv) + 1 \<Longrightarrow> watchRound kv = QueryNext n"
  by (simp add: watchRound_def)

theorem group_holds_its_shards_witness:
  "sh_Data (sk_shards (fst (the (applyCmd (ex_sk 7) (ex_upgradeTo 1 7)))) ! 9) \<noteq> None"
proof -
  let ?st = "\<lambda>st. group_init st \<and> history ex_history" and ?a = "applyCmd (ex_sk 7) (ex_upgradeTo 1 7)"
  let ?kv = "fst (the ?a)"
  have gid: "sk_gid (ex_sk 7) = 7" "isAllSent (ex_sk 7)" "isAllReceived (ex_sk 7)" "1 = Num (sk_cfg (ex_sk 7)) + 1"
    by code_simp+
  have "skStartServer 3 0 MakePersister (-1) 7 = Some (ex_sk 7)" by (simp add: ex_sk_def skStartServer_fresh)
  then have "?st (ex_sk 7, {}, {})" using gid(1) ex_history by (auto simp: group_init_def)
  then have "reach ?st (group_step ex_history) (ex_sk 7, {}, {})" by (rule reach_init)
  then have one: "reach ?st (group_step ex_history) (ex_sk 7, {1}, {})"
    using ask [OF watchRound_ready [OF gid(2,3,4)], of ex_history "{}" "{}"] by (metis reach_step)
  have up: "upgradeOp (ex_sk 7) (1 - 1) (ex_history 1) = Some (ex_upgradeTo 1 7)"
    using gid(1) by (simp add: upgradeOp_def ex_history_def ex_upgradeTo_def ex_cfg_def)
  have "\<not> Option.is_none ?a" by code_simp
  then have ap: "?a = Some (?kv, snd (the ?a))" by (cases ?a) simp_all
  have "group_step ex_history (ex_sk 7, {1}, {}) (?kv, {1}, {})" by (rule upgrade [where n = 1 and cfgs = ex_history, OF _ up ap]) simp
  with one have r: "reach ?st (group_step ex_history) (?kv, {1}, {})" by (rule reach_step)
  have rd: "isAllSent ?kv" "isAllReceived ?kv" "2 = Num (sk_cfg ?kv) + 1" by code_simp+
  have "9 < NShards" "Shards (sk_cfg ?kv) ! 9 = sk_gid ?kv" by code_simp+
  with group_holds_its_shards [OF ex_history r] watchRound_ready [OF rd] show ?thesis by (metis empty_iff)
qed

subsection \<open>A removal that comes too late\<close>

text \<open>C32: a late removal loses a shard.  The goroutine that has sent a shard takes the configuration number for its
  \<^verbatim>\<open>RemoveShard\<close> from the server at the time it submits the command, not from the configuration for
  which it sent the shard.  If the group has moved on by then, to a configuration that gives it the
  shard back, the command is not recognised as outdated: it deletes the data of a shard the group
  owns.  The server takes the shard for received, so it goes on to the next configuration, and it
  answers every operation on the shard with \<^verbatim>\<open>ShardNotArrived\<close>.\<close>

theorem late_removal_loses_shard:
  assumes "wf_sk old" and "leaving old s" and "s < NShards" and "args = fst (sendShard old s)"
    and "wf_sk kv" and "Num (sk_cfg old) < Num (sk_cfg kv)" and "Shards (sk_cfg kv) ! s = sk_gid kv"
  shows "\<exists>kv'. applyCmd kv (removeOp kv args) = Some (kv', skOK) \<and> sh_Data (sk_shards kv' ! s) = None \<and>
    Shards (sk_cfg kv') ! s = sk_gid kv' \<and> \<not> arriving kv' s \<and>
    (\<forall>op. data_op op \<and> nat (key2shard (so_Key op)) = s \<longrightarrow> applyCmd kv' op = Some (kv', ShardNotArrived))"
proof -
  let ?kv = "kv\<lparr>sk_shards := (sk_shards kv)[s := \<lparr>sh_Data = None, sh_ConfigNum = Num (sk_cfg kv)\<rparr>]\<rparr>"
  have wf: "wf_sk ?kv" and len: "length (sk_shards kv) = NShards" using assms(5) by (simp_all add: wf_sk_def)
  have "applyCmd kv (removeOp kv args) = Some (?kv, skOK)"
    using assms(3,4) by (simp add: applyCmd_def removeOp_def removeShard_eq [OF assms(5)] sk_types sendShard_def)
  moreover have "applyCmd ?kv op = Some (?kv, ShardNotArrived)"
    if "data_op op" "nat (key2shard (so_Key op)) = s" for op
    using that assms(3,7) len by (simp add: applyCmd_data applyData_eq [OF wf refl])
  ultimately show ?thesis using assms(3,7) len by (auto simp: arriving_def)
qed

theorem late_removal_loses_shard_witness:
  "\<exists>kv'. applyCmd (ex_run ex_from [ex_upgradeTo 3 7]) (removeOp (ex_run ex_from [ex_upgradeTo 3 7])
      (fst (sendShard ex_from 7))) = Some (kv', skOK) \<and>
     applyCmd kv' (ex_append ''b'' 2) = Some (kv', ShardNotArrived)"
proof -
  let ?kv = "ex_run ex_from [ex_upgradeTo 3 7]"
  have wf: "wf_sk ex_from" "wf_sk ?kv" by code_simp+
  have s: "7 < NShards" "leaving ex_from 7" by code_simp+
  have c: "Num (sk_cfg ex_from) < Num (sk_cfg ?kv)" "Shards (sk_cfg ?kv) ! 7 = sk_gid ?kv" by code_simp+
  have op: "data_op (ex_append ''b'' 2)" "nat (key2shard (so_Key (ex_append ''b'' 2))) = 7" by code_simp+
  from late_removal_loses_shard [OF wf(1) s(2,1) refl wf(2) c] op show ?thesis by blast
qed

subsection \<open>A shard that goes to nobody\<close>

text \<open>No group left.  When the current configuration assigns a shard to group 0, which has no servers, the list
  of servers for the shard is empty, so the sending goroutine indexes an empty slice and the leader
  of the old owner panics in its first round.\<close>

lemma no_group_panics:
  assumes "wf_sk kv" and "s < NShards" and "leaving kv s" and "Shards (sk_cfg kv) ! s = 0"
    and "fmlookup (Groups (sk_cfg kv)) 0 = None"
  shows "\<exists>sends. watchRound kv = Send sends \<and>
    (\<exists>args. (args, []) \<in> set sends \<and> ssa_ShardId args = int s \<and> sendTarget [] 0 = None)"
proof -
  have len: "s < length (Shards (sk_lastCfg kv))" using assms(1,2) by (simp add: wf_sk_def)
  then have "\<not> isAllSent kv" using assms(3) by (auto simp: isAllSent_def)
  moreover have pr: "sendShard kv s = (fst (sendShard kv s), [])" "ssa_ShardId (fst (sendShard kv s)) = int s"
    using assms(4,5) by (simp_all add: sendShard_def)
  moreover have "sendShard kv s \<in> set (map (sendShard kv) (filter (leaving kv) [0..<length (Shards (sk_lastCfg kv))]))"
    using assms(3) len by simp
  moreover have "sendTarget [] 0 = None" by (simp add: sendTarget_def idx_def)
  ultimately show ?thesis unfolding watchRound_def by metis
qed

text \<open>The configurations of a controller after two groups have joined and left again, and a server
  of the first group that follows them.\<close>

definition ex_leave :: ScOp where
  "ex_leave = \<lparr>sc_Type = LEAVE, sc_Args = LeaveA \<lparr>la_GIDs = [1, 2], la_ClientId = 5, la_SequenceId = 1\<rparr>,
     sc_ClientId = 5, sc_SequenceId = 1\<rparr>"

definition ex_left :: "Config list" where
  "ex_left = snd (the (for_loop [ex_join, ex_leave] (applySc sorted_list_of_fset) (Map.empty, [emptyConfig])))"

definition ex_last :: ShardKV where
  "ex_last = ex_run (ex_sk 1) (map (\<lambda>c. blankOp\<lparr>so_OpType := UpgradeConfig, so_UpgradeCfg := c\<rparr>) (tl ex_left))"

subsection \<open>Replicas of a group\<close>

text \<open>
  What a snapshot holds is all the state that the commands depend on, besides the group.  The
  abstract service works on snapshots; \<open>sk_frame gid st\<close> is some server of the group in that state.
\<close>

definition sk_frame :: "int \<Rightarrow> SkSnapshot \<Rightarrow> ShardKV" where
  "sk_frame gid st = decodeSnapShot (the (skStartServer 1 0 MakePersister 0 gid)) (Some st)"

definition sk_ap :: "int \<Rightarrow> SkOp \<Rightarrow> SkSnapshot \<Rightarrow> SkSnapshot" where
  "sk_ap gid op st = (case applyCmd (sk_frame gid st) op of None \<Rightarrow> st | Some (kv, err) \<Rightarrow> encodeSnapShot kv)"

fun sk_deliver :: "int \<Rightarrow> (SkOp, SkSnapshot) delivery \<Rightarrow> int \<times> SkSnapshot \<Rightarrow> int \<times> SkSnapshot" where
  "sk_deliver gid (Cmd k op) (i, st) = (k, sk_ap gid op st)"
| "sk_deliver gid (Snap k t) (i, st) = (k, t)"

definition sk_msg :: "(SkOp, SkSnapshot) delivery \<Rightarrow> (SkOp, SkSnapshot) ApplyMsg \<Rightarrow> bool" where
  "sk_msg d msg \<longleftrightarrow> (case d of
     Cmd k op \<Rightarrow> CommandValid msg \<and> CommandIndex msg = k \<and> am_Command msg = Some op
   | Snap k st \<Rightarrow> \<not> CommandValid msg \<and> SnapshotValid msg \<and> SnapshotIndex msg = k \<and>
       am_Snapshot msg = Some st)"

interpretation sk_log: replicated_service "sk_ap gid" st0 id "sk_deliver gid" for gid st0
  by unfold_locales simp_all

lemma map_bind: "map_option f (Option.bind m g) = Option.bind m (\<lambda>x. map_option f (g x))"
  by (cases m) simp_all

lemma map_pair_cong:
  "map_option f x = map_option f y \<Longrightarrow> map_option (\<lambda>k. (f k, e)) x = map_option (\<lambda>k. (f k, e)) y"
  by (cases x; cases y) simp_all

text \<open>A command on two servers of one group with the same snapshot state.\<close>

lemma applyCmd_abs:
  assumes "encodeSnapShot kv = encodeSnapShot kw" and "sk_gid kv = sk_gid kw"
  shows "map_option (\<lambda>(k, e). (encodeSnapShot k, e)) (applyCmd kv op) =
    map_option (\<lambda>(k, e). (encodeSnapShot k, e)) (applyCmd kw op)"
proof -
  have eq: "sk_shards kv = sk_shards kw" "sk_duptable kv = sk_duptable kw" "sk_cfg kv = sk_cfg kw"
    "sk_lastCfg kv = sk_lastCfg kw" "sk_maxRaftState kv = sk_maxRaftState kw"
    using assms(1) by (simp_all add: encodeSnapShot_def)
  note defs = applyData_def upgradeConfig_def addShard_def removeShard_def encodeSnapShot_def
  have "map_option (\<lambda>(k, e). (encodeSnapShot k, e)) (applyData kv op) =
      map_option (\<lambda>(k, e). (encodeSnapShot k, e)) (applyData kw op)"
    by (simp add: defs eq assms(2) Let_def case_prod_unfold map_bind if_distrib [of "map_option f" for f]
        option.case_distrib [of "map_option f" for f] cong: option.case_cong if_cong)
  moreover have "map_option encodeSnapShot (upgradeConfig kv op) = map_option encodeSnapShot (upgradeConfig kw op)"
    "map_option encodeSnapShot (addShard kv op) = map_option encodeSnapShot (addShard kw op)"
    "map_option encodeSnapShot (removeShard kv op) = map_option encodeSnapShot (removeShard kw op)"
    by (simp_all add: defs eq assms(2) map_bind if_distrib [of "map_option f" for f] cong: if_cong)
  note same = this [THEN map_pair_cong, of skOK]
  ultimately show ?thesis
    using assms(1) by (simp add: applyCmd_def eq(3) option.map_comp comp_def same)
qed

lemma sk_frame_simps [simp]: "encodeSnapShot (sk_frame gid st) = st" "sk_gid (sk_frame gid st) = gid"
  by (simp_all add: sk_frame_def skStartServer_fresh decodeSnapShot_def encodeSnapShot_def)

lemma applyCmd_gid: "applyCmd kv op = Some (kv', err) \<Longrightarrow> sk_gid kv' = sk_gid kv"
  by (auto simp: applyCmd_def applyData_def upgradeConfig_def addShard_def removeShard_def bind_convs Let_def
      case_prod_unfold split: if_splits option.splits)

lemma applyCmd_sk_ap:
  assumes "applyCmd kv op = Some (kv', err)"
  shows "encodeSnapShot kv' = sk_ap (sk_gid kv) op (encodeSnapShot kv)"
  using applyCmd_abs [of kv "sk_frame (sk_gid kv) (encodeSnapShot kv)" op] assms
  by (auto simp: sk_ap_def split: option.splits)

lemma skWaitCh_abs:
  "encodeSnapShot (fst (skWaitCh kv i)) = encodeSnapShot kv" "sk_gid (fst (skWaitCh kv i)) = sk_gid kv"
  by (simp_all add: skWaitCh_def encodeSnapShot_def Let_def split: option.splits prod.splits)

lemma skApply_refines:
  assumes "skApply sz kv msg = Some kv'" and "sk_msg d msg"
  shows "encodeSnapShot kv' = snd (sk_deliver (sk_gid kv) d (i, encodeSnapShot kv)) \<and> sk_gid kv' = sk_gid kv"
proof (cases d)
  case (Cmd k op)
  then have msg: "CommandValid msg" "CommandIndex msg = k" "am_Command msg = Some op"
    using assms(2) by (simp_all add: sk_msg_def)
  from assms(1) obtain kv3 out where b: "skApplyBegin sz kv msg = Some (kv3, out)"
    and s: "(case out of None \<Rightarrow> Some kv3 | Some (c, r) \<Rightarrow> skApplySend kv3 c r) = Some kv'"
    by (auto simp: skApply_def bind_convs)
  from s have kv': "encodeSnapShot kv' = encodeSnapShot kv3" "sk_gid kv' = sk_gid kv3"
    by (auto simp: skApplySend_def bind_convs encodeSnapShot_def split: option.splits)
  from b msg obtain kv1 err kv2 where one: "applyCmd kv op = Some (kv1, err)"
    and two: "kv2 = kv1 \<or> (\<exists>rf'. kv2 = kv1\<lparr>sk_rf := rf'\<rparr>)" and w: "kv3 = fst (skWaitCh kv2 k)"
    by (auto simp: skApplyBegin_def bind_convs Let_def case_prod_unfold split: if_splits)
  have "encodeSnapShot kv2 = encodeSnapShot kv1" "sk_gid kv2 = sk_gid kv1"
    using two by (auto simp: encodeSnapShot_def)
  then show ?thesis
    using kv' w applyCmd_sk_ap [OF one] applyCmd_gid [OF one] Cmd by (simp add: skWaitCh_abs)
next
  case (Snap k st)
  with assms show ?thesis
    by (auto simp: sk_msg_def skApply_def skApplyBegin_def bind_convs decodeSnapShot_def encodeSnapShot_def)
qed

lemma skApply_run:
  assumes "for_loop msgs (\<lambda>m kv. skApply sz kv m) kv = Some kv'" and "list_all2 sk_msg ds msgs"
  shows "encodeSnapShot kv' = snd (fold (sk_deliver (sk_gid kv)) ds (i, encodeSnapShot kv))"
  using assms(2,1)
proof (induction ds msgs arbitrary: kv i rule: list_all2_induct)
  case (Cons d ds m msgs)
  then obtain kv1 where one: "skApply sz kv m = Some kv1"
    and rest: "for_loop msgs (\<lambda>m kv. skApply sz kv m) kv1 = Some kv'" by (auto split: option.splits)
  let ?p = "sk_deliver (sk_gid kv) d (i, encodeSnapShot kv)"
  have "encodeSnapShot kv1 = snd ?p" "sk_gid kv1 = sk_gid kv"
    using skApply_refines [OF one Cons.hyps(1), of i] by simp_all
  then show ?case using Cons.IH [OF rest, of "fst ?p"] by simp
qed simp

definition sk_start :: "int \<Rightarrow> SkSnapshot" where
  "sk_start limit = \<lparr>sks_Shards = replicate NShards \<lparr>sh_Data = None, sh_ConfigNum = 0\<rparr>,
     sks_Duptable = Map.empty, sks_MaxRaftState = limit, sks_Cfg = emptyConfig, sks_LastCfg = emptyConfig\<rparr>"

lemma skStartServer_abs:
  assumes "skStartServer n self MakePersister limit gid = Some kv"
  shows "encodeSnapShot kv = sk_start limit \<and> sk_gid kv = gid"
  using arg_cong [OF assms, of "\<lambda>x. encodeSnapShot (the x)"] arg_cong [OF assms, of "\<lambda>x. sk_gid (the x)"]
  by (simp add: skStartServer_fresh encodeSnapShot_def sk_start_def)

lemma sk_agree:
  assumes "skStartServer n a MakePersister limit gid = Some kva"
    and "skStartServer m b MakePersister limit gid = Some kvb"
    and "list_all2 sk_msg da msa" and "orderly False (sk_ap gid) (sk_start limit) id lg 0 da"
    and "list_all2 sk_msg db msb" and "orderly False (sk_ap gid) (sk_start limit) id lg 0 db"
    and "for_loop msa (\<lambda>x kv. skApply sz kv x) kva = Some kva'"
    and "for_loop msb (\<lambda>x kv. skApply sz kv x) kvb = Some kvb'"
    and "fold (\<lambda>d i. reached i d) da 0 = fold (\<lambda>d i. reached i d) db 0"
  shows "sk_shards kva' = sk_shards kvb' \<and> sk_duptable kva' = sk_duptable kvb' \<and>
    sk_cfg kva' = sk_cfg kvb' \<and> sk_lastCfg kva' = sk_lastCfg kvb'"
proof -
  let ?run = "\<lambda>ds. fold (sk_deliver gid) ds (0, sk_start limit)"
  have idx: "fst (fold (sk_deliver gid) ds (i, st)) = fold (\<lambda>d i. reached i d) ds i"
    if "orderly False (sk_ap gid) (sk_start limit) id lg i ds" for ds i st
    using that
  proof (induction ds arbitrary: i st)
    case (Cons d ds)
    have "fst (sk_deliver gid d (i, st)) = reached i d" using Cons.prems by (cases d) auto
    with Cons.IH [of "reached i d" "snd (sk_deliver gid d (i, st))"] Cons.prems show ?case
      by (metis fold_simps(2) orderly.simps(2) prod.collapse)
  qed simp
  have "?run da = ?run db"
    using sk_log.replicas_agree [OF assms(4,6)] idx [OF assms(4)] idx [OF assms(6)] assms(9) by simp
  moreover have "encodeSnapShot kva' = snd (?run da)" "encodeSnapShot kvb' = snd (?run db)"
    using skApply_run [OF assms(7,3), of 0] skApply_run [OF assms(8,5), of 0]
      skStartServer_abs [OF assms(1)] skStartServer_abs [OF assms(2)] by simp_all
  ultimately have "encodeSnapShot kva' = encodeSnapShot kvb'" by simp
  then show ?thesis by (simp add: encodeSnapShot_def)
qed

text \<open>C30: the replicas of a group agree, if Raft delivers in order.  Two servers of a group that start empty with the same snapshot
  limit and receive messages of one Raft log in order (each message is the next command, or a snapshot of a prefix of the log
  that brings the server to the end of this prefix), possibly different ones, hold the same shards, duplicate table and
  configurations whenever their last message has brought them to the same index.  (The peers do deliver in order until one of them
  installs a snapshot, see \<open>Raft_Apply\<close>; \<open>snapshot_overtaken\<close> shows how they may fail to do so then.)\<close>

theorem sk_replicas_agree:
  assumes "skStartServer n a MakePersister limit gid = Some kva"
    and "skStartServer m b MakePersister limit gid = Some kvb"
    and "list_all2 sk_msg da msa" and "orderly False (sk_ap gid) (sk_start limit) id lg 0 da"
    and "list_all2 sk_msg db msb" and "orderly False (sk_ap gid) (sk_start limit) id lg 0 db"
    and "for_loop msa (\<lambda>x kv. skApply sz kv x) kva = Some kva'"
    and "for_loop msb (\<lambda>x kv. skApply sz kv x) kvb = Some kvb'"
    and "fold (\<lambda>d i. reached i d) da 0 = fold (\<lambda>d i. reached i d) db 0"
  shows "sk_shards kva' = sk_shards kvb' \<and> sk_duptable kva' = sk_duptable kvb' \<and>
    sk_cfg kva' = sk_cfg kvb' \<and> sk_lastCfg kva' = sk_lastCfg kvb'"
  using assms by (rule sk_agree)

definition sk_cmd_msg :: "int \<Rightarrow> SkOp \<Rightarrow> (SkOp, SkSnapshot) ApplyMsg" where
  "sk_cmd_msg k op = \<lparr>CommandValid = True, am_Command = Some op, CommandIndex = k, CommandTerm = 1,
     SnapshotValid = False, am_Snapshot = None, SnapshotTerm = 0, SnapshotIndex = 0\<rparr>"

definition sk_snap_msg :: "int \<Rightarrow> SkSnapshot \<Rightarrow> (SkOp, SkSnapshot) ApplyMsg" where
  "sk_snap_msg k st = \<lparr>CommandValid = False, am_Command = None, CommandIndex = 0, CommandTerm = 0,
     SnapshotValid = True, am_Snapshot = Some st, SnapshotTerm = 1, SnapshotIndex = k\<rparr>"

definition ex_sklog :: "SkOp list" where
  "ex_sklog = [ex_upgradeTo 1 7, ex_append ''a'' 1]"

theorem sk_replicas_agree_witness:
  "\<exists>kv kv'. for_loop [sk_cmd_msg 1 (ex_upgradeTo 1 7), sk_cmd_msg 2 (ex_append ''a'' 1)]
      (\<lambda>x kv. skApply (\<lambda>_. 0) kv x) (ex_sk 7) = Some kv \<and>
    for_loop [sk_snap_msg 2 (state_at (sk_ap 7) (sk_start (-1)) ex_sklog 2)]
      (\<lambda>x kv. skApply (\<lambda>_. 0) kv x) (ex_sk 7) = Some kv' \<and>
    sk_shards kv = sk_shards kv' \<and> sk_lookup kv ''k'' = Some ''a''"
proof -
  let ?st = "state_at (sk_ap 7) (sk_start (-1)) ex_sklog 2"
  let ?da = "[Cmd 1 (ex_upgradeTo 1 7), Cmd 2 (ex_append ''a'' 1)]" and ?db = "[Snap 2 ?st]"
  let ?ma = "[sk_cmd_msg 1 (ex_upgradeTo 1 7), sk_cmd_msg 2 (ex_append ''a'' 1)]" and ?mb = "[sk_snap_msg 2 ?st]"
  let ?x = "for_loop ?ma (\<lambda>x kv. skApply (\<lambda>_. 0) kv x) (ex_sk 7)"
  let ?y = "for_loop ?mb (\<lambda>x kv. skApply (\<lambda>_. 0) kv x) (ex_sk 7)"
  have x: "?x = Some (the ?x)" and y: "?y = Some (the ?y)" by (rule returned, code_simp)+
  have st: "skStartServer 3 0 MakePersister (-1) 7 = Some (ex_sk 7)" by (simp add: ex_sk_def skStartServer_fresh)
  have ok: "list_all2 sk_msg ?da ?ma" "list_all2 sk_msg ?db ?mb"
    by (simp_all add: sk_msg_def sk_cmd_msg_def sk_snap_msg_def)
  have io: "orderly False (sk_ap 7) (sk_start (-1)) id ex_sklog 0 ?da"
    "orderly False (sk_ap 7) (sk_start (-1)) id ex_sklog 0 ?db" by (simp_all add: ex_sklog_def)
  have "fold (\<lambda>d i. reached i d) ?da 0 = fold (\<lambda>d i. reached i d) ?db 0" by simp
  from sk_replicas_agree [OF st st ok(1) io(1) ok(2) io(2) x y this]
  have "sk_shards (the ?x) = sk_shards (the ?y)" by blast
  moreover have "sk_lookup (the ?x) ''k'' = Some ''a''" by code_simp
  ultimately show ?thesis using x y by blast
qed

end
