(* ===== verification/Go_Unicode.thy ===== *)
theory Go_Unicode
  imports Main
begin

section \<open>Strings as UTF-8 (\<^verbatim>\<open>unicode/utf8\<close>, \<^verbatim>\<open>strings\<close>, \<^verbatim>\<open>encoding/json\<close>)\<close>

text \<open>
  A Go string is a sequence of bytes.  Loops over strings, \<^verbatim>\<open>strings.FieldsFunc\<close> and the JSON encoder read it as UTF-8; a byte that does not
  belong to a correct encoding counts as the rune U+FFFD.  Which runes are letters is a matter of the tables of the
  package \<^verbatim>\<open>unicode\<close>, a parameter where it is used.
\<close>

subsection \<open>Decoding\<close>

definition RuneError :: int where "RuneError = 0xFFFD"

definition byte :: "char \<Rightarrow> int" where "byte c = of_char c"

definition tail_byte :: "int \<Rightarrow> bool" where "tail_byte b \<longleftrightarrow> 0x80 \<le> b \<and> b \<le> 0xBF"

text \<open>The bytes that may follow the first byte of a rune of three and of four bytes.\<close>

definition second3 :: "int \<Rightarrow> int \<Rightarrow> bool" where
  "second3 b0 b1 \<longleftrightarrow> 0xE0 \<le> b0 \<and> b0 \<le> 0xEF \<and> tail_byte b1 \<and> (b0 = 0xE0 \<longrightarrow> 0xA0 \<le> b1) \<and> (b0 = 0xED \<longrightarrow> b1 \<le> 0x9F)"

definition second4 :: "int \<Rightarrow> int \<Rightarrow> bool" where
  "second4 b0 b1 \<longleftrightarrow> 0xF0 \<le> b0 \<and> b0 \<le> 0xF4 \<and> tail_byte b1 \<and> (b0 = 0xF0 \<longrightarrow> 0x90 \<le> b1) \<and> (b0 = 0xF4 \<longrightarrow> b1 \<le> 0x8F)"

text \<open>\<^verbatim>\<open>utf8.DecodeRuneInString\<close>: the first rune and the number of its bytes.\<close>

fun decode1 :: "int list \<Rightarrow> int \<times> nat" where
  "decode1 [] = (RuneError, 0)"
| "decode1 (b0 # bs) =
     (if b0 < 0x80 then (b0, 1)
      else case bs of
        [] \<Rightarrow> (RuneError, 1)
      | b1 # bs1 \<Rightarrow>
          if 0xC2 \<le> b0 \<and> b0 \<le> 0xDF \<and> tail_byte b1 then (b0 mod 32 * 64 + b1 mod 64, 2)
          else (case bs1 of
            [] \<Rightarrow> (RuneError, 1)
          | b2 # bs2 \<Rightarrow>
              if second3 b0 b1 \<and> tail_byte b2 then (b0 mod 16 * 4096 + b1 mod 64 * 64 + b2 mod 64, 3)
              else (case bs2 of
                [] \<Rightarrow> (RuneError, 1)
              | b3 # _ \<Rightarrow>
                  if second4 b0 b1 \<and> tail_byte b2 \<and> tail_byte b3
                  then (b0 mod 8 * 262144 + b1 mod 64 * 4096 + b2 mod 64 * 64 + b3 mod 64, 4)
                  else (RuneError, 1))))"

definition DecodeRuneInString :: "string \<Rightarrow> int \<times> nat" where
  "DecodeRuneInString s = decode1 (map byte (take 4 s))"

lemma decode1_size: "bs \<noteq> [] \<Longrightarrow> 0 < snd (decode1 bs) \<and> snd (decode1 bs) \<le> length bs"
  by (cases bs) (auto split: list.splits)

lemma DecodeRune_size: "s \<noteq> [] \<Longrightarrow> 0 < snd (DecodeRuneInString s) \<and> snd (DecodeRuneInString s) \<le> length s"
  using decode1_size [of "map byte (take 4 s)"] by (simp add: DecodeRuneInString_def)

text \<open>The loop \<^verbatim>\<open>for _, r := range s\<close>: the runes, each with its bytes.\<close>

lemma drop_shorter:
  assumes "s \<noteq> []" and "(r, n) = DecodeRuneInString s"
  shows "length (drop n s) < length s"
proof -
  have "snd (DecodeRuneInString s) = n" by (simp flip: assms(2))
  then show ?thesis using DecodeRune_size [OF assms(1)] assms(1) by (simp add: diff_less)
qed

function runes :: "string \<Rightarrow> (int \<times> string) list" where
  "runes s = (if s = [] then [] else case DecodeRuneInString s of (r, n) \<Rightarrow> (r, take n s) # runes (drop n s))"
  by pat_completeness auto

termination runes
  by (relation "measure length") (simp, unfold in_measure, rule drop_shorter)

declare runes.simps [simp del]

text \<open>A rune that stands for a byte that is not part of a correct encoding.\<close>

definition broken :: "int \<times> string \<Rightarrow> bool" where
  "broken = (\<lambda>(r, bs). r = RuneError \<and> length bs = 1)"

text \<open>\<^verbatim>\<open>utf8.EncodeRune\<close> of a rune that was decoded: its bytes, or those of U+FFFD.\<close>

definition rune_bytes :: "int \<times> string \<Rightarrow> string" where
  "rune_bytes p = (if broken p then [CHR 0xEF, CHR 0xBF, CHR 0xBD] else snd p)"

text \<open>What a string becomes when it is written and read by \<^verbatim>\<open>encoding/json\<close>.\<close>

definition json_string :: "string \<Rightarrow> string" where
  "json_string s = concat (map rune_bytes (runes s))"

definition valid_utf8 :: "string \<Rightarrow> bool" where
  "valid_utf8 s \<longleftrightarrow> (\<forall>p \<in> set (runes s). \<not> broken p)"

lemma concat_runes: "concat (map snd (runes s)) = s"
proof (induction s rule: runes.induct)
  case (1 s)
  show ?case
  proof (cases "s = []")
    case True
    then show ?thesis by (subst runes.simps) simp
  next
    case False
    obtain r n where d: "(r, n) = DecodeRuneInString s" by (cases "DecodeRuneInString s") simp
    have "concat (map snd (runes (drop n s))) = drop n s" by (rule 1 [OF False d])
    moreover have "runes s = (r, take n s) # runes (drop n s)" using False by (subst runes.simps) (simp flip: d)
    ultimately show ?thesis by simp
  qed
qed

lemma json_valid: "valid_utf8 s \<Longrightarrow> json_string s = s"
proof -
  assume "valid_utf8 s"
  then have "map rune_bytes (runes s) = map snd (runes s)" by (auto simp: valid_utf8_def rune_bytes_def)
  then show ?thesis unfolding json_string_def by (simp only: concat_runes)
qed

subsection \<open>Fields\<close>

text \<open>\<^verbatim>\<open>strings.FieldsFunc\<close>: the maximal non-empty stretches of runes that are not separators.\<close>

function fields :: "('a \<Rightarrow> bool) \<Rightarrow> 'a list \<Rightarrow> 'a list list" where
  "fields f s = (case dropWhile f s of
     [] \<Rightarrow> []
   | c # cs \<Rightarrow> (c # takeWhile (\<lambda>x. \<not> f x) cs) # fields f (dropWhile (\<lambda>x. \<not> f x) cs))"
  by pat_completeness auto

lemma dropWhile_shorter: "dropWhile f s = c # cs \<Longrightarrow> length (dropWhile g cs) < length s"
  using length_dropWhile_le [of f s] length_dropWhile_le [of g cs] by simp

termination fields
  by (relation "measure (\<lambda>(f, s). length s)") (simp_all add: dropWhile_shorter)

declare fields.simps [simp del]

definition FieldsFunc :: "(int \<Rightarrow> bool) \<Rightarrow> string \<Rightarrow> string list" where
  "FieldsFunc f s = map (\<lambda>ps. concat (map snd ps)) (fields (\<lambda>p. f (fst p)) (runes s))"

text \<open>The stretches, put together, are the list without separators; none is empty or has a separator in it.\<close>

lemma fields_words:
  "concat (fields f s) = filter (\<lambda>c. \<not> f c) s \<and> (\<forall>w \<in> set (fields f s). w \<noteq> [] \<and> (\<forall>c \<in> set w. \<not> f c))"
proof (induction f s rule: fields.induct)
  case (1 f s)
  have skip: "filter (\<lambda>c. \<not> f c) s = filter (\<lambda>c. \<not> f c) (dropWhile f s)" by (induction s) auto
  show ?case
  proof (cases "dropWhile f s")
    case Nil
    have "fields f s = []" by (subst fields.simps) (simp only: Nil list.case)
    moreover have "filter (\<lambda>c. \<not> f c) s = []" by (simp only: skip Nil filter.simps)
    ultimately show ?thesis by simp
  next
    case (Cons c cs)
    let ?w = "takeWhile (\<lambda>x. \<not> f x) cs" and ?r = "dropWhile (\<lambda>x. \<not> f x) cs"
    have c: "\<not> f c" using hd_dropWhile [of f s] Cons by simp
    have "filter (\<lambda>c. \<not> f c) cs = ?w @ filter (\<lambda>c. \<not> f c) ?r" by (induction cs) auto
    with c have A: "filter (\<lambda>c. \<not> f c) s = c # ?w @ filter (\<lambda>c. \<not> f c) ?r" unfolding skip Cons by simp
    have B: "fields f s = (c # ?w) # fields f ?r" by (subst fields.simps) (simp only: Cons list.case)
    have C: "\<forall>x \<in> set ?w. \<not> f x" using set_takeWhileD by fast
    have I: "concat (fields f ?r) = filter (\<lambda>c. \<not> f c) ?r"
      "\<forall>w \<in> set (fields f ?r). w \<noteq> [] \<and> (\<forall>c \<in> set w. \<not> f c)" using 1 [OF Cons] by blast+
    show ?thesis unfolding A B concat.simps I(1) using I(2) C c by (metis append_Cons list.distinct(1) set_ConsD)
  qed
qed

subsection \<open>Words are correct UTF-8\<close>

text \<open>A correct encoding is decoded in the same way wherever it stands.\<close>

lemma decode1_take:
  assumes "decode1 bs = (r, n)" and "\<not> (r = RuneError \<and> n = 1)" and "bs \<noteq> []"
  shows "decode1 (take n bs @ cs) = (r, n)"
  using assms by (cases bs) (auto split: list.splits if_splits)

lemma DecodeRune_take:
  assumes "DecodeRuneInString s = (r, n)" and "\<not> (r = RuneError \<and> n = 1)" and "s \<noteq> []"
  shows "DecodeRuneInString (take n s @ t) = (r, n)"
proof -
  let ?bs = "map byte (take 4 s)"
  have d: "decode1 ?bs = (r, n)" and ne: "?bs \<noteq> []" using assms(1,3) by (simp_all add: DecodeRuneInString_def)
  have n: "n \<le> 4" "n \<le> length s" using decode1_size [OF ne] d by simp_all
  then have "take 4 (take n s @ t) = take n s @ take (4 - n) t" by simp
  moreover have "map byte (take n s) = take n ?bs" using n by (simp add: take_map min_def)
  ultimately show ?thesis
    using decode1_take [OF d assms(2) ne, of "map byte (take (4 - n) t)"] by (simp add: DecodeRuneInString_def)
qed

definition solid :: "int \<times> string \<Rightarrow> bool" where
  "solid p \<longleftrightarrow> snd p \<noteq> [] \<and> \<not> broken p \<and> (\<forall>t. DecodeRuneInString (snd p @ t) = (fst p, length (snd p)))"

lemma runes_solid: "p \<in> set (runes s) \<Longrightarrow> \<not> broken p \<Longrightarrow> solid p"
proof (induction s rule: runes.induct)
  case (1 s)
  show ?case
  proof (cases "s = []")
    case True
    then have "runes s = []" by (subst runes.simps) simp
    then show ?thesis using 1(2) by simp
  next
    case False
    obtain r n where d: "(r, n) = DecodeRuneInString s" by (cases "DecodeRuneInString s") simp
    have n: "0 < n" "n \<le> length s" using DecodeRune_size [OF False] by (simp_all flip: d)
    have eq: "runes s = (r, take n s) # runes (drop n s)" using False by (subst runes.simps) (simp flip: d)
    show ?thesis
    proof (cases "p = (r, take n s)")
      case True
      have "\<not> (r = RuneError \<and> n = 1)" using 1(3) n True by (auto simp: broken_def)
      then have "\<forall>t. DecodeRuneInString (take n s @ t) = (r, n)" using DecodeRune_take [OF d [symmetric] _ False] by blast
      then show ?thesis using True 1(3) n False by (simp add: solid_def min_def)
    next
      case other: False
      then show ?thesis using 1(1) [OF False d] 1(2,3) eq by simp
    qed
  qed
qed

lemma runes_concat: "(\<And>p. p \<in> set ps \<Longrightarrow> solid p) \<Longrightarrow> runes (concat (map snd ps)) = ps"
proof (induction ps)
  case Nil
  show ?case by (subst runes.simps) simp
next
  case (Cons p ps)
  have p: "snd p \<noteq> []" "DecodeRuneInString (snd p @ concat (map snd ps)) = (fst p, length (snd p))"
    using Cons.prems [of p] by (simp_all add: solid_def)
  have "runes (concat (map snd (p # ps))) = (fst p, snd p) # runes (concat (map snd ps))"
    using p by (subst runes.simps) simp
  then show ?case using Cons by simp
qed

lemma FieldsFunc_valid:
  assumes "f RuneError" and "w \<in> set (FieldsFunc f s)"
  shows "valid_utf8 w"
proof -
  obtain ps where ps: "ps \<in> set (fields (\<lambda>p. f (fst p)) (runes s))" "w = concat (map snd ps)"
    using assms(2) by (auto simp: FieldsFunc_def)
  note F = fields_words [of "\<lambda>p. f (fst p)" "runes s"]
  have "set ps \<subseteq> set (concat (fields (\<lambda>p. f (fst p)) (runes s)))" using ps(1) by auto
  then have sub: "set ps \<subseteq> set (runes s)" using F by auto
  have nb: "\<not> broken p" if "p \<in> set ps" for p
  proof -
    have "\<not> f (fst p)" using F ps(1) that by blast
    then show ?thesis using assms(1) by (auto simp: broken_def)
  qed
  have "runes w = ps" unfolding ps(2) by (rule runes_concat) (use sub nb runes_solid in blast)
  then show ?thesis using nb by (simp add: valid_utf8_def)
qed

lemma valid_ascii: "(\<And>c. c \<in> set s \<Longrightarrow> byte c < 0x80) \<Longrightarrow> valid_utf8 s"
proof (induction s)
  case Nil
  show ?case by (simp add: valid_utf8_def) (subst runes.simps, simp)
next
  case (Cons c s)
  have "DecodeRuneInString (c # s) = (byte c, 1)" using Cons.prems [of c] by (simp add: DecodeRuneInString_def)
  then have "runes (c # s) = (byte c, [c]) # runes s" by (subst runes.simps) simp
  moreover have "\<not> broken (byte c, [c])" using Cons.prems [of c] by (simp add: broken_def RuneError_def)
  ultimately show ?case using Cons by (simp add: valid_utf8_def)
qed

end
