(* ===== verification/MapReduce.thy ===== *)
theory MapReduce
  imports Go_Prelude Go_Unicode "HOL-Library.Word" "HOL-Library.List_Lexorder" "HOL-Library.Char_ord"
begin

section \<open>MapReduce (\<^verbatim>\<open>mr\<close>)\<close>

text \<open>
  The coordinator of \<^verbatim>\<open>mr/coordinator.go\<close>, the messages of \<^verbatim>\<open>mr/rpc.go\<close> and the worker of
  \<^verbatim>\<open>mr/worker.go\<close>.  The functions \<^verbatim>\<open>mapf\<close> and \<^verbatim>\<open>reducef\<close> that a job loads are parameters, and so is
  \<^verbatim>\<open>sort.Sort\<close>, which is not stable: \<open>srt\<close> is any function that sorts by key.  Times are nanoseconds;
  \<^const>\<open>None\<close> is the zero time.

  A file is a text, or the sequence of the JSON records written to it, as they are read again: \<^verbatim>\<open>encoding/json\<close> replaces
  bytes that are not correct UTF-8.  File names are a datatype, so
  the inputs of a job are not called like its intermediate and output files.
\<close>

unbundle bit_operations_syntax

subsection \<open>Data\<close>

record KeyValue =
  Key :: string
  Value :: string

datatype TaskType = NoTask | Map | Reduce | Done

record GetTaskReply =
  gt_TaskType :: TaskType
  gt_TaskId :: int
  gt_NReduceTasks :: int
  gt_MapFileName :: string
  gt_NMapTasks :: int

record FinishedTaskArgs =
  ft_TaskType :: TaskType
  ft_TaskId :: int

record Coordinator =
  mapFiles :: "string list"
  nMapTasks :: int
  nReduceTasks :: int
  mapTasksFinished :: "bool list"
  mapTasksWhenAssigned :: "int option list"
  reduceTasksFinished :: "bool list"
  reduceTasksWhenAssigned :: "int option list"
  c_done :: bool

datatype fileName = InputFile string | InterFile int int | OutFile int

datatype content = Text string | Records "KeyValue list"

type_synonym files = "fileName \<rightharpoonup> content"

subsection \<open>Coordinator\<close>

definition MakeCoordinator :: "string list \<Rightarrow> nat \<Rightarrow> Coordinator" where
  "MakeCoordinator inputs nReduce =
     \<lparr>mapFiles = inputs, nMapTasks = int (length inputs), nReduceTasks = int nReduce,
      mapTasksFinished = replicate (length inputs) False,
      mapTasksWhenAssigned = replicate (length inputs) None,
      reduceTasksFinished = replicate nReduce False,
      reduceTasksWhenAssigned = replicate nReduce None, c_done = False\<rparr>"

text \<open>A task may be handed out: never assigned, or assigned more than ten seconds ago.\<close>

definition assignable :: "int \<Rightarrow> int option \<Rightarrow> bool" where
  "assignable now assigned = (case assigned of None \<Rightarrow> True | Some t \<Rightarrow> now - t > 10 * 10 ^ 9)"

text \<open>
  The inner loop over the tasks: the first unfinished task that may be handed out, otherwise whether
  all tasks are finished.
\<close>

datatype pick = Pick int | AllDone | SomeRunning

fun pickTask :: "int \<Rightarrow> int \<Rightarrow> bool \<Rightarrow> bool list \<Rightarrow> int option list \<Rightarrow> pick option" where
  "pickTask now i allDone [] assigned = Some (if allDone then AllDone else SomeRunning)"
| "pickTask now i allDone (True # finished) assigned = pickTask now (i + 1) allDone finished (tl assigned)"
| "pickTask now i allDone (False # finished) assigned = (case assigned of
     [] \<Rightarrow> None
   | a # as \<Rightarrow> if assignable now a then Some (Pick i) else pickTask now (i + 1) False finished as)"

text \<open>
  \<^verbatim>\<open>GetTask\<close>.  The handler is in the loop over the map tasks or in the loop over the reduce tasks; one
  pass ends with a reply, or with a wait for the condition variable in the same loop.
\<close>

datatype loop = MapLoop | ReduceLoop

definition taskReply :: "Coordinator \<Rightarrow> TaskType \<Rightarrow> int \<Rightarrow> string \<Rightarrow> GetTaskReply" where
  "taskReply c ty i file = \<lparr>gt_TaskType = ty, gt_TaskId = i, gt_NReduceTasks = nReduceTasks c,
     gt_MapFileName = file, gt_NMapTasks = nMapTasks c\<rparr>"

definition getReduceTask :: "int \<Rightarrow> Coordinator \<Rightarrow> (Coordinator \<times> (loop + GetTaskReply)) option" where
  "getReduceTask now c = do {
     p \<leftarrow> pickTask now 0 True (reduceTasksFinished c) (reduceTasksWhenAssigned c);
     (case p of
        Pick i \<Rightarrow> do {
          as \<leftarrow> set_idx (reduceTasksWhenAssigned c) i (Some now);
          Some (c\<lparr>reduceTasksWhenAssigned := as\<rparr>, Inr (taskReply c Reduce i []))
        }
      | SomeRunning \<Rightarrow> Some (c, Inl ReduceLoop)
      | AllDone \<Rightarrow> Some (c\<lparr>c_done := True\<rparr>, Inr (taskReply c Done 0 [])))
   }"

definition GetTask :: "int \<Rightarrow> loop \<Rightarrow> Coordinator \<Rightarrow> (Coordinator \<times> (loop + GetTaskReply)) option" where
  "GetTask now at c = (case at of
     ReduceLoop \<Rightarrow> getReduceTask now c
   | MapLoop \<Rightarrow> do {
       p \<leftarrow> pickTask now 0 True (mapTasksFinished c) (mapTasksWhenAssigned c);
       (case p of
          Pick i \<Rightarrow> do {
            file \<leftarrow> idx (mapFiles c) i;
            as \<leftarrow> set_idx (mapTasksWhenAssigned c) i (Some now);
            Some (c\<lparr>mapTasksWhenAssigned := as\<rparr>, Inr (taskReply c Map i file))
          }
        | SomeRunning \<Rightarrow> Some (c, Inl MapLoop)
        | AllDone \<Rightarrow> getReduceTask now c)
     })"

text \<open>\<^verbatim>\<open>FinishedTask\<close>; \<^const>\<open>Inl\<close> is the error for a task type that is not supported.\<close>

definition FinishedTask :: "Coordinator \<Rightarrow> FinishedTaskArgs \<Rightarrow> (string + Coordinator) option" where
  "FinishedTask c args =
     (if ft_TaskType args = Map then do {
        fs \<leftarrow> set_idx (mapTasksFinished c) (ft_TaskId args) True;
        Some (Inr (c\<lparr>mapTasksFinished := fs\<rparr>))
      }
      else if ft_TaskType args = Reduce then do {
        fs \<leftarrow> set_idx (reduceTasksFinished c) (ft_TaskId args) True;
        Some (Inr (c\<lparr>reduceTasksFinished := fs\<rparr>))
      }
      else Some (Inl ''coordinator: not support this task type''))"

definition isDone :: "Coordinator \<Rightarrow> bool" where
  "isDone c = c_done c"

subsection \<open>Worker\<close>

text \<open>The 32-bit FNV-1a hash of \<^verbatim>\<open>hash/fnv\<close>, and \<^verbatim>\<open>ihash\<close>.\<close>

definition fnv32a :: "string \<Rightarrow> 32 word" where
  "fnv32a s = fold (\<lambda>ch h. (h XOR of_nat (of_char ch)) * 16777619) s 2166136261"

definition ihash :: "string \<Rightarrow> int" where
  "ihash key = uint (fnv32a key AND 0x7fffffff)"

text \<open>The order of \<^verbatim>\<open>ByKey\<close>: strings are compared lexicographically.\<close>

definition ByKey_Less :: "KeyValue \<Rightarrow> KeyValue \<Rightarrow> bool" where
  "ByKey_Less a b \<longleftrightarrow> Key a < Key b"

text \<open>
  \<^verbatim>\<open>performMapTask\<close> up to the renames: read the input, run \<^verbatim>\<open>mapf\<close>, write each pair to the temporary file of
  its reduce task; \<^const>\<open>None\<close> is \<^verbatim>\<open>log.Fatalf\<close> or a panic.
\<close>

definition json_kv :: "KeyValue \<Rightarrow> KeyValue" where
  "json_kv kv = \<lparr>Key = json_string (Key kv), Value = json_string (Value kv)\<rparr>"

definition mapEncode :: "int \<Rightarrow> KeyValue \<Rightarrow> KeyValue list list \<Rightarrow> KeyValue list list option" where
  "mapEncode nReduce kv tmps = (if nReduce = 0 then None else do {
     old \<leftarrow> idx tmps (ihash (Key kv) mod nReduce);
     set_idx tmps (ihash (Key kv) mod nReduce) (old @ [json_kv kv])
   })"

definition mapTemps ::
  "(string \<Rightarrow> string \<Rightarrow> KeyValue list) \<Rightarrow> files \<Rightarrow> string \<Rightarrow> int \<Rightarrow> KeyValue list list option" where
  "mapTemps mapf fs fn nReduce = (case fs (InputFile fn) of
     Some (Text content) \<Rightarrow>
       for_loop (mapf fn content) (mapEncode nReduce) (replicate (nat nReduce) [])
   | _ \<Rightarrow> None)"

text \<open>The renames, one atomic operation each, in this order.\<close>

definition mapRenames :: "int \<Rightarrow> KeyValue list list \<Rightarrow> (fileName \<times> content) list" where
  "mapRenames taskN tmps = map (\<lambda>(r, kvs). (InterFile taskN (int r), Records kvs)) (enumerate 0 tmps)"

definition renameFile :: "fileName \<times> content \<Rightarrow> files \<Rightarrow> files" where
  "renameFile op fs = fs(fst op \<mapsto> snd op)"

definition performMapTask ::
  "(string \<Rightarrow> string \<Rightarrow> KeyValue list) \<Rightarrow> string \<Rightarrow> int \<Rightarrow> int \<Rightarrow> files \<Rightarrow> files option" where
  "performMapTask mapf fn taskN nReduce fs =
     map_option (\<lambda>tmps. fold renameFile (mapRenames taskN tmps) fs) (mapTemps mapf fs fn nReduce)"

text \<open>\<^verbatim>\<open>performReduce\<close>: read the intermediate files one by one, sort, group, write.\<close>

definition readInter :: "files \<Rightarrow> int \<Rightarrow> nat \<Rightarrow> KeyValue list \<Rightarrow> KeyValue list option" where
  "readInter fs taskN i kvs = (case fs (InterFile (int i) taskN) of
     Some (Records recs) \<Rightarrow> Some (kvs @ recs)
   | _ \<Rightarrow> None)"

function reduceLoop :: "(string \<Rightarrow> string list \<Rightarrow> string) \<Rightarrow> KeyValue list \<Rightarrow> (string \<times> string) list" where
  "reduceLoop reducef [] = []"
| "reduceLoop reducef (kv # kvs) =
     (let same = takeWhile (\<lambda>x. Key x = Key kv) kvs in
      (Key kv, reducef (Key kv) (map Value (kv # same))) #
      reduceLoop reducef (dropWhile (\<lambda>x. Key x = Key kv) kvs))"
  by pat_completeness auto

termination reduceLoop
  by (relation "measure (\<lambda>(f, kvs). length kvs)") (simp_all add: length_dropWhile_le le_imp_less_Suc)

definition reduceLine :: "string \<times> string \<Rightarrow> string" where
  "reduceLine = (\<lambda>(key, output). key @ '' '' @ output @ [CHR 0x0A])"

definition reduceRename ::
  "(KeyValue list \<Rightarrow> KeyValue list) \<Rightarrow> (string \<Rightarrow> string list \<Rightarrow> string) \<Rightarrow> int \<Rightarrow> KeyValue list \<Rightarrow>
   fileName \<times> content" where
  "reduceRename srt reducef taskN kvs =
     (OutFile taskN, Text (concat (map reduceLine (reduceLoop reducef (srt kvs)))))"

definition performReduce ::
  "(KeyValue list \<Rightarrow> KeyValue list) \<Rightarrow> (string \<Rightarrow> string list \<Rightarrow> string) \<Rightarrow> int \<Rightarrow> int \<Rightarrow> files \<Rightarrow>
   files option" where
  "performReduce srt reducef taskN nMap fs = do {
     kvs \<leftarrow> for_loop [0..<nat nMap] (readInter fs taskN) [];
     Some (renameFile (reduceRename srt reducef taskN kvs) fs)
   }"

subsection \<open>A job\<close>

text \<open>
  The coordinator, the shared files and the workers.  A worker asks for a task, or waits in
  \<^verbatim>\<open>GetTask\<close>; it renames the files of a map task one by one; it reads the files of a reduce task one by
  one; it reports the task; it has returned.  A worker that does not exist has not been started or
  has crashed, which can happen at any point, also because of a fatal error.
\<close>

datatype worker =
    Asking loop
  | Renaming TaskType int "(fileName \<times> content) list"
  | Reading int int nat "KeyValue list"

record job =
  coord :: Coordinator
  files :: files
  workers :: "nat \<rightharpoonup> worker"

text \<open>The switch of \<^verbatim>\<open>Worker\<close>: what the worker does with a reply; \<^const>\<open>None\<close> when it ends.\<close>

definition startTask ::
  "(string \<Rightarrow> string \<Rightarrow> KeyValue list) \<Rightarrow> files \<Rightarrow> GetTaskReply \<Rightarrow> worker option" where
  "startTask mapf fs reply = (case gt_TaskType reply of
     Map \<Rightarrow> map_option (\<lambda>tmps. Renaming Map (gt_TaskId reply) (mapRenames (gt_TaskId reply) tmps))
              (mapTemps mapf fs (gt_MapFileName reply) (gt_NReduceTasks reply))
   | Reduce \<Rightarrow> Some (Reading (gt_TaskId reply) (gt_NMapTasks reply) 0 [])
   | Done \<Rightarrow> None
   | NoTask \<Rightarrow> None)"

inductive job_step ::
  "(string \<Rightarrow> string \<Rightarrow> KeyValue list) \<Rightarrow> (string \<Rightarrow> string list \<Rightarrow> string) \<Rightarrow>
   (KeyValue list \<Rightarrow> KeyValue list) \<Rightarrow> job \<Rightarrow> job \<Rightarrow> bool"
  for mapf :: "string \<Rightarrow> string \<Rightarrow> KeyValue list" and reducef :: "string \<Rightarrow> string list \<Rightarrow> string"
    and srt :: "KeyValue list \<Rightarrow> KeyValue list" where
  start: "workers j w = None \<Longrightarrow> job_step mapf reducef srt j (j\<lparr>workers := (workers j)(w \<mapsto> Asking MapLoop)\<rparr>)"
| crash: "job_step mapf reducef srt j (j\<lparr>workers := (workers j)(w := None)\<rparr>)"
| blocked: "workers j w = Some (Asking at) \<Longrightarrow> GetTask now at (coord j) = Some (c, Inl at') \<Longrightarrow>
    job_step mapf reducef srt j (j\<lparr>coord := c, workers := (workers j)(w \<mapsto> Asking at')\<rparr>)"
| assigned: "workers j w = Some (Asking at) \<Longrightarrow> GetTask now at (coord j) = Some (c, Inr reply) \<Longrightarrow>
    job_step mapf reducef srt j
      (j\<lparr>coord := c, workers := (workers j)(w := startTask mapf (files j) reply)\<rparr>)"
| rename: "workers j w = Some (Renaming ty i (op # ops)) \<Longrightarrow>
    job_step mapf reducef srt j
      (j\<lparr>files := renameFile op (files j), workers := (workers j)(w \<mapsto> Renaming ty i ops)\<rparr>)"
| load: "workers j w = Some (Reading r n i kvs) \<Longrightarrow> i < nat n \<Longrightarrow>
    job_step mapf reducef srt j
      (j\<lparr>workers := (workers j)(w := map_option (Reading r n (Suc i)) (readInter (files j) r i kvs))\<rparr>)"
| reduce: "workers j w = Some (Reading r n i kvs) \<Longrightarrow> nat n \<le> i \<Longrightarrow>
    job_step mapf reducef srt j
      (j\<lparr>workers := (workers j)(w \<mapsto> Renaming Reduce r [reduceRename srt reducef r kvs])\<rparr>)"
| report: "workers j w = Some (Renaming ty i []) \<Longrightarrow>
    FinishedTask (coord j) \<lparr>ft_TaskType = ty, ft_TaskId = i\<rparr> = Some (Inr c) \<Longrightarrow>
    job_step mapf reducef srt j (j\<lparr>coord := c, workers := (workers j)(w \<mapsto> Asking MapLoop)\<rparr>)"

text \<open>A job starts with its input files and nothing else.\<close>

definition job_init :: "(string \<rightharpoonup> string) \<Rightarrow> string list \<Rightarrow> nat \<Rightarrow> job \<Rightarrow> bool" where
  "job_init inputs names nReduce j \<longleftrightarrow> coord j = MakeCoordinator names nReduce \<and> workers j = Map.empty \<and>
     files j = (\<lambda>f. case f of InputFile n \<Rightarrow> map_option Text (inputs n) | _ \<Rightarrow> None)"

end
