(* ===== verification/MapReduce_Props.thy ===== *)
theory MapReduce_Props
  imports MapReduce Systems Go_Sort
begin

section \<open>Correctness of MapReduce\<close>

text \<open>
  What the coordinator hands out, and that a finished job has produced the result of running the map
  and reduce functions on all inputs, whatever the workers do: crash at any point, run slowly so that
  a task is handed out again, or report late.  The sort is an interface (\<open>key_sort\<close>), and the job's
  invariant is an interpretation of \<open>inductive_invariant\<close>.
\<close>

subsection \<open>Handing out tasks\<close>

definition wf_coord :: "Coordinator \<Rightarrow> bool" where
  "wf_coord c \<longleftrightarrow> length (mapTasksFinished c) = length (mapFiles c) \<and>
     length (mapTasksWhenAssigned c) = length (mapFiles c) \<and> nMapTasks c = int (length (mapFiles c)) \<and>
     length (reduceTasksFinished c) = nat (nReduceTasks c) \<and>
     length (reduceTasksWhenAssigned c) = nat (nReduceTasks c) \<and> 0 \<le> nReduceTasks c"

definition allFinished :: "bool list \<Rightarrow> bool" where
  "allFinished finished \<longleftrightarrow> (\<forall>i<length finished. finished ! i)"

definition noneAssignable :: "int \<Rightarrow> bool list \<Rightarrow> int option list \<Rightarrow> bool" where
  "noneAssignable now finished assigned \<longleftrightarrow>
     (\<forall>i<length finished. \<not> finished ! i \<longrightarrow> \<not> assignable now (assigned ! i))"

lemma allFinished_Cons: "allFinished (x # xs) \<longleftrightarrow> x \<and> allFinished xs"
  by (auto simp: allFinished_def nth_Cons split: nat.splits)

lemma noneAssignable_Cons:
  "noneAssignable now (x # xs) (a # as) \<longleftrightarrow> (\<not> x \<longrightarrow> \<not> assignable now a) \<and> noneAssignable now xs as"
  by (auto simp: noneAssignable_def nth_Cons split: nat.splits)

definition pick_ok :: "int \<Rightarrow> int \<Rightarrow> bool \<Rightarrow> bool list \<Rightarrow> int option list \<Rightarrow> pick \<Rightarrow> bool" where
  "pick_ok now i allDone finished assigned p = (case p of
     Pick k \<Rightarrow> i \<le> k \<and> k < i + int (length finished) \<and> \<not> finished ! nat (k - i) \<and>
       assignable now (assigned ! nat (k - i))
   | AllDone \<Rightarrow> allDone \<and> allFinished finished
   | SomeRunning \<Rightarrow> \<not> (allDone \<and> allFinished finished) \<and> noneAssignable now finished assigned)"

lemma pick_ok_Cons:
  assumes "pick_ok now (i + 1) b finished as p" and "x \<or> \<not> assignable now a" and "b = (allDone \<and> x)"
  shows "pick_ok now i allDone (x # finished) (a # as) p"
proof (cases p)
  case (Pick k)
  with assms(1) have "i + 1 \<le> k" by (simp add: pick_ok_def)
  then have "nat (k - i) = Suc (nat (k - (i + 1)))" by linarith
  with Pick assms(1) show ?thesis by (simp add: pick_ok_def)
qed (use assms in \<open>auto simp: pick_ok_def allFinished_Cons noneAssignable_Cons\<close>)

lemma pickTask_spec:
  assumes "length finished = length assigned"
  shows "\<exists>p. pickTask now i allDone finished assigned = Some p \<and> pick_ok now i allDone finished assigned p"
  using assms
proof (induction now i allDone finished assigned rule: pickTask.induct)
  case (2 now i allDone finished assigned)
  then obtain a as where as: "assigned = a # as" "length finished = length as" by (cases assigned) auto
  with 2(1) obtain p where "pickTask now (i + 1) allDone finished as = Some p"
    "pick_ok now (i + 1) allDone finished as p" by auto
  with pick_ok_Cons [of now i allDone finished as p True] as show ?case by simp
next
  case (3 now i allDone finished assigned)
  then obtain a as where as: "assigned = a # as" "length finished = length as" by (cases assigned) auto
  show ?case
  proof (cases "assignable now a")
    case True
    with as show ?thesis by (simp add: pick_ok_def)
  next
    case False
    from 3(1) [OF as(1) False as(2)] obtain p where "pickTask now (i + 1) False finished as = Some p"
      "pick_ok now (i + 1) False finished as p" by blast
    with pick_ok_Cons [of now i False finished as p False] as False show ?thesis by simp
  qed
qed (simp add: pick_ok_def allFinished_def noneAssignable_def)

lemma getReduceTask_cases [consumes 1, case_names task wait finish]:
  assumes "wf_coord c"
  obtains (task) r where "getReduceTask now c =
        Some (c\<lparr>reduceTasksWhenAssigned := (reduceTasksWhenAssigned c)[nat r := Some now]\<rparr>, Inr (taskReply c Reduce r []))"
      "0 \<le> r" "r < nReduceTasks c" "\<not> reduceTasksFinished c ! nat r"
      "assignable now (reduceTasksWhenAssigned c ! nat r)"
  | (wait) "getReduceTask now c = Some (c, Inl ReduceLoop)" "\<not> allFinished (reduceTasksFinished c)"
      "noneAssignable now (reduceTasksFinished c) (reduceTasksWhenAssigned c)"
  | (finish) "getReduceTask now c = Some (c\<lparr>c_done := True\<rparr>, Inr (taskReply c Done 0 []))"
      "allFinished (reduceTasksFinished c)"
proof -
  have "length (reduceTasksFinished c) = length (reduceTasksWhenAssigned c)" using assms by (simp add: wf_coord_def)
  from pickTask_spec [OF this, of now 0 True] obtain p where
    p: "pickTask now 0 True (reduceTasksFinished c) (reduceTasksWhenAssigned c) = Some p"
    and c: "pick_ok now 0 True (reduceTasksFinished c) (reduceTasksWhenAssigned c) p" by blast
  show thesis
  proof (cases p)
    case (Pick k)
    with p c assms show ?thesis by (intro task [of k]) (simp_all add: getReduceTask_def wf_coord_def pick_ok_def)
  next
    case AllDone
    with p c show ?thesis by (intro finish) (simp_all add: getReduceTask_def pick_ok_def)
  next
    case SomeRunning
    with p c show ?thesis by (intro wait) (simp_all add: getReduceTask_def pick_ok_def)
  qed
qed

lemma GetTask_cases [consumes 1, case_names map wait reduce]:
  assumes "wf_coord c"
  obtains (map) i where "at = MapLoop" "GetTask now at c =
        Some (c\<lparr>mapTasksWhenAssigned := (mapTasksWhenAssigned c)[nat i := Some now]\<rparr>,
          Inr (taskReply c Map i (mapFiles c ! nat i)))"
      "0 \<le> i" "i < nMapTasks c" "\<not> mapTasksFinished c ! nat i" "assignable now (mapTasksWhenAssigned c ! nat i)"
  | (wait) "at = MapLoop" "GetTask now at c = Some (c, Inl MapLoop)" "\<not> allFinished (mapTasksFinished c)"
      "noneAssignable now (mapTasksFinished c) (mapTasksWhenAssigned c)"
  | (reduce) "at = MapLoop \<longrightarrow> allFinished (mapTasksFinished c)" "GetTask now at c = getReduceTask now c"
proof (cases at)
  case MapLoop
  have "length (mapTasksFinished c) = length (mapTasksWhenAssigned c)" using assms by (simp add: wf_coord_def)
  from pickTask_spec [OF this, of now 0 True] obtain p where
    p: "pickTask now 0 True (mapTasksFinished c) (mapTasksWhenAssigned c) = Some p"
    and c: "pick_ok now 0 True (mapTasksFinished c) (mapTasksWhenAssigned c) p" by blast
  show thesis
  proof (cases p)
    case (Pick k)
    with p c assms MapLoop show ?thesis by (intro map [of k]) (simp_all add: GetTask_def wf_coord_def pick_ok_def)
  next
    case AllDone
    with p c MapLoop show ?thesis by (intro reduce) (simp_all add: GetTask_def pick_ok_def)
  next
    case SomeRunning
    with p c MapLoop show ?thesis by (intro wait) (simp_all add: GetTask_def pick_ok_def)
  qed
qed (use reduce in \<open>simp add: GetTask_def\<close>)

text \<open>Handing out tasks.  A pass of \<^verbatim>\<open>GetTask\<close> always ends.  It hands out a map task only if the task is not
  finished and was never handed out or not within the last ten seconds, and notes the time; it
  answers with a reduce task or \<^verbatim>\<open>Done\<close> only if all map tasks are finished, and under the same condition
  for the reduce task; it answers \<^verbatim>\<open>Done\<close> only if all tasks are finished, and only then is the job
  marked as done; it waits only if every unfinished task of the current kind was handed out within
  the last ten seconds, so a task of a worker that has died is handed out again.\<close>

lemma GetTask_policy:
  assumes "wf_coord c" and "at = ReduceLoop \<longrightarrow> allFinished (mapTasksFinished c)"
  shows "\<exists>c' res. GetTask now at c = Some (c', res) \<and> wf_coord c' \<and>
    mapTasksFinished c' = mapTasksFinished c \<and> reduceTasksFinished c' = reduceTasksFinished c \<and>
    (case res of
       Inl MapLoop \<Rightarrow> c' = c \<and> \<not> allFinished (mapTasksFinished c) \<and>
         noneAssignable now (mapTasksFinished c) (mapTasksWhenAssigned c)
     | Inl ReduceLoop \<Rightarrow> c' = c \<and> allFinished (mapTasksFinished c) \<and> \<not> allFinished (reduceTasksFinished c) \<and>
         noneAssignable now (reduceTasksFinished c) (reduceTasksWhenAssigned c)
     | Inr reply \<Rightarrow> (let i = nat (gt_TaskId reply) in
         case gt_TaskType reply of
           Map \<Rightarrow> i < length (mapFiles c) \<and> gt_MapFileName reply = mapFiles c ! i \<and> \<not> mapTasksFinished c ! i \<and>
             assignable now (mapTasksWhenAssigned c ! i) \<and> mapTasksWhenAssigned c' ! i = Some now \<and>
             c_done c' = c_done c
         | Reduce \<Rightarrow> int i < nReduceTasks c \<and> allFinished (mapTasksFinished c) \<and> \<not> reduceTasksFinished c ! i \<and>
             assignable now (reduceTasksWhenAssigned c ! i) \<and> reduceTasksWhenAssigned c' ! i = Some now \<and>
             c_done c' = c_done c
         | Done \<Rightarrow> allFinished (mapTasksFinished c) \<and> allFinished (reduceTasksFinished c) \<and> c_done c'
         | NoTask \<Rightarrow> False))"
  using assms(1)
proof (cases rule: GetTask_cases [where at = at and now = now])
  case (map i)
  with assms(1) show ?thesis by (simp add: wf_coord_def taskReply_def Let_def)
next
  case wait
  with assms(1) show ?thesis by simp
next
  case reduce
  then have fin: "allFinished (mapTasksFinished c)" using assms(2) by (cases at) simp_all
  from assms(1) show ?thesis
  proof (cases rule: getReduceTask_cases [where now = now])
    case (task r)
    with reduce(2) fin assms(1) show ?thesis by (simp add: wf_coord_def taskReply_def Let_def)
  next
    case wait
    with reduce(2) fin assms(1) show ?thesis by simp
  next
    case finish
    with reduce(2) fin assms(1) show ?thesis by (simp add: wf_coord_def taskReply_def Let_def)
  qed
qed

definition ex_coord :: Coordinator where
  "ex_coord = (MakeCoordinator [''a'', ''b''] 1)\<lparr>mapTasksWhenAssigned := [Some 0, Some 5000000000]\<rparr>"

subsection \<open>What the tasks compute\<close>

text \<open>The pairs that belong to a reduce task; the pairs each input yields.\<close>

definition bucket :: "nat \<Rightarrow> int \<Rightarrow> KeyValue list \<Rightarrow> KeyValue list" where
  "bucket nReduce r kvs = map json_kv (filter (\<lambda>kv. ihash (Key kv) mod int nReduce = r) kvs)"

definition emitted :: "(string \<Rightarrow> string \<Rightarrow> KeyValue list) \<Rightarrow> (string \<rightharpoonup> string) \<Rightarrow> string list \<Rightarrow> KeyValue list list" where
  "emitted mapf inputs names = map (\<lambda>n. case inputs n of None \<Rightarrow> [] | Some content \<Rightarrow> mapf n content) names"

lemma mapEncode_eq:
  assumes "0 < n" and "length tmps = n"
  shows "mapEncode (int n) kv tmps =
    Some (map (\<lambda>r. tmps ! r @ bucket n (int r) [kv]) [0..<n])"
proof -
  let ?r = "ihash (Key kv) mod int n"
  have r: "0 \<le> ?r" "?r < int n" using assms(1) by simp_all
  then have "mapEncode (int n) kv tmps = Some (tmps[nat ?r := tmps ! nat ?r @ [json_kv kv]])"
    using assms by (simp add: mapEncode_def)
  moreover have "tmps[nat ?r := tmps ! nat ?r @ [json_kv kv]] = map (\<lambda>r. tmps ! r @ bucket n (int r) [kv]) [0..<n]"
  proof (rule nth_equalityI)
    show "length (tmps[nat ?r := tmps ! nat ?r @ [json_kv kv]]) = length (map (\<lambda>r. tmps ! r @ bucket n (int r) [kv]) [0..<n])"
      using assms by simp
    fix i assume "i < length (tmps[nat ?r := tmps ! nat ?r @ [json_kv kv]])"
    then have "i < n" using assms by simp
    moreover have "?r = int i \<longleftrightarrow> nat ?r = i" using r by auto
    ultimately show "tmps[nat ?r := tmps ! nat ?r @ [json_kv kv]] ! i = map (\<lambda>r. tmps ! r @ bucket n (int r) [kv]) [0..<n] ! i"
      using assms by (auto simp: bucket_def nth_list_update)
  qed
  ultimately show ?thesis by simp
qed

lemma mapEncode_loop:
  assumes "0 < n" and "length tmps = n"
  shows "for_loop kvs (mapEncode (int n)) tmps = Some (map (\<lambda>r. tmps ! r @ bucket n (int r) kvs) [0..<n])"
  using assms(2)
proof (induction kvs arbitrary: tmps)
  case Nil
  then show ?case using map_nth [of tmps] by (simp add: bucket_def)
next
  case (Cons kv kvs)
  show ?case
    using Cons.IH [of "map (\<lambda>r. tmps ! r @ bucket n (int r) [kv]) [0..<n]"] Cons.prems
    by (simp add: mapEncode_eq [OF assms(1)]) (simp add: bucket_def)
qed

lemma mapTemps_eq:
  assumes "fs (InputFile fn) = Some (Text content)" and "0 < n"
  shows "mapTemps mapf fs fn (int n) = Some (map (\<lambda>r. bucket n (int r) (mapf fn content)) [0..<n])"
  using assms by (simp add: mapTemps_def mapEncode_loop cong: map_cong)

lemma mapRenames_set:
  "set (mapRenames t (map g [0..<n])) = (\<lambda>r. (InterFile t (int r), Records (g r))) ` {..<n}"
  by (auto simp: mapRenames_def in_set_enumerate_eq image_iff)

text \<open>The sort, as far as the worker relies on it.\<close>

locale key_sort =
  fixes srt :: "KeyValue list \<Rightarrow> KeyValue list"
  assumes srt_mset: "mset (srt kvs) = mset kvs"
    and srt_sorted: "sorted (map Key (srt kvs))"
begin

lemma srt_set: "set (srt kvs) = set kvs"
  by (metis srt_mset set_mset_mset)

lemma srt_values: "mset (map Value (filter P (srt kvs))) = mset (map Value (filter P kvs))"
  by (simp add: srt_mset)

end

interpretation key_order: less_function ByKey_Less
  by unfold_locales (auto simp: ByKey_Less_def)

lemma sorted_key_sliceStable: "sorted (map Key (sliceStable ByKey_Less kvs))"
  using key_order.sorted_sliceStable [of kvs] by (simp add: ByKey_Less_def sorted_map not_less)

text \<open>The insertion sort that \<^verbatim>\<open>sort.Sort\<close> runs on short slices.\<close>

interpretation short: key_sort "sliceStable ByKey_Less"
  by unfold_locales (simp_all only: mset_sliceStable sorted_key_sliceStable)

text \<open>The grouping loop on sorted pairs: one line for each key, in order, with all its values.\<close>

lemma sorted_takeWhile:
  assumes "sorted (map Key (kv # kvs))"
  shows "takeWhile (\<lambda>x. Key x = Key kv) kvs = filter (\<lambda>x. Key x = Key kv) kvs"
    and "dropWhile (\<lambda>x. Key x = Key kv) kvs = filter (\<lambda>x. Key x \<noteq> Key kv) kvs"
proof -
  have "takeWhile (\<lambda>x. Key x = Key kv) kvs = filter (\<lambda>x. Key x = Key kv) kvs \<and>
    dropWhile (\<lambda>x. Key x = Key kv) kvs = filter (\<lambda>x. Key x \<noteq> Key kv) kvs"
    using assms
  proof (induction kvs)
    case (Cons x kvs)
    show ?case
    proof (cases "Key x = Key kv")
      case True
      with Cons show ?thesis by simp
    next
      case False
      have "Key y \<noteq> Key kv" if "y \<in> set kvs" for y
      proof
        assume "Key y = Key kv"
        moreover have "Key kv \<le> Key x" "Key x \<le> Key y" using Cons.prems that by simp_all
        ultimately show False using False by simp
      qed
      then show ?thesis using False by (simp add: filter_empty_conv filter_id_conv)
    qed
  qed simp
  then show "takeWhile (\<lambda>x. Key x = Key kv) kvs = filter (\<lambda>x. Key x = Key kv) kvs"
    "dropWhile (\<lambda>x. Key x = Key kv) kvs = filter (\<lambda>x. Key x \<noteq> Key kv) kvs" by simp_all
qed

lemma reduceLoop_sorted:
  assumes "sorted (map Key kvs)"
  shows "sorted_wrt (<) (map fst (reduceLoop f kvs)) \<and> fst ` set (reduceLoop f kvs) = Key ` set kvs \<and>
    (\<forall>(k, out) \<in> set (reduceLoop f kvs). out = f k (map Value (filter (\<lambda>x. Key x = k) kvs)))"
  using assms
proof (induction f kvs rule: reduceLoop.induct)
  case (2 f kv kvs)
  let ?rest = "filter (\<lambda>x. Key x \<noteq> Key kv) kvs"
  note tw = sorted_takeWhile [OF "2.prems"]
  have "sorted (map Key ?rest)" using "2.prems" by (simp add: sorted_map sorted_wrt_filter)
  with "2.IH" [OF refl] tw have ih: "sorted_wrt (<) (map fst (reduceLoop f ?rest))"
    "fst ` set (reduceLoop f ?rest) = Key ` set ?rest"
    "\<And>k out. (k, out) \<in> set (reduceLoop f ?rest) \<Longrightarrow> out = f k (map Value (filter (\<lambda>x. Key x = k) ?rest))"
    by auto
  have step: "reduceLoop f (kv # kvs) =
      (Key kv, f (Key kv) (map Value (filter (\<lambda>x. Key x = Key kv) (kv # kvs)))) # reduceLoop f ?rest"
    by (simp add: Let_def tw)
  have above: "Key kv < Key x" if "x \<in> set ?rest" for x
    using "2.prems" that by (auto simp: order.strict_iff_order)
  have lt: "Key kv < k" if "k \<in> fst ` set (reduceLoop f ?rest)" for k
    using that above by (auto simp: ih(2))
  have vals: "filter (\<lambda>x. Key x = k) ?rest = filter (\<lambda>x. Key x = k) (kv # kvs)"
    if "(k, out) \<in> set (reduceLoop f ?rest)" for k out
    using lt [of k] that by (force intro!: filter_cong)
  have "sorted_wrt (<) (map fst (reduceLoop f (kv # kvs)))"
    unfolding step using ih(1) lt by auto
  moreover have "fst ` set (reduceLoop f (kv # kvs)) = Key ` set (kv # kvs)"
    unfolding step by (auto simp: ih(2))
  moreover have "out = f k (map Value (filter (\<lambda>x. Key x = k) (kv # kvs)))"
    if "(k, out) \<in> set (reduceLoop f (kv # kvs))" for k out
    using that ih(3) [of k out] vals [of k out] unfolding step by auto
  ultimately show ?case by blast
qed simp

subsection \<open>The invariant of a job\<close>

text \<open>
  The parameters of a job are fixed: \<open>P = (mapf, reducef, srt, inputs, names, nReduce)\<close>.
\<close>

record params =
  p_mapf :: "string \<Rightarrow> string \<Rightarrow> KeyValue list"
  p_reducef :: "string \<Rightarrow> string list \<Rightarrow> string"
  p_srt :: "KeyValue list \<Rightarrow> KeyValue list"
  p_inputs :: "string \<rightharpoonup> string"
  p_names :: "string list"
  p_nReduce :: nat

abbreviation p_emitted :: "params \<Rightarrow> KeyValue list list" where
  "p_emitted P \<equiv> emitted (p_mapf P) (p_inputs P) (p_names P)"

definition outLines :: "params \<Rightarrow> int \<Rightarrow> (string \<times> string) list" where
  "outLines P r = reduceLoop (p_reducef P) (p_srt P (concat (map (bucket (p_nReduce P) r) (p_emitted P))))"

text \<open>The only renames that ever happen.\<close>

definition good_op :: "params \<Rightarrow> fileName \<times> content \<Rightarrow> bool" where
  "good_op P op = (case op of
     (InputFile n, x) \<Rightarrow> False
   | (InterFile i r, x) \<Rightarrow> 0 \<le> i \<and> nat i < length (p_names P) \<and> x = Records (bucket (p_nReduce P) r (p_emitted P ! nat i))
   | (OutFile r, x) \<Rightarrow> x = Text (concat (map reduceLine (outLines P r))))"

definition files_ok :: "params \<Rightarrow> files \<Rightarrow> bool" where
  "files_ok P fs \<longleftrightarrow> (\<forall>n. fs (InputFile n) = map_option Text (p_inputs P n)) \<and>
     (\<forall>f x. fs f = Some x \<longrightarrow> (\<exists>n. f = InputFile n) \<or> good_op P (f, x))"

definition coord_ok :: "params \<Rightarrow> files \<Rightarrow> Coordinator \<Rightarrow> bool" where
  "coord_ok P fs c \<longleftrightarrow> wf_coord c \<and> mapFiles c = p_names P \<and> nReduceTasks c = int (p_nReduce P) \<and>
     (\<forall>i<length (p_names P). mapTasksFinished c ! i \<longrightarrow> (\<forall>r<p_nReduce P. fs (InterFile (int i) (int r)) \<noteq> None)) \<and>
     (\<forall>r<p_nReduce P. reduceTasksFinished c ! r \<longrightarrow> fs (OutFile (int r)) \<noteq> None) \<and>
     (c_done c \<longrightarrow> allFinished (reduceTasksFinished c))"

text \<open>The files a task has to produce, and what is known of a worker.\<close>

definition results :: "params \<Rightarrow> TaskType \<Rightarrow> int \<Rightarrow> fileName set" where
  "results P ty i = (case ty of
     Map \<Rightarrow> (\<lambda>r. InterFile i (int r)) ` {..<p_nReduce P}
   | Reduce \<Rightarrow> {OutFile i} | _ \<Rightarrow> {})"

definition task_ok :: "params \<Rightarrow> TaskType \<Rightarrow> int \<Rightarrow> bool" where
  "task_ok P ty i = (case ty of
     Map \<Rightarrow> 0 \<le> i \<and> nat i < length (p_names P)
   | Reduce \<Rightarrow> 0 \<le> i \<and> nat i < p_nReduce P | _ \<Rightarrow> False)"

definition worker_ok :: "params \<Rightarrow> files \<Rightarrow> Coordinator \<Rightarrow> worker \<Rightarrow> bool" where
  "worker_ok P fs c w = (case w of
     Asking at \<Rightarrow> at = ReduceLoop \<longrightarrow> allFinished (mapTasksFinished c)
   | Renaming ty i ops \<Rightarrow> task_ok P ty i \<and> (\<forall>op \<in> set ops. good_op P op) \<and>
       (\<forall>f \<in> results P ty i. f \<in> fst ` set ops \<or> fs f \<noteq> None)
   | Reading r n i kvs \<Rightarrow> task_ok P Reduce r \<and> n = int (length (p_names P)) \<and> i \<le> length (p_names P) \<and>
       allFinished (mapTasksFinished c) \<and> kvs = concat (map (bucket (p_nReduce P) r) (take i (p_emitted P))))"

lemma worker_ok_Asking:
  "worker_ok P fs c (Asking at) \<longleftrightarrow> (at = ReduceLoop \<longrightarrow> allFinished (mapTasksFinished c))"
  by (simp add: worker_ok_def)

definition job_inv :: "params \<Rightarrow> job \<Rightarrow> bool" where
  "job_inv P j \<longleftrightarrow> files_ok P (files j) \<and> coord_ok P (files j) (coord j) \<and>
     (\<forall>w x. workers j w = Some x \<longrightarrow> worker_ok P (files j) (coord j) x)"

lemma job_inv_worker:
  assumes "job_inv P j" and "\<And>x. v = Some x \<Longrightarrow> worker_ok P (files j) (coord j) x"
  shows "job_inv P (j\<lparr>workers := (workers j)(w := v)\<rparr>)"
  using assms by (auto simp: job_inv_def)

text \<open>What the others know stays true when files are added and more map tasks are finished.\<close>

lemma worker_ok_mono:
  assumes "worker_ok P fs c x" and "\<And>f. fs f \<noteq> None \<Longrightarrow> fs' f \<noteq> None"
    and "allFinished (mapTasksFinished c) \<Longrightarrow> allFinished (mapTasksFinished c')"
  shows "worker_ok P fs' c' x"
  using assms by (cases x) (auto simp: worker_ok_def)

lemma job_inv_update:
  assumes "job_inv P j" and "files_ok P fs'" and "coord_ok P fs' c'"
    and "\<And>f. files j f \<noteq> None \<Longrightarrow> fs' f \<noteq> None"
    and "allFinished (mapTasksFinished (coord j)) \<Longrightarrow> allFinished (mapTasksFinished c')"
    and "\<And>x. v = Some x \<Longrightarrow> worker_ok P fs' c' x"
  shows "job_inv P (j\<lparr>coord := c', files := fs', workers := (workers j)(w := v)\<rparr>)"
proof -
  have "worker_ok P fs' c' x" if "workers j u = Some x" for u x
  proof (rule worker_ok_mono)
    show "worker_ok P (files j) (coord j) x" using assms(1) that by (auto simp: job_inv_def)
  qed (fact assms(4), fact assms(5))
  with assms(2,3,6) show ?thesis by (auto simp: job_inv_def)
qed

lemma files_ok_rename:
  assumes "files_ok P fs" and "good_op P op"
  shows "files_ok P (renameFile op fs)"
proof -
  have "fst op \<noteq> InputFile n" for n using assms(2) by (auto simp: good_op_def split: prod.splits)
  then have "InputFile n \<noteq> fst op" for n by metis
  then show ?thesis using assms by (auto simp: files_ok_def renameFile_def)
qed

lemma coord_ok_files: "coord_ok P fs c \<Longrightarrow> (\<And>f. fs f \<noteq> None \<Longrightarrow> fs' f \<noteq> None) \<Longrightarrow> coord_ok P fs' c"
  by (auto simp: coord_ok_def)

lemma length_emitted [simp]: "length (emitted mapf inputs names) = length names"
  by (simp add: emitted_def)

text \<open>Assigning a task changes neither the finished tasks nor the files.\<close>

lemma GetTask_coord_ok:
  assumes "coord_ok P fs c" and "at = ReduceLoop \<longrightarrow> allFinished (mapTasksFinished c)"
    and "GetTask now at c = Some (c', res)"
  shows "coord_ok P fs c' \<and> mapTasksFinished c' = mapTasksFinished c"
proof -
  have wf: "wf_coord c" using assms(1) by (simp add: coord_ok_def)
  then show ?thesis
  proof (cases rule: GetTask_cases [where at = at and now = now])
    case (map i)
    with assms(1,3) show ?thesis by (auto simp: coord_ok_def wf_coord_def)
  next
    case wait
    with assms(1,3) show ?thesis by auto
  next
    case reduce
    from wf show ?thesis
      by (cases rule: getReduceTask_cases [where now = now])
        (use reduce(2) assms(1,3) in \<open>auto simp: coord_ok_def wf_coord_def\<close>)
  qed
qed

lemma emitted_nth:
  "i < length names \<Longrightarrow> inputs (names ! i) = Some content \<Longrightarrow>
   emitted mapf inputs names ! i = mapf (names ! i) content"
  by (simp add: emitted_def)

lemma mapTemps_input:
  assumes "mapTemps mapf fs fn (int n) = Some tmps"
  obtains content where "fs (InputFile fn) = Some (Text content)"
    "n = 0 \<Longrightarrow> tmps = []" "0 < n \<Longrightarrow> tmps = map (\<lambda>r. bucket n (int r) (mapf fn content)) [0..<n]"
proof -
  from assms obtain content where c: "fs (InputFile fn) = Some (Text content)"
    by (auto simp: mapTemps_def split: option.splits content.splits)
  moreover have "tmps = []" if "n = 0"
    using assms that c by (cases "mapf fn content") (simp_all add: mapTemps_def mapEncode_def)
  moreover have "tmps = map (\<lambda>r. bucket n (int r) (mapf fn content)) [0..<n]" if "0 < n"
    using assms mapTemps_eq [of fs fn content n mapf] c that by simp
  ultimately show thesis by (rule that)
qed

lemma startTask_map_ok:
  assumes "files_ok P fs" and "nat i < length (p_names P)" and "0 \<le> i"
    and "mapTemps (p_mapf P) fs (p_names P ! nat i) (int (p_nReduce P)) = Some tmps"
  shows "worker_ok P fs c (Renaming Map i (mapRenames i tmps))"
proof -
  from assms(4) obtain content where c: "fs (InputFile (p_names P ! nat i)) = Some (Text content)"
    and t: "p_nReduce P = 0 \<Longrightarrow> tmps = []"
      "0 < p_nReduce P \<Longrightarrow> tmps = map (\<lambda>r. bucket (p_nReduce P) (int r) (p_mapf P (p_names P ! nat i) content)) [0..<p_nReduce P]"
    using mapTemps_input by blast
  have "p_inputs P (p_names P ! nat i) = Some content" using assms(1) c by (auto simp: files_ok_def)
  then have em: "p_emitted P ! nat i = p_mapf P (p_names P ! nat i) content" using assms(2) by (simp add: emitted_nth)
  have t': "tmps = map (\<lambda>r. bucket (p_nReduce P) (int r) (p_emitted P ! nat i)) [0..<p_nReduce P]"
    using t em by (cases "p_nReduce P = 0") simp_all
  show ?thesis
    using assms(2,3) unfolding worker_ok_def t'
    by (auto simp: mapRenames_set good_op_def task_ok_def results_def image_image)
qed

lemma readInter_ok:
  assumes "files_ok P fs" and "worker_ok P fs c (Reading r n i kvs)" and "i < nat n"
    and "readInter fs r i kvs = Some kvs'"
  shows "worker_ok P fs c (Reading r n (Suc i) kvs')"
proof -
  have i: "i < length (p_names P)" using assms(2,3) by (simp add: worker_ok_def)
  obtain recs where recs: "fs (InterFile (int i) r) = Some (Records recs)" "kvs' = kvs @ recs"
    using assms(4) by (auto simp: readInter_def split: option.splits content.splits)
  then have "good_op P (InterFile (int i) r, Records recs)" using assms(1) by (auto simp: files_ok_def)
  then have "recs = bucket (p_nReduce P) r (p_emitted P ! i)" by (simp add: good_op_def)
  moreover have "take (Suc i) (p_emitted P) = take i (p_emitted P) @ [p_emitted P ! i]"
    using i by (simp add: take_Suc_conv_app_nth)
  ultimately show ?thesis using assms(2) recs(2) i by (simp add: worker_ok_def)
qed

lemma reduceRename_ok:
  assumes "worker_ok P fs c (Reading r n i kvs)" and "nat n \<le> i"
  shows "worker_ok P fs c (Renaming Reduce r [reduceRename (p_srt P) (p_reducef P) r kvs])"
  using assms by (auto simp: worker_ok_def reduceRename_def good_op_def outLines_def results_def)

lemma assigned_ok:
  assumes "files_ok P fs" and "coord_ok P fs c" and "at = ReduceLoop \<longrightarrow> allFinished (mapTasksFinished c)"
    and "GetTask now at c = Some (c', Inr reply)" and "startTask (p_mapf P) fs reply = Some x"
  shows "worker_ok P fs c' x"
proof -
  have wf: "wf_coord c" and c: "mapFiles c = p_names P" "nReduceTasks c = int (p_nReduce P)"
    using assms(2) by (simp_all add: coord_ok_def)
  from wf show ?thesis
  proof (cases rule: GetTask_cases [where at = at and now = now])
    case (map i)
    then have rep: "reply = taskReply c Map i (mapFiles c ! nat i)" using assms(4) by simp
    have i: "nat i < length (p_names P)" using map(3,4) wf c by (simp add: wf_coord_def)
    from assms(5) obtain tmps where "mapTemps (p_mapf P) fs (p_names P ! nat i) (int (p_nReduce P)) = Some tmps"
      "x = Renaming Map i (mapRenames i tmps)"
      by (auto simp: rep startTask_def taskReply_def c)
    with startTask_map_ok [OF assms(1) i map(3)] show ?thesis by simp
  next
    case wait
    with assms(4) show ?thesis by simp
  next
    case reduce
    have fin: "allFinished (mapTasksFinished c)" using reduce(1) assms(3) by (cases at) simp_all
    from wf show ?thesis
    proof (cases rule: getReduceTask_cases [where now = now])
      case (task r)
      then have "x = Reading r (int (length (p_names P))) 0 []" and "mapTasksFinished c' = mapTasksFinished c"
        using assms(4,5) reduce(2) wf c by (auto simp: startTask_def taskReply_def wf_coord_def)
      then show ?thesis using task fin c by (simp add: worker_ok_def task_ok_def)
    next
      case wait
      with assms(4) reduce(2) show ?thesis by simp
    next
      case finish
      with assms(4,5) reduce(2) show ?thesis by (auto simp: startTask_def taskReply_def)
    qed
  qed
qed

lemma FinishedTask_ok:
  assumes "coord_ok P fs c" and "worker_ok P fs c (Renaming ty i [])"
    and "FinishedTask c \<lparr>ft_TaskType = ty, ft_TaskId = i\<rparr> = Some (Inr c')"
  shows "coord_ok P fs c' \<and> (allFinished (mapTasksFinished c) \<longrightarrow> allFinished (mapTasksFinished c'))"
proof -
  have task: "task_ok P ty i" and res: "\<And>f. f \<in> results P ty i \<Longrightarrow> fs f \<noteq> None"
    using assms(2) by (auto simp: worker_ok_def)
  consider "ty = Map" | "ty = Reduce" using task by (cases ty) (simp_all add: task_ok_def)
  then show ?thesis
  proof cases
    case 1
    then have i: "0 \<le> i" "nat i < length (p_names P)" using task by (simp_all add: task_ok_def)
    have c': "c' = c\<lparr>mapTasksFinished := (mapTasksFinished c)[nat i := True]\<rparr>"
      using assms(3) 1 by (auto simp: FinishedTask_def bind_convs set_idx_Some_iff)
    show ?thesis
      using assms(1) i res 1 unfolding c'
      by (auto simp: coord_ok_def wf_coord_def results_def allFinished_def nth_list_update)
  next
    case 2
    then have i: "0 \<le> i" "nat i < p_nReduce P" using task by (simp_all add: task_ok_def)
    have c': "c' = c\<lparr>reduceTasksFinished := (reduceTasksFinished c)[nat i := True]\<rparr>"
      using assms(3) 2 by (auto simp: FinishedTask_def bind_convs set_idx_Some_iff)
    show ?thesis
      using assms(1) i res 2 unfolding c'
      by (auto simp: coord_ok_def wf_coord_def results_def allFinished_def nth_list_update)
  qed
qed

lemma job_inv_step:
  assumes "job_step (p_mapf P) (p_reducef P) (p_srt P) j j'" and "job_inv P j"
  shows "job_inv P j'"
proof -
  have F: "files_ok P (files j)" and C: "coord_ok P (files j) (coord j)"
    and W: "\<And>w x. workers j w = Some x \<Longrightarrow> worker_ok P (files j) (coord j) x"
    using assms(2) by (auto simp: job_inv_def)
  have at: "at = ReduceLoop \<longrightarrow> allFinished (mapTasksFinished (coord j))"
    if "workers j w = Some (Asking at)" for w at
    using W [OF that] by (simp add: worker_ok_def)
  note upd = job_inv_update [OF assms(2), where w = w for w]
  from assms(1) show ?thesis
  proof cases
    case (start w)
    then show ?thesis
      using job_inv_worker [OF assms(2), of "Some (Asking MapLoop)" w] by (simp add: worker_ok_Asking)
  next
    case (crash w)
    then show ?thesis using job_inv_worker [OF assms(2), of None w] by simp
  next
    case (blocked w at now c at')
    note ok = GetTask_coord_ok [OF C at [OF blocked(2)] blocked(3)]
    have "wf_coord (coord j)" using C by (simp add: coord_ok_def)
    from GetTask_policy [OF this at [OF blocked(2)], of now] blocked(3) ok
    have "at' = ReduceLoop \<longrightarrow> allFinished (mapTasksFinished c)" by (cases at') auto
    then show ?thesis using blocked(1) upd [OF F, of c "Some (Asking at')" w] ok by (simp add: worker_ok_Asking)
  next
    case (assigned w at now c reply)
    note ok = GetTask_coord_ok [OF C at [OF assigned(2)] assigned(3)]
    show ?thesis
      using assigned(1) upd [OF F, of c "startTask (p_mapf P) (files j) reply" w] ok
        assigned_ok [OF F C at [OF assigned(2)] assigned(3)] by simp
  next
    case (rename w ty i op ops)
    note w = W [OF rename(2), unfolded worker_ok_def, simplified]
    have F': "files_ok P (renameFile op (files j))" using files_ok_rename [OF F] w by simp
    have more: "files j f \<noteq> None \<Longrightarrow> renameFile op (files j) f \<noteq> None" for f by (simp add: renameFile_def)
    have "worker_ok P (renameFile op (files j)) (coord j) (Renaming ty i ops)"
      using w by (auto simp: worker_ok_def renameFile_def)
    then show ?thesis
      using rename(1) upd [OF F' coord_ok_files [OF C more] more, of "Some (Renaming ty i ops)" w] by simp
  next
    case (load w r n i kvs)
    then show ?thesis
      using job_inv_worker [OF assms(2), of "map_option (Reading r n (Suc i)) (readInter (files j) r i kvs)" w]
        readInter_ok [OF F W [OF load(2)] load(3)] by auto
  next
    case (reduce w r n i kvs)
    then show ?thesis
      using job_inv_worker [OF assms(2), of "Some (Renaming Reduce r [reduceRename (p_srt P) (p_reducef P) r kvs])" w]
        reduceRename_ok [OF W [OF reduce(2)] reduce(3)] by simp
  next
    case (report w ty i c)
    note ok = FinishedTask_ok [OF C W [OF report(2)] report(3)]
    then show ?thesis
      using report(1) upd [OF F, of c "Some (Asking MapLoop)" w] by (simp add: worker_ok_Asking)
  qed
qed

lemma job_inv_init:
  assumes "job_init (p_inputs P) (p_names P) (p_nReduce P) j"
  shows "job_inv P j"
  using assms
  by (auto simp: job_init_def job_inv_def files_ok_def coord_ok_def wf_coord_def MakeCoordinator_def
      split: fileName.splits)

interpretation job: inductive_invariant "job_init (p_inputs P) (p_names P) (p_nReduce P)"
  "job_step (p_mapf P) (p_reducef P) (p_srt P)" "job_inv P" for P
  by unfold_locales (auto intro: job_inv_init job_inv_step)

lemma job_lines:
  assumes "key_sort srt" and "reach (job_init inputs names nReduce) (job_step mapf reducef srt) j"
    and "isDone (coord j)" and "r < nReduce" and "kvs = concat (emitted mapf inputs names)" and "\<forall>kv \<in> set kvs. json_kv kv = kv"
  shows "\<exists>lines. files j (OutFile (int r)) = Some (Text (concat (map reduceLine lines))) \<and>
    sorted_wrt (<) (map fst lines) \<and>
    fst ` set lines = {k \<in> Key ` set kvs. ihash k mod int nReduce = int r} \<and>
    (\<forall>(k, out) \<in> set lines. \<exists>vs. out = reducef k vs \<and>
       mset vs = mset (map Value (filter (\<lambda>kv. Key kv = k) kvs)))"
proof -
  define P where "P = \<lparr>p_mapf = mapf, p_reducef = reducef, p_srt = srt, p_inputs = inputs, p_names = names,
    p_nReduce = nReduce\<rparr>"
  have P: "p_mapf P = mapf" "p_reducef P = reducef" "p_srt P = srt" "p_inputs P = inputs" "p_names P = names"
    "p_nReduce P = nReduce" by (simp_all add: P_def)
  have "job_inv P j" using job.inv_reach [of P j] assms(2) by (simp add: P)
  then have F: "files_ok P (files j)" and C: "coord_ok P (files j) (coord j)" by (simp_all add: job_inv_def)
  have "reduceTasksFinished (coord j) ! r"
    using C assms(3,4) by (auto simp: coord_ok_def isDone_def allFinished_def wf_coord_def P)
  then obtain x where x: "files j (OutFile (int r)) = Some x" using C assms(4) by (auto simp: coord_ok_def P)
  with F have xt: "x = Text (concat (map reduceLine (outLines P (int r))))" by (force simp: files_ok_def good_op_def)
  let ?b = "bucket nReduce (int r) kvs" and ?lines = "outLines P (int r)"
  have cat: "concat (map (bucket nReduce (int r)) xss) = bucket nReduce (int r) (concat xss)" for xss
    by (induction xss) (simp_all add: bucket_def)
  have b: "?b = filter (\<lambda>kv. ihash (Key kv) mod int nReduce = int r) kvs"
    unfolding bucket_def by (rule map_idI) (use assms(6) in simp)
  have lines: "?lines = reduceLoop reducef (srt ?b)" by (simp add: outLines_def P cat assms(5))
  note sort = key_sort.srt_mset [OF assms(1)] key_sort.srt_sorted [OF assms(1)] key_sort.srt_set [OF assms(1)]
  note red = reduceLoop_sorted [OF sort(2), of reducef ?b]
  have keys: "fst ` set ?lines = {k \<in> Key ` set kvs. ihash k mod int nReduce = int r}"
    using red unfolding lines by (auto simp: sort(3) b)
  have vals: "\<exists>vs. out = reducef k vs \<and> mset vs = mset (map Value (filter (\<lambda>kv. Key kv = k) kvs))"
    if "(k, out) \<in> set ?lines" for k out
  proof -
    have "out = reducef k (map Value (filter (\<lambda>x. Key x = k) (srt ?b)))" using red that unfolding lines by auto
    moreover have "ihash k mod int nReduce = int r" using keys that by force
    then have "filter (\<lambda>x. Key x = k) ?b = filter (\<lambda>x. Key x = k) kvs" by (auto simp: b intro: filter_cong)
    then have "mset (map Value (filter (\<lambda>x. Key x = k) (srt ?b))) = mset (map Value (filter (\<lambda>x. Key x = k) kvs))"
      using key_sort.srt_values [OF assms(1), of "\<lambda>x. Key x = k" ?b] by simp
    ultimately show ?thesis by blast
  qed
  have "sorted_wrt (<) (map fst ?lines)" using red unfolding lines by blast
  with x xt keys vals show ?thesis by blast
qed

text \<open>The steps of a job as a function, to run one: the next step of a worker, at a given time.\<close>

definition work :: "(string \<Rightarrow> string \<Rightarrow> KeyValue list) \<Rightarrow> (string \<Rightarrow> string list \<Rightarrow> string) \<Rightarrow> nat \<Rightarrow> int \<Rightarrow> job \<Rightarrow> job option" where
  "work mapf reducef w now j = (case workers j w of
     None \<Rightarrow> Some (j\<lparr>workers := (workers j)(w \<mapsto> Asking MapLoop)\<rparr>)
   | Some (Asking at) \<Rightarrow> (case GetTask now at (coord j) of
       None \<Rightarrow> None
     | Some (c, Inl at') \<Rightarrow> Some (j\<lparr>coord := c, workers := (workers j)(w \<mapsto> Asking at')\<rparr>)
     | Some (c, Inr reply) \<Rightarrow> Some (j\<lparr>coord := c, workers := (workers j)(w := startTask mapf (files j) reply)\<rparr>))
   | Some (Renaming ty i (op # ops)) \<Rightarrow>
       Some (j\<lparr>files := renameFile op (files j), workers := (workers j)(w \<mapsto> Renaming ty i ops)\<rparr>)
   | Some (Renaming ty i []) \<Rightarrow> (case FinishedTask (coord j) \<lparr>ft_TaskType = ty, ft_TaskId = i\<rparr> of
       Some (Inr c) \<Rightarrow> Some (j\<lparr>coord := c, workers := (workers j)(w \<mapsto> Asking MapLoop)\<rparr>)
     | _ \<Rightarrow> None)
   | Some (Reading r n i kvs) \<Rightarrow>
       Some (if i < nat n
             then j\<lparr>workers := (workers j)(w := map_option (Reading r n (Suc i)) (readInter (files j) r i kvs))\<rparr>
             else j\<lparr>workers := (workers j)(w \<mapsto>
               Renaming Reduce r [reduceRename (sliceStable ByKey_Less) reducef r kvs])\<rparr>))"

lemma work_step: "work mapf reducef w now j = Some j' \<Longrightarrow> job_step mapf reducef (sliceStable ByKey_Less) j j'"
  by (auto simp: work_def split: option.splits worker.splits list.splits sum.splits if_splits prod.splits
      intro: job_step.intros)

lemma work_reach:
  "for_loop moves (\<lambda>(w, now). work mapf reducef w now) j = Some j' \<Longrightarrow>
   reach init (job_step mapf reducef (sliceStable ByKey_Less)) j \<Longrightarrow>
   reach init (job_step mapf reducef (sliceStable ByKey_Less)) j'"
proof (induction moves arbitrary: j)
  case (Cons m moves)
  then obtain j1 where j1: "work mapf reducef (fst m) (snd m) j = Some j1"
    "for_loop moves (\<lambda>(w, now). work mapf reducef w now) j1 = Some j'" by (auto split: option.splits prod.splits)
  then show ?case using Cons.IH Cons.prems(2) reach_step work_step by metis
qed simp

end
