(* ===== verification/Go_Strconv.thy ===== *)
theory Go_Strconv
  imports Main
begin

section \<open>Numbers as strings (\<^verbatim>\<open>strconv.Itoa\<close>)\<close>

text \<open>The decimal digits of a number; the result determines the number.\<close>

fun Itoa :: "nat \<Rightarrow> string" where
  "Itoa n = (if n < 10 then [] else Itoa (n div 10)) @ [char_of (48 + n mod 10)]"

declare Itoa.simps [simp del]

definition ItoaInt :: "int \<Rightarrow> string" where
  "ItoaInt k = (if k < 0 then ''-'' @ Itoa (nat (- k)) else Itoa (nat k))"

text \<open>The digits of a number, read from the left.\<close>

definition Atoi :: "string \<Rightarrow> nat" where
  "Atoi s = foldl (\<lambda>n c. 10 * n + (of_char c - 48)) 0 s"

lemma Atoi_Itoa: "Atoi (Itoa n) = n"
proof (induction n rule: Itoa.induct)
  case (1 n)
  have d: "of_char (char_of (48 + n mod 10) :: char) = 48 + n mod 10" by (simp add: of_char_of)
  show ?case
  proof (cases "n < 10")
    case True
    then show ?thesis using d by (simp add: Itoa.simps [of n] Atoi_def)
  next
    case False
    then show ?thesis using 1 d by (simp add: Itoa.simps [of n] Atoi_def)
  qed
qed

lemma Itoa_inj [simp]: "Itoa m = Itoa n \<longleftrightarrow> m = n"
  by (metis Atoi_Itoa)

lemma Itoa_digits: "c \<in> set (Itoa n) \<Longrightarrow> 48 \<le> (of_char c :: nat) \<and> of_char c \<le> (57 :: nat)"
proof (induction n rule: Itoa.induct)
  case (1 n)
  have d: "of_char (char_of (48 + n mod 10) :: char) = 48 + n mod 10" by (simp add: of_char_of)
  show ?case using 1 by (subst (asm) (2) Itoa.simps) (auto simp: d split: if_splits)
qed

end
