(* ===== verification/MR_Apps.thy ===== *)
theory MR_Apps
  imports MapReduce_Props Go_Strconv
begin

section \<open>MapReduce applications (\<^verbatim>\<open>mrapps\<close>) and the sequential program (\<^verbatim>\<open>main/mrsequential.go\<close>)\<close>

text \<open>
  The map and reduce functions of the applications that compute something (the others write marker files or look at
  the clock), and the program that runs an application without workers.  Which runes are letters (\<^verbatim>\<open>unicode.IsLetter\<close>) and the iteration
  order of a Go map, in the indexer, are arguments.
\<close>

subsection \<open>The library functions that they use\<close>

fun Join :: "string list \<Rightarrow> string \<Rightarrow> string" where
  "Join [] sep = []"
| "Join [x] sep = x"
| "Join (x # y # xs) sep = x @ sep @ Join (y # xs) sep"

fun Contains :: "string \<Rightarrow> string \<Rightarrow> bool" where
  "Contains [] sub = (sub = [])"
| "Contains (c # s) sub = (take (length sub) (c # s) = sub \<or> Contains s sub)"

subsection \<open>Applications\<close>

text \<open>\<^verbatim>\<open>wc.go\<close>\<close>

definition wc_Map :: "(int \<Rightarrow> bool) \<Rightarrow> string \<Rightarrow> string \<Rightarrow> KeyValue list" where
  "wc_Map isLetter filename contents = map (\<lambda>w. \<lparr>Key = w, Value = ''1''\<rparr>) (FieldsFunc (\<lambda>r. \<not> isLetter r) contents)"

definition wc_Reduce :: "string \<Rightarrow> string list \<Rightarrow> string" where
  "wc_Reduce key values = Itoa (length values)"

text \<open>\<^verbatim>\<open>indexer.go\<close>; \<open>ord\<close> is the order in which the map with the words as keys is iterated.\<close>

definition indexer_Map :: "(int \<Rightarrow> bool) \<Rightarrow> (string list \<Rightarrow> string list) \<Rightarrow> string \<Rightarrow> string \<Rightarrow> KeyValue list" where
  "indexer_Map isLetter ord document value =
     map (\<lambda>w. \<lparr>Key = w, Value = document\<rparr>) (ord (remdups (FieldsFunc (\<lambda>x. \<not> isLetter x) value)))"

definition indexer_Reduce :: "string \<Rightarrow> string list \<Rightarrow> string" where
  "indexer_Reduce key values = Itoa (length values) @ '' '' @ Join (sort values) '',''"

text \<open>\<^verbatim>\<open>crash.go\<close>: \<open>rr\<close> is the random number; \<^const>\<open>None\<close> is \<^verbatim>\<open>os.Exit\<close>.  \<^verbatim>\<open>nocrash.go\<close> has the same functions and never exits.\<close>

definition maybeCrash :: "int \<Rightarrow> unit option" where
  "maybeCrash rr = (if rr < 330 then None else Some ())"

definition nocrash_Map :: "string \<Rightarrow> string \<Rightarrow> KeyValue list" where
  "nocrash_Map filename contents =
     [\<lparr>Key = ''a'', Value = filename\<rparr>, \<lparr>Key = ''b'', Value = Itoa (length filename)\<rparr>,
      \<lparr>Key = ''c'', Value = Itoa (length contents)\<rparr>, \<lparr>Key = ''d'', Value = ''xyzzy''\<rparr>]"

definition nocrash_Reduce :: "string \<Rightarrow> string list \<Rightarrow> string" where
  "nocrash_Reduce key values = Join (sort values) '' ''"

definition crash_Map :: "int \<Rightarrow> string \<Rightarrow> string \<Rightarrow> KeyValue list option" where
  "crash_Map rr filename contents = map_option (\<lambda>_. nocrash_Map filename contents) (maybeCrash rr)"

definition crash_Reduce :: "int \<Rightarrow> string \<Rightarrow> string list \<Rightarrow> string option" where
  "crash_Reduce rr key values = map_option (\<lambda>_. nocrash_Reduce key values) (maybeCrash rr)"

text \<open>\<^verbatim>\<open>early_exit.go\<close>\<close>

definition early_Map :: "string \<Rightarrow> string \<Rightarrow> KeyValue list" where
  "early_Map filename contents = [\<lparr>Key = filename, Value = ''1''\<rparr>]"

definition early_Reduce :: "string \<Rightarrow> string list \<Rightarrow> string" where
  "early_Reduce key values = Itoa (length values)"

text \<open>\<^verbatim>\<open>dg.go\<close>: the lines that contain a word, with their numbers; the loop keeps the line so far and the line number.\<close>

fun dgLoop :: "string \<Rightarrow> nat \<Rightarrow> (int \<times> string) list \<Rightarrow> KeyValue list" where
  "dgLoop builder line [] = []"
| "dgLoop builder line (r # rs) =
     (if fst r = 0x0A \<or> fst r = 0x0D
      then (if Contains builder ''good'' then [\<lparr>Key = Itoa (line + 1), Value = builder\<rparr>] else []) @ dgLoop [] (line + 1) rs
      else dgLoop (builder @ rune_bytes r) line rs)"

definition dg_Map :: "string \<Rightarrow> string \<Rightarrow> KeyValue list" where
  "dg_Map filename contents = dgLoop [] 0 (runes contents)"

definition dg_Reduce :: "string \<Rightarrow> string list \<Rightarrow> string" where
  "dg_Reduce key values = ''--['' @ Join values '' '' @ '']'' @ [CHR 0x0A]"

subsection \<open>The sequential program\<close>

definition mrsequential ::
  "(string \<Rightarrow> string \<Rightarrow> KeyValue list) \<Rightarrow> (string \<Rightarrow> string list \<Rightarrow> string) \<Rightarrow> (KeyValue list \<Rightarrow> KeyValue list) \<Rightarrow>
   (string \<rightharpoonup> string) \<Rightarrow> string list \<Rightarrow> string option" where
  "mrsequential mapf reducef srt inputs names = (if names = [] then None else do {
     intermediate \<leftarrow> for_loop names (\<lambda>filename kvs. do {
       content \<leftarrow> inputs filename;
       Some (kvs @ mapf filename content)
     }) [];
     Some (concat (map reduceLine (reduceLoop reducef (srt intermediate))))
   })"

section \<open>A distributed job yields what the sequential program yields\<close>

definition insensitive :: "(string \<Rightarrow> string list \<Rightarrow> string) \<Rightarrow> bool" where
  "insensitive reducef \<longleftrightarrow> (\<forall>k vs ws. mset vs = mset ws \<longrightarrow> reducef k vs = reducef k ws)"

lemma insensitive_apps:
  "insensitive wc_Reduce" "insensitive indexer_Reduce" "insensitive nocrash_Reduce" "insensitive early_Reduce"
proof -
  have l: "length vs = length ws" and s: "sort vs = sort ws" if "mset vs = mset ws" for vs ws :: "string list"
  proof -
    show "length vs = length ws" by (rule mset_eq_length [OF that])
    show "sort vs = sort ws" by (rule properties_for_sort) (simp_all add: that)
  qed
  show "insensitive wc_Reduce" "insensitive early_Reduce"
    unfolding insensitive_def wc_Reduce_def early_Reduce_def using l by metis+
  show "insensitive indexer_Reduce" "insensitive nocrash_Reduce"
    unfolding insensitive_def indexer_Reduce_def nocrash_Reduce_def using l s by metis+
qed

text \<open>The values that the reduce function gets for a key.\<close>

definition valuesOf :: "KeyValue list \<Rightarrow> string \<Rightarrow> string list" where
  "valuesOf kvs k = map Value (filter (\<lambda>kv. Key kv = k) kvs)"

definition linesFor :: "(string \<Rightarrow> string list \<Rightarrow> string) \<Rightarrow> KeyValue list \<Rightarrow> string set \<Rightarrow> (string \<times> string) list" where
  "linesFor reducef kvs K = map (\<lambda>k. (k, reducef k (valuesOf kvs k))) (sorted_list_of_set K)"

text \<open>Lines with ascending keys are determined by the set of keys, if the order of the values does not matter.\<close>

lemma lines_determined:
  assumes "sorted_wrt (<) (map fst lines)" and "fst ` set lines = K" and "insensitive reducef"
    and "\<forall>(k, out) \<in> set lines. \<exists>vs. out = reducef k vs \<and> mset vs = mset (valuesOf kvs k)"
  shows "lines = linesFor reducef kvs K"
proof -
  have "map fst lines = sorted_list_of_set K"
    using assms(1,2) sorted_list_of_set.idem_if_sorted_distinct [of "map fst lines"] strict_sorted_iff [of "map fst lines"]
    by (metis set_map)
  moreover have "\<forall>(k, out) \<in> set lines. out = reducef k (valuesOf kvs k)"
    using assms(3,4) unfolding insensitive_def by fast
  then have "lines = map (\<lambda>k. (k, reducef k (valuesOf kvs k))) (map fst lines)" by (induction lines) auto
  ultimately show ?thesis by (simp add: linesFor_def)
qed

lemma sequential_lines:
  assumes "key_sort srt" and "insensitive reducef"
  shows "reduceLoop reducef (srt kvs) = linesFor reducef kvs (Key ` set kvs)"
proof (rule lines_determined)
  note sort = key_sort.srt_sorted [OF assms(1)] key_sort.srt_set [OF assms(1)] key_sort.srt_values [OF assms(1)]
  note red = reduceLoop_sorted [OF sort(1), of reducef kvs]
  show "sorted_wrt (<) (map fst (reduceLoop reducef (srt kvs)))" using red by blast
  show "fst ` set (reduceLoop reducef (srt kvs)) = Key ` set kvs" using red by (simp add: sort(2))
  show "\<forall>(k, out) \<in> set (reduceLoop reducef (srt kvs)). \<exists>vs. out = reducef k vs \<and> mset vs = mset (valuesOf kvs k)"
    using red sort(3) unfolding valuesOf_def by fast
qed (rule assms(2))

lemma job_output:
  assumes "key_sort srt" and "reach (job_init inputs names nReduce) (job_step mapf reducef srt) j"
    and "isDone (coord j)" and "r < nReduce" and "kvs = concat (emitted mapf inputs names)" and "insensitive reducef"
    and "\<forall>kv \<in> set kvs. json_kv kv = kv"
  shows "files j (OutFile (int r)) = Some (Text (concat (map reduceLine
    (linesFor reducef kvs {k \<in> Key ` set kvs. ihash k mod int nReduce = int r}))))"
proof -
  obtain lines where l: "files j (OutFile (int r)) = Some (Text (concat (map reduceLine lines)))"
    "sorted_wrt (<) (map fst lines)" "fst ` set lines = {k \<in> Key ` set kvs. ihash k mod int nReduce = int r}"
    "\<forall>(k, out) \<in> set lines. \<exists>vs. out = reducef k vs \<and> mset vs = mset (map Value (filter (\<lambda>kv. Key kv = k) kvs))"
    using job_lines [OF assms(1-5,7)] by blast
  have "lines = linesFor reducef kvs {k \<in> Key ` set kvs. ihash k mod int nReduce = int r}"
    by (rule lines_determined [OF l(2,3) assms(6)]) (use l(4) in \<open>simp add: valuesOf_def\<close>)
  with l(1) show ?thesis by simp
qed

text \<open>The lines of all keys are those of the reduce tasks together.\<close>

lemma linesFor_split:
  assumes "finite K" and "0 < n" and "\<And>k. k \<in> K \<Longrightarrow> c k < (n :: nat)"
  shows "mset (linesFor reducef kvs K) = mset (concat (map (\<lambda>r. linesFor reducef kvs {k \<in> K. c k = r}) [0..<n]))"
proof -
  let ?h = "\<lambda>k. (k, reducef k (valuesOf kvs k))"
  have m: "mset (linesFor reducef kvs X) = image_mset ?h (mset_set X)" if "X \<subseteq> K" for X
    by (simp add: linesFor_def flip: sorted_list_of_mset_set)
  have "mset_set K = (\<Sum>r = 0..<n. mset_set {k \<in> K. c k = r})"
  proof (rule multiset_eqI)
    fix k
    have "count (\<Sum>r = 0..<n. mset_set {k \<in> K. c k = r}) k = (\<Sum>r = 0..<n. if c k = r then (if k \<in> K then 1 else 0) else 0)"
      using assms(1) by (auto simp: count_sum count_mset_set' intro!: sum.cong)
    then show "count (mset_set K) k = count (\<Sum>r = 0..<n. mset_set {k \<in> K. c k = r}) k"
      using assms(1) assms(3) [of k] by (auto simp: count_mset_set')
  qed
  moreover have "image_mset ?h (\<Sum>r = 0..<i. g r) = (\<Sum>r = 0..<i. image_mset ?h (g r))" for i :: nat and g
    by (induction i) simp_all
  ultimately have "image_mset ?h (mset_set K) = (\<Sum>r = 0..<n. image_mset ?h (mset_set {k \<in> K. c k = r}))" by simp
  also have "\<dots> = (\<Sum>r \<leftarrow> [0..<n]. mset (linesFor reducef kvs {k \<in> K. c k = r}))"
    by (simp add: m interv_sum_list_conv_sum_set_nat)
  finally show ?thesis by (simp add: m mset_concat comp_def)
qed

lemma sequential_reads:
  assumes "mrsequential mapf reducef srt inputs names = Some out"
  shows "out = concat (map reduceLine (reduceLoop reducef (srt (concat (emitted mapf inputs names)))))"
proof -
  have "for_loop names (\<lambda>filename kvs. do {
       content \<leftarrow> inputs filename;
       Some (kvs @ mapf filename content)
     }) acc = Some kvs \<Longrightarrow> kvs = acc @ concat (emitted mapf inputs names)" for acc kvs
  proof (induction names arbitrary: acc)
    case (Cons n names)
    then obtain t where "inputs n = Some t" by (cases "inputs n") auto
    with Cons.prems Cons.IH [of "acc @ mapf n t"] show ?case by (simp add: emitted_def)
  qed (simp add: emitted_def)
  from this [of "[]"] assms show ?thesis by (auto simp: mrsequential_def split: if_splits bind_splits)
qed

text \<open>C33: a distributed job and the sequential program.  Take an application whose map function is deterministic and yields, on
  the inputs, only keys and values that are correct UTF-8 (so that they survive the intermediate files), and whose reduce function does not depend
  on the order of the values.  When a job is done, whichever workers have crashed and however the tasks were handed out, its
  output files together have the lines that \<^verbatim>\<open>mrsequential\<close> writes for the same application and inputs.\<close>

theorem job_equals_sequential:
  assumes "key_sort srt" and "key_sort srt'" and "reach (job_init inputs names nReduce) (job_step mapf reducef srt) j"
    and "isDone (coord j)" and "0 < nReduce" and "insensitive reducef"
    and "\<forall>kv \<in> set (concat (emitted mapf inputs names)). valid_utf8 (Key kv) \<and> valid_utf8 (Value kv)"
    and "mrsequential mapf reducef srt' inputs names = Some out"
  shows "\<exists>lines linesOf. out = concat (map reduceLine lines) \<and>
    (\<forall>r < nReduce. files j (OutFile (int r)) = Some (Text (concat (map reduceLine (linesOf r))))) \<and>
    mset lines = mset (concat (map linesOf [0..<nReduce]))"
proof -
  define kvs where "kvs = concat (emitted mapf inputs names)"
  define linesOf where "linesOf r = linesFor reducef kvs {k \<in> Key ` set kvs. nat (ihash k mod int nReduce) = r}" for r
  have json: "\<forall>kv \<in> set kvs. json_kv kv = kv" using assms(7) by (simp add: kvs_def json_kv_def json_valid)
  have "out = concat (map reduceLine (linesFor reducef kvs (Key ` set kvs)))"
    using sequential_reads [OF assms(8)] sequential_lines [OF assms(2,6)] by (simp add: kvs_def)
  moreover have "files j (OutFile (int r)) = Some (Text (concat (map reduceLine (linesOf r))))" if "r < nReduce" for r
  proof -
    have "nat (ihash k mod int nReduce) = r \<longleftrightarrow> ihash k mod int nReduce = int r" for k
      using assms(5) by (auto simp: nat_eq_iff)
    then show ?thesis
      using job_output [OF assms(1,3,4) that kvs_def assms(6) json] by (simp add: linesOf_def)
  qed
  moreover have "mset (linesFor reducef kvs (Key ` set kvs)) = mset (concat (map linesOf [0..<nReduce]))"
    unfolding linesOf_def by (rule linesFor_split) (use assms(5) in \<open>simp_all add: nat_less_iff\<close>)
  ultimately show ?thesis by blast
qed

lemma wc_valid:
  assumes "\<not> isLetter RuneError"
  shows "\<forall>kv \<in> set (concat (emitted (wc_Map isLetter) inputs names)). valid_utf8 (Key kv) \<and> valid_utf8 (Value kv)"
proof -
  have "valid_utf8 ''1''" by (rule valid_ascii) (simp add: byte_def)
  then show ?thesis using FieldsFunc_valid [of "\<lambda>r. \<not> isLetter r"] assms by (auto simp: emitted_def wc_Map_def split: option.splits)
qed

text \<open>C34: word count.  When a job that runs \<^verbatim>\<open>wc.go\<close> is done, the output file of reduce task \<open>r\<close> has one line for each word of the
  inputs that belongs to the task, in the order of their bytes, with the number of times that the word occurs in all inputs.  This holds
  for every set of letters without U+FFFD (which is not a letter of Unicode).\<close>

theorem word_count:
  assumes "key_sort srt" and "reach (job_init inputs names nReduce) (job_step (wc_Map isLetter) wc_Reduce srt) j"
    and "isDone (coord j)" and "r < nReduce" and "\<not> isLetter RuneError"
    and "words = concat (map (\<lambda>n. case inputs n of None \<Rightarrow> [] | Some t \<Rightarrow> FieldsFunc (\<lambda>r. \<not> isLetter r) t) names)"
  shows "files j (OutFile (int r)) = Some (Text (concat (map (\<lambda>w. w @ '' '' @ Itoa (count_list words w) @ [CHR 0x0A])
    (sorted_list_of_set {w \<in> set words. ihash w mod int nReduce = int r}))))"
proof -
  define kvs where "kvs = concat (emitted (wc_Map isLetter) inputs names)"
  have kvs: "kvs = map (\<lambda>w. \<lparr>Key = w, Value = ''1''\<rparr>) words"
    unfolding kvs_def assms(6) emitted_def by (induction names) (auto simp: wc_Map_def split: option.splits)
  then have "Key ` set kvs = set words" by force
  moreover have "length (filter (\<lambda>x. x = w) xs) = count_list xs w" for w and xs :: "string list" by (induction xs) auto
  then have "length (valuesOf kvs w) = count_list words w" for w by (simp add: kvs valuesOf_def filter_map comp_def)
  moreover have "\<forall>kv \<in> set kvs. json_kv kv = kv" using wc_valid [of isLetter, OF assms(5)] by (simp add: kvs_def json_kv_def json_valid)
  ultimately show ?thesis
    using job_output [OF assms(1-4) kvs_def insensitive_apps(1)]
    by (simp add: linesFor_def reduceLine_def wc_Reduce_def comp_def)
qed

section \<open>An example\<close>

text \<open>The letters of ASCII; two inputs, two reduce tasks; worker 0 takes a map task and stops, worker 1 does everything.\<close>

definition asciiLetter :: "int \<Rightarrow> bool" where
  "asciiLetter r \<longleftrightarrow> 65 \<le> r \<and> r \<le> 90 \<or> 97 \<le> r \<and> r \<le> 122"

lemma ascii_letters: "\<not> asciiLetter RuneError"
  by (simp add: asciiLetter_def RuneError_def)

definition wc_inputs :: "string \<rightharpoonup> string" where
  "wc_inputs = [''f'' \<mapsto> ''a b!'', ''g'' \<mapsto> ''a'']"

definition wc_job0 :: job where
  "wc_job0 = \<lparr>coord = MakeCoordinator [''f'', ''g''] 2,
     files = (\<lambda>f. case f of InputFile n \<Rightarrow> map_option Text (wc_inputs n) | _ \<Rightarrow> None), workers = Map.empty\<rparr>"

definition wc_job :: "job option" where
  "wc_job = for_loop ([(0, 0), (0, 0)] @ replicate 22 (1, 11000000000)) (\<lambda>(w, now). work (wc_Map asciiLetter) wc_Reduce w now) wc_job0"

lemma wc_job_done:
  obtains j where "wc_job = Some j" and "isDone (coord j)"
    and "reach (job_init wc_inputs [''f'', ''g''] 2) (job_step (wc_Map asciiLetter) wc_Reduce (sliceStable ByKey_Less)) j"
proof -
  have "\<not> Option.is_none wc_job" by code_simp
  then obtain j where j: "wc_job = Some j" by (cases wc_job) auto
  have "job_init wc_inputs [''f'', ''g''] 2 wc_job0" by (simp add: job_init_def wc_job0_def)
  then have "reach (job_init wc_inputs [''f'', ''g''] 2) (job_step (wc_Map asciiLetter) wc_Reduce (sliceStable ByKey_Less)) j"
    by (intro work_reach [OF j [unfolded wc_job_def]] reach_init)
  moreover have "isDone (coord (the wc_job))" by code_simp
  then have "isDone (coord j)" unfolding j option.sel .
  ultimately show thesis using j that by blast
qed

theorem job_equals_sequential_witness:
  "\<exists>j lines l0 l1. wc_job = Some j \<and>
     mrsequential (wc_Map asciiLetter) wc_Reduce (sliceStable ByKey_Less) wc_inputs [''f'', ''g''] = Some (concat (map reduceLine lines)) \<and>
     files j (OutFile 0) = Some (Text (concat (map reduceLine l0))) \<and>
     files j (OutFile 1) = Some (Text (concat (map reduceLine l1))) \<and>
     mset lines = mset (l0 @ l1)"
proof -
  let ?m = "mrsequential (wc_Map asciiLetter) wc_Reduce (sliceStable ByKey_Less) wc_inputs [''f'', ''g'']"
  obtain j where j: "wc_job = Some j" "isDone (coord j)"
    "reach (job_init wc_inputs [''f'', ''g''] 2) (job_step (wc_Map asciiLetter) wc_Reduce (sliceStable ByKey_Less)) j" by (rule wc_job_done)
  have m: "?m = Some (''a 2'' @ [CHR 0x0A] @ ''b 1'' @ [CHR 0x0A])" by code_simp
  obtain lines linesOf where l: "?m = Some (concat (map reduceLine lines))"
    "\<forall>r < 2. files j (OutFile (int r)) = Some (Text (concat (map reduceLine (linesOf r))))"
    "mset lines = mset (concat (map linesOf [0..<2]))"
    using job_equals_sequential [OF short.key_sort_axioms short.key_sort_axioms j(3,2) _ insensitive_apps(1) wc_valid [of asciiLetter, OF ascii_letters] m] m by auto
  have "files j (OutFile 0) = Some (Text (concat (map reduceLine (linesOf 0))))"
    "files j (OutFile 1) = Some (Text (concat (map reduceLine (linesOf 1))))"
    using l(2) [THEN spec, of 0] l(2) [THEN spec, of 1] by simp_all
  moreover have "concat (map linesOf [0..<2]) = linesOf 0 @ linesOf 1" by (simp add: numeral_2_eq_2)
  ultimately show ?thesis
    using j(1) l(1,3) by (intro exI [of _ j] exI [of _ lines] exI [of _ "linesOf 0"] exI [of _ "linesOf 1"] conjI) simp_all
qed

theorem word_count_witness:
  "\<exists>j. wc_job = Some j \<and> files j (OutFile (int 0)) = Some (Text (concat (map (\<lambda>w. w @ '' '' @
     Itoa (count_list [''a'', ''b'', ''a''] w) @ [CHR 0x0A]) (sorted_list_of_set {w \<in> {''a'', ''b''}. ihash w mod 2 = 0}))))"
proof -
  obtain j where j: "wc_job = Some j" "isDone (coord j)"
    "reach (job_init wc_inputs [''f'', ''g''] 2) (job_step (wc_Map asciiLetter) wc_Reduce (sliceStable ByKey_Less)) j" by (rule wc_job_done)
  have w: "[''a'', ''b'', ''a''] = concat (map (\<lambda>n. case wc_inputs n of None \<Rightarrow> []
      | Some t \<Rightarrow> FieldsFunc (\<lambda>r. \<not> asciiLetter r) t) [''f'', ''g''])" by code_simp
  show ?thesis
    using word_count [OF short.key_sort_axioms j(3,2) _ ascii_letters w, of 0] j(1) by (auto simp: insert_commute)
qed

end
