(* ===== verification/Porcupine_Bitset.thy ===== *)
theory Porcupine_Bitset
  imports Go_Prelude "HOL-Library.Word"
begin

section \<open>Bit sets (\<^verbatim>\<open>porcupine/bitset.go\<close>)\<close>

text \<open>
  A bit set is a slice of 64-bit words; bits 0 to 63 are in the first word.  Positions of type
  \<^verbatim>\<open>uint\<close> are natural numbers, and an access outside the slice panics.  The abstraction \<open>bs_set\<close> is the
  set of positions whose bit is set; every operation is related to it.  \<^verbatim>\<open>hash\<close> stays at its width.
\<close>

unbundle bit_operations_syntax

type_synonym bitset = "64 word list"

definition newBitset :: "nat \<Rightarrow> bitset" where
  "newBitset bits = replicate (bits div 64 + (if bits mod 64 \<noteq> 0 then 1 else 0)) 0"

definition bitset_clone :: "bitset \<Rightarrow> bitset" where
  "bitset_clone b = map (\<lambda>v. v) b"

definition bitsetIndex :: "nat \<Rightarrow> nat \<times> nat" where
  "bitsetIndex pos = (pos div 64, pos mod 64)"

definition bitset_set :: "bitset \<Rightarrow> nat \<Rightarrow> bitset option" where
  "bitset_set b pos = (let (major, minor) = bitsetIndex pos in do {
     v \<leftarrow> idx b (int major);
     set_idx b (int major) (v OR push_bit minor 1)
   })"

definition bitset_clear :: "bitset \<Rightarrow> nat \<Rightarrow> bitset option" where
  "bitset_clear b pos = (let (major, minor) = bitsetIndex pos in do {
     v \<leftarrow> idx b (int major);
     set_idx b (int major) (v AND NOT (push_bit minor 1))
   })"

definition bitset_get :: "bitset \<Rightarrow> nat \<Rightarrow> bool option" where
  "bitset_get b pos = (let (major, minor) = bitsetIndex pos in do {
     v \<leftarrow> idx b (int major);
     Some (v AND push_bit minor 1 \<noteq> 0)
   })"

text \<open>\<^verbatim>\<open>bits.OnesCount64\<close>.\<close>

definition OnesCount64 :: "64 word \<Rightarrow> nat" where
  "OnesCount64 v = length (filter (bit v) [0..<64])"

definition bitset_popcnt :: "bitset \<Rightarrow> nat" where
  "bitset_popcnt b = fold (\<lambda>v total. total + OnesCount64 v) b 0"

definition bitset_hash :: "bitset \<Rightarrow> 64 word" where
  "bitset_hash b = fold (\<lambda>v h. h XOR v) b (of_nat (bitset_popcnt b))"

definition bitset_equals :: "bitset \<Rightarrow> bitset \<Rightarrow> bool" where
  "bitset_equals b b2 \<longleftrightarrow> length b = length b2 \<and> list_all (\<lambda>i. b ! i = b2 ! i) [0..<length b]"

subsection \<open>The set a bit set stands for\<close>

definition bs_set :: "bitset \<Rightarrow> nat set" where
  "bs_set b = {p. p < 64 * length b \<and> bit (b ! (p div 64)) (p mod 64)}"

lemma bs_index: "p < 64 * length b \<longleftrightarrow> p div 64 < length b"
  by (simp add: div_less_iff_less_mult mult.commute)

lemma newBitset_covers: "p < n \<Longrightarrow> p < 64 * length (newBitset n)"
  by (simp add: newBitset_def) presburger

lemma bs_set_new [simp]: "bs_set (newBitset n) = {}"
  by (auto simp: bs_set_def newBitset_def nth_replicate split: if_splits)

lemma bitset_clone_id [simp]: "bitset_clone b = b"
  by (simp add: bitset_clone_def)

lemma bitset_set_eq:
  assumes "p < 64 * length b"
  shows "bitset_set b p = Some (b[p div 64 := b ! (p div 64) OR push_bit (p mod 64) 1])"
  using assms by (simp add: bitset_set_def bitsetIndex_def bs_index)

lemma bitset_clear_eq:
  assumes "p < 64 * length b"
  shows "bitset_clear b p = Some (b[p div 64 := b ! (p div 64) AND NOT (push_bit (p mod 64) 1)])"
  using assms by (simp add: bitset_clear_def bitsetIndex_def bs_index)

lemma same_position: "q div 64 = p div 64 \<Longrightarrow> q mod 64 = p mod 64 \<Longrightarrow> q = (p :: nat)"
  by (metis div_mult_mod_eq)

lemma bit_one_push: "bit ((2 :: 64 word) ^ m) n \<longleftrightarrow> n < 64 \<and> n = m"
  by (auto simp: bit_exp_iff possible_bit_word)

lemma bs_set_set:
  assumes "p < 64 * length b" and "bitset_set b p = Some b'"
  shows "bs_set b' = insert p (bs_set b) \<and> length b' = length b"
proof -
  have b': "b' = b[p div 64 := b ! (p div 64) OR push_bit (p mod 64) 1]"
    using assms by (simp add: bitset_set_eq)
  have "q \<in> bs_set b' \<longleftrightarrow> q \<in> insert p (bs_set b)" for q
    using assms(1) same_position [of q p]
    by (cases "q div 64 = p div 64") (auto simp: b' bs_set_def bs_index bit_or_iff bit_one_push)
  then show ?thesis by (auto simp: b')
qed

lemma bs_set_clear:
  assumes "p < 64 * length b" and "bitset_clear b p = Some b'"
  shows "bs_set b' = bs_set b - {p} \<and> length b' = length b"
proof -
  have b': "b' = b[p div 64 := b ! (p div 64) AND NOT (push_bit (p mod 64) 1)]"
    using assms by (simp add: bitset_clear_eq)
  have "q \<in> bs_set b' \<longleftrightarrow> q \<in> bs_set b - {p}" for q
    using assms(1) same_position [of q p]
    by (cases "q div 64 = p div 64")
      (auto simp: b' bs_set_def bs_index bit_and_iff bit_not_iff bit_one_push possible_bit_word)
  then show ?thesis by (auto simp: b')
qed

lemma bs_get:
  assumes "p < 64 * length b"
  shows "bitset_get b p = Some (p \<in> bs_set b)"
proof -
  let ?v = "b ! (p div 64)" and ?m = "p mod 64"
  have "?v AND push_bit ?m 1 \<noteq> 0 \<longleftrightarrow> bit ?v ?m"
  proof
    assume "?v AND push_bit ?m 1 \<noteq> 0"
    then obtain n where "bit (?v AND push_bit ?m 1) n" by (auto simp: bit_eq_iff)
    then show "bit ?v ?m" by (auto simp: bit_and_iff bit_one_push)
  next
    assume "bit ?v ?m"
    then have "bit (?v AND push_bit ?m 1) ?m" by (simp add: bit_and_iff bit_one_push)
    then show "?v AND push_bit ?m 1 \<noteq> 0" by auto
  qed
  then show ?thesis using assms by (simp add: bitset_get_def bitsetIndex_def bs_index bs_set_def)
qed

lemma bitset_equals_iff: "bitset_equals b b2 \<longleftrightarrow> b = b2"
  by (auto simp: bitset_equals_def list_all_iff intro: nth_equalityI)

lemma bs_set_inject:
  assumes "length b = length b2" and "bs_set b = bs_set b2"
  shows "b = b2"
proof (rule nth_equalityI)
  fix i assume i: "i < length b"
  show "b ! i = b2 ! i"
  proof (rule bit_word_eqI)
    fix n assume n: "n < LENGTH(64)"
    have "64 * i + n \<in> bs_set b \<longleftrightarrow> 64 * i + n \<in> bs_set b2" using assms(2) by simp
    moreover have "64 * i + n < 64 * length b" using i n by simp
    ultimately show "bit (b ! i) n \<longleftrightarrow> bit (b2 ! i) n" using assms(1) n by (simp add: bs_set_def)
  qed
qed (fact assms(1))

lemma bs_set_Cons: "bs_set (v # b) = {n. n < 64 \<and> bit v n} \<union> (\<lambda>p. p + 64) ` bs_set b"
proof -
  have "q \<in> bs_set (v # b) \<longleftrightarrow> q \<in> {n. n < 64 \<and> bit v n} \<union> (\<lambda>p. p + 64) ` bs_set b" for q
  proof (cases "q < 64")
    case True
    then show ?thesis by (auto simp: bs_set_def)
  next
    case False
    then obtain p where p: "q = p + 64" by (metis add.commute le_Suc_ex not_less)
    have "q div 64 = Suc (p div 64)" "q mod 64 = p mod 64" using p by simp_all
    then have "q \<in> bs_set (v # b) \<longleftrightarrow> p \<in> bs_set b" using p by (simp add: bs_set_def)
    then show ?thesis using p by auto
  qed
  then show ?thesis by blast
qed

lemma finite_bs_set [simp]: "finite (bs_set b)"
  by (rule finite_subset [of _ "{..<64 * length b}"]) (auto simp: bs_set_def)

lemma OnesCount64_card: "OnesCount64 v = card {n. n < 64 \<and> bit v n}"
proof -
  have "OnesCount64 v = card (set (filter (bit v) [0..<64]))"
    unfolding OnesCount64_def by (rule distinct_card [symmetric]) simp
  moreover have "set (filter (bit v) [0..<64]) = {n. n < 64 \<and> bit v n}" by auto
  ultimately show ?thesis by simp
qed

lemma popcnt_card: "bitset_popcnt b = card (bs_set b)"
proof -
  have "fold (\<lambda>v total. total + OnesCount64 v) b k = k + card (bs_set b)" for k
  proof (induction b arbitrary: k)
    case Nil
    then show ?case by (simp add: bs_set_def)
  next
    case (Cons v b)
    have "card (bs_set (v # b)) = card {n. n < 64 \<and> bit v n} + card ((\<lambda>p. p + 64) ` bs_set b)"
      unfolding bs_set_Cons by (rule card_Un_disjoint) auto
    then have "card (bs_set (v # b)) = OnesCount64 v + card (bs_set b)"
      by (simp add: OnesCount64_card card_image)
    with Cons.IH show ?case by simp
  qed
  then show ?thesis by (simp add: bitset_popcnt_def)
qed

text \<open>C40: bit sets.  On positions inside the slice, \<^verbatim>\<open>set\<close> adds the position, \<^verbatim>\<open>clear\<close> removes it and \<^verbatim>\<open>get\<close> tests it,
  without changing the length; outside the slice all three panic.  A new bit set for \<open>n\<close> bits is empty and
  has room for them.  \<^verbatim>\<open>popcnt\<close> is the number of elements, and \<^verbatim>\<open>equals\<close> holds for bit sets of the same length
  exactly when they have the same elements; then their hashes are the same too.\<close>

theorem bitset_correct:
  "(p < 64 * length b \<longrightarrow> (\<exists>b'. bitset_set b p = Some b' \<and> bs_set b' = insert p (bs_set b) \<and> length b' = length b)) \<and>
   (p < 64 * length b \<longrightarrow> (\<exists>b'. bitset_clear b p = Some b' \<and> bs_set b' = bs_set b - {p} \<and> length b' = length b)) \<and>
   (p < 64 * length b \<longrightarrow> bitset_get b p = Some (p \<in> bs_set b)) \<and>
   (64 * length b \<le> p \<longrightarrow> bitset_set b p = None \<and> bitset_clear b p = None \<and> bitset_get b p = None) \<and>
   bs_set (newBitset n) = {} \<and> n \<le> 64 * length (newBitset n) \<and> bitset_popcnt b = card (bs_set b) \<and>
   (length b = length c \<longrightarrow> bitset_equals b c = (bs_set b = bs_set c)) \<and>
   (bitset_equals b c \<longrightarrow> bitset_hash b = bitset_hash c)"
proof (intro conjI impI)
  assume p: "p < 64 * length b"
  show "\<exists>b'. bitset_set b p = Some b' \<and> bs_set b' = insert p (bs_set b) \<and> length b' = length b"
    using bs_set_set [OF p bitset_set_eq [OF p]] bitset_set_eq [OF p] by blast
  show "\<exists>b'. bitset_clear b p = Some b' \<and> bs_set b' = bs_set b - {p} \<and> length b' = length b"
    using bs_set_clear [OF p bitset_clear_eq [OF p]] bitset_clear_eq [OF p] by blast
  show "bitset_get b p = Some (p \<in> bs_set b)" using p by (rule bs_get)
next
  assume "64 * length b \<le> p"
  then have "idx b (int (p div 64)) = None" using bs_index [of p b] by (simp add: idx_def not_less)
  then show "bitset_set b p = None" "bitset_clear b p = None" "bitset_get b p = None"
    by (simp_all add: bitset_set_def bitset_clear_def bitset_get_def bitsetIndex_def)
next
  show "n \<le> 64 * length (newBitset n)" using newBitset_covers [of "n - 1" n] by (cases n) simp_all
next
  assume "length b = length c"
  then show "bitset_equals b c = (bs_set b = bs_set c)" using bs_set_inject by (auto simp: bitset_equals_iff)
qed (simp_all add: popcnt_card bitset_equals_iff)

theorem bitset_correct_witness:
  "(\<exists>b. bitset_set (newBitset 70) 69 = Some b \<and> bs_set b = {69}) \<and> bitset_clear [0, 32] 128 = None"
proof -
  have "length (newBitset 70) = 2" by code_simp
  then show ?thesis
    using bitset_correct [of 69 "newBitset 70" 70 "[]"] bitset_correct [of 128 "[0, 32]" 0 "[]"] by auto
qed

end
