(* ===== verification/Porcupine.thy ===== *)
theory Porcupine
  imports Porcupine_Bitset
begin

section \<open>The linearizability checker (\<^verbatim>\<open>porcupine\<close>)\<close>

text \<open>
  The data of \<^verbatim>\<open>porcupine/model.go\<close>, the checker of \<^verbatim>\<open>porcupine/checker.go\<close> and the entry points of
  \<^verbatim>\<open>porcupine/porcupine.go\<close>.  An \<^verbatim>\<open>interface{}\<close> value is an option, \<^const>\<open>None\<close> for nil.  A model's step
  function returns an option as well: a model may panic on inputs and outputs of the wrong type.

  The doubly linked list that the search edits in place is an explicit store: a pointer is an
  address, nil is \<^const>\<open>None\<close>, and following nil panics.  \<^verbatim>\<open>sort.Sort\<close> is the parameter \<open>srt\<close>; the shared
  \<^verbatim>\<open>kill\<close> flag, which other goroutines set, is a function that gives its value in each
  iteration.  The functions of a model that describe operations and states are left out.
\<close>

subsection \<open>Histories and models\<close>

type_synonym 'v iface = "'v option"

record 'v Operation =
  op_Client :: int
  op_Input :: "'v iface"
  op_Call :: int
  op_Output :: "'v iface"
  op_Return :: int

datatype EventKind = CallEvent | ReturnEvent

record 'v Event =
  ev_ClientId :: int
  ev_Kind :: EventKind
  ev_Value :: "'v iface"
  ev_Id :: int

record ('v, 's) Model =
  Partition :: "('v Operation list \<Rightarrow> 'v Operation list list option) option"
  PartitionEvent :: "('v Event list \<Rightarrow> 'v Event list list option) option"
  Init :: 's
  Step :: "'s \<Rightarrow> 'v iface \<Rightarrow> 'v iface \<Rightarrow> (bool \<times> 's) option"
  Equal :: "('s \<Rightarrow> 's \<Rightarrow> bool) option"

definition NoPartition :: "'v Operation list \<Rightarrow> 'v Operation list list option" where
  "NoPartition history = Some [history]"

definition NoPartitionEvent :: "'v Event list \<Rightarrow> 'v Event list list option" where
  "NoPartitionEvent history = Some [history]"

definition ShallowEqual :: "'s \<Rightarrow> 's \<Rightarrow> bool" where
  "ShallowEqual state1 state2 \<longleftrightarrow> state1 = state2"

datatype CheckResult = Unknown | Ok | Illegal

definition fillDefault :: "('v, 's) Model \<Rightarrow> ('v, 's) Model" where
  "fillDefault m = m
     \<lparr>Partition := (case Partition m of None \<Rightarrow> Some NoPartition | p \<Rightarrow> p),
      PartitionEvent := (case PartitionEvent m of None \<Rightarrow> Some NoPartitionEvent | p \<Rightarrow> p),
      Equal := (case Equal m of None \<Rightarrow> Some ShallowEqual | e \<Rightarrow> e)\<rparr>"

subsection \<open>Entries\<close>

datatype entryKind = callEntry | returnEntry

record 'v entry =
  en_kind :: entryKind
  en_value :: "'v iface"
  en_id :: int
  en_time :: int
  en_clientId :: int

definition byTime_Less :: "'v entry \<Rightarrow> 'v entry \<Rightarrow> bool" where
  "byTime_Less a b \<longleftrightarrow>
     (if en_time a \<noteq> en_time b then en_time a < en_time b
      else en_kind a = callEntry \<and> en_kind b = returnEntry)"

definition rawEntries :: "'v Operation list \<Rightarrow> 'v entry list" where
  "rawEntries history = concat (map (\<lambda>(i, elem).
     [\<lparr>en_kind = callEntry, en_value = op_Input elem, en_id = int i, en_time = op_Call elem,
       en_clientId = op_Client elem\<rparr>,
      \<lparr>en_kind = returnEntry, en_value = op_Output elem, en_id = int i, en_time = op_Return elem,
       en_clientId = op_Client elem\<rparr>]) (enumerate 0 history))"

definition makeEntries :: "('v entry list \<Rightarrow> 'v entry list) \<Rightarrow> 'v Operation list \<Rightarrow> 'v entry list" where
  "makeEntries srt history = srt (rawEntries history)"

fun renumberLoop :: "(int \<rightharpoonup> int) \<Rightarrow> int \<Rightarrow> 'v Event list \<Rightarrow> 'v Event list" where
  "renumberLoop m next [] = []"
| "renumberLoop m next (v # events) = (case m (ev_Id v) of
     Some r \<Rightarrow> v\<lparr>ev_Id := r\<rparr> # renumberLoop m next events
   | None \<Rightarrow> v\<lparr>ev_Id := next\<rparr> # renumberLoop (m(ev_Id v \<mapsto> next)) (next + 1) events)"

definition renumber :: "'v Event list \<Rightarrow> 'v Event list" where
  "renumber events = renumberLoop Map.empty 0 events"

definition convertEntries :: "'v Event list \<Rightarrow> 'v entry list" where
  "convertEntries events = map (\<lambda>(i, elem).
     \<lparr>en_kind = (if ev_Kind elem = ReturnEvent then returnEntry else callEntry), en_value = ev_Value elem,
      en_id = ev_Id elem, en_time = int i, en_clientId = ev_ClientId elem\<rparr>) (enumerate 0 events)"

subsection \<open>The linked list\<close>

record 'v node =
  nd_value :: "'v iface"
  nd_match :: "nat option"
  nd_id :: int
  nd_next :: "nat option"
  nd_prev :: "nat option"

type_synonym 'v heap = "'v node list"

text \<open>Following a pointer, and assigning to a field through one.\<close>

definition deref :: "'v heap \<Rightarrow> nat option \<Rightarrow> 'v node option" where
  "deref h p = Option.bind p (\<lambda>a. if a < length h then Some (h ! a) else None)"

definition set_next :: "nat option \<Rightarrow> nat option \<Rightarrow> 'v heap \<Rightarrow> 'v heap option" where
  "set_next p v h = do { a \<leftarrow> p; n \<leftarrow> deref h p; Some (h[a := n\<lparr>nd_next := v\<rparr>]) }"

definition set_prev :: "nat option \<Rightarrow> nat option \<Rightarrow> 'v heap \<Rightarrow> 'v heap option" where
  "set_prev p v h = do { a \<leftarrow> p; n \<leftarrow> deref h p; Some (h[a := n\<lparr>nd_prev := v\<rparr>]) }"

definition insertBefore :: "nat \<Rightarrow> nat option \<Rightarrow> 'v heap \<Rightarrow> 'v heap option" where
  "insertBefore n mark h = (case mark of
     None \<Rightarrow> Some h
   | Some k \<Rightarrow> do {
       m \<leftarrow> deref h mark;
       let beforeMark = nd_prev m;
       h1 \<leftarrow> set_prev mark (Some n) h;
       h2 \<leftarrow> set_next (Some n) mark h1;
       (case beforeMark of
          None \<Rightarrow> Some h2
        | Some b \<Rightarrow> do { h3 \<leftarrow> set_prev (Some n) beforeMark h2; set_next beforeMark (Some n) h3 })
     })"

text \<open>The loop of \<^verbatim>\<open>length\<close>; it does not return on a cyclic list.\<close>

partial_function (option) listLength :: "'v heap \<Rightarrow> nat option \<Rightarrow> nat \<Rightarrow> nat option" where
  "listLength h n l = (case n of
     None \<Rightarrow> Some l
   | Some a \<Rightarrow> Option.bind (deref h n) (\<lambda>nd. listLength h (nd_next nd) (l + 1)))"

text \<open>The body of the loop of \<^verbatim>\<open>makeLinkedEntries\<close>, which goes through the entries from the last to the first.\<close>

definition linkEntry ::
  "'v entry \<Rightarrow> 'v heap \<times> nat option \<times> (int \<rightharpoonup> nat) \<Rightarrow> ('v heap \<times> nat option \<times> (int \<rightharpoonup> nat)) option" where
  "linkEntry elem = (\<lambda>(h, root, match).
     let a = length h in
     if en_kind elem = returnEntry then do {
       h' \<leftarrow> insertBefore a root
         (h @ [\<lparr>nd_value = en_value elem, nd_match = None, nd_id = en_id elem, nd_next = None, nd_prev = None\<rparr>]);
       Some (h', Some a, match(en_id elem \<mapsto> a))
     }
     else do {
       h' \<leftarrow> insertBefore a root
         (h @ [\<lparr>nd_value = en_value elem, nd_match = match (en_id elem), nd_id = en_id elem,
               nd_next = None, nd_prev = None\<rparr>]);
       Some (h', Some a, match)
     })"

definition makeLinkedEntries :: "'v entry list \<Rightarrow> ('v heap \<times> nat option) option" where
  "makeLinkedEntries entries = do {
     (h, root, match) \<leftarrow> for_loop (rev entries) linkEntry ([], None, Map.empty);
     Some (h, root)
   }"

definition lift :: "nat \<Rightarrow> 'v heap \<Rightarrow> 'v heap option" where
  "lift entry h = do {
     e \<leftarrow> deref h (Some entry);
     h1 \<leftarrow> set_next (nd_prev e) (nd_next e) h;
     e1 \<leftarrow> deref h1 (Some entry);
     h2 \<leftarrow> set_prev (nd_next e1) (nd_prev e1) h1;
     e2 \<leftarrow> deref h2 (Some entry);
     let match = nd_match e2;
     m \<leftarrow> deref h2 match;
     h3 \<leftarrow> set_next (nd_prev m) (nd_next m) h2;
     m1 \<leftarrow> deref h3 match;
     (case nd_next m1 of None \<Rightarrow> Some h3 | Some k \<Rightarrow> set_prev (Some k) (nd_prev m1) h3)
   }"

definition unlift :: "nat \<Rightarrow> 'v heap \<Rightarrow> 'v heap option" where
  "unlift entry h = do {
     e \<leftarrow> deref h (Some entry);
     let match = nd_match e;
     m \<leftarrow> deref h match;
     h1 \<leftarrow> set_next (nd_prev m) match h;
     m1 \<leftarrow> deref h1 match;
     h2 \<leftarrow> (case nd_next m1 of None \<Rightarrow> Some h1 | Some k \<Rightarrow> set_prev (Some k) match h1);
     e2 \<leftarrow> deref h2 (Some entry);
     h3 \<leftarrow> set_next (nd_prev e2) (Some entry) h2;
     e3 \<leftarrow> deref h3 (Some entry);
     set_prev (nd_next e3) (Some entry) h3
   }"

subsection \<open>The search\<close>

record 's cacheEntry =
  ce_linearized :: bitset
  ce_state :: 's

type_synonym 's cache = "64 word \<rightharpoonup> 's cacheEntry list"

definition modelEqual :: "('v, 's) Model \<Rightarrow> 's \<Rightarrow> 's \<Rightarrow> bool" where
  "modelEqual m = (case Equal m of None \<Rightarrow> ShallowEqual | Some eq \<Rightarrow> eq)"

definition cacheContains :: "('v, 's) Model \<Rightarrow> 's cache \<Rightarrow> 's cacheEntry \<Rightarrow> bool" where
  "cacheContains m cache new = list_ex (\<lambda>elem. bitset_equals (ce_linearized new) (ce_linearized elem) \<and>
     modelEqual m (ce_state new) (ce_state elem)) (map_get cache [] (bitset_hash (ce_linearized new)))"

record ('v, 's) search =
  s_heap :: "'v heap"
  s_entry :: "nat option"
  s_linearized :: bitset
  s_cache :: "'s cache"
  s_calls :: "(nat \<times> 's) list"
  s_longest :: "int list option list"
  s_state :: 's

definition callIds :: "'v heap \<Rightarrow> (nat \<times> 's) list \<Rightarrow> int list option" where
  "callIds h calls = for_loop calls (\<lambda>v ids. do { n \<leftarrow> deref h (Some (fst v)); Some (ids @ [nd_id n]) }) []"

text \<open>The update of \<^verbatim>\<open>longest\<close> before the search goes back.\<close>

definition longestStep ::
  "'v heap \<Rightarrow> int list \<Rightarrow> nat \<times> 's \<Rightarrow> int list option list \<Rightarrow> int list option list option" where
  "longestStep h seq v longest = do {
     n \<leftarrow> deref h (Some (fst v));
     old \<leftarrow> idx longest (nd_id n);
     if (case old of None \<Rightarrow> True | Some l \<Rightarrow> length seq > length l)
     then set_idx longest (nd_id n) (Some seq) else Some longest
   }"

definition recordLongest :: "bool \<Rightarrow> ('v, 's) search \<Rightarrow> int list option list option" where
  "recordLongest computePartial S =
     (if computePartial then do {
        seq \<leftarrow> callIds (s_heap S) (s_calls S);
        for_loop (s_calls S) (longestStep (s_heap S) seq) (s_longest S)
      }
      else Some (s_longest S))"

text \<open>The conversion \<^verbatim>\<open>uint(id)\<close>: a negative number becomes a position beyond the end of every bit set.\<close>

definition bitpos :: "int \<Rightarrow> nat option" where
  "bitpos i = (if i < 0 then None else Some (nat i))"

text \<open>One iteration when the current entry is a call: try to linearize it, otherwise go to the next entry.\<close>

definition tryCall :: "('v, 's) Model \<Rightarrow> nat \<Rightarrow> nat \<Rightarrow> ('v, 's) search \<Rightarrow> ('v, 's) search option" where
  "tryCall m headEntry a S = do {
     e \<leftarrow> deref (s_heap S) (Some a);
     matching \<leftarrow> deref (s_heap S) (nd_match e);
     (ok, newState) \<leftarrow> Step m (s_state S) (nd_value e) (nd_value matching);
     if ok then do {
       pos \<leftarrow> bitpos (nd_id e);
       newLinearized \<leftarrow> bitset_set (bitset_clone (s_linearized S)) pos;
       let new = \<lparr>ce_linearized = newLinearized, ce_state = newState\<rparr>;
       if \<not> cacheContains m (s_cache S) new then do {
         let hash = bitset_hash newLinearized;
         lin \<leftarrow> bitset_set (s_linearized S) pos;
         h \<leftarrow> lift a (s_heap S);
         hd \<leftarrow> deref h (Some headEntry);
         Some (S\<lparr>s_cache := (s_cache S)(hash \<mapsto> map_get (s_cache S) [] hash @ [new]),
                 s_calls := s_calls S @ [(a, s_state S)], s_state := newState, s_linearized := lin,
                 s_heap := h, s_entry := nd_next hd\<rparr>)
       }
       else Some (S\<lparr>s_entry := nd_next e\<rparr>)
     }
     else Some (S\<lparr>s_entry := nd_next e\<rparr>)
   }"

text \<open>One iteration when the current entry is a return: undo the last call.\<close>

definition goBack :: "bool \<Rightarrow> ('v, 's) search \<Rightarrow> ('v, 's) search option" where
  "goBack computePartial S = do {
     longest \<leftarrow> recordLongest computePartial S;
     callsTop \<leftarrow> idx (s_calls S) (int (length (s_calls S)) - 1);
     e \<leftarrow> deref (s_heap S) (Some (fst callsTop));
     pos \<leftarrow> bitpos (nd_id e);
     lin \<leftarrow> bitset_clear (s_linearized S) pos;
     h \<leftarrow> unlift (fst callsTop) (s_heap S);
     e' \<leftarrow> deref h (Some (fst callsTop));
     Some (S\<lparr>s_longest := longest, s_state := snd callsTop, s_linearized := lin,
             s_calls := butlast (s_calls S), s_heap := h, s_entry := nd_next e'\<rparr>)
   }"

partial_function (option) checkLoop ::
  "(nat \<Rightarrow> bool) \<Rightarrow> ('v, 's) Model \<Rightarrow> bool \<Rightarrow> nat \<Rightarrow> nat \<Rightarrow> ('v, 's) search \<Rightarrow>
   (bool \<times> int list option list) option" where
  "checkLoop kill m computePartial headEntry k S =
     Option.bind (deref (s_heap S) (Some headEntry)) (\<lambda>hd.
       if nd_next hd = None then
         Option.bind (callIds (s_heap S) (s_calls S)) (\<lambda>seq.
           Some (True, map (\<lambda>_. Some seq) (s_longest S)))
       else if kill k then Some (False, s_longest S)
       else Option.bind (s_entry S) (\<lambda>a. Option.bind (deref (s_heap S) (Some a)) (\<lambda>e.
         if nd_match e \<noteq> None
         then Option.bind (tryCall m headEntry a S) (checkLoop kill m computePartial headEntry (k + 1))
         else if s_calls S = [] then Some (False, s_longest S)
         else Option.bind (goBack computePartial S) (checkLoop kill m computePartial headEntry (k + 1)))))"

definition checkSingle ::
  "(nat \<Rightarrow> bool) \<Rightarrow> ('v, 's) Model \<Rightarrow> 'v entry list \<Rightarrow> bool \<Rightarrow> (bool \<times> int list option list) option" where
  "checkSingle kill m history computePartial = do {
     (h, entry) \<leftarrow> makeLinkedEntries history;
     len \<leftarrow> listLength h entry 0;
     let n = len div 2;
     let head = length h;
     h' \<leftarrow> insertBefore head entry
       (h @ [\<lparr>nd_value = None, nd_match = None, nd_id = -1, nd_next = None, nd_prev = None\<rparr>]);
     checkLoop kill m computePartial head 0
       \<lparr>s_heap = h', s_entry = entry, s_linearized = newBitset n, s_cache = Map.empty, s_calls = [],
        s_longest = replicate n None, s_state = Init m\<rparr>
   }"

subsection \<open>Checking the partitions\<close>

text \<open>
  The loop of \<^verbatim>\<open>checkParallel\<close>.  A message says which goroutine sends its result, or that the timeout has
  come; \<^const>\<open>None\<close> when the loop still waits after all messages.  The flag \<^verbatim>\<open>kill\<close> is set just before the loop is
  left, so that a result received in the loop is one of a goroutine that has not seen it set.  The
  loop also gives the goroutines it has heard of.
\<close>

datatype message = Finished nat | Timeout

fun collectLoop ::
  "(nat \<Rightarrow> bool option) \<Rightarrow> bool \<Rightarrow> nat \<Rightarrow> bool \<Rightarrow> nat list \<Rightarrow> message list \<Rightarrow> (bool \<times> bool \<times> nat list) option" where
  "collectLoop result computeInfo parts ok heard [] = None"
| "collectLoop result computeInfo parts ok heard (Finished i # ms) = do {
     r \<leftarrow> result i;
     let heard = heard @ [i];
     let ok = (ok \<and> r);
     if \<not> ok \<and> \<not> computeInfo then Some (ok, False, heard)
     else if length heard \<ge> parts then Some (ok, False, heard)
     else collectLoop result computeInfo parts ok heard ms
   }"
| "collectLoop result computeInfo parts ok heard (Timeout # ms) = Some (ok, True, heard)"

text \<open>
  The information for the visualization: the entries, and for each partition the set of the lists that
  \<^verbatim>\<open>longest\<close> holds.  The code collects pointers; the lists they point to are different, because the search never
  visits a sequence of calls twice.  A goroutine that the loop has not heard of runs on, now with the
  flag set from some iteration on: \<open>kills i\<close>.
\<close>

record 'v linearizationInfo =
  li_history :: "'v entry list list"
  li_partialLinearizations :: "int list set list"

definition partials :: "int list option list \<Rightarrow> int list set" where
  "partials longest = {seq. Some seq \<in> set longest}"

definition checkParallel ::
  "(nat \<Rightarrow> nat \<Rightarrow> bool) \<Rightarrow> ('v, 's) Model \<Rightarrow> 'v entry list list \<Rightarrow> bool \<Rightarrow> message list \<Rightarrow>
   (CheckResult \<times> 'v linearizationInfo) option" where
  "checkParallel kills m history computeInfo ms = do {
     let run = (\<lambda>kill i. do { sub \<leftarrow> idx history (int i); checkSingle kill m sub computeInfo });
     (ok, timedOut, heard) \<leftarrow> collectLoop (\<lambda>i. map_option fst (run (\<lambda>_. False) i))
       computeInfo (length history) True [] ms;
     info \<leftarrow> (if computeInfo then do {
         l \<leftarrow> for_loop [0..<length history] (\<lambda>i acc. do {
           (_, longest) \<leftarrow> run (if i \<in> set heard then \<lambda>_. False else kills i) i;
           Some (acc @ [partials longest])
         }) [];
         Some \<lparr>li_history = history, li_partialLinearizations = l\<rparr>
       }
       else Some \<lparr>li_history = [], li_partialLinearizations = []\<rparr>);
     Some (if \<not> ok then Illegal else if timedOut then Unknown else Ok, info)
   }"

text \<open>\<open>sched n\<close> are the messages of \<open>n\<close> goroutines, in the order in which they come.\<close>

definition checkEvents ::
  "(nat \<Rightarrow> message list) \<Rightarrow> (nat \<Rightarrow> nat \<Rightarrow> bool) \<Rightarrow> ('v, 's) Model \<Rightarrow> 'v Event list \<Rightarrow> bool \<Rightarrow>
   (CheckResult \<times> 'v linearizationInfo) option" where
  "checkEvents sched kills model history verbose = do {
     let model = fillDefault model;
     part \<leftarrow> PartitionEvent model;
     partitions \<leftarrow> part history;
     let l = map (\<lambda>subhistory. convertEntries (renumber subhistory)) partitions;
     checkParallel kills model l verbose (sched (length l))
   }"

definition checkOperations ::
  "('v entry list \<Rightarrow> 'v entry list) \<Rightarrow> (nat \<Rightarrow> message list) \<Rightarrow> (nat \<Rightarrow> nat \<Rightarrow> bool) \<Rightarrow> ('v, 's) Model \<Rightarrow>
   'v Operation list \<Rightarrow> bool \<Rightarrow> (CheckResult \<times> 'v linearizationInfo) option" where
  "checkOperations srt sched kills model history verbose = do {
     let model = fillDefault model;
     part \<leftarrow> Partition model;
     partitions \<leftarrow> part history;
     let l = map (makeEntries srt) partitions;
     checkParallel kills model l verbose (sched (length l))
   }"

subsection \<open>Entry points\<close>

text \<open>Without a timeout the schedule holds no \<^const>\<open>Timeout\<close>.\<close>

definition CheckOperations where
  "CheckOperations srt sched kills model history =
     map_option (\<lambda>(res, _). res = Ok) (checkOperations srt sched kills model history False)"

definition CheckOperationsTimeout where
  "CheckOperationsTimeout srt sched kills model history =
     map_option fst (checkOperations srt sched kills model history False)"

definition CheckOperationsVerbose where
  "CheckOperationsVerbose srt sched kills model history = checkOperations srt sched kills model history True"

definition CheckEvents where
  "CheckEvents sched kills model history =
     map_option (\<lambda>(res, _). res = Ok) (checkEvents sched kills model history False)"

definition CheckEventsTimeout where
  "CheckEventsTimeout sched kills model history = map_option fst (checkEvents sched kills model history False)"

definition CheckEventsVerbose where
  "CheckEventsVerbose sched kills model history = checkEvents sched kills model history True"

end
