(* ===== verification/Porcupine_List.thy ===== *)
theory Porcupine_List
  imports Porcupine
begin

section \<open>The linked list of the checker\<close>

text \<open>
  \<open>dll h xs\<close>: the addresses \<open>xs\<close> form a doubly linked list in the store \<open>h\<close>.  \<^const>\<open>lift\<close> takes a call and its
  return out of the list by redirecting the pointers of their neighbours, \<^const>\<open>unlift\<close> uses the pointers
  that the removed nodes still hold: applied in the reverse order it restores the store exactly.
\<close>

subsection \<open>Segments\<close>

definition first :: "nat list \<Rightarrow> nat option \<Rightarrow> nat option" where
  "first xs q = (case xs of [] \<Rightarrow> q | x # _ \<Rightarrow> Some x)"

lemma first_simps [simp]: "first [] q = q" "first (x # xs) q = Some x"
  by (simp_all add: first_def)

lemma first_append [simp]: "first (xs @ ys) q = first xs (first ys q)"
  by (cases xs) simp_all

definition final :: "nat option \<Rightarrow> nat list \<Rightarrow> nat option" where
  "final p xs = (if xs = [] then p else Some (last xs))"

lemma final_simps [simp]: "final p [] = p" "final p (xs @ [x]) = Some x" "final p (x # xs) = final (Some x) xs"
  by (simp_all add: final_def)

fun seg :: "'v heap \<Rightarrow> nat option \<Rightarrow> nat list \<Rightarrow> nat option \<Rightarrow> bool" where
  "seg h p [] q = True"
| "seg h p (x # xs) q = (x < length h \<and> nd_prev (h ! x) = p \<and> nd_next (h ! x) = first xs q \<and> seg h (Some x) xs q)"

lemma seg_append [simp]:
  "seg h p (xs @ ys) q \<longleftrightarrow> seg h p xs (first ys q) \<and> seg h (final p xs) ys q"
  by (induction xs arbitrary: p) auto

lemma seg_cong:
  "(\<And>x. x \<in> set xs \<Longrightarrow> h' ! x = h ! x) \<Longrightarrow> length h' = length h \<Longrightarrow> seg h' p xs q = seg h p xs q"
  by (induction xs arbitrary: p) auto

lemma seg_bound: "seg h p xs q \<Longrightarrow> x \<in> set xs \<Longrightarrow> x < length h"
  by (induction xs arbitrary: p) auto

definition dll :: "'v heap \<Rightarrow> nat list \<Rightarrow> bool" where
  "dll h xs \<longleftrightarrow> distinct xs \<and> seg h None xs None"

lemma dll_bound: "dll h xs \<Longrightarrow> x \<in> set xs \<Longrightarrow> x < length h"
  by (auto simp: dll_def dest: seg_bound)

lemma seg_upd_other: "x \<notin> set xs \<Longrightarrow> seg (h[x := v]) p xs q = seg h p xs q"
  by (rule seg_cong) (metis nth_list_update_neq, simp)

text \<open>Changing the last node's \<^verbatim>\<open>next\<close>, and the first node's \<^verbatim>\<open>prev\<close>.\<close>

lemma seg_set_next:
  assumes "distinct (xs @ [x])" and "seg h p (xs @ [x]) q"
  shows "seg (h[x := (h ! x)\<lparr>nd_next := r\<rparr>]) p (xs @ [x]) r"
proof -
  have "seg (h[x := (h ! x)\<lparr>nd_next := r\<rparr>]) p xs (Some x) = seg h p xs (Some x)"
    using assms(1) by (simp add: seg_upd_other)
  with assms show ?thesis by simp
qed

lemma seg_set_prev:
  assumes "distinct (x # xs)" and "seg h p (x # xs) q"
  shows "seg (h[x := (h ! x)\<lparr>nd_prev := r\<rparr>]) r (x # xs) q"
proof -
  have "seg (h[x := (h ! x)\<lparr>nd_prev := r\<rparr>]) (Some x) xs q = seg h (Some x) xs q"
    using assms(1) by (simp add: seg_upd_other)
  with assms show ?thesis by simp
qed

subsection \<open>Taking a node out and putting it back\<close>

definition redirect :: "nat option \<Rightarrow> nat option \<Rightarrow> nat option \<Rightarrow> nat option \<Rightarrow> 'v heap \<Rightarrow> 'v heap" where
  "redirect p n v w h =
     (let h1 = (case p of None \<Rightarrow> h | Some a \<Rightarrow> h[a := (h ! a)\<lparr>nd_next := v\<rparr>]) in
      case n of None \<Rightarrow> h1 | Some b \<Rightarrow> h1[b := (h1 ! b)\<lparr>nd_prev := w\<rparr>])"

definition unlink :: "nat \<Rightarrow> 'v heap \<Rightarrow> 'v heap" where
  "unlink x h = redirect (nd_prev (h ! x)) (nd_next (h ! x)) (nd_next (h ! x)) (nd_prev (h ! x)) h"

definition relink :: "nat \<Rightarrow> 'v heap \<Rightarrow> 'v heap" where
  "relink x h = redirect (nd_prev (h ! x)) (nd_next (h ! x)) (Some x) (Some x) h"

text \<open>Value, match and id of the nodes never change.\<close>

lemma nth_upd: "xs[i := v] ! j = (if i = j \<and> i < length xs then v else xs ! j)"
  by (cases "i < length xs") (auto simp: nth_list_update list_update_beyond)

lemma node_same_next [simp]: "nd_next n = v \<Longrightarrow> n\<lparr>nd_next := v\<rparr> = n"
  by (cases n) simp

lemma node_same_prev [simp]: "nd_prev n = v \<Longrightarrow> n\<lparr>nd_prev := v\<rparr> = n"
  by (cases n) simp

definition same_data :: "'v heap \<Rightarrow> 'v heap \<Rightarrow> bool" where
  "same_data h h' \<longleftrightarrow> length h' = length h \<and>
     (\<forall>a<length h. nd_value (h' ! a) = nd_value (h ! a) \<and> nd_match (h' ! a) = nd_match (h ! a) \<and> nd_id (h' ! a) = nd_id (h ! a))"

lemma same_data_refl [simp]: "same_data h h"
  by (simp add: same_data_def)

lemma same_data_trans: "same_data h h' \<Longrightarrow> same_data h' h'' \<Longrightarrow> same_data h h''"
  by (simp add: same_data_def)

lemma same_data_redirect: "same_data h (redirect p n v w h)"
  by (auto simp: same_data_def redirect_def Let_def nth_upd split: option.splits)

lemma same_data_unlink: "same_data h (unlink x h)"
  by (simp add: unlink_def same_data_redirect)

lemma length_unlink [simp]: "length (unlink x h) = length h"
  using same_data_unlink [of h x] by (simp add: same_data_def)

lemma dll_middle:
  assumes "dll h (as @ p # x # bs)"
  shows "nd_prev (h ! x) = Some p" and "nd_next (h ! x) = first bs None" and "x \<noteq> p" and "x \<notin> set as" and "x \<notin> set bs"
    and "p \<notin> set bs" and "p \<notin> set as" and "x < length h" and "p < length h" and "set as \<inter> set bs = {}"
    and "distinct bs" and "distinct as" and "nd_next (h ! p) = Some x"
    and "seg h None (as @ [p]) (Some x)" and "seg h (Some x) bs None"
  using assms by (auto simp: dll_def)

lemma unlink_node:
  assumes "dll h (as @ p # x # bs)"
  shows "unlink x h ! x = h ! x"
  using dll_middle [OF assms] by (cases bs) (auto simp: unlink_def redirect_def Let_def)

lemma dll_unlink:
  assumes "dll h (as @ p # x # bs)"
  shows "dll (unlink x h) (as @ p # bs)"
proof -
  note m = dll_middle [OF assms]
  have dist: "distinct (as @ p # bs)" using assms by (simp add: dll_def)
  let ?h1 = "h[p := (h ! p)\<lparr>nd_next := first bs None\<rparr>]"
  have s1: "seg ?h1 None (as @ [p]) (first bs None)" using seg_set_next [OF _ m(14)] m(7,12) by (simp del: seg_append)
  have s2: "seg ?h1 (Some x) bs None" using m(15) m(6) by (simp add: seg_upd_other)
  show ?thesis
  proof (cases bs)
    case Nil
    with m s1 dist show ?thesis by (simp add: dll_def unlink_def redirect_def)
  next
    case (Cons b cs)
    let ?h2 = "?h1[b := (?h1 ! b)\<lparr>nd_prev := Some p\<rparr>]"
    have u: "unlink x h = ?h2" using m Cons by (simp add: unlink_def redirect_def)
    have "seg ?h2 (Some p) bs None" using seg_set_prev [of b cs ?h1 "Some x" None "Some p"] s2 Cons m(11) by simp
    moreover have "b \<notin> set (as @ [p])" using dist Cons by auto
    then have "seg ?h2 None (as @ [p]) (first bs None)" using s1 by (simp add: seg_upd_other del: seg_append)
    ultimately show ?thesis using dist u by (simp add: dll_def)
  qed
qed

lemma relink_unlink:
  assumes "dll h (as @ p # x # bs)"
  shows "relink x (unlink x h) = h"
proof -
  note m = dll_middle [OF assms]
  have x: "unlink x h ! x = h ! x" by (rule unlink_node [OF assms])
  show ?thesis
  proof (cases bs)
    case Nil
    then have u: "unlink x h = h[p := (h ! p)\<lparr>nd_next := None\<rparr>]"
      using m by (simp add: unlink_def redirect_def)
    have "relink x (unlink x h) = (unlink x h)[p := (unlink x h ! p)\<lparr>nd_next := Some x\<rparr>]"
      unfolding relink_def x using m Nil by (simp add: redirect_def)
    also have "\<dots> = h[p := (h ! p)\<lparr>nd_next := Some x\<rparr>]" using m(9) by (simp add: u)
    also have "\<dots> = h" using m(13) by simp
    finally show ?thesis .
  next
    case (Cons b cs)
    have b: "b < length h" "b \<noteq> p" "nd_prev (h ! b) = Some x" using m(15,6) Cons by auto
    have u: "unlink x h = h[p := (h ! p)\<lparr>nd_next := Some b\<rparr>, b := (h ! b)\<lparr>nd_prev := Some p\<rparr>]"
      using m Cons b by (simp add: unlink_def redirect_def)
    let ?u = "unlink x h"
    have up: "?u ! p = (h ! p)\<lparr>nd_next := Some b\<rparr>" and ub: "?u ! b = (h ! b)\<lparr>nd_prev := Some p\<rparr>"
      using b m(9) by (simp_all add: u)
    have "relink x ?u = ?u[p := (?u ! p)\<lparr>nd_next := Some x\<rparr>, b := (?u ! b)\<lparr>nd_prev := Some x\<rparr>]"
      unfolding relink_def x using m Cons b by (simp add: redirect_def)
    also have "\<dots> = h[p := (h ! p)\<lparr>nd_next := Some x\<rparr>, b := (h ! b)\<lparr>nd_prev := Some x\<rparr>]"
      unfolding up ub unfolding u using b m(9) by (simp add: list_update_swap)
    also have "\<dots> = h"
    proof (rule nth_equalityI)
      fix i assume "i < length (h[p := (h ! p)\<lparr>nd_next := Some x\<rparr>, b := (h ! b)\<lparr>nd_prev := Some x\<rparr>])"
      then show "h[p := (h ! p)\<lparr>nd_next := Some x\<rparr>, b := (h ! b)\<lparr>nd_prev := Some x\<rparr>] ! i = h ! i"
        using m(13) b by (auto simp: nth_upd)
    qed simp
    finally show ?thesis .
  qed
qed

subsection \<open>Lift and unlift\<close>

lemma set_next_eq: "a < length h \<Longrightarrow> set_next (Some a) v h = Some (h[a := (h ! a)\<lparr>nd_next := v\<rparr>])"
  by (simp add: set_next_def deref_def)

lemma set_prev_eq: "a < length h \<Longrightarrow> set_prev (Some a) v h = Some (h[a := (h ! a)\<lparr>nd_prev := v\<rparr>])"
  by (simp add: set_prev_def deref_def)

lemma deref_eq: "a < length h \<Longrightarrow> deref h (Some a) = Some (h ! a)"
  by (simp add: deref_def)

lemma dll_split_at:
  assumes "dll h (as @ p # mid @ m # bs)"
  obtains as' q where "dll h (as' @ q # m # bs)" "as' @ q # bs = as @ p # mid @ bs"
proof -
  obtain as' q where "as @ p # mid = as' @ [q]" by (metis append_is_Nil_conv list.distinct(1) rev_exhaust)
  then have "as @ p # mid @ ys = as' @ q # ys" for ys by (metis append.assoc append_Cons append_Nil)
  with assms that show thesis by metis
qed

text \<open>The situation of a lift: a call \<open>a\<close> and, somewhere behind it, its return \<open>m\<close>.\<close>

lemma dll_unlink2:
  assumes "dll h (as @ p # a # mid @ m # bs)"
  shows "dll (unlink m (unlink a h)) (as @ p # mid @ bs)" and "unlink m (unlink a h) ! m = unlink a h ! m"
    and "relink m (unlink m (unlink a h)) = unlink a h" and "relink a (unlink a h) = h"
    and "\<exists>q. nd_prev (unlink a h ! m) = Some q"
proof -
  let ?h1 = "unlink a h"
  have d1: "dll ?h1 (as @ p # mid @ m # bs)" by (rule dll_unlink [OF assms])
  obtain as' q where d1': "dll ?h1 (as' @ q # m # bs)" and eq: "as' @ q # bs = as @ p # mid @ bs"
    using dll_split_at [OF d1] .
  show "dll (unlink m ?h1) (as @ p # mid @ bs)" using dll_unlink [OF d1'] eq by simp
  show "unlink m ?h1 ! m = ?h1 ! m" by (rule unlink_node [OF d1'])
  show "relink m (unlink m ?h1) = ?h1" by (rule relink_unlink [OF d1'])
  show "relink a ?h1 = h" by (rule relink_unlink [OF assms])
  show "\<exists>q. nd_prev (?h1 ! m) = Some q" using dll_middle(1) [OF d1'] by blast
qed

lemma redirect_steps:
  assumes "a < length h" and "\<And>b. n = Some b \<Longrightarrow> b < length h"
  shows "set_next (Some a) v h = Some (redirect (Some a) None v w h)"
    and "n \<noteq> None \<Longrightarrow> set_prev n w (redirect (Some a) None v w h) = Some (redirect (Some a) n v w h)"
    and "n = None \<Longrightarrow> redirect (Some a) n v w h = redirect (Some a) None v w h"
  using assms by (auto simp: redirect_def set_next_eq set_prev_eq Let_def)

lemma lift_eq:
  assumes "dll h (as @ p # a # mid @ m # bs)" and "nd_match (h ! a) = Some m"
  shows "lift a h = Some (unlink m (unlink a h))"
proof -
  let ?h1 = "unlink a h"
  note M = dll_middle [OF assms(1)] and U = dll_unlink2 [OF assms(1)]
  obtain n where n: "nd_next (h ! a) = Some n" "n < length h"
    using M(2) dll_bound [OF assms(1)] by (cases mid) auto
  have m: "m < length h" using dll_bound [OF assms(1), of m] by simp
  have sd: "same_data h ?h1" by (rule same_data_unlink)
  let ?g = "redirect (Some p) None (nd_next (h ! a)) (nd_prev (h ! a)) h"
  have g: "?g ! a = h ! a" using M(3,9) by (simp add: redirect_def)
  have lg: "length ?g = length h" using same_data_redirect [of h] by (simp add: same_data_def)
  have s1: "set_next (nd_prev (h ! a)) (nd_next (h ! a)) h = Some ?g"
    unfolding M(1) by (rule redirect_steps(1)) (use M(9) n in auto)
  have s2: "set_prev (nd_next (?g ! a)) (nd_prev (?g ! a)) ?g = Some ?h1"
    using redirect_steps(2) [of p h "Some n" "nd_prev (h ! a)" "nd_next (h ! a)"] M(1,9) n g
    by (simp add: unlink_def)
  obtain q where q: "nd_prev (?h1 ! m) = Some q" using U(5) by blast
  have d1: "dll ?h1 (as @ p # mid @ m # bs)" by (rule dll_unlink [OF assms(1)])
  obtain as' q' where d: "dll ?h1 (as' @ q' # m # bs)" using dll_split_at [OF d1] .
  have qb: "q < length h" "q \<noteq> m" using dll_middle(1,3,9) [OF d] q by auto
  have nb: "k < length h" if "nd_next (?h1 ! m) = Some k" for k
    using dll_middle(2) [OF d] that dll_bound [OF d, of k] by (cases bs) auto
  have mm: "nd_match (?h1 ! a) = Some m" using sd M(8) assms(2) by (simp add: same_data_def)
  let ?f = "redirect (Some q) None (nd_next (?h1 ! m)) (nd_prev (?h1 ! m)) ?h1"
  have fm: "?f ! m = ?h1 ! m" using qb(2) by (simp add: redirect_def)
  have lf: "length ?f = length h" using same_data_redirect [of ?h1] by (simp add: same_data_def)
  have s3: "set_next (nd_prev (?h1 ! m)) (nd_next (?h1 ! m)) ?h1 = Some ?f"
    unfolding q by (rule redirect_steps(1) [where n = None]) (use qb in auto)
  have s4: "(case nd_next (?h1 ! m) of None \<Rightarrow> Some ?f | Some k \<Rightarrow> set_prev (Some k) (nd_prev (?h1 ! m)) ?f) =
      Some (unlink m ?h1)"
    using redirect_steps(2) [of q ?h1 "nd_next (?h1 ! m)" "nd_prev (?h1 ! m)" "nd_next (?h1 ! m)"] qb nb q
    by (cases "nd_next (?h1 ! m)") (simp_all add: unlink_def [of m])
  show ?thesis
    using s1 s2 s3 s4 M(8) m g lg fm lf mm by (simp add: lift_def deref_eq)
qed

lemma unlift_lift:
  assumes "dll h (as @ p # a # mid @ m # bs)" and "nd_match (h ! a) = Some m" and "lift a h = Some h'"
  shows "unlift a h' = Some h"
proof -
  let ?h1 = "unlink a h" and ?h2 = "unlink m (unlink a h)"
  note M = dll_middle [OF assms(1)] and U = dll_unlink2 [OF assms(1)]
  have h': "h' = ?h2" using assms(3) lift_eq [OF assms(1,2)] by simp
  have m: "m < length h" using dll_bound [OF assms(1), of m] by simp
  have d1: "dll ?h1 (as @ p # mid @ m # bs)" by (rule dll_unlink [OF assms(1)])
  obtain as' q where d: "dll ?h1 (as' @ q # m # bs)" using dll_split_at [OF d1] .
  note N = dll_middle [OF d]
  have sd: "same_data h ?h2" using same_data_trans [OF same_data_unlink same_data_unlink] .
  have ma: "nd_match (?h2 ! a) = Some m" using sd M(8) assms(2) by (simp add: same_data_def)
  let ?f = "redirect (Some q) None (Some m) (Some m) ?h2"
  have lf: "length ?f = length h" using same_data_redirect [of ?h2] by (simp add: same_data_def)
  have fm: "?f ! m = ?h2 ! m" using N(3) by (simp add: redirect_def)
  have nb: "k < length h" if "nd_next (?h1 ! m) = Some k" for k
    using N(2) that dll_bound [OF d, of k] by (cases bs) auto
  have s1: "set_next (nd_prev (?h2 ! m)) (Some m) ?h2 = Some ?f"
    unfolding U(2) N(1) by (rule redirect_steps(1) [where n = None]) (use N(9) in auto)
  have s2: "(case nd_next (?f ! m) of None \<Rightarrow> Some ?f | Some k \<Rightarrow> set_prev (Some k) (Some m) ?f) = Some ?h1"
  proof -
    have "redirect (Some q) (nd_next (?h1 ! m)) (Some m) (Some m) ?h2 = ?h1"
      using U(3) N(1) by (simp add: relink_def U(2))
    then show ?thesis
      using redirect_steps(2) [of q ?h2 "nd_next (?h1 ! m)" "Some m" "Some m"] nb N(9) fm U(2)
      by (cases "nd_next (?h1 ! m)") simp_all
  qed
  have a1: "?h1 ! a = h ! a" by (rule unlink_node [OF assms(1)])
  obtain n where n: "nd_next (h ! a) = Some n" "n < length h"
    using M(2) dll_bound [OF assms(1)] by (cases mid) auto
  let ?g = "redirect (Some p) None (Some a) (Some a) ?h1"
  have ga: "?g ! a = h ! a" using M(3) a1 by (simp add: redirect_def)
  have lg: "length ?g = length h" using same_data_redirect [of ?h1] by (simp add: same_data_def)
  have s3: "set_next (nd_prev (?h1 ! a)) (Some a) ?h1 = Some ?g"
    unfolding a1 M(1) by (rule redirect_steps(1) [where n = None]) (use M(9) in auto)
  have s4: "set_prev (nd_next (?g ! a)) (Some a) ?g = Some h"
    using redirect_steps(2) [of p ?h1 "Some n" "Some a" "Some a"] U(4) M(1,9) n ga a1 by (simp add: relink_def)
  show ?thesis
    unfolding h' unlift_def using s1 s2 s3 s4 M(8) m ma lf lg by (simp add: deref_eq)
qed

text \<open>A lift in a list given as a filter: the two entries disappear, everything else stays.\<close>

lemma lift_dll:
  assumes "dll h (as @ p # a # mid @ m # bs)" and "nd_match (h ! a) = Some m"
  obtains h' where "lift a h = Some h'" "dll h' (as @ p # mid @ bs)" "same_data h h'" "unlift a h' = Some h"
proof -
  have "same_data h (unlink m (unlink a h))" using same_data_trans [OF same_data_unlink same_data_unlink] .
  with lift_eq [OF assms] dll_unlink2(1) [OF assms(1)] unlift_lift [OF assms] that show thesis by blast
qed

end
