(* ===== verification/Porcupine_Search.thy ===== *)
theory Porcupine_Search
  imports Porcupine_List
begin

section \<open>The search decides whether a history can be completed\<close>

text \<open>
  The search of \<^const>\<open>checkLoop\<close> over a linked list of calls and returns.  A configuration is the set of
  operations that have been linearized and the state they lead to; \<open>completes\<close> says that a sequence of
  calls leads from a configuration to the end, each call in front of all returns that are left.  The
  invariant of the loop: the list holds what is left, every candidate in front of the current entry has
  been tried in vain on each level of the stack, and every configuration in the cache is either on the
  stack or cannot be completed.  The loop ends because each step back or forward is paid for by a new
  configuration in the cache, and there are finitely many.
\<close>

subsection \<open>Configurations\<close>

definition nid :: "'v heap \<Rightarrow> nat \<Rightarrow> nat" where
  "nid h a = nat (nd_id (h ! a))"

definition is_call :: "'v heap \<Rightarrow> nat \<Rightarrow> bool" where
  "is_call h a \<longleftrightarrow> nd_match (h ! a) \<noteq> None"

definition rest :: "'v heap \<Rightarrow> nat list \<Rightarrow> nat set \<Rightarrow> nat list" where
  "rest h xs L = filter (\<lambda>a. nid h a \<notin> L) xs"

definition trans_of :: "('v, 's) Model \<Rightarrow> 'v heap \<Rightarrow> 's \<Rightarrow> nat \<Rightarrow> 's option" where
  "trans_of m h s a = (case Step m s (nd_value (h ! a)) (nd_value (h ! the (nd_match (h ! a)))) of
     Some (True, s') \<Rightarrow> Some s' | _ \<Rightarrow> None)"

fun completes :: "('v, 's) Model \<Rightarrow> 'v heap \<Rightarrow> nat list \<Rightarrow> nat set \<Rightarrow> 's \<Rightarrow> nat list \<Rightarrow> bool" where
  "completes m h xs L s [] = (rest h xs L = [])"
| "completes m h xs L s (a # as) = (a \<in> set (takeWhile (is_call h) (rest h xs L)) \<and>
     (case trans_of m h s a of None \<Rightarrow> False | Some s' \<Rightarrow> completes m h xs (insert (nid h a) L) s' as))"

definition dead :: "('v, 's) Model \<Rightarrow> 'v heap \<Rightarrow> nat list \<Rightarrow> nat set \<Rightarrow> 's \<Rightarrow> bool" where
  "dead m h xs L s \<longleftrightarrow> (\<forall>as. \<not> completes m h xs L s as)"

text \<open>A list with a call and a return for each of \<open>n\<close> operations, the return behind the call.\<close>

definition space :: "'v heap \<Rightarrow> nat \<Rightarrow> nat list \<Rightarrow> nat \<Rightarrow> bool" where
  "space h head xs n \<longleftrightarrow> dll h (head # xs) \<and>
     (\<forall>a\<in>set xs. 0 \<le> nd_id (h ! a) \<and> nid h a < n) \<and>
     (\<forall>a\<in>set xs. \<forall>r. nd_match (h ! a) = Some r \<longrightarrow>
        (\<exists>as mid bs. xs = as @ a # mid @ r # bs) \<and> nd_match (h ! r) = None \<and> nid h r = nid h a) \<and>
     (\<forall>r\<in>set xs. nd_match (h ! r) = None \<longrightarrow> (\<exists>a\<in>set xs. nd_match (h ! a) = Some r)) \<and>
     (\<forall>a\<in>set xs. \<forall>b\<in>set xs. is_call h a \<longrightarrow> is_call h b \<longrightarrow> nid h a = nid h b \<longrightarrow> a = b)"

lemma spaceD:
  assumes "space h head xs n"
  shows "dll h (head # xs)" and "a \<in> set xs \<Longrightarrow> 0 \<le> nd_id (h ! a)" and "a \<in> set xs \<Longrightarrow> nid h a < n"
    and "a \<in> set xs \<Longrightarrow> nd_match (h ! a) = Some r \<Longrightarrow> \<exists>as mid bs. xs = as @ a # mid @ r # bs"
    and "a \<in> set xs \<Longrightarrow> nd_match (h ! a) = Some r \<Longrightarrow> nd_match (h ! r) = None"
    and "a \<in> set xs \<Longrightarrow> nd_match (h ! a) = Some r \<Longrightarrow> nid h r = nid h a"
    and "r \<in> set xs \<Longrightarrow> nd_match (h ! r) = None \<Longrightarrow> \<exists>a\<in>set xs. nd_match (h ! a) = Some r"
    and "a \<in> set xs \<Longrightarrow> b \<in> set xs \<Longrightarrow> is_call h a \<Longrightarrow> is_call h b \<Longrightarrow> nid h a = nid h b \<Longrightarrow> a = b"
  using assms unfolding space_def by (elim conjE; (assumption | blast))+

text \<open>The model: it does not panic on the history, and its equality is respected by the steps.\<close>

definition model_ok :: "('v, 's) Model \<Rightarrow> 'v heap \<Rightarrow> nat list \<Rightarrow> bool" where
  "model_ok m h xs \<longleftrightarrow> equivp (modelEqual m) \<and>
     (\<forall>s. \<forall>a\<in>set xs. is_call h a \<longrightarrow> Step m s (nd_value (h ! a)) (nd_value (h ! the (nd_match (h ! a)))) \<noteq> None) \<and>
     (\<forall>s t. \<forall>a\<in>set xs. is_call h a \<longrightarrow> modelEqual m s t \<longrightarrow>
        rel_option (modelEqual m) (trans_of m h s a) (trans_of m h t a))"

lemma completes_cong:
  assumes "model_ok m h xs" and "modelEqual m s t" and "completes m h xs L s as"
  shows "completes m h xs L t as"
  using assms(2,3)
proof (induction as arbitrary: L s t)
  case (Cons a as)
  then obtain s' where a: "a \<in> set (takeWhile (is_call h) (rest h xs L))" and s': "trans_of m h s a = Some s'"
    "completes m h xs (insert (nid h a) L) s' as" by (auto split: option.splits)
  have "is_call h a" "a \<in> set xs" using a by (auto simp: rest_def dest: set_takeWhileD)
  then have "rel_option (modelEqual m) (trans_of m h s a) (trans_of m h t a)"
    using assms(1) Cons.prems(1) by (simp add: model_ok_def)
  then obtain t' where "trans_of m h t a = Some t'" "modelEqual m s' t'"
    using s'(1) by (auto simp: option_rel_Some1)
  with Cons.IH s'(2) a show ?case by auto
qed simp

lemma dead_cong: "model_ok m h xs \<Longrightarrow> modelEqual m s t \<Longrightarrow> dead m h xs L s \<Longrightarrow> dead m h xs L t"
  using completes_cong [of m h xs t s L] by (auto simp: dead_def model_ok_def dest: equivp_symp)

text \<open>A configuration with something left is dead when every candidate leads to a dead one.\<close>

definition tried :: "('v, 's) Model \<Rightarrow> 'v heap \<Rightarrow> nat list \<Rightarrow> nat set \<Rightarrow> 's \<Rightarrow> nat list \<Rightarrow> bool" where
  "tried m h xs L s before \<longleftrightarrow> (\<forall>a\<in>set before. is_call h a \<and>
     (\<forall>s'. trans_of m h s a = Some s' \<longrightarrow> dead m h xs (insert (nid h a) L) s'))"

lemma tried_dead:
  assumes "rest h xs L = before @ r # after" and "\<not> is_call h r" and "tried m h xs L s before"
  shows "dead m h xs L s"
  unfolding dead_def
proof
  fix as
  have tw: "takeWhile (is_call h) (rest h xs L) = before"
    using assms by (simp add: takeWhile_append tried_def)
  show "\<not> completes m h xs L s as"
  proof (cases as)
    case Nil
    then show ?thesis using assms(1) by simp
  next
    case (Cons a bs)
    show ?thesis
    proof
      assume "completes m h xs L s as"
      then obtain s' where "a \<in> set before" "trans_of m h s a = Some s'"
        "completes m h xs (insert (nid h a) L) s' bs" using Cons tw by (auto split: option.splits)
      then show False using assms(3) unfolding tried_def dead_def by blast
    qed
  qed
qed

lemma rest_lift:
  assumes "space h head xs n" and "a \<in> set (rest h xs L)" and "nd_match (h ! a) = Some r"
  obtains as mid bs where "rest h xs L = as @ a # mid @ r # bs" "rest h xs (insert (nid h a) L) = as @ mid @ bs"
proof -
  have a: "a \<in> set xs" "nid h a \<notin> L" using assms(2) by (auto simp: rest_def)
  note D = spaceD [OF assms(1)]
  obtain xa xm xb where xs: "xs = xa @ a # xm @ r # xb" using D(4) [OF a(1) assms(3)] by blast
  have r: "nid h r = nid h a" "nd_match (h ! r) = None" using D(5,6) [OF a(1) assms(3)] by simp_all
  have dist: "distinct xs" using assms(1) by (simp add: space_def dll_def)
  have other: "nid h b \<noteq> nid h a" if b: "b \<in> set xs" "b \<noteq> a" "b \<noteq> r" for b
  proof
    assume eq: "nid h b = nid h a"
    show False
    proof (cases "is_call h b")
      case True
      moreover have "is_call h a" using assms(3) by (simp add: is_call_def)
      ultimately show False using D(8) [OF b(1) a(1)] b(2) eq by blast
    next
      case False
      then have "nd_match (h ! b) = None" by (simp add: is_call_def)
      then obtain c where c: "c \<in> set xs" "nd_match (h ! c) = Some b" using D(7) [OF b(1)] by blast
      then have nc: "nid h b = nid h c" using D(6) by blast
      have "is_call h c" "is_call h a" using c assms(3) by (simp_all add: is_call_def)
      then have "c = a" by (rule D(8) [OF c(1) a(1)]) (simp only: nc [symmetric] eq)
      then show False using c assms(3) b(3) by simp
    qed
  qed
  let ?f = "filter (\<lambda>b. nid h b \<notin> L)" and ?g = "filter (\<lambda>b. nid h b \<notin> insert (nid h a) L)"
  have "?g ys = ?f ys" if "set ys \<subseteq> set xs - {a, r}" for ys
  proof (rule filter_cong [OF refl])
    fix b assume "b \<in> set ys"
    then have "nid h b \<noteq> nid h a" using that other [of b] by blast
    then show "(nid h b \<notin> insert (nid h a) L) = (nid h b \<notin> L)" by simp
  qed
  moreover have "set xa \<subseteq> set xs - {a, r}" "set xm \<subseteq> set xs - {a, r}" "set xb \<subseteq> set xs - {a, r}"
    using dist by (auto simp: xs)
  ultimately have "?g xa = ?f xa" "?g xm = ?f xm" "?g xb = ?f xb" by simp_all
  then show thesis using a r by (intro that [of "?f xa" "?f xm" "?f xb"]) (simp_all add: rest_def xs)
qed

subsection \<open>The stack\<close>

definition ids :: "'v heap \<Rightarrow> (nat \<times> 's) list \<Rightarrow> nat set" where
  "ids h cs = nid h ` fst ` set cs"

lemma ids_simps [simp]: "ids h [] = {}" "ids h (cs @ [(a, s)]) = insert (nid h a) (ids h cs)"
  by (auto simp: ids_def)

inductive stack_ok ::
  "('v, 's) Model \<Rightarrow> 'v heap \<Rightarrow> nat list \<Rightarrow> (nat \<times> 's) list \<Rightarrow> 'v heap \<Rightarrow> 's \<Rightarrow> bool"
  for m :: "('v, 's) Model" and h0 :: "'v heap" and xs :: "nat list" where
  bottom: "stack_ok m h0 xs [] h0 (Init m)"
| push: "stack_ok m h0 xs cs h s \<Longrightarrow> rest h0 xs (ids h0 cs) = before @ a # after \<Longrightarrow>
    tried m h0 xs (ids h0 cs) s before \<Longrightarrow> nd_match (h0 ! a) = Some r \<Longrightarrow> trans_of m h0 s a = Some s' \<Longrightarrow>
    lift a h = Some h' \<Longrightarrow> stack_ok m h0 xs (cs @ [(a, s)]) h' s'"

inductive_cases stack_snocE: "stack_ok m h0 xs (cs @ [(a, s)]) h' s'"

lemma lift_rest:
  assumes "space h0 head xs n" and "dll h (head # rest h0 xs L)" and "same_data h0 h"
    and "a \<in> set (rest h0 xs L)" and "nd_match (h0 ! a) = Some r"
  obtains h' where "lift a h = Some h'" "dll h' (head # rest h0 xs (insert (nid h0 a) L))" "same_data h0 h'"
    "unlift a h' = Some h"
proof -
  obtain as mid bs where r: "rest h0 xs L = as @ a # mid @ r # bs" "rest h0 xs (insert (nid h0 a) L) = as @ mid @ bs"
    using rest_lift [OF assms(1,4,5)] .
  obtain as' p where p: "head # as = as' @ [p]" by (metis list.distinct(1) rev_exhaust)
  have d: "dll h (as' @ p # a # mid @ r # bs)"
    using assms(2) p unfolding r(1) by (metis append.assoc append_Cons append_Nil)
  have "a < length h0" using assms(1,4) dll_bound [OF spaceD(1) [OF assms(1)], of a] by (simp add: rest_def)
  then have "nd_match (h ! a) = Some r" using assms(3,5) by (simp add: same_data_def)
  from lift_dll [OF d this] obtain h' where h': "lift a h = Some h'" "dll h' (as' @ p # mid @ bs)" "same_data h h'"
    "unlift a h' = Some h" .
  have "as' @ p # mid @ bs = head # as @ mid @ bs" using p by (metis append.assoc append_Cons append_Nil)
  with h' same_data_trans [OF assms(3) h'(3)] show thesis by (intro that [of h']) (simp_all add: r(2))
qed

lemma stack_facts:
  assumes "stack_ok m h0 xs cs h s" and "space h0 head xs n"
  shows "dll h (head # rest h0 xs (ids h0 cs)) \<and> same_data h0 h \<and> distinct (map fst cs) \<and>
    (\<forall>c\<in>set cs. fst c \<in> set xs \<and> is_call h0 (fst c)) \<and>
    (\<forall>as. completes m h0 xs {} (Init m) (map fst cs @ as) \<longleftrightarrow> completes m h0 xs (ids h0 cs) s as)"
  using assms(1)
proof induction
  case bottom
  have "rest h0 xs {} = xs" by (simp add: rest_def)
  then show ?case using spaceD(1) [OF assms(2)] by simp
next
  case (push cs h s before a after r s' h')
  have a: "a \<in> set (rest h0 xs (ids h0 cs))" using push.hyps(2) by simp
  from push.IH have ih: "dll h (head # rest h0 xs (ids h0 cs))" "same_data h0 h" by simp_all
  from lift_rest [OF assms(2) ih a push.hyps(4)] push.hyps(6)
  have h': "dll h' (head # rest h0 xs (insert (nid h0 a) (ids h0 cs)))" "same_data h0 h'" by auto
  have call: "is_call h0 a" using push.hyps(4) by (simp add: is_call_def)
  have "a \<in> set (takeWhile (is_call h0) (rest h0 xs (ids h0 cs)))"
    using push.hyps(2,3) call by (simp add: takeWhile_append tried_def)
  then have "completes m h0 xs (ids h0 cs) s (a # as) \<longleftrightarrow> completes m h0 xs (insert (nid h0 a) (ids h0 cs)) s' as" for as
    using push.hyps(5) by simp
  then have "completes m h0 xs {} (Init m) (map fst (cs @ [(a, s)]) @ as) \<longleftrightarrow>
      completes m h0 xs (ids h0 (cs @ [(a, s)])) s' as" for as
    using push.IH by simp
  moreover have "a \<notin> fst ` set cs" "a \<in> set xs" using a by (auto simp: rest_def ids_def)
  ultimately show ?case using h' push.IH call by auto
qed

text \<open>The last call of the stack, undone.\<close>

lemma stack_pop:
  assumes "stack_ok m h0 xs (cs @ [(a, s)]) h' s'" and "space h0 head xs n"
  obtains h before after r where "stack_ok m h0 xs cs h s" "rest h0 xs (ids h0 cs) = before @ a # after"
    "tried m h0 xs (ids h0 cs) s before" "nd_match (h0 ! a) = Some r" "trans_of m h0 s a = Some s'"
    "unlift a h' = Some h"
proof -
  from assms(1) obtain h before after r where p: "stack_ok m h0 xs cs h s" "rest h0 xs (ids h0 cs) = before @ a # after"
    "tried m h0 xs (ids h0 cs) s before" "nd_match (h0 ! a) = Some r" "trans_of m h0 s a = Some s'" "lift a h = Some h'"
    by (rule stack_snocE) auto
  have a: "a \<in> set (rest h0 xs (ids h0 cs))" using p(2) by simp
  have "dll h (head # rest h0 xs (ids h0 cs))" "same_data h0 h" using stack_facts [OF p(1) assms(2)] by simp_all
  from lift_rest [OF assms(2) this a p(4)] p(6) have "unlift a h' = Some h" by auto
  with p show thesis by (intro that)
qed

text \<open>The configurations on the stack, above the bottom.\<close>

definition on_stack :: "'v heap \<Rightarrow> (nat \<times> 's) list \<Rightarrow> 's \<Rightarrow> nat set \<Rightarrow> 's \<Rightarrow> bool" where
  "on_stack h cs s L t \<longleftrightarrow> (\<exists>cs1 cs2. cs = cs1 @ cs2 \<and> cs1 \<noteq> [] \<and> L = ids h cs1 \<and>
     t = (case cs2 of [] \<Rightarrow> s | c # _ \<Rightarrow> snd c))"

lemma on_stack_Nil [simp]: "\<not> on_stack h [] s L t"
  by (simp add: on_stack_def)

lemma on_stack_snoc:
  "on_stack h (cs @ [(a, s)]) s' L t \<longleftrightarrow> on_stack h cs s L t \<or> (L = insert (nid h a) (ids h cs) \<and> t = s')"
proof
  assume "on_stack h (cs @ [(a, s)]) s' L t"
  then obtain cs1 cs2 where c: "cs @ [(a, s)] = cs1 @ cs2" "cs1 \<noteq> []" "L = ids h cs1"
    "t = (case cs2 of [] \<Rightarrow> s' | c # _ \<Rightarrow> snd c)" by (auto simp: on_stack_def)
  show "on_stack h cs s L t \<or> (L = insert (nid h a) (ids h cs) \<and> t = s')"
  proof (cases cs2 rule: rev_cases)
    case Nil
    then have "cs1 = cs @ [(a, s)]" using c(1) by simp
    then show ?thesis using c(3,4) Nil by simp
  next
    case (snoc cs2' z)
    then have "cs = cs1 @ cs2'" "z = (a, s)" using c(1) by (auto simp flip: append_assoc)
    moreover have "t = (case cs2' of [] \<Rightarrow> s | c # _ \<Rightarrow> snd c)"
      using c(4) snoc \<open>z = (a, s)\<close> by (cases cs2') simp_all
    ultimately have "on_stack h cs s L t" using c(2,3) unfolding on_stack_def by blast
    then show ?thesis ..
  qed
next
  assume "on_stack h cs s L t \<or> (L = insert (nid h a) (ids h cs) \<and> t = s')"
  then show "on_stack h (cs @ [(a, s)]) s' L t"
  proof
    assume "on_stack h cs s L t"
    then obtain cs1 cs2 where c: "cs = cs1 @ cs2" "cs1 \<noteq> []" "L = ids h cs1"
      "t = (case cs2 of [] \<Rightarrow> s | c # _ \<Rightarrow> snd c)" by (auto simp: on_stack_def)
    then show ?thesis unfolding on_stack_def
      by (intro exI [of _ cs1] exI [of _ "cs2 @ [(a, s)]"]) (auto split: list.splits)
  next
    assume "L = insert (nid h a) (ids h cs) \<and> t = s'"
    then show ?thesis unfolding on_stack_def
      by (intro exI [of _ "cs @ [(a, s)]"] exI [of _ "[]"]) simp
  qed
qed

lemma on_stack_subset: "on_stack h cs s L t \<Longrightarrow> L \<subseteq> ids h cs"
  by (force simp: on_stack_def ids_def)

end
