(* ===== verification/Porcupine_Loop.thy ===== *)
theory Porcupine_Loop
  imports Porcupine_Search
begin

section \<open>The loop of the checker ends with the right answer\<close>

text \<open>
  The invariant of \<^const>\<open>checkLoop\<close>, its preservation by the two kinds of iteration, and the measure: the
  number of configurations that are not in the cache, then the height of the stack, then the number of
  entries behind the current one.
\<close>

subsection \<open>The cache\<close>

definition cached :: "'s cache \<Rightarrow> bitset \<Rightarrow> 's \<Rightarrow> bool" where
  "cached c B t \<longleftrightarrow> (\<exists>e\<in>set (map_get c [] (bitset_hash B)). ce_linearized e = B \<and> ce_state e = t)"

lemma cached_empty [simp]: "\<not> cached Map.empty B t"
  by (simp add: cached_def)

lemma cached_add:
  "cached (c(bitset_hash B \<mapsto> map_get c [] (bitset_hash B) @ [\<lparr>ce_linearized = B, ce_state = t\<rparr>])) B' t' \<longleftrightarrow>
     cached c B' t' \<or> (B' = B \<and> t' = t)"
  by (auto simp: cached_def)

lemma cacheContains_iff:
  "cacheContains m c \<lparr>ce_linearized = B, ce_state = t\<rparr> \<longleftrightarrow> (\<exists>t'. cached c B t' \<and> modelEqual m t t')"
  by (auto simp: cacheContains_def cached_def list_ex_iff bitset_equals_iff)

definition cache_ok :: "('v, 's) Model \<Rightarrow> 'v heap \<Rightarrow> nat list \<Rightarrow> nat \<Rightarrow> 's cache \<Rightarrow> (nat \<times> 's) list \<Rightarrow> 's \<Rightarrow> bool" where
  "cache_ok m h xs n c cs s \<longleftrightarrow> (\<forall>B t. cached c B t \<longrightarrow> length B = length (newBitset n) \<longrightarrow>
     dead m h xs (bs_set B) t \<or> on_stack h cs s (bs_set B) t)"

subsection \<open>Configurations that can occur\<close>

fun runs :: "('v, 's) Model \<Rightarrow> 'v heap \<Rightarrow> 's \<Rightarrow> nat list \<Rightarrow> 's option" where
  "runs m h s [] = Some s"
| "runs m h s (a # as) = Option.bind (trans_of m h s a) (\<lambda>s'. runs m h s' as)"

lemma runs_append: "runs m h s (as @ bs) = Option.bind (runs m h s as) (\<lambda>s'. runs m h s' bs)"
  by (induction as arbitrary: s) (simp_all add: Option.bind_assoc)

definition confs :: "('v, 's) Model \<Rightarrow> 'v heap \<Rightarrow> nat list \<Rightarrow> (nat set \<times> 's) set" where
  "confs m h xs = (\<lambda>as. (nid h ` set as, the (runs m h (Init m) as))) ` {as. set as \<subseteq> set xs \<and> distinct as}"

lemma finite_confs: "finite (confs m h xs)"
  unfolding confs_def by (intro finite_imageI finite_subset_distinct) simp

lemma stack_runs: "stack_ok m h0 xs cs h s \<Longrightarrow> runs m h0 (Init m) (map fst cs) = Some s"
  by (induction rule: stack_ok.induct) (simp_all add: runs_append)

lemma stack_conf:
  assumes "stack_ok m h0 xs cs h s" and "space h0 head xs n"
  shows "(ids h0 cs, s) \<in> confs m h0 xs"
proof -
  from stack_facts [OF assms] have "set (map fst cs) \<subseteq> set xs \<and> distinct (map fst cs)" by auto
  then show ?thesis unfolding confs_def
    by (rule rev_image_eqI [OF CollectI]) (simp add: stack_runs [OF assms(1)] ids_def image_image)
qed

text \<open>A sequence of calls that begins to complete the history, and the sequences that \<^verbatim>\<open>longest\<close> may hold.\<close>

fun starts :: "('v, 's) Model \<Rightarrow> 'v heap \<Rightarrow> nat list \<Rightarrow> nat set \<Rightarrow> 's \<Rightarrow> nat list \<Rightarrow> bool" where
  "starts m h xs L s [] = True"
| "starts m h xs L s (a # as) = (a \<in> set (takeWhile (is_call h) (rest h xs L)) \<and>
     (case trans_of m h s a of None \<Rightarrow> False | Some s' \<Rightarrow> starts m h xs (insert (nid h a) L) s' as))"

lemma starts_snoc:
  "starts m h xs L s (as @ [a]) \<longleftrightarrow> starts m h xs L s as \<and>
     (\<exists>t s'. runs m h s as = Some t \<and> trans_of m h t a = Some s' \<and>
        a \<in> set (takeWhile (is_call h) (rest h xs (nid h ` set as \<union> L))))"
  by (induction as arbitrary: L s) (auto split: option.splits)

lemma stack_starts:
  assumes "stack_ok m h0 xs cs h s"
  shows "starts m h0 xs {} (Init m) (map fst cs)"
  using assms
proof induction
  case (push cs h s before a after r s' h')
  have "is_call h0 a" using push.hyps(4) by (simp add: is_call_def)
  then have "a \<in> set (takeWhile (is_call h0) (rest h0 xs (ids h0 cs)))"
    using push.hyps(2,3) by (simp add: takeWhile_append tried_def)
  then have "a \<in> set (takeWhile (is_call h0) (rest h0 xs (nid h0 ` set (map fst cs) \<union> {})))" by (simp add: ids_def)
  with push.IH stack_runs [OF push.hyps(1)] push.hyps(5) show ?case by (simp add: starts_snoc)
qed simp

definition longest_ok :: "('v, 's) Model \<Rightarrow> 'v heap \<Rightarrow> nat list \<Rightarrow> int list option list \<Rightarrow> bool" where
  "longest_ok m h xs l \<longleftrightarrow> (\<forall>seq. Some seq \<in> set l \<longrightarrow>
     (\<exists>as. seq = map (\<lambda>a. int (nid h a)) as \<and> starts m h xs {} (Init m) as))"

lemma longest_ok_update: "longest_ok m h xs l \<Longrightarrow> longest_ok m h xs [Some seq] \<Longrightarrow> longest_ok m h xs (l[i := Some seq])"
  using set_update_subset_insert [of l i "Some seq"] by (auto simp: longest_ok_def)

text \<open>The configurations that are not in the cache yet.\<close>

definition fresh :: "('v, 's) Model \<Rightarrow> 'v heap \<Rightarrow> nat list \<Rightarrow> nat \<Rightarrow> 's cache \<Rightarrow> (nat set \<times> 's) set" where
  "fresh m h xs n c = {q \<in> confs m h xs.
     \<not> (\<exists>B. length B = length (newBitset n) \<and> bs_set B = fst q \<and> cached c B (snd q))}"

lemma fresh_less:
  assumes "(bs_set B, t) \<in> confs m h xs" and "\<not> cached c B t" and "length B = length (newBitset n)"
  shows "card (fresh m h xs n (c(bitset_hash B \<mapsto> map_get c [] (bitset_hash B) @ [\<lparr>ce_linearized = B, ce_state = t\<rparr>])))
    < card (fresh m h xs n c)"
proof (rule psubset_card_mono)
  let ?c = "c(bitset_hash B \<mapsto> map_get c [] (bitset_hash B) @ [\<lparr>ce_linearized = B, ce_state = t\<rparr>])"
  show "finite (fresh m h xs n c)" by (rule finite_subset [OF _ finite_confs [of m h xs]]) (auto simp: fresh_def)
  have "cached ?c B t" by (simp add: cached_add)
  then have "(bs_set B, t) \<notin> fresh m h xs n ?c" using assms(3) by (auto simp: fresh_def)
  moreover have "\<not> cached c B' t" if "length B' = length (newBitset n)" "bs_set B' = bs_set B" for B'
    using bs_set_inject [of B' B] that assms(2,3) by simp
  then have "(bs_set B, t) \<in> fresh m h xs n c" using assms(1) by (auto simp: fresh_def)
  moreover have "cached c B' t' \<Longrightarrow> cached ?c B' t'" for B' t' by (simp add: cached_add)
  then have "fresh m h xs n ?c \<subseteq> fresh m h xs n c" by (auto simp: fresh_def)
  ultimately show "fresh m h xs n ?c \<subset> fresh m h xs n c" by blast
qed

subsection \<open>The invariant\<close>

definition at_entry :: "('v, 's) Model \<Rightarrow> 'v heap \<Rightarrow> nat list \<Rightarrow> ('v, 's) search \<Rightarrow> nat list \<Rightarrow> nat \<Rightarrow> nat list \<Rightarrow> bool" where
  "at_entry m h0 xs S before a after \<longleftrightarrow> rest h0 xs (ids h0 (s_calls S)) = before @ a # after \<and>
     s_entry S = Some a \<and> tried m h0 xs (ids h0 (s_calls S)) (s_state S) before"

definition search_inv :: "('v, 's) Model \<Rightarrow> 'v heap \<Rightarrow> nat list \<Rightarrow> nat \<Rightarrow> ('v, 's) search \<Rightarrow> bool" where
  "search_inv m h0 xs n S \<longleftrightarrow> stack_ok m h0 xs (s_calls S) (s_heap S) (s_state S) \<and>
     bs_set (s_linearized S) = ids h0 (s_calls S) \<and> length (s_linearized S) = length (newBitset n) \<and>
     cache_ok m h0 xs n (s_cache S) (s_calls S) (s_state S) \<and> length (s_longest S) = n \<and>
     longest_ok m h0 xs (s_longest S) \<and>
     (rest h0 xs (ids h0 (s_calls S)) = [] \<or> (\<exists>before a after. at_entry m h0 xs S before a after))"

definition behind :: "'v heap \<Rightarrow> nat list \<Rightarrow> ('v, 's) search \<Rightarrow> nat" where
  "behind h0 xs S = (case s_entry S of None \<Rightarrow> 0
     | Some a \<Rightarrow> length (dropWhile (\<lambda>b. b \<noteq> a) (rest h0 xs (ids h0 (s_calls S)))))"

definition search_rel :: "('v, 's) Model \<Rightarrow> 'v heap \<Rightarrow> nat list \<Rightarrow> nat \<Rightarrow> (('v, 's) search \<times> ('v, 's) search) set" where
  "search_rel m h0 xs n = measures [\<lambda>S. card (fresh m h0 xs n (s_cache S)), \<lambda>S. length (s_calls S), behind h0 xs]"

lemma wf_search_rel: "wf (search_rel m h0 xs n)"
  by (simp add: search_rel_def)

lemma rest_distinct: "space h0 head xs n \<Longrightarrow> distinct (rest h0 xs L)"
  by (simp add: space_def dll_def rest_def)

lemma behind_at:
  assumes "space h0 head xs n" and "rest h0 xs (ids h0 (s_calls S)) = before @ a # after" and "s_entry S = Some a"
  shows "behind h0 xs S = Suc (length after)"
proof -
  have "a \<notin> set before" using rest_distinct [OF assms(1), of "ids h0 (s_calls S)"] assms(2) by simp
  then have "dropWhile (\<lambda>b. b \<noteq> a) (before @ a # after) = a # after" by (induction before) auto
  then show ?thesis using assms(2,3) by (simp add: behind_def)
qed

text \<open>The pointers of the list in front of the current entry and at it.\<close>

lemma dll_next: "dll h (as @ a # bs) \<Longrightarrow> a < length h \<and> nd_next (h ! a) = first bs None"
  by (simp add: dll_def)

lemma call_not_last:
  assumes "space h0 head xs n" and "rest h0 xs L = before @ a # after" and "is_call h0 a"
  shows "after \<noteq> []"
proof -
  obtain r where r: "nd_match (h0 ! a) = Some r" using assms(3) by (auto simp: is_call_def)
  have a: "a \<in> set (rest h0 xs L)" using assms(2) by simp
  obtain as mid bs where "rest h0 xs L = as @ a # mid @ r # bs" using rest_lift [OF assms(1) a r] .
  moreover have "a \<notin> set before \<and> a \<notin> set after" using rest_distinct [OF assms(1), of L] assms(2) by simp
  ultimately show ?thesis using assms(2) append_Cons_eq_iff [of a before after as "mid @ r # bs"] by auto
qed

text \<open>What a state on which the invariant holds looks like in the store.\<close>

lemma search_store:
  assumes "search_inv m h0 xs n S" and "space h0 head xs n"
  shows "dll (s_heap S) (head # rest h0 xs (ids h0 (s_calls S)))" and "same_data h0 (s_heap S)"
    and "deref (s_heap S) (Some head) = Some (s_heap S ! head)"
    and "nd_next (s_heap S ! head) = first (rest h0 xs (ids h0 (s_calls S))) None"
proof -
  have "stack_ok m h0 xs (s_calls S) (s_heap S) (s_state S)" using assms(1) by (simp add: search_inv_def)
  from stack_facts [OF this assms(2)]
  show d: "dll (s_heap S) (head # rest h0 xs (ids h0 (s_calls S)))" and "same_data h0 (s_heap S)" by simp_all
  from dll_next [of "s_heap S" "[]" head] d
  show "deref (s_heap S) (Some head) = Some (s_heap S ! head)"
    and "nd_next (s_heap S ! head) = first (rest h0 xs (ids h0 (s_calls S))) None"
    by (simp_all add: deref_eq)
qed

lemma same_dataD:
  assumes "same_data h0 h" and "a < length h0"
  shows "a < length h" and "nd_value (h ! a) = nd_value (h0 ! a)" and "nd_match (h ! a) = nd_match (h0 ! a)"
    and "nd_id (h ! a) = nd_id (h0 ! a)"
  using assms by (simp_all add: same_data_def)

lemma rest_bound:
  assumes "space h0 head xs n" and "a \<in> set (rest h0 xs L)"
  shows "a \<in> set xs" and "a < length h0" and "nid h0 a \<notin> L"
  using assms dll_bound [OF spaceD(1) [OF assms(1)], of a] by (auto simp: rest_def)


subsection \<open>Iterations\<close>

lemma Step_cases:
  assumes "model_ok m h0 xs" and "a \<in> set xs" and "is_call h0 a"
  obtains ok s' where "Step m s (nd_value (h0 ! a)) (nd_value (h0 ! the (nd_match (h0 ! a)))) = Some (ok, s')"
    "trans_of m h0 s a = (if ok then Some s' else None)"
proof -
  have "Step m s (nd_value (h0 ! a)) (nd_value (h0 ! the (nd_match (h0 ! a)))) \<noteq> None"
    using assms by (simp add: model_ok_def)
  then obtain ok s' where "Step m s (nd_value (h0 ! a)) (nd_value (h0 ! the (nd_match (h0 ! a)))) = Some (ok, s')"
    by auto
  then show thesis by (intro that) (auto simp: trans_of_def)
qed

text \<open>Going to the next entry, once the current call has been found useless.\<close>

lemma advance_inv:
  assumes "search_inv m h0 xs n S" and "space h0 head xs n" and "at_entry m h0 xs S before a after"
    and "is_call h0 a" and "\<And>s'. trans_of m h0 (s_state S) a = Some s' \<Longrightarrow>
      dead m h0 xs (insert (nid h0 a) (ids h0 (s_calls S))) s'"
  shows "search_inv m h0 xs n (S\<lparr>s_entry := nd_next (s_heap S ! a)\<rparr>)"
    and "(S\<lparr>s_entry := nd_next (s_heap S ! a)\<rparr>, S) \<in> search_rel m h0 xs n"
proof -
  let ?S = "S\<lparr>s_entry := nd_next (s_heap S ! a)\<rparr>"
  have r: "rest h0 xs (ids h0 (s_calls S)) = before @ a # after" and e: "s_entry S = Some a"
    and t: "tried m h0 xs (ids h0 (s_calls S)) (s_state S) before" using assms(3) by (simp_all add: at_entry_def)
  obtain b after' where af: "after = b # after'" using call_not_last [OF assms(2) r assms(4)] by (cases after) auto
  have nx: "nd_next (s_heap S ! a) = Some b"
    using search_store(1) [OF assms(1,2)] dll_next [of "s_heap S" "head # before" a after] af by (simp add: r)
  have "at_entry m h0 xs ?S (before @ [a]) b after'"
    using r t assms(4,5) af nx by (auto simp: at_entry_def tried_def)
  then show "search_inv m h0 xs n ?S" using assms(1) by (auto simp: search_inv_def)
  have "behind h0 xs S = Suc (length after)" using behind_at [OF assms(2) r e] .
  moreover have "behind h0 xs ?S = Suc (length after')"
    using behind_at [OF assms(2), of ?S "before @ [a]" b after'] r af nx by simp
  ultimately show "(?S, S) \<in> search_rel m h0 xs n" by (simp add: search_rel_def af)
qed

text \<open>Linearizing a call.\<close>

definition pushed :: "nat \<Rightarrow> nat \<Rightarrow> bitset \<Rightarrow> 's \<Rightarrow> 'v heap \<Rightarrow> ('v, 's) search \<Rightarrow> ('v, 's) search" where
  "pushed head a B s' h' S = S\<lparr>s_cache := (s_cache S)(bitset_hash B \<mapsto>
        map_get (s_cache S) [] (bitset_hash B) @ [\<lparr>ce_linearized = B, ce_state = s'\<rparr>]),
      s_calls := s_calls S @ [(a, s_state S)], s_state := s', s_linearized := B, s_heap := h',
      s_entry := nd_next (h' ! head)\<rparr>"

lemma push_inv:
  assumes "search_inv m h0 xs n S" and "space h0 head xs n" and "at_entry m h0 xs S before a after"
    and "nd_match (h0 ! a) = Some r" and "trans_of m h0 (s_state S) a = Some s'"
    and "bs_set B = insert (nid h0 a) (ids h0 (s_calls S))" and "length B = length (newBitset n)"
    and "\<not> cached (s_cache S) B s'" and "lift a (s_heap S) = Some h'"
  shows "search_inv m h0 xs n (pushed head a B s' h' S)"
    and "(pushed head a B s' h' S, S) \<in> search_rel m h0 xs n"
proof -
  let ?S = "pushed head a B s' h' S"
  have st: "stack_ok m h0 xs (s_calls S @ [(a, s_state S)]) h' s'"
    using assms by (intro push [of m h0 xs "s_calls S" "s_heap S" "s_state S" before a after])
      (simp_all add: search_inv_def at_entry_def)
  let ?L = "insert (nid h0 a) (ids h0 (s_calls S))"
  from stack_facts [OF st assms(2)] have d: "dll h' (head # rest h0 xs ?L)" by simp
  then have nx: "nd_next (h' ! head) = first (rest h0 xs ?L) None" using dll_next [of h' "[]" head] by simp
  have "rest h0 xs ?L = [] \<or> (\<exists>before a after. at_entry m h0 xs ?S before a after)"
  proof (cases "rest h0 xs ?L")
    case (Cons b bs)
    then have "at_entry m h0 xs ?S [] b bs" using nx by (simp add: at_entry_def tried_def pushed_def)
    then show ?thesis by blast
  qed simp
  moreover have "cache_ok m h0 xs n (s_cache ?S) (s_calls ?S) (s_state ?S)"
    using assms(1,6) by (auto simp: search_inv_def cache_ok_def cached_add on_stack_snoc pushed_def)
  ultimately show "search_inv m h0 xs n ?S" using st assms(1,6,7) by (simp add: search_inv_def pushed_def)
  have "(bs_set B, s') \<in> confs m h0 xs" using stack_conf [OF st assms(2)] assms(6) by simp
  from fresh_less [OF this assms(8,7)] show "(?S, S) \<in> search_rel m h0 xs n" by (simp add: search_rel_def pushed_def)
qed


text \<open>Both possible results of an iteration at a call.\<close>

lemma tryCall_inv:
  assumes "search_inv m h0 xs n S" and "space h0 head xs n" and "model_ok m h0 xs"
    and "at_entry m h0 xs S before a after" and "is_call h0 a"
  obtains S' where "tryCall m head a S = Some S'" "search_inv m h0 xs n S'" "(S', S) \<in> search_rel m h0 xs n"
proof -
  let ?h = "s_heap S" and ?L = "ids h0 (s_calls S)" and ?s = "s_state S"
  obtain r where r: "nd_match (h0 ! a) = Some r" using assms(5) by (auto simp: is_call_def)
  have "a \<in> set (rest h0 xs ?L)" using assms(4) by (simp add: at_entry_def)
  note ar = this and a = rest_bound [OF assms(2) this]
  note D = spaceD [OF assms(2)] and st = search_store [OF assms(1,2)]
  note A = same_dataD [OF st(2) a(2)]
  have rb: "r < length h0" using D(4) [OF a(1) r] dll_bound [OF D(1), of r] by auto
  note R = same_dataD [OF st(2) rb]
  have a0: "deref ?h (Some a) = Some (?h ! a)" "deref ?h (nd_match (?h ! a)) = Some (?h ! r)"
    using A R r by (simp_all add: deref_eq)
  have pos: "bitpos (nd_id (?h ! a)) = Some (nid h0 a)" using D(2) [OF a(1)] A(4) by (simp add: bitpos_def nid_def)
  have len: "length (s_linearized S) = length (newBitset n)" and lin: "bs_set (s_linearized S) = ?L"
    using assms(1) by (simp_all add: search_inv_def)
  have room: "nid h0 a < 64 * length (s_linearized S)" using newBitset_covers [OF D(3) [OF a(1)]] len by simp
  then obtain B where B: "bitset_set (s_linearized S) (nid h0 a) = Some B" by (simp add: bitset_set_eq)
  have BL: "bs_set B = insert (nid h0 a) ?L" "length B = length (newBitset n)"
    using bs_set_set [OF room B] lin len by simp_all
  obtain ok s' where step: "Step m ?s (nd_value (h0 ! a)) (nd_value (h0 ! the (nd_match (h0 ! a)))) = Some (ok, s')"
    and tr: "trans_of m h0 ?s a = (if ok then Some s' else None)" using Step_cases [OF assms(3) a(1) assms(5)] .
  have step': "Step m ?s (nd_value (?h ! a)) (nd_value (?h ! r)) = Some (ok, s')" using step r A R by simp
  let ?new = "\<lparr>ce_linearized = B, ce_state = s'\<rparr>"
  show thesis
  proof (cases "ok \<and> \<not> cacheContains m (s_cache S) ?new")
    case True
    obtain h' where h': "lift a ?h = Some h'" "dll h' (head # rest h0 xs (insert (nid h0 a) ?L))"
      using lift_rest [OF assms(2) st(1,2) ar r] .
    have hd: "deref h' (Some head) = Some (h' ! head)" using dll_next [of h' "[]" head] h'(2) by (simp add: deref_eq)
    have eq: "tryCall m head a S = Some (pushed head a B s' h' S)"
      using a0 step' True pos B h'(1) hd by (simp add: tryCall_def pushed_def Let_def)
    have "modelEqual m s' s'" using assms(3) by (simp add: model_ok_def equivp_reflp)
    then have new: "\<not> cached (s_cache S) B s'" using True by (auto simp: cacheContains_iff)
    have "trans_of m h0 ?s a = Some s'" using tr True by simp
    from that [OF eq push_inv [OF assms(1,2,4) r this BL new h'(1)]] show thesis .
  next
    case False
    have eq: "tryCall m head a S = Some (S\<lparr>s_entry := nd_next (?h ! a)\<rparr>)"
      using a0 step' False pos B by (auto simp: tryCall_def Let_def)
    have "dead m h0 xs (insert (nid h0 a) ?L) t" if "trans_of m h0 ?s a = Some t" for t
    proof -
      from that tr have ok: "ok" "t = s'" by (auto split: if_splits)
      with False obtain t' where t': "cached (s_cache S) B t'" "modelEqual m s' t'" by (auto simp: cacheContains_iff)
      then have "dead m h0 xs (bs_set B) t' \<or> on_stack h0 (s_calls S) ?s (bs_set B) t'"
        using assms(1) BL(2) by (simp add: search_inv_def cache_ok_def)
      moreover have "\<not> bs_set B \<subseteq> ?L" using BL(1) a(3) by auto
      ultimately have "dead m h0 xs (bs_set B) t'" 
        using on_stack_subset [of h0 "s_calls S" ?s "bs_set B" t'] by argo
      moreover have "equivp (modelEqual m)" using assms(3) by (simp add: model_ok_def)
      from equivp_symp [OF this t'(2)] have "modelEqual m t' s'" .
      ultimately show ?thesis using dead_cong [OF assms(3)] BL(1) ok(2) by simp
    qed
    from that [OF eq advance_inv [OF assms(1,2,4,5) this]] show thesis .
  qed
qed


text \<open>The bookkeeping of the longest prefixes does not panic.\<close>

lemma callIds_eq:
  assumes "\<And>c. c \<in> set cs \<Longrightarrow> fst c < length h"
  shows "callIds h cs = Some (map (\<lambda>c. nd_id (h ! fst c)) cs)"
proof -
  have "for_loop cs (\<lambda>v ids. do { n \<leftarrow> deref h (Some (fst v)); Some (ids @ [nd_id n]) }) acc =
      Some (acc @ map (\<lambda>c. nd_id (h ! fst c)) cs)" for acc
    using assms by (induction cs arbitrary: acc) (simp_all add: deref_eq)
  then show ?thesis by (simp add: callIds_def)
qed

lemma calls_bound:
  assumes "search_inv m h0 xs n S" and "space h0 head xs n" and "c \<in> set (s_calls S)"
  shows "fst c \<in> set xs" and "fst c < length (s_heap S)" and "nd_id (s_heap S ! fst c) = int (nid h0 (fst c))"
    and "nid h0 (fst c) < n"
proof -
  have "stack_ok m h0 xs (s_calls S) (s_heap S) (s_state S)" using assms(1) by (simp add: search_inv_def)
  from stack_facts [OF this assms(2)] assms(3) show x: "fst c \<in> set xs" by simp
  note st = search_store(2) [OF assms(1,2)]
  have "fst c < length h0" using dll_bound [OF spaceD(1) [OF assms(2)], of "fst c"] x by simp
  from same_dataD [OF st this] spaceD(2,3) [OF assms(2) x]
  show "fst c < length (s_heap S)" "nd_id (s_heap S ! fst c) = int (nid h0 (fst c))" "nid h0 (fst c) < n"
    by (simp_all add: nid_def)
qed

lemma calls_seq:
  assumes "search_inv m h0 xs n S" and "space h0 head xs n"
  shows "callIds (s_heap S) (s_calls S) = Some (map (\<lambda>a. int (nid h0 a)) (map fst (s_calls S)))"
    and "longest_ok m h0 xs [Some (map (\<lambda>a. int (nid h0 a)) (map fst (s_calls S)))]"
proof -
  have "callIds (s_heap S) (s_calls S) = Some (map (\<lambda>c. nd_id (s_heap S ! fst c)) (s_calls S))"
    by (rule callIds_eq) (rule calls_bound(2) [OF assms])
  then show "callIds (s_heap S) (s_calls S) = Some (map (\<lambda>a. int (nid h0 a)) (map fst (s_calls S)))"
    using calls_bound(3) [OF assms] by simp
  have "stack_ok m h0 xs (s_calls S) (s_heap S) (s_state S)" using assms(1) by (simp add: search_inv_def)
  from stack_starts [OF this] show "longest_ok m h0 xs [Some (map (\<lambda>a. int (nid h0 a)) (map fst (s_calls S)))]"
    by (auto simp: longest_ok_def simp del: map_map)
qed

lemma recordLongest_ok:
  assumes "search_inv m h0 xs n S" and "space h0 head xs n"
  obtains l where "recordLongest cp S = Some l" "length l = n" "longest_ok m h0 xs l"
proof -
  note b = calls_bound [OF assms] and seq = calls_seq [OF assms]
  let ?seq = "map (\<lambda>a. int (nid h0 a)) (map fst (s_calls S))" and ?P = "\<lambda>l. length l = n \<and> longest_ok m h0 xs l"
  have n: "?P (s_longest S)" using assms(1) by (simp add: search_inv_def)
  have "\<exists>l. for_loop (s_calls S) (longestStep (s_heap S) ?seq) (s_longest S) = Some l \<and> ?P l"
  proof (rule for_loop_total [where P = ?P, OF n])
    fix c and l :: "int list option list" assume c: "c \<in> set (s_calls S)" and l: "?P l"
    show "\<exists>v. longestStep (s_heap S) ?seq c l = Some v \<and> ?P v"
      using b(2,3,4) [OF c] l longest_ok_update [OF _ seq(2), of l] by (auto simp: longestStep_def deref_eq)
  qed
  then have "\<exists>l. recordLongest cp S = Some l \<and> ?P l"
    using seq(1) n by (cases cp) (simp_all add: recordLongest_def)
  with that show thesis by blast
qed

text \<open>Going back: everything in front of the return has been tried, so the last call was a mistake.\<close>

lemma goBack_inv:
  assumes "search_inv m h0 xs n S" and "space h0 head xs n"
    and "at_entry m h0 xs S before a after" and "\<not> is_call h0 a" and "s_calls S \<noteq> []"
  obtains S' where "goBack cp S = Some S'" "search_inv m h0 xs n S'" "(S', S) \<in> search_rel m h0 xs n"
proof -
  obtain cs c s where calls: "s_calls S = cs @ [(c, s)]" using assms(5) by (cases "s_calls S" rule: rev_cases) auto
  have stk: "stack_ok m h0 xs (cs @ [(c, s)]) (s_heap S) (s_state S)"
    using assms(1) calls by (simp add: search_inv_def)
  obtain h bef aft r where p: "stack_ok m h0 xs cs h s" "rest h0 xs (ids h0 cs) = bef @ c # aft"
    "tried m h0 xs (ids h0 cs) s bef" "nd_match (h0 ! c) = Some r" "trans_of m h0 s c = Some (s_state S)"
    "unlift c (s_heap S) = Some h"
    using stack_pop [OF stk assms(2)] .
  have dd: "dead m h0 xs (insert (nid h0 c) (ids h0 cs)) (s_state S)"
    using tried_dead [of h0 xs "ids h0 (s_calls S)" before a after m "s_state S"] assms(3,4) calls
    by (simp add: at_entry_def)
  have call: "is_call h0 c" using p(4) by (simp add: is_call_def)
  obtain b aft' where af: "aft = b # aft'" using call_not_last [OF assms(2) p(2) call] by (cases aft) auto
  have dh: "dll h (head # rest h0 xs (ids h0 cs))" using stack_facts [OF p(1) assms(2)] by simp
  then have nx: "c < length h" "nd_next (h ! c) = Some b" using dll_next [of h "head # bef" c aft] p(2) af by simp_all
  have "c \<in> set (rest h0 xs (ids h0 cs))" using p(2) by simp
  note cb = rest_bound [OF assms(2) this]
  have "(c, s) \<in> set (s_calls S)" using calls by simp
  note bnd = calls_bound [OF assms(1,2) this, simplified]
  have len: "length (s_linearized S) = length (newBitset n)"
    and lin: "bs_set (s_linearized S) = insert (nid h0 c) (ids h0 cs)"
    using assms(1) calls by (simp_all add: search_inv_def)
  have room: "nid h0 c < 64 * length (s_linearized S)" using newBitset_covers [OF bnd(4)] len by simp
  then obtain B where B: "bitset_clear (s_linearized S) (nid h0 c) = Some B" by (simp add: bitset_clear_eq)
  have BL: "bs_set B = ids h0 cs" "length B = length (newBitset n)"
    using bs_set_clear [OF room B] lin len cb(3) by auto
  obtain l where l: "recordLongest cp S = Some l" "length l = n" "longest_ok m h0 xs l" using recordLongest_ok [OF assms(1,2)] .
  let ?S = "S\<lparr>s_longest := l, s_state := s, s_linearized := B, s_calls := cs, s_heap := h, s_entry := Some b\<rparr>"
  have eq: "goBack cp S = Some ?S"
    using l(1) calls bnd B p(6) nx by (simp add: goBack_def deref_eq bitpos_def nth_append)
  have "at_entry m h0 xs ?S (bef @ [c]) b aft'"
    using p(2,3,5) af call dd by (auto simp: at_entry_def tried_def)
  moreover have "cache_ok m h0 xs n (s_cache S) (cs @ [(c, s)]) (s_state S)"
    using assms(1) calls by (simp add: search_inv_def)
  then have "cache_ok m h0 xs n (s_cache S) cs s" using dd unfolding cache_ok_def on_stack_snoc by metis
  ultimately have inv: "search_inv m h0 xs n ?S" using p(1) BL l(2,3) by (auto simp: search_inv_def)
  have "(?S, S) \<in> search_rel m h0 xs n" using calls by (simp add: search_rel_def)
  from that [OF eq inv this] show thesis .
qed

subsection \<open>The result\<close>

text \<open>
  The loop returns.  If it returns true, a sequence of calls completes the history, and it is what
  \<^verbatim>\<open>longest\<close> holds for every operation; if it returns false, either no sequence does, or it was told to stop.
\<close>

lemma checkLoop_correct:
  assumes "space h0 head xs n" and "model_ok m h0 xs" and "search_inv m h0 xs n S"
  shows "\<exists>ok l. checkLoop kill m cp head k S = Some (ok, l) \<and> length l = n \<and> longest_ok m h0 xs l \<and>
    (ok \<longrightarrow> (\<exists>as. completes m h0 xs {} (Init m) as \<and> l = replicate n (Some (map (\<lambda>a. int (nid h0 a)) as)))) \<and>
    (\<not> ok \<longrightarrow> dead m h0 xs {} (Init m) \<or> (\<exists>k. kill k))"
  using assms(3)
proof (induction S arbitrary: k rule: wf_induct_rule [OF wf_search_rel [of m h0 xs n]])
  case (1 S)
  note inv = 1(2) and st = search_store [OF 1(2) assms(1)]
  have n: "length (s_longest S) = n" "longest_ok m h0 xs (s_longest S)" using inv by (simp_all add: search_inv_def)
  let ?ok = "\<lambda>r. \<exists>ok l. r = Some (ok, l) \<and> length l = n \<and> longest_ok m h0 xs l \<and>
    (ok \<longrightarrow> (\<exists>as. completes m h0 xs {} (Init m) as \<and> l = replicate n (Some (map (\<lambda>a. int (nid h0 a)) as)))) \<and>
    (\<not> ok \<longrightarrow> dead m h0 xs {} (Init m) \<or> (\<exists>k. kill k))"
  have IH: "?ok (checkLoop kill m cp head k' S')"
    if "search_inv m h0 xs n S'" "(S', S) \<in> search_rel m h0 xs n" for S' k' using 1(1) that by blast
  show ?case
  proof (cases "rest h0 xs (ids h0 (s_calls S))")
    case Nil
    have "stack_ok m h0 xs (s_calls S) (s_heap S) (s_state S)" using inv by (simp add: search_inv_def)
    from stack_facts [OF this assms(1)] have "completes m h0 xs {} (Init m) (map fst (s_calls S) @ []) \<longleftrightarrow>
        completes m h0 xs (ids h0 (s_calls S)) (s_state S) []" by blast
    then have "completes m h0 xs {} (Init m) (map fst (s_calls S))" using Nil by simp
    moreover note seq = calls_seq [OF inv assms(1)]
    ultimately have "checkLoop kill m cp head k S =
        Some (True, replicate n (Some (map (\<lambda>a. int (nid h0 a)) (map fst (s_calls S)))))"
      using st(3,4) Nil n by (subst checkLoop.simps) (simp add: map_replicate_const)
    moreover have "longest_ok m h0 xs (replicate n (Some (map (\<lambda>a. int (nid h0 a)) (map fst (s_calls S)))))"
      using seq(2) by (simp add: longest_ok_def)
    moreover note \<open>completes m h0 xs {} (Init m) (map fst (s_calls S))\<close>
    ultimately show ?thesis
      by (intro exI [of _ True] exI [of _ "replicate n (Some (map (\<lambda>a. int (nid h0 a)) (map fst (s_calls S))))"])
        (intro conjI impI exI [of _ "map fst (s_calls S)"]; simp)
  next
    case (Cons b bs)
    then obtain before a after where at: "at_entry m h0 xs S before a after" using inv by (auto simp: search_inv_def)
    then have r: "rest h0 xs (ids h0 (s_calls S)) = before @ a # after" and e: "s_entry S = Some a"
      by (simp_all add: at_entry_def)
    have "a \<in> set (rest h0 xs (ids h0 (s_calls S)))" using r by simp
    note a = rest_bound [OF assms(1) this]
    note A = same_dataD [OF st(2) a(2)]
    have unf: "checkLoop kill m cp head k S = (if kill k then Some (False, s_longest S)
      else if is_call h0 a then Option.bind (tryCall m head a S) (checkLoop kill m cp head (k + 1))
      else if s_calls S = [] then Some (False, s_longest S)
      else Option.bind (goBack cp S) (checkLoop kill m cp head (k + 1)))"
      using st(3,4) Cons e A by (subst checkLoop.simps) (simp add: deref_eq is_call_def)
    consider "kill k" | "\<not> kill k" "is_call h0 a" | "\<not> kill k" "\<not> is_call h0 a" "s_calls S = []"
      | "\<not> kill k" "\<not> is_call h0 a" "s_calls S \<noteq> []" by blast
    then show ?thesis
    proof cases
      case 1
      then show ?thesis using unf n by auto
    next
      case 2
      obtain S' where "tryCall m head a S = Some S'" "search_inv m h0 xs n S'" "(S', S) \<in> search_rel m h0 xs n"
        using tryCall_inv [OF inv assms(1,2) at 2(2)] .
      then show ?thesis using unf 2 IH by simp
    next
      case 3
      have "stack_ok m h0 xs [] (s_heap S) (s_state S)" using inv 3(3) by (simp add: search_inv_def)
      then have "s_state S = Init m" by (cases rule: stack_ok.cases) simp_all
      then have "dead m h0 xs {} (Init m)"
        using tried_dead [OF r 3(2), of m "Init m"] at 3(3) by (simp add: at_entry_def)
      then show ?thesis using unf 3 n by auto
    next
      case 4
      obtain S' where "goBack cp S = Some S'" "search_inv m h0 xs n S'" "(S', S) \<in> search_rel m h0 xs n"
        using goBack_inv [OF inv assms(1) at 4(2,3)] .
      then show ?thesis using unf 4 IH by simp
    qed
  qed
qed

end
