(* ===== verification/Porcupine_Linked.thy ===== *)
theory Porcupine_Linked
  imports Porcupine_Loop
begin

section \<open>From a history to the linked list\<close>

text \<open>
  \<^const>\<open>makeLinkedEntries\<close> stores the entry number \<open>p\<close> of a history of length \<open>N\<close> at the address \<open>N - 1 - p\<close>,
  so that the list of the history is \<open>rev [0..<N]\<close>; a call points to the return with the same id behind
  it.  For a well-formed history this is the search space of the loop.
\<close>

subsection \<open>Well-formed histories and linearizations\<close>

definition wf_entries :: "'v entry list \<Rightarrow> bool" where
  "wf_entries es \<longleftrightarrow> distinct (map (\<lambda>e. (en_kind e, en_id e)) es) \<and>
     (\<forall>e\<in>set es. 0 \<le> en_id e \<and> en_id e < int (length es div 2)) \<and>
     (\<forall>p<length es. en_kind (es ! p) = callEntry \<longrightarrow>
        (\<exists>q<length es. p < q \<and> en_kind (es ! q) = returnEntry \<and> en_id (es ! q) = en_id (es ! p))) \<and>
     (\<forall>q<length es. en_kind (es ! q) = returnEntry \<longrightarrow>
        (\<exists>p<q. en_kind (es ! p) = callEntry \<and> en_id (es ! p) = en_id (es ! q)))"

text \<open>The operation \<open>i\<close> returned before the operation \<open>j\<close> was called.\<close>

definition precedes :: "'v entry list \<Rightarrow> nat \<Rightarrow> nat \<Rightarrow> bool" where
  "precedes es i j \<longleftrightarrow> (\<exists>q<length es. \<exists>p<q. en_kind (es ! p) = returnEntry \<and> en_id (es ! p) = int i \<and>
     en_kind (es ! q) = callEntry \<and> en_id (es ! q) = int j)"

definition entryOf :: "entryKind \<Rightarrow> 'v entry list \<Rightarrow> nat \<Rightarrow> 'v entry option" where
  "entryOf k es i = List.find (\<lambda>e. en_kind e = k \<and> en_id e = int i) es"

definition stepTo :: "('v, 's) Model \<Rightarrow> 's \<Rightarrow> 'v iface \<Rightarrow> 'v iface \<Rightarrow> 's option" where
  "stepTo m s i r = (case Step m s i r of Some (True, s') \<Rightarrow> Some s' | _ \<Rightarrow> None)"

fun legal :: "('v, 's) Model \<Rightarrow> 'v entry list \<Rightarrow> 's \<Rightarrow> nat list \<Rightarrow> bool" where
  "legal m es s [] = True"
| "legal m es s (i # is) = (case (entryOf callEntry es i, entryOf returnEntry es i) of
     (Some c, Some r) \<Rightarrow> (case stepTo m s (en_value c) (en_value r) of
        Some s' \<Rightarrow> legal m es s' is | None \<Rightarrow> False)
   | _ \<Rightarrow> False)"

definition linearization :: "('v, 's) Model \<Rightarrow> 'v entry list \<Rightarrow> nat list \<Rightarrow> bool" where
  "linearization m es order \<longleftrightarrow> distinct order \<and> set order = {..<length es div 2} \<and>
     sorted_wrt (\<lambda>i j. \<not> precedes es j i) order \<and> legal m es (Init m) order"

text \<open>Some of the operations, in an order that a linearization might have.\<close>

definition partial_linearization :: "('v, 's) Model \<Rightarrow> 'v entry list \<Rightarrow> nat list \<Rightarrow> bool" where
  "partial_linearization m es order \<longleftrightarrow> distinct order \<and> set order \<subseteq> {..<length es div 2} \<and>
     sorted_wrt (\<lambda>i j. \<not> precedes es j i) order \<and> legal m es (Init m) order"

text \<open>What the checker needs of a model: it does not panic on the history, and its equality is an equivalence
  that the steps respect.\<close>

definition model_fits :: "('v, 's) Model \<Rightarrow> 'v entry list \<Rightarrow> bool" where
  "model_fits m es \<longleftrightarrow> equivp (modelEqual m) \<and>
     (\<forall>c\<in>set es. \<forall>r\<in>set es. en_kind c = callEntry \<longrightarrow> en_kind r = returnEntry \<longrightarrow> en_id r = en_id c \<longrightarrow>
       (\<forall>s. Step m s (en_value c) (en_value r) \<noteq> None \<and>
         (\<forall>t. modelEqual m s t \<longrightarrow>
            rel_option (modelEqual m) (stepTo m s (en_value c) (en_value r)) (stepTo m t (en_value c) (en_value r)))))"

subsection \<open>Building the list\<close>

fun retAddr :: "'v entry list \<Rightarrow> int \<Rightarrow> nat option" where
  "retAddr [] k = None"
| "retAddr (e # es) k = (if en_kind e = returnEntry \<and> en_id e = k then Some (length es) else retAddr es k)"

fun stored :: "'v heap \<Rightarrow> 'v entry list \<Rightarrow> bool" where
  "stored h [] = True"
| "stored h (e # es) = (nd_value (h ! length es) = en_value e \<and> nd_id (h ! length es) = en_id e \<and>
     nd_match (h ! length es) = (if en_kind e = returnEntry then None else retAddr es (en_id e)) \<and> stored h es)"

lemma stored_cong:
  assumes "\<And>a. a < length es \<Longrightarrow> nd_value (h' ! a) = nd_value (h ! a) \<and> nd_match (h' ! a) = nd_match (h ! a) \<and>
      nd_id (h' ! a) = nd_id (h ! a)"
  shows "stored h' es = stored h es"
  using assms by (induction es) simp_all

lemma dll_front:
  assumes "dll h xs" and "nd_next nd = None" and "nd_prev nd = None"
  obtains h' where "insertBefore (length h) (first xs None) (h @ [nd]) = Some h'" "dll h' (length h # xs)"
    "same_data (h @ [nd]) h'"
proof (cases xs)
  case Nil
  then show thesis using assms(2,3) by (intro that [of "h @ [nd]"]) (simp_all add: insertBefore_def dll_def)
next
  case (Cons x ys)
  let ?n = "length h" and ?g = "h @ [nd]"
  have b: "y < ?n" if "y \<in> set xs" for y using dll_bound [OF assms(1) that] .
  have x: "x < ?n" "nd_prev (h ! x) = None" using assms(1) Cons by (auto simp: dll_def)
  let ?h1 = "?g[x := (?g ! x)\<lparr>nd_prev := Some ?n\<rparr>]"
  let ?h2 = "?h1[?n := (?h1 ! ?n)\<lparr>nd_next := Some x\<rparr>]"
  have ins: "insertBefore ?n (first xs None) ?g = Some ?h2"
    using x Cons by (simp add: insertBefore_def deref_def set_prev_def set_next_def nth_append)
  have "seg ?g None xs None" using assms(1) b seg_cong [of xs "h @ [nd]"]
  proof -
    have "seg ?g p ys' q = seg h p ys' q" if "set ys' \<subseteq> {..<?n}" for p q ys'
      using that by (induction ys' arbitrary: p) (auto simp: nth_append)
    then show ?thesis using assms(1) b by (auto simp: dll_def)
  qed
  then have s1: "seg ?h1 (Some ?n) xs None"
    using seg_set_prev [of x ys ?g None None "Some ?n"] assms(1) Cons by (simp add: dll_def)
  have s2: "seg ?h2 (Some ?n) xs None" using s1 b by (subst seg_upd_other) auto
  have "?h2 ! ?n = nd\<lparr>nd_next := Some x\<rparr>" using x by (simp add: nth_append)
  then have "dll ?h2 (?n # xs)" using s2 assms(1,3) b Cons by (auto simp: dll_def)
  moreover have "same_data ?g ?h2" using x by (auto simp: same_data_def nth_upd)
  ultimately show thesis using ins that by blast
qed

lemma stored_link:
  assumes "stored h es" and "length h = length es" and "dll h (rev [0..<length es])"
  obtains h' where "linkEntry e (h, first (rev [0..<length es]) None, retAddr es) =
      Some (h', first (rev [0..<length (e # es)]) None, retAddr (e # es))"
    "stored h' (e # es)" "length h' = length (e # es)" "dll h' (rev [0..<length (e # es)])"
proof -
  let ?nd = "\<lparr>nd_value = en_value e, nd_match = (if en_kind e = returnEntry then None else retAddr es (en_id e)),
    nd_id = en_id e, nd_next = None, nd_prev = None\<rparr>"
  obtain h' where h': "insertBefore (length h) (first (rev [0..<length es]) None) (h @ [?nd]) = Some h'"
    "dll h' (length h # rev [0..<length es])" "same_data (h @ [?nd]) h'" 
    by (rule dll_front [OF assms(3), of ?nd]) simp_all
  have len: "length h' = Suc (length es)" using h'(3) assms(2) by (simp add: same_data_def)
  have d: "nd_value (h' ! a) = nd_value ((h @ [?nd]) ! a) \<and> nd_match (h' ! a) = nd_match ((h @ [?nd]) ! a) \<and>
      nd_id (h' ! a) = nd_id ((h @ [?nd]) ! a)" if "a < Suc (length es)" for a
    using h'(3) assms(2) that by (simp add: same_data_def)
  have "stored h' es = stored h es" using d assms(2) by (intro stored_cong) (simp add: nth_append)
  then have "stored h' (e # es)" using d [of "length es"] assms(1,2) by (simp add: nth_append)
  moreover have "retAddr (e # es) =
      (if en_kind e = returnEntry then (retAddr es)(en_id e \<mapsto> length es) else retAddr es)" by auto
  then have "linkEntry e (h, first (rev [0..<length es]) None, retAddr es) =
      Some (h', first (rev [0..<length (e # es)]) None, retAddr (e # es))"
    using h'(1) assms(2) by (cases "en_kind e = returnEntry") (simp_all add: linkEntry_def Let_def del: retAddr.simps)
  ultimately show thesis using h'(2) len assms(2) that by (simp del: retAddr.simps)
qed

lemma makeLinked_loop:
  obtains h where "for_loop (rev es) linkEntry ([], None, Map.empty) =
      Some (h, first (rev [0..<length es]) None, retAddr es)"
    "stored h es" "length h = length es" "dll h (rev [0..<length es])"
proof (induction es arbitrary: thesis)
  case Nil
  have "retAddr [] = Map.empty" by auto
  then show ?case by (intro Nil [of "[]"]) (simp_all add: dll_def)
next
  case (Cons e es)
  obtain h where h: "for_loop (rev es) linkEntry ([], None, Map.empty) =
      Some (h, first (rev [0..<length es]) None, retAddr es)"
    "stored h es" "length h = length es" "dll h (rev [0..<length es])" using Cons.IH .
  obtain h' where "linkEntry e (h, first (rev [0..<length es]) None, retAddr es) =
      Some (h', first (rev [0..<length (e # es)]) None, retAddr (e # es))"
    "stored h' (e # es)" "length h' = length (e # es)" "dll h' (rev [0..<length (e # es)])"
    using stored_link [OF h(2-4)] .
  then show ?case using h(1) by (intro Cons.prems [of h']) (simp_all add: for_loop_append del: retAddr.simps)
qed

lemma listLength_seg: "seg h p xs None \<Longrightarrow> listLength h (first xs None) l = Some (l + length xs)"
proof (induction xs arbitrary: p l)
  case Nil
  then show ?case by (simp add: listLength.simps)
next
  case (Cons x xs)
  from Cons.prems have "listLength h (first xs None) (Suc l) = Some (Suc l + length xs)" by (intro Cons.IH) auto
  with Cons.prems show ?case by (subst listLength.simps) (simp add: deref_eq)
qed


subsection \<open>The list is a search space\<close>

definition linked :: "'v entry list \<Rightarrow> 'v heap \<Rightarrow> bool" where
  "linked es h \<longleftrightarrow> stored h es \<and> dll h (length es # rev [0..<length es])"

abbreviation addresses :: "'v entry list \<Rightarrow> nat list" where
  "addresses es \<equiv> rev [0..<length es]"

lemma stored_nth:
  assumes "stored h es" and "p < length es"
  shows "nd_value (h ! (length es - 1 - p)) = en_value (es ! p) \<and> nd_id (h ! (length es - 1 - p)) = en_id (es ! p) \<and>
    nd_match (h ! (length es - 1 - p)) =
      (if en_kind (es ! p) = returnEntry then None else retAddr (drop (Suc p) es) (en_id (es ! p)))"
  using assms
proof (induction es arbitrary: p)
  case (Cons e es)
  then show ?case by (cases p) simp_all
qed simp

lemma retAddr_Some:
  "retAddr es k = Some a \<Longrightarrow> \<exists>q<length es. a = length es - 1 - q \<and> en_kind (es ! q) = returnEntry \<and> en_id (es ! q) = k"
proof (induction es)
  case (Cons e es)
  show ?case
  proof (cases "en_kind e = returnEntry \<and> en_id e = k")
    case True
    then show ?thesis using Cons.prems by (intro exI [of _ 0]) simp
  next
    case False
    then obtain q where "q < length es" "a = length es - 1 - q" "en_kind (es ! q) = returnEntry" "en_id (es ! q) = k"
      using Cons by auto
    then show ?thesis by (intro exI [of _ "Suc q"]) simp
  qed
qed simp

lemma retAddr_None: "retAddr es k = None \<longleftrightarrow> (\<forall>e\<in>set es. en_kind e = returnEntry \<longrightarrow> en_id e \<noteq> k)"
  by (induction es) auto

lemma wf_unique:
  assumes "wf_entries es" and "p < length es" and "q < length es"
    and "en_kind (es ! p) = en_kind (es ! q)" and "en_id (es ! p) = en_id (es ! q)"
  shows "p = q"
proof -
  let ?f = "map (\<lambda>e. (en_kind e, en_id e)) es"
  have "distinct ?f" using assms(1) by (simp add: wf_entries_def)
  then have "?f ! p = ?f ! q \<longleftrightarrow> p = q" using assms(2,3) by (intro nth_eq_iff_index_eq) simp_all
  then show ?thesis using assms(2-5) by simp
qed

text \<open>Everything the search needs to know about the entry at a position.\<close>

lemma linked_at:
  assumes "linked es h" and "wf_entries es" and "p < length es"
  shows "nd_value (h ! (length es - 1 - p)) = en_value (es ! p)" and "nd_id (h ! (length es - 1 - p)) = en_id (es ! p)"
    and "is_call h (length es - 1 - p) \<longleftrightarrow> en_kind (es ! p) = callEntry"
    and "nd_match (h ! (length es - 1 - p)) = Some r \<longleftrightarrow> en_kind (es ! p) = callEntry \<and>
      (\<exists>q<length es. p < q \<and> r = length es - 1 - q \<and> en_kind (es ! q) = returnEntry \<and> en_id (es ! q) = en_id (es ! p))"
proof -
  have st: "stored h es" using assms(1) by (simp add: linked_def)
  note s = stored_nth [OF st assms(3)]
  from s show "nd_value (h ! (length es - 1 - p)) = en_value (es ! p)" "nd_id (h ! (length es - 1 - p)) = en_id (es ! p)"
    by simp_all
  have iff: "nd_match (h ! (length es - 1 - p)) = Some r \<longleftrightarrow> en_kind (es ! p) = callEntry \<and>
      (\<exists>q<length es. p < q \<and> r = length es - 1 - q \<and> en_kind (es ! q) = returnEntry \<and> en_id (es ! q) = en_id (es ! p))"
    for r
  proof
    assume "nd_match (h ! (length es - 1 - p)) = Some r"
    with s have k: "en_kind (es ! p) = callEntry" "retAddr (drop (Suc p) es) (en_id (es ! p)) = Some r"
      by (cases "en_kind (es ! p)"; simp)+
    from retAddr_Some [OF k(2)] obtain q where q: "q < length es - Suc p" "r = length es - Suc p - 1 - q"
      "en_kind (es ! (Suc p + q)) = returnEntry" "en_id (es ! (Suc p + q)) = en_id (es ! p)" using assms(3) by auto
    then show "en_kind (es ! p) = callEntry \<and>
      (\<exists>q<length es. p < q \<and> r = length es - 1 - q \<and> en_kind (es ! q) = returnEntry \<and> en_id (es ! q) = en_id (es ! p))"
      using k(1) by (intro conjI exI [of _ "Suc p + q"]) auto
  next
    assume "en_kind (es ! p) = callEntry \<and>
      (\<exists>q<length es. p < q \<and> r = length es - 1 - q \<and> en_kind (es ! q) = returnEntry \<and> en_id (es ! q) = en_id (es ! p))"
    then obtain q where k: "en_kind (es ! p) = callEntry" and q: "q < length es" "p < q" "r = length es - 1 - q"
      "en_kind (es ! q) = returnEntry" "en_id (es ! q) = en_id (es ! p)" by blast
    have "es ! q \<in> set (drop (Suc p) es)"
      using q(1,2) by (auto simp: set_conv_nth intro!: exI [of _ "q - Suc p"])
    then have "retAddr (drop (Suc p) es) (en_id (es ! p)) \<noteq> None" using q(4,5) by (auto simp: retAddr_None)
    then obtain r' where r': "retAddr (drop (Suc p) es) (en_id (es ! p)) = Some r'" by auto
    from retAddr_Some [OF r'] obtain q' where q': "q' < length es - Suc p" "r' = length es - Suc p - 1 - q'"
      "en_kind (es ! (Suc p + q')) = returnEntry" "en_id (es ! (Suc p + q')) = en_id (es ! p)" using assms(3) by auto
    then have "Suc p + q' = q" using wf_unique [OF assms(2), of "Suc p + q'" q] q by simp
    then have "r' = r" using q' q by simp
    then show "nd_match (h ! (length es - 1 - p)) = Some r" using s k r' by simp
  qed
  then show "nd_match (h ! (length es - 1 - p)) = Some r \<longleftrightarrow> en_kind (es ! p) = callEntry \<and>
      (\<exists>q<length es. p < q \<and> r = length es - 1 - q \<and> en_kind (es ! q) = returnEntry \<and> en_id (es ! q) = en_id (es ! p))" .
  show "is_call h (length es - 1 - p) \<longleftrightarrow> en_kind (es ! p) = callEntry"
  proof
    assume "is_call h (length es - 1 - p)"
    then show "en_kind (es ! p) = callEntry" using iff by (auto simp: is_call_def)
  next
    assume "en_kind (es ! p) = callEntry"
    with assms(2,3) obtain q where "q < length es" "p < q" "en_kind (es ! q) = returnEntry" "en_id (es ! q) = en_id (es ! p)"
      by (auto simp: wf_entries_def)
    then have "nd_match (h ! (length es - 1 - p)) = Some (length es - 1 - q)"
      using iff [of "length es - 1 - q"] \<open>en_kind (es ! p) = callEntry\<close> by blast
    then show "is_call h (length es - 1 - p)" by (simp add: is_call_def)
  qed
qed

end
