(* ===== verification/Porcupine_Props.thy ===== *)
theory Porcupine_Props
  imports Porcupine_Linked
begin

section \<open>The checker decides linearizability\<close>

text \<open>
  The list built from a well-formed history is a search space, and the sequences of calls that complete
  it are the linearizations of the history.  With the theorem about the loop this gives the correctness
  of \<^const>\<open>checkSingle\<close>, and of \<^const>\<open>checkOperations\<close> and \<^const>\<open>checkEvents\<close> above it.
\<close>

subsection \<open>The search space\<close>

lemma addresses_split:
  assumes "r < a" and "a < N"
  shows "\<exists>as mid bs. rev [0..<N] = as @ a # mid @ r # bs"
proof -
  have "[0..<N] = [0..<r] @ [r..<a] @ [a..<N]"
    using assms upt_add_eq_append [of 0 r "N - r"] upt_add_eq_append [of r a "N - a"] by simp
  then have "[0..<N] = [0..<r] @ r # [Suc r..<a] @ a # [Suc a..<N]" using assms by (simp add: upt_conv_Cons)
  then show ?thesis by (intro exI) simp
qed

lemma at_position:
  assumes "a \<in> set (addresses es)"
  obtains p where "p < length es" "a = length es - 1 - p"
  using assms that [of "length es - 1 - a"] by auto

lemma linked_space:
  assumes "linked es h" and "wf_entries es"
  shows "space h (length es) (addresses es) (length es div 2)"
  unfolding space_def
proof (intro conjI ballI allI impI)
  let ?N = "length es"
  note at = linked_at [OF assms]
  show "dll h (?N # addresses es)" using assms(1) by (simp add: linked_def)
  fix a assume "a \<in> set (addresses es)"
  then obtain p where p: "p < ?N" "a = ?N - 1 - p" by (rule at_position)
  have "0 \<le> en_id (es ! p) \<and> en_id (es ! p) < int (?N div 2)" using assms(2) p(1) by (simp add: wf_entries_def)
  then show "0 \<le> nd_id (h ! a)" "nid h a < ?N div 2" using at(2) [OF p(1)] by (simp_all add: p(2) nid_def nat_less_iff)
  fix r assume "nd_match (h ! a) = Some r"
  then obtain q where q: "q < ?N" "p < q" "r = ?N - 1 - q" "en_kind (es ! q) = returnEntry"
    "en_id (es ! q) = en_id (es ! p)" using at(4) [OF p(1), of r] unfolding p(2) by blast
  show "\<exists>as mid bs. addresses es = as @ a # mid @ r # bs"
    by (rule addresses_split) (use p q in auto)
  show "nd_match (h ! r) = None" using at(3) [OF q(1)] q by (simp add: is_call_def)
  show "nid h r = nid h a" using at(2) [OF p(1)] at(2) [OF q(1)] p q by (simp add: nid_def)
next
  fix r assume "r \<in> set (addresses es)" and m: "nd_match (h ! r) = None"
  then obtain q where q: "q < length es" "r = length es - 1 - q" by (meson at_position)
  note at = linked_at [OF assms]
  have "en_kind (es ! q) = returnEntry" using at(3) [OF q(1)] m q(2) by (cases "en_kind (es ! q)") (simp_all add: is_call_def)
  with assms(2) q(1) obtain p where p: "p < q" "en_kind (es ! p) = callEntry" "en_id (es ! p) = en_id (es ! q)"
    by (auto simp: wf_entries_def)
  then have "nd_match (h ! (length es - 1 - p)) = Some r" using at(4) [of p r] q \<open>en_kind (es ! q) = returnEntry\<close> by auto
  then show "\<exists>a\<in>set (addresses es). nd_match (h ! a) = Some r" using p q by (intro bexI [of _ "length es - 1 - p"]) auto
next
  fix a b assume "a \<in> set (addresses es)" "b \<in> set (addresses es)"
  then obtain p q where p: "p < length es" "a = length es - 1 - p" and q: "q < length es" "b = length es - 1 - q"
    by (meson at_position)
  assume c: "is_call h a" "is_call h b" "nid h a = nid h b"
  note at = linked_at [OF assms]
  have "0 \<le> en_id (es ! p)" "0 \<le> en_id (es ! q)" using assms(2) p(1) q(1) by (simp_all add: wf_entries_def)
  then have "en_id (es ! p) = en_id (es ! q)" using c(3) at(2) [OF p(1)] at(2) [OF q(1)] p(2) q(2) by (simp add: nid_def)
  moreover have "en_kind (es ! p) = en_kind (es ! q)" using c at(3) [OF p(1)] at(3) [OF q(1)] p(2) q(2) by simp
  ultimately show "a = b" using wf_unique [OF assms(2) p(1) q(1)] p q by simp
qed

text \<open>The step of a call, in terms of the history.\<close>

lemma entryOf_at:
  assumes "wf_entries es" and "p < length es" and "en_id (es ! p) = int i"
  shows "entryOf (en_kind (es ! p)) es i = Some (es ! p)"
proof -
  have "List.find (\<lambda>e. en_kind e = en_kind (es ! p) \<and> en_id e = int i) es = Some (es ! p)"
    unfolding find_Some_iff
  proof (intro exI [of _ p] conjI allI impI)
    fix j assume "j < p"
    then show "\<not> (en_kind (es ! j) = en_kind (es ! p) \<and> en_id (es ! j) = int i)"
      using wf_unique [OF assms(1), of j p] assms(2,3) by auto
  qed (use assms in simp_all)
  then show ?thesis by (simp add: entryOf_def)
qed

lemma call_entries:
  assumes "linked es h" and "wf_entries es" and "a \<in> set (addresses es)" and "is_call h a"
  obtains c r where "entryOf callEntry es (nid h a) = Some c" "entryOf returnEntry es (nid h a) = Some r"
    "c \<in> set es" "r \<in> set es" "en_kind c = callEntry" "en_kind r = returnEntry" "en_id r = en_id c"
    "nd_value (h ! a) = en_value c" "nd_value (h ! the (nd_match (h ! a))) = en_value r"
proof -
  obtain p where p: "p < length es" "a = length es - 1 - p" using at_position [OF assms(3)] .
  note at = linked_at [OF assms(1,2)]
  obtain x where x: "nd_match (h ! a) = Some x" using assms(4) by (auto simp: is_call_def)
  then obtain q where k: "en_kind (es ! p) = callEntry" and q: "q < length es" "x = length es - 1 - q"
    "en_kind (es ! q) = returnEntry" "en_id (es ! q) = en_id (es ! p)" using at(4) [OF p(1), of x] unfolding p(2) by blast
  have "0 \<le> en_id (es ! p)" using assms(2) p(1) by (simp add: wf_entries_def)
  then have i: "en_id (es ! p) = int (nid h a)" "en_id (es ! q) = int (nid h a)"
    using at(2) [OF p(1)] p(2) q(4) by (simp_all add: nid_def)
  show thesis
    using that [of "es ! p" "es ! q"] entryOf_at [OF assms(2) p(1) i(1)] entryOf_at [OF assms(2) q(1) i(2)]
      at(1) [OF p(1)] at(1) [OF q(1)] p q k x by simp
qed

lemma trans_of_stepTo: "trans_of m h s a = stepTo m s (nd_value (h ! a)) (nd_value (h ! the (nd_match (h ! a))))"
  by (simp add: trans_of_def stepTo_def)

lemma model_fits_ok:
  assumes "linked es h" and "wf_entries es" and "model_fits m es"
  shows "model_ok m h (addresses es)"
proof -
  have eq: "equivp (modelEqual m)" using assms(3) by (simp add: model_fits_def)
  have "Step m s (nd_value (h ! a)) (nd_value (h ! the (nd_match (h ! a)))) \<noteq> None \<and>
      (modelEqual m s t \<longrightarrow> rel_option (modelEqual m) (trans_of m h s a) (trans_of m h t a))"
    if call: "a \<in> set (addresses es)" "is_call h a" for a s t
  proof -
    obtain c r where "entryOf callEntry es (nid h a) = Some c" "entryOf returnEntry es (nid h a) = Some r"
      "c \<in> set es" "r \<in> set es" "en_kind c = callEntry" "en_kind r = returnEntry" "en_id r = en_id c"
      "nd_value (h ! a) = en_value c" "nd_value (h ! the (nd_match (h ! a))) = en_value r"
      using call_entries [OF assms(1,2) call] .
    with assms(3) show ?thesis by (simp add: trans_of_stepTo model_fits_def)
  qed
  with eq show ?thesis unfolding model_ok_def by blast
qed

lemma legal_runs:
  assumes "linked es h" and "wf_entries es" and "\<forall>a\<in>set as. a \<in> set (addresses es) \<and> is_call h a"
  shows "legal m es s (map (nid h) as) \<longleftrightarrow> runs m h s as \<noteq> None"
  using assms(3)
proof (induction as arbitrary: s)
  case (Cons a as)
  then have a: "a \<in> set (addresses es)" "is_call h a" by auto
  obtain c r where "entryOf callEntry es (nid h a) = Some c" "entryOf returnEntry es (nid h a) = Some r"
    "nd_value (h ! a) = en_value c" "nd_value (h ! the (nd_match (h ! a))) = en_value r"
    using call_entries [OF assms(1,2) a] .
  with Cons show ?case by (cases "stepTo m s (en_value c) (en_value r)") (auto simp: trans_of_stepTo)
qed simp


subsection \<open>Completing sequences are linearizations\<close>

lemma takeWhile_desc:
  "sorted_wrt (>) ys \<Longrightarrow> a \<in> set (takeWhile P ys) \<longleftrightarrow> a \<in> set ys \<and> P a \<and> (\<forall>b\<in>set ys. a < b \<longrightarrow> P (b :: nat))"
proof (induction ys)
  case (Cons y ys)
  then show ?case by (cases "P y") (auto dest: less_asym)
qed simp

lemma addresses_desc: "sorted_wrt (>) (rest h (addresses es) L)"
  by (simp add: rest_def sorted_wrt_filter sorted_wrt_rev)

lemma candidate_iff:
  "a \<in> set (takeWhile (is_call h) (rest h (addresses es) L)) \<longleftrightarrow> a < length es \<and> nid h a \<notin> L \<and> is_call h a \<and>
     (\<forall>b<length es. nid h b \<notin> L \<longrightarrow> a < b \<longrightarrow> is_call h b)"
  unfolding takeWhile_desc [OF addresses_desc] by (auto simp: rest_def)

text \<open>The address of the return of \<open>b\<close> lies in front of \<open>a\<close>.\<close>

definition returned_before :: "'v entry list \<Rightarrow> 'v heap \<Rightarrow> nat \<Rightarrow> nat \<Rightarrow> bool" where
  "returned_before es h b a \<longleftrightarrow> (\<exists>r<length es. nid h r = nid h b \<and> \<not> is_call h r \<and> a < r)"

definition ordering :: "('v, 's) Model \<Rightarrow> 'v entry list \<Rightarrow> 'v heap \<Rightarrow> nat set \<Rightarrow> 's \<Rightarrow> nat list \<Rightarrow> bool" where
  "ordering m es h L s as \<longleftrightarrow> (\<forall>a\<in>set as. a < length es \<and> is_call h a \<and> nid h a \<notin> L) \<and> distinct (map (nid h) as) \<and>
     (\<forall>b<length es. nid h b \<in> L \<union> nid h ` set as) \<and> sorted_wrt (\<lambda>a b. \<not> returned_before es h b a) as \<and>
     runs m h s as \<noteq> None"

lemma own_return_behind:
  assumes "linked es h" and "wf_entries es" and "a < length es" and "is_call h a" and "b < length es"
    and "\<not> is_call h b" and "nid h b = nid h a"
  shows "b < a"
proof -
  let ?N = "length es"
  note at = linked_at [OF assms(1,2)]
  have p: "?N - 1 - a < ?N" "?N - 1 - b < ?N" "?N - 1 - (?N - 1 - a) = a" "?N - 1 - (?N - 1 - b) = b"
    using assms(3,5) by simp_all
  have "nd_match (h ! b) = None" using assms(6) by (simp add: is_call_def)
  note D = spaceD [OF linked_space [OF assms(1,2)]]
  have b: "b \<in> set (addresses es)" and a: "a \<in> set (addresses es)" using assms(3,5) by simp_all
  obtain c where c: "c \<in> set (addresses es)" "nd_match (h ! c) = Some b"
    using D(7) [OF b \<open>nd_match (h ! b) = None\<close>] by blast
  then have "nid h a = nid h c" using D(6) [OF c] assms(7) by simp
  then have "c = a" using D(8) [OF c(1) a] c(2) assms(4) by (simp add: is_call_def)
  then obtain as mid bs where "addresses es = as @ a # mid @ b # bs" using D(4) [OF c] by blast
  moreover have "sorted_wrt (>) (addresses es)" by (simp add: sorted_wrt_rev)
  ultimately show ?thesis by (auto simp: sorted_wrt_append)
qed

lemma completes_ordering:
  assumes "linked es h" and "wf_entries es"
  shows "completes m h (addresses es) L s as \<longleftrightarrow> ordering m es h L s as"
proof (induction as arbitrary: L s)
  case Nil
  then show ?case by (auto simp: ordering_def rest_def filter_empty_conv)
next
  case (Cons a as)
  show ?case
  proof
    assume "completes m h (addresses es) L s (a # as)"
    then obtain s' where c: "a < length es" "nid h a \<notin> L" "is_call h a"
      "\<And>b. b < length es \<Longrightarrow> nid h b \<notin> L \<Longrightarrow> a < b \<Longrightarrow> is_call h b" and t: "trans_of m h s a = Some s'"
      and o: "ordering m es h (insert (nid h a) L) s' as"
      unfolding completes.simps candidate_iff Cons.IH by (auto split: option.splits)
    have "\<not> returned_before es h b a" if "b \<in> set as" for b
    proof
      assume "returned_before es h b a"
      then obtain r where "r < length es" "nid h r = nid h b" "\<not> is_call h r" "a < r" by (auto simp: returned_before_def)
      then show False using c(4) [of r] o that by (auto simp: ordering_def)
    qed
    then show "ordering m es h L s (a # as)" using c(1-3) t o by (auto simp: ordering_def)
  next
    assume o: "ordering m es h L s (a # as)"
    then obtain s' where t: "trans_of m h s a = Some s'" "runs m h s' as \<noteq> None"
      by (cases "trans_of m h s a") (auto simp: ordering_def)
    have c: "a < length es" "nid h a \<notin> L" "is_call h a" using o by (auto simp: ordering_def)
    have "is_call h b" if b: "b < length es" "nid h b \<notin> L" "a < b" for b
    proof (rule ccontr)
      assume nb: "\<not> is_call h b"
      have "nid h b \<in> nid h ` set (a # as)" using o b(1,2) by (auto simp: ordering_def)
      then consider "nid h b = nid h a" | d where "d \<in> set as" "nid h b = nid h d" by auto
      then show False
      proof cases
        case 1
        then show False using own_return_behind [OF assms c(1,3) b(1) nb] b(3) by simp
      next
        case 2
        then have "returned_before es h d a" using b nb by (auto simp: returned_before_def)
        then show False using o 2(1) by (auto simp: ordering_def)
      qed
    qed
    moreover have "nid h a \<notin> nid h ` set as" using o by (simp add: ordering_def)
    then have "nid h b \<noteq> nid h a" if "b \<in> set as" for b using that by (metis image_eqI)
    then have "ordering m es h (insert (nid h a) L) s' as" using o t by (auto simp: ordering_def)
    ultimately show "completes m h (addresses es) L s (a # as)"
      unfolding completes.simps candidate_iff Cons.IH using c t by auto
  qed
qed


text \<open>An address and the position it stands for.\<close>

lemma address_entry:
  assumes "linked es h" and "wf_entries es" and "a < length es"
  shows "length es - 1 - a < length es" and "en_id (es ! (length es - 1 - a)) = int (nid h a)"
    and "en_kind (es ! (length es - 1 - a)) = (if is_call h a then callEntry else returnEntry)"
proof -
  let ?p = "length es - 1 - a"
  show p: "?p < length es" using assms(3) by simp
  have a: "length es - 1 - ?p = a" using assms(3) by simp
  have "0 \<le> en_id (es ! ?p)" using assms(2) p by (simp add: wf_entries_def)
  then show "en_id (es ! ?p) = int (nid h a)" using linked_at(2) [OF assms(1,2) p] a by (simp add: nid_def)
  show "en_kind (es ! ?p) = (if is_call h a then callEntry else returnEntry)"
    using linked_at(3) [OF assms(1,2) p] a by (cases "en_kind (es ! ?p)") simp_all
qed

lemma position_address:
  assumes "linked es h" and "wf_entries es" and "p < length es"
  shows "int (nid h (length es - 1 - p)) = en_id (es ! p)"
    and "is_call h (length es - 1 - p) \<longleftrightarrow> en_kind (es ! p) = callEntry"
  using address_entry [OF assms(1,2), of "length es - 1 - p"] assms(3) by auto

lemma returned_before_precedes:
  assumes "linked es h" and "wf_entries es" and "a < length es" and "is_call h a"
  shows "returned_before es h b a \<longleftrightarrow> precedes es (nid h b) (nid h a)"
proof
  let ?N = "length es"
  note A = address_entry [OF assms(1,2)]
  assume "returned_before es h b a"
  then obtain r where r: "r < ?N" "nid h r = nid h b" "\<not> is_call h r" "a < r" by (auto simp: returned_before_def)
  show "precedes es (nid h b) (nid h a)" unfolding precedes_def
    using A [OF assms(3)] A [OF r(1)] r assms(3,4)
    by (intro exI [of _ "?N - 1 - a"] conjI exI [of _ "?N - 1 - r"]) auto
next
  let ?N = "length es"
  note P = position_address [OF assms(1,2)]
  assume "precedes es (nid h b) (nid h a)"
  then obtain p q where q: "q < ?N" "p < q" "en_kind (es ! p) = returnEntry" "en_id (es ! p) = int (nid h b)"
    "en_kind (es ! q) = callEntry" "en_id (es ! q) = int (nid h a)" by (auto simp: precedes_def)
  have "p < ?N" using q(1,2) by simp
  note P [OF q(1)] P [OF this]
  moreover have "?N - 1 - q = a"
    using spaceD(8) [OF linked_space [OF assms(1,2)], of "?N - 1 - q" a] P [OF q(1)] q assms(3,4) by simp
  ultimately show "returned_before es h b a" unfolding returned_before_def
    using q by (intro exI [of _ "?N - 1 - p"]) auto
qed

lemma ids_covered:
  assumes "linked es h" and "wf_entries es"
  shows "nid h ` {..<length es} = {..<length es div 2}"
proof
  let ?N = "length es"
  have sp: "space h ?N (addresses es) (?N div 2)" by (rule linked_space [OF assms])
  show "nid h ` {..<?N} \<subseteq> {..<?N div 2}" using spaceD(3) [OF sp] by auto
  have "inj_on (\<lambda>p. (en_kind (es ! p), en_id (es ! p))) {..<?N}"
    using wf_unique [OF assms(2)] by (auto simp: inj_on_def)
  moreover have "(\<lambda>p. (en_kind (es ! p), en_id (es ! p))) ` {..<?N} \<subseteq> {callEntry, returnEntry} \<times> (en_id ` set es)"
    by (auto intro: entryKind.exhaust)
  moreover have "en_id ` set es \<subseteq> (\<lambda>a. int (nid h a)) ` {..<?N}"
  proof
    fix k assume "k \<in> en_id ` set es"
    then obtain p where "p < ?N" "k = en_id (es ! p)" by (auto simp: in_set_conv_nth)
    then show "k \<in> (\<lambda>a. int (nid h a)) ` {..<?N}"
      using position_address(1) [OF assms, of p] by (intro image_eqI [of _ _ "?N - 1 - p"]) auto
  qed
  ultimately have "card {..<?N} \<le> card ({callEntry, returnEntry} \<times> (en_id ` set es))"
    by (intro card_inj_on_le) auto
  also have "\<dots> = 2 * card (en_id ` set es)" by simp
  finally have "?N div 2 \<le> card (en_id ` set es)" by simp
  also have "\<dots> \<le> card ((\<lambda>a. int (nid h a)) ` {..<?N})"
    using \<open>en_id ` set es \<subseteq> (\<lambda>a. int (nid h a)) ` {..<?N}\<close> by (intro card_mono) auto
  also have "(\<lambda>a. int (nid h a)) ` {..<?N} = int ` nid h ` {..<?N}" by auto
  also have "card \<dots> = card (nid h ` {..<?N})" by (rule card_image) simp
  finally show "{..<?N div 2} \<subseteq> nid h ` {..<?N}"
    using card_seteq [OF _ \<open>nid h ` {..<?N} \<subseteq> {..<?N div 2}\<close>] by simp
qed


lemma ordering_linearization:
  assumes "linked es h" and "wf_entries es" and "\<forall>a\<in>set as. a < length es \<and> is_call h a"
  shows "ordering m es h {} (Init m) as \<longleftrightarrow> linearization m es (map (nid h) as)"
proof -
  let ?N = "length es"
  have "(\<forall>b<?N. nid h b \<in> nid h ` set as) \<longleftrightarrow> nid h ` {..<?N} \<subseteq> nid h ` set as" by auto
  moreover have "nid h ` set as \<subseteq> nid h ` {..<?N}" using assms(3) by auto
  ultimately have "(\<forall>b<?N. nid h b \<in> nid h ` set as) \<longleftrightarrow> set (map (nid h) as) = {..<?N div 2}"
    unfolding ids_covered [OF assms(1,2)] by auto
  moreover have "sorted_wrt (\<lambda>a b. \<not> returned_before es h b a) as \<longleftrightarrow>
      sorted_wrt (\<lambda>i j. \<not> precedes es j i) (map (nid h) as)"
    unfolding sorted_wrt_map using returned_before_precedes [OF assms(1,2)] assms(3)
    by (intro sorted_wrt_eqI) simp
  moreover have "legal m es (Init m) (map (nid h) as) \<longleftrightarrow> runs m h (Init m) as \<noteq> None"
    using assms(3) by (intro legal_runs [OF assms(1,2)]) simp
  ultimately show ?thesis using assms(3) by (simp add: ordering_def linearization_def)
qed

lemma linearization_calls:
  assumes "linked es h" and "wf_entries es" and "linearization m es order"
  obtains as where "order = map (nid h) as" "\<forall>a\<in>set as. a < length es \<and> is_call h a"
proof -
  have "\<exists>a. a < length es \<and> is_call h a \<and> nid h a = i" if "i \<in> set order" for i
  proof -
    have "i \<in> nid h ` {..<length es}" using that assms(3) by (simp add: linearization_def ids_covered [OF assms(1,2)])
    then obtain b where b: "b < length es" "nid h b = i" by auto
    note D = spaceD [OF linked_space [OF assms(1,2)]]
    show ?thesis
    proof (cases "is_call h b")
      case False
      then obtain c where c: "c \<in> set (addresses es)" "nd_match (h ! c) = Some b" using D(7) [of b] b(1) by (auto simp: is_call_def)
      then show ?thesis using D(6) [OF c] b(2) by (intro exI [of _ c]) (auto simp: is_call_def)
    qed (use b in blast)
  qed
  then obtain f where "\<forall>i\<in>set order. f i < length es \<and> is_call h (f i) \<and> nid h (f i) = i" by metis
  then show thesis by (intro that [of "map f order"]) (simp_all add: map_idI)
qed

lemma completes_linearization:
  assumes "linked es h" and "wf_entries es"
  shows "completes m h (addresses es) {} (Init m) as \<longleftrightarrow>
      (\<forall>a\<in>set as. a < length es \<and> is_call h a) \<and> linearization m es (map (nid h) as)"
  unfolding completes_ordering [OF assms]
  using ordering_linearization [OF assms, of as m] by (auto simp: ordering_def)

lemma dead_linearization:
  assumes "linked es h" and "wf_entries es"
  shows "dead m h (addresses es) {} (Init m) \<longleftrightarrow> (\<nexists>order. linearization m es order)"
  unfolding dead_def completes_linearization [OF assms] using linearization_calls [OF assms] by metis

text \<open>What a sequence of calls has achieved that the search has begun with.\<close>

lemma starts_ordered:
  assumes "starts m h (addresses es) L s as"
  shows "(\<forall>a\<in>set as. a < length es \<and> is_call h a \<and> nid h a \<notin> L) \<and> distinct (map (nid h) as) \<and>
    sorted_wrt (\<lambda>a b. \<not> returned_before es h b a) as \<and> runs m h s as \<noteq> None"
  using assms
proof (induction as arbitrary: L s)
  case (Cons a as)
  then obtain s' where c: "a < length es" "nid h a \<notin> L" "is_call h a"
    "\<And>b. b < length es \<Longrightarrow> nid h b \<notin> L \<Longrightarrow> a < b \<Longrightarrow> is_call h b" and t: "trans_of m h s a = Some s'"
    and o: "starts m h (addresses es) (insert (nid h a) L) s' as"
    unfolding starts.simps candidate_iff by (auto split: option.splits)
  note I = Cons.IH [OF o]
  have "\<not> returned_before es h b a" if "b \<in> set as" for b
  proof
    assume "returned_before es h b a"
    then obtain r where "r < length es" "nid h r = nid h b" "\<not> is_call h r" "a < r" by (auto simp: returned_before_def)
    then show False using c(4) [of r] I that by auto
  qed
  then show ?case using c(1-3) t I by auto
qed simp

lemma starts_partial:
  assumes "linked es h" and "wf_entries es" and "starts m h (addresses es) {} (Init m) as"
  shows "partial_linearization m es (map (nid h) as)"
proof -
  note S = starts_ordered [OF assms(3)]
  have "nid h ` set as \<subseteq> nid h ` {..<length es}" using S by auto
  then have "set (map (nid h) as) \<subseteq> {..<length es div 2}" unfolding ids_covered [OF assms(1,2)] by simp
  moreover have "sorted_wrt (\<lambda>a b. \<not> returned_before es h b a) as \<longleftrightarrow>
      sorted_wrt (\<lambda>i j. \<not> precedes es j i) (map (nid h) as)"
    unfolding sorted_wrt_map using returned_before_precedes [OF assms(1,2)] S by (intro sorted_wrt_eqI) simp
  moreover have "legal m es (Init m) (map (nid h) as) \<longleftrightarrow> runs m h (Init m) as \<noteq> None"
    using S by (intro legal_runs [OF assms(1,2)]) simp
  ultimately show ?thesis using S by (simp add: partial_linearization_def)
qed

subsection \<open>The checker\<close>

lemma checkSingle_start:
  assumes "wf_entries es"
  obtains h where "linked es h" "length h = Suc (length es)"
    "checkSingle kill m es cp = checkLoop kill m cp (length es) 0
       \<lparr>s_heap = h, s_entry = first (addresses es) None, s_linearized = newBitset (length es div 2),
        s_cache = Map.empty, s_calls = [], s_longest = replicate (length es div 2) None, s_state = Init m\<rparr>"
proof -
  obtain h where h: "for_loop (rev es) linkEntry ([], None, Map.empty) = Some (h, first (addresses es) None, retAddr es)"
    "stored h es" "length h = length es" "dll h (addresses es)" using makeLinked_loop .
  have len: "listLength h (first (addresses es) None) 0 = Some (length es)"
    using listLength_seg [of h None "addresses es" 0] h(4) by (simp add: dll_def)
  let ?nd = "\<lparr>nd_value = None, nd_match = None, nd_id = -1, nd_next = None, nd_prev = None\<rparr>"
  obtain h' where h': "insertBefore (length h) (first (addresses es) None) (h @ [?nd]) = Some h'"
    "dll h' (length h # addresses es)" "same_data (h @ [?nd]) h'" by (rule dll_front [OF h(4), of ?nd]) simp_all
  have "stored h' es"
  proof -
    have "nd_value (h' ! a) = nd_value (h ! a) \<and> nd_match (h' ! a) = nd_match (h ! a) \<and> nd_id (h' ! a) = nd_id (h ! a)"
      if "a < length es" for a using h'(3) that h(3) by (simp add: same_data_def nth_append)
    from stored_cong [of es h' h, OF this] show ?thesis using h(2) by simp
  qed
  then have "linked es h'" using h'(2) h(3) by (simp add: linked_def)
  moreover have "length h' = Suc (length es)" using h'(3) h(3) by (simp add: same_data_def)
  ultimately show thesis using h(1,3) len h'(1) by (intro that [of h']) (simp_all add: checkSingle_def makeLinkedEntries_def Let_def)
qed

lemma checkSingle_result:
  assumes "wf_entries es" and "model_fits m es"
  shows "\<exists>ok l. checkSingle kill m es cp = Some (ok, l) \<and> length l = length es div 2 \<and>
    (\<forall>seq. Some seq \<in> set l \<longrightarrow> (\<exists>order. seq = map int order \<and> partial_linearization m es order)) \<and>
    (ok \<longrightarrow> (\<exists>order. linearization m es order \<and> l = replicate (length es div 2) (Some (map int order)))) \<and>
    (\<not> ok \<longrightarrow> (\<nexists>order. linearization m es order) \<or> (\<exists>k. kill k))"
proof -
  obtain h where h: "linked es h" and eq: "checkSingle kill m es cp = checkLoop kill m cp (length es) 0
       \<lparr>s_heap = h, s_entry = first (addresses es) None, s_linearized = newBitset (length es div 2),
        s_cache = Map.empty, s_calls = [], s_longest = replicate (length es div 2) None, s_state = Init m\<rparr>"
    (is "_ = checkLoop kill m cp (length es) 0 ?S")
    using checkSingle_start [OF assms(1)] .
  have "search_inv m h (addresses es) (length es div 2) ?S"
  proof (cases "addresses es")
    case Nil
    then show ?thesis by (simp add: search_inv_def bottom cache_ok_def rest_def longest_ok_def)
  next
    case (Cons a as)
    then have "at_entry m h (addresses es) ?S [] a as" by (simp add: at_entry_def rest_def tried_def)
    then have "\<exists>before a after. at_entry m h (addresses es) ?S before a after" by blast
    then show ?thesis by (simp add: search_inv_def bottom cache_ok_def longest_ok_def)
  qed
  from checkLoop_correct [OF linked_space [OF h assms(1)] model_fits_ok [OF h assms] this, of kill cp 0]
  obtain ok l where r: "checkSingle kill m es cp = Some (ok, l)" "length l = length es div 2"
    "longest_ok m h (addresses es) l"
    "ok \<longrightarrow> (\<exists>as. completes m h (addresses es) {} (Init m) as \<and>
       l = replicate (length es div 2) (Some (map (\<lambda>a. int (nid h a)) as)))"
    "\<not> ok \<longrightarrow> dead m h (addresses es) {} (Init m) \<or> (\<exists>k. kill k)"
    unfolding eq by blast
  have "\<exists>order. linearization m es order \<and> l = replicate (length es div 2) (Some (map int order))" if ok: ok
  proof -
    obtain as where "completes m h (addresses es) {} (Init m) as"
      "l = replicate (length es div 2) (Some (map (\<lambda>a. int (nid h a)) as))" using r(4) ok by blast
    then show ?thesis
      by (intro exI [of _ "map (nid h) as"]) (simp add: completes_linearization [OF h assms(1)] comp_def)
  qed
  moreover have "\<exists>order. seq = map int order \<and> partial_linearization m es order" if "Some seq \<in> set l" for seq
  proof -
    obtain as where "seq = map (\<lambda>a. int (nid h a)) as" "starts m h (addresses es) {} (Init m) as"
      using r(3) \<open>Some seq \<in> set l\<close> by (auto simp: longest_ok_def)
    then show ?thesis using starts_partial [OF h assms(1)] by (intro exI [of _ "map (nid h) as"]) simp
  qed
  ultimately show ?thesis using r(1,2,5) unfolding dead_linearization [OF h assms(1)] by blast
qed


text \<open>A register, and a read that overlaps the write whose value it returns.\<close>

definition register :: "(nat, nat) Model" where
  "register = \<lparr>Partition = None, PartitionEvent = None, Init = 0,
     Step = (\<lambda>s i r. Some (case i of None \<Rightarrow> (r = Some s, s) | Some v \<Rightarrow> (True, v))), Equal = None\<rparr>"

definition overlapping :: "nat entry list" where
  "overlapping =
     [\<lparr>en_kind = callEntry, en_value = None, en_id = 0, en_time = 0, en_clientId = 0\<rparr>,
      \<lparr>en_kind = callEntry, en_value = Some 7, en_id = 1, en_time = 1, en_clientId = 1\<rparr>,
      \<lparr>en_kind = returnEntry, en_value = Some 7, en_id = 0, en_time = 2, en_clientId = 0\<rparr>,
      \<lparr>en_kind = returnEntry, en_value = None, en_id = 1, en_time = 3, en_clientId = 1\<rparr>]"

lemma register_fits: "model_fits register es"
  by (simp add: model_fits_def modelEqual_def register_def ShallowEqual_def [abs_def] stepTo_def identity_equivp
      option.rel_eq split: option.split)

text \<open>C36: the search decides linearizability.  On a history in which every operation has one call and, behind it,
  one return, and with a model that does not panic on it and whose equality is an equivalence that the
  steps respect, \<^verbatim>\<open>checkSingle\<close> returns; when the flag stays unset it returns true exactly when there is a
  linearization: an order of all operations that puts an operation in front of those called after its
  return and that the model accepts.  If it returns true, whether or not the flag is ever set, every
  element of \<^verbatim>\<open>longest\<close> is such an order.\<close>

theorem checkSingle_correct:
  assumes "wf_entries es" and "model_fits m es"
  shows "\<exists>ok l. checkSingle kill m es cp = Some (ok, l) \<and>
    ((\<forall>k. \<not> kill k) \<longrightarrow> ok = (\<exists>order. linearization m es order)) \<and>
    (ok \<longrightarrow> (\<exists>order. linearization m es order \<and> l = replicate (length es div 2) (Some (map int order))))"
proof -
  obtain ok l where r: "checkSingle kill m es cp = Some (ok, l)"
    "ok \<longrightarrow> (\<exists>order. linearization m es order \<and> l = replicate (length es div 2) (Some (map int order)))"
    "\<not> ok \<longrightarrow> (\<nexists>order. linearization m es order) \<or> (\<exists>k. kill k)"
    using checkSingle_result [OF assms, of kill cp] by blast
  then show ?thesis by (intro exI [of _ ok] exI [of _ l]) blast
qed

theorem checkSingle_correct_witness:
  "\<exists>l. checkSingle (\<lambda>_. False) register overlapping True = Some (True, l)"
proof -
  have "wf_entries overlapping" by code_simp
  moreover have "linearization register overlapping [1, 0]" by code_simp
  ultimately show ?thesis
    using checkSingle_correct [of overlapping register "\<lambda>_. False" True] register_fits by auto
qed


end
