(* ===== verification/Porcupine_Ops.thy ===== *)
theory Porcupine_Ops
  imports Porcupine_Props Go_Sort
begin

section \<open>Checking histories of operations\<close>

text \<open>
  \<^const>\<open>makeEntries\<close> turns the operations into entries sorted by time, calls in front of returns at the same
  time.  The locale \<open>time_sort\<close> states what \<^verbatim>\<open>sort.Sort\<close> promises; under it the entries are well formed, and
  their linearizations are the linearizations of the operations, stated over the call and return
  times.  The insertion sort that \<^verbatim>\<open>sort.Sort\<close> runs on short slices is an instance.
\<close>

subsection \<open>Linearizations of operations\<close>

fun op_legal :: "('v, 's) Model \<Rightarrow> (nat \<Rightarrow> 'v Operation) \<Rightarrow> 's \<Rightarrow> nat list \<Rightarrow> bool" where
  "op_legal m f s [] = True"
| "op_legal m f s (i # is) = (case stepTo m s (op_Input (f i)) (op_Output (f i)) of
     None \<Rightarrow> False | Some s' \<Rightarrow> op_legal m f s' is)"

definition op_linearization :: "('v, 's) Model \<Rightarrow> (nat \<Rightarrow> 'v Operation) \<Rightarrow> nat set \<Rightarrow> nat list \<Rightarrow> bool" where
  "op_linearization m f I order \<longleftrightarrow> distinct order \<and> set order = I \<and>
     sorted_wrt (\<lambda>i j. \<not> op_Return (f j) < op_Call (f i)) order \<and> op_legal m f (Init m) order"

definition linearizable :: "('v, 's) Model \<Rightarrow> 'v Operation list \<Rightarrow> bool" where
  "linearizable m history \<longleftrightarrow> (\<exists>order. op_linearization m (nth history) {..<length history} order)"

subsection \<open>The entries of a history\<close>

abbreviation call_of :: "'v Operation list \<Rightarrow> nat \<Rightarrow> 'v entry" where
  "call_of history i \<equiv> \<lparr>en_kind = callEntry, en_value = op_Input (history ! i), en_id = int i,
     en_time = op_Call (history ! i), en_clientId = op_Client (history ! i)\<rparr>"

abbreviation return_of :: "'v Operation list \<Rightarrow> nat \<Rightarrow> 'v entry" where
  "return_of history i \<equiv> \<lparr>en_kind = returnEntry, en_value = op_Output (history ! i), en_id = int i,
     en_time = op_Return (history ! i), en_clientId = op_Client (history ! i)\<rparr>"

lemma rawEntries_eq: "rawEntries history = concat (map (\<lambda>i. [call_of history i, return_of history i]) [0..<length history])"
proof -
  have "enumerate 0 history = map (\<lambda>i. (i, history ! i)) [0..<length history]"
    by (intro nth_equalityI) (simp_all add: nth_enumerate_eq)
  then show ?thesis by (simp add: rawEntries_def comp_def)
qed

lemma set_rawEntries: "set (rawEntries history) =
    call_of history ` {..<length history} \<union> return_of history ` {..<length history}"
  by (auto simp: rawEntries_eq)

lemma length_rawEntries: "length (rawEntries history) = 2 * length history"
  by (simp add: rawEntries_eq length_concat comp_def sum_list_triv)

lemma distinct_rawEntries: "distinct (map (\<lambda>e. (en_kind e, en_id e)) (rawEntries history))"
proof -
  have "distinct (map (\<lambda>e. (en_kind e, en_id e)) (concat (map (\<lambda>i. [call_of history i, return_of history i]) [0..<n])))" for n
    by (induction n) auto
  then show ?thesis by (simp add: rawEntries_eq)
qed

locale time_sort =
  fixes srt :: "'v entry list \<Rightarrow> 'v entry list"
  assumes perm: "mset (srt es) = mset es"
    and sorted: "sorted_wrt (\<lambda>a b. \<not> byTime_Less b a) (srt es)"
begin

lemma set_srt: "set (makeEntries srt history) = set (rawEntries history)"
  unfolding makeEntries_def using perm by (metis set_mset_mset)

lemma length_srt: "length (makeEntries srt history) = 2 * length history"
  unfolding makeEntries_def using perm [of "rawEntries history"] length_rawEntries by (metis size_mset)

lemma distinct_srt: "distinct (map (\<lambda>e. (en_kind e, en_id e)) (makeEntries srt history))"
proof -
  have "mset (map (\<lambda>e. (en_kind e, en_id e)) (makeEntries srt history)) =
      mset (map (\<lambda>e. (en_kind e, en_id e)) (rawEntries history))"
    unfolding makeEntries_def mset_map perm ..
  then show ?thesis using distinct_rawEntries mset_eq_imp_distinct_iff by blast
qed

text \<open>An entry that is less than another one stands in front of it.\<close>

lemma in_front:
  assumes "p < length (makeEntries srt history)" and "q < length (makeEntries srt history)"
    and "byTime_Less (makeEntries srt history ! p) (makeEntries srt history ! q)"
  shows "p < q"
proof (rule ccontr)
  assume "\<not> p < q"
  moreover have "p \<noteq> q" using assms(3) by (auto simp: byTime_Less_def)
  ultimately have "\<not> byTime_Less (makeEntries srt history ! p) (makeEntries srt history ! q)"
    using sorted_wrt_nth_less [OF sorted, of q p "rawEntries history"] assms(1) by (simp add: makeEntries_def)
  with assms(3) show False by contradiction
qed

lemma entry_cases:
  assumes "p < length (makeEntries srt history)"
  obtains i where "i < length history" "makeEntries srt history ! p = call_of history i"
  | i where "i < length history" "makeEntries srt history ! p = return_of history i"
proof -
  have "makeEntries srt history ! p \<in> set (rawEntries history)" using assms set_srt nth_mem by blast
  then show thesis using that by (auto simp: set_rawEntries)
qed

lemma position_of:
  assumes "i < length history" and "e = call_of history i \<or> e = return_of history i"
  obtains p where "p < length (makeEntries srt history)" "makeEntries srt history ! p = e"
proof -
  have "e \<in> set (makeEntries srt history)" using assms by (auto simp: set_srt set_rawEntries)
  then show thesis using that by (auto simp: in_set_conv_nth)
qed

lemma wf_makeEntries:
  assumes "\<forall>op\<in>set history. op_Call op \<le> op_Return op"
  shows "wf_entries (makeEntries srt history)"
  unfolding wf_entries_def
proof (intro conjI allI ballI impI)
  let ?es = "makeEntries srt history"
  show "distinct (map (\<lambda>e. (en_kind e, en_id e)) ?es)" by (rule distinct_srt)
  fix e assume "e \<in> set ?es"
  then show "0 \<le> en_id e" "en_id e < int (length ?es div 2)" by (auto simp: set_srt set_rawEntries length_srt)
next
  let ?es = "makeEntries srt history"
  fix p assume p: "p < length ?es" "en_kind (?es ! p) = callEntry"
  then obtain i where i: "i < length history" "?es ! p = call_of history i" by (cases rule: entry_cases) auto
  then obtain q where q: "q < length ?es" "?es ! q = return_of history i" using position_of by blast
  have "op_Call (history ! i) \<le> op_Return (history ! i)" using assms i(1) by simp
  then have "p < q" using in_front [OF p(1) q(1)] i q by (simp add: byTime_Less_def)
  then show "\<exists>q<length ?es. p < q \<and> en_kind (?es ! q) = returnEntry \<and> en_id (?es ! q) = en_id (?es ! p)"
    using i q by auto
next
  let ?es = "makeEntries srt history"
  fix q assume q: "q < length ?es" "en_kind (?es ! q) = returnEntry"
  then obtain i where i: "i < length history" "?es ! q = return_of history i" by (cases rule: entry_cases) auto
  then obtain p where p: "p < length ?es" "?es ! p = call_of history i" using position_of by blast
  have "op_Call (history ! i) \<le> op_Return (history ! i)" using assms i(1) by simp
  then have "p < q" using in_front [OF p(1) q(1)] i p by (simp add: byTime_Less_def)
  then show "\<exists>p<q. en_kind (?es ! p) = callEntry \<and> en_id (?es ! p) = en_id (?es ! q)" using i p by auto
qed

lemma precedes_iff:
  assumes "i < length history" and "j < length history"
  shows "precedes (makeEntries srt history) i j \<longleftrightarrow> op_Return (history ! i) < op_Call (history ! j)"
proof
  let ?es = "makeEntries srt history"
  assume "precedes ?es i j"
  then obtain p q where q: "q < length ?es" "p < q" "en_kind (?es ! p) = returnEntry" "en_id (?es ! p) = int i"
    "en_kind (?es ! q) = callEntry" "en_id (?es ! q) = int j" by (auto simp: precedes_def)
  have p: "p < length ?es" using q(1,2) by simp
  have "?es ! p = return_of history i" using q(3,4) by (rule_tac entry_cases [OF p]) auto
  moreover have "?es ! q = call_of history j" using q(5,6) by (rule_tac entry_cases [OF q(1)]) auto
  moreover have "\<not> byTime_Less (?es ! q) (?es ! p)" using in_front [OF q(1) p] q(2) by auto
  ultimately show "op_Return (history ! i) < op_Call (history ! j)" by (auto simp: byTime_Less_def split: if_splits)
next
  let ?es = "makeEntries srt history"
  assume lt: "op_Return (history ! i) < op_Call (history ! j)"
  obtain p where p: "p < length ?es" "?es ! p = return_of history i" using position_of [OF assms(1)] by blast
  obtain q where q: "q < length ?es" "?es ! q = call_of history j" using position_of [OF assms(2)] by blast
  have "p < q" using in_front [OF p(1) q(1)] p q lt by (simp add: byTime_Less_def)
  then show "precedes ?es i j" using p q unfolding precedes_def by (intro exI [of _ q] conjI exI [of _ p]) simp_all
qed

lemma entryOf_makeEntries:
  assumes "\<forall>op\<in>set history. op_Call op \<le> op_Return op" and "i < length history"
  shows "entryOf callEntry (makeEntries srt history) i = Some (call_of history i)"
    and "entryOf returnEntry (makeEntries srt history) i = Some (return_of history i)"
proof -
  let ?es = "makeEntries srt history"
  obtain p where "p < length ?es" "?es ! p = call_of history i" using position_of [OF assms(2)] by blast
  then show "entryOf callEntry ?es i = Some (call_of history i)"
    using entryOf_at [OF wf_makeEntries [OF assms(1)], of p i] by simp
  obtain q where "q < length ?es" "?es ! q = return_of history i" using position_of [OF assms(2)] by blast
  then show "entryOf returnEntry ?es i = Some (return_of history i)"
    using entryOf_at [OF wf_makeEntries [OF assms(1)], of q i] by simp
qed

lemma legal_makeEntries:
  assumes "\<forall>op\<in>set history. op_Call op \<le> op_Return op" and "set order \<subseteq> {..<length history}"
  shows "legal m (makeEntries srt history) s order \<longleftrightarrow> op_legal m (nth history) s order"
  using assms(2)
proof (induction order arbitrary: s)
  case (Cons i order)
  then show ?case using entryOf_makeEntries [OF assms(1), of i] by (auto split: option.splits)
qed simp

lemma linearization_makeEntries:
  assumes "\<forall>op\<in>set history. op_Call op \<le> op_Return op"
  shows "linearization m (makeEntries srt history) order \<longleftrightarrow>
    op_linearization m (nth history) {..<length history} order"
proof (cases "set order = {..<length history}")
  case True
  have "sorted_wrt (\<lambda>i j. \<not> precedes (makeEntries srt history) j i) order \<longleftrightarrow>
      sorted_wrt (\<lambda>i j. \<not> op_Return (history ! j) < op_Call (history ! i)) order"
    using precedes_iff True by (intro sorted_wrt_eqI) simp
  then show ?thesis using True legal_makeEntries [OF assms, of order m "Init m"]
    by (simp add: linearization_def op_linearization_def length_srt)
qed (simp add: linearization_def op_linearization_def length_srt)

end

subsection \<open>The results of the goroutines\<close>

text \<open>The goroutines finish in some order and there is no timeout.\<close>

definition all_finish :: "(nat \<Rightarrow> message list) \<Rightarrow> nat \<Rightarrow> bool" where
  "all_finish sched n \<longleftrightarrow> (\<exists>is. distinct is \<and> set is = {..<n} \<and> sched n = map Finished is)"

lemma collect_all:
  assumes "\<forall>i\<in>set is. result i = Some (f i)" and "is \<noteq> []" and "length heard + length is = parts"
  shows "\<exists>hs. collectLoop result info parts ok heard (map Finished is) = Some (ok \<and> (\<forall>i\<in>set is. f i), False, hs)"
  using assms
proof (induction "is" arbitrary: ok heard)
  case (Cons i "is")
  show ?case
  proof (cases "is")
    case Nil
    then show ?thesis using Cons.prems by (auto simp: Let_def)
  next
    case (Cons j js)
    have "\<exists>hs. collectLoop result info parts (ok \<and> f i) (heard @ [i]) (map Finished is) =
        Some ((ok \<and> f i) \<and> (\<forall>i\<in>set is. f i), False, hs)"
      using Cons.prems Cons by (intro Cons.IH) auto
    then show ?thesis using Cons.prems Cons by (auto simp: Let_def)
  qed
qed simp

text \<open>Each goroutine sends one result; the timeout may come at any time.\<close>

definition possible :: "message list \<Rightarrow> nat \<Rightarrow> bool" where
  "possible ms n \<longleftrightarrow> distinct ms \<and> (\<forall>i. Finished i \<in> set ms \<longrightarrow> i < n)"

lemma collect_sound:
  assumes "collectLoop result info parts (\<forall>i\<in>set heard. f i) heard ms = Some (b, timedOut, hs)"
    and "\<And>i. i < parts \<Longrightarrow> result i = Some (f i)" and "possible ms parts" and "distinct heard"
    and "set heard \<subseteq> {..<parts}" and "\<forall>i\<in>set heard. Finished i \<notin> set ms"
  shows "(b \<and> \<not> timedOut \<longrightarrow> (\<forall>i<parts. f i)) \<and> (\<not> b \<longrightarrow> (\<exists>i<parts. \<not> f i))"
  using assms(1,3-)
proof (induction ms arbitrary: heard)
  case (Cons msg ms)
  show ?case
  proof (cases msg)
    case (Finished i)
    let ?h = "heard @ [i]"
    have i: "i < parts" "possible ms parts" using Cons.prems(2) Finished by (auto simp: possible_def)
    have h: "distinct ?h" "set ?h \<subseteq> {..<parts}" "\<forall>i\<in>set ?h. Finished i \<notin> set ms"
      using Cons.prems Finished i by (auto simp: possible_def)
    have ok: "((\<forall>i\<in>set heard. f i) \<and> f i) = (\<forall>i\<in>set ?h. f i)" by auto
    have all: "set ?h = {..<parts}" if "parts \<le> length ?h"
      using card_seteq [OF _ h(2)] that distinct_card [OF h(1)] by simp
    define k where "k = (\<forall>i\<in>set ?h. f i)"
    have eq: "(if \<not> k \<and> \<not> info then Some (k, False, ?h) else if length ?h \<ge> parts then Some (k, False, ?h)
        else collectLoop result info parts k ?h ms) = Some (b, timedOut, hs)"
      unfolding k_def using Cons.prems(1) assms(2) [OF i(1)]
      by (simp only: Finished collectLoop.simps Option.bind.simps Let_def ok)
    show ?thesis
    proof (cases "\<not> k \<and> \<not> info")
      case True
      then show ?thesis using eq h(2) unfolding k_def by auto
    next
      case notk: False
      show ?thesis
      proof (cases "length ?h \<ge> parts")
        case True
        then have "b = k" using eq notk by auto
        then show ?thesis unfolding k_def using all [OF True] by auto
      next
        case False
        then have "collectLoop result info parts k ?h ms = Some (b, timedOut, hs)" using eq notk by auto
        from Cons.IH [OF this [unfolded k_def] i(2) h] show ?thesis .
      qed
    qed
  next
    case Timeout
    then show ?thesis using Cons.prems(1,4) by auto
  qed
qed simp

lemma checkSingle_lin:
  assumes "\<forall>es\<in>set l. wf_entries es \<and> model_fits m es" and "i < length l"
  shows "map_option fst (do { sub \<leftarrow> idx l (int i); checkSingle (\<lambda>_. False) m sub info }) =
    Some (\<exists>order. linearization m (l ! i) order)"
proof -
  have "wf_entries (l ! i)" "model_fits m (l ! i)" using assms by simp_all
  from checkSingle_result [OF this, of "\<lambda>_. False" info] show ?thesis using assms(2) by auto
qed

text \<open>The information for the visualization is always there in the end: the goroutines return.\<close>

lemma checkParallel_eq:
  assumes "\<forall>es\<in>set l. wf_entries es \<and> model_fits m es"
  shows "map_option fst (checkParallel kills m l info ms) = map_option
    (\<lambda>(ok, timedOut, heard). if \<not> ok then Illegal else if timedOut then Unknown else Ok)
    (collectLoop (\<lambda>i. map_option fst (do { sub \<leftarrow> idx l (int i); checkSingle (\<lambda>_. False) m sub info }))
      info (length l) True [] ms)"
proof -
  have run: "\<exists>b longest. Option.bind (idx l (int i)) (\<lambda>sub. checkSingle kill m sub info) = Some (b, longest)"
    if "i < length l" for i kill
  proof -
    have "wf_entries (l ! i)" "model_fits m (l ! i)" using assms that by simp_all
    from checkSingle_result [OF this, of kill info] show ?thesis using that by auto
  qed
  let ?body = "\<lambda>heard i acc. do {
      (_, longest) \<leftarrow> Option.bind (idx l (int i)) (\<lambda>sub. checkSingle (if i \<in> set heard then \<lambda>_. False else kills i) m sub info);
      Some (acc @ [partials longest]) }"
  have "\<exists>x. for_loop [0..<length l] (?body heard) [] = Some x \<and> True" for heard
  proof (rule for_loop_total)
    fix i and acc :: "int list set list" assume "i \<in> set [0..<length l]"
    then obtain b longest where "Option.bind (idx l (int i))
        (\<lambda>sub. checkSingle (if i \<in> set heard then \<lambda>_. False else kills i) m sub info) = Some (b, longest)"
      using run [of i "if i \<in> set heard then \<lambda>_. False else kills i"] by auto
    then show "\<exists>v. ?body heard i acc = Some v \<and> True" by simp
  qed simp
  then obtain x where x: "\<And>heard. for_loop [0..<length l] (?body heard) [] = Some (x heard)" by metis
  show ?thesis unfolding checkParallel_def Let_def x
    by (cases "collectLoop (\<lambda>i. map_option fst (Option.bind (idx l (int i)) (\<lambda>sub. checkSingle (\<lambda>_. False) m sub info)))
      info (length l) True [] ms") auto
qed

lemma checkParallel_all:
  assumes "\<forall>es\<in>set l. wf_entries es \<and> model_fits m es" and "all_finish sched (length l)" and "l \<noteq> []"
  shows "map_option fst (checkParallel kills m l info (sched (length l))) =
    Some (if \<forall>es\<in>set l. \<exists>order. linearization m es order then Ok else Illegal)"
proof -
  obtain "is" where js: "distinct is" "set is = {..<length l}" "sched (length l) = map Finished is"
    using assms(2) by (auto simp: all_finish_def)
  let ?r = "\<lambda>i. map_option fst (do { sub \<leftarrow> idx l (int i); checkSingle (\<lambda>_. False) m sub info })"
  have r: "?r i = Some (\<exists>order. linearization m (l ! i) order)" if "i < length l" for i
    by (rule checkSingle_lin [OF assms(1) that])
  have len: "length is = length l" using distinct_card [OF js(1)] js(2) by simp
  moreover have "length is \<noteq> 0" unfolding len using assms(3) by simp
  then have "is \<noteq> []" by simp
  ultimately obtain hs where hs: "collectLoop ?r info (length l) True [] (map Finished is) =
      Some (True \<and> (\<forall>i\<in>set is. \<exists>order. linearization m (l ! i) order), False, hs)"
    using collect_all [of "is" ?r "\<lambda>i. \<exists>order. linearization m (l ! i) order" "[]" "length l" info True] r js(2) by fastforce
  have "(\<forall>i\<in>set is. \<exists>order. linearization m (l ! i) order) \<longleftrightarrow> (\<forall>es\<in>set l. \<exists>order. linearization m es order)"
    unfolding js(2) by (simp add: all_set_conv_all_nth lessThan_def)
  then show ?thesis unfolding checkParallel_eq [OF assms(1)] js(3) hs by simp
qed

lemma checkParallel_sound:
  assumes "\<forall>es\<in>set l. wf_entries es \<and> model_fits m es" and "possible ms (length l)"
  shows "(map_option fst (checkParallel kills m l info ms) = Some Ok \<longrightarrow> (\<forall>es\<in>set l. \<exists>order. linearization m es order)) \<and>
    (map_option fst (checkParallel kills m l info ms) = Some Illegal \<longrightarrow>
       \<not> (\<forall>es\<in>set l. \<exists>order. linearization m es order))"
proof -
  let ?r = "\<lambda>i. map_option fst (do { sub \<leftarrow> idx l (int i); checkSingle (\<lambda>_. False) m sub info })"
  let ?f = "\<lambda>i. \<exists>order. linearization m (l ! i) order"
  have r: "?r i = Some (?f i)" if "i < length l" for i by (rule checkSingle_lin [OF assms(1) that])
  have "(b \<and> \<not> t \<longrightarrow> (\<forall>i<length l. ?f i)) \<and> (\<not> b \<longrightarrow> (\<exists>i<length l. \<not> ?f i))"
    if c: "collectLoop ?r info (length l) True [] ms = Some (b, t, hs)" for b t hs
  proof (rule collect_sound [where heard = "[]" and result = ?r])
    show "collectLoop ?r info (length l) (\<forall>i\<in>set []. ?f i) [] ms = Some (b, t, hs)" using c by simp
  qed (use r assms(2) in simp_all)
  then show ?thesis unfolding all_set_conv_all_nth checkParallel_eq [OF assms(1)]
    by (cases "collectLoop ?r info (length l) True [] ms") (auto split: if_splits)
qed

subsection \<open>The sort\<close>

interpretation time_order: less_function byTime_Less
proof
  fix a b c :: "'v entry"
  show "byTime_Less a b \<Longrightarrow> \<not> byTime_Less b a" by (auto simp: byTime_Less_def split: if_splits)
  show "byTime_Less a c \<Longrightarrow> byTime_Less a b \<or> byTime_Less b c"
    by (cases "en_kind b") (auto simp: byTime_Less_def split: if_splits)
qed

text \<open>The insertion sort that \<^verbatim>\<open>sort.Sort\<close> runs on short slices.\<close>

interpretation stable: time_sort "sliceStable byTime_Less"
  by unfold_locales (simp_all add: time_order.sorted_sliceStable)

subsection \<open>Checking operations\<close>

text \<open>A model that does not panic on the operations, and whose equality suits it.\<close>

definition op_fits :: "('v, 's) Model \<Rightarrow> 'v Operation list \<Rightarrow> bool" where
  "op_fits m history \<longleftrightarrow> equivp (modelEqual m) \<and>
     (\<forall>op\<in>set history. \<forall>s. Step m s (op_Input op) (op_Output op) \<noteq> None \<and>
       (\<forall>t. modelEqual m s t \<longrightarrow> rel_option (modelEqual m) (stepTo m s (op_Input op) (op_Output op))
          (stepTo m t (op_Input op) (op_Output op))))"

lemma op_fits_entries:
  assumes "time_sort srt" and "op_fits m history"
  shows "model_fits m (makeEntries srt history)"
  using assms(2) by (auto simp: op_fits_def model_fits_def time_sort.set_srt [OF assms(1)] set_rawEntries)

lemma fillDefault_simps [simp]:
  "Init (fillDefault m) = Init m" "Step (fillDefault m) = Step m" "modelEqual (fillDefault m) = modelEqual m"
  "stepTo (fillDefault m) = stepTo m"
  by (auto simp: fillDefault_def modelEqual_def stepTo_def fun_eq_iff split: option.splits)

lemma op_legal_fillDefault [simp]: "op_legal (fillDefault m) f s order = op_legal m f s order"
  by (induction order arbitrary: s) (auto split: option.splits)

lemma linearizable_fillDefault [simp]: "linearizable (fillDefault m) history = linearizable m history"
  by (simp add: linearizable_def op_linearization_def)

lemma op_fits_fillDefault [simp]: "op_fits (fillDefault m) history = op_fits m history"
  by (simp add: op_fits_def)

definition ops_ok :: "('v, 's) Model \<Rightarrow> 'v Operation list \<Rightarrow> bool" where
  "ops_ok m history \<longleftrightarrow> (\<forall>op\<in>set history. op_Call op \<le> op_Return op) \<and> op_fits m history"

lemma partitions_checked:
  assumes "time_sort srt" and "Partition (fillDefault m) = Some part" and "part history = Some parts"
    and "\<forall>p\<in>set parts. ops_ok m p"
  obtains l where "checkOperations srt sched kills m history verbose = checkParallel kills (fillDefault m) l verbose (sched (length parts))"
    "length l = length parts" "\<forall>es\<in>set l. wf_entries es \<and> model_fits (fillDefault m) es"
    "(\<forall>es\<in>set l. \<exists>order. linearization (fillDefault m) es order) \<longleftrightarrow> (\<forall>p\<in>set parts. linearizable m p)"
proof -
  let ?m = "fillDefault m" and ?l = "map (makeEntries srt) parts"
  have "\<forall>es\<in>set ?l. wf_entries es \<and> model_fits ?m es"
    using assms(4) time_sort.wf_makeEntries [OF assms(1)] op_fits_entries [OF assms(1), of ?m] by (auto simp: ops_ok_def)
  moreover have "(\<exists>order. linearization ?m (makeEntries srt p) order) \<longleftrightarrow> linearizable m p" if "p \<in> set parts" for p
    using time_sort.linearization_makeEntries [OF assms(1), of p ?m] assms(4) that linearizable_fillDefault [of m p]
    by (simp add: linearizable_def ops_ok_def)
  ultimately show thesis using assms(2,3) by (intro that [of ?l]) (simp_all add: checkOperations_def)
qed

lemma checkOperations_all:
  assumes "time_sort srt" and "Partition (fillDefault m) = Some part" and "part history = Some parts"
    and "\<forall>p\<in>set parts. ops_ok m p" and "all_finish sched (length parts)" and "parts \<noteq> []"
  shows "map_option fst (checkOperations srt sched kills m history verbose) =
    Some (if \<forall>p\<in>set parts. linearizable m p then Ok else Illegal)"
proof -
  obtain l where l: "checkOperations srt sched kills m history verbose = checkParallel kills (fillDefault m) l verbose (sched (length parts))"
    "length l = length parts" "\<forall>es\<in>set l. wf_entries es \<and> model_fits (fillDefault m) es"
    "(\<forall>es\<in>set l. \<exists>order. linearization (fillDefault m) es order) \<longleftrightarrow> (\<forall>p\<in>set parts. linearizable m p)"
    using partitions_checked [OF assms(1-4)] .
  have "l \<noteq> []" using l(2) assms(6) by auto
  with checkParallel_all [OF l(3), of sched kills verbose] show ?thesis using l assms(5) by simp
qed

lemma checkOperations_waits:
  assumes "Partition (fillDefault m) = Some part" and "part history = Some []" and "all_finish sched 0"
  shows "checkOperations srt sched kills m history verbose = None"
  using assms by (auto simp: checkOperations_def checkParallel_def all_finish_def Let_def)

text \<open>C37: histories of operations.  For a model that does not panic on the operations, each partition is turned into
  entries and checked by a goroutine.  Whatever the order in which the results come, and whenever the
  timeout comes: the answer \<^verbatim>\<open>Ok\<close> is given only if every partition is linearizable with respect to the call
  and return times, and \<^verbatim>\<open>Illegal\<close> only if one is not.  If all goroutines finish and there is no timeout, one of
  the two answers is given.  If there is no partition at all, the check waits for a result that never comes.\<close>

theorem checkOperations_correct:
  assumes "time_sort srt" and "Partition (fillDefault m) = Some part" and "part history = Some parts"
    and "\<forall>p\<in>set parts. ops_ok m p" and "possible (sched (length parts)) (length parts)"
  shows "(map_option fst (checkOperations srt sched kills m history verbose) = Some Ok \<longrightarrow> (\<forall>p\<in>set parts. linearizable m p)) \<and>
    (map_option fst (checkOperations srt sched kills m history verbose) = Some Illegal \<longrightarrow> \<not> (\<forall>p\<in>set parts. linearizable m p)) \<and>
    (all_finish sched (length parts) \<longrightarrow> map_option fst (checkOperations srt sched kills m history verbose) =
       (if parts = [] then None else Some (if \<forall>p\<in>set parts. linearizable m p then Ok else Illegal)))"
proof -
  obtain l where l: "checkOperations srt sched kills m history verbose = checkParallel kills (fillDefault m) l verbose (sched (length parts))"
    "length l = length parts" "\<forall>es\<in>set l. wf_entries es \<and> model_fits (fillDefault m) es"
    "(\<forall>es\<in>set l. \<exists>order. linearization (fillDefault m) es order) \<longleftrightarrow> (\<forall>p\<in>set parts. linearizable m p)"
    using partitions_checked [OF assms(1-4)] .
  have "possible (sched (length parts)) (length l)" using assms(5) l(2) by simp
  from checkParallel_sound [OF l(3) this, of kills verbose]
  have "(map_option fst (checkOperations srt sched kills m history verbose) = Some Ok \<longrightarrow> (\<forall>p\<in>set parts. linearizable m p)) \<and>
    (map_option fst (checkOperations srt sched kills m history verbose) = Some Illegal \<longrightarrow> \<not> (\<forall>p\<in>set parts. linearizable m p))"
    unfolding l(1) l(4) .
  moreover have "map_option fst (checkOperations srt sched kills m history verbose) =
       (if parts = [] then None else Some (if \<forall>p\<in>set parts. linearizable m p then Ok else Illegal))"
    if "all_finish sched (length parts)"
    using checkOperations_all [OF assms(1-4) that] checkOperations_waits [OF assms(2)] assms(3) that by auto
  ultimately show ?thesis by blast
qed

definition overlapping_ops :: "nat Operation list" where
  "overlapping_ops =
     [\<lparr>op_Client = 0, op_Input = None, op_Call = 0, op_Output = Some 7, op_Return = 2\<rparr>,
      \<lparr>op_Client = 1, op_Input = Some 7, op_Call = 1, op_Output = None, op_Return = 3\<rparr>]"

theorem checkOperations_correct_witness:
  "map_option fst (checkOperations (sliceStable byTime_Less) (\<lambda>n. map Finished [0..<n]) (\<lambda>_ _. False)
     register overlapping_ops False) = Some Ok"
proof -
  have 1: "Partition (fillDefault register) = Some NoPartition" by (simp add: fillDefault_def register_def)
  have 2: "NoPartition overlapping_ops = Some [overlapping_ops]" by (simp add: NoPartition_def)
  have 3: "\<forall>p\<in>set [overlapping_ops]. ops_ok register p"
    by (simp add: ops_ok_def overlapping_ops_def op_fits_def modelEqual_def register_def ShallowEqual_def [abs_def]
        stepTo_def identity_equivp option.rel_eq)
  let ?sched = "\<lambda>n. map Finished [0..<n]"
  have 4: "possible (?sched (length [overlapping_ops])) (length [overlapping_ops])" by (simp add: possible_def)
  have "op_linearization register (nth overlapping_ops) {..<length overlapping_ops} [1, 0]" by code_simp
  then have "linearizable register overlapping_ops" by (auto simp: linearizable_def)
  moreover have "all_finish (\<lambda>n. map Finished [0..<n]) 1"
    unfolding all_finish_def by (intro exI [of _ "[0]"]) auto
  ultimately show ?thesis
    using checkOperations_correct [OF stable.time_sort_axioms 1 2 3, of ?sched "\<lambda>_ _. False" False] 4 by simp
qed

end
