(* ===== verification/Porcupine_KV.thy ===== *)
theory Porcupine_KV
  imports Porcupine_Ops "HOL-Library.AList" "HOL-Library.List_Lexorder" "HOL-Library.Char_ord"
begin

section \<open>The key-value model (\<^verbatim>\<open>models/kv.go\<close>)\<close>

text \<open>
  The model the tests of the key-value services check their histories against.  It describes one key;
  its partition function splits a history by key.  \<open>kvStore\<close> is the store with all keys, and the theorem
  is that a history is linearizable for the store exactly when each partition is for one key, and so
  that \<^const>\<open>CheckOperations\<close> decides linearizability of histories of the store.

  An \<^verbatim>\<open>interface{}\<close> value that holds a \<^verbatim>\<open>KvInput\<close> or a \<^verbatim>\<open>KvOutput\<close> is tagged with its type; a failing type assertion panics.
\<close>

subsection \<open>The model\<close>

record KvInput =
  ki_Op :: "8 word"
  ki_Key :: string
  ki_Value :: string

record KvOutput =
  ko_Value :: string

datatype kvValue = KvIn KvInput | KvOut KvOutput

definition asKvInput :: "kvValue iface \<Rightarrow> KvInput option" where
  "asKvInput v = (case v of Some (KvIn i) \<Rightarrow> Some i | _ \<Rightarrow> None)"

definition asKvOutput :: "kvValue iface \<Rightarrow> KvOutput option" where
  "asKvOutput v = (case v of Some (KvOut r) \<Rightarrow> Some r | _ \<Rightarrow> None)"

text \<open>The map from keys to operations is an association list; its keys are sorted before they are used.\<close>

definition kvPartition :: "kvValue Operation list \<Rightarrow> kvValue Operation list list option" where
  "kvPartition history = do {
     m \<leftarrow> for_loop history (\<lambda>v m. do {
       inp \<leftarrow> asKvInput (op_Input v);
       let key = ki_Key inp;
       Some (AList.update key (map_get (map_of m) [] key @ [v]) m)
     }) [];
     let keys = sort (map fst m);
     Some (map (\<lambda>k. map_get (map_of m) [] k) keys)
   }"

definition kvStep :: "string \<Rightarrow> kvValue iface \<Rightarrow> kvValue iface \<Rightarrow> (bool \<times> string) option" where
  "kvStep state input output = do {
     inp \<leftarrow> asKvInput input;
     out \<leftarrow> asKvOutput output;
     Some (if ki_Op inp = 0 then (ko_Value out = state, state)
           else if ki_Op inp = 1 then (True, ki_Value inp)
           else (True, state @ ki_Value inp))
   }"

definition KvModel :: "(kvValue, string) Model" where
  "KvModel = \<lparr>Partition = Some kvPartition, PartitionEvent = None, Init = [], Step = kvStep, Equal = None\<rparr>"

subsection \<open>The store with all keys\<close>

definition kvStore :: "(kvValue, string \<Rightarrow> string) Model" where
  "kvStore = \<lparr>Partition = None, PartitionEvent = None, Init = (\<lambda>_. []),
     Step = (\<lambda>s input output. case (input, output) of
       (Some (KvIn i), Some (KvOut r)) \<Rightarrow>
         Some (if ki_Op i = 0 then (ko_Value r = s (ki_Key i), s)
               else if ki_Op i = 1 then (True, s(ki_Key i := ki_Value i))
               else (True, s(ki_Key i := s (ki_Key i) @ ki_Value i)))
     | _ \<Rightarrow> None), Equal = None\<rparr>"

definition typed :: "kvValue Operation \<Rightarrow> bool" where
  "typed op \<longleftrightarrow> asKvInput (op_Input op) \<noteq> None \<and> asKvOutput (op_Output op) \<noteq> None"

definition keyOf :: "kvValue Operation \<Rightarrow> string" where
  "keyOf op = (case asKvInput (op_Input op) of None \<Rightarrow> [] | Some i \<Rightarrow> ki_Key i)"

lemma model_simps [simp]:
  "Init KvModel = []" "Step KvModel = kvStep" "modelEqual KvModel = (=)" "Init kvStore = (\<lambda>_. [])"
  by (auto simp: KvModel_def kvStore_def modelEqual_def ShallowEqual_def fun_eq_iff)

lemma kv_fits: "\<forall>op\<in>set history. typed op \<Longrightarrow> op_fits KvModel history"
  by (auto simp: op_fits_def identity_equivp option.rel_eq kvStep_def typed_def)

subsection \<open>The partition\<close>

definition keys_of :: "kvValue Operation list \<Rightarrow> string list" where
  "keys_of history = sorted_list_of_set (keyOf ` set history)"

lemma kvPartition_eq:
  assumes "\<forall>op\<in>set history. typed op"
  shows "kvPartition history = Some (map (\<lambda>k. filter (\<lambda>op. keyOf op = k) history) (keys_of history))"
proof -
  let ?body = "\<lambda>v m. do { inp \<leftarrow> asKvInput (op_Input v); let key = ki_Key inp;
       Some (AList.update key (map_get (map_of m) [] key @ [v]) m) }"
  have loop: "\<exists>m. for_loop history ?body [] = Some m \<and> distinct (map fst m) \<and> fst ` set m = keyOf ` set history \<and>
      (\<forall>k. map_get (map_of m) [] k = filter (\<lambda>op. keyOf op = k) history)"
    using assms
  proof (induction history rule: rev_induct)
    case Nil
    then show ?case by (simp add: map_get_def)
  next
    case (snoc v history)
    then obtain m where m: "for_loop history ?body [] = Some m" "distinct (map fst m)" "fst ` set m = keyOf ` set history"
      "\<forall>k. map_get (map_of m) [] k = filter (\<lambda>op. keyOf op = k) history" by auto
    obtain i where i: "asKvInput (op_Input v) = Some i" using snoc.prems by (auto simp: typed_def)
    let ?m = "AList.update (ki_Key i) (map_get (map_of m) [] (ki_Key i) @ [v]) m"
    have "for_loop (history @ [v]) ?body [] = Some ?m" using m(1) i by (simp add: for_loop_append Let_def)
    moreover have "distinct (map fst ?m)" using m(2) by (rule distinct_update)
    moreover have "fst ` set ?m = keyOf ` set (history @ [v])" using m(3) i by (simp add: dom_update keyOf_def)
    moreover have "map_get (map_of ?m) [] k = filter (\<lambda>op. keyOf op = k) (history @ [v])" for k
      using m(4) i by (simp add: update_conv' keyOf_def)
    ultimately show ?case by blast
  qed
  then obtain m where m: "for_loop history ?body [] = Some m" "distinct (map fst m)" "fst ` set m = keyOf ` set history"
    "\<And>k. map_get (map_of m) [] k = filter (\<lambda>op. keyOf op = k) history" by blast
  have "sort (map fst m) = keys_of history"
    using sorted_list_of_set_sort_remdups [of "map fst m"] m(2,3) by (simp add: keys_of_def distinct_remdups_id)
  then show ?thesis using m(1,4) by (simp add: kvPartition_def)
qed


subsection \<open>Runs of the store are runs of the keys\<close>

lemma stepTo_store:
  assumes "typed op"
  shows "stepTo kvStore s (op_Input op) (op_Output op) =
    map_option (\<lambda>v. s(keyOf op := v)) (stepTo KvModel (s (keyOf op)) (op_Input op) (op_Output op))"
  using assms by (auto simp: stepTo_def kvStore_def kvStep_def typed_def keyOf_def asKvInput_def asKvOutput_def
      split: option.splits kvValue.splits bool.splits)

lemma legal_store:
  assumes "\<forall>i\<in>set order. typed (f i)"
  shows "op_legal kvStore f s order \<longleftrightarrow> (\<forall>k. op_legal KvModel f (s k) (filter (\<lambda>i. keyOf (f i) = k) order))"
  using assms
proof (induction order arbitrary: s)
  case (Cons i order)
  let ?k = "keyOf (f i)"
  have st: "stepTo kvStore s (op_Input (f i)) (op_Output (f i)) =
      map_option (\<lambda>v. s(?k := v)) (stepTo KvModel (s ?k) (op_Input (f i)) (op_Output (f i)))"
    using Cons.prems by (intro stepTo_store) simp
  show ?case
  proof (cases "stepTo KvModel (s ?k) (op_Input (f i)) (op_Output (f i))")
    case None
    then show ?thesis using st by (auto intro!: exI [of _ ?k])
  next
    case (Some v)
    have "op_legal kvStore f s (i # order) \<longleftrightarrow>
        (\<forall>k. op_legal KvModel f ((s(?k := v)) k) (filter (\<lambda>i. keyOf (f i) = k) order))"
      using st Some Cons by simp
    also have "\<dots> \<longleftrightarrow> (\<forall>k. op_legal KvModel f (s k) (filter (\<lambda>i. keyOf (f i) = k) (i # order)))"
      by (rule all_cong1) (use Some in auto)
    finally show ?thesis .
  qed
qed simp

subsection \<open>Numbering the operations of a partition\<close>

lemma op_legal_map: "op_legal m f s (map g order) = op_legal m (f \<circ> g) s order"
  by (induction order arbitrary: s) (auto split: option.splits)

lemma op_legal_cong: "(\<And>i. i \<in> set order \<Longrightarrow> f i = g i) \<Longrightarrow> op_legal m f s order = op_legal m g s order"
  by (induction order arbitrary: s) (auto split: option.splits)

lemma linearizable_sub:
  assumes "distinct xs"
  shows "linearizable m (map f xs) \<longleftrightarrow> (\<exists>order. op_linearization m f (set xs) order)"
proof -
  let ?n = "length xs"
  have inj: "inj_on (nth xs) {..<?n}" using assms by (simp add: inj_on_nth)
  have img: "nth xs ` {..<?n} = set xs" by (auto simp: set_conv_nth)
  have iff: "op_linearization m (nth (map f xs)) {..<?n} order \<longleftrightarrow> op_linearization m f (set xs) (map (nth xs) order)"
    if "set order \<subseteq> {..<?n}" for order
  proof -
    have "set order = {..<?n} \<longleftrightarrow> nth xs ` set order = set xs"
      using inj_on_image_eq_iff [OF inj that, of "{..<?n}"] img by auto
    moreover have "distinct (map (nth xs) order) = distinct order"
      using inj_on_subset [OF inj that] by (simp add: distinct_map)
    moreover have "sorted_wrt (\<lambda>i j. \<not> op_Return (map f xs ! j) < op_Call (map f xs ! i)) order \<longleftrightarrow>
        sorted_wrt (\<lambda>i j. \<not> op_Return (f (xs ! j)) < op_Call (f (xs ! i))) order"
      using that by (intro sorted_wrt_eqI) (simp add: subset_iff)
    moreover have "op_legal m (nth (map f xs)) s order = op_legal m (f \<circ> nth xs) s order" for s
      using that by (intro op_legal_cong) auto
    ultimately show ?thesis by (simp add: op_linearization_def sorted_wrt_map op_legal_map)
  qed
  show ?thesis
  proof
    assume "linearizable m (map f xs)"
    then obtain order where o: "op_linearization m (nth (map f xs)) {..<?n} order" by (auto simp: linearizable_def)
    then have "set order \<subseteq> {..<?n}" by (simp add: op_linearization_def)
    with iff o show "\<exists>order. op_linearization m f (set xs) order" by blast
  next
    assume "\<exists>order. op_linearization m f (set xs) order"
    then obtain order where o: "op_linearization m f (set xs) order" by blast
    let ?g = "map (the_inv_into {..<?n} (nth xs)) order"
    have s: "set order = set xs" using o by (simp add: op_linearization_def)
    have "map (nth xs) ?g = order"
      unfolding map_map by (rule map_idI) (simp add: f_the_inv_into_f [OF inj] s img)
    moreover have "set ?g \<subseteq> {..<?n}" using the_inv_into_into [OF inj] s img by auto
    ultimately have "op_linearization m (nth (map f xs)) {..<?n} ?g" using iff [of ?g] o by simp
    then show "linearizable m (map f xs)" unfolding linearizable_def by auto
  qed
qed


subsection \<open>Merging linearizations\<close>

text \<open>
  The latest call among the operations up to \<open>i\<close> in an order: a point between the call and the return
  of \<open>i\<close>, if the order respects the times.  Sorting by these points, with a sort that is stable, merges
  the orders of the partitions into one that respects the times as well.
\<close>

fun points :: "(nat \<Rightarrow> 'v Operation) \<Rightarrow> int \<Rightarrow> nat list \<Rightarrow> (nat \<times> int) list" where
  "points f c [] = []"
| "points f c (i # is) = (i, max c (op_Call (f i))) # points f (max c (op_Call (f i))) is"

lemma points_fst: "map fst (points f c order) = order"
  by (induction order arbitrary: c) auto

lemma points_bound:
  assumes "(i, t) \<in> set (points f c order)" and "\<forall>i\<in>set order. c \<le> op_Return (f i) \<and> op_Call (f i) \<le> op_Return (f i)"
    and "sorted_wrt (\<lambda>i j. \<not> op_Return (f j) < op_Call (f i)) order"
  shows "op_Call (f i) \<le> t \<and> t \<le> op_Return (f i) \<and> c \<le> t"
  using assms by (induction order arbitrary: c) force+

lemma points_sorted: "sorted (map snd (points f c order)) \<and> (\<forall>x\<in>set (points f c order). c \<le> snd x)"
proof (induction order arbitrary: c)
  case (Cons i order)
  from Cons.IH [of "max c (op_Call (f i))"] show ?case by auto
qed simp

definition early :: "(nat \<Rightarrow> 'v Operation) \<Rightarrow> nat list \<Rightarrow> int" where
  "early f order = Min (insert 0 (op_Call ` f ` set order))"

definition point :: "(nat \<Rightarrow> 'v Operation) \<Rightarrow> nat list \<Rightarrow> nat \<Rightarrow> int" where
  "point f order i = the (map_of (points f (early f order) order) i)"

lemma point_facts:
  assumes "distinct order" and "\<forall>i\<in>set order. op_Call (f i) \<le> op_Return (f i)"
    and "sorted_wrt (\<lambda>i j. \<not> op_Return (f j) < op_Call (f i)) order"
  shows "i \<in> set order \<Longrightarrow> op_Call (f i) \<le> point f order i \<and> point f order i \<le> op_Return (f i)"
    and "sorted (map (point f order) order)"
proof -
  let ?c = "early f order"
  have c: "?c \<le> op_Return (f i)" if "i \<in> set order" for i
  proof -
    have "?c \<le> op_Call (f i)" unfolding early_def using that by (intro Min_le) auto
    then show ?thesis using assms(2) that by force
  qed
  have pt: "map_of (points f ?c order) i = Some t \<longleftrightarrow> (i, t) \<in> set (points f ?c order)" for i t
    using assms(1) by (intro map_of_eq_Some_iff) (simp add: points_fst)
  show "op_Call (f i) \<le> point f order i \<and> point f order i \<le> op_Return (f i)" if "i \<in> set order"
  proof -
    have "i \<in> fst ` set (points f ?c order)" using that points_fst [of f ?c order] by (metis set_map)
    then obtain t where t: "(i, t) \<in> set (points f ?c order)" by auto
    then show ?thesis using points_bound [OF t] c assms(2,3) pt [of i t] by (simp add: point_def)
  qed
  have "point f order (fst x) = snd x" if "x \<in> set (points f ?c order)" for x
    using pt [of "fst x" "snd x"] that by (simp add: point_def)
  then have "map (point f order) (map fst (points f ?c order)) = map snd (points f ?c order)" by simp
  then show "sorted (map (point f order) order)" using points_sorted [of f ?c order] by (simp add: points_fst)
qed

lemma sort_key_sorted: "sorted (map t xs) \<Longrightarrow> sort_key t xs = xs"
  by (rule properties_for_sort_key) simp_all

lemma merge_orders:
  assumes lins: "\<And>k. k \<in> set ks \<Longrightarrow> op_linearization KvModel f {i \<in> I. key i = k} (ord k)"
    and ks: "distinct ks" "key ` I = set ks" and fin: "finite I" and key: "\<And>i. key i = keyOf (f i)"
    and ok: "\<And>i. i \<in> I \<Longrightarrow> op_Call (f i) \<le> op_Return (f i) \<and> typed (f i)"
  shows "\<exists>order. op_linearization kvStore f I order"
proof -
  define t where "t i = point f (ord (key i)) i" for i
  let ?all = "concat (map ord ks)" and ?order = "sort_key t (concat (map ord ks))"
  have L: "distinct (ord k)" "set (ord k) = {i \<in> I. key i = k}"
    "sorted_wrt (\<lambda>i j. \<not> op_Return (f j) < op_Call (f i)) (ord k)" "op_legal KvModel f [] (ord k)"
    if "k \<in> set ks" for k using lins [OF that] by (simp_all add: op_linearization_def)
  have P: "op_Call (f i) \<le> point f (ord k) i \<and> point f (ord k) i \<le> op_Return (f i)" if "k \<in> set ks" "i \<in> set (ord k)" for k i
    by (rule point_facts(1)) (use L [OF that(1)] ok that in auto)
  have S: "sorted (map t (ord k))" if "k \<in> set ks" for k
  proof -
    have "sorted (map (point f (ord k)) (ord k))" by (rule point_facts(2)) (use L [OF that] ok in auto)
    moreover have "map t (ord k) = map (point f (ord k)) (ord k)" using L(2) [OF that] by (simp add: t_def)
    ultimately show ?thesis by (simp only:)
  qed
  have all: "set ?all = I" using L(2) ks(2) by auto
  have filt: "filter (\<lambda>i. key i = k) (concat (map ord ls)) = (if k \<in> set ls then ord k else [])"
    if "distinct ls" "set ls \<subseteq> set ks" for k ls
    using that
  proof (induction ls)
    case (Cons l ls)
    have "filter (\<lambda>i. key i = k) (ord l) = (if l = k then ord l else [])"
      using L(2) [of l] Cons.prems(2) by (auto simp: filter_empty_conv filter_id_conv)
    with Cons show ?case by auto
  qed simp
  have key_filt: "filter (\<lambda>i. key i = k) ?order = (if k \<in> set ks then ord k else [])" for k
    using filt [OF ks(1) order_refl, of k] sort_key_sorted [OF S] by (simp add: filter_sort)
  have "distinct (concat (map ord ls))" if "distinct ls" "set ls \<subseteq> set ks" for ls
    using that
  proof (induction ls)
    case (Cons l ls)
    have "set (ord l) \<inter> set (ord l') = {}" if "l' \<in> set ls" for l'
      using L(2) [of l] L(2) [of l'] Cons.prems that by auto
    then have "set (ord l) \<inter> \<Union> (set ` ord ` set ls) = {}" by blast
    then show ?case using Cons L(1) [of l] by simp
  qed simp
  from this [OF ks(1)] have "distinct ?all" by simp
  then have "distinct ?order" by simp
  moreover have "set ?order = I" using all by simp
  moreover have "sorted_wrt (\<lambda>i j. \<not> op_Return (f j) < op_Call (f i)) ?order"
  proof -
    have "sorted_wrt (\<lambda>i j. t i \<le> t j) ?order" using sorted_sort_key [of t ?all] by (simp add: sorted_map)
    moreover have "\<not> op_Return (f j) < op_Call (f i)" if "i \<in> set ?order" "j \<in> set ?order" "t i \<le> t j" for i j
    proof -
      have "i \<in> I" "j \<in> I" using that(1,2) unfolding set_sort all .
      then have "op_Call (f i) \<le> t i" "t j \<le> op_Return (f j)"
        using P [of "key i" i] P [of "key j" j] L(2) ks(2) by (auto simp: t_def)
      with that(3) show ?thesis by simp
    qed
    ultimately show ?thesis by (rule sorted_wrt_mono_rel [rotated])
  qed
  moreover have "op_legal kvStore f (Init kvStore) ?order"
  proof -
    have "op_legal KvModel f [] (filter (\<lambda>i. keyOf (f i) = k) ?order)" for k
      using key_filt [of k] L(4) [of k] by (simp add: key)
    moreover have "\<forall>i\<in>set ?order. typed (f i)" unfolding set_sort all using ok by blast
    ultimately show ?thesis unfolding model_simps legal_store [OF \<open>\<forall>i\<in>set ?order. typed (f i)\<close>] by blast
  qed
  ultimately show ?thesis unfolding op_linearization_def by blast
qed


text \<open>The contract of \<^verbatim>\<open>Partition\<close> in \<^verbatim>\<open>model.go\<close>, for the key-value model.\<close>

lemma partition_linearizable:
  assumes "\<forall>op\<in>set history. typed op \<and> op_Call op \<le> op_Return op"
  shows "linearizable kvStore history \<longleftrightarrow>
    (\<forall>k\<in>keyOf ` set history. linearizable KvModel (filter (\<lambda>op. keyOf op = k) history))"
proof -
  let ?f = "nth history" and ?n = "length history"
  let ?idx = "\<lambda>k. filter (\<lambda>i. keyOf (?f i) = k) [0..<?n]"
  have "filter (\<lambda>op. keyOf op = k) history = map ?f (?idx k)" for k
    using filter_map [of "\<lambda>op. keyOf op = k" ?f "[0..<?n]"] by (simp add: map_nth comp_def)
  moreover have "distinct (?idx k)" "set (?idx k) = {i \<in> {..<?n}. keyOf (?f i) = k}" for k by auto
  ultimately have sub: "linearizable KvModel (filter (\<lambda>op. keyOf op = k) history) \<longleftrightarrow>
      (\<exists>order. op_linearization KvModel ?f {i \<in> {..<?n}. keyOf (?f i) = k} order)" for k
    using linearizable_sub [of "?idx k" KvModel ?f] by simp
  show ?thesis unfolding sub
  proof
    assume "linearizable kvStore history"
    then obtain order where o: "op_linearization kvStore ?f {..<?n} order" by (auto simp: linearizable_def)
    then have "\<forall>i\<in>set order. typed (?f i)" using assms by (simp add: op_linearization_def)
    then have "op_linearization KvModel ?f {i \<in> {..<?n}. keyOf (?f i) = k} (filter (\<lambda>i. keyOf (?f i) = k) order)" for k
      using o legal_store [of order ?f "\<lambda>_. []"] by (auto simp: op_linearization_def sorted_wrt_filter)
    then show "\<forall>k\<in>keyOf ` set history. \<exists>order. op_linearization KvModel ?f {i \<in> {..<?n}. keyOf (?f i) = k} order" by blast
  next
    assume "\<forall>k\<in>keyOf ` set history. \<exists>order. op_linearization KvModel ?f {i \<in> {..<?n}. keyOf (?f i) = k} order"
    then obtain ord where ord: "\<And>k. k \<in> keyOf ` set history \<Longrightarrow>
        op_linearization KvModel ?f {i \<in> {..<?n}. keyOf (?f i) = k} (ord k)" by metis
    have "\<exists>order. op_linearization kvStore ?f {..<?n} order"
    proof (rule merge_orders [where key = "\<lambda>i. keyOf (?f i)" and ks = "keys_of history" and ord = ord])
      have "(\<lambda>i. keyOf (?f i)) ` {..<?n} = keyOf ` set history" by (auto simp: set_conv_nth)
      then show "(\<lambda>i. keyOf (?f i)) ` {..<?n} = set (keys_of history)" by (simp add: keys_of_def)
    qed (use ord assms in \<open>auto simp: keys_of_def\<close>)
    then show "linearizable kvStore history" by (simp add: linearizable_def)
  qed
qed

text \<open>C35: histories of the key-value store.  On a history of get, put and append operations, \<^verbatim>\<open>CheckOperations\<close> with the
  key-value model, whose goroutines may finish in any order, returns true exactly when the history as a
  whole is linearizable for a store that maps all keys to strings: partitioning by key and checking each
  key alone is right.  On the empty history, which has no partition, it does not return.\<close>

theorem kv_check_correct:
  assumes "time_sort srt" and "\<forall>op\<in>set history. typed op \<and> op_Call op \<le> op_Return op" and "\<forall>n. all_finish sched n"
  shows "CheckOperations srt sched kills KvModel history = (if history = [] then None else Some (linearizable kvStore history))"
proof -
  have part: "Partition (fillDefault KvModel) = Some kvPartition" by (simp add: fillDefault_def KvModel_def)
  let ?parts = "map (\<lambda>k. filter (\<lambda>op. keyOf op = k) history) (keys_of history)"
  have parts: "kvPartition history = Some ?parts" using assms(2) by (intro kvPartition_eq) simp
  show ?thesis
  proof (cases "history = []")
    case True
    then have "kvPartition history = Some []" using parts by (simp add: keys_of_def)
    then show ?thesis using checkOperations_waits [OF part] assms(3) True by (simp add: CheckOperations_def)
  next
    case False
    have ok: "\<forall>p\<in>set ?parts. ops_ok KvModel p" using assms(2) kv_fits by (auto simp: ops_ok_def)
    have "keys_of history \<noteq> []"
      using False by (metis keys_of_def List.finite_set finite_imageI image_is_empty set_empty sorted_list_of_set.set_sorted_key_list_of_set)
    then have ne: "?parts \<noteq> []" by simp
    have "(\<forall>p\<in>set ?parts. linearizable KvModel p) \<longleftrightarrow> linearizable kvStore history"
      unfolding partition_linearizable [OF assms(2)] by (simp add: keys_of_def)
    moreover have "all_finish sched (length ?parts)" using assms(3) by blast
    from checkOperations_all [OF assms(1) part parts ok this ne, of kills False]
    have "map_option fst (checkOperations srt sched kills KvModel history False) =
      Some (if \<forall>p\<in>set ?parts. linearizable KvModel p then Ok else Illegal)" .
    ultimately show ?thesis using False by (auto simp: CheckOperations_def)
  qed
qed


text \<open>Two keys; the get of \<^verbatim>\<open>x\<close> overlaps the put that it reads.\<close>

definition kv_history :: "kvValue Operation list" where
  "kv_history =
     [\<lparr>op_Client = 0, op_Input = Some (KvIn \<lparr>ki_Op = 0, ki_Key = ''x'', ki_Value = []\<rparr>), op_Call = 0,
       op_Output = Some (KvOut \<lparr>ko_Value = ''a''\<rparr>), op_Return = 5\<rparr>,
      \<lparr>op_Client = 1, op_Input = Some (KvIn \<lparr>ki_Op = 1, ki_Key = ''x'', ki_Value = ''a''\<rparr>), op_Call = 1,
       op_Output = Some (KvOut \<lparr>ko_Value = []\<rparr>), op_Return = 3\<rparr>,
      \<lparr>op_Client = 2, op_Input = Some (KvIn \<lparr>ki_Op = 2, ki_Key = ''y'', ki_Value = ''b''\<rparr>), op_Call = 4,
       op_Output = Some (KvOut \<lparr>ko_Value = []\<rparr>), op_Return = 6\<rparr>]"

theorem kv_check_correct_witness:
  "CheckOperations (sliceStable byTime_Less) (\<lambda>n. map Finished [0..<n]) (\<lambda>_ _. False) KvModel kv_history = Some True"
proof -
  have 1: "\<forall>op\<in>set kv_history. typed op \<and> op_Call op \<le> op_Return op" by code_simp
  have 2: "\<forall>n. all_finish (\<lambda>n. map Finished [0..<n]) n"
    unfolding all_finish_def by (intro allI exI [of _ "[0..<n]" for n]) auto
  have "op_linearization kvStore (nth kv_history) {..<length kv_history} [1, 0, 2]" by code_simp
  then have "linearizable kvStore kv_history" by (auto simp: linearizable_def)
  moreover have "kv_history \<noteq> []" by (simp add: kv_history_def)
  ultimately show ?thesis using kv_check_correct [OF stable.time_sort_axioms 1 2] by simp
qed

end
