(* ===== verification/Porcupine_Visual.thy ===== *)
theory Porcupine_Visual
  imports Porcupine_KV
begin

section \<open>The data for the picture of a history (\<^verbatim>\<open>porcupine/visualization.go\<close>)\<close>

text \<open>
  \<^verbatim>\<open>computeVisualizationData\<close> lays out what a verbose check has found: for each partition the operations with their
  times, the partial linearizations, replayed on the model and sorted by decreasing length, and for each operation
  the position of a longest one with it.  It panics if a partial linearization is not accepted by the model.

  The function of a model that describes operations may panic (\<^const>\<open>None\<close>); \<^verbatim>\<open>sort.Slice\<close> and the order in which the
  check enumerates its set of partial linearizations are parameters, and so are the JSON encoder and the writer.  The
  text of the HTML page is left out.
\<close>

subsection \<open>The code\<close>

record historyElement =
  he_ClientId :: int
  he_Start :: int
  he_End :: int
  he_Description :: string

record linearizationStep =
  ls_Index :: int
  ls_StateDescription :: string

type_synonym partialLinearization = "linearizationStep list"

record partitionVisualizationData =
  pv_History :: "historyElement list"
  pv_PartialLinearizations :: "partialLinearization list"
  pv_Largest :: "int \<rightharpoonup> int"

type_synonym visualizationData = "partitionVisualizationData list"

text \<open>The body of the loop over the entries; the state has the elements and the values of calls and returns.\<close>

definition visualElem ::
  "('v iface \<Rightarrow> 'v iface \<Rightarrow> string option) \<Rightarrow> 'v entry \<Rightarrow>
   historyElement list \<times> (int \<rightharpoonup> 'v iface) \<times> (int \<rightharpoonup> 'v iface) \<Rightarrow>
   (historyElement list \<times> (int \<rightharpoonup> 'v iface) \<times> (int \<rightharpoonup> 'v iface)) option" where
  "visualElem describe elem = (\<lambda>(history, callValue, returnValue). do {
     let id = en_id elem;
     h \<leftarrow> idx history id;
     (case en_kind elem of
        callEntry \<Rightarrow> do {
          history \<leftarrow> set_idx history id (h\<lparr>he_ClientId := en_clientId elem, he_Start := en_time elem\<rparr>);
          Some (history, callValue(id \<mapsto> en_value elem), returnValue)
        }
      | returnEntry \<Rightarrow> do {
          d \<leftarrow> describe (map_get callValue None id) (en_value elem);
          history \<leftarrow> set_idx history id (h\<lparr>he_End := en_time elem, he_Description := d\<rparr>);
          Some (history, callValue, returnValue(id \<mapsto> en_value elem))
        })
   })"

text \<open>The body of the loop over a partial linearization, the \<open>i\<close>-th, with \<open>n\<close> operations.\<close>

definition visualStep ::
  "('v, 's) Model \<Rightarrow> ('s \<Rightarrow> string) \<Rightarrow> (int \<rightharpoonup> 'v iface) \<Rightarrow> (int \<rightharpoonup> 'v iface) \<Rightarrow> nat \<Rightarrow> nat \<Rightarrow> int \<Rightarrow>
   's \<times> partialLinearization \<times> (int \<rightharpoonup> nat) \<times> (int \<rightharpoonup> int) \<Rightarrow>
   ('s \<times> partialLinearization \<times> (int \<rightharpoonup> nat) \<times> (int \<rightharpoonup> int)) option" where
  "visualStep model describeState callValue returnValue i n histId =
     (\<lambda>(state, linearization, largestSize, largestIndex). do {
       (ok, state) \<leftarrow> Step model state (map_get callValue None histId) (map_get returnValue None histId);
       if \<not> ok then None
       else do {
         let linearization = linearization @ [\<lparr>ls_Index = histId, ls_StateDescription = describeState state\<rparr>];
         if map_get largestSize 0 histId < n
         then Some (state, linearization, largestSize(histId \<mapsto> n), largestIndex(histId \<mapsto> int i))
         else Some (state, linearization, largestSize, largestIndex)
       }
     })"

definition visualPartial ::
  "('v, 's) Model \<Rightarrow> ('s \<Rightarrow> string) \<Rightarrow> (int \<rightharpoonup> 'v iface) \<Rightarrow> (int \<rightharpoonup> 'v iface) \<Rightarrow> nat \<times> int list \<Rightarrow>
   partialLinearization list \<times> (int \<rightharpoonup> nat) \<times> (int \<rightharpoonup> int) \<Rightarrow>
   (partialLinearization list \<times> (int \<rightharpoonup> nat) \<times> (int \<rightharpoonup> int)) option" where
  "visualPartial model describeState callValue returnValue = (\<lambda>(i, partial) (linearizations, largestSize, largestIndex). do {
     (_, linearization, largestSize, largestIndex) \<leftarrow>
       for_loop partial (visualStep model describeState callValue returnValue i (length partial))
         (Init model, [], largestSize, largestIndex);
     Some (linearizations @ [linearization], largestSize, largestIndex)
   })"

definition visualPartition ::
  "(int list list \<Rightarrow> int list list) \<Rightarrow> ('v, 's) Model \<Rightarrow> ('v iface \<Rightarrow> 'v iface \<Rightarrow> string option) \<Rightarrow> ('s \<Rightarrow> string) \<Rightarrow>
   'v entry list \<Rightarrow> int list list \<Rightarrow> partitionVisualizationData option" where
  "visualPartition lsrt model describe describeState es ps = do {
     let n = length es div 2;
     (history, callValue, returnValue) \<leftarrow> for_loop es (visualElem describe)
       (replicate n \<lparr>he_ClientId = 0, he_Start = 0, he_End = 0, he_Description = ''''\<rparr>, Map.empty, Map.empty);
     let ps = lsrt ps;
     (linearizations, _, largestIndex) \<leftarrow>
       for_loop (enumerate 0 ps) (visualPartial model describeState callValue returnValue) ([], Map.empty, Map.empty);
     Some \<lparr>pv_History = history, pv_PartialLinearizations = linearizations, pv_Largest = largestIndex\<rparr>
   }"

definition computeVisualizationData ::
  "(int list list \<Rightarrow> int list list) \<Rightarrow> (int list set \<Rightarrow> int list list) \<Rightarrow> ('v iface \<Rightarrow> 'v iface \<Rightarrow> string option) \<Rightarrow>
   ('s \<Rightarrow> string) \<Rightarrow> ('v, 's) Model \<Rightarrow> 'v linearizationInfo \<Rightarrow> visualizationData option" where
  "computeVisualizationData lsrt ord describe describeState model info = do {
     let model = fillDefault model;
     for_loop [0..<length (li_history info)] (\<lambda>partition data. do {
       es \<leftarrow> idx (li_history info) (int partition);
       ps \<leftarrow> idx (li_partialLinearizations info) (int partition);
       d \<leftarrow> visualPartition lsrt model describe describeState es (ord ps);
       Some (data @ [d])
     }) []
   }"

text \<open>The result of \<^verbatim>\<open>Visualize\<close> is the error, if any.\<close>

definition Visualize ::
  "(int list list \<Rightarrow> int list list) \<Rightarrow> (int list set \<Rightarrow> int list list) \<Rightarrow> ('v iface \<Rightarrow> 'v iface \<Rightarrow> string option) \<Rightarrow>
   ('s \<Rightarrow> string) \<Rightarrow> (visualizationData \<Rightarrow> 'e + string) \<Rightarrow> (string \<Rightarrow> 'e option) \<Rightarrow> ('v, 's) Model \<Rightarrow> 'v linearizationInfo \<Rightarrow>
   'e option option" where
  "Visualize lsrt ord describe describeState marshal output model info = do {
     data \<leftarrow> computeVisualizationData lsrt ord describe describeState model info;
     (case marshal data of Inl err \<Rightarrow> Some (Some err) | Inr jsonData \<Rightarrow> Some (output jsonData))
   }"

definition VisualizePath ::
  "(int list list \<Rightarrow> int list list) \<Rightarrow> (int list set \<Rightarrow> int list list) \<Rightarrow> ('v iface \<Rightarrow> 'v iface \<Rightarrow> string option) \<Rightarrow>
   ('s \<Rightarrow> string) \<Rightarrow> (visualizationData \<Rightarrow> 'e + string) \<Rightarrow> (string \<Rightarrow> 'e + (string \<Rightarrow> 'e option)) \<Rightarrow> ('v, 's) Model \<Rightarrow>
   'v linearizationInfo \<Rightarrow> string \<Rightarrow> 'e option option" where
  "VisualizePath lsrt ord describe describeState marshal create model info path =
     (case create path of Inl err \<Rightarrow> Some (Some err)
      | Inr f \<Rightarrow> Visualize lsrt ord describe describeState marshal f model info)"

text \<open>The description of the operations of the key-value model (\<^verbatim>\<open>models/kv.go\<close>).\<close>

definition kvDescribeOperation :: "kvValue iface \<Rightarrow> kvValue iface \<Rightarrow> string option" where
  "kvDescribeOperation input output = do {
     inp \<leftarrow> asKvInput input;
     out \<leftarrow> asKvOutput output;
     let q = [CHR 0x27];
     Some (if ki_Op inp = 0 then ''get('' @ q @ ki_Key inp @ q @ '') -> '' @ q @ ko_Value out @ q
           else if ki_Op inp = 1 then ''put('' @ q @ ki_Key inp @ q @ '', '' @ q @ ki_Value inp @ q @ '')''
           else if ki_Op inp = 2 then ''append('' @ q @ ki_Key inp @ q @ '', '' @ q @ ki_Value inp @ q @ '')''
           else ''<invalid>'')
   }"

subsection \<open>Loops that collect results\<close>

lemma visual_loop_collect:
  assumes "\<And>i. i < n \<Longrightarrow> f i = Some (g i)" and "\<And>i acc. body i acc = Option.bind (f i) (\<lambda>x. Some (acc @ [x]))"
  shows "for_loop [0..<n] body [] = Some (map g [0..<n])"
  using assms(1)
proof (induction n)
  case (Suc n)
  then show ?case by (simp add: for_loop_append assms(2))
qed simp

subsection \<open>The operations\<close>

text \<open>What the loop over the entries has found after a part of them.\<close>

definition seen ::
  "('v iface \<Rightarrow> 'v iface \<Rightarrow> string option) \<Rightarrow> 'v entry list \<Rightarrow> nat \<Rightarrow> historyElement list \<Rightarrow> (int \<rightharpoonup> 'v iface) \<Rightarrow> (int \<rightharpoonup> 'v iface) \<Rightarrow> bool" where
  "seen describe es k history cv rv \<longleftrightarrow> length history = length es div 2 \<and>
     (\<forall>p<k. let e = es ! p; h = history ! nat (en_id e) in
        (en_kind e = callEntry \<longrightarrow> cv (en_id e) = Some (en_value e) \<and> he_ClientId h = en_clientId e \<and> he_Start h = en_time e) \<and>
        (en_kind e = returnEntry \<longrightarrow> rv (en_id e) = Some (en_value e) \<and> he_End h = en_time e \<and>
           (\<forall>c\<in>set es. en_kind c = callEntry \<and> en_id c = en_id e \<longrightarrow> describe (en_value c) (en_value e) = Some (he_Description h))))"

definition describes :: "('v iface \<Rightarrow> 'v iface \<Rightarrow> string option) \<Rightarrow> 'v entry list \<Rightarrow> bool" where
  "describes describe es \<longleftrightarrow> (\<forall>c\<in>set es. \<forall>r\<in>set es. en_kind c = callEntry \<and> en_kind r = returnEntry \<and> en_id c = en_id r \<longrightarrow>
     describe (en_value c) (en_value r) \<noteq> None)"

lemma wf_id:
  assumes "wf_entries es" and "p < length es"
  shows "0 \<le> en_id (es ! p)" and "en_id (es ! p) < int (length es div 2)"
  using assms by (simp_all add: wf_entries_def)

lemma wf_call_of_return:
  assumes "wf_entries es" and "q < length es" and "en_kind (es ! q) = returnEntry"
  obtains p where "p < q" "en_kind (es ! p) = callEntry" "en_id (es ! p) = en_id (es ! q)"
  using assms by (auto simp: wf_entries_def)

lemma seen_step:
  assumes "wf_entries es" and "describes describe es" and "k < length es" and "seen describe es k history cv rv"
  shows "\<exists>history' cv' rv'. visualElem describe (es ! k) (history, cv, rv) = Some (history', cv', rv') \<and>
    seen describe es (Suc k) history' cv' rv'"
proof -
  let ?e = "es ! k"
  note id = wf_id [OF assms(1)] and uniq = wf_unique [OF assms(1)]
  have len: "length history = length es div 2" using assms(4) by (simp add: seen_def)
  have room: "0 \<le> en_id ?e" "en_id ?e < int (length history)" using id [OF assms(3)] len by simp_all
  have old: "p < k \<Longrightarrow> p < length es" for p using assms(3) by simp
  have other: "nat (en_id ?e) = nat (en_id (es ! p)) \<longleftrightarrow> en_id (es ! p) = en_id ?e" if "p < k" for p
    using id [OF old [OF that]] room by auto
  have new: "\<not> (en_kind (es ! p) = en_kind ?e \<and> en_id (es ! p) = en_id ?e)" if "p < k" for p
    using uniq [OF old [OF that] assms(3)] that by auto
  show ?thesis
  proof (cases "en_kind ?e")
    case callEntry
    let ?h = "history[nat (en_id ?e) := (history ! nat (en_id ?e))\<lparr>he_ClientId := en_clientId ?e, he_Start := en_time ?e\<rparr>]"
    have "visualElem describe ?e (history, cv, rv) = Some (?h, cv(en_id ?e \<mapsto> en_value ?e), rv)"
      using callEntry room by (simp add: visualElem_def Let_def)
    moreover have "seen describe es (Suc k) ?h (cv(en_id ?e \<mapsto> en_value ?e)) rv"
      using assms(4) callEntry room len new
      by (auto simp: other seen_def Let_def less_Suc_eq nth_list_update)
    ultimately show ?thesis by blast
  next
    case returnEntry
    obtain c where c: "c < k" "en_kind (es ! c) = callEntry" "en_id (es ! c) = en_id ?e"
      using wf_call_of_return [OF assms(1,3) returnEntry] .
    have cv: "cv (en_id ?e) = Some (en_value (es ! c))" using assms(4) c by (auto simp: seen_def Let_def)
    obtain d where d: "describe (en_value (es ! c)) (en_value ?e) = Some d"
      using assms(2,3) c old [OF c(1)] returnEntry by (fastforce simp: describes_def)
    have only: "x = es ! c" if x: "x \<in> set es" "en_kind x = callEntry" "en_id x = en_id ?e" for x
    proof -
      obtain p where "p < length es" "x = es ! p" using x(1) by (auto simp: in_set_conv_nth)
      then show ?thesis using uniq [of p c] x(2,3) c old [OF c(1)] by simp
    qed
    let ?h = "history[nat (en_id ?e) := (history ! nat (en_id ?e))\<lparr>he_End := en_time ?e, he_Description := d\<rparr>]"
    have "visualElem describe ?e (history, cv, rv) = Some (?h, cv, rv(en_id ?e \<mapsto> en_value ?e))"
      using returnEntry room cv d by (simp add: visualElem_def Let_def map_get_def)
    moreover have "seen describe es (Suc k) ?h cv (rv(en_id ?e \<mapsto> en_value ?e))"
      using assms(4) returnEntry room len new d only
      by (auto simp: other seen_def Let_def less_Suc_eq nth_list_update)
    ultimately show ?thesis by blast
  qed
qed

lemma visual_history:
  assumes "wf_entries es" and "describes describe es"
  obtains history cv rv where "for_loop es (visualElem describe)
      (replicate (length es div 2) \<lparr>he_ClientId = 0, he_Start = 0, he_End = 0, he_Description = ''''\<rparr>, Map.empty, Map.empty) =
      Some (history, cv, rv)" and "seen describe es (length es) history cv rv"
proof -
  let ?s = "(replicate (length es div 2) \<lparr>he_ClientId = 0, he_Start = 0, he_End = 0, he_Description = ''''\<rparr>, Map.empty, Map.empty)"
  have "\<exists>history cv rv. for_loop (take k es) (visualElem describe) ?s = Some (history, cv, rv) \<and> seen describe es k history cv rv"
    if "k \<le> length es" for k
    using that
  proof (induction k)
    case (Suc k)
    then obtain history cv rv where "for_loop (take k es) (visualElem describe) ?s = Some (history, cv, rv)"
      "seen describe es k history cv rv" by auto
    then show ?case
      using seen_step [OF assms, of k history cv rv] Suc.prems by (auto simp: take_Suc_conv_app_nth for_loop_append)
  qed (simp add: seen_def)
  from this [of "length es"] that show thesis by auto
qed

subsection \<open>The partial linearizations\<close>

lemma seen_entryOf:
  assumes "seen describe es (length es) history cv rv"
  shows "entryOf callEntry es i = Some c \<Longrightarrow> cv (int i) = Some (en_value c)"
    and "entryOf returnEntry es i = Some r \<Longrightarrow> rv (int i) = Some (en_value r)"
  using assms unfolding entryOf_def find_Some_iff by (auto simp: seen_def Let_def)

text \<open>A partial linearization is replayed without a panic, and the operations in it that are in no list as long as it so far get its number.\<close>

lemma visual_steps:
  assumes "seen describe es (length es) history cv rv"
  shows "legal m es s order \<Longrightarrow> \<exists>s' lin'. for_loop (map int order) (visualStep m descState cv rv i n) (s, lin, sz, ix) =
    Some (s', lin @ lin', \<lambda>k. if k \<in> set (map int order) \<and> map_get sz 0 k < n then Some n else sz k,
      \<lambda>k. if k \<in> set (map int order) \<and> map_get sz 0 k < n then Some (int i) else ix k) \<and>
    map ls_Index lin' = map int order"
proof (induction order arbitrary: s lin sz ix)
  case (Cons a order)
  obtain c r s1 where e: "entryOf callEntry es a = Some c" "entryOf returnEntry es a = Some r"
    and s1: "stepTo m s (en_value c) (en_value r) = Some s1" and l: "legal m es s1 order"
    using Cons.prems by (auto split: option.splits)
  have st: "Step m s (map_get cv None (int a)) (map_get rv None (int a)) = Some (True, s1)"
    using s1 seen_entryOf(1) [OF assms e(1)] seen_entryOf(2) [OF assms e(2)]
    by (auto simp: stepTo_def map_get_def split: option.splits prod.splits bool.splits)
  let ?st = "\<lparr>ls_Index = int a, ls_StateDescription = descState s1\<rparr>"
  let ?b = "map_get sz 0 (int a) < n"
  let ?size = "if ?b then sz(int a \<mapsto> n) else sz" and ?index = "if ?b then ix(int a \<mapsto> int i) else ix"
  have one: "visualStep m descState cv rv i n (int a) (s, lin, sz, ix) = Some (s1, lin @ [?st], ?size, ?index)"
    using st by (simp add: visualStep_def Let_def)
  obtain s' lin' where "for_loop (map int order) (visualStep m descState cv rv i n) (s1, lin @ [?st], ?size, ?index) =
    Some (s', (lin @ [?st]) @ lin', \<lambda>k. if k \<in> set (map int order) \<and> map_get ?size 0 k < n then Some n else ?size k,
      \<lambda>k. if k \<in> set (map int order) \<and> map_get ?size 0 k < n then Some (int i) else ?index k) \<and>
    map ls_Index lin' = map int order" using Cons.IH [OF l, of "lin @ [?st]" ?size ?index] by blast
  then show ?case using one
    by (intro exI [of _ s'] exI [of _ "?st # lin'"]) (auto simp: fun_eq_iff)
qed (auto simp: fun_eq_iff)

text \<open>The position of the first list with an element.\<close>

definition firstWith :: "'a list list \<Rightarrow> 'a \<Rightarrow> nat option" where
  "firstWith ps k = List.find (\<lambda>i. k \<in> set (ps ! i)) [0..<length ps]"

lemma find_append: "List.find P (xs @ ys) = (case List.find P xs of None \<Rightarrow> List.find P ys | x \<Rightarrow> x)"
  by (induction xs) auto

lemma firstWith_snoc:
  "firstWith (ps @ [p]) k = (case firstWith ps k of None \<Rightarrow> if k \<in> set p then Some (length ps) else None | x \<Rightarrow> x)"
proof -
  have "List.find (\<lambda>i. k \<in> set ((ps @ [p]) ! i)) [0..<length ps] = List.find (\<lambda>i. k \<in> set (ps ! i)) [0..<length ps]"
    by (rule find_cong) (simp_all add: nth_append)
  then show ?thesis by (simp add: firstWith_def find_append split: option.splits)
qed

lemma firstWith_Some: "firstWith ps k = Some i \<Longrightarrow> i < length ps \<and> k \<in> set (ps ! i) \<and> (\<forall>j<i. k \<notin> set (ps ! j))"
  unfolding firstWith_def find_Some_iff by auto

lemma firstWith_None: "firstWith ps k = None \<longleftrightarrow> (\<forall>p\<in>set ps. k \<notin> set p)"
  unfolding firstWith_def find_None_iff all_set_conv_all_nth [of ps] by auto

lemma visual_partials:
  assumes "seen describe es (length es) history cv rv" and "sorted_wrt (\<lambda>a b. length b \<le> length a) ps"
    and "\<forall>p\<in>set ps. \<exists>order. p = map int order \<and> legal m es (Init m) order"
  shows "\<exists>lins. for_loop (enumerate 0 ps) (visualPartial m descState cv rv) ([], Map.empty, Map.empty) =
    Some (lins, \<lambda>k. map_option (\<lambda>i. length (ps ! i)) (firstWith ps k), \<lambda>k. map_option int (firstWith ps k)) \<and>
    map (map ls_Index) lins = ps"
  using assms(2,3)
proof (induction ps rule: rev_induct)
  case (snoc p ps)
  let ?size = "\<lambda>ps k. map_option (\<lambda>i. length (ps ! i)) (firstWith ps k)" and ?ix = "\<lambda>ps k. map_option int (firstWith ps k)"
  obtain lins where lins: "for_loop (enumerate 0 ps) (visualPartial m descState cv rv) ([], Map.empty, Map.empty) =
    Some (lins, ?size ps, ?ix ps)" "map (map ls_Index) lins = ps"
    using snoc by (auto simp: sorted_wrt_append)
  obtain order where o: "p = map int order" "legal m es (Init m) order" using snoc.prems(2) by auto
  let ?b = "\<lambda>k. k \<in> set (map int order) \<and> map_get (?size ps) 0 k < length p"
  obtain s' lin' where l: "for_loop p (visualStep m descState cv rv (length ps) (length p)) (Init m, [], ?size ps, ?ix ps) =
    Some (s', lin', \<lambda>k. if ?b k then Some (length p) else ?size ps k, \<lambda>k. if ?b k then Some (int (length ps)) else ?ix ps k)"
    "map ls_Index lin' = p"
    using visual_steps [OF assms(1) o(2), of descState "length ps" "length p" "[]" "?size ps" "?ix ps"] o(1) by auto
  have b: "?b k \<longleftrightarrow> k \<in> set p \<and> firstWith ps k = None" for k
  proof (cases "firstWith ps k")
    case None
    then show ?thesis using o(1) by (auto simp: map_get_def length_pos_if_in_set)
  next
    case (Some i)
    then have "length p \<le> length (ps ! i)" using firstWith_Some [OF Some] snoc.prems(1) by (auto simp: sorted_wrt_append)
    then show ?thesis using Some by (simp add: map_get_def)
  qed
  have "(\<lambda>k. if ?b k then Some (length p) else ?size ps k) = ?size (ps @ [p])"
    "(\<lambda>k. if ?b k then Some (int (length ps)) else ?ix ps k) = ?ix (ps @ [p])"
    unfolding b by (auto simp: fun_eq_iff firstWith_snoc nth_append dest: firstWith_Some split: option.splits)
  with l have "for_loop p (visualStep m descState cv rv (length ps) (length p)) (Init m, [], ?size ps, ?ix ps) =
    Some (s', lin', ?size (ps @ [p]), ?ix (ps @ [p]))" by simp
  then have "for_loop (enumerate 0 (ps @ [p])) (visualPartial m descState cv rv) ([], Map.empty, Map.empty) =
    Some (lins @ [lin'], ?size (ps @ [p]), ?ix (ps @ [p]))"
    using lins(1) by (simp add: enumerate_append_eq for_loop_append visualPartial_def)
  then show ?case using lins(2) l(2) by auto
qed (simp add: firstWith_def)

subsection \<open>What is shown\<close>

text \<open>What \<^verbatim>\<open>sort.Slice\<close> promises with the comparison of the code.\<close>

locale length_sort =
  fixes lsrt :: "int list list \<Rightarrow> int list list"
  assumes perm: "mset (lsrt ps) = mset ps"
    and longest_first: "sorted_wrt (\<lambda>a b. length b \<le> length a) (lsrt ps)"
begin

lemma set_lsrt: "set (lsrt ps) = set ps"
  using perm by (metis set_mset_mset)

text \<open>The first list with an element is a longest one.\<close>

lemma firstWith_longest:
  assumes "firstWith (lsrt ps) k = Some i" and "p \<in> set ps" and "k \<in> set p"
  shows "length p \<le> length (lsrt ps ! i)"
proof -
  obtain j where j: "j < length (lsrt ps)" "p = lsrt ps ! j" using assms(2) set_lsrt by (metis in_set_conv_nth)
  have "i \<le> j" using firstWith_Some [OF assms(1)] assms(3) j(2) by (metis not_le_imp_less)
  then show ?thesis using longest_first [of ps] j by (cases "i = j") (auto simp: sorted_wrt_iff_nth_less)
qed

end

definition longer :: "int list \<Rightarrow> int list \<Rightarrow> bool" where
  "longer a b \<longleftrightarrow> length a > length b"

interpretation longer: less_function longer
  by unfold_locales (auto simp: longer_def)

interpretation short_slice: length_sort "sliceStable longer"
  by unfold_locales (use longer.sorted_sliceStable in \<open>simp_all add: longer_def not_less\<close>)

text \<open>For each operation, the position of a longest partial linearization with it.\<close>

definition largest_ok :: "partitionVisualizationData \<Rightarrow> bool" where
  "largest_ok d \<longleftrightarrow> (\<forall>k. (pv_Largest d k = None) = (\<forall>lin\<in>set (pv_PartialLinearizations d). k \<notin> set (map ls_Index lin))) \<and>
     (\<forall>k i. pv_Largest d k = Some i \<longrightarrow> 0 \<le> i \<and> nat i < length (pv_PartialLinearizations d) \<and>
        k \<in> set (map ls_Index (pv_PartialLinearizations d ! nat i)) \<and>
        (\<forall>lin\<in>set (pv_PartialLinearizations d). k \<in> set (map ls_Index lin) \<longrightarrow>
           length lin \<le> length (pv_PartialLinearizations d ! nat i)))"

text \<open>The data of a partition with the entries \<open>es\<close> and the partial linearizations \<open>P\<close>.\<close>

definition shown ::
  "('v iface \<Rightarrow> 'v iface \<Rightarrow> string option) \<Rightarrow> 'v entry list \<Rightarrow> int list set \<Rightarrow> partitionVisualizationData \<Rightarrow> bool" where
  "shown describe es P d \<longleftrightarrow> (\<exists>cv rv. seen describe es (length es) (pv_History d) cv rv) \<and>
     set (map (map ls_Index) (pv_PartialLinearizations d)) = P \<and> largest_ok d"

lemma visualPartition_shown:
  assumes "length_sort lsrt" and "wf_entries es" and "describes describe es"
    and "\<forall>p\<in>set ps. \<exists>order. p = map int order \<and> legal m es (Init m) order"
  obtains d where "visualPartition lsrt m describe descState es ps = Some d" and "shown describe es (set ps) d"
proof -
  obtain history cv rv where h: "for_loop es (visualElem describe)
      (replicate (length es div 2) \<lparr>he_ClientId = 0, he_Start = 0, he_End = 0, he_Description = ''''\<rparr>, Map.empty, Map.empty) =
      Some (history, cv, rv)" "seen describe es (length es) history cv rv" using visual_history [OF assms(2,3)] .
  let ?ps = "lsrt ps"
  note S = length_sort.set_lsrt [OF assms(1), of ps] length_sort.longest_first [OF assms(1), of ps]
  obtain lins where l: "for_loop (enumerate 0 ?ps) (visualPartial m descState cv rv) ([], Map.empty, Map.empty) =
    Some (lins, \<lambda>k. map_option (\<lambda>i. length (?ps ! i)) (firstWith ?ps k), \<lambda>k. map_option int (firstWith ?ps k))"
    "map (map ls_Index) lins = ?ps"
    using visual_partials [OF h(2) S(2), of m descState] assms(4) S(1) by auto
  let ?d = "\<lparr>pv_History = history, pv_PartialLinearizations = lins, pv_Largest = \<lambda>k. map_option int (firstWith ?ps k)\<rparr>"
  have at: "map ls_Index (lins ! i) = ?ps ! i" "length (lins ! i) = length (?ps ! i)" if "i < length ?ps" for i
  proof -
    have "length lins = length ?ps" using l(2) by (metis length_map)
    then show "map ls_Index (lins ! i) = ?ps ! i" using that by (metis l(2) nth_map)
    then show "length (lins ! i) = length (?ps ! i)" by (metis length_map)
  qed
  have len: "length lins = length ?ps" using l(2) by (metis length_map)
  have in_ps: "map ls_Index lin \<in> set ?ps" if "lin \<in> set lins" for lin using that l(2) by (metis image_eqI set_map)
  have "largest_ok ?d"
    unfolding largest_ok_def
  proof (intro conjI allI impI)
    fix k
    have "(pv_Largest ?d k = None) = (\<forall>p\<in>set (map (map ls_Index) lins). k \<notin> set p)"
      using firstWith_None [of ?ps k] l(2) by simp
    then show "(pv_Largest ?d k = None) = (\<forall>lin\<in>set (pv_PartialLinearizations ?d). k \<notin> set (map ls_Index lin))" by simp
    fix i assume "pv_Largest ?d k = Some i"
    then obtain j where j: "firstWith ?ps k = Some j" "i = int j" by auto
    note f = firstWith_Some [OF j(1)]
    show "0 \<le> i" "nat i < length (pv_PartialLinearizations ?d)" using j(2) f len by simp_all
    show "k \<in> set (map ls_Index (pv_PartialLinearizations ?d ! nat i))" using at(1) [of j] j(2) f by simp
    show "\<forall>lin\<in>set (pv_PartialLinearizations ?d). k \<in> set (map ls_Index lin) \<longrightarrow>
        length lin \<le> length (pv_PartialLinearizations ?d ! nat i)"
      using length_sort.firstWith_longest [OF assms(1) j(1)] in_ps at(2) [of j] j(2) f S(1) by fastforce
  qed
  then have "shown describe es (set ps) ?d" using h(2) l(2) S(1) by (auto simp: shown_def)
  moreover have "visualPartition lsrt m describe descState es ps = Some ?d"
    using h(1) l(1) by (simp add: visualPartition_def Let_def)
  ultimately show thesis using that by blast
qed

text \<open>The order in which a set is enumerated.\<close>

definition enumerates :: "(int list set \<Rightarrow> int list list) \<Rightarrow> bool" where
  "enumerates ord \<longleftrightarrow> (\<forall>A. finite A \<longrightarrow> set (ord A) = A)"

lemma finite_partials: "finite (partials longest)"
proof -
  have "partials longest \<subseteq> the ` set longest" by (force simp: partials_def)
  then show ?thesis by (rule finite_subset) simp
qed

lemma checkParallel_info:
  assumes "\<forall>es\<in>set l. wf_entries es \<and> model_fits m es" and "checkParallel kills m l True ms = Some (res, info)"
  shows "li_history info = l \<and> length (li_partialLinearizations info) = length l \<and>
    (\<forall>i<length l. finite (li_partialLinearizations info ! i) \<and>
      (\<forall>p\<in>li_partialLinearizations info ! i. \<exists>order. p = map int order \<and> partial_linearization m (l ! i) order))"
proof -
  define kill where "kill heard i = (if i \<in> set heard then \<lambda>_. False else kills i)" for heard i
  define f where "f heard i = do {
      (_, longest) \<leftarrow> Option.bind (idx l (int i)) (\<lambda>sub. checkSingle (kill heard i) m sub True);
      Some (partials longest) }" for heard i
  have "\<exists>P. f heard i = Some P \<and> finite P \<and> (\<forall>p\<in>P. \<exists>order. p = map int order \<and> partial_linearization m (l ! i) order)"
    if "i < length l" for heard i
  proof -
    have "wf_entries (l ! i)" "model_fits m (l ! i)" using assms(1) that by simp_all
    from checkSingle_result [OF this, of "kill heard i" True] obtain b longest where
      "checkSingle (kill heard i) m (l ! i) True = Some (b, longest)"
      "\<forall>seq. Some seq \<in> set longest \<longrightarrow> (\<exists>order. seq = map int order \<and> partial_linearization m (l ! i) order)" by blast
    then show ?thesis using that finite_partials by (simp add: f_def) (simp add: partials_def)
  qed
  then obtain g where g: "\<And>heard i. i < length l \<Longrightarrow> f heard i = Some (g heard i)"
    "\<And>heard i. i < length l \<Longrightarrow> finite (g heard i)"
    "\<And>heard i p. i < length l \<Longrightarrow> p \<in> g heard i \<Longrightarrow> \<exists>order. p = map int order \<and> partial_linearization m (l ! i) order"
    using that [of "\<lambda>heard i. the (f heard i)"] by (metis option.sel)
  have loop: "for_loop [0..<length l] (\<lambda>i acc. do {
      (_, longest) \<leftarrow> Option.bind (idx l (int i)) (\<lambda>sub. checkSingle (if i \<in> set heard then \<lambda>_. False else kills i) m sub True);
      Some (acc @ [partials longest]) }) [] = Some (map (g heard) [0..<length l])" for heard
    by (rule visual_loop_collect [of _ "f heard"], erule g(1)) (simp add: f_def kill_def Option.bind_assoc split_def)
  obtain heard where "info = \<lparr>li_history = l, li_partialLinearizations = map (g heard) [0..<length l]\<rparr>"
    using assms(2) unfolding checkParallel_def Let_def loop by (auto split: bind_splits prod.splits)
  then show ?thesis using g(2,3) by simp
qed

text \<open>The data of a partition with the operations \<open>ops\<close>.\<close>

definition op_partial :: "('v, 's) Model \<Rightarrow> 'v Operation list \<Rightarrow> nat list \<Rightarrow> bool" where
  "op_partial m ops order \<longleftrightarrow> distinct order \<and> set order \<subseteq> {..<length ops} \<and>
     sorted_wrt (\<lambda>i j. \<not> op_Return (ops ! j) < op_Call (ops ! i)) order \<and> op_legal m (nth ops) (Init m) order"

definition shows_ops ::
  "('v, 's) Model \<Rightarrow> ('v iface \<Rightarrow> 'v iface \<Rightarrow> string option) \<Rightarrow> 'v Operation list \<Rightarrow> partitionVisualizationData \<Rightarrow> bool" where
  "shows_ops m describe ops d \<longleftrightarrow> length (pv_History d) = length ops \<and>
     (\<forall>i<length ops. he_ClientId (pv_History d ! i) = op_Client (ops ! i) \<and> he_Start (pv_History d ! i) = op_Call (ops ! i) \<and>
        he_End (pv_History d ! i) = op_Return (ops ! i) \<and>
        describe (op_Input (ops ! i)) (op_Output (ops ! i)) = Some (he_Description (pv_History d ! i))) \<and>
     (\<forall>lin\<in>set (pv_PartialLinearizations d). \<exists>order. map ls_Index lin = map int order \<and> op_partial m ops order) \<and>
     largest_ok d"

lemma partial_makeEntries:
  assumes "time_sort srt" and "\<forall>op\<in>set ops. op_Call op \<le> op_Return op" and "partial_linearization (fillDefault m) (makeEntries srt ops) order"
  shows "op_partial m ops order"
proof -
  note T = assms(1) [THEN time_sort.length_srt, of ops]
  have sub: "set order \<subseteq> {..<length ops}" using assms(3) T by (simp add: partial_linearization_def)
  have "sorted_wrt (\<lambda>i j. \<not> precedes (makeEntries srt ops) j i) order \<longleftrightarrow>
      sorted_wrt (\<lambda>i j. \<not> op_Return (ops ! j) < op_Call (ops ! i)) order"
    using time_sort.precedes_iff [OF assms(1)] sub by (intro sorted_wrt_eqI) auto
  then show ?thesis
    using assms(3) sub time_sort.legal_makeEntries [OF assms(1,2) sub, of "fillDefault m" "Init m"]
    by (simp add: partial_linearization_def op_partial_def)
qed

lemma shown_ops:
  assumes "time_sort srt" and "\<forall>op\<in>set ops. op_Call op \<le> op_Return op" and "shown describe (makeEntries srt ops) P d"
    and "\<forall>p\<in>P. \<exists>order. p = map int order \<and> partial_linearization (fillDefault m) (makeEntries srt ops) order"
  shows "shows_ops m describe ops d"
proof -
  let ?es = "makeEntries srt ops"
  note T = assms(1) [THEN time_sort.length_srt, of ops] time_sort.position_of [OF assms(1)]
  obtain cv rv where s: "seen describe ?es (length ?es) (pv_History d) cv rv" using assms(3) by (auto simp: shown_def)
  have "he_ClientId (pv_History d ! i) = op_Client (ops ! i) \<and> he_Start (pv_History d ! i) = op_Call (ops ! i) \<and>
      he_End (pv_History d ! i) = op_Return (ops ! i) \<and>
      describe (op_Input (ops ! i)) (op_Output (ops ! i)) = Some (he_Description (pv_History d ! i))" if i: "i < length ops" for i
  proof -
    obtain p where p: "p < length ?es" "?es ! p = call_of ops i" using T(2) [OF i, of "call_of ops i"] by blast
    obtain q where q: "q < length ?es" "?es ! q = return_of ops i" using T(2) [OF i, of "return_of ops i"] by blast
    have c: "call_of ops i \<in> set ?es" using nth_mem [OF p(1)] p(2) by simp
    have "he_End (pv_History d ! i) = op_Return (ops ! i)"
      "\<forall>c\<in>set ?es. en_kind c = callEntry \<and> en_id c = int i \<longrightarrow> describe (en_value c) (op_Output (ops ! i)) = Some (he_Description (pv_History d ! i))"
      using s q by (auto simp: seen_def Let_def)
    moreover have "he_ClientId (pv_History d ! i) = op_Client (ops ! i)" "he_Start (pv_History d ! i) = op_Call (ops ! i)"
      using s p by (auto simp: seen_def Let_def)
    ultimately show ?thesis using c by auto
  qed
  moreover have "\<exists>order. map ls_Index lin = map int order \<and> op_partial m ops order"
    if "lin \<in> set (pv_PartialLinearizations d)" for lin
  proof -
    have "map ls_Index lin \<in> P" using that assms(3) by (auto simp: shown_def)
    then show ?thesis using assms(4) partial_makeEntries [OF assms(1,2)] by blast
  qed
  ultimately show ?thesis using s T(1) assms(3) by (simp add: shows_ops_def seen_def shown_def)
qed

text \<open>C39: the picture of a check.  For every result of a verbose check of operations, whatever the order of the goroutines and whenever
  the timeout comes, the data for the picture are computed without a panic.  Every operation appears with its client, its
  times and its description; every list that is shown is a partial linearization (it respects the order of calls and
  returns, and the model accepts it); and \<^verbatim>\<open>Largest\<close> gives, for exactly the operations that occur in a list, the
  position of a longest list with it.\<close>

theorem visualization_correct:
  assumes "time_sort srt" and "length_sort lsrt" and "enumerates ord"
    and "Partition (fillDefault m) = Some part" and "part history = Some parts" and "\<forall>p\<in>set parts. ops_ok m p"
    and "\<forall>p\<in>set parts. \<forall>op\<in>set p. describe (op_Input op) (op_Output op) \<noteq> None"
    and "checkOperations srt sched kills m history True = Some (res, info)"
  shows "\<exists>data. computeVisualizationData lsrt ord describe describeState m info = Some data \<and> length data = length parts \<and>
    (\<forall>i<length parts. shows_ops m describe (parts ! i) (data ! i))"
proof -
  let ?l = "map (makeEntries srt) parts" and ?m = "fillDefault m"
  have fits: "\<forall>es\<in>set ?l. wf_entries es \<and> model_fits ?m es"
    using assms(6) time_sort.wf_makeEntries [OF assms(1)] op_fits_entries [OF assms(1), of ?m] by (auto simp: ops_ok_def)
  have "checkParallel kills ?m ?l True (sched (length ?l)) = Some (res, info)"
    using assms(4,5,8) by (simp add: checkOperations_def)
  note I = checkParallel_info [OF fits this]
  let ?P = "\<lambda>i. li_partialLinearizations info ! i"
  have "\<exists>d. visualPartition lsrt ?m describe describeState (?l ! i) (ord (?P i)) = Some d \<and> shows_ops m describe (parts ! i) d"
    if i: "i < length parts" for i
  proof -
    have p: "finite (?P i)" "\<forall>p\<in>?P i. \<exists>order. p = map int order \<and> partial_linearization ?m (?l ! i) order" using I i by simp_all
    then have ord: "set (ord (?P i)) = ?P i" using assms(3) by (simp add: enumerates_def)
    have "\<forall>op\<in>set (parts ! i). describe (op_Input op) (op_Output op) \<noteq> None" using assms(7) nth_mem [OF i] by blast
    then have "describes describe (?l ! i)"
      using i by (auto simp: describes_def time_sort.set_srt [OF assms(1)] set_rawEntries)
    moreover have "wf_entries (?l ! i)" using fits i by simp
    moreover have "\<forall>p\<in>set (ord (?P i)). \<exists>order. p = map int order \<and> legal ?m (?l ! i) (Init ?m) order"
      using p(2) ord by (auto simp: partial_linearization_def)
    ultimately obtain d where d: "visualPartition lsrt ?m describe describeState (?l ! i) (ord (?P i)) = Some d"
      "shown describe (?l ! i) (?P i) d" using visualPartition_shown [OF assms(2)] ord by metis
    moreover have "\<forall>op\<in>set (parts ! i). op_Call op \<le> op_Return op" using assms(6) nth_mem [OF i] by (auto simp: ops_ok_def)
    ultimately show ?thesis using shown_ops [OF assms(1)] p(2) i by auto
  qed
  then obtain g where g: "\<And>i. i < length parts \<Longrightarrow> visualPartition lsrt ?m describe describeState (?l ! i) (ord (?P i)) = Some (g i)"
    "\<And>i. i < length parts \<Longrightarrow> shows_ops m describe (parts ! i) (g i)" by metis
  have "computeVisualizationData lsrt ord describe describeState m info = Some (map g [0..<length (li_history info)])"
    unfolding computeVisualizationData_def Let_def
    by (rule visual_loop_collect [of _ "\<lambda>i. Option.bind (idx (li_history info) (int i)) (\<lambda>es. Option.bind
        (idx (li_partialLinearizations info) (int i)) (\<lambda>ps. visualPartition lsrt ?m describe describeState es (ord ps)))"])
      (use I g(1) in \<open>simp_all add: Option.bind_assoc\<close>)
  then show ?thesis using g(2) I by simp
qed

theorem visualization_correct_witness:
  "\<exists>res info data. CheckOperationsVerbose (sliceStable byTime_Less) (\<lambda>n. map Finished [0..<n]) (\<lambda>_ _. False)
       register overlapping_ops = Some (res, info) \<and>
     computeVisualizationData (sliceStable longer) sorted_list_of_set (\<lambda>_ _. Some ''op'') (\<lambda>_. ''state'') register info = Some data \<and>
     length data = 1 \<and> shows_ops register (\<lambda>_ _. Some ''op'') overlapping_ops (data ! 0)"
proof -
  have 1: "Partition (fillDefault register) = Some NoPartition" by (simp add: fillDefault_def register_def)
  have 2: "NoPartition overlapping_ops = Some [overlapping_ops]" by (simp add: NoPartition_def)
  have 3: "\<forall>p\<in>set [overlapping_ops]. ops_ok register p"
    by (simp add: ops_ok_def overlapping_ops_def op_fits_def modelEqual_def register_def ShallowEqual_def [abs_def]
        stepTo_def identity_equivp option.rel_eq)
  let ?c = "checkOperations (sliceStable byTime_Less) (\<lambda>n. map Finished [0..<n]) (\<lambda>_ _. False) register overlapping_ops True"
  have "all_finish (\<lambda>n. map Finished [0..<n]) (length [overlapping_ops])" unfolding all_finish_def by (intro exI [of _ "[0]"]) auto
  from checkOperations_all [OF stable.time_sort_axioms 1 2 3 this, of "\<lambda>_ _. False" True]
  obtain res info where c: "?c = Some (res, info)" by auto
  have "enumerates sorted_list_of_set" by (simp add: enumerates_def)
  from visualization_correct [OF stable.time_sort_axioms short_slice.length_sort_axioms this 1 2 3 _ c,
      of "\<lambda>_ _. Some ''op''" "\<lambda>_. ''state''"]
  show ?thesis using c by (auto simp: CheckOperationsVerbose_def)
qed

end
