(* ===== verification/Labgob.thy ===== *)
theory Labgob
  imports Go_Prelude Go_Unicode
begin

section \<open>The encoder's checks (\<^verbatim>\<open>labgob/labgob.go\<close>)\<close>

text \<open>
  \<^verbatim>\<open>labgob\<close> wraps \<^verbatim>\<open>encoding/gob\<close>, which is a parameter, and warns about types with lower-case fields and about decoding
  into variables that are not zero.  Types may refer to each other, and to themselves: a type is a name of type \<open>'t\<close>,
  and \<open>T\<close> tells what reflection finds under the name.  The state is what the package keeps in variables, with the warnings
  that it has printed.
\<close>

datatype 't kind =
    StructKind "(string \<times> 't) list"
  | ElemKind 't \<comment> \<open>slices, arrays and pointers\<close>
  | MapKind 't 't \<comment> \<open>element and key\<close>
  | OtherKind

datatype 't warning = LowerCase string 't | NonDefault string

record 't checks =
  checked :: "'t list" \<comment> \<open>the keys of the map\<close>
  errorCount :: int
  printed :: "'t warning list"

text \<open>Whether the first rune of a name is upper case; \<open>up\<close> is \<^verbatim>\<open>unicode.IsUpper\<close>.  This is also the test for exported names.\<close>

definition IsUpper :: "(int \<Rightarrow> bool) \<Rightarrow> string \<Rightarrow> bool" where
  "IsUpper up name = up (fst (DecodeRuneInString name))"

text \<open>
  \<^verbatim>\<open>checkType\<close>.  The recursion ends because types are checked once; the first argument bounds its depth, and \<^const>\<open>None\<close> tells that
  it was too small.
\<close>

fun checkType :: "(int \<Rightarrow> bool) \<Rightarrow> nat \<Rightarrow> ('t \<Rightarrow> 't kind) \<Rightarrow> 't \<Rightarrow> 't checks \<Rightarrow> 't checks option" where
  "checkType up 0 T t s = None"
| "checkType up (Suc fuel) T t s =
     (if t \<in> set (checked s) then Some s
      else
        let s1 = s\<lparr>checked := checked s @ [t]\<rparr> in
        case T t of
          StructKind fs \<Rightarrow> for_loop fs (\<lambda>(name, u) s.
            checkType up fuel T u
              (if \<not> IsUpper up name
               then s\<lparr>printed := printed s @ [LowerCase name t], errorCount := errorCount s + 1\<rparr> else s)) s1
        | ElemKind u \<Rightarrow> checkType up fuel T u s1
        | MapKind e k \<Rightarrow> Option.bind (checkType up fuel T e s1) (checkType up fuel T k)
        | OtherKind \<Rightarrow> Some s1)"

text \<open>
  Values, as far as \<^verbatim>\<open>checkDefault\<close> looks at them: structs, whose fields have a name and may be embedded, pointers, the basic kinds with whether
  the value is the zero value of its type and the name of the type, and the rest.  Reflection does not give out a value that was
  reached through a field that is not exported: \<^verbatim>\<open>value.Interface()\<close> panics (\<^const>\<open>None\<close>).  \<open>ro\<close> holds the two flags of
  \<^verbatim>\<open>reflect.Value\<close> for such a value: reached through a field, which further fields inherit, or being itself an embedded field.
\<close>

datatype gval =
    VStruct "(string \<times> bool \<times> gval) list"
  | VPtr "gval option"
  | VBasic bool string
  | VOther

definition fieldFlags :: "(int \<Rightarrow> bool) \<Rightarrow> bool \<times> bool \<Rightarrow> string \<Rightarrow> bool \<Rightarrow> bool \<times> bool" where
  "fieldFlags up ro name embedded =
     (if IsUpper up name then (fst ro, False) else if embedded then (fst ro, True) else (True, False))"

lemma for_loop_cong [fundef_cong]:
  "xs = ys \<Longrightarrow> s = t \<Longrightarrow> (\<And>x u. x \<in> set ys \<Longrightarrow> f x u = g x u) \<Longrightarrow> for_loop xs f s = for_loop ys g t"
proof -
  have "(\<And>x u. x \<in> set ys \<Longrightarrow> f x u = g x u) \<Longrightarrow> for_loop ys f t = for_loop ys g t"
    by (induction ys arbitrary: t) (auto split: option.splits)
  then show "xs = ys \<Longrightarrow> s = t \<Longrightarrow> (\<And>x u. x \<in> set ys \<Longrightarrow> f x u = g x u) \<Longrightarrow> for_loop xs f s = for_loop ys g t" by simp
qed

fun checkDefault1 :: "(int \<Rightarrow> bool) \<Rightarrow> gval \<Rightarrow> bool \<times> bool \<Rightarrow> nat \<Rightarrow> string \<Rightarrow> 't checks \<Rightarrow> 't checks option" where
  "checkDefault1 up (VStruct fs) ro depth name s =
     (if depth > 3 then Some s
      else for_loop fs (\<lambda>(n, embedded, v) s.
        checkDefault1 up v (fieldFlags up ro n embedded) (depth + 1) (if name \<noteq> '''' then name @ ''.'' @ n else n) s) s)"
| "checkDefault1 up (VPtr p) ro depth name s =
     (if depth > 3 then Some s else case p of None \<Rightarrow> Some s | Some v \<Rightarrow> checkDefault1 up v ro (depth + 1) name s)"
| "checkDefault1 up (VBasic zero tyname) ro depth name s =
     (if depth > 3 then Some s
      else if fst ro \<or> snd ro then None
      else if zero then Some s
      else
        let s1 = (if errorCount s < 1
                  then s\<lparr>printed := printed s @ [NonDefault (if name = '''' then tyname else name)]\<rparr> else s)
        in Some (s1\<lparr>errorCount := errorCount s1 + 1\<rparr>))"
| "checkDefault1 up VOther ro depth name s = Some s"

definition checkDefault :: "(int \<Rightarrow> bool) \<Rightarrow> gval option \<Rightarrow> 't checks \<Rightarrow> 't checks option" where
  "checkDefault up value s = (case value of None \<Rightarrow> Some s | Some v \<Rightarrow> checkDefault1 up v (False, False) 1 '''' s)"

text \<open>
  The operations: check, then call \<^verbatim>\<open>gob\<close>, a function on its own state (an encoder, a decoder or the table of
  registered types; a registration may panic).  A value comes with its type; the type of nil is nil, and asking for its kind
  panics (\<^const>\<open>None\<close>).
\<close>

definition checkValue :: "(int \<Rightarrow> bool) \<Rightarrow> nat \<Rightarrow> ('t \<Rightarrow> 't kind) \<Rightarrow> 't option \<Rightarrow> 't checks \<Rightarrow> 't checks option" where
  "checkValue up fuel T t s = Option.bind t (\<lambda>t. checkType up fuel T t s)"

definition Encode ::
  "(int \<Rightarrow> bool) \<Rightarrow> nat \<Rightarrow> ('t \<Rightarrow> 't kind) \<Rightarrow> ('v \<Rightarrow> 'g \<Rightarrow> 'g \<times> 'r) \<Rightarrow> 't option \<times> 'v \<Rightarrow> 'g \<Rightarrow> 't checks \<Rightarrow> ('t checks \<times> 'g \<times> 'r) option" where
  "Encode up fuel T gob e enc s = map_option (\<lambda>s'. (s', gob (snd e) enc)) (checkValue up fuel T (fst e) s)"

definition Decode ::
  "(int \<Rightarrow> bool) \<Rightarrow> nat \<Rightarrow> ('t \<Rightarrow> 't kind) \<Rightarrow> ('v \<Rightarrow> 'g \<Rightarrow> 'g \<times> 'r) \<Rightarrow> 't option \<times> gval option \<times> 'v \<Rightarrow> 'g \<Rightarrow> 't checks \<Rightarrow>
   ('t checks \<times> 'g \<times> 'r) option" where
  "Decode up fuel T gob e dec s =
     Option.bind (checkValue up fuel T (fst e) s) (\<lambda>s'.
       map_option (\<lambda>s2. (s2, gob (snd (snd e)) dec)) (checkDefault up (fst (snd e)) s'))"

definition Register ::
  "(int \<Rightarrow> bool) \<Rightarrow> nat \<Rightarrow> ('t \<Rightarrow> 't kind) \<Rightarrow> ('v \<Rightarrow> 'g \<Rightarrow> 'g option) \<Rightarrow> 't option \<times> 'v \<Rightarrow> 'g \<Rightarrow> 't checks \<Rightarrow> ('t checks \<times> 'g) option" where
  "Register up fuel T gob v reg s = Option.bind (checkValue up fuel T (fst v) s) (\<lambda>s'. map_option (Pair s') (gob (snd v) reg))"

definition RegisterName ::
  "(int \<Rightarrow> bool) \<Rightarrow> nat \<Rightarrow> ('t \<Rightarrow> 't kind) \<Rightarrow> (string \<Rightarrow> 'v \<Rightarrow> 'g \<Rightarrow> 'g option) \<Rightarrow> string \<Rightarrow> 't option \<times> 'v \<Rightarrow> 'g \<Rightarrow> 't checks \<Rightarrow>
   ('t checks \<times> 'g) option" where
  "RegisterName up fuel T gob name v reg s =
     Option.bind (checkValue up fuel T (fst v) s) (\<lambda>s'. map_option (Pair s') (gob name (snd v) reg))"

section \<open>Every type once, every lower-case field counted\<close>

fun parts :: "'t kind \<Rightarrow> 't list" where
  "parts (StructKind fs) = map snd fs"
| "parts (ElemKind u) = [u]"
| "parts (MapKind e k) = [e, k]"
| "parts OtherKind = []"

fun lowers :: "(int \<Rightarrow> bool) \<Rightarrow> 't kind \<Rightarrow> nat" where
  "lowers up (StructKind fs) = length (filter (\<lambda>(n, u). \<not> IsUpper up n) fs)"
| "lowers up _ = 0"

abbreviation refers :: "('t \<Rightarrow> 't kind) \<Rightarrow> 't \<Rightarrow> 't \<Rightarrow> bool" where
  "refers T t u \<equiv> u \<in> set (parts (T t))"

text \<open>What a part of the search has done: it has come to the types \<open>ts\<close> and counted \<open>k\<close> fields on the way.\<close>

definition grew :: "(int \<Rightarrow> bool) \<Rightarrow> ('t \<Rightarrow> 't kind) \<Rightarrow> 't set \<Rightarrow> nat \<Rightarrow> 't checks \<Rightarrow> 't checks \<Rightarrow> bool" where
  "grew up T ts k s s' \<longleftrightarrow> (\<exists>new. checked s' = checked s @ new \<and> distinct new \<and> set new \<inter> set (checked s) = {} \<and>
     (\<forall>u \<in> set new. \<exists>t \<in> ts. (refers T)\<^sup>*\<^sup>* t u) \<and> (\<forall>u \<in> set new. set (parts (T u)) \<subseteq> set (checked s')) \<and>
     ts \<subseteq> set (checked s') \<and> errorCount s' = errorCount s + int k + (\<Sum>u \<leftarrow> new. int (lowers up (T u))))"

lemma grew_none: "checked s' = checked s \<Longrightarrow> ts \<subseteq> set (checked s) \<Longrightarrow> errorCount s' = errorCount s + int k \<Longrightarrow> grew up T ts k s s'"
  by (auto simp: grew_def)

lemma grew_trans:
  assumes "grew up T A k s s1" and "grew up T B l s1 s2"
  shows "grew up T (A \<union> B) (k + l) s s2"
proof -
  obtain x where x: "checked s1 = checked s @ x" "distinct x" "set x \<inter> set (checked s) = {}"
    "\<forall>u \<in> set x. \<exists>t \<in> A. (refers T)\<^sup>*\<^sup>* t u" "\<forall>u \<in> set x. set (parts (T u)) \<subseteq> set (checked s1)" "A \<subseteq> set (checked s1)"
    "errorCount s1 = errorCount s + int k + (\<Sum>u \<leftarrow> x. int (lowers up (T u)))" using assms(1) by (auto simp: grew_def)
  obtain y where y: "checked s2 = checked s1 @ y" "distinct y" "set y \<inter> set (checked s1) = {}"
    "\<forall>u \<in> set y. \<exists>t \<in> B. (refers T)\<^sup>*\<^sup>* t u" "\<forall>u \<in> set y. set (parts (T u)) \<subseteq> set (checked s2)" "B \<subseteq> set (checked s2)"
    "errorCount s2 = errorCount s1 + int l + (\<Sum>u \<leftarrow> y. int (lowers up (T u)))" using assms(2) by (auto simp: grew_def)
  show ?thesis
    unfolding grew_def
  proof (intro exI [of _ "x @ y"] conjI)
    show "distinct (x @ y)" "set (x @ y) \<inter> set (checked s) = {}" using x(1-3) y(2,3) by auto
    show "\<forall>u \<in> set (x @ y). \<exists>t \<in> A \<union> B. (refers T)\<^sup>*\<^sup>* t u" using x(4) y(4) by auto
    show "\<forall>u \<in> set (x @ y). set (parts (T u)) \<subseteq> set (checked s2)" using x(5) y(1,5) by auto
    show "A \<union> B \<subseteq> set (checked s2)" using x(6) y(1,6) by auto
  qed (use x y in simp_all)
qed

lemma grew_type:
  assumes "grew up T (set (parts (T t))) (lowers up (T t)) (s\<lparr>checked := checked s @ [t]\<rparr>) s'" and "t \<notin> set (checked s)"
  shows "grew up T {t} 0 s s'"
proof -
  obtain x where x: "checked s' = (checked s @ [t]) @ x" "distinct x" "set x \<inter> set (checked s @ [t]) = {}"
    "\<forall>u \<in> set x. \<exists>v \<in> set (parts (T t)). (refers T)\<^sup>*\<^sup>* v u" "\<forall>u \<in> set x. set (parts (T u)) \<subseteq> set (checked s')"
    "set (parts (T t)) \<subseteq> set (checked s')" "errorCount s' = errorCount s + int (lowers up (T t)) + (\<Sum>u \<leftarrow> x. int (lowers up (T u)))"
    using assms(1) by (auto simp: grew_def)
  have "(refers T)\<^sup>*\<^sup>* t u" if "u \<in> set x" for u
    using x(4) that converse_rtranclp_into_rtranclp [of "refers T" t] by blast
  then show ?thesis unfolding grew_def by (intro exI [of _ "t # x"]) (use x assms(2) in auto)
qed

lemma checkType_grew: "checkType up fuel T t s = Some s' \<Longrightarrow> grew up T {t} 0 s s'"
proof (induction fuel arbitrary: t s s')
  case (Suc fuel)
  show ?case
  proof (cases "t \<in> set (checked s)")
    case True
    with Suc.prems show ?thesis by (auto intro: grew_none)
  next
    case False
    let ?s = "s\<lparr>checked := checked s @ [t]\<rparr>"
    have fields: "grew up T (snd ` set fs) (length (filter (\<lambda>(n, u). \<not> IsUpper up n) fs)) a b"
      if "for_loop fs (\<lambda>(name, u) s. checkType up fuel T u (if \<not> IsUpper up name
        then s\<lparr>printed := printed s @ [LowerCase name t], errorCount := errorCount s + 1\<rparr> else s)) a = Some b" for fs a b
      using that
    proof (induction fs arbitrary: a)
      case (Cons f fs)
      obtain n u where f: "f = (n, u)" by (cases f)
      let ?a = "if \<not> IsUpper up n then a\<lparr>printed := printed a @ [LowerCase n t], errorCount := errorCount a + 1\<rparr> else a"
      from Cons.prems obtain c where c: "checkType up fuel T u ?a = Some c"
        "for_loop fs (\<lambda>(name, u) s. checkType up fuel T u (if \<not> IsUpper up name
        then s\<lparr>printed := printed s @ [LowerCase name t], errorCount := errorCount s + 1\<rparr> else s)) c = Some b"
        by (auto simp: f split: option.splits)
      have "grew up T {} (if \<not> IsUpper up n then 1 else 0) a ?a" by (rule grew_none) auto
      from grew_trans [OF grew_trans [OF this Suc.IH [OF c(1)]] Cons.IH [OF c(2)]]
      show ?case by (cases "IsUpper up n") (simp_all add: f)
    qed (simp add: grew_none)
    have "grew up T (set (parts (T t))) (lowers up (T t)) ?s s'"
    proof (cases "T t")
      case (StructKind fs)
      with Suc.prems False fields [of fs ?s s'] show ?thesis by (simp add: Let_def)
    next
      case (ElemKind u)
      with Suc.prems False Suc.IH [of u ?s s'] show ?thesis by (simp add: Let_def)
    next
      case (MapKind e k)
      with Suc.prems False obtain a where "checkType up fuel T e ?s = Some a" "checkType up fuel T k a = Some s'"
        by (auto simp: Let_def split: bind_splits)
      from grew_trans [OF Suc.IH [OF this(1)] Suc.IH [OF this(2)]] MapKind show ?thesis by (simp add: insert_commute)
    qed (use Suc.prems False in \<open>simp add: Let_def grew_none\<close>)
    then show ?thesis using False by (rule grew_type)
  qed
qed simp

text \<open>The depth is bounded by the number of types.\<close>

lemma checkType_returns:
  assumes "finite R" and "\<And>u v. u \<in> R \<Longrightarrow> refers T u v \<Longrightarrow> v \<in> R"
  shows "t \<in> R \<Longrightarrow> card (R - set (checked s)) < fuel \<Longrightarrow> \<exists>s'. checkType up fuel T t s = Some s'"
proof (induction fuel arbitrary: t s)
  case (Suc fuel)
  show ?case
  proof (cases "t \<in> set (checked s)")
    case False
    let ?s = "s\<lparr>checked := checked s @ [t]\<rparr>"
    let ?I = "\<lambda>a. set (checked ?s) \<subseteq> set (checked a)"
    have less: "card (R - set (checked a)) < fuel" if "?I a" for a
    proof -
      have "R - set (checked a) \<subset> R - set (checked s)" using that False Suc.prems(1) by auto
      then have "card (R - set (checked a)) < card (R - set (checked s))" using assms(1) by (intro psubset_card_mono) auto
      then show ?thesis using Suc.prems(2) by simp
    qed
    have step: "\<exists>b. checkType up fuel T u a = Some b \<and> ?I b" if "refers T t u" "?I a" for u a
    proof -
      have "u \<in> R" using assms(2) Suc.prems(1) that(1) by blast
      from Suc.IH [OF this less [OF that(2)]] obtain b where b: "checkType up fuel T u a = Some b" by blast
      then show ?thesis using checkType_grew [OF b] that(2) by (auto simp: grew_def)
    qed
    show ?thesis
    proof (cases "T t")
      case (StructKind fs)
      have "\<exists>s'. for_loop fs (\<lambda>(name, u) s. checkType up fuel T u (if \<not> IsUpper up name
        then s\<lparr>printed := printed s @ [LowerCase name t], errorCount := errorCount s + 1\<rparr> else s)) ?s = Some s' \<and> ?I s'"
        by (rule for_loop_total) (use step StructKind in force)+
      then show ?thesis using False StructKind by (auto simp: Let_def)
    next
      case (ElemKind u)
      then show ?thesis using step [of u ?s] False by (auto simp: Let_def)
    next
      case (MapKind e k)
      obtain a where "checkType up fuel T e ?s = Some a" "?I a" using step [of e ?s] MapKind by auto
      then show ?thesis using step [of k a] MapKind False by (auto simp: Let_def)
    qed (use False in \<open>simp add: Let_def\<close>)
  qed simp
qed simp

text \<open>C38: the check of a type.  If finitely many types can be reached from a type, the recursive check returns, whatever cycles
  they form; it has looked at each of them exactly once and has counted every field of these types that does not
  begin with an upper-case letter (whichever runes \<^verbatim>\<open>unicode.IsUpper\<close> takes for upper case).\<close>

theorem checkType_correct:
  assumes "finite {u. (refers T)\<^sup>*\<^sup>* t u}" and "card {u. (refers T)\<^sup>*\<^sup>* t u} < fuel" and "checked s = []"
  shows "\<exists>s'. checkType up fuel T t s = Some s' \<and> distinct (checked s') \<and> set (checked s') = {u. (refers T)\<^sup>*\<^sup>* t u} \<and>
    errorCount s' = errorCount s + (\<Sum>u \<in> {u. (refers T)\<^sup>*\<^sup>* t u}. int (lowers up (T u)))"
proof -
  let ?R = "{u. (refers T)\<^sup>*\<^sup>* t u}"
  obtain s' where s': "checkType up fuel T t s = Some s'"
    using checkType_returns [OF assms(1), of T t s fuel up] assms(2,3) by (auto intro: rtranclp.rtrancl_into_rtrancl)
  from checkType_grew [OF this] assms(3) have g: "distinct (checked s')" "\<forall>u \<in> set (checked s'). (refers T)\<^sup>*\<^sup>* t u"
    "\<forall>u \<in> set (checked s'). set (parts (T u)) \<subseteq> set (checked s')" "t \<in> set (checked s')"
    "errorCount s' = errorCount s + (\<Sum>u \<leftarrow> checked s'. int (lowers up (T u)))" by (auto simp: grew_def)
  have "u \<in> set (checked s')" if "(refers T)\<^sup>*\<^sup>* t u" for u
    using that g(3,4) by (induction rule: rtranclp_induct) auto
  with g(2) have R: "set (checked s') = ?R" by blast
  have "errorCount s' = errorCount s + (\<Sum>u \<in> set (checked s'). int (lowers up (T u)))"
    using g(1,5) by (simp add: sum_list_distinct_conv_sum_set)
  then show ?thesis using s' g(1) R by simp
qed

text \<open>A list: a struct with a lower-case field and a pointer to itself.\<close>

definition asciiUpper :: "int \<Rightarrow> bool" where
  "asciiUpper r \<longleftrightarrow> 65 \<le> r \<and> r \<le> 90"

definition ex_types :: "nat \<Rightarrow> nat kind" where
  "ex_types t = (if t = 0 then StructKind [(''Next'', 1), (''val'', 2)] else if t = 1 then ElemKind 0 else OtherKind)"

theorem checkType_correct_witness:
  "\<exists>s'. checkType asciiUpper 4 ex_types 0 \<lparr>checked = [], errorCount = 0, printed = []\<rparr> = Some s' \<and>
     set (checked s') = {u. (refers ex_types)\<^sup>*\<^sup>* 0 u} \<and> checked s' = [0, 1, 2] \<and> errorCount s' = 1"
proof -
  let ?s = "\<lparr>checked = [], errorCount = 0, printed = []\<rparr> :: nat checks" and ?R = "{u. (refers ex_types)\<^sup>*\<^sup>* 0 u}"
  have "u \<in> {0, 1, 2}" if "(refers ex_types)\<^sup>*\<^sup>* 0 u" for u
    using that by (induction rule: rtranclp_induct) (auto simp: ex_types_def split: if_splits)
  then have sub: "?R \<subseteq> {0, 1, 2}" by blast
  then have fin: "finite ?R" by (rule finite_subset) simp
  have "card ?R \<le> card {0, 1, 2 :: nat}" by (rule card_mono [OF _ sub]) simp
  then have "card ?R < 4" by simp
  then obtain s' where "checkType asciiUpper 4 ex_types 0 ?s = Some s'" "set (checked s') = ?R"
    using checkType_correct [OF fin, of 4 ?s asciiUpper] by auto
  moreover have "map_option (\<lambda>s. (checked s, errorCount s)) (checkType asciiUpper 4 ex_types 0 ?s) = Some ([0, 1, 2], 1)" by code_simp
  ultimately show ?thesis by auto
qed

section \<open>Decoding into variables that are not zero\<close>

text \<open>The basic values that are not zero, down to the depth that the check looks at.\<close>

fun nonZero :: "nat \<Rightarrow> gval \<Rightarrow> nat" where
  "nonZero depth (VStruct fs) = (if depth > 3 then 0 else \<Sum>(n, e, v) \<leftarrow> fs. nonZero (depth + 1) v)"
| "nonZero depth (VPtr p) = (if depth > 3 then 0 else case p of None \<Rightarrow> 0 | Some v \<Rightarrow> nonZero (depth + 1) v)"
| "nonZero depth (VBasic zero tyname) = (if depth > 3 \<or> zero then 0 else 1)"
| "nonZero depth VOther = 0"

lemma checkDefault1_count:
  fixes s s' :: "'t checks"
  shows "checkDefault1 up v ro depth name s = Some s' \<Longrightarrow>
    errorCount s' = errorCount s + int (nonZero depth v) \<and> checked s' = checked s"
proof (induction v arbitrary: ro depth name s s')
  case (VStruct fs)
  let ?f = "\<lambda>(n, embedded, v) s.
    checkDefault1 up v (fieldFlags up ro n embedded) (depth + 1) (if name \<noteq> '''' then name @ ''.'' @ n else n) s"
  have "errorCount b = errorCount a + int (\<Sum>(n, e, v) \<leftarrow> xs. nonZero (depth + 1) v) \<and> checked b = checked a"
    if "set xs \<subseteq> set fs" "for_loop xs ?f a = Some b" for xs and a b :: "'t checks"
    using that
  proof (induction xs arbitrary: a)
    case (Cons x xs)
    obtain n e v where x: "x = (n, e, v)" by (cases x) auto
    have m: "x \<in> set fs" "(e, v) \<in> Basic_BNFs.snds x" "v \<in> Basic_BNFs.snds (e, v)" using Cons.prems by (auto simp: x)
    obtain c where c: "?f x a = Some c" "for_loop xs ?f c = Some b" using Cons.prems(2) by (auto split: option.splits)
    have "errorCount c = errorCount a + int (nonZero (depth + 1) v) \<and> checked c = checked a"
      using VStruct.IH [OF m] c(1) by (simp add: x)
    then show ?case using Cons.IH [OF _ c(2)] Cons.prems(1) by (simp add: x)
  qed simp
  from this [of fs s s'] VStruct.prems show ?case by (auto split: if_splits)
next
  case (VBasic zero tyname)
  then show ?case by (auto simp: Let_def split: if_splits)
qed (auto split: option.splits if_splits)

text \<open>Decoding into a struct with a lower-case field of a basic type panics, where the check of types would only have warned.\<close>

lemma for_loop_fails: "x \<in> set xs \<Longrightarrow> \<forall>a. f x a = None \<Longrightarrow> for_loop xs f a = None"
  by (induction xs arbitrary: a) (auto split: option.splits)

lemma unexported_field_panics:
  assumes "(n, False, VBasic zero ty) \<in> set fs" and "\<not> IsUpper up n"
  shows "checkDefault up (Some (VPtr (Some (VStruct fs)))) s = None"
  using assms(2) by (simp add: checkDefault_def for_loop_fails [OF assms(1)] fieldFlags_def)

end
