(* ===== verification/Svc_Config.thy ===== *)
theory Svc_Config
  imports Raft_Config KvRaft ShardCtrler "HOL-Library.Multiset"
begin

section \<open>The test harness of the replicated services (\<^verbatim>\<open>kvraft/config.go\<close>, \<^verbatim>\<open>shardctrler/config.go\<close>)\<close>

text \<open>
  The two harnesses have the same code, apart from the type of the servers, from \<^verbatim>\<open>Leader\<close> and from what only the
  key/value service has (a limit for the Raft state, statistics).  The record \<open>harness\<close> and the operations on it are the
  common part, for servers of a type \<open>'s\<close>; the definitions at the end are what each service adds.  A panic, an index
  outside a slice or a method of nil is \<^const>\<open>None\<close>.  The names that \<^verbatim>\<open>randstring\<close> makes, other random numbers,
  addresses of new objects and times are arguments.
\<close>

subsection \<open>Shuffling\<close>

text \<open>\<open>rnd i\<close> is the random number that the \<open>i\<close>-th round draws, before it is reduced to the range of \<^verbatim>\<open>rand.Intn\<close>.\<close>

definition random_handles :: "(nat \<Rightarrow> nat) \<Rightarrow> 'a list \<Rightarrow> 'a list" where
  "random_handles rnd kvh =
     fold (\<lambda>i sa. let j = rnd i mod (i + 1) in sa[i := sa ! j, j := sa ! i]) [0..<length kvh] kvh"

subsection \<open>The state\<close>

record ('s, 'r, 'b) harness =
  h_net :: "netName Network"
  h_n :: nat
  h_servers :: "'s option list"
  h_saved :: "('r, 'b) Persister option list"
  h_endnames :: "string list option list"
  h_clerks :: "nat \<rightharpoonup> string list" \<comment> \<open>by the address of the clerk\<close>
  h_nextClientId :: int

text \<open>
  \<^verbatim>\<open>saved[i]\<close> is the \<^verbatim>\<open>Persister\<close> that the server uses as long as there is one; \<open>ps_of\<close> tells its content then.
\<close>

definition hSaved :: "('s \<Rightarrow> ('r, 'b) Persister) \<Rightarrow> ('s, 'r, 'b, 'z) harness_scheme \<Rightarrow> nat \<Rightarrow> ('r, 'b) Persister option option" where
  "hSaved ps_of cfg i = do {
     s \<leftarrow> idx (h_servers cfg) (int i);
     p \<leftarrow> idx (h_saved cfg) (int i);
     Some (case s of Some kv \<Rightarrow> Some (ps_of kv) | None \<Rightarrow> p)
   }"

definition hEnable :: "string \<Rightarrow> bool \<Rightarrow> ('s, 'r, 'b, 'z) harness_scheme \<Rightarrow> ('s, 'r, 'b, 'z) harness_scheme" where
  "hEnable endname yes cfg = cfg\<lparr>h_net := Enable (h_net cfg) (Str endname) yes\<rparr>"

text \<open>\<^verbatim>\<open>cfg.endnames[i][j]\<close>\<close>

definition hEndname :: "('s, 'r, 'b, 'z) harness_scheme \<Rightarrow> nat \<Rightarrow> nat \<Rightarrow> string option" where
  "hEndname cfg i j = do {
     row \<leftarrow> idx (h_endnames cfg) (int i);
     names \<leftarrow> row;
     idx names (int j)
   }"

subsection \<open>Connecting servers\<close>

definition connectUnlocked ::
  "('s, 'r, 'b, 'z) harness_scheme \<Rightarrow> nat \<Rightarrow> nat list \<Rightarrow> ('s, 'r, 'b, 'z) harness_scheme option" where
  "connectUnlocked cfg i to = do {
     cfg \<leftarrow> for_loop to (\<lambda>j c. do { endname \<leftarrow> hEndname c i j; Some (hEnable endname True c) }) cfg;
     for_loop to (\<lambda>j c. do { endname \<leftarrow> hEndname c j i; Some (hEnable endname True c) }) cfg
   }"

text \<open>The second loop looks at \<^verbatim>\<open>endnames[j]\<close>, although the name it needs is in the row of server \<^verbatim>\<open>from[j]\<close>.\<close>

definition disconnectUnlocked ::
  "('s, 'r, 'b, 'z) harness_scheme \<Rightarrow> nat \<Rightarrow> nat list \<Rightarrow> ('s, 'r, 'b, 'z) harness_scheme option" where
  "disconnectUnlocked cfg i from = do {
     cfg \<leftarrow> for_loop from (\<lambda>j c. do {
       row \<leftarrow> idx (h_endnames c) (int i);
       if row \<noteq> None then do { endname \<leftarrow> hEndname c i j; Some (hEnable endname False c) } else Some c
     }) cfg;
     for_loop [0..<length from] (\<lambda>j c. do {
       row \<leftarrow> idx (h_endnames c) (int j);
       if row \<noteq> None then do { endname \<leftarrow> hEndname c (from ! j) i; Some (hEnable endname False c) } else Some c
     }) cfg
   }"

definition allServers :: "('s, 'r, 'b, 'z) harness_scheme \<Rightarrow> nat list" where
  "allServers cfg = [0..<h_n cfg]"

definition ConnectAll :: "('s, 'r, 'b, 'z) harness_scheme \<Rightarrow> ('s, 'r, 'b, 'z) harness_scheme option" where
  "ConnectAll cfg = for_loop [0..<h_n cfg] (\<lambda>i c. connectUnlocked c i (allServers c)) cfg"

definition hPartition ::
  "('s, 'r, 'b, 'z) harness_scheme \<Rightarrow> nat list \<Rightarrow> nat list \<Rightarrow> ('s, 'r, 'b, 'z) harness_scheme option" where
  "hPartition cfg p1 p2 = do {
     cfg \<leftarrow> for_loop p1 (\<lambda>x c. do { c \<leftarrow> disconnectUnlocked c x p2; connectUnlocked c x p1 }) cfg;
     for_loop p2 (\<lambda>x c. do { c \<leftarrow> disconnectUnlocked c x p1; connectUnlocked c x p2 }) cfg
   }"

subsection \<open>Clerks\<close>

text \<open>New ends, each connected to the server of its position.\<close>

definition hMakeEnds :: "string list \<Rightarrow> ('s, 'r, 'b, 'z) harness_scheme \<Rightarrow> ('s, 'r, 'b, 'z) harness_scheme option" where
  "hMakeEnds names cfg = for_loop (enumerate 0 names) (\<lambda>(j, e) c. do {
     (rn, _) \<leftarrow> MakeEnd (h_net c) (Str e);
     Some (c\<lparr>h_net := Connect rn (Str e) (netName.Num j)\<rparr>)
   }) cfg"

definition ConnectClientUnlocked ::
  "('s, 'r, 'b, 'z) harness_scheme \<Rightarrow> nat \<Rightarrow> nat list \<Rightarrow> ('s, 'r, 'b, 'z) harness_scheme option" where
  "ConnectClientUnlocked cfg ck to = do {
     let endnames = map_get (h_clerks cfg) [] ck;
     for_loop to (\<lambda>j c. do { s \<leftarrow> idx endnames (int j); Some (hEnable s True c) }) cfg
   }"

definition DisconnectClientUnlocked ::
  "('s, 'r, 'b, 'z) harness_scheme \<Rightarrow> nat \<Rightarrow> nat list \<Rightarrow> ('s, 'r, 'b, 'z) harness_scheme option" where
  "DisconnectClientUnlocked cfg ck from = do {
     let endnames = map_get (h_clerks cfg) [] ck;
     for_loop from (\<lambda>j c. do { s \<leftarrow> idx endnames (int j); Some (hEnable s False c) }) cfg
   }"

text \<open>The result has the ends in the order in which the clerk gets them; \<open>ck\<close> is the address of the new clerk.\<close>

definition makeClient ::
  "(nat \<Rightarrow> string) \<Rightarrow> (nat \<Rightarrow> nat) \<Rightarrow> nat \<Rightarrow> ('s, 'r, 'b, 'z) harness_scheme \<Rightarrow> nat list \<Rightarrow>
   (('s, 'r, 'b, 'z) harness_scheme \<times> string list) option" where
  "makeClient names rnd ck cfg to = do {
     let endnames = map names [0..<h_n cfg];
     cfg \<leftarrow> hMakeEnds endnames cfg;
     let handles = random_handles rnd endnames;
     let cfg = cfg\<lparr>h_clerks := (h_clerks cfg)(ck \<mapsto> endnames), h_nextClientId := h_nextClientId cfg + 1\<rparr>;
     cfg \<leftarrow> ConnectClientUnlocked cfg ck to;
     Some (cfg, handles)
   }"

definition deleteClient :: "('s, 'r, 'b, 'z) harness_scheme \<Rightarrow> nat \<Rightarrow> ('s, 'r, 'b, 'z) harness_scheme" where
  "deleteClient cfg ck = cfg\<lparr>h_clerks := (h_clerks cfg)(ck := None)\<rparr>"

subsection \<open>Stopping and starting servers\<close>

text \<open>
  The server is killed after it has been taken out of the network and its stored state has been copied; what it still does
  cannot be seen.
\<close>

definition ShutdownServer ::
  "('s \<Rightarrow> ('r, 'b) Persister) \<Rightarrow> ('s, 'r, 'b, 'z) harness_scheme \<Rightarrow> nat \<Rightarrow> ('s, 'r, 'b, 'z) harness_scheme option" where
  "ShutdownServer ps_of cfg i = do {
     cfg \<leftarrow> disconnectUnlocked cfg i (allServers cfg);
     let cfg = cfg\<lparr>h_net := DeleteServer (h_net cfg) (netName.Num i)\<rparr>;
     ps \<leftarrow> hSaved ps_of cfg i;
     sv \<leftarrow> set_idx (h_saved cfg) (int i) (map_option Copy ps);
     ss \<leftarrow> set_idx (h_servers cfg) (int i) None;
     Some (cfg\<lparr>h_saved := sv, h_servers := ss\<rparr>)
   }"

text \<open>\<open>start\<close> makes a server from its number and the stored state; \<open>srv\<close> is the address of the new \<^verbatim>\<open>labrpc.Server\<close>.\<close>

definition hStartServer ::
  "('s \<Rightarrow> ('r, 'b) Persister) \<Rightarrow> (('s, 'r, 'b, 'z) harness_scheme \<Rightarrow> int \<Rightarrow> ('r, 'b) Persister \<Rightarrow> 's option) \<Rightarrow>
   (nat \<Rightarrow> string) \<Rightarrow> nat \<Rightarrow> ('s, 'r, 'b, 'z) harness_scheme \<Rightarrow> nat \<Rightarrow> ('s, 'r, 'b, 'z) harness_scheme option" where
  "hStartServer ps_of start names srv cfg i = do {
     let endnames = map names [0..<h_n cfg];
     en \<leftarrow> set_idx (h_endnames cfg) (int i) (Some endnames);
     cfg \<leftarrow> hMakeEnds endnames (cfg\<lparr>h_endnames := en\<rparr>);
     old \<leftarrow> hSaved ps_of cfg i;
     let ps = (case old of Some p \<Rightarrow> Copy p | None \<Rightarrow> MakePersister);
     sv \<leftarrow> set_idx (h_saved cfg) (int i) (Some ps);
     kv \<leftarrow> start cfg (int i) ps;
     ss \<leftarrow> set_idx (h_servers cfg) (int i) (Some kv);
     Some (cfg\<lparr>h_saved := sv, h_servers := ss, h_net := AddServer (h_net cfg) (netName.Num i) srv\<rparr>)
   }"

subsection \<open>Partitions with the leader in the minority\<close>

definition make_partition :: "nat \<Rightarrow> nat \<Rightarrow> (nat list \<times> nat list) option" where
  "make_partition n l = do {
     let p1 = replicate (n div 2 + 1) 0;
     let p2 = replicate (n div 2) 0;
     (p1, p2, j) \<leftarrow> for_loop [0..<n] (\<lambda>i (p1, p2, j).
       if i \<noteq> l then
         (if j < length p1 then do { p1 \<leftarrow> set_idx p1 (int j) i; Some (p1, p2, j + 1) }
          else do { p2 \<leftarrow> set_idx p2 (int j - int (length p1)) i; Some (p1, p2, j + 1) })
       else Some (p1, p2, j)) (p1, p2, 0);
     p2 \<leftarrow> set_idx p2 (int (length p2) - 1) l;
     Some (p1, p2)
   }"

text \<open>\<^verbatim>\<open>kvraft\<close> asks every server and panics if one is not there; \<^verbatim>\<open>shardctrler\<close> skips it.\<close>

fun findLeader :: "bool \<Rightarrow> ('s \<Rightarrow> ('c, 'b) Raft) \<Rightarrow> nat \<Rightarrow> 's option list \<Rightarrow> (bool \<times> nat) option" where
  "findLeader skip rf_of i [] = Some (False, 0)"
| "findLeader skip rf_of i (None # ss) = (if skip then findLeader skip rf_of (i + 1) ss else None)"
| "findLeader skip rf_of i (Some s # ss) =
     (if snd (GetState (rf_of s)) then Some (True, i) else findLeader skip rf_of (i + 1) ss)"

subsection \<open>The harness of the key/value service\<close>

record kv_config = "(KVServer, Op PersistentStatus, SnapshotStatus) harness" +
  kc_maxraftstate :: int
  kc_rpcs0 :: int
  kc_ops :: "32 word"

definition kv_ps :: "KVServer \<Rightarrow> (Op PersistentStatus, SnapshotStatus) Persister" where
  "kv_ps kv = persister (kv_rf kv)"

definition kv_StartServer :: "(nat \<Rightarrow> string) \<Rightarrow> nat \<Rightarrow> kv_config \<Rightarrow> nat \<Rightarrow> kv_config option" where
  "kv_StartServer = hStartServer kv_ps (\<lambda>cfg i ps. StartKVServer (h_n cfg) i ps (kc_maxraftstate cfg))"

definition kv_ShutdownServer :: "kv_config \<Rightarrow> nat \<Rightarrow> kv_config option" where
  "kv_ShutdownServer = ShutdownServer kv_ps"

definition kv_Leader :: "kv_config \<Rightarrow> (bool \<times> nat) option" where
  "kv_Leader cfg = findLeader False kv_rf 0 (h_servers cfg)"

definition kv_make_partition :: "kv_config \<Rightarrow> (nat list \<times> nat list) option" where
  "kv_make_partition cfg = do { (_, l) \<leftarrow> kv_Leader cfg; make_partition (h_n cfg) l }"

definition kv_make_config :: "(nat \<Rightarrow> nat \<Rightarrow> string) \<Rightarrow> (nat \<Rightarrow> nat) \<Rightarrow> nat \<Rightarrow> bool \<Rightarrow> int \<Rightarrow> kv_config option" where
  "kv_make_config names srvs n unreliable maxraftstate = do {
     cfg \<leftarrow> for_loop [0..<n] (\<lambda>i c. kv_StartServer (names i) (srvs i) c i)
       \<lparr>h_net = MakeNetwork, h_n = n, h_servers = replicate n None, h_saved = replicate n None,
        h_endnames = replicate n None, h_clerks = Map.empty, h_nextClientId = int n + 1000,
        kc_maxraftstate = maxraftstate, kc_rpcs0 = 0, kc_ops = 0\<rparr>;
     cfg \<leftarrow> ConnectAll cfg;
     Some (cfg\<lparr>h_net := Reliable (h_net cfg) (\<not> unreliable)\<rparr>)
   }"

definition kv_makeClient ::
  "(nat \<Rightarrow> string) \<Rightarrow> (nat \<Rightarrow> nat) \<Rightarrow> nat \<Rightarrow> int \<Rightarrow> kv_config \<Rightarrow> nat list \<Rightarrow> (kv_config \<times> string list \<times> Clerk) option" where
  "kv_makeClient names rnd ck rid cfg to = do {
     (cfg, handles) \<leftarrow> makeClient names rnd ck cfg to;
     Some (cfg, handles, MakeClerk (length handles) rid)
   }"

text \<open>The largest size of a stored Raft state, and of a snapshot.\<close>

definition kv_LogSize :: "(Op PersistentStatus \<Rightarrow> nat) \<Rightarrow> kv_config \<Rightarrow> nat option" where
  "kv_LogSize size_of cfg = for_loop [0..<h_n cfg] (\<lambda>i logsize. do {
     p \<leftarrow> hSaved kv_ps cfg i;
     ps \<leftarrow> p;
     Some (if RaftStateSize size_of ps > logsize then RaftStateSize size_of ps else logsize)
   }) 0"

definition kv_SnapshotSize :: "(SnapshotStatus \<Rightarrow> nat) \<Rightarrow> kv_config \<Rightarrow> nat option" where
  "kv_SnapshotSize size_of cfg = for_loop [0..<h_n cfg] (\<lambda>i snapshotsize. do {
     p \<leftarrow> hSaved kv_ps cfg i;
     ps \<leftarrow> p;
     Some (if SnapshotSize size_of ps > snapshotsize then SnapshotSize size_of ps else snapshotsize)
   }) 0"

text \<open>\<open>bad\<close>: the test has failed already; \<open>elapsed\<close>: milliseconds since the harness was made.\<close>

definition hCheckTimeout :: "bool \<Rightarrow> nat \<Rightarrow> unit option" where
  "hCheckTimeout bad elapsed = (if \<not> bad \<and> elapsed > 120000 then None else Some ())"

definition hCleanup ::
  "('s \<Rightarrow> 's) \<Rightarrow> bool \<Rightarrow> nat \<Rightarrow> ('s, 'r, 'b, 'z) harness_scheme \<Rightarrow> ('s, 'r, 'b, 'z) harness_scheme option" where
  "hCleanup kill bad elapsed cfg = do {
     let cfg = cfg\<lparr>h_servers := map (map_option kill) (h_servers cfg)\<rparr>;
     rn \<leftarrow> Cleanup (h_net cfg);
     _ \<leftarrow> hCheckTimeout bad elapsed;
     Some (cfg\<lparr>h_net := rn\<rparr>)
   }"

definition kv_cleanup :: "bool \<Rightarrow> nat \<Rightarrow> kv_config \<Rightarrow> kv_config option" where
  "kv_cleanup = hCleanup kvKill"

definition kv_rpcTotal :: "kv_config \<Rightarrow> int" where
  "kv_rpcTotal cfg = GetTotalCount (h_net cfg)"

definition kv_begin :: "kv_config \<Rightarrow> kv_config" where
  "kv_begin cfg = cfg\<lparr>kc_rpcs0 := kv_rpcTotal cfg, kc_ops := 0\<rparr>"

definition kv_op :: "kv_config \<Rightarrow> kv_config" where
  "kv_op cfg = cfg\<lparr>kc_ops := kc_ops cfg + 1\<rparr>"

text \<open>The numbers that \<^verbatim>\<open>end\<close> prints: servers, calls and operations.\<close>

definition kv_end :: "bool \<Rightarrow> nat \<Rightarrow> kv_config \<Rightarrow> (nat \<times> int \<times> int) option option" where
  "kv_end bad elapsed cfg = do {
     _ \<leftarrow> hCheckTimeout bad elapsed;
     Some (if bad then None else Some (h_n cfg, kv_rpcTotal cfg - kc_rpcs0 cfg, sint (kc_ops cfg)))
   }"

subsection \<open>The harness of the shard controller\<close>

type_synonym sc_config = "(ShardCtrler, ScOp PersistentStatus, unit) harness"

definition sc_ps :: "ShardCtrler \<Rightarrow> (ScOp PersistentStatus, unit) Persister" where
  "sc_ps sc = persister (sc_rf sc)"

definition sc_StartServer :: "(nat \<Rightarrow> string) \<Rightarrow> nat \<Rightarrow> sc_config \<Rightarrow> nat \<Rightarrow> sc_config option" where
  "sc_StartServer = hStartServer sc_ps (\<lambda>cfg i ps. StartServer (h_n cfg) i ps)"

definition sc_ShutdownServer :: "sc_config \<Rightarrow> nat \<Rightarrow> sc_config option" where
  "sc_ShutdownServer = ShutdownServer sc_ps"

definition sc_Leader :: "sc_config \<Rightarrow> (bool \<times> nat) option" where
  "sc_Leader cfg = findLeader True sc_rf 0 (h_servers cfg)"

definition sc_make_partition :: "sc_config \<Rightarrow> (nat list \<times> nat list) option" where
  "sc_make_partition cfg = do { (_, l) \<leftarrow> sc_Leader cfg; make_partition (h_n cfg) l }"

definition sc_make_config :: "(nat \<Rightarrow> nat \<Rightarrow> string) \<Rightarrow> (nat \<Rightarrow> nat) \<Rightarrow> nat \<Rightarrow> bool \<Rightarrow> sc_config option" where
  "sc_make_config names srvs n unreliable = do {
     cfg \<leftarrow> for_loop [0..<n] (\<lambda>i c. sc_StartServer (names i) (srvs i) c i)
       \<lparr>h_net = MakeNetwork, h_n = n, h_servers = replicate n None, h_saved = replicate n None,
        h_endnames = replicate n None, h_clerks = Map.empty, h_nextClientId = int n + 1000\<rparr>;
     cfg \<leftarrow> ConnectAll cfg;
     Some (cfg\<lparr>h_net := Reliable (h_net cfg) (\<not> unreliable)\<rparr>)
   }"

definition sc_makeClient ::
  "(nat \<Rightarrow> string) \<Rightarrow> (nat \<Rightarrow> nat) \<Rightarrow> nat \<Rightarrow> int \<Rightarrow> sc_config \<Rightarrow> nat list \<Rightarrow> (sc_config \<times> string list \<times> ScClerk) option" where
  "sc_makeClient names rnd ck rid cfg to = do {
     (cfg, handles) \<leftarrow> makeClient names rnd ck cfg to;
     Some (cfg, handles, ScMakeClerk (length handles) rid)
   }"

definition sc_LogSize :: "(ScOp PersistentStatus \<Rightarrow> nat) \<Rightarrow> sc_config \<Rightarrow> nat option" where
  "sc_LogSize size_of cfg = for_loop [0..<h_n cfg] (\<lambda>i logsize. do {
     p \<leftarrow> hSaved sc_ps cfg i;
     ps \<leftarrow> p;
     Some (if RaftStateSize size_of ps > logsize then RaftStateSize size_of ps else logsize)
   }) 0"

definition sc_cleanup :: "bool \<Rightarrow> nat \<Rightarrow> sc_config \<Rightarrow> sc_config option" where
  "sc_cleanup = hCleanup scKill"

end
