(* ===== verification/Svc_Partition.thy ===== *)
theory Svc_Partition
  imports Svc_Config
begin

section \<open>The harness of the services: parts\<close>

text \<open>
  The shuffle of \<open>Svc_Config\<close> is a permutation; \<^verbatim>\<open>make_partition\<close> fills two lists, which are a partition of the servers if their number
  is odd; connecting and disconnecting change which ends are enabled and nothing else; \<^verbatim>\<open>partition\<close> cuts two
  disjoint parts off from each other.
\<close>

subsection \<open>The shuffle\<close>

lemma random_handles_perm: "mset (random_handles rnd kvh) = mset kvh"
proof -
  let ?f = "\<lambda>i (sa :: 'a list). let j = rnd i mod (i + 1) in sa[i := sa ! j, j := sa ! i]"
  have "length (fold ?f [0..<k] kvh) = length kvh \<and> mset (fold ?f [0..<k] kvh) = mset kvh" if "k \<le> length kvh" for k
    using that
  proof (induction k)
    case (Suc k)
    have "rnd k mod (k + 1) < length kvh" using Suc.prems mod_less_divisor [of "k + 1" "rnd k"] by linarith
    with Suc show ?case by (simp add: Let_def mset_swap)
  qed simp
  from this [of "length kvh"] show ?thesis by (simp add: random_handles_def)
qed

subsection \<open>Two parts\<close>

text \<open>The loop fills the first slice and then the second; what it does not reach stays 0.\<close>

definition fillTwo :: "nat \<Rightarrow> nat \<Rightarrow> nat list \<Rightarrow> nat list \<times> nat list" where
  "fillTwo a b xs = (take a xs @ replicate (a - length xs) 0, drop a xs @ replicate (b - (length xs - a)) 0)"

lemma fillTwo_length: "length xs \<le> a + b \<Longrightarrow> length (fst (fillTwo a b xs)) = a \<and> length (snd (fillTwo a b xs)) = b"
  by (simp add: fillTwo_def)

lemma fillTwo_left:
  assumes "length xs < a"
  shows "set_idx (fst (fillTwo a b xs)) (int (length xs)) i = Some (fst (fillTwo a b (xs @ [i])))"
    and "snd (fillTwo a b (xs @ [i])) = snd (fillTwo a b xs)"
proof -
  have "a - length xs = Suc (a - Suc (length xs))" using assms by simp
  then show "set_idx (fst (fillTwo a b xs)) (int (length xs)) i = Some (fst (fillTwo a b (xs @ [i])))"
    using assms by (simp add: fillTwo_def list_update_append)
qed (use assms in \<open>simp add: fillTwo_def\<close>)

lemma fillTwo_right:
  assumes "a \<le> length xs" and "length xs < a + b"
  shows "set_idx (snd (fillTwo a b xs)) (int (length xs) - int a) i = Some (snd (fillTwo a b (xs @ [i])))"
    and "fst (fillTwo a b (xs @ [i])) = fst (fillTwo a b xs)"
proof -
  have e: "b - (length xs - a) = Suc (b - (Suc (length xs) - a))" "nat (int (length xs) - int a) = length xs - a" using assms by auto
  show "set_idx (snd (fillTwo a b xs)) (int (length xs) - int a) i = Some (snd (fillTwo a b (xs @ [i])))"
    using assms by (simp add: fillTwo_def list_update_append e)
qed (use assms in \<open>simp add: fillTwo_def\<close>)

lemma others_length:
  assumes "l < n"
  shows "length (filter (\<lambda>i. i \<noteq> l) [0..<n]) = n - 1"
proof -
  have "set (filter (\<lambda>i. i \<noteq> l) [0..<n]) = {..<n} - {l}" by auto
  then show ?thesis using distinct_card [of "filter (\<lambda>i. i \<noteq> l) [0..<n]"] assms by simp
qed

lemma make_partition_eq:
  assumes "l < n" and "2 \<le> n"
  shows "make_partition n l = Some (fst (fillTwo (n div 2 + 1) (n div 2) (filter (\<lambda>i. i \<noteq> l) [0..<n])),
    (snd (fillTwo (n div 2 + 1) (n div 2) (filter (\<lambda>i. i \<noteq> l) [0..<n])))[n div 2 - 1 := l])"
proof -
  let ?a = "n div 2 + 1" and ?b = "n div 2"
  let ?body = "\<lambda>i (p1, p2, j).
       if i \<noteq> l then
         (if j < length p1 then do { p1 \<leftarrow> set_idx p1 (int j) i; Some (p1, p2, j + 1) }
          else do { p2 \<leftarrow> set_idx p2 (int j - int (length p1)) i; Some (p1, p2, j + 1) })
       else Some (p1, p2, j)"
  let ?xs = "\<lambda>k. filter (\<lambda>i. i \<noteq> l) [0..<k]"
  have "for_loop [0..<k] ?body (replicate ?a 0, replicate ?b 0, 0) =
      Some (fst (fillTwo ?a ?b (?xs k)), snd (fillTwo ?a ?b (?xs k)), length (?xs k))" if "k \<le> n" for k
    using that
  proof (induction k)
    case (Suc k)
    let ?ys = "?xs k"
    have len: "length ?ys \<le> k" using length_filter_le [of "\<lambda>i. i \<noteq> l" "[0..<k]"] by simp
    have lens: "length (fst (fillTwo ?a ?b ?ys)) = ?a \<and> length (snd (fillTwo ?a ?b ?ys)) = ?b"
      by (rule fillTwo_length) (use len Suc.prems in linarith)
    have IH: "for_loop [0..<k] ?body (replicate ?a 0, replicate ?b 0, 0) =
      Some (fst (fillTwo ?a ?b ?ys), snd (fillTwo ?a ?b ?ys), length ?ys)" using Suc by simp
    have room: "length ?ys < ?a + ?b" using len Suc.prems by linarith
    have "?body k (fst (fillTwo ?a ?b ?ys), snd (fillTwo ?a ?b ?ys), length ?ys) =
        Some (fst (fillTwo ?a ?b (?xs (Suc k))), snd (fillTwo ?a ?b (?xs (Suc k))), length (?xs (Suc k)))"
    proof (cases "k = l \<or> length ?ys < ?a")
      case True
      then show ?thesis using fillTwo_left [of ?ys ?a ?b k] lens by auto
    next
      case False
      then show ?thesis using fillTwo_right [of ?a ?ys ?b k] lens room by auto
    qed
    with IH show ?case by (simp add: for_loop_append del: filter_append)
  qed (simp add: fillTwo_def)
  from this [of n] have "for_loop [0..<n] ?body (replicate ?a 0, replicate ?b 0, 0) =
      Some (fst (fillTwo ?a ?b (?xs n)), snd (fillTwo ?a ?b (?xs n)), length (?xs n))" by simp
  moreover have "length (snd (fillTwo ?a ?b (?xs n))) = ?b"
    using fillTwo_length [of "?xs n" ?a ?b] others_length [OF assms(1)] by linarith
  moreover have "nat (int (n div 2) - 1) = n div 2 - 1" by linarith
  ultimately show ?thesis using assms(2) unfolding make_partition_def Let_def by simp
qed

text \<open>With an odd number of servers the parts are what they should be.\<close>

lemma make_partition_odd:
  assumes "l < n" and "odd n" and "3 \<le> n"
  obtains p1 p2 where "make_partition n l = Some (p1, p2)" and "distinct (p1 @ p2)" and "set (p1 @ p2) = {..<n}"
    and "l \<in> set p2" and "length p1 = n div 2 + 1"
proof -
  let ?xs = "filter (\<lambda>i. i \<noteq> l) [0..<n]" and ?a = "n div 2 + 1" and ?b = "n div 2"
  have len: "length ?xs = n - 1" by (rule others_length [OF assms(1)])
  have n: "n = 2 * ?b + 1" using assms(2) by presburger
  have b: "?b - (length ?xs - ?a) = 1" "?a - length ?xs = 0" "length ?xs - ?a = ?b - 1" using n len assms(3) by linarith+
  have "snd (fillTwo ?a ?b ?xs) = drop ?a ?xs @ [0]" "fst (fillTwo ?a ?b ?xs) = take ?a ?xs" using b by (simp_all add: fillTwo_def)
  moreover have "(drop ?a ?xs @ [0])[?b - 1 := l] = drop ?a ?xs @ [l]" using b(3) by (simp add: list_update_append)
  ultimately have eq: "make_partition n l = Some (take ?a ?xs, drop ?a ?xs @ [l])"
    using make_partition_eq [OF assms(1)] assms(3) by simp
  moreover have "distinct (take ?a ?xs @ drop ?a ?xs @ [l])" unfolding append_assoc [symmetric] append_take_drop_id by simp
  moreover have "set (take ?a ?xs @ drop ?a ?xs @ [l]) = {..<n}"
    unfolding append_assoc [symmetric] append_take_drop_id using assms(1) by auto
  moreover have "length (take ?a ?xs) = ?a" using n len assms(3) by simp
  ultimately show thesis by (intro that [of "take ?a ?xs" "drop ?a ?xs @ [l]"]) simp_all
qed

text \<open>With an even number server 0 is in the second part although it may not belong there; a single server makes the code panic.\<close>

lemma make_partition_even:
  assumes "l < n" and "even n" and "4 \<le> n"
  shows "\<exists>p1 p2. make_partition n l = Some (p1, p2) \<and> 0 \<in> set p2 \<and> \<not> distinct (p1 @ p2)"
proof -
  let ?xs = "filter (\<lambda>i. i \<noteq> l) [0..<n]" and ?a = "n div 2 + 1" and ?b = "n div 2"
  have len: "length ?xs = n - 1" by (rule others_length [OF assms(1)])
  have n: "n = 2 * ?b" using assms(2) by presburger
  have b: "?b - (length ?xs - ?a) = 2" "?a - length ?xs = 0" "length ?xs - ?a = ?b - 2" "2 \<le> ?b" using n len assms(3) by linarith+
  have "snd (fillTwo ?a ?b ?xs) = drop ?a ?xs @ [0, 0]" "fst (fillTwo ?a ?b ?xs) = take ?a ?xs"
    using b by (simp_all add: fillTwo_def numeral_2_eq_2)
  moreover have "?b - 1 - (?b - 2) = 1" "\<not> ?b - 1 < ?b - 2" using b(4) by linarith+
  then have "(drop ?a ?xs @ [0, 0])[?b - 1 := l] = drop ?a ?xs @ [0, l]" using b(3,4) by (simp add: list_update_append)
  ultimately have eq: "make_partition n l = Some (take ?a ?xs, drop ?a ?xs @ [0, l])"
    using make_partition_eq [OF assms(1)] assms(3) by simp
  have "\<not> distinct (?xs @ [0, l])" using assms(1,3) by (cases "l = 0") auto
  then have "\<not> distinct (take ?a ?xs @ drop ?a ?xs @ [0, l])" unfolding append_assoc [symmetric] append_take_drop_id .
  with eq show ?thesis by auto
qed

lemma make_partition_single: "make_partition 1 l = None"
  by (simp add: make_partition_def Let_def set_idx_def)

subsection \<open>The leader\<close>

lemma findLeader_returns:
  assumes "\<forall>s\<in>set ss. s \<noteq> None"
  shows "\<exists>b l. findLeader skip rf_of i ss = Some (b, l) \<and> (b \<longrightarrow> i \<le> l \<and> l < i + length ss \<and>
    (\<exists>s. ss ! (l - i) = Some s \<and> role (rf_of s) = Leader)) \<and> (\<not> b \<longrightarrow> l = 0 \<and> (\<forall>s\<in>set ss. role (rf_of (the s)) \<noteq> Leader))"
  using assms
proof (induction ss arbitrary: i)
  case (Cons x ss)
  then obtain s where s: "x = Some s" by auto
  show ?case
  proof (cases "role (rf_of s) = Leader")
    case True
    then show ?thesis by (intro exI [of _ True] exI [of _ i]) (simp add: s GetState_def)
  next
    case False
    have "\<forall>s\<in>set ss. s \<noteq> None" using Cons.prems by simp
    from Cons.IH [OF this, of "i + 1"] obtain b l where "findLeader skip rf_of (i + 1) ss = Some (b, l)" "b \<longrightarrow> i + 1 \<le> l \<and> l < i + 1 + length ss \<and>
      (\<exists>s. ss ! (l - (i + 1)) = Some s \<and> role (rf_of s) = Leader)" "\<not> b \<longrightarrow> l = 0 \<and> (\<forall>s\<in>set ss. role (rf_of (the s)) \<noteq> Leader)"
      by (elim exE conjE) (rule that)
    then show ?thesis using False
      by (intro exI [of _ b] exI [of _ l]) (auto simp: s GetState_def nth_Cons' Suc_le_eq)
  qed
qed (simp, intro exI [of _ False], simp)

section \<open>Enabling and disabling ends\<close>

definition setEn :: "netName set \<Rightarrow> bool \<Rightarrow> ('s, 'r, 'b, 'z) harness_scheme \<Rightarrow> ('s, 'r, 'b, 'z) harness_scheme" where
  "setEn S yes c = c\<lparr>h_net := (h_net c)\<lparr>enabled := (\<lambda>e. if e \<in> S then yes else enabled (h_net c) e)\<rparr>\<rparr>"

lemma setEn_sel [simp]:
  "h_n (setEn S yes c) = h_n c" "h_endnames (setEn S yes c) = h_endnames c" "h_clerks (setEn S yes c) = h_clerks c"
  "hEndname (setEn S yes c) = hEndname c" "enabled (h_net (setEn S yes c)) e = (if e \<in> S then yes else enabled (h_net c) e)"
  by (simp_all add: setEn_def hEndname_def fun_eq_iff)

lemma hEnable_setEn: "hEnable e yes (setEn S yes c) = setEn (insert (Str e) S) yes c"
  by (simp add: hEnable_def Enable_def setEn_def fun_eq_iff)

lemma setEn_empty: "setEn {} yes c = c"
  by (simp add: setEn_def)

lemma setEn_twice: "setEn T yes (setEn S yes c) = setEn (S \<union> T) yes c"
  by (simp add: setEn_def fun_eq_iff)

lemma enable_loop:
  assumes "\<And>j S. j \<in> set xs \<Longrightarrow> body j (setEn S yes c) = Some (setEn (insert (Str (g j)) S) yes c)"
  shows "for_loop xs body (setEn S yes c) = Some (setEn (S \<union> Str ` g ` set xs) yes c)"
  using assms by (induction xs arbitrary: S) simp_all

definition onlyEnabled :: "('s, 'r, 'b, 'z) harness_scheme \<Rightarrow> ('s, 'r, 'b, 'z) harness_scheme \<Rightarrow> bool" where
  "onlyEnabled c c' \<longleftrightarrow> (\<exists>en. c' = c\<lparr>h_net := (h_net c)\<lparr>enabled := en\<rparr>\<rparr>)"

lemma onlyEnabled_refl [simp]: "onlyEnabled c c"
  unfolding onlyEnabled_def by (intro exI [of _ "enabled (h_net c)"]) simp

lemma onlyEnabled_trans: "onlyEnabled a b \<Longrightarrow> onlyEnabled b c \<Longrightarrow> onlyEnabled a c"
  by (auto simp: onlyEnabled_def)

lemma onlyEnabled_hEnable: "onlyEnabled c (hEnable e yes c)"
  by (auto simp: onlyEnabled_def hEnable_def Enable_def)

lemma onlyEnabled_setEn: "onlyEnabled c (setEn S yes c)"
  by (auto simp: onlyEnabled_def setEn_def)

lemma onlyEnabled_sel:
  assumes "onlyEnabled c c'"
  shows "h_n c' = h_n c" "h_endnames c' = h_endnames c" "h_clerks c' = h_clerks c" "h_servers c' = h_servers c"
    "h_saved c' = h_saved c" "hEndname c' = hEndname c" "ends (h_net c') = ends (h_net c)"
    "connections (h_net c') = connections (h_net c)" "servers (h_net c') = servers (h_net c)"
  using assms by (auto simp: onlyEnabled_def hEndname_def fun_eq_iff)

lemma onlyEnabled_loop:
  assumes "for_loop xs body c = Some c'" and "\<And>x a b. x \<in> set xs \<Longrightarrow> body x a = Some b \<Longrightarrow> onlyEnabled a b"
  shows "onlyEnabled c c'"
proof (rule for_loop_inv [OF assms(1), where P = "onlyEnabled c"])
  fix x a b assume "x \<in> set xs" "onlyEnabled c a" "body x a = Some b"
  then show "onlyEnabled c b" using onlyEnabled_trans assms(2) by metis
qed simp

lemma onlyEnabled_loops:
  assumes "Option.bind (for_loop xs f c) (for_loop ys g) = Some c'" and "\<And>x a b. x \<in> set xs \<Longrightarrow> f x a = Some b \<Longrightarrow> onlyEnabled a b"
    and "\<And>x a b. x \<in> set ys \<Longrightarrow> g x a = Some b \<Longrightarrow> onlyEnabled a b"
  shows "onlyEnabled c c'"
proof -
  obtain u where "for_loop xs f c = Some u" "for_loop ys g u = Some c'" using assms(1) by (auto simp: bind_convs)
  from onlyEnabled_trans [OF onlyEnabled_loop [OF this(1) assms(2)] onlyEnabled_loop [OF this(2) assms(3)]] show ?thesis .
qed

lemma connecting_onlyEnabled:
  "connectUnlocked c i to = Some c' \<Longrightarrow> onlyEnabled c c'"
  "disconnectUnlocked c i to = Some c' \<Longrightarrow> onlyEnabled c c'"
  "ConnectClientUnlocked c ck to = Some c' \<Longrightarrow> onlyEnabled c c'"
  "DisconnectClientUnlocked c ck to = Some c' \<Longrightarrow> onlyEnabled c c'"
  unfolding connectUnlocked_def disconnectUnlocked_def ConnectClientUnlocked_def DisconnectClientUnlocked_def Let_def
  by (erule onlyEnabled_loops onlyEnabled_loop; auto simp: bind_convs onlyEnabled_hEnable split: if_splits)+

lemma connecting_all_onlyEnabled:
  "ConnectAll c = Some c' \<Longrightarrow> onlyEnabled c c'" "hPartition c p1 p2 = Some c' \<Longrightarrow> onlyEnabled c c'"
proof -
  show "ConnectAll c = Some c' \<Longrightarrow> onlyEnabled c c'"
    unfolding ConnectAll_def by (erule onlyEnabled_loop) (rule connecting_onlyEnabled(1))
  have "onlyEnabled u v" if b: "Option.bind (disconnectUnlocked u x p) (\<lambda>c. connectUnlocked c x q) = Some v"
    for u v :: "('a, 'b, 'c, 'd) harness_scheme" and x p q
  proof -
    obtain w where "disconnectUnlocked u x p = Some w" "connectUnlocked w x q = Some v" using b by (auto simp: bind_convs)
    then show ?thesis using connecting_onlyEnabled(1,2) onlyEnabled_trans by metis
  qed
  note both = this
  show "hPartition c p1 p2 = Some c' \<Longrightarrow> onlyEnabled c c'"
    unfolding hPartition_def by (erule onlyEnabled_loops; erule both)
qed

section \<open>Cutting the servers in two\<close>

abbreviation nm :: "('s, 'r, 'b, 'z) harness_scheme \<Rightarrow> nat \<Rightarrow> nat \<Rightarrow> string" where
  "nm c i j \<equiv> the (hEndname c i j)"

text \<open>Whether requests of server \<open>i\<close> get through to server \<open>j\<close>.\<close>

definition link :: "('s, 'r, 'b, 'z) harness_scheme \<Rightarrow> nat \<Rightarrow> nat \<Rightarrow> bool" where
  "link c i j \<longleftrightarrow> enabled (h_net c) (Str (nm c i j))"

text \<open>All servers have been started, and all their ends have different names.\<close>

definition wired :: "('s, 'r, 'b, 'z) harness_scheme \<Rightarrow> bool" where
  "wired c \<longleftrightarrow> length (h_endnames c) = h_n c \<and> (\<forall>i<h_n c. \<exists>ns. h_endnames c ! i = Some ns \<and> length ns = h_n c) \<and>
     (\<forall>i<h_n c. \<forall>j<h_n c. \<forall>i'<h_n c. \<forall>j'<h_n c. nm c i j = nm c i' j' \<longrightarrow> i = i' \<and> j = j')"

lemma wired_row: "wired c \<Longrightarrow> i < h_n c \<Longrightarrow> \<exists>ns. idx (h_endnames c) (int i) = Some (Some ns)"
  by (auto simp: wired_def)

lemma wired_name: "wired c \<Longrightarrow> i < h_n c \<Longrightarrow> j < h_n c \<Longrightarrow> Option.bind (hEndname c i j) f = f (nm c i j)"
  by (auto simp: wired_def hEndname_def)

lemma wired_inj:
  assumes "wired c" and "i < h_n c" "j < h_n c" "i' < h_n c" "j' < h_n c"
  shows "nm c i j = nm c i' j' \<longleftrightarrow> i = i' \<and> j = j'"
  using assms by (auto simp: wired_def)

lemma wired_onlyEnabled: "onlyEnabled c c' \<Longrightarrow> wired c' = wired c"
  using onlyEnabled_sel [of c c'] by (simp add: wired_def)

text \<open>The ends between a server and others.\<close>

definition between :: "('s, 'r, 'b, 'z) harness_scheme \<Rightarrow> nat \<Rightarrow> nat list \<Rightarrow> netName set" where
  "between c i js = Str ` nm c i ` set js \<union> Str ` (\<lambda>j. nm c j i) ` set js"

lemma hConnect_eq:
  assumes "wired c" and "i < h_n c" and "set to \<subseteq> {..<h_n c}"
  shows "connectUnlocked c i to = Some (setEn (between c i to) True c)"
proof -
  note N = wired_name [OF assms(1)]
  have a: "for_loop to (\<lambda>j c. do { endname \<leftarrow> hEndname c i j; Some (hEnable endname True c) }) (setEn {} True c) =
      Some (setEn ({} \<union> Str ` nm c i ` set to) True c)"
    by (rule enable_loop) (use assms(2,3) in \<open>auto simp: N hEnable_setEn\<close>)
  have "for_loop to (\<lambda>j c. do { endname \<leftarrow> hEndname c j i; Some (hEnable endname True c) }) (setEn (Str ` nm c i ` set to) True c) =
      Some (setEn (Str ` nm c i ` set to \<union> Str ` (\<lambda>j. nm c j i) ` set to) True c)"
    by (rule enable_loop) (use assms(2,3) in \<open>auto simp: N hEnable_setEn\<close>)
  with a show ?thesis by (simp add: connectUnlocked_def setEn_empty between_def)
qed

lemma hDisconnect_eq:
  assumes "wired c" and "i < h_n c" and "set from \<subseteq> {..<h_n c}" and "length from \<le> h_n c"
  shows "disconnectUnlocked c i from = Some (setEn (between c i from) False c)"
proof -
  note N = wired_name [OF assms(1)] and R = wired_row [OF assms(1)]
  obtain row where row: "idx (h_endnames c) (int i) = Some (Some row)" using R [OF assms(2)] by blast
  have a: "for_loop from (\<lambda>j c. do {
       row \<leftarrow> idx (h_endnames c) (int i);
       if row \<noteq> None then do { endname \<leftarrow> hEndname c i j; Some (hEnable endname False c) } else Some c
     }) (setEn {} False c) = Some (setEn ({} \<union> Str ` nm c i ` set from) False c)"
    by (rule enable_loop) (use assms(2,3) row in \<open>auto simp: N hEnable_setEn\<close>)
  have step: "(do {
       row \<leftarrow> idx (h_endnames (setEn S False c)) (int j);
       if row \<noteq> None then do { endname \<leftarrow> hEndname (setEn S False c) (from ! j) i; Some (hEnable endname False (setEn S False c)) }
       else Some (setEn S False c)
     }) = Some (setEn (insert (Str (nm c (from ! j) i)) S) False c)" if j: "j < length from" for j S
  proof -
    obtain r where "idx (h_endnames c) (int j) = Some (Some r)" using R [of j] assms(4) j by auto
    moreover have "from ! j < h_n c" using assms(3) nth_mem [OF j] by auto
    ultimately show ?thesis using assms(2) by (simp add: N hEnable_setEn)
  qed
  have "for_loop [0..<length from] (\<lambda>j c. do {
       row \<leftarrow> idx (h_endnames c) (int j);
       if row \<noteq> None then do { endname \<leftarrow> hEndname c (from ! j) i; Some (hEnable endname False c) } else Some c
     }) (setEn (Str ` nm c i ` set from) False c) =
     Some (setEn (Str ` nm c i ` set from \<union> Str ` (\<lambda>j. nm c (from ! j) i) ` set [0..<length from]) False c)"
    by (rule enable_loop) (use step in simp)
  moreover have "(\<lambda>j. nm c (from ! j) i) ` set [0..<length from] = (\<lambda>j. nm c j i) ` set from"
    by (force simp: in_set_conv_nth image_iff)
  ultimately show ?thesis using a by (simp add: disconnectUnlocked_def setEn_empty between_def)
qed

lemma link_setEn:
  assumes "wired c" and "i < h_n c" and "set js \<subseteq> {..<h_n c}" and "a < h_n c" and "b < h_n c"
  shows "link (setEn (between c i js) yes c) a b = (if (a = i \<and> b \<in> set js) \<or> (b = i \<and> a \<in> set js) then yes else link c a b)"
proof -
  have "Str (nm c a b) \<in> between c i js \<longleftrightarrow> (a = i \<and> b \<in> set js) \<or> (b = i \<and> a \<in> set js)"
    using wired_inj [OF assms(1,4,5)] assms(2,3) by (auto simp: between_def image_iff)
  then show ?thesis by (simp add: link_def)
qed

definition serverEnds :: "('s, 'r, 'b, 'z) harness_scheme \<Rightarrow> netName set" where
  "serverEnds c = {Str (nm c i j) | i j. i < h_n c \<and> j < h_n c}"

text \<open>One part: cut off from the other one and connected inside.\<close>

definition cuts :: "nat list \<Rightarrow> nat list \<Rightarrow> nat list \<Rightarrow> ('s, 'r, 'b, 'z) harness_scheme \<Rightarrow> ('s, 'r, 'b, 'z) harness_scheme \<Rightarrow> bool" where
  "cuts xs P Q c c' \<longleftrightarrow> onlyEnabled c c' \<and>
     (\<forall>a<h_n c. \<forall>b<h_n c. link c' a b = (if (a \<in> set xs \<and> b \<in> set Q) \<or> (b \<in> set xs \<and> a \<in> set Q) then False
        else if (a \<in> set xs \<and> b \<in> set P) \<or> (b \<in> set xs \<and> a \<in> set P) then True else link c a b)) \<and>
     (\<forall>e. e \<notin> serverEnds c \<longrightarrow> enabled (h_net c') e = enabled (h_net c) e)"

lemma part_step:
  assumes "wired c" and "x < h_n c" and "x \<in> set P" and "set P \<subseteq> {..<h_n c}" and "set Q \<subseteq> {..<h_n c}"
    and "set P \<inter> set Q = {}" and "length Q \<le> h_n c"
  obtains c' where "do { c \<leftarrow> disconnectUnlocked c x Q; connectUnlocked c x P } = Some c'" and "cuts [x] P Q c c'"
proof -
  let ?d = "setEn (between c x Q) False c"
  have w: "wired ?d" using wired_onlyEnabled [OF onlyEnabled_setEn] assms(1) by blast
  have d: "disconnectUnlocked c x Q = Some ?d" by (rule hDisconnect_eq [OF assms(1,2,5,7)])
  let ?e = "setEn (between ?d x P) True ?d"
  have e: "connectUnlocked ?d x P = Some ?e" by (rule hConnect_eq [OF w]) (use assms in simp_all)
  have "onlyEnabled c ?e" using onlyEnabled_trans onlyEnabled_setEn by metis
  moreover have "link ?e a b = (if (a \<in> set [x] \<and> b \<in> set Q) \<or> (b \<in> set [x] \<and> a \<in> set Q) then False
        else if (a \<in> set [x] \<and> b \<in> set P) \<or> (b \<in> set [x] \<and> a \<in> set P) then True else link c a b)"
    if "a < h_n c" "b < h_n c" for a b
    using link_setEn [OF w, of x P a b] link_setEn [OF assms(1,2,5) that] assms(2,4,6) that by auto
  moreover have "enabled (h_net ?e) e = enabled (h_net c) e" if "e \<notin> serverEnds c" for e
  proof -
    have "e \<notin> between c x Q" "e \<notin> between c x P" using that assms(2,4,5) by (auto simp: between_def serverEnds_def)
    then show ?thesis by (simp add: between_def)
  qed
  ultimately have "cuts [x] P Q c ?e" unfolding cuts_def by blast
  with d e show thesis by (intro that [of ?e]) simp_all
qed

lemma cuts_trans:
  assumes "cuts xs P Q c c1" and "cuts ys P Q c1 c2" and "set P \<inter> set Q = {}" and "set xs \<subseteq> set P" and "set ys \<subseteq> set P"
  shows "cuts (xs @ ys) P Q c c2"
proof -
  have s: "serverEnds c1 = serverEnds c" "h_n c1 = h_n c"
    using assms(1) onlyEnabled_sel [of c c1] by (auto simp: cuts_def serverEnds_def)
  show ?thesis
    unfolding cuts_def
  proof (intro conjI allI impI)
    show "onlyEnabled c c2" using assms(1,2) onlyEnabled_trans by (auto simp: cuts_def)
    show "enabled (h_net c2) e = enabled (h_net c) e" if "e \<notin> serverEnds c" for e using assms(1,2) s that by (simp add: cuts_def)
    fix a b assume ab: "a < h_n c" "b < h_n c"
    have "link c2 a b = (if (a \<in> set ys \<and> b \<in> set Q) \<or> (b \<in> set ys \<and> a \<in> set Q) then False
        else if (a \<in> set ys \<and> b \<in> set P) \<or> (b \<in> set ys \<and> a \<in> set P) then True else link c1 a b)"
      using assms(2) ab s(2) by (simp add: cuts_def)
    moreover have "link c1 a b = (if (a \<in> set xs \<and> b \<in> set Q) \<or> (b \<in> set xs \<and> a \<in> set Q) then False
        else if (a \<in> set xs \<and> b \<in> set P) \<or> (b \<in> set xs \<and> a \<in> set P) then True else link c a b)"
      using assms(1) ab by (simp add: cuts_def)
    ultimately show "link c2 a b = (if (a \<in> set (xs @ ys) \<and> b \<in> set Q) \<or> (b \<in> set (xs @ ys) \<and> a \<in> set Q) then False
        else if (a \<in> set (xs @ ys) \<and> b \<in> set P) \<or> (b \<in> set (xs @ ys) \<and> a \<in> set P) then True else link c a b)"
      using assms(3-5) by (auto 0 3)
  qed
qed

lemma part_loop:
  assumes "wired c" and "set xs \<subseteq> set P" and "set P \<subseteq> {..<h_n c}" and "set Q \<subseteq> {..<h_n c}"
    and "set P \<inter> set Q = {}" and "length Q \<le> h_n c"
  shows "\<exists>c'. for_loop xs (\<lambda>x c. do { c \<leftarrow> disconnectUnlocked c x Q; connectUnlocked c x P }) c = Some c' \<and> cuts xs P Q c c'"
  using assms(1-4,6)
proof (induction xs arbitrary: c)
  case Nil
  then show ?case by (simp add: cuts_def)
next
  case (Cons x xs)
  have "x < h_n c" "x \<in> set P" using Cons.prems(2,3) by auto
  from part_step [OF Cons.prems(1) this Cons.prems(3,4) assms(5) Cons.prems(5)]
  obtain c1 where c1: "do { c \<leftarrow> disconnectUnlocked c x Q; connectUnlocked c x P } = Some c1" "cuts [x] P Q c c1" .
  have o: "onlyEnabled c c1" using c1(2) by (simp add: cuts_def)
  have "wired c1" "h_n c1 = h_n c" using wired_onlyEnabled [OF o] onlyEnabled_sel(1) [OF o] Cons.prems(1) by simp_all
  then obtain c2 where c2: "for_loop xs (\<lambda>x c. do { c \<leftarrow> disconnectUnlocked c x Q; connectUnlocked c x P }) c1 = Some c2"
    "cuts xs P Q c1 c2" using Cons.IH [of c1] Cons.prems by auto
  have "cuts ([x] @ xs) P Q c c2" by (rule cuts_trans [OF c1(2) c2(2) assms(5)]) (use Cons.prems(2) in auto)
  then show ?case using c1(1) c2(1) by auto
qed

lemma hPartition_cuts:
  assumes "wired c" and "set p1 \<subseteq> {..<h_n c}" and "set p2 \<subseteq> {..<h_n c}" and "set p1 \<inter> set p2 = {}"
    and "length p1 \<le> h_n c" and "length p2 \<le> h_n c"
  obtains c' where "hPartition c p1 p2 = Some c'" and "onlyEnabled c c'"
    and "\<And>a b. a < h_n c \<Longrightarrow> b < h_n c \<Longrightarrow> link c' a b = (if a \<in> set p1 \<and> b \<in> set p2 \<or> a \<in> set p2 \<and> b \<in> set p1 then False
        else if a \<in> set p1 \<and> b \<in> set p1 \<or> a \<in> set p2 \<and> b \<in> set p2 then True else link c a b)"
    and "\<And>e. e \<notin> serverEnds c \<Longrightarrow> enabled (h_net c') e = enabled (h_net c) e"
proof -
  obtain c1 where c1: "for_loop p1 (\<lambda>x c. do { c \<leftarrow> disconnectUnlocked c x p2; connectUnlocked c x p1 }) c = Some c1" "cuts p1 p1 p2 c c1"
    using part_loop [OF assms(1) subset_refl assms(2,3,4,6)] by blast
  then have o: "onlyEnabled c c1" by (simp add: cuts_def)
  have w: "wired c1" "h_n c1 = h_n c" "serverEnds c1 = serverEnds c"
    using wired_onlyEnabled [OF o] onlyEnabled_sel [OF o] assms(1) by (simp_all add: serverEnds_def)
  obtain c2 where c2: "for_loop p2 (\<lambda>x c. do { c \<leftarrow> disconnectUnlocked c x p1; connectUnlocked c x p2 }) c1 = Some c2" "cuts p2 p2 p1 c1 c2"
    using part_loop [OF w(1) subset_refl, of p2 p1] assms w(2) by (auto simp: Int_commute)
  have "link c2 a b = (if a \<in> set p1 \<and> b \<in> set p2 \<or> a \<in> set p2 \<and> b \<in> set p1 then False
        else if a \<in> set p1 \<and> b \<in> set p1 \<or> a \<in> set p2 \<and> b \<in> set p2 then True else link c a b)"
    if "a < h_n c" "b < h_n c" for a b
  proof -
    have "link c2 a b = (if (a \<in> set p2 \<and> b \<in> set p1) \<or> (b \<in> set p2 \<and> a \<in> set p1) then False
        else if (a \<in> set p2 \<and> b \<in> set p2) \<or> (b \<in> set p2 \<and> a \<in> set p2) then True else link c1 a b)"
      using c2(2) that w(2) by (simp add: cuts_def)
    moreover have "link c1 a b = (if (a \<in> set p1 \<and> b \<in> set p2) \<or> (b \<in> set p1 \<and> a \<in> set p2) then False
        else if (a \<in> set p1 \<and> b \<in> set p1) \<or> (b \<in> set p1 \<and> a \<in> set p1) then True else link c a b)"
      using c1(2) that by (simp add: cuts_def)
    ultimately show ?thesis
      by (cases "a \<in> set p1"; cases "b \<in> set p1"; cases "a \<in> set p2"; cases "b \<in> set p2") simp_all
  qed
  moreover have "onlyEnabled c c2" using o c2(2) onlyEnabled_trans by (auto simp: cuts_def)
  moreover have "enabled (h_net c2) e = enabled (h_net c) e" if "e \<notin> serverEnds c" for e
    using c1(2) c2(2) that w(3) by (simp add: cuts_def)
  ultimately show thesis using c1(1) c2(1) by (intro that [of c2]) (simp_all add: hPartition_def)
qed

end
