(* ===== verification/Svc_Config_Props.thy ===== *)
theory Svc_Config_Props
  imports Svc_Partition Systems
begin

text \<open>
  The invariant that ties the network to the harness of a service, kept by all operations in any order, and what the
  harness does to a cluster: servers that are stopped and started again, and a leader that is cut off from the majority.
\<close>

section \<open>The network and the harness\<close>

subsection \<open>New ends\<close>

text \<open>What is new in the network after ends with the names \<open>ns\<close> have been made, and what is as before.\<close>

definition newEnds :: "string list \<Rightarrow> netName Network \<Rightarrow> netName Network \<Rightarrow> bool" where
  "newEnds ns rn rn' \<longleftrightarrow> distinct ns \<and> (\<forall>e\<in>set ns. ends rn (Str e) = None) \<and>
     (\<forall>e. (ends rn' e = None) = (ends rn e = None \<and> e \<notin> Str ` set ns)) \<and>
     (\<forall>j<length ns. connections rn' (Str (ns ! j)) = Some (netName.Num j) \<and> \<not> enabled rn' (Str (ns ! j))) \<and>
     (\<forall>e. e \<notin> Str ` set ns \<longrightarrow> connections rn' e = connections rn e \<and> enabled rn' e = enabled rn e) \<and>
     servers rn' = servers rn"

lemma newEnds_snoc:
  assumes "newEnds ns rn rn1" and "MakeEnd rn1 (Str e) = Some (rn2, x)"
  shows "newEnds (ns @ [e]) rn (Connect rn2 (Str e) (netName.Num (length ns)))"
proof -
  have none: "ends rn1 (Str e) = None" and rn2: "rn2 = rn1\<lparr>ends := (ends rn1)(Str e \<mapsto> \<lparr>ce_endname = Str e\<rparr>),
      enabled := (enabled rn1)(Str e := False), connections := (connections rn1)(Str e := None)\<rparr>"
    using assms(2) by (auto simp: MakeEnd_def Let_def split: option.splits)
  have e: "e \<notin> set ns" "ends rn (Str e) = None" using none assms(1) by (auto simp: newEnds_def)
  show ?thesis
    using assms(1) e by (auto simp: newEnds_def rn2 Connect_def nth_append less_Suc_eq)
qed

lemma hMakeEnds_new:
  assumes "hMakeEnds ns c = Some c'"
  obtains rn where "c' = c\<lparr>h_net := rn\<rparr>" and "newEnds ns (h_net c) rn"
proof -
  have "\<exists>rn. c' = c\<lparr>h_net := rn\<rparr> \<and> newEnds ns (h_net c) rn"
    using assms
  proof (induction ns arbitrary: c' rule: rev_induct)
    case Nil
    then show ?case by (intro exI [of _ "h_net c"]) (simp add: hMakeEnds_def newEnds_def)
  next
    case (snoc e ns)
    then obtain c1 rn2 x where c1: "hMakeEnds ns c = Some c1" "MakeEnd (h_net c1) (Str e) = Some (rn2, x)"
      "c' = c1\<lparr>h_net := Connect rn2 (Str e) (netName.Num (length ns))\<rparr>"
      by (auto simp: hMakeEnds_def enumerate_append_eq for_loop_append bind_convs split: option.splits)
    obtain rn where rn: "c1 = c\<lparr>h_net := rn\<rparr>" "newEnds ns (h_net c) rn" using snoc.IH [OF c1(1)] by blast
    then show ?case using newEnds_snoc [OF rn(2), of e rn2 x] c1(2,3) by auto
  qed
  then show thesis using that by blast
qed

lemma hMakeEnds_total:
  assumes "distinct ns" and "\<forall>e\<in>set ns. ends (h_net c) (Str e) = None"
  shows "\<exists>c'. hMakeEnds ns c = Some c'"
  using assms
proof (induction ns rule: rev_induct)
  case (snoc e ns)
  then obtain c1 where c1: "hMakeEnds ns c = Some c1" by auto
  then obtain rn where rn: "c1 = c\<lparr>h_net := rn\<rparr>" "newEnds ns (h_net c) rn" by (rule hMakeEnds_new)
  then have "ends (h_net c1) (Str e) = None" using snoc.prems by (auto simp: newEnds_def)
  then obtain rn2 x where "MakeEnd (h_net c1) (Str e) = Some (rn2, x)" by (simp add: MakeEnd_def Let_def)
  then show ?case using c1 by (simp add: hMakeEnds_def enumerate_append_eq for_loop_append)
qed (simp add: hMakeEnds_def)

subsection \<open>The invariant\<close>

text \<open>An end belongs to a server or to a clerk, and leads to a server.\<close>

datatype slot = ServerSlot nat nat | ClerkSlot nat nat

fun leadsTo :: "slot \<Rightarrow> nat" where
  "leadsTo (ServerSlot i j) = j"
| "leadsTo (ClerkSlot ck j) = j"

fun nameAt :: "('s, 'r, 'b, 'z) harness_scheme \<Rightarrow> slot \<Rightarrow> string option" where
  "nameAt c (ServerSlot i j) = hEndname c i j"
| "nameAt c (ClerkSlot ck j) = Option.bind (h_clerks c ck) (\<lambda>ns. idx ns (int j))"

definition harness_ok :: "('s, 'r, 'b, 'z) harness_scheme \<Rightarrow> bool" where
  "harness_ok c \<longleftrightarrow> length (h_servers c) = h_n c \<and> length (h_saved c) = h_n c \<and> length (h_endnames c) = h_n c \<and>
     (\<forall>ns. Some ns \<in> set (h_endnames c) \<longrightarrow> length ns = h_n c) \<and> (\<forall>ns\<in>ran (h_clerks c). length ns = h_n c) \<and>
     (\<forall>s e. nameAt c s = Some e \<longrightarrow> ends (h_net c) (Str e) \<noteq> None \<and> connections (h_net c) (Str e) = Some (netName.Num (leadsTo s))) \<and>
     (\<forall>s t e. nameAt c s = Some e \<longrightarrow> nameAt c t = Some e \<longrightarrow> s = t) \<and>
     (\<forall>i<h_n c. (servers (h_net c) (netName.Num i) = None) = (h_servers c ! i = None)) \<and>
     (\<forall>i<h_n c. h_servers c ! i \<noteq> None \<longrightarrow> h_endnames c ! i \<noteq> None \<and> h_saved c ! i \<noteq> None)"

lemma harness_okD:
  assumes "harness_ok c"
  shows "length (h_servers c) = h_n c" "length (h_saved c) = h_n c" "length (h_endnames c) = h_n c"
    "Some ns \<in> set (h_endnames c) \<Longrightarrow> length ns = h_n c" "h_clerks c ck = Some ns \<Longrightarrow> length ns = h_n c"
    "nameAt c s = Some e \<Longrightarrow> ends (h_net c) (Str e) \<noteq> None \<and> connections (h_net c) (Str e) = Some (netName.Num (leadsTo s))"
    "nameAt c s = Some e \<Longrightarrow> nameAt c t = Some e \<Longrightarrow> s = t"
    "i < h_n c \<Longrightarrow> (servers (h_net c) (netName.Num i) = None) = (h_servers c ! i = None)"
    "i < h_n c \<Longrightarrow> h_servers c ! i \<noteq> None \<Longrightarrow> h_endnames c ! i \<noteq> None \<and> h_saved c ! i \<noteq> None"
  using assms unfolding harness_ok_def by (auto intro: ranI)

lemma harness_okI:
  assumes "length (h_servers c) = h_n c" "length (h_saved c) = h_n c" "length (h_endnames c) = h_n c"
    "\<And>ns. Some ns \<in> set (h_endnames c) \<Longrightarrow> length ns = h_n c" "\<And>ck ns. h_clerks c ck = Some ns \<Longrightarrow> length ns = h_n c"
    "\<And>s e. nameAt c s = Some e \<Longrightarrow> ends (h_net c) (Str e) \<noteq> None \<and> connections (h_net c) (Str e) = Some (netName.Num (leadsTo s))"
    "\<And>s t e. nameAt c s = Some e \<Longrightarrow> nameAt c t = Some e \<Longrightarrow> s = t"
    "\<And>i. i < h_n c \<Longrightarrow> (servers (h_net c) (netName.Num i) = None) = (h_servers c ! i = None)"
    "\<And>i. i < h_n c \<Longrightarrow> h_servers c ! i \<noteq> None \<Longrightarrow> h_endnames c ! i \<noteq> None \<and> h_saved c ! i \<noteq> None"
  shows "harness_ok c"
  unfolding harness_ok_def using assms by (intro conjI allI impI ballI) (auto simp: ran_def)

lemma nameAt_cong: "h_endnames c' = h_endnames c \<Longrightarrow> h_clerks c' = h_clerks c \<Longrightarrow> nameAt c' s = nameAt c s"
  by (cases s) (simp_all add: hEndname_def)

text \<open>What does not touch names, ends and connections.\<close>

lemma harness_ok_same:
  assumes "h_n c' = h_n c" "h_endnames c' = h_endnames c" "h_clerks c' = h_clerks c" "map Option.is_none (h_servers c') = map Option.is_none (h_servers c)"
    "h_saved c' = h_saved c" "ends (h_net c') = ends (h_net c)" "connections (h_net c') = connections (h_net c)"
    "servers (h_net c') = servers (h_net c)" and "harness_ok c"
  shows "harness_ok c'"
proof -
  have len: "length (h_servers c') = length (h_servers c)" using assms(4) by (metis length_map)
  have none: "(h_servers c' ! i = None) = (h_servers c ! i = None)" if "i < h_n c" for i
  proof -
    have "i < length (h_servers c)" using harness_okD(1) [OF assms(9)] that by simp
    then show ?thesis using assms(4) len by (metis Option.is_none_def nth_map)
  qed
  note D = harness_okD [OF assms(9)] and N = nameAt_cong [OF assms(2,3)]
  show ?thesis
  proof (rule harness_okI)
    show "s = t" if "nameAt c' s = Some e" "nameAt c' t = Some e" for s t e using D(7) that N by simp
    show "h_endnames c' ! i \<noteq> None \<and> h_saved c' ! i \<noteq> None" if "i < h_n c'" "h_servers c' ! i \<noteq> None" for i
      using D(9) [of i] that none [of i] assms(1,2,5) by simp
  qed (use D(1-6,8) assms(1-3,5-8) len none N in simp_all)
qed

lemma harness_ok_onlyEnabled: "onlyEnabled c c' \<Longrightarrow> harness_ok c \<Longrightarrow> harness_ok c'"
  using onlyEnabled_sel [of c c'] by (intro harness_ok_same [of c' c]) simp_all

text \<open>The names of a part of the slots are exchanged for new ones.\<close>

lemma harness_ok_new:
  assumes "harness_ok c" and "newEnds ns (h_net c) rn" and "length ns = h_n c"
    and "h_n c' = h_n c" "h_servers c' = h_servers c" "h_saved c' = h_saved c" "h_net c' = rn"
    and "length (h_endnames c') = h_n c" "\<And>xs. Some xs \<in> set (h_endnames c') \<Longrightarrow> length xs = h_n c"
      "\<And>ck xs. h_clerks c' ck = Some xs \<Longrightarrow> length xs = h_n c"
      "\<And>i. i < h_n c \<Longrightarrow> h_endnames c ! i \<noteq> None \<Longrightarrow> h_endnames c' ! i \<noteq> None"
    and at: "\<And>s. nameAt c' s = (if s \<in> S then idx ns (int (leadsTo s)) else nameAt c s)"
    and inj: "\<And>s t. s \<in> S \<Longrightarrow> t \<in> S \<Longrightarrow> leadsTo s = leadsTo t \<Longrightarrow> s = t"
  shows "harness_ok c'"
proof (rule harness_okI)
  note D = harness_okD [OF assms(1)]
  have new: "e \<in> set ns \<and> ends rn (Str e) \<noteq> None \<and> connections rn (Str e) = Some (netName.Num (leadsTo s)) \<and> e = ns ! leadsTo s \<and> leadsTo s < length ns"
    if "s \<in> S" "nameAt c' s = Some e" for s e
    using that assms(2) at [of s] by (auto simp: newEnds_def idx_Some_iff)
  have old: "e \<notin> set ns \<and> ends rn (Str e) \<noteq> None \<and> connections rn (Str e) = Some (netName.Num (leadsTo s))"
    if "s \<notin> S" "nameAt c' s = Some e" for s e
  proof -
    have d: "ends (h_net c) (Str e) \<noteq> None" "connections (h_net c) (Str e) = Some (netName.Num (leadsTo s))"
      using D(6) [of s e] that at [of s] by simp_all
    then have "Str e \<notin> Str ` set ns" using assms(2) by (auto simp: newEnds_def)
    then show ?thesis using d assms(2) unfolding newEnds_def by (metis image_eqI)
  qed
  show "ends (h_net c') (Str e) \<noteq> None \<and> connections (h_net c') (Str e) = Some (netName.Num (leadsTo s))" if "nameAt c' s = Some e" for s e
    using new [OF _ that] old [OF _ that] assms(7) by (cases "s \<in> S") auto
  show "s = t" if "nameAt c' s = Some e" "nameAt c' t = Some e" for s t e
  proof (cases "s \<in> S"; cases "t \<in> S")
    assume S: "s \<in> S" "t \<in> S"
    have "leadsTo s = leadsTo t" using new [OF S(1) that(1)] new [OF S(2) that(2)] by (metis netName.inject(2) option.inject)
    then show "s = t" by (rule inj [OF S])
  next
    assume "s \<notin> S" "t \<notin> S"
    then show "s = t" using D(7) [of s e t] that at by simp
  qed (use new [OF _ that(1)] new [OF _ that(2)] old [OF _ that(1)] old [OF _ that(2)] in blast)+
  have "servers rn = servers (h_net c)" using assms(2) by (simp add: newEnds_def)
  then show "(servers (h_net c') (netName.Num i) = None) = (h_servers c' ! i = None)" if "i < h_n c'" for i
    using D(8) that assms(4,5,7) by simp
  show "h_endnames c' ! i \<noteq> None \<and> h_saved c' ! i \<noteq> None" if "i < h_n c'" "h_servers c' ! i \<noteq> None" for i
    using D(9) [of i] that assms(4-6,11) by simp
qed (use harness_okD(1,2) [OF assms(1)] assms(4-6,8-10) in simp_all)

subsection \<open>The operations keep the invariant\<close>

lemma makeClient_ok:
  assumes "harness_ok c" and "makeClient names rnd ck c to = Some (c', handles)"
  shows "harness_ok c'"
proof -
  let ?ns = "map names [0..<h_n c]"
  obtain c1 where c1: "hMakeEnds ?ns c = Some c1" "ConnectClientUnlocked
      (c1\<lparr>h_clerks := (h_clerks c1)(ck \<mapsto> ?ns), h_nextClientId := h_nextClientId c1 + 1\<rparr>) ck to = Some c'"
    using assms(2) by (auto simp: makeClient_def Let_def bind_convs)
  obtain rn where rn: "c1 = c\<lparr>h_net := rn\<rparr>" "newEnds ?ns (h_net c) rn" using c1(1) by (rule hMakeEnds_new)
  note D = harness_okD [OF assms(1)]
  let ?c = "c1\<lparr>h_clerks := (h_clerks c1)(ck \<mapsto> ?ns), h_nextClientId := h_nextClientId c1 + 1\<rparr>"
  have at: "nameAt ?c s = (if s \<in> range (ClerkSlot ck) then idx ?ns (int (leadsTo s)) else nameAt c s)" for s
    by (cases s) (auto simp: rn(1) hEndname_def)
  have "harness_ok ?c"
  proof (rule harness_ok_new [OF assms(1) rn(2)])
    show "nameAt ?c s = (if s \<in> range (ClerkSlot ck) then idx ?ns (int (leadsTo s)) else nameAt c s)" for s by (rule at)
  qed (use D in \<open>auto simp: rn(1) split: if_splits\<close>)
  then show ?thesis using harness_ok_onlyEnabled [OF connecting_onlyEnabled(3) [OF c1(2)]] by simp
qed

lemma deleteClient_ok:
  assumes "harness_ok c"
  shows "harness_ok (deleteClient c ck)"
proof -
  have n: "nameAt (deleteClient c ck) s = Some e \<Longrightarrow> nameAt c s = Some e" for s e
    by (cases s) (auto simp: deleteClient_def hEndname_def bind_convs split: if_splits)
  note D = harness_okD [OF assms]
  show ?thesis
  proof (rule harness_okI)
    show "s = t" if "nameAt (deleteClient c ck) s = Some e" "nameAt (deleteClient c ck) t = Some e" for s t e
      by (rule D(7) [OF n [OF that(1)] n [OF that(2)]])
    show "ends (h_net (deleteClient c ck)) (Str e) \<noteq> None \<and>
        connections (h_net (deleteClient c ck)) (Str e) = Some (netName.Num (leadsTo s))"
      if "nameAt (deleteClient c ck) s = Some e" for s e
      using D(6) [OF n [OF that]] by (simp add: deleteClient_def)
  qed (use D in \<open>auto simp: deleteClient_def split: if_splits\<close>)
qed

text \<open>A server is put into the slices, or taken out.\<close>

lemma harness_ok_place:
  assumes "harness_ok c" and "i < h_n c" and "s \<noteq> None \<longrightarrow> p \<noteq> None \<and> h_endnames c ! i \<noteq> None"
    and "\<And>e. ends rn e = ends (h_net c) e" "\<And>e. connections rn e = connections (h_net c) e"
    and "servers rn = (servers (h_net c))(netName.Num i := a)" and "(a = None) = (s = None)"
  shows "harness_ok (c\<lparr>h_saved := (h_saved c)[i := p], h_servers := (h_servers c)[i := s], h_net := rn\<rparr>)" (is "harness_ok ?c")
proof -
  note D = harness_okD [OF assms(1)]
  have N: "nameAt ?c x = nameAt c x" for x by (rule nameAt_cong) simp_all
  show ?thesis
  proof (rule harness_okI)
    show "x = t" if "nameAt ?c x = Some e" "nameAt ?c t = Some e" for x t e using D(7) that unfolding N by blast
    show "ends (h_net ?c) (Str e) \<noteq> None \<and> connections (h_net ?c) (Str e) = Some (netName.Num (leadsTo x))"
      if "nameAt ?c x = Some e" for x e using D(6) that assms(4,5) unfolding N by simp
    show "h_endnames ?c ! k \<noteq> None \<and> h_saved ?c ! k \<noteq> None" if "k < h_n ?c" "h_servers ?c ! k \<noteq> None" for k
      using D(9) [of k] D(1,2) that assms(2,3) by (cases "k = i") auto
    show "(servers (h_net ?c) (netName.Num k) = None) = (h_servers ?c ! k = None)" if "k < h_n ?c" for k
      using D(8) [of k] D(1) that assms(2,6,7) by (cases "k = i") auto
  qed (use D in auto)
qed

lemma hSaved_Some:
  "hSaved ps_of c i = Some p \<longleftrightarrow> i < length (h_servers c) \<and> i < length (h_saved c) \<and>
     p = (case h_servers c ! i of Some kv \<Rightarrow> Some (ps_of kv) | None \<Rightarrow> h_saved c ! i)"
  by (auto simp: hSaved_def bind_convs idx_Some_iff)

lemma ShutdownServer_eq:
  assumes "ShutdownServer ps_of c i = Some c'" and "harness_ok c"
  obtains d where "onlyEnabled c d" and "i < h_n c"
    and "c' = d\<lparr>h_saved := (h_saved d)[i := map_option Copy (case h_servers c ! i of Some kv \<Rightarrow> Some (ps_of kv) | None \<Rightarrow> h_saved c ! i)],
        h_servers := (h_servers d)[i := None], h_net := DeleteServer (h_net d) (netName.Num i)\<rparr>"
proof -
  obtain d where d: "disconnectUnlocked c i (allServers c) = Some d" using assms(1) by (auto simp: ShutdownServer_def bind_convs)
  have o: "onlyEnabled c d" by (rule connecting_onlyEnabled(2) [OF d])
  note E = onlyEnabled_sel [OF o] and D = harness_okD [OF assms(2)]
  show thesis
    using assms(1) d E D by (intro that [of d] o) (auto simp: ShutdownServer_def Let_def bind_convs hSaved_Some set_idx_Some_iff cong: option.case_cong)
qed

lemma ShutdownServer_ok:
  assumes "harness_ok c" and "ShutdownServer ps_of c i = Some c'"
  shows "harness_ok c'"
proof -
  obtain d where d: "onlyEnabled c d" "i < h_n c"
    "c' = d\<lparr>h_saved := (h_saved d)[i := map_option Copy (case h_servers c ! i of Some kv \<Rightarrow> Some (ps_of kv) | None \<Rightarrow> h_saved c ! i)],
        h_servers := (h_servers d)[i := None], h_net := DeleteServer (h_net d) (netName.Num i)\<rparr>"
    using ShutdownServer_eq [OF assms(2,1)] .
  have "harness_ok d" by (rule harness_ok_onlyEnabled [OF d(1) assms(1)])
  then show ?thesis unfolding d(3)
    by (rule harness_ok_place [where a = None]) (use d(2) onlyEnabled_sel(1) [OF d(1)] in \<open>simp_all add: DeleteServer_def\<close>)
qed

lemma hStartServer_eq:
  assumes "hStartServer ps_of start names srv c i = Some c'" and "harness_ok c"
  obtains rn ps kv where "i < h_n c" and "newEnds (map names [0..<h_n c]) (h_net c) rn"
    and "ps = (case (case h_servers c ! i of Some kv \<Rightarrow> Some (ps_of kv) | None \<Rightarrow> h_saved c ! i) of Some p \<Rightarrow> Copy p | None \<Rightarrow> MakePersister)"
    and "start (c\<lparr>h_endnames := (h_endnames c)[i := Some (map names [0..<h_n c])], h_net := rn\<rparr>) (int i) ps = Some kv"
    and "c' = c\<lparr>h_endnames := (h_endnames c)[i := Some (map names [0..<h_n c])], h_saved := (h_saved c)[i := Some ps],
        h_servers := (h_servers c)[i := Some kv], h_net := AddServer rn (netName.Num i) srv\<rparr>"
proof -
  let ?ns = "map names [0..<h_n c]"
  note D = harness_okD [OF assms(2)]
  obtain en c1 where en: "set_idx (h_endnames c) (int i) (Some ?ns) = Some en" "hMakeEnds ?ns (c\<lparr>h_endnames := en\<rparr>) = Some c1"
    using assms(1) by (auto simp: hStartServer_def Let_def bind_convs)
  have i: "i < h_n c" and en': "en = (h_endnames c)[i := Some ?ns]" using en(1) D(3) by (simp_all add: set_idx_Some_iff)
  obtain rn where rn: "c1 = c\<lparr>h_endnames := en, h_net := rn\<rparr>" "newEnds ?ns (h_net c) rn"
    using hMakeEnds_new [OF en(2)] by auto
  let ?ps = "case (case h_servers c ! i of Some kv \<Rightarrow> Some (ps_of kv) | None \<Rightarrow> h_saved c ! i) of Some p \<Rightarrow> Copy p | None \<Rightarrow> MakePersister"
  obtain kv where kv: "start (c\<lparr>h_endnames := en, h_net := rn\<rparr>) (int i) ?ps = Some kv"
    "c' = c\<lparr>h_endnames := en, h_saved := (h_saved c)[i := Some ?ps], h_servers := (h_servers c)[i := Some kv],
      h_net := AddServer rn (netName.Num i) srv\<rparr>"
    using assms(1) en D(1,2) i rn(1)
    by (auto simp: hStartServer_def Let_def bind_convs hSaved_Some set_idx_Some_iff cong: option.case_cong)
  show thesis by (rule that [OF i rn(2) refl kv [unfolded en']])
qed

lemma hStartServer_ok:
  assumes "harness_ok c" and "hStartServer ps_of start names srv c i = Some c'"
  shows "harness_ok c'"
proof -
  let ?ns = "map names [0..<h_n c]"
  note D = harness_okD [OF assms(1)]
  obtain rn ps kv where e: "i < h_n c" "newEnds ?ns (h_net c) rn"
    "c' = c\<lparr>h_endnames := (h_endnames c)[i := Some ?ns], h_saved := (h_saved c)[i := Some ps],
        h_servers := (h_servers c)[i := Some kv], h_net := AddServer rn (netName.Num i) srv\<rparr>"
    using hStartServer_eq [OF assms(2,1)] .
  let ?c = "c\<lparr>h_endnames := (h_endnames c)[i := Some ?ns], h_net := rn\<rparr>"
  have at: "nameAt ?c s = (if s \<in> range (ServerSlot i) then idx ?ns (int (leadsTo s)) else nameAt c s)" for s
  proof (cases s)
    case (ServerSlot a b)
    then show ?thesis using D(3) e(1) by (cases "a = i") (auto simp: hEndname_def idx_def)
  qed auto
  have "harness_ok ?c"
  proof (rule harness_ok_new [OF assms(1) e(2)])
    show "nameAt ?c s = (if s \<in> range (ServerSlot i) then idx ?ns (int (leadsTo s)) else nameAt c s)" for s by (rule at)
    show "length xs = h_n c" if "Some xs \<in> set (h_endnames ?c)" for xs
      using that D(4) [of xs] set_update_subset_insert [of "h_endnames c" i "Some ?ns"] by auto
    show "h_endnames ?c ! k \<noteq> None" if "k < h_n c" "h_endnames c ! k \<noteq> None" for k
      using that D(3) by (cases "k = i") auto
  qed (use D in auto)
  from harness_ok_place [OF this, where i = i and s = "Some kv" and p = "Some ps" and a = "Some srv" and rn = "AddServer rn (netName.Num i) srv"]
  have "harness_ok (?c\<lparr>h_saved := (h_saved ?c)[i := Some ps], h_servers := (h_servers ?c)[i := Some kv],
      h_net := AddServer rn (netName.Num i) srv\<rparr>)"
    using e(1) D(3) by (simp add: AddServer_def)
  then show ?thesis unfolding e(3) by simp
qed

text \<open>A test: operations of the harness, servers at work, calls on the network.\<close>

inductive harness_step ::
  "('s \<Rightarrow> ('r, 'b) Persister) \<Rightarrow> (('s, 'r, 'b, 'z) harness_scheme \<Rightarrow> int \<Rightarrow> ('r, 'b) Persister \<Rightarrow> 's option) \<Rightarrow>
   ('s, 'r, 'b, 'z) harness_scheme \<Rightarrow> ('s, 'r, 'b, 'z) harness_scheme \<Rightarrow> bool"
  for ps_of start where
  hsConnect: "connectUnlocked c i to = Some c' \<Longrightarrow> harness_step ps_of start c c'"
| hsDisconnect: "disconnectUnlocked c i from = Some c' \<Longrightarrow> harness_step ps_of start c c'"
| hsConnectAll: "ConnectAll c = Some c' \<Longrightarrow> harness_step ps_of start c c'"
| hsPartition: "hPartition c p1 p2 = Some c' \<Longrightarrow> harness_step ps_of start c c'"
| hsMakeClient: "makeClient names rnd ck c to = Some (c', handles) \<Longrightarrow> harness_step ps_of start c c'"
| hsDeleteClient: "harness_step ps_of start c (deleteClient c ck)"
| hsConnectClient: "ConnectClientUnlocked c ck to = Some c' \<Longrightarrow> harness_step ps_of start c c'"
| hsDisconnectClient: "DisconnectClientUnlocked c ck from = Some c' \<Longrightarrow> harness_step ps_of start c c'"
| hsShutdown: "ShutdownServer ps_of c i = Some c' \<Longrightarrow> harness_step ps_of start c c'"
| hsStart: "hStartServer ps_of start names srv c i = Some c' \<Longrightarrow> harness_step ps_of start c c'"
| hsCleanup: "hCleanup kill bad elapsed c = Some c' \<Longrightarrow> harness_step ps_of start c c'"
| hsServer: "i < length (h_servers c) \<Longrightarrow> h_servers c ! i = Some s \<Longrightarrow>
    harness_step ps_of start c (c\<lparr>h_servers := (h_servers c)[i := Some s']\<rparr>)"
| hsCalls: "harness_step ps_of start c (c\<lparr>h_net := (h_net c)\<lparr>net_count := x, net_bytes := y\<rparr>\<rparr>)"
| hsReliable: "harness_step ps_of start c (c\<lparr>h_net := Reliable (h_net c) yes\<rparr>)"

lemma harness_step_ok: "harness_step ps_of start c c' \<Longrightarrow> harness_ok c \<Longrightarrow> harness_ok c'"
proof (induction rule: harness_step.induct)
  case (hsCleanup kill bad elapsed c c')
  then obtain rn where "Cleanup (h_net c) = Some rn" "c' = c\<lparr>h_servers := map (map_option kill) (h_servers c), h_net := rn\<rparr>"
    by (auto simp: hCleanup_def Let_def bind_convs)
  then show ?case
    using hsCleanup.prems by (intro harness_ok_same [OF _ _ _ _ _ _ _ _ hsCleanup.prems])
      (auto simp: Cleanup_def Option.is_none_def split: if_splits)
next
  case (hsServer i c s s')
  have "map Option.is_none ((h_servers c)[i := Some s']) = map Option.is_none (h_servers c)"
    using hsServer.hyps by (intro nth_equalityI) (auto simp: nth_list_update)
  then show ?case by (intro harness_ok_same [OF _ _ _ _ _ _ _ _ hsServer.prems]) simp_all
next
  case (hsCalls c x y)
  then show ?case by (intro harness_ok_same [OF _ _ _ _ _ _ _ _ hsCalls]) simp_all
next
  case (hsReliable c yes)
  then show ?case by (intro harness_ok_same [OF _ _ _ _ _ _ _ _ hsReliable]) (simp_all add: Reliable_def)
qed (auto intro: harness_ok_onlyEnabled connecting_onlyEnabled connecting_all_onlyEnabled makeClient_ok deleteClient_ok
    ShutdownServer_ok hStartServer_ok)

subsection \<open>The two services\<close>

text \<open>What \<^verbatim>\<open>make_config\<close> begins with.\<close>

lemma harness_ok_empty:
  assumes "h_n c = n" "h_servers c = replicate n None" "h_saved c = replicate n None" "h_endnames c = replicate n None"
    "h_clerks c = Map.empty" "h_net c = MakeNetwork"
  shows "harness_ok c"
proof -
  have "nameAt c s = None" for s using assms by (cases s) (auto simp: hEndname_def idx_def)
  then show ?thesis using assms by (intro harness_okI) (auto simp: MakeNetwork_def)
qed

lemma harness_made:
  assumes "do { c \<leftarrow> for_loop [0..<n] (\<lambda>i c. hStartServer ps_of start (names i) (srvs i) c i) c0; c \<leftarrow> ConnectAll c;
      Some (c\<lparr>h_net := Reliable (h_net c) yes\<rparr>) } = Some c" and "harness_ok c0"
  shows "harness_ok c"
proof -
  obtain a b where ab: "for_loop [0..<n] (\<lambda>i c. hStartServer ps_of start (names i) (srvs i) c i) c0 = Some a" "ConnectAll a = Some b"
    "c = b\<lparr>h_net := Reliable (h_net b) yes\<rparr>" using assms(1) by (auto simp: bind_convs)
  have "harness_ok a" by (rule for_loop_inv [where P = harness_ok, OF ab(1) assms(2)]) (rule hStartServer_ok)
  then have "harness_ok b" using connecting_all_onlyEnabled(1) [OF ab(2)] harness_ok_onlyEnabled by blast
  from harness_ok_same [OF _ _ _ _ _ _ _ _ this, of c] show ?thesis by (simp add: ab(3) Reliable_def)
qed

inductive kv_made :: "kv_config \<Rightarrow> bool" where
  "kv_make_config names srvs n unreliable maxraftstate = Some c \<Longrightarrow> kv_made c"

inductive sc_made :: "sc_config \<Rightarrow> bool" where
  "sc_make_config names srvs n unreliable = Some c \<Longrightarrow> sc_made c"

inductive kv_step :: "kv_config \<Rightarrow> kv_config \<Rightarrow> bool" where
  ksHarness: "harness_step kv_ps (\<lambda>cfg i ps. StartKVServer (h_n cfg) i ps (kc_maxraftstate cfg)) c c' \<Longrightarrow> kv_step c c'"
| ksBegin: "kv_step c (kv_begin c)"
| ksOp: "kv_step c (kv_op c)"

abbreviation sc_step :: "sc_config \<Rightarrow> sc_config \<Rightarrow> bool" where
  "sc_step \<equiv> harness_step sc_ps (\<lambda>cfg i ps. StartServer (h_n cfg) i ps)"

interpretation kv_harness: inductive_invariant kv_made kv_step harness_ok
proof
  fix c assume "kv_made c"
  then show "harness_ok c"
  proof cases
    case (1 names srvs n unreliable maxraftstate)
    show ?thesis by (rule harness_made [OF 1 [unfolded kv_make_config_def kv_StartServer_def]], rule harness_ok_empty) simp_all
  qed
next
  fix c c' assume ok: "harness_ok c" and "kv_step c c'"
  from this(2) show "harness_ok c'"
  proof cases
    case ksHarness
    then show ?thesis using ok by (rule harness_step_ok)
  next
    case ksBegin
    then show ?thesis by (intro harness_ok_same [OF _ _ _ _ _ _ _ _ ok]) (simp_all add: kv_begin_def)
  next
    case ksOp
    then show ?thesis by (intro harness_ok_same [OF _ _ _ _ _ _ _ _ ok]) (simp_all add: kv_op_def)
  qed
qed

interpretation sc_harness: inductive_invariant sc_made sc_step harness_ok
proof
  fix c assume "sc_made c"
  then show "harness_ok c"
  proof cases
    case (1 names srvs n unreliable)
    show ?thesis by (rule harness_made [OF 1 [unfolded sc_make_config_def sc_StartServer_def]], rule harness_ok_empty) simp_all
  qed
qed (rule harness_step_ok)

subsection \<open>A harness with all servers running\<close>

lemma harness_wired:
  assumes "harness_ok c" and "\<forall>i<h_n c. h_endnames c ! i \<noteq> None"
  shows "wired c"
proof -
  note D = harness_okD [OF assms(1)]
  have row: "\<exists>ns. h_endnames c ! i = Some ns \<and> length ns = h_n c" if "i < h_n c" for i
    using assms(2) D(4) nth_mem [of i "h_endnames c"] D(3) that by (metis option.exhaust)
  have some: "\<exists>e. hEndname c i j = Some e" if "i < h_n c" "j < h_n c" for i j
    using row [OF that(1)] that D(3) by (auto simp: hEndname_def)
  have "i = i' \<and> j = j'" if "i < h_n c" "j < h_n c" "i' < h_n c" "j' < h_n c" "nm c i j = nm c i' j'" for i j i' j'
    using D(7) [of "ServerSlot i j" "nm c i j" "ServerSlot i' j'"] some [OF that(1,2)] some [OF that(3,4)] that(5) by auto
  then show ?thesis unfolding wired_def using row D(3) by blast
qed

lemma ConnectAll_total:
  assumes "wired c"
  shows "\<exists>c'. ConnectAll c = Some c'"
proof -
  have "\<exists>c'. for_loop [0..<h_n c] (\<lambda>i c. connectUnlocked c i (allServers c)) c = Some c' \<and> (wired c' \<and> h_n c' = h_n c)"
  proof (rule for_loop_total)
    fix i u assume "i \<in> set [0..<h_n c]" and u: "wired u \<and> h_n u = h_n c"
    then have "connectUnlocked u i (allServers u) = Some (setEn (between u i (allServers u)) True u)"
      by (intro hConnect_eq) (auto simp: allServers_def)
    then show "\<exists>v. connectUnlocked u i (allServers u) = Some v \<and> wired v \<and> h_n v = h_n c"
      using wired_onlyEnabled [OF onlyEnabled_setEn] u by auto
  qed (use assms in simp)
  then show ?thesis by (auto simp: ConnectAll_def)
qed

lemma hStartServer_first:
  assumes "harness_ok c" and "i < h_n c" and "h_servers c ! i = None" and "h_saved c ! i = None"
    and "inj_on names {..<h_n c}" and "\<forall>j<h_n c. ends (h_net c) (Str (names j)) = None"
    and "\<And>c. start c (int i) MakePersister \<noteq> None"
  shows "\<exists>c'. hStartServer ps_of start names srv c i = Some c'"
proof -
  note D = harness_okD [OF assms(1)]
  let ?ns = "map names [0..<h_n c]" and ?c = "c\<lparr>h_endnames := (h_endnames c)[i := Some (map names [0..<h_n c])]\<rparr>"
  have "distinct ?ns" using assms(5) by (auto simp: distinct_map inj_on_def)
  then obtain c1 where c1: "hMakeEnds ?ns ?c = Some c1" using hMakeEnds_total [of ?ns ?c] assms(6) by auto
  then obtain rn where rn: "c1 = ?c\<lparr>h_net := rn\<rparr>" by (rule hMakeEnds_new)
  then have "hSaved ps_of c1 i = Some None" using D assms(2-4) by (simp add: hSaved_Some)
  moreover obtain kv where "start c1 (int i) MakePersister = Some kv" using assms(7) [of c1] by auto
  ultimately show ?thesis
    using c1 D(1-3) assms(2) by (simp add: hStartServer_def Let_def rn)
qed

lemma harness_starts:
  assumes "\<And>i j i' j'. i < n \<Longrightarrow> j < n \<Longrightarrow> i' < n \<Longrightarrow> j' < n \<Longrightarrow> names i j = names i' j' \<Longrightarrow> i = i' \<and> j = j'"
    and "\<And>c i. start c i MakePersister \<noteq> None" and "harness_ok c0" and "h_n c0 = n" and "h_servers c0 = replicate n None"
    and "h_saved c0 = replicate n None" and "h_net c0 = MakeNetwork"
  shows "k \<le> n \<Longrightarrow> \<exists>c. for_loop [0..<k] (\<lambda>i c. hStartServer ps_of start (names i) (srvs i) c i) c0 = Some c \<and>
    harness_ok c \<and> h_n c = n \<and> (\<forall>i<n. (h_servers c ! i = None) = (k \<le> i)) \<and> (\<forall>i<n. k \<le> i \<longrightarrow> h_saved c ! i = None) \<and>
    (\<forall>i<k. h_endnames c ! i = Some (map (names i) [0..<n])) \<and>
    (\<forall>i<n. \<forall>j<n. k \<le> i \<longrightarrow> ends (h_net c) (Str (names i j)) = None)"
proof (induction k)
  case 0
  then show ?case using assms(3-7) by (simp add: MakeNetwork_def)
next
  case (Suc k)
  then obtain c where c: "for_loop [0..<k] (\<lambda>i c. hStartServer ps_of start (names i) (srvs i) c i) c0 = Some c"
    "harness_ok c" "h_n c = n" "\<forall>i<n. (h_servers c ! i = None) = (k \<le> i)" "\<forall>i<n. k \<le> i \<longrightarrow> h_saved c ! i = None"
    "\<forall>i<k. h_endnames c ! i = Some (map (names i) [0..<n])"
    "\<forall>i<n. \<forall>j<n. k \<le> i \<longrightarrow> ends (h_net c) (Str (names i j)) = None" by auto
  have k: "k < n" using Suc.prems by simp
  have "inj_on (names k) {..<h_n c}" using assms(1) [of k _ k] k c(3) by (auto simp: inj_on_def)
  then obtain c' where c': "hStartServer ps_of start (names k) (srvs k) c k = Some c'"
    using hStartServer_first [OF c(2), of k "names k" start ps_of "srvs k"] c(3,4,5,7) k assms(2) by auto
  obtain rn ps kv where e: "newEnds (map (names k) [0..<n]) (h_net c) rn"
    "c' = c\<lparr>h_endnames := (h_endnames c)[k := Some (map (names k) [0..<n])], h_saved := (h_saved c)[k := Some ps],
        h_servers := (h_servers c)[k := Some kv], h_net := AddServer rn (netName.Num k) (srvs k)\<rparr>"
    using hStartServer_eq [OF c' c(2)] c(3) by metis
  note D = harness_okD(1-3) [OF c(2)]
  have "ends (h_net c') (Str (names i j)) = None" if "i < n" "j < n" "Suc k \<le> i" for i j
  proof -
    have "names i j \<noteq> names k x" if "x < n" for x using assms(1) [of i j k x] \<open>i < n\<close> \<open>j < n\<close> \<open>Suc k \<le> i\<close> that k by auto
    then have "names i j \<notin> set (map (names k) [0..<n])" unfolding set_map set_upt by fastforce
    then show ?thesis using e c(7) that by (auto simp: newEnds_def AddServer_def)
  qed
  moreover have "harness_ok c'" by (rule hStartServer_ok [OF c(2) c'])
  moreover have "(h_servers c' ! i = None) = (Suc k \<le> i)" if "i < n" for i
    using c(4) that D(1) c(3) by (cases "i = k") (auto simp: e(2) Suc_le_eq)
  moreover have "h_saved c' ! i = None" if "i < n" "Suc k \<le> i" for i using c(5) that by (simp add: e(2))
  moreover have "h_endnames c' ! i = Some (map (names i) [0..<n])" if "i < Suc k" for i
    using c(6) that D(3) c(3) k by (cases "i = k") (auto simp: e(2))
  ultimately show ?case using c(1) c' c(3) e(2) by (auto simp: for_loop_append)
qed

lemma harness_returns:
  assumes "\<And>i j i' j'. i < n \<Longrightarrow> j < n \<Longrightarrow> i' < n \<Longrightarrow> j' < n \<Longrightarrow> names i j = names i' j' \<Longrightarrow> i = i' \<and> j = j'"
    and "\<And>c i. start c i MakePersister \<noteq> None" and "h_n c0 = n" and "h_servers c0 = replicate n None"
    and "h_saved c0 = replicate n None" and "h_endnames c0 = replicate n None" and "h_clerks c0 = Map.empty" and "h_net c0 = MakeNetwork"
  shows "\<exists>c. do { c \<leftarrow> for_loop [0..<n] (\<lambda>i c. hStartServer ps_of start (names i) (srvs i) c i) c0; c \<leftarrow> ConnectAll c;
      Some (c\<lparr>h_net := Reliable (h_net c) yes\<rparr>) } = Some c \<and> h_n c = n \<and> (\<forall>i<n. h_servers c ! i \<noteq> None)"
proof -
  have ok: "harness_ok c0" by (rule harness_ok_empty) (use assms in simp_all)
  have "\<exists>c. for_loop [0..<n] (\<lambda>i c. hStartServer ps_of start (names i) (srvs i) c i) c0 = Some c \<and>
    harness_ok c \<and> h_n c = n \<and> (\<forall>i<n. (h_servers c ! i = None) = (n \<le> i)) \<and> (\<forall>i<n. n \<le> i \<longrightarrow> h_saved c ! i = None) \<and>
    (\<forall>i<n. h_endnames c ! i = Some (map (names i) [0..<n])) \<and>
    (\<forall>i<n. \<forall>j<n. n \<le> i \<longrightarrow> ends (h_net c) (Str (names i j)) = None)"
    by (rule harness_starts) (use assms ok in simp_all)
  then obtain c where c: "for_loop [0..<n] (\<lambda>i c. hStartServer ps_of start (names i) (srvs i) c i) c0 = Some c" "harness_ok c" "h_n c = n"
    "\<forall>i<n. h_servers c ! i \<noteq> None" "\<forall>i<n. h_endnames c ! i = Some (map (names i) [0..<n])" by fastforce
  have "wired c" by (rule harness_wired [OF c(2)]) (use c(3,5) in simp)
  then obtain c' where c': "ConnectAll c = Some c'" using ConnectAll_total by blast
  note S = onlyEnabled_sel [OF connecting_all_onlyEnabled(1) [OF c']]
  show ?thesis using c c' S by simp
qed

lemma new_servers: "StartKVServer n i MakePersister limit \<noteq> None" "StartServer n i MakePersister \<noteq> None"
  by (simp_all add: StartKVServer_def StartServer_def Make_def readPersist_def MakePersister_def ReadRaftState_def)

lemma kv_make_config_returns:
  assumes "\<And>i j i' j'. i < n \<Longrightarrow> j < n \<Longrightarrow> i' < n \<Longrightarrow> j' < n \<Longrightarrow> names i j = names i' j' \<Longrightarrow> i = i' \<and> j = j'"
  shows "\<exists>c. kv_make_config names srvs n unreliable limit = Some c \<and> h_n c = n \<and> (\<forall>i<n. h_servers c ! i \<noteq> None)"
  unfolding kv_make_config_def kv_StartServer_def by (rule harness_returns) (use assms new_servers(1) in simp_all)

lemma sc_make_config_returns:
  assumes "\<And>i j i' j'. i < n \<Longrightarrow> j < n \<Longrightarrow> i' < n \<Longrightarrow> j' < n \<Longrightarrow> names i j = names i' j' \<Longrightarrow> i = i' \<and> j = j'"
  shows "\<exists>c. sc_make_config names srvs n unreliable = Some c \<and> h_n c = n \<and> (\<forall>i<n. h_servers c ! i \<noteq> None)"
  unfolding sc_make_config_def sc_StartServer_def by (rule harness_returns) (use assms new_servers(2) in simp_all)

section \<open>The theorems\<close>

text \<open>Stopping a server and starting it again: the new server is made from what the old one has stored.\<close>

lemma kv_server_restarts:
  assumes "harness_ok c" and "kv_ShutdownServer c i = Some c1" and "kv_StartServer names srv c1 i = Some c2" and "h_servers c ! i = Some kv"
  shows "\<exists>kv'. StartKVServer (h_n c) (int i) (persister (kv_rf kv)) (kc_maxraftstate c1) = Some kv' \<and> h_servers c2 ! i = Some kv' \<and>
    (\<forall>k. k \<noteq> i \<longrightarrow> h_servers c2 ! k = h_servers c ! k)"
proof -
  have copy [simp]: "Copy p = p" for p :: "(Op PersistentStatus, SnapshotStatus) Persister" by (simp add: Copy_def MakePersister_def)
  note D = harness_okD [OF assms(1)]
  obtain d where d: "onlyEnabled c d" "i < h_n c"
    "c1 = d\<lparr>h_saved := (h_saved d)[i := map_option Copy (case h_servers c ! i of Some kv \<Rightarrow> Some (kv_ps kv) | None \<Rightarrow> h_saved c ! i)],
        h_servers := (h_servers d)[i := None], h_net := DeleteServer (h_net d) (netName.Num i)\<rparr>"
    using ShutdownServer_eq [OF assms(2) [unfolded kv_ShutdownServer_def] assms(1)] .
  note E = onlyEnabled_sel [OF d(1)]
  have ok: "harness_ok c1" using ShutdownServer_ok [OF assms(1)] assms(2) by (simp add: kv_ShutdownServer_def)
  have c1: "h_servers c1 = (h_servers c)[i := None]" "h_saved c1 ! i = Some (persister (kv_rf kv))" "h_n c1 = h_n c"
    using d(2,3) E D(1,2) assms(4) by (simp_all add: kv_ps_def)
  obtain rn ps kv' where "i < h_n c1" and "newEnds (map names [0..<h_n c1]) (h_net c1) rn"
    and s: "ps = (case (case h_servers c1 ! i of Some kv \<Rightarrow> Some (kv_ps kv) | None \<Rightarrow> h_saved c1 ! i) of
        Some p \<Rightarrow> Copy p | None \<Rightarrow> MakePersister)"
    "StartKVServer (h_n (c1\<lparr>h_endnames := (h_endnames c1)[i := Some (map names [0..<h_n c1])], h_net := rn\<rparr>)) (int i) ps
      (kc_maxraftstate (c1\<lparr>h_endnames := (h_endnames c1)[i := Some (map names [0..<h_n c1])], h_net := rn\<rparr>)) = Some kv'"
    "c2 = c1\<lparr>h_endnames := (h_endnames c1)[i := Some (map names [0..<h_n c1])], h_saved := (h_saved c1)[i := Some ps],
        h_servers := (h_servers c1)[i := Some kv'], h_net := AddServer rn (netName.Num i) srv\<rparr>"
    using hStartServer_eq [OF assms(3) [unfolded kv_StartServer_def] ok] .
  have "ps = persister (kv_rf kv)" using s(1) c1 d(2) D(1) by simp
  then show ?thesis using s(2,3) c1 d(2) D(1) by auto
qed

text \<open>C14: the network of the service harnesses.  After any sequence of operations of the harness (connecting, partitioning,
  making and deleting clerks, stopping and starting servers), with servers and calls at work in between, the network fits the
  harness, for the key/value service and for the shard controller: all slices have one element per server, the ends of all servers
  and clerks have different names, each is an end of the network that leads to the server of its position, and a server can be
  reached exactly if the harness has it.\<close>

theorem service_network:
  assumes "reach kv_made kv_step c" and "reach sc_made sc_step d"
  shows "harness_ok c \<and> harness_ok d"
  using kv_harness.inv_reach [OF assms(1)] sc_harness.inv_reach [OF assms(2)] by blast

text \<open>C15: partitions.  Whatever the harness has done before, if all servers of the key/value service are running and their number is odd and
  at least three, \<^verbatim>\<open>make_partition\<close> and \<^verbatim>\<open>partition\<close> return; the parts have all servers, each once, the first has a majority of them and
  the second the leader, if there is one; afterwards requests get through between two servers exactly if they are in the
  same part, and the clerks' ends are as before.\<close>

theorem leader_in_minority:
  assumes "reach kv_made kv_step c" and "odd (h_n c)" and "3 \<le> h_n c" and "\<forall>i<h_n c. h_servers c ! i \<noteq> None"
  shows "\<exists>isLeader l p1 p2 c'. kv_Leader c = Some (isLeader, l) \<and> kv_make_partition c = Some (p1, p2) \<and> hPartition c p1 p2 = Some c' \<and>
    distinct (p1 @ p2) \<and> set (p1 @ p2) = {..<h_n c} \<and> majority (h_n c) (set p1) \<and> l \<in> set p2 \<and>
    (isLeader \<longrightarrow> (\<exists>kv. h_servers c ! l = Some kv \<and> role (kv_rf kv) = Leader)) \<and>
    (\<forall>i<h_n c. \<forall>j<h_n c. link c' i j = (i \<in> set p1 \<longleftrightarrow> j \<in> set p1)) \<and>
    (\<forall>ck j e. nameAt c (ClerkSlot ck j) = Some e \<longrightarrow> enabled (h_net c') (Str e) = enabled (h_net c) (Str e))"
proof -
  let ?n = "h_n c"
  have ok: "harness_ok c" by (rule kv_harness.inv_reach [OF assms(1)])
  note D = harness_okD [OF ok]
  have "\<forall>s\<in>set (h_servers c). s \<noteq> None" using assms(4) D(1) by (auto simp: in_set_conv_nth)
  from findLeader_returns [OF this, of False kv_rf 0, folded kv_Leader_def] obtain b l where l: "kv_Leader c = Some (b, l)"
    "b \<longrightarrow> l < length (h_servers c) \<and> (\<exists>s. h_servers c ! l = Some s \<and> role (kv_rf s) = Leader)" "\<not> b \<longrightarrow> l = 0"
    by (elim exE conjE) (rule that, auto)
  have ln: "l < ?n" using l(2,3) D(1) assms(3) by (cases b) auto
  obtain p1 p2 where p: "make_partition ?n l = Some (p1, p2)" "distinct (p1 @ p2)" "set (p1 @ p2) = {..<?n}" "l \<in> set p2"
    "length p1 = ?n div 2 + 1" using make_partition_odd [OF ln assms(2,3)] .
  have sub: "set p1 \<subseteq> {..<?n}" "set p2 \<subseteq> {..<?n}" "set p1 \<inter> set p2 = {}" using p(2,3) by auto
  have len: "length p1 \<le> ?n" "length p2 \<le> ?n"
    using p(2) distinct_card [of p1] distinct_card [of p2] card_mono [OF _ sub(1)] card_mono [OF _ sub(2)] by simp_all
  have w: "wired c" by (rule harness_wired [OF ok]) (use D(9) assms(4) in blast)
  obtain c' where c': "hPartition c p1 p2 = Some c'"
    "\<And>i j. i < ?n \<Longrightarrow> j < ?n \<Longrightarrow> link c' i j = (if i \<in> set p1 \<and> j \<in> set p2 \<or> i \<in> set p2 \<and> j \<in> set p1 then False
        else if i \<in> set p1 \<and> j \<in> set p1 \<or> i \<in> set p2 \<and> j \<in> set p2 then True else link c i j)"
    "\<And>e. e \<notin> serverEnds c \<Longrightarrow> enabled (h_net c') e = enabled (h_net c) e"
    by (rule hPartition_cuts [OF w sub len]) (rule that)
  have "link c' i j = (i \<in> set p1 \<longleftrightarrow> j \<in> set p1)" if "i < ?n" "j < ?n" for i j
  proof -
    have "i \<in> set p2 \<longleftrightarrow> i \<notin> set p1" "j \<in> set p2 \<longleftrightarrow> j \<notin> set p1" using p(3) sub(3) that by auto
    then show ?thesis using c'(2) [OF that] by auto
  qed
  moreover have "enabled (h_net c') (Str e) = enabled (h_net c) (Str e)" if e: "nameAt c (ClerkSlot ck j) = Some e" for ck j e
  proof -
    have "Str e \<notin> serverEnds c"
    proof
      assume "Str e \<in> serverEnds c"
      then obtain a b where ab: "a < ?n" "b < ?n" "e = nm c a b" by (auto simp: serverEnds_def)
      then have "nameAt c (ServerSlot a b) = Some e" using wired_name [OF w ab(1,2), of Some] by (auto simp: bind_convs)
      then show False using D(7) [OF e] by blast
    qed
    then show ?thesis by (rule c'(3))
  qed
  moreover have "majority ?n (set p1)" using sub(1) p(2,5) distinct_card [of p1] by (simp add: majority_def)
  ultimately show ?thesis
    using l p c'(1) by (intro exI [of _ b] exI [of _ l] exI [of _ p1] exI [of _ p2] exI [of _ c']) (simp add: kv_make_partition_def)
qed

section \<open>An example\<close>

text \<open>Three servers; their ends are called \<^verbatim>\<open>00\<close>, \<^verbatim>\<open>01\<close> and so on.\<close>

definition two_digits :: "nat \<Rightarrow> nat \<Rightarrow> string" where
  "two_digits i j = [char_of (48 + i), char_of (48 + j)]"

lemma two_digits_different:
  assumes "i < 3" "j < 3" "i' < 3" "j' < 3" "two_digits i j = two_digits i' j'"
  shows "i = i' \<and> j = j'"
proof -
  have digit: "a = b" if "char_of (48 + a) = (char_of (48 + b) :: char)" "a < 3" "b < 3" for a b :: nat
  proof -
    from that(1) have "of_char (char_of (48 + a) :: char) = (of_char (char_of (48 + b) :: char) :: nat)" by simp
    then show ?thesis using that(2,3) by (simp add: of_char_of)
  qed
  from assms show ?thesis unfolding two_digits_def by (auto dest: digit)
qed

theorem service_network_witness:
  "\<exists>c d. kv_make_config two_digits (\<lambda>i. i) 3 False 1000 = Some c \<and> sc_make_config two_digits (\<lambda>i. i) 3 False = Some d \<and>
     harness_ok c \<and> harness_ok d"
proof -
  obtain c where c: "kv_make_config two_digits (\<lambda>i. i) 3 False 1000 = Some c"
    using kv_make_config_returns [of 3 two_digits "\<lambda>i. i" False 1000] two_digits_different by blast
  obtain d where d: "sc_make_config two_digits (\<lambda>i. i) 3 False = Some d"
    using sc_make_config_returns [of 3 two_digits "\<lambda>i. i" False] two_digits_different by blast
  from service_network [OF reach_init [where init = kv_made and step = kv_step, OF kv_made.intros [OF c]] reach_init [where init = sc_made and step = sc_step, OF sc_made.intros [OF d]]]
  show ?thesis using c d by blast
qed

theorem leader_in_minority_witness:
  "\<exists>c p1 p2 c'. kv_make_config two_digits (\<lambda>i. i) 3 False 1000 = Some c \<and> kv_make_partition c = Some (p1, p2) \<and>
     hPartition c p1 p2 = Some c' \<and> (\<forall>i<3. \<forall>j<3. link c' i j = (i \<in> set p1 \<longleftrightarrow> j \<in> set p1))"
proof -
  obtain c where c: "kv_make_config two_digits (\<lambda>i. i) 3 False 1000 = Some c" "h_n c = 3" "\<forall>i<3. h_servers c ! i \<noteq> None"
    using kv_make_config_returns [of 3 two_digits "\<lambda>i. i" False 1000] two_digits_different by blast
  from leader_in_minority [OF reach_init [where init = kv_made and step = kv_step, OF kv_made.intros [OF c(1)]]] c(2,3)
  show ?thesis using c(1) by auto
qed

end
