(* ===== verification/Sk_Config.thy ===== *)
theory Sk_Config
  imports Svc_Config ShardKV Go_Strconv
begin

section \<open>The test harness of the sharded service (\<^verbatim>\<open>shardkv/config.go\<close>)\<close>

text \<open>
  The harness runs a shard controller of \<^verbatim>\<open>nctrlers\<close> servers and \<^verbatim>\<open>ngroups\<close> replica groups of \<^verbatim>\<open>n\<close> servers each, all on one
  network, where servers have names instead of numbers.  As for the other harnesses, a panic is \<^const>\<open>None\<close>, a nil
  slice is the empty list, and the names that \<^verbatim>\<open>randstring\<close> makes, addresses of new objects and random client numbers are arguments.
  What a server stores while it runs is in its Raft peer; \<open>g_saved\<close> counts when it does not.
\<close>

subsection \<open>The state\<close>

record group =
  g_gid :: int
  g_servers :: "ShardKV option list"
  g_saved :: "(SkOp PersistentStatus, SkSnapshot) Persister option list"
  g_endnames :: "string list list"
  g_mendnames :: "string list list"

record sk_config =
  t_net :: "netName Network"
  t_nctrlers :: nat
  t_ctrlerservers :: "ShardCtrler option list"
  t_mck :: "ScClerk option"
  t_ngroups :: nat
  t_n :: nat \<comment> \<open>servers per group\<close>
  t_groups :: "group option list"
  t_clerks :: "nat \<rightharpoonup> string list" \<comment> \<open>by the address of the clerk\<close>
  t_nextClientId :: int
  t_maxraftstate :: int

text \<open>\<^verbatim>\<open>cfg.groups[gi]\<close>; its fields cannot be used if it is nil.\<close>

definition grp :: "sk_config \<Rightarrow> nat \<Rightarrow> group option" where
  "grp cfg gi = do { p \<leftarrow> idx (t_groups cfg) (int gi); p }"

definition set_grp :: "sk_config \<Rightarrow> nat \<Rightarrow> group \<Rightarrow> sk_config option" where
  "set_grp cfg gi gg = do { gs \<leftarrow> set_idx (t_groups cfg) (int gi) (Some gg); Some (cfg\<lparr>t_groups := gs\<rparr>) }"

subsection \<open>Names of servers\<close>

definition ctrlername :: "nat \<Rightarrow> string" where
  "ctrlername i = ''ctrler'' @ Itoa i"

definition servername :: "int \<Rightarrow> nat \<Rightarrow> string" where
  "servername gid i = ''server-'' @ ItoaInt gid @ ''-'' @ Itoa i"

subsection \<open>Ends\<close>

text \<open>A new end, connected to the server and enabled: what the harness does for every end, and what a clerk or a server does with
  \<^verbatim>\<open>make_end\<close>.\<close>

definition make_end :: "netName Network \<Rightarrow> string \<Rightarrow> string \<Rightarrow> netName Network option" where
  "make_end rn name sname = do {
     (rn, _) \<leftarrow> MakeEnd rn (Str name);
     Some (Enable (Connect rn (Str name) (Str sname)) (Str name) True)
   }"

definition make_ends :: "(string \<times> string) list \<Rightarrow> sk_config \<Rightarrow> sk_config option" where
  "make_ends ps cfg = do {
     rn \<leftarrow> for_loop ps (\<lambda>(name, sname) rn. make_end rn name sname) (t_net cfg);
     Some (cfg\<lparr>t_net := rn\<rparr>)
   }"

text \<open>Ends to the servers of the controller, the \<open>j\<close>-th with the name \<open>names j\<close>.\<close>

definition ctrler_ends :: "(nat \<Rightarrow> string) \<Rightarrow> sk_config \<Rightarrow> sk_config option" where
  "ctrler_ends names cfg = make_ends (map (\<lambda>j. (names j, ctrlername j)) [0..<t_nctrlers cfg]) cfg"

subsection \<open>Clerks\<close>

text \<open>
  \<^verbatim>\<open>endnames\<close> has room for \<^verbatim>\<open>n\<close> names, but one is put in for every server of the controller.  \<open>newest\<close> is the configuration that
  the controller answers when the clerk is made.
\<close>

definition sk_makeClient ::
  "(nat \<Rightarrow> string) \<Rightarrow> nat \<Rightarrow> int \<Rightarrow> Config \<Rightarrow> sk_config \<Rightarrow> (sk_config \<times> SkClerk) option" where
  "sk_makeClient names ck rid newest cfg = do {
     (rn, endnames) \<leftarrow> for_loop [0..<t_nctrlers cfg] (\<lambda>j (rn, endnames). do {
       endnames \<leftarrow> set_idx endnames (int j) (names j);
       rn \<leftarrow> make_end rn (names j) (ctrlername j);
       Some (rn, endnames)
     }) (t_net cfg, replicate (t_n cfg) []);
     Some (cfg\<lparr>t_net := rn, t_clerks := (t_clerks cfg)(ck \<mapsto> endnames), t_nextClientId := t_nextClientId cfg + 1\<rparr>,
       skMakeClerk rid newest)
   }"

definition sk_deleteClient :: "sk_config \<Rightarrow> nat \<Rightarrow> sk_config" where
  "sk_deleteClient cfg ck = cfg\<lparr>t_clerks := (t_clerks cfg)(ck := None)\<rparr>"

subsection \<open>Stopping and starting servers of a group\<close>

text \<open>What the \<^verbatim>\<open>Persister\<close> in \<^verbatim>\<open>saved[i]\<close> holds.\<close>

definition g_stored :: "group \<Rightarrow> nat \<Rightarrow> (SkOp PersistentStatus, SkSnapshot) Persister option option" where
  "g_stored gg i = do {
     s \<leftarrow> idx (g_servers gg) (int i);
     p \<leftarrow> idx (g_saved gg) (int i);
     Some (case s of Some kv \<Rightarrow> Some (persister (sk_rf kv)) | None \<Rightarrow> p)
   }"

definition disable_ends :: "string list \<Rightarrow> netName Network \<Rightarrow> netName Network" where
  "disable_ends names rn = fold (\<lambda>name rn. Enable rn (Str name) False) names rn"

definition sk_ShutdownServer :: "nat \<Rightarrow> nat \<Rightarrow> sk_config \<Rightarrow> sk_config option" where
  "sk_ShutdownServer gi i cfg = do {
     gg \<leftarrow> grp cfg gi;
     rn \<leftarrow> for_loop [0..<length (g_servers gg)] (\<lambda>j rn. do {
       row \<leftarrow> idx (g_endnames gg) (int i);
       name \<leftarrow> idx row (int j);
       Some (Enable rn (Str name) False)
     }) (t_net cfg);
     mrow \<leftarrow> idx (g_mendnames gg) (int i);
     let rn = DeleteServer (disable_ends mrow rn) (Str (servername (g_gid gg) i));
     ps \<leftarrow> g_stored gg i;
     saved \<leftarrow> set_idx (g_saved gg) (int i) (map_option Copy ps);
     ss \<leftarrow> set_idx (g_servers gg) (int i) None;
     set_grp (cfg\<lparr>t_net := rn\<rparr>) gi (gg\<lparr>g_saved := saved, g_servers := ss\<rparr>)
   }"

definition sk_ShutdownGroup :: "nat \<Rightarrow> sk_config \<Rightarrow> sk_config option" where
  "sk_ShutdownGroup gi cfg = for_loop [0..<t_n cfg] (\<lambda>i. sk_ShutdownServer gi i) cfg"

text \<open>\<open>srv\<close> is the address of the new \<^verbatim>\<open>labrpc.Server\<close>.  \<^verbatim>\<open>mendnames\<close> is indexed by the number of the server in its group.\<close>

definition sk_StartServer ::
  "(nat \<Rightarrow> string) \<Rightarrow> (nat \<Rightarrow> string) \<Rightarrow> nat \<Rightarrow> nat \<Rightarrow> nat \<Rightarrow> sk_config \<Rightarrow> sk_config option" where
  "sk_StartServer names mnames srv gi i cfg = do {
     gg \<leftarrow> grp cfg gi;
     en \<leftarrow> set_idx (g_endnames gg) (int i) (map names [0..<t_n cfg]);
     cfg \<leftarrow> make_ends (map (\<lambda>j. (names j, servername (g_gid gg) j)) [0..<t_n cfg]) cfg;
     men \<leftarrow> set_idx (g_mendnames gg) (int i) (map mnames [0..<t_nctrlers cfg]);
     cfg \<leftarrow> ctrler_ends mnames cfg;
     old \<leftarrow> g_stored gg i;
     let ps = (case old of Some p \<Rightarrow> Copy p | None \<Rightarrow> MakePersister);
     saved \<leftarrow> set_idx (g_saved gg) (int i) (Some ps);
     kv \<leftarrow> skStartServer (t_n cfg) (int i) ps (t_maxraftstate cfg) (g_gid gg);
     ss \<leftarrow> set_idx (g_servers gg) (int i) (Some kv);
     set_grp (cfg\<lparr>t_net := AddServer (t_net cfg) (Str (servername (g_gid gg) i)) srv\<rparr>) gi
       (gg\<lparr>g_endnames := en, g_mendnames := men, g_saved := saved, g_servers := ss\<rparr>)
   }"

definition sk_StartGroup ::
  "(nat \<Rightarrow> nat \<Rightarrow> string) \<Rightarrow> (nat \<Rightarrow> nat \<Rightarrow> string) \<Rightarrow> (nat \<Rightarrow> nat) \<Rightarrow> nat \<Rightarrow> sk_config \<Rightarrow> sk_config option" where
  "sk_StartGroup names mnames srvs gi cfg =
     for_loop [0..<t_n cfg] (\<lambda>i. sk_StartServer (names i) (mnames i) (srvs i) gi i) cfg"

subsection \<open>The controller\<close>

definition StartCtrlerserver :: "(nat \<Rightarrow> string) \<Rightarrow> nat \<Rightarrow> nat \<Rightarrow> sk_config \<Rightarrow> sk_config option" where
  "StartCtrlerserver names srv i cfg = do {
     cfg \<leftarrow> ctrler_ends names cfg;
     sc \<leftarrow> StartServer (t_nctrlers cfg) (int i) MakePersister;
     ss \<leftarrow> set_idx (t_ctrlerservers cfg) (int i) (Some sc);
     Some (cfg\<lparr>t_ctrlerservers := ss, t_net := AddServer (t_net cfg) (Str (ctrlername i)) srv\<rparr>)
   }"

definition shardclerk :: "(nat \<Rightarrow> string) \<Rightarrow> int \<Rightarrow> sk_config \<Rightarrow> (sk_config \<times> ScClerk) option" where
  "shardclerk names rid cfg = do {
     cfg \<leftarrow> ctrler_ends names cfg;
     Some (cfg, ScMakeClerk (t_nctrlers cfg) rid)
   }"

text \<open>The groups that \<^verbatim>\<open>joinm\<close> names, with their servers; the calls of the controller's clerk get the answers \<open>results\<close>.\<close>

definition joinServers :: "sk_config \<Rightarrow> nat list \<Rightarrow> (int, string list) fmap option" where
  "joinServers cfg gis = for_loop gis (\<lambda>g m. do {
     gg \<leftarrow> grp cfg g;
     Some (fmupd (g_gid gg) (map (servername (g_gid gg)) [0..<t_n cfg]) m)
   }) fmempty"

definition joinm :: "nat list \<Rightarrow> scReply option list \<Rightarrow> sk_config \<Rightarrow> (sk_config \<times> JoinArgs \<times> unit option) option" where
  "joinm gis results cfg = do {
     m \<leftarrow> joinServers cfg gis;
     mck \<leftarrow> t_mck cfg;
     let (args, mck, r) = ClerkJoin mck m results;
     Some (cfg\<lparr>t_mck := Some mck\<rparr>, args, r)
   }"

definition leavem :: "nat list \<Rightarrow> scReply option list \<Rightarrow> sk_config \<Rightarrow> (sk_config \<times> LeaveArgs \<times> unit option) option" where
  "leavem gis results cfg = do {
     gids \<leftarrow> for_loop gis (\<lambda>g gids. do { gg \<leftarrow> grp cfg g; Some (gids @ [g_gid gg]) }) [];
     mck \<leftarrow> t_mck cfg;
     let (args, mck, r) = ClerkLeave mck gids results;
     Some (cfg\<lparr>t_mck := Some mck\<rparr>, args, r)
   }"

definition sk_join where
  "sk_join gi = joinm [gi]"

definition sk_leave where
  "sk_leave gi = leavem [gi]"

subsection \<open>Making and checking the harness\<close>

text \<open>What the names and addresses are for: the ends among the servers of the controller, those of its clerk, and those of the
  groups among each other and to the controller.\<close>

datatype label = CtrlerEnd nat nat | MckEnd nat | PeerEnd nat nat nat | MasterEnd nat nat nat

definition new_group :: "nat \<Rightarrow> sk_config \<Rightarrow> group" where
  "new_group gi cfg = \<lparr>g_gid = 100 + int gi, g_servers = replicate (t_n cfg) None, g_saved = replicate (t_n cfg) None,
     g_endnames = replicate (t_n cfg) [], g_mendnames = replicate (t_nctrlers cfg) []\<rparr>"

definition sk_make_config ::
  "(label \<Rightarrow> string) \<Rightarrow> (nat \<Rightarrow> nat) \<Rightarrow> (nat \<Rightarrow> nat \<Rightarrow> nat) \<Rightarrow> int \<Rightarrow> nat \<Rightarrow> bool \<Rightarrow> int \<Rightarrow> sk_config option" where
  "sk_make_config names csrvs srvs rid n unreliable maxraftstate = do {
     let cfg = \<lparr>t_net = MakeNetwork, t_nctrlers = 3, t_ctrlerservers = replicate 3 None, t_mck = None, t_ngroups = 0, t_n = 0,
       t_groups = [], t_clerks = Map.empty, t_nextClientId = 0, t_maxraftstate = maxraftstate\<rparr>;
     cfg \<leftarrow> for_loop [0..<3] (\<lambda>i. StartCtrlerserver (\<lambda>j. names (CtrlerEnd i j)) (csrvs i) i) cfg;
     (cfg, mck) \<leftarrow> shardclerk (\<lambda>j. names (MckEnd j)) rid cfg;
     let cfg = cfg\<lparr>t_mck := Some mck, t_ngroups := 3, t_groups := replicate 3 None, t_n := n\<rparr>;
     cfg \<leftarrow> for_loop [0..<3] (\<lambda>gi cfg. do {
       cfg \<leftarrow> set_grp cfg gi (new_group gi cfg);
       for_loop [0..<t_n cfg] (\<lambda>i. sk_StartServer (\<lambda>j. names (PeerEnd gi i j)) (\<lambda>j. names (MasterEnd gi i j)) (srvs gi i) gi i) cfg
     }) cfg;
     Some (cfg\<lparr>t_nextClientId := int (t_n cfg) + 1000, t_net := Reliable (t_net cfg) (\<not> unreliable)\<rparr>)
   }"

datatype log_error = LogTooLarge nat int | SnapshotNotEmpty

text \<open>The test fails at the first server with a log that is too large; \<open>rsize\<close> and \<open>ssize\<close> are the sizes of what is encoded.\<close>

definition checklogs ::
  "(SkOp PersistentStatus \<Rightarrow> nat) \<Rightarrow> (SkSnapshot \<Rightarrow> nat) \<Rightarrow> sk_config \<Rightarrow> (log_error + unit) option" where
  "checklogs rsize ssize cfg = for_loop (List.product [0..<t_ngroups cfg] [0..<t_n cfg]) (\<lambda>(gi, i) r. case r of
       Inl e \<Rightarrow> Some (Inl e)
     | Inr _ \<Rightarrow> do {
         gg \<leftarrow> grp cfg gi;
         p \<leftarrow> g_stored gg i;
         ps \<leftarrow> p;
         let raft = RaftStateSize rsize ps;
         let snap = SnapshotSize ssize ps;
         Some (if t_maxraftstate cfg \<ge> 0 \<and> int raft > 8 * t_maxraftstate cfg then Inl (LogTooLarge raft (t_maxraftstate cfg))
               else if t_maxraftstate cfg < 0 \<and> snap > 0 then Inl SnapshotNotEmpty
               else Inr ())
       }) (Inr ())"

definition sk_cleanup :: "bool \<Rightarrow> nat \<Rightarrow> sk_config \<Rightarrow> sk_config option" where
  "sk_cleanup bad elapsed cfg = do {
     cfg \<leftarrow> for_loop [0..<t_ngroups cfg] sk_ShutdownGroup cfg;
     ss \<leftarrow> for_loop [0..<t_nctrlers cfg] (\<lambda>i ss. do {
       s \<leftarrow> idx ss (int i);
       sc \<leftarrow> s;
       set_idx ss (int i) (Some (scKill sc))
     }) (t_ctrlerservers cfg);
     rn \<leftarrow> Cleanup (t_net cfg);
     _ \<leftarrow> hCheckTimeout bad elapsed;
     Some (cfg\<lparr>t_ctrlerservers := ss, t_net := rn\<rparr>)
   }"

end
