(* ===== verification/Sk_Network.thy ===== *)
theory Sk_Network
  imports Sk_Config Systems
begin

text \<open>
  The network of the sharded service's harness: ends lead to the servers that their names say, work exactly as long as the
  server that has them, whatever the harness does and however the servers work.
\<close>

section \<open>Names of servers\<close>

lemma dash_not_digit: "CHR ''-'' \<notin> set (Itoa n)"
  using Itoa_digits [of "CHR ''-''" n] by auto

lemma split_at_dash:
  assumes "xs @ CHR ''-'' # ys = xs' @ CHR ''-'' # ys'" and "CHR ''-'' \<notin> set xs" and "CHR ''-'' \<notin> set xs'"
  shows "xs = xs' \<and> ys = ys'"
  using assms by (induction xs xs' rule: list_induct2') auto

lemma servername_inj [simp]: "servername (100 + int gi) i = servername (100 + int gj) j \<longleftrightarrow> gi = gj \<and> i = j"
  using split_at_dash [of "Itoa (nat (100 + int gi))" "Itoa i" "Itoa (nat (100 + int gj))" "Itoa j"]
  by (auto simp: servername_def ItoaInt_def dash_not_digit nat_eq_iff)

lemma ctrlername_inj [simp]: "ctrlername i = ctrlername j \<longleftrightarrow> i = j"
  by (simp add: ctrlername_def)

lemma servername_not_ctrlername [simp]: "servername gid i \<noteq> ctrlername j" "ctrlername j \<noteq> servername gid i"
  by (simp_all add: servername_def ctrlername_def)

section \<open>New ends\<close>

definition madeEnds :: "(string \<times> string) list \<Rightarrow> netName Network \<Rightarrow> netName Network \<Rightarrow> bool" where
  "madeEnds ps rn rn' \<longleftrightarrow> distinct (map fst ps) \<and> (\<forall>e\<in>fst ` set ps. ends rn (Str e) = None) \<and>
     dom (ends rn') = dom (ends rn) \<union> Str ` fst ` set ps \<and>
     (\<forall>e s. (e, s) \<in> set ps \<longrightarrow> connections rn' (Str e) = Some (Str s) \<and> enabled rn' (Str e)) \<and>
     (\<forall>e. e \<notin> Str ` fst ` set ps \<longrightarrow> connections rn' e = connections rn e \<and> enabled rn' e = enabled rn e) \<and>
     servers rn' = servers rn"

lemma madeEndsD:
  assumes "madeEnds ps rn rn'"
  shows "distinct (map fst ps)" "e \<in> fst ` set ps \<Longrightarrow> ends rn (Str e) = None" "dom (ends rn') = dom (ends rn) \<union> Str ` fst ` set ps"
    "(e, s) \<in> set ps \<Longrightarrow> connections rn' (Str e) = Some (Str s)" "(e, s) \<in> set ps \<Longrightarrow> enabled rn' (Str e)"
    "x \<notin> Str ` fst ` set ps \<Longrightarrow> connections rn' x = connections rn x" "x \<notin> Str ` fst ` set ps \<Longrightarrow> enabled rn' x = enabled rn x"
    "servers rn' = servers rn"
  using assms by (auto simp: madeEnds_def)

lemma make_end_Some:
  "make_end rn e s = Some rn' \<longleftrightarrow> ends rn (Str e) = None \<and>
     rn' = rn\<lparr>ends := (ends rn)(Str e \<mapsto> \<lparr>ce_endname = Str e\<rparr>), enabled := (enabled rn)(Str e := True),
       connections := (connections rn)(Str e \<mapsto> Str s)\<rparr>"
  by (auto simp: make_end_def MakeEnd_def Connect_def Enable_def Let_def split: option.splits)

lemma madeEnds_snoc:
  assumes "madeEnds ps rn rn1" and "make_end rn1 e s = Some rn2"
  shows "madeEnds (ps @ [(e, s)]) rn rn2"
proof -
  have none: "ends rn1 (Str e) = None" and rn2: "rn2 = rn1\<lparr>ends := (ends rn1)(Str e \<mapsto> \<lparr>ce_endname = Str e\<rparr>),
      enabled := (enabled rn1)(Str e := True), connections := (connections rn1)(Str e \<mapsto> Str s)\<rparr>"
    using assms(2) unfolding make_end_Some by simp_all
  have "Str e \<notin> dom (ends rn) \<union> Str ` fst ` set ps" using none assms(1) unfolding madeEnds_def by (metis domIff)
  then have e: "e \<notin> fst ` set ps" "ends rn (Str e) = None" by auto
  then have "\<And>y. (e, y) \<notin> set ps" by force
  then show ?thesis using assms(1) e unfolding madeEnds_def rn2 by auto
qed

lemma madeEnds_loop:
  assumes "for_loop ps (\<lambda>(name, sname) rn. make_end rn name sname) rn = Some rn'"
  shows "madeEnds ps rn rn'"
  using assms
proof (induction ps arbitrary: rn' rule: rev_induct)
  case Nil
  then show ?case by (simp add: madeEnds_def)
next
  case (snoc p ps)
  obtain e s where p: "p = (e, s)" by (cases p)
  then obtain rn1 where "for_loop ps (\<lambda>(name, sname) rn. make_end rn name sname) rn = Some rn1" "make_end rn1 e s = Some rn'"
    using snoc.prems by (auto simp: for_loop_append bind_convs split: option.splits)
  then show ?case using snoc.IH madeEnds_snoc p by blast
qed

lemma madeEnds_total:
  assumes "distinct (map fst ps)" and "\<forall>e\<in>fst ` set ps. ends rn (Str e) = None"
  shows "\<exists>rn'. for_loop ps (\<lambda>(name, sname) rn. make_end rn name sname) rn = Some rn'"
  using assms
proof (induction ps rule: rev_induct)
  case (snoc p ps)
  obtain e s where p: "p = (e, s)" by (cases p)
  obtain rn1 where rn1: "for_loop ps (\<lambda>(name, sname) rn. make_end rn name sname) rn = Some rn1" using snoc by auto
  have "Str e \<notin> dom (ends rn1)" using madeEnds_loop [OF rn1] snoc.prems p by (auto simp: madeEnds_def)
  then have "make_end rn1 e s \<noteq> None" using make_end_Some [of rn1 e s] by (auto simp: domIff)
  then show ?case using rn1 p by (auto simp: for_loop_append)
qed simp

lemma make_ends_Some:
  assumes "make_ends ps c = Some c'"
  obtains rn where "madeEnds ps (t_net c) rn" and "c' = c\<lparr>t_net := rn\<rparr>"
  using assms madeEnds_loop by (auto simp: make_ends_def bind_convs)

lemma madeEnds_append:
  assumes "madeEnds ps rn rn1" and "madeEnds qs rn1 rn2"
  shows "madeEnds (ps @ qs) rn rn2"
proof -
  note P = madeEndsD [OF assms(1)] and Q = madeEndsD [OF assms(2)]
  have f: "Str e \<notin> dom (ends rn) \<and> e \<notin> fst ` set ps" if "e \<in> fst ` set qs" for e
    using Q(2) [OF that] P(3) by (metis UnCI domIff image_eqI)
  have new: "connections rn2 (Str e) = Some (Str s) \<and> enabled rn2 (Str e)" if "(e, s) \<in> set ps" for e s
  proof -
    have "Str e \<notin> Str ` fst ` set qs" using f that by force
    then show ?thesis using P(4,5) [OF that] Q(6,7) by simp
  qed
  show ?thesis
    unfolding madeEnds_def
  proof (intro conjI allI impI)
    show "distinct (map fst (ps @ qs))" using P(1) Q(1) f by auto
    show "\<forall>e\<in>fst ` set (ps @ qs). ends rn (Str e) = None" using P(2) f by (auto simp: domIff image_Un)
    show "connections rn2 (Str e) = Some (Str s)" "enabled rn2 (Str e)" if "(e, s) \<in> set (ps @ qs)" for e s
      using new Q(4,5) that by auto
    show "connections rn2 e = connections rn e" "enabled rn2 e = enabled rn e" if "e \<notin> Str ` fst ` set (ps @ qs)" for e
      using that P(6,7) [of e] Q(6,7) [of e] by (simp_all add: image_Un)
  qed (use P(3,8) Q(3,8) in auto)
qed

section \<open>The invariant\<close>

text \<open>The ends that the harness remembers; where they lead; whether their owner is running.\<close>

datatype end_slot = PeerSlot nat nat nat | MasterSlot nat nat nat | ClientSlot nat nat

fun slot_name :: "sk_config \<Rightarrow> end_slot \<Rightarrow> string option" where
  "slot_name c (PeerSlot gi i j) =
     (if j < t_n c then do { gg \<leftarrow> grp c gi; row \<leftarrow> idx (g_endnames gg) (int i); idx row (int j) } else None)"
| "slot_name c (MasterSlot gi i j) = do { gg \<leftarrow> grp c gi; row \<leftarrow> idx (g_mendnames gg) (int i); idx row (int j) }"
| "slot_name c (ClientSlot ck j) = (if j < t_nctrlers c then do { names \<leftarrow> t_clerks c ck; idx names (int j) } else None)"

fun slot_target :: "end_slot \<Rightarrow> string" where
  "slot_target (PeerSlot gi i j) = servername (100 + int gi) j"
| "slot_target (MasterSlot gi i j) = ctrlername j"
| "slot_target (ClientSlot ck j) = ctrlername j"

definition running :: "sk_config \<Rightarrow> nat \<Rightarrow> nat \<Rightarrow> bool" where
  "running c gi i \<longleftrightarrow> (\<exists>gg kv. grp c gi = Some gg \<and> i < length (g_servers gg) \<and> g_servers gg ! i = Some kv)"

fun slot_live :: "sk_config \<Rightarrow> end_slot \<Rightarrow> bool" where
  "slot_live c (PeerSlot gi i j) = running c gi i"
| "slot_live c (MasterSlot gi i j) = running c gi i"
| "slot_live c (ClientSlot ck j) = True"

definition slots_ok :: "netName Network \<Rightarrow> (end_slot \<Rightarrow> string option) \<Rightarrow> (end_slot \<Rightarrow> bool) \<Rightarrow> bool" where
  "slots_ok rn name live \<longleftrightarrow>
     (\<forall>s e. name s = Some e \<longrightarrow> ends rn (Str e) \<noteq> None \<and> connections rn (Str e) = Some (Str (slot_target s)) \<and> enabled rn (Str e) = live s) \<and>
     (\<forall>s t e. name s = Some e \<longrightarrow> name t = Some e \<longrightarrow> s = t)"

definition group_ok :: "sk_config \<Rightarrow> nat \<Rightarrow> group \<Rightarrow> bool" where
  "group_ok c gi gg \<longleftrightarrow> g_gid gg = 100 + int gi \<and> length (g_servers gg) = t_n c \<and> length (g_saved gg) = t_n c \<and>
     length (g_endnames gg) = t_n c \<and> length (g_mendnames gg) = t_nctrlers c \<and>
     (\<forall>i<t_n c. (servers (t_net c) (Str (servername (100 + int gi) i)) = None) = (g_servers gg ! i = None)) \<and>
     (\<forall>i<t_n c. g_servers gg ! i \<noteq> None \<longrightarrow> i < t_nctrlers c \<and> length (g_endnames gg ! i) = t_n c \<and> length (g_mendnames gg ! i) = t_nctrlers c)"

definition sk_ok :: "sk_config \<Rightarrow> bool" where
  "sk_ok c \<longleftrightarrow> length (t_ctrlerservers c) = t_nctrlers c \<and> length (t_groups c) = t_ngroups c \<and>
     (\<forall>gi gg. grp c gi = Some gg \<longrightarrow> group_ok c gi gg) \<and> slots_ok (t_net c) (slot_name c) (slot_live c) \<and>
     (\<forall>j<t_nctrlers c. (servers (t_net c) (Str (ctrlername j)) = None) = (t_ctrlerservers c ! j = None)) \<and>
     (\<forall>names\<in>ran (t_clerks c). length names = t_n c)"

text \<open>Everything has been started.\<close>

definition complete :: "sk_config \<Rightarrow> bool" where
  "complete c \<longleftrightarrow> (\<forall>gi<t_ngroups c. grp c gi \<noteq> None) \<and> (\<forall>j<t_nctrlers c. t_ctrlerservers c ! j \<noteq> None) \<and>
     t_mck c \<noteq> None \<and> t_n c \<le> t_nctrlers c"

lemma slots_okD:
  assumes "slots_ok rn name live"
  shows "name s = Some e \<Longrightarrow> ends rn (Str e) \<noteq> None" "name s = Some e \<Longrightarrow> connections rn (Str e) = Some (Str (slot_target s))"
    "name s = Some e \<Longrightarrow> enabled rn (Str e) = live s" "name s = Some e \<Longrightarrow> name t = Some e \<Longrightarrow> s = t"
  using assms unfolding slots_ok_def by blast+

lemma slots_okI:
  assumes "\<And>s e. name s = Some e \<Longrightarrow> ends rn (Str e) \<noteq> None \<and> connections rn (Str e) = Some (Str (slot_target s)) \<and> enabled rn (Str e) = live s"
    and "\<And>s t e. name s = Some e \<Longrightarrow> name t = Some e \<Longrightarrow> s = t"
  shows "slots_ok rn name live"
  using assms unfolding slots_ok_def by blast

lemma slots_ok_new:
  assumes "slots_ok rn name live" and "madeEnds ps rn rn'"
    and new: "\<And>s e. s \<in> S \<Longrightarrow> name' s = Some e \<Longrightarrow> (e, slot_target s) \<in> set ps \<and> live' s"
    and old: "\<And>s e. s \<notin> S \<Longrightarrow> name' s = Some e \<Longrightarrow> name s = Some e \<and> live' s = live s"
    and inj: "\<And>s t e. s \<in> S \<Longrightarrow> t \<in> S \<Longrightarrow> name' s = Some e \<Longrightarrow> name' t = Some e \<Longrightarrow> s = t"
  shows "slots_ok rn' name' live'"
proof -
  have n: "e \<in> fst ` set ps \<and> ends rn' (Str e) \<noteq> None \<and> connections rn' (Str e) = Some (Str (slot_target s)) \<and> enabled rn' (Str e) = live' s"
    if "s \<in> S" "name' s = Some e" for s e
  proof -
    have p: "(e, slot_target s) \<in> set ps" "live' s" using new [OF that] by simp_all
    then have "e \<in> fst ` set ps" by force
    moreover from this have "Str e \<in> dom (ends rn')" using assms(2) by (simp add: madeEnds_def)
    ultimately show ?thesis using madeEndsD(4,5) [OF assms(2) p(1)] p(2) by auto
  qed
  have o: "e \<notin> fst ` set ps \<and> ends rn' (Str e) \<noteq> None \<and> connections rn' (Str e) = Some (Str (slot_target s)) \<and> enabled rn' (Str e) = live' s"
    if "s \<notin> S" "name' s = Some e" for s e
  proof -
    have d: "ends rn (Str e) \<noteq> None" "connections rn (Str e) = Some (Str (slot_target s))" "enabled rn (Str e) = live' s"
      using slots_okD(1-3) [OF assms(1), of s e] old [OF that] by simp_all
    from d(1) have e: "e \<notin> fst ` set ps" using madeEndsD(2) [OF assms(2), of e] by metis
    then have "Str e \<notin> Str ` fst ` set ps" by auto
    moreover have "Str e \<in> dom (ends rn')" using d(1) madeEndsD(3) [OF assms(2)] by auto
    ultimately show ?thesis using d e madeEndsD(6,7) [OF assms(2), of "Str e"] by auto
  qed
  have "s = t" if "name' s = Some e" "name' t = Some e" for s t e
  proof (cases "s \<in> S"; cases "t \<in> S")
    assume "s \<notin> S" "t \<notin> S"
    then show "s = t" using old that slots_okD(4) [OF assms(1)] by blast
  qed (use n [OF _ that(1)] n [OF _ that(2)] o [OF _ that(1)] o [OF _ that(2)] inj [OF _ _ that] in blast)+
  moreover have "ends rn' (Str e) \<noteq> None \<and> connections rn' (Str e) = Some (Str (slot_target s)) \<and> enabled rn' (Str e) = live' s"
    if "name' s = Some e" for s e using n [OF _ that] o [OF _ that] by (cases "s \<in> S") auto
  ultimately show ?thesis by (intro slots_okI) blast+
qed

text \<open>The ends of a server that stops.\<close>

lemma slots_ok_disable:
  assumes "slots_ok rn name live" and "ends rn' = ends rn" "connections rn' = connections rn"
    and "\<And>e. enabled rn' e = (enabled rn e \<and> (\<forall>s x. s \<in> S \<longrightarrow> name s = Some x \<longrightarrow> e \<noteq> Str x))"
    and "\<And>s e. name' s = Some e \<Longrightarrow> name s = Some e"
    and "\<And>s. live' s = (live s \<and> s \<notin> S)"
  shows "slots_ok rn' name' live'"
proof -
  have "ends rn' (Str e) \<noteq> None \<and> connections rn' (Str e) = Some (Str (slot_target s)) \<and> enabled rn' (Str e) = live' s"
    if "name' s = Some e" for s e
  proof -
    have d: "ends rn (Str e) \<noteq> None" "connections rn (Str e) = Some (Str (slot_target s))" "enabled rn (Str e) = live s"
      "\<And>t. name t = Some e \<Longrightarrow> t = s"
      using slots_okD(1-3) [OF assms(1) assms(5) [OF that]] by simp_all (rule slots_okD(4) [OF assms(1) _ assms(5) [OF that]])
    have "(\<forall>t x. t \<in> S \<longrightarrow> name t = Some x \<longrightarrow> Str e \<noteq> Str x) = (s \<notin> S)" using d(4) assms(5) [OF that] by (metis netName.inject(1))
    then show ?thesis unfolding assms(2,3) assms(4) [of "Str e"] assms(6) [of s] using d(1-3) by simp
  qed
  moreover have "s = t" if "name' s = Some e" "name' t = Some e" for s t e
    by (rule slots_okD(4) [OF assms(1) assms(5) [OF that(1)] assms(5) [OF that(2)]])
  ultimately show ?thesis by (intro slots_okI) blast+
qed

section \<open>The operations keep the invariant\<close>

lemma grp_Some: "grp c gi = Some gg \<longleftrightarrow> gi < length (t_groups c) \<and> t_groups c ! gi = Some gg"
  by (auto simp: grp_def bind_convs idx_Some_iff)

lemma set_grp_Some: "set_grp c gi gg = Some c' \<longleftrightarrow> gi < length (t_groups c) \<and> c' = c\<lparr>t_groups := (t_groups c)[gi := Some gg]\<rparr>"
  by (auto simp: set_grp_def bind_convs set_idx_Some_iff)

lemma grp_update:
  assumes "gi < length (t_groups c)" and "t_groups c' = (t_groups c)[gi := Some gg]"
  shows "grp c' g = (if g = gi then Some gg else grp c g)"
  using assms by (auto simp: grp_def idx_def)

lemma g_stored_Some:
  "g_stored gg i = Some p \<longleftrightarrow> i < length (g_servers gg) \<and> i < length (g_saved gg) \<and>
     p = (case g_servers gg ! i of Some kv \<Rightarrow> Some (persister (sk_rf kv)) | None \<Rightarrow> g_saved gg ! i)"
  by (auto simp: g_stored_def bind_convs idx_Some_iff)

lemma sk_okD:
  assumes "sk_ok c"
  shows "length (t_ctrlerservers c) = t_nctrlers c" "length (t_groups c) = t_ngroups c"
    "grp c gi = Some gg \<Longrightarrow> group_ok c gi gg" "slots_ok (t_net c) (slot_name c) (slot_live c)"
    "j < t_nctrlers c \<Longrightarrow> (servers (t_net c) (Str (ctrlername j)) = None) = (t_ctrlerservers c ! j = None)"
    "t_clerks c ck = Some names \<Longrightarrow> length names = t_n c"
  using assms unfolding sk_ok_def by (auto intro: ranI)

lemma group_okD:
  assumes "group_ok c gi gg"
  shows "g_gid gg = 100 + int gi" "length (g_servers gg) = t_n c" "length (g_saved gg) = t_n c" "length (g_endnames gg) = t_n c"
    "length (g_mendnames gg) = t_nctrlers c"
    "i < t_n c \<Longrightarrow> (servers (t_net c) (Str (servername (100 + int gi) i)) = None) = (g_servers gg ! i = None)"
    "i < t_n c \<Longrightarrow> g_servers gg ! i \<noteq> None \<Longrightarrow>
       i < t_nctrlers c \<and> length (g_endnames gg ! i) = t_n c \<and> length (g_mendnames gg ! i) = t_nctrlers c"
  using assms unfolding group_ok_def by auto

lemma group_ok_cong:
  assumes "group_ok c gi gg" and "t_n c' = t_n c" and "t_nctrlers c' = t_nctrlers c"
    and "\<And>i. servers (t_net c') (Str (servername (100 + int gi) i)) = servers (t_net c) (Str (servername (100 + int gi) i))"
  shows "group_ok c' gi gg"
  using assms by (simp add: group_ok_def)

text \<open>One server of one group changes.\<close>

definition owned :: "nat \<Rightarrow> nat \<Rightarrow> end_slot set" where
  "owned gi i = range (PeerSlot gi i) \<union> range (MasterSlot gi i)"

lemma sk_ok_group:
  assumes "sk_ok c" and "t_n c' = t_n c" "t_nctrlers c' = t_nctrlers c" "t_ngroups c' = t_ngroups c" "t_ctrlerservers c' = t_ctrlerservers c"
    "t_clerks c' = t_clerks c"
    and "gi < length (t_groups c)" "t_groups c' = (t_groups c)[gi := Some gg]"
    and "servers (t_net c') = (servers (t_net c))(Str (servername (100 + int gi) i) := a)"
    and "group_ok c' gi gg" and "slots_ok (t_net c') (slot_name c') (slot_live c')"
  shows "sk_ok c'"
proof -
  note D = sk_okD [OF assms(1)]
  have "group_ok c' g g'" if "grp c' g = Some g'" for g g'
  proof (cases "g = gi")
    case True
    then show ?thesis using that assms(10) grp_update [OF assms(7,8), of g] by simp
  next
    case False
    then have "grp c g = Some g'" using that grp_update [OF assms(7,8), of g] by simp
    then show ?thesis by (rule group_ok_cong [OF D(3) assms(2,3)]) (simp add: assms(9) False)
  qed
  then show ?thesis unfolding sk_ok_def using D(1,2,5) assms(1-6,8,9,11) by (simp add: sk_ok_def)
qed

lemma group_ok_place:
  assumes "group_ok c gi gg" and "i < t_n c" and "t_n c' = t_n c" "t_nctrlers c' = t_nctrlers c"
    and "g_gid gg' = g_gid gg" "length (g_saved gg') = length (g_saved gg)" "g_servers gg' = (g_servers gg)[i := s]"
    and "length (g_endnames gg') = t_n c" "length (g_mendnames gg') = t_nctrlers c"
    and "\<And>k. k \<noteq> i \<Longrightarrow> g_endnames gg' ! k = g_endnames gg ! k \<and> g_mendnames gg' ! k = g_mendnames gg ! k"
    and "s \<noteq> None \<longrightarrow> i < t_nctrlers c \<and> length (g_endnames gg' ! i) = t_n c \<and> length (g_mendnames gg' ! i) = t_nctrlers c"
    and "servers (t_net c') = (servers (t_net c))(Str (servername (100 + int gi) i) := a)" and "(a = None) = (s = None)"
  shows "group_ok c' gi gg'"
proof -
  note D = group_okD [OF assms(1)]
  have "(servers (t_net c') (Str (servername (100 + int gi) k)) = None) = (g_servers gg' ! k = None)" if "k < t_n c" for k
    using D(2) D(6) [OF that] that assms(7,12,13) by (cases "k = i") simp_all
  moreover have "k < t_nctrlers c \<and> length (g_endnames gg' ! k) = t_n c \<and> length (g_mendnames gg' ! k) = t_nctrlers c"
    if "k < t_n c" "g_servers gg' ! k \<noteq> None" for k
    using D(2) D(7) [OF that(1)] that assms(7,10,11) by (cases "k = i") simp_all
  ultimately show ?thesis unfolding group_ok_def using D(1-3) assms(3-9) by simp
qed

lemma slots_update:
  assumes "gi < length (t_groups c)" "t_groups c' = (t_groups c)[gi := Some gg']" "t_clerks c' = t_clerks c" "t_nctrlers c' = t_nctrlers c" "t_n c' = t_n c"
    and "grp c gi = Some gg" and "\<And>k. k \<noteq> i \<Longrightarrow> idx (g_endnames gg') (int k) = idx (g_endnames gg) (int k) \<and> idx (g_mendnames gg') (int k) = idx (g_mendnames gg) (int k)"
    and "g_servers gg' = (g_servers gg)[i := s]" and "x \<notin> owned gi i"
  shows "slot_name c' x = slot_name c x" "slot_live c' x = slot_live c x"
proof -
  have n: "g \<noteq> gi \<or> k \<noteq> i" if "x = PeerSlot g k j \<or> x = MasterSlot g k j" for g k j using that assms(9) by (auto simp: owned_def)
  have r: "running c' g k = running c g k" if "g \<noteq> gi \<or> k \<noteq> i" for g k
    using that assms(6,8) unfolding running_def grp_update [OF assms(1,2)] by (auto simp: nth_list_update)
  show "slot_name c' x = slot_name c x"
  proof (cases x)
    case (PeerSlot g k j)
    then show ?thesis using n [of g k j] assms(6) assms(7) [of k] by (cases "g = gi") (simp_all add: assms(5) grp_update [OF assms(1,2)])
  next
    case (MasterSlot g k j)
    then show ?thesis using n [of g k j] assms(6) assms(7) [of k] by (cases "g = gi") (simp_all add: assms(5) grp_update [OF assms(1,2)])
  qed (simp add: assms(3,4))
  show "slot_live c' x = slot_live c x" using r n by (cases x) simp_all
qed

subsection \<open>Starting a server\<close>

text \<open>The new ends of a server of a group.\<close>

definition server_ends :: "(nat \<Rightarrow> string) \<Rightarrow> (nat \<Rightarrow> string) \<Rightarrow> nat \<Rightarrow> sk_config \<Rightarrow> (string \<times> string) list" where
  "server_ends names mnames gi c = map (\<lambda>j. (names j, servername (100 + int gi) j)) [0..<t_n c] @
     map (\<lambda>j. (mnames j, ctrlername j)) [0..<t_nctrlers c]"

lemma sk_StartServer_eq:
  assumes "sk_StartServer names mnames srv gi i c = Some c'" and "sk_ok c"
  obtains gg rn ps kv where "grp c gi = Some gg" and "i < t_n c" and "i < t_nctrlers c" and "madeEnds (server_ends names mnames gi c) (t_net c) rn"
    and "ps = (case (case g_servers gg ! i of Some kv \<Rightarrow> Some (persister (sk_rf kv)) | None \<Rightarrow> g_saved gg ! i) of Some p \<Rightarrow> Copy p | None \<Rightarrow> MakePersister)"
    and "skStartServer (t_n c) (int i) ps (t_maxraftstate c) (g_gid gg) = Some kv"
    and "c' = c\<lparr>t_net := AddServer rn (Str (servername (100 + int gi) i)) srv, t_groups := (t_groups c)[gi := Some
      (gg\<lparr>g_endnames := (g_endnames gg)[i := map names [0..<t_n c]], g_mendnames := (g_mendnames gg)[i := map mnames [0..<t_nctrlers c]],
          g_saved := (g_saved gg)[i := Some ps], g_servers := (g_servers gg)[i := Some kv]\<rparr>)]\<rparr>"
proof -
  obtain gg where gg: "grp c gi = Some gg" using assms(1) by (auto simp: sk_StartServer_def bind_convs)
  note G = group_okD [OF sk_okD(3) [OF assms(2) gg]]
  obtain c1 where c1: "make_ends (map (\<lambda>j. (names j, servername (100 + int gi) j)) [0..<t_n c]) c = Some c1"
    using assms(1) gg G(1) by (auto simp: sk_StartServer_def bind_convs)
  then obtain rn1 where rn1: "madeEnds (map (\<lambda>j. (names j, servername (100 + int gi) j)) [0..<t_n c]) (t_net c) rn1" "c1 = c\<lparr>t_net := rn1\<rparr>"
    by (rule make_ends_Some)
  obtain c2 where c2: "ctrler_ends mnames c1 = Some c2" using assms(1) gg G(1) c1 by (auto simp: sk_StartServer_def bind_convs)
  then obtain rn where rn: "madeEnds (map (\<lambda>j. (mnames j, ctrlername j)) [0..<t_nctrlers c]) rn1 rn" "c2 = c\<lparr>t_net := rn\<rparr>"
    unfolding ctrler_ends_def by (rule make_ends_Some) (auto simp: rn1(2))
  let ?ps = "case (case g_servers gg ! i of Some kv \<Rightarrow> Some (persister (sk_rf kv)) | None \<Rightarrow> g_saved gg ! i) of Some p \<Rightarrow> Copy p | None \<Rightarrow> MakePersister"
  obtain kv where kv: "i < t_n c" "i < t_nctrlers c" "skStartServer (t_n c) (int i) ?ps (t_maxraftstate c) (g_gid gg) = Some kv"
    "c' = c\<lparr>t_net := AddServer rn (Str (servername (100 + int gi) i)) srv, t_groups := (t_groups c)[gi := Some
      (gg\<lparr>g_endnames := (g_endnames gg)[i := map names [0..<t_n c]], g_mendnames := (g_mendnames gg)[i := map mnames [0..<t_nctrlers c]],
          g_saved := (g_saved gg)[i := Some ?ps], g_servers := (g_servers gg)[i := Some kv]\<rparr>)]\<rparr>"
    using assms(1) gg G(1-5) c1 c2 rn1(2) rn(2)
    by (auto simp: sk_StartServer_def bind_convs Let_def set_idx_Some_iff g_stored_Some set_grp_Some cong: option.case_cong)
  have "madeEnds (server_ends names mnames gi c) (t_net c) rn" unfolding server_ends_def by (rule madeEnds_append [OF rn1(1) rn(1)])
  then show thesis by (rule that [OF gg kv(1,2) _ refl kv(3,4)])
qed

lemma owned_name:
  assumes "grp c' gi = Some gg'" and "t_n c' = n" and "idx (g_endnames gg') (int i) = Some (map names [0..<n])" "idx (g_mendnames gg') (int i) = Some (map mnames [0..<m])"
  shows "slot_name c' (PeerSlot gi i j) = (if j < n then Some (names j) else None)"
    "slot_name c' (MasterSlot gi i j) = (if j < m then Some (mnames j) else None)"
  using assms by (simp_all add: idx_def)

lemma server_ends_differ:
  assumes "madeEnds (server_ends names mnames gi c) rn rn'"
  shows "inj_on names {..<t_n c}" "inj_on mnames {..<t_nctrlers c}" "j < t_n c \<Longrightarrow> k < t_nctrlers c \<Longrightarrow> names j \<noteq> mnames k"
    "j < t_n c \<Longrightarrow> k < t_nctrlers c \<Longrightarrow> mnames k \<noteq> names j"
  using madeEndsD(1) [OF assms] by (auto simp: server_ends_def distinct_map o_def atLeast0LessThan)

lemma sk_StartServer_ok:
  assumes "sk_ok c" and "sk_StartServer names mnames srv gi i c = Some c'"
  shows "sk_ok c'"
proof -
  obtain gg rn ps kv where e: "grp c gi = Some gg" "i < t_n c" "i < t_nctrlers c" "madeEnds (server_ends names mnames gi c) (t_net c) rn"
    "c' = c\<lparr>t_net := AddServer rn (Str (servername (100 + int gi) i)) srv, t_groups := (t_groups c)[gi := Some
      (gg\<lparr>g_endnames := (g_endnames gg)[i := map names [0..<t_n c]], g_mendnames := (g_mendnames gg)[i := map mnames [0..<t_nctrlers c]],
          g_saved := (g_saved gg)[i := Some ps], g_servers := (g_servers gg)[i := Some kv]\<rparr>)]\<rparr>"
    using sk_StartServer_eq [OF assms(2,1)] by metis
  let ?gg = "gg\<lparr>g_endnames := (g_endnames gg)[i := map names [0..<t_n c]], g_mendnames := (g_mendnames gg)[i := map mnames [0..<t_nctrlers c]],
          g_saved := (g_saved gg)[i := Some ps], g_servers := (g_servers gg)[i := Some kv]\<rparr>"
  note D = sk_okD [OF assms(1)] and G = group_okD [OF sk_okD(3) [OF assms(1) e(1)]] and M = madeEndsD [OF e(4)]
  have gi: "gi < length (t_groups c)" using e(1) by (simp add: grp_Some)
  have g': "t_groups c' = (t_groups c)[gi := Some ?gg]" "grp c' gi = Some ?gg" using gi by (simp_all add: e(5) grp_Some)
  have sv: "servers (t_net c') = (servers (t_net c))(Str (servername (100 + int gi) i) := Some srv)" by (simp add: e(5) AddServer_def M(8))
  have row: "idx (g_endnames ?gg) (int i) = Some (map names [0..<t_n c])" "idx (g_mendnames ?gg) (int i) = Some (map mnames [0..<t_nctrlers c])"
    using e(2,3) G(4,5) by (simp_all add: idx_Some_iff)
  have old: "slot_name c' s = slot_name c s" "slot_live c' s = slot_live c s" if "s \<notin> owned gi i" for s
    by (rule slots_update [OF gi g'(1) _ _ _ e(1) _ _ that]; simp add: e(5) idx_def)+
  note N = owned_name [OF g'(2) _ row]
  have n: "t_n c' = t_n c" by (simp add: e(5))
  have live: "slot_live c' s" if "s \<in> owned gi i" for s using that g'(2) e(2) G(2) by (auto simp: owned_def running_def)
  have "slots_ok rn (slot_name c') (slot_live c')"
  proof (rule slots_ok_new [OF D(4) e(4)])
    fix s t x assume "s \<in> owned gi i" "t \<in> owned gi i" "slot_name c' s = Some x" "slot_name c' t = Some x"
    then show "s = t"
      using server_ends_differ [OF e(4)] by (auto simp: owned_def N [OF n] inj_on_def simp del: slot_name.simps split: if_splits)
  next
    fix s x assume "s \<in> owned gi i" "slot_name c' s = Some x"
    then show "(x, slot_target s) \<in> set (server_ends names mnames gi c) \<and> slot_live c' s"
      using live by (auto simp: owned_def N [OF n] server_ends_def simp del: slot_name.simps split: if_splits)
  qed (use old in auto)
  then have "slots_ok (t_net c') (slot_name c') (slot_live c')" by (simp add: e(5) AddServer_def slots_ok_def)
  moreover have "group_ok c' gi ?gg"
    by (rule group_ok_place [OF sk_okD(3) [OF assms(1) e(1)] e(2), where a = "Some srv" and s = "Some kv"])
      (use G e(2,3) sv in \<open>simp_all add: e(5)\<close>)
  ultimately show ?thesis by (intro sk_ok_group [OF assms(1) _ _ _ _ _ gi g'(1) sv]) (simp_all add: e(5))
qed

subsection \<open>Stopping a server\<close>

lemma disable_ends_eq: "disable_ends ns rn = rn\<lparr>enabled := \<lambda>e. enabled rn e \<and> e \<notin> Str ` set ns\<rparr>"
proof (induction ns arbitrary: rn)
  case Nil
  then show ?case by (simp add: disable_ends_def)
next
  case (Cons x xs)
  have "disable_ends (x # xs) rn = disable_ends xs (Enable rn (Str x) False)" by (simp add: disable_ends_def)
  then show ?case unfolding Cons.IH by (auto simp: Enable_def fun_eq_iff)
qed

lemma disable_loop:
  assumes "for_loop [0..<k] (\<lambda>j rn. do { row \<leftarrow> idx rows (int i); name \<leftarrow> idx row (int j); Some (Enable rn (Str name) False) }) rn = Some rn'"
    and "idx rows (int i) = Some row"
  shows "k \<le> length row \<and> rn' = disable_ends (take k row) rn"
  using assms(1)
proof (induction k arbitrary: rn')
  case 0
  then show ?case by (simp add: disable_ends_def)
next
  case (Suc k)
  then obtain rn1 name where "for_loop [0..<k] (\<lambda>j rn. do { row \<leftarrow> idx rows (int i); name \<leftarrow> idx row (int j); Some (Enable rn (Str name) False) }) rn = Some rn1"
    "idx row (int k) = Some name" "rn' = Enable rn1 (Str name) False"
    using assms(2) by (auto simp: for_loop_append bind_convs split: option.splits)
  then show ?case using Suc.IH by (auto simp: idx_Some_iff take_Suc_conv_app_nth disable_ends_def)
qed

lemma sk_ShutdownServer_eq:
  assumes "sk_ShutdownServer gi i c = Some c'" and "sk_ok c"
  obtains gg where "grp c gi = Some gg" and "i < t_n c" and "i < t_nctrlers c" and "t_n c \<le> length (g_endnames gg ! i)"
    and "c' = c\<lparr>t_net := DeleteServer (disable_ends (g_mendnames gg ! i) (disable_ends (take (t_n c) (g_endnames gg ! i)) (t_net c)))
        (Str (servername (100 + int gi) i)),
      t_groups := (t_groups c)[gi := Some (gg\<lparr>g_saved := (g_saved gg)[i := map_option Copy
          (case g_servers gg ! i of Some kv \<Rightarrow> Some (persister (sk_rf kv)) | None \<Rightarrow> g_saved gg ! i)], g_servers := (g_servers gg)[i := None]\<rparr>)]\<rparr>"
proof -
  obtain gg where gg: "grp c gi = Some gg" using assms(1) by (auto simp: sk_ShutdownServer_def bind_convs)
  note G = group_okD [OF sk_okD(3) [OF assms(2) gg]]
  obtain rn mrow where rn: "for_loop [0..<t_n c] (\<lambda>j rn. do { row \<leftarrow> idx (g_endnames gg) (int i); name \<leftarrow> idx row (int j);
      Some (Enable rn (Str name) False) }) (t_net c) = Some rn" "idx (g_mendnames gg) (int i) = Some mrow"
    using assms(1) gg G(2) by (auto simp: sk_ShutdownServer_def bind_convs)
  have i: "i < t_n c" "i < t_nctrlers c" "mrow = g_mendnames gg ! i"
    using assms(1) rn gg G(2,3,5) by (auto simp: sk_ShutdownServer_def bind_convs Let_def g_stored_Some idx_Some_iff)
  have r: "t_n c \<le> length (g_endnames gg ! i)" "rn = disable_ends (take (t_n c) (g_endnames gg ! i)) (t_net c)"
    using disable_loop [OF rn(1)] i(1) G(4) by (auto simp: idx_def)
  show thesis
    by (rule that [OF gg i(1,2) r(1)])
      (use assms(1) gg rn i r(2) G(1-3) in \<open>auto simp: sk_ShutdownServer_def bind_convs Let_def set_idx_Some_iff g_stored_Some set_grp_Some cong: option.case_cong\<close>)
qed

lemma sk_ShutdownServer_ok:
  assumes "sk_ok c" and "sk_ShutdownServer gi i c = Some c'"
  shows "sk_ok c'"
proof -
  obtain gg p where e: "grp c gi = Some gg" "i < t_n c" "i < t_nctrlers c" "t_n c \<le> length (g_endnames gg ! i)"
    "c' = c\<lparr>t_net := DeleteServer (disable_ends (g_mendnames gg ! i) (disable_ends (take (t_n c) (g_endnames gg ! i)) (t_net c)))
        (Str (servername (100 + int gi) i)),
      t_groups := (t_groups c)[gi := Some (gg\<lparr>g_saved := (g_saved gg)[i := p], g_servers := (g_servers gg)[i := None]\<rparr>)]\<rparr>"
    using sk_ShutdownServer_eq [OF assms(2,1)] by metis
  let ?gg = "gg\<lparr>g_saved := (g_saved gg)[i := p], g_servers := (g_servers gg)[i := None]\<rparr>"
  let ?gone = "\<lambda>e. \<forall>s x. s \<in> owned gi i \<longrightarrow> slot_name c s = Some x \<longrightarrow> e \<noteq> Str x"
  note D = sk_okD [OF assms(1)] and G = group_okD [OF sk_okD(3) [OF assms(1) e(1)]]
  have gi: "gi < length (t_groups c)" using e(1) by (simp add: grp_Some)
  have g': "t_groups c' = (t_groups c)[gi := Some ?gg]" by (simp add: e(5))
  have sv: "servers (t_net c') = (servers (t_net c))(Str (servername (100 + int gi) i) := None)" by (simp add: e(5) DeleteServer_def disable_ends_eq)
  have peer: "slot_name c (PeerSlot gi i j) = Some x \<longleftrightarrow> j < t_n c \<and> take (t_n c) (g_endnames gg ! i) ! j = x"
    and master: "slot_name c (MasterSlot gi i j) = Some x \<longleftrightarrow> j < length (g_mendnames gg ! i) \<and> g_mendnames gg ! i ! j = x" for j x
    using e(1-4) G(4,5) by (auto simp: idx_def)
  have own: "(\<exists>s\<in>owned gi i. slot_name c s = Some x) \<longleftrightarrow> x \<in> set (take (t_n c) (g_endnames gg ! i)) \<or> x \<in> set (g_mendnames gg ! i)" for x
    using e(4) by (auto simp: owned_def bex_Un peer master in_set_conv_nth simp del: slot_name.simps)
  have gone: "?gone x = (x \<notin> Str ` set (take (t_n c) (g_endnames gg ! i)) \<and> x \<notin> Str ` set (g_mendnames gg ! i))" for x
    using own by blast
  have same: "slot_name c' s = slot_name c s" for s
    using e(1) by (cases s) (simp_all add: grp_update [OF gi g'], simp_all add: e(5))
  have live: "slot_live c' s = (slot_live c s \<and> s \<notin> owned gi i)" for s
  proof (cases "s \<in> owned gi i")
    case True
    then show ?thesis using e(2) G(2) by (auto simp: owned_def running_def grp_update [OF gi g'])
  next
    case False
    then show ?thesis using slots_update(2) [OF gi g' _ _ _ e(1) _ _ False, of None] by (simp add: e(5))
  qed
  have "slots_ok (t_net c') (slot_name c') (slot_live c')"
    by (rule slots_ok_disable [OF D(4), where S = "owned gi i"])
      (use same live in \<open>simp_all only: gone\<close>, auto simp: e(5) DeleteServer_def disable_ends_eq)
  moreover have "group_ok c' gi ?gg"
    by (rule group_ok_place [OF sk_okD(3) [OF assms(1) e(1)] e(2), where a = None and s = None]) (use G sv in \<open>simp_all add: e(5)\<close>)
  ultimately show ?thesis by (intro sk_ok_group [OF assms(1) _ _ _ _ _ gi g' sv]) (simp_all add: e(5))
qed

subsection \<open>Clerks, controllers, calls\<close>

lemma sk_ok_same:
  assumes "sk_ok c" and "t_n c' = t_n c" "t_nctrlers c' = t_nctrlers c" "t_ngroups c' = t_ngroups c" "t_groups c' = t_groups c"
    and "servers (t_net c') = servers (t_net c)" and "map Option.is_none (t_ctrlerservers c') = map Option.is_none (t_ctrlerservers c)"
    and "slots_ok (t_net c') (slot_name c') (slot_live c')" and "\<And>ck names. t_clerks c' ck = Some names \<Longrightarrow> length names = t_n c"
  shows "sk_ok c'"
proof -
  note D = sk_okD [OF assms(1)]
  have len: "length (t_ctrlerservers c') = length (t_ctrlerservers c)" using assms(7) by (metis length_map)
  have "(t_ctrlerservers c' ! j = None) = (t_ctrlerservers c ! j = None)" if "j < t_nctrlers c" for j
    using assms(7) len that D(1) by (metis Option.is_none_def nth_map)
  moreover have "group_ok c' gi gg" if "grp c' gi = Some gg" for gi gg
    using that assms(5) by (intro group_ok_cong [OF D(3) assms(2,3)]) (simp_all add: grp_def assms(6))
  ultimately show ?thesis unfolding sk_ok_def using D(1,2,5) len assms(2-6,8,9) by (auto simp: ran_def)
qed

lemma slots_same:
  assumes "t_groups c' = t_groups c" "t_clerks c' = t_clerks c" "t_nctrlers c' = t_nctrlers c" "t_n c' = t_n c"
  shows "slot_name c' = slot_name c" "slot_live c' = slot_live c"
proof -
  have "slot_name c' s = slot_name c s" "slot_live c' s = slot_live c s" for s
    using assms by (cases s; simp add: grp_def running_def)+
  then show "slot_name c' = slot_name c" "slot_live c' = slot_live c" by (simp_all add: fun_eq_iff)
qed

lemma sk_ok_ends:
  assumes "sk_ok c" and "madeEnds ps (t_net c) rn"
  shows "sk_ok (c\<lparr>t_net := rn\<rparr>)"
proof -
  have "slots_ok rn (slot_name c) (slot_live c)" by (rule slots_ok_new [OF sk_okD(4) [OF assms(1)] assms(2), where S = "{}"]) auto
  moreover have "slot_name (c\<lparr>t_net := rn\<rparr>) = slot_name c" "slot_live (c\<lparr>t_net := rn\<rparr>) = slot_live c" by (rule slots_same; simp)+
  ultimately show ?thesis
    using sk_okD(6) [OF assms(1)] by (intro sk_ok_same [OF assms(1)]) (simp_all add: madeEndsD(8) [OF assms(2)])
qed

lemma sk_ok_rest:
  assumes "sk_ok c" and "t_n c' = t_n c" "t_nctrlers c' = t_nctrlers c" "t_ngroups c' = t_ngroups c" "t_groups c' = t_groups c"
    "t_clerks c' = t_clerks c" and "map Option.is_none (t_ctrlerservers c') = map Option.is_none (t_ctrlerservers c)"
    and "ends (t_net c') = ends (t_net c)" "connections (t_net c') = connections (t_net c)" "enabled (t_net c') = enabled (t_net c)"
      "servers (t_net c') = servers (t_net c)"
  shows "sk_ok c'"
proof -
  have "slots_ok (t_net c') (slot_name c') (slot_live c')"
    using sk_okD(4) [OF assms(1)] unfolding slots_same [OF assms(5,6,3,2)] slots_ok_def assms(8-10) .
  then show ?thesis using sk_okD(6) [OF assms(1)] assms by (intro sk_ok_same [OF assms(1)]) simp_all
qed

lemma client_loop:
  assumes "for_loop [0..<k] (\<lambda>j (rn, endnames). do { endnames \<leftarrow> set_idx endnames (int j) (names j); rn \<leftarrow> make_end rn (names j) (ctrlername j);
      Some (rn, endnames) }) (rn, ns) = Some (rn', ns')"
  shows "madeEnds (map (\<lambda>j. (names j, ctrlername j)) [0..<k]) rn rn' \<and> k \<le> length ns \<and> ns' = map names [0..<k] @ drop k ns"
  using assms
proof (induction k arbitrary: rn' ns')
  case 0
  then show ?case by (simp add: madeEnds_def)
next
  case (Suc k)
  from Suc.prems obtain rn1 ns1 where 1: "for_loop [0..<k] (\<lambda>j (rn, endnames). do { endnames \<leftarrow> set_idx endnames (int j) (names j);
      rn \<leftarrow> make_end rn (names j) (ctrlername j); Some (rn, endnames) }) (rn, ns) = Some (rn1, ns1)"
    "set_idx ns1 (int k) (names k) = Some ns'" "make_end rn1 (names k) (ctrlername k) = Some rn'"
    by (auto simp: for_loop_append bind_convs split: option.splits)
  note I = Suc.IH [OF 1(1)]
  have k: "k < length ns" using I 1(2) by (auto simp: set_idx_Some_iff)
  have "ns' = (map names [0..<k] @ drop k ns)[k := names k]" using I 1(2) by (auto simp: set_idx_Some_iff)
  also have "\<dots> = map names [0..<Suc k] @ drop (Suc k) ns"
    using k by (simp add: list_update_append Cons_nth_drop_Suc [symmetric])
  finally show ?case using I madeEnds_snoc [OF conjunct1 [OF I] 1(3)] k by simp
qed

lemma sk_makeClient_eq:
  assumes "sk_makeClient names ck rid newest c = Some (c', clerk)"
  obtains rn where "t_nctrlers c \<le> t_n c" and "madeEnds (map (\<lambda>j. (names j, ctrlername j)) [0..<t_nctrlers c]) (t_net c) rn"
    and "c' = c\<lparr>t_net := rn, t_clerks := (t_clerks c)(ck \<mapsto> map names [0..<t_nctrlers c] @ replicate (t_n c - t_nctrlers c) []),
      t_nextClientId := t_nextClientId c + 1\<rparr>"
proof -
  obtain rn ns where "for_loop [0..<t_nctrlers c] (\<lambda>j (rn, endnames). do { endnames \<leftarrow> set_idx endnames (int j) (names j);
      rn \<leftarrow> make_end rn (names j) (ctrlername j); Some (rn, endnames) }) (t_net c, replicate (t_n c) []) = Some (rn, ns)"
    "c' = c\<lparr>t_net := rn, t_clerks := (t_clerks c)(ck \<mapsto> ns), t_nextClientId := t_nextClientId c + 1\<rparr>"
    using assms by (auto simp: sk_makeClient_def bind_convs)
  with client_loop [OF this(1)] show thesis by (intro that [of rn]) simp_all
qed

lemma sk_makeClient_ok:
  assumes "sk_ok c" and "sk_makeClient names ck rid newest c = Some (c', clerk)"
  shows "sk_ok c'"
proof -
  obtain rn where e: "t_nctrlers c \<le> t_n c" "madeEnds (map (\<lambda>j. (names j, ctrlername j)) [0..<t_nctrlers c]) (t_net c) rn"
    "c' = c\<lparr>t_net := rn, t_clerks := (t_clerks c)(ck \<mapsto> map names [0..<t_nctrlers c] @ replicate (t_n c - t_nctrlers c) []),
      t_nextClientId := t_nextClientId c + 1\<rparr>"
    using sk_makeClient_eq [OF assms(2)] .
  have new: "slot_name c' (ClientSlot ck j) = (if j < t_nctrlers c then Some (names j) else None)" for j
    using e(1) by (simp add: e(3) idx_def nth_append)
  have old: "slot_name c' s = slot_name c s \<and> slot_live c' s = slot_live c s" if "s \<notin> range (ClientSlot ck)" for s
    using that by (cases s) (auto simp: e(3) grp_def running_def)
  have inj: "inj_on names {..<t_nctrlers c}" using madeEndsD(1) [OF e(2)] by (auto simp: distinct_map o_def atLeast0LessThan)
  have "slots_ok rn (slot_name c') (slot_live c')"
  proof (rule slots_ok_new [OF sk_okD(4) [OF assms(1)] e(2)])
    fix s t x assume "s \<in> range (ClientSlot ck)" "t \<in> range (ClientSlot ck)" "slot_name c' s = Some x" "slot_name c' t = Some x"
    then show "s = t" using inj by (auto simp: new inj_on_def simp del: slot_name.simps split: if_splits)
  next
    fix s x assume "s \<in> range (ClientSlot ck)" "slot_name c' s = Some x"
    then show "(x, slot_target s) \<in> set (map (\<lambda>j. (names j, ctrlername j)) [0..<t_nctrlers c]) \<and> slot_live c' s"
      by (auto simp: new simp del: slot_name.simps split: if_splits)
  qed (use old in auto)
  then show ?thesis
    using sk_okD(6) [OF assms(1)] e(1) by (intro sk_ok_same [OF assms(1)]) (auto simp: e(3) madeEndsD(8) [OF e(2)] split: if_splits)
qed

lemma sk_deleteClient_ok:
  assumes "sk_ok c"
  shows "sk_ok (sk_deleteClient c ck)"
proof -
  have n: "slot_name (sk_deleteClient c ck) s = Some e \<Longrightarrow> slot_name c s = Some e" for s e
    by (cases s) (auto simp: sk_deleteClient_def grp_def bind_convs split: if_splits)
  have l: "slot_live (sk_deleteClient c ck) s = slot_live c s" for s
    by (cases s) (simp_all add: sk_deleteClient_def running_def grp_def)
  have "slots_ok (t_net c) (slot_name (sk_deleteClient c ck)) (slot_live (sk_deleteClient c ck))"
    by (rule slots_ok_disable [OF sk_okD(4) [OF assms], where S = "{}"]) (use n l in auto)
  then show ?thesis
    using sk_okD(6) [OF assms] by (intro sk_ok_same [OF assms]) (auto simp: sk_deleteClient_def split: if_splits)
qed

lemma ctrler_ends_Some:
  assumes "ctrler_ends names c = Some c'"
  obtains rn where "madeEnds (map (\<lambda>j. (names j, ctrlername j)) [0..<t_nctrlers c]) (t_net c) rn" and "c' = c\<lparr>t_net := rn\<rparr>"
  using assms unfolding ctrler_ends_def by (rule make_ends_Some)

lemma StartCtrlerserver_eq:
  assumes "StartCtrlerserver names srv i c = Some c'"
  obtains rn sc where "madeEnds (map (\<lambda>j. (names j, ctrlername j)) [0..<t_nctrlers c]) (t_net c) rn"
    and "i < length (t_ctrlerservers c)"
    and "c' = c\<lparr>t_ctrlerservers := (t_ctrlerservers c)[i := Some sc], t_net := AddServer rn (Str (ctrlername i)) srv\<rparr>"
proof -
  obtain c1 where c1: "ctrler_ends names c = Some c1" using assms by (auto simp: StartCtrlerserver_def bind_convs)
  then obtain rn where "madeEnds (map (\<lambda>j. (names j, ctrlername j)) [0..<t_nctrlers c]) (t_net c) rn" "c1 = c\<lparr>t_net := rn\<rparr>" by (rule ctrler_ends_Some)
  with c1 assms show thesis by (auto simp: StartCtrlerserver_def bind_convs set_idx_Some_iff intro: that)
qed

lemma StartCtrlerserver_ok:
  assumes "sk_ok c" and "StartCtrlerserver names srv i c = Some c'"
  shows "sk_ok c'"
proof -
  obtain rn sc where e: "madeEnds (map (\<lambda>j. (names j, ctrlername j)) [0..<t_nctrlers c]) (t_net c) rn" "i < length (t_ctrlerservers c)"
    "c' = c\<lparr>t_ctrlerservers := (t_ctrlerservers c)[i := Some sc], t_net := AddServer rn (Str (ctrlername i)) srv\<rparr>"
    using StartCtrlerserver_eq [OF assms(2)] .
  note D = sk_okD [OF sk_ok_ends [OF assms(1) e(1)]]
  have c': "t_n c' = t_n c" "t_nctrlers c' = t_nctrlers c" "t_groups c' = t_groups c" "t_clerks c' = t_clerks c" "t_ngroups c' = t_ngroups c" by (simp_all add: e(3))
  have slots: "slot_name c' = slot_name (c\<lparr>t_net := rn\<rparr>)" "slot_live c' = slot_live (c\<lparr>t_net := rn\<rparr>)"
    by (rule slots_same; simp add: c')+
  have "slots_ok (t_net c') (slot_name c') (slot_live c')" using D(4) unfolding slots by (simp add: e(3) AddServer_def slots_ok_def)
  moreover have "group_ok c' gi gg" if "grp c' gi = Some gg" for gi gg
  proof -
    have "grp (c\<lparr>t_net := rn\<rparr>) gi = Some gg" using that by (simp add: grp_def c')
    then show ?thesis by (rule group_ok_cong [OF D(3)]) (simp_all add: e(3) AddServer_def)
  qed
  moreover have "(servers (t_net c') (Str (ctrlername j)) = None) = (t_ctrlerservers c' ! j = None)" if "j < t_nctrlers c" for j
    using D(5) [of j] that e(2) by (cases "j = i") (simp_all add: e(3) AddServer_def)
  ultimately show ?thesis unfolding sk_ok_def using D(1,2,6) e(2) c' by (auto simp: e(3) ran_def)
qed

text \<open>A server does something.\<close>

lemma sk_ok_server:
  assumes "sk_ok c" and "grp c gi = Some gg" and "i < length (g_servers gg)" and "g_servers gg ! i = Some kv"
  shows "sk_ok (c\<lparr>t_groups := (t_groups c)[gi := Some (gg\<lparr>g_servers := (g_servers gg)[i := Some kv']\<rparr>)]\<rparr>)" (is "sk_ok ?c")
proof -
  let ?gg = "gg\<lparr>g_servers := (g_servers gg)[i := Some kv']\<rparr>"
  note G = group_okD [OF sk_okD(3) [OF assms(1,2)]]
  have gi: "gi < length (t_groups c)" using assms(2) by (simp add: grp_Some)
  have u: "grp ?c g = (if g = gi then Some ?gg else grp c g)" for g by (rule grp_update [OF gi]) simp
  have "slot_name ?c s = slot_name c s" for s using assms(2) by (cases s) (simp_all add: u)
  moreover have "slot_live ?c s = slot_live c s" for s
    using assms(2-4) by (cases s) (auto simp: running_def u nth_list_update split: if_splits)
  ultimately have slots: "slot_name ?c = slot_name c" "slot_live ?c = slot_live c" by (simp_all add: fun_eq_iff)
  have "group_ok ?c gi ?gg" unfolding group_ok_def
    using G assms(3,4) by (auto simp: nth_list_update)
  then show ?thesis
    using sk_okD(4) [OF assms(1)] slots
    by (intro sk_ok_group [OF assms(1) _ _ _ _ _ gi, where i = i and gg = ?gg and a = "servers (t_net c) (Str (servername (100 + int gi) i))"]) simp_all
qed

section \<open>A test\<close>

text \<open>Operations of the harness, servers and controllers at work, ends that clerks and servers make, calls on the network.\<close>

inductive sk_step :: "sk_config \<Rightarrow> sk_config \<Rightarrow> bool" where
  skStart: "sk_StartServer names mnames srv gi i c = Some c' \<Longrightarrow> sk_step c c'"
| skStartGroup: "sk_StartGroup rows mrows srvs gi c = Some c' \<Longrightarrow> sk_step c c'"
| skShutdown: "sk_ShutdownServer gi i c = Some c' \<Longrightarrow> sk_step c c'"
| skShutdownGroup: "sk_ShutdownGroup gi c = Some c' \<Longrightarrow> sk_step c c'"
| skMakeClient: "sk_makeClient names ck rid newest c = Some (c', clerk) \<Longrightarrow> sk_step c c'"
| skDeleteClient: "sk_step c (sk_deleteClient c ck)"
| skJoin: "joinm gis results c = Some (c', args, r) \<Longrightarrow> sk_step c c'"
| skLeave: "leavem gis results c = Some (c', largs, r) \<Longrightarrow> sk_step c c'"
| skClerk: "shardclerk names rid c = Some (c', mck) \<Longrightarrow> sk_step c c'"
| skMakeEnd: "make_end (t_net c) name sname = Some rn \<Longrightarrow> sk_step c (c\<lparr>t_net := rn\<rparr>)"
| skServer: "grp c gi = Some gg \<Longrightarrow> i < length (g_servers gg) \<Longrightarrow> g_servers gg ! i = Some kv \<Longrightarrow>
    sk_step c (c\<lparr>t_groups := (t_groups c)[gi := Some (gg\<lparr>g_servers := (g_servers gg)[i := Some kv']\<rparr>)]\<rparr>)"
| skCtrler: "j < length (t_ctrlerservers c) \<Longrightarrow> t_ctrlerservers c ! j = Some sc \<Longrightarrow>
    sk_step c (c\<lparr>t_ctrlerservers := (t_ctrlerservers c)[j := Some sc']\<rparr>)"
| skCalls: "sk_step c (c\<lparr>t_net := (t_net c)\<lparr>net_count := x, net_bytes := y\<rparr>\<rparr>)"
| skReliable: "sk_step c (c\<lparr>t_net := Reliable (t_net c) yes\<rparr>)"
| skCleanup: "sk_cleanup bad elapsed c = Some c' \<Longrightarrow> sk_step c c'"

inductive sk_made :: "sk_config \<Rightarrow> bool" where
  "sk_make_config names csrvs srvs rid n unreliable maxraftstate = Some c \<Longrightarrow> sk_made c"

text \<open>What no operation takes away.\<close>

definition kept :: "sk_config \<Rightarrow> sk_config \<Rightarrow> bool" where
  "kept c c' \<longleftrightarrow> t_n c' = t_n c \<and> t_nctrlers c' = t_nctrlers c \<and> t_ngroups c' = t_ngroups c \<and> (\<forall>g. (grp c' g = None) = (grp c g = None)) \<and>
     length (t_ctrlerservers c') = length (t_ctrlerservers c) \<and>
     (\<forall>j<length (t_ctrlerservers c). t_ctrlerservers c ! j \<noteq> None \<longrightarrow> t_ctrlerservers c' ! j \<noteq> None) \<and> (t_mck c \<noteq> None \<longrightarrow> t_mck c' \<noteq> None)"

lemma kept_refl [simp]: "kept c c"
  by (simp add: kept_def)

lemma kept_trans: "kept c c1 \<Longrightarrow> kept c1 c2 \<Longrightarrow> kept c c2"
  by (auto simp: kept_def)

lemma kept_complete: "kept c c' \<Longrightarrow> sk_ok c \<Longrightarrow> complete c \<Longrightarrow> complete c'"
  using sk_okD(1) [of c] by (auto simp: kept_def complete_def)

lemma kept_rest:
  assumes "t_n c' = t_n c" "t_nctrlers c' = t_nctrlers c" "t_ngroups c' = t_ngroups c" "t_groups c' = t_groups c"
    "t_ctrlerservers c' = t_ctrlerservers c" "t_mck c \<noteq> None \<longrightarrow> t_mck c' \<noteq> None"
  shows "kept c c'"
  using assms by (simp add: kept_def grp_def)

lemma kept_group:
  assumes "gi < length (t_groups c)" "grp c gi \<noteq> None" "t_groups c' = (t_groups c)[gi := Some gg]" "t_n c' = t_n c" "t_nctrlers c' = t_nctrlers c"
    "t_ngroups c' = t_ngroups c" "t_ctrlerservers c' = t_ctrlerservers c" "t_mck c' = t_mck c"
  shows "kept c c'"
  using assms grp_update [OF assms(1,3)] by (simp add: kept_def)

lemma sk_StartServer_kept:
  assumes "sk_StartServer names mnames srv gi i c = Some c'" and "sk_ok c"
  shows "kept c c'"
proof -
  obtain gg gg' rn where "grp c gi = Some gg" "c' = c\<lparr>t_net := rn, t_groups := (t_groups c)[gi := Some gg']\<rparr>"
    using sk_StartServer_eq [OF assms] by metis
  then show ?thesis by (intro kept_group [of gi c]) (simp_all add: grp_Some)
qed

lemma sk_ShutdownServer_kept:
  assumes "sk_ShutdownServer gi i c = Some c'" and "sk_ok c"
  shows "kept c c'"
proof -
  obtain gg gg' rn where "grp c gi = Some gg" "c' = c\<lparr>t_net := rn, t_groups := (t_groups c)[gi := Some gg']\<rparr>"
    using sk_ShutdownServer_eq [OF assms] by metis
  then show ?thesis by (intro kept_group [of gi c]) (simp_all add: grp_Some)
qed

text \<open>Loops over operations that keep both.\<close>

lemma loop_ok_kept:
  assumes "for_loop is body c = Some c'" and "sk_ok c" and "\<And>i u v. body i u = Some v \<Longrightarrow> sk_ok u \<Longrightarrow> sk_ok v \<and> kept u v"
  shows "sk_ok c' \<and> kept c c'"
  by (rule for_loop_inv [where P = "\<lambda>u. sk_ok u \<and> kept c u", OF assms(1)]) (use assms(2,3) kept_trans in auto)

lemma sk_StartGroup_ok:
  assumes "sk_StartGroup rows mrows srvs gi c = Some c'" and "sk_ok c"
  shows "sk_ok c' \<and> kept c c'"
  using assms unfolding sk_StartGroup_def by (rule loop_ok_kept) (use sk_StartServer_ok sk_StartServer_kept in blast)

lemma sk_ShutdownGroup_ok:
  assumes "sk_ShutdownGroup gi c = Some c'" and "sk_ok c"
  shows "sk_ok c' \<and> kept c c'"
  using assms unfolding sk_ShutdownGroup_def by (rule loop_ok_kept) (use sk_ShutdownServer_ok sk_ShutdownServer_kept in blast)

lemma killed_controllers:
  assumes "for_loop [0..<k] (\<lambda>i ss. do { s \<leftarrow> idx ss (int i); sc \<leftarrow> s; set_idx ss (int i) (Some (scKill sc)) }) ss = Some ss'"
  shows "map Option.is_none ss' = map Option.is_none ss"
proof (rule for_loop_inv [where P = "\<lambda>u. map Option.is_none u = map Option.is_none ss", OF assms])
  fix i u v assume "map Option.is_none u = map Option.is_none ss"
    "do { s \<leftarrow> idx u (int i); sc \<leftarrow> s; set_idx u (int i) (Some (scKill sc)) } = Some v"
  moreover from this(2) have "map Option.is_none v = map Option.is_none u"
    by (intro nth_equalityI) (auto simp: bind_convs idx_Some_iff set_idx_Some_iff nth_list_update split: if_splits)
  ultimately show "map Option.is_none v = map Option.is_none ss" by simp
qed simp

lemma is_none_kept:
  assumes "map Option.is_none xs = map Option.is_none ys"
  shows "length xs = length ys" "j < length ys \<Longrightarrow> (xs ! j = None) = (ys ! j = None)"
proof -
  show len: "length xs = length ys" using assms by (metis length_map)
  show "(xs ! j = None) = (ys ! j = None)" if "j < length ys" using that len assms by (metis Option.is_none_def nth_map)
qed

lemma sk_cleanup_ok:
  assumes "sk_cleanup bad elapsed c = Some c'" and "sk_ok c"
  shows "sk_ok c' \<and> kept c c'"
proof -
  obtain c1 ss rn where c1: "for_loop [0..<t_ngroups c] sk_ShutdownGroup c = Some c1"
    "for_loop [0..<t_nctrlers c1] (\<lambda>i ss. do { s \<leftarrow> idx ss (int i); sc \<leftarrow> s; set_idx ss (int i) (Some (scKill sc)) }) (t_ctrlerservers c1) = Some ss"
    "Cleanup (t_net c1) = Some rn" "c' = c1\<lparr>t_ctrlerservers := ss, t_net := rn\<rparr>"
    using assms(1) by (auto simp: sk_cleanup_def bind_convs)
  have 1: "sk_ok c1 \<and> kept c c1" using c1(1) assms(2) by (rule loop_ok_kept) (rule sk_ShutdownGroup_ok)
  note K = killed_controllers [OF c1(2)]
  have "sk_ok c'" by (rule sk_ok_rest [of c1]) (use 1 K c1(3) in \<open>auto simp: c1(4) Cleanup_def split: if_splits\<close>)
  moreover have "kept c1 c'" using is_none_kept [OF K] by (simp add: kept_def c1(4) grp_def)
  ultimately show ?thesis using 1 kept_trans by blast
qed

lemma sk_step_ok: "sk_step c c' \<Longrightarrow> sk_ok c \<Longrightarrow> sk_ok c' \<and> kept c c'"
proof (induction rule: sk_step.induct)
  case (skMakeClient names ck rid newest c c' clerk)
  then have "kept c c'" by (intro kept_rest; elim sk_makeClient_eq; simp)
  then show ?case using sk_makeClient_ok skMakeClient by blast
next
  case (skDeleteClient c ck)
  then show ?case using sk_deleteClient_ok [of c ck] by (auto intro: kept_rest simp: sk_deleteClient_def)
next
  case (skJoin gis results c c' args r)
  then obtain mck' where "c' = c\<lparr>t_mck := Some mck'\<rparr>" by (auto simp: joinm_def ClerkJoin_def bind_convs)
  then show ?case using skJoin.prems by (auto intro!: kept_rest sk_ok_rest [of c])
next
  case (skLeave gis results c c' largs r)
  then obtain mck' where "c' = c\<lparr>t_mck := Some mck'\<rparr>" by (auto simp: leavem_def ClerkLeave_def bind_convs)
  then show ?case using skLeave.prems by (auto intro!: kept_rest sk_ok_rest [of c])
next
  case (skClerk names rid c c' mck)
  then have "ctrler_ends names c = Some c'" by (auto simp: shardclerk_def bind_convs)
  then show ?case using skClerk.prems sk_ok_ends by (elim ctrler_ends_Some) (auto intro: kept_rest)
next
  case (skMakeEnd c name sname rn)
  then have "madeEnds [(name, sname)] (t_net c) rn" by (intro madeEnds_loop) simp
  then show ?case using sk_ok_ends [OF skMakeEnd.prems] by (auto intro: kept_rest)
next
  case (skServer c gi gg i kv kv')
  then show ?case using sk_ok_server by (auto intro: kept_group simp: grp_Some)
next
  case (skCtrler j c sc sc')
  have K: "map Option.is_none ((t_ctrlerservers c)[j := Some sc']) = map Option.is_none (t_ctrlerservers c)"
    using skCtrler.hyps by (intro nth_equalityI) (auto simp: nth_list_update)
  have "kept c (c\<lparr>t_ctrlerservers := (t_ctrlerservers c)[j := Some sc']\<rparr>)"
    using is_none_kept [OF K] by (simp add: kept_def grp_def)
  then show ?case using K skCtrler.prems by (auto intro: sk_ok_rest [of c])
next
  case (skCalls c x y)
  then show ?case by (auto intro!: kept_rest sk_ok_rest [of c])
next
  case (skReliable c yes)
  then show ?case by (auto intro!: kept_rest sk_ok_rest [of c] simp: Reliable_def)
next
  case (skStart names mnames srv gi i c c')
  then show ?case using sk_StartServer_ok [OF skStart(2,1)] sk_StartServer_kept [OF skStart] by blast
next
  case (skShutdown gi i c c')
  then show ?case using sk_ShutdownServer_ok [OF skShutdown(2,1)] sk_ShutdownServer_kept [OF skShutdown] by blast
qed (rule sk_StartGroup_ok sk_ShutdownGroup_ok sk_cleanup_ok, assumption+)+

end
