(* ===== verification/Sk_Config_Props.thy ===== *)
theory Sk_Config_Props
  imports Sk_Network "HOL-Library.Countable"
begin

text \<open>
  \<^verbatim>\<open>make_config\<close> establishes the invariant of \<open>Sk_Network\<close>, and returns if it has enough different names and groups
  of at most three servers; what that means for groups that join, and for clerks.
\<close>

section \<open>Making the harness\<close>

text \<open>Loops that count.\<close>

lemma count_loop_inv:
  assumes "for_loop [0..<n] body s = Some t" and "P 0 s" and "\<And>i u v. i < n \<Longrightarrow> P i u \<Longrightarrow> body i u = Some v \<Longrightarrow> P (Suc i) v"
  shows "P n t"
  using assms(1,3)
proof (induction n arbitrary: t)
  case (Suc n)
  from Suc.prems(1) obtain u where u: "for_loop [0..<n] body s = Some u" "body n u = Some t"
    by (auto simp: for_loop_append bind_convs split: option.splits)
  then have "P n u" using Suc.IH Suc.prems(2) by simp
  then show ?case using Suc.prems(2) [of n u t] u(2) by simp
qed (use assms(2) in simp)

lemma count_loop_total:
  assumes "P 0 s" and "\<And>i u. i < n \<Longrightarrow> P i u \<Longrightarrow> \<exists>v. body i u = Some v \<and> P (Suc i) v"
  shows "\<exists>t. for_loop [0..<n] body s = Some t \<and> P n t"
  using assms(2)
proof (induction n)
  case (Suc n)
  then obtain u where "for_loop [0..<n] body s = Some u" "P n u" by auto
  then show ?case using Suc.prems [of n u] by (auto simp: for_loop_append)
qed (use assms(1) in simp)

text \<open>The harness with \<open>K\<close> groups, in which the servers of the set \<open>R\<close> have been started.\<close>

definition up :: "nat \<Rightarrow> nat \<Rightarrow> (nat \<Rightarrow> nat \<Rightarrow> bool) \<Rightarrow> sk_config \<Rightarrow> bool" where
  "up n K R c \<longleftrightarrow> sk_ok c \<and> t_n c = n \<and> t_nctrlers c = 3 \<and> t_ngroups c = 3 \<and> (\<forall>j<3. t_ctrlerservers c ! j \<noteq> None) \<and> t_mck c \<noteq> None \<and>
     (\<forall>g. (grp c g \<noteq> None) = (g < K)) \<and> (\<forall>g<K. \<forall>i<n. running c g i = R g i) \<and>
     (\<forall>g\<ge>K. \<forall>i. servers (t_net c) (Str (servername (100 + int g) i)) = None) \<and>
     (\<forall>g gg i. grp c g = Some gg \<longrightarrow> i < n \<longrightarrow> \<not> R g i \<longrightarrow> g_saved gg ! i = None)"

lemma upD:
  assumes "up n K R c"
  shows "sk_ok c" "t_n c = n" "t_nctrlers c = 3" "t_ngroups c = 3" "j < 3 \<Longrightarrow> t_ctrlerservers c ! j \<noteq> None" "t_mck c \<noteq> None"
    "(grp c g \<noteq> None) = (g < K)" "g < K \<Longrightarrow> i < n \<Longrightarrow> running c g i = R g i"
    "K \<le> g \<Longrightarrow> servers (t_net c) (Str (servername (100 + int g) i)) = None"
    "grp c g = Some gg \<Longrightarrow> i < n \<Longrightarrow> \<not> R g i \<Longrightarrow> g_saved gg ! i = None"
  using assms unfolding up_def by blast+

lemma up_complete: "up n 3 R c \<Longrightarrow> n \<le> 3 \<Longrightarrow> complete c"
  using upD(2-6) [of n 3 R c] upD(7) [of n 3 R c] by (simp add: complete_def)

lemma up_new_group:
  assumes "up n k (\<lambda>g i. True) c" and "k < 3"
  shows "\<exists>c'. set_grp c k (new_group k c) = Some c' \<and> up n (Suc k) (\<lambda>g i. g < k \<or> i < 0) c' \<and> t_net c' = t_net c"
proof -
  note U = upD [OF assms(1)]
  define g0 where "g0 = new_group k c"
  have new: "g_gid g0 = 100 + int k" "g_servers g0 = replicate (t_n c) None" "g_saved g0 = replicate (t_n c) None"
    "g_endnames g0 = replicate (t_n c) []" "g_mendnames g0 = replicate (t_nctrlers c) []" by (simp_all add: g0_def new_group_def)
  let ?c = "c\<lparr>t_groups := (t_groups c)[k := Some (g0)]\<rparr>"
  have k: "k < length (t_groups c)" using sk_okD(2) [OF U(1)] U(4) assms(2) by simp
  have u: "grp ?c g = (if g = k then Some (g0) else grp c g)" for g by (rule grp_update [OF k]) simp
  have none: "grp c k = None" using U(7) [of k] by simp
  have r: "running ?c g i = (g \<noteq> k \<and> running c g i)" for g i by (auto simp: running_def u new)
  have "slot_name ?c s = slot_name c s" for s
    using none by (cases s) (auto simp: u new idx_def bind_convs split: option.splits)
  moreover have "slot_live ?c s = slot_live c s" for s using none by (cases s) (auto simp: r, auto simp: running_def)
  ultimately have slots: "slot_name ?c = slot_name c" "slot_live ?c = slot_live c" by (simp_all add: fun_eq_iff)
  have "group_ok ?c k (g0)" using U(9) [of k] by (simp add: group_ok_def new)
  then have "sk_ok ?c"
    using slots sk_okD(4) [OF U(1)]
    by (intro sk_ok_group [OF U(1) _ _ _ _ _ k, where i = 0 and gg = "g0" and a = "servers (t_net c) (Str (servername (100 + int k) 0))"]) simp_all
  moreover have "g_saved gg ! i = None" if "grp ?c g = Some gg" "i < n" "\<not> g < k" for g gg i
    using that U(2) U(7) [of g] new(3) by (auto simp: u split: if_splits)
  ultimately have "up n (Suc k) (\<lambda>g i. g < k \<or> i < 0) ?c"
    using U(2-9) unfolding up_def by (auto simp: u r less_Suc_eq)
  then show ?thesis using k by (auto simp: set_grp_Some g0_def)
qed

lemma sk_StartServer_up:
  assumes "up n (Suc k) (\<lambda>g i. g < k \<or> i < m) c" and "m < n" and "sk_StartServer names mnames srv k m c = Some c'"
  shows "up n (Suc k) (\<lambda>g i. g < k \<or> i < Suc m) c'"
proof -
  note U = upD [OF assms(1)]
  obtain gg rn ps kv where e: "grp c k = Some gg" "madeEnds (server_ends names mnames k c) (t_net c) rn"
    "c' = c\<lparr>t_net := AddServer rn (Str (servername (100 + int k) m)) srv, t_groups := (t_groups c)[k := Some
      (gg\<lparr>g_endnames := (g_endnames gg)[m := map names [0..<t_n c]], g_mendnames := (g_mendnames gg)[m := map mnames [0..<t_nctrlers c]],
          g_saved := (g_saved gg)[m := Some ps], g_servers := (g_servers gg)[m := Some kv]\<rparr>)]\<rparr>"
    using sk_StartServer_eq [OF assms(3) U(1)] by metis
  let ?gg = "gg\<lparr>g_endnames := (g_endnames gg)[m := map names [0..<t_n c]], g_mendnames := (g_mendnames gg)[m := map mnames [0..<t_nctrlers c]],
          g_saved := (g_saved gg)[m := Some ps], g_servers := (g_servers gg)[m := Some kv]\<rparr>"
  note G = group_okD [OF sk_okD(3) [OF U(1) e(1)]]
  have k: "k < length (t_groups c)" using e(1) by (simp add: grp_Some)
  have u: "grp c' g = (if g = k then Some ?gg else grp c g)" for g by (rule grp_update [OF k]) (simp add: e(3))
  have r: "running c' g i = (g = k \<and> i = m \<or> running c g i)" for g i
    using e(1) G(2) U(2) assms(2) by (auto simp: running_def u nth_list_update)
  have "g_saved x ! i = None" if "grp c' g = Some x" "i < n" "\<not> (g < k \<or> i < Suc m)" for g x i
    using that U(10) [of g _ i] e(1) by (auto simp: u split: if_splits)
  moreover have "servers (t_net c') (Str (servername (100 + int g) i)) = None" if "Suc k \<le> g" for g i
    using that U(9) by (simp add: e(3) AddServer_def madeEndsD(8) [OF e(2)])
  moreover have "sk_ok c'" by (rule sk_StartServer_ok [OF U(1) assms(3)])
  moreover have "t_n c' = n" "t_nctrlers c' = 3" "t_ngroups c' = 3" "t_ctrlerservers c' = t_ctrlerservers c" "t_mck c' = t_mck c"
    using U(2-4) by (simp_all add: e(3))
  ultimately show ?thesis using U(5-8) e(1) unfolding up_def by (auto simp: u r less_Suc_eq)
qed

text \<open>Before there are groups: \<open>k\<close> servers of the controller have been started.\<close>

definition ctrlers_up :: "nat \<Rightarrow> sk_config \<Rightarrow> bool" where
  "ctrlers_up k c \<longleftrightarrow> sk_ok c \<and> t_nctrlers c = 3 \<and> t_ngroups c = 0 \<and> t_groups c = [] \<and> t_n c = 0 \<and> t_clerks c = Map.empty \<and>
     (\<forall>j<k. t_ctrlerservers c ! j \<noteq> None) \<and> (\<forall>g i. servers (t_net c) (Str (servername g i)) = None)"

definition no_groups :: "int \<Rightarrow> sk_config" where
  "no_groups maxraftstate = \<lparr>t_net = MakeNetwork, t_nctrlers = 3, t_ctrlerservers = replicate 3 None, t_mck = None, t_ngroups = 0, t_n = 0,
     t_groups = [], t_clerks = Map.empty, t_nextClientId = 0, t_maxraftstate = maxraftstate\<rparr>"

lemma no_slots: "t_clerks c = Map.empty \<Longrightarrow> (\<And>g. grp c g = None) \<Longrightarrow> slots_ok rn (slot_name c) live"
proof (rule slots_okI)
  assume *: "t_clerks c = Map.empty" "\<And>g. grp c g = None"
  have none: "slot_name c s = None" for s using * by (cases s) simp_all
  show "ends rn (Str e) \<noteq> None \<and> connections rn (Str e) = Some (Str (slot_target s)) \<and> enabled rn (Str e) = live s"
    if "slot_name c s = Some e" for s e using that none [of s] by simp
  show "s = t" if "slot_name c s = Some e" for s t e using that none [of s] by simp
qed

lemma no_groups_up: "ctrlers_up 0 (no_groups maxraftstate)"
proof -
  have "slots_ok (t_net (no_groups maxraftstate)) (slot_name (no_groups maxraftstate)) (slot_live (no_groups maxraftstate))"
    by (rule no_slots) (simp_all add: no_groups_def grp_def idx_def)
  then have "sk_ok (no_groups maxraftstate)" unfolding sk_ok_def by (simp add: no_groups_def grp_def idx_def MakeNetwork_def)
  then show ?thesis by (simp add: ctrlers_up_def) (simp add: no_groups_def MakeNetwork_def)
qed

lemma StartCtrlerserver_up:
  assumes "ctrlers_up k c" and "StartCtrlerserver names srv k c = Some c'"
  shows "ctrlers_up (Suc k) c'"
proof -
  obtain rn sc where e: "madeEnds (map (\<lambda>j. (names j, ctrlername j)) [0..<t_nctrlers c]) (t_net c) rn" "k < length (t_ctrlerservers c)"
    "c' = c\<lparr>t_ctrlerservers := (t_ctrlerservers c)[k := Some sc], t_net := AddServer rn (Str (ctrlername k)) srv\<rparr>"
    using StartCtrlerserver_eq [OF assms(2)] .
  have "sk_ok c'" using assms(1) by (intro StartCtrlerserver_ok [OF _ assms(2)]) (simp add: ctrlers_up_def)
  then show ?thesis
    using assms(1) e(2) unfolding ctrlers_up_def
    by (simp add: e(3) AddServer_def madeEndsD(8) [OF e(1)] nth_list_update less_Suc_eq)
qed

lemma no_servers_up:
  assumes "ctrlers_up 3 c" and "shardclerk names rid c = Some (c', mck)"
  shows "up n 0 (\<lambda>g i. True) (c'\<lparr>t_mck := Some mck, t_ngroups := 3, t_groups := replicate 3 None, t_n := n\<rparr>)" (is "up n 0 _ ?c")
proof -
  have "ctrler_ends names c = Some c'" using assms(2) by (auto simp: shardclerk_def bind_convs)
  then obtain rn where rn: "madeEnds (map (\<lambda>j. (names j, ctrlername j)) [0..<t_nctrlers c]) (t_net c) rn" "c' = c\<lparr>t_net := rn\<rparr>" by (rule ctrler_ends_Some)
  have ok: "sk_ok c" using assms(1) by (simp add: ctrlers_up_def)
  note D = sk_okD [OF sk_ok_ends [OF ok rn(1)]]
  have c: "t_clerks c = Map.empty" "t_nctrlers c = 3" "\<forall>g i. servers (t_net c) (Str (servername g i)) = None" "\<forall>j<3. t_ctrlerservers c ! j \<noteq> None"
    using assms(1) by (simp_all add: ctrlers_up_def)
  have none: "grp ?c g = None" for g by (simp add: grp_def idx_def)
  have "slots_ok (t_net ?c) (slot_name ?c) (slot_live ?c)" by (rule no_slots) (simp add: c(1) rn(2), rule none)
  then have "sk_ok ?c" unfolding sk_ok_def using D(1,5) none by (simp add: rn(2) c(1))
  then show ?thesis using c none by (simp add: up_def rn(2) madeEndsD(8) [OF rn(1)])
qed

text \<open>The loop over the groups.\<close>

definition start_group :: "(label \<Rightarrow> string) \<Rightarrow> (nat \<Rightarrow> nat \<Rightarrow> nat) \<Rightarrow> nat \<Rightarrow> sk_config \<Rightarrow> sk_config option" where
  "start_group names srvs gi cfg = do {
     cfg \<leftarrow> set_grp cfg gi (new_group gi cfg);
     for_loop [0..<t_n cfg] (\<lambda>i. sk_StartServer (\<lambda>j. names (PeerEnd gi i j)) (\<lambda>j. names (MasterEnd gi i j)) (srvs gi i) gi i) cfg
   }"

lemma up_all: "up n K R c \<Longrightarrow> (\<And>g i. g < K \<Longrightarrow> i < n \<Longrightarrow> R g i) \<Longrightarrow> up n K (\<lambda>g i. True) c"
  by (simp add: up_def)

lemma start_group_up:
  assumes "up n k (\<lambda>g i. True) c" and "k < 3" and "start_group names srvs k c = Some c'"
  shows "up n (Suc k) (\<lambda>g i. True) c'"
proof -
  obtain c1 where c1: "set_grp c k (new_group k c) = Some c1" "up n (Suc k) (\<lambda>g i. g < k \<or> i < 0) c1"
    using up_new_group [OF assms(1,2)] by blast
  then have "for_loop [0..<n] (\<lambda>i. sk_StartServer (\<lambda>j. names (PeerEnd k i j)) (\<lambda>j. names (MasterEnd k i j)) (srvs k i) k i) c1 = Some c'"
    using assms(3) upD(2) by (simp add: start_group_def)
  from count_loop_inv [where P = "\<lambda>m. up n (Suc k) (\<lambda>g i. g < k \<or> i < m)", OF this c1(2)] sk_StartServer_up
  have "up n (Suc k) (\<lambda>g i. g < k \<or> i < n) c'" by blast
  then show ?thesis by (rule up_all) simp
qed

lemma sk_make_config_eq:
  "sk_make_config names csrvs srvs rid n unreliable maxraftstate = do {
     cfg \<leftarrow> for_loop [0..<3] (\<lambda>i. StartCtrlerserver (\<lambda>j. names (CtrlerEnd i j)) (csrvs i) i) (no_groups maxraftstate);
     (cfg, mck) \<leftarrow> shardclerk (\<lambda>j. names (MckEnd j)) rid cfg;
     cfg \<leftarrow> for_loop [0..<3] (start_group names srvs) (cfg\<lparr>t_mck := Some mck, t_ngroups := 3, t_groups := replicate 3 None, t_n := n\<rparr>);
     Some (cfg\<lparr>t_nextClientId := int (t_n cfg) + 1000, t_net := Reliable (t_net cfg) (\<not> unreliable)\<rparr>)
   }"
  unfolding sk_make_config_def no_groups_def start_group_def [abs_def] Let_def ..

lemma up_finish:
  assumes "up n K R c" and "t_groups c' = t_groups c" "t_n c' = t_n c" "t_nctrlers c' = t_nctrlers c" "t_ngroups c' = t_ngroups c"
    "t_ctrlerservers c' = t_ctrlerservers c" "t_mck c' = t_mck c" "t_clerks c' = t_clerks c" "t_net c' = Reliable (t_net c) yes"
  shows "up n K R c'"
proof -
  have "sk_ok c'" by (rule sk_ok_rest [OF upD(1) [OF assms(1)]]) (simp_all add: assms(2-9) Reliable_def)
  moreover have "grp c' g = grp c g" for g by (simp add: grp_def assms(2))
  ultimately show ?thesis using assms(1) unfolding up_def by (simp add: assms(2-9) running_def Reliable_def)
qed

lemma sk_make_config_up:
  assumes "sk_make_config names csrvs srvs rid n unreliable maxraftstate = Some c"
  shows "up n 3 (\<lambda>g i. True) c"
proof -
  obtain c1 c2 mck c3 where
    c: "for_loop [0..<3] (\<lambda>i. StartCtrlerserver (\<lambda>j. names (CtrlerEnd i j)) (csrvs i) i) (no_groups maxraftstate) = Some c1"
      "shardclerk (\<lambda>j. names (MckEnd j)) rid c1 = Some (c2, mck)"
      "for_loop [0..<3] (start_group names srvs) (c2\<lparr>t_mck := Some mck, t_ngroups := 3, t_groups := replicate 3 None, t_n := n\<rparr>) = Some c3"
      "c = c3\<lparr>t_nextClientId := int (t_n c3) + 1000, t_net := Reliable (t_net c3) (\<not> unreliable)\<rparr>"
    using assms unfolding sk_make_config_eq by (auto simp: bind_convs)
  have "ctrlers_up 3 c1"
    by (rule count_loop_inv [where P = ctrlers_up, OF c(1) no_groups_up]) (rule StartCtrlerserver_up)
  from count_loop_inv [where P = "\<lambda>k. up n k (\<lambda>g i. True)", OF c(3) no_servers_up [OF this c(2)]] start_group_up
  have "up n 3 (\<lambda>g i. True) c3" by blast
  then show ?thesis by (rule up_finish) (simp_all add: c(4))
qed

text \<open>All servers are running, and each needs a row of its own in \<^verbatim>\<open>mendnames\<close>.\<close>

lemma up_small:
  assumes "up n 3 (\<lambda>g i. True) c"
  shows "n \<le> 3"
proof (rule ccontr)
  assume n: "\<not> n \<le> 3"
  note U = upD [OF assms]
  have "running c 0 3" using U(8) [of 0 3] n by simp
  then obtain gg kv where gg: "grp c 0 = Some gg" "g_servers gg ! 3 = Some kv" by (auto simp: running_def)
  then show False using group_okD(7) [OF sk_okD(3) [OF U(1) gg(1)], of 3] U(2,3) n by simp
qed

interpretation sk_harness: inductive_invariant sk_made sk_step "\<lambda>c. sk_ok c \<and> complete c"
proof
  fix c assume "sk_made c"
  then show "sk_ok c \<and> complete c"
  proof cases
    case (1 names csrvs srvs rid n unreliable maxraftstate)
    note U = sk_make_config_up [OF 1]
    show ?thesis using upD(1) [OF U] up_complete [OF U up_small [OF U]] by blast
  qed
next
  fix c c' assume "sk_ok c \<and> complete c" and "sk_step c c'"
  then show "sk_ok c' \<and> complete c'" using sk_step_ok kept_complete by blast
qed

subsection \<open>Enough names\<close>

lemma make_ends_total:
  assumes "distinct (map fst ps)" and "\<forall>e\<in>fst ` set ps. ends (t_net c) (Str e) = None"
  shows "\<exists>c'. make_ends ps c = Some c'"
  using madeEnds_total [OF assms] by (auto simp: make_ends_def)

lemma make_ends_two:
  assumes "distinct (map fst (ps @ qs))" and "\<forall>e\<in>fst ` set (ps @ qs). ends (t_net c) (Str e) = None"
  shows "\<exists>c1 c2. make_ends ps c = Some c1 \<and> make_ends qs c1 = Some c2"
proof -
  obtain c1 where c1: "make_ends ps c = Some c1" using make_ends_total [of ps c] assms by auto
  then obtain rn where rn: "madeEnds ps (t_net c) rn" "c1 = c\<lparr>t_net := rn\<rparr>" by (rule make_ends_Some)
  have "ends (t_net c1) (Str e) = None" if e: "e \<in> fst ` set qs" for e
  proof -
    have "Str e \<notin> dom (ends (t_net c)) \<union> Str ` fst ` set ps" using assms e by (force simp: domIff)
    then show ?thesis using madeEndsD(3) [OF rn(1)] rn(2) by auto
  qed
  then show ?thesis using make_ends_total [of qs c1] assms(1) c1 by auto
qed

lemma sk_start_new: "skStartServer n i MakePersister limit gid \<noteq> None" "StartServer n i MakePersister \<noteq> None"
  by (simp_all add: skStartServer_def StartServer_def Make_def readPersist_def MakePersister_def ReadRaftState_def)

lemma sk_StartServer_total:
  assumes "up n (Suc k) (\<lambda>g i. g < k \<or> i < m) c" and "m < n" and "n \<le> 3" and "distinct (map fst (server_ends names mnames k c))"
    and "\<forall>e\<in>fst ` set (server_ends names mnames k c). ends (t_net c) (Str e) = None"
  shows "\<exists>c'. sk_StartServer names mnames srv k m c = Some c' \<and> up n (Suc k) (\<lambda>g i. g < k \<or> i < Suc m) c' \<and>
    dom (ends (t_net c')) = dom (ends (t_net c)) \<union> Str ` fst ` set (server_ends names mnames k c)"
proof -
  note U = upD [OF assms(1)]
  obtain gg where gg: "grp c k = Some gg" using U(7) [of k] by auto
  note G = group_okD [OF sk_okD(3) [OF U(1) gg]]
  let ?ps = "map (\<lambda>j. (names j, servername (100 + int k) j)) [0..<t_n c]" and ?qs = "map (\<lambda>j. (mnames j, ctrlername j)) [0..<t_nctrlers c]"
  have split: "server_ends names mnames k c = ?ps @ ?qs" by (simp add: server_ends_def)
  obtain c1 c2 where c1: "make_ends ?ps c = Some c1" and c2: "make_ends ?qs c1 = Some c2"
    using make_ends_two [OF assms(4,5) [unfolded split]] by blast
  obtain rn1 rn2 where rn1: "c1 = c\<lparr>t_net := rn1\<rparr>" and rn2: "c2 = c1\<lparr>t_net := rn2\<rparr>" using c1 c2 by (elim make_ends_Some) auto
  have "\<not> running c k m" using U(8) [of k m] assms(2) by simp
  then have "g_servers gg ! m = None" "g_saved gg ! m = None" using gg G(2) U(2) U(10) [OF gg, of m] assms(2) by (auto simp: running_def)
  then have st: "g_stored gg m = Some None" using G(2,3) U(2) assms(2) by (simp add: g_stored_Some)
  obtain kv where kv: "skStartServer (t_n c) (int m) MakePersister (t_maxraftstate c) (g_gid gg) = Some kv" using sk_start_new(1) by fast
  have "k < length (t_groups c)" using gg by (simp add: grp_Some)
  then obtain c' where c': "sk_StartServer names mnames srv k m c = Some c'"
    using gg G(1-5) U(2,3) assms(2,3) c1 c2 st kv
    by (simp add: sk_StartServer_def Let_def ctrler_ends_def rn1 rn2 set_grp_def)
  obtain rn x where "madeEnds (server_ends names mnames k c) (t_net c) rn" "t_net c' = AddServer rn x srv"
    by (rule sk_StartServer_eq [OF c' U(1)]) (rule that, auto)
  then show ?thesis using c' sk_StartServer_up [OF assms(1,2) c'] by (simp add: madeEndsD(3) AddServer_def)
qed

lemma StartCtrlerserver_total:
  assumes "ctrlers_up k c" and "k < 3" and "inj_on names {..<3}" and "\<forall>j<3. ends (t_net c) (Str (names j)) = None"
  shows "\<exists>c'. StartCtrlerserver names srv k c = Some c' \<and> ctrlers_up (Suc k) c' \<and>
    dom (ends (t_net c')) = dom (ends (t_net c)) \<union> Str ` names ` {..<3}"
proof -
  have c: "t_nctrlers c = 3" "length (t_ctrlerservers c) = 3" using assms(1) sk_okD(1) [of c] by (simp_all add: ctrlers_up_def)
  let ?ps = "map (\<lambda>j. (names j, ctrlername j)) [0..<t_nctrlers c]"
  have ps: "fst ` set ?ps = names ` {..<3}" unfolding c(1) by (auto simp: image_image atLeast0LessThan)
  have "distinct (map fst ?ps)" using assms(3) unfolding c(1) by (simp add: distinct_map o_def atLeast0LessThan)
  then obtain c1 where c1: "make_ends ?ps c = Some c1" using make_ends_total [of ?ps c] assms(4) unfolding ps by auto
  then obtain rn where rn: "madeEnds ?ps (t_net c) rn" "c1 = c\<lparr>t_net := rn\<rparr>" by (rule make_ends_Some)
  obtain sc where "StartServer 3 (int k) MakePersister = Some sc" using sk_start_new(2) by fast
  then obtain c' where c': "StartCtrlerserver names srv k c = Some c'" "t_net c' = AddServer rn (Str (ctrlername k)) srv"
    using c1 c assms(2) by (simp add: StartCtrlerserver_def ctrler_ends_def rn(2))
  then show ?thesis using StartCtrlerserver_up [OF assms(1) c'(1)] madeEndsD(3) [OF rn(1)] ps by (simp add: AddServer_def)
qed

text \<open>The names that are still free when \<open>m\<close> servers of group \<open>k\<close> have been started.\<close>

fun later :: "nat \<Rightarrow> nat \<Rightarrow> label \<Rightarrow> bool" where
  "later k m (PeerEnd g i j) = (k < g \<or> k = g \<and> m \<le> i)"
| "later k m (MasterEnd g i j) = (k < g \<or> k = g \<and> m \<le> i)"
| "later k m l = False"

definition free :: "(label \<Rightarrow> string) \<Rightarrow> (label \<Rightarrow> bool) \<Rightarrow> sk_config \<Rightarrow> bool" where
  "free names F c \<longleftrightarrow> (\<forall>l. F l \<longrightarrow> Str (names l) \<notin> dom (ends (t_net c)))"

lemma free_after:
  assumes "free names F c" and "inj names" and "dom (ends (t_net c')) = dom (ends (t_net c)) \<union> Str ` names ` A" and "\<And>l. F' l \<Longrightarrow> F l \<and> l \<notin> A"
  shows "free names F' c'"
  using assms unfolding free_def inj_def by (metis Un_iff imageE netName.inject(1))

lemma start_group_total:
  assumes "up n k (\<lambda>g i. True) c" and "k < 3" and "n \<le> 3" and "inj names" and "free names (later k 0) c"
  shows "\<exists>c'. start_group names srvs k c = Some c' \<and> up n (Suc k) (\<lambda>g i. True) c' \<and> free names (later (Suc k) 0) c'"
proof -
  obtain c1 where c1: "set_grp c k (new_group k c) = Some c1" "up n (Suc k) (\<lambda>g i. g < k \<or> i < 0) c1" "t_net c1 = t_net c"
    using up_new_group [OF assms(1,2)] by blast
  let ?body = "\<lambda>i. sk_StartServer (\<lambda>j. names (PeerEnd k i j)) (\<lambda>j. names (MasterEnd k i j)) (srvs k i) k i"
  have "\<exists>c'. for_loop [0..<n] ?body c1 = Some c' \<and> up n (Suc k) (\<lambda>g i. g < k \<or> i < n) c' \<and> free names (later k n) c'"
  proof (rule count_loop_total [where P = "\<lambda>m c. up n (Suc k) (\<lambda>g i. g < k \<or> i < m) c \<and> free names (later k m) c"])
    show "up n (Suc k) (\<lambda>g i. g < k \<or> i < 0) c1 \<and> free names (later k 0) c1" using c1(2,3) assms(5) by (simp add: free_def)
    fix m u assume m: "m < n" and u: "up n (Suc k) (\<lambda>g i. g < k \<or> i < m) u \<and> free names (later k m) u"
    let ?A = "PeerEnd k m ` {..<t_n u} \<union> MasterEnd k m ` {..<t_nctrlers u}"
    let ?ps = "server_ends (\<lambda>j. names (PeerEnd k m j)) (\<lambda>j. names (MasterEnd k m j)) k u"
    have ps: "fst ` set ?ps = names ` ?A" by (auto simp: server_ends_def image_Un image_image atLeast0LessThan)
    have D: "distinct (map fst ?ps)" using assms(4) by (auto simp: server_ends_def distinct_map o_def inj_on_def inj_def)
    have "later k m l" if "l \<in> ?A" for l using that by auto
    then have F: "\<forall>e\<in>fst ` set ?ps. ends (t_net u) (Str e) = None" using u unfolding ps free_def by blast
    from sk_StartServer_total [OF conjunct1 [OF u] m assms(3) D F, of "srvs k m"]
    obtain c' where c': "?body m u = Some c'" "up n (Suc k) (\<lambda>g i. g < k \<or> i < Suc m) c'"
      "dom (ends (t_net c')) = dom (ends (t_net u)) \<union> Str ` names ` ?A"
      unfolding ps by (elim exE conjE)
    have "later k (Suc m) l \<Longrightarrow> later k m l \<and> l \<notin> ?A" for l by (cases l) auto
    then have "free names (later k (Suc m)) c'" by (rule free_after [OF conjunct2 [OF u] assms(4) c'(3)])
    then show "\<exists>v. ?body m u = Some v \<and> up n (Suc k) (\<lambda>g i. g < k \<or> i < Suc m) v \<and> free names (later k (Suc m)) v" using c' by blast
  qed
  then obtain c' where c': "for_loop [0..<n] ?body c1 = Some c'" "up n (Suc k) (\<lambda>g i. g < k \<or> i < n) c'" "free names (later k n) c'" by blast
  have "up n (Suc k) (\<lambda>g i. True) c'" using c'(2) by (rule up_all) simp
  moreover have "later (Suc k) 0 l \<Longrightarrow> later k n l" for l by (cases l) auto
  then have "free names (later (Suc k) 0) c'" using c'(3) by (simp add: free_def)
  ultimately show ?thesis using c1(1,2) c'(1) upD(2) [OF c1(2)] by (simp add: start_group_def)
qed

fun unused :: "nat \<Rightarrow> label \<Rightarrow> bool" where
  "unused k (CtrlerEnd i j) = (k \<le> i)"
| "unused k l = True"

lemma ctrlers_total:
  assumes "inj names"
  shows "\<exists>c. for_loop [0..<3] (\<lambda>i. StartCtrlerserver (\<lambda>j. names (CtrlerEnd i j)) (csrvs i) i) (no_groups maxraftstate) = Some c \<and>
    ctrlers_up 3 c \<and> free names (unused 3) c"
proof (rule count_loop_total [where P = "\<lambda>k c. ctrlers_up k c \<and> free names (unused k) c"])
  show "ctrlers_up 0 (no_groups maxraftstate) \<and> free names (unused 0) (no_groups maxraftstate)"
    using no_groups_up by (simp add: free_def no_groups_def MakeNetwork_def)
  fix k u assume k: "k < (3 :: nat)" and u: "ctrlers_up k u \<and> free names (unused k) u"
  have "inj_on (\<lambda>j. names (CtrlerEnd k j)) {..<3}" using assms by (auto simp: inj_on_def inj_def)
  moreover have "\<forall>j<3. ends (t_net u) (Str (names (CtrlerEnd k j))) = None" using u by (simp add: free_def domIff)
  ultimately obtain c' where c': "StartCtrlerserver (\<lambda>j. names (CtrlerEnd k j)) (csrvs k) k u = Some c'" "ctrlers_up (Suc k) c'"
    "dom (ends (t_net c')) = dom (ends (t_net u)) \<union> Str ` names ` (CtrlerEnd k ` {..<3})"
    using StartCtrlerserver_total [OF conjunct1 [OF u] k, of "\<lambda>j. names (CtrlerEnd k j)" "csrvs k"] by (auto simp: image_image)
  have "unused (Suc k) l \<Longrightarrow> unused k l \<and> l \<notin> CtrlerEnd k ` {..<3}" for l by (cases l) auto
  then have "free names (unused (Suc k)) c'" by (rule free_after [OF conjunct2 [OF u] assms c'(3)])
  then show "\<exists>v. StartCtrlerserver (\<lambda>j. names (CtrlerEnd k j)) (csrvs k) k u = Some v \<and> ctrlers_up (Suc k) v \<and> free names (unused (Suc k)) v" using c' by blast
qed

lemma sk_make_config_returns:
  assumes "inj names" and "n \<le> 3"
  shows "\<exists>c. sk_make_config names csrvs srvs rid n unreliable maxraftstate = Some c \<and> up n 3 (\<lambda>g i. True) c"
proof -
  let ?body = "\<lambda>i. StartCtrlerserver (\<lambda>j. names (CtrlerEnd i j)) (csrvs i) i"
  obtain c1 where c1: "for_loop [0..<3] ?body (no_groups maxraftstate) = Some c1" "ctrlers_up 3 c1" "free names (unused 3) c1" 
    using ctrlers_total [OF assms(1)] by blast
  have n: "t_nctrlers c1 = 3" using c1(2) by (simp add: ctrlers_up_def)
  let ?ps = "map (\<lambda>j. (names (MckEnd j), ctrlername j)) [0..<t_nctrlers c1]"
  have ps: "fst ` set ?ps = names ` MckEnd ` {..<3}" by (simp add: n image_image atLeast0LessThan)
  have "distinct (map fst ?ps)" using assms(1) by (auto simp: distinct_map o_def inj_on_def inj_def)
  moreover have "\<forall>e\<in>fst ` set ?ps. ends (t_net c1) (Str e) = None" using c1(3) unfolding ps by (auto simp: free_def domIff)
  ultimately obtain c2 where c2: "make_ends ?ps c1 = Some c2" using make_ends_total by blast
  then obtain rn where rn: "madeEnds ?ps (t_net c1) rn" "c2 = c1\<lparr>t_net := rn\<rparr>" by (rule make_ends_Some)
  have mck: "shardclerk (\<lambda>j. names (MckEnd j)) rid c1 = Some (c2, ScMakeClerk 3 rid)"
    using c2 n by (simp add: shardclerk_def ctrler_ends_def rn(2))
  let ?c = "c2\<lparr>t_mck := Some (ScMakeClerk 3 rid), t_ngroups := 3, t_groups := replicate 3 None, t_n := n\<rparr>"
  have fr: "later 0 0 l \<Longrightarrow> unused 3 l \<and> l \<notin> MckEnd ` {..<3}" for l by (cases l) auto
  have "dom (ends (t_net ?c)) = dom (ends (t_net c1)) \<union> Str ` names ` MckEnd ` {..<3}"
    using madeEndsD(3) [OF rn(1)] unfolding ps by (simp add: rn(2))
  then have "free names (later 0 0) ?c" by (rule free_after [OF c1(3) assms(1)]) (rule fr)
  moreover have "up n 0 (\<lambda>g i. True) ?c" by (rule no_servers_up [OF c1(2) mck])
  ultimately have "\<exists>c3. for_loop [0..<3] (start_group names srvs) ?c = Some c3 \<and> up n 3 (\<lambda>g i. True) c3 \<and> free names (later 3 0) c3"
    by (intro count_loop_total [where P = "\<lambda>k c. up n k (\<lambda>g i. True) c \<and> free names (later k 0) c"] conjI)
      (use start_group_total [OF _ _ assms(2,1)] in blast)+
  then obtain c3 where c3: "for_loop [0..<3] (start_group names srvs) ?c = Some c3" "up n 3 (\<lambda>g i. True) c3" by blast
  have "up n 3 (\<lambda>g i. True) (c3\<lparr>t_nextClientId := int (t_n c3) + 1000, t_net := Reliable (t_net c3) (\<not> unreliable)\<rparr>)"
    using c3(2) by (rule up_finish) simp_all
  then show ?thesis unfolding sk_make_config_eq using c1(1) mck c3(1) by simp
qed

lemma sk_makeClient_total:
  assumes "t_nctrlers c \<le> t_n c" and "inj_on names {..<t_nctrlers c}" and "\<forall>j<t_nctrlers c. ends (t_net c) (Str (names j)) = None"
  shows "\<exists>r. sk_makeClient names ck rid newest c = Some r"
proof -
  let ?body = "\<lambda>j (rn, endnames). do { endnames \<leftarrow> set_idx endnames (int j) (names j); rn \<leftarrow> make_end rn (names j) (ctrlername j); Some (rn, endnames) }"
  have "\<exists>t. for_loop [0..<t_nctrlers c] ?body (t_net c, replicate (t_n c) []) = Some t \<and>
    madeEnds (map (\<lambda>j. (names j, ctrlername j)) [0..<t_nctrlers c]) (t_net c) (fst t) \<and> length (snd t) = t_n c"
  proof (rule count_loop_total [where P = "\<lambda>k t. madeEnds (map (\<lambda>j. (names j, ctrlername j)) [0..<k]) (t_net c) (fst t) \<and> length (snd t) = t_n c"])
    fix k and t :: "netName Network \<times> string list" assume k: "k < t_nctrlers c"
      and t: "madeEnds (map (\<lambda>j. (names j, ctrlername j)) [0..<k]) (t_net c) (fst t) \<and> length (snd t) = t_n c"
    obtain rn ns where rn: "t = (rn, ns)" by (cases t)
    have "names k \<notin> names ` {0..<k}" using assms(2) k by (fastforce simp: inj_on_def)
    then have "Str (names k) \<notin> dom (ends rn)"
      using madeEndsD(3) [OF conjunct1 [OF t]] assms(3) k by (auto simp: rn image_image)
    then obtain rn' where rn': "make_end rn (names k) (ctrlername k) = Some rn'" using make_end_Some [of rn "names k" "ctrlername k"] by (auto simp: domIff)
    have "madeEnds (map (\<lambda>j. (names j, ctrlername j)) [0..<Suc k]) (t_net c) rn'"
      using madeEnds_snoc [OF _ rn'] t rn by simp
    then show "\<exists>v. ?body k t = Some v \<and> madeEnds (map (\<lambda>j. (names j, ctrlername j)) [0..<Suc k]) (t_net c) (fst v) \<and> length (snd v) = t_n c"
      using rn rn' t k assms(1) by simp
  qed (simp add: madeEnds_def)
  then show ?thesis by (auto simp: sk_makeClient_def)
qed

section \<open>The theorems\<close>

lemma joinServers_names:
  assumes "\<And>g gg. grp c g = Some gg \<Longrightarrow> g_gid gg = 100 + int g" and "\<forall>g\<in>set gis. grp c g \<noteq> None"
  shows "\<exists>m. joinServers c gis = Some m \<and> (\<forall>g\<in>set gis. fmlookup m (100 + int g) = Some (map (servername (100 + int g)) [0..<t_n c]))"
  using assms(2)
proof (induction gis rule: rev_induct)
  case (snoc g gis)
  then obtain m gg where m: "joinServers c gis = Some m" "grp c g = Some gg"
    "\<forall>g\<in>set gis. fmlookup m (100 + int g) = Some (map (servername (100 + int g)) [0..<t_n c])" by auto
  then have "joinServers c (gis @ [g]) = Some (fmupd (100 + int g) (map (servername (100 + int g)) [0..<t_n c]) m)"
    using assms(1) by (simp add: joinServers_def for_loop_append)
  then show ?case using m(3) by auto
qed (simp add: joinServers_def)

text \<open>C16: the network of the sharded service.  After any sequence of operations of the harness (starting and stopping servers and
  groups, making and deleting clerks, joining and leaving), with servers, controllers and clerks at work in between, the network fits
  the harness: all ends that the harness remembers have different names, lead to the server they were made for, and are enabled
  exactly while the server that owns them runs; groups and controllers are all there.  Joining any groups returns, and the
  names that the controller is told lead to the servers: an end that a clerk or server makes to the \<open>i\<close>-th name of a group is enabled
  and finds a server exactly if the \<open>i\<close>-th server of that group is running.\<close>

theorem sharded_network:
  assumes "reach sk_made sk_step c"
  shows "sk_ok c \<and> complete c \<and>
    (\<forall>gis results. set gis \<subseteq> {..<t_ngroups c} \<longrightarrow> (\<exists>c' args r. joinm gis results c = Some (c', args, r) \<and>
      (\<forall>gi\<in>set gis. \<exists>names. fmlookup (ja_Servers args) (100 + int gi) = Some names \<and> length names = t_n c \<and>
        (\<forall>i<t_n c. \<forall>e rn. make_end (t_net c') e (names ! i) = Some rn \<longrightarrow>
          fst (readEndnameInfo rn (Str e)) \<and> (fst (snd (snd (readEndnameInfo rn (Str e)))) \<noteq> None) = running c gi i))))"
proof -
  have ok: "sk_ok c" "complete c" using sk_harness.inv_reach [OF assms] by blast+
  have "\<exists>c' args r. joinm gis results c = Some (c', args, r) \<and>
      (\<forall>gi\<in>set gis. \<exists>names. fmlookup (ja_Servers args) (100 + int gi) = Some names \<and> length names = t_n c \<and>
        (\<forall>i<t_n c. \<forall>e rn. make_end (t_net c') e (names ! i) = Some rn \<longrightarrow>
          fst (readEndnameInfo rn (Str e)) \<and> (fst (snd (snd (readEndnameInfo rn (Str e)))) \<noteq> None) = running c gi i))"
    if gis: "set gis \<subseteq> {..<t_ngroups c}" for gis results
  proof -
    have there: "\<forall>g\<in>set gis. grp c g \<noteq> None" using gis ok(2) by (auto simp: complete_def)
    have gid: "g_gid gg = 100 + int g" if "grp c g = Some gg" for g gg by (rule group_okD(1) [OF sk_okD(3) [OF ok(1) that]])
    obtain m mck where m: "joinServers c gis = Some m" "t_mck c = Some mck"
      "\<forall>g\<in>set gis. fmlookup m (100 + int g) = Some (map (servername (100 + int g)) [0..<t_n c])"
      using joinServers_names [OF gid there] ok(2) by (auto simp: complete_def)
    have up: "(servers (t_net c) (Str (servername (100 + int gi) i)) \<noteq> None) = running c gi i" if g: "gi \<in> set gis" and i: "i < t_n c" for gi i
    proof -
      obtain gg where gg: "grp c gi = Some gg" using there g by auto
      note G = group_okD [OF sk_okD(3) [OF ok(1) gg]]
      show ?thesis using G(2) G(6) [OF i] i gg by (auto simp: running_def)
    qed
    show ?thesis
      using m up by (auto simp: joinm_def ClerkJoin_def make_end_Some readEndnameInfo_def)
  qed
  then show ?thesis using ok by blast
qed

text \<open>C17: three servers per group.  \<^verbatim>\<open>make_config\<close> panics if groups are to have more than three servers, because \<^verbatim>\<open>mendnames\<close> has a row per
  server of the controller; with at most three, and different random names, it returns with all servers running.  A clerk can be made
  exactly if there are three, because \<^verbatim>\<open>makeClient\<close> puts the names of the ends to the three controllers into a slice of length \<^verbatim>\<open>n\<close>.\<close>

theorem three_servers_per_group:
  assumes "inj names"
  shows "(if n > 3 then sk_make_config names csrvs srvs rid n unreliable maxraftstate = None
    else \<exists>c. sk_make_config names csrvs srvs rid n unreliable maxraftstate = Some c \<and> (\<forall>gi<3. \<forall>i<n. running c gi i) \<and>
      (\<forall>cnames ck crid newest. inj cnames \<longrightarrow> (\<forall>j<3. ends (t_net c) (Str (cnames j)) = None) \<longrightarrow>
        (sk_makeClient cnames ck crid newest c \<noteq> None) = (n = 3)))"
proof (cases "n > 3")
  case True
  have "sk_make_config names csrvs srvs rid n unreliable maxraftstate \<noteq> Some c" for c
    using up_small [OF sk_make_config_up, of names csrvs srvs rid n unreliable maxraftstate c] True by linarith
  then show ?thesis using True by (simp add: not_Some_eq [symmetric])
next
  case False
  then obtain c where c: "sk_make_config names csrvs srvs rid n unreliable maxraftstate = Some c" "up n 3 (\<lambda>g i. True) c"
    using sk_make_config_returns [OF assms] by (metis not_less)
  note U = upD [OF c(2)]
  have "(sk_makeClient cnames ck crid newest c \<noteq> None) = (n = 3)"
    if f: "inj cnames" "\<forall>j<3. ends (t_net c) (Str (cnames j)) = None" for cnames ck crid newest
  proof
    assume "sk_makeClient cnames ck crid newest c \<noteq> None"
    then obtain c' clerk where "sk_makeClient cnames ck crid newest c = Some (c', clerk)" by auto
    then have "t_nctrlers c \<le> t_n c" by (rule sk_makeClient_eq)
    then show "n = 3" using U(2,3) False by simp
  next
    assume "n = 3"
    then show "sk_makeClient cnames ck crid newest c \<noteq> None"
      using sk_makeClient_total [of c cnames ck crid newest] f U(2,3) by (auto simp: inj_on_def inj_def)
  qed
  then show ?thesis using False c(1) U(8) by auto
qed

section \<open>An example\<close>

text \<open>Names from numbers.\<close>

fun code :: "label \<Rightarrow> nat" where
  "code (CtrlerEnd i j) = prod_encode (0, prod_encode (i, j))"
| "code (MckEnd j) = prod_encode (1, j)"
| "code (PeerEnd g i j) = prod_encode (2, prod_encode (g, prod_encode (i, j)))"
| "code (MasterEnd g i j) = prod_encode (3, prod_encode (g, prod_encode (i, j)))"

definition ex_label_name :: "label \<Rightarrow> string" where
  "ex_label_name l = Itoa (code l)"

lemma inj_ex_label_name: "inj ex_label_name"
proof (rule injI)
  fix x y assume "ex_label_name x = ex_label_name y"
  then show "x = y" by (cases x; cases y) (simp_all add: ex_label_name_def)
qed

theorem sharded_network_witness:
  "\<exists>c c' args r. sk_make_config ex_label_name (\<lambda>i. i) (\<lambda>g i. 10 * g + i) 7 3 False 1000 = Some c \<and> joinm [0, 2] [] c = Some (c', args, r) \<and>
     (\<exists>names. fmlookup (ja_Servers args) 102 = Some names \<and> length names = 3)"
proof -
  obtain c where c: "sk_make_config ex_label_name (\<lambda>i. i) (\<lambda>g i. 10 * g + i) 7 3 False 1000 = Some c" "up 3 3 (\<lambda>g i. True) c"
    using sk_make_config_returns [OF inj_ex_label_name, of 3] by blast
  from sharded_network [OF reach_init [where init = sk_made and step = sk_step, OF sk_made.intros [OF c(1)]]] upD(2,4) [OF c(2)]
  obtain c' args r where j: "joinm [0, 2] [] c = Some (c', args, r)"
    "\<forall>gi\<in>set [0, 2]. \<exists>names. fmlookup (ja_Servers args) (100 + int gi) = Some names \<and> length names = 3"
    by (elim conjE allE [of _ "[0, 2]"] allE [of _ "[]"]) auto
  then show ?thesis using c(1) by auto
qed

theorem three_servers_per_group_witness:
  "sk_make_config ex_label_name (\<lambda>i. i) (\<lambda>g i. 10 * g + i) 7 4 False 1000 = None \<and>
   (\<exists>c. sk_make_config ex_label_name (\<lambda>i. i) (\<lambda>g i. 10 * g + i) 7 2 False 1000 = Some c \<and> running c 2 1)"
  using three_servers_per_group [OF inj_ex_label_name, of 4 "\<lambda>i. i" "\<lambda>g i. 10 * g + i" 7 False 1000]
    three_servers_per_group [OF inj_ex_label_name, of 2 "\<lambda>i. i" "\<lambda>g i. 10 * g + i" 7 False 1000] by auto

end
