(* ===== verification/Spec2Isabelle.thy ===== *)
theory Spec2Isabelle
  imports Raft_Config_Props Labrpc_Props KvRaft_Props ShardCtrler_Props ShardKV_Props MR_Apps Porcupine_Visual Labgob Svc_Config_Props Sk_Config_Props
begin

text \<open>
  \<^bold>\<open>Verification of the MIT 6.5840 (6.824) labs\<close>

  The repository implements, in Go, a MapReduce framework (\<^verbatim>\<open>src/src/mr\<close>) and a stack of services: the
  Raft consensus library (\<^verbatim>\<open>raft\<close>), a replicated key/value store (\<^verbatim>\<open>kvraft\<close>), a replicated shard
  controller (\<^verbatim>\<open>shardctrler\<close>) and a sharded key/value store (\<^verbatim>\<open>shardkv\<close>).  A server of each service runs a
  Raft peer, hands it commands with \<^verbatim>\<open>Start\<close>, and executes the commands (or installs the snapshots) that the
  peer sends on the apply channel.  The groups of \<^verbatim>\<open>shardkv\<close> follow the configurations that
  \<^verbatim>\<open>shardctrler\<close> computes and send each other shards.  The histories of the key/value services are checked
  with a linearizability checker (\<^verbatim>\<open>porcupine\<close>) and a sequential model of the store (\<^verbatim>\<open>models\<close>).  The servers talk
  over a simulated network (\<^verbatim>\<open>labrpc\<close>), which a test harness (a \<^verbatim>\<open>config.go\<close> per service) sets up, partitions and repairs.

  \<^bold>\<open>Conventions.\<close>  A struct is a record, a panic or \<^verbatim>\<open>log.Fatalf\<close> is \<^const>\<open>None\<close>, a loop over a slice
  is \<^const>\<open>for_loop\<close> or a fold, Go's \<^verbatim>\<open>int\<close> and \<^verbatim>\<open>int64\<close> are \<^typ>\<open>int\<close> (they count up by one), the 32-bit
  hash is a \<^typ>\<open>32 word\<close>.  Code that runs under one lock without a break is one function; an operation that
  releases the lock (to send on a channel, to wait) is several functions (\<open>GetStart\<close>, \<open>kvRegister\<close>,
  \<open>kvLeave\<close>, \<open>GetAnswer\<close>, \<open>kvClean\<close>), so that theorems can interleave them.  Encoded bytes stand for the values they encode
  (in the JSON files of MapReduce, for the values that are read again).
  The size of the encoded Raft state, the iteration order of Go maps, random numbers, times, the results
  of RPCs, the Unicode tables of letters and the functions of a MapReduce job are arguments.

  \<^bold>\<open>Theories.\<close>

  \<^item> \<open>Go_Prelude\<close>: slices with bounds checks, loops, insertion sort, maps; \<open>Go_Sort\<close>: sorting with the locale
    \<open>less_function\<close>; \<open>Go_Chan\<close>: channels; \<open>Go_Unicode\<close>: strings as UTF-8; \<open>Systems\<close>: reachable
    states, the locales \<open>inductive_invariant\<close> and \<open>quorum_system\<close>; \<open>Service\<close>: the locales
    \<open>replicated_service\<close>, \<open>skipping_service\<close>, \<open>dedup_service\<close> and \<open>strict_dedup_service\<close>, the contracts the
    services share.
  \<^item> \<open>Persister\<close> and \<open>Raft_Node\<close> model \<^verbatim>\<open>raft/persister.go\<close> and \<^verbatim>\<open>raft/raft.go\<close>: the state of a peer, the three RPC
    handlers, the code that handles their replies, elections, replication, commit, snapshots, the
    applier and \<^verbatim>\<open>Make\<close>.  \<open>Raft_Inv\<close> has the well-formedness invariant and closed forms of the handlers,
    \<open>Raft_Step\<close> the step relation of a peer, \<open>Raft_Votes\<close> terms, votes and what is on stable storage,
    \<open>Raft_Cluster\<close> a cluster with a network that loses, delays and reorders calls and
    with servers that crash and restart, \<open>Raft_Election\<close> election safety for it (an
    interpretation of \<open>inductive_invariant\<close>, with quorums from \<open>quorum_system\<close>).  \<open>Raft_Props\<close> has the
    theorems on single operations: what \<^verbatim>\<open>AppendEntries\<close> does to the log, the commit rule, snapshots, the
    applier, restart.
  \<^item> The safety of the replicated log: \<open>Raft_Logs\<close> has complete logs and the tree that they form, \<open>Raft_Full\<close> the
    complete log behind the log of a peer, \<open>Raft_Complete\<close> the argument for leader completeness as a fact about
    histories of votes and acknowledgements, without the cluster.  \<open>Raft_History\<close> ties a history to the state of a
    cluster, \<open>Raft_Log_Steps\<close>, \<open>Raft_Log_Calls\<close> and \<open>Raft_Log_Votes\<close> show that every step of the cluster extends it, and
    \<open>Raft_Safety\<close> (two more interpretations of \<open>inductive_invariant\<close>) has log matching, leader completeness, state
    machine safety.  \<open>Raft_Service\<close> turns them into what a service relies on: the
    appliers of all peers deliver the messages of one log.  \<open>Raft_Apply\<close> adds the apply channels to the cluster: the loop of the applier, the
    goroutines that \<^verbatim>\<open>InstallSnapshot\<close> starts, and services that call \<^verbatim>\<open>Snapshot\<close> for commands and snapshots they have received.  It
    shows the order of the deliveries (another interpretation of \<open>inductive_invariant\<close>) and that no operation panics;
    \<open>kv_on_raft\<close> and \<open>sk_on_raft\<close>, below, compose this with \<open>KvRaft_Props\<close> and \<open>ShardKV_Props\<close>.
  \<^item> \<open>Labrpc\<close> models the simulated network \<^verbatim>\<open>labrpc\<close>, each call as a small state machine that runs beside the others and
    beside changes of the configuration; \<open>Labrpc_Props\<close>: it refines a network that executes each request at
    most once and loses requests and replies (what \<open>Raft_Cluster\<close> assumes of its network), a deleted server never
    answers, statistics, dispatch.
  \<^item> \<open>Raft_Config\<close> models the test harness \<^verbatim>\<open>raft/config.go\<close> on top of \<open>Labrpc\<close> and \<open>Raft_Node\<close>; \<open>Raft_Config_Props\<close>: the network
    follows the harness, a restart is the one of \<open>Raft_Cluster\<close>, and the checks of the harness never fail on a run of
    a cluster (by the theorems of \<open>Raft_Election\<close> and \<open>Raft_Apply\<close>; those of the deliveries for tests without snapshots).
  \<^item> \<open>Svc_Config\<close> models the harnesses of the services, \<^verbatim>\<open>kvraft/config.go\<close> and \<^verbatim>\<open>shardctrler/config.go\<close>, whose common part is one
    record; \<open>Svc_Partition\<close>: dividing the servers; \<open>Svc_Config_Props\<close>: the network fits the harness (two interpretations of
    \<open>inductive_invariant\<close>), a leader is cut off from the majority.
  \<^item> \<open>Sk_Config\<close> models the harness of the sharded service, \<^verbatim>\<open>shardkv/config.go\<close>, where servers have names (\<open>Go_Strconv\<close>: numbers as
    strings); \<open>Sk_Network\<close>: its network; \<open>Sk_Config_Props\<close>: groups join with the names of their servers (an interpretation of
    \<open>inductive_invariant\<close>), and the harness works for groups of three.
  \<^item> \<open>KvRaft\<close> models \<^verbatim>\<open>kvraft\<close>; \<open>KvRaft_Props\<close>: the apply loop refines the abstract service, replicas agree, restart,
    duplicate suppression, the clerk.
  \<^item> \<open>ShardCtrler\<close> models \<^verbatim>\<open>shardctrler\<close>; \<open>Shard_Balance\<close>: the balancing routine yields an even assignment, with the fewest moves for
    its loads, that does not depend on the iteration order of maps; \<open>ShardCtrler_Props\<close>: the history of configurations,
    \<^verbatim>\<open>Query\<close>, replicas.
  \<^item> \<open>ShardKV\<close> models \<^verbatim>\<open>shardkv\<close>; \<open>ShardKV_Props\<close>: commands do not panic, operations take effect at most once, also across
    the hand-over of a shard, a group that moves on holds exactly its shards (but those that a late removal has hit), replicas agree.
  \<^item> \<open>MapReduce\<close> models \<^verbatim>\<open>mr\<close> and a job with any number of workers that may crash; \<open>MapReduce_Props\<close>: what is handed
    out when, and that a finished job has the right output.  \<open>MR_Apps\<close> models the applications (\<^verbatim>\<open>mrapps\<close>) and
    \<^verbatim>\<open>main/mrsequential.go\<close>: a job yields what the sequential program yields (for map functions that
    are deterministic and yield correct UTF-8 and reduce functions that do not depend on the order of the values), and word count counts words.
  \<^item> \<open>Labgob\<close> models the checks of \<^verbatim>\<open>labgob\<close>, on types that may be cyclic, and the operations around \<^verbatim>\<open>encoding/gob\<close>.
  \<^item> \<open>Porcupine_Bitset\<close> and \<open>Porcupine\<close> model \<^verbatim>\<open>porcupine\<close>.  \<open>Porcupine_List\<close>: the doubly linked list in an explicit store, \<^const>\<open>unlift\<close>
    undoes \<^const>\<open>lift\<close>; \<open>Porcupine_Search\<close>: configurations, the stack of calls; \<open>Porcupine_Loop\<close>: the invariant and
    the measure of the search; \<open>Porcupine_Linked\<close>: the list built from a history; \<open>Porcupine_Props\<close>: \<^const>\<open>checkSingle\<close>
    decides linearizability of entries; \<open>Porcupine_Ops\<close>: \<^const>\<open>checkOperations\<close> that of operations with call and
    return times, for every sort with the laws of the locale \<open>time_sort\<close>, every order of the goroutines
    and every timeout; \<open>Porcupine_KV\<close> models \<^verbatim>\<open>models/kv.go\<close> and shows that partitioning by key is right; \<open>Porcupine_Visual\<close> models
    \<^verbatim>\<open>visualization.go\<close>: the data for the picture of a check can always be computed, and show what the check has found.

  \<^bold>\<open>Departures.\<close>  Some theorems show behaviour that the code does not intend: \<open>stepdown_keeps_vote\<close>,
  \<open>InstallSnapshot_forgets_term\<close>, \<open>single_server_never_leads\<close>, \<open>kv_late_repeat\<close>, \<open>snapshot_overtaken\<close>,
  \<open>apply_loop_blocks\<close>, \<open>move_out_of_range_panics\<close>, \<open>balance_needless_move\<close>, \<open>late_removal_loses_shard\<close>,
  \<open>no_group_panics\<close>, \<open>three_servers_per_group\<close>, \<open>early_snapshot_panics\<close>, \<open>unexported_field_panics\<close>; and \<open>checkOperations_correct\<close> that a check without partitions never returns.

  \<^bold>\<open>Hypotheses.\<close>  The code has no defence against some orders of events, and the theorems say so.  Replicas agree
  (\<open>kv_replicas_agree\<close>, \<open>sk_replicas_agree\<close>) as long as each server receives the messages of the log in order; \<open>Raft_Apply\<close> proves
  the order for peers that have not installed a snapshot since they were started, and \<open>snapshot_overtaken\<close> shows how an installed
  snapshot may break it.  Commands are executed exactly once (\<open>kv_exactly_once\<close>, \<open>controller_replicas\<close>) if the sequence numbers of each client do not
  decrease in the log.  In \<open>Raft_Apply\<close> a crashed server takes its goroutines with it: nothing that it still sends on its old channel is
  received.

  \<^bold>\<open>Bounds.\<close>  Only \<^const>\<open>checkType\<close> takes fuel, a bound for the depth of its recursion; one more than the number of
  types that can be reached is enough (\<open>checkType_correct\<close>).  The clerks' retry loops, which may run forever, take the list of the answers
  they receive and are still trying when it ends.  The search of the checker is a \<^theory_text>\<open>partial_function\<close>, and it is proved that
  it returns.  \<^const>\<open>sliceStable\<close> is the insertion sort that the
  library runs on at most twenty elements; the controller's groups and the theorems about it do not depend on
  more than that the result is sorted.  The sort of a reduce task is any function with the laws of \<open>key_sort\<close>.

  \<^bold>\<open>Not modelled.\<close>  Debug output, the text of the checker's HTML page, \<^verbatim>\<open>encoding/gob\<close>, the MapReduce applications that only create marker
  files and sleep, and the programs that only start a worker or a coordinator.
  Timers appear as the steps they trigger.
\<close>

section \<open>The key/value service on a Raft cluster\<close>

lemma delivered_raft_msg:
  assumes "run n \<sigma>" and "i < n" and "\<forall>m \<in> set ms. delivers \<sigma> i m"
  shows "list_all2 raft_msg (map cmd_of ms) (map (decoded dec) ms)"
  using assms(3) delivers_command [OF assms(1,2)]
  by (auto simp: list_all2_conv_all_nth raft_msg_def cmd_of_def decoded_def)

lemma servers_agree:
  assumes "run n \<sigma>" and "i < n" and "j < n"
    and "StartKVServer n a MakePersister la = Some kva" and "StartKVServer n b MakePersister lb = Some kvb"
    and "\<forall>m \<in> set ma. delivers \<sigma> i m" and "steady True 0 ma"
    and "\<forall>m \<in> set mb. delivers \<sigma> j m" and "steady True 0 mb"
    and "for_loop (map (decoded dec) ma) (\<lambda>x kv. kvApply sz kv x) kva = Some kva'"
    and "for_loop (map (decoded dec) mb) (\<lambda>x kv. kvApply sz kv x) kvb = Some kvb'"
    and "kv_lastApplied kva' = kv_lastApplied kvb'"
  shows "kv_data kva' = kv_data kvb' \<and> kv_duptable kva' = kv_duptable kvb'"
proof -
  obtain lg where lg: "orderly True applyOp kv_init kv_snap lg 0 (map cmd_of ma)"
    "orderly True applyOp kv_init kv_snap lg 0 (map cmd_of mb)"
    using one_log [OF assms(1-3,6,8,7,9), of applyOp kv_init kv_snap] by blast
  have A: "kv_abs kva' = fold kv_deliver (map cmd_of ma) (0, kv_init)"
    using kvApply_run [OF assms(10) delivered_raft_msg [OF assms(1,2,6)]] StartKVServer_abs [OF assms(4)] by simp
  have B: "kv_abs kvb' = fold kv_deliver (map cmd_of mb) (0, kv_init)"
    using kvApply_run [OF assms(11) delivered_raft_msg [OF assms(1,3,8)]] StartKVServer_abs [OF assms(5)] by simp
  have "fst (kv_abs kva') = fst (kv_abs kvb')" using assms(12) by (simp add: kv_abs_def)
  then have "kv_abs kva' = kv_abs kvb'" using kv_log.replicas_agree_old [OF lg] A B by simp
  then show ?thesis by (simp add: kv_abs_def)
qed

text \<open>C18: the key/value service on Raft.  Take any execution of a Raft cluster with its appliers, with lost and delayed calls,
  crashes and restarts, and what the services of two peers, at the same or at different moments, have received since their servers were
  started, both without a snapshot to start from, and as long as their peers have installed none.  Two servers that start
  empty, execute what they have received and have come to the same index hold the same data and the same duplicate table.\<close>

theorem kv_on_raft:
  assumes "apply_reach n d" and "(apply_step n)\<^sup>*\<^sup>* d d'" and "i < n" and "j < n"
    and "base d i = 0" and "undisturbed (snapWait d i) (snapReady d i) (received d i)"
    and "base d' j = 0" and "undisturbed (snapWait d' j) (snapReady d' j) (received d' j)"
    and "StartKVServer n a MakePersister la = Some kva" and "StartKVServer n b MakePersister lb = Some kvb"
    and "for_loop (map (decoded dec) (received d i)) (\<lambda>x kv. kvApply sz kv x) kva = Some kva'"
    and "for_loop (map (decoded dec) (received d' j)) (\<lambda>x kv. kvApply sz kv x) kvb = Some kvb'"
    and "kv_lastApplied kva' = kv_lastApplied kvb'"
  shows "kv_data kva' = kv_data kvb' \<and> kv_duptable kva' = kv_duptable kvb'"
proof -
  obtain \<sigma> where \<sigma>: "run n \<sigma>" "\<forall>m \<in> set (received d i). delivers \<sigma> i m" "\<forall>m \<in> set (received d' j). delivers \<sigma> j m"
    using received_delivers [OF assms(1,2,6,8)] by blast
  have "steady True 0 (received d i)" by (rule received_steady [OF assms(1,3,5,6)])
  moreover have "steady True 0 (received d' j)" by (rule received_steady [OF reach_steps [OF assms(2,1)] assms(4,7,8)])
  ultimately show ?thesis
    using servers_agree [OF \<sigma>(1) assms(3,4,9,10) \<sigma>(2) _ \<sigma>(3) _ assms(11-13)] by blast
qed

text \<open>The execution of \<open>Raft_Apply\<close> with a command of the service: both services have received it.\<close>

lemma ex_op_reach: "apply_reach 3 (ex_served (ex_op ''a'' 0) :: (Op, nat) apply_sys)"
proof -
  let ?c = "ex_op ''a'' 0"
  have "(raft_work 3)\<^sup>*\<^sup>* (boot 3) (ex_elected :: (Op, nat) cluster)" by (rule ex_elected_work [OF refl]) code_simp+
  also have "(raft_work 3)\<^sup>*\<^sup>* (ex_elected :: (Op, nat) cluster) (ex_replicated ?c)" by (rule ex_replicated_work) code_simp
  also have "(raft_work 3)\<^sup>*\<^sup>* (ex_replicated ?c :: (Op, nat) cluster) (ex_committed ?c)" by (rule ex_committed_work) code_simp+
  finally have "apply_reach 3 (bare (ex_committed ?c :: (Op, nat) cluster))" using work_apply boot_apply by blast
  then have "apply_reach 3 (ex_served1 ?c :: (Op, nat) apply_sys)"
    unfolding ex_served1_def by (rule hand_over_apply) code_simp+
  then show ?thesis unfolding ex_served_def by (rule hand_over_apply) code_simp+
qed

theorem kv_on_raft_witness:
  "\<exists>(d :: (Op, nat) apply_sys) kva kvb. d = ex_served (ex_op ''a'' 0) \<and>
     for_loop (map (decoded (\<lambda>x. \<lparr>ss_Data = Map.empty, ss_Duptable = Map.empty\<rparr>)) (received d 0))
       (\<lambda>x kv. kvApply (\<lambda>_. 0) kv x) ex_kv = Some kva \<and>
     for_loop (map (decoded (\<lambda>x. \<lparr>ss_Data = Map.empty, ss_Duptable = Map.empty\<rparr>)) (received d 1))
       (\<lambda>x kv. kvApply (\<lambda>_. 0) kv x) ex_kv = Some kvb \<and>
     kv_data kva = kv_data kvb \<and> kv_data kva ''k'' = Some ''a''"
proof -
  let ?d = "ex_served (ex_op ''a'' 0) :: (Op, nat) apply_sys"
  let ?dec = "\<lambda>x :: nat. \<lparr>ss_Data = Map.empty, ss_Duptable = Map.empty\<rparr> :: SnapshotStatus"
  let ?x = "for_loop (map (decoded ?dec) (received ?d 0)) (\<lambda>x kv. kvApply (\<lambda>_. 0) kv x) ex_kv"
  let ?y = "for_loop (map (decoded ?dec) (received ?d 1)) (\<lambda>x kv. kvApply (\<lambda>_. 0) kv x) ex_kv"
  have b: "base ?d 0 = 0" "base ?d 1 = 0" by code_simp+
  have q: "undisturbed (snapWait ?d 0) (snapReady ?d 0) (received ?d 0)" "undisturbed (snapWait ?d 1) (snapReady ?d 1) (received ?d 1)"
    unfolding undisturbed_def list_all_iff [symmetric] by code_simp+
  have x: "?x = Some (the ?x)" and y: "?y = Some (the ?y)" by (rule returned, code_simp)+
  have eq: "kv_lastApplied (the ?x) = kv_lastApplied (the ?y)" by code_simp
  have "kv_data (the ?x) = kv_data (the ?y)"
    using kv_on_raft [OF ex_op_reach rtranclp.rtrancl_refl _ _ b(1) q(1) b(2) q(2) ex_kv_start ex_kv_start x y eq] by simp
  moreover have "kv_data (the ?x) ''k'' = Some ''a''" by code_simp
  ultimately show ?thesis using x y by blast
qed

section \<open>The sharded service on a Raft cluster\<close>

text \<open>The same for two servers of a group of the sharded service, which rely on every command being delivered once.\<close>

lemma reached_upto:
  assumes "map CommandIndex ms = [i + 1 .. k]" and "i \<le> k"
  shows "fold (\<lambda>d i. reached i d) (map cmd_of ms) i = k"
  using assms
proof (induction ms arbitrary: i)
  case (Cons m ms)
  then have "i + 1 \<le> k" by (metis list.simps(9) neq_Nil_conv upto_empty not_le)
  then have "CommandIndex m = i + 1" "map CommandIndex ms = [i + 1 + 1 .. k]" using Cons.prems by (simp_all add: upto_rec1)
  then show ?case using Cons.IH [of "i + 1"] \<open>i + 1 \<le> k\<close> by (simp add: cmd_of_def)
qed simp

lemma delivered_sk_msg:
  assumes "run n \<sigma>" and "i < n" and "\<forall>m \<in> set ms. delivers \<sigma> i m"
  shows "list_all2 sk_msg (map cmd_of ms) (map (decoded dec) ms)"
  using assms(3) delivers_command [OF assms(1,2)]
  by (auto simp: list_all2_conv_all_nth sk_msg_def cmd_of_def decoded_def)

lemma received_reached:
  assumes "apply_reach n d" and "i < n" and "base d i = 0" and "undisturbed (snapWait d i) (snapReady d i) (received d i)"
  shows "fold (\<lambda>d i. reached i d) (map cmd_of (received d i)) 0 = int (length (received d i))"
proof -
  note c = received_commands [OF assms]
  have "length (received d i) = length (map CommandIndex (received d i))" by simp
  then have len: "length (received d i) = nat (seenUpTo (lastApplied (nodes (cl d) i)) (phase_of d i))"
    unfolding c by simp
  show ?thesis
  proof (cases "received d i")
    case Nil
    then show ?thesis by simp
  next
    case (Cons m ms)
    then have "0 < seenUpTo (lastApplied (nodes (cl d) i)) (phase_of d i)" using len by simp
    then show ?thesis using reached_upto [of "received d i" 0 "seenUpTo (lastApplied (nodes (cl d) i)) (phase_of d i)"] c len by simp
  qed
qed

lemma sk_on_raft:
  assumes "apply_reach n d" and "(apply_step n)\<^sup>*\<^sup>* d d'" and "i < n" and "j < n"
    and "base d i = 0" and "undisturbed (snapWait d i) (snapReady d i) (received d i)"
    and "base d' j = 0" and "undisturbed (snapWait d' j) (snapReady d' j) (received d' j)"
    and "skStartServer n a MakePersister limit gid = Some kva" and "skStartServer n b MakePersister limit gid = Some kvb"
    and "for_loop (map (decoded dec) (received d i)) (\<lambda>x kv. skApply sz kv x) kva = Some kva'"
    and "for_loop (map (decoded dec) (received d' j)) (\<lambda>x kv. skApply sz kv x) kvb = Some kvb'"
    and "length (received d i) = length (received d' j)"
  shows "sk_shards kva' = sk_shards kvb' \<and> sk_duptable kva' = sk_duptable kvb' \<and>
    sk_cfg kva' = sk_cfg kvb' \<and> sk_lastCfg kva' = sk_lastCfg kvb'"
proof -
  obtain \<sigma> where \<sigma>: "run n \<sigma>" "\<forall>m \<in> set (received d i). delivers \<sigma> i m" "\<forall>m \<in> set (received d' j). delivers \<sigma> j m"
    using received_delivers [OF assms(1,2,6,8)] by blast
  note R = assms(1,3,5,6) and R' = reach_steps [OF assms(2,1)] assms(4,7,8)
  obtain lg where lg: "orderly False (sk_ap gid) (sk_start limit) id lg 0 (map cmd_of (received d i))"
    "orderly False (sk_ap gid) (sk_start limit) id lg 0 (map cmd_of (received d' j))"
    using one_log [OF \<sigma>(1) assms(3,4) \<sigma>(2,3) received_steady [OF R] received_steady [OF R'], of False "sk_ap gid" "sk_start limit" id]
    by blast
  let ?da = "map cmd_of (received d i) :: (SkOp, SkSnapshot) delivery list"
  let ?db = "map cmd_of (received d' j) :: (SkOp, SkSnapshot) delivery list"
  have eq: "fold (\<lambda>d i. reached i d) ?da 0 = fold (\<lambda>d i. reached i d) ?db 0"
    unfolding received_reached [OF R] received_reached [OF R'] assms(13) ..
  show ?thesis
    using sk_agree [OF assms(9,10) delivered_sk_msg [OF \<sigma>(1) assms(3) \<sigma>(2)] lg(1)
        delivered_sk_msg [OF \<sigma>(1) assms(4) \<sigma>(3)] lg(2) assms(11,12) eq] .
qed

end
